(* ===== verification/Prelude.thy ===== *)
theory Prelude
  imports Main "HOL-Library.Word"
begin

text \<open>
  Shared vocabulary of the development: the machine types of the crate, the outcome of a
  Rust computation (a value, an error, a panic, a loop that never ends), slices and
  checked indexing, the integer casts, little-endian byte strings, and the lemmas about
  them that every component uses.

  \<^item> \<open>outcome\<close> separates the four ways a call of the crate can go. \<open>Err\<close> is the
    \<open>Err(..)\<close> of a \<open>Result\<close>; \<open>Panic\<close> is a Rust panic (an index or a slice out of
    range, an unsigned subtraction below zero, a failed \<open>assert!\<close>); \<open>Hang\<close> is a loop
    that makes no progress. Panic freedom and termination are theorems, not conventions.
  \<^item> \<open>usize\<close>, lengths, counters and bit counts are \<open>nat\<close>; registers that are shifted
    and masked are words of their width; narrowing casts are written out (\<open>as_u8\<close>, ...).
    The model is that of a 64-bit host (\<open>usize_max\<close>).
\<close>

unbundle bit_operations_syntax

section \<open>Collections of rules\<close>

named_theorems outcome_simps \<open>rewriting of sequenced outcomes\<close>
named_theorems le_simps \<open>values and lengths of little-endian byte strings\<close>
named_theorems cast_simps \<open>casts that do not truncate\<close>

section \<open>Machine types\<close>

type_synonym byte = "8 word"
type_synonym u32 = "32 word"
type_synonym u64 = "64 word"

definition usize_max :: nat where
  "usize_max = 2 ^ 64 - 1"

definition as_u8 :: "nat \<Rightarrow> nat" where
  "as_u8 n = n mod 2 ^ 8"

definition as_u16 :: "nat \<Rightarrow> nat" where
  "as_u16 n = n mod 2 ^ 16"

definition as_u32 :: "nat \<Rightarrow> nat" where
  "as_u32 n = n mod 2 ^ 32"

definition as_i16 :: "int \<Rightarrow> int" where
  "as_i16 n = (n + 2 ^ 15) mod 2 ^ 16 - 2 ^ 15"

definition int_as_u32 :: "int \<Rightarrow> nat" where
  "int_as_u32 n = nat (n mod 2 ^ 32)"

lemma as_u8_small [cast_simps]: "n < 256 \<Longrightarrow> as_u8 n = n"
  by (simp add: as_u8_def)

lemma as_u16_small [cast_simps]: "n < 65536 \<Longrightarrow> as_u16 n = n"
  by (simp add: as_u16_def)

lemma as_u32_small [cast_simps]: "n < 2 ^ 32 \<Longrightarrow> as_u32 n = n"
  by (simp add: as_u32_def)

lemma as_i16_small [cast_simps]: "- 32768 \<le> n \<Longrightarrow> n < 32768 \<Longrightarrow> as_i16 n = n"
  by (simp add: as_i16_def)

lemma int_as_u32_small [cast_simps]: "0 \<le> n \<Longrightarrow> n < 2 ^ 32 \<Longrightarrow> int_as_u32 n = nat n"
  by (simp add: int_as_u32_def)

text \<open>Rust's \<open>checked_add\<close>, \<open>saturating_add\<close>, \<open>saturating_mul\<close> and \<open>wrapping_sub(1)\<close>
  on \<open>usize\<close>; \<open>saturating_sub\<close> is the subtraction of \<open>nat\<close>.\<close>

definition checked_add :: "nat \<Rightarrow> nat \<Rightarrow> nat option" where
  "checked_add a b = (if a + b \<le> usize_max then Some (a + b) else None)"

definition saturating_add :: "nat \<Rightarrow> nat \<Rightarrow> nat" where
  "saturating_add a b = min (a + b) usize_max"

definition checked_mul :: "nat \<Rightarrow> nat \<Rightarrow> nat option" where
  "checked_mul a b = (if a * b \<le> usize_max then Some (a * b) else None)"

definition wrapping_dec :: "nat \<Rightarrow> nat" where
  "wrapping_dec n = (if n = 0 then usize_max else n - 1)"

definition div_ceil :: "nat \<Rightarrow> nat \<Rightarrow> nat" where
  "div_ceil a b = (if a mod b = 0 then a div b else a div b + 1)"

lemma div_ceil_le:
  assumes "a \<le> b * m" and "0 < b"
  shows "div_ceil a b \<le> m"
proof (cases "a mod b = 0")
  case True
  then show ?thesis using assms by (simp add: div_ceil_def less_eq_div_iff_mult_less_eq div_le_mono
      order.trans [OF div_le_mono [OF assms(1)]])
next
  case False
  have "b * (a div b) < b * m"
    using assms(1) False by (metis mult_div_mod_eq less_add_same_cancel1 neq0_conv order_less_le_trans)
  then show ?thesis using False by (simp add: div_ceil_def)
qed

lemma div_ceil_bounds:
  assumes "0 < b"
  shows "a \<le> b * div_ceil a b" and "b * div_ceil a b < a + b"
proof -
  define q m where "q = a div b" and "m = a mod b"
  have "a = b * q + m" "m < b" using assms by (auto simp: q_def m_def)
  then show "a \<le> b * div_ceil a b" "b * div_ceil a b < a + b"
    by (auto simp: div_ceil_def distrib_left simp flip: q_def m_def)
qed

section \<open>Outcomes\<close>

datatype ('e, 'a) outcome = Ok 'a | Err 'e | Panic | Hang

definition obind :: "('e, 'a) outcome \<Rightarrow> ('a \<Rightarrow> ('e, 'b) outcome) \<Rightarrow> ('e, 'b) outcome" where
  "obind m f = (case m of Ok x \<Rightarrow> f x | Err e \<Rightarrow> Err e | Panic \<Rightarrow> Panic | Hang \<Rightarrow> Hang)"

text \<open>A call that returns to its caller: with a value or with an error.\<close>

definition returns :: "('e, 'a) outcome \<Rightarrow> bool" where
  "returns m = (case m of Ok _ \<Rightarrow> True | Err _ \<Rightarrow> True | Panic \<Rightarrow> False | Hang \<Rightarrow> False)"

definition is_ok :: "('e, 'a) outcome \<Rightarrow> bool" where
  "is_ok m = (case m of Ok _ \<Rightarrow> True | Err _ \<Rightarrow> False | Panic \<Rightarrow> False | Hang \<Rightarrow> False)"

lemma obind_simps [simp, outcome_simps]:
  "obind (Ok x) f = f x"
  "obind (Err e) f = Err e"
  "obind Panic f = Panic"
  "obind Hang f = Hang"
  by (simp_all add: obind_def)

lemma returns_simps [simp, outcome_simps]:
  "returns (Ok x)"
  "returns (Err e)"
  "\<not> returns Panic"
  "\<not> returns Hang"
  by (simp_all add: returns_def)

lemma is_ok_simps [simp, outcome_simps]:
  "is_ok (Ok x)"
  "\<not> is_ok (Err e)"
  "\<not> is_ok Panic"
  "\<not> is_ok Hang"
  by (simp_all add: is_ok_def)

primrec the_ok :: "('e, 'a) outcome \<Rightarrow> 'a" where
  "the_ok (Ok x) = x"

lemma is_ok_iff: "is_ok m \<longleftrightarrow> (\<exists>x. m = Ok x)"
  by (cases m) auto

lemma returns_iff: "returns m \<longleftrightarrow> m \<noteq> Panic \<and> m \<noteq> Hang"
  by (cases m) auto

lemma obind_eq_Ok [outcome_simps]: "obind m f = Ok y \<longleftrightarrow> (\<exists>x. m = Ok x \<and> f x = Ok y)"
  by (cases m) auto

lemma Ok_eq_obind [outcome_simps]: "Ok y = obind m f \<longleftrightarrow> (\<exists>x. m = Ok x \<and> f x = Ok y)"
  by (cases m) auto

lemma returns_obind [outcome_simps]:
  "returns (obind m f) \<longleftrightarrow> returns m \<and> (\<forall>x. m = Ok x \<longrightarrow> returns (f x))"
  by (cases m) auto

lemma obind_assoc: "obind (obind m f) g = obind m (\<lambda>x. obind (f x) g)"
  by (cases m) auto

lemma obind_cong [fundef_cong]:
  "m = m' \<Longrightarrow> (\<And>x. m' = Ok x \<Longrightarrow> f x = f' x) \<Longrightarrow> obind m f = obind m' f'"
  by (cases m') auto

lemma obind_returnsI:
  "returns m \<Longrightarrow> (\<And>x. m = Ok x \<Longrightarrow> returns (f x)) \<Longrightarrow> returns (obind m f)"
  by (simp add: returns_obind)

lemma obind_OkE:
  assumes "obind m f = Ok y"
  obtains x where "m = Ok x" and "f x = Ok y"
  using assms by (auto simp: obind_eq_Ok)

section \<open>Indexing, slicing, subtraction\<close>

definition idx :: "'a list \<Rightarrow> nat \<Rightarrow> ('e, 'a) outcome" where
  "idx xs i = (if i < length xs then Ok (xs ! i) else Panic)"

definition upd :: "'a list \<Rightarrow> nat \<Rightarrow> 'a \<Rightarrow> ('e, 'a list) outcome" where
  "upd xs i v = (if i < length xs then Ok (xs[i := v]) else Panic)"

definition slice_range :: "'a list \<Rightarrow> nat \<Rightarrow> nat \<Rightarrow> ('e, 'a list) outcome" where
  "slice_range xs a b = (if a \<le> b \<and> b \<le> length xs then Ok (take (b - a) (drop a xs)) else Panic)"

definition slice_from :: "'a list \<Rightarrow> nat \<Rightarrow> ('e, 'a list) outcome" where
  "slice_from xs a = (if a \<le> length xs then Ok (drop a xs) else Panic)"

definition usub :: "nat \<Rightarrow> nat \<Rightarrow> ('e, nat) outcome" where
  "usub a b = (if b \<le> a then Ok (a - b) else Panic)"

lemma idx_Ok [simp]: "i < length xs \<Longrightarrow> idx xs i = Ok (xs ! i)"
  by (simp add: idx_def)

lemma upd_Ok [simp]: "i < length xs \<Longrightarrow> upd xs i v = Ok (xs[i := v])"
  by (simp add: upd_def)

lemma slice_range_Ok [simp]: "a \<le> b \<Longrightarrow> b \<le> length xs \<Longrightarrow> slice_range xs a b = Ok (take (b - a) (drop a xs))"
  by (simp add: slice_range_def)

lemma slice_from_Ok [simp]: "a \<le> length xs \<Longrightarrow> slice_from xs a = Ok (drop a xs)"
  by (simp add: slice_from_def)

lemma usub_Ok [simp]: "b \<le> a \<Longrightarrow> usub a b = Ok (a - b)"
  by (simp add: usub_def)

lemma idx_eq_Ok [outcome_simps]: "idx xs i = Ok x \<longleftrightarrow> i < length xs \<and> x = xs ! i"
  by (auto simp: idx_def)

lemma upd_eq_Ok [outcome_simps]: "upd xs i v = Ok ys \<longleftrightarrow> i < length xs \<and> ys = xs[i := v]"
  by (auto simp: upd_def)

lemma slice_range_eq_Ok [outcome_simps]:
  "slice_range xs a b = Ok ys \<longleftrightarrow> a \<le> b \<and> b \<le> length xs \<and> ys = take (b - a) (drop a xs)"
  by (auto simp: slice_range_def)

lemma slice_from_eq_Ok [outcome_simps]:
  "slice_from xs a = Ok ys \<longleftrightarrow> a \<le> length xs \<and> ys = drop a xs"
  by (auto simp: slice_from_def)

lemma usub_eq_Ok [outcome_simps]: "usub a b = Ok c \<longleftrightarrow> b \<le> a \<and> c = a - b"
  by (auto simp: usub_def)

lemma checked_returns [outcome_simps]:
  "returns (idx xs i) \<longleftrightarrow> i < length xs"
  "returns (upd xs i v) \<longleftrightarrow> i < length xs"
  "returns (slice_range xs a b) \<longleftrightarrow> a \<le> b \<and> b \<le> length xs"
  "returns (slice_from xs a) \<longleftrightarrow> a \<le> length xs"
  "returns (usub m n) \<longleftrightarrow> n \<le> m"
  by (simp_all add: idx_def upd_def slice_range_def slice_from_def usub_def)

section \<open>Iterators\<close>

text \<open>\<open>partition_point\<close> of the standard library: the length of the prefix that satisfies the predicate,
  for a slice that is partitioned by it.\<close>

definition partition_point :: "('a \<Rightarrow> bool) \<Rightarrow> 'a list \<Rightarrow> nat" where
  "partition_point P xs = length (takeWhile P xs)"

text \<open>Mapping a call that may fail over a list, left to right.\<close>

fun traverse :: "('a \<Rightarrow> ('e, 'b) outcome) \<Rightarrow> 'a list \<Rightarrow> ('e, 'b list) outcome" where
  "traverse f [] = Ok []"
| "traverse f (x # xs) = obind (f x) (\<lambda>y. obind (traverse f xs) (\<lambda>ys. Ok (y # ys)))"

lemma traverse_Ok: "(\<And>x. x \<in> set xs \<Longrightarrow> f x = Ok (g x)) \<Longrightarrow> traverse f xs = Ok (map g xs)"
  by (induction xs) auto

section \<open>Histograms\<close>

text \<open>The loop \<open>freq[c] += 1\<close> over a list of codes, and the number of codes that occur.\<close>

fun tally :: "nat list \<Rightarrow> nat list \<Rightarrow> ('e, nat list) outcome" where
  "tally freq [] = Ok freq"
| "tally freq (c # cs) = obind (idx freq c) (\<lambda>f. tally (freq[c := f + 1]) cs)"

definition count_present :: "nat list \<Rightarrow> nat" where
  "count_present freq = length (filter (\<lambda>f. 0 < f) freq)"

lemma tally_spec:
  assumes "\<forall>c \<in> set codes. c < length freq"
  shows "\<exists>freq'. tally freq codes = Ok freq' \<and> length freq' = length freq \<and> sum_list freq' = sum_list freq + length codes
    \<and> (\<forall>i < length freq. freq' ! i = freq ! i + count_list codes i)"
  using assms
proof (induction codes arbitrary: freq)
  case Nil
  then show ?case by simp
next
  case (Cons c cs)
  have c: "c < length freq" using Cons.prems by simp
  have "sum_list (freq[c := freq ! c + 1]) = sum_list freq + 1"
    using c by (simp add: sum_list_update elem_le_sum_list)
  then show ?case using Cons.IH [of "freq[c := freq ! c + 1]"] Cons.prems c by (auto simp: nth_list_update)
qed

section \<open>Postconditions\<close>

text \<open>\<open>post m P Q\<close>: the call \<open>m\<close> returns, with a value that satisfies \<open>P\<close> or an error that
  satisfies \<open>Q\<close>. Its rules compute the weakest precondition of a sequence of calls.\<close>

definition post :: "('e, 'a) outcome \<Rightarrow> ('a \<Rightarrow> bool) \<Rightarrow> ('e \<Rightarrow> bool) \<Rightarrow> bool" where
  "post m P Q = (case m of Ok x \<Rightarrow> P x | Err e \<Rightarrow> Q e | Panic \<Rightarrow> False | Hang \<Rightarrow> False)"

named_theorems wp \<open>weakest preconditions of the primitive calls\<close>

lemma post_simps [simp]:
  "post (Ok x) P Q \<longleftrightarrow> P x"
  "post (Err e) P Q \<longleftrightarrow> Q e"
  "post Panic P Q \<longleftrightarrow> False"
  "post Hang P Q \<longleftrightarrow> False"
  by (simp_all add: post_def)

lemma post_obind [wp]: "post (obind m f) P Q \<longleftrightarrow> post m (\<lambda>x. post (f x) P Q) Q"
  by (cases m) simp_all

lemma post_checked [wp]:
  "post (idx xs i) P Q \<longleftrightarrow> i < length xs \<and> P (xs ! i)"
  "post (upd xs i v) R Q \<longleftrightarrow> i < length xs \<and> R (xs[i := v])"
  "post (slice_range xs a b) R Q \<longleftrightarrow> a \<le> b \<and> b \<le> length xs \<and> R (take (b - a) (drop a xs))"
  "post (slice_from xs a) R Q \<longleftrightarrow> a \<le> length xs \<and> R (drop a xs)"
  "post (usub m n) S Q \<longleftrightarrow> n \<le> m \<and> S (m - n)"
  by (auto simp: idx_def upd_def slice_range_def slice_from_def usub_def)

lemma post_mono:
  "post m P Q \<Longrightarrow> (\<And>x. m = Ok x \<Longrightarrow> P x \<Longrightarrow> P' x) \<Longrightarrow> (\<And>e. Q e \<Longrightarrow> Q' e) \<Longrightarrow> post m P' Q'"
  by (cases m) auto

lemma post_conj: "post m P Q \<Longrightarrow> post m P' Q' \<Longrightarrow> post m (\<lambda>x. P x \<and> P' x) (\<lambda>e. Q e \<and> Q' e)"
  by (cases m) auto

lemma returns_post: "returns m \<longleftrightarrow> post m (\<lambda>_. True) (\<lambda>_. True)"
  by (cases m) auto

lemma post_returns: "post m P Q \<Longrightarrow> returns m"
  by (cases m) auto

lemma post_OkD: "post m P Q \<Longrightarrow> m = Ok x \<Longrightarrow> P x"
  by simp

lemma post_ErrD: "post m P Q \<Longrightarrow> m = Err e \<Longrightarrow> Q e"
  by simp

section \<open>Results that stay\<close>

text \<open>\<open>ok_le m m'\<close>: what \<open>m\<close> computes successfully, \<open>m'\<close> computes too. The order in which calls
  on an input and on a longer input, or under a higher ceiling, are compared.\<close>

definition ok_le :: "('e, 'a) outcome \<Rightarrow> ('e, 'a) outcome \<Rightarrow> bool" where
  "ok_le m m' \<longleftrightarrow> (\<forall>x. m = Ok x \<longrightarrow> m' = Ok x)"

named_theorems ok_le_intros \<open>comparison of sequences of calls\<close>

lemma ok_leD: "ok_le m m' \<Longrightarrow> m = Ok x \<Longrightarrow> m' = Ok x"
  by (simp add: ok_le_def)

lemma ok_leI: "(\<And>x. m = Ok x \<Longrightarrow> m' = Ok x) \<Longrightarrow> ok_le m m'"
  by (simp add: ok_le_def)

lemma ok_le_obind [ok_le_intros]:
  "ok_le m m' \<Longrightarrow> (\<And>x. m = Ok x \<Longrightarrow> ok_le (f x) (f' x)) \<Longrightarrow> ok_le (obind m f) (obind m' f')"
  by (auto simp: ok_le_def obind_eq_Ok)

lemma ok_le_basic [ok_le_intros]:
  "ok_le m m" "ok_le (Err e) m" "ok_le Panic m" "ok_le Hang m"
  by (simp_all add: ok_le_def)

lemma ok_le_branch [ok_le_intros]:
  "(b \<Longrightarrow> ok_le m m') \<Longrightarrow> (\<not> b \<Longrightarrow> ok_le n n') \<Longrightarrow> ok_le (if b then m else n) (if b then m' else n')"
  "(\<And>x y. p = (x, y) \<Longrightarrow> ok_le (g x y) (g' x y)) \<Longrightarrow> ok_le (case p of (x, y) \<Rightarrow> g x y) (case p of (x, y) \<Rightarrow> g' x y)"
  by (auto split: prod.split)

lemma ok_le_slices [ok_le_intros]:
  "ok_le (idx xs i) (idx (xs @ ys) i)"
  "ok_le (slice_range xs a b) (slice_range (xs @ ys) a b)"
  by (auto simp: ok_le_def outcome_simps nth_append)

section \<open>Decimal text of the error messages\<close>

fun dec :: "nat \<Rightarrow> string" where
  "dec n = (if n < 10 then [char_of (48 + n)] else dec (n div 10) @ [char_of (48 + n mod 10)])"

definition dec_int :: "int \<Rightarrow> string" where
  "dec_int n = (if n < 0 then CHR ''-'' # dec (nat (- n)) else dec (nat n))"

declare dec.simps [simp del]

end
