(* ===== verification/Bytes.thy ===== *)
theory Bytes
  imports Prelude
begin

text \<open>
  Little-endian byte strings: the value of a byte string (\<open>le_val\<close>), Rust's
  \<open>to_le_bytes\<close> and \<open>from_le_bytes\<close>, and the shift-and-or loop with which the crate
  assembles short fields. Numbers are read as \<open>nat\<close>, so that the bit readers and writers
  can be specified by \<open>div\<close> and \<open>mod\<close> on the number a whole stream denotes.
\<close>

unbundle bit_operations_syntax

fun le_val :: "byte list \<Rightarrow> nat" where
  "le_val [] = 0"
| "le_val (b # bs) = unat b + 256 * le_val bs"

fun le_bytes :: "nat \<Rightarrow> nat \<Rightarrow> byte list" where
  "le_bytes 0 n = []"
| "le_bytes (Suc k) n = word_of_nat n # le_bytes k (n div 256)"

definition from_le_bytes :: "byte list \<Rightarrow> 'a::len word" where
  "from_le_bytes bs = word_of_nat (le_val bs)"

text \<open>\<open>for (k, b) in bytes.enumerate() { v |= (b as uN) << (8 * k) }\<close>\<close>

definition or_le_bytes :: "byte list \<Rightarrow> 'a::len word" where
  "or_le_bytes bs = fold (\<lambda>(k, b) v. v OR push_bit (8 * k) (ucast b)) (enumerate 0 bs) 0"

section \<open>Values\<close>

lemma unat_byte_less [simp]: "unat (b :: byte) < 256"
  using unsigned_less [of b] by simp

lemma le_val_append [le_simps]: "le_val (xs @ ys) = le_val xs + 256 ^ length xs * le_val ys"
  by (induction xs) (auto simp: algebra_simps)

lemma le_val_bound: "le_val xs < 256 ^ length xs"
proof (induction xs)
  case Nil
  then show ?case by simp
next
  case (Cons b bs)
  have "unat b + 256 * le_val bs < 256 + 256 * le_val bs"
    using unat_byte_less [of b] by simp
  also have "\<dots> = 256 * (le_val bs + 1)" by simp
  also have "\<dots> \<le> 256 * 256 ^ length bs"
    using Cons.IH by simp
  finally show ?case by simp
qed

lemma le_val_bound_bits: "le_val xs < 2 ^ (8 * length xs)"
proof -
  have "(2::nat) ^ (8 * length xs) = 256 ^ length xs" by (simp add: power_mult)
  then show ?thesis using le_val_bound [of xs] by simp
qed

lemma le_val_take [le_simps]: "le_val (take k xs) = le_val xs mod 256 ^ k"
proof (cases "k \<le> length xs")
  case True
  have "le_val xs = le_val (take k xs) + 256 ^ k * le_val (drop k xs)"
    using le_val_append [of "take k xs" "drop k xs"] True by (simp add: min_absorb2)
  moreover have "le_val (take k xs) < 256 ^ k"
    using le_val_bound [of "take k xs"] True by (simp add: min_absorb2)
  ultimately show ?thesis by simp
next
  case False
  have "le_val xs < 256 ^ length xs" by (rule le_val_bound)
  also have "(256::nat) ^ length xs \<le> 256 ^ k" using False by (intro power_increasing) auto
  finally show ?thesis using False by simp
qed

lemma le_val_drop [le_simps]: "le_val (drop k xs) = le_val xs div 256 ^ k"
proof (cases "k \<le> length xs")
  case True
  have "le_val xs = le_val (take k xs) + 256 ^ k * le_val (drop k xs)"
    using le_val_append [of "take k xs" "drop k xs"] True by (simp add: min_absorb2)
  moreover have "le_val (take k xs) < 256 ^ k"
    using le_val_bound [of "take k xs"] True by (simp add: min_absorb2)
  ultimately show ?thesis by simp
next
  case False
  have "le_val xs < 256 ^ length xs" by (rule le_val_bound)
  also have "(256::nat) ^ length xs \<le> 256 ^ k" using False by (intro power_increasing) auto
  finally show ?thesis using False by simp
qed

lemma le_val_replicate_0 [le_simps]: "le_val (replicate n 0) = 0"
  by (induction n) auto

lemma length_le_bytes [simp, le_simps]: "length (le_bytes k n) = k"
  by (induction k arbitrary: n) auto

lemma le_val_le_bytes [le_simps]: "le_val (le_bytes k n) = n mod 256 ^ k"
proof (induction k arbitrary: n)
  case 0
  then show ?case by simp
next
  case (Suc k)
  have "le_val (le_bytes (Suc k) n) = n mod 256 + 256 * (n div 256 mod 256 ^ k)"
    by (simp add: Suc unat_of_nat)
  also have "\<dots> = n mod (256 * 256 ^ k)"
    by (simp add: mod_mult2_eq)
  finally show ?case by simp
qed

lemma le_val_le_bytes_small [le_simps]: "n < 256 ^ k \<Longrightarrow> le_val (le_bytes k n) = n"
  by (simp add: le_val_le_bytes)

lemma le_bytes_le_val [le_simps]: "le_bytes (length bs) (le_val bs) = bs"
proof (induction bs)
  case Nil
  then show ?case by simp
next
  case (Cons b bs)
  have "(unat b + 256 * le_val bs) div 256 = le_val bs"
    using unat_byte_less [of b] by simp
  moreover have "(word_of_nat (unat b + 256 * le_val bs) :: byte) = b"
  proof (rule unsigned_word_eqI)
    show "unat (word_of_nat (unat b + 256 * le_val bs) :: byte) = unat b"
      using unat_byte_less [of b] by (simp only: unat_of_nat) simp
  qed
  ultimately show ?case by (simp add: Cons)
qed

lemma le_bytes_eq_iff: "length bs = k \<Longrightarrow> le_val bs = n \<Longrightarrow> le_bytes k n = bs"
  using le_bytes_le_val by blast

lemma le_val_inj: "length xs = length ys \<Longrightarrow> le_val xs = le_val ys \<Longrightarrow> xs = ys"
  by (metis le_bytes_le_val)

lemma take_le_bytes [le_simps]: "j \<le> k \<Longrightarrow> take j (le_bytes k n) = le_bytes j n"
proof (induction j arbitrary: k n)
  case 0
  then show ?case by simp
next
  case (Suc j)
  then obtain k' where "k = Suc k'" by (cases k) auto
  with Suc show ?case by simp
qed

lemma le_bytes_mod [le_simps]: "le_bytes k (n mod 256 ^ k) = le_bytes k n"
proof -
  have "le_val (le_bytes k (n mod 256 ^ k)) = le_val (le_bytes k n)"
    by (simp add: le_val_le_bytes)
  then show ?thesis by (rule le_val_inj [rotated]) simp
qed

text \<open>The same laws with the weights as powers of two.\<close>

lemma le_val_append_bits: "le_val (xs @ ys) = le_val xs + 2 ^ (8 * length xs) * le_val ys"
  by (simp add: le_val_append power_mult)

lemma le_val_le_bytes_bits: "le_val (le_bytes k n) = n mod 2 ^ (8 * k)"
  by (simp add: le_val_le_bytes power_mult)

section \<open>Words assembled from bytes\<close>

lemma unat_from_le_bytes: "unat (from_le_bytes bs :: 'a::len word) = le_val bs mod 2 ^ LENGTH('a)"
  by (simp add: from_le_bytes_def unat_of_nat)

lemma unat_from_le_bytes_64 [le_simps]:
  "length bs \<le> 8 \<Longrightarrow> unat (from_le_bytes bs :: u64) = le_val bs"
proof -
  assume "length bs \<le> 8"
  then have "(256::nat) ^ length bs \<le> 256 ^ 8" by (intro power_increasing) auto
  with le_val_bound [of bs] have "le_val bs < 2 ^ 64" by simp
  then show ?thesis by (simp add: unat_from_le_bytes)
qed

lemma unat_from_le_bytes_32 [le_simps]:
  "length bs \<le> 4 \<Longrightarrow> unat (from_le_bytes bs :: u32) = le_val bs"
proof -
  assume "length bs \<le> 4"
  then have "(256::nat) ^ length bs \<le> 256 ^ 4" by (intro power_increasing) auto
  with le_val_bound [of bs] have "le_val bs < 2 ^ 32" by simp
  then show ?thesis by (simp add: unat_from_le_bytes)
qed

lemma or_disjoint_add:
  fixes v b :: "'a::len word"
  assumes "unat v < 2 ^ k"
  shows "v OR push_bit k b = v + push_bit k b"
proof -
  have "v AND push_bit k b = 0"
  proof (rule bit_word_eqI)
    fix i assume "i < LENGTH('a)"
    show "bit (v AND push_bit k b) i \<longleftrightarrow> bit (0 :: 'a word) i"
    proof (cases "i < k")
      case True
      then show ?thesis by (simp add: bit_and_iff bit_push_bit_iff)
    next
      case False
      then have "(2::nat) ^ k \<le> 2 ^ i" by (intro power_increasing) auto
      with assms have "unat v < 2 ^ i" by (rule order_less_le_trans)
      then have "\<not> bit (unat v) i" by (simp add: bit_iff_odd)
      then have "\<not> bit v i" using \<open>i < LENGTH('a)\<close> by (simp add: bit_unsigned_iff)
      then show ?thesis by (simp add: bit_and_iff)
    qed
  qed
  then show ?thesis by (simp add: disjunctive_add_eq_or)
qed

lemma push_bit_of_nat_word: "push_bit k (word_of_nat n :: 'a::len word) = word_of_nat (2 ^ k * n)"
  by (simp add: push_bit_eq_mult mult.commute)

lemma or_le_bytes_fold:
  assumes "a < 2 ^ (8 * k)"
  shows "fold (\<lambda>(k, b) v. v OR push_bit (8 * k) (ucast b)) (enumerate k bs) (word_of_nat a)
    = (word_of_nat (a + 2 ^ (8 * k) * le_val bs) :: 'a::len word)"
  using assms
proof (induction bs arbitrary: a k)
  case Nil
  then show ?case by simp
next
  case (Cons b bs)
  have "unat (word_of_nat a :: 'a word) \<le> a"
    by (simp add: unat_of_nat)
  with Cons.prems have "unat (word_of_nat a :: 'a word) < 2 ^ (8 * k)" by simp
  then have "(word_of_nat a :: 'a word) OR push_bit (8 * k) (ucast b)
      = word_of_nat a + push_bit (8 * k) (ucast b)"
    by (rule or_disjoint_add)
  also have "\<dots> = word_of_nat a + push_bit (8 * k) (word_of_nat (unat b))" by simp
  finally have step: "(word_of_nat a :: 'a word) OR push_bit (8 * k) (ucast b)
      = word_of_nat (a + 2 ^ (8 * k) * unat b)"
    by (simp only: push_bit_of_nat_word of_nat_add)
  have "unat b \<le> 255"
    using unat_byte_less [of b] by linarith
  then have "2 ^ (8 * k) * unat b \<le> 2 ^ (8 * k) * 255"
    by (rule mult_left_mono) simp
  with Cons.prems have "a + 2 ^ (8 * k) * unat b < 2 ^ (8 * k) + 2 ^ (8 * k) * 255"
    by (rule add_less_le_mono)
  then have lt: "a + 2 ^ (8 * k) * unat b < 2 ^ (8 * Suc k)"
    by (simp add: power_add)
  show ?case
    using Cons.IH [OF lt] step by (simp add: power_add algebra_simps)
qed

lemma or_le_bytes_eq [le_simps]: "or_le_bytes bs = from_le_bytes bs"
  using or_le_bytes_fold [of 0 0 bs] by (simp add: or_le_bytes_def from_le_bytes_def)

end
