(* ===== verification/Zstd_Error.thy ===== *)
theory Zstd_Error
  imports Bytes
begin

text \<open>
  \<^verbatim>\<open>src/error.rs\<close>: the error enum of the crate and its \<open>Result\<close>. The detail
  texts are kept, with the numbers the code formats into them; \<open>display_error\<close> is the text the
  \<open>thiserror\<close> attributes give an error.
\<close>

datatype zstd_error =
    Truncated (what: string) (needed: nat)
  | BadMagic u32
  | ReservedBit string
  | Invalid string string
  | OutputTooLarge (limit: nat)
  | CorruptTable string
  | OffsetTooLarge (offset: nat) (history: nat)
  | ChecksumMismatch (stored: u32) (computed: u32)
  | Dictionary string

type_synonym 'a result = "(zstd_error, 'a) outcome"

section \<open>Display\<close>

text \<open>The text of an error. Hexadecimal numbers have eight digits, \<open>{:08x}\<close>.\<close>

definition hex_digit :: "nat \<Rightarrow> char" where
  "hex_digit n = (if n < 10 then char_of (48 + n) else char_of (87 + n))"

definition hex8 :: "u32 \<Rightarrow> string" where
  "hex8 w = map (\<lambda>i. hex_digit (unat w div 16 ^ i mod 16)) (rev [0..<8])"

definition display_error :: "zstd_error \<Rightarrow> string" where
  "display_error e = ''zstd: '' @
     (case e of
        Truncated wh n \<Rightarrow> ''unexpected end of input (need '' @ dec n @ '' more byte(s) for '' @ wh @ '')''
      | BadMagic m \<Rightarrow> ''bad frame magic 0x'' @ hex8 m @ '' (expected 0xfd2fb528)''
      | ReservedBit f \<Rightarrow> ''reserved bit set in '' @ f
      | Invalid wh detail \<Rightarrow> ''invalid '' @ wh @ '': '' @ detail
      | OutputTooLarge l \<Rightarrow> ''output exceeds the '' @ dec l @ ''-byte ceiling''
      | CorruptTable t \<Rightarrow> ''corrupt entropy table: '' @ t
      | OffsetTooLarge n h \<Rightarrow> ''offset '' @ dec n @ '' exceeds history '' @ dec h @ '' (corrupt sequence)''
      | ChecksumMismatch s c \<Rightarrow>
          ''content checksum mismatch (frame 0x'' @ hex8 s @ '' != computed 0x'' @ hex8 c @ '')''
      | Dictionary t \<Rightarrow> ''dictionary error: '' @ t)"

end
