(* ===== verification/Bits.thy ===== *)
theory Bits
  imports Zstd_Error
begin

text \<open>
  \<^verbatim>\<open>src/bits.rs\<close>: the two bit readers. A backward stream is specified by the number
  its bytes denote: the sentinel is the highest set bit, and reading \<open>n\<close> bits takes the
  top \<open>n\<close> of the bits below the position. The reader's 64-bit container, its consumed-bit
  counter and the byte index of the container are related to that position by
  \<open>rbr_inv\<close>; \<open>rbr_reload\<close> moves the container without moving the position. The forward
  reader takes its bits from the bottom of the same number.
\<close>

unbundle bit_operations_syntax

section \<open>Position of the highest set bit\<close>

definition leading_zeros32 :: "nat \<Rightarrow> nat" where
  "leading_zeros32 x = length (takeWhile (\<lambda>i. \<not> bit x i) (rev [0..<32]))"

definition highbit32 :: "nat \<Rightarrow> nat" where
  "highbit32 x = 31 - leading_zeros32 x"

lemma leading_zeros32_unique:
  assumes lo: "2 ^ k \<le> x" and hi: "x < 2 ^ Suc k" and k: "k < 32"
  shows "leading_zeros32 x = 31 - k"
proof -
  have above: "\<not> bit x i" if "k < i" for i
  proof -
    have "(2::nat) ^ Suc k \<le> 2 ^ i" using that by (intro power_increasing) auto
    with hi have "x < 2 ^ i" by simp
    then show ?thesis by (simp add: bit_iff_odd)
  qed
  have "x div 2 ^ k = 1"
    using lo hi by (intro div_nat_eqI) auto
  then have at: "bit x k" by (simp add: bit_iff_odd)
  have split: "rev [0..<32] = rev [Suc k..<32] @ k # rev [0..<k]"
  proof -
    have "[0..<32] = [0..<k] @ [k..<32]"
      using k upt_add_eq_append [of 0 k "32 - k"] by simp
    also have "[k..<32] = k # [Suc k..<32]"
      using k by (simp add: upt_conv_Cons)
    finally show ?thesis by simp
  qed
  have "takeWhile (\<lambda>i. \<not> bit x i) (rev [0..<32]) = rev [Suc k..<32]"
    unfolding split using above at by (subst takeWhile_append2) auto
  then show ?thesis
    using k by (simp add: leading_zeros32_def)
qed

lemma leading_zeros32_0: "leading_zeros32 0 = 32"
proof -
  have "takeWhile (\<lambda>i. \<not> bit (0 :: nat) i) (rev [0..<32]) = rev [0..<32]" by (intro takeWhile_eq_all_conv [THEN iffD2]) simp
  then show ?thesis unfolding leading_zeros32_def by (simp only: length_rev length_upt diff_zero)
qed

lemma highbit32_unique: "2 ^ k \<le> x \<Longrightarrow> x < 2 ^ Suc k \<Longrightarrow> k < 32 \<Longrightarrow> highbit32 x = k"
  by (simp add: highbit32_def leading_zeros32_unique)

lemma highbit32_bounds:
  assumes "0 < x" and "x < 2 ^ 32"
  shows "2 ^ highbit32 x \<le> x" and "x < 2 ^ Suc (highbit32 x)" and "highbit32 x < 32"
proof -
  obtain k where k: "2 ^ k \<le> x" "x < 2 ^ Suc k"
    using ex_power_ivl1 [of 2 x] assms by auto
  have "(2::nat) ^ k < 2 ^ 32" using k(1) assms(2) by simp
  then have "k < 32" by (rule power_less_imp_less_exp [rotated]) simp
  with k have "highbit32 x = k" by (intro highbit32_unique)
  with k \<open>k < 32\<close> show "2 ^ highbit32 x \<le> x" "x < 2 ^ Suc (highbit32 x)" "highbit32 x < 32"
    by simp_all
qed

lemma leading_zeros32_highbit:
  assumes "0 < x" and "x < 2 ^ 32"
  shows "32 - leading_zeros32 x = Suc (highbit32 x)"
  using leading_zeros32_unique [OF highbit32_bounds [OF assms]] highbit32_bounds(3) [OF assms] by simp

lemma highbit32_eq_iff:
  "0 < x \<Longrightarrow> x < 2 ^ 32 \<Longrightarrow> highbit32 x = k \<longleftrightarrow> 2 ^ k \<le> x \<and> x < 2 ^ Suc k"
  using highbit32_bounds [of x] highbit32_unique [of k x]
  by (metis power_less_imp_less_exp order_le_less_trans one_less_numeral_iff semiring_norm(76))

section \<open>The backward reader\<close>

datatype reload_status = Unfinished | EndOfBuffer | Completed | Overflow

record reverse_reader =
  rsrc :: "byte list"
  rptr :: nat
  rcontainer :: u64
  rbits :: nat

definition read_u64_le :: "byte list \<Rightarrow> nat \<Rightarrow> u64" where
  "read_u64_le src i =
     (if i + 8 \<le> length src then from_le_bytes (take 8 (drop i src))
      else or_le_bytes (drop i src))"

definition rbr_new :: "byte list \<Rightarrow> reverse_reader result" where
  "rbr_new src =
     (let n = length src in
      if n = 0 then Err (CorruptTable ''empty bitstream'')
      else obind (idx src (n - 1)) (\<lambda>b. let last = unat b in
      if last = 0 then Err (CorruptTable ''final bitstream byte is zero (missing sentinel)'')
      else if 8 \<le> n then
        (let ptr = n - 8 in
         Ok \<lparr>rsrc = src, rptr = ptr, rcontainer = read_u64_le src ptr,
             rbits = 8 - highbit32 last\<rparr>)
      else
         Ok \<lparr>rsrc = src, rptr = 0, rcontainer = or_le_bytes src,
             rbits = (8 - highbit32 last) + (8 - n) * 8\<rparr>))"

text \<open>The shift amount of the code is masked with 63, so it is \<open>rbits mod 64\<close>.\<close>

definition rbr_peek :: "reverse_reader \<Rightarrow> nat \<Rightarrow> nat" where
  "rbr_peek r n =
     (if n = 0 then 0
      else unat (ucast (drop_bit (64 - n) (push_bit (rbits r mod 64) (rcontainer r))) :: u32))"

definition rbr_consume :: "reverse_reader \<Rightarrow> nat \<Rightarrow> reverse_reader" where
  "rbr_consume r n = r\<lparr>rbits := rbits r + n\<rparr>"

definition rbr_read :: "reverse_reader \<Rightarrow> nat \<Rightarrow> nat \<times> reverse_reader" where
  "rbr_read r n = (rbr_peek r n, rbr_consume r n)"

definition rbr_reload :: "reverse_reader \<Rightarrow> reload_status \<times> reverse_reader" where
  "rbr_reload r =
     (if 64 < rbits r then (Overflow, r)
      else if 8 \<le> rptr r then
        (let ptr = rptr r - rbits r div 8 in
         (Unfinished, r\<lparr>rptr := ptr, rbits := rbits r mod 8,
                        rcontainer := read_u64_le (rsrc r) ptr\<rparr>))
      else if rptr r = 0 then
        (if rbits r < 64 then EndOfBuffer else Completed, r)
      else
        (let nb = rbits r div 8;
             (nb_bytes, result) = (if rptr r < nb then (rptr r, EndOfBuffer) else (nb, Unfinished));
             ptr = rptr r - nb_bytes in
         (result, r\<lparr>rptr := ptr, rbits := rbits r - nb_bytes * 8,
                    rcontainer := read_u64_le (rsrc r) ptr\<rparr>)))"

definition rbr_ensure :: "reverse_reader \<Rightarrow> nat \<Rightarrow> reverse_reader" where
  "rbr_ensure r n = (if 64 < rbits r + n then snd (rbr_reload r) else r)"

definition rbr_read_lazy :: "reverse_reader \<Rightarrow> nat \<Rightarrow> nat \<times> reverse_reader" where
  "rbr_read_lazy r n = rbr_read (rbr_ensure r n) n"

definition rbr_finished :: "reverse_reader \<Rightarrow> bool" where
  "rbr_finished r \<longleftrightarrow> rptr r = 0 \<and> rbits r = 64"

section \<open>The position of a backward reader\<close>

text \<open>
  The bits of the number \<open>V\<close> below position \<open>p\<close>: \<open>top_bits V p n\<close> are the \<open>n\<close> highest of
  them, as a number. A reader at position \<open>p\<close> has \<open>p\<close> bits left.
\<close>

definition top_bits :: "nat \<Rightarrow> nat \<Rightarrow> nat \<Rightarrow> nat" where
  "top_bits V p n = V div 2 ^ (p - n) mod 2 ^ n"

definition rpos :: "reverse_reader \<Rightarrow> nat" where
  "rpos r = 8 * rptr r + 64 - rbits r"

definition rbr_inv :: "reverse_reader \<Rightarrow> bool" where
  "rbr_inv r \<longleftrightarrow> rptr r \<le> length (rsrc r) - 8
     \<and> unat (rcontainer r) = le_val (rsrc r) div 2 ^ (8 * rptr r) mod 2 ^ 64"

definition rbr_ok :: "reverse_reader \<Rightarrow> bool" where
  "rbr_ok r \<longleftrightarrow> rbr_inv r \<and> rbits r \<le> 64"

lemma top_bits_0 [simp]: "top_bits V p 0 = 0"
  by (simp add: top_bits_def)

lemma top_bits_less: "top_bits V p n < 2 ^ n"
  by (simp add: top_bits_def)

lemma div_mod_window: "(x::nat) mod 2 ^ (k + n) div 2 ^ k = x div 2 ^ k mod 2 ^ n"
  using drop_bit_take_bit [of k "k + n" x]
  by (simp add: drop_bit_eq_div take_bit_eq_mod)

lemma unat_read_u64_le:
  assumes "i \<le> length src - 8"
  shows "unat (read_u64_le src i) = le_val src div 2 ^ (8 * i) mod 2 ^ 64"
proof (cases "i + 8 \<le> length src")
  case True
  have "unat (read_u64_le src i) = le_val (take 8 (drop i src))"
    using True by (simp add: read_u64_le_def unat_from_le_bytes_64)
  also have "\<dots> = le_val src div 256 ^ i mod 256 ^ 8"
    by (simp add: le_val_take le_val_drop)
  finally show ?thesis by (simp add: power_mult)
next
  case False
  with assms have "i = 0" and len: "length src \<le> 8" by auto
  then have "unat (read_u64_le src i) = le_val src"
    using False by (simp add: read_u64_le_def or_le_bytes_eq unat_from_le_bytes_64)
  moreover have "le_val src < 2 ^ 64"
  proof -
    have "(2::nat) ^ (8 * length src) \<le> 2 ^ 64" using len by (intro power_increasing) auto
    with le_val_bound_bits [of src] show ?thesis by (rule order_less_le_trans)
  qed
  ultimately show ?thesis using \<open>i = 0\<close> by simp
qed

text \<open>The two paths of \<open>read_u64_le\<close> agree where both apply: the fast load and the
  zero-padding loop read the same eight bytes.\<close>

lemma read_u64_le_paths:
  "i + 8 \<le> length src \<Longrightarrow> read_u64_le src i = or_le_bytes (take 8 (drop i src))"
  by (simp add: read_u64_le_def or_le_bytes_eq)

lemma rbr_peek_spec:
  assumes inv: "rbr_inv r" and fits: "rbits r + n \<le> 64" and n: "n \<le> 32"
  shows "rbr_peek r n = top_bits (le_val (rsrc r)) (rpos r) n"
proof (cases "n = 0")
  case True
  then show ?thesis by (simp add: rbr_peek_def)
next
  case False
  define b where "b = rbits r"
  define c where "c = unat (rcontainer r)"
  define k where "k = 64 - b - n"
  have b: "b < 64" and kn: "k + n = 64 - b" "64 - n = k + b"
    using False fits by (auto simp: b_def k_def)
  have "rcontainer r = word_of_nat c" by (simp add: c_def)
  then have "push_bit b (rcontainer r) = word_of_nat (2 ^ b * c)"
    by (simp only: push_bit_of_nat_word)
  then have "unat (push_bit b (rcontainer r)) = c * 2 ^ b mod 2 ^ 64"
    by (simp only: unat_of_nat) (simp add: mult.commute)
  also have "c * 2 ^ b mod 2 ^ 64 = c mod 2 ^ (64 - b) * 2 ^ b"
  proof -
    have "(2::nat) ^ 64 = 2 ^ (64 - b) * 2 ^ b" using b by (simp flip: power_add)
    then show ?thesis by (simp add: mult_mod_left)
  qed
  finally have pushed: "unat (push_bit b (rcontainer r)) = c mod 2 ^ (k + n) * 2 ^ b"
    by (simp only: kn)
  have "unat (drop_bit (64 - n) (push_bit b (rcontainer r)))
      = unat (push_bit b (rcontainer r)) div 2 ^ (64 - n)"
    by (simp add: unat_drop_bit_eq flip: drop_bit_eq_div)
  also have "\<dots> = c mod 2 ^ (k + n) * 2 ^ b div (2 ^ k * 2 ^ b)"
    by (simp only: pushed kn power_add)
  also have "\<dots> = c mod 2 ^ (k + n) div 2 ^ k"
    by (rule div_mult_mult2) simp
  also have "\<dots> = c div 2 ^ k mod 2 ^ n"
    by (rule div_mod_window)
  finally have shifted: "unat (drop_bit (64 - n) (push_bit b (rcontainer r))) = c div 2 ^ k mod 2 ^ n" .
  have "(2::nat) ^ n \<le> 2 ^ 32" using n by (intro power_increasing) auto
  then have small: "c div 2 ^ k mod 2 ^ n < 2 ^ 32"
    by (meson mod_less_divisor order_less_le_trans zero_less_numeral zero_less_power)
  have "rbr_peek r n = c div 2 ^ k mod 2 ^ n"
    using False b small shifted
    by (simp add: rbr_peek_def b_def [symmetric] unsigned_ucast_eq take_bit_eq_mod)
  also have "c = le_val (rsrc r) div 2 ^ (8 * rptr r) mod 2 ^ (k + (64 - k))"
    using inv by (simp add: c_def rbr_inv_def k_def)
  also have "\<dots> div 2 ^ k mod 2 ^ n
      = le_val (rsrc r) div 2 ^ (8 * rptr r) div 2 ^ k mod 2 ^ (64 - k) mod 2 ^ n"
    by (simp only: div_mod_window)
  also have "\<dots> = le_val (rsrc r) div 2 ^ (8 * rptr r) div 2 ^ k mod 2 ^ n"
  proof (rule mod_mod_cancel)
    show "(2::nat) ^ n dvd 2 ^ (64 - k)" using fits by (intro le_imp_power_dvd) (simp add: k_def b_def)
  qed
  also have "\<dots> = le_val (rsrc r) div 2 ^ (8 * rptr r + k) mod 2 ^ n"
    by (simp add: div_mult2_eq power_add)
  also have "8 * rptr r + k = rpos r - n"
    using fits by (simp add: rpos_def k_def b_def)
  finally show ?thesis by (simp add: top_bits_def)
qed

text \<open>Whatever the position, \<open>n\<close> bits denote a number below \<open>2 ^ n\<close>.\<close>

lemma rbr_peek_less: "n \<le> 64 \<Longrightarrow> rbr_peek r n < 2 ^ n"
proof -
  assume n: "n \<le> 64"
  define x where "x = push_bit (rbits r mod 64) (rcontainer r)"
  have "unat x < 2 ^ (64 - n + n)" using n unsigned_less [of x] by simp
  then have "unat x div 2 ^ (64 - n) < 2 ^ n"
    by (intro less_mult_imp_div_less) (simp only: power_add mult.commute)
  moreover have "unat (ucast (drop_bit (64 - n) x) :: u32) \<le> unat (drop_bit (64 - n) x)"
    by (simp add: unsigned_ucast_eq take_bit_eq_mod)
  moreover have "unat (drop_bit (64 - n) x) = unat x div 2 ^ (64 - n)"
    by (simp add: unat_drop_bit_eq flip: drop_bit_eq_div)
  ultimately have "unat (ucast (drop_bit (64 - n) x) :: u32) < 2 ^ n" by linarith
  then show ?thesis unfolding rbr_peek_def x_def by auto
qed

lemma rbr_new_returns: "returns (rbr_new src)"
  by (simp add: rbr_new_def Let_def outcome_simps)

lemma rbr_new_Ok:
  assumes "rbr_new src = Ok r"
  shows "rbr_ok r" and "rsrc r = src"
    and "2 ^ rpos r \<le> le_val src" and "le_val src < 2 ^ Suc (rpos r)"
proof -
  define n where "n = length src"
  define b where "b = unat (src ! (n - 1))"
  have n: "n \<noteq> 0" and b0: "b \<noteq> 0"
    using assms by (auto simp: rbr_new_def Let_def n_def b_def outcome_simps split: if_splits)
  have "b < 256" unfolding b_def by (rule unat_byte_less)
  with b0 have b: "0 < b" "b < 2 ^ 32" by simp_all
  have hb: "highbit32 b \<le> 7"
  proof (rule ccontr)
    assume "\<not> highbit32 b \<le> 7"
    then have "(2::nat) ^ 8 \<le> 2 ^ highbit32 b" by (intro power_increasing) auto
    with highbit32_bounds(1) [OF b] have "256 \<le> b" by simp
    with \<open>b < 256\<close> show False by simp
  qed
  have r: "r = (if 8 \<le> n then \<lparr>rsrc = src, rptr = n - 8, rcontainer = read_u64_le src (n - 8),
                    rbits = 8 - highbit32 b\<rparr>
                else \<lparr>rsrc = src, rptr = 0, rcontainer = or_le_bytes src,
                    rbits = (8 - highbit32 b) + (8 - n) * 8\<rparr>)"
    using assms n b0 by (auto simp: rbr_new_def Let_def n_def b_def)
  have small: "unat (or_le_bytes src :: u64) = le_val src div 2 ^ 0 mod 2 ^ 64" if "n < 8"
    using unat_read_u64_le [of 0 src] that by (simp add: read_u64_le_def n_def)
  have "8 - highbit32 b + (8 - n) * 8 \<le> 64"
    using n by arith
  then show "rbr_ok r"
    using unat_read_u64_le [of "n - 8" src] small n
    by (auto simp: r rbr_ok_def rbr_inv_def n_def)
  show "rsrc r = src" by (simp add: r)
  have pos: "rpos r = 8 * (n - 1) + highbit32 b"
    using n hb by (auto simp: r rpos_def)
  have "src = take (n - 1) src @ [src ! (n - 1)]"
    using n by (metis Suc_diff_1 lessI n_def neq0_conv take_Suc_conv_app_nth take_all_iff order_refl)
  then have V: "le_val src = le_val (take (n - 1) src) + 2 ^ (8 * (n - 1)) * b"
    using le_val_append [of "take (n - 1) src" "[src ! (n - 1)]"] n
    by (simp add: n_def b_def power_mult)
  have low: "le_val (take (n - 1) src) < 2 ^ (8 * (n - 1))"
    using le_val_bound_bits [of "take (n - 1) src"] by (simp add: n_def)
  have "2 ^ (8 * (n - 1)) * 2 ^ highbit32 b \<le> 2 ^ (8 * (n - 1)) * b"
    using highbit32_bounds(1) [OF b] by (rule mult_left_mono) simp
  then show "2 ^ rpos r \<le> le_val src"
    unfolding V pos power_add by (rule trans_le_add2)
  have "b + 1 \<le> 2 ^ Suc (highbit32 b)"
    using highbit32_bounds(2) [OF b] by simp
  then have "2 ^ (8 * (n - 1)) * (b + 1) \<le> 2 ^ (8 * (n - 1)) * 2 ^ Suc (highbit32 b)"
    by (rule mult_left_mono) simp
  moreover have "le_val src < 2 ^ (8 * (n - 1)) * (b + 1)"
    using V low by (simp add: algebra_simps)
  ultimately show "le_val src < 2 ^ Suc (rpos r)"
    by (simp add: pos power_add algebra_simps)
qed

section \<open>Refilling\<close>

text \<open>
  \<open>rbr_reload\<close> keeps the stream and the position; afterwards either fewer than 8 bits of the
  container are consumed, or the container has reached the first byte.
\<close>

lemma rbr_reload_src [simp]: "rsrc (snd (rbr_reload r)) = rsrc r"
  by (auto simp: rbr_reload_def Let_def split: prod.splits)

lemma rbr_reload_inv: "rbr_inv r \<Longrightarrow> rbr_inv (snd (rbr_reload r))"
  by (auto simp: rbr_reload_def Let_def rbr_inv_def unat_read_u64_le split: prod.splits if_splits)

lemma rbr_reload_pos:
  assumes "rbits r \<le> 64"
  shows "rpos (snd (rbr_reload r)) = rpos r"
proof -
  define q m where "q = rbits r div 8" and "m = rbits r mod 8"
  have "rbits r = 8 * q + m" "m < 8" "q \<le> 8" using assms by (auto simp: q_def m_def)
  then show ?thesis
    using assms
    by (auto simp: rbr_reload_def Let_def rpos_def q_def [symmetric] m_def [symmetric] split: prod.splits if_splits)
qed

lemma rbr_reload_bits:
  assumes "rbits r \<le> 64"
  shows "rbits (snd (rbr_reload r)) < 8 \<or> rptr (snd (rbr_reload r)) = 0"
    and "rbits (snd (rbr_reload r)) \<le> 64"
  using assms by (auto simp: rbr_reload_def Let_def split: prod.splits if_splits)

lemma rbr_reload_Unfinished:
  "fst (rbr_reload r) = Unfinished \<Longrightarrow> rbits (snd (rbr_reload r)) < 8"
  by (auto simp: rbr_reload_def Let_def split: prod.splits if_splits)

lemma rbr_reload_Overflow: "fst (rbr_reload r) = Overflow \<longleftrightarrow> 64 < rbits r"
  by (auto simp: rbr_reload_def Let_def split: prod.splits if_splits)

lemma rbr_reload_Completed:
  "rbits r \<le> 64 \<Longrightarrow> fst (rbr_reload r) = Completed \<longleftrightarrow> rpos r = 0"
  by (auto simp: rbr_reload_def Let_def rpos_def split: prod.splits if_splits)

lemma rbr_reload_ok: "rbr_ok r \<Longrightarrow> rbr_ok (snd (rbr_reload r))"
  by (simp add: rbr_ok_def rbr_reload_inv rbr_reload_bits)

lemma rbr_ensure_src [simp]: "rsrc (rbr_ensure r n) = rsrc r"
  by (simp add: rbr_ensure_def)

lemma rbr_ensure_inv: "rbr_inv r \<Longrightarrow> rbr_inv (rbr_ensure r n)"
  by (simp add: rbr_ensure_def rbr_reload_inv)

lemma rbr_consume_inv: "rbr_inv r \<Longrightarrow> rbr_inv (rbr_consume r n)"
  by (simp add: rbr_consume_def rbr_inv_def)

lemma rbr_read_lazy_inv: "rbr_inv r \<Longrightarrow> rbr_inv (snd (rbr_read_lazy r n))"
  by (simp add: rbr_read_lazy_def rbr_read_def rbr_ensure_inv rbr_consume_inv)

lemma rbr_ensure_ok: "rbr_ok r \<Longrightarrow> rbr_ok (rbr_ensure r n)"
  by (simp add: rbr_ensure_def rbr_reload_ok)

lemma rbr_ensure_pos: "rbr_ok r \<Longrightarrow> rpos (rbr_ensure r n) = rpos r"
  by (simp add: rbr_ensure_def rbr_ok_def rbr_reload_pos)

text \<open>After \<open>rbr_ensure r n\<close> the next \<open>n\<close> bits of the stream are in the container.\<close>

lemma rbr_ensure_fits:
  assumes ok: "rbr_ok r" and n: "n \<le> rpos r" "n \<le> 57"
  shows "rbits (rbr_ensure r n) + n \<le> 64"
proof (cases "64 < rbits r + n")
  case False
  then show ?thesis by (simp add: rbr_ensure_def)
next
  case True
  have bits: "rbits r \<le> 64" using ok by (simp add: rbr_ok_def)
  then have "rpos (snd (rbr_reload r)) = rpos r" by (rule rbr_reload_pos)
  with rbr_reload_bits [OF bits] n True show ?thesis
    by (auto simp: rbr_ensure_def rpos_def)
qed

lemma rbr_consume_pos: "rpos (rbr_consume r n) = rpos r - n"
  by (simp add: rbr_consume_def rpos_def)

lemma rbr_consume_src [simp]: "rsrc (rbr_consume r n) = rsrc r"
  by (simp add: rbr_consume_def)

theorem rbr_read_lazy_spec:
  assumes ok: "rbr_ok r" and n: "n \<le> rpos r" "n \<le> 32"
  shows "fst (rbr_read_lazy r n) = top_bits (le_val (rsrc r)) (rpos r) n"
    and "rpos (snd (rbr_read_lazy r n)) = rpos r - n"
    and "rsrc (snd (rbr_read_lazy r n)) = rsrc r"
    and "rbr_ok (snd (rbr_read_lazy r n))"
proof -
  have fits: "rbits (rbr_ensure r n) + n \<le> 64"
    using ok n by (intro rbr_ensure_fits) auto
  have inv: "rbr_inv (rbr_ensure r n)"
    using rbr_ensure_ok [OF ok] by (simp add: rbr_ok_def)
  show "fst (rbr_read_lazy r n) = top_bits (le_val (rsrc r)) (rpos r) n"
    using rbr_peek_spec [OF inv fits n(2)] ok
    by (simp add: rbr_read_lazy_def rbr_read_def rbr_ensure_pos)
  show "rpos (snd (rbr_read_lazy r n)) = rpos r - n"
    using ok by (simp add: rbr_read_lazy_def rbr_read_def rbr_consume_pos rbr_ensure_pos)
  show "rsrc (snd (rbr_read_lazy r n)) = rsrc r"
    by (simp add: rbr_read_lazy_def rbr_read_def)
  show "rbr_ok (snd (rbr_read_lazy r n))"
    using inv fits
    by (simp add: rbr_read_lazy_def rbr_read_def rbr_ok_def rbr_consume_inv)
       (simp add: rbr_consume_def)
qed

text \<open>A read without a refill, for the reads the code issues after it knows the window is full.\<close>

lemma rbr_read_spec:
  assumes ok: "rbr_ok r" and n: "rbits r + n \<le> 64" "n \<le> 32"
  shows "fst (rbr_read r n) = top_bits (le_val (rsrc r)) (rpos r) n"
    and "rpos (snd (rbr_read r n)) = rpos r - n"
    and "rsrc (snd (rbr_read r n)) = rsrc r"
    and "rbits (snd (rbr_read r n)) = rbits r + n"
    and "rbr_ok (snd (rbr_read r n))"
  using ok n rbr_peek_spec [of r n]
  by (auto simp: rbr_read_def rbr_ok_def rbr_consume_pos rbr_consume_inv)
     (auto simp: rbr_consume_def)

section \<open>Reading a list of fields\<close>

text \<open>
  What the entropy decoders rely on: a source of bits hands out the top bits below its
  position, field by field. \<open>bit_supply\<close> states it for any reader; the backward reader is
  one. Reading a list of widths returns the fields of the number between the old and the new
  position.
\<close>

fun read_all :: "('r \<Rightarrow> nat \<Rightarrow> nat \<times> 'r) \<Rightarrow> 'r \<Rightarrow> nat list \<Rightarrow> nat list \<times> 'r" where
  "read_all rd r [] = ([], r)"
| "read_all rd r (n # ns) =
     (let (v, r') = rd r n; (vs, r'') = read_all rd r' ns in (v # vs, r''))"

fun fields_at :: "nat \<Rightarrow> nat \<Rightarrow> nat list \<Rightarrow> nat list" where
  "fields_at V p [] = []"
| "fields_at V p (n # ns) = top_bits V p n # fields_at V (p - n) ns"

locale bit_supply =
  fixes rd :: "'r \<Rightarrow> nat \<Rightarrow> nat \<times> 'r"
    and ok :: "'r \<Rightarrow> bool"
    and vl :: "'r \<Rightarrow> nat"
    and left :: "'r \<Rightarrow> nat"
  assumes rd_val: "ok r \<Longrightarrow> n \<le> left r \<Longrightarrow> n \<le> 32 \<Longrightarrow> fst (rd r n) = top_bits (vl r) (left r) n"
    and rd_left: "ok r \<Longrightarrow> n \<le> left r \<Longrightarrow> n \<le> 32 \<Longrightarrow> left (snd (rd r n)) = left r - n"
    and rd_vl: "ok r \<Longrightarrow> n \<le> left r \<Longrightarrow> n \<le> 32 \<Longrightarrow> vl (snd (rd r n)) = vl r"
    and rd_ok: "ok r \<Longrightarrow> n \<le> left r \<Longrightarrow> n \<le> 32 \<Longrightarrow> ok (snd (rd r n))"
begin

lemma read_all_spec:
  assumes "ok r" and "sum_list ns \<le> left r" and "\<And>n. n \<in> set ns \<Longrightarrow> n \<le> 32"
  shows "fst (read_all rd r ns) = fields_at (vl r) (left r) ns
    \<and> left (snd (read_all rd r ns)) = left r - sum_list ns
    \<and> vl (snd (read_all rd r ns)) = vl r
    \<and> ok (snd (read_all rd r ns))"
  using assms
proof (induction ns arbitrary: r)
  case Nil
  then show ?case by simp
next
  case (Cons n ns)
  obtain v r' where step: "rd r n = (v, r')" by (cases "rd r n")
  have n: "n \<le> left r" "n \<le> 32" using Cons.prems by auto
  have r': "ok r'" "left r' = left r - n" "vl r' = vl r" "v = top_bits (vl r) (left r) n"
    using rd_val [OF Cons.prems(1) n] rd_left [OF Cons.prems(1) n] rd_vl [OF Cons.prems(1) n]
      rd_ok [OF Cons.prems(1) n] step by auto
  have "sum_list ns \<le> left r'" using Cons.prems(2) r'(2) by simp
  from Cons.IH [OF r'(1) this] Cons.prems(3) r' step show ?case
    by (auto simp: Let_def split: prod.splits)
qed

end

interpretation backward: bit_supply rbr_read_lazy rbr_ok "\<lambda>r. le_val (rsrc r)" rpos
  by unfold_locales (simp_all add: rbr_read_lazy_spec)

section \<open>The forward reader\<close>

record forward_reader =
  fsrc :: "byte list"
  fidx :: nat
  facc :: u64
  flive :: nat

function fbr_refill :: "forward_reader \<Rightarrow> forward_reader" where
  "fbr_refill r =
     (if flive r \<le> 56 \<and> fidx r < length (fsrc r) then
        fbr_refill (r\<lparr>facc := facc r OR push_bit (flive r) (ucast (fsrc r ! fidx r)),
                      flive := flive r + 8, fidx := fidx r + 1\<rparr>)
      else r)"
  by pat_completeness auto
termination
  by (relation "measure (\<lambda>r. length (fsrc r) - fidx r)") auto

declare fbr_refill.simps [simp del]

definition fbr_new :: "byte list \<Rightarrow> forward_reader" where
  "fbr_new src = fbr_refill \<lparr>fsrc = src, fidx = 0, facc = 0, flive = 0\<rparr>"

definition fbr_peek :: "forward_reader \<Rightarrow> nat \<Rightarrow> nat \<times> forward_reader" where
  "fbr_peek r n =
     (if n = 0 then (0, r)
      else
        let r = (if flive r < n then fbr_refill r else r);
            msk = (if 32 \<le> n then - 1 else push_bit n 1 - 1) in
        (unat (ucast (facc r) AND msk :: u32), r))"

definition fbr_consume :: "forward_reader \<Rightarrow> nat \<Rightarrow> forward_reader" where
  "fbr_consume r n = r\<lparr>facc := drop_bit n (facc r), flive := flive r - n\<rparr>"

definition fbr_read :: "forward_reader \<Rightarrow> nat \<Rightarrow> nat \<times> forward_reader" where
  "fbr_read r n = (let (v, r) = fbr_peek r n in (v, fbr_consume r n))"

definition fbr_bytes_consumed :: "forward_reader \<Rightarrow> nat" where
  "fbr_bytes_consumed r = (let consumed_bits = 8 * fidx r - flive r in div_ceil consumed_bits 8)"

text \<open>
  \<open>fbr_at r p\<close>: the reader has consumed the \<open>p\<close> lowest bits of the number its source
  denotes. Past the end the position keeps growing and the bits read are zero.
\<close>

definition fbr_at :: "forward_reader \<Rightarrow> nat \<Rightarrow> bool" where
  "fbr_at r p \<longleftrightarrow> fidx r \<le> length (fsrc r)
     \<and> unat (facc r) = le_val (take (fidx r) (fsrc r)) div 2 ^ p
     \<and> flive r = 8 * fidx r - p
     \<and> (p \<le> 8 * fidx r \<or> fidx r = length (fsrc r))
     \<and> flive r \<le> 64"

definition low_bits :: "nat \<Rightarrow> nat \<Rightarrow> nat \<Rightarrow> nat" where
  "low_bits V p n = V div 2 ^ p mod 2 ^ n"

lemma fbr_refill_step_at:
  assumes at: "fbr_at r p" and go: "flive r \<le> 56" "fidx r < length (fsrc r)"
  shows "fbr_at (r\<lparr>facc := facc r OR push_bit (flive r) (ucast (fsrc r ! fidx r)),
                   flive := flive r + 8, fidx := fidx r + 1\<rparr>) p"
proof -
  define T where "T = le_val (take (fidx r) (fsrc r))"
  define b where "b = unat (fsrc r ! fidx r)"
  have p: "p \<le> 8 * fidx r" and live: "flive r = 8 * fidx r - p"
    and acc: "unat (facc r) = T div 2 ^ p"
    using at go by (auto simp: fbr_at_def T_def)
  have T: "T < 2 ^ (8 * fidx r)"
    using le_val_bound_bits [of "take (fidx r) (fsrc r)"] go by (simp add: T_def)
  have "T div 2 ^ p < 2 ^ flive r"
    using T p live by (simp add: less_mult_imp_div_less flip: power_add)
  then have or_add: "facc r OR push_bit (flive r) (ucast (fsrc r ! fidx r))
      = facc r + push_bit (flive r) (ucast (fsrc r ! fidx r))"
    using acc by (intro or_disjoint_add) simp
  have b: "b \<le> 255" using unat_byte_less [of "fsrc r ! fidx r"] unfolding b_def by linarith
  have "T div 2 ^ p + 2 ^ flive r * b < 2 ^ flive r + 2 ^ flive r * 255"
    using \<open>T div 2 ^ p < 2 ^ flive r\<close> b by (intro add_less_le_mono mult_left_mono) auto
  also have "\<dots> = 2 ^ (flive r + 8)" by (simp add: power_add)
  also have "\<dots> \<le> (2::nat) ^ 64" using go by (intro power_increasing) auto
  finally have small: "T div 2 ^ p + 2 ^ flive r * b < 2 ^ 64" .
  have "facc r + push_bit (flive r) (ucast (fsrc r ! fidx r))
      = word_of_nat (T div 2 ^ p + 2 ^ flive r * b)"
  proof -
    have "push_bit (flive r) (ucast (fsrc r ! fidx r) :: u64) = word_of_nat (2 ^ flive r * b)"
      using push_bit_of_nat_word [of "flive r" b, where 'a = 64] by (simp add: b_def)
    moreover have "facc r = word_of_nat (T div 2 ^ p)" by (simp flip: acc)
    ultimately show ?thesis by (simp only: of_nat_add)
  qed
  then have acc': "unat (facc r OR push_bit (flive r) (ucast (fsrc r ! fidx r)))
      = T div 2 ^ p + 2 ^ flive r * b"
    using small or_add by (simp only: unat_of_nat) simp
  have "take (fidx r + 1) (fsrc r) = take (fidx r) (fsrc r) @ [fsrc r ! fidx r]"
    using go by (simp add: take_Suc_conv_app_nth)
  then have "le_val (take (fidx r + 1) (fsrc r)) = T + 2 ^ (8 * fidx r) * b"
    using go by (simp add: le_val_append T_def b_def power_mult)
  also have "2 ^ (8 * fidx r) * b = 2 ^ p * (2 ^ flive r * b)"
    using p live by (simp flip: power_add mult.assoc)
  finally have "le_val (take (fidx r + 1) (fsrc r)) div 2 ^ p = T div 2 ^ p + 2 ^ flive r * b"
    by simp
  with acc' at go show ?thesis by (auto simp: fbr_at_def)
qed

lemma fbr_refill_at: "fbr_at r p \<Longrightarrow> fbr_at (fbr_refill r) p"
proof (induction r rule: fbr_refill.induct)
  case (1 r)
  then show ?case
    using fbr_refill_step_at [of r p] by (subst fbr_refill.simps) auto
qed

lemma fbr_refill_full:
  "56 < flive (fbr_refill r) \<or> length (fsrc (fbr_refill r)) \<le> fidx (fbr_refill r)"
proof (induction r rule: fbr_refill.induct)
  case (1 r)
  then show ?case by (subst (1 2 3) fbr_refill.simps) auto
qed

lemma fbr_refill_src [simp]: "fsrc (fbr_refill r) = fsrc r"
proof (induction r rule: fbr_refill.induct)
  case (1 r)
  then show ?case by (subst fbr_refill.simps) auto
qed

lemma fbr_new_at: "fbr_at (fbr_new src) 0"
  unfolding fbr_new_def by (rule fbr_refill_at) (simp add: fbr_at_def)

lemma fbr_new_src [simp]: "fsrc (fbr_new src) = src"
  by (simp add: fbr_new_def)

lemma fbr_peek_src [simp]: "fsrc (snd (fbr_peek r n)) = fsrc r"
  by (simp add: fbr_peek_def Let_def)

lemma fbr_consume_src [simp]: "fsrc (fbr_consume r n) = fsrc r"
  by (simp add: fbr_consume_def)

lemma fbr_peek_at: "fbr_at r p \<Longrightarrow> fbr_at (snd (fbr_peek r n)) p"
  by (simp add: fbr_peek_def Let_def fbr_refill_at)

text \<open>After a peek of \<open>n\<close> bits, up to \<open>n\<close> bits may be consumed.\<close>

definition fbr_has :: "forward_reader \<Rightarrow> nat \<Rightarrow> bool" where
  "fbr_has r n \<longleftrightarrow> n \<le> flive r \<or> fidx r = length (fsrc r)"

lemma fbr_has_mono: "fbr_has r n \<Longrightarrow> m \<le> n \<Longrightarrow> fbr_has r m"
  by (auto simp: fbr_has_def)

lemma fbr_peek_has:
  assumes "fbr_at r p" and "n \<le> 32"
  shows "fbr_has (snd (fbr_peek r n)) n"
proof -
  have "fidx (fbr_refill r) \<le> length (fsrc r)"
    using fbr_refill_at [OF assms(1)] by (simp add: fbr_at_def)
  with fbr_refill_full [of r] assms show ?thesis
    by (auto simp: fbr_peek_def fbr_has_def Let_def)
qed

lemma unat_and_ones:
  assumes "n \<le> 32"
  shows "unat ((ucast (a :: u64) :: u32) AND (if 32 \<le> n then - 1 else push_bit n 1 - 1)) = unat a mod 2 ^ n"
proof (cases "n = 32")
  case True
  then show ?thesis by (simp add: unsigned_ucast_eq take_bit_eq_mod)
next
  case False
  then have "n < 32" using assms by simp
  have "(push_bit n 1 - 1 :: u32) = mask n" by (simp add: mask_eq_decr_exp)
  then have "(ucast a :: u32) AND (push_bit n 1 - 1) = take_bit n (ucast a)"
    by (simp add: take_bit_eq_mask)
  then have "unat ((ucast a :: u32) AND (push_bit n 1 - 1)) = take_bit n (take_bit 32 (unat a))"
    by (simp add: unsigned_take_bit_eq unsigned_ucast_eq)
  moreover have "(2::nat) ^ n dvd 2 ^ 32" using assms by (intro le_imp_power_dvd)
  ultimately show ?thesis using \<open>n < 32\<close> by (simp add: take_bit_eq_mod mod_mod_cancel)
qed

lemma fbr_window:
  assumes at: "fbr_at r p" and has: "fbr_has r n"
  shows "unat (facc r) mod 2 ^ n = low_bits (le_val (fsrc r)) p n"
proof -
  define T where "T = le_val (take (fidx r) (fsrc r))"
  have acc: "unat (facc r) = T div 2 ^ p" using at by (simp add: fbr_at_def T_def)
  show ?thesis
  proof (cases "fidx r = length (fsrc r)")
    case True
    with acc show ?thesis by (simp add: low_bits_def T_def)
  next
    case False
    with at has have fit: "p + n \<le> 8 * fidx r" by (auto simp: fbr_at_def fbr_has_def)
    have "T = le_val (fsrc r) mod 2 ^ (8 * fidx r)"
      by (simp add: T_def le_val_take power_mult)
    also have "8 * fidx r = p + (8 * fidx r - p)" using fit by simp
    finally have "T div 2 ^ p = le_val (fsrc r) div 2 ^ p mod 2 ^ (8 * fidx r - p)"
      by (simp only: div_mod_window)
    moreover have "(2::nat) ^ n dvd 2 ^ (8 * fidx r - p)"
      using fit by (intro le_imp_power_dvd) simp
    ultimately show ?thesis by (simp add: acc low_bits_def mod_mod_cancel)
  qed
qed

theorem fbr_peek_spec:
  assumes at: "fbr_at r p" and n: "n \<le> 32"
  shows "fst (fbr_peek r n) = low_bits (le_val (fsrc r)) p n"
proof (cases "n = 0")
  case True
  then show ?thesis by (simp add: fbr_peek_def low_bits_def)
next
  case False
  have "fst (fbr_peek r n) = unat (facc (snd (fbr_peek r n))) mod 2 ^ n"
    using False unat_and_ones [OF n] by (simp add: fbr_peek_def Let_def)
  also have "\<dots> = low_bits (le_val (fsrc r)) p n"
    using fbr_window [OF fbr_peek_at [OF at] fbr_peek_has [OF at n]] by simp
  finally show ?thesis .
qed

lemma fbr_consume_at:
  assumes at: "fbr_at r p" and has: "fbr_has r n"
  shows "fbr_at (fbr_consume r n) (p + n)"
proof -
  have "unat (drop_bit n (facc r)) = unat (facc r) div 2 ^ n"
    by (simp add: unat_drop_bit_eq flip: drop_bit_eq_div)
  with at has show ?thesis
    by (auto simp: fbr_at_def fbr_consume_def fbr_has_def power_add div_mult2_eq)
qed

lemma fbr_read_at:
  assumes at: "fbr_at r p" and n: "n \<le> 32"
  shows "fbr_at (snd (fbr_read r n)) (p + n)"
    and "fst (fbr_read r n) = low_bits (le_val (fsrc r)) p n"
    and "fsrc (snd (fbr_read r n)) = fsrc r"
proof -
  obtain v r' where peek: "fbr_peek r n = (v, r')" by (cases "fbr_peek r n")
  then have r': "fsrc r' = fsrc r" "v = low_bits (le_val (fsrc r)) p n" "fbr_at r' p" "fbr_has r' n"
    using fbr_peek_src [of r n] fbr_peek_spec [OF at n] fbr_peek_at [OF at, of n]
      fbr_peek_has [OF at n] by simp_all
  with peek fbr_consume_at [OF r'(3,4)]
  show "fbr_at (snd (fbr_read r n)) (p + n)"
    and "fst (fbr_read r n) = low_bits (le_val (fsrc r)) p n"
    and "fsrc (snd (fbr_read r n)) = fsrc r"
    by (simp_all add: fbr_read_def)
qed

lemma fbr_bytes_consumed_le: "fbr_at r p \<Longrightarrow> fbr_bytes_consumed r \<le> length (fsrc r)"
  by (auto simp: fbr_at_def fbr_bytes_consumed_def Let_def intro!: div_ceil_le)

lemma fbr_bytes_consumed_eq:
  "fbr_at r p \<Longrightarrow> p \<le> 8 * length (fsrc r) \<Longrightarrow> fbr_bytes_consumed r = div_ceil p 8"
  by (auto simp: fbr_at_def fbr_bytes_consumed_def Let_def)

end
