(* ===== verification/Fse_Ncount.thy ===== *)
theory Fse_Ncount
  imports Bits
begin

text \<open>
  \<^verbatim>\<open>src/fse.rs\<close>: the FSE table description, the decode table and the two-state
  decoder. \<open>valid_norm\<close> is the contract between the two halves: what \<open>read_ncount\<close> returns
  satisfies it, and \<open>build_dtable\<close> succeeds on it and gives every symbol its share of the
  states. \<open>fse_table_ok\<close> is the invariant of a built table that keeps every decoder state
  inside it.
\<close>

unbundle bit_operations_syntax

definition FSE_MAX_TABLELOG :: nat where
  "FSE_MAX_TABLELOG = 15"

definition FSE_DTABLE_SIZE :: nat where
  "FSE_DTABLE_SIZE = 2 ^ 9"

record fse_entry =
  fe_symbol :: byte
  fe_num_bits :: nat
  fe_new_state_base :: nat

definition default_fse_entry :: fse_entry where
  "default_fse_entry = \<lparr>fe_symbol = 0, fe_num_bits = 0, fe_new_state_base = 0\<rparr>"

record fse_table =
  ft_log :: nat
  ft_entries :: "fse_entry list"

record ncount =
  nc_counts :: "int list"
  nc_max_symbol :: nat
  nc_table_log :: nat
  nc_bytes_consumed :: nat

section \<open>Reading a table description\<close>

text \<open>The two zero-run loops. They end because a run marker consumes set bits, and only
  finitely many are left: the source index grows or the accumulator shrinks.\<close>

lemma fbr_refill_idx: "fidx r \<le> fidx (fbr_refill r)"
proof (induction r rule: fbr_refill.induct)
  case (1 r)
  then show ?case by (subst fbr_refill.simps) auto
qed

lemma fbr_refill_progress:
  "fbr_refill r = r \<or> (fidx r < length (fsrc r) \<and> fidx r < fidx (fbr_refill r))"
proof (cases "flive r \<le> 56 \<and> fidx r < length (fsrc r)")
  case True
  define r1 where "r1 = r\<lparr>facc := facc r OR push_bit (flive r) (ucast (fsrc r ! fidx r)),
                      flive := flive r + 8, fidx := fidx r + 1\<rparr>"
  have "fbr_refill r = fbr_refill r1" using True by (simp add: fbr_refill.simps [of r] r1_def)
  moreover have "fidx r < fidx r1" by (simp add: r1_def)
  ultimately show ?thesis using True fbr_refill_idx [of r1] by auto
next
  case False
  then have "fbr_refill r = r" by (subst fbr_refill.simps) (rule if_not_P)
  then show ?thesis ..
qed

lemma fbr_peek_progress:
  assumes "fbr_peek r n = (v, r')" and "v \<noteq> 0" and "0 < m"
  shows "((fbr_consume r' m, r)) \<in> measures [\<lambda>r. length (fsrc r) - fidx r, \<lambda>r. unat (facc r)]"
proof -
  have n: "n \<noteq> 0" using assms by (cases "n = 0") (auto simp: fbr_peek_def)
  define r1 where "r1 = (if flive r < n then fbr_refill r else r)"
  have r': "r' = r1" and v: "v = unat (ucast (facc r1) AND (if 32 \<le> n then - 1 else push_bit n 1 - 1) :: u32)"
    using assms(1) n by (auto simp: fbr_peek_def Let_def r1_def)
  have acc: "unat (facc r1) \<noteq> 0" using v assms(2) by (auto simp: unat_eq_0)
  have "unat (drop_bit m (facc r1)) = unat (facc r1) div 2 ^ m"
    by (simp add: unat_drop_bit_eq flip: drop_bit_eq_div)
  also have "\<dots> < unat (facc r1)"
    using acc assms(3) by (intro div_less_dividend) (simp_all add: one_less_power del: One_nat_def)
  finally have less: "unat (drop_bit m (facc r1)) < unat (facc r1)" .
  show ?thesis
  proof (cases "r1 = r")
    case True
    then show ?thesis using less by (simp add: r' fbr_consume_def)
  next
    case False
    then have "r1 = fbr_refill r" "fidx r < length (fsrc r)" "fidx r < fidx (fbr_refill r)"
      using fbr_refill_progress [of r] by (auto simp: r1_def split: if_splits)
    then show ?thesis by (simp add: r' fbr_consume_def) (auto intro: diff_less_mono2)
  qed
qed

function rd_run24 :: "forward_reader \<Rightarrow> nat \<Rightarrow> nat \<times> forward_reader" where
  "rd_run24 br rpt =
     (let (v, br) = fbr_peek br 16 in
      if v = 65535 then rd_run24 (fbr_consume br 16) (rpt + 24) else (rpt, br))"
  by pat_completeness auto
termination
  by (relation "inv_image (measures [\<lambda>r. length (fsrc r) - fidx r, \<lambda>r. unat (facc r)]) fst")
    (auto simp del: in_measures dest: fbr_peek_progress [OF sym, where m = 16])

function rd_run3 :: "forward_reader \<Rightarrow> nat \<Rightarrow> nat \<times> forward_reader" where
  "rd_run3 br rpt =
     (let (v, br) = fbr_peek br 2 in
      if v = 3 then rd_run3 (fbr_consume br 2) (rpt + 3) else (rpt, br))"
  by pat_completeness auto
termination
  by (relation "inv_image (measures [\<lambda>r. length (fsrc r) - fidx r, \<lambda>r. unat (facc r)]) fst")
    (auto simp del: in_measures dest: fbr_peek_progress [OF sym, where m = 2])

declare rd_run24.simps [simp del] rd_run3.simps [simp del]

lemma rd_run24_ge: "rpt \<le> fst (rd_run24 br rpt)"
proof (induction br rpt rule: rd_run24.induct)
  case (1 br rpt)
  obtain v br' where peek: "fbr_peek br 16 = (v, br')" by (cases "fbr_peek br 16")
  show ?case
  proof (cases "v = 65535")
    case True
    with 1 [OF peek [symmetric] refl] peek show ?thesis by (simp add: rd_run24.simps [of br])
  next
    case False
    with peek show ?thesis by (simp add: rd_run24.simps [of br])
  qed
qed

lemma rd_run3_ge: "rpt \<le> fst (rd_run3 br rpt)"
proof (induction br rpt rule: rd_run3.induct)
  case (1 br rpt)
  obtain v br' where peek: "fbr_peek br 2 = (v, br')" by (cases "fbr_peek br 2")
  show ?case
  proof (cases "v = 3")
    case True
    with 1 [OF peek [symmetric] refl] peek show ?thesis by (simp add: rd_run3.simps [of br])
  next
    case False
    with peek show ?thesis by (simp add: rd_run3.simps [of br])
  qed
qed

text \<open>\<open>while remaining < threshold { nb_bits -= 1; threshold >>= 1 }\<close>\<close>

fun shrink_threshold :: "int \<Rightarrow> nat \<Rightarrow> int \<Rightarrow> (nat \<times> int) result" where
  "shrink_threshold remaining nb_bits threshold =
     (if remaining < threshold then
        (case nb_bits of 0 \<Rightarrow> Panic
         | Suc nb \<Rightarrow> shrink_threshold remaining nb (threshold div 2))
      else Ok (nb_bits, threshold))"

declare shrink_threshold.simps [simp del]

function ncount_loop ::
  "forward_reader \<Rightarrow> int \<Rightarrow> int \<Rightarrow> nat \<Rightarrow> int list \<Rightarrow> nat \<Rightarrow> bool
   \<Rightarrow> (forward_reader \<times> int \<times> int list \<times> nat) result" where
  "ncount_loop br remaining threshold nb_bits counts symbol previous0 =
     (if 1 < remaining \<and> symbol < 256 then
        if previous0 then
          let (rpt, br) = rd_run24 br symbol;
              (rpt, br) = rd_run3 br rpt;
              (v, br) = fbr_read br 2;
              rpt = rpt + v in
          ncount_loop br remaining threshold nb_bits counts (min rpt 256) False
        else
          let mx = (2 * threshold - 1) - remaining;
              msk = int_as_u32 (threshold - 1);
              (low, br) = fbr_peek br nb_bits in
          obind (if low AND msk < int_as_u32 mx then
                   obind (usub nb_bits 1) (\<lambda>n.
                   Ok (int (low AND msk), fbr_consume br n))
                 else
                   let br = fbr_consume br nb_bits;
                       c = int (low AND int_as_u32 (2 * threshold - 1)) in
                   Ok (if threshold \<le> c then c - mx else c, br))
            (\<lambda>(count, br).
          let count = count - 1;
              remaining = remaining - \<bar>count\<bar> in
          if 256 \<le> symbol then Err (CorruptTable ''FSE symbol overflow'')
          else
          obind (upd counts symbol (as_i16 count)) (\<lambda>counts.
          obind (shrink_threshold remaining nb_bits threshold) (\<lambda>(nb_bits, threshold).
          ncount_loop br remaining threshold nb_bits counts (symbol + 1) (count = 0))))
      else Ok (br, remaining, counts, symbol))"
  by pat_completeness auto
termination
proof (relation "measure (\<lambda>(br, remaining, threshold, nb_bits, counts, symbol, previous0).
    2 * (256 - symbol) + (if previous0 then 1 else 0))", goal_cases)
  case 1
  then show ?case by simp
next
  case (2 br remaining threshold nb_bits counts symbol previous0 x rpt br1 y rpt2 br2 z v br3 rpt3)
  have "symbol \<le> rpt" using rd_run24_ge [of symbol br] 2(3,4) by (metis fst_conv)
  moreover have "rpt \<le> rpt2" using rd_run3_ge [of rpt br1] 2(5,6) by (metis fst_conv)
  ultimately show ?case using 2 by auto
next
  case 3
  then show ?case by auto
qed

declare ncount_loop.simps [simp del]

definition read_ncount :: "byte list \<Rightarrow> nat \<Rightarrow> ncount result" where
  "read_ncount src max_log =
     (let br = fbr_new src;
          (v, br) = fbr_read br 4;
          table_log = v + 5 in
      if min max_log FSE_MAX_TABLELOG < table_log then
        Err (CorruptTable (''FSE accuracy log '' @ dec table_log @ '' exceeds max '' @ dec max_log))
      else
      obind (ncount_loop br (2 ^ table_log + 1) (2 ^ table_log) (table_log + 1)
               (replicate 256 0) 0 False) (\<lambda>(br, remaining, counts, symbol).
      if remaining \<noteq> 1 then
        Err (CorruptTable (''FSE counts did not sum to table size (remaining ''
               @ dec_int remaining @ '')''))
      else
        Ok \<lparr>nc_counts = counts, nc_max_symbol = symbol - 1, nc_table_log = table_log,
            nc_bytes_consumed = fbr_bytes_consumed br\<rparr>))"

text \<open>
  The contract of a normalized distribution: counts at least \<open>-1\<close>, whose absolute values
  (\<open>-1\<close> takes one state) fill the table of \<open>2 ^ table_log\<close> states.
\<close>

definition valid_norm :: "int list \<Rightarrow> nat \<Rightarrow> nat \<Rightarrow> bool" where
  "valid_norm norm max_symbol table_log \<longleftrightarrow>
     max_symbol < length norm \<and> max_symbol < 256
     \<and> (\<forall>c \<in> set (take (max_symbol + 1) norm). - 1 \<le> c)
     \<and> sum_list (map abs (take (max_symbol + 1) norm)) = 2 ^ table_log"

definition ncount_inv :: "nat \<Rightarrow> int \<Rightarrow> int \<Rightarrow> nat \<Rightarrow> int list \<Rightarrow> nat \<Rightarrow> bool" where
  "ncount_inv lg remaining threshold nb_bits counts symbol \<longleftrightarrow>
     (\<exists>k. threshold = 2 ^ k \<and> nb_bits = k + 1 \<and> k \<le> lg)
     \<and> threshold \<le> remaining \<and> remaining \<le> 2 * threshold - 1
     \<and> length counts = 256 \<and> symbol \<le> 256
     \<and> (\<forall>c \<in> set counts. - 1 \<le> c)
     \<and> (\<forall>i. symbol \<le> i \<longrightarrow> i < 256 \<longrightarrow> counts ! i = 0)
     \<and> sum_list (map abs counts) + remaining = 2 ^ lg + 1
     \<and> (remaining = 1 \<longrightarrow> 0 < symbol \<and> counts ! (symbol - 1) \<noteq> 0)"

lemma sum_list_map_update:
  "i < length xs \<Longrightarrow> sum_list (map f (xs[i := v])) = sum_list (map f xs) + f v - (f (xs ! i) :: int)"
proof (induction xs arbitrary: i)
  case Nil
  then show ?case by simp
next
  case (Cons x xs)
  then show ?case by (cases i) auto
qed

lemma shrink_threshold_spec:
  assumes "1 \<le> remaining" and "remaining \<le> 2 * 2 ^ k - 1"
  shows "\<exists>k'. k' \<le> k \<and> shrink_threshold remaining (k + 1) (2 ^ k) = Ok (k' + 1, 2 ^ k')
    \<and> 2 ^ k' \<le> remaining \<and> remaining \<le> 2 * 2 ^ k' - 1"
  using assms
proof (induction k)
  case 0
  then show ?case by (simp add: shrink_threshold.simps)
next
  case (Suc k)
  show ?case
  proof (cases "remaining < 2 ^ Suc k")
    case True
    then have "remaining \<le> 2 * 2 ^ k - 1" by simp
    from Suc.IH [OF Suc.prems(1) this] obtain k' where "k' \<le> k"
      "shrink_threshold remaining (k + 1) (2 ^ k) = Ok (k' + 1, 2 ^ k')"
      "2 ^ k' \<le> remaining" "remaining \<le> 2 * 2 ^ k' - 1" by blast
    with True show ?thesis
      by (intro exI [of _ k']) (simp add: shrink_threshold.simps [of _ "Suc (Suc k)"])
  next
    case False
    with Suc.prems show ?thesis
      by (intro exI [of _ "Suc k"]) (simp add: shrink_threshold.simps [of _ "Suc (Suc k)"])
  qed
qed

lemma rd_run24_at:
  "fbr_at br p \<Longrightarrow> \<exists>q. fbr_at (snd (rd_run24 br rpt)) q \<and> fsrc (snd (rd_run24 br rpt)) = fsrc br"
proof (induction br rpt arbitrary: p rule: rd_run24.induct)
  case (1 br rpt)
  obtain v br' where peek: "fbr_peek br 16 = (v, br')" by (cases "fbr_peek br 16")
  have at: "fbr_at br' p" "fbr_has br' 16" "fsrc br' = fsrc br"
    using fbr_peek_at [OF 1(2), of 16] fbr_peek_has [OF 1(2), of 16] fbr_peek_src [of br 16] peek
    by simp_all
  show ?case
  proof (cases "v = 65535")
    case True
    from 1(1) [OF peek [symmetric] refl True fbr_consume_at [OF at(1,2)]] True peek at
    show ?thesis by (simp add: rd_run24.simps [of br])
  next
    case False
    with peek at show ?thesis by (auto simp: rd_run24.simps [of br])
  qed
qed

lemma rd_run3_at:
  "fbr_at br p \<Longrightarrow> \<exists>q. fbr_at (snd (rd_run3 br rpt)) q \<and> fsrc (snd (rd_run3 br rpt)) = fsrc br"
proof (induction br rpt arbitrary: p rule: rd_run3.induct)
  case (1 br rpt)
  obtain v br' where peek: "fbr_peek br 2 = (v, br')" by (cases "fbr_peek br 2")
  have at: "fbr_at br' p" "fbr_has br' 2" "fsrc br' = fsrc br"
    using fbr_peek_at [OF 1(2), of 2] fbr_peek_has [OF 1(2), of 2] fbr_peek_src [of br 2] peek
    by simp_all
  show ?case
  proof (cases "v = 3")
    case True
    from 1(1) [OF peek [symmetric] refl True fbr_consume_at [OF at(1,2)]] True peek at
    show ?thesis by (simp add: rd_run3.simps [of br])
  next
    case False
    with peek at show ?thesis by (auto simp: rd_run3.simps [of br])
  qed
qed

lemma and_pow2_minus_1: "(n :: nat) AND (2 ^ k - 1) = n mod 2 ^ k"
  using take_bit_eq_mask [of k n] by (simp add: take_bit_eq_mod mask_eq_exp_minus_1)

lemma int_as_u32_mask: "k \<le> 31 \<Longrightarrow> int_as_u32 (2 ^ k - 1) = 2 ^ k - 1"
proof -
  assume "k \<le> 31"
  then have "(2::int) ^ k \<le> 2 ^ 31" by (intro power_increasing) auto
  then have "int_as_u32 (2 ^ k - 1) = nat (2 ^ k - 1)" by (simp add: int_as_u32_small)
  then show ?thesis by (simp add: nat_diff_distrib nat_power_eq)
qed

text \<open>The bounds of one decoded count, whichever width it was read with.\<close>

definition ncount_value :: "nat \<Rightarrow> int \<Rightarrow> int \<Rightarrow> int" where
  "ncount_value low threshold remaining =
     (let mx = (2 * threshold - 1) - remaining in
      if low AND int_as_u32 (threshold - 1) < int_as_u32 mx
      then int (low AND int_as_u32 (threshold - 1))
      else let c = int (low AND int_as_u32 (2 * threshold - 1)) in
           if threshold \<le> c then c - mx else c)"

lemma ncount_value_bounds:
  assumes "k \<le> 30" and "2 ^ k \<le> remaining" and "remaining \<le> 2 * 2 ^ k - 1"
    and "low < 2 ^ Suc k"
  shows "0 \<le> ncount_value low (2 ^ k) remaining" and "ncount_value low (2 ^ k) remaining \<le> remaining"
proof -
  define mx where "mx = (2 * 2 ^ k - 1) - remaining"
  have "(2::int) ^ k \<le> 2 ^ 30" using assms(1) by (intro power_increasing) auto
  then have mx: "0 \<le> mx" "mx \<le> 2 ^ k - 1" "int_as_u32 mx = nat mx"
    using assms by (auto simp: mx_def int_as_u32_small)
  have a: "low AND int_as_u32 (2 ^ k - 1) = low mod 2 ^ k"
    using assms(1) by (simp add: int_as_u32_mask and_pow2_minus_1 del: One_nat_def)
  have "low AND int_as_u32 (2 * 2 ^ k - 1) = low mod 2 ^ Suc k"
    using assms(1) int_as_u32_mask [of "Suc k"] and_pow2_minus_1 [of low "Suc k"]
    by (simp del: One_nat_def)
  then have b: "low AND int_as_u32 (2 * 2 ^ k - 1) = low" using assms(4) by simp
  define T :: int where "T = 2 ^ k"
  have low: "int low < 2 * T" using assms(4)
    by (metis T_def of_nat_less_iff of_nat_power of_nat_numeral power_Suc)
  have eq: "ncount_value low (2 ^ k) remaining = (if low mod 2 ^ k < nat mx then int (low mod 2 ^ k)
      else if T \<le> int low then int low - mx else int low)"
    unfolding ncount_value_def Let_def mx_def [symmetric] a b mx(3) T_def by (rule refl)
  have T: "mx \<le> T - 1" "T \<le> remaining" "remaining \<le> 2 * T - 1" "mx = 2 * T - 1 - remaining"
    using mx(2) assms(2,3) by (simp_all add: T_def mx_def)
  show "0 \<le> ncount_value low (2 ^ k) remaining"
    unfolding eq using T mx(1) by (auto split: if_splits)
  show "ncount_value low (2 ^ k) remaining \<le> remaining"
  proof (cases "low mod 2 ^ k < nat mx")
    case True
    then have "int (low mod 2 ^ k) < mx" by linarith
    then show ?thesis unfolding eq if_P [OF True] using T by linarith
  next
    case False
    show ?thesis unfolding eq if_not_P [OF False] using T low by (cases "T \<le> int low") auto
  qed
qed

text \<open>Decoding one count: the outcome of the loop's first half.\<close>

definition ncount_take :: "forward_reader \<Rightarrow> int \<Rightarrow> int \<Rightarrow> nat \<Rightarrow> (int \<times> forward_reader) result" where
  "ncount_take br remaining threshold nb_bits =
     (let mx = (2 * threshold - 1) - remaining;
          msk = int_as_u32 (threshold - 1);
          (low, br) = fbr_peek br nb_bits in
      if low AND msk < int_as_u32 mx then
        obind (usub nb_bits 1) (\<lambda>n.
        Ok (int (low AND msk), fbr_consume br n))
      else
        let br = fbr_consume br nb_bits;
            c = int (low AND int_as_u32 (2 * threshold - 1)) in
        Ok (if threshold \<le> c then c - mx else c, br))"

lemma ncount_take_spec:
  assumes "k \<le> 30" and "2 ^ k \<le> remaining" and "remaining \<le> 2 * 2 ^ k - 1" and at: "fbr_at br p"
  shows "\<exists>v br' q. ncount_take br remaining (2 ^ k) (Suc k) = Ok (v, br') \<and> 0 \<le> v \<and> v \<le> remaining
    \<and> fbr_at br' q \<and> fsrc br' = fsrc br"
proof -
  obtain low br1 where peek: "fbr_peek br (Suc k) = (low, br1)" by (cases "fbr_peek br (Suc k)")
  have k: "Suc k \<le> 32" using assms(1) by simp
  have at1: "fbr_at br1 p" "fbr_has br1 (Suc k)" "fsrc br1 = fsrc br"
    and low: "low < 2 ^ Suc k"
    using fbr_peek_at [OF at, of "Suc k"] fbr_peek_has [OF at k] fbr_peek_src [of br "Suc k"]
      fbr_peek_spec [OF at k] peek by (simp_all add: low_bits_def)
  have c: "fbr_at (fbr_consume br1 (Suc k)) (p + Suc k)" "fbr_at (fbr_consume br1 k) (p + k)"
    using fbr_consume_at [OF at1(1,2)] fbr_consume_at [OF at1(1) fbr_has_mono [OF at1(2), of k]]
    by simp_all
  note v = ncount_value_bounds [OF assms(1-3) low]
  have "\<exists>br'. ncount_take br remaining (2 ^ k) (Suc k) = Ok (ncount_value low (2 ^ k) remaining, br')
      \<and> br' \<in> {fbr_consume br1 (Suc k), fbr_consume br1 k}"
    by (simp add: ncount_take_def ncount_value_def peek Let_def)
  with v c at1(3) show ?thesis by (elim exE) auto
qed

lemma ncount_loop_unfold:
  "ncount_loop br remaining threshold nb_bits counts symbol previous0 =
     (if 1 < remaining \<and> symbol < 256 then
        if previous0 then
          let (rpt, br) = rd_run24 br symbol;
              (rpt, br) = rd_run3 br rpt;
              (v, br) = fbr_read br 2;
              rpt = rpt + v in
          ncount_loop br remaining threshold nb_bits counts (min rpt 256) False
        else
          obind (ncount_take br remaining threshold nb_bits) (\<lambda>(count, br).
          let count = count - 1;
              remaining = remaining - \<bar>count\<bar> in
          if 256 \<le> symbol then Err (CorruptTable ''FSE symbol overflow'')
          else
          obind (upd counts symbol (as_i16 count)) (\<lambda>counts.
          obind (shrink_threshold remaining nb_bits threshold) (\<lambda>(nb_bits, threshold).
          ncount_loop br remaining threshold nb_bits counts (symbol + 1) (count = 0))))
      else Ok (br, remaining, counts, symbol))"
  by (subst ncount_loop.simps) (simp add: ncount_take_def Let_def split: prod.split)

lemma ncount_inv_step:
  assumes inv: "ncount_inv lg remaining (2 ^ k) (Suc k) counts symbol" and lg: "lg \<le> 14"
    and sym: "symbol < 256" and v: "0 \<le> v" "v \<le> remaining" and rem: "1 < remaining"
  shows "\<exists>k'. shrink_threshold (remaining - \<bar>v - 1\<bar>) (Suc k) (2 ^ k) = Ok (Suc k', 2 ^ k')
    \<and> ncount_inv lg (remaining - \<bar>v - 1\<bar>) (2 ^ k') (Suc k') (counts[symbol := as_i16 (v - 1)]) (Suc symbol)"
proof -
  have k: "k \<le> lg" using inv by (auto simp: ncount_inv_def)
  have len: "length counts = 256" and z: "\<And>i. symbol \<le> i \<Longrightarrow> i < 256 \<Longrightarrow> counts ! i = 0"
    and ge: "\<And>c. c \<in> set counts \<Longrightarrow> - 1 \<le> c"
    and sum: "sum_list (map abs counts) + remaining = 2 ^ lg + 1" and r: "remaining \<le> 2 * 2 ^ k - 1"
    using inv by (auto simp: ncount_inv_def)
  have "(2::int) ^ lg \<le> 2 ^ 14" using lg by (intro power_increasing) auto
  moreover have "0 \<le> sum_list (map abs counts)" by (rule sum_list_nonneg) auto
  ultimately have small: "as_i16 (v - 1) = v - 1" using v sum by (simp add: as_i16_small)
  have lower: "1 \<le> remaining - \<bar>v - 1\<bar>" using v rem by (simp add: abs_if)
  have upper: "remaining - \<bar>v - 1\<bar> \<le> 2 * 2 ^ k - 1" using r by linarith
  obtain k' where k': "k' \<le> k" "shrink_threshold (remaining - \<bar>v - 1\<bar>) (Suc k) (2 ^ k) = Ok (Suc k', 2 ^ k')"
    "2 ^ k' \<le> remaining - \<bar>v - 1\<bar>" "remaining - \<bar>v - 1\<bar> \<le> 2 * 2 ^ k' - 1"
    using shrink_threshold_spec [of "remaining - \<bar>v - 1\<bar>" k, OF lower upper] by auto
  have s': "sum_list (map abs (counts[symbol := v - 1])) + (remaining - \<bar>v - 1\<bar>) = 2 ^ lg + 1"
    using sum len sym z [of symbol] by (simp add: sum_list_map_update)
  have ge': "\<forall>c \<in> set (counts[symbol := v - 1]). - 1 \<le> c"
    using ge v set_update_subset_insert [of counts symbol "v - 1"] by fastforce
  show ?thesis
    using k' k s' ge' len z sym rem unfolding ncount_inv_def small
    by (intro exI [of _ k'] conjI exI [of _ k']) (auto simp: nth_list_update)
qed

lemma ncount_loop_spec:
  assumes "ncount_inv lg remaining threshold nb_bits counts symbol" and "lg \<le> 14" and "fbr_at br p"
  shows "\<exists>br' remaining' threshold' nb_bits' counts' symbol' q.
     ncount_loop br remaining threshold nb_bits counts symbol previous0 = Ok (br', remaining', counts', symbol')
     \<and> ncount_inv lg remaining' threshold' nb_bits' counts' symbol' \<and> fbr_at br' q \<and> fsrc br' = fsrc br"
  using assms
proof (induction "(symbol, previous0)" arbitrary: br remaining threshold nb_bits counts symbol previous0 p
    rule: wf_induct_rule [OF wf_measure [of "\<lambda>(symbol, previous0). 2 * (256 - symbol) + (if previous0 then 1 else 0)"]])
  case less: 1
  note inv = less.prems(1) and lg = less.prems(2) and at = less.prems(3)
  show ?case
  proof (cases "1 < remaining \<and> symbol < 256")
    case False
    then show ?thesis using inv at by (subst ncount_loop_unfold) auto
  next
    case go: True
    show ?thesis
    proof (cases previous0)
      case True
      obtain rpt br1 where r24: "rd_run24 br symbol = (rpt, br1)" by (cases "rd_run24 br symbol")
      obtain rpt2 br2 where r3: "rd_run3 br1 rpt = (rpt2, br2)" by (cases "rd_run3 br1 rpt")
      obtain v br3 where rd: "fbr_read br2 2 = (v, br3)" by (cases "fbr_read br2 2")
      obtain p1 where p1: "fbr_at br1 p1" "fsrc br1 = fsrc br"
        using rd_run24_at [OF at, of symbol] r24 by auto
      obtain p2 where p2: "fbr_at br2 p2" "fsrc br2 = fsrc br"
        using rd_run3_at [OF p1(1), of rpt] r3 p1 by auto
      have p3: "fbr_at br3 (p2 + 2)" "fsrc br3 = fsrc br"
        using fbr_read_at [OF p2(1), of 2] rd p2 by auto
      have le: "symbol \<le> rpt2 + v"
        using rd_run24_ge [of symbol br] rd_run3_ge [of rpt br1] r24 r3 by simp
      have "ncount_inv lg remaining threshold nb_bits counts (min (rpt2 + v) 256)"
        using inv le go by (auto simp: ncount_inv_def)
      from less.hyps [OF _ this lg p3(1), of False] le go True
      show ?thesis unfolding p3(2)
        by (subst ncount_loop_unfold) (simp add: r24 r3 rd)
    next
      case False
      from inv obtain k where k: "threshold = 2 ^ k" "nb_bits = Suc k" "k \<le> lg"
        "2 ^ k \<le> remaining" "remaining \<le> 2 * 2 ^ k - 1"
        by (auto simp: ncount_inv_def)
      have "k \<le> 30" using k(3) lg by simp
      from ncount_take_spec [OF this k(4,5) at] obtain v br' q where
        take: "ncount_take br remaining (2 ^ k) (Suc k) = Ok (v, br')" "0 \<le> v" "v \<le> remaining"
        and at': "fbr_at br' q" "fsrc br' = fsrc br" by blast
      from ncount_inv_step [OF inv [unfolded k(1,2)] lg _ take(2,3)] go obtain k' where
        sh: "shrink_threshold (remaining - \<bar>v - 1\<bar>) (Suc k) (2 ^ k) = Ok (Suc k', 2 ^ k')"
        and inv': "ncount_inv lg (remaining - \<bar>v - 1\<bar>) (2 ^ k') (Suc k') (counts[symbol := as_i16 (v - 1)]) (Suc symbol)"
        by blast
      have len: "length counts = 256" using inv by (simp add: ncount_inv_def)
      have "2 * (255 - symbol) + (if v = 1 then 1 else 0) < 2 * (256 - symbol)" using go by auto
      with less.hyps [OF _ inv' lg at'(1), of "v - 1 = 0"] go False
      show ?thesis unfolding at'(2) k(1,2)
        by (subst ncount_loop_unfold) (simp add: take sh len Let_def)
    qed
  qed
qed

lemma sum_list_0_all: "(\<And>i. i < length xs \<Longrightarrow> xs ! i = (0::int)) \<Longrightarrow> sum_list xs = 0"
  by (simp add: sum_list_sum_nth)

lemma sum_list_take_zero:
  assumes "\<And>i. n \<le> i \<Longrightarrow> i < length xs \<Longrightarrow> xs ! i = (0::int)"
  shows "sum_list (map abs (take n xs)) = sum_list (map abs xs)"
proof -
  have "sum_list (map abs (drop n xs)) = 0"
    using assms by (intro sum_list_0_all) auto
  then show ?thesis
    by (metis add.right_neutral append_take_drop_id map_append sum_list.append)
qed

text \<open>Reading a description never panics and never loops. A description it accepts is a
  normalized distribution within the caller's accuracy limit.\<close>

lemma read_ncount_cases:
  assumes "max_log \<le> 14"
  shows "(\<exists>e. read_ncount src max_log = Err e) \<or>
    (\<exists>nc. read_ncount src max_log = Ok nc
       \<and> valid_norm (nc_counts nc) (nc_max_symbol nc) (nc_table_log nc)
       \<and> length (nc_counts nc) = 256
       \<and> nc_counts nc ! nc_max_symbol nc \<noteq> 0
       \<and> 5 \<le> nc_table_log nc \<and> nc_table_log nc \<le> max_log
       \<and> nc_bytes_consumed nc \<le> length src)"
proof -
  obtain v br where rd: "fbr_read (fbr_new src) 4 = (v, br)" by (cases "fbr_read (fbr_new src) 4")
  have at: "fbr_at br 4" "fsrc br = src"
    using fbr_read_at [OF fbr_new_at, of 4 src] rd by simp_all
  show ?thesis
  proof (cases "min max_log FSE_MAX_TABLELOG < v + 5")
    case True
    then show ?thesis by (simp add: read_ncount_def rd)
  next
    case False
    then have lg: "v + 5 \<le> max_log" "v + 5 \<le> 14" using assms by (auto simp: min_def split: if_splits)
    have "ncount_inv (v + 5) (2 ^ (v + 5) + 1) (2 ^ (v + 5)) (v + 5 + 1) (replicate 256 0) 0"
      by (auto simp: ncount_inv_def sum_list_replicate)
    from ncount_loop_spec [OF this lg(2) at(1), of False]
    obtain br' remaining threshold nb_bits counts symbol q where
      loop: "ncount_loop br (2 ^ (v + 5) + 1) (2 ^ (v + 5)) (v + 5 + 1) (replicate 256 0) 0 False
        = Ok (br', remaining, counts, symbol)"
      and inv: "ncount_inv (v + 5) remaining threshold nb_bits counts symbol"
      and br': "fbr_at br' q" "fsrc br' = src" using at(2) by metis
    show ?thesis
    proof (cases "remaining = 1")
      case rem: False
      with False loop show ?thesis by (simp add: read_ncount_def rd)
    next
      case True
      have cs: "length counts = 256" "symbol \<le> 256" "0 < symbol" "counts ! (symbol - 1) \<noteq> 0"
        "\<forall>i. symbol \<le> i \<longrightarrow> i < 256 \<longrightarrow> counts ! i = 0" "\<forall>c \<in> set counts. - 1 \<le> c"
        "sum_list (map abs counts) = 2 ^ (v + 5)"
        using inv True by (auto simp: ncount_inv_def)
      then have "valid_norm counts (symbol - 1) (v + 5)"
        using sum_list_take_zero [of symbol counts] by (auto simp: valid_norm_def dest: in_set_takeD)
      moreover have "fbr_bytes_consumed br' \<le> length src"
        using fbr_bytes_consumed_le [OF br'(1)] br'(2) by simp
      ultimately show ?thesis using False True loop cs lg
        by (simp add: read_ncount_def rd)
    qed
  qed
qed

section \<open>Properties\<close>

text \<open>C14: reading an FSE table description from any bytes, with any limit on the accuracy log up to
  14, neither panics nor loops; when it succeeds the counts are a normalized distribution for the
  log it reports (at least -1 each, their absolute values summing to the table size), the log is
  between 5 and the limit, the last symbol has a non-zero count and no more bytes than given are
  consumed.\<close>

theorem read_ncount_valid:
  assumes "max_log \<le> 14"
  shows "post (read_ncount src max_log)
    (\<lambda>nc. valid_norm (nc_counts nc) (nc_max_symbol nc) (nc_table_log nc)
       \<and> length (nc_counts nc) = 256 \<and> nc_counts nc ! nc_max_symbol nc \<noteq> 0
       \<and> 5 \<le> nc_table_log nc \<and> nc_table_log nc \<le> max_log
       \<and> nc_bytes_consumed nc \<le> length src)
    (\<lambda>e. True)"
  using read_ncount_cases [OF assms, of src] by auto

theorem read_ncount_valid_witness:
  "post (read_ncount [0x30, 0x6F, 0x9B, 0x03] 9) (\<lambda>nc. nc_table_log nc \<le> 9) (\<lambda>e. True)"
  by (rule post_mono [OF read_ncount_valid]) simp_all

end
