(* ===== verification/Fse.thy ===== *)
theory Fse
  imports Fse_Ncount "HOL-Library.Multiset"
begin

text \<open>
  \<^verbatim>\<open>src/fse.rs\<close>: the decode table and the two-state decoder.
  \<^item> \<open>build_dtable\<close> spreads the symbols over the states with the step of the format. The step
    is coprime to the table size, so the walk visits every state once (\<open>walk\<close>); the places
    it gives are exactly the states the low-probability symbols left free.
  \<^item> \<open>fse_table_ok\<close> is the invariant of a built table that keeps every decoder state inside
    it; \<open>decompress\<close> keeps to it, and stops.
\<close>

unbundle bit_operations_syntax

section \<open>The decode table\<close>

fun place_low ::
  "byte list \<Rightarrow> nat list \<Rightarrow> nat \<Rightarrow> nat \<Rightarrow> int list \<Rightarrow> (byte list \<times> nat list \<times> nat) result" where
  "place_low symbols symbol_next high s [] = Ok (symbols, symbol_next, high)"
| "place_low symbols symbol_next high s (c # cs) =
     (if c = - 1 then
        obind (upd symbols high (word_of_nat s)) (\<lambda>symbols.
        obind (upd symbol_next s 1) (\<lambda>symbol_next.
        place_low symbols symbol_next (wrapping_dec high) (s + 1) cs))
      else
        obind (upd symbol_next s (as_u16 (nat (max c 0)))) (\<lambda>symbol_next.
        place_low symbols symbol_next high (s + 1) cs))"

text \<open>\<open>while pos > high_threshold\<close>. The walk is periodic with a period of at most \<open>sz\<close>
  steps: a search that has used up \<open>sz\<close> of them never ends.\<close>

fun skip_high :: "nat \<Rightarrow> nat \<Rightarrow> nat \<Rightarrow> nat \<Rightarrow> nat \<Rightarrow> nat result" where
  "skip_high sz step high fuel pos =
     (if high < pos then
        (case fuel of 0 \<Rightarrow> Hang
         | Suc fuel \<Rightarrow> skip_high sz step high fuel ((pos + step) AND (sz - 1)))
      else Ok pos)"

declare skip_high.simps [simp del]

fun spread_one :: "nat \<Rightarrow> nat \<Rightarrow> nat \<Rightarrow> byte \<Rightarrow> nat \<Rightarrow> byte list \<Rightarrow> nat \<Rightarrow> (byte list \<times> nat) result" where
  "spread_one sz step high s 0 symbols pos = Ok (symbols, pos)"
| "spread_one sz step high s (Suc n) symbols pos =
     obind (upd symbols pos s) (\<lambda>symbols.
     obind (skip_high sz step high sz ((pos + step) AND (sz - 1))) (\<lambda>pos.
     spread_one sz step high s n symbols pos))"

fun spread_all :: "nat \<Rightarrow> nat \<Rightarrow> nat \<Rightarrow> nat \<Rightarrow> int list \<Rightarrow> byte list \<Rightarrow> nat \<Rightarrow> (byte list \<times> nat) result" where
  "spread_all sz step high s [] symbols pos = Ok (symbols, pos)"
| "spread_all sz step high s (c # cs) symbols pos =
     (if c \<le> 0 then spread_all sz step high (s + 1) cs symbols pos
      else
        obind (spread_one sz step high (word_of_nat s) (nat c) symbols pos) (\<lambda>(symbols, pos).
        spread_all sz step high (s + 1) cs symbols pos))"

text \<open>The entry of a state whose symbol has the value \<open>nxt\<close> of \<open>symbol_next\<close>.\<close>

definition make_entry :: "nat \<Rightarrow> byte \<Rightarrow> nat \<Rightarrow> fse_entry result" where
  "make_entry table_log s nxt =
     (if nxt = 0 then Panic
      else
        obind (usub table_log (highbit32 nxt)) (\<lambda>num_bits.
        obind (usub (nxt * 2 ^ num_bits) (2 ^ table_log)) (\<lambda>new_state_base.
        Ok \<lparr>fe_symbol = s, fe_num_bits = as_u8 num_bits, fe_new_state_base = as_u16 new_state_base\<rparr>)))"

fun fill_entries :: "nat \<Rightarrow> nat list \<Rightarrow> byte list \<Rightarrow> fse_entry list result" where
  "fill_entries table_log symbol_next [] = Ok []"
| "fill_entries table_log symbol_next (s # ss) =
     obind (idx symbol_next (unat s)) (\<lambda>nxt.
     if 65535 \<le> nxt then Panic
     else
       obind (make_entry table_log s nxt) (\<lambda>e.
       obind (fill_entries table_log (symbol_next[unat s := nxt + 1]) ss) (\<lambda>es.
       Ok (e # es))))"

definition build_dtable :: "int list \<Rightarrow> nat \<Rightarrow> nat \<Rightarrow> fse_table result" where
  "build_dtable norm max_symbol table_log =
     (let sz = 2 ^ table_log;
          step = sz div 2 + sz div 8 + 3 in
      obind (slice_range norm 0 (max_symbol + 1)) (\<lambda>counts.
      obind (place_low (replicate sz 0) (replicate (max_symbol + 1) 0) (sz - 1) 0 counts)
        (\<lambda>(symbols, symbol_next, high).
      obind (spread_all sz step high 0 counts symbols 0) (\<lambda>(symbols, pos).
      if pos \<noteq> 0 then Err (CorruptTable ''FSE symbol spread did not cover the table'')
      else if FSE_DTABLE_SIZE < sz then Panic
      else
        obind (fill_entries table_log symbol_next symbols) (\<lambda>es.
        Ok \<lparr>ft_log = table_log,
            ft_entries = es @ replicate (FSE_DTABLE_SIZE - sz) default_fse_entry\<rparr>)))))"

section \<open>The walk over the states\<close>

definition walk :: "nat \<Rightarrow> nat \<Rightarrow> nat" where
  "walk lg k = k * (2 ^ lg div 2 + 2 ^ lg div 8 + 3) mod 2 ^ lg"

text \<open>The step is odd, so coprime to the size, at the accuracy logs the format uses (0 for the
  one-state tables of run-length mode).\<close>

definition spread_log :: "nat \<Rightarrow> bool" where
  "spread_log lg \<longleftrightarrow> lg = 0 \<or> 4 \<le> lg"

lemma walk_step_odd: "spread_log lg \<Longrightarrow> odd ((2::nat) ^ lg div 2 + 2 ^ lg div 8 + 3)"
proof -
  assume "spread_log lg"
  then consider "lg = 0" | m where "lg = m + 4"
    unfolding spread_log_def by (metis le_Suc_ex add.commute)
  then show ?thesis by cases (simp_all add: power_add)
qed

lemma walk_inj:
  assumes "spread_log lg" and "i < 2 ^ lg" and "j < 2 ^ lg" and "walk lg i = walk lg j"
  shows "i = j"
  using assms(2-4)
proof (induction i j rule: linorder_wlog)
  case (le i j)
  define st :: nat where "st = 2 ^ lg div 2 + 2 ^ lg div 8 + 3"
  have "odd st" unfolding st_def by (rule walk_step_odd [OF assms(1)])
  then have cop: "coprime (2 ^ lg) st" by simp
  have "2 ^ lg dvd j * st - i * st"
    using mod_eq_dvd_iff_nat [of "i * st" "j * st" "2 ^ lg"] le(1,4)
    by (simp add: walk_def flip: st_def)
  then have "2 ^ lg dvd (j - i) * st" by (simp add: diff_mult_distrib)
  then have "2 ^ lg dvd j - i" using cop by (simp add: coprime_dvd_mult_left_iff)
  moreover have "j - i < 2 ^ lg" using le(3) by simp
  ultimately have "j - i = 0" using nat_dvd_not_less [of "j - i" "2 ^ lg"] by blast
  then show ?case using le(1) by simp
next
  case (sym i j)
  then show ?case by simp
qed

lemma walk_less: "walk lg k < 2 ^ lg"
  by (simp add: walk_def)

lemma walk_0 [simp]: "walk lg 0 = 0"
  by (simp add: walk_def)

lemma walk_end [simp]: "walk lg (2 ^ lg) = 0"
  by (simp add: walk_def)

lemma walk_Suc:
  "(walk lg k + (2 ^ lg div 2 + 2 ^ lg div 8 + 3)) AND (2 ^ lg - Suc 0) = walk lg (Suc k)"
  unfolding and_pow2_minus_1 [unfolded One_nat_def] walk_def by (simp add: mod_simps add.commute)

text \<open>The places of the walk at or below \<open>high\<close> among its first \<open>k\<close>.\<close>

definition places :: "nat \<Rightarrow> nat \<Rightarrow> nat \<Rightarrow> nat list" where
  "places lg high k = filter (\<lambda>p. p \<le> high) (map (walk lg) [0..<k])"

lemma places_Suc:
  "places lg high (Suc k) = places lg high k @ (if walk lg k \<le> high then [walk lg k] else [])"
  by (simp add: places_def)

lemma distinct_places: "spread_log lg \<Longrightarrow> k \<le> 2 ^ lg \<Longrightarrow> distinct (places lg high k)"
  unfolding places_def by (intro distinct_filter) (auto simp: distinct_map inj_on_def intro: walk_inj)

lemma walk_surj: "spread_log lg \<Longrightarrow> walk lg ` {0..<2 ^ lg} = {0..<2 ^ lg}"
proof -
  assume lg: "spread_log lg"
  have "inj_on (walk lg) {0..<2 ^ lg}" by (auto simp: inj_on_def intro: walk_inj [OF lg])
  then have "card (walk lg ` {0..<2 ^ lg}) = card {0..<(2::nat) ^ lg}" by (rule card_image)
  moreover have "walk lg ` {0..<2 ^ lg} \<subseteq> {0..<2 ^ lg}" by (auto simp: walk_less)
  ultimately show ?thesis by (intro card_subset_eq) auto
qed

lemma set_places:
  "spread_log lg \<Longrightarrow> high < 2 ^ lg \<Longrightarrow> set (places lg high (2 ^ lg)) = {0..high}"
  using walk_surj [of lg] by (auto simp: places_def)

lemma length_places: "spread_log lg \<Longrightarrow> high < 2 ^ lg \<Longrightarrow> length (places lg high (2 ^ lg)) = high + 1"
  using distinct_card [OF distinct_places [of lg "2 ^ lg" high]] set_places [of lg high] by simp

section \<open>Spreading the symbols\<close>

text \<open>The list of symbols the spread writes, in its order, and the loop over it.\<close>

definition spread_list :: "nat \<Rightarrow> int list \<Rightarrow> byte list" where
  "spread_list s cs = concat (map (\<lambda>(i, c). replicate (nat c) (word_of_nat i)) (zip [s..<s + length cs] cs))"

lemma spread_list_simps [simp]:
  "spread_list s [] = []"
  "spread_list s (c # cs) = replicate (nat c) (word_of_nat s) @ spread_list (Suc s) cs"
  by (simp_all add: spread_list_def upt_conv_Cons del: upt_Suc)

fun place_seq :: "nat \<Rightarrow> nat \<Rightarrow> nat \<Rightarrow> byte list \<Rightarrow> byte list \<Rightarrow> nat \<Rightarrow> (byte list \<times> nat) result" where
  "place_seq sz step high [] symbols pos = Ok (symbols, pos)"
| "place_seq sz step high (s # ss) symbols pos =
     obind (upd symbols pos s) (\<lambda>symbols.
     obind (skip_high sz step high sz ((pos + step) AND (sz - 1))) (\<lambda>pos.
     place_seq sz step high ss symbols pos))"

lemma spread_one_seq:
  "spread_one sz step high s n symbols pos = place_seq sz step high (replicate n s) symbols pos"
  by (induction n arbitrary: symbols pos) (auto intro!: obind_cong)

lemma place_seq_append:
  "place_seq sz step high (xs @ ys) symbols pos =
     obind (place_seq sz step high xs symbols pos) (\<lambda>(symbols, pos). place_seq sz step high ys symbols pos)"
  by (induction xs arbitrary: symbols pos) (auto simp: obind_assoc intro!: obind_cong)

lemma spread_all_seq:
  "spread_all sz step high s cs symbols pos = place_seq sz step high (spread_list s cs) symbols pos"
proof (induction cs arbitrary: s symbols pos)
  case Nil
  then show ?case by simp
next
  case (Cons c cs)
  then show ?case by (auto simp: spread_one_seq place_seq_append intro!: obind_cong)
qed

lemma skip_high_walk:
  assumes "k \<le> 2 ^ lg" and "2 ^ lg \<le> k + fuel"
  shows "\<exists>k' \<le> 2 ^ lg. skip_high (2 ^ lg) (2 ^ lg div 2 + 2 ^ lg div 8 + 3) high fuel (walk lg k) = Ok (walk lg k')
    \<and> places lg high k' = places lg high k \<and> walk lg k' \<le> high"
  using assms
proof (induction fuel arbitrary: k)
  case 0
  then have "k = 2 ^ lg" by simp
  then show ?case by (intro exI [of _ "2 ^ lg"]) (simp add: skip_high.simps)
next
  case (Suc fuel)
  show ?case
  proof (cases "high < walk lg k")
    case False
    with Suc.prems show ?thesis by (intro exI [of _ k]) (simp add: skip_high.simps)
  next
    case True
    then have "k \<noteq> 2 ^ lg" by (intro notI) simp
    with Suc.prems have "Suc k \<le> 2 ^ lg" "2 ^ lg \<le> Suc k + fuel" by simp_all
    from Suc.IH [OF this] True show ?thesis
      by (simp add: skip_high.simps [of _ _ _ "Suc fuel"] walk_Suc places_Suc)
  qed
qed

text \<open>After \<open>n\<close> symbols the first \<open>n\<close> places hold them.\<close>

lemma place_seq_walk:
  assumes lg: "spread_log lg" and high: "high < 2 ^ lg"
    and k: "k \<le> 2 ^ lg" "walk lg k \<le> high"
    and fit: "length (places lg high k) + length ss = high + 1"
    and len: "length symbols = 2 ^ lg"
    and put: "map ((!) symbols) (places lg high k) = pre"
    and above: "\<And>p. high < p \<Longrightarrow> p < 2 ^ lg \<Longrightarrow> symbols ! p = f p"
  shows "\<exists>symbols'. place_seq (2 ^ lg) (2 ^ lg div 2 + 2 ^ lg div 8 + 3) high ss symbols (walk lg k) = Ok (symbols', 0)
    \<and> length symbols' = 2 ^ lg \<and> map ((!) symbols') (places lg high (2 ^ lg)) = pre @ ss
    \<and> (\<forall>p. high < p \<longrightarrow> p < 2 ^ lg \<longrightarrow> symbols' ! p = f p)"
  using k fit len put above
proof (induction ss arbitrary: k symbols pre)
  case Nil
  have "k = 2 ^ lg"
  proof (rule ccontr)
    assume "k \<noteq> 2 ^ lg"
    then have lt: "k < 2 ^ lg" using Nil(1) by simp
    then have "mset (places lg high (Suc k)) \<subseteq># mset (places lg high (2 ^ lg))"
      unfolding places_def
      by (metis (no_types, lifting) Suc_leI mset_filter multiset_filter_mono map_append mset_append mset_subset_eq_add_left upt_add_eq_append zero_le le_Suc_ex)
    then have "length (places lg high (Suc k)) \<le> high + 1"
      using size_mset_mono length_places [OF lg high] by (metis size_mset)
    then show False using Nil(2,3) by (simp add: places_Suc)
  qed
  then show ?case using Nil by simp
next
  case (Cons s ss)
  have klt: "k < 2 ^ lg"
  proof (rule ccontr)
    assume "\<not> k < 2 ^ lg"
    then have "k = 2 ^ lg" using Cons.prems(1) by simp
    then show False using Cons.prems(3) length_places [OF lg high] by simp
  qed
  define sy where "sy = symbols[walk lg k := s]"
  have fresh: "walk lg k \<notin> set (places lg high k)"
    using distinct_places [OF lg, of "Suc k" high] klt Cons.prems(2) by (simp add: places_Suc)
  have put': "map ((!) sy) (places lg high (Suc k)) = pre @ [s]"
    using Cons.prems(2,4,5) fresh by (auto simp: sy_def places_Suc walk_less nth_list_update intro!: map_cong)
  obtain k' where k': "k' \<le> 2 ^ lg" "places lg high k' = places lg high (Suc k)" "walk lg k' \<le> high"
    "skip_high (2 ^ lg) (2 ^ lg div 2 + 2 ^ lg div 8 + 3) high (2 ^ lg) (walk lg (Suc k)) = Ok (walk lg k')"
    using skip_high_walk [of "Suc k" lg "2 ^ lg" high] klt by auto
  have fit': "length (places lg high k') + length ss = high + 1"
    using Cons.prems(2,3) k'(2) by (simp add: places_Suc)
  have above': "sy ! p = f p" if "high < p" "p < 2 ^ lg" for p
    using Cons.prems(2,6) that by (simp add: sy_def nth_list_update)
  have "length sy = 2 ^ lg" using Cons.prems(4) by (simp add: sy_def)
  from Cons.IH [OF k'(1,3) fit' this _ above', of "pre @ [s]"] put' k'(2)
  show ?case using Cons.prems(4) k'(4) walk_less [of lg k]
    by (simp add: walk_Suc flip: sy_def)
qed

section \<open>The symbols of the states\<close>

text \<open>How many states a count gives its symbol, and the low-probability symbols.\<close>

definition share :: "int \<Rightarrow> nat" where
  "share c = (if c = - 1 then 1 else nat c)"

definition low_list :: "nat \<Rightarrow> int list \<Rightarrow> byte list" where
  "low_list s cs = map (\<lambda>(i, c). word_of_nat i) (filter (\<lambda>(i, c). c = - 1) (zip [s..<s + length cs] cs))"

definition share_list :: "nat \<Rightarrow> int list \<Rightarrow> byte list" where
  "share_list s cs = concat (map (\<lambda>(i, c). replicate (share c) (word_of_nat i)) (zip [s..<s + length cs] cs))"

lemma low_list_simps [simp]:
  "low_list s [] = []"
  "low_list s (c # cs) = (if c = - 1 then [word_of_nat s] else []) @ low_list (Suc s) cs"
  by (simp_all add: low_list_def upt_conv_Cons del: upt_Suc)

lemma share_list_simps [simp]:
  "share_list s [] = []"
  "share_list s (c # cs) = replicate (share c) (word_of_nat s) @ share_list (Suc s) cs"
  by (simp_all add: share_list_def upt_conv_Cons del: upt_Suc)

lemma mset_share_list: "mset (share_list s cs) = mset (spread_list s cs) + mset (low_list s cs)"
  by (induction cs arbitrary: s) (auto simp: share_def)

lemma length_share_list:
  "(\<And>c. c \<in> set cs \<Longrightarrow> - 1 \<le> c) \<Longrightarrow> int (length (share_list s cs)) = sum_list (map abs cs)"
proof (induction cs arbitrary: s)
  case Nil
  then show ?case by simp
next
  case (Cons c cs)
  have "int (share c) = \<bar>c\<bar>" using Cons.prems [of c] by (auto simp: share_def)
  then show ?case using Cons by simp
qed

lemma set_share_list: "set (share_list s cs) \<subseteq> word_of_nat ` {s..<s + length cs}"
proof (induction cs arbitrary: s)
  case Nil
  then show ?case by simp
next
  case (Cons c cs)
  from Cons [of "Suc s"] show ?case by (fastforce simp: image_iff)
qed

lemma unat_word_of_nat_byte: "n < 256 \<Longrightarrow> unat (word_of_nat n :: byte) = n"
  by (simp add: unat_of_nat)

lemma count_share_list:
  "i < length cs \<Longrightarrow> s + length cs \<le> 256 \<Longrightarrow> count_list (share_list s cs) (word_of_nat (s + i)) = share (cs ! i)"
proof (induction cs arbitrary: s i)
  case Nil
  then show ?case by simp
next
  case (Cons c cs)
  have rep: "count_list (replicate n x) y = (if x = y then n else 0)" for n and x y :: byte
    by (induction n) auto
  have inj: "(word_of_nat a :: byte) = word_of_nat b \<longleftrightarrow> a = b" if "a < 256" "b < 256" for a b
    using that by (metis unat_word_of_nat_byte)
  show ?case
  proof (cases i)
    case 0
    have "(word_of_nat s :: byte) \<notin> set (share_list (Suc s) cs)"
    proof
      assume "(word_of_nat s :: byte) \<in> set (share_list (Suc s) cs)"
      then obtain a where "a \<in> {Suc s..<Suc s + length cs}" "(word_of_nat s :: byte) = word_of_nat a"
        using set_share_list [of "Suc s" cs] by blast
      then show False using inj [of s a] Cons.prems by simp
    qed
    then show ?thesis using 0 by (simp add: rep count_list_0_iff)
  next
    case (Suc j)
    then show ?thesis
      using Cons.IH [of j "Suc s"] Cons.prems inj [of s "s + i"] by (simp add: rep)
  qed
qed

definition low_left :: "nat \<Rightarrow> nat \<Rightarrow> nat" where
  "low_left high n = (if n \<le> high then high - n else usize_max)"

lemma share_cast: "- 1 \<noteq> c \<Longrightarrow> c < 65536 \<Longrightarrow> as_u16 (nat (max c 0)) = share c"
  by (auto simp: share_def as_u16_def max_def)

lemma place_low_spec:
  assumes "low_list s cs = [] \<or> length (low_list s cs) \<le> high + 1 \<and> high < length symbols"
    and "s + length cs \<le> length symbol_next" and "\<And>c. c \<in> set cs \<Longrightarrow> c < 65536"
    and "length symbols \<le> usize_max"
  shows "place_low symbols symbol_next high s cs =
    Ok (take (high + 1 - length (low_list s cs)) symbols @ rev (low_list s cs) @ drop (high + 1) symbols,
        take s symbol_next @ map share cs @ drop (s + length cs) symbol_next,
        low_left high (length (low_list s cs)))"
  using assms
proof (induction cs arbitrary: s symbols symbol_next high)
  case Nil
  then show ?case by (simp add: low_left_def)
next
  case (Cons c cs)
  have s: "s < length symbol_next" "Suc s + length cs \<le> length (symbol_next[s := v])"
    and nxt: "take (Suc s) (symbol_next[s := v]) @ map share cs @ drop (Suc s + length cs) (symbol_next[s := v])
      = take s symbol_next @ v # map share cs @ drop (Suc s + length cs) symbol_next" for v
    using Cons.prems(2) by (simp_all add: take_Suc_conv_app_nth)
  show ?case
  proof (cases "c = - 1")
    case False
    have c: "as_u16 (nat (max c 0)) = share c" using Cons.prems(3) [of c] False share_cast [of c] by simp
    show ?thesis
      using Cons.IH [OF _ s(2), of high symbols "share c"] Cons.prems(1,3,4) False s(1) nxt [of "share c"]
      by (simp add: c)
  next
    case True
    define lows where "lows = low_list (Suc s) cs"
    have high: "length lows \<le> high" "high < length symbols" using Cons.prems(1) True by (simp_all add: lows_def)
    have pre: "lows = [] \<or> length lows \<le> wrapping_dec high + 1 \<and> wrapping_dec high < length (symbols[high := word_of_nat s])"
      using high by (cases high) (auto simp: wrapping_dec_def)
    have sy: "take (wrapping_dec high + 1 - length lows) (symbols[high := v]) @ rev lows
        @ drop (wrapping_dec high + 1) (symbols[high := v])
      = take (high - length lows) symbols @ rev lows @ v # drop (high + 1) symbols" for v
    proof (cases high)
      case 0
      then obtain x xs where "symbols = x # xs" "lows = []" using high by (cases symbols) auto
      then show ?thesis using 0 Cons.prems(4) by (simp add: wrapping_dec_def)
    next
      case (Suc h)
      then show ?thesis using high by (simp add: wrapping_dec_def drop_update_swap Cons_nth_drop_Suc [symmetric])
    qed
    have ll: "low_left (wrapping_dec high) (length lows) = low_left high (Suc (length lows))"
      using high by (auto simp: low_left_def wrapping_dec_def)
    have "share c = 1" using True by (simp add: share_def)
    then show ?thesis
      using Cons.IH [OF pre [unfolded lows_def] s(2), of 1] Cons.prems(3,4) True high s(1)
        nxt [of 1] sy [of "word_of_nat s"] ll
      by (simp add: lows_def)
  qed
qed

section \<open>Filling the entries\<close>

text \<open>The entry of a state: \<open>n\<close> is the share of its symbol plus the number of earlier states of
  the same symbol.\<close>

definition entry_of :: "nat \<Rightarrow> byte \<Rightarrow> nat \<Rightarrow> fse_entry" where
  "entry_of lg s n = (let nb = lg - highbit32 n in
     \<lparr>fe_symbol = s, fe_num_bits = nb, fe_new_state_base = n * 2 ^ nb - 2 ^ lg\<rparr>)"

lemma pow2_bracket:
  assumes "0 < n" and "n < 2 * 2 ^ lg" and "lg \<le> 16"
  shows "highbit32 n \<le> lg" and "2 ^ lg \<le> n * 2 ^ (lg - highbit32 n)"
    and "n * 2 ^ (lg - highbit32 n) + 2 ^ (lg - highbit32 n) \<le> 2 * 2 ^ lg"
proof -
  define h where "h = highbit32 n"
  have "(2::nat) ^ lg \<le> 2 ^ 16" using assms(3) by (intro power_increasing) auto
  then have "n < 2 ^ 32" using assms(2) by simp
  then have h: "2 ^ h \<le> n" "n < 2 * 2 ^ h" using highbit32_bounds [of n] assms(1) by (simp_all add: h_def)
  then have "(2::nat) ^ h < 2 ^ Suc lg" using assms(2) by simp
  then have hl: "h \<le> lg" by (simp only: power_strict_increasing_iff one_less_numeral_iff semiring_norm less_Suc_eq_le)
  then have pow: "(2::nat) ^ h * 2 ^ (lg - h) = 2 ^ lg" by (simp flip: power_add)
  show "highbit32 n \<le> lg" using hl by (simp add: h_def)
  have "2 ^ h * 2 ^ (lg - h) \<le> n * 2 ^ (lg - h)" using h(1) by (intro mult_right_mono) auto
  then show "2 ^ lg \<le> n * 2 ^ (lg - highbit32 n)" unfolding pow unfolding h_def .
  have "(n + 1) * 2 ^ (lg - h) \<le> (2 * 2 ^ h) * 2 ^ (lg - h)" using h(2) by (intro mult_right_mono) auto
  then show "n * 2 ^ (lg - highbit32 n) + 2 ^ (lg - highbit32 n) \<le> 2 * 2 ^ lg"
    unfolding h_def [symmetric] using pow by (simp only: distrib_right mult.assoc mult_1)
qed

lemma make_entry_Ok:
  assumes "0 < n" and "n < 2 * 2 ^ lg" and "lg \<le> 9"
  shows "make_entry lg s n = Ok (entry_of lg s n)"
proof -
  note b = pow2_bracket [OF assms(1,2)]
  have "(2::nat) ^ lg \<le> 2 ^ 9" using assms(3) by (intro power_increasing) auto
  then have "n * 2 ^ (lg - highbit32 n) - 2 ^ lg < 65536" using b(3) assms(3) by simp
  moreover have "lg - highbit32 n < 256" using assms(3) by simp
  ultimately show ?thesis
    using assms b(1,2) by (simp add: make_entry_def entry_of_def as_u16_small as_u8_small Let_def)
qed

lemma fill_entries_Ok:
  assumes "lg \<le> 9"
    and "\<And>s. s \<in> set ss \<Longrightarrow> unat s < length symbol_next \<and> 0 < symbol_next ! unat s
      \<and> symbol_next ! unat s + count_list ss s \<le> 2 * 2 ^ lg"
  shows "fill_entries lg symbol_next ss = Ok (map (\<lambda>u. entry_of lg (ss ! u)
    (symbol_next ! unat (ss ! u) + count_list (take u ss) (ss ! u))) [0..<length ss])"
  using assms(2)
proof (induction ss arbitrary: symbol_next)
  case Nil
  then show ?case by simp
next
  case (Cons s ss)
  define nxt where "nxt = symbol_next ! unat s"
  have s: "unat s < length symbol_next" "0 < nxt" "nxt + 1 + count_list ss s \<le> 2 * 2 ^ lg"
    using Cons.prems [of s] by (simp_all add: nxt_def)
  have "(2::nat) ^ lg \<le> 2 ^ 9" using assms(1) by (intro power_increasing) auto
  then have small: "\<not> 65535 \<le> nxt" using s(3) by simp
  have e: "make_entry lg s nxt = Ok (entry_of lg s nxt)"
    using make_entry_Ok [OF s(2) _ assms(1)] s(3) by simp
  have IH: "fill_entries lg (symbol_next[unat s := nxt + 1]) ss = Ok (map (\<lambda>u. entry_of lg (ss ! u)
    (symbol_next[unat s := nxt + 1] ! unat (ss ! u) + count_list (take u ss) (ss ! u))) [0..<length ss])"
  proof (rule Cons.IH)
    fix t
    assume t: "t \<in> set ss"
    have eq: "unat t = unat s \<longleftrightarrow> t = s" by (simp add: word_unat_eq_iff)
    show "unat t < length (symbol_next[unat s := nxt + 1]) \<and> 0 < symbol_next[unat s := nxt + 1] ! unat t
      \<and> symbol_next[unat s := nxt + 1] ! unat t + count_list ss t \<le> 2 * 2 ^ lg"
      using Cons.prems [of t] t s eq by (auto simp: nth_list_update split: if_splits)
  qed
  have "[0..<length (s # ss)] = 0 # map Suc [0..<length ss]" by (simp add: map_Suc_upt upt_conv_Cons del: upt_Suc)
  moreover have "symbol_next[unat s := nxt + 1] ! unat t + count_list (take u ss) t
      = symbol_next ! unat t + count_list (take (Suc u) (s # ss)) t" for t u
    using s(1) by (auto simp: nth_list_update nxt_def word_unat_eq_iff)
  ultimately show ?case
    using s(1) small e IH by (simp add: nxt_def)
qed

section \<open>What a built table holds\<close>

text \<open>The symbols of the states, as the format fixes them: the low-probability symbols from the
  top down, the others along the walk.\<close>

definition spread_spec :: "nat \<Rightarrow> int list \<Rightarrow> byte list \<Rightarrow> bool" where
  "spread_spec lg cs syms \<longleftrightarrow>
     (let lows = low_list 0 cs in
      length syms = 2 ^ lg \<and> length lows \<le> 2 ^ lg
      \<and> drop (2 ^ lg - length lows) syms = rev lows
      \<and> (length lows < 2 ^ lg \<longrightarrow>
          map ((!) syms) (places lg (2 ^ lg - 1 - length lows) (2 ^ lg)) = spread_list 0 cs))"

definition norm_counts :: "nat \<Rightarrow> int list \<Rightarrow> bool" where
  "norm_counts lg cs \<longleftrightarrow> length cs \<le> 256 \<and> (\<forall>c \<in> set cs. - 1 \<le> c) \<and> sum_list (map abs cs) = 2 ^ lg"

lemma valid_norm_counts: "valid_norm norm ms lg \<Longrightarrow> norm_counts lg (take (ms + 1) norm)"
  by (simp add: valid_norm_def norm_counts_def)

lemma norm_counts_lengths:
  assumes "norm_counts lg cs"
  shows "length (share_list 0 cs) = 2 ^ lg"
    and "length (spread_list 0 cs) + length (low_list 0 cs) = 2 ^ lg"
proof -
  have "int (length (share_list 0 cs)) = 2 ^ lg"
    using assms length_share_list [of cs 0] by (simp add: norm_counts_def)
  then show sh: "length (share_list 0 cs) = 2 ^ lg" by (metis of_nat_eq_iff of_nat_numeral of_nat_power)
  show "length (spread_list 0 cs) + length (low_list 0 cs) = 2 ^ lg"
    using sh arg_cong [OF mset_share_list [of 0 cs], of size] by simp
qed

lemma norm_counts_bound:
  assumes "norm_counts lg cs" and "c \<in> set cs"
  shows "c \<le> 2 ^ lg"
proof -
  have "\<bar>c\<bar> \<le> sum_list (map abs cs)"
    using assms(2) by (intro member_le_sum_list) auto
  then show ?thesis using assms(1) by (simp add: norm_counts_def)
qed

lemma spread_spec_mset:
  assumes "spread_log lg" and "norm_counts lg cs" and "spread_spec lg cs syms"
  shows "mset syms = mset (share_list 0 cs)"
proof -
  define L where "L = length (low_list 0 cs)"
  have spec: "length syms = 2 ^ lg" "L \<le> 2 ^ lg" "drop (2 ^ lg - L) syms = rev (low_list 0 cs)"
    "L < 2 ^ lg \<Longrightarrow> map ((!) syms) (places lg (2 ^ lg - 1 - L) (2 ^ lg)) = spread_list 0 cs"
    using assms(3) by (auto simp: spread_spec_def Let_def L_def)
  have low: "mset (take (2 ^ lg - L) syms) = mset (spread_list 0 cs)"
  proof (cases "L < 2 ^ lg")
    case False
    then have "length (spread_list 0 cs) = 0"
      using norm_counts_lengths(2) [OF assms(2)] unfolding L_def by linarith
    then show ?thesis using False spec(2) by simp
  next
    case True
    define high where "high = 2 ^ lg - 1 - L"
    have high: "high < 2 ^ lg" "2 ^ lg - L = high + 1" using True by (simp_all add: high_def)
    have "mset (places lg high (2 ^ lg)) = mset [0..<high + 1]"
      using set_eq_iff_mset_eq_distinct [OF distinct_places [OF assms(1), of "2 ^ lg" high], of "[0..<high + 1]"]
        set_places [OF assms(1) high(1)] by (simp add: atLeastLessThanSuc_atLeastAtMost del: upt_Suc)
    then have "mset (map ((!) syms) (places lg high (2 ^ lg))) = mset (map ((!) syms) [0..<high + 1])"
      by (simp only: mset_map)
    also have "map ((!) syms) [0..<high + 1] = take (high + 1) syms"
      using high spec(1) by (intro nth_equalityI) (auto simp del: upt_Suc)
    finally have "mset (map ((!) syms) (places lg high (2 ^ lg))) = mset (take (high + 1) syms)" .
    then show ?thesis using spec(4) [OF True] unfolding high_def [symmetric] high(2) by metis
  qed
  have "mset syms = mset (take (2 ^ lg - L) syms) + mset (drop (2 ^ lg - L) syms)"
    by (metis append_take_drop_id mset_append)
  then show ?thesis by (simp add: low spec(3) mset_share_list)
qed

text \<open>There is only one such list: the encoder's spread and the decoder's agree.\<close>

lemma spread_spec_unique:
  assumes "spread_log lg" and "spread_spec lg cs xs" and "spread_spec lg cs ys"
  shows "xs = ys"
proof (rule nth_equalityI)
  show "length xs = length ys" using assms by (simp add: spread_spec_def Let_def)
  define L where "L = length (low_list 0 cs)"
  fix p
  assume p: "p < length xs"
  have len: "length xs = 2 ^ lg" "length ys = 2 ^ lg" "L \<le> 2 ^ lg"
    using assms(2,3) by (simp_all add: spread_spec_def Let_def L_def)
  show "xs ! p = ys ! p"
  proof (cases "p < 2 ^ lg - L")
    case False
    have "drop (2 ^ lg - L) xs = drop (2 ^ lg - L) ys"
      using assms(2,3) by (simp add: spread_spec_def Let_def L_def)
    then have "drop (2 ^ lg - L) xs ! (p - (2 ^ lg - L)) = drop (2 ^ lg - L) ys ! (p - (2 ^ lg - L))"
      by simp
    then show ?thesis using False p len by simp
  next
    case True
    then have "p \<in> set (places lg (2 ^ lg - 1 - L) (2 ^ lg))"
      using set_places [OF assms(1), of "2 ^ lg - 1 - L"] by auto
    moreover have "map ((!) xs) (places lg (2 ^ lg - 1 - L) (2 ^ lg))
        = map ((!) ys) (places lg (2 ^ lg - 1 - L) (2 ^ lg))"
      using assms(2,3) True by (simp add: spread_spec_def Let_def L_def)
    ultimately show ?thesis by simp
  qed
qed

lemma spread_Ok:
  assumes lg: "spread_log lg" and cs: "norm_counts lg cs"
    and symbols: "symbols = take (2 ^ lg - length (low_list 0 cs)) (replicate (2 ^ lg) 0) @ rev (low_list 0 cs)"
  shows "\<exists>syms. spread_all (2 ^ lg) (2 ^ lg div 2 + 2 ^ lg div 8 + 3)
      (low_left (2 ^ lg - 1) (length (low_list 0 cs))) 0 cs symbols 0 = Ok (syms, 0)
    \<and> spread_spec lg cs syms"
proof (cases "length (low_list 0 cs) < 2 ^ lg")
  case False
  then have "length (spread_list 0 cs) = 0" "length (low_list 0 cs) = 2 ^ lg"
    using norm_counts_lengths(2) [OF cs] by linarith+
  then show ?thesis by (simp add: spread_all_seq spread_spec_def symbols)
next
  case True
  define L where "L = length (low_list 0 cs)"
  define high where "high = 2 ^ lg - 1 - L"
  have high: "high < 2 ^ lg" "2 ^ lg - L = high + 1" "low_left (2 ^ lg - 1) L = high"
    using True by (auto simp: high_def low_left_def L_def)
  have len: "length symbols = 2 ^ lg" using True by (simp add: symbols)
  have fit: "length (places lg high 0) + length (spread_list 0 cs) = high + 1"
    using norm_counts_lengths [OF cs] high by (simp add: places_def flip: L_def)
  from place_seq_walk [OF lg high(1) _ _ fit len, of "[]" "\<lambda>p. symbols ! p"]
  obtain syms where
    "place_seq (2 ^ lg) (2 ^ lg div 2 + 2 ^ lg div 8 + 3) high (spread_list 0 cs) symbols 0 = Ok (syms, 0)"
    and syms: "length syms = 2 ^ lg" "map ((!) syms) (places lg high (2 ^ lg)) = spread_list 0 cs"
    "\<forall>p. high < p \<longrightarrow> p < 2 ^ lg \<longrightarrow> syms ! p = symbols ! p"
    by (auto simp: places_def)
  moreover have "drop (2 ^ lg - L) syms = drop (2 ^ lg - L) symbols"
    using syms(1,3) len high(2) by (intro nth_equalityI) auto
  moreover have "drop (2 ^ lg - L) symbols = rev (low_list 0 cs)"
    using True by (simp add: symbols L_def)
  ultimately show ?thesis
    using True high by (auto simp: spread_all_seq spread_spec_def Let_def high_def simp flip: L_def)
qed

definition dtable_of :: "nat \<Rightarrow> int list \<Rightarrow> byte list \<Rightarrow> fse_table" where
  "dtable_of lg cs syms = \<lparr>ft_log = lg, ft_entries =
     map (\<lambda>u. entry_of lg (syms ! u) (share (cs ! unat (syms ! u)) + count_list (take u syms) (syms ! u))) [0..<2 ^ lg]
     @ replicate (FSE_DTABLE_SIZE - 2 ^ lg) default_fse_entry\<rparr>"

lemma count_list_take_less: "u < length xs \<Longrightarrow> count_list (take u xs) (xs ! u) < count_list xs (xs ! u)"
proof -
  assume u: "u < length xs"
  have "count_list xs (xs ! u) = count_list (take u xs @ xs ! u # drop (Suc u) xs) (xs ! u)"
    using u by (simp add: id_take_nth_drop [symmetric])
  then show ?thesis by simp
qed

lemma spread_spec_count:
  assumes "spread_log lg" and cs: "norm_counts lg cs" and "spread_spec lg cs syms" and "s \<in> set syms"
  shows "unat s < length cs" and "count_list syms s = share (cs ! unat s)" and "0 < share (cs ! unat s)"
proof -
  have ms: "mset syms = mset (share_list 0 cs)" by (rule spread_spec_mset [OF assms(1-3)])
  then have "s \<in> set (share_list 0 cs)" using assms(4) by (metis mset_eq_setD)
  then obtain i where i: "i < length cs" "s = word_of_nat i"
    using set_share_list [of 0 cs] by auto
  have "length cs \<le> 256" using cs by (simp add: norm_counts_def)
  then have u: "unat s = i" using i unat_word_of_nat_byte [of i] by simp
  show "unat s < length cs" using i u by simp
  have "count_list syms s = count_list (share_list 0 cs) s" using ms by (metis count_mset)
  then show c: "count_list syms s = share (cs ! unat s)"
    using count_share_list [of i cs 0] i u \<open>length cs \<le> 256\<close> by simp
  show "0 < share (cs ! unat s)" using c assms(4) by (metis count_list_0_iff neq0_conv)
qed

lemma place_counts:
  assumes cs: "norm_counts lg cs" and lg: "lg \<le> 9"
  shows "place_low (replicate (2 ^ lg) 0) (replicate (length cs) 0) (2 ^ lg - 1) 0 cs
      = Ok (take (2 ^ lg - length (low_list 0 cs)) (replicate (2 ^ lg) 0) @ rev (low_list 0 cs),
            map share cs, low_left (2 ^ lg - 1) (length (low_list 0 cs)))"
proof -
  have pow: "(2::nat) ^ lg \<le> 512" using power_increasing [of lg 9 "2::nat"] lg by simp
  have L: "length (low_list 0 cs) \<le> 2 ^ lg" using norm_counts_lengths [OF cs] by simp
  have "c < 65536" if "c \<in> set cs" for c
    using norm_counts_bound [OF cs that] power_increasing [of lg 9 "2::int"] lg by simp
  then show ?thesis
    using place_low_spec [of 0 cs "2 ^ lg - 1" "replicate (2 ^ lg) 0" "replicate (length cs) 0"] L pow
    by (simp add: usize_max_def)
qed

lemma build_dtable_Ok:
  assumes "valid_norm norm ms lg" and "spread_log lg" and "lg \<le> 9"
  shows "\<exists>syms. spread_spec lg (take (ms + 1) norm) syms
    \<and> build_dtable norm ms lg = Ok (dtable_of lg (take (ms + 1) norm) syms)"
proof -
  define cs where "cs = take (ms + 1) norm"
  have cs: "norm_counts lg cs" "length cs = ms + 1" "slice_range norm 0 (ms + 1) = Ok cs"
    using valid_norm_counts [OF assms(1)] assms(1) by (simp_all add: cs_def valid_norm_def)
  define L where "L = length (low_list 0 cs)"
  have pow: "(2::nat) ^ lg \<le> 512" using power_increasing [of lg 9 "2::nat"] assms(3) by simp
  have place: "place_low (replicate (2 ^ lg) 0) (replicate (ms + 1) 0) (2 ^ lg - 1) 0 cs
      = Ok (take (2 ^ lg - L) (replicate (2 ^ lg) 0) @ rev (low_list 0 cs), map share cs, low_left (2 ^ lg - 1) L)"
    using place_counts [OF cs(1) assms(3)] cs(2) by (simp add: L_def)
  obtain syms where spread: "spread_all (2 ^ lg) (2 ^ lg div 2 + 2 ^ lg div 8 + 3) (low_left (2 ^ lg - 1) L) 0 cs
      (take (2 ^ lg - L) (replicate (2 ^ lg) 0) @ rev (low_list 0 cs)) 0 = Ok (syms, 0)"
    and spec: "spread_spec lg cs syms"
    using spread_Ok [OF assms(2) cs(1) refl] unfolding L_def by blast
  have len: "length syms = 2 ^ lg" using spec by (simp add: spread_spec_def Let_def)
  have "fill_entries lg (map share cs) syms = Ok (map (\<lambda>u. entry_of lg (syms ! u)
      (map share cs ! unat (syms ! u) + count_list (take u syms) (syms ! u))) [0..<length syms])"
  proof (rule fill_entries_Ok [OF assms(3)])
    fix s
    assume s: "s \<in> set syms"
    note c = spread_spec_count [OF assms(2) cs(1) spec s]
    have "count_list syms s \<le> 2 ^ lg" using count_le_length [of syms s] len by simp
    then show "unat s < length (map share cs) \<and> 0 < map share cs ! unat s
        \<and> map share cs ! unat s + count_list syms s \<le> 2 * 2 ^ lg"
      using c by simp
  qed
  also have "map (\<lambda>u. entry_of lg (syms ! u)
      (map share cs ! unat (syms ! u) + count_list (take u syms) (syms ! u))) [0..<length syms]
    = map (\<lambda>u. entry_of lg (syms ! u) (share (cs ! unat (syms ! u)) + count_list (take u syms) (syms ! u))) [0..<2 ^ lg]"
    using spread_spec_count(1) [OF assms(2) cs(1) spec] len by (intro map_cong) auto
  finally have fill: "fill_entries lg (map share cs) syms = Ok (map (\<lambda>u. entry_of lg (syms ! u)
    (share (cs ! unat (syms ! u)) + count_list (take u syms) (syms ! u))) [0..<2 ^ lg])" .
  have "build_dtable norm ms lg = Ok (dtable_of lg cs syms)"
    unfolding build_dtable_def Let_def cs(3) obind_simps place prod.case spread fill dtable_of_def
    using pow by (simp add: FSE_DTABLE_SIZE_def)
  with spec show ?thesis unfolding cs_def by blast
qed

section \<open>The decoder\<close>

text \<open>\<open>FseDecoder\<close> is a state number. The index mask of the code never changes a state of a
  well-formed table (\<open>fse_entry_at_state\<close>).\<close>

definition fse_init :: "fse_table \<Rightarrow> reverse_reader \<Rightarrow> nat \<times> reverse_reader" where
  "fse_init t br = rbr_read br (ft_log t)"

definition fse_entry_at :: "fse_table \<Rightarrow> nat \<Rightarrow> fse_entry" where
  "fse_entry_at t st = ft_entries t ! (st AND (FSE_DTABLE_SIZE - 1))"

definition fse_symbol :: "fse_table \<Rightarrow> nat \<Rightarrow> byte" where
  "fse_symbol t st = fe_symbol (fse_entry_at t st)"

definition fse_update_with_entry :: "fse_entry \<Rightarrow> reverse_reader \<Rightarrow> nat \<times> reverse_reader" where
  "fse_update_with_entry e br =
     (let (low, br) = rbr_read br (fe_num_bits e) in (fe_new_state_base e + low, br))"

definition fse_update :: "fse_table \<Rightarrow> nat \<Rightarrow> reverse_reader \<Rightarrow> nat \<times> reverse_reader" where
  "fse_update t st br = fse_update_with_entry (fse_entry_at t st) br"

definition fse_emit :: "nat \<Rightarrow> byte list \<Rightarrow> byte \<Rightarrow> byte list result" where
  "fse_emit max_out out sy =
     (if max_out \<le> length out then Err (OutputTooLarge max_out) else Ok (out @ [sy]))"

text \<open>Two symbols per iteration while the stream is unfinished.\<close>

function fse_main ::
  "fse_table \<Rightarrow> nat \<Rightarrow> nat \<Rightarrow> nat \<Rightarrow> reverse_reader \<Rightarrow> byte list \<Rightarrow> nat \<times> nat \<times> reverse_reader \<times> byte list" where
  "fse_main t max_out s1 s2 br out =
     (let (status, br) = rbr_reload br in
      if status = Unfinished \<and> length out + 2 \<le> max_out then
        let sy1 = fse_symbol t s1;
            (s1, br) = fse_update t s1 br;
            sy2 = fse_symbol t s2;
            (s2, br) = fse_update t s2 br in
        fse_main t max_out s1 s2 br (out @ [sy1] @ [sy2])
      else (s1, s2, br, out))"
  by pat_completeness auto
termination
  by (relation "measure (\<lambda>(t, max_out, s1, s2, br, out). max_out - length out)") auto

declare fse_main.simps [simp del]

text \<open>The tail: the states alternate until a reload overflows.\<close>

function fse_tail ::
  "fse_table \<Rightarrow> nat \<Rightarrow> nat \<Rightarrow> nat \<Rightarrow> reverse_reader \<Rightarrow> byte list \<Rightarrow> byte list result" where
  "fse_tail t max_out s1 s2 br out =
     (let sy = fse_symbol t s1;
          (s1, br) = fse_update t s1 br in
      obind (fse_emit max_out out sy) (\<lambda>out.
      let (status, br) = rbr_reload br in
      if status = Overflow then fse_emit max_out out (fse_symbol t s2)
      else
        let sy = fse_symbol t s2;
            (s2, br) = fse_update t s2 br in
        obind (fse_emit max_out out sy) (\<lambda>out.
        let (status, br) = rbr_reload br in
        if status = Overflow then fse_emit max_out out (fse_symbol t s1)
        else fse_tail t max_out s1 s2 br out)))"
  by pat_completeness auto
termination
  by (relation "measure (\<lambda>(t, max_out, s1, s2, br, out). max_out - length out)")
    (auto simp: fse_emit_def split: if_splits)

declare fse_tail.simps [simp del]

definition fse_decompress :: "byte list \<Rightarrow> fse_table \<Rightarrow> nat \<Rightarrow> byte list result" where
  "fse_decompress bitstream t max_out =
     obind (rbr_new bitstream) (\<lambda>br.
     let (s1, br) = fse_init t br;
         (s2, br) = fse_init t br;
         (s1, s2, br, out) = fse_main t max_out s1 s2 br [] in
     fse_tail t max_out s1 s2 br out)"

section \<open>The table invariant\<close>

definition fse_table_ok :: "fse_table \<Rightarrow> bool" where
  "fse_table_ok t \<longleftrightarrow> ft_log t \<le> 9 \<and> length (ft_entries t) = FSE_DTABLE_SIZE
     \<and> (\<forall>u < 2 ^ ft_log t. fe_num_bits (ft_entries t ! u) \<le> ft_log t
          \<and> fe_new_state_base (ft_entries t ! u) + 2 ^ fe_num_bits (ft_entries t ! u) \<le> 2 ^ ft_log t)"

lemma fse_entry_at_state:
  assumes "fse_table_ok t" and "st < 2 ^ ft_log t"
  shows "fse_entry_at t st = ft_entries t ! st"
proof -
  have "(2::nat) ^ ft_log t \<le> 2 ^ 9" using assms(1) by (intro power_increasing) (auto simp: fse_table_ok_def)
  then have "st AND (2 ^ 9 - 1) = st" using assms(2) by (simp only: and_pow2_minus_1) simp
  then show ?thesis by (simp add: fse_entry_at_def FSE_DTABLE_SIZE_def)
qed

lemma dtable_of_entry:
  assumes "u < 2 ^ lg"
  shows "ft_entries (dtable_of lg cs syms) ! u
    = entry_of lg (syms ! u) (share (cs ! unat (syms ! u)) + count_list (take u syms) (syms ! u))"
  using assms by (simp add: dtable_of_def nth_append)

lemma dtable_of_state_bounds:
  assumes "spread_log lg" and "norm_counts lg cs" and "spread_spec lg cs syms" and "u < 2 ^ lg"
  shows "0 < share (cs ! unat (syms ! u)) + count_list (take u syms) (syms ! u)"
    and "share (cs ! unat (syms ! u)) + count_list (take u syms) (syms ! u) < 2 * 2 ^ lg"
proof -
  have len: "length syms = 2 ^ lg" using assms(3) by (simp add: spread_spec_def Let_def)
  then have "syms ! u \<in> set syms" using assms(4) by simp
  note c = spread_spec_count [OF assms(1-3) this]
  show "0 < share (cs ! unat (syms ! u)) + count_list (take u syms) (syms ! u)" using c(3) by simp
  have "count_list (take u syms) (syms ! u) < count_list syms (syms ! u)"
    using assms(4) len by (intro count_list_take_less) simp
  moreover have "count_list syms (syms ! u) \<le> 2 ^ lg"
    using count_le_length [of syms "syms ! u"] len by simp
  ultimately show "share (cs ! unat (syms ! u)) + count_list (take u syms) (syms ! u) < 2 * 2 ^ lg"
    using c(2) by linarith
qed

lemma dtable_of_ok:
  assumes "spread_log lg" and "lg \<le> 9" and "norm_counts lg cs" and "spread_spec lg cs syms"
  shows "fse_table_ok (dtable_of lg cs syms)"
proof -
  have pow: "(2::nat) ^ lg \<le> 512" using power_increasing [of lg 9 "2::nat"] assms(2) by simp
  have "fe_num_bits (ft_entries (dtable_of lg cs syms) ! u) \<le> lg
    \<and> fe_new_state_base (ft_entries (dtable_of lg cs syms) ! u)
      + 2 ^ fe_num_bits (ft_entries (dtable_of lg cs syms) ! u) \<le> 2 ^ lg" if "u < 2 ^ lg" for u
    using pow2_bracket [OF dtable_of_state_bounds [OF assms(1,3,4) that]] assms(2)
    by (simp add: dtable_of_entry [OF that] entry_of_def Let_def)
  then show ?thesis using assms(2) pow
    by (simp add: fse_table_ok_def) (simp add: dtable_of_def FSE_DTABLE_SIZE_def)
qed

text \<open>A state of a well-formed table is followed by one, whatever bits the stream holds.\<close>

lemma fse_init_less: "fse_table_ok t \<Longrightarrow> fst (fse_init t br) < 2 ^ ft_log t"
  by (simp add: fse_init_def rbr_read_def rbr_peek_less fse_table_ok_def)

lemma fse_update_less:
  assumes "fse_table_ok t" and "st < 2 ^ ft_log t"
  shows "fst (fse_update t st br) < 2 ^ ft_log t"
proof -
  define e where "e = ft_entries t ! st"
  have e: "fe_num_bits e \<le> 64" "fe_new_state_base e + 2 ^ fe_num_bits e \<le> 2 ^ ft_log t"
    using assms by (auto simp: fse_table_ok_def e_def)
  have "fst (fse_update t st br) = fe_new_state_base e + rbr_peek br (fe_num_bits e)"
    by (simp add: fse_update_def fse_update_with_entry_def rbr_read_def fse_entry_at_state [OF assms] e_def)
  with rbr_peek_less [OF e(1), of br] e(2) show ?thesis by simp
qed

lemma fse_tail_post:
  "post (fse_tail t max_out s1 s2 br out) (\<lambda>ys. length ys \<le> max_out) (\<lambda>e. e = OutputTooLarge max_out)"
proof (induction "max_out - length out" arbitrary: s1 s2 br out rule: less_induct)
  case less
  have "post (fse_tail t max_out a b c (out @ [x, y])) (\<lambda>ys. length ys \<le> max_out)
      (\<lambda>e. e = OutputTooLarge max_out)" if "Suc (length out) < max_out" for a b c x y
    using less [of "out @ [x, y]" a b c] that by simp
  then show ?case
    by (subst fse_tail.simps) (auto simp: wp fse_emit_def Let_def split: prod.splits)
qed

lemma fse_decompress_post:
  "post (fse_decompress bs t max_out) (\<lambda>ys. length ys \<le> max_out) (\<lambda>e. True)"
  using rbr_new_returns [of bs]
  by (cases "rbr_new bs")
    (auto simp: fse_decompress_def split: prod.splits intro: post_mono [OF fse_tail_post])

section \<open>Properties\<close>

text \<open>C13: the decode table of every normalized distribution is built, for the accuracy logs the
  format allows; each symbol gets as many states as its count says (one for the count -1), and
  from every state of the table the decoder stays inside it, whatever bits follow.\<close>

theorem build_dtable_shares:
  assumes "valid_norm norm ms lg" and "4 \<le> lg" and "lg \<le> 9"
  shows "\<exists>t. build_dtable norm ms lg = Ok t \<and> ft_log t = lg
    \<and> (\<forall>s \<le> ms. count_list (map (\<lambda>u. fe_symbol (ft_entries t ! u)) [0..<2 ^ lg]) (word_of_nat s) = share (norm ! s))
    \<and> (\<forall>st br. st < 2 ^ lg \<longrightarrow> fst (fse_update t st br) < 2 ^ lg)"
proof -
  define cs where "cs = take (ms + 1) norm"
  have lg: "spread_log lg" and len: "length cs = ms + 1" and "ms < 256"
    using assms by (simp_all add: spread_log_def cs_def valid_norm_def)
  have cs: "norm_counts lg cs" unfolding cs_def by (rule valid_norm_counts [OF assms(1)])
  obtain syms where spec: "spread_spec lg cs syms" and t: "build_dtable norm ms lg = Ok (dtable_of lg cs syms)"
    using build_dtable_Ok [OF assms(1) lg assms(3)] unfolding cs_def by blast
  have syms: "map (\<lambda>u. fe_symbol (ft_entries (dtable_of lg cs syms) ! u)) [0..<2 ^ lg] = syms"
    using spec by (intro nth_equalityI)
      (simp_all add: dtable_of_entry entry_of_def Let_def spread_spec_def)
  have "mset syms = mset (share_list 0 cs)" by (rule spread_spec_mset [OF lg cs spec])
  then have "count_list syms (word_of_nat s) = share (norm ! s)" if "s \<le> ms" for s
    using count_share_list [of s cs 0] len \<open>ms < 256\<close> that
    by (simp add: cs_def flip: count_mset)
  moreover have "ft_log (dtable_of lg cs syms) = lg" by (simp add: dtable_of_def)
  ultimately show ?thesis
    using t syms fse_update_less [OF dtable_of_ok [OF lg assms(3) cs spec]] by auto
qed

lemma norm_example: "valid_norm [4, 3, 2, 2, 2, 2, - 1] 6 4"
  by (simp add: valid_norm_def)

theorem build_dtable_shares_witness:
  "\<exists>t. build_dtable [4, 3, 2, 2, 2, 2, - 1] 6 4 = Ok t \<and> ft_log t = 4"
  using build_dtable_shares [OF norm_example] by auto

end
