(* ===== verification/Fse_Split.thy ===== *)
theory Fse_Split
  imports Fse
begin

text \<open>
  Why the tables of \<^verbatim>\<open>src/fse.rs\<close> can be decoded and encoded: for every symbol, the intervals
  \<open>[base, base + 2 ^ num_bits)\<close> of its states partition the states. \<open>split_num\<close> is the arithmetic
  core (the numbers \<open>c .. 2c - 1\<close> cut \<open>[2 ^ lg, 2 ^ (lg + 1))\<close> into aligned intervals), and
  \<open>state_of\<close> finds the state of a given rank of a symbol.
\<close>

section \<open>Cutting the states of one symbol\<close>

definition split_bits :: "nat \<Rightarrow> nat \<Rightarrow> nat \<Rightarrow> nat" where
  "split_bits lg c X = (if c * 2 ^ (lg - highbit32 c) \<le> X then lg - highbit32 c else lg - highbit32 c - 1)"

lemma split_num:
  assumes c: "0 < c" "c \<le> 2 ^ lg" and lg: "lg \<le> 16" and X: "2 ^ lg \<le> X" "X < 2 * 2 ^ lg"
  defines "b \<equiv> split_bits lg c X"
  shows "c \<le> X div 2 ^ b" and "X div 2 ^ b < 2 * c" and "lg - highbit32 (X div 2 ^ b) = b"
proof -
  define h where "h = highbit32 c"
  have "(2::nat) ^ lg \<le> 2 ^ 16" using lg by (intro power_increasing) auto
  then have small: "c < 2 ^ 32" "X < 2 ^ 32" using c X by simp_all
  have h: "2 ^ h \<le> c" "c < 2 * 2 ^ h" "h < 32"
    using highbit32_bounds [OF c(1) small(1)] by (simp_all add: h_def)
  have "(2::nat) ^ h \<le> 2 ^ lg" using h(1) c(2) by linarith
  then have hl: "h \<le> lg" by simp
  then have pow: "(2::nat) ^ lg = 2 ^ h * 2 ^ (lg - h)" by (simp flip: power_add)
  have "c \<le> X div 2 ^ b \<and> X div 2 ^ b < 2 * c \<and> lg - highbit32 (X div 2 ^ b) = b"
  proof (cases "c * 2 ^ (lg - h) \<le> X")
    case True
    then have b: "b = lg - h" by (simp add: b_def split_bits_def h_def)
    define n where "n = X div 2 ^ (lg - h)"
    have n1: "c \<le> n" using True by (simp add: n_def less_eq_div_iff_mult_less_eq)
    have "X < (2 * 2 ^ h) * 2 ^ (lg - h)" using X(2) by (simp add: pow)
    then have n2: "n < 2 * 2 ^ h" unfolding n_def by (rule less_mult_imp_div_less)
    have "highbit32 n = h" using n1 n2 h by (intro highbit32_unique) auto
    then show ?thesis using n1 n2 h hl by (simp add: b n_def)
  next
    case False
    have "lg - h \<noteq> 0"
    proof
      assume "lg - h = 0"
      then have "h = lg" using hl by simp
      then show False using False c(2) X(1) by simp
    qed
    then obtain b' where b': "lg - h = Suc b'" by (cases "lg - h") auto
    then have b: "b = b'" using False by (simp add: b_def split_bits_def h_def)
    define n where "n = X div 2 ^ b'"
    have lo: "(2 * 2 ^ h) * 2 ^ b' \<le> X" using X(1) by (simp add: pow b' mult.assoc mult.left_commute)
    then have n1: "2 * 2 ^ h \<le> n" by (simp add: n_def less_eq_div_iff_mult_less_eq mult.assoc)
    have "X < (2 * c) * 2 ^ b'" using False by (simp add: b' mult.assoc mult.left_commute)
    then have n2: "n < 2 * c" unfolding n_def by (rule less_mult_imp_div_less)
    have "Suc h < 32" using hl b' lg by simp
    then have "highbit32 n = Suc h" using n1 n2 h by (intro highbit32_unique) auto
    then show ?thesis using n1 n2 h hl b' by (simp add: b n_def)
  qed
  then show "c \<le> X div 2 ^ b" and "X div 2 ^ b < 2 * c" and "lg - highbit32 (X div 2 ^ b) = b"
    by blast+
qed

lemma split_unique:
  assumes c: "0 < c" "c \<le> n" "n < 2 * c" and m: "c \<le> m" "m < 2 * c" and lg: "c \<le> 2 ^ lg" "lg \<le> 16"
    and n_in: "n * 2 ^ (lg - highbit32 n) \<le> X" "X < (n + 1) * 2 ^ (lg - highbit32 n)"
    and m_in: "m * 2 ^ (lg - highbit32 m) \<le> X" "X < (m + 1) * 2 ^ (lg - highbit32 m)"
  shows "n = m"
proof -
  have *: "a = a'" if a: "c \<le> a" "a < 2 * c" "a * 2 ^ (lg - highbit32 a) \<le> X" "X < (a + 1) * 2 ^ (lg - highbit32 a)"
    and a': "c \<le> a'" "a' < 2 * c" "a' * 2 ^ (lg - highbit32 a') \<le> X" "X < (a' + 1) * 2 ^ (lg - highbit32 a')"
    and le: "highbit32 a \<le> highbit32 a'" for a a'
  proof (cases "highbit32 a = highbit32 a'")
    case True
    have "X div 2 ^ (lg - highbit32 a) = a"
      using a(3,4) by (intro div_nat_eqI) (simp_all add: mult.commute)
    moreover have "X div 2 ^ (lg - highbit32 a) = a'"
      using a'(3,4) True by (intro div_nat_eqI) (simp_all add: mult.commute)
    ultimately show ?thesis by simp
  next
    case False
    have "(2::nat) ^ lg \<le> 2 ^ 16" using lg(2) by (intro power_increasing) auto
    then have small: "a < 2 ^ 32" "a' < 2 ^ 32" "0 < a" "0 < a'" using a a' c(1) lg(1) by simp_all
    define p where "p = highbit32 a"
    have p: "2 ^ p \<le> a" "a < 2 * 2 ^ p" "2 ^ highbit32 a' \<le> a'"
      using highbit32_bounds [OF small(3,1)] highbit32_bounds [OF small(4,2)] by (simp_all add: p_def)
    have "2 ^ Suc p \<le> (2::nat) ^ highbit32 a'" using False le by (intro power_increasing) (auto simp: p_def)
    have pl: "p < lg"
    proof -
      have "(2::nat) ^ Suc p \<le> a'" using p(3) \<open>2 ^ Suc p \<le> 2 ^ highbit32 a'\<close> by linarith
      then have "(2::nat) ^ p < 2 ^ lg" using a'(2) lg(1) unfolding power_Suc by linarith
      then show ?thesis by simp
    qed
    have nb': "lg - highbit32 a' \<le> lg - Suc p" using False le by (simp add: p_def)
    have "X < (a' + 1) * 2 ^ (lg - highbit32 a')" by (rule a'(4))
    also have "\<dots> \<le> (2 * c) * 2 ^ (lg - Suc p)"
      using a'(2) nb' by (intro mult_mono power_increasing) auto
    also have "\<dots> = c * 2 ^ (lg - p)" using pl by (simp add: Suc_diff_Suc [symmetric] del: Suc_diff_Suc diff_Suc_Suc)
    also have "\<dots> \<le> a * 2 ^ (lg - p)" using a(1) by (intro mult_right_mono) auto
    also have "\<dots> \<le> X" using a(3) by (simp add: p_def)
    finally show ?thesis by simp
  qed
  show ?thesis
  proof (cases "highbit32 n \<le> highbit32 m")
    case True
    then show ?thesis using * [of n m] c m n_in m_in by blast
  next
    case False
    then show ?thesis using * [of m n] c m n_in m_in by fastforce
  qed
qed

section \<open>The states of one symbol\<close>

lemma count_list_take_surj:
  "r < count_list xs s \<Longrightarrow> \<exists>u < length xs. xs ! u = s \<and> count_list (take u xs) s = r"
proof (induction xs arbitrary: r)
  case Nil
  then show ?case by simp
next
  case (Cons x xs)
  show ?case
  proof (cases "x = s \<and> r = 0")
    case True
    then show ?thesis by (intro exI [of _ 0]) simp
  next
    case False
    define q where "q = (if x = s then r - 1 else r)"
    have "q < count_list xs s" using Cons.prems False by (auto simp: q_def split: if_splits)
    from Cons.IH [OF this] obtain u where u: "u < length xs" "xs ! u = s" "count_list (take u xs) s = q" by blast
    then show ?thesis using False by (intro exI [of _ "Suc u"]) (auto simp: q_def)
  qed
qed

lemma count_list_take_inj:
  assumes "u < length xs" "v < length xs" "xs ! u = xs ! v"
    "count_list (take u xs) (xs ! u) = count_list (take v xs) (xs ! u)"
  shows "u = v"
proof -
  have less: "count_list (take i xs) (xs ! i) < count_list (take j xs) (xs ! i)" if "i < j" "j \<le> length xs" for i j
  proof -
    have "take i (take j xs) = take i xs" "take j xs ! i = xs ! i" "i < length (take j xs)"
      using that by (simp_all add: min_def)
    then show ?thesis using count_list_take_less [of i "take j xs"] by simp
  qed
  show ?thesis
    using less [of u v] less [of v u] assms by (cases u v rule: linorder_cases) auto
qed

lemma symbol_share:
  assumes "spread_log lg" and cs: "norm_counts lg cs" and spec: "spread_spec lg cs syms"
    and s: "s < length cs" "cs ! s \<noteq> 0"
  shows "0 < share (cs ! s)" and "share (cs ! s) \<le> 2 ^ lg"
    and "count_list syms (word_of_nat s) = share (cs ! s)" and "unat (word_of_nat s :: byte) = s"
proof -
  have len: "length syms = 2 ^ lg" using spec by (simp add: spread_spec_def Let_def)
  have lc: "length cs \<le> 256" using cs by (simp add: norm_counts_def)
  then show "unat (word_of_nat s :: byte) = s" using s(1) by (simp add: unat_word_of_nat_byte)
  have "- 1 \<le> cs ! s" using cs s(1) by (simp add: norm_counts_def)
  then show "0 < share (cs ! s)" using s(2) by (auto simp: share_def)
  have "mset syms = mset (share_list 0 cs)" by (rule spread_spec_mset [OF assms(1) cs spec])
  then have "count_list syms (word_of_nat s) = count_list (share_list 0 cs) (word_of_nat s)"
    by (metis count_mset)
  then show c: "count_list syms (word_of_nat s) = share (cs ! s)"
    using count_share_list [of s cs 0] s(1) lc by simp
  then show "share (cs ! s) \<le> 2 ^ lg" using count_le_length [of syms "word_of_nat s"] len by simp
qed

text \<open>Every symbol of the distribution can precede every state, in exactly one way.\<close>

lemma dtable_of_transition:
  assumes lg: "spread_log lg" "lg \<le> 9" and cs: "norm_counts lg cs" and spec: "spread_spec lg cs syms"
    and s: "s < length cs" "cs ! s \<noteq> 0" and x: "x < 2 ^ lg"
  shows "\<exists>!u. u < 2 ^ lg \<and> fe_symbol (ft_entries (dtable_of lg cs syms) ! u) = word_of_nat s
    \<and> fe_new_state_base (ft_entries (dtable_of lg cs syms) ! u) \<le> x
    \<and> x < fe_new_state_base (ft_entries (dtable_of lg cs syms) ! u)
         + 2 ^ fe_num_bits (ft_entries (dtable_of lg cs syms) ! u)"
proof -
  define c where "c = share (cs ! s)"
  define sw :: byte where "sw = word_of_nat s"
  have len: "length syms = 2 ^ lg" using spec by (simp add: spread_spec_def Let_def)
  note sh = symbol_share [OF lg(1) cs spec s]
  have us: "unat sw = s" and c0: "0 < c" and cnt: "count_list syms sw = c" and cl: "c \<le> 2 ^ lg"
    using sh by (simp_all add: sw_def c_def)
  have lg16: "lg \<le> 16" using lg by simp
  define E where "E u = ft_entries (dtable_of lg cs syms) ! u" for u
  have entry: "E u = entry_of lg sw (c + count_list (take u syms) sw)" if "u < 2 ^ lg" "syms ! u = sw" for u
    using that by (simp add: E_def dtable_of_entry us c_def)
  have sy: "fe_symbol (E u) = syms ! u" if "u < 2 ^ lg" for u
    using that by (simp add: E_def dtable_of_entry entry_of_def Let_def)
  have range: "fe_new_state_base (E u) \<le> x \<and> x < fe_new_state_base (E u) + 2 ^ fe_num_bits (E u)
      \<longleftrightarrow> n * 2 ^ (lg - highbit32 n) \<le> x + 2 ^ lg \<and> x + 2 ^ lg < (n + 1) * 2 ^ (lg - highbit32 n)"
    if u: "u < 2 ^ lg" "syms ! u = sw" and n: "n = c + count_list (take u syms) sw" for u n
  proof -
    have "count_list (take u syms) sw < c" using count_list_take_less [of u syms] u len cnt by simp
    then have "0 < n" "n < 2 * 2 ^ lg" using c0 cl n by simp_all
    from pow2_bracket(2) [OF this lg16] show ?thesis
      by (auto simp: entry [OF u] entry_of_def Let_def n)
  qed
  define b where "b = split_bits lg c (x + 2 ^ lg)"
  define n where "n = (x + 2 ^ lg) div 2 ^ b"
  have n: "c \<le> n" "n < 2 * c" "lg - highbit32 n = b"
    using split_num [OF c0 cl lg16, of "x + 2 ^ lg"] x by (simp_all add: b_def n_def)
  have n_in: "n * 2 ^ b \<le> x + 2 ^ lg" "x + 2 ^ lg < (n + 1) * 2 ^ b"
    using div_times_less_eq_dividend [of "x + 2 ^ lg" "2 ^ b"] dividend_less_times_div [of "2 ^ b" "x + 2 ^ lg"]
    by (simp_all add: n_def mult.commute)
  obtain u where u: "u < 2 ^ lg" "syms ! u = sw" "count_list (take u syms) sw = n - c"
    using count_list_take_surj [of "n - c" syms sw] n(1,2) len unfolding cnt by fastforce
  show ?thesis
  proof (rule ex1I [of _ u])
    show "u < 2 ^ lg \<and> fe_symbol (ft_entries (dtable_of lg cs syms) ! u) = word_of_nat s
      \<and> fe_new_state_base (ft_entries (dtable_of lg cs syms) ! u) \<le> x
      \<and> x < fe_new_state_base (ft_entries (dtable_of lg cs syms) ! u)
         + 2 ^ fe_num_bits (ft_entries (dtable_of lg cs syms) ! u)"
      using range [OF u(1,2), of n] u n n_in sy [OF u(1)] by (simp add: E_def sw_def)
  next
    fix v
    assume "v < 2 ^ lg \<and> fe_symbol (ft_entries (dtable_of lg cs syms) ! v) = word_of_nat s
      \<and> fe_new_state_base (ft_entries (dtable_of lg cs syms) ! v) \<le> x
      \<and> x < fe_new_state_base (ft_entries (dtable_of lg cs syms) ! v)
         + 2 ^ fe_num_bits (ft_entries (dtable_of lg cs syms) ! v)"
    then have v: "v < 2 ^ lg" "syms ! v = sw" "fe_new_state_base (E v) \<le> x"
      "x < fe_new_state_base (E v) + 2 ^ fe_num_bits (E v)"
      using sy [of v] by (auto simp: E_def sw_def)
    define m where "m = c + count_list (take v syms) sw"
    have "count_list (take v syms) sw < c" using count_list_take_less [of v syms] v len cnt by simp
    then have m: "c \<le> m" "m < 2 * c" by (simp_all add: m_def)
    have m_in: "m * 2 ^ (lg - highbit32 m) \<le> x + 2 ^ lg" "x + 2 ^ lg < (m + 1) * 2 ^ (lg - highbit32 m)"
      using range [OF v(1,2) m_def] v(3,4) by blast+
    have "n = m" by (rule split_unique [OF c0 n(1,2) m cl lg16 _ _ m_in]) (simp_all only: n(3) n_in)
    then show "v = u"
      using u v len n(1) by (intro count_list_take_inj [of v syms u]) (simp_all add: m_def)
  qed
qed

section \<open>Properties\<close>

text \<open>In a built decode table, for every symbol of the distribution and every state \<open>x\<close> there is
  exactly one state of that symbol whose next states include \<open>x\<close>. This is what makes an FSE stream
  decodable: the encoder can move from any state to any symbol, and in one way only.\<close>

theorem dtable_transition:
  assumes "valid_norm norm ms lg" and "4 \<le> lg" and "lg \<le> 9"
    and "build_dtable norm ms lg = Ok t" and "s \<le> ms" and "norm ! s \<noteq> 0" and "x < 2 ^ lg"
  shows "\<exists>!u. u < 2 ^ lg \<and> fe_symbol (ft_entries t ! u) = word_of_nat s
    \<and> fe_new_state_base (ft_entries t ! u) \<le> x
    \<and> x < fe_new_state_base (ft_entries t ! u) + 2 ^ fe_num_bits (ft_entries t ! u)"
proof -
  have lg: "spread_log lg" using assms(2) by (simp add: spread_log_def)
  obtain syms where spec: "spread_spec lg (take (ms + 1) norm) syms"
    and t: "t = dtable_of lg (take (ms + 1) norm) syms"
    using build_dtable_Ok [OF assms(1) lg assms(3)] assms(4) by auto
  have "ms < length norm" using assms(1) by (simp add: valid_norm_def)
  then show ?thesis
    unfolding t using assms(5-7)
    by (intro dtable_of_transition [OF lg assms(3) valid_norm_counts [OF assms(1)] spec]) simp_all
qed

theorem dtable_transition_witness:
  "\<exists>t. build_dtable [4, 3, 2, 2, 2, 2, - 1] 6 4 = Ok t
    \<and> (\<exists>!u. u < 16 \<and> fe_symbol (ft_entries t ! u) = 1
      \<and> fe_new_state_base (ft_entries t ! u) \<le> 5
      \<and> 5 < fe_new_state_base (ft_entries t ! u) + 2 ^ fe_num_bits (ft_entries t ! u))"
proof -
  obtain t where t: "build_dtable [4, 3, 2, 2, 2, 2, - 1] 6 4 = Ok t"
    using build_dtable_Ok [OF norm_example] by (auto simp: spread_log_def)
  show ?thesis
    using t dtable_transition [OF norm_example _ _ t, of 1 5] by simp
qed

end
