(* ===== verification/Bit_Writer.thy ===== *)
theory Bit_Writer
  imports Bits
begin

text \<open>
  \<^verbatim>\<open>src/encode/bitstream.rs\<close>: the forward bit writer, and its pairing with the
  backward reader. A writer denotes a number of \<open>bw_len\<close> bits; \<open>bw_add\<close> appends a field
  above it, \<open>bw_finish\<close> puts the sentinel bit on top. The locale \<open>bit_channel\<close> states what
  an entropy coder needs of such a pair and proves once that fields come back in reverse
  order; the crate's writer and reader are an instance.
\<close>

unbundle bit_operations_syntax

record bit_writer =
  bacc :: u64
  bnbits :: nat
  bout :: "byte list"

definition bw_new :: bit_writer where
  "bw_new = \<lparr>bacc = 0, bnbits = 0, bout = []\<rparr>"

definition bw_flush_full_bytes :: "bit_writer \<Rightarrow> bit_writer" where
  "bw_flush_full_bytes w =
     (let nbytes = bnbits w div 8 in
      w\<lparr>bout := bout w @ take nbytes (le_bytes 8 (unat (bacc w))),
        bacc := drop_bit (nbytes * 8) (bacc w),
        bnbits := bnbits w - nbytes * 8\<rparr>)"

definition bw_add :: "bit_writer \<Rightarrow> nat \<Rightarrow> nat \<Rightarrow> bit_writer" where
  "bw_add w value nb =
     (let w = (if 64 \<le> bnbits w + nb then bw_flush_full_bytes w else w);
          masked = (if 32 \<le> nb then word_of_nat value
                    else word_of_nat value AND (push_bit nb 1 - 1)) in
      w\<lparr>bacc := bacc w OR push_bit (bnbits w) masked, bnbits := bnbits w + nb\<rparr>)"

definition bw_finish :: "bit_writer \<Rightarrow> byte list" where
  "bw_finish w =
     (let w = bw_flush_full_bytes (bw_add w 1 1) in
      if 0 < bnbits w then bout w @ [ucast (bacc w)] else bout w)"

section \<open>The number a writer holds\<close>

definition bw_val :: "bit_writer \<Rightarrow> nat" where
  "bw_val w = le_val (bout w) + 2 ^ (8 * length (bout w)) * unat (bacc w)"

definition bw_len :: "bit_writer \<Rightarrow> nat" where
  "bw_len w = 8 * length (bout w) + bnbits w"

text \<open>Fewer than 64 bits stay buffered after every call, so the shift by \<open>nbytes * 8\<close> in the
  flush is a shift by at most 56.\<close>

definition bw_ok :: "bit_writer \<Rightarrow> bool" where
  "bw_ok w \<longleftrightarrow> bnbits w < 64 \<and> unat (bacc w) < 2 ^ bnbits w"

lemma bw_val_less: "bw_ok w \<Longrightarrow> bw_val w < 2 ^ bw_len w"
proof -
  assume "bw_ok w"
  then have "unat (bacc w) + 1 \<le> 2 ^ bnbits w" by (simp add: bw_ok_def)
  then have "2 ^ (8 * length (bout w)) * (unat (bacc w) + 1) \<le> 2 ^ (8 * length (bout w)) * 2 ^ bnbits w"
    by (rule mult_left_mono) simp
  then show ?thesis
    using le_val_bound_bits [of "bout w"] by (simp add: bw_val_def bw_len_def power_add algebra_simps)
qed

lemma bw_new_spec: "bw_ok bw_new" "bw_val bw_new = 0" "bw_len bw_new = 0"
  by (simp_all add: bw_new_def bw_ok_def bw_val_def bw_len_def)

lemma bw_flush_spec:
  assumes ok: "bw_ok w"
  shows "bw_val (bw_flush_full_bytes w) = bw_val w"
    and "bw_len (bw_flush_full_bytes w) = bw_len w"
    and "bnbits (bw_flush_full_bytes w) < 8"
    and "bw_ok (bw_flush_full_bytes w)"
proof -
  define k where "k = bnbits w div 8"
  define a where "a = unat (bacc w)"
  define w' where "w' = bw_flush_full_bytes w"
  have k: "k \<le> 8" "bnbits w = 8 * k + bnbits w mod 8"
    using ok by (auto simp: k_def bw_ok_def)
  have w': "bout w' = bout w @ le_bytes k a" "unat (bacc w') = a div 2 ^ (8 * k)"
      "bnbits w' = bnbits w mod 8"
    using k(1) by (auto simp: w'_def bw_flush_full_bytes_def Let_def k_def [symmetric] a_def take_le_bytes
        unat_drop_bit_eq mult.commute minus_mult_div_eq_mod [symmetric] simp flip: drop_bit_eq_div)
  have "bw_val w' = le_val (bout w) + 2 ^ (8 * length (bout w)) * (a mod 2 ^ (8 * k))
      + 2 ^ (8 * length (bout w)) * 2 ^ (8 * k) * (a div 2 ^ (8 * k))"
    by (simp add: bw_val_def w' le_val_append_bits le_val_le_bytes_bits power_add)
  also have "\<dots> = le_val (bout w)
      + 2 ^ (8 * length (bout w)) * (a mod 2 ^ (8 * k) + 2 ^ (8 * k) * (a div 2 ^ (8 * k)))"
    by (simp only: distrib_left mult.assoc add.assoc)
  also have "\<dots> = le_val (bout w) + 2 ^ (8 * length (bout w)) * a"
    by (simp only: mod_mult_div_eq)
  finally have "bw_val w' = le_val (bout w) + 2 ^ (8 * length (bout w)) * a" .
  then show "bw_val (bw_flush_full_bytes w) = bw_val w" by (simp add: w'_def bw_val_def a_def)
  show "bw_len (bw_flush_full_bytes w) = bw_len w"
    using k(2) w' by (simp add: bw_len_def w'_def [symmetric])
  show "bnbits (bw_flush_full_bytes w) < 8" by (simp add: w'_def [symmetric] w')
  have "a < 2 ^ (bnbits w mod 8) * 2 ^ (8 * k)"
    using ok k(2) by (simp add: bw_ok_def a_def flip: power_add) (simp add: add.commute)
  then have "a div 2 ^ (8 * k) < 2 ^ (bnbits w mod 8)" by (rule less_mult_imp_div_less)
  moreover have "bnbits w mod 8 < 64" by (rule order_less_trans [of _ 8]) auto
  ultimately show "bw_ok (bw_flush_full_bytes w)" by (simp add: w'_def [symmetric] bw_ok_def w')
qed

lemma unat_masked:
  assumes "nb \<le> 32" and "value < 2 ^ 32"
  shows "unat (if 32 \<le> nb then word_of_nat value else word_of_nat value AND (push_bit nb 1 - 1) :: u64)
    = value mod 2 ^ nb"
proof (cases "nb = 32")
  case True
  then show ?thesis using assms by (simp add: unat_of_nat)
next
  case False
  then have "nb < 32" using assms by simp
  have "(push_bit nb 1 - 1 :: u64) = mask nb" by (simp add: mask_eq_decr_exp)
  then have "word_of_nat value AND (push_bit nb 1 - 1 :: u64) = take_bit nb (word_of_nat value)"
    by (simp add: take_bit_eq_mask)
  moreover have "unat (word_of_nat value :: u64) = value"
    using assms(2) by (simp add: unat_of_nat)
  then have "unat (take_bit nb (word_of_nat value :: u64)) = value mod 2 ^ nb"
    by (simp only: unsigned_take_bit_eq) (simp only: take_bit_eq_mod)
  ultimately show ?thesis using \<open>nb < 32\<close> by simp
qed

lemma bw_add_spec:
  assumes ok: "bw_ok w" and nb: "nb \<le> 32" and v: "value < 2 ^ 32"
  shows "bw_val (bw_add w value nb) = bw_val w + 2 ^ bw_len w * (value mod 2 ^ nb)"
    and "bw_len (bw_add w value nb) = bw_len w + nb"
    and "bw_ok (bw_add w value nb)"
proof -
  define w' where "w' = (if 64 \<le> bnbits w + nb then bw_flush_full_bytes w else w)"
  define m where "m = (if 32 \<le> nb then word_of_nat value else word_of_nat value AND (push_bit nb 1 - 1) :: u64)"
  have w': "bw_ok w'" "bw_val w' = bw_val w" "bw_len w' = bw_len w" "bnbits w' + nb < 64"
    using bw_flush_spec [OF ok] ok nb by (auto simp: w'_def)
  have m: "unat m = value mod 2 ^ nb" using unat_masked [OF nb v] by (simp add: m_def)
  have acc: "unat (bacc w') < 2 ^ bnbits w'" using w'(1) by (simp add: bw_ok_def)
  have "value mod 2 ^ nb + 1 \<le> 2 ^ nb" by (simp add: Suc_le_eq)
  then have "2 ^ bnbits w' * (value mod 2 ^ nb + 1) \<le> 2 ^ bnbits w' * 2 ^ nb"
    by (rule mult_left_mono) simp
  then have sum: "unat (bacc w') + 2 ^ bnbits w' * (value mod 2 ^ nb) < 2 ^ (bnbits w' + nb)"
    using acc by (simp add: power_add algebra_simps)
  have "(2::nat) ^ (bnbits w' + nb) \<le> 2 ^ 64" using w'(4) by (intro power_increasing) auto
  with sum have "unat (bacc w') + 2 ^ bnbits w' * (value mod 2 ^ nb) < 2 ^ 64" by simp
  moreover have "bacc w' OR push_bit (bnbits w') m
      = word_of_nat (unat (bacc w') + 2 ^ bnbits w' * (value mod 2 ^ nb))"
  proof -
    have "bacc w' OR push_bit (bnbits w') m = bacc w' + push_bit (bnbits w') m"
      using acc by (rule or_disjoint_add)
    also have "\<dots> = word_of_nat (unat (bacc w')) + push_bit (bnbits w') (word_of_nat (unat m))"
      by simp
    finally show ?thesis by (simp only: push_bit_of_nat_word of_nat_add m)
  qed
  ultimately have acc': "unat (bacc w' OR push_bit (bnbits w') m)
      = unat (bacc w') + 2 ^ bnbits w' * (value mod 2 ^ nb)"
    by (simp only: unat_of_nat) simp
  have res: "bw_add w value nb = w'\<lparr>bacc := bacc w' OR push_bit (bnbits w') m, bnbits := bnbits w' + nb\<rparr>"
    by (simp add: bw_add_def Let_def w'_def m_def)
  have "bw_val (bw_add w value nb) = bw_val w' + 2 ^ bw_len w' * (value mod 2 ^ nb)"
    using acc' by (simp add: res bw_val_def bw_len_def power_add algebra_simps)
  then show "bw_val (bw_add w value nb) = bw_val w + 2 ^ bw_len w * (value mod 2 ^ nb)"
    by (simp add: w')
  show "bw_len (bw_add w value nb) = bw_len w + nb"
    using w' by (simp add: res bw_len_def)
  show "bw_ok (bw_add w value nb)"
    using w' acc' sum by (simp add: res bw_ok_def)
qed

lemma bw_finish_spec:
  assumes ok: "bw_ok w"
  shows "le_val (bw_finish w) = bw_val w + 2 ^ bw_len w"
    and "8 * length (bw_finish w) \<le> bw_len w + 8"
    and "bw_len w < 8 * length (bw_finish w)"
proof -
  define f where "f = bw_flush_full_bytes (bw_add w 1 1)"
  have f: "bw_ok f" "bw_val f = bw_val w + 2 ^ bw_len w" "bw_len f = bw_len w + 1" "bnbits f < 8"
    using bw_add_spec [OF ok, of 1 1] bw_flush_spec by (auto simp: f_def)
  have acc: "unat (bacc f) < 2 ^ bnbits f" using f(1) by (simp add: bw_ok_def)
  have "(2::nat) ^ bnbits f \<le> 2 ^ 8" using f(4) by (intro power_increasing) auto
  with acc have small: "unat (bacc f) < 2 ^ 8" by linarith
  then have cast: "unat (ucast (bacc f) :: byte) = unat (bacc f)"
    by (simp add: unsigned_ucast_eq take_bit_eq_mod)
  have fin: "bw_finish w = (if 0 < bnbits f then bout f @ [ucast (bacc f)] else bout f)"
    by (simp add: bw_finish_def f_def Let_def)
  show "le_val (bw_finish w) = bw_val w + 2 ^ bw_len w"
    using acc f(2) by (auto simp: fin le_val_append cast bw_val_def power_mult)
  show "8 * length (bw_finish w) \<le> bw_len w + 8" "bw_len w < 8 * length (bw_finish w)"
    using f(3,4) by (auto simp: fin bw_len_def)
qed

section \<open>The channel: fields come back in reverse order\<close>

text \<open>A list of fields \<open>(value, width)\<close> written in order.\<close>

fun add_all :: "('w \<Rightarrow> nat \<Rightarrow> nat \<Rightarrow> 'w) \<Rightarrow> 'w \<Rightarrow> (nat \<times> nat) list \<Rightarrow> 'w" where
  "add_all ad w [] = w"
| "add_all ad w ((v, n) # fs) = add_all ad (ad w v n) fs"

text \<open>The number a list of fields packs to, above \<open>L\<close> bits that hold \<open>W\<close>.\<close>

fun pack :: "nat \<Rightarrow> nat \<Rightarrow> (nat \<times> nat) list \<Rightarrow> nat" where
  "pack W L [] = W"
| "pack W L ((v, n) # fs) = pack (W + 2 ^ L * (v mod 2 ^ n)) (L + n) fs"

definition widths :: "(nat \<times> nat) list \<Rightarrow> nat" where
  "widths fs = sum_list (map snd fs)"

lemma widths_simps [simp]:
  "widths [] = 0"
  "widths (f # fs) = snd f + widths fs"
  "widths (fs @ gs) = widths fs + widths gs"
  "widths (rev fs) = widths fs"
  by (simp_all add: widths_def sum_list_rev flip: rev_map)

lemma pack_append: "pack W L (fs @ gs) = pack (pack W L fs) (L + widths fs) gs"
  by (induction W L fs rule: pack.induct) (auto simp: algebra_simps)

lemma add_all_append: "add_all ad w (fs @ gs) = add_all ad (add_all ad w fs) gs"
  by (induction ad w fs rule: add_all.induct) auto

lemma pack_less: "W < 2 ^ L \<Longrightarrow> pack W L fs < 2 ^ (L + widths fs)"
proof (induction W L fs rule: pack.induct)
  case (1 W L)
  then show ?case by simp
next
  case (2 W L v n fs)
  have "v mod 2 ^ n + 1 \<le> 2 ^ n" by (simp add: Suc_le_eq)
  then have "2 ^ L * (v mod 2 ^ n + 1) \<le> 2 ^ L * 2 ^ n" by (rule mult_left_mono) simp
  with 2 show ?case by (simp add: power_add algebra_simps)
qed

lemma top_bits_mod: "n \<le> p \<Longrightarrow> top_bits (V mod 2 ^ p) p n = top_bits V p n"
  using div_mod_window [of V "p - n" n] by (simp add: top_bits_def)

lemma top_bits_push:
  assumes "U < 2 ^ L"
  shows "top_bits (U + 2 ^ L * (v mod 2 ^ n)) (L + n) n = v mod 2 ^ n"
  using assms by (simp add: top_bits_def)

text \<open>Reading a packed number from the top returns the fields, last one first.\<close>

lemma fields_at_pack:
  assumes "W < 2 ^ L" and "V mod 2 ^ (L + widths fs) = pack W L fs"
  shows "fields_at V (L + widths fs) (map snd (rev fs)) = map (\<lambda>(v, n). v mod 2 ^ n) (rev fs)"
  using assms
proof (induction fs arbitrary: V rule: rev_induct)
  case Nil
  then show ?case by simp
next
  case (snoc f fs)
  obtain v n where f: "f = (v, n)" by (cases f)
  define U where "U = pack W L fs"
  define p where "p = L + widths fs"
  have U: "U < 2 ^ p" using snoc.prems(1) by (simp add: U_def p_def pack_less)
  have V: "V mod 2 ^ (p + n) = U + 2 ^ p * (v mod 2 ^ n)"
    using snoc.prems(2) by (simp add: f U_def p_def pack_append add.assoc)
  have "top_bits V (p + n) n = v mod 2 ^ n"
    using top_bits_mod [of n "p + n" V] top_bits_push [OF U, of v n] by (simp add: V)
  moreover have "V mod 2 ^ p = U"
  proof -
    have "V mod 2 ^ p = V mod 2 ^ (p + n) mod 2 ^ p"
      by (simp add: mod_mod_cancel le_imp_power_dvd)
    with U show ?thesis by (simp add: V)
  qed
  then have "fields_at V p (map snd (rev fs)) = map (\<lambda>(v, n). v mod 2 ^ n) (rev fs)"
    using snoc.IH [OF snoc.prems(1)] by (simp add: U_def p_def)
  ultimately show ?case by (simp add: f p_def add.assoc [symmetric])
qed

locale bit_channel = bit_supply rd ok vl left
  for rd :: "'r \<Rightarrow> nat \<Rightarrow> nat \<times> 'r" and ok vl left +
  fixes ad :: "'w \<Rightarrow> nat \<Rightarrow> nat \<Rightarrow> 'w"
    and fin :: "'w \<Rightarrow> 's"
    and opn :: "'s \<Rightarrow> 'r result"
    and wok :: "'w \<Rightarrow> bool"
    and wval :: "'w \<Rightarrow> nat"
    and wlen :: "'w \<Rightarrow> nat"
  assumes ad_val: "wok w \<Longrightarrow> n \<le> 32 \<Longrightarrow> v < 2 ^ 32 \<Longrightarrow> wval (ad w v n) = wval w + 2 ^ wlen w * (v mod 2 ^ n)"
    and ad_len: "wok w \<Longrightarrow> n \<le> 32 \<Longrightarrow> v < 2 ^ 32 \<Longrightarrow> wlen (ad w v n) = wlen w + n"
    and ad_ok: "wok w \<Longrightarrow> n \<le> 32 \<Longrightarrow> v < 2 ^ 32 \<Longrightarrow> wok (ad w v n)"
    and wval_less: "wok w \<Longrightarrow> wval w < 2 ^ wlen w"
    and open_fin: "wok w \<Longrightarrow> \<exists>r. opn (fin w) = Ok r \<and> ok r \<and> left r = wlen w \<and> vl r = wval w + 2 ^ wlen w"
begin

lemma add_all_spec:
  assumes "wok w" and "\<And>v n. (v, n) \<in> set fs \<Longrightarrow> n \<le> 32 \<and> v < 2 ^ 32"
  shows "wok (add_all ad w fs) \<and> wval (add_all ad w fs) = pack (wval w) (wlen w) fs
    \<and> wlen (add_all ad w fs) = wlen w + widths fs"
  using assms
proof (induction fs arbitrary: w)
  case Nil
  then show ?case by simp
next
  case (Cons f fs)
  obtain v n where f: "f = (v, n)" by (cases f)
  then have vn: "n \<le> 32" "v < 2 ^ 32" using Cons.prems(2) by auto
  have "wok (ad w v n)" using Cons.prems(1) vn by (rule ad_ok)
  moreover have "n' \<le> 32 \<and> v' < 2 ^ 32" if "(v', n') \<in> set fs" for v' n'
    using Cons.prems(2) [of v' n'] that by simp
  ultimately show ?case
    using Cons.IH [of "ad w v n"] Cons.prems(1) vn by (simp add: f ad_val ad_len add.assoc)
qed

lemma channel_open:
  assumes "wok w" and "wlen w = 0" and fs: "\<And>v n. (v, n) \<in> set fs \<Longrightarrow> n \<le> 32 \<and> v < 2 ^ 32"
  shows "\<exists>r. opn (fin (add_all ad w fs)) = Ok r \<and> ok r \<and> left r = widths fs
    \<and> fields_at (vl r) (left r) (map snd (rev fs)) = map (\<lambda>(v, n). v mod 2 ^ n) (rev fs)"
proof -
  define u where "u = add_all ad w fs"
  have u: "wok u" "wval u = pack (wval w) 0 fs" "wlen u = widths fs"
    using add_all_spec [OF assms(1) fs] assms(2) by (auto simp: u_def)
  obtain r where r: "opn (fin u) = Ok r" "ok r" "left r = widths fs" "vl r = wval u + 2 ^ widths fs"
    using open_fin [OF u(1)] u(3) by auto
  have "wval u < 2 ^ widths fs" using wval_less [OF u(1)] u(3) by simp
  then have "vl r mod 2 ^ (0 + widths fs) = pack (wval w) 0 fs"
    using u(2) r(4) by simp
  moreover have "wval w < 2 ^ 0" using wval_less [OF assms(1)] assms(2) by simp
  ultimately have "fields_at (vl r) (widths fs) (map snd (rev fs)) = map (\<lambda>(v, n). v mod 2 ^ n) (rev fs)"
    using fields_at_pack [of "wval w" 0 "vl r" fs] by simp
  with r show ?thesis by (auto simp: u_def)
qed

lemma channel_roundtrip:
  assumes "wok w" and "wlen w = 0" and fs: "\<And>v n. (v, n) \<in> set fs \<Longrightarrow> n \<le> 32 \<and> v < 2 ^ 32"
  shows "\<exists>r. opn (fin (add_all ad w fs)) = Ok r
    \<and> fst (read_all rd r (map snd (rev fs))) = map (\<lambda>(v, n). v mod 2 ^ n) (rev fs)
    \<and> left (snd (read_all rd r (map snd (rev fs)))) = 0"
proof -
  obtain r where r: "opn (fin (add_all ad w fs)) = Ok r" "ok r" "left r = widths fs"
    "fields_at (vl r) (left r) (map snd (rev fs)) = map (\<lambda>(v, n). v mod 2 ^ n) (rev fs)"
    using channel_open [OF assms] by blast
  have sum: "sum_list (map snd (rev fs)) = left r"
    using r(3) widths_simps(4) [of fs] by (simp only: widths_def [symmetric])
  have "n \<le> 32" if "n \<in> set (map snd (rev fs))" for n
    using that fs by auto
  from read_all_spec [OF r(2) eq_refl [OF sum] this] r sum show ?thesis by auto
qed

end

lemma bw_finish_open:
  assumes ok: "bw_ok w"
  shows "\<exists>r. rbr_new (bw_finish w) = Ok r \<and> rbr_ok r \<and> rpos r = bw_len w
    \<and> le_val (rsrc r) = bw_val w + 2 ^ bw_len w \<and> rsrc r = bw_finish w"
proof -
  define s where "s = bw_finish w"
  have s: "le_val s = bw_val w + 2 ^ bw_len w" "8 * length s \<le> bw_len w + 8" "bw_len w < 8 * length s"
    using bw_finish_spec [OF ok] by (simp_all add: s_def)
  then have ne: "s \<noteq> []" by auto
  have "last s \<noteq> 0"
  proof
    assume "last s = 0"
    then have "le_val (butlast s @ [last s]) = le_val (butlast s)"
      by (simp add: le_val_append_bits)
    then have "le_val s = le_val (butlast s)" using ne by simp
    also have "\<dots> < 2 ^ (8 * (length s - 1))"
      using le_val_bound_bits [of "butlast s"] by simp
    also have "\<dots> \<le> (2::nat) ^ bw_len w"
      using s(2) by (intro power_increasing) auto
    finally show False using s(1) by simp
  qed
  then have "unat (s ! (length s - 1)) \<noteq> 0"
    using ne by (simp add: last_conv_nth unat_eq_0)
  then obtain r where r: "rbr_new s = Ok r"
    using ne by (cases "8 \<le> length s") (auto simp: rbr_new_def Let_def)
  note spec = rbr_new_Ok [OF r]
  have "bw_val w + 2 ^ bw_len w < 2 ^ Suc (bw_len w)"
    using bw_val_less [OF ok] by simp
  with spec s(1) have "(2::nat) ^ rpos r < 2 ^ Suc (bw_len w)" "(2::nat) ^ bw_len w < 2 ^ Suc (rpos r)"
    by linarith+
  then have "rpos r < Suc (bw_len w)" "bw_len w < Suc (rpos r)"
    by (auto simp only: intro: power_less_imp_less_exp [of "2::nat"])
  then have "rpos r = bw_len w" by simp
  with r spec s(1) show ?thesis by (auto simp: s_def)
qed

interpretation backward: bit_channel rbr_read_lazy rbr_ok "\<lambda>r. le_val (rsrc r)" rpos
    bw_add bw_finish rbr_new bw_ok bw_val bw_len
  using bw_finish_open by unfold_locales (auto simp: bw_add_spec bw_val_less)

section \<open>A stream that holds a list of fields\<close>

text \<open>\<open>rbr_holds r fs\<close>: what is left of the stream is exactly the fields \<open>fs\<close>, next one first.\<close>

definition rbr_holds :: "reverse_reader \<Rightarrow> (nat \<times> nat) list \<Rightarrow> bool" where
  "rbr_holds r fs \<longleftrightarrow> rbr_ok r \<and> rpos r = widths fs
     \<and> fields_at (le_val (rsrc r)) (rpos r) (map snd fs) = map fst fs"

lemma rbr_holds_open:
  assumes "\<And>v n. (v, n) \<in> set fs \<Longrightarrow> n \<le> 32 \<and> v < 2 ^ 32"
  shows "\<exists>r. rbr_new (bw_finish (add_all bw_add bw_new fs)) = Ok r
    \<and> rbr_holds r (map (\<lambda>(v, n). (v mod 2 ^ n, n)) (rev fs))"
proof -
  have w: "widths (map (\<lambda>(v, n). (v mod 2 ^ n, n)) (rev fs)) = widths fs"
    using widths_simps(4) [of fs] by (simp add: widths_def comp_def case_prod_beta)
  from backward.channel_open [OF bw_new_spec(1) bw_new_spec(3) assms] obtain r where
    "rbr_new (bw_finish (add_all bw_add bw_new fs)) = Ok r" "rbr_ok r" "rpos r = widths fs"
    "fields_at (le_val (rsrc r)) (rpos r) (map snd (rev fs)) = map (\<lambda>(v, n). v mod 2 ^ n) (rev fs)"
    by blast
  with w show ?thesis
    by (intro exI [of _ r]) (simp add: rbr_holds_def comp_def case_prod_beta)
qed

lemma rbr_holds_read:
  assumes "rbr_holds r ((v, n) # fs)" and "rbits r + n \<le> 64" and "n \<le> 32"
  shows "\<exists>r'. rbr_read r n = (v, r') \<and> rbr_holds r' fs \<and> rbits r' = rbits r + n"
proof -
  have ok: "rbr_ok r" using assms(1) by (simp add: rbr_holds_def)
  note sp = rbr_read_spec [OF ok assms(2,3)]
  show ?thesis
    using sp assms(1)
    by (intro exI [of _ "snd (rbr_read r n)"]) (auto simp: rbr_holds_def prod_eq_iff)
qed

lemma rbr_holds_read_lazy:
  assumes "rbr_holds r ((v, n) # fs)" and "n \<le> 32"
  shows "\<exists>r'. rbr_read_lazy r n = (v, r') \<and> rbr_holds r' fs"
proof -
  have ok: "rbr_ok r" "n \<le> rpos r" using assms(1) by (simp_all add: rbr_holds_def)
  note sp = rbr_read_lazy_spec [OF ok assms(2)]
  show ?thesis
    using sp assms(1)
    by (intro exI [of _ "snd (rbr_read_lazy r n)"]) (auto simp: rbr_holds_def prod_eq_iff)
qed

lemma rbr_holds_reload:
  assumes "rbr_holds r fs"
  shows "\<exists>st r'. rbr_reload r = (st, r') \<and> rbr_holds r' fs \<and> st \<noteq> Overflow
    \<and> (st = Unfinished \<longrightarrow> 57 \<le> widths fs \<and> rbits r' < 8)
    \<and> (\<forall>n. n \<le> widths fs \<longrightarrow> n \<le> 57 \<longrightarrow> rbits r' + n \<le> 64)
    \<and> (widths fs = 0 \<longrightarrow> rbits r' = 64)"
proof -
  obtain st r' where rl: "rbr_reload r = (st, r')" by (cases "rbr_reload r")
  have r: "rbr_ok r" "rbits r \<le> 64" "rpos r = widths fs"
    using assms by (simp_all add: rbr_holds_def rbr_ok_def)
  have r': "rbr_holds r' fs"
    using assms rbr_reload_ok [OF r(1)] rbr_reload_pos [OF r(2)] rl rbr_reload_src [of r]
    by (auto simp: rbr_holds_def)
  have pos: "8 * rptr r' + 64 - rbits r' = widths fs" using r' by (simp add: rbr_holds_def rpos_def)
  have b: "rbits r' < 8 \<or> rptr r' = 0" "rbits r' \<le> 64"
    using rbr_reload_bits [OF r(2)] rl by simp_all
  have st: "st \<noteq> Overflow" "st = Unfinished \<Longrightarrow> rbits r' < 8"
    using rbr_reload_Overflow [of r] rbr_reload_Unfinished [of r] r(2) rl by auto
  show ?thesis
    using rl r' st pos b by (intro exI [of _ st] exI [of _ r']) auto
qed

text \<open>Reading past the end of a spent stream is an overflow.\<close>

lemma rbr_read_overflow:
  assumes "rbits r = 64" and "0 < n"
  shows "fst (rbr_reload (snd (rbr_read r n))) = Overflow"
  using assms by (simp add: rbr_read_def rbr_consume_def rbr_reload_Overflow)

section \<open>Properties\<close>

text \<open>Any list of bit fields of at most 32 bits written through the forward bit writer is read
  back by the backward reader in reverse order, each cut to its width, and leaves the stream
  exactly spent.\<close>

theorem bit_fields_roundtrip:
  assumes "\<forall>(v, n) \<in> set fs. n \<le> 32 \<and> v < 2 ^ 32"
  shows "\<exists>r. rbr_new (bw_finish (add_all bw_add bw_new fs)) = Ok r
    \<and> fst (read_all rbr_read_lazy r (map snd (rev fs))) = map (\<lambda>(v, n). v mod 2 ^ n) (rev fs)
    \<and> rpos (snd (read_all rbr_read_lazy r (map snd (rev fs)))) = 0"
  using assms by (intro backward.channel_roundtrip bw_new_spec) auto

theorem bit_fields_roundtrip_witness:
  "\<exists>r. rbr_new (bw_finish (add_all bw_add bw_new [(5, 3), (1000, 6), (0, 0), (2 ^ 32 - 1, 32)])) = Ok r
    \<and> fst (read_all rbr_read_lazy r [32, 0, 6, 3]) = [2 ^ 32 - 1, 0, 40, 5]"
  using bit_fields_roundtrip [of "[(5, 3), (1000, 6), (0, 0), (2 ^ 32 - 1, 32)]"] by auto

end
