(* ===== verification/Fse_Encode.thy ===== *)
theory Fse_Encode
  imports Fse_Split Bit_Writer
begin

text \<open>
  \<^verbatim>\<open>src/encode/fse.rs\<close>: the encode table and the state transitions that use it. The contract
  between the encoder and the decoder is stated once, as the locale \<open>fse_pair\<close> of
  \<^verbatim>\<open>Fse_Stream\<close>; this theory proves its laws for the two table builders.
\<close>

unbundle bit_operations_syntax

section \<open>Accuracy logs\<close>

definition choose_table_log :: "nat \<Rightarrow> nat \<Rightarrow> nat" where
  "choose_table_log max_log num_present = min max_log FSE_MAX_TABLELOG"

definition optimal_table_log :: "nat \<Rightarrow> nat \<Rightarrow> nat \<Rightarrow> nat" where
  "optimal_table_log max_log src_size max_symbol =
     (let max_log = min max_log FSE_MAX_TABLELOG;
          src = as_u32 (max src_size 2);
          max_bits_src = highbit32 (src - 1) - 2;
          min_bits_src = highbit32 src + 1;
          min_bits_symbols = highbit32 (as_u32 (max max_symbol 1)) + 2;
          min_bits = min min_bits_src min_bits_symbols;
          log = (if max_bits_src < max_log then max_bits_src else max_log);
          log = (if log < min_bits then min_bits else log) in
      max 5 (min log max_log))"

definition min_table_log :: "nat \<Rightarrow> nat" where
  "min_table_log num_present = max (32 - leading_zeros32 (as_u32 num_present - 1)) 5"

section \<open>The encode table\<close>

record fse_ctable =
  ct_log :: nat
  ct_state_table :: "nat list"
  ct_delta_nb_bits :: "int list"
  ct_delta_find_state :: "int list"
  ct_present :: "bool list"

fun ct_low ::
  "nat list \<Rightarrow> byte list \<Rightarrow> nat \<Rightarrow> nat \<Rightarrow> int list \<Rightarrow> (nat list \<times> byte list \<times> nat) result" where
  "ct_low cumul table_symbol high s [] = Ok (cumul, table_symbol, high)"
| "ct_low cumul table_symbol high s (c # cs) =
     obind (idx cumul s) (\<lambda>v.
     if c = - 1 then
       obind (upd cumul (s + 1) (v + 1)) (\<lambda>cumul.
       obind (upd table_symbol high (word_of_nat s)) (\<lambda>table_symbol.
       ct_low cumul table_symbol (wrapping_dec high) (s + 1) cs))
     else
       obind (upd cumul (s + 1) (v + nat (max c 0))) (\<lambda>cumul.
       ct_low cumul table_symbol high (s + 1) cs))"

fun ct_spread :: "nat \<Rightarrow> nat \<Rightarrow> nat \<Rightarrow> nat \<Rightarrow> int list \<Rightarrow> byte list \<Rightarrow> nat \<Rightarrow> (byte list \<times> nat) result" where
  "ct_spread sz step high s [] table_symbol pos = Ok (table_symbol, pos)"
| "ct_spread sz step high s (c # cs) table_symbol pos =
     obind (spread_one sz step high (word_of_nat s) (nat (max c 0)) table_symbol pos) (\<lambda>(table_symbol, pos).
     ct_spread sz step high (s + 1) cs table_symbol pos)"

fun ct_states :: "nat \<Rightarrow> nat list \<Rightarrow> nat list \<Rightarrow> nat \<Rightarrow> byte list \<Rightarrow> nat list result" where
  "ct_states sz cumul_pos state_table u [] = Ok state_table"
| "ct_states sz cumul_pos state_table u (sy # ss) =
     (let s = unat sy in
      obind (idx cumul_pos s) (\<lambda>p.
      obind (upd state_table p (as_u16 (sz + u))) (\<lambda>state_table.
      ct_states sz (cumul_pos[s := p + 1]) state_table (u + 1) ss)))"

fun ct_transform :: "nat \<Rightarrow> int \<Rightarrow> int list \<Rightarrow> (int \<times> int) list result" where
  "ct_transform table_log tot [] = Ok []"
| "ct_transform table_log tot (c # cs) =
     (let sz = 2 ^ table_log in
      obind
        (if c = 0 then Ok (int ((table_log + 1) * 2 ^ 16) - sz, 0, tot)
         else if c = - 1 \<or> c = 1 then Ok (int (table_log * 2 ^ 16) - sz, tot - 1, tot + 1)
         else
           (let cc = int_as_u32 c in
            obind (usub table_log (highbit32 (cc - 1))) (\<lambda>max_bits_out.
            let min_state_plus = as_u32 (cc * 2 ^ max_bits_out) in
            Ok (int (max_bits_out * 2 ^ 16) - int min_state_plus, tot - c, tot + c))))
        (\<lambda>(dnb, dfs, tot).
      obind (ct_transform table_log tot cs) (\<lambda>rest.
      Ok ((dnb, dfs) # rest))))"

definition build_ctable :: "int list \<Rightarrow> nat \<Rightarrow> nat \<Rightarrow> fse_ctable result" where
  "build_ctable norm max_symbol table_log =
     (let sz = 2 ^ table_log;
          step = sz div 2 + sz div 8 + 3 in
      obind (slice_range norm 0 (max_symbol + 1)) (\<lambda>counts.
      obind (ct_low (replicate (max_symbol + 2) 0) (replicate sz 0) (sz - 1) 0 counts)
        (\<lambda>(cumul, table_symbol, high).
      obind (ct_spread sz step high 0 counts table_symbol 0) (\<lambda>(table_symbol, pos).
      obind (ct_states sz cumul (replicate sz 0) 0 table_symbol) (\<lambda>state_table.
      obind (ct_transform table_log 0 counts) (\<lambda>deltas.
      Ok \<lparr>ct_log = table_log, ct_state_table = state_table,
          ct_delta_nb_bits = map fst deltas, ct_delta_find_state = map snd deltas,
          ct_present = map (\<lambda>c. c \<noteq> 0) counts\<rparr>))))))"

definition build_rle_ctable :: "byte \<Rightarrow> fse_ctable result" where
  "build_rle_ctable symbol =
     (let norm = (replicate (unat symbol + 1) 0)[unat symbol := 1] in
      build_ctable norm (unat symbol) 0)"

section \<open>The encoder's state\<close>

definition can_encode :: "fse_ctable \<Rightarrow> nat list \<Rightarrow> bool" where
  "can_encode ct codes \<longleftrightarrow> (\<forall>c \<in> set codes. c < length (ct_present ct) \<and> ct_present ct ! c)"

text \<open>The two ways the code indexes and shifts with computed values: a negative index, or a
  shift by the width, panics.\<close>

definition idx_int :: "'a list \<Rightarrow> int \<Rightarrow> ('e, 'a) outcome" where
  "idx_int xs i = (if i < 0 then Panic else idx xs (nat i))"

definition shr32 :: "nat \<Rightarrow> nat \<Rightarrow> ('e, nat) outcome" where
  "shr32 v n = (if n < 32 then Ok (v div 2 ^ n) else Panic)"

definition init_state2 :: "fse_ctable \<Rightarrow> nat \<Rightarrow> nat result" where
  "init_state2 ct symbol =
     obind (idx (ct_delta_nb_bits ct) symbol) (\<lambda>dnb.
     let nb_bits_out = int_as_u32 ((dnb + 2 ^ 15) div 2 ^ 16);
         v = int_as_u32 (int nb_bits_out * 2 ^ 16 - dnb) in
     obind (shr32 v nb_bits_out) (\<lambda>w.
     obind (idx (ct_delta_find_state ct) symbol) (\<lambda>dfs.
     idx_int (ct_state_table ct) (int w + dfs))))"

text \<open>One step of the encoder: the width it writes and the next state.\<close>

definition ct_step :: "fse_ctable \<Rightarrow> nat \<Rightarrow> nat \<Rightarrow> (nat \<times> nat) result" where
  "ct_step ct st symbol =
     obind (idx (ct_delta_nb_bits ct) symbol) (\<lambda>dnb.
     let nb_bits_out = int_as_u32 ((int st + dnb) div 2 ^ 16) in
     obind (shr32 st nb_bits_out) (\<lambda>w.
     obind (idx (ct_delta_find_state ct) symbol) (\<lambda>dfs.
     obind (idx_int (ct_state_table ct) (int w + dfs)) (\<lambda>st'.
     Ok (nb_bits_out, st')))))"

definition encode_symbol :: "fse_ctable \<Rightarrow> bit_writer \<Rightarrow> nat \<Rightarrow> nat \<Rightarrow> (bit_writer \<times> nat) result" where
  "encode_symbol ct bw st symbol =
     obind (ct_step ct st symbol) (\<lambda>(nb_bits_out, st').
     Ok (bw_add bw st nb_bits_out, st'))"

definition flush_state :: "fse_ctable \<Rightarrow> bit_writer \<Rightarrow> nat \<Rightarrow> bit_writer" where
  "flush_state ct bw st = bw_add bw st (ct_log ct)"

fun cost_loop :: "fse_ctable \<Rightarrow> nat \<Rightarrow> nat \<Rightarrow> nat list \<Rightarrow> nat result" where
  "cost_loop ct v bits [] = Ok bits"
| "cost_loop ct v bits (c # cs) =
     obind (ct_step ct v c) (\<lambda>(nb, v).
     cost_loop ct v (bits + nb) cs)"

definition stream_cost_bits :: "fse_ctable \<Rightarrow> nat list \<Rightarrow> nat result" where
  "stream_cost_bits ct codes =
     obind (usub (length codes) 1) (\<lambda>last.
     obind (idx codes last) (\<lambda>c.
     obind (init_state2 ct c) (\<lambda>v.
     cost_loop ct v (ct_log ct) (rev (take last codes)))))"

section \<open>The encode table of a distribution\<close>

definition prefix_shares :: "int list \<Rightarrow> nat \<Rightarrow> nat" where
  "prefix_shares cs i = sum_list (map share (take i cs))"

lemma prefix_shares_0 [simp]: "prefix_shares cs 0 = 0"
  by (simp add: prefix_shares_def)

lemma prefix_shares_Suc: "i < length cs \<Longrightarrow> prefix_shares cs (Suc i) = prefix_shares cs i + share (cs ! i)"
  by (simp add: prefix_shares_def take_Suc_conv_app_nth)

lemma prefix_shares_mono: "i \<le> j \<Longrightarrow> prefix_shares cs i \<le> prefix_shares cs j"
proof -
  assume "i \<le> j"
  then have "take j cs = take i cs @ take (j - i) (drop i cs)" by (metis le_add_diff_inverse take_add)
  then show ?thesis by (simp add: prefix_shares_def)
qed

lemma ct_spread_eq: "ct_spread sz step high s cs table_symbol pos = spread_all sz step high s cs table_symbol pos"
  by (induction cs arbitrary: s table_symbol pos)
    (auto simp: max_def intro!: obind_cong)

lemma prefix_shares_Cons [simp]: "prefix_shares (c # cs) (Suc i) = share c + prefix_shares cs i"
  by (simp add: prefix_shares_def)

text \<open>The encoder places the low-probability symbols as the decoder does; its \<open>cumul\<close> holds the
  prefix sums of the shares.\<close>

lemma ct_low_spec:
  assumes "place_low symbols nxt high s cs = Ok (symbols', nxt', high')"
    and "s + length cs < length cumul"
  shows "ct_low cumul symbols high s cs =
    Ok (take (Suc s) cumul @ map (\<lambda>i. cumul ! s + prefix_shares cs (Suc i)) [0..<length cs]
          @ drop (Suc s + length cs) cumul, symbols', high')"
  using assms
proof (induction cs arbitrary: s symbols nxt high cumul)
  case Nil
  then show ?case by simp
next
  case (Cons c cs)
  define v where "v = cumul ! s + share c"
  define cumul' where "cumul' = cumul[Suc s := v]"
  have s: "s < length cumul" "Suc s < length cumul" "Suc s + length cs < length cumul'"
    using Cons.prems(2) by (simp_all add: cumul'_def)
  have "take (Suc (Suc s)) cumul' = take (Suc s) cumul @ [v]" "cumul' ! Suc s = v"
    "drop (Suc (Suc s) + length cs) cumul' = drop (Suc s + length (c # cs)) cumul"
    using s by (simp_all add: cumul'_def take_Suc_conv_app_nth)
  then have cum: "take (Suc (Suc s)) cumul' @ map (\<lambda>i. cumul' ! Suc s + prefix_shares cs (Suc i)) [0..<length cs]
      @ drop (Suc (Suc s) + length cs) cumul'
    = take (Suc s) cumul @ map (\<lambda>i. cumul ! s + prefix_shares (c # cs) (Suc i)) [0..<length (c # cs)]
      @ drop (Suc s + length (c # cs)) cumul"
    by (simp add: v_def upt_conv_Cons map_Suc_upt [symmetric] add.assoc del: upt_Suc)
  show ?case
  proof (cases "c = - 1")
    case True
    then have step: "place_low (symbols[high := word_of_nat s]) (nxt[s := 1]) (wrapping_dec high) (Suc s) cs
        = Ok (symbols', nxt', high')" "high < length symbols"
      using Cons.prems(1) by (auto simp: outcome_simps)
    have "share c = 1" using True by (simp add: share_def)
    then show ?thesis
      using Cons.IH [OF step(1) s(3)] cum True step(2) s(1,2) by (simp add: cumul'_def v_def)
  next
    case False
    then have step: "place_low symbols (nxt[s := as_u16 (nat (max c 0))]) high (Suc s) cs
        = Ok (symbols', nxt', high')"
      using Cons.prems(1) by (auto simp: outcome_simps)
    have "nat (max c 0) = share c" using False by (auto simp: share_def max_def)
    then show ?thesis
      using Cons.IH [OF step s(3)] cum False s(1,2) by (simp add: cumul'_def v_def)
  qed
qed

lemma ct_states_spec:
  assumes "\<And>v. v < length ss \<Longrightarrow> unat (ss ! v) < length cp"
    and "\<And>v. v < length ss \<Longrightarrow> cp ! unat (ss ! v) + count_list (take v ss) (ss ! v) < length st"
    and "inj_on (\<lambda>v. cp ! unat (ss ! v) + count_list (take v ss) (ss ! v)) {0..<length ss}"
    and "sz + u + length ss \<le> 65536"
  shows "\<exists>st'. ct_states sz cp st u ss = Ok st' \<and> length st' = length st
    \<and> (\<forall>v < length ss. st' ! (cp ! unat (ss ! v) + count_list (take v ss) (ss ! v)) = sz + u + v)
    \<and> (\<forall>q. (\<forall>v < length ss. q \<noteq> cp ! unat (ss ! v) + count_list (take v ss) (ss ! v)) \<longrightarrow> st' ! q = st ! q)"
  using assms
proof (induction ss arbitrary: cp st u)
  case Nil
  then show ?case by simp
next
  case (Cons sy ss)
  define s where "s = unat sy"
  define p where "p = cp ! s"
  define cp' where "cp' = cp[s := p + 1]"
  have s: "s < length cp" "p < length st" using Cons.prems(1,2) [of 0] by (simp_all add: s_def p_def)
  have slot: "cp' ! unat t + count_list (take v ss) t = cp ! unat t + count_list (take (Suc v) (sy # ss)) t" for t v
    using s(1) by (auto simp: cp'_def nth_list_update p_def s_def word_unat_eq_iff)
  have slot': "cp' ! unat (ss ! v) + count_list (take v ss) (ss ! v)
      = cp ! unat ((sy # ss) ! Suc v) + count_list (take (Suc v) (sy # ss)) ((sy # ss) ! Suc v)" for v
    by (simp add: slot del: take_Suc_Cons)
  have inj: "inj_on (\<lambda>v. cp' ! unat (ss ! v) + count_list (take v ss) (ss ! v)) {0..<length ss}"
  proof (rule inj_onI)
    fix v w
    assume vw: "v \<in> {0..<length ss}" "w \<in> {0..<length ss}"
    assume "cp' ! unat (ss ! v) + count_list (take v ss) (ss ! v) = cp' ! unat (ss ! w) + count_list (take w ss) (ss ! w)"
    then have "Suc v = Suc w"
      unfolding slot' by (rule inj_onD [OF Cons.prems(3)]) (use vw in auto)
    then show "v = w" by simp
  qed
  have fresh: "p \<noteq> cp' ! unat (ss ! v) + count_list (take v ss) (ss ! v)" if "v < length ss" for v
  proof
    assume "p = cp' ! unat (ss ! v) + count_list (take v ss) (ss ! v)"
    then have "cp ! unat ((sy # ss) ! 0) + count_list (take 0 (sy # ss)) ((sy # ss) ! 0)
      = cp ! unat ((sy # ss) ! Suc v) + count_list (take (Suc v) (sy # ss)) ((sy # ss) ! Suc v)"
      unfolding slot' p_def s_def by simp
    then have "(0::nat) = Suc v"
      by (rule inj_onD [OF Cons.prems(3)]) (use that in auto)
    then show False by simp
  qed
  have pre: "\<And>v. v < length ss \<Longrightarrow> unat (ss ! v) < length cp'"
    "\<And>v. v < length ss \<Longrightarrow> cp' ! unat (ss ! v) + count_list (take v ss) (ss ! v) < length (st[p := sz + u])"
    "sz + Suc u + length ss \<le> 65536"
    using Cons.prems(1,2) [of "Suc _"] Cons.prems(4) unfolding slot' by (auto simp: cp'_def)
  from Cons.IH [OF pre(1,2) inj pre(3)] obtain st' where st':
    "ct_states sz cp' (st[p := sz + u]) (Suc u) ss = Ok st'" "length st' = length st"
    "\<forall>v < length ss. st' ! (cp' ! unat (ss ! v) + count_list (take v ss) (ss ! v)) = sz + Suc u + v"
    "\<forall>q. (\<forall>v < length ss. q \<noteq> cp' ! unat (ss ! v) + count_list (take v ss) (ss ! v)) \<longrightarrow> st' ! q = st[p := sz + u] ! q"
    by auto
  have "st' ! p = sz + u" using st'(4) fresh s(2) by simp
  then have at: "st' ! (cp ! unat ((sy # ss) ! v) + count_list (take v (sy # ss)) ((sy # ss) ! v)) = sz + u + v"
    if "v < length (sy # ss)" for v
    using that st'(3) unfolding slot' by (cases v) (auto simp: p_def s_def)
  have "st' ! q = st ! q"
    if q: "\<forall>v < length (sy # ss). q \<noteq> cp ! unat ((sy # ss) ! v) + count_list (take v (sy # ss)) ((sy # ss) ! v)" for q
  proof -
    have "q \<noteq> p" using q [rule_format, of 0] by (simp add: p_def s_def)
    moreover have "\<forall>v < length ss. q \<noteq> cp' ! unat (ss ! v) + count_list (take v ss) (ss ! v)"
      unfolding slot' using q [rule_format, of "Suc _"] by simp
    ultimately show ?thesis using st'(4) by simp
  qed
  moreover have "ct_states sz cp st u (sy # ss) = Ok st'"
    using st'(1) s Cons.prems(4) by (simp add: Let_def as_u16_small cp'_def flip: s_def p_def)
  ultimately show ?case using at st'(2) by blast
qed

section \<open>The symbol transforms\<close>

definition ct_dnb :: "nat \<Rightarrow> nat \<Rightarrow> int" where
  "ct_dnb lg c =
     (if c = 1 then int (lg * 2 ^ 16) - 2 ^ lg
      else int ((lg - highbit32 (c - 1)) * 2 ^ 16) - int (c * 2 ^ (lg - highbit32 (c - 1))))"

lemma ct_dnb_shift:
  assumes "2 \<le> c" and "c \<le> 2 ^ lg" and "lg \<le> 9"
  shows "highbit32 (c - 1) \<le> lg" and "c * 2 ^ (lg - highbit32 (c - 1)) \<le> 2 * 2 ^ lg"
    and "highbit32 (c - 1) = highbit32 c \<or> c = 2 ^ highbit32 c \<and> highbit32 c = Suc (highbit32 (c - 1))"
proof -
  have pow: "(2::nat) ^ lg \<le> 512" using power_increasing [of lg 9 "2::nat"] assms(3) by simp
  define h g where "h = highbit32 c" and "g = highbit32 (c - 1)"
  have h: "2 ^ h \<le> c" "c < 2 * 2 ^ h" "h < 32"
    using highbit32_bounds [of c] assms pow by (simp_all add: h_def)
  have g: "2 ^ g \<le> c - 1" "c - 1 < 2 * 2 ^ g" "g < 32"
    using highbit32_bounds [of "c - 1"] assms pow by (simp_all add: g_def)
  show gh: "g = highbit32 c \<or> c = 2 ^ highbit32 c \<and> highbit32 c = Suc g"
  proof (cases "c = 2 ^ h")
    case False
    then have "2 ^ h \<le> c - 1" "c - 1 < 2 ^ Suc h" using h by simp_all
    then have "g = h" unfolding g_def using h(3) by (rule highbit32_unique)
    then show ?thesis by (simp add: h_def)
  next
    case True
    then obtain k where k: "h = Suc k" using assms(1) by (cases h) auto
    then have "2 ^ k \<le> c - 1" "c - 1 < 2 ^ Suc k" using True by simp_all
    then have "g = k" unfolding g_def using h(3) k by (intro highbit32_unique) auto
    then show ?thesis using True k by (simp add: h_def)
  qed
  have "(2::nat) ^ g < 2 ^ lg" using g(1) assms by linarith
  then have gl: "g < lg" by simp
  then show "highbit32 (c - 1) \<le> lg" by (simp add: g_def)
  have "c * 2 ^ (lg - g) \<le> (2 * 2 ^ g) * 2 ^ (lg - g)" using g(2) by (intro mult_right_mono) auto
  then show "c * 2 ^ (lg - highbit32 (c - 1)) \<le> 2 * 2 ^ lg"
    using gl by (simp add: g_def mult.assoc flip: power_add)
qed

lemma ct_width:
  assumes c: "0 < c" "c \<le> 2 ^ lg" and lg: "lg \<le> 9" and X: "2 ^ lg \<le> X" "X < 2 * 2 ^ lg"
  shows "(int X + ct_dnb lg c) div 2 ^ 16 = int (split_bits lg c X)"
proof -
  have pow: "(2::nat) ^ lg \<le> 512" using power_increasing [of lg 9 "2::nat"] lg by simp
  have ipow: "int (2 ^ lg) = 2 ^ lg" by simp
  show ?thesis
  proof (cases "c = 1")
    case True
    have "highbit32 1 = 0" by (rule highbit32_unique) auto
    then have "split_bits lg c X = lg" using X True by (simp add: split_bits_def)
    moreover have "int X + ct_dnb lg c = int lg * 2 ^ 16 + int (X - 2 ^ lg)"
      using True X by (simp add: ct_dnb_def of_nat_diff)
    moreover have "int (X - 2 ^ lg) < 65536"
    proof -
      have "X - 2 ^ lg < 65536" using X pow by linarith
      then show ?thesis by linarith
    qed
    ultimately show ?thesis by simp
  next
    case False
    define mb m where "mb = lg - highbit32 (c - 1)" and "m = c * 2 ^ mb"
    have c2: "2 \<le> c" using c False by simp
    note sh = ct_dnb_shift [OF c2 c(2) lg]
    have m: "m \<le> 1024" using sh(2) pow by (simp add: m_def mb_def)
    have X': "X < 1024" using X pow by simp
    have dnb: "int X + ct_dnb lg c = int mb * 2 ^ 16 + (int X - int m)"
      using False by (simp add: ct_dnb_def mb_def m_def)
    have quot: "(int mb * 2 ^ 16 + (int X - int m)) div 2 ^ 16 = (if m \<le> X then int mb else int mb - 1)"
      using m X' by (auto simp: div_eq_minus1)
    have "split_bits lg c X = (if m \<le> X then mb else mb - 1) \<and> (m \<le> X \<or> 0 < mb)"
    proof (cases "highbit32 (c - 1) = highbit32 c")
      case True
      have "m \<le> X \<or> 0 < mb" using c(2) X(1) by (auto simp: m_def)
      then show ?thesis using True by (simp add: split_bits_def m_def mb_def)
    next
      case False
      then have h: "c = 2 ^ highbit32 c" "highbit32 c = Suc (highbit32 (c - 1))" using sh(3) by auto
      have "(2::nat) ^ highbit32 c \<le> 2 ^ lg" using h(1) c(2) by simp
      then have hl: "highbit32 c \<le> lg" by simp
      then have mb: "mb = Suc (lg - highbit32 c)" using h(2) by (simp add: mb_def)
      have "c * 2 ^ (lg - highbit32 c) = 2 ^ lg" by (subst h(1)) (use hl in \<open>simp flip: power_add\<close>)
      moreover have "m = 2 * (c * 2 ^ (lg - highbit32 c))" by (simp add: m_def mb)
      ultimately show ?thesis using X by (simp add: split_bits_def mb)
    qed
    then show ?thesis unfolding dnb quot by (auto simp: of_nat_diff)
  qed
qed

lemma ct_start:
  assumes c: "0 < c" "c \<le> 2 ^ lg" and lg: "lg \<le> 9"
  shows "\<exists>nb. (ct_dnb lg c + 2 ^ 15) div 2 ^ 16 = int nb \<and> nb \<le> 9
    \<and> int nb * 2 ^ 16 - ct_dnb lg c = int (c * 2 ^ nb) \<and> c * 2 ^ nb \<le> 1024"
proof -
  have pow: "(2::nat) ^ lg \<le> 512" using power_increasing [of lg 9 "2::nat"] lg by simp
  show ?thesis
  proof (cases "c = 1")
    case True
    define P :: int where "P = 2 ^ lg"
    have P: "P \<le> 512" "0 \<le> P" using power_increasing [of lg 9 "2::int"] lg by (simp_all add: P_def)
    have "(int lg * 65536 - P + 32768) div 65536 = int lg" using P by linarith
    moreover have "c * 2 ^ lg \<le> 1024" "int (c * 2 ^ lg) = P" using True pow by (simp_all add: P_def)
    moreover have "ct_dnb lg c = int lg * 65536 - P" using True by (simp add: ct_dnb_def P_def)
    ultimately show ?thesis using lg by (intro exI [of _ lg]) (simp del: of_nat_mult of_nat_power)
  next
    case False
    define mb m where "mb = lg - highbit32 (c - 1)" and "m = c * 2 ^ mb"
    have c2: "2 \<le> c" using c False by simp
    have m: "m \<le> 1024" using ct_dnb_shift(2) [OF c2 c(2) lg] pow by (simp add: m_def mb_def)
    have "(int mb * 65536 - int m + 32768) div 65536 = int mb" using m by linarith
    moreover have "ct_dnb lg c = int mb * 65536 - int m" using False by (simp add: ct_dnb_def m_def mb_def)
    moreover have "mb \<le> 9" using lg by (simp add: mb_def)
    ultimately show ?thesis using m by (intro exI [of _ mb]) (simp add: m_def del: of_nat_mult of_nat_power)
  qed
qed

lemma ct_transform_spec:
  assumes "\<And>c. c \<in> set cs \<Longrightarrow> - 1 \<le> c \<and> c \<le> 2 ^ lg" and "lg \<le> 9"
  shows "\<exists>ds. ct_transform lg tot cs = Ok ds \<and> length ds = length cs
    \<and> (\<forall>s < length cs. cs ! s \<noteq> 0 \<longrightarrow>
        ds ! s = (ct_dnb lg (share (cs ! s)), tot + int (prefix_shares cs s) - int (share (cs ! s))))"
  using assms(1)
proof (induction cs arbitrary: tot)
  case Nil
  then show ?case by simp
next
  case (Cons c cs)
  have c: "- 1 \<le> c" "c \<le> 2 ^ lg" using Cons.prems [of c] by simp_all
  have pow: "(2::nat) ^ lg \<le> 512" "(2::int) ^ lg \<le> 512"
    using power_increasing [of lg 9 "2::nat"] power_increasing [of lg 9 "2::int"] assms(2) by simp_all
  obtain ds where ds: "ct_transform lg (tot + int (share c)) cs = Ok ds" "length ds = length cs"
    "\<forall>s < length cs. cs ! s \<noteq> 0 \<longrightarrow> ds ! s = (ct_dnb lg (share (cs ! s)),
       tot + int (share c) + int (prefix_shares cs s) - int (share (cs ! s)))"
    using Cons.IH [of "tot + int (share c)"] Cons.prems by auto
  have "\<exists>d. ct_transform lg tot (c # cs) = Ok (d # ds)
    \<and> (c \<noteq> 0 \<longrightarrow> d = (ct_dnb lg (share c), tot - int (share c)))"
  proof (cases "c = 0 \<or> c = - 1 \<or> c = 1")
    case True
    then show ?thesis using ds(1) by (auto simp: share_def ct_dnb_def Let_def)
  next
    case False
    then have c2: "2 \<le> c" using c by simp
    then have sh: "share c = nat c" "int_as_u32 c = nat c" "2 \<le> nat c" "nat c \<le> 2 ^ lg"
      using c pow by (simp_all add: share_def int_as_u32_small nat_le_iff)
    note s = ct_dnb_shift [OF sh(3,4) assms(2)]
    have "as_u32 (nat c * 2 ^ (lg - highbit32 (nat c - 1))) = nat c * 2 ^ (lg - highbit32 (nat c - 1))"
      using s(2) pow(1) by (intro as_u32_small) simp
    then show ?thesis using ds(1) c2 sh s(1) by (simp add: ct_dnb_def Let_def)
  qed
  then obtain d where d: "ct_transform lg tot (c # cs) = Ok (d # ds)"
    "c \<noteq> 0 \<Longrightarrow> d = (ct_dnb lg (share c), tot - int (share c))" by blast
  have "(d # ds) ! s = (ct_dnb lg (share ((c # cs) ! s)), tot + int (prefix_shares (c # cs) s) - int (share ((c # cs) ! s)))"
    if "s < length (c # cs)" "(c # cs) ! s \<noteq> 0" for s
    using that d(2) ds(3) by (cases s) auto
  with d(1) ds(2) show ?case by auto
qed

section \<open>The built table\<close>

text \<open>What the encode table of a distribution with state symbols \<open>syms\<close> holds.\<close>

definition ctable_for :: "nat \<Rightarrow> int list \<Rightarrow> byte list \<Rightarrow> fse_ctable \<Rightarrow> bool" where
  "ctable_for lg cs syms ct \<longleftrightarrow> ct_log ct = lg \<and> length (ct_state_table ct) = 2 ^ lg
     \<and> (\<forall>u < 2 ^ lg. ct_state_table ct ! (prefix_shares cs (unat (syms ! u)) + count_list (take u syms) (syms ! u)) = 2 ^ lg + u)
     \<and> length (ct_delta_nb_bits ct) = length cs \<and> length (ct_delta_find_state ct) = length cs
     \<and> (\<forall>s < length cs. cs ! s \<noteq> 0 \<longrightarrow> ct_delta_nb_bits ct ! s = ct_dnb lg (share (cs ! s))
          \<and> ct_delta_find_state ct ! s = int (prefix_shares cs s) - int (share (cs ! s)))
     \<and> ct_present ct = map (\<lambda>c. c \<noteq> 0) cs"

lemma ctable_slot:
  "ctable_for lg cs syms ct \<Longrightarrow> u < 2 ^ lg \<Longrightarrow>
    ct_state_table ct ! (prefix_shares cs (unat (syms ! u)) + count_list (take u syms) (syms ! u)) = 2 ^ lg + u"
  by (simp add: ctable_for_def)

lemma sum_list_share: "sum_list (map share cs) = length (share_list s cs)"
  by (induction cs arbitrary: s) simp_all

lemma slot_bounds:
  assumes lg: "spread_log lg" and cs: "norm_counts lg cs" and spec: "spread_spec lg cs syms" and u: "u < 2 ^ lg"
  shows "prefix_shares cs (unat (syms ! u)) + count_list (take u syms) (syms ! u) < prefix_shares cs (Suc (unat (syms ! u)))"
    and "prefix_shares cs (unat (syms ! u)) + count_list (take u syms) (syms ! u) < 2 ^ lg"
    and "unat (syms ! u) < length cs"
proof -
  have len: "length syms = 2 ^ lg" using spec by (simp add: spread_spec_def Let_def)
  then have "syms ! u \<in> set syms" using u by simp
  note c = spread_spec_count [OF lg cs spec this]
  show s: "unat (syms ! u) < length cs" by (rule c(1))
  have "count_list (take u syms) (syms ! u) < share (cs ! unat (syms ! u))"
    using count_list_take_less [of u syms] u len c(2) by simp
  then show less: "prefix_shares cs (unat (syms ! u)) + count_list (take u syms) (syms ! u) < prefix_shares cs (Suc (unat (syms ! u)))"
    using s by (simp add: prefix_shares_Suc)
  also have "prefix_shares cs (Suc (unat (syms ! u))) \<le> prefix_shares cs (length cs)"
    using s by (intro prefix_shares_mono) simp
  also have "\<dots> = 2 ^ lg"
    using norm_counts_lengths(1) [OF cs] by (simp add: prefix_shares_def sum_list_share [of cs 0])
  finally show "prefix_shares cs (unat (syms ! u)) + count_list (take u syms) (syms ! u) < 2 ^ lg" .
qed

lemma slot_inj:
  assumes lg: "spread_log lg" and cs: "norm_counts lg cs" and spec: "spread_spec lg cs syms"
  shows "inj_on (\<lambda>u. prefix_shares cs (unat (syms ! u)) + count_list (take u syms) (syms ! u)) {0..<2 ^ lg}"
proof (rule inj_onI)
  fix u v
  assume uv: "u \<in> {0..<2 ^ lg}" "v \<in> {0..<2 ^ lg}"
    and eq: "prefix_shares cs (unat (syms ! u)) + count_list (take u syms) (syms ! u)
      = prefix_shares cs (unat (syms ! v)) + count_list (take v syms) (syms ! v)"
  have u: "u < 2 ^ lg" and v: "v < 2 ^ lg" using uv by auto
  have len: "length syms = 2 ^ lg" using spec by (simp add: spread_spec_def Let_def)
  have apart: False if "unat (syms ! a) < unat (syms ! b)" "a < 2 ^ lg" "b < 2 ^ lg"
    "prefix_shares cs (unat (syms ! a)) + count_list (take a syms) (syms ! a)
      = prefix_shares cs (unat (syms ! b)) + count_list (take b syms) (syms ! b)" for a b
  proof -
    have "prefix_shares cs (Suc (unat (syms ! a))) \<le> prefix_shares cs (unat (syms ! b))"
      using that(1) by (intro prefix_shares_mono) simp
    then show False using slot_bounds(1) [OF lg cs spec that(2)] that(4) by linarith
  qed
  have "unat (syms ! u) = unat (syms ! v)"
    using apart [OF _ u v eq] apart [OF _ v u eq [symmetric]] by (meson linorder_neqE_nat)
  then have "syms ! u = syms ! v" by (simp add: word_unat_eq_iff)
  then show "u = v" using eq u v len by (intro count_list_take_inj [of u syms v]) simp_all
qed

lemma build_ctable_Ok:
  assumes valid: "valid_norm norm ms lg" and lg: "spread_log lg" "lg \<le> 9"
    and spec: "spread_spec lg (take (ms + 1) norm) syms"
  shows "\<exists>ct. build_ctable norm ms lg = Ok ct \<and> ctable_for lg (take (ms + 1) norm) syms ct"
proof -
  define cs where "cs = take (ms + 1) norm"
  have cs: "norm_counts lg cs" "length cs = ms + 1" "slice_range norm 0 (ms + 1) = Ok cs"
    using valid_norm_counts [OF valid] valid by (simp_all add: cs_def valid_norm_def)
  have spec': "spread_spec lg cs syms" using spec by (simp add: cs_def)
  have pow: "(2::nat) ^ lg \<le> 512" using power_increasing [of lg 9 "2::nat"] lg(2) by simp
  have len: "length syms = 2 ^ lg" using spec' by (simp add: spread_spec_def Let_def)
  define L where "L = length (low_list 0 cs)"
  define sy0 where "sy0 = take (2 ^ lg - L) (replicate (2 ^ lg) 0) @ rev (low_list 0 cs)"
  define cumul where "cumul = 0 # map (\<lambda>i. prefix_shares cs (Suc i)) [0..<length cs]"
  have cum: "cumul ! i = prefix_shares cs i" if "i \<le> length cs" for i
    using that by (cases i) (simp_all add: cumul_def del: upt_Suc)
  have low: "ct_low (replicate (ms + 2) 0) (replicate (2 ^ lg) 0) (2 ^ lg - 1) 0 cs
      = Ok (cumul, sy0, low_left (2 ^ lg - 1) L)"
    using ct_low_spec [OF place_counts [OF cs(1) lg(2)], of "replicate (ms + 2) 0"] cs(2)
    by (simp add: L_def sy0_def cumul_def)
  obtain xs where "spread_all (2 ^ lg) (2 ^ lg div 2 + 2 ^ lg div 8 + 3) (low_left (2 ^ lg - 1) L) 0 cs sy0 0 = Ok (xs, 0)"
    "spread_spec lg cs xs"
    using spread_Ok [OF lg(1) cs(1) refl] unfolding L_def sy0_def by blast
  then have spread: "ct_spread (2 ^ lg) (2 ^ lg div 2 + 2 ^ lg div 8 + 3) (low_left (2 ^ lg - 1) L) 0 cs sy0 0 = Ok (syms, 0)"
    using spread_spec_unique [OF lg(1) spec'] by (simp add: ct_spread_eq)
  have slot: "cumul ! unat (syms ! u) + count_list (take u syms) (syms ! u)
      = prefix_shares cs (unat (syms ! u)) + count_list (take u syms) (syms ! u)" if "u < 2 ^ lg" for u
    using slot_bounds(3) [OF lg(1) cs(1) spec' that] by (simp add: cum)
  have "inj_on (\<lambda>u. cumul ! unat (syms ! u) + count_list (take u syms) (syms ! u)) {0..<length syms}"
    using slot_inj [OF lg(1) cs(1) spec'] slot len by (auto simp: inj_on_def)
  moreover have "unat (syms ! u) < length cumul" if "u < length syms" for u
    using slot_bounds(3) [OF lg(1) cs(1) spec', of u] that len by (simp add: cumul_def)
  moreover have "cumul ! unat (syms ! u) + count_list (take u syms) (syms ! u) < length (replicate (2 ^ lg) 0)"
    if "u < length syms" for u
    using slot_bounds(2) [OF lg(1) cs(1) spec', of u] slot [of u] that len by simp
  ultimately obtain st where st: "ct_states (2 ^ lg) cumul (replicate (2 ^ lg) 0) 0 syms = Ok st" "length st = 2 ^ lg"
    "\<forall>u < 2 ^ lg. st ! (cumul ! unat (syms ! u) + count_list (take u syms) (syms ! u)) = 2 ^ lg + u"
    using ct_states_spec [of syms cumul "replicate (2 ^ lg) 0" "2 ^ lg" 0] len pow by auto
  obtain ds where ds: "ct_transform lg 0 cs = Ok ds" "length ds = length cs"
    "\<forall>s < length cs. cs ! s \<noteq> 0 \<longrightarrow>
        ds ! s = (ct_dnb lg (share (cs ! s)), int (prefix_shares cs s) - int (share (cs ! s)))"
    using ct_transform_spec [of cs lg 0] norm_counts_bound [OF cs(1)] cs(1) lg(2)
    by (auto simp: norm_counts_def)
  define ct where "ct = \<lparr>ct_log = lg, ct_state_table = st, ct_delta_nb_bits = map fst ds,
    ct_delta_find_state = map snd ds, ct_present = map (\<lambda>c. c \<noteq> 0) cs\<rparr>"
  have "build_ctable norm ms lg = Ok ct"
    unfolding build_ctable_def Let_def cs(3) obind_simps low prod.case spread st(1) ds(1) ct_def by (rule refl)
  moreover have "ctable_for lg cs syms ct"
    using st ds slot by (simp add: ctable_for_def ct_def)
  ultimately show ?thesis by (auto simp: cs_def)
qed

section \<open>The transition laws\<close>

text \<open>The encoder's step undoes the decoder's: from a state \<open>X\<close> it moves to the state \<open>u\<close> of the
  symbol whose interval holds \<open>X - 2 ^ lg\<close>, and writes the bits that lead back.\<close>

lemma ct_step_law:
  assumes lg: "spread_log lg" "lg \<le> 9" and cs: "norm_counts lg cs" and spec: "spread_spec lg cs syms"
    and ct: "ctable_for lg cs syms ct"
    and s: "s < length cs" "cs ! s \<noteq> 0" and X: "2 ^ lg \<le> X" "X < 2 * 2 ^ lg"
  shows "\<exists>u nb. u < 2 ^ lg \<and> ct_step ct X s = Ok (nb, 2 ^ lg + u) \<and> nb \<le> lg
    \<and> fe_symbol (ft_entries (dtable_of lg cs syms) ! u) = word_of_nat s
    \<and> fe_num_bits (ft_entries (dtable_of lg cs syms) ! u) = nb
    \<and> fe_new_state_base (ft_entries (dtable_of lg cs syms) ! u) + X mod 2 ^ nb = X - 2 ^ lg"
proof -
  define c nb n where "c = share (cs ! s)" and "nb = split_bits lg c X" and "n = X div 2 ^ nb"
  define sw :: byte where "sw = word_of_nat s"
  have len: "length syms = 2 ^ lg" using spec by (simp add: spread_spec_def Let_def)
  note sh = symbol_share [OF lg(1) cs spec s]
  have us: "unat sw = s" and c0: "0 < c" and cnt: "count_list syms sw = c" and cl: "c \<le> 2 ^ lg"
    using sh by (simp_all add: sw_def c_def)
  have n: "c \<le> n" "n < 2 * c" "lg - highbit32 n = nb"
    using split_num [OF c0 cl _ X] lg(2) by (simp_all add: nb_def n_def)
  have width: "int_as_u32 ((int X + ct_dnb lg c) div 2 ^ 16) = nb"
    using ct_width [OF c0 cl lg(2) X] lg(2)
    by (simp add: int_as_u32_small nb_def split_bits_def)
  obtain u where u: "u < 2 ^ lg" "syms ! u = sw" "count_list (take u syms) sw = n - c"
    using count_list_take_surj [of "n - c" syms sw] n(1,2) len unfolding cnt by fastforce
  have slot: "prefix_shares cs s + (n - c) < 2 ^ lg" "ct_state_table ct ! (prefix_shares cs s + (n - c)) = 2 ^ lg + u"
    using slot_bounds(2) [OF lg(1) cs spec u(1)] ctable_slot [OF ct u(1)] u us by simp_all
  have "nat (int n + (int (prefix_shares cs s) - int c)) = prefix_shares cs s + (n - c)"
    "0 \<le> int n + (int (prefix_shares cs s) - int c)"
    using n(1) by linarith+
  moreover have "length (ct_state_table ct) = 2 ^ lg" using ct by (simp add: ctable_for_def)
  ultimately have look: "idx_int (ct_state_table ct) (int n + (int (prefix_shares cs s) - int c)) = Ok (2 ^ lg + u)"
    using slot by (simp only: idx_int_def idx_Ok) simp
  have nb: "nb \<le> lg" by (simp add: nb_def split_bits_def)
  have shr: "shr32 X nb = (Ok n :: nat result)" using nb lg(2) by (simp add: shr32_def n_def)
  have at: "idx (ct_delta_nb_bits ct) s = (Ok (ct_dnb lg c) :: int result)"
    "idx (ct_delta_find_state ct) s = (Ok (int (prefix_shares cs s) - int c) :: int result)"
    using ct s by (simp_all add: ctable_for_def c_def)
  have step: "ct_step ct X s = Ok (nb, 2 ^ lg + u)"
    unfolding ct_step_def at obind_simps Let_def width shr look ..
  have n0: "0 < n" "n < 2 * 2 ^ lg" using n(1,2) c0 cl by linarith+
  have lg16: "lg \<le> 16" using lg(2) by simp
  have e: "ft_entries (dtable_of lg cs syms) ! u = entry_of lg sw n"
    using u n(1) us by (simp add: dtable_of_entry c_def)
  have "n * 2 ^ nb + X mod 2 ^ nb = X" unfolding n_def by (rule div_mult_mod_eq)
  then have "n * 2 ^ nb - 2 ^ lg + X mod 2 ^ nb = X - 2 ^ lg"
    using pow2_bracket(2) [OF n0 lg16] n(3) by simp
  with u(1) step nb e n(3) show ?thesis
    by (intro exI [of _ u] exI [of _ nb]) (simp add: entry_of_def sw_def Let_def)
qed

lemma ct_init_law:
  assumes lg: "spread_log lg" "lg \<le> 9" and cs: "norm_counts lg cs" and spec: "spread_spec lg cs syms"
    and ct: "ctable_for lg cs syms ct"
    and s: "s < length cs" "cs ! s \<noteq> 0"
  shows "\<exists>u. u < 2 ^ lg \<and> init_state2 ct s = Ok (2 ^ lg + u)
    \<and> fe_symbol (ft_entries (dtable_of lg cs syms) ! u) = word_of_nat s
    \<and> fe_num_bits (ft_entries (dtable_of lg cs syms) ! u) = lg - highbit32 (share (cs ! s))"
proof -
  define c where "c = share (cs ! s)"
  define sw :: byte where "sw = word_of_nat s"
  have len: "length syms = 2 ^ lg" using spec by (simp add: spread_spec_def Let_def)
  note sh = symbol_share [OF lg(1) cs spec s]
  have us: "unat sw = s" and c0: "0 < c" and cnt: "count_list syms sw = c" and cl: "c \<le> 2 ^ lg"
    using sh by (simp_all add: sw_def c_def)
  obtain nb where nb: "(ct_dnb lg c + 2 ^ 15) div 2 ^ 16 = int nb" "nb \<le> 9"
    "int nb * 2 ^ 16 - ct_dnb lg c = int (c * 2 ^ nb)" "c * 2 ^ nb \<le> 1024"
    using ct_start [OF c0 cl lg(2)] by blast
  obtain u where u: "u < 2 ^ lg" "syms ! u = sw" "count_list (take u syms) sw = 0"
    using count_list_take_surj [of 0 syms sw] c0 len unfolding cnt by fastforce
  have slot: "prefix_shares cs s < 2 ^ lg" "ct_state_table ct ! prefix_shares cs s = 2 ^ lg + u"
    using slot_bounds(2) [OF lg(1) cs spec u(1)] ctable_slot [OF ct u(1)] u us by simp_all
  then have look: "idx_int (ct_state_table ct) (int c + (int (prefix_shares cs s) - int c)) = Ok (2 ^ lg + u)"
    using ct by (simp add: idx_int_def ctable_for_def)
  have w: "int_as_u32 (int nb) = nb" "int_as_u32 (int (c * 2 ^ nb)) = c * 2 ^ nb"
    using nb(2,4) by (simp_all add: int_as_u32_small del: of_nat_mult)
  have "init_state2 ct s = Ok (2 ^ lg + u)"
    using ct s nb w look
    by (simp add: init_state2_def ctable_for_def Let_def shr32_def flip: c_def del: of_nat_mult)
  moreover have "fe_symbol (ft_entries (dtable_of lg cs syms) ! u) = sw"
    "fe_num_bits (ft_entries (dtable_of lg cs syms) ! u) = lg - highbit32 (share (cs ! s))"
    using u us by (simp_all add: dtable_of_entry entry_of_def Let_def)
  ultimately show ?thesis using u(1) by (auto simp: sw_def)
qed

end
