(* ===== verification/Fse_Stream.thy ===== *)
theory Fse_Stream
  imports Fse_Encode
begin

text \<open>
  The two-state FSE stream: \<open>encode\<close> of \<^verbatim>\<open>src/encode/fse.rs\<close> against \<open>decompress\<close> of
  \<^verbatim>\<open>src/fse.rs\<close>. The locale \<open>fse_pair\<close> is the contract of an encode table and a decode table
  of the same distribution; the client lemmas (a chain of symbols encoded back to front is
  decoded front to back) are proved in it, and it is interpreted on the two table builders.
\<close>

section \<open>Chains of symbols\<close>

text \<open>One channel: the symbols of a list are encoded from the last to the first. The state that
  results is that of the first symbol; the fields are what has been written.\<close>

fun chain ::
  "(nat \<Rightarrow> nat result) \<Rightarrow> (nat \<Rightarrow> nat \<Rightarrow> (nat \<times> nat) result) \<Rightarrow> nat list \<Rightarrow> (nat \<times> (nat \<times> nat) list) result" where
  "chain start stp [] = Panic"
| "chain start stp [a] = obind (start a) (\<lambda>X. Ok (X, []))"
| "chain start stp (a # b # xs) =
     obind (chain start stp (b # xs)) (\<lambda>(X, F).
     obind (stp X a) (\<lambda>(nb, X').
     Ok (X', F @ [(X, nb)])))"

text \<open>Two channels that take turns: the state of the first symbol and that of the second.\<close>

fun weave ::
  "(nat \<Rightarrow> nat result) \<Rightarrow> (nat \<Rightarrow> nat \<Rightarrow> (nat \<times> nat) result) \<Rightarrow> nat list
   \<Rightarrow> (nat \<times> nat \<times> (nat \<times> nat) list) result" where
  "weave start stp [] = Panic"
| "weave start stp [a] = Panic"
| "weave start stp [a, b] = obind (start a) (\<lambda>X. obind (start b) (\<lambda>Y. Ok (X, Y, [])))"
| "weave start stp (a # b # c # xs) =
     obind (weave start stp (b # c # xs)) (\<lambda>(Y, X, F).
     obind (stp X a) (\<lambda>(nb, X').
     Ok (X', Y, F @ [(X, nb)])))"

lemma list_induct_three:
  assumes "P []" and "\<And>a. P [a]" and "\<And>a b. P [a, b]"
    and "\<And>a b c xs. P (b # c # xs) \<Longrightarrow> P (a # b # c # xs)"
  shows "P xs"
proof (induction xs rule: length_induct)
  case (1 xs)
  show ?case
  proof (cases xs)
    case (Cons a ys)
    show ?thesis
    proof (cases ys)
      case (Cons b zs)
      then show ?thesis using 1 \<open>xs = a # ys\<close> assms by (cases zs) auto
    qed (use Cons assms in auto)
  qed (use assms in auto)
qed

text \<open>The fields as the reader meets them: the last one first, cut to their width.\<close>

definition read_back :: "(nat \<times> nat) list \<Rightarrow> (nat \<times> nat) list" where
  "read_back F = map (\<lambda>(v, n). (v mod 2 ^ n, n)) (rev F)"

lemma read_back_simps [simp]:
  "read_back [] = []"
  "read_back (F @ [(v, n)]) = (v mod 2 ^ n, n) # read_back F"
  by (simp_all add: read_back_def)

section \<open>The contract of a table pair\<close>

text \<open>States are numbers below \<open>2 ^ lg\<close>; the encoder's copy of a state \<open>u\<close> is \<open>2 ^ lg + u\<close>.\<close>

locale fse_pair =
  fixes lg :: nat
    and symb :: "nat \<Rightarrow> nat" and nbits :: "nat \<Rightarrow> nat" and base :: "nat \<Rightarrow> nat"
    and start :: "nat \<Rightarrow> nat result" and stp :: "nat \<Rightarrow> nat \<Rightarrow> (nat \<times> nat) result"
    and codable :: "nat \<Rightarrow> bool"
  assumes lg_le: "lg \<le> 9"
    and start_law: "codable s \<Longrightarrow> \<exists>u. u < 2 ^ lg \<and> start s = Ok (2 ^ lg + u) \<and> symb u = s"
    and step_law: "codable s \<Longrightarrow> x < 2 ^ lg \<Longrightarrow>
      \<exists>u nb. u < 2 ^ lg \<and> stp (2 ^ lg + x) s = Ok (nb, 2 ^ lg + u) \<and> nb \<le> lg
        \<and> symb u = s \<and> nbits u = nb \<and> base u + (2 ^ lg + x) mod 2 ^ nb = x"
begin

text \<open>Reading a channel back: each next state is the base of the state before plus the bits
  read.\<close>

fun unchain :: "nat list \<Rightarrow> nat \<Rightarrow> (nat \<times> nat) list \<Rightarrow> bool" where
  "unchain [] u fs \<longleftrightarrow> False"
| "unchain [a] u fs \<longleftrightarrow> u < 2 ^ lg \<and> symb u = a \<and> fs = []"
| "unchain (a # b # xs) u fs \<longleftrightarrow>
     u < 2 ^ lg \<and> symb u = a \<and> (case fs of [] \<Rightarrow> False
       | (v, n) # fs' \<Rightarrow> n = nbits u \<and> n \<le> lg \<and> unchain (b # xs) (base u + v) fs')"

lemma chain_unchain:
  assumes "xs \<noteq> []" and "\<And>x. x \<in> set xs \<Longrightarrow> codable x"
  shows "\<exists>u F. chain start stp xs = Ok (2 ^ lg + u, F) \<and> unchain xs u (read_back F) \<and> u < 2 ^ lg
    \<and> (\<forall>(v, n) \<in> set F. n \<le> lg \<and> v < 2 * 2 ^ lg) \<and> length F + 1 = length xs"
  using assms
proof (induction xs rule: induct_list012)
  case 1
  then show ?case by simp
next
  case (2 a)
  then show ?case using start_law [of a] by auto
next
  case (3 a b xs)
  then obtain u F where u: "chain start stp (b # xs) = Ok (2 ^ lg + u, F)" "u < 2 ^ lg"
    "unchain (b # xs) u (read_back F)"
    "\<forall>(v, n) \<in> set F. n \<le> lg \<and> v < 2 * 2 ^ lg" "length F + 1 = length (b # xs)"
    by auto
  obtain w nb where w: "w < 2 ^ lg" "stp (2 ^ lg + u) a = Ok (nb, 2 ^ lg + w)" "nb \<le> lg"
    "symb w = a" "nbits w = nb" "base w + (2 ^ lg + u) mod 2 ^ nb = u"
    using step_law [of a u] 3 u(2) by auto
  show ?case using u w by (intro exI [of _ w] exI [of _ "F @ [(2 ^ lg + u, nb)]"]) auto
qed

fun woven :: "nat list \<Rightarrow> nat \<Rightarrow> nat \<Rightarrow> (nat \<times> nat) list \<Rightarrow> bool" where
  "woven [] u v fs \<longleftrightarrow> False"
| "woven [a] u v fs \<longleftrightarrow> False"
| "woven [a, b] u v fs \<longleftrightarrow> u < 2 ^ lg \<and> v < 2 ^ lg \<and> symb u = a \<and> symb v = b
     \<and> start a = Ok (2 ^ lg + u) \<and> start b = Ok (2 ^ lg + v) \<and> fs = []"
| "woven (a # b # c # xs) u v fs \<longleftrightarrow> u < 2 ^ lg \<and> v < 2 ^ lg \<and> symb u = a \<and> symb v = b
     \<and> (case fs of [] \<Rightarrow> False
        | (w, n) # fs' \<Rightarrow> n = nbits u \<and> n \<le> lg \<and> woven (b # c # xs) v (base u + w) fs')"

lemma woven_head:
  "woven xs u v fs \<Longrightarrow> \<exists>a b ys. xs = a # b # ys \<and> symb u = a \<and> symb v = b \<and> u < 2 ^ lg \<and> v < 2 ^ lg"
  by (cases "(xs, u, v, fs)" rule: woven.cases) auto

lemma woven_widths: "woven xs u v fs \<Longrightarrow> widths fs \<le> lg * (length xs - 2)"
proof (induction xs u v fs rule: woven.induct)
  case (4 a b c xs u v fs)
  then obtain w fs' where "fs = (w, nbits u) # fs'" "nbits u \<le> lg" "woven (b # c # xs) v (base u + w) fs'"
    by (auto split: list.splits)
  with 4(1) [of "(w, nbits u)" fs' w "nbits u"] show ?case by simp
qed auto

lemma weave_woven:
  assumes "2 \<le> length xs" and "\<And>x. x \<in> set xs \<Longrightarrow> codable x"
  shows "\<exists>u v F. weave start stp xs = Ok (2 ^ lg + u, 2 ^ lg + v, F) \<and> woven xs u v (read_back F)
    \<and> u < 2 ^ lg \<and> v < 2 ^ lg \<and> (\<forall>(v, n) \<in> set F. n \<le> lg \<and> v < 2 * 2 ^ lg)"
  using assms
proof (induction xs rule: list_induct_three)
  case (3 a b)
  then show ?case using start_law [of a] start_law [of b] by auto
next
  case (4 a b c xs)
  then obtain u v F where u: "weave start stp (b # c # xs) = Ok (2 ^ lg + u, 2 ^ lg + v, F)"
    "woven (b # c # xs) u v (read_back F)" "u < 2 ^ lg" "v < 2 ^ lg"
    "\<forall>(v, n) \<in> set F. n \<le> lg \<and> v < 2 * 2 ^ lg"
    by auto
  obtain w nb where w: "w < 2 ^ lg" "stp (2 ^ lg + v) a = Ok (nb, 2 ^ lg + w)" "nb \<le> lg"
    "symb w = a" "nbits w = nb" "base w + (2 ^ lg + v) mod 2 ^ nb = v"
    using step_law [of a v] 4 u(4) by auto
  show ?case using u w woven_head [OF u(2)]
    by (intro exI [of _ w] exI [of _ u] exI [of _ "F @ [(2 ^ lg + v, nb)]"]) auto
qed auto

end

section \<open>The built tables keep the contract\<close>

definition dt_symb :: "fse_table \<Rightarrow> nat \<Rightarrow> nat" where
  "dt_symb dt u = unat (fe_symbol (ft_entries dt ! u))"

definition dt_nbits :: "fse_table \<Rightarrow> nat \<Rightarrow> nat" where
  "dt_nbits dt u = fe_num_bits (ft_entries dt ! u)"

definition dt_base :: "fse_table \<Rightarrow> nat \<Rightarrow> nat" where
  "dt_base dt u = fe_new_state_base (ft_entries dt ! u)"

definition norm_codable :: "int list \<Rightarrow> nat \<Rightarrow> nat \<Rightarrow> bool" where
  "norm_codable norm ms s \<longleftrightarrow> s \<le> ms \<and> norm ! s \<noteq> 0"

lemma tables_of_norm:
  assumes valid: "valid_norm norm ms lg" and lg: "spread_log lg" "lg \<le> 9"
  obtains syms ct where "spread_spec lg (take (ms + 1) norm) syms" and "norm_counts lg (take (ms + 1) norm)"
    and "build_dtable norm ms lg = Ok (dtable_of lg (take (ms + 1) norm) syms)"
    and "build_ctable norm ms lg = Ok ct" and "ctable_for lg (take (ms + 1) norm) syms ct"
  using build_dtable_Ok [OF assms] build_ctable_Ok [OF assms] valid_norm_counts [OF valid] by metis

lemma fse_pair_dtable_of:
  assumes lg: "spread_log lg" "lg \<le> 9" and cs: "norm_counts lg cs" and spec: "spread_spec lg cs syms"
    and ct: "ctable_for lg cs syms ct"
  defines "dt \<equiv> dtable_of lg cs syms"
  shows "fse_pair lg (dt_symb dt) (dt_nbits dt) (dt_base dt) (init_state2 ct) (ct_step ct)
    (\<lambda>s. s < length cs \<and> cs ! s \<noteq> 0)"
proof
  show "lg \<le> 9" by fact
  fix s
  assume s: "s < length cs \<and> cs ! s \<noteq> 0"
  then have us: "unat (word_of_nat s :: byte) = s" using symbol_share(4) [OF lg(1) cs spec] by simp
  show "\<exists>u. u < 2 ^ lg \<and> init_state2 ct s = Ok (2 ^ lg + u) \<and> dt_symb dt u = s"
    using ct_init_law [OF lg cs spec ct, of s] s us unfolding dt_symb_def dt_def by metis
  fix x :: nat
  assume "x < 2 ^ lg"
  then show "\<exists>u nb. u < 2 ^ lg \<and> ct_step ct (2 ^ lg + x) s = Ok (nb, 2 ^ lg + u) \<and> nb \<le> lg
      \<and> dt_symb dt u = s \<and> dt_nbits dt u = nb \<and> dt_base dt u + (2 ^ lg + x) mod 2 ^ nb = x"
    using ct_step_law [OF lg cs spec ct, of s "2 ^ lg + x"] s us
    unfolding dt_symb_def dt_nbits_def dt_base_def dt_def by auto
qed

lemma start_bits_pos:
  assumes lg: "spread_log lg" "lg \<le> 9" and cs: "norm_counts lg cs" and spec: "spread_spec lg cs syms"
    and ct: "ctable_for lg cs syms ct" and s: "s < length cs" "cs ! s \<noteq> 0" "cs ! s < 2 ^ lg" "0 < lg"
    and u: "init_state2 ct s = Ok (2 ^ lg + u)"
  shows "0 < dt_nbits (dtable_of lg cs syms) u"
proof -
  have "share (cs ! s) < 2 ^ lg"
  proof (cases "cs ! s = - 1")
    case True
    then show ?thesis using s(4) one_less_power [of "2::nat" lg] by (simp add: share_def)
  next
    case False
    then have "0 \<le> cs ! s" using cs s(1) by (auto simp: norm_counts_def dest!: bspec [of _ _ "cs ! s"])
    then show ?thesis using False s(3) by (simp add: share_def nat_less_iff)
  qed
  moreover have "2 ^ highbit32 (share (cs ! s)) \<le> share (cs ! s)"
    using symbol_share(1,2) [OF lg(1) cs spec s(1,2)] power_increasing [of lg 9 "2::nat"] lg(2)
    by (intro highbit32_bounds) simp_all
  ultimately have "(2::nat) ^ highbit32 (share (cs ! s)) < 2 ^ lg" by linarith
  then have "highbit32 (share (cs ! s)) < lg" by simp
  then show ?thesis
    using ct_init_law [OF lg cs spec ct s(1,2)] u by (auto simp: dt_nbits_def)
qed

section \<open>The two-state encoder\<close>

function fse_enc_loop ::
  "fse_ctable \<Rightarrow> byte list \<Rightarrow> bit_writer \<Rightarrow> nat \<Rightarrow> nat \<Rightarrow> nat \<Rightarrow> (bit_writer \<times> nat \<times> nat) result" where
  "fse_enc_loop ct src bw s1 s2 ip =
     (if 0 < ip then
        obind (idx src (ip - 1)) (\<lambda>b.
        obind (encode_symbol ct bw s2 (unat b)) (\<lambda>(bw, s2).
        obind (usub ip 2) (\<lambda>ip.
        obind (idx src ip) (\<lambda>b.
        obind (encode_symbol ct bw s1 (unat b)) (\<lambda>(bw, s1).
        fse_enc_loop ct src bw s1 s2 ip)))))
      else Ok (bw, s1, s2))"
  by pat_completeness auto
termination
  by (relation "measure (\<lambda>(ct, src, bw, s1, s2, ip). ip)") (auto simp: outcome_simps)

declare fse_enc_loop.simps [simp del]

definition fse_encode :: "fse_ctable \<Rightarrow> byte list \<Rightarrow> byte list result" where
  "fse_encode ct src =
     (let n = length src in
      if n \<le> 2 then Panic
      else
      obind
        (if odd n then
           obind (idx src (n - 1)) (\<lambda>b.
           obind (init_state2 ct (unat b)) (\<lambda>s1.
           obind (idx src (n - 2)) (\<lambda>b.
           obind (init_state2 ct (unat b)) (\<lambda>s2.
           obind (idx src (n - 3)) (\<lambda>b.
           obind (encode_symbol ct bw_new s1 (unat b)) (\<lambda>(bw, s1).
           Ok (bw, s1, s2, n - 3)))))))
         else
           obind (idx src (n - 1)) (\<lambda>b.
           obind (init_state2 ct (unat b)) (\<lambda>s2.
           obind (idx src (n - 2)) (\<lambda>b.
           obind (init_state2 ct (unat b)) (\<lambda>s1.
           Ok (bw_new, s1, s2, n - 2))))))
        (\<lambda>(bw, s1, s2, ip).
      obind (fse_enc_loop ct src bw s1 s2 ip) (\<lambda>(bw, s1, s2).
      Ok (bw_finish (flush_state ct (flush_state ct bw s2) s1)))))"

text \<open>The loop weaves: with the symbols from \<open>ip\<close> on encoded, it encodes the two before.\<close>

lemma weave_Cons:
  assumes "2 \<le> length xs"
  shows "weave start stp (a # xs) =
     obind (weave start stp xs) (\<lambda>(Y, X, F). obind (stp X a) (\<lambda>(nb, X'). Ok (X', Y, F @ [(X, nb)])))"
proof -
  from assms obtain b c ys where "xs = b # c # ys"
    by (metis Suc_le_length_iff numeral_2_eq_2)
  then show ?thesis by simp
qed

lemma add_all_snoc: "add_all ad w (F @ [(v, n)]) = ad (add_all ad w F) v n"
  by (simp add: add_all_append)

lemma weave_suffix:
  assumes "weave start stp (map unat (src :: byte list)) = Ok r" and "k + 2 \<le> length src"
  shows "\<exists>r. weave start stp (map unat (drop k src)) = Ok r"
  using assms(2)
proof (induction k)
  case 0
  then show ?case using assms(1) by (metis drop_0)
next
  case (Suc k)
  then have "drop k src = src ! k # drop (Suc k) src" by (simp add: Cons_nth_drop_Suc)
  with Suc show ?case by (auto simp: weave_Cons outcome_simps)
qed

lemma fse_enc_loop_weave:
  assumes "even ip" and "ip + 2 \<le> length src"
    and "weave (init_state2 ct) (ct_step ct) (map unat (drop ip src)) = Ok (s1, s2, F)"
    and "weave (init_state2 ct) (ct_step ct) (map unat src) = Ok (X, Y, G)"
  shows "fse_enc_loop ct src (add_all bw_add bw_new F) s1 s2 ip = Ok (add_all bw_add bw_new G, X, Y)"
  using assms
proof (induction ip arbitrary: s1 s2 F rule: less_induct)
  case (less ip)
  let ?st = "init_state2 ct" and ?sp = "ct_step ct"
  show ?case
  proof (cases "ip = 0")
    case True
    then show ?thesis using less.prems by (simp add: fse_enc_loop.simps)
  next
    case False
    then obtain j where j: "ip = j + 2" using less.prems(1) by (metis even_Suc evenE add_2_eq_Suc' gr0_implies_Suc neq0_conv odd_pos nat.exhaust)
    have d1: "drop (j + 1) src = src ! (j + 1) # drop ip src" and d0: "drop j src = src ! j # drop (j + 1) src"
      using less.prems(2) j by (simp_all add: Cons_nth_drop_Suc)
    note suffix = weave_suffix [OF less.prems(4)]
    obtain A B F0 where w0: "weave ?st ?sp (map unat (drop j src)) = Ok (A, B, F0)"
      using suffix [of j] less.prems(2) j by auto
    have l1: "2 \<le> length (map unat (drop ip src))" "2 \<le> length (map unat (drop (j + 1) src))"
      using less.prems(2) j by simp_all
    have w1: "weave ?st ?sp (map unat (drop (j + 1) src))
        = obind (?sp s2 (unat (src ! (j + 1)))) (\<lambda>(nb, X'). Ok (X', s1, F @ [(s2, nb)]))"
      unfolding d1 list.map weave_Cons [OF l1(1)] less.prems(3) by simp
    obtain nb2 s2' where e2: "?sp s2 (unat (src ! (j + 1))) = Ok (nb2, s2')"
      and w1': "weave ?st ?sp (map unat (drop (j + 1) src)) = Ok (s2', s1, F @ [(s2, nb2)])"
      using suffix [of "j + 1"] less.prems(2) j w1 by (cases "?sp s2 (unat (src ! (j + 1)))") auto
    have w0': "weave ?st ?sp (map unat (drop j src))
        = obind (?sp s1 (unat (src ! j))) (\<lambda>(nb, X'). Ok (X', s2', (F @ [(s2, nb2)]) @ [(s1, nb)]))"
      unfolding d0 list.map weave_Cons [OF l1(2)] w1' by simp
    obtain nb1 s1' where e1: "?sp s1 (unat (src ! j)) = Ok (nb1, s1')"
      and w0'': "weave ?st ?sp (map unat (drop j src)) = Ok (s1', s2', (F @ [(s2, nb2)]) @ [(s1, nb1)])"
      using w0 w0' by (cases "?sp s1 (unat (src ! j))") auto
    have "even j" "j + 2 \<le> length src" "j < ip" using less.prems(1,2) j by simp_all
    from less.IH [OF this(3,1,2) w0'' less.prems(4)]
    show ?thesis using less.prems(2) j e1 e2
      by (subst fse_enc_loop.simps) (simp add: encode_symbol_def add_all_snoc add_all_append)
  qed
qed

section \<open>Decoding the two states\<close>

text \<open>A reader right after a reload, with the fields \<open>fs\<close> left.\<close>

definition reloaded :: "reverse_reader \<Rightarrow> (nat \<times> nat) list \<Rightarrow> bool" where
  "reloaded r fs \<longleftrightarrow> rbr_holds r fs
     \<and> (\<forall>n. n \<le> widths fs \<longrightarrow> n \<le> 57 \<longrightarrow> rbits r + n \<le> 64) \<and> (widths fs = 0 \<longrightarrow> rbits r = 64)"

lemma reload_reloaded:
  assumes "rbr_holds r fs"
  shows "\<exists>st r'. rbr_reload r = (st, r') \<and> reloaded r' fs \<and> st \<noteq> Overflow
    \<and> (st = Unfinished \<longrightarrow> 57 \<le> widths fs \<and> rbits r' < 8)"
  using rbr_holds_reload [OF assms] unfolding reloaded_def by (elim exE conjE) (intro exI conjI)

locale fse_stream =
  fixes lg :: nat and cs :: "int list" and syms :: "byte list" and ct :: fse_ctable
  assumes log: "spread_log lg" "lg \<le> 9" and pos: "0 < lg" and counts: "norm_counts lg cs"
    and spread: "spread_spec lg cs syms" and table: "ctable_for lg cs syms ct"
begin

definition dt :: fse_table where
  "dt = dtable_of lg cs syms"

definition coded :: "nat \<Rightarrow> bool" where
  "coded s \<longleftrightarrow> s < length cs \<and> cs ! s \<noteq> 0"

sublocale fse_pair lg "dt_symb dt" "dt_nbits dt" "dt_base dt" "init_state2 ct" "ct_step ct" coded
  using fse_pair_dtable_of [OF log counts spread table] unfolding dt_def coded_def .

lemma dt_ok: "fse_table_ok dt" "ft_log dt = lg"
  using dtable_of_ok [OF log counts spread] by (simp_all add: dt_def dtable_of_def)

lemma symbol_at: "u < 2 ^ lg \<Longrightarrow> fse_symbol dt u = word_of_nat (dt_symb dt u)"
  using fse_entry_at_state [OF dt_ok(1)] dt_ok(2) by (simp add: fse_symbol_def dt_symb_def)

lemma update_read:
  assumes "u < 2 ^ lg" and "reloaded r ((w, dt_nbits dt u) # fs)" and "dt_nbits dt u \<le> lg"
  shows "\<exists>r'. fse_update dt u r = (dt_base dt u + w, r') \<and> rbr_holds r' fs \<and> rbits r' = rbits r + dt_nbits dt u"
proof -
  have "rbits r + dt_nbits dt u \<le> 64" using assms(2,3) log(2) by (simp add: reloaded_def)
  moreover have "rbr_holds r ((w, dt_nbits dt u) # fs)" using assms(2) by (simp add: reloaded_def)
  ultimately obtain r' where "rbr_read r (dt_nbits dt u) = (w, r')" "rbr_holds r' fs" "rbits r' = rbits r + dt_nbits dt u"
    using rbr_holds_read [of r w "dt_nbits dt u" fs] assms(3) log(2) by auto
  then show ?thesis
    using fse_entry_at_state [OF dt_ok(1), of u] assms(1) dt_ok(2)
    by (simp add: fse_update_def fse_update_with_entry_def dt_nbits_def dt_base_def)
qed

lemma update_end:
  assumes "u < 2 ^ lg" and "rbits r = 64" and "0 < dt_nbits dt u"
  shows "\<exists>v r'. fse_update dt u r = (v, r') \<and> fst (rbr_reload r') = Overflow"
  using rbr_read_overflow [OF assms(2,3)] fse_entry_at_state [OF dt_ok(1), of u] assms(1) dt_ok(2)
  by (cases "rbr_read r (dt_nbits dt u)")
    (auto simp: fse_update_def fse_update_with_entry_def dt_nbits_def)

lemma tail_reads:
  assumes "woven xs u v fs" and "reloaded r fs" and "length out + length xs \<le> max_out"
    and "\<And>s. s \<in> set xs \<Longrightarrow> coded s \<and> cs ! s < 2 ^ lg"
  shows "fse_tail dt max_out u v r out = Ok (out @ map word_of_nat xs)"
  using assms
proof (induction "length xs" arbitrary: xs u v fs r out rule: less_induct)
  case less
  note last = start_bits_pos [OF log counts spread table _ _ _ pos]
  obtain a b ys where xs: "xs = a # b # ys" and uv: "dt_symb dt u = a" "dt_symb dt v = b" "u < 2 ^ lg" "v < 2 ^ lg"
    using woven_head [OF less.prems(1)] by blast
  note sym = symbol_at [OF uv(3)] symbol_at [OF uv(4)]
  show ?case
  proof (cases ys)
    case Nil
    then have "init_state2 ct a = Ok (2 ^ lg + u)" "fs = []" using less.prems(1) xs by simp_all
    then have "0 < dt_nbits dt u" "rbits r = 64"
      using last [of a u] less.prems(2,4) xs by (auto simp: dt_def coded_def reloaded_def)
    then obtain u' r' where "fse_update dt u r = (u', r')" "fst (rbr_reload r') = Overflow"
      using update_end uv(3) by blast
    then show ?thesis
      using xs Nil uv sym less.prems(3)
      by (subst fse_tail.simps) (cases "rbr_reload r'", simp add: fse_emit_def Let_def)
  next
    case (Cons c zs)
    then obtain w fs' where fs: "fs = (w, dt_nbits dt u) # fs'" "dt_nbits dt u \<le> lg"
      and next1: "woven (b # c # zs) v (dt_base dt u + w) fs'"
      using less.prems(1) xs by (auto split: list.splits)
    define u' where "u' = dt_base dt u + w"
    have u': "woven (b # c # zs) v u' fs'" "u' < 2 ^ lg" "dt_symb dt u' = c"
      using next1 woven_head [OF next1] by (auto simp: u'_def)
    obtain r1 where r1: "fse_update dt u r = (u', r1)" "rbr_holds r1 fs'"
      using update_read [OF uv(3) less.prems(2) [unfolded fs(1)] fs(2)] by (auto simp: u'_def)
    obtain st2 r2 where r2: "rbr_reload r1 = (st2, r2)" "reloaded r2 fs'" "st2 \<noteq> Overflow"
      using reload_reloaded [OF r1(2)] by metis
    show ?thesis
    proof (cases zs)
      case Nil
      then have "init_state2 ct b = Ok (2 ^ lg + v)" "fs' = []" using u'(1) by simp_all
      then have "0 < dt_nbits dt v" "rbits r2 = 64"
        using last [of b v] less.prems(4) r2(2) xs by (auto simp: dt_def coded_def reloaded_def)
      then obtain v' r3 where "fse_update dt v r2 = (v', r3)" "fst (rbr_reload r3) = Overflow"
        using update_end uv(4) by blast
      then show ?thesis
        using xs Cons Nil uv sym symbol_at [OF u'(2)] u'(3) r1(1) r2 less.prems(3)
        by (subst fse_tail.simps) (cases "rbr_reload r3", simp add: fse_emit_def Let_def)
    next
      case (Cons d ws)
      then obtain x fs'' where fs': "fs' = (x, dt_nbits dt v) # fs''" "dt_nbits dt v \<le> lg"
        and next2: "woven (c # d # ws) u' (dt_base dt v + x) fs''"
        using u'(1) by (auto split: list.splits)
      obtain r3 where r3: "fse_update dt v r2 = (dt_base dt v + x, r3)" "rbr_holds r3 fs''"
        using update_read [OF uv(4) r2(2) [unfolded fs'(1)] fs'(2)] by blast
      obtain st4 r4 where r4: "rbr_reload r3 = (st4, r4)" "reloaded r4 fs''" "st4 \<noteq> Overflow"
        using reload_reloaded [OF r3(2)] by metis
      have "fse_tail dt max_out u' (dt_base dt v + x) r4 (out @ [word_of_nat a, word_of_nat b])
          = Ok ((out @ [word_of_nat a, word_of_nat b]) @ map word_of_nat (c # d # ws))"
        using less.prems(3,4) xs \<open>ys = c # zs\<close> Cons
        by (intro less.hyps [OF _ next2 r4(2)]) auto
      then show ?thesis
        using xs \<open>ys = c # zs\<close> Cons uv sym r1(1) r2 r3(1) r4 less.prems(3)
        by (subst fse_tail.simps) (simp add: fse_emit_def Let_def)
    qed
  qed
qed

lemma main_reads:
  assumes "woven xs u v fs" and "rbr_holds r fs" and "length out + length xs \<le> max_out"
  shows "\<exists>u' v' r' ys zs fs'. fse_main dt max_out u v r out = (u', v', r', out @ map word_of_nat ys)
    \<and> xs = ys @ zs \<and> woven zs u' v' fs' \<and> reloaded r' fs'"
  using assms
proof (induction "length xs" arbitrary: xs u v fs r out rule: less_induct)
  case less
  obtain st r0 where r0: "rbr_reload r = (st, r0)" "reloaded r0 fs" "st = Unfinished \<longrightarrow> 57 \<le> widths fs \<and> rbits r0 < 8"
    using reload_reloaded [OF less.prems(2)] by metis
  show ?case
  proof (cases "st = Unfinished")
    case False
    then show ?thesis using r0 less.prems(1)
      by (subst fse_main.simps) (auto intro!: exI [of _ "[]"] exI [of _ fs])
  next
    case True
    have "57 \<le> lg * (length xs - 2)" using r0(3) [rule_format, OF True] woven_widths [OF less.prems(1)] by simp
    also have "\<dots> \<le> 9 * (length xs - 2)" using log(2) by (rule mult_le_mono1)
    finally have "4 \<le> length xs" by simp
    then obtain a b c d ys where xs: "xs = a # b # c # d # ys"
      by (auto simp: numeral_eq_Suc Suc_le_length_iff)
    have uv: "dt_symb dt u = a" "dt_symb dt v = b" "u < 2 ^ lg" "v < 2 ^ lg"
      using woven_head [OF less.prems(1)] xs by auto
    obtain w x fs2 where fs: "fs = (w, dt_nbits dt u) # (x, dt_nbits dt v) # fs2"
      "dt_nbits dt u \<le> lg" "dt_nbits dt v \<le> lg"
      and next2: "woven (c # d # ys) (dt_base dt u + w) (dt_base dt v + x) fs2"
      using less.prems(1) xs by (auto split: list.splits)
    obtain r1 where r1: "fse_update dt u r0 = (dt_base dt u + w, r1)"
      "rbr_holds r1 ((x, dt_nbits dt v) # fs2)" "rbits r1 = rbits r0 + dt_nbits dt u"
      using update_read [OF uv(3) r0(2) [unfolded fs(1)] fs(2)] by blast
    have "rbits r1 + dt_nbits dt v \<le> 64" using r1(3) r0(3) [rule_format, OF True] fs(2,3) log(2) by simp
    then obtain r2 where "rbr_read r1 (dt_nbits dt v) = (x, r2)" "rbr_holds r2 fs2"
      using rbr_holds_read [OF r1(2)] fs(3) log(2) by auto
    then have r2: "fse_update dt v r1 = (dt_base dt v + x, r2)" "rbr_holds r2 fs2"
      using fse_entry_at_state [OF dt_ok(1), of v] uv(4) dt_ok(2)
      by (simp_all add: fse_update_def fse_update_with_entry_def dt_nbits_def dt_base_def)
    have "length (out @ [word_of_nat a, word_of_nat b]) + length (c # d # ys) \<le> max_out"
      using less.prems(3) xs by simp
    from less.hyps [OF _ next2 r2(2) this] xs obtain u' v' r' ys' zs fs' where
      IH: "fse_main dt max_out (dt_base dt u + w) (dt_base dt v + x) r2 (out @ [word_of_nat a, word_of_nat b])
        = (u', v', r', (out @ [word_of_nat a, word_of_nat b]) @ map word_of_nat ys')"
      "c # d # ys = ys' @ zs" "woven zs u' v' fs'" "reloaded r' fs'"
      by auto
    then have "fse_main dt max_out u v r out = (u', v', r', out @ map word_of_nat (a # b # ys'))"
      using True r0(1) r1(1) r2(1) uv symbol_at [OF uv(3)] symbol_at [OF uv(4)] less.prems(3) xs
      by (subst fse_main.simps) (simp add: Let_def)
    with IH xs show ?thesis
      by (intro exI [of _ u'] exI [of _ v'] exI [of _ r'] exI [of _ "a # b # ys'"] exI [of _ zs] exI [of _ fs']) simp
  qed
qed

lemma encode_weave:
  assumes n: "2 < length src"
    and w: "weave (init_state2 ct) (ct_step ct) (map unat src) = Ok (X, Y, G)"
  shows "fse_encode ct src = Ok (bw_finish (add_all bw_add bw_new (G @ [(Y, lg), (X, lg)])))"
proof -
  let ?st = "init_state2 ct" and ?sp = "ct_step ct" and ?n = "length src"
  have log: "ct_log ct = lg" using table by (simp add: ctable_for_def)
  have d2: "drop (?n - 2) src = [src ! (?n - 2), src ! (?n - 1)]"
    using n Cons_nth_drop_Suc [of "?n - 2" src] Cons_nth_drop_Suc [of "?n - 1" src]
    by (simp add: Suc_diff_Suc numeral_2_eq_2)
  obtain r where "weave ?st ?sp (map unat (drop (?n - 2) src)) = Ok r"
    using weave_suffix [OF w, of "?n - 2"] n by fastforce
  then obtain A B where init: "?st (unat (src ! (?n - 2))) = Ok A" "?st (unat (src ! (?n - 1))) = Ok B"
    and w2: "weave ?st ?sp (map unat (drop (?n - 2) src)) = Ok (A, B, [])"
    unfolding d2 by (auto simp: outcome_simps)
  show ?thesis
  proof (cases "odd ?n")
    case False
    then have "even (?n - 2)" "?n - 2 + 2 \<le> ?n" using n by simp_all
    from fse_enc_loop_weave [OF this w2 w] False n init
    show ?thesis by (simp add: fse_encode_def Let_def flush_state_def log add_all_append)
  next
    case True
    have d3: "drop (?n - 3) src = src ! (?n - 3) # drop (?n - 2) src"
      using n Cons_nth_drop_Suc [of "?n - 3" src] by (simp add: Suc_diff_Suc numeral_3_eq_3 numeral_2_eq_2)
    obtain r where "weave ?st ?sp (map unat (drop (?n - 3) src)) = Ok r"
      using weave_suffix [OF w, of "?n - 3"] n by fastforce
    then obtain nb B' where step: "?sp B (unat (src ! (?n - 3))) = Ok (nb, B')"
      and w3: "weave ?st ?sp (map unat (drop (?n - 3) src)) = Ok (B', A, [(B, nb)])"
      unfolding d3 using w2 n by (auto simp: weave_Cons outcome_simps)
    have "even (?n - 3)" "?n - 3 + 2 \<le> ?n" using n True by auto
    from fse_enc_loop_weave [OF this w3 w] True n init step
    show ?thesis by (simp add: fse_encode_def Let_def flush_state_def log add_all_append encode_symbol_def)
  qed
qed

lemma open_reads:
  assumes "rbr_new bs = Ok r" and "rbr_holds r ((v, n) # (w, m) # fs)" and "n \<le> 9" and "m \<le> 9"
  shows "\<exists>r1 r2. rbr_read r n = (v, r1) \<and> rbr_read r1 m = (w, r2) \<and> rbr_holds r2 fs"
proof -
  have "rbits r \<le> 8 \<or> rptr r = 0"
    using assms(1) by (auto simp: rbr_new_def Let_def outcome_simps split: if_splits)
  moreover have "8 * rptr r + 64 - rbits r = n + m + widths fs" "rbits r \<le> 64"
    using assms(2) by (simp_all add: rbr_holds_def rpos_def rbr_ok_def)
  ultimately have fit: "rbits r + n + m \<le> 64" using assms(3,4) by linarith
  obtain r1 where r1: "rbr_read r n = (v, r1)" "rbr_holds r1 ((w, m) # fs)" "rbits r1 = rbits r + n"
    using rbr_holds_read [OF assms(2)] fit assms(3) by auto
  obtain r2 where "rbr_read r1 m = (w, r2)" "rbr_holds r2 fs"
    using rbr_holds_read [OF r1(2)] fit r1(3) assms(4) by auto
  with r1 show ?thesis by blast
qed

lemma stream_roundtrip:
  assumes n: "2 < length src" "length src \<le> max_out"
    and src: "\<And>b. b \<in> set src \<Longrightarrow> coded (unat b) \<and> cs ! unat b < 2 ^ lg"
  shows "\<exists>bytes. fse_encode ct src = Ok bytes \<and> fse_decompress bytes dt max_out = Ok src"
proof -
  have "coded x" if "x \<in> set (map unat src)" for x using that src by auto
  then obtain u v F where w: "weave (init_state2 ct) (ct_step ct) (map unat src) = Ok (2 ^ lg + u, 2 ^ lg + v, F)"
    "woven (map unat src) u v (read_back F)" "u < 2 ^ lg" "v < 2 ^ lg" "\<forall>(v, n) \<in> set F. n \<le> lg \<and> v < 2 * 2 ^ lg"
    using weave_woven [of "map unat src"] n by auto
  define G where "G = F @ [(2 ^ lg + v, lg), (2 ^ lg + u, lg)]"
  define bytes where "bytes = bw_finish (add_all bw_add bw_new G)"
  have enc: "fse_encode ct src = Ok bytes"
    unfolding bytes_def G_def by (rule encode_weave [OF n(1) w(1)])
  have pow: "(2::nat) ^ lg \<le> 512" using power_increasing [of lg 9 "2::nat"] log(2) by simp
  have "n \<le> 32 \<and> x < 2 ^ 32" if "(x, n) \<in> set G" for x n
    using that w(3-5) pow log(2) by (auto simp: G_def)
  from rbr_holds_open [OF this] obtain r where r: "rbr_new bytes = Ok r"
    "rbr_holds r (read_back G)"
    by (auto simp: bytes_def read_back_def)
  have "read_back G = (u, lg) # (v, lg) # read_back F"
    using w(3,4) by (simp add: G_def read_back_def)
  then obtain r1 r2 where r2: "rbr_read r lg = (u, r1)" "rbr_read r1 lg = (v, r2)" "rbr_holds r2 (read_back F)"
    using open_reads [OF r(1)] r(2) log(2) by metis
  obtain u' v' r' ys zs fs' where main: "fse_main dt max_out u v r2 [] = (u', v', r', map word_of_nat ys)"
    "map unat src = ys @ zs" "woven zs u' v' fs'" "reloaded r' fs'"
    using main_reads [OF w(2) r2(3), of "[]" max_out] n(2) by auto
  have len: "length ys + length zs = length src" using arg_cong [OF main(2), of length] by simp
  have "coded x \<and> cs ! x < 2 ^ lg" if "x \<in> set zs" for x
  proof -
    have "x \<in> set (map unat src)" using that main(2) by simp
    then show ?thesis using src by auto
  qed
  then have "fse_tail dt max_out u' v' r' (map word_of_nat ys) = Ok (map word_of_nat ys @ map word_of_nat zs)"
    using tail_reads [OF main(3,4), of "map word_of_nat ys" max_out] len n(2) by simp
  also have "map word_of_nat ys @ map word_of_nat zs = map (word_of_nat \<circ> unat) src"
    using arg_cong [OF main(2) [symmetric], of "map word_of_nat"] by (simp only: map_append map_map)
  also have "\<dots> = src" by (simp add: comp_def)
  finally have "fse_decompress bytes dt max_out = Ok src"
    using r(1) r2(1,2) main(1) dt_ok(2) by (simp add: fse_decompress_def fse_init_def)
  with enc show ?thesis by blast
qed

end

text \<open>Every valid distribution gives an instance: the symbols of the states are read off the
  decode table.\<close>

definition table_syms :: "fse_table \<Rightarrow> byte list" where
  "table_syms t = map (\<lambda>u. fe_symbol (ft_entries t ! u)) [0..<2 ^ ft_log t]"

lemma table_syms_dtable_of: "length syms = 2 ^ lg \<Longrightarrow> table_syms (dtable_of lg cs syms) = syms"
  by (rule nth_equalityI)
    (simp_all add: table_syms_def dtable_of_def nth_append entry_of_def Let_def)

lemma fse_stream_tables:
  assumes valid: "valid_norm norm ms lg" and lg: "4 \<le> lg" "lg \<le> 9"
  shows "fse_stream lg (take (ms + 1) norm) (table_syms (the_ok (build_dtable norm ms lg)))
    (the_ok (build_ctable norm ms lg))"
    and "fse_stream.dt lg (take (ms + 1) norm) (table_syms (the_ok (build_dtable norm ms lg)))
      = the_ok (build_dtable norm ms lg)"
proof -
  have sl: "spread_log lg" using lg by (simp add: spread_log_def)
  obtain syms ct where t: "spread_spec lg (take (ms + 1) norm) syms" "norm_counts lg (take (ms + 1) norm)"
    "build_dtable norm ms lg = Ok (dtable_of lg (take (ms + 1) norm) syms)"
    "build_ctable norm ms lg = Ok ct" "ctable_for lg (take (ms + 1) norm) syms ct"
    using tables_of_norm [OF valid sl lg(2)] by metis
  have "length syms = 2 ^ lg" using t(1) by (simp add: spread_spec_def Let_def)
  then have syms: "table_syms (the_ok (build_dtable norm ms lg)) = syms"
    using t(3) by (simp add: table_syms_dtable_of)
  show loc: "fse_stream lg (take (ms + 1) norm) (table_syms (the_ok (build_dtable norm ms lg)))
    (the_ok (build_ctable norm ms lg))"
    unfolding syms using sl lg t by unfold_locales auto
  show "fse_stream.dt lg (take (ms + 1) norm) (table_syms (the_ok (build_dtable norm ms lg)))
      = the_ok (build_dtable norm ms lg)"
    using syms t(3) by (subst fse_stream.dt_def [OF loc]) simp
qed

text \<open>The round trip for every distribution the format allows.\<close>

lemma fse_roundtrip:
  assumes valid: "valid_norm norm ms lg" and lg: "4 \<le> lg" "lg \<le> 9"
    and tables: "build_dtable norm ms lg = Ok dt" "build_ctable norm ms lg = Ok ct"
    and n: "2 < length src" "length src \<le> max_out"
    and src: "\<And>b. b \<in> set src \<Longrightarrow> unat b \<le> ms \<and> norm ! unat b \<noteq> 0 \<and> norm ! unat b < 2 ^ lg"
  shows "\<exists>bytes. fse_encode ct src = Ok bytes \<and> fse_decompress bytes dt max_out = Ok src"
proof -
  note loc = fse_stream_tables(1) [OF valid lg] and dt = fse_stream_tables(2) [OF valid lg]
  have len: "length (take (ms + 1) norm) = ms + 1" using valid by (simp add: valid_norm_def)
  have "fse_stream.coded (take (ms + 1) norm) (unat b) \<and> take (ms + 1) norm ! unat b < 2 ^ lg"
    if "b \<in> set src" for b
    using src [OF that] len unfolding fse_stream.coded_def [OF loc] by simp
  from fse_stream.stream_roundtrip [OF loc n this] show ?thesis
    using tables unfolding dt by simp
qed

section \<open>Properties\<close>

text \<open>C12: the two-state FSE round trip. For every normalized distribution both tables are built, and
  every byte string of more than two symbols of the distribution, none of which fills the whole
  table, is encoded without a panic and decoded back to exactly itself.\<close>

theorem fse_stream_roundtrip:
  assumes "valid_norm norm ms lg" and "4 \<le> lg" and "lg \<le> 9"
    and "2 < length src" and "length src \<le> max_out"
    and "\<forall>b \<in> set src. unat b \<le> ms \<and> norm ! unat b \<noteq> 0 \<and> norm ! unat b < 2 ^ lg"
  shows "\<exists>dt ct bytes. build_dtable norm ms lg = Ok dt \<and> build_ctable norm ms lg = Ok ct
    \<and> fse_encode ct src = Ok bytes \<and> fse_decompress bytes dt max_out = Ok src"
proof -
  have "spread_log lg" using assms(2) by (simp add: spread_log_def)
  then obtain dt ct where "build_dtable norm ms lg = Ok dt" "build_ctable norm ms lg = Ok ct"
    using tables_of_norm [OF assms(1) _ assms(3)] by metis
  with fse_roundtrip [OF assms(1-3) this assms(4,5)] assms(6) show ?thesis by blast
qed

theorem fse_stream_roundtrip_witness:
  "\<exists>dt ct bytes. build_dtable [4, 3, 2, 2, 2, 2, - 1] 6 4 = Ok dt
    \<and> build_ctable [4, 3, 2, 2, 2, 2, - 1] 6 4 = Ok ct
    \<and> fse_encode ct [0, 6, 1, 0, 5] = Ok bytes \<and> fse_decompress bytes dt 5 = Ok [0, 6, 1, 0, 5]"
  by (rule fse_stream_roundtrip [OF norm_example]) simp_all

end
