(* ===== verification/Xxhash.thy ===== *)
theory Xxhash
  imports Bytes
begin

text \<open>
  \<^verbatim>\<open>src/xxhash.rs\<close>: XXH64, in one call and as a stream. The loops of the code walk an index; here
  they walk the rest of the data. The contract of a streaming hash is the locale
  \<open>streaming_hash\<close>: whatever the chunk boundaries, the digest is the hash of the concatenation.
\<close>

unbundle bit_operations_syntax

section \<open>The rounds\<close>

definition PRIME64_1 :: u64 where "PRIME64_1 = 0x9E3779B185EBCA87"
definition PRIME64_2 :: u64 where "PRIME64_2 = 0xC2B2AE3D27D4EB4F"
definition PRIME64_3 :: u64 where "PRIME64_3 = 0x165667B19E3779F9"
definition PRIME64_4 :: u64 where "PRIME64_4 = 0x85EBCA77C2B2AE63"
definition PRIME64_5 :: u64 where "PRIME64_5 = 0x27D4EB2F165667C5"

definition xx_round :: "u64 \<Rightarrow> u64 \<Rightarrow> u64" where
  "xx_round acc input = word_rotl 31 (acc + input * PRIME64_2) * PRIME64_1"

definition merge_round :: "u64 \<Rightarrow> u64 \<Rightarrow> u64" where
  "merge_round acc val = (acc XOR xx_round 0 val) * PRIME64_1 + PRIME64_4"

definition avalanche :: "u64 \<Rightarrow> u64" where
  "avalanche h =
     (let h = h XOR drop_bit 33 h;
          h = h * PRIME64_2;
          h = h XOR drop_bit 29 h;
          h = h * PRIME64_3 in
      h XOR drop_bit 32 h)"

definition xx_read_u64 :: "byte list \<Rightarrow> nat \<Rightarrow> u64" where
  "xx_read_u64 d i = from_le_bytes (take 8 (drop i d))"

definition xx_read_u32 :: "byte list \<Rightarrow> nat \<Rightarrow> u32" where
  "xx_read_u32 d i = from_le_bytes (take 4 (drop i d))"

text \<open>One stripe of 32 bytes into the four lanes.\<close>

definition xx_stripe :: "u64 list \<Rightarrow> byte list \<Rightarrow> u64 list" where
  "xx_stripe v d = map (\<lambda>k. xx_round (v ! k) (xx_read_u64 d (k * 8))) [0..<4]"

function xx_stripes :: "u64 list \<Rightarrow> byte list \<Rightarrow> u64 list \<times> byte list" where
  "xx_stripes v d = (if 32 \<le> length d then xx_stripes (xx_stripe v d) (drop 32 d) else (v, d))"
  by pat_completeness auto
termination
  by (relation "measure (\<lambda>(v, d). length d)") auto

declare xx_stripes.simps [simp del]

definition xx_lanes :: "u64 \<Rightarrow> u64 list" where
  "xx_lanes seed = [seed + PRIME64_1 + PRIME64_2, seed + PRIME64_2, seed, seed - PRIME64_1]"

definition xx_converge :: "u64 list \<Rightarrow> u64" where
  "xx_converge v =
     (let h = word_rotl 1 (v ! 0) + word_rotl 7 (v ! 1) + word_rotl 12 (v ! 2) + word_rotl 18 (v ! 3);
          h = merge_round h (v ! 0);
          h = merge_round h (v ! 1);
          h = merge_round h (v ! 2) in
      merge_round h (v ! 3))"

function xx_tail8 :: "u64 \<Rightarrow> byte list \<Rightarrow> u64 \<times> byte list" where
  "xx_tail8 h d =
     (if 8 \<le> length d then
        xx_tail8 (word_rotl 27 (h XOR xx_round 0 (xx_read_u64 d 0)) * PRIME64_1 + PRIME64_4) (drop 8 d)
      else (h, d))"
  by pat_completeness auto
termination
  by (relation "measure (\<lambda>(h, d). length d)") auto

declare xx_tail8.simps [simp del]

definition xx_tail4 :: "u64 \<Rightarrow> byte list \<Rightarrow> u64 \<times> byte list" where
  "xx_tail4 h d =
     (if 4 \<le> length d then
        (word_rotl 23 (h XOR ucast (xx_read_u32 d 0) * PRIME64_1) * PRIME64_2 + PRIME64_3, drop 4 d)
      else (h, d))"

fun xx_tail1 :: "u64 \<Rightarrow> byte list \<Rightarrow> u64" where
  "xx_tail1 h [] = h"
| "xx_tail1 h (b # d) = xx_tail1 (word_rotl 11 (h XOR ucast b * PRIME64_5) * PRIME64_1) d"

definition xx_finish :: "u64 \<Rightarrow> byte list \<Rightarrow> u64" where
  "xx_finish h d =
     (let (h, d) = xx_tail8 h d;
          (h, d) = xx_tail4 h d in
      avalanche (xx_tail1 h d))"

section \<open>One call\<close>

definition xxh64 :: "byte list \<Rightarrow> u64 \<Rightarrow> u64" where
  "xxh64 data seed =
     (let (h, rest) =
        (if 32 \<le> length data then
           let (v, rest) = xx_stripes (xx_lanes seed) data in (xx_converge v, rest)
         else (seed + PRIME64_5, data)) in
      xx_finish (h + word_of_nat (length data)) rest)"

section \<open>The stream\<close>

record xxh64_state =
  xx_total_len :: u64
  xx_v :: "u64 list"
  xx_mem :: "byte list"
  xx_memsize :: nat
  xx_seed :: u64

definition xxh64_new :: "u64 \<Rightarrow> xxh64_state" where
  "xxh64_new seed = \<lparr>xx_total_len = 0, xx_v = xx_lanes seed, xx_mem = replicate 32 0,
     xx_memsize = 0, xx_seed = seed\<rparr>"

text \<open>\<open>mem[at..at + len].copy_from_slice(src)\<close>\<close>

definition blit :: "byte list \<Rightarrow> nat \<Rightarrow> byte list \<Rightarrow> byte list" where
  "blit mem at src = take at mem @ src @ drop (at + length src) mem"

definition xxh64_update :: "xxh64_state \<Rightarrow> byte list \<Rightarrow> xxh64_state" where
  "xxh64_update st input =
     (let st = st\<lparr>xx_total_len := xx_total_len st + word_of_nat (length input)\<rparr> in
      if xx_memsize st + length input < 32 then
        st\<lparr>xx_mem := blit (xx_mem st) (xx_memsize st) input, xx_memsize := xx_memsize st + length input\<rparr>
      else
        let (st, input) =
          (if 0 < xx_memsize st then
             let need = 32 - xx_memsize st;
                 mem = blit (xx_mem st) (xx_memsize st) (take need input) in
             (st\<lparr>xx_mem := mem, xx_v := xx_stripe (xx_v st) mem, xx_memsize := 0\<rparr>, drop need input)
           else (st, input));
            (v, input) = xx_stripes (xx_v st) input;
            st = st\<lparr>xx_v := v\<rparr> in
        if input \<noteq> [] then st\<lparr>xx_mem := blit (xx_mem st) 0 input, xx_memsize := length input\<rparr>
        else st)"

definition xxh64_digest :: "xxh64_state \<Rightarrow> u64" where
  "xxh64_digest st =
     (let h = (if 32 \<le> unat (xx_total_len st) then xx_converge (xx_v st) else xx_seed st + PRIME64_5) in
      xx_finish (h + xx_total_len st) (take (xx_memsize st) (xx_mem st)))"

section \<open>The stream is the one call\<close>

lemma xx_stripe_append: "32 \<le> length d \<Longrightarrow> xx_stripe v (d @ e) = xx_stripe v d"
  by (auto simp: xx_stripe_def xx_read_u64_def)

lemma xx_stripe_take: "32 \<le> length d \<Longrightarrow> xx_stripe v (take 32 d) = xx_stripe v d"
  using xx_stripe_append [of "take 32 d" v "drop 32 d"] by simp

lemma xx_stripes_append:
  "xx_stripes v d = (w, r) \<Longrightarrow> xx_stripes v (d @ x) = xx_stripes w (r @ x)"
proof (induction v d rule: xx_stripes.induct)
  case (1 v d)
  show ?case
  proof (cases "32 \<le> length d")
    case True
    have "xx_stripes v (d @ x) = xx_stripes (xx_stripe v (d @ x)) (drop 32 d @ x)"
      using True by (subst xx_stripes.simps) simp
    moreover have "xx_stripe v (d @ x) = xx_stripe v d"
      by (rule xx_stripe_append [OF True])
    moreover have "xx_stripes (xx_stripe v d) (drop 32 d) = (w, r)"
      using 1(2) True by (simp add: xx_stripes.simps [of v d])
    ultimately show ?thesis using 1(1) True by simp
  next
    case False
    then show ?thesis using 1(2) by (simp add: xx_stripes.simps [of v d])
  qed
qed

lemma xx_stripes_rest: "xx_stripes v d = (w, r) \<Longrightarrow> length r = length d mod 32"
proof (induction v d rule: xx_stripes.induct)
  case (1 v d)
  show ?case
  proof (cases "32 \<le> length d")
    case True
    then show ?thesis using 1 by (simp add: xx_stripes.simps [of v d] le_mod_geq)
  next
    case False
    then show ?thesis using 1(2) by (simp add: xx_stripes.simps [of v d])
  qed
qed

text \<open>The state that stands for the data \<open>d\<close> hashed so far.\<close>

definition xx_rep :: "u64 \<Rightarrow> xxh64_state \<Rightarrow> byte list \<Rightarrow> bool" where
  "xx_rep seed st d \<longleftrightarrow> xx_seed st = seed \<and> length (xx_mem st) = 32 \<and> xx_memsize st < 32
     \<and> xx_total_len st = word_of_nat (length d)
     \<and> xx_stripes (xx_lanes seed) d = (xx_v st, take (xx_memsize st) (xx_mem st))"

lemma xx_rep_new: "xx_rep seed (xxh64_new seed) []"
  by (simp add: xx_rep_def xxh64_new_def xx_stripes.simps)

lemma length_blit [simp]: "at + length src \<le> length mem \<Longrightarrow> length (blit mem at src) = length mem"
  by (simp add: blit_def)

lemma take_blit [simp]:
  "at + length src \<le> length mem \<Longrightarrow> take (at + length src) (blit mem at src) = take at mem @ src"
  by (simp add: blit_def)

lemma xx_rep_update:
  assumes rep: "xx_rep seed st d"
  shows "xx_rep seed (xxh64_update st x) (d @ x)"
proof -
  define m r where "m = xx_memsize st" and "r = take m (xx_mem st)"
  have st: "xx_seed st = seed" "length (xx_mem st) = 32" "m < 32" "xx_total_len st = word_of_nat (length d)"
    "xx_stripes (xx_lanes seed) d = (xx_v st, r)" "length r = m"
    using rep by (simp_all add: xx_rep_def m_def r_def)
  have nxt: "xx_stripes (xx_lanes seed) (d @ x) = xx_stripes (xx_v st) (r @ x)"
    by (rule xx_stripes_append [OF st(5)])
  show ?thesis
  proof (cases "m + length x < 32")
    case True
    then have "xx_stripes (xx_v st) (r @ x) = (xx_v st, r @ x)"
      using st(6) by (simp add: xx_stripes.simps [of _ "r @ x"])
    with True nxt st show ?thesis
      by (simp add: xx_rep_def xxh64_update_def m_def [symmetric] r_def [symmetric] Let_def)
  next
    case big: False
    define stripe where "stripe = blit (xx_mem st) m (take (32 - m) x)"
    define st1 where "st1 = (if 0 < m then st\<lparr>xx_mem := stripe, xx_v := xx_stripe (xx_v st) stripe, xx_memsize := 0\<rparr> else st)"
    define x1 where "x1 = (if 0 < m then drop (32 - m) x else x)"
    have stripe: "stripe = take 32 (r @ x)" "length stripe = 32"
      using big st(2,3,6) by (simp_all add: stripe_def blit_def r_def)
    have st1: "xx_stripes (xx_v st) (r @ x) = xx_stripes (xx_v st1) x1" "length (xx_mem st1) = 32"
      "xx_seed st1 = seed" "xx_memsize st1 = 0"
    proof -
      have "xx_stripe (xx_v st) stripe = xx_stripe (xx_v st) (r @ x)"
        using xx_stripe_take [of "r @ x" "xx_v st"] big st(6) by (simp add: stripe(1))
      then show "xx_stripes (xx_v st) (r @ x) = xx_stripes (xx_v st1) x1"
        using big st(3,6) by (cases "0 < m") (simp_all add: xx_stripes.simps [of _ "r @ x"] st1_def x1_def)
    qed (use st stripe(2) in \<open>simp_all add: st1_def m_def\<close>)
    obtain w s where ws: "xx_stripes (xx_v st1) x1 = (w, s)" by (cases "xx_stripes (xx_v st1) x1")
    then have s: "length s < 32" using xx_stripes_rest [OF ws] by simp
    have upd: "xxh64_update st x = (let st2 = st1\<lparr>xx_total_len := xx_total_len st + word_of_nat (length x), xx_v := w\<rparr> in
        if s \<noteq> [] then st2\<lparr>xx_mem := blit (xx_mem st2) 0 s, xx_memsize := length s\<rparr> else st2)"
    proof (cases "0 < m")
      case True
      then have "xx_stripes (xx_stripe (xx_v st) stripe) (drop (32 - m) x) = (w, s)"
        using ws by (simp add: st1_def x1_def)
      with True big show ?thesis
        by (simp add: xxh64_update_def Let_def st1_def flip: m_def stripe_def)
    next
      case False
      then have "xx_stripes (xx_v st) x = (w, s)" using ws by (simp add: st1_def x1_def)
      with False big show ?thesis by (simp add: xxh64_update_def Let_def st1_def flip: m_def)
    qed
    show ?thesis
      using st1 s nxt ws st(4) take_blit [of 0 s "xx_mem st1"]
      by (auto simp: upd xx_rep_def Let_def)
  qed
qed

lemma xx_rep_digest:
  assumes rep: "xx_rep seed st d" and small: "length d < 2 ^ 64"
  shows "xxh64_digest st = xxh64 d seed"
proof -
  have len: "unat (xx_total_len st) = length d"
    using rep small by (simp add: xx_rep_def unat_of_nat)
  show ?thesis
  proof (cases "32 \<le> length d")
    case True
    then show ?thesis using rep len by (simp add: xxh64_digest_def xxh64_def xx_rep_def)
  next
    case False
    then have "take (xx_memsize st) (xx_mem st) = d"
      using rep by (simp add: xx_rep_def xx_stripes.simps [of _ d])
    with False show ?thesis using rep len by (simp add: xxh64_digest_def xxh64_def xx_rep_def)
  qed
qed

text \<open>The contract, for any hash with a streaming state.\<close>

locale streaming_hash =
  fixes fresh :: 's and absorb :: "'s \<Rightarrow> 'b list \<Rightarrow> 's" and digest :: "'s \<Rightarrow> 'h"
    and whole :: "'b list \<Rightarrow> 'h" and stands_for :: "'s \<Rightarrow> 'b list \<Rightarrow> bool" and limit :: nat
  assumes fresh: "stands_for fresh []"
    and absorb: "stands_for s d \<Longrightarrow> stands_for (absorb s x) (d @ x)"
    and digest: "stands_for s d \<Longrightarrow> length d < limit \<Longrightarrow> digest s = whole d"
begin

lemma absorb_all: "stands_for s d \<Longrightarrow> stands_for (foldl absorb s chunks) (d @ concat chunks)"
proof (induction chunks arbitrary: s d)
  case Nil
  then show ?case by simp
next
  case (Cons x chunks)
  from Cons.IH [OF absorb [OF Cons.prems]] show ?case by simp
qed

lemma chunks_irrelevant:
  "length (concat chunks) < limit \<Longrightarrow> digest (foldl absorb fresh chunks) = whole (concat chunks)"
  using digest absorb_all [OF fresh] by fastforce

end

interpretation xxh: streaming_hash "xxh64_new seed" xxh64_update xxh64_digest "\<lambda>d. xxh64 d seed"
    "xx_rep seed" "2 ^ 64"
  for seed
  by unfold_locales (auto intro: xx_rep_new xx_rep_update xx_rep_digest)

section \<open>Properties\<close>

text \<open>C15: the streaming XXH64 state returns the one-shot hash of everything it absorbed, however
  the content was cut into chunks, as long as it is shorter than \<open>2 ^ 64\<close> bytes (the length counter
  of the state wraps there).\<close>

theorem xxh64_streaming:
  assumes "length (concat chunks) < 2 ^ 64"
  shows "xxh64_digest (foldl xxh64_update (xxh64_new seed) chunks) = xxh64 (concat chunks) seed"
  by (rule xxh.chunks_irrelevant [OF assms])

theorem xxh64_streaming_witness:
  "xxh64_digest (foldl xxh64_update (xxh64_new 7) [[1, 2, 3], [], replicate 40 9]) = xxh64 ([1, 2, 3] @ replicate 40 9) 7"
  using xxh64_streaming [of "[[1, 2, 3], [], replicate 40 9]" 7] by simp

end
