(* ===== verification/Huff.thy ===== *)
theory Huff
  imports Fse_Split
begin

text \<open>
  \<^verbatim>\<open>src/huff.rs\<close>, first half: the Huffman table description and the decode table. The weights of
  an accepted description satisfy the Kraft equality, so the intervals the table gives the
  symbols tile it (\<open>hstart\<close>); each interval is aligned to its length, which makes the code a
  prefix code.
\<close>

unbundle bit_operations_syntax

section \<open>Tables\<close>

definition HUF_TABLELOG_MAX :: nat where
  "HUF_TABLELOG_MAX = 12"

definition HUF_DTABLE_SIZE :: nat where
  "HUF_DTABLE_SIZE = 2 ^ 12"

record huff_entry =
  he_symbol :: byte
  he_num_bits :: nat

definition default_huff_entry :: huff_entry where
  "default_huff_entry = \<lparr>he_symbol = 0, he_num_bits = 0\<rparr>"

record huff_table =
  ht_max_bits :: nat
  ht_entries :: "huff_entry list"

definition huff_entry_at :: "huff_table \<Rightarrow> nat \<Rightarrow> huff_entry" where
  "huff_entry_at t code = ht_entries t ! (code AND (HUF_DTABLE_SIZE - 1))"

definition huff_entries :: "huff_table \<Rightarrow> huff_entry list" where
  "huff_entries t = take (2 ^ ht_max_bits t) (ht_entries t)"

section \<open>Building the table\<close>

fun sum_weights :: "nat \<Rightarrow> nat list \<Rightarrow> nat result" where
  "sum_weights acc [] = Ok acc"
| "sum_weights acc (w # ws) =
     (if HUF_TABLELOG_MAX < w then Err (CorruptTable (''huffman weight '' @ dec w @ '' too large''))
      else sum_weights (if 0 < w then acc + 2 ^ (w - 1) else acc) ws)"

fun rank_count :: "nat list \<Rightarrow> nat list \<Rightarrow> nat list result" where
  "rank_count stats [] = Ok stats"
| "rank_count stats (w # ws) =
     obind (idx stats w) (\<lambda>n.
     obind (upd stats w (n + 1)) (\<lambda>stats.
     rank_count stats ws))"

fun rank_begin :: "nat list \<Rightarrow> nat list \<Rightarrow> nat \<Rightarrow> nat list \<Rightarrow> nat list result" where
  "rank_begin stats start nxt [] = Ok start"
| "rank_begin stats start nxt (w # ws) =
     obind (idx stats w) (\<lambda>n.
     obind (upd start w nxt) (\<lambda>start.
     rank_begin stats start (nxt + n * 2 ^ (w - 1)) ws))"

fun fill_cells :: "huff_entry list \<Rightarrow> nat \<Rightarrow> nat \<Rightarrow> huff_entry \<Rightarrow> huff_entry list result" where
  "fill_cells es start 0 e = Ok es"
| "fill_cells es start (Suc n) e =
     obind (upd es start e) (\<lambda>es.
     fill_cells es (start + 1) n e)"

fun huff_fill :: "nat \<Rightarrow> huff_entry list \<Rightarrow> nat list \<Rightarrow> nat \<Rightarrow> nat list \<Rightarrow> huff_entry list result" where
  "huff_fill max_bits es rank_start s [] = Ok es"
| "huff_fill max_bits es rank_start s (w # ws) =
     (if w = 0 then huff_fill max_bits es rank_start (s + 1) ws
      else
        let len = 2 ^ (w - 1) in
        obind (usub (max_bits + 1) w) (\<lambda>nb.
        obind (idx rank_start w) (\<lambda>start.
        if 2 ^ max_bits < start + len then Err (CorruptTable ''huffman table overflow'')
        else
          obind (fill_cells es start len \<lparr>he_symbol = word_of_nat s, he_num_bits = as_u8 nb\<rparr>) (\<lambda>es.
          obind (upd rank_start w (start + len)) (\<lambda>rank_start.
          huff_fill max_bits es rank_start (s + 1) ws)))))"

definition huff_build_table :: "byte list \<Rightarrow> huff_table result" where
  "huff_build_table weights =
     obind (sum_weights 0 (map unat weights)) (\<lambda>total_weight.
     if total_weight = 0 then Err (CorruptTable ''huffman weights all zero'')
     else
     let max_bits = highbit32 total_weight + 1 in
     if HUF_TABLELOG_MAX < max_bits then
       Err (CorruptTable (''huffman max code length '' @ dec max_bits @ '' too large''))
     else
     obind (usub (2 ^ max_bits) total_weight) (\<lambda>left.
     if left = 0 \<or> left AND (left - 1) \<noteq> 0 then
       Err (CorruptTable ''huffman residual weight is not a power of two'')
     else
     let last_weight = highbit32 left + 1;
         all_weights = map unat weights @ [as_u8 last_weight] in
     if 256 < length all_weights then Err (CorruptTable ''huffman alphabet exceeds 256'')
     else
     obind (rank_count (replicate (HUF_TABLELOG_MAX + 1) 0) all_weights) (\<lambda>rank_stats.
     obind (rank_begin rank_stats (replicate (HUF_TABLELOG_MAX + 1) 0) 0 [1..<max_bits + 1]) (\<lambda>rank_start.
     obind (huff_fill max_bits (replicate HUF_DTABLE_SIZE default_huff_entry) rank_start 0 all_weights) (\<lambda>es.
     Ok \<lparr>ht_max_bits = max_bits, ht_entries = es\<rparr>)))))"

section \<open>Reading the description\<close>

fun direct_weights :: "byte list \<Rightarrow> nat list \<Rightarrow> byte list result" where
  "direct_weights src [] = Ok []"
| "direct_weights src (i # is) =
     obind (idx src (1 + i div 2)) (\<lambda>b.
     obind (direct_weights src is) (\<lambda>ws.
     Ok ((if i mod 2 = 0 then drop_bit 4 b else b AND 0x0F) # ws)))"

text \<open>The two branches on the header byte \<open>h\<close>: the weights and the bytes they took.\<close>

definition fse_weights :: "byte list \<Rightarrow> nat \<Rightarrow> (byte list \<times> nat) result" where
  "fse_weights src comp_size =
     (if length src < 1 + comp_size then
        Err (Truncated ''fse-compressed huffman weights'' (1 + comp_size - length src))
      else
        obind (slice_range src 1 (1 + comp_size)) (\<lambda>desc.
        obind (read_ncount desc 6) (\<lambda>nc.
        obind (build_dtable (nc_counts nc) (nc_max_symbol nc) (nc_table_log nc)) (\<lambda>table.
        obind (slice_range src (1 + nc_bytes_consumed nc) (1 + comp_size)) (\<lambda>bitstream.
        obind (fse_decompress bitstream table 256) (\<lambda>weights.
        Ok (weights, 1 + comp_size)))))))"

definition packed_weights :: "byte list \<Rightarrow> nat \<Rightarrow> (byte list \<times> nat) result" where
  "packed_weights src num_weights =
     (let bytes = div_ceil num_weights 2 in
      if length src < 1 + bytes then
        Err (Truncated ''direct huffman weights'' (1 + bytes - length src))
      else
        obind (direct_weights src [0..<num_weights]) (\<lambda>weights.
        Ok (weights, 1 + bytes)))"

definition huff_read_table :: "byte list \<Rightarrow> (huff_table \<times> nat) result" where
  "huff_read_table src =
     (if src = [] then Err (Truncated ''huffman weight header'' 1)
      else
      obind (idx src 0) (\<lambda>h0.
      let h = unat h0 in
      obind (if h < 128 then fse_weights src h else packed_weights src (h - 127)) (\<lambda>(weights, hdr_bytes).
      obind (huff_build_table weights) (\<lambda>table.
      Ok (table, hdr_bytes)))))"

section \<open>The intervals of the symbols\<close>

text \<open>\<open>below ws w\<close>: the cells of the symbols with a weight under \<open>w\<close>. The symbols are laid out by
  weight, then by value.\<close>

definition below :: "nat list \<Rightarrow> nat \<Rightarrow> nat" where
  "below ws w = sum_list (map (\<lambda>v. 2 ^ (v - 1)) (filter (\<lambda>v. 0 < v \<and> v < w) ws))"

definition hstart :: "nat list \<Rightarrow> nat \<Rightarrow> nat" where
  "hstart ws s = below ws (ws ! s) + count_list (take s ws) (ws ! s) * 2 ^ (ws ! s - 1)"

definition cell_entry :: "nat \<Rightarrow> nat list \<Rightarrow> nat \<Rightarrow> huff_entry" where
  "cell_entry mb ws s = \<lparr>he_symbol = word_of_nat s, he_num_bits = mb + 1 - ws ! s\<rparr>"

lemma below_Suc: "0 < w \<Longrightarrow> below ws (Suc w) = below ws w + count_list ws w * 2 ^ (w - 1)"
proof (induction ws)
  case Nil
  then show ?case by (simp add: below_def)
next
  case (Cons v ws)
  then show ?case by (cases "v = w") (auto simp: below_def less_Suc_eq)
qed

lemma below_1 [simp]: "below ws (Suc 0) = 0"
proof -
  have "filter (\<lambda>v. 0 < v \<and> v < Suc 0) ws = []" by (auto simp: filter_empty_conv)
  then show ?thesis unfolding below_def by (simp only: list.map sum_list.Nil)
qed

lemma below_mono: "w \<le> w' \<Longrightarrow> below ws w \<le> below ws w'"
proof (induction ws)
  case Nil
  then show ?case by (simp add: below_def)
next
  case (Cons v ws)
  then show ?case by (auto simp: below_def)
qed

lemma hstart_end:
  assumes "s < length ws" and "0 < ws ! s"
  shows "hstart ws s + 2 ^ (ws ! s - 1) \<le> below ws (Suc (ws ! s))"
proof -
  have "count_list (take s ws) (ws ! s) + 1 \<le> count_list ws (ws ! s)"
    using count_list_take_less [OF assms(1)] by simp
  then have "(count_list (take s ws) (ws ! s) + 1) * 2 ^ (ws ! s - 1) \<le> count_list ws (ws ! s) * 2 ^ (ws ! s - 1)"
    by (rule mult_right_mono) simp
  then show ?thesis by (simp add: hstart_def below_Suc [OF assms(2)] algebra_simps)
qed

lemma count_list_take_mono: "i \<le> j \<Longrightarrow> count_list (take i xs) x \<le> count_list (take j xs) x"
proof -
  assume "i \<le> j"
  then have "take j xs = take i xs @ take (j - i) (drop i xs)" by (metis le_add_diff_inverse take_add)
  then show ?thesis by simp
qed

lemma count_list_take_Suc_le:
  "s < t \<Longrightarrow> t \<le> length xs \<Longrightarrow> count_list (take s xs) (xs ! s) + 1 \<le> count_list (take t xs) (xs ! s)"
  using count_list_take_mono [of "Suc s" t xs "xs ! s"] by (simp add: take_Suc_conv_app_nth)

text \<open>The intervals of two symbols do not overlap.\<close>

lemma hstart_disjoint:
  assumes "s < length ws" "t < length ws" "0 < ws ! s" "0 < ws ! t" "s \<noteq> t"
  shows "hstart ws s + 2 ^ (ws ! s - 1) \<le> hstart ws t \<or> hstart ws t + 2 ^ (ws ! t - 1) \<le> hstart ws s"
proof -
  have lt: "hstart ws a + 2 ^ (ws ! a - 1) \<le> hstart ws b" if "a < length ws" "0 < ws ! a" "ws ! a < ws ! b" for a b
  proof -
    have "hstart ws a + 2 ^ (ws ! a - 1) \<le> below ws (Suc (ws ! a))" by (rule hstart_end [OF that(1,2)])
    also have "\<dots> \<le> below ws (ws ! b)" using that(3) by (intro below_mono) simp
    finally show ?thesis by (simp add: hstart_def)
  qed
  have eq: "hstart ws a + 2 ^ (ws ! a - 1) \<le> hstart ws b" if "a < b" "b < length ws" "ws ! a = ws ! b" for a b
  proof -
    have "(count_list (take a ws) (ws ! a) + 1) * 2 ^ (ws ! a - 1) \<le> count_list (take b ws) (ws ! a) * 2 ^ (ws ! a - 1)"
      using count_list_take_Suc_le [OF that(1) less_imp_le [OF that(2)]] by (rule mult_right_mono) simp
    then show ?thesis using that(3) by (simp add: hstart_def algebra_simps)
  qed
  show ?thesis
    using lt [of s t] lt [of t s] eq [of s t] eq [of t s] assms
    by (cases "ws ! s" "ws ! t" rule: linorder_cases; cases s t rule: linorder_cases) auto
qed

section \<open>The table builder fills the intervals\<close>

lemma fill_cells_Ok:
  "start + n \<le> length es \<Longrightarrow> fill_cells es start n e = Ok (take start es @ replicate n e @ drop (start + n) es)"
proof (induction n arbitrary: es start)
  case 0
  then show ?case by simp
next
  case (Suc n)
  then have "take (Suc start) (es[start := e]) = take start es @ [e]"
    by (simp add: take_Suc_conv_app_nth)
  with Suc show ?case by (simp add: replicate_app_Cons_same)
qed

text \<open>The table after the first \<open>k\<close> symbols.\<close>

definition filled :: "nat \<Rightarrow> nat list \<Rightarrow> nat \<Rightarrow> huff_entry list \<Rightarrow> bool" where
  "filled mb ws k es \<longleftrightarrow> length es = HUF_DTABLE_SIZE
     \<and> (\<forall>s < k. 0 < ws ! s \<longrightarrow> (\<forall>u. hstart ws s \<le> u \<longrightarrow> u < hstart ws s + 2 ^ (ws ! s - 1) \<longrightarrow> es ! u = cell_entry mb ws s))"

definition rank_at :: "nat \<Rightarrow> nat list \<Rightarrow> nat \<Rightarrow> nat list \<Rightarrow> bool" where
  "rank_at mb ws k rank_start \<longleftrightarrow> length rank_start = 13
     \<and> (\<forall>w. 0 < w \<longrightarrow> w \<le> mb \<longrightarrow> rank_start ! w = below ws w + count_list (take k ws) w * 2 ^ (w - 1))"

lemma filled_step:
  assumes "filled mb ws k es" and k: "k < length ws" "0 < ws ! k"
    and fit: "hstart ws k + 2 ^ (ws ! k - 1) \<le> HUF_DTABLE_SIZE"
  shows "filled mb ws (Suc k) (take (hstart ws k) es @ replicate (2 ^ (ws ! k - 1)) (cell_entry mb ws k)
    @ drop (hstart ws k + 2 ^ (ws ! k - 1)) es)"
proof -
  define a n where "a = hstart ws k" and "n = (2::nat) ^ (ws ! k - 1)"
  have len: "length es = HUF_DTABLE_SIZE" using assms(1) by (simp add: filled_def)
  have at: "(take a es @ replicate n e @ drop (a + n) es) ! u = (if a \<le> u \<and> u < a + n then e else es ! u)"
    if "u < length es" for u e
    using that fit len by (auto simp: nth_append a_def n_def not_less)
  have "(take a es @ replicate n (cell_entry mb ws k) @ drop (a + n) es) ! u = cell_entry mb ws s"
    if s: "s < Suc k" "0 < ws ! s" and u: "hstart ws s \<le> u" "u < hstart ws s + 2 ^ (ws ! s - 1)" for s u
  proof (cases "s = k")
    case True
    then show ?thesis using u fit len by (subst at) (auto simp: a_def n_def)
  next
    case False
    then have sk: "s < k" "s < length ws" using s(1) k(1) by simp_all
    have apart: "\<not> (a \<le> u \<and> u < a + n)"
      using hstart_disjoint [OF sk(2) k(1) s(2) k(2) False] u by (auto simp: a_def n_def)
    have es: "es ! u = cell_entry mb ws s" using assms(1) sk(1) s(2) u by (simp add: filled_def)
    show ?thesis
    proof (cases "u < length es")
      case True
      show ?thesis unfolding at [OF True] if_not_P [OF apart] by (rule es)
    next
      case False
      then show ?thesis using es fit len by (simp add: nth_append a_def n_def)
    qed
  qed
  then show ?thesis using len fit by (simp add: filled_def a_def n_def)
qed

lemma huff_fill_Ok:
  assumes mb: "mb \<le> 12" and ws: "\<And>w. w \<in> set ws \<Longrightarrow> w \<le> mb" and kraft: "below ws (Suc mb) \<le> 2 ^ mb"
    and "filled mb ws k es" and "rank_at mb ws k rank_start" and "k \<le> length ws"
  shows "\<exists>es'. huff_fill mb es rank_start k (drop k ws) = Ok es' \<and> filled mb ws (length ws) es'"
  using assms(4-6)
proof (induction "length ws - k" arbitrary: k es rank_start)
  case 0
  then show ?case by simp
next
  case (Suc n)
  then have k: "k < length ws" by simp
  have drop: "drop k ws = ws ! k # drop (Suc k) ws" using k by (simp add: Cons_nth_drop_Suc)
  define w where "w = ws ! k"
  have n: "n = length ws - Suc k" "Suc k \<le> length ws" using Suc.hyps(2) k by simp_all
  have wm: "w \<le> mb" using ws k by (simp add: w_def)
  have take: "count_list (take (Suc k) ws) v = count_list (take k ws) v + (if v = w then 1 else 0)" for v
    using k by (simp add: take_Suc_conv_app_nth w_def)
  show ?case
  proof (cases "w = 0")
    case True
    have "filled mb ws (Suc k) es" using Suc.prems(1) True by (auto simp: filled_def w_def less_Suc_eq)
    moreover have "rank_at mb ws (Suc k) rank_start"
      using Suc.prems(2) True by (auto simp: rank_at_def take)
    ultimately show ?thesis
      using Suc.hyps(1) [OF n(1) _ _ n(2)] True by (simp add: drop flip: w_def)
  next
    case False
    define len where "len = (2::nat) ^ (w - 1)"
    have start: "rank_start ! w = hstart ws k" "length rank_start = 13"
      using Suc.prems(2) False wm by (simp_all add: rank_at_def hstart_def w_def)
    have "hstart ws k + len \<le> below ws (Suc w)"
      using hstart_end [OF k] False by (simp add: w_def len_def)
    also have "\<dots> \<le> below ws (Suc mb)" using wm by (intro below_mono) simp
    finally have fit: "hstart ws k + len \<le> 2 ^ mb" using kraft by simp
    have "(2::nat) ^ mb \<le> 2 ^ 12" using mb by (intro power_increasing) auto
    then have fit': "hstart ws k + len \<le> HUF_DTABLE_SIZE" using fit by (simp add: HUF_DTABLE_SIZE_def)
    have es: "length es = HUF_DTABLE_SIZE" using Suc.prems(1) by (simp add: filled_def)
    have e: "\<lparr>he_symbol = word_of_nat k, he_num_bits = as_u8 (mb + 1 - w)\<rparr> = cell_entry mb ws k"
      using mb by (simp add: cell_entry_def as_u8_small flip: w_def)
    define es' where "es' = take (hstart ws k) es @ replicate len (cell_entry mb ws k) @ drop (hstart ws k + len) es"
    have f: "filled mb ws (Suc k) es'"
      using filled_step [OF Suc.prems(1) k] False fit' by (simp add: es'_def len_def w_def)
    have r: "rank_at mb ws (Suc k) (rank_start[w := hstart ws k + len])"
      using Suc.prems(2) False wm mb start k
      by (auto simp: rank_at_def nth_list_update take len_def simp flip: w_def)
    have "huff_fill mb es rank_start k (drop k ws) = huff_fill mb es' (rank_start[w := hstart ws k + len]) (Suc k) (drop (Suc k) ws)"
      using False wm mb start fit fit' es e
      by (simp add: drop Let_def fill_cells_Ok es'_def len_def flip: w_def)
    then show ?thesis using Suc.hyps(1) [OF n(1) f r n(2)] by simp
  qed
qed

lemma sum_weights_cases:
  "(\<exists>e. sum_weights acc ws = Err e) \<or> (\<forall>w \<in> set ws. w \<le> 12) \<and> sum_weights acc ws = Ok (acc + below ws 13)"
proof (induction ws arbitrary: acc)
  case Nil
  then show ?case by (simp add: below_def)
next
  case (Cons w ws)
  show ?case
    using Cons.IH [of "if 0 < w then acc + 2 ^ (w - 1) else acc"]
    by (auto simp: below_def HUF_TABLELOG_MAX_def)
qed

lemma sum_weights_le: "\<forall>w \<in> set ws. w \<le> 12 \<Longrightarrow> sum_weights acc ws = Ok (acc + below ws 13)"
proof (induction ws arbitrary: acc)
  case Nil
  then show ?case by (simp add: below_def)
next
  case (Cons w ws)
  then show ?case by (auto simp: below_def HUF_TABLELOG_MAX_def)
qed

lemma below_bound: "below ws (Suc w) \<le> length ws * 2 ^ (w - 1)"
proof (induction ws)
  case Nil
  then show ?case by (simp add: below_def)
next
  case (Cons v ws)
  have "(2::nat) ^ (v - 1) \<le> 2 ^ (w - 1)" if "v < Suc w" using that by (intro power_increasing) auto
  then show ?case using Cons by (auto simp: below_def intro: order_trans [OF _ add_mono])
qed

lemma below_append_single: "0 < v \<Longrightarrow> v < w \<Longrightarrow> below (ws @ [v]) w = below ws w + 2 ^ (v - 1)"
  by (simp add: below_def)

lemma below_member:
  assumes "v \<in> set ws" and "0 < v" and "v < w"
  shows "2 ^ (v - 1) \<le> below ws w"
proof -
  have "2 ^ (v - 1) \<in> set (map (\<lambda>v. (2::nat) ^ (v - 1)) (filter (\<lambda>v. 0 < v \<and> v < w) ws))"
    using assms by auto
  then show ?thesis unfolding below_def by (rule member_le_sum_list) simp
qed

lemma below_eq: "(\<And>v. v \<in> set ws \<Longrightarrow> v < w \<longleftrightarrow> v < w') \<Longrightarrow> below ws w = below ws w'"
  unfolding below_def by (metis (mono_tags, lifting) filter_cong)

lemma pow2_of_and_pred:
  assumes "0 < (x::nat)" and "x < 2 ^ 32" and "x AND (x - 1) = 0"
  shows "x = 2 ^ highbit32 x"
proof (rule ccontr)
  define k where "k = highbit32 x"
  assume "x \<noteq> 2 ^ highbit32 x"
  then have x: "2 ^ k < x" "x < 2 ^ Suc k" using highbit32_bounds [OF assms(1,2)] by (simp_all add: k_def)
  then have "2 ^ k \<le> x - 1" "x - 1 < 2 ^ Suc k" by linarith+
  then have "x div 2 ^ k = 1" "(x - 1) div 2 ^ k = 1" using x by (auto intro!: div_nat_eqI)
  then have "bit x k" "bit (x - 1) k" by (simp_all add: bit_iff_odd)
  then have "bit (x AND (x - 1)) k" by (simp only: bit_and_iff)
  then show False using assms(3) by simp
qed

lemma rank_count_Ok:
  "(\<And>w. w \<in> set ws \<Longrightarrow> w < length stats) \<Longrightarrow>
    rank_count stats ws = Ok (map (\<lambda>w. stats ! w + count_list ws w) [0..<length stats])"
proof (induction ws arbitrary: stats)
  case Nil
  then show ?case by (simp add: map_nth)
next
  case (Cons v ws)
  have v: "v < length stats" using Cons.prems by simp
  have "map (\<lambda>w. stats[v := stats ! v + 1] ! w + count_list ws w) [0..<length stats]
      = map (\<lambda>w. stats ! w + count_list (v # ws) w) [0..<length stats]"
    using v by (intro map_cong) (auto simp: nth_list_update)
  then show ?case using Cons.IH [of "stats[v := stats ! v + 1]"] Cons.prems v by simp
qed

lemma rank_begin_Ok:
  assumes "0 < w" and "w \<le> mb + 1" and "mb < length stats" and "mb < length start"
    and "\<And>v. v \<le> mb \<Longrightarrow> stats ! v = count_list ws v"
  shows "\<exists>start'. rank_begin stats start (below ws w) [w..<mb + 1] = Ok start' \<and> length start' = length start
    \<and> (\<forall>v. w \<le> v \<longrightarrow> v \<le> mb \<longrightarrow> start' ! v = below ws v) \<and> (\<forall>v < w. start' ! v = start ! v)"
  using assms(1,2,4)
proof (induction "mb + 1 - w" arbitrary: w start)
  case 0
  then show ?case by simp
next
  case (Suc n)
  have w: "w \<le> mb" "[w..<mb + 1] = w # [Suc w..<mb + 1]"
    using Suc.hyps(2) by (simp_all add: upt_conv_Cons del: upt_Suc)
  have nxt: "below ws w + stats ! w * 2 ^ (w - 1) = below ws (Suc w)"
    using assms(5) [OF w(1)] Suc.prems(1) by (simp add: below_Suc)
  have n: "n = mb + 1 - Suc w" using Suc.hyps(2) by simp
  from Suc.hyps(1) [OF n, of "start[w := below ws w]"] Suc.prems w(1)
  obtain start' where "rank_begin stats (start[w := below ws w]) (below ws (Suc w)) [Suc w..<mb + 1] = Ok start'"
    "length start' = length start" "\<forall>v. Suc w \<le> v \<longrightarrow> v \<le> mb \<longrightarrow> start' ! v = below ws v"
    "\<forall>v < Suc w. start' ! v = start[w := below ws w] ! v"
    by (auto simp del: upt_Suc)
  moreover from this have "start' ! v = below ws v" if "w \<le> v" "v \<le> mb" for v
    using that Suc.prems(3) by (cases "v = w") auto
  ultimately show ?case
    using Suc.prems w assms(3) nxt
    by (intro exI [of _ start']) (simp add: nth_list_update del: upt_Suc)
qed

section \<open>What an accepted table holds\<close>

definition huff_table_for :: "nat list \<Rightarrow> huff_table \<Rightarrow> bool" where
  "huff_table_for ws t \<longleftrightarrow>
     (let mb = ht_max_bits t in
      1 \<le> mb \<and> mb \<le> 12 \<and> length ws \<le> 256 \<and> (\<forall>w \<in> set ws. w \<le> mb)
      \<and> below ws (Suc mb) = 2 ^ mb \<and> filled mb ws (length ws) (ht_entries t))"

lemma huff_build_core:
  fixes weights :: "byte list"
  defines "ws \<equiv> map unat weights"
  defines "tot \<equiv> below ws 13"
  defines "mb \<equiv> highbit32 tot + 1"
  defines "left \<equiv> 2 ^ mb - tot"
  defines "lw \<equiv> highbit32 left + 1"
  assumes ws12: "\<forall>w \<in> set ws. w \<le> 12" and tot0: "tot \<noteq> 0" and small: "tot < 2 ^ 32" and mb12: "mb \<le> 12"
    and land: "left AND (left - 1) = 0" and len: "length weights < 256"
  shows "\<exists>t. huff_build_table weights = Ok t \<and> ht_max_bits t = mb \<and> 0 < lw \<and> huff_table_for (ws @ [lw]) t"
proof -
  have sum: "sum_weights 0 (map unat weights) = Ok tot"
    using sum_weights_cases [of 0 ws] ws12 unfolding tot_def ws_def [symmetric]
    by (auto simp: sum_weights_le)
  have tot: "tot < 2 ^ mb" using highbit32_bounds [of tot] tot0 small by (simp add: mb_def)
  have left: "0 < left" "left < 2 ^ mb" "left < 2 ^ 32"
    using tot tot0 power_increasing [OF mb12, of "2::nat"] by (auto simp: left_def)
  have lpow: "left = 2 ^ (lw - 1)" using pow2_of_and_pred [OF left(1,3) land] by (simp add: lw_def)
  then have "(2::nat) ^ (lw - 1) < 2 ^ mb" using left(2) by simp
  then have lw: "0 < lw" "lw \<le> mb" by (simp_all add: lw_def)
  define all where "all = ws @ [lw]"
  have le: "w \<le> mb" if "w \<in> set all" for w
  proof (cases "w = 0 \<or> w = lw")
    case False
    then have "w \<in> set ws" using that by (simp add: all_def)
    then have "2 ^ (w - 1) \<le> tot" using below_member [of w ws 13] ws12 False by (auto simp: tot_def)
    then have "(2::nat) ^ (w - 1) < 2 ^ mb" using tot by linarith
    then show ?thesis by simp
  qed (use lw in auto)
  have kraft: "below all (Suc mb) = 2 ^ mb"
  proof -
    have "below ws (Suc mb) = tot"
      unfolding tot_def using le ws12 by (intro below_eq) (fastforce simp: all_def)
    then show ?thesis using lw lpow left tot by (simp add: all_def below_append_single left_def)
  qed
  have len': "length all \<le> 256" using len by (simp add: all_def ws_def)
  have lw8: "as_u8 lw = lw" using lw mb12 by (simp add: as_u8_small)
  define stats where "stats = map (count_list all) [0..<13]"
  have rc: "rank_count (replicate 13 0) all = Ok stats"
    using rank_count_Ok [of all "replicate 13 0"] le mb12 by (fastforce simp: stats_def intro!: map_cong)
  have "\<exists>start. rank_begin stats (replicate 13 0) (below all 1) [1..<mb + 1] = Ok start \<and> length start = 13
    \<and> (\<forall>v. 1 \<le> v \<longrightarrow> v \<le> mb \<longrightarrow> start ! v = below all v)"
    using rank_begin_Ok [of 1 mb stats "replicate 13 0" all] mb12 by (auto simp: stats_def)
  then obtain start where start: "rank_begin stats (replicate 13 0) 0 [1..<mb + 1] = Ok start"
    "rank_at mb all 0 start"
    by (auto simp: rank_at_def)
  obtain es where es: "huff_fill mb (replicate HUF_DTABLE_SIZE default_huff_entry) start 0 all = Ok es"
    "filled mb all (length all) es"
    using huff_fill_Ok [OF mb12 le _ _ start(2), of "replicate HUF_DTABLE_SIZE default_huff_entry"] kraft
    by (auto simp: filled_def)
  have guards: "\<not> HUF_TABLELOG_MAX < mb" "usub (2 ^ mb) tot = (Ok left :: nat result)"
    "\<not> (left = 0 \<or> left AND (left - 1) \<noteq> 0)" "\<not> 256 < length (map unat weights @ [lw])"
    "HUF_TABLELOG_MAX + 1 = 13"
    using mb12 tot left(1) land len' by (simp_all add: HUF_TABLELOG_MAX_def left_def all_def ws_def)
  have "huff_build_table weights = Ok \<lparr>ht_max_bits = mb, ht_entries = es\<rparr>"
    unfolding huff_build_table_def sum obind_simps if_not_P [OF tot0] Let_def mb_def [symmetric]
      if_not_P [OF guards(1)] guards(2) lw_def [symmetric] lw8
      if_not_P [OF guards(3)] if_not_P [OF guards(4)] guards(5)
    unfolding ws_def [symmetric] all_def [symmetric] rc obind_simps start(1) es(1) ..
  moreover have "huff_table_for all \<lparr>ht_max_bits = mb, ht_entries = es\<rparr>"
    using mb12 len' le kraft es(2) lw by (auto simp: huff_table_for_def Let_def mb_def)
  ultimately show ?thesis using lw(1) by (auto simp: all_def)
qed

lemma huff_build_table_cases:
  assumes len: "length weights \<le> 256"
  shows "(\<exists>e. huff_build_table weights = Err e) \<or>
    (\<exists>t lst. huff_build_table weights = Ok t \<and> 0 < lst \<and> huff_table_for (map unat weights @ [lst]) t)"
proof (cases "\<exists>e. huff_build_table weights = Err e")
  case False
  define ws where "ws = map unat weights"
  define tot where "tot = below ws 13"
  have ws12: "\<forall>w \<in> set ws. w \<le> 12" and sum: "sum_weights 0 (map unat weights) = Ok tot"
    using sum_weights_cases [of 0 ws] False by (auto simp: huff_build_table_def ws_def tot_def)
  have "tot \<le> 256 * 2 ^ 11"
    using below_bound [of ws 12] len by (simp add: tot_def ws_def)
  then have small: "tot < 2 ^ 32" by simp
  have tot0: "tot \<noteq> 0"
  proof
    assume "tot = 0"
    then show False using False sum by (simp add: huff_build_table_def)
  qed
  define mb where "mb = highbit32 tot + 1"
  have mb12: "mb \<le> 12"
  proof (rule ccontr)
    assume "\<not> mb \<le> 12"
    then have "HUF_TABLELOG_MAX < highbit32 tot + 1" by (simp add: mb_def HUF_TABLELOG_MAX_def)
    then show False using False sum tot0 by (simp add: huff_build_table_def Let_def)
  qed
  define left where "left = 2 ^ mb - tot"
  have guards1: "\<not> HUF_TABLELOG_MAX < mb" "usub (2 ^ mb) tot = (Ok left :: nat result)" "left \<noteq> 0"
    using mb12 highbit32_bounds [of tot] tot0 small
    by (simp_all add: HUF_TABLELOG_MAX_def left_def mb_def)
  note unfold1 = huff_build_table_def sum obind_simps if_not_P [OF tot0] Let_def mb_def [symmetric]
    if_not_P [OF guards1(1)] guards1(2)
  have land: "left AND (left - 1) = 0"
  proof (rule ccontr)
    assume "left AND (left - 1) \<noteq> 0"
    then have "huff_build_table weights = Err (CorruptTable ''huffman residual weight is not a power of two'')"
      unfolding unfold1 by (simp only: simp_thms if_True)
    then show False using False by simp
  qed
  have guard2: "\<not> (left = 0 \<or> left AND (left - 1) \<noteq> 0)" using guards1(3) land by simp
  have len': "length weights < 256"
  proof (rule ccontr)
    assume "\<not> length weights < 256"
    then have "256 < length (map unat weights @ [as_u8 (highbit32 left + 1)])" by simp
    then have "huff_build_table weights = Err (CorruptTable ''huffman alphabet exceeds 256'')"
      unfolding unfold1 if_not_P [OF guard2] by (simp only: if_True simp_thms)
    then show False using False by simp
  qed
  then show ?thesis
    using huff_build_core [of weights] ws12 tot0 small mb12 land
    unfolding left_def mb_def tot_def ws_def by metis
qed simp

text \<open>Weights that are complete with one more are accepted, and that one is derived.\<close>

lemma huff_build_table_Ok:
  assumes len: "length weights < 256" and ws: "\<forall>w \<in> set weights. unat w \<le> mb" and lst: "0 < lst" "lst \<le> mb" "mb \<le> 12"
    and kraft: "below (map unat weights @ [lst]) (Suc mb) = 2 ^ mb" and some: "\<exists>w \<in> set weights. w \<noteq> 0"
  shows "\<exists>t. huff_build_table weights = Ok t \<and> ht_max_bits t = mb \<and> huff_table_for (map unat weights @ [lst]) t"
proof -
  define tot where "tot = below (map unat weights) 13"
  have "below (map unat weights) (Suc mb) = tot"
    unfolding tot_def using ws lst(3) by (intro below_eq) fastforce
  then have tot: "tot + 2 ^ (lst - 1) = 2 ^ mb" using kraft lst(1,2) by (simp add: below_append_single)
  obtain w where w: "w \<in> set weights" "w \<noteq> 0" using some by blast
  then have "0 < unat w" by (simp add: unat_gt_0)
  then have "2 ^ (unat w - 1) \<le> tot"
    using below_member [of "unat w" "map unat weights" 13] w(1) ws lst(3) by (fastforce simp: tot_def)
  moreover have "(0::nat) < 2 ^ (unat w - 1)" by simp
  ultimately have tot0: "tot \<noteq> 0" by linarith
  obtain m where m: "mb = Suc m" using lst(1,2) by (cases mb) auto
  have "(2::nat) ^ (lst - 1) \<le> 2 ^ m" using lst(2) m by (intro power_increasing) auto
  moreover have "(0::nat) < 2 ^ (lst - 1)" "2 ^ mb = 2 * (2::nat) ^ m" using m by simp_all
  ultimately have "2 ^ m \<le> tot" "tot < 2 ^ Suc m" using tot unfolding power_Suc by linarith+
  moreover have "m < 32" using m lst(3) by simp
  ultimately have hb: "highbit32 tot = m" by (intro highbit32_unique)
  have "tot < 2 ^ mb" using tot by (metis less_add_same_cancel1 zero_less_numeral zero_less_power)
  also have "(2::nat) ^ mb \<le> 2 ^ 12" using lst(3) by (intro power_increasing) auto
  finally have small: "tot < 2 ^ 32" by simp
  have left: "2 ^ (highbit32 tot + 1) - tot = 2 ^ (lst - 1)" using tot hb m by simp
  have l: "highbit32 (2 ^ (lst - 1)) + 1 = lst"
    using highbit32_unique [of "lst - 1" "2 ^ (lst - 1)"] lst by simp
  have "(2 ^ (lst - 1) :: nat) AND (2 ^ (lst - 1) - 1) = 0"
    by (simp only: and_pow2_minus_1) simp
  from huff_build_core [of weights, folded tot_def, unfolded left l, OF _ tot0 small _ this len] ws lst(3) hb m
  show ?thesis by fastforce
qed

section \<open>The intervals tile the table\<close>

lemma cell_covered:
  "c < below ws (Suc mb) \<Longrightarrow> \<exists>s < length ws. 0 < ws ! s \<and> ws ! s \<le> mb
    \<and> hstart ws s \<le> c \<and> c < hstart ws s + 2 ^ (ws ! s - 1)"
proof (induction mb)
  case 0
  then show ?case by simp
next
  case (Suc mb)
  show ?case
  proof (cases "c < below ws (Suc mb)")
    case True
    then show ?thesis using Suc.IH by fastforce
  next
    case False
    define w p q where "w = Suc mb" and "p = (2::nat) ^ mb" and "q = (c - below ws w) div p"
    have "c < below ws w + count_list ws w * p" using Suc.prems by (simp add: below_Suc w_def p_def)
    then have "c - below ws w < count_list ws w * p" using False by (simp add: w_def)
    then have "q < count_list ws w" unfolding q_def by (rule less_mult_imp_div_less)
    then obtain s where s: "s < length ws" "ws ! s = w" "count_list (take s ws) w = q"
      using count_list_take_surj by metis
    have start: "hstart ws s = below ws w + q * p" using s by (simp add: hstart_def w_def p_def)
    have "q * p \<le> c - below ws w" "c - below ws w < q * p + p"
      using div_times_less_eq_dividend [of "c - below ws w" p] dividend_less_div_times [of p "c - below ws w"]
      by (simp_all add: q_def p_def add.commute)
    moreover have "below ws w \<le> c" using False by (simp add: w_def)
    ultimately have "hstart ws s \<le> c \<and> c < hstart ws s + p" unfolding start by linarith
    then have "hstart ws s \<le> c \<and> c < hstart ws s + 2 ^ (ws ! s - 1)" using s(2) by (simp add: w_def p_def)
    then show ?thesis using s by (auto simp: w_def)
  qed
qed

lemma below_aligned: "0 < w \<Longrightarrow> w \<le> v \<Longrightarrow> 2 ^ (w - 1) dvd below ws v - below ws w"
proof (induction v)
  case 0
  then show ?case by simp
next
  case (Suc v)
  show ?case
  proof (cases "w = Suc v")
    case True
    then show ?thesis by simp
  next
    case False
    then have v: "w \<le> v" "0 < v" using Suc.prems by simp_all
    then have "below ws (Suc v) - below ws w = (below ws v - below ws w) + count_list ws v * 2 ^ (v - 1)"
      using below_mono [OF v(1), of ws] by (simp add: below_Suc)
    moreover have "(2::nat) ^ (w - 1) dvd 2 ^ (v - 1)" using v(1) by (intro le_imp_power_dvd) simp
    ultimately show ?thesis using Suc.IH Suc.prems(1) v(1) by simp
  qed
qed

lemma hstart_aligned:
  assumes "below ws (Suc mb) = 2 ^ mb" and "0 < ws ! s" and "ws ! s \<le> mb"
  shows "2 ^ (ws ! s - 1) dvd hstart ws s"
proof -
  have "2 ^ (ws ! s - 1) dvd below ws (Suc mb) - below ws (ws ! s)"
    using below_aligned [OF assms(2), of "Suc mb"] assms(3) by simp
  moreover have "(2::nat) ^ (ws ! s - 1) dvd 2 ^ mb" using assms(3) by (intro le_imp_power_dvd) simp
  moreover have "below ws (ws ! s) \<le> 2 ^ mb"
    using below_mono [of "ws ! s" "Suc mb" ws] assms(1,3) by simp
  ultimately have "2 ^ (ws ! s - 1) dvd below ws (ws ! s)"
    using assms(1) by (metis dvd_diffD1)
  then show ?thesis by (simp add: hstart_def)
qed

definition huff_table_ok :: "huff_table \<Rightarrow> bool" where
  "huff_table_ok t \<longleftrightarrow> 1 \<le> ht_max_bits t \<and> ht_max_bits t \<le> 12 \<and> length (ht_entries t) = HUF_DTABLE_SIZE
     \<and> (\<forall>c < 2 ^ ht_max_bits t. 1 \<le> he_num_bits (ht_entries t ! c) \<and> he_num_bits (ht_entries t ! c) \<le> ht_max_bits t)"

lemma huff_entry_at_code:
  assumes "ht_max_bits t \<le> 12" and "c < 2 ^ ht_max_bits t"
  shows "huff_entry_at t c = ht_entries t ! c"
proof -
  have "(2::nat) ^ ht_max_bits t \<le> 2 ^ 12" using assms(1) by (intro power_increasing) auto
  then have "c AND (2 ^ 12 - 1) = c" using assms(2) by (simp only: and_pow2_minus_1) simp
  then show ?thesis by (simp add: huff_entry_at_def HUF_DTABLE_SIZE_def)
qed

lemma huff_table_for_cell:
  assumes "huff_table_for ws t" and "c < 2 ^ ht_max_bits t"
  obtains s where "s < length ws" and "0 < ws ! s" and "ws ! s \<le> ht_max_bits t"
    and "hstart ws s \<le> c" and "c < hstart ws s + 2 ^ (ws ! s - 1)"
    and "ht_entries t ! c = cell_entry (ht_max_bits t) ws s"
proof -
  obtain s where s: "s < length ws" "0 < ws ! s" "ws ! s \<le> ht_max_bits t"
    "hstart ws s \<le> c" "c < hstart ws s + 2 ^ (ws ! s - 1)"
    using cell_covered [of c ws "ht_max_bits t"] assms by (auto simp: huff_table_for_def Let_def)
  then have "ht_entries t ! c = cell_entry (ht_max_bits t) ws s"
    using assms(1) by (auto simp: huff_table_for_def filled_def Let_def)
  then show ?thesis using that s by blast
qed

lemma huff_table_for_ok: "huff_table_for ws t \<Longrightarrow> huff_table_ok t"
proof -
  assume t: "huff_table_for ws t"
  have "1 \<le> he_num_bits (ht_entries t ! c) \<and> he_num_bits (ht_entries t ! c) \<le> ht_max_bits t"
    if "c < 2 ^ ht_max_bits t" for c
    by (rule huff_table_for_cell [OF t that]) (auto simp: cell_entry_def)
  then show ?thesis using t by (auto simp: huff_table_ok_def huff_table_for_def filled_def Let_def)
qed

text \<open>The code word of a symbol, and the peeks that decode to it.\<close>

lemma huff_table_for_code:
  assumes t: "huff_table_for ws t" and s: "s < length ws" "0 < ws ! s" and c: "c < 2 ^ ht_max_bits t"
  shows "he_symbol (ht_entries t ! c) = word_of_nat s \<longleftrightarrow> c div 2 ^ (ws ! s - 1) = hstart ws s div 2 ^ (ws ! s - 1)"
    and "he_symbol (ht_entries t ! c) = word_of_nat s \<Longrightarrow> he_num_bits (ht_entries t ! c) = ht_max_bits t + 1 - ws ! s"
proof -
  have ws: "length ws \<le> 256" "ws ! s \<le> ht_max_bits t" "below ws (Suc (ht_max_bits t)) = 2 ^ ht_max_bits t"
    using t s(1) by (auto simp: huff_table_for_def Let_def)
  obtain v where v: "v < length ws" "0 < ws ! v" "hstart ws v \<le> c" "c < hstart ws v + 2 ^ (ws ! v - 1)"
    "ht_entries t ! c = cell_entry (ht_max_bits t) ws v"
    by (rule huff_table_for_cell [OF t c])
  have same: "he_symbol (ht_entries t ! c) = word_of_nat s \<longleftrightarrow> v = s"
  proof -
    have "unat (word_of_nat v :: byte) = v" "unat (word_of_nat s :: byte) = s"
      using v(1) s(1) ws(1) by (simp_all add: unat_word_of_nat_byte)
    then have "(word_of_nat v :: byte) = word_of_nat s \<longleftrightarrow> v = s" by metis
    then show ?thesis by (simp add: v(5) cell_entry_def)
  qed
  obtain k where k: "hstart ws s = 2 ^ (ws ! s - 1) * k"
    using hstart_aligned [OF ws(3) s(2) ws(2)] by (auto elim: dvdE)
  have "c div 2 ^ (ws ! s - 1) = k \<longleftrightarrow> hstart ws s \<le> c \<and> c < hstart ws s + 2 ^ (ws ! s - 1)"
  proof
    assume "c div 2 ^ (ws ! s - 1) = k"
    then show "hstart ws s \<le> c \<and> c < hstart ws s + 2 ^ (ws ! s - 1)"
      unfolding k using times_div_less_eq_dividend [of "2 ^ (ws ! s - 1)" c]
        dividend_less_times_div [of "2 ^ (ws ! s - 1)" c] by simp
  next
    assume "hstart ws s \<le> c \<and> c < hstart ws s + 2 ^ (ws ! s - 1)"
    then show "c div 2 ^ (ws ! s - 1) = k" unfolding k by (intro div_nat_eqI) (simp_all add: mult.commute)
  qed
  moreover have "(hstart ws s \<le> c \<and> c < hstart ws s + 2 ^ (ws ! s - 1)) \<longleftrightarrow> v = s"
    using hstart_disjoint [OF v(1) s(1) v(2) s(2)] v(3,4) by fastforce
  ultimately show "he_symbol (ht_entries t ! c) = word_of_nat s \<longleftrightarrow> c div 2 ^ (ws ! s - 1) = hstart ws s div 2 ^ (ws ! s - 1)"
    using same k by simp
  show "he_symbol (ht_entries t ! c) = word_of_nat s \<Longrightarrow> he_num_bits (ht_entries t ! c) = ht_max_bits t + 1 - ws ! s"
    using same v(5) by (simp add: cell_entry_def)
qed

section \<open>Reading a description returns\<close>

lemma direct_weights_Ok:
  "(\<And>i. i \<in> set is \<Longrightarrow> 1 + i div 2 < length src) \<Longrightarrow> \<exists>ws. direct_weights src is = Ok ws \<and> length ws = length is"
  by (induction "is") auto

lemma huff_build_table_post:
  "length weights \<le> 256 \<Longrightarrow> post (huff_build_table weights) huff_table_ok (\<lambda>e. True)"
  using huff_build_table_cases [of weights] huff_table_for_ok by auto

lemma fse_weights_post:
  "post (fse_weights src h) (\<lambda>(ws, n). length ws \<le> 256 \<and> n \<le> length src) (\<lambda>e. True)"
proof (cases "length src < 1 + h")
  case True
  then show ?thesis by (simp add: fse_weights_def)
next
  case False
  define desc where "desc = take h (drop 1 src)"
  have desc: "length desc = h" "slice_range src 1 (1 + h) = (Ok desc :: byte list result)"
    using False by (simp_all add: desc_def)
  show ?thesis
  proof (cases "read_ncount desc 6")
    case (Ok nc)
    then have nc: "valid_norm (nc_counts nc) (nc_max_symbol nc) (nc_table_log nc)"
      "5 \<le> nc_table_log nc" "nc_table_log nc \<le> 6" "nc_bytes_consumed nc \<le> h"
      using read_ncount_cases [of 6 desc] desc by auto
    obtain table where "build_dtable (nc_counts nc) (nc_max_symbol nc) (nc_table_log nc) = Ok table"
      using build_dtable_Ok [OF nc(1)] nc(2,3) by (auto simp: spread_log_def)
    then show ?thesis using Ok nc(4) False
      unfolding fse_weights_def if_not_P [OF False] desc(2)
      by (auto simp: wp intro: post_mono [OF fse_decompress_post])
  next
    case (Err e)
    then show ?thesis unfolding fse_weights_def if_not_P [OF False] desc(2) by simp
  qed (use read_ncount_cases [of 6 desc] in auto)
qed

lemma packed_weights_post:
  assumes "n \<le> 256"
  shows "post (packed_weights src n) (\<lambda>(ws, n). length ws \<le> 256 \<and> n \<le> length src) (\<lambda>e. True)"
proof (cases "length src < 1 + div_ceil n 2")
  case True
  then show ?thesis by (simp add: packed_weights_def Let_def)
next
  case False
  have "1 + i div 2 < length src" if "i \<in> set [0..<n]" for i
    using that False div_ceil_bounds(1) [of 2 n] by auto
  then obtain ws where "direct_weights src [0..<n] = Ok ws" "length ws = n"
    using direct_weights_Ok [of "[0..<n]" src] by auto
  then show ?thesis using False assms by (simp add: packed_weights_def Let_def)
qed

lemma huff_read_table_post:
  "post (huff_read_table src) (\<lambda>(t, n). huff_table_ok t \<and> n \<le> length src) (\<lambda>e. True)"
proof (cases "src = []")
  case True
  then show ?thesis by (simp add: huff_read_table_def)
next
  case False
  define h where "h = unat (src ! 0)"
  have "h < 256" by (simp add: h_def)
  then have "post (if h < 128 then fse_weights src h else packed_weights src (h - 127))
      (\<lambda>(ws, n). length ws \<le> 256 \<and> n \<le> length src) (\<lambda>e. True)"
    using fse_weights_post packed_weights_post by simp
  then show ?thesis
    using False unfolding huff_read_table_def
    by (auto simp: wp Let_def simp flip: h_def elim!: post_mono intro!: post_mono [OF huff_build_table_post])
qed

section \<open>Properties\<close>

text \<open>C16: the table built from an accepted list of Huffman weights is a complete prefix code. There
  are a code length limit \<open>mb\<close> and the weight \<open>lst\<close> of the implied last symbol, with which the
  lengths satisfy the Kraft equality; every symbol of weight \<open>w\<close> has a code word of \<open>mb + 1 - w\<close> bits,
  and a peek of \<open>mb\<close> bits decodes to the symbol exactly when it starts with that word.\<close>

theorem huff_table_prefix_code:
  assumes "length weights \<le> 256" and "huff_build_table weights = Ok t"
  shows "\<exists>lst code. let ws = map unat weights @ [lst]; mb = ht_max_bits t in
    1 \<le> mb \<and> mb \<le> 12 \<and> 0 < lst \<and> (\<forall>w \<in> set ws. w \<le> mb)
    \<and> sum_list (map (\<lambda>w. 2 ^ (w - 1)) (filter (\<lambda>w. 0 < w) ws)) = (2::nat) ^ mb
    \<and> (\<forall>s < length ws. 0 < ws ! s \<longrightarrow> (\<forall>c < 2 ^ mb.
         (he_symbol (huff_entry_at t c) = word_of_nat s \<longleftrightarrow> c div 2 ^ (ws ! s - 1) = code s)
         \<and> (he_symbol (huff_entry_at t c) = word_of_nat s \<longrightarrow> he_num_bits (huff_entry_at t c) = mb + 1 - ws ! s)))"
proof -
  obtain lst where lst: "0 < lst" and t: "huff_table_for (map unat weights @ [lst]) t"
    using huff_build_table_cases [OF assms(1)] assms(2) by auto
  define ws where "ws = map unat weights @ [lst]"
  define mb where "mb = ht_max_bits t"
  have t': "huff_table_for ws t" using t by (simp add: ws_def)
  have mb: "1 \<le> mb" "mb \<le> 12" "\<forall>w \<in> set ws. w \<le> mb" "below ws (Suc mb) = 2 ^ mb"
    using t' by (simp_all add: huff_table_for_def Let_def mb_def)
  have "filter (\<lambda>w. 0 < w) ws = filter (\<lambda>w. 0 < w \<and> w < Suc mb) ws"
    using mb(3) by (intro filter_cong) auto
  then have kraft: "sum_list (map (\<lambda>w. 2 ^ (w - 1)) (filter (\<lambda>w. 0 < w) ws)) = (2::nat) ^ mb"
    using mb(4) by (simp add: below_def)
  show ?thesis
    unfolding Let_def ws_def [symmetric] mb_def [symmetric]
  proof (intro exI [of _ lst] exI [of _ "\<lambda>s. hstart ws s div 2 ^ (ws ! s - 1)"], fold ws_def, intro conjI)
    show "\<forall>s < length ws. 0 < ws ! s \<longrightarrow> (\<forall>c < 2 ^ mb.
         (he_symbol (huff_entry_at t c) = word_of_nat s \<longleftrightarrow> c div 2 ^ (ws ! s - 1) = hstart ws s div 2 ^ (ws ! s - 1))
         \<and> (he_symbol (huff_entry_at t c) = word_of_nat s \<longrightarrow> he_num_bits (huff_entry_at t c) = mb + 1 - ws ! s))"
      using huff_table_for_code [OF t'] huff_entry_at_code [of t] mb(2) unfolding mb_def by simp
  qed (use mb kraft lst in auto)
qed

theorem huff_table_prefix_code_witness:
  "\<exists>t. huff_build_table [1, 1, 0, 2] = Ok t \<and> ht_max_bits t = 3
    \<and> (\<exists>lst. sum_list (map (\<lambda>w. 2 ^ (w - 1)) (filter (\<lambda>w. 0 < w) [1, 1, 0, 2, lst])) = (2::nat) ^ 3)"
proof -
  obtain t where t: "huff_build_table [1, 1, 0, 2] = Ok t" "ht_max_bits t = 3"
    using huff_build_table_Ok [of "[1, 1, 0, 2]" 3 3] by (auto simp: below_def)
  show ?thesis using t huff_table_prefix_code [OF _ t(1)] by (auto simp: Let_def)
qed

end
