(* ===== verification/Huff_Decode.thy ===== *)
theory Huff_Decode
  imports Huff
begin

text \<open>
  \<^verbatim>\<open>src/huff.rs\<close>, second half: decoding a literal stream. The crate has three loops for it: four
  symbols per reload with a tail (\<open>decode_into\<close>), and the same interleaved over four streams with
  two phases (\<open>decode_4stream\<close>). \<open>huf_many\<close>, one symbol and one refill at a time, is the reference:
  readers at the same position of the same stream (\<open>rbr_sim\<close>) decode alike, whenever they
  refilled, on corrupt streams too.
\<close>

section \<open>One symbol\<close>

text \<open>Peek, look up, consume: the common body of all the loops.\<close>

definition huf_plain :: "huff_table \<Rightarrow> reverse_reader \<Rightarrow> byte \<times> reverse_reader" where
  "huf_plain t br =
     (let code = rbr_peek br (ht_max_bits t);
          e = huff_entry_at t code in
      (he_symbol e, rbr_consume br (he_num_bits e)))"

definition huf_one :: "huff_table \<Rightarrow> reverse_reader \<Rightarrow> byte \<times> reverse_reader" where
  "huf_one t br = huf_plain t (rbr_ensure br (ht_max_bits t))"

section \<open>One stream\<close>

fun huf_run :: "huff_table \<Rightarrow> nat \<Rightarrow> reverse_reader \<Rightarrow> byte list \<Rightarrow> reverse_reader \<times> byte list" where
  "huf_run t 0 br out = (br, out)"
| "huf_run t (Suc k) br out = (let (s, br) = huf_plain t br in huf_run t k br (out @ [s]))"

function huf_fast ::
  "huff_table \<Rightarrow> nat \<Rightarrow> nat \<Rightarrow> reverse_reader \<Rightarrow> byte list \<Rightarrow> nat \<times> reverse_reader \<times> byte list" where
  "huf_fast t cnt i br out =
     (if i + 4 \<le> cnt then
        let (st, br) = rbr_reload br in
        if st = Unfinished then
          let (br, out) = huf_run t 4 br out in huf_fast t cnt (i + 4) br out
        else (i, br, out)
      else (i, br, out))"
  by pat_completeness auto
termination by (relation "measure (\<lambda>(t, cnt, i, br, out). cnt - i)") auto

function huf_tail :: "huff_table \<Rightarrow> nat \<Rightarrow> nat \<Rightarrow> reverse_reader \<Rightarrow> byte list \<Rightarrow> byte list" where
  "huf_tail t cnt i br out =
     (if i < cnt then
        let (st, br) = rbr_reload br;
            (s, br) = huf_plain t br in
        huf_tail t cnt (i + 1) br (out @ [s])
      else out)"
  by pat_completeness auto
termination by (relation "measure (\<lambda>(t, cnt, i, br, out). cnt - i)") auto

declare huf_fast.simps [simp del] huf_tail.simps [simp del]

definition huf_decode_into :: "huff_table \<Rightarrow> byte list \<Rightarrow> nat \<Rightarrow> byte list \<Rightarrow> byte list result" where
  "huf_decode_into t src cnt out =
     obind (rbr_new src) (\<lambda>br.
     let (i, br, out) = (if ht_max_bits t \<le> 14 then huf_fast t cnt 0 br out else (0, br, out)) in
     Ok (huf_tail t cnt i br out))"

definition huf_decode_1stream :: "huff_table \<Rightarrow> byte list \<Rightarrow> nat \<Rightarrow> byte list result" where
  "huf_decode_1stream t src regen_size = huf_decode_into t src regen_size []"

section \<open>Four streams\<close>

text \<open>A lane is a reader with the output segment it writes.\<close>

type_synonym lane = "reverse_reader \<times> byte list"

definition reload_all :: "lane list \<Rightarrow> bool \<times> lane list" where
  "reload_all lanes =
     (list_all (\<lambda>(r, d). fst (rbr_reload r) = Unfinished) lanes,
      map (\<lambda>(r, d). (snd (rbr_reload r), d)) lanes)"

fun step_all :: "(reverse_reader \<Rightarrow> byte \<times> reverse_reader) \<Rightarrow> nat \<Rightarrow> lane list \<Rightarrow> lane list result" where
  "step_all f i [] = Ok []"
| "step_all f i ((r, d) # lanes) =
     (let (s, r) = f r in
      obind (upd d i s) (\<lambda>d.
      obind (step_all f i lanes) (\<lambda>lanes.
      Ok ((r, d) # lanes))))"

fun step_run :: "huff_table \<Rightarrow> nat \<Rightarrow> nat list \<Rightarrow> lane list \<Rightarrow> lane list result" where
  "step_run t i [] lanes = Ok lanes"
| "step_run t i (k # ks) lanes =
     obind (step_all (huf_plain t) (i + k) lanes) (\<lambda>lanes.
     step_run t i ks lanes)"

function lanes_fast :: "huff_table \<Rightarrow> nat \<Rightarrow> nat \<Rightarrow> lane list \<Rightarrow> (nat \<times> lane list) result" where
  "lanes_fast t lim i lanes =
     (if i + 4 \<le> lim then
        let (full, lanes) = reload_all lanes in
        if full then
          obind (step_run t i [0..<4] lanes) (\<lambda>lanes. lanes_fast t lim (i + 4) lanes)
        else Ok (i, lanes)
      else Ok (i, lanes))"
  by pat_completeness auto
termination by (relation "measure (\<lambda>(t, lim, i, lanes). lim - i)") auto

function lanes_tail :: "huff_table \<Rightarrow> nat \<Rightarrow> nat \<Rightarrow> lane list \<Rightarrow> (nat \<times> lane list) result" where
  "lanes_tail t lim i lanes =
     (if i < lim then
        obind (step_all (huf_one t) i lanes) (\<lambda>lanes. lanes_tail t lim (i + 1) lanes)
      else Ok (i, lanes))"
  by pat_completeness auto
termination by (relation "measure (\<lambda>(t, lim, i, lanes). lim - i)") auto

declare lanes_fast.simps [simp del] lanes_tail.simps [simp del]

definition segment_bounds :: "byte list \<Rightarrow> nat \<Rightarrow> nat \<Rightarrow> unit result" where
  "segment_bounds src p len =
     (if length src < p + len then
        Err (Truncated ''huffman 4-stream segment'' (p + len - length src))
      else Ok ())"

definition u16_at :: "byte list \<Rightarrow> nat \<Rightarrow> nat result" where
  "u16_at src i = obind (idx src i) (\<lambda>a. obind (idx src (i + 1)) (\<lambda>b. Ok (unat a + 256 * unat b)))"

text \<open>The jump table: the four streams.\<close>

definition split_streams :: "byte list \<Rightarrow> (byte list \<times> byte list \<times> byte list \<times> byte list) result" where
  "split_streams src =
     (if length src < 6 then Err (Truncated ''huffman 4-stream jump table'' (6 - length src))
      else
        obind (u16_at src 0) (\<lambda>len1.
        obind (u16_at src 2) (\<lambda>len2.
        obind (u16_at src 4) (\<lambda>len3.
        let p = 6 in
        obind (segment_bounds src p len1) (\<lambda>_.
        obind (slice_range src p (p + len1)) (\<lambda>s1.
        let p = p + len1 in
        obind (segment_bounds src p len2) (\<lambda>_.
        obind (slice_range src p (p + len2)) (\<lambda>s2.
        let p = p + len2 in
        obind (segment_bounds src p len3) (\<lambda>_.
        obind (slice_range src p (p + len3)) (\<lambda>s3.
        let p = p + len3 in
        obind (slice_from src p) (\<lambda>s4.
        Ok (s1, s2, s3, s4))))))))))))"

definition huf_decode_4stream :: "huff_table \<Rightarrow> byte list \<Rightarrow> nat \<Rightarrow> byte list result" where
  "huf_decode_4stream t src regen_size =
     obind (split_streams src) (\<lambda>(s1, s2, s3, s4).
     let seg = div_ceil regen_size 4 in
     if regen_size < seg * 3 then
       Err (Invalid ''huffman 4-stream size'' (''regen '' @ dec regen_size @ '' too small for 4 streams''))
     else
     let lst = regen_size - seg * 3 in
     if seg < lst then Panic
     else
     obind (rbr_new s1) (\<lambda>r0.
     obind (rbr_new s2) (\<lambda>r1.
     obind (rbr_new s3) (\<lambda>r2.
     obind (rbr_new s4) (\<lambda>r3.
     obind (lanes_fast t lst 0 [(r0, replicate seg 0), (r1, replicate seg 0), (r2, replicate seg 0), (r3, replicate lst 0)])
       (\<lambda>(i, lanes).
     obind (lanes_tail t lst i lanes) (\<lambda>(i, lanes).
     obind (idx lanes 3) (\<lambda>(_, d).
     obind (lanes_fast t seg i (take 3 lanes)) (\<lambda>(i, lanes).
     obind (lanes_tail t seg i lanes) (\<lambda>(i, lanes).
     Ok (concat (map snd lanes) @ d)))))))))))"

section \<open>Readers at the same position\<close>

text \<open>The position is a difference that may go below zero on a stream that was read past its
  end; such a reader has its window at the start of the stream.\<close>

definition rbr_sim :: "reverse_reader \<Rightarrow> reverse_reader \<Rightarrow> bool" where
  "rbr_sim r r' \<longleftrightarrow> rbr_inv r \<and> rbr_inv r' \<and> rsrc r = rsrc r'
     \<and> 8 * int (rptr r) - int (rbits r) = 8 * int (rptr r') - int (rbits r')
     \<and> (rbits r \<le> 64 \<or> rptr r = 0) \<and> (rbits r' \<le> 64 \<or> rptr r' = 0)"

definition window :: "reverse_reader \<Rightarrow> nat \<Rightarrow> bool" where
  "window r n \<longleftrightarrow> rbits r + n \<le> 64 \<or> rptr r = 0"

lemma rbr_sim_sym: "rbr_sim r r' \<Longrightarrow> rbr_sim r' r"
  by (auto simp: rbr_sim_def)

lemma rbr_sim_refl: "rbr_ok r \<Longrightarrow> rbr_sim r r"
  by (simp add: rbr_sim_def rbr_ok_def)

lemma peek_sim:
  assumes sim: "rbr_sim r r'" and w: "window r n" "window r' n" and n: "n \<le> 32"
  shows "rbr_peek r n = rbr_peek r' n"
proof (cases "rptr r = 0 \<and> rptr r' = 0")
  case True
  then have "rbits r = rbits r'" "unat (rcontainer r) = unat (rcontainer r')"
    using sim by (simp_all add: rbr_sim_def rbr_inv_def)
  then have "rbits r = rbits r'" "rcontainer r = rcontainer r'" by (simp_all only: word_unat_eq_iff)
  then show ?thesis by (simp add: rbr_peek_def)
next
  case False
  then have fit: "rbits r + n \<le> 64" "rbits r' + n \<le> 64"
    using sim w by (auto simp: rbr_sim_def window_def)
  then have "rpos r = rpos r'" using sim by (auto simp: rbr_sim_def rpos_def)
  then show ?thesis
    using rbr_peek_spec [of r n] rbr_peek_spec [of r' n] fit n sim by (simp add: rbr_sim_def)
qed

lemma reload_sim:
  assumes "rbr_sim r r'"
  shows "rbr_sim (snd (rbr_reload r)) r'" and "n \<le> 57 \<Longrightarrow> window (snd (rbr_reload r)) n"
proof -
  have r: "rbits r \<le> 64 \<or> rptr r = 0" using assms by (simp add: rbr_sim_def)
  have inv: "rbr_inv (snd (rbr_reload r))" using assms by (simp add: rbr_sim_def rbr_reload_inv)
  show "rbr_sim (snd (rbr_reload r)) r'"
  proof (cases "rbits r \<le> 64")
    case True
    have "8 * int (rptr (snd (rbr_reload r))) - int (rbits (snd (rbr_reload r))) = 8 * int (rptr r) - int (rbits r)"
      using rbr_reload_pos [OF True] rbr_reload_bits(2) [OF True] True by (simp add: rpos_def)
    then show ?thesis using assms inv rbr_reload_bits(2) [OF True] by (simp add: rbr_sim_def)
  next
    case False
    then have "snd (rbr_reload r) = r" by (simp add: rbr_reload_def)
    then show ?thesis using assms by simp
  qed
  show "window (snd (rbr_reload r)) n" if "n \<le> 57"
  proof (cases "rbits r \<le> 64")
    case True
    then show ?thesis using rbr_reload_bits [OF True] that by (auto simp: window_def)
  next
    case False
    then show ?thesis using r by (simp add: rbr_reload_def window_def)
  qed
qed

lemma ensure_sim:
  assumes "rbr_sim r r'" and "n \<le> 57"
  shows "rbr_sim (rbr_ensure r n) r'" and "window (rbr_ensure r n) n"
  using reload_sim [OF assms(1)] assms by (auto simp: rbr_ensure_def window_def)

lemma consume_sim:
  assumes "rbr_sim r r'" and "window r n" and "window r' n"
  shows "rbr_sim (rbr_consume r n) (rbr_consume r' n)"
  using assms by (auto simp: rbr_sim_def rbr_consume_inv window_def) (auto simp: rbr_consume_def)

lemma window_mono: "window r n \<Longrightarrow> m \<le> n \<Longrightarrow> window r m"
  by (auto simp: window_def)

text \<open>Decoding one symbol with the window filled agrees with the reference, wherever the
  reference refills.\<close>

lemma huf_plain_sim:
  assumes t: "huff_table_ok t" and sim: "rbr_sim r r'" and w: "window r (ht_max_bits t)"
  shows "fst (huf_plain t r) = fst (huf_one t r')" and "rbr_sim (snd (huf_plain t r)) (snd (huf_one t r'))"
    and "window r (ht_max_bits t + k) \<Longrightarrow> window (snd (huf_plain t r)) k"
proof -
  define mb where "mb = ht_max_bits t"
  have mb: "mb \<le> 12" using t by (simp add: huff_table_ok_def mb_def)
  define q where "q = rbr_ensure r' mb"
  have q: "rbr_sim r q" "window q mb"
    using ensure_sim [OF rbr_sim_sym [OF sim], of mb] mb rbr_sim_sym by (auto simp: q_def)
  define e where "e = huff_entry_at t (rbr_peek r mb)"
  have "rbr_peek r mb < 2 ^ mb" using mb by (intro rbr_peek_less) simp
  then have nb: "he_num_bits e \<le> mb"
    using t huff_entry_at_code [of t "rbr_peek r mb"] by (simp add: huff_table_ok_def e_def mb_def)
  have peek: "rbr_peek q mb = rbr_peek r mb"
    using peek_sim [OF q(1) _ q(2)] w mb by (simp add: mb_def)
  have p: "huf_plain t r = (he_symbol e, rbr_consume r (he_num_bits e))"
    "huf_one t r' = (he_symbol e, rbr_consume q (he_num_bits e))"
    using peek by (simp_all add: huf_plain_def huf_one_def Let_def e_def q_def mb_def)
  show "fst (huf_plain t r) = fst (huf_one t r')" by (simp add: p)
  show "rbr_sim (snd (huf_plain t r)) (snd (huf_one t r'))"
    using consume_sim [OF q(1) window_mono [OF w, folded mb_def, OF nb] window_mono [OF q(2) nb]]
    by (simp add: p)
  show "window (snd (huf_plain t r)) k" if "window r (ht_max_bits t + k)"
    using that nb by (auto simp: p window_def rbr_consume_def mb_def)
qed

lemma huf_one_sim:
  assumes "huff_table_ok t" and "rbr_sim r r'"
  shows "fst (huf_one t r) = fst (huf_one t r')" and "rbr_sim (snd (huf_one t r)) (snd (huf_one t r'))"
proof -
  have "ht_max_bits t \<le> 57" using assms(1) by (simp add: huff_table_ok_def)
  note e = ensure_sim [OF assms(2) this]
  show "fst (huf_one t r) = fst (huf_one t r')" "rbr_sim (snd (huf_one t r)) (snd (huf_one t r'))"
    using huf_plain_sim(1,2) [OF assms(1) e] unfolding huf_one_def [of t r] by blast+
qed

section \<open>The reference\<close>

fun huf_many :: "huff_table \<Rightarrow> reverse_reader \<Rightarrow> nat \<Rightarrow> byte list \<times> reverse_reader" where
  "huf_many t r 0 = ([], r)"
| "huf_many t r (Suc n) = (let (ss, r) = huf_many t r n; (s, r) = huf_one t r in (ss @ [s], r))"

lemma length_huf_many [simp]: "length (fst (huf_many t r n)) = n"
  by (induction n) (simp_all add: case_prod_beta Let_def)

lemma take_huf_many: "m \<le> n \<Longrightarrow> take m (fst (huf_many t r n)) = fst (huf_many t r m)"
proof (induction n)
  case 0
  then show ?case by simp
next
  case (Suc n)
  then show ?case by (cases "m = Suc n") (simp_all add: case_prod_beta Let_def)
qed

text \<open>A reader that has decoded \<open>n\<close> symbols.\<close>

definition huf_at :: "huff_table \<Rightarrow> reverse_reader \<Rightarrow> nat \<Rightarrow> reverse_reader \<Rightarrow> bool" where
  "huf_at t r n q \<longleftrightarrow> rbr_sim q (snd (huf_many t r n))"

lemma huf_at_plain:
  assumes "huff_table_ok t" and "huf_at t r n q" and "window q (ht_max_bits t)"
  shows "huf_at t r (Suc n) (snd (huf_plain t q))"
    and "fst (huf_many t r (Suc n)) = fst (huf_many t r n) @ [fst (huf_plain t q)]"
    and "window q (ht_max_bits t + k) \<Longrightarrow> window (snd (huf_plain t q)) k"
  using huf_plain_sim [OF assms(1) assms(2) [unfolded huf_at_def] assms(3)]
  by (simp_all add: huf_at_def case_prod_beta Let_def)

lemma huf_at_one:
  assumes "huff_table_ok t" and "huf_at t r n q"
  shows "huf_at t r (Suc n) (snd (huf_one t q))"
    and "fst (huf_many t r (Suc n)) = fst (huf_many t r n) @ [fst (huf_one t q)]"
  using huf_one_sim [OF assms(1) assms(2) [unfolded huf_at_def]]
  by (simp_all add: huf_at_def case_prod_beta Let_def)

lemma huf_at_reload:
  "huf_at t r n q \<Longrightarrow> huf_at t r n (snd (rbr_reload q))"
  "huf_at t r n q \<Longrightarrow> k \<le> 57 \<Longrightarrow> window (snd (rbr_reload q)) k"
  using reload_sim unfolding huf_at_def by blast+

lemma huf_run_spec:
  assumes "huff_table_ok t"
  shows "huf_at t r n q \<Longrightarrow> window q (k * ht_max_bits t) \<Longrightarrow> out = pre @ fst (huf_many t r n) \<Longrightarrow>
    huf_at t r (n + k) (fst (huf_run t k q out))
    \<and> snd (huf_run t k q out) = pre @ fst (huf_many t r (n + k))"
proof (induction k arbitrary: n q out)
  case 0
  then show ?case by simp
next
  case (Suc k)
  have w: "window q (ht_max_bits t)" using Suc.prems(2) by (rule window_mono) simp
  note p = huf_at_plain [OF assms Suc.prems(1) w]
  obtain s q' where sq: "huf_plain t q = (s, q')" by (cases "huf_plain t q")
  have "window q' (k * ht_max_bits t)" using p(3) Suc.prems(2) sq by simp
  moreover have "out @ [s] = pre @ fst (huf_many t r (Suc n))" using p(2) Suc.prems(3) sq by simp
  ultimately show ?case using Suc.IH [of "Suc n" q' "out @ [s]"] p(1) sq by simp
qed

lemma huf_fast_spec:
  assumes t: "huff_table_ok t"
  shows "huf_at t r i q \<Longrightarrow> i \<le> cnt \<Longrightarrow>
    \<exists>j q'. huf_fast t cnt i q (pre @ fst (huf_many t r i)) = (j, q', pre @ fst (huf_many t r j))
      \<and> huf_at t r j q' \<and> j \<le> cnt"
proof (induction "cnt - i" arbitrary: i q rule: less_induct)
  case less
  obtain st q1 where rl: "rbr_reload q = (st, q1)" by (cases "rbr_reload q")
  have q1: "huf_at t r i q1" using huf_at_reload(1) [OF less.prems(1)] rl by simp
  show ?case
  proof (cases "i + 4 \<le> cnt \<and> st = Unfinished")
    case True
    have "4 * ht_max_bits t \<le> 57" using t by (simp add: huff_table_ok_def)
    then have "window q1 (4 * ht_max_bits t)" using huf_at_reload(2) [OF less.prems(1)] rl by simp
    then obtain q2 where q2: "huf_run t 4 q1 (pre @ fst (huf_many t r i)) = (q2, pre @ fst (huf_many t r (i + 4)))"
      "huf_at t r (i + 4) q2"
      using huf_run_spec [OF t q1 _ refl, of 4] by (metis prod.collapse)
    have "cnt - (i + 4) < cnt - i" using True by linarith
    from less.hyps [OF this q2(2)] True rl q2(1) show ?thesis
      by (subst huf_fast.simps) simp
  next
    case False
    then show ?thesis using q1 less.prems rl by (subst huf_fast.simps) auto
  qed
qed

lemma huf_tail_spec:
  assumes t: "huff_table_ok t"
  shows "huf_at t r i q \<Longrightarrow> i \<le> cnt \<Longrightarrow>
    huf_tail t cnt i q (pre @ fst (huf_many t r i)) = pre @ fst (huf_many t r cnt)"
proof (induction "cnt - i" arbitrary: i q)
  case 0
  then show ?case by (subst huf_tail.simps) simp
next
  case (Suc n)
  obtain st q1 where rl: "rbr_reload q = (st, q1)" by (cases "rbr_reload q")
  have "ht_max_bits t \<le> 57" using t by (simp add: huff_table_ok_def)
  then have q1: "huf_at t r i q1" "window q1 (ht_max_bits t)"
    using huf_at_reload [OF Suc.prems(1)] rl by simp_all
  obtain s q2 where sq: "huf_plain t q1 = (s, q2)" by (cases "huf_plain t q1")
  have q2: "huf_at t r (Suc i) q2" "fst (huf_many t r (Suc i)) = fst (huf_many t r i) @ [s]"
    using huf_at_plain(1,2) [OF t q1] sq by simp_all
  have "huf_tail t cnt (Suc i) q2 (pre @ fst (huf_many t r (Suc i))) = pre @ fst (huf_many t r cnt)"
    using Suc.hyps(2) by (intro Suc.hyps(1) q2) auto
  moreover have "i < cnt" using Suc.hyps(2) by simp
  ultimately show ?case
    using rl sq q2(2) by (subst huf_tail.simps) (simp del: huf_many.simps)
qed

text \<open>One stream decodes as the reference does.\<close>

lemma huf_decode_into_Ok:
  assumes "huff_table_ok t" and "rbr_new src = Ok r"
  shows "huf_decode_into t src cnt out = Ok (out @ fst (huf_many t r cnt))"
proof -
  have "huf_at t r 0 r" using rbr_new_Ok(1) [OF assms(2)] by (simp add: huf_at_def rbr_sim_refl)
  then obtain j q where fast: "huf_fast t cnt 0 r (out @ fst (huf_many t r 0)) = (j, q, out @ fst (huf_many t r j))"
    "huf_at t r j q" "j \<le> cnt"
    using huf_fast_spec [OF assms(1)] by blast
  have "ht_max_bits t \<le> 14" using assms(1) by (simp add: huff_table_ok_def)
  then show ?thesis
    using assms(2) fast huf_tail_spec [OF assms(1) fast(2,3)] by (simp add: huf_decode_into_def)
qed

section \<open>Lanes\<close>

text \<open>A lane that has decoded \<open>i\<close> symbols of the stream \<open>r\<close> into a segment of \<open>n\<close> bytes.\<close>

definition lane_at :: "huff_table \<Rightarrow> nat \<Rightarrow> reverse_reader \<times> nat \<Rightarrow> lane \<Rightarrow> bool" where
  "lane_at t i = (\<lambda>(r, n) (q, d). huf_at t r i q \<and> i \<le> n \<and> length d = n \<and> take i d = fst (huf_many t r i))"

lemma lane_write:
  assumes "i < length d" and "take i d = xs"
  shows "take (Suc i) (d[i := s]) = xs @ [s]"
  using assms by (simp add: take_Suc_conv_app_nth)

lemma step_all_spec:
  assumes "list_all2 (lane_at t i) rs lanes" and "\<forall>(r, n) \<in> set rs. i < n"
    and "\<And>r q. huf_at t r i q \<Longrightarrow> (q, d) \<in> set lanes \<or> True \<Longrightarrow> P q \<Longrightarrow>
      huf_at t r (Suc i) (snd (f q)) \<and> fst (huf_many t r (Suc i)) = fst (huf_many t r i) @ [fst (f q)] \<and> R (snd (f q))"
    and "\<forall>(q, d) \<in> set lanes. P q"
  shows "\<exists>lanes'. step_all f i lanes = Ok lanes' \<and> list_all2 (lane_at t (Suc i)) rs lanes' \<and> (\<forall>(q, d) \<in> set lanes'. R q)"
  using assms(1,2,4)
proof (induction rs lanes rule: list_all2_induct)
  case Nil
  then show ?case by simp
next
  case (Cons rn rs lane lanes)
  obtain r n q d where rn: "rn = (r, n)" "lane = (q, d)" by (cases rn, cases lane)
  obtain s q' where f: "f q = (s, q')" by (cases "f q")
  have at: "huf_at t r i q" "length d = n" "take i d = fst (huf_many t r i)" "i < n" "P q"
    using Cons.hyps(1) Cons.prems rn by (auto simp: lane_at_def)
  have q': "huf_at t r (Suc i) q'" "fst (huf_many t r (Suc i)) = fst (huf_many t r i) @ [s]" "R q'"
    using assms(3) [OF at(1) _ at(5)] f by auto
  have "lane_at t (Suc i) (r, n) (q', d[i := s])"
    using q' at lane_write [of i d "fst (huf_many t r i)" s] by (simp add: lane_at_def)
  with Cons.IH Cons.prems show ?case using rn f at q'(3) by auto
qed

lemma reload_all_spec:
  assumes "list_all2 (lane_at t i) rs lanes"
  shows "list_all2 (lane_at t i) rs (snd (reload_all lanes))"
    and "\<forall>(q, d) \<in> set (snd (reload_all lanes)). k \<le> 57 \<longrightarrow> window q k"
proof -
  show "list_all2 (lane_at t i) rs (snd (reload_all lanes))"
    using assms by (auto simp: reload_all_def list_all2_map2 lane_at_def case_prod_beta huf_at_reload(1)
        elim!: list_all2_mono)
  have "k \<le> 57 \<Longrightarrow> window (snd (rbr_reload q)) k" if mem: "(q, d) \<in> set lanes" for q d
  proof -
    obtain j where "j < length lanes" "lanes ! j = (q, d)" using mem by (auto simp: in_set_conv_nth)
    then have "lane_at t i (rs ! j) (q, d)" using list_all2_nthD2 [OF assms, of j] by simp
    then obtain r n where "lane_at t i (r, n) (q, d)" by (cases "rs ! j") auto
    then show "k \<le> 57 \<Longrightarrow> window (snd (rbr_reload q)) k" by (auto simp: lane_at_def intro: huf_at_reload(2))
  qed
  then show "\<forall>(q, d) \<in> set (snd (reload_all lanes)). k \<le> 57 \<longrightarrow> window q k"
    by (auto simp: reload_all_def)
qed

lemma step_run_spec:
  assumes t: "huff_table_ok t"
  shows "list_all2 (lane_at t (i + a)) rs lanes \<Longrightarrow> \<forall>(r, n) \<in> set rs. i + b \<le> n \<Longrightarrow> a \<le> b \<Longrightarrow>
    \<forall>(q, d) \<in> set lanes. window q ((b - a) * ht_max_bits t) \<Longrightarrow>
    \<exists>lanes'. step_run t i [a..<b] lanes = Ok lanes' \<and> list_all2 (lane_at t (i + b)) rs lanes'"
proof (induction "b - a" arbitrary: a lanes)
  case 0
  then show ?case by simp
next
  case (Suc m)
  then have ab: "a < b" "[a..<b] = a # [Suc a..<b]" by (simp_all add: upt_conv_Cons)
  have m: "b - a = Suc (b - Suc a)" using ab by simp
  have "\<exists>lanes'. step_all (huf_plain t) (i + a) lanes = Ok lanes' \<and> list_all2 (lane_at t (Suc (i + a))) rs lanes'
    \<and> (\<forall>(q, d) \<in> set lanes'. window q ((b - Suc a) * ht_max_bits t))"
  proof (rule step_all_spec [OF Suc.prems(1), where P = "\<lambda>q. window q ((b - a) * ht_max_bits t)"])
    show "\<forall>(r, n) \<in> set rs. i + a < n" using Suc.prems(2) ab by fastforce
    show "\<forall>(q, d) \<in> set lanes. window q ((b - a) * ht_max_bits t)" by (rule Suc.prems(4))
    fix r q
    assume q: "huf_at t r (i + a) q" "window q ((b - a) * ht_max_bits t)"
    then have w: "window q (ht_max_bits t)" "window q (ht_max_bits t + (b - Suc a) * ht_max_bits t)"
      by (auto simp: m intro: window_mono)
    show "huf_at t r (Suc (i + a)) (snd (huf_plain t q))
      \<and> fst (huf_many t r (Suc (i + a))) = fst (huf_many t r (i + a)) @ [fst (huf_plain t q)]
      \<and> window (snd (huf_plain t q)) ((b - Suc a) * ht_max_bits t)"
      using huf_at_plain [OF t q(1) w(1)] w(2) by blast
  qed
  then obtain lanes' where l: "step_all (huf_plain t) (i + a) lanes = Ok lanes'"
    "list_all2 (lane_at t (i + Suc a)) rs lanes'" "\<forall>(q, d) \<in> set lanes'. window q ((b - Suc a) * ht_max_bits t)"
    by auto
  from Suc.hyps(1) [OF _ l(2) Suc.prems(2) _ l(3)] Suc.hyps(2) ab l(1) show ?case by auto
qed

lemma lanes_fast_spec:
  assumes t: "huff_table_ok t"
  shows "list_all2 (lane_at t i) rs lanes \<Longrightarrow> \<forall>(r, n) \<in> set rs. lim \<le> n \<Longrightarrow> i \<le> lim \<Longrightarrow>
    \<exists>j lanes'. lanes_fast t lim i lanes = Ok (j, lanes') \<and> list_all2 (lane_at t j) rs lanes' \<and> j \<le> lim"
proof (induction "lim - i" arbitrary: i lanes rule: less_induct)
  case less
  obtain full lanes1 where rl: "reload_all lanes = (full, lanes1)" by (cases "reload_all lanes")
  have l1: "list_all2 (lane_at t i) rs lanes1" using reload_all_spec(1) [OF less.prems(1)] rl by simp
  show ?case
  proof (cases "i + 4 \<le> lim \<and> full")
    case False
    then show ?thesis using l1 less.prems rl by (subst lanes_fast.simps) auto
  next
    case True
    have "4 * ht_max_bits t \<le> 57" using t by (simp add: huff_table_ok_def)
    then have w: "\<forall>(q, d) \<in> set lanes1. window q ((4 - 0) * ht_max_bits t)"
      using reload_all_spec(2) [OF less.prems(1), of "4 * ht_max_bits t"] rl by simp
    have "\<forall>(r, n) \<in> set rs. i + 4 \<le> n" using less.prems(2) True by fastforce
    then obtain lanes2 where l2: "step_run t i [0..<4] lanes1 = Ok lanes2" "list_all2 (lane_at t (i + 4)) rs lanes2"
      using step_run_spec [OF t, of i 0 rs lanes1 4] l1 w by auto
    have "lim - (i + 4) < lim - i" using True by linarith
    from less.hyps [OF this l2(2) less.prems(2)] True rl l2(1) show ?thesis
      by (subst lanes_fast.simps) (simp del: upt_rec_numeral)
  qed
qed

lemma lanes_tail_spec:
  assumes t: "huff_table_ok t"
  shows "list_all2 (lane_at t i) rs lanes \<Longrightarrow> \<forall>(r, n) \<in> set rs. lim \<le> n \<Longrightarrow> i \<le> lim \<Longrightarrow>
    \<exists>lanes'. lanes_tail t lim i lanes = Ok (lim, lanes') \<and> list_all2 (lane_at t lim) rs lanes'"
proof (induction "lim - i" arbitrary: i lanes)
  case 0
  then show ?case by (subst lanes_tail.simps) simp
next
  case (Suc n)
  have "\<exists>lanes'. step_all (huf_one t) i lanes = Ok lanes' \<and> list_all2 (lane_at t (Suc i)) rs lanes'
    \<and> (\<forall>(q, d) \<in> set lanes'. True)"
    using huf_at_one [OF t] Suc.prems(2) Suc.hyps(2)
    by (intro step_all_spec [OF Suc.prems(1), where P = "\<lambda>_. True"]) fastforce+
  then obtain lanes' where l: "step_all (huf_one t) i lanes = Ok lanes'" "list_all2 (lane_at t (Suc i)) rs lanes'" by auto
  from Suc.hyps(1) [OF _ l(2) Suc.prems(2)] Suc.hyps(2) l(1) show ?case
    by (subst lanes_tail.simps) auto
qed

section \<open>The four-stream decoder\<close>

lemma lane_at_0: "rbr_ok r \<Longrightarrow> length d = n \<Longrightarrow> lane_at t 0 (r, n) (r, d)"
  by (simp add: lane_at_def huf_at_def rbr_sim_refl)

lemma lane_at_full: "lane_at t n (r, n) (q, d) \<Longrightarrow> d = fst (huf_many t r n)"
  by (auto simp: lane_at_def)

lemma split_streams_post:
  "post (split_streams src) (\<lambda>(s1, s2, s3, s4). length s1 + length s2 + length s3 + length s4 + 6 = length src) (\<lambda>e. True)"
  by (auto simp: split_streams_def u16_at_def segment_bounds_def wp Let_def)

lemma seg_lst:
  fixes n :: nat
  defines "seg \<equiv> div_ceil n 4"
  assumes "\<not> n < seg * 3"
  shows "n - seg * 3 \<le> seg" and "seg * 3 + (n - seg * 3) = n"
  using div_ceil_bounds(1) [of 4 n] assms by (simp_all add: seg_def)

lemma huf_decode_4stream_eq:
  assumes t: "huff_table_ok t"
    and split: "split_streams src = Ok (s1, s2, s3, s4)"
    and r: "rbr_new s1 = Ok r1" "rbr_new s2 = Ok r2" "rbr_new s3 = Ok r3" "rbr_new s4 = Ok r4"
    and n: "\<not> n < div_ceil n 4 * 3"
  shows "huf_decode_4stream t src n = Ok (
    fst (huf_many t r1 (div_ceil n 4)) @ fst (huf_many t r2 (div_ceil n 4)) @ fst (huf_many t r3 (div_ceil n 4))
    @ fst (huf_many t r4 (n - div_ceil n 4 * 3)))"
proof -
  define seg lst where "seg = div_ceil n 4" and "lst = n - seg * 3"
  have l: "lst \<le> seg" "\<not> n < seg * 3" using seg_lst(1) [OF n] n by (simp_all add: seg_def lst_def)
  let ?rs = "[(r1, seg), (r2, seg), (r3, seg), (r4, lst)]"
  let ?ls = "[(r1, replicate seg 0), (r2, replicate seg 0), (r3, replicate seg 0), (r4, replicate lst 0)]"
  have "list_all2 (lane_at t 0) ?rs ?ls"
    using r rbr_new_Ok(1) by (simp add: lane_at_0)
  moreover have "\<forall>(r, n) \<in> set ?rs. lst \<le> n" using l by auto
  ultimately obtain i1 ls1 where p1: "lanes_fast t lst 0 ?ls = Ok (i1, ls1)" "list_all2 (lane_at t i1) ?rs ls1" "i1 \<le> lst"
    using lanes_fast_spec [OF t, of 0 ?rs ?ls lst] by auto
  obtain ls2 where p2: "lanes_tail t lst i1 ls1 = Ok (lst, ls2)" "list_all2 (lane_at t lst) ?rs ls2"
    using lanes_tail_spec [OF t p1(2) _ p1(3)] l by auto
  then obtain a b c q d where ls2: "ls2 = [a, b, c, (q, d)]" "lane_at t lst (r1, seg) a" "lane_at t lst (r2, seg) b"
    "lane_at t lst (r3, seg) c" "lane_at t lst (r4, lst) (q, d)"
    by (auto simp: list_all2_Cons1)
  have d: "d = fst (huf_many t r4 lst)" by (rule lane_at_full [OF ls2(5)])
  let ?rs3 = "[(r1, seg), (r2, seg), (r3, seg)]"
  have "list_all2 (lane_at t lst) ?rs3 [a, b, c]" using ls2 by simp
  then obtain i3 ls3 where p3: "lanes_fast t seg lst [a, b, c] = Ok (i3, ls3)" "list_all2 (lane_at t i3) ?rs3 ls3" "i3 \<le> seg"
    using lanes_fast_spec [OF t, of lst ?rs3 "[a, b, c]" seg] l(1) by auto
  obtain ls4 where p4: "lanes_tail t seg i3 ls3 = Ok (seg, ls4)" "list_all2 (lane_at t seg) ?rs3 ls4"
    using lanes_tail_spec [OF t p3(2) _ p3(3)] by auto
  then obtain qa da qb db qc dc where ls4: "ls4 = [(qa, da), (qb, db), (qc, dc)]"
    "lane_at t seg (r1, seg) (qa, da)" "lane_at t seg (r2, seg) (qb, db)" "lane_at t seg (r3, seg) (qc, dc)"
    by (auto simp: list_all2_Cons1)
  have "huf_decode_4stream t src n = Ok (da @ db @ dc @ d)"
    unfolding huf_decode_4stream_def split obind_simps prod.case Let_def seg_def [symmetric] lst_def [symmetric]
      if_not_P [OF l(2)] r p1(1) p2(1)
    using l(1) p3(1) p4(1) ls4(1) by (simp add: ls2(1) not_less numeral_3_eq_3)
  then show ?thesis
    using lane_at_full [OF ls4(2)] lane_at_full [OF ls4(3)] lane_at_full [OF ls4(4)] d
    by (simp add: seg_def lst_def)
qed

lemma huf_decode_4stream_post:
  assumes "huff_table_ok t"
  shows "post (huf_decode_4stream t src n) (\<lambda>out. length out = n) (\<lambda>e. True)"
proof (cases "split_streams src")
  case (Ok ss)
  obtain s1 s2 s3 s4 where ss: "ss = (s1, s2, s3, s4)" by (cases ss)
  show ?thesis
  proof (cases "n < div_ceil n 4 * 3")
    case True
    then show ?thesis using Ok ss by (simp add: huf_decode_4stream_def Let_def)
  next
    case False
    have l: "\<not> div_ceil n 4 < n - div_ceil n 4 * 3" using seg_lst(1) [OF False] by simp
    show ?thesis
    proof (cases "\<exists>r1 r2 r3 r4. rbr_new s1 = Ok r1 \<and> rbr_new s2 = Ok r2 \<and> rbr_new s3 = Ok r3 \<and> rbr_new s4 = Ok r4")
      case True
      then show ?thesis
        using huf_decode_4stream_eq [OF assms Ok [unfolded ss] _ _ _ _ False] seg_lst(2) [OF False]
        by (elim exE conjE) (simp add: algebra_simps)
    next
      case no: False
      have "\<exists>e. huf_decode_4stream t src n = Err e"
        using no rbr_new_returns [of s1] rbr_new_returns [of s2] rbr_new_returns [of s3] rbr_new_returns [of s4]
        unfolding huf_decode_4stream_def Ok ss obind_simps prod.case Let_def if_not_P [OF False] if_not_P [OF l]
        by (cases "rbr_new s1"; cases "rbr_new s2"; cases "rbr_new s3"; cases "rbr_new s4") auto
      then show ?thesis by auto
    qed
  qed
qed (use split_streams_post [of src] in \<open>auto simp: huf_decode_4stream_def\<close>)

lemma huf_decode_1stream_post:
  assumes "huff_table_ok t"
  shows "post (huf_decode_1stream t src n) (\<lambda>out. length out = n) (\<lambda>e. True)"
proof (cases "rbr_new src")
  case (Ok r)
  then show ?thesis using huf_decode_into_Ok [OF assms Ok, of n "[]"] by (simp add: huf_decode_1stream_def)
qed (use rbr_new_returns [of src] in \<open>auto simp: huf_decode_1stream_def huf_decode_into_def\<close>)

section \<open>Properties\<close>

text \<open>C17: the interleaved four-stream Huffman decoder, with its two phases of fast loops and tails,
  computes what four separate single-stream decoders compute, one after the other: on every input
  that gets past the jump table and the size check, and with every table the crate builds. The
  streams may be corrupt or exhausted early.\<close>

theorem huf_4stream_is_four_1streams:
  assumes "huff_table_ok t"
    and "split_streams src = Ok (s1, s2, s3, s4)" and "div_ceil n 4 * 3 \<le> n"
  shows "huf_decode_4stream t src n =
    obind (huf_decode_1stream t s1 (div_ceil n 4)) (\<lambda>a.
    obind (huf_decode_1stream t s2 (div_ceil n 4)) (\<lambda>b.
    obind (huf_decode_1stream t s3 (div_ceil n 4)) (\<lambda>c.
    obind (huf_decode_1stream t s4 (n - div_ceil n 4 * 3)) (\<lambda>d.
    Ok (a @ b @ c @ d)))))"
proof -
  have n: "\<not> n < div_ceil n 4 * 3" using assms(3) by simp
  have one: "huf_decode_1stream t s m = obind (rbr_new s) (\<lambda>r. Ok (fst (huf_many t r m)))" for s m
    using rbr_new_returns [of s] huf_decode_into_Ok [OF assms(1), of s _ m "[]"]
    by (cases "rbr_new s") (simp_all add: huf_decode_1stream_def huf_decode_into_def)
  have l: "\<not> div_ceil n 4 < n - div_ceil n 4 * 3" using seg_lst(1) [OF n] by simp
  show ?thesis
  proof (cases "\<exists>r1 r2 r3 r4. rbr_new s1 = Ok r1 \<and> rbr_new s2 = Ok r2 \<and> rbr_new s3 = Ok r3 \<and> rbr_new s4 = Ok r4")
    case True
    then show ?thesis using huf_decode_4stream_eq [OF assms(1,2) _ _ _ _ n] by (auto simp: one)
  next
    case False
    then show ?thesis
      using rbr_new_returns [of s1] rbr_new_returns [of s2] rbr_new_returns [of s3] rbr_new_returns [of s4]
      unfolding huf_decode_4stream_def assms(2) obind_simps prod.case Let_def if_not_P [OF n] if_not_P [OF l] one
      by (cases "rbr_new s1"; cases "rbr_new s2"; cases "rbr_new s3"; cases "rbr_new s4") auto
  qed
qed

theorem huf_4stream_is_four_1streams_witness:
  "\<exists>t. huff_build_table [1, 1, 0, 2] = Ok t \<and> huf_decode_4stream t [1, 0, 1, 0, 1, 0, 5, 6, 7, 9] 8 =
    obind (huf_decode_1stream t [5] 2) (\<lambda>a. obind (huf_decode_1stream t [6] 2) (\<lambda>b.
    obind (huf_decode_1stream t [7] 2) (\<lambda>c. obind (huf_decode_1stream t [9] 2) (\<lambda>d. Ok (a @ b @ c @ d)))))"
proof -
  obtain t where t: "huff_build_table [1, 1, 0, 2] = Ok t"
    using huff_build_table_Ok [of "[1, 1, 0, 2]" 3 3] by (auto simp: below_def)
  have ok: "huff_table_ok t" using huff_build_table_post [of "[1, 1, 0, 2]"] t by simp
  have "split_streams [1, 0, 1, 0, 1, 0, 5, 6, 7, 9] = Ok ([5], [6], [7], [9 :: byte])"
    by (simp add: split_streams_def u16_at_def segment_bounds_def idx_def slice_range_def slice_from_def)
  from huf_4stream_is_four_1streams [OF ok this, of 8] t show ?thesis by (simp add: div_ceil_def)
qed

end
