(* ===== verification/Literals.thy ===== *)
theory Literals
  imports Huff_Decode
begin

text \<open>
  \<^verbatim>\<open>src/literals.rs\<close>: the literals section of a compressed block, in its four forms. The Huffman
  table cached for later treeless sections is the state: it is passed in and returned. A section
  that fails ends the decoding of its frame, so the cache after an error is not kept.
\<close>

unbundle bit_operations_syntax

section \<open>The header\<close>

definition lit_need :: "byte list \<Rightarrow> nat \<Rightarrow> unit result" where
  "lit_need src n =
     (if length src < n then Err (Truncated ''literals section'' (n - length src)) else Ok ())"

text \<open>Sizes of a raw or RLE section: the regenerated size and the length of the header.\<close>

definition parse_raw_header :: "byte list \<Rightarrow> nat \<Rightarrow> nat \<Rightarrow> (nat \<times> nat) result" where
  "parse_raw_header src b0 size_format =
     (if size_format = 0 \<or> size_format = 2 then Ok (b0 div 2 ^ 3, 1)
      else if size_format = 1 then
        obind (lit_need src 2) (\<lambda>_.
        obind (idx src 1) (\<lambda>b1.
        Ok ((b0 div 2 ^ 4) OR push_bit 4 (unat b1), 2)))
      else
        obind (lit_need src 3) (\<lambda>_.
        obind (idx src 1) (\<lambda>b1.
        obind (idx src 2) (\<lambda>b2.
        Ok ((b0 div 2 ^ 4) OR push_bit 4 (unat b1) OR push_bit 12 (unat b2), 3)))))"

text \<open>The first \<open>n\<close> bytes, or-ed together: all the compressed headers start with the byte \<open>b0\<close>.\<close>

definition header_value :: "byte list \<Rightarrow> nat \<Rightarrow> nat result" where
  "header_value src n =
     obind (lit_need src n) (\<lambda>_.
     obind (slice_range src 0 n) (\<lambda>bs.
     Ok (unat (or_le_bytes bs :: u64))))"

definition parse_compressed_header :: "byte list \<Rightarrow> nat \<Rightarrow> (nat \<times> nat \<times> nat \<times> bool) result" where
  "parse_compressed_header src size_format =
     (if size_format = 0 \<or> size_format = 1 then
        obind (header_value src 3) (\<lambda>v.
        Ok (v div 2 ^ 4 mod 2 ^ 10, v div 2 ^ 14 mod 2 ^ 10, 3, size_format = 1))
      else if size_format = 2 then
        obind (header_value src 4) (\<lambda>v.
        Ok (v div 2 ^ 4 mod 2 ^ 14, v div 2 ^ 18 mod 2 ^ 14, 4, True))
      else
        obind (header_value src 5) (\<lambda>v.
        Ok (v div 2 ^ 4 mod 2 ^ 18, v div 2 ^ 22 mod 2 ^ 18, 5, True)))"

section \<open>The section\<close>

text \<open>The table a compressed (type 2) or treeless (type 3) section uses, the stream behind it and
  the cache it leaves.\<close>

definition lit_table :: "nat \<Rightarrow> byte list \<Rightarrow> huff_table option \<Rightarrow> (huff_table \<times> byte list) result" where
  "lit_table block_type region cache =
     (if block_type = 2 then
        obind (huff_read_table region) (\<lambda>(table, tbytes).
        obind (slice_from region tbytes) (\<lambda>stream.
        Ok (table, stream)))
      else
        case cache of
          None \<Rightarrow> Err (Invalid ''treeless literals'' ''no cached Huffman table to reuse'')
        | Some table \<Rightarrow> Ok (table, region))"

definition literals_decode ::
  "byte list \<Rightarrow> huff_table option \<Rightarrow> (byte list \<times> nat \<times> huff_table option) result" where
  "literals_decode src cache =
     (if src = [] then Err (Truncated ''literals header'' 1)
      else
      obind (idx src 0) (\<lambda>b0.
      let b0 = unat b0;
          block_type = b0 mod 4;
          size_format = b0 div 4 mod 4 in
      if block_type = 0 \<or> block_type = 1 then
        obind (parse_raw_header src b0 size_format) (\<lambda>(regen, hdr).
        if block_type = 0 then
          obind (lit_need src (hdr + regen)) (\<lambda>_.
          obind (slice_range src hdr (hdr + regen)) (\<lambda>lits.
          Ok (lits, hdr + regen, cache)))
        else
          obind (lit_need src (hdr + 1)) (\<lambda>_.
          obind (idx src hdr) (\<lambda>b.
          Ok (replicate regen b, hdr + 1, cache))))
      else
        obind (parse_compressed_header src size_format) (\<lambda>(regen, comp, hdr, four).
        obind (lit_need src (hdr + comp)) (\<lambda>_.
        obind (slice_range src hdr (hdr + comp)) (\<lambda>region.
        obind (lit_table block_type region cache) (\<lambda>(table, stream).
        obind (if four then huf_decode_4stream table stream regen
               else huf_decode_1stream table stream regen) (\<lambda>lits.
        Ok (lits, hdr + comp, Some table))))))))"

section \<open>What the section guarantees\<close>

definition cache_ok :: "('a \<Rightarrow> bool) \<Rightarrow> 'a option \<Rightarrow> bool" where
  "cache_ok P c \<longleftrightarrow> (case c of None \<Rightarrow> True | Some x \<Rightarrow> P x)"

lemma cache_ok_simps [simp]: "cache_ok P None" "cache_ok P (Some x) \<longleftrightarrow> P x"
  by (simp_all add: cache_ok_def)

lemma lit_need_post [wp]:
  "post (lit_need src n) P Q \<longleftrightarrow>
    (if length src < n then Q (Truncated ''literals section'' (n - length src)) else P ())"
  by (simp add: lit_need_def)

lemma parse_raw_header_post:
  "0 < length src \<Longrightarrow> post (parse_raw_header src b0 f) (\<lambda>(regen, hdr). hdr \<le> length src \<and> 1 \<le> hdr) (\<lambda>_. True)"
  by (cases src) (auto simp: parse_raw_header_def wp Suc_le_eq)

lemma header_value_post:
  assumes "n \<le> 8"
  shows "post (header_value src n) (\<lambda>v. n \<le> length src \<and> v = le_val (take n src)) (\<lambda>_. True)"
  using assms by (auto simp: header_value_def wp or_le_bytes_eq unat_from_le_bytes_64)

lemma parse_compressed_header_post:
  "post (parse_compressed_header src f) (\<lambda>(regen, comp, hdr, four). regen < 2 ^ 18 \<and> 3 \<le> hdr) (\<lambda>_. True)"
proof -
  have 1: "v div 16 mod 1024 < 262144" "v div 16 mod 16384 < 262144" for v :: nat
    by (rule order_less_trans [of _ 1024] order_less_trans [of _ 16384]; simp)+
  show ?thesis
    unfolding parse_compressed_header_def
    by (auto simp: wp 1 intro!: post_mono [OF header_value_post])
qed

lemma lit_table_post:
  assumes "cache_ok huff_table_ok cache"
  shows "post (lit_table bt region cache) (\<lambda>(t, stream). huff_table_ok t) (\<lambda>_. True)"
  using assms
  by (auto simp: lit_table_def wp split: option.split intro!: post_mono [OF huff_read_table_post])

lemma literals_decode_post:
  assumes "cache_ok huff_table_ok cache"
  shows "post (literals_decode src cache)
    (\<lambda>(lits, consumed, cache'). consumed \<le> length src \<and> cache_ok huff_table_ok cache' \<and> 0 < consumed) (\<lambda>_. True)"
proof -
  show ?thesis
  proof (cases "src = []")
    case True
    then show ?thesis by (simp add: literals_decode_def)
  next
    case False
    then have len: "0 < length src" by simp
    show ?thesis
    proof (cases "unat (src ! 0) mod 4 = 0 \<or> unat (src ! 0) mod 4 = 1")
      case True
      show ?thesis
        unfolding literals_decode_def Let_def if_not_P [OF False] idx_Ok [OF len] obind_simps if_P [OF True]
        using assms by (auto simp: wp intro!: post_mono [OF parse_raw_header_post [OF len]])
    next
      case no: False
      show ?thesis
        unfolding literals_decode_def Let_def if_not_P [OF False] idx_Ok [OF len] obind_simps if_not_P [OF no]
        using assms
        by (auto simp: wp intro!: post_mono [OF parse_compressed_header_post]
            post_mono [OF lit_table_post [OF assms]] post_mono [OF huf_decode_4stream_post]
            post_mono [OF huf_decode_1stream_post])
    qed
  qed
qed

end
