(* ===== verification/Sequences.thy ===== *)
theory Sequences
  imports Literals Fse_Stream
begin

text \<open>
  \<^verbatim>\<open>src/sequences.rs\<close>: the sequences section. It holds the count of the sequences, the choice of
  the three FSE tables, and one backward bit stream from which the loop reads a triple of offset,
  match length and literals length per sequence; each copies literals and then a match from the
  output already written. The output vector (dictionary history in front), the cached tables and
  the three repeat offsets are the state.
\<close>

section \<open>Tables\<close>

record seq_tables =
  st_ll :: "fse_table option"
  st_of :: "fse_table option"
  st_ml :: "fse_table option"

definition default_seq_tables :: seq_tables where
  "default_seq_tables = \<lparr>st_ll = None, st_of = None, st_ml = None\<rparr>"

definition LL_BASE :: "nat list" where
  "LL_BASE = [0, 1, 2, 3, 4, 5, 6, 7, 8, 9, 10, 11, 12, 13, 14, 15, 16, 18, 20, 22, 24, 28, 32, 40, 48, 64,
    128, 256, 512, 1024, 2048, 4096, 8192, 16384, 32768, 65536]"

definition LL_BITS :: "nat list" where
  "LL_BITS = [0, 0, 0, 0, 0, 0, 0, 0, 0, 0, 0, 0, 0, 0, 0, 0, 1, 1, 1, 1, 2, 2, 3, 3, 4, 6, 7, 8, 9, 10, 11,
    12, 13, 14, 15, 16]"

definition ML_BASE :: "nat list" where
  "ML_BASE = [3, 4, 5, 6, 7, 8, 9, 10, 11, 12, 13, 14, 15, 16, 17, 18, 19, 20, 21, 22, 23, 24, 25, 26, 27,
    28, 29, 30, 31, 32, 33, 34, 35, 37, 39, 41, 43, 47, 51, 59, 67, 83, 99, 131, 259, 515, 1027,
    2051, 4099, 8195, 16387, 32771, 65539]"

definition ML_BITS :: "nat list" where
  "ML_BITS = [0, 0, 0, 0, 0, 0, 0, 0, 0, 0, 0, 0, 0, 0, 0, 0, 0, 0, 0, 0, 0, 0, 0, 0, 0, 0, 0, 0, 0, 0, 0, 0,
    1, 1, 1, 1, 2, 2, 3, 3, 4, 4, 5, 7, 8, 9, 10, 11, 12, 13, 14, 15, 16]"

definition LL_DEFAULT :: "int list" where
  "LL_DEFAULT = [4, 3, 2, 2, 2, 2, 2, 2, 2, 2, 2, 2, 2, 1, 1, 1, 2, 2, 2, 2, 2, 2, 2, 2, 2, 3, 2, 1, 1, 1, 1, 1,
    -1, -1, -1, -1]"

definition OF_DEFAULT :: "int list" where
  "OF_DEFAULT = [1, 1, 1, 1, 1, 1, 2, 2, 2, 1, 1, 1, 1, 1, 1, 1, 1, 1, 1, 1, 1, 1, 1, 1, -1, -1, -1, -1, -1]"

definition ML_DEFAULT :: "int list" where
  "ML_DEFAULT = [1, 4, 3, 2, 2, 2, 2, 2, 2, 1, 1, 1, 1, 1, 1, 1, 1, 1, 1, 1, 1, 1, 1, 1, 1, 1, 1, 1, 1, 1, 1, 1,
    1, 1, 1, 1, 1, 1, 1, 1, 1, 1, 1, 1, 1, 1, -1, -1, -1, -1, -1, -1, -1]"

datatype seq_mode = Predefined | Rle byte | Fse_Mode fse_table | Repeat

text \<open>A mode and the input position behind its description.\<close>

definition parse_mode :: "nat \<Rightarrow> byte list \<Rightarrow> nat \<Rightarrow> nat \<Rightarrow> (seq_mode \<times> nat) result" where
  "parse_mode raw src p max_log =
     (if raw = 0 then Ok (Predefined, p)
      else if raw = 1 then
        if length src \<le> p then Err (Truncated ''RLE sequence symbol'' 1)
        else obind (idx src p) (\<lambda>s. Ok (Rle s, p + 1))
      else if raw = 2 then
        obind (slice_from src p) (\<lambda>desc.
        obind (read_ncount desc max_log) (\<lambda>nc.
        let p = p + nc_bytes_consumed nc in
        obind (build_dtable (nc_counts nc) (nc_max_symbol nc) (nc_table_log nc)) (\<lambda>t.
        Ok (Fse_Mode t, p))))
      else Ok (Repeat, p))"

definition rle_table :: "byte \<Rightarrow> fse_table" where
  "rle_table symbol =
     \<lparr>ft_log = 0,
      ft_entries = (replicate FSE_DTABLE_SIZE default_fse_entry)
        [0 := \<lparr>fe_symbol = symbol, fe_num_bits = 0, fe_new_state_base = 0\<rparr>]\<rparr>"

text \<open>The table of a channel; the cache of the channel holds it afterwards.\<close>

definition resolve_table ::
  "seq_mode \<Rightarrow> int list \<Rightarrow> nat \<Rightarrow> nat \<Rightarrow> fse_table option \<Rightarrow> string \<Rightarrow> fse_table result" where
  "resolve_table m default_dist default_max_symbol default_log cache name =
     (case m of
        Repeat \<Rightarrow>
          (case cache of
             Some t \<Rightarrow> Ok t
           | None \<Rightarrow> Err (Invalid ''repeat sequence table'' (''no cached '' @ name @ '' table to repeat'')))
      | Predefined \<Rightarrow> build_dtable default_dist default_max_symbol default_log
      | Rle s \<Rightarrow> Ok (rle_table s)
      | Fse_Mode t \<Rightarrow> Ok t)"

section \<open>Repeat offsets\<close>

type_synonym rep_offsets = "nat \<times> nat \<times> nat"

text \<open>The offset a sequence copies from, and the three offsets after it.\<close>

definition resolve_offset :: "rep_offsets \<Rightarrow> nat \<Rightarrow> bool \<Rightarrow> (nat \<times> rep_offsets) result" where
  "resolve_offset rep offset_value ll0 =
     (let (r0, r1, r2) = rep in
      if 3 < offset_value then Ok (offset_value - 3, (offset_value - 3, r0, r1))
      else
        obind (usub offset_value 1) (\<lambda>v.
        let rep_code = v + (if ll0 then 1 else 0) in
        if rep_code = 0 then Ok (r0, rep)
        else
          let off = (if rep_code = 3 then r0 - 1 else if rep_code = 1 then r1 else r2);
              r2 = (if 2 \<le> rep_code then r1 else r2) in
          Ok (off, (off, r0, r2))))"

section \<open>Copying a match\<close>

definition extend_from_within :: "byte list \<Rightarrow> nat \<Rightarrow> nat \<Rightarrow> byte list result" where
  "extend_from_within out a b = obind (slice_range out a b) (\<lambda>s. Ok (out @ s))"

definition CHUNK :: nat where
  "CHUNK = 64"

function fill_chunk :: "byte list \<Rightarrow> nat \<Rightarrow> byte list result" where
  "fill_chunk chunk fill =
     (if fill < CHUNK then
        let n = min fill (CHUNK - fill) in
        if n = 0 then Hang
        else fill_chunk (take fill chunk @ take n chunk @ drop (fill + n) chunk) (fill + n)
      else Ok chunk)"
  by pat_completeness auto
termination by (relation "measure (\<lambda>(chunk, fill). CHUNK - fill)") (auto simp: CHUNK_def min_def)

function push_chunks :: "byte list \<Rightarrow> byte list \<Rightarrow> nat \<Rightarrow> byte list \<times> nat" where
  "push_chunks out chunk remaining =
     (if CHUNK \<le> remaining then push_chunks (out @ chunk) chunk (remaining - CHUNK)
      else (out, remaining))"
  by pat_completeness auto
termination by (relation "measure (\<lambda>(out, chunk, remaining). remaining)") (auto simp: CHUNK_def)

definition copy_power_of_two_pattern :: "byte list \<Rightarrow> nat \<Rightarrow> nat \<Rightarrow> nat \<Rightarrow> byte list result" where
  "copy_power_of_two_pattern out start off match_len =
     obind (slice_range out start (start + off)) (\<lambda>pat.
     obind (fill_chunk (pat @ replicate (CHUNK - off) 0) off) (\<lambda>chunk.
     let (out, remaining) = push_chunks out chunk match_len in
     if 0 < remaining then
       obind (slice_range chunk 0 remaining) (\<lambda>s. Ok (out @ s))
     else Ok out))"

function copy_doubling :: "byte list \<Rightarrow> nat \<Rightarrow> nat \<Rightarrow> byte list result" where
  "copy_doubling out start remaining =
     (if 0 < remaining then
        obind (usub (length out) start) (\<lambda>avail.
        let n = min remaining avail in
        if n = 0 then Hang
        else
          obind (extend_from_within out start (start + n)) (\<lambda>out.
          copy_doubling out start (remaining - n)))
      else Ok out)"
  by pat_completeness auto
termination by (relation "measure (\<lambda>(out, start, remaining). remaining)") auto

declare fill_chunk.simps [simp del] push_chunks.simps [simp del] copy_doubling.simps [simp del]

definition copy_match :: "byte list \<Rightarrow> nat \<Rightarrow> nat \<Rightarrow> byte list result" where
  "copy_match out actual_offset match_len =
     obind (usub (length out) actual_offset) (\<lambda>start.
     if match_len \<le> actual_offset then extend_from_within out start (start + match_len)
     else if actual_offset = 1 then
       obind (idx out start) (\<lambda>b. Ok (out @ replicate match_len b))
     else if actual_offset \<in> {2, 4, 8} then
       copy_power_of_two_pattern out start actual_offset match_len
     else copy_doubling out start match_len)"

section \<open>One sequence\<close>

text \<open>The reader with the states of the three decoders, in the order literals length, offset,
  match length.\<close>

type_synonym seq_reader = "reverse_reader \<times> nat \<times> nat \<times> nat"

text \<open>The fields of a sequence: offset value, match length, literals length and whether the
  literals length code is zero.\<close>

type_synonym raw_seq = "nat \<times> nat \<times> nat \<times> bool"

definition seq_read ::
  "fse_table \<Rightarrow> fse_table \<Rightarrow> fse_table \<Rightarrow> seq_reader \<Rightarrow> (raw_seq \<times> reverse_reader) result" where
  "seq_read ll_table of_table ml_table r =
     (let (br, s_ll, s_of, s_ml) = r;
          ll_code = unat (fse_symbol ll_table s_ll);
          ml_code = unat (fse_symbol ml_table s_ml);
          of_code = unat (fse_symbol of_table s_of) in
      if length LL_BASE \<le> ll_code \<or> length ML_BASE \<le> ml_code \<or> 31 < of_code then
        Err (Invalid ''sequence code''
          (''ll '' @ dec ll_code @ '' / ml '' @ dec ml_code @ '' / of '' @ dec of_code @ '' out of range''))
      else
        let (x, br) = rbr_read_lazy br of_code;
            offset_value = 2 ^ of_code + x in
        obind (idx ML_BASE ml_code) (\<lambda>ml_base.
        obind (idx ML_BITS ml_code) (\<lambda>ml_bits.
        let (x, br) = rbr_read_lazy br ml_bits;
            match_len = ml_base + x in
        obind (idx LL_BASE ll_code) (\<lambda>ll_base.
        obind (idx LL_BITS ll_code) (\<lambda>ll_bits.
        let (x, br) = rbr_read_lazy br ll_bits;
            lit_len = ll_base + x in
        Ok ((offset_value, match_len, lit_len, ll_code = 0), br))))))"

text \<open>Bytes still allowed before the output ceiling.\<close>

definition headroom :: "nat \<Rightarrow> nat \<Rightarrow> byte list \<Rightarrow> nat result" where
  "headroom max_output dict_len out = obind (usub (length out) dict_len) (\<lambda>n. Ok (max_output - n))"

text \<open>The output state: position in the literals, output, repeat offsets.\<close>

type_synonym seq_out = "nat \<times> byte list \<times> rep_offsets"

definition seq_execute ::
  "byte list \<Rightarrow> nat \<Rightarrow> nat \<Rightarrow> raw_seq \<Rightarrow> seq_out \<Rightarrow> seq_out result" where
  "seq_execute literals dict_len max_output s st =
     (let (offset_value, match_len, lit_len, ll0) = s;
          (lit_pos, out, rep) = st in
      obind (resolve_offset rep offset_value ll0) (\<lambda>(actual_offset, rep).
      if actual_offset = 0 then Err (Invalid ''sequence offset'' ''zero offset'')
      else
      obind (headroom max_output dict_len out) (\<lambda>room.
      if room < lit_len + match_len then Err (OutputTooLarge max_output)
      else if length literals < lit_pos + lit_len then
        Err (Invalid ''sequence literals length''
          (''want '' @ dec lit_len @ '' literals at '' @ dec lit_pos @ '' of '' @ dec (length literals)))
      else
      obind (slice_range literals lit_pos (lit_pos + lit_len)) (\<lambda>lits.
      let out = out @ lits;
          lit_pos = lit_pos + lit_len in
      if length out < actual_offset then Err (OffsetTooLarge actual_offset (length out))
      else
      obind (copy_match out actual_offset match_len) (\<lambda>out.
      Ok (lit_pos, out, rep))))))"

text \<open>The state transitions between two sequences.\<close>

definition seq_advance :: "fse_table \<Rightarrow> fse_table \<Rightarrow> fse_table \<Rightarrow> seq_reader \<Rightarrow> reverse_reader \<Rightarrow> seq_reader" where
  "seq_advance ll_table of_table ml_table r br =
     (let (_, s_ll, s_of, s_ml) = r;
          e_ll = fse_entry_at ll_table s_ll;
          e_ml = fse_entry_at ml_table s_ml;
          e_of = fse_entry_at of_table s_of;
          br = rbr_ensure br (fe_num_bits e_ll + fe_num_bits e_ml + fe_num_bits e_of);
          (s_ll, br) = fse_update_with_entry e_ll br;
          (s_ml, br) = fse_update_with_entry e_ml br;
          (s_of, br) = fse_update_with_entry e_of br in
      (br, s_ll, s_of, s_ml))"

text \<open>The loop over the remaining sequences; the last one has no transition behind it.\<close>

fun seq_loop ::
  "fse_table \<Rightarrow> fse_table \<Rightarrow> fse_table \<Rightarrow> byte list \<Rightarrow> nat \<Rightarrow> nat \<Rightarrow> nat \<Rightarrow> seq_reader \<Rightarrow> seq_out \<Rightarrow> seq_out result" where
  "seq_loop llt oft mlt literals dict_len max_output 0 r st = Ok st"
| "seq_loop llt oft mlt literals dict_len max_output (Suc n) r st =
     obind (seq_read llt oft mlt r) (\<lambda>(s, br).
     obind (seq_execute literals dict_len max_output s st) (\<lambda>st.
     let r = (if 0 < n then seq_advance llt oft mlt r br else r) in
     seq_loop llt oft mlt literals dict_len max_output n r st))"

section \<open>The section\<close>

text \<open>The number of sequences and the length of its encoding.\<close>

definition sequence_count :: "byte list \<Rightarrow> (nat \<times> nat) result" where
  "sequence_count src =
     (if src = [] then Err (Truncated ''sequences header'' 1)
      else
      obind (idx src 0) (\<lambda>b. let b0 = unat b in
      if b0 < 128 then Ok (b0, 1)
      else if b0 < 255 then
        if length src < 2 then Err (Truncated ''sequence count'' (2 - length src))
        else obind (idx src 1) (\<lambda>b1. Ok ((b0 - 128) * 2 ^ 8 + unat b1, 2))
      else
        if length src < 3 then Err (Truncated ''sequence count'' (3 - length src))
        else obind (idx src 1) (\<lambda>b1. obind (idx src 2) (\<lambda>b2. Ok (unat b1 + unat b2 * 2 ^ 8 + 0x7F00, 3)))))"

text \<open>The three tables of a block and the input behind them.\<close>

definition seq_block_tables ::
  "byte list \<Rightarrow> nat \<Rightarrow> seq_tables \<Rightarrow> (fse_table \<times> fse_table \<times> fse_table \<times> byte list) result" where
  "seq_block_tables src p tables =
     (if length src \<le> p then Err (Truncated ''sequence compression modes'' 1)
      else
      obind (idx src p) (\<lambda>modes.
      let p = p + 1;
          ll_mode = unat modes div 2 ^ 6 mod 4;
          of_mode = unat modes div 2 ^ 4 mod 4;
          ml_mode = unat modes div 2 ^ 2 mod 4 in
      obind (parse_mode ll_mode src p 9) (\<lambda>(ll, p).
      obind (parse_mode of_mode src p 8) (\<lambda>(ofm, p).
      obind (parse_mode ml_mode src p 9) (\<lambda>(ml, p).
      obind (resolve_table ll LL_DEFAULT 35 6 (st_ll tables) ''LL'') (\<lambda>ll_table.
      obind (resolve_table ofm OF_DEFAULT 28 5 (st_of tables) ''OF'') (\<lambda>of_table.
      obind (resolve_table ml ML_DEFAULT 52 6 (st_ml tables) ''ML'') (\<lambda>ml_table.
      obind (slice_from src p) (\<lambda>bitstream.
      Ok (ll_table, of_table, ml_table, bitstream))))))))))"

definition seq_open :: "fse_table \<Rightarrow> fse_table \<Rightarrow> fse_table \<Rightarrow> byte list \<Rightarrow> seq_reader result" where
  "seq_open ll_table of_table ml_table bitstream =
     obind (rbr_new bitstream) (\<lambda>br.
     let (s_ll, br) = fse_init ll_table br;
         (s_of, br) = fse_init of_table br;
         (s_ml, br) = fse_init ml_table br in
     Ok (br, s_ll, s_of, s_ml))"

text \<open>The literals behind the last sequence.\<close>

definition seq_trailing :: "byte list \<Rightarrow> nat \<Rightarrow> nat \<Rightarrow> seq_out \<Rightarrow> (byte list \<times> rep_offsets) result" where
  "seq_trailing literals dict_len max_output st =
     (let (lit_pos, out, rep) = st in
      obind (usub (length literals) lit_pos) (\<lambda>remaining.
      obind (headroom max_output dict_len out) (\<lambda>room.
      if room < remaining then Err (OutputTooLarge max_output)
      else
        obind (slice_from literals lit_pos) (\<lambda>lits.
        Ok (out @ lits, rep)))))"

definition decode_capped ::
  "byte list \<Rightarrow> byte list \<Rightarrow> byte list \<Rightarrow> seq_tables \<Rightarrow> rep_offsets \<Rightarrow> nat \<Rightarrow> nat
     \<Rightarrow> (byte list \<times> seq_tables \<times> rep_offsets) result" where
  "decode_capped src literals out tables rep dict_len max_output =
     obind (sequence_count src) (\<lambda>(nb_seq, p).
     if nb_seq = 0 then
       obind (headroom max_output dict_len out) (\<lambda>room.
       if room < length literals then Err (OutputTooLarge max_output)
       else Ok (out @ literals, tables, rep))
     else
     obind (seq_block_tables src p tables) (\<lambda>(ll_table, of_table, ml_table, bitstream).
     let tables = \<lparr>st_ll = Some ll_table, st_of = Some of_table, st_ml = Some ml_table\<rparr> in
     obind (seq_open ll_table of_table ml_table bitstream) (\<lambda>r.
     obind (seq_loop ll_table of_table ml_table literals dict_len max_output nb_seq r (0, out, rep)) (\<lambda>st.
     obind (seq_trailing literals dict_len max_output st) (\<lambda>(out, rep).
     Ok (out, tables, rep))))))"

section \<open>A match is copied byte by byte\<close>

text \<open>The reference: every byte of a match is the one \<open>off\<close> positions back at that moment.\<close>

fun lz_copy :: "byte list \<Rightarrow> nat \<Rightarrow> nat \<Rightarrow> byte list" where
  "lz_copy out off 0 = out"
| "lz_copy out off (Suc n) = lz_copy (out @ [out ! (length out - off)]) off n"

definition match_bytes :: "byte list \<Rightarrow> nat \<Rightarrow> nat \<Rightarrow> byte list" where
  "match_bytes out off n = map (\<lambda>i. out ! (length out - off + i mod off)) [0..<n]"

lemma length_match_bytes [simp]: "length (match_bytes out off n) = n"
  by (simp add: match_bytes_def)

lemma match_bytes_prefix: "m \<le> n \<Longrightarrow> take m (match_bytes out off n) = match_bytes out off m"
  by (simp add: match_bytes_def take_map)

text \<open>The match is periodic with the offset: what was copied can serve as the source.\<close>

lemma history_nth:
  assumes "0 < off" and "off \<le> length out" and "i < off + n"
  shows "(out @ match_bytes out off n) ! (length out - off + i) = out ! (length out - off + i mod off)"
proof (cases "i < off")
  case True
  then have "length out - off + i < length out" using assms(2) by linarith
  then show ?thesis using True by (simp add: nth_append)
next
  case False
  then have "\<not> length out - off + i < length out" "length out - off + i - length out = i - off"
    using assms by linarith+
  then have "(out @ match_bytes out off n) ! (length out - off + i) = match_bytes out off n ! (i - off)"
    by (simp add: nth_append)
  also have "i - off < n" using assms False by linarith
  then have "match_bytes out off n ! (i - off) = out ! (length out - off + (i - off) mod off)"
    by (simp add: match_bytes_def)
  also have "(i - off) mod off = i mod off" using False by (simp add: le_mod_geq)
  finally show ?thesis .
qed

lemma lz_copy_append:
  assumes "0 < off" and "off \<le> length out"
  shows "lz_copy (out @ match_bytes out off k) off n = out @ match_bytes out off (k + n)"
proof (induction n arbitrary: k)
  case 0
  then show ?case by simp
next
  case (Suc n)
  have "length out + k - off = length out - off + k" using assms by simp
  then have "(out @ match_bytes out off k) ! (length out + k - off) = out ! (length out - off + k mod off)"
    using history_nth [OF assms, of k k] assms by simp
  then have "(out @ match_bytes out off k) @ [(out @ match_bytes out off k) ! (length out + k - off)]
      = out @ match_bytes out off (Suc k)"
    by (simp add: match_bytes_def)
  then show ?case using Suc [of "Suc k"] by simp
qed

lemma lz_copy_eq:
  assumes "0 < off" and "off \<le> length out"
  shows "lz_copy out off n = out @ match_bytes out off n"
  using lz_copy_append [OF assms, of 0 n] by (simp add: match_bytes_def)

lemma source_slice:
  assumes "0 < off" and "off \<le> length out" and "m \<le> off + n"
  shows "take m (drop (length out - off) (out @ match_bytes out off n)) = match_bytes out off m"
proof (rule nth_equalityI)
  show "length (take m (drop (length out - off) (out @ match_bytes out off n))) = length (match_bytes out off m)"
    using assms by simp
next
  fix i assume "i < length (take m (drop (length out - off) (out @ match_bytes out off n)))"
  then have i: "i < m" by simp
  have "take m (drop (length out - off) (out @ match_bytes out off n)) ! i
      = (out @ match_bytes out off n) ! (length out - off + i)"
    using i by (subst nth_take) (simp_all only: nth_drop length_append diff_le_self trans_le_add1)
  also have "\<dots> = out ! (length out - off + i mod off)"
    using i assms(3) by (intro history_nth [OF assms(1,2)]) simp
  finally show "take m (drop (length out - off) (out @ match_bytes out off n)) ! i = match_bytes out off m ! i"
    using i by (simp add: match_bytes_def)
qed

lemma mod_diff_dvd: "off dvd k \<Longrightarrow> k \<le> i \<Longrightarrow> (i - k) mod off = (i :: nat) mod off"
  by (metis le_add_diff_inverse2 mod_add_right_eq add.right_neutral dvd_imp_mod_0)

lemma match_bytes_add:
  assumes "off dvd k"
  shows "match_bytes out off (k + n) = match_bytes out off k @ match_bytes out off n"
proof (rule nth_equalityI)
  fix i assume "i < length (match_bytes out off (k + n))"
  then have i: "i < k + n" by simp
  show "match_bytes out off (k + n) ! i = (match_bytes out off k @ match_bytes out off n) ! i"
  proof (cases "i < k")
    case True
    then show ?thesis using i by (simp add: match_bytes_def nth_append)
  next
    case False
    then have "i - k < n" using i by simp
    then show ?thesis using i False mod_diff_dvd [OF assms, of i] by (simp add: match_bytes_def nth_append)
  qed
qed simp

section \<open>The four ways to copy a match\<close>

lemma fill_chunk_Ok:
  assumes "length pat = CHUNK" and "0 < fill" and "fill \<le> CHUNK" and "fill < CHUNK \<Longrightarrow> off dvd fill" and "0 < off"
    and "\<forall>i < fill. pat ! i = src (i mod off)"
  shows "fill_chunk pat fill = Ok (map (\<lambda>i. src (i mod off)) [0..<CHUNK])"
  using assms
proof (induction "CHUNK - fill" arbitrary: pat fill rule: less_induct)
  case less
  show ?case
  proof (cases "fill < CHUNK")
    case False
    then have "pat = map (\<lambda>i. src (i mod off)) [0..<CHUNK]"
      using less.prems by (intro nth_equalityI) auto
    then show ?thesis using False by (subst fill_chunk.simps) simp
  next
    case True_fill: True
    define n where "n = min fill (CHUNK - fill)"
    define pat' where "pat' = take fill pat @ take n pat @ drop (fill + n) pat"
    have n: "0 < n" "n \<le> fill" "fill + n \<le> CHUNK" using True_fill less.prems(2) by (auto simp: n_def)
    have "pat' ! i = src (i mod off)" if "i < fill + n" for i
    proof (cases "i < fill")
      case True
      then show ?thesis using less.prems(1,3,6) by (simp add: pat'_def nth_append)
    next
      case False
      then have "i - fill < n" using that by simp
      then have "pat' ! i = pat ! (i - fill)"
        using False that less.prems(1) n by (simp add: pat'_def nth_append)
      also have "\<dots> = src ((i - fill) mod off)" using False that n less.prems(6) by simp
      also have "(i - fill) mod off = i mod off"
        using False less.prems(4) [OF True_fill] by (intro mod_diff_dvd) simp_all
      finally show ?thesis .
    qed
    moreover have "fill + n < CHUNK \<Longrightarrow> off dvd fill + n"
      using less.prems(4) True_fill by (auto simp: n_def min_def split: if_splits)
    moreover have "fill_chunk pat fill = fill_chunk pat' (fill + n)"
      using True_fill n(1) by (subst fill_chunk.simps) (simp add: Let_def pat'_def flip: n_def)
    ultimately show ?thesis
      using less.hyps [of "fill + n" pat'] less.prems n by (simp add: pat'_def)
  qed
qed

lemma push_chunks_eq:
  "push_chunks out chunk n = (out @ concat (replicate (n div CHUNK) chunk), n mod CHUNK)"
proof (induction n arbitrary: out rule: less_induct)
  case (less n)
  show ?case
  proof (cases "CHUNK \<le> n")
    case True
    then have "n div CHUNK = Suc ((n - CHUNK) div CHUNK)" "n mod CHUNK = (n - CHUNK) mod CHUNK"
      by (simp_all add: CHUNK_def le_div_geq le_mod_geq)
    then show ?thesis using True less [of "n - CHUNK" "out @ chunk"]
      by (subst push_chunks.simps) (simp add: CHUNK_def)
  next
    case False
    then show ?thesis by (subst push_chunks.simps) simp
  qed
qed

lemma match_bytes_times:
  assumes "off dvd k"
  shows "match_bytes out off (q * k + r) = concat (replicate q (match_bytes out off k)) @ match_bytes out off r"
proof (induction q)
  case (Suc q)
  have "match_bytes out off (Suc q * k + r) = match_bytes out off (k + (q * k + r))" by (simp add: add.assoc)
  then show ?case using match_bytes_add [OF assms, of out "q * k + r"] Suc by simp
qed simp

lemma copy_pattern_Ok:
  assumes off: "off \<in> {2, 4, 8}" and le: "off \<le> length out"
  shows "copy_power_of_two_pattern out (length out - off) off n = Ok (lz_copy out off n)"
proof -
  have o: "0 < off" "off dvd CHUNK" "off \<le> CHUNK" using off by (auto simp: CHUNK_def)
  define pat where "pat = take off (drop (length out - off) out)"
  have pat: "length pat = off" "\<And>i. i < off \<Longrightarrow> pat ! i = out ! (length out - off + i)"
    using le by (simp_all add: pat_def)
  have "fill_chunk (pat @ replicate (CHUNK - off) 0) off
      = Ok (map (\<lambda>i. out ! (length out - off + i mod off)) [0..<CHUNK])"
    using o pat by (intro fill_chunk_Ok) (auto simp: nth_append)
  then have chunk: "fill_chunk (pat @ replicate (CHUNK - off) 0) off = Ok (match_bytes out off CHUNK)"
    by (simp add: match_bytes_def)
  have "n mod CHUNK \<le> CHUNK" by (simp add: CHUNK_def)
  then have rest: "take (n mod CHUNK) (match_bytes out off CHUNK) = match_bytes out off (n mod CHUNK)"
    by (rule match_bytes_prefix)
  have "match_bytes out off n = concat (replicate (n div CHUNK) (match_bytes out off CHUNK))
      @ match_bytes out off (n mod CHUNK)"
    using match_bytes_times [OF o(2), of out "n div CHUNK" "n mod CHUNK"] by simp
  then show ?thesis
    using le rest \<open>n mod CHUNK \<le> CHUNK\<close>
    by (simp add: copy_power_of_two_pattern_def chunk push_chunks_eq lz_copy_eq o(1) match_bytes_def flip: pat_def)
qed

text \<open>Each round doubles what has been copied, or stops: the written part stays a multiple of the
  offset until then.\<close>

lemma copy_doubling_Ok:
  assumes "0 < off" and "off \<le> length out" and "0 < n \<Longrightarrow> off dvd k"
  shows "copy_doubling (out @ match_bytes out off k) (length out - off) n = Ok (out @ match_bytes out off (k + n))"
  using assms(3)
proof (induction n arbitrary: k rule: less_induct)
  case (less n)
  show ?case
  proof (cases "0 < n")
    case False
    then show ?thesis by (subst copy_doubling.simps) simp
  next
    case True
    define m where "m = min n (off + k)"
    have m: "0 < m" "m \<le> n" "m \<le> off + k" using True assms(1) by (simp_all add: m_def)
    have dvd: "off dvd k" "0 < n - m \<Longrightarrow> off dvd k + m"
      using less.prems [OF True] by (auto simp: m_def min_def split: if_splits)
    have "extend_from_within (out @ match_bytes out off k) (length out - off) (length out - off + m)
        = Ok ((out @ match_bytes out off k) @ match_bytes out off m)"
      using source_slice [OF assms(1,2) m(3)] m(3) assms(2)
      by (simp add: extend_from_within_def del: take_append drop_append)
    also have "(out @ match_bytes out off k) @ match_bytes out off m = out @ match_bytes out off (k + m)"
      using match_bytes_add [OF dvd(1)] by simp
    finally have ext: "extend_from_within (out @ match_bytes out off k) (length out - off) (length out - off + m)
        = Ok (out @ match_bytes out off (k + m))" .
    have avail: "length out + k - (length out - off) = off + k" using assms(2) by simp
    have "copy_doubling (out @ match_bytes out off k) (length out - off) n
        = copy_doubling (out @ match_bytes out off (k + m)) (length out - off) (n - m)"
      using True m(1) assms(2) ext
      by (subst copy_doubling.simps) (simp add: Let_def avail flip: m_def)
    also have "\<dots> = Ok (out @ match_bytes out off (k + m + (n - m)))"
      using less.IH [of "n - m" "k + m"] dvd(2) m by simp
    finally show ?thesis using m(2) by (simp add: add.assoc)
  qed
qed

lemma copy_match_naive:
  assumes "0 < off" and "off \<le> length out"
  shows "copy_match out off n = Ok (lz_copy out off n)"
proof -
  consider "n \<le> off" | "off < n" "off = 1" | "off < n" "off \<in> {2, 4, 8}" | "off < n" "off \<noteq> 1" "off \<notin> {2, 4, 8}"
    by linarith
  then show ?thesis
  proof cases
    case 1
    then show ?thesis using assms source_slice [OF assms, of n 0]
      by (simp add: copy_match_def extend_from_within_def lz_copy_eq match_bytes_def)
  next
    case 2
    then have "match_bytes out off n = replicate n (out ! (length out - off))"
      by (intro nth_equalityI) (simp_all add: match_bytes_def)
    then show ?thesis using 2 assms by (simp add: copy_match_def lz_copy_eq)
  next
    case 3
    then show ?thesis using assms copy_pattern_Ok [OF 3(2) assms(2), of n] by (auto simp: copy_match_def)
  next
    case 4
    then show ?thesis using assms copy_doubling_Ok [OF assms, where k = 0 and n = n]
      by (simp add: copy_match_def lz_copy_eq match_bytes_def)
  qed
qed

section \<open>Repeat offsets are a move-to-front list\<close>

definition rep_list :: "rep_offsets \<Rightarrow> nat list" where
  "rep_list rep = (let (r0, r1, r2) = rep in [r0, r1, r2])"

text \<open>The format's rule: a code picks one of the recent offsets, the most recent one less one, or
  brings a new offset; the choice moves to the front and the oldest falls out.\<close>

definition mtf_resolve :: "nat list \<Rightarrow> nat \<Rightarrow> bool \<Rightarrow> nat \<times> nat list" where
  "mtf_resolve rs offset_value ll0 =
     (let k = offset_value - 1 + (if ll0 then 1 else 0);
          (off, rest) =
            (if 3 < offset_value then (offset_value - 3, rs)
             else if k = 3 then (rs ! 0 - 1, rs)
             else (rs ! k, take k rs @ drop (k + 1) rs)) in
      (off, take 3 (off # rest)))"

lemma resolve_offset_mtf:
  assumes "1 \<le> offset_value"
  shows "\<exists>off rep'. resolve_offset rep offset_value ll0 = Ok (off, rep')
    \<and> mtf_resolve (rep_list rep) offset_value ll0 = (off, rep_list rep')"
proof (cases "3 < offset_value")
  case True
  then show ?thesis by (cases rep) (simp add: resolve_offset_def mtf_resolve_def rep_list_def Let_def)
next
  case False
  then have "offset_value = 1 \<or> offset_value = 2 \<or> offset_value = 3" using assms by linarith
  then show ?thesis
    by (cases rep) (cases ll0; elim disjE; simp add: resolve_offset_def mtf_resolve_def rep_list_def Let_def)
qed

section \<open>The sequences a stream holds, and what they do\<close>

text \<open>The reference semantics reads all the sequences first (\<open>seq_parse\<close>) and executes them on the
  output with naive copying (\<open>lz_run\<close>); it fails where the code reports an error.\<close>

fun seq_parse :: "fse_table \<Rightarrow> fse_table \<Rightarrow> fse_table \<Rightarrow> nat \<Rightarrow> seq_reader \<Rightarrow> raw_seq list option" where
  "seq_parse llt oft mlt 0 r = Some []"
| "seq_parse llt oft mlt (Suc n) r =
     (case seq_read llt oft mlt r of
        Ok (s, br) \<Rightarrow>
          map_option ((#) s) (seq_parse llt oft mlt n (if 0 < n then seq_advance llt oft mlt r br else r))
      | _ \<Rightarrow> None)"

text \<open>\<open>room\<close> is what the ceiling still allows.\<close>

fun lz_run :: "raw_seq list \<Rightarrow> nat \<Rightarrow> byte list \<Rightarrow> byte list \<Rightarrow> nat list \<Rightarrow> (byte list \<times> nat list) option" where
  "lz_run [] room lits out rs = (if room < length lits then None else Some (out @ lits, rs))"
| "lz_run ((offset_value, match_len, lit_len, ll0) # ss) room lits out rs =
     (let (off, rs) = mtf_resolve rs offset_value ll0 in
      if off = 0 \<or> room < lit_len + match_len \<or> length lits < lit_len \<or> length out + lit_len < off then None
      else lz_run ss (room - (lit_len + match_len)) (drop lit_len lits)
             (lz_copy (out @ take lit_len lits) off match_len) rs)"

lemma length_lz_copy [simp]: "length (lz_copy out off n) = length out + n"
  by (induction n arbitrary: out) auto

lemma lz_copy_extends: "\<exists>ys. lz_copy out off n = out @ ys"
  by (induction n arbitrary: out) (auto, metis append.assoc)

definition raw_ok :: "raw_seq \<Rightarrow> bool" where
  "raw_ok s \<longleftrightarrow> (let (offset_value, match_len, lit_len, ll0) = s in 1 \<le> offset_value \<and> 3 \<le> match_len)"

lemma ML_tables: "length ML_BASE = 53" "length ML_BITS = 53" "length LL_BASE = 36" "length LL_BITS = 36"
  by (simp_all add: ML_BASE_def ML_BITS_def LL_BASE_def LL_BITS_def)

lemma ML_BASE_min: "i < 53 \<Longrightarrow> 3 \<le> ML_BASE ! i"
proof -
  have "\<forall>x \<in> set ML_BASE. 3 \<le> x" by (simp add: ML_BASE_def)
  then show "i < 53 \<Longrightarrow> 3 \<le> ML_BASE ! i" using ML_tables by simp
qed

lemma seq_read_post: "post (seq_read llt oft mlt r) (\<lambda>(s, br). raw_ok s) (\<lambda>_. True)"
proof -
  have "3 \<le> ML_BASE ! i + x" if "i < 53" for i x using ML_BASE_min [OF that] by simp
  moreover have "Suc 0 \<le> 2 ^ k + x" for k x :: nat by (simp add: Suc_leI)
  ultimately show ?thesis
    by (cases r) (auto simp: seq_read_def wp Let_def ML_tables raw_ok_def split: prod.splits)
qed

lemma seq_parse_ok: "seq_parse llt oft mlt n r = Some ss \<Longrightarrow> length ss = n \<and> list_all raw_ok ss"
proof (induction n arbitrary: r ss)
  case (Suc n)
  then obtain s br ss' where rd: "seq_read llt oft mlt r = Ok (s, br)" and "ss = s # ss'"
    and "seq_parse llt oft mlt n (if 0 < n then seq_advance llt oft mlt r br else r) = Some ss'"
    by (auto split: outcome.splits)
  then show ?case using Suc.IH seq_read_post [of llt oft mlt r] by auto
qed simp

lemma headroom_Ok: "dict_len \<le> length out \<Longrightarrow> headroom mx dict_len out = Ok (mx - (length out - dict_len))"
  by (simp add: headroom_def)

text \<open>One sequence: the code's step is the reference's, the literals being the rest of the section.\<close>

definition seq_checks :: "byte list \<Rightarrow> nat \<Rightarrow> nat \<Rightarrow> nat \<Rightarrow> byte list \<Rightarrow> nat \<Rightarrow> nat \<Rightarrow> nat \<Rightarrow> bool" where
  "seq_checks literals dict_len mx lit_pos out off match_len lit_len \<longleftrightarrow>
     off \<noteq> 0 \<and> lit_len + match_len \<le> mx - (length out - dict_len)
     \<and> lit_len \<le> length literals - lit_pos \<and> off \<le> length out + lit_len"

lemma seq_execute_cases:
  assumes "raw_ok s" and s: "s = (ov, match_len, lit_len, ll0)"
    and "dict_len \<le> length out" and "lit_pos \<le> length literals"
    and off: "resolve_offset rep ov ll0 = Ok (off, rep')"
  shows "seq_checks literals dict_len mx lit_pos out off match_len lit_len \<Longrightarrow>
      seq_execute literals dict_len mx s (lit_pos, out, rep)
      = Ok (lit_pos + lit_len, lz_copy (out @ take lit_len (drop lit_pos literals)) off match_len, rep')"
    and "\<not> seq_checks literals dict_len mx lit_pos out off match_len lit_len \<Longrightarrow>
      \<exists>e. seq_execute literals dict_len mx s (lit_pos, out, rep) = Err e"
proof -
  note unf = seq_execute_def s Let_def prod.case off obind_simps headroom_Ok [OF assms(3)]
  {
    assume c: "seq_checks literals dict_len mx lit_pos out off match_len lit_len"
    have le: "0 < off" "off \<le> length (out @ take lit_len (drop lit_pos literals))"
      using c by (auto simp: seq_checks_def)
    have "lit_pos + lit_len \<le> length literals"
      using c assms(4) unfolding seq_checks_def by linarith
    then show "seq_execute literals dict_len mx s (lit_pos, out, rep)
      = Ok (lit_pos + lit_len, lz_copy (out @ take lit_len (drop lit_pos literals)) off match_len, rep')"
      using c copy_match_naive [OF le, of match_len] unfolding unf by (simp add: seq_checks_def)
  }
  assume c: "\<not> seq_checks literals dict_len mx lit_pos out off match_len lit_len"
  show "\<exists>e. seq_execute literals dict_len mx s (lit_pos, out, rep) = Err e"
    using c assms(4) unfolding unf by (auto simp: seq_checks_def)
qed

definition seq_reference ::
  "fse_table \<Rightarrow> fse_table \<Rightarrow> fse_table \<Rightarrow> nat \<Rightarrow> seq_reader \<Rightarrow> nat \<Rightarrow> byte list \<Rightarrow> byte list \<Rightarrow> rep_offsets
     \<Rightarrow> (byte list \<times> nat list) option" where
  "seq_reference llt oft mlt n r room lits out rep =
     (case seq_parse llt oft mlt n r of
        None \<Rightarrow> None
      | Some ss \<Rightarrow> lz_run ss room lits out (rep_list rep))"

text \<open>An outcome agrees with the reference: the same value, or an error for its failure.\<close>

definition agrees :: "(byte list \<times> rep_offsets) result \<Rightarrow> (byte list \<times> nat list) option \<Rightarrow> bool" where
  "agrees m r \<longleftrightarrow>
     (case m of
        Ok (out, rep) \<Rightarrow> r = Some (out, rep_list rep)
      | Err _ \<Rightarrow> r = None
      | _ \<Rightarrow> False)"

lemma agrees_simps [simp]:
  "agrees (Ok (out, rep)) r \<longleftrightarrow> r = Some (out, rep_list rep)"
  "agrees (Err e) r \<longleftrightarrow> r = None"
  "\<not> agrees Panic r" "\<not> agrees Hang r"
  by (simp_all add: agrees_def)

lemma seq_reference_Suc:
  assumes "seq_read llt oft mlt r = Ok ((ov, match_len, lit_len, ll0), br)"
    and "mtf_resolve (rep_list rep) ov ll0 = (off, rep_list rep')"
  shows "seq_reference llt oft mlt (Suc n) r room lits out rep =
    (if off = 0 \<or> room < lit_len + match_len \<or> length lits < lit_len \<or> length out + lit_len < off then None
     else seq_reference llt oft mlt n (if 0 < n then seq_advance llt oft mlt r br else r)
       (room - (lit_len + match_len)) (drop lit_len lits) (lz_copy (out @ take lit_len lits) off match_len) rep')"
  using assms by (simp add: seq_reference_def split: option.split)

lemma seq_loop_reference:
  assumes "dict_len \<le> length out" and "lit_pos \<le> length literals"
  shows "agrees (obind (seq_loop llt oft mlt literals dict_len mx n r (lit_pos, out, rep)) (seq_trailing literals dict_len mx))
    (seq_reference llt oft mlt n r (mx - (length out - dict_len)) (drop lit_pos literals) out rep)"
  using assms
proof (induction n arbitrary: r lit_pos out rep)
  case 0
  then show ?case
    by (simp add: seq_trailing_def headroom_Ok seq_reference_def)
next
  case (Suc n)
  show ?case
  proof (cases "seq_read llt oft mlt r")
    case (Err e)
    then show ?thesis by (simp add: seq_reference_def)
  next
    case (Ok srd)
    obtain s br where sb: "srd = (s, br)" by (cases srd)
    obtain ov match_len lit_len ll0 where s: "s = (ov, match_len, lit_len, ll0)" by (cases s)
    have raw: "raw_ok s" using seq_read_post [of llt oft mlt r] Ok sb by simp
    then obtain off rep' where off: "resolve_offset rep ov ll0 = Ok (off, rep')"
      and mtf: "mtf_resolve (rep_list rep) ov ll0 = (off, rep_list rep')"
      using resolve_offset_mtf [of ov rep ll0] by (auto simp: raw_ok_def s)
    note ref = seq_reference_Suc [OF Ok [unfolded sb s] mtf]
    note exec = seq_execute_cases [OF raw s Suc.prems off, where mx = mx]
    have checks: "seq_checks literals dict_len mx lit_pos out off match_len lit_len \<longleftrightarrow>
      \<not> (off = 0 \<or> mx - (length out - dict_len) < lit_len + match_len
        \<or> length (drop lit_pos literals) < lit_len \<or> length out + lit_len < off)"
      by (auto simp: seq_checks_def not_less)
    show ?thesis
    proof (cases "seq_checks literals dict_len mx lit_pos out off match_len lit_len")
      case False
      then show ?thesis using exec(2) [OF False] checks ref by (auto simp: Ok sb)
    next
      case True
      define out' where "out' = lz_copy (out @ take lit_len (drop lit_pos literals)) off match_len"
      have len: "dict_len \<le> length out'" "lit_pos + lit_len \<le> length literals"
        "mx - (length out' - dict_len) = mx - (length out - dict_len) - (lit_len + match_len)"
        using True Suc.prems by (auto simp: out'_def seq_checks_def)
      show ?thesis
        using Suc.IH [OF len(1,2), where r = "if 0 < n then seq_advance llt oft mlt r br else r" and rep = rep']
          exec(1) [OF True] True checks ref
        by (simp add: Ok sb len(3) add.commute flip: out'_def)
    qed
  qed (use seq_read_post [of llt oft mlt r] in simp_all)
qed

section \<open>The tables of a block\<close>

lemma default_norms:
  "valid_norm LL_DEFAULT 35 6" "valid_norm OF_DEFAULT 28 5" "valid_norm ML_DEFAULT 52 6"
  by (simp_all add: valid_norm_def LL_DEFAULT_def OF_DEFAULT_def ML_DEFAULT_def)

lemma take_default: "take 36 LL_DEFAULT = LL_DEFAULT" "take 29 OF_DEFAULT = OF_DEFAULT" "take 53 ML_DEFAULT = ML_DEFAULT"
  by (simp_all add: LL_DEFAULT_def OF_DEFAULT_def ML_DEFAULT_def)

lemma build_dtable_post:
  assumes "valid_norm norm ms lg" and "4 \<le> lg" and "lg \<le> 9"
  shows "post (build_dtable norm ms lg) fse_table_ok (\<lambda>_. False)"
proof -
  have lg: "spread_log lg" using assms(2) by (simp add: spread_log_def)
  obtain syms where "spread_spec lg (take (ms + 1) norm) syms"
    "build_dtable norm ms lg = Ok (dtable_of lg (take (ms + 1) norm) syms)"
    using build_dtable_Ok [OF assms(1) lg assms(3)] by blast
  then show ?thesis using dtable_of_ok [OF lg assms(3) valid_norm_counts [OF assms(1)]] by simp
qed

lemma rle_table_ok: "fse_table_ok (rle_table s)"
  by (simp add: fse_table_ok_def rle_table_def FSE_DTABLE_SIZE_def)

definition mode_ok :: "seq_mode \<Rightarrow> bool" where
  "mode_ok m \<longleftrightarrow> (case m of Fse_Mode t \<Rightarrow> fse_table_ok t | _ \<Rightarrow> True)"

lemma parse_mode_post:
  assumes "p \<le> length src" and "max_log \<le> 9"
  shows "post (parse_mode raw src p max_log) (\<lambda>(m, p'). mode_ok m \<and> p' \<le> length src) (\<lambda>_. True)"
proof (cases "raw = 2")
  case True
  have "post (read_ncount (drop p src) max_log)
      (\<lambda>nc. post (build_dtable (nc_counts nc) (nc_max_symbol nc) (nc_table_log nc)) fse_table_ok (\<lambda>_. False)
        \<and> p + nc_bytes_consumed nc \<le> length src) (\<lambda>_. True)"
    using read_ncount_cases [of max_log "drop p src"] build_dtable_post assms by fastforce
  then show ?thesis
    using assms True unfolding parse_mode_def
    by (auto simp: wp Let_def mode_ok_def elim!: post_mono)
next
  case False
  then show ?thesis using assms by (auto simp: parse_mode_def wp mode_ok_def)
qed

lemma resolve_table_post:
  assumes "mode_ok m" and "cache_ok fse_table_ok cache"
    and "post (build_dtable dist ms lg) fse_table_ok (\<lambda>_. False)"
  shows "post (resolve_table m dist ms lg cache name) fse_table_ok (\<lambda>_. True)"
  using assms by (auto simp: resolve_table_def mode_ok_def rle_table_ok elim: post_mono split: seq_mode.split option.split)

definition seq_tables_ok :: "seq_tables \<Rightarrow> bool" where
  "seq_tables_ok ts \<longleftrightarrow> cache_ok fse_table_ok (st_ll ts) \<and> cache_ok fse_table_ok (st_of ts) \<and> cache_ok fse_table_ok (st_ml ts)"

lemma seq_block_tables_post:
  assumes "seq_tables_ok ts" and "p \<le> length src"
  shows "post (seq_block_tables src p ts)
    (\<lambda>(llt, oft, mlt, bs). fse_table_ok llt \<and> fse_table_ok oft \<and> fse_table_ok mlt \<and> length bs \<le> length src) (\<lambda>_. True)"
proof -
  have tabs: "post (build_dtable LL_DEFAULT 35 6) fse_table_ok (\<lambda>_. False)"
    "post (build_dtable OF_DEFAULT 28 5) fse_table_ok (\<lambda>_. False)"
    "post (build_dtable ML_DEFAULT 52 6) fse_table_ok (\<lambda>_. False)"
    by (intro build_dtable_post default_norms; simp)+
  note res = resolve_table_post [OF _ _ tabs(1)] resolve_table_post [OF _ _ tabs(2)] resolve_table_post [OF _ _ tabs(3)]
  show ?thesis
    using assms(1) unfolding seq_block_tables_def seq_tables_ok_def
    by (auto simp: wp Let_def intro!: post_mono [OF parse_mode_post] post_mono [OF res(1)] post_mono [OF res(2)]
        post_mono [OF res(3)])
qed

lemma sequence_count_post: "post (sequence_count src) (\<lambda>(n, p). 0 < p \<and> p \<le> length src) (\<lambda>_. True)"
  by (cases src) (auto simp: sequence_count_def wp Let_def Suc_le_eq)

lemma seq_open_post: "post (seq_open llt oft mlt bs) (\<lambda>_. True) (\<lambda>_. True)"
  using rbr_new_returns [of bs]
  by (cases "rbr_new bs") (auto simp: seq_open_def split: prod.splits)

section \<open>The section against the reference\<close>

text \<open>The reference for a whole section: the output and the repeat offsets, or \<open>None\<close>.\<close>

definition section_reference ::
  "byte list \<Rightarrow> byte list \<Rightarrow> byte list \<Rightarrow> seq_tables \<Rightarrow> rep_offsets \<Rightarrow> nat \<Rightarrow> (byte list \<times> nat list) option" where
  "section_reference src lits out tables rep room =
     (case sequence_count src of
        Ok (n, p) \<Rightarrow>
          if n = 0 then lz_run [] room lits out (rep_list rep)
          else (case seq_block_tables src p tables of
                  Ok (llt, oft, mlt, bs) \<Rightarrow>
                    (case seq_open llt oft mlt bs of
                       Ok r \<Rightarrow> seq_reference llt oft mlt n r room lits out rep
                     | _ \<Rightarrow> None)
                | _ \<Rightarrow> None)
      | _ \<Rightarrow> None)"

definition section_tables :: "byte list \<Rightarrow> seq_tables \<Rightarrow> seq_tables" where
  "section_tables src tables =
     (case sequence_count src of
        Ok (n, p) \<Rightarrow>
          if n = 0 then tables
          else (case seq_block_tables src p tables of
                  Ok (llt, oft, mlt, bs) \<Rightarrow> \<lparr>st_ll = Some llt, st_of = Some oft, st_ml = Some mlt\<rparr>
                | _ \<Rightarrow> tables)
      | _ \<Rightarrow> tables)"

lemma decode_capped_agrees:
  assumes "dict_len \<le> length out" and "seq_tables_ok ts"
  shows "post (decode_capped src lits out ts rep dict_len mx)
    (\<lambda>(out', ts', rep'). seq_tables_ok ts' \<and> ts' = section_tables src ts
       \<and> section_reference src lits out ts rep (mx - (length out - dict_len)) = Some (out', rep_list rep'))
    (\<lambda>_. section_reference src lits out ts rep (mx - (length out - dict_len)) = None)"
proof (cases "sequence_count src")
  case (Ok np)
  obtain n p where np: "np = (n, p)" by (cases np)
  have p: "p \<le> length src" using sequence_count_post [of src] Ok np by simp
  show ?thesis
  proof (cases "n = 0")
    case True
    then show ?thesis using assms
      by (auto simp: decode_capped_def section_reference_def section_tables_def Ok np headroom_Ok)
  next
    case n: False
    show ?thesis
    proof (cases "seq_block_tables src p ts")
      case tabs: (Ok t)
      obtain llt oft mlt bs where t: "t = (llt, oft, mlt, bs)" by (cases t)
      have ok: "fse_table_ok llt" "fse_table_ok oft" "fse_table_ok mlt"
        using seq_block_tables_post [OF assms(2) p] tabs t by simp_all
      show ?thesis
      proof (cases "seq_open llt oft mlt bs")
        case r: (Ok r)
        have "agrees (obind (seq_loop llt oft mlt lits dict_len mx n r (0, out, rep)) (seq_trailing lits dict_len mx))
          (seq_reference llt oft mlt n r (mx - (length out - dict_len)) lits out rep)"
          using seq_loop_reference [OF assms(1), of 0 lits] by simp
        moreover have "decode_capped src lits out ts rep dict_len mx
          = obind (obind (seq_loop llt oft mlt lits dict_len mx n r (0, out, rep)) (seq_trailing lits dict_len mx))
              (\<lambda>(out, rep). Ok (out, \<lparr>st_ll = Some llt, st_of = Some oft, st_ml = Some mlt\<rparr>, rep))"
          using n by (simp add: decode_capped_def Ok np tabs t r Let_def obind_assoc)
        moreover have "section_reference src lits out ts rep (mx - (length out - dict_len))
          = seq_reference llt oft mlt n r (mx - (length out - dict_len)) lits out rep"
          using n by (simp add: section_reference_def Ok np tabs t r)
        moreover have "section_tables src ts = \<lparr>st_ll = Some llt, st_of = Some oft, st_ml = Some mlt\<rparr>"
          using n by (simp add: section_tables_def Ok np tabs t)
        moreover have "seq_tables_ok \<lparr>st_ll = Some llt, st_of = Some oft, st_ml = Some mlt\<rparr>"
          using ok by (simp add: seq_tables_ok_def)
        ultimately show ?thesis
          by (cases "obind (seq_loop llt oft mlt lits dict_len mx n r (0, out, rep)) (seq_trailing lits dict_len mx)") auto
      qed (use seq_open_post [of llt oft mlt bs] n in
          \<open>simp_all add: decode_capped_def section_reference_def Ok np tabs t Let_def\<close>)
    qed (use seq_block_tables_post [OF assms(2) p] n in
        \<open>simp_all add: decode_capped_def section_reference_def Ok np\<close>)
  qed
qed (use sequence_count_post [of src] in \<open>simp_all add: decode_capped_def section_reference_def\<close>)

text \<open>The reference with a longer history, or with less room that still suffices.\<close>

lemma lz_copy_history: "off \<le> length out \<Longrightarrow> 0 < off \<Longrightarrow> lz_copy (pre @ out) off n = pre @ lz_copy out off n"
proof (induction n arbitrary: out)
  case (Suc n)
  have "length (pre @ out) - off = length pre + (length out - off)" using Suc.prems by simp
  then have "(pre @ out) ! (length (pre @ out) - off) = out ! (length out - off)"
    by (simp only: nth_append_length_plus)
  then show ?case using Suc.IH [of "out @ [out ! (length out - off)]"] Suc.prems by simp
qed simp

text \<open>What the reference appends: the literals and the matches, within the room.\<close>

lemma lz_run_appends:
  "lz_run ss room lits out rs = Some (out', rs') \<Longrightarrow>
    \<exists>ys. out' = out @ ys \<and> length ys \<le> room
      \<and> length ys = length lits + sum_list (map (\<lambda>(ov, match_len, lit_len, ll0). match_len) ss)"
proof (induction ss arbitrary: room lits out rs)
  case Nil
  then show ?case by (auto split: if_splits)
next
  case (Cons s ss)
  obtain ov match_len lit_len ll0 where s: "s = (ov, match_len, lit_len, ll0)" by (cases s)
  obtain off rs1 where mtf: "mtf_resolve rs ov ll0 = (off, rs1)" by (cases "mtf_resolve rs ov ll0")
  have run: "lit_len + match_len \<le> room" "lit_len \<le> length lits"
    "lz_run ss (room - (lit_len + match_len)) (drop lit_len lits) (lz_copy (out @ take lit_len lits) off match_len) rs1
      = Some (out', rs')"
    using Cons.prems by (auto simp: s mtf split: if_splits)
  obtain zs where zs: "lz_copy (out @ take lit_len lits) off match_len = (out @ take lit_len lits) @ zs"
    using lz_copy_extends by blast
  have "length zs = match_len" using arg_cong [OF zs, of length] run(2) by simp
  with Cons.IH [OF run(3)] zs run(1,2) show ?case by (auto simp: s)
qed

lemma lz_run_history:
  "lz_run ss room lits out rs = Some (out @ ys, rs') \<Longrightarrow> length ys \<le> room' \<Longrightarrow>
    lz_run ss room' lits (pre @ out) rs = Some (pre @ out @ ys, rs')"
proof (induction ss arbitrary: room room' lits out rs ys)
  case Nil
  then show ?case by (auto split: if_splits)
next
  case (Cons s ss)
  obtain ov match_len lit_len ll0 where s: "s = (ov, match_len, lit_len, ll0)" by (cases s)
  obtain off rs1 where mtf: "mtf_resolve rs ov ll0 = (off, rs1)" by (cases "mtf_resolve rs ov ll0")
  define mid where "mid = lz_copy (out @ take lit_len lits) off match_len"
  have run: "off \<noteq> 0" "lit_len + match_len \<le> room" "lit_len \<le> length lits" "off \<le> length out + lit_len"
    "lz_run ss (room - (lit_len + match_len)) (drop lit_len lits) mid rs1 = Some (out @ ys, rs')"
    using Cons.prems(1) by (auto simp: s mtf mid_def split: if_splits)
  obtain zs where zs: "mid = out @ take lit_len lits @ zs"
    using lz_copy_extends [of "out @ take lit_len lits" off match_len] by (auto simp: mid_def)
  obtain ws where ws: "out @ ys = mid @ ws"
    using lz_run_appends [OF run(5)] by blast
  have len: "length mid = length out + lit_len + match_len" using run(3) by (simp add: mid_def)
  then have "length ws \<le> room' - (lit_len + match_len)"
    using arg_cong [OF ws, of length] Cons.prems(2) by simp
  with run(5) ws have "lz_run ss (room' - (lit_len + match_len)) (drop lit_len lits) (pre @ mid) rs1 = Some (pre @ mid @ ws, rs')"
    by (intro Cons.IH) simp_all
  moreover have "lz_copy (pre @ out @ take lit_len lits) off match_len = pre @ mid"
    using lz_copy_history [of off "out @ take lit_len lits" pre match_len] run(1,3,4) by (simp add: mid_def)
  moreover have "lit_len + match_len \<le> room'"
    using arg_cong [OF ws, of length] len Cons.prems(2) by simp
  ultimately show ?case using run ws by (simp add: s mtf)
qed

lemma section_reference_history:
  assumes "section_reference src lits out ts rep room = Some (out @ ys, rs')" and "length ys \<le> room'"
  shows "section_reference src lits (pre @ out) ts rep room' = Some (pre @ out @ ys, rs')"
  using assms lz_run_history
  by (auto simp: section_reference_def seq_reference_def simp del: lz_run.simps
      split: outcome.splits prod.splits option.splits if_splits)

lemma rep_list_inj: "rep_list r = rep_list r' \<Longrightarrow> r = r'"
  by (cases r; cases r') (simp add: rep_list_def)

lemma section_reference_appends:
  assumes "section_reference src lits out ts rep room = Some (out', rs')"
  shows "\<exists>ys. out' = out @ ys \<and> length ys \<le> room"
  using assms
  by (auto simp: section_reference_def seq_reference_def split: outcome.splits prod.splits option.splits if_splits
      dest!: lz_run_appends)

lemma decode_capped_post:
  assumes "dict_len \<le> length out" and "seq_tables_ok ts"
  shows "post (decode_capped src lits out ts rep dict_len mx)
    (\<lambda>(out', ts', rep'). seq_tables_ok ts' \<and> (\<exists>ys. out' = out @ ys \<and> length ys \<le> mx - (length out - dict_len)))
    (\<lambda>_. True)"
  by (rule post_mono [OF decode_capped_agrees [OF assms]]) (auto dest: section_reference_appends)

lemma decode_capped_history:
  assumes "dict_len \<le> length out" and "seq_tables_ok ts"
    and "decode_capped src lits out ts rep dict_len mx = Ok (out @ ys, ts', rep')"
    and "dict_len' \<le> length (pre @ out)" and "length ys \<le> mx' - (length (pre @ out) - dict_len')"
  shows "decode_capped src lits (pre @ out) ts rep dict_len' mx' = Ok (pre @ out @ ys, ts', rep')"
proof -
  have 1: "ts' = section_tables src ts"
    "section_reference src lits out ts rep (mx - (length out - dict_len)) = Some (out @ ys, rep_list rep')"
    using decode_capped_agrees [OF assms(1,2), of src lits rep mx] assms(3) by simp_all
  have 2: "section_reference src lits (pre @ out) ts rep (mx' - (length (pre @ out) - dict_len'))
      = Some (pre @ out @ ys, rep_list rep')"
    by (rule section_reference_history [OF 1(2) assms(5)])
  show ?thesis
    using decode_capped_agrees [OF assms(4,2), of src lits rep mx'] 1(1) 2
    by (cases "decode_capped src lits (pre @ out) ts rep dict_len' mx'") (auto dest: rep_list_inj)
qed

section \<open>The predefined tables\<close>

interpretation ll: fse_stream 6 LL_DEFAULT
    "table_syms (the_ok (build_dtable LL_DEFAULT 35 6))" "the_ok (build_ctable LL_DEFAULT 35 6)"
  using fse_stream_tables(1) [OF default_norms(1)] by (simp add: take_default)

interpretation ofs: fse_stream 5 OF_DEFAULT
    "table_syms (the_ok (build_dtable OF_DEFAULT 28 5))" "the_ok (build_ctable OF_DEFAULT 28 5)"
  using fse_stream_tables(1) [OF default_norms(2)] by (simp add: take_default)

interpretation ml: fse_stream 6 ML_DEFAULT
    "table_syms (the_ok (build_dtable ML_DEFAULT 52 6))" "the_ok (build_ctable ML_DEFAULT 52 6)"
  using fse_stream_tables(1) [OF default_norms(3)] by (simp add: take_default)

section \<open>Properties\<close>

text \<open>C18: a match is copied exactly as the format defines it, byte by byte, each byte taken from the
  position \<open>off\<close> before the end of the output at that moment. The four ways the code copies (one
  block for a match that does not overlap, a fill for offset 1, a 64-byte pattern for the offsets
  2, 4 and 8, doubling otherwise) all give this result; none panics or loops.\<close>

theorem copy_match_bytewise:
  assumes "0 < off" and "off \<le> length out"
  shows "copy_match out off n = Ok (lz_copy out off n)"
  by (rule copy_match_naive [OF assms])

theorem copy_match_bytewise_witness:
  "copy_match [7, 1, 2, 3] 3 8 = Ok (lz_copy [7, 1, 2, 3] 3 8) \<and> lz_copy [7, 1, 2, 3] 3 4 = [7, 1, 2, 3, 1, 2, 3, 1]"
  using copy_match_bytewise [of 3 "[7, 1, 2, 3]" 8] by (simp add: eval_nat_numeral)

text \<open>C9: the sequences section computes the format's semantics. The code interleaves reading the
  bit stream, resolving repeat offsets, checking and copying; the reference first reads all the
  sequences, then executes them with a move-to-front list of offsets and byte-wise copies. From a
  state with well-formed cached tables the code returns: with the output and the offsets of the
  reference, or with an error exactly when the reference fails; the tables it caches are well
  formed again.\<close>

theorem sequences_section_reference:
  assumes "dict_len \<le> length out" and "seq_tables_ok ts"
  shows "post (decode_capped src lits out ts rep dict_len mx)
    (\<lambda>(out', ts', rep'). seq_tables_ok ts'
       \<and> section_reference src lits out ts rep (mx - (length out - dict_len)) = Some (out', rep_list rep'))
    (\<lambda>_. section_reference src lits out ts rep (mx - (length out - dict_len)) = None)"
  by (rule post_mono [OF decode_capped_agrees [OF assms]]) auto

theorem sequences_section_reference_witness:
  "post (decode_capped [1, 0, 0x80, 0x45] [9, 8, 7] [1, 2] default_seq_tables (1, 4, 8) 0 100)
    (\<lambda>(out', ts', rep'). seq_tables_ok ts') (\<lambda>_. True)"
  by (rule post_mono [OF sequences_section_reference]) (auto simp: seq_tables_ok_def default_seq_tables_def)

text \<open>C19: the repeat offsets follow the format's rule: they are a list of the three most recent
  offsets; an offset value above 3 brings a new one to the front, 1 to 3 pick one of the list, a
  zero literals length shifts the choice by one (the fourth choice being the most recent less one),
  and the picked one moves to the front.\<close>

theorem resolve_offset_move_to_front:
  assumes "1 \<le> offset_value"
  shows "\<exists>off rep'. resolve_offset rep offset_value ll0 = Ok (off, rep')
    \<and> mtf_resolve (rep_list rep) offset_value ll0 = (off, rep_list rep')"
  by (rule resolve_offset_mtf [OF assms])

theorem resolve_offset_move_to_front_witness:
  "\<exists>off rep'. resolve_offset (1, 4, 8) 3 False = Ok (off, rep') \<and> off = 8 \<and> rep_list rep' = [8, 1, 4]"
  using resolve_offset_move_to_front [of 3 "(1, 4, 8)" False] by (auto simp: mtf_resolve_def rep_list_def Let_def)

end
