(* ===== verification/Block.thy ===== *)
theory Block
  imports Sequences
begin

text \<open>
  \<^verbatim>\<open>src/block.rs\<close>: the state that is shared by the blocks of a frame and the decoding of one block.
  The state a block leaves is returned; after an error the decoding of the frame has ended and its
  state is not kept.
\<close>

unbundle bit_operations_syntax

section \<open>State and header\<close>

definition MAX_BLOCK_SIZE :: nat where
  "MAX_BLOCK_SIZE = 128 * 1024"

record block_state =
  bs_out :: "byte list"
  bs_dict_len :: nat
  bs_max_output :: nat
  bs_block_max :: nat
  bs_huff :: "huff_table option"
  bs_seq :: seq_tables
  bs_rep :: rep_offsets

record block_header =
  bh_last :: bool
  bh_type :: nat
  bh_size :: nat

definition read_block_header :: "byte list \<Rightarrow> block_header result" where
  "read_block_header src =
     (if length src < 3 then Err (Truncated ''block header'' (3 - length src))
      else
        obind (slice_range src 0 3) (\<lambda>bs.
        let v = unat (or_le_bytes bs :: u32) in
        Ok \<lparr>bh_last = (v mod 2 \<noteq> 0), bh_type = v div 2 mod 4, bh_size = v div 2 ^ 3\<rparr>))"

section \<open>The three block types\<close>

definition output_len :: "block_state \<Rightarrow> nat result" where
  "output_len st = usub (length (bs_out st)) (bs_dict_len st)"

definition check_ceiling :: "block_state \<Rightarrow> nat \<Rightarrow> unit result" where
  "check_ceiling st extra =
     obind (output_len st) (\<lambda>n.
     case checked_add n extra of
       None \<Rightarrow> Err (OutputTooLarge (bs_max_output st))
     | Some nxt \<Rightarrow> if bs_max_output st < nxt then Err (OutputTooLarge (bs_max_output st)) else Ok ())"

definition decode_raw :: "block_state \<Rightarrow> byte list \<Rightarrow> block_state result" where
  "decode_raw st data =
     obind (check_ceiling st (length data)) (\<lambda>_.
     Ok (st\<lparr>bs_out := bs_out st @ data\<rparr>))"

definition decode_compressed :: "block_state \<Rightarrow> byte list \<Rightarrow> block_state result" where
  "decode_compressed st data =
     obind (literals_decode data (bs_huff st)) (\<lambda>(lits, consumed, huff).
     obind (output_len st) (\<lambda>real_so_far.
     let block_cap = min (bs_max_output st) (saturating_add real_so_far (bs_block_max st)) in
     obind (slice_from data consumed) (\<lambda>src.
     obind (decode_capped src lits (bs_out st) (bs_seq st) (bs_rep st) (bs_dict_len st) block_cap)
       (\<lambda>(out, seq, rep).
     Ok (st\<lparr>bs_out := out, bs_huff := huff, bs_seq := seq, bs_rep := rep\<rparr>)))))"

definition decode_rle :: "block_state \<Rightarrow> byte \<Rightarrow> nat \<Rightarrow> block_state result" where
  "decode_rle st b n =
     obind (check_ceiling st n) (\<lambda>_.
     Ok (st\<lparr>bs_out := bs_out st @ replicate n b\<rparr>))"

section \<open>One block\<close>

text \<open>The end of a body of \<open>n\<close> bytes at \<open>pos\<close>, checked against the input.\<close>

definition body_end :: "string \<Rightarrow> byte list \<Rightarrow> nat \<Rightarrow> nat \<Rightarrow> nat result" where
  "body_end name src pos n =
     (case checked_add pos n of
        None \<Rightarrow> Err (Invalid ''block size'' ''block extends past addressable input'')
      | Some e \<Rightarrow> if length src < e then Err (Truncated name (e - length src)) else Ok e)"

definition decode_block_at :: "block_state \<Rightarrow> byte list \<Rightarrow> nat \<Rightarrow> (block_state \<times> nat \<times> bool) result" where
  "decode_block_at st src pos =
     obind (slice_from src pos) (\<lambda>rest.
     obind (read_block_header rest) (\<lambda>header.
     if bs_block_max st < bh_size header then
       Err (Invalid ''block size'' (''block '' @ dec (bh_size header) @ '' exceeds max '' @ dec (bs_block_max st)))
     else
     (case checked_add pos 3 of
        None \<Rightarrow> Err (Invalid ''block header'' ''block position overflows usize'')
      | Some pos \<Rightarrow>
          if bh_type header = 0 then
            obind (body_end ''raw block body'' src pos (bh_size header)) (\<lambda>e.
            obind (slice_range src pos e) (\<lambda>data.
            obind (decode_raw st data) (\<lambda>st.
            Ok (st, e, bh_last header))))
          else if bh_type header = 1 then
            if length src \<le> pos then Err (Truncated ''RLE block byte'' 1)
            else
              obind (idx src pos) (\<lambda>b.
              obind (decode_rle st b (bh_size header)) (\<lambda>st.
              Ok (st, pos + 1, bh_last header)))
          else if bh_type header = 2 then
            obind (body_end ''compressed block body'' src pos (bh_size header)) (\<lambda>e.
            obind (slice_range src pos e) (\<lambda>data.
            obind (decode_compressed st data) (\<lambda>st.
            Ok (st, e, bh_last header))))
          else Err (Invalid ''block type'' ''reserved block type 3''))))"

section \<open>The invariant of the state\<close>

definition block_inv :: "block_state \<Rightarrow> bool" where
  "block_inv st \<longleftrightarrow> bs_dict_len st \<le> length (bs_out st)
     \<and> cache_ok huff_table_ok (bs_huff st) \<and> seq_tables_ok (bs_seq st)"

text \<open>A step that only appends: at most \<open>n\<close> bytes, and not beyond the ceiling.\<close>

definition grows :: "block_state \<Rightarrow> nat \<Rightarrow> block_state \<Rightarrow> bool" where
  "grows st n st' \<longleftrightarrow>
     (\<exists>ys. bs_out st' = bs_out st @ ys \<and> length ys \<le> n
        \<and> length ys \<le> bs_max_output st - (length (bs_out st) - bs_dict_len st))
     \<and> bs_dict_len st' = bs_dict_len st \<and> bs_max_output st' = bs_max_output st
     \<and> bs_block_max st' = bs_block_max st"

lemma check_ceiling_post:
  assumes "bs_dict_len st \<le> length (bs_out st)"
  shows "post (check_ceiling st n) (\<lambda>_. n \<le> bs_max_output st - (length (bs_out st) - bs_dict_len st)) (\<lambda>_. True)"
  using assms by (auto simp: check_ceiling_def output_len_def checked_add_def wp)

lemma decode_raw_post:
  assumes "block_inv st"
  shows "post (decode_raw st data) (\<lambda>st'. block_inv st' \<and> grows st (length data) st' \<and> bs_out st' = bs_out st @ data) (\<lambda>_. True)"
  using assms check_ceiling_post [of st "length data"]
  by (auto simp: decode_raw_def wp block_inv_def grows_def elim!: post_mono)

lemma decode_rle_post:
  assumes "block_inv st"
  shows "post (decode_rle st b n) (\<lambda>st'. block_inv st' \<and> grows st n st' \<and> bs_out st' = bs_out st @ replicate n b) (\<lambda>_. True)"
  using assms check_ceiling_post [of st n]
  by (auto simp: decode_rle_def wp block_inv_def grows_def elim!: post_mono)

lemma decode_compressed_post:
  assumes "block_inv st"
  shows "post (decode_compressed st data) (\<lambda>st'. block_inv st' \<and> grows st (bs_block_max st) st') (\<lambda>_. True)"
proof -
  define room where "room = min (bs_max_output st) (saturating_add (length (bs_out st) - bs_dict_len st) (bs_block_max st))
    - (length (bs_out st) - bs_dict_len st)"
  have room: "room \<le> bs_block_max st" "room \<le> bs_max_output st - (length (bs_out st) - bs_dict_len st)"
    by (auto simp: room_def saturating_add_def)
  have st: "bs_dict_len st \<le> length (bs_out st)" "seq_tables_ok (bs_seq st)" "cache_ok huff_table_ok (bs_huff st)"
    using assms by (simp_all add: block_inv_def)
  show ?thesis
    using st(1) room unfolding decode_compressed_def output_len_def
    by (auto simp: wp Let_def block_inv_def grows_def room_def [symmetric]
        intro!: post_mono [OF literals_decode_post [OF st(3)]] post_mono [OF decode_capped_post [OF st(1,2)]])
qed

lemma read_block_header_post:
  "post (read_block_header src) (\<lambda>h. bh_type h < 4 \<and> 3 \<le> length src) (\<lambda>_. True)"
  by (auto simp: read_block_header_def wp Let_def)

lemma body_end_post: "post (body_end name src pos n) (\<lambda>e. e = pos + n \<and> e \<le> length src) (\<lambda>_. True)"
  by (auto simp: body_end_def checked_add_def)

lemma decode_block_at_post:
  assumes "block_inv st" and "pos \<le> length src"
  shows "post (decode_block_at st src pos)
    (\<lambda>(st', pos', lst). block_inv st' \<and> grows st (bs_block_max st) st' \<and> pos < pos' \<and> pos' \<le> length src) (\<lambda>_. True)"
proof -
  have mono: "grows st n st' \<Longrightarrow> n \<le> bs_block_max st \<Longrightarrow> grows st (bs_block_max st) st'" for n st'
    by (auto simp: grows_def)
  have "post (decode_block_at st src pos)
    (\<lambda>(st', pos', lst). block_inv st' \<and> grows st (bs_block_max st) st' \<and> pos < pos' \<and> pos' \<le> length src) (\<lambda>_. True)"
    if h: "read_block_header (drop pos src) = Ok h" "3 \<le> length (drop pos src)" "\<not> bs_block_max st < bh_size h" for h
  proof (cases "checked_add pos 3")
    case None
    then show ?thesis using h assms(2) by (simp add: decode_block_at_def)
  next
    case (Some p)
    then have p: "p = pos + 3" by (simp add: checked_add_def split: if_splits)
    show ?thesis
      unfolding decode_block_at_def slice_from_Ok [OF assms(2)] obind_simps h(1) if_not_P [OF h(3)] Some option.case
      using h(2,3) assms p
      by (auto simp: wp intro!: post_mono [OF body_end_post] post_mono [OF decode_raw_post [OF assms(1)]]
          post_mono [OF decode_rle_post [OF assms(1)]] post_mono [OF decode_compressed_post [OF assms(1)]]
          intro: mono)
  qed
  then show ?thesis
    using read_block_header_post [of "drop pos src"] assms(2)
    by (cases "read_block_header (drop pos src)") (auto simp: decode_block_at_def)
qed

section \<open>More history, another ceiling\<close>

text \<open>Two states that differ in the history in front of the output and in the ceilings. A block that
  decodes in the first decodes in the second, to the same bytes, when these fit there: this links
  a decoder that drops history with one that keeps it, and one ceiling with another. The input
  may go on behind the block.\<close>

definition room :: "block_state \<Rightarrow> nat" where
  "room st = bs_max_output st - (length (bs_out st) - bs_dict_len st)"

definition extends :: "byte list \<Rightarrow> block_state \<Rightarrow> block_state \<Rightarrow> bool" where
  "extends pre st st' \<longleftrightarrow> bs_out st' = pre @ bs_out st \<and> bs_dict_len st' \<le> length (bs_out st')
     \<and> bs_max_output st' \<le> usize_max
     \<and> bs_block_max st' = bs_block_max st \<and> bs_huff st' = bs_huff st \<and> bs_seq st' = bs_seq st \<and> bs_rep st' = bs_rep st"

definition appended :: "block_state \<Rightarrow> byte list \<Rightarrow> block_state \<Rightarrow> block_state" where
  "appended st ys st1 = st\<lparr>bs_out := bs_out st @ ys, bs_huff := bs_huff st1, bs_seq := bs_seq st1, bs_rep := bs_rep st1\<rparr>"

lemma appended_extends: "extends pre st st' \<Longrightarrow> bs_out st1 = bs_out st @ ys \<Longrightarrow> bs_block_max st1 = bs_block_max st \<Longrightarrow>
    extends pre st1 (appended st' ys st1)"
  by (auto simp: extends_def appended_def)

lemma check_ceiling_room:
  assumes "bs_dict_len st \<le> length (bs_out st)" and "n \<le> room st" and "bs_max_output st \<le> usize_max"
    and "length (bs_out st) - bs_dict_len st \<le> bs_max_output st \<or> 0 < n"
  shows "check_ceiling st n = Ok ()"
  using assms by (auto simp: check_ceiling_def output_len_def checked_add_def room_def)

definition within :: "block_state \<Rightarrow> bool" where
  "within st \<longleftrightarrow> length (bs_out st) - bs_dict_len st \<le> bs_max_output st"

lemma decode_raw_history:
  assumes "decode_raw st data = Ok st1" and "extends pre st st'" and "within st'" and "length data \<le> room st'"
  shows "bs_out st1 = bs_out st @ data \<and> decode_raw st' data = Ok (appended st' data st1)"
proof -
  have st1: "st1 = st\<lparr>bs_out := bs_out st @ data\<rparr>"
    using assms(1) by (auto simp: decode_raw_def outcome_simps)
  have "check_ceiling st' (length data) = Ok ()"
    using assms(2-4) by (intro check_ceiling_room) (auto simp: extends_def within_def)
  then show ?thesis using assms(2) by (simp add: decode_raw_def appended_def st1 extends_def)
qed

lemma decode_rle_history:
  assumes "decode_rle st b n = Ok st1" and "extends pre st st'" and "within st'" and "n \<le> room st'"
  shows "bs_out st1 = bs_out st @ replicate n b \<and> decode_rle st' b n = Ok (appended st' (replicate n b) st1)"
proof -
  have st1: "st1 = st\<lparr>bs_out := bs_out st @ replicate n b\<rparr>"
    using assms(1) by (auto simp: decode_rle_def outcome_simps)
  have "check_ceiling st' n = Ok ()"
    using assms(2-4) by (intro check_ceiling_room) (auto simp: extends_def within_def)
  then show ?thesis using assms(2) by (simp add: decode_rle_def appended_def st1 extends_def)
qed

lemma decode_compressed_history:
  assumes inv: "block_inv st" and dec: "decode_compressed st data = Ok st1" and out: "bs_out st1 = bs_out st @ ys"
    and ext: "extends pre st st'" and "within st'" and "length ys \<le> room st'"
  shows "decode_compressed st' data = Ok (appended st' ys st1)"
proof -
  have len: "bs_dict_len st \<le> length (bs_out st)" "seq_tables_ok (bs_seq st)"
    using inv by (simp_all add: block_inv_def)
  define n where "n = length (bs_out st) - bs_dict_len st"
  define n' where "n' = length (bs_out st') - bs_dict_len st'"
  obtain lits consumed huff seq rep where
    lits: "literals_decode data (bs_huff st) = Ok (lits, consumed, huff)" "consumed \<le> length data"
    and seq: "decode_capped (drop consumed data) lits (bs_out st) (bs_seq st) (bs_rep st) (bs_dict_len st)
      (min (bs_max_output st) (saturating_add n (bs_block_max st))) = Ok (bs_out st @ ys, seq, rep)"
    and st1: "st1 = st\<lparr>bs_out := bs_out st @ ys, bs_huff := huff, bs_seq := seq, bs_rep := rep\<rparr>"
    using dec out len(1) by (auto simp: decode_compressed_def output_len_def outcome_simps Let_def n_def)
  have "length ys \<le> min (bs_max_output st) (saturating_add n (bs_block_max st)) - n"
    using post_OkD [OF decode_capped_post [OF len] seq] by (auto simp: n_def)
  then have "length ys \<le> bs_block_max st" by (simp add: saturating_add_def)
  moreover have "length ys \<le> bs_max_output st' - n'" using assms(6) by (simp add: room_def n'_def)
  moreover have "bs_max_output st' \<le> usize_max" using ext by (simp add: extends_def)
  ultimately have ys: "length ys \<le> min (bs_max_output st') (saturating_add n' (bs_block_max st')) - n'"
    using ext by (auto simp: saturating_add_def extends_def)
  have "decode_capped (drop consumed data) lits (pre @ bs_out st) (bs_seq st) (bs_rep st) (bs_dict_len st')
      (min (bs_max_output st') (saturating_add n' (bs_block_max st'))) = Ok (pre @ bs_out st @ ys, seq, rep)"
    using ext ys by (intro decode_capped_history [OF len seq]) (auto simp: extends_def n'_def)
  moreover have "bs_dict_len st' \<le> length pre + length (bs_out st)" using ext by (auto simp: extends_def)
  ultimately show ?thesis
    using ext lits by (simp add: decode_compressed_def output_len_def Let_def extends_def st1 appended_def n'_def)
qed

lemma read_block_header_append:
  "read_block_header src = Ok h \<Longrightarrow> read_block_header (src @ beyond) = Ok h"
  by (auto simp: read_block_header_def outcome_simps Let_def split: if_splits)

lemma body_end_append: "body_end name src pos n = Ok e \<Longrightarrow> body_end name (src @ beyond) pos n = Ok e"
  by (auto simp: body_end_def split: option.splits if_splits)

lemma decode_block_at_history:
  assumes inv: "block_inv st" and dec: "decode_block_at st src pos = Ok (st1, pos1, lst)"
    and out: "bs_out st1 = bs_out st @ ys"
    and ext: "extends pre st st'" and within: "within st'" and ys: "length ys \<le> room st'"
  shows "decode_block_at st' (src @ beyond) pos = Ok (appended st' ys st1, pos1, lst)"
proof -
  have pos: "pos \<le> length src" using dec by (auto simp: decode_block_at_def outcome_simps)
  obtain h where h: "read_block_header (drop pos src) = Ok h" "\<not> bs_block_max st < bh_size h"
    using dec pos by (auto simp: decode_block_at_def outcome_simps split: if_splits)
  have bm: "bs_block_max st' = bs_block_max st" using ext by (simp add: extends_def)
  obtain p where p: "checked_add pos 3 = Some p"
    using dec pos h by (auto simp: decode_block_at_def split: option.splits)
  note tail = read_block_header_append [OF h(1), of beyond]
  have tail': "read_block_header (drop pos (src @ beyond)) = Ok h" using tail pos by simp
  have pos': "pos \<le> length (src @ beyond)" using pos by simp
  have unf: "decode_block_at st (src) pos = Ok (st1, pos1, lst)" by (rule dec)
  consider "bh_type h = 0" | "bh_type h = 1" | "bh_type h = 2" | "bh_type h \<noteq> 0" "bh_type h \<noteq> 1" "bh_type h \<noteq> 2"
    by blast
  then show ?thesis
  proof cases
    case 1
    with dec pos h p obtain data where d: "body_end ''raw block body'' src p (bh_size h) = Ok pos1"
      "slice_range src p pos1 = (Ok data :: byte list result)" "decode_raw st data = Ok st1" "lst = bh_last h"
      by (auto simp: decode_block_at_def outcome_simps)
    have "data = ys" using d(3) out by (auto simp: decode_raw_def outcome_simps)
    then show ?thesis
      using decode_raw_history [OF d(3) ext within] ys 1 pos' h(2) p bm tail' body_end_append [OF d(1), of beyond] d(2,4)
      by (simp add: decode_block_at_def outcome_simps)
  next
    case 2
    with dec pos h p have d: "p < length src" "decode_rle st (src ! p) (bh_size h) = Ok st1" "pos1 = p + 1" "lst = bh_last h"
      by (auto simp: decode_block_at_def outcome_simps split: if_splits)
    have "replicate (bh_size h) (src ! p) = ys" using d(2) out by (auto simp: decode_rle_def outcome_simps)
    then show ?thesis
      using decode_rle_history [OF d(2) ext within] ys 2 pos' h(2) p bm tail' d
      by (auto simp: decode_block_at_def outcome_simps nth_append)
  next
    case 3
    with dec pos h p obtain data where d: "body_end ''compressed block body'' src p (bh_size h) = Ok pos1"
      "slice_range src p pos1 = (Ok data :: byte list result)" "decode_compressed st data = Ok st1" "lst = bh_last h"
      by (auto simp: decode_block_at_def outcome_simps)
    show ?thesis
      using decode_compressed_history [OF inv d(3) out ext within ys] 3 pos' h(2) p bm tail' body_end_append [OF d(1), of beyond] d(2,4)
      by (simp add: decode_block_at_def outcome_simps)
  next
    case 4
    with dec pos h p show ?thesis by (simp add: decode_block_at_def outcome_simps)
  qed
qed

section \<open>Properties\<close>

text \<open>C20: one step of the block loop is safe and bounded. From every state that satisfies the
  invariant (dictionary prefix inside the output, well-formed cached tables) and every input, it
  returns; a block that decodes keeps the invariant, only appends to the output, at most the block
  limit and never past the output ceiling, and moves the input position forward inside the
  input.\<close>

theorem decode_block_at_safe:
  assumes "block_inv st" and "pos \<le> length src"
  shows "post (decode_block_at st src pos)
    (\<lambda>(st', pos', lst). block_inv st' \<and> grows st (bs_block_max st) st' \<and> pos < pos' \<and> pos' \<le> length src) (\<lambda>_. True)"
  by (rule decode_block_at_post [OF assms])

definition example_state :: block_state where
  "example_state = \<lparr>bs_out = [1, 2, 3], bs_dict_len = 1, bs_max_output = 100, bs_block_max = 50,
     bs_huff = None, bs_seq = default_seq_tables, bs_rep = (1, 4, 8)\<rparr>"

lemma example_state_inv: "block_inv example_state"
  by (simp add: block_inv_def example_state_def seq_tables_ok_def default_seq_tables_def)

theorem decode_block_at_safe_witness:
  "post (decode_block_at example_state [0, 0x2B, 0, 0, 9] 1) (\<lambda>(st', pos', lst). block_inv st' \<and> 1 < pos') (\<lambda>_. True)
    \<and> decode_block_at example_state [0, 0x2B, 0, 0, 9] 1
      = Ok (example_state\<lparr>bs_out := [1, 2, 3, 9, 9, 9, 9, 9]\<rparr>, 5, True)"
proof
  show "post (decode_block_at example_state [0, 0x2B, 0, 0, 9] 1) (\<lambda>(st', pos', lst). block_inv st' \<and> 1 < pos') (\<lambda>_. True)"
    by (rule post_mono [OF decode_block_at_safe [OF example_state_inv]]) auto
  show "decode_block_at example_state [0, 0x2B, 0, 0, 9] 1
      = Ok (example_state\<lparr>bs_out := [1, 2, 3, 9, 9, 9, 9, 9]\<rparr>, 5, True)"
    by (simp add: decode_block_at_def read_block_header_def or_le_bytes_eq unat_from_le_bytes_32 checked_add_def
        usize_max_def decode_rle_def check_ceiling_def output_len_def example_state_def)
      (simp add: numeral_eq_Suc)
qed

end
