(* ===== verification/Dict.thy ===== *)
theory Dict
  imports Block
begin

text \<open>
  \<^verbatim>\<open>src/dict.rs\<close>: dictionaries, raw content or structured with preset entropy tables and repeat
  offsets. The invariant of a dictionary is what its content and tables must satisfy to prime a
  decode (\<open>dict_ok\<close>).
\<close>

section \<open>Dictionaries\<close>

definition DICT_MAGIC :: u32 where
  "DICT_MAGIC = 0xEC30A437"

record dict_entropy =
  de_huff :: huff_table
  de_tables :: seq_tables
  de_rep :: rep_offsets
  de_ll_nc :: "int list \<times> nat \<times> nat"
  de_of_nc :: "int list \<times> nat \<times> nat"
  de_ml_nc :: "int list \<times> nat \<times> nat"

record dictionary =
  di_id :: u32
  di_content :: "byte list"
  di_entropy :: "dict_entropy option"

definition dict_raw :: "byte list \<Rightarrow> dictionary" where
  "dict_raw bytes = \<lparr>di_id = 0, di_content = bytes, di_entropy = None\<rparr>"

definition u32_at :: "byte list \<Rightarrow> nat \<Rightarrow> u32 result" where
  "u32_at bytes i = obind (slice_range bytes i (i + 4)) (\<lambda>bs. Ok (from_le_bytes bs))"

text \<open>An FSE table description at \<open>p\<close>: the counts, the decode table and the position behind it.\<close>

definition dict_fse_table :: "byte list \<Rightarrow> nat \<Rightarrow> nat \<Rightarrow> (ncount \<times> fse_table \<times> nat) result" where
  "dict_fse_table bytes p max_log =
     obind (slice_from bytes p) (\<lambda>desc.
     obind (read_ncount desc max_log) (\<lambda>nc.
     obind (build_dtable (nc_counts nc) (nc_max_symbol nc) (nc_table_log nc)) (\<lambda>t.
     Ok (nc, t, p + nc_bytes_consumed nc))))"

fun check_reps :: "nat \<Rightarrow> nat list \<Rightarrow> unit result" where
  "check_reps content_len [] = Ok ()"
| "check_reps content_len (r # rs) =
     (if r = 0 \<or> content_len < r then
        Err (Dictionary (''invalid repeat offset '' @ dec r @ '' for '' @ dec content_len @ ''-byte content''))
      else check_reps content_len rs)"

definition nc_triple :: "ncount \<Rightarrow> int list \<times> nat \<times> nat" where
  "nc_triple nc = (nc_counts nc, nc_max_symbol nc, nc_table_log nc)"

definition dict_parse_tagged :: "byte list \<Rightarrow> dictionary result" where
  "dict_parse_tagged bytes =
     obind (u32_at bytes 4) (\<lambda>did.
     let p = 8 in
     obind (slice_from bytes p) (\<lambda>desc.
     obind (huff_read_table desc) (\<lambda>(hufftable, used).
     let p = p + used in
     obind (dict_fse_table bytes p 8) (\<lambda>(of_nc, oft, p).
     obind (dict_fse_table bytes p 9) (\<lambda>(ml_nc, ml, p).
     obind (dict_fse_table bytes p 9) (\<lambda>(ll_nc, ll, p).
     if length bytes < p + 12 then
       Err (Truncated ''dictionary repeat offsets'' (p + 12 - length bytes))
     else
     obind (u32_at bytes p) (\<lambda>r0.
     obind (u32_at bytes (p + 4)) (\<lambda>r1.
     obind (u32_at bytes (p + 8)) (\<lambda>r2.
     let p = p + 12 in
     obind (slice_from bytes p) (\<lambda>content.
     obind (check_reps (length content) [unat r0, unat r1, unat r2]) (\<lambda>_.
     Ok \<lparr>di_id = did, di_content = content,
         di_entropy = Some \<lparr>de_huff = hufftable,
           de_tables = \<lparr>st_ll = Some ll, st_of = Some oft, st_ml = Some ml\<rparr>,
           de_rep = (unat r0, unat r1, unat r2),
           de_ll_nc = nc_triple ll_nc, de_of_nc = nc_triple of_nc, de_ml_nc = nc_triple ml_nc\<rparr>\<rparr>)))))))))))"

definition dict_parse :: "byte list \<Rightarrow> dictionary result" where
  "dict_parse bytes =
     (if length bytes < 8 then Ok (dict_raw bytes)
      else
        obind (u32_at bytes 0) (\<lambda>magic.
        if magic \<noteq> DICT_MAGIC then Ok (dict_raw bytes)
        else dict_parse_tagged bytes))"

section \<open>What a parsed dictionary satisfies\<close>

definition nc_ok :: "nat \<Rightarrow> int list \<times> nat \<times> nat \<Rightarrow> bool" where
  "nc_ok max_log nc \<longleftrightarrow> (let (counts, ms, lg) = nc in valid_norm counts ms lg \<and> 5 \<le> lg \<and> lg \<le> max_log)"

definition dict_ok :: "dictionary \<Rightarrow> bool" where
  "dict_ok d \<longleftrightarrow>
     (case di_entropy d of
        None \<Rightarrow> True
      | Some e \<Rightarrow> huff_table_ok (de_huff e) \<and> seq_tables_ok (de_tables e)
          \<and> (\<forall>r \<in> set (rep_list (de_rep e)). 0 < r \<and> r \<le> length (di_content d))
          \<and> nc_ok 9 (de_ll_nc e) \<and> nc_ok 8 (de_of_nc e) \<and> nc_ok 9 (de_ml_nc e))"

lemma u32_at_post [wp]:
  "post (u32_at bytes i) P Q \<longleftrightarrow> i + 4 \<le> length bytes \<and> P (from_le_bytes (take 4 (drop i bytes)))"
  by (auto simp: u32_at_def wp)

lemma dict_fse_table_post:
  assumes "p \<le> length bytes" and "max_log \<le> 9"
  shows "post (dict_fse_table bytes p max_log)
    (\<lambda>(nc, t, p'). nc_ok max_log (nc_triple nc) \<and> fse_table_ok t \<and> p' \<le> length bytes) (\<lambda>_. True)"
proof (cases "read_ncount (drop p bytes) max_log")
  case (Ok nc)
  then have nc: "valid_norm (nc_counts nc) (nc_max_symbol nc) (nc_table_log nc)"
    "5 \<le> nc_table_log nc" "nc_table_log nc \<le> max_log" "nc_bytes_consumed nc \<le> length bytes - p"
    using read_ncount_cases [of max_log "drop p bytes"] assms by auto
  then have "post (build_dtable (nc_counts nc) (nc_max_symbol nc) (nc_table_log nc)) fse_table_ok (\<lambda>_. False)"
    using assms by (intro build_dtable_post) auto
  then show ?thesis
    using assms nc Ok by (auto simp: dict_fse_table_def wp nc_ok_def nc_triple_def elim!: post_mono)
qed (use read_ncount_cases [of max_log "drop p bytes"] assms in \<open>auto simp: dict_fse_table_def\<close>)

lemma check_reps_post:
  "post (check_reps n rs) (\<lambda>_. \<forall>r \<in> set rs. 0 < r \<and> r \<le> n) (\<lambda>_. True)"
  by (induction rs) auto

lemma dict_parse_tagged_post:
  assumes "8 \<le> length bytes"
  shows "post (dict_parse_tagged bytes) dict_ok (\<lambda>_. True)"
proof -
  have huff: "post (huff_read_table (drop 8 bytes)) (\<lambda>(t, n). huff_table_ok t \<and> 8 + n \<le> length bytes) (\<lambda>_. True)"
    using assms by (intro post_mono [OF huff_read_table_post]) auto
  show ?thesis
    using assms unfolding dict_parse_tagged_def
    by (auto simp: wp Let_def dict_ok_def seq_tables_ok_def rep_list_def
        intro!: post_mono [OF huff] post_mono [OF dict_fse_table_post] post_mono [OF check_reps_post])
qed

lemma dict_parse_post: "post (dict_parse bytes) dict_ok (\<lambda>_. True)"
  using dict_parse_tagged_post [of bytes] by (auto simp: dict_parse_def wp dict_raw_def dict_ok_def)

section \<open>Properties\<close>

text \<open>C21: parsing a dictionary from any bytes neither panics nor loops, and what it accepts can
  prime a decode and an encode: the Huffman table and the three FSE tables are well formed, the
  counts kept for the encoder are normalized distributions within the format's accuracy logs, and
  the repeat offsets are non-zero and reach no further than the content.\<close>

theorem dict_parse_safe: "post (dict_parse bytes) dict_ok (\<lambda>_. True)"
  by (rule dict_parse_post)

end
