(* ===== verification/Frame.thy ===== *)
theory Frame
  imports Dict Xxhash
begin

text \<open>
  \<^verbatim>\<open>src/frame.rs\<close>: the frame header, the decoding of one frame, and the entry points that decode
  a stream of frames. The pre-sizing of the output vector changes no result and is left out; a
  \<open>u64\<close> content size always fits the \<open>usize\<close> of the modelled 64-bit host, so \<open>usize::try_from\<close>
  is the identity.
\<close>

unbundle bit_operations_syntax

section \<open>The header\<close>

definition ZSTD_MAGIC :: u32 where
  "ZSTD_MAGIC = 0xFD2FB528"

definition SKIPPABLE_MAGIC_MASK :: u32 where
  "SKIPPABLE_MAGIC_MASK = 0xFFFFFFF0"

definition SKIPPABLE_MAGIC :: u32 where
  "SKIPPABLE_MAGIC = 0x184D2A50"

definition DEFAULT_MAX_OUTPUT :: nat where
  "DEFAULT_MAX_OUTPUT = 256 * 2 ^ 20"

definition HTTP_MAX_WINDOW_SIZE :: nat where
  "HTTP_MAX_WINDOW_SIZE = 8 * 2 ^ 20"

record decoded_frame =
  df_data :: "byte list"
  df_consumed :: nat

record frame_header =
  fh_header_len :: nat
  fh_has_checksum :: bool
  fh_content_size :: "nat option"
  fh_window_size :: nat
  fh_dictionary_id :: u32

text \<open>The three optional fields; each returns its value and the position behind it.\<close>

definition window_descriptor :: "byte list \<Rightarrow> bool \<Rightarrow> nat \<Rightarrow> (nat option \<times> nat) result" where
  "window_descriptor src single_segment p =
     (if \<not> single_segment then
        if length src \<le> p then Err (Truncated ''window descriptor'' 1)
        else
          obind (idx src p) (\<lambda>wd.
          let exponent = unat wd div 2 ^ 3;
              mantissa = unat wd mod 8;
              window_log = 10 + exponent;
              window_base = 2 ^ window_log in
          Ok (Some (window_base + (window_base div 8) * mantissa), p + 1))
      else Ok (None, p))"

definition dictionary_id_field :: "byte list \<Rightarrow> nat \<Rightarrow> nat \<Rightarrow> (u32 \<times> nat) result" where
  "dictionary_id_field src dict_id_flag p =
     obind (idx [0, 1, 2, 4] dict_id_flag) (\<lambda>dict_id_size.
     if length src < p + dict_id_size then Err (Truncated ''dictionary id'' (p + dict_id_size - length src))
     else
       obind (slice_range src p (p + dict_id_size)) (\<lambda>bs.
       Ok (or_le_bytes bs, p + dict_id_size)))"

definition fcs_field_size :: "nat \<Rightarrow> bool \<Rightarrow> nat" where
  "fcs_field_size fcs_flag single_segment =
     (if fcs_flag = 0 then (if single_segment then 1 else 0)
      else if fcs_flag = 1 then 2 else if fcs_flag = 2 then 4 else 8)"

definition content_size_field :: "byte list \<Rightarrow> nat \<Rightarrow> nat \<Rightarrow> (nat option \<times> nat) result" where
  "content_size_field src fcs_size p =
     (if length src < p + fcs_size then Err (Truncated ''frame content size'' (p + fcs_size - length src))
      else if fcs_size = 0 then Ok (None, p + fcs_size)
      else
        obind (slice_range src p (p + fcs_size)) (\<lambda>bs.
        let v = unat (or_le_bytes bs :: u64) in
        Ok (Some (if fcs_size = 2 then v + 256 else v), p + fcs_size)))"

definition parse_frame_header :: "byte list \<Rightarrow> frame_header result" where
  "parse_frame_header src =
     (if src = [] then Err (Truncated ''frame header descriptor'' 1)
      else
      obind (idx src 0) (\<lambda>b. let fhd = unat b;
          dict_id_flag = fhd mod 4;
          content_checksum = (fhd div 2 ^ 2 mod 2 \<noteq> 0) in
      if fhd div 2 ^ 3 mod 2 \<noteq> 0 then Err (ReservedBit ''frame header descriptor'')
      else
      let single_segment = (fhd div 2 ^ 5 mod 2 \<noteq> 0);
          fcs_flag = fhd div 2 ^ 6 mod 4 in
      obind (window_descriptor src single_segment 1) (\<lambda>(from_desc, p).
      obind (dictionary_id_field src dict_id_flag p) (\<lambda>(dictionary_id, p).
      obind (content_size_field src (fcs_field_size fcs_flag single_segment) p) (\<lambda>(content_size, p).
      let window_size =
        (if single_segment then (case content_size of None \<Rightarrow> 0 | Some n \<Rightarrow> n)
         else (case from_desc of None \<Rightarrow> 0 | Some n \<Rightarrow> n)) in
      Ok \<lparr>fh_header_len = p, fh_has_checksum = content_checksum, fh_content_size = content_size,
          fh_window_size = window_size, fh_dictionary_id = dictionary_id\<rparr>)))))"

definition frame_header_magic :: "byte list \<Rightarrow> frame_header result" where
  "frame_header_magic src =
     (if length src < 4 then Err (Truncated ''frame magic'' (4 - length src))
      else
      obind (u32_at src 0) (\<lambda>magic.
      if magic \<noteq> ZSTD_MAGIC then Err (BadMagic magic)
      else
      obind (slice_from src 4) (\<lambda>rest.
      obind (parse_frame_header rest) (\<lambda>h.
      Ok (h\<lparr>fh_header_len := fh_header_len h + 4\<rparr>)))))"

definition frame_header_magicless :: "byte list \<Rightarrow> frame_header result" where
  "frame_header_magicless src = parse_frame_header src"

section \<open>One frame\<close>

text \<open>What stands before the header: a skippable frame, or the magic.\<close>

definition decode_prefix :: "byte list \<Rightarrow> (decoded_frame + nat) result" where
  "decode_prefix src =
     (if length src < 4 then Err (Truncated ''frame magic'' (4 - length src))
      else
      obind (u32_at src 0) (\<lambda>magic.
      if magic AND SKIPPABLE_MAGIC_MASK = SKIPPABLE_MAGIC then
        if length src < 8 then Err (Truncated ''skippable frame size'' (8 - length src))
        else
          obind (u32_at src 4) (\<lambda>len.
          case checked_add 8 (unat len) of
            None \<Rightarrow> Err (Invalid ''skippable frame size'' ''size overflows usize'')
          | Some consumed \<Rightarrow>
              if length src < consumed then Err (Truncated ''skippable frame body'' (consumed - length src))
              else Ok (Inl \<lparr>df_data = [], df_consumed = consumed\<rparr>))
      else if magic \<noteq> ZSTD_MAGIC then Err (BadMagic magic)
      else Ok (Inr 4)))"

definition window_ceiling :: "nat option \<Rightarrow> frame_header \<Rightarrow> unit result" where
  "window_ceiling max_window header =
     (case max_window of
        None \<Rightarrow> Ok ()
      | Some max_ws \<Rightarrow>
          if max_ws < fh_window_size header then
            Err (Invalid ''window size'' (''frame window '' @ dec (fh_window_size header)
              @ '' exceeds the '' @ dec max_ws @ ''-byte ceiling''))
          else Ok ())"

definition output_cap :: "nat option \<Rightarrow> nat \<Rightarrow> nat result" where
  "output_cap content_size max_output =
     (case content_size of
        Some n \<Rightarrow> if max_output < n then Err (OutputTooLarge max_output) else Ok n
      | None \<Rightarrow> Ok max_output)"

text \<open>The state before the first block, primed with a dictionary if there is one.\<close>

definition initial_state :: "nat \<Rightarrow> nat \<Rightarrow> block_state" where
  "initial_state max_output block_max =
     \<lparr>bs_out = [], bs_dict_len = 0, bs_max_output = max_output, bs_block_max = block_max,
      bs_huff = None, bs_seq = default_seq_tables, bs_rep = (1, 4, 8)\<rparr>"

definition dictionary_mismatch :: "u32 \<Rightarrow> dictionary \<Rightarrow> zstd_error" where
  "dictionary_mismatch did d =
     Dictionary (''frame references dictionary id '' @ dec (unat did) @ '' but dictionary is id '' @ dec (unat (di_id d)))"

definition load_dictionary :: "dictionary \<Rightarrow> block_state \<Rightarrow> block_state" where
  "load_dictionary d st =
     (let st = st\<lparr>bs_out := bs_out st @ di_content d, bs_dict_len := length (di_content d)\<rparr> in
      case di_entropy d of
        None \<Rightarrow> st
      | Some e \<Rightarrow> st\<lparr>bs_huff := Some (de_huff e), bs_seq := de_tables e, bs_rep := de_rep e\<rparr>)"

definition prime_state :: "dictionary option \<Rightarrow> u32 \<Rightarrow> block_state \<Rightarrow> block_state result" where
  "prime_state dict dictionary_id st =
     (case dict of
        Some d \<Rightarrow>
          if dictionary_id \<noteq> 0 \<and> dictionary_id \<noteq> di_id d then Err (dictionary_mismatch dictionary_id d)
          else Ok (load_dictionary d st)
      | None \<Rightarrow>
          if dictionary_id \<noteq> 0 then
            Err (Dictionary (''frame references dictionary id '' @ dec (unat dictionary_id)
              @ '' but no dictionary was supplied''))
          else Ok st)"

text \<open>Every block moves the position forward inside the input, so the loop ends.\<close>

lemma decode_block_at_advances:
  "decode_block_at st src pos = Ok (st', pos', lst) \<Longrightarrow> pos < pos' \<and> pos' \<le> length src"
  by (auto simp: decode_block_at_def outcome_simps body_end_def checked_add_def split: if_splits option.splits)

function decode_blocks :: "byte list \<Rightarrow> block_state \<Rightarrow> nat \<Rightarrow> (block_state \<times> nat) result" where
  "decode_blocks src st pos =
     obind (decode_block_at st src pos) (\<lambda>(st, pos, lst).
     if lst then Ok (st, pos) else decode_blocks src st pos)"
  by pat_completeness auto
termination
  by (relation "measure (\<lambda>(src, st, pos). length src - pos)")
    (auto dest!: decode_block_at_advances)

declare decode_blocks.simps [simp del]

definition check_content_size :: "nat option \<Rightarrow> nat \<Rightarrow> unit result" where
  "check_content_size content_size n_out =
     (case content_size of
        None \<Rightarrow> Ok ()
      | Some n \<Rightarrow>
          if n_out \<noteq> n then
            Err (Invalid ''frame content size'' (''declared '' @ dec n @ '', decoded '' @ dec n_out))
          else Ok ())"

text \<open>The checksum behind the blocks: the position behind it, given the hash of the content.\<close>

definition check_checksum :: "bool \<Rightarrow> byte list \<Rightarrow> nat \<Rightarrow> u64 \<Rightarrow> nat result" where
  "check_checksum has_checksum src pos h =
     (if has_checksum then
        if length src < pos + 4 then Err (Truncated ''content checksum'' (pos + 4 - length src))
        else
          obind (u32_at src pos) (\<lambda>stored.
          let computed = ucast (h AND 0xFFFFFFFF) in
          if stored \<noteq> computed then Err (ChecksumMismatch stored computed)
          else Ok (pos + 4))
      else Ok pos)"

definition decode_body ::
  "byte list \<Rightarrow> nat \<Rightarrow> nat \<Rightarrow> dictionary option \<Rightarrow> nat option \<Rightarrow> decoded_frame result" where
  "decode_body src pos max_output dict max_window =
     obind (slice_from src pos) (\<lambda>rest.
     obind (parse_frame_header rest) (\<lambda>header.
     let pos = pos + fh_header_len header in
     obind (window_ceiling max_window header) (\<lambda>_.
     let block_max = min (fh_window_size header) MAX_BLOCK_SIZE in
     obind (output_cap (fh_content_size header) max_output) (\<lambda>cap.
     obind (prime_state dict (fh_dictionary_id header) (initial_state cap block_max)) (\<lambda>st.
     let dict_len = bs_dict_len st in
     obind (decode_blocks src st pos) (\<lambda>(st, pos).
     obind (usub (length (bs_out st)) dict_len) (\<lambda>n_out.
     obind (check_content_size (fh_content_size header) n_out) (\<lambda>_.
     obind (slice_from (bs_out st) dict_len) (\<lambda>data.
     obind (check_checksum (fh_has_checksum header) src pos (xxh64 data 0)) (\<lambda>pos.
     Ok \<lparr>df_data = data, df_consumed = pos\<rparr>))))))))))"

definition decode_frame ::
  "byte list \<Rightarrow> bool \<Rightarrow> nat \<Rightarrow> dictionary option \<Rightarrow> nat option \<Rightarrow> decoded_frame result" where
  "decode_frame src expect_magic max_output dict max_window =
     (if expect_magic then
        obind (decode_prefix src) (\<lambda>r.
        case r of
          Inl skipped \<Rightarrow> Ok skipped
        | Inr pos \<Rightarrow> decode_body src pos max_output dict max_window)
      else decode_body src 0 max_output dict max_window)"

definition decode_one_with_dict :: "byte list \<Rightarrow> bool \<Rightarrow> nat \<Rightarrow> dictionary option \<Rightarrow> decoded_frame result" where
  "decode_one_with_dict src expect_magic max_output dict = decode_frame src expect_magic max_output dict None"

definition decode_one :: "byte list \<Rightarrow> bool \<Rightarrow> nat \<Rightarrow> decoded_frame result" where
  "decode_one src expect_magic max_output = decode_one_with_dict src expect_magic max_output None"

section \<open>Streams of frames\<close>

text \<open>A frame takes at least one byte, so the loop over the frames ends.\<close>

lemma decode_blocks_advances:
  "decode_blocks src st pos = Ok (st', pos') \<Longrightarrow> pos < pos' \<and> pos' \<le> length src"
proof (induction src st pos rule: decode_blocks.induct)
  case (1 src st pos)
  obtain st1 pos1 lst where step: "decode_block_at st src pos = Ok (st1, pos1, lst)"
    using 1(2) by (subst (asm) decode_blocks.simps) (auto simp: outcome_simps)
  then show ?case
    using 1(1) [OF step refl refl] 1(2) decode_block_at_advances [OF step]
    by (cases lst) (auto simp: decode_blocks.simps [of src st pos])
qed

lemma decode_body_advances:
  "decode_body src pos max_output dict max_window = Ok fr \<Longrightarrow> 0 < df_consumed fr \<and> df_consumed fr \<le> length src"
  by (auto simp: decode_body_def outcome_simps Let_def check_checksum_def split: if_splits
      dest!: decode_blocks_advances)

lemma decode_frame_advances:
  "decode_frame src m max_output dict max_window = Ok fr \<Longrightarrow> 0 < df_consumed fr \<and> df_consumed fr \<le> length src"
  by (auto simp: decode_frame_def decode_prefix_def outcome_simps checked_add_def
      dest!: decode_body_advances split: if_splits option.splits)

text \<open>The loop of \<open>decompress_capped\<close>, \<open>decompress_http\<close> and \<open>decompress_with_dict\<close>, which differ
  in the dictionary and the window ceiling.\<close>

function decompress_frames ::
  "byte list \<Rightarrow> nat \<Rightarrow> dictionary option \<Rightarrow> nat option \<Rightarrow> nat \<Rightarrow> byte list \<Rightarrow> byte list result" where
  "decompress_frames src max_output dict max_window pos out =
     (if pos < length src then
        if max_output < length out then Err (OutputTooLarge max_output)
        else
          obind (slice_from src pos) (\<lambda>rest.
          obind (decode_frame rest True (max_output - length out) dict max_window) (\<lambda>fr.
          decompress_frames src max_output dict max_window (pos + df_consumed fr) (out @ df_data fr)))
      else Ok out)"
  by pat_completeness auto
termination
  by (relation "measure (\<lambda>(src, mx, d, w, pos, out). length src - pos)")
    (auto dest!: decode_frame_advances simp: outcome_simps)

declare decompress_frames.simps [simp del]

definition decompress_capped :: "byte list \<Rightarrow> nat \<Rightarrow> byte list result" where
  "decompress_capped src max_output = decompress_frames src max_output None None 0 []"

definition decompress :: "byte list \<Rightarrow> byte list result" where
  "decompress src = decompress_capped src DEFAULT_MAX_OUTPUT"

definition decompress_http :: "byte list \<Rightarrow> nat \<Rightarrow> byte list result" where
  "decompress_http src max_output = decompress_frames src max_output None (Some HTTP_MAX_WINDOW_SIZE) 0 []"

definition decompress_magicless :: "byte list \<Rightarrow> nat \<Rightarrow> decoded_frame result" where
  "decompress_magicless src max_output = decode_one src False max_output"

definition decompress_with_dict :: "byte list \<Rightarrow> dictionary \<Rightarrow> nat \<Rightarrow> byte list result" where
  "decompress_with_dict src d max_output = decompress_frames src max_output (Some d) None 0 []"

definition decompress_magicless_with_dict :: "byte list \<Rightarrow> dictionary \<Rightarrow> nat \<Rightarrow> decoded_frame result" where
  "decompress_magicless_with_dict src d max_output = decode_one_with_dict src False max_output (Some d)"

section \<open>Safety and the output bound\<close>

lemma window_descriptor_post:
  "p \<le> length src \<Longrightarrow> post (window_descriptor src ss p) (\<lambda>(w, p'). p \<le> p' \<and> p' \<le> length src) (\<lambda>_. True)"
  by (auto simp: window_descriptor_def wp Let_def)

lemma dictionary_id_field_post:
  "f < 4 \<Longrightarrow> post (dictionary_id_field src f p) (\<lambda>(d, p'). p \<le> p' \<and> p' \<le> length src) (\<lambda>_. True)"
  by (auto simp: dictionary_id_field_def wp)

lemma content_size_field_post:
  "post (content_size_field src n p) (\<lambda>(c, p'). p \<le> p' \<and> p' \<le> length src) (\<lambda>_. True)"
  by (auto simp: content_size_field_def wp Let_def)

lemma parse_frame_header_post:
  "post (parse_frame_header src) (\<lambda>h. 1 \<le> fh_header_len h \<and> fh_header_len h \<le> length src) (\<lambda>_. True)"
proof (cases "src = []")
  case False
  then have len: "Suc 0 \<le> length src" by (simp add: Suc_le_eq)
  show ?thesis
    using False unfolding parse_frame_header_def
    by (auto simp: wp Let_def intro!: post_mono [OF window_descriptor_post [OF len]]
        post_mono [OF dictionary_id_field_post] post_mono [OF content_size_field_post])
qed (simp add: parse_frame_header_def)

definition dict_opt_ok :: "dictionary option \<Rightarrow> bool" where
  "dict_opt_ok d \<longleftrightarrow> (case d of None \<Rightarrow> True | Some d \<Rightarrow> dict_ok d)"

text \<open>A primed state is a valid state with no output of its own yet.\<close>

lemma prime_state_post:
  assumes "dict_opt_ok d"
  shows "post (prime_state d did (initial_state cap bm))
    (\<lambda>st. block_inv st \<and> bs_dict_len st = length (bs_out st) \<and> bs_max_output st = cap \<and> bs_block_max st = bm) (\<lambda>_. True)"
  using assms
  by (auto simp: prime_state_def dict_opt_ok_def dict_ok_def load_dictionary_def initial_state_def block_inv_def
      seq_tables_ok_def default_seq_tables_def Let_def split: option.splits)

lemma grows_room:
  assumes "grows st n st'" and "block_inv st"
  obtains ys where "bs_out st' = bs_out st @ ys" and "length ys \<le> room st" and "room st' = room st - length ys"
    and "bs_dict_len st' = bs_dict_len st" and "bs_max_output st' = bs_max_output st" and "bs_block_max st' = bs_block_max st"
    and "length ys \<le> n"
  using assms by (auto simp: grows_def room_def block_inv_def)

lemma decode_blocks_post:
  assumes "block_inv st" and "pos \<le> length src"
  shows "post (decode_blocks src st pos)
    (\<lambda>(st', pos'). block_inv st' \<and> pos' \<le> length src \<and> bs_dict_len st' = bs_dict_len st
       \<and> (\<exists>ys. bs_out st' = bs_out st @ ys \<and> length ys \<le> room st)) (\<lambda>_. True)"
  using assms
proof (induction src st pos rule: decode_blocks.induct)
  case (1 src st pos)
  show ?case
  proof (cases "decode_block_at st src pos")
    case (Ok r)
    obtain st1 pos1 lst where r: "r = (st1, pos1, lst)" by (cases r)
    have st1: "block_inv st1" "grows st (bs_block_max st) st1" "pos1 \<le> length src"
      using decode_block_at_post [OF 1(2,3)] Ok r by simp_all
    obtain ys where ys: "bs_out st1 = bs_out st @ ys" "length ys \<le> room st" "room st1 = room st - length ys"
      "bs_dict_len st1 = bs_dict_len st"
      by (rule grows_room [OF st1(2) 1(2)])
    show ?thesis
    proof (cases lst)
      case True
      then show ?thesis using Ok r st1 ys by (subst decode_blocks.simps) simp
    next
      case False
      have "post (decode_blocks src st1 pos1)
        (\<lambda>(st', pos'). block_inv st' \<and> pos' \<le> length src \<and> bs_dict_len st' = bs_dict_len st1
           \<and> (\<exists>zs. bs_out st' = bs_out st1 @ zs \<and> length zs \<le> room st1)) (\<lambda>_. True)"
        by (rule 1(1) [OF Ok [unfolded r] refl refl]) (use False st1 in simp_all)
      then have "post (decode_blocks src st1 pos1)
        (\<lambda>(st', pos'). block_inv st' \<and> pos' \<le> length src \<and> bs_dict_len st' = bs_dict_len st
           \<and> (\<exists>ys. bs_out st' = bs_out st @ ys \<and> length ys \<le> room st)) (\<lambda>_. True)"
        using ys by (elim post_mono) auto
      then show ?thesis using Ok r False by (subst decode_blocks.simps) simp
    qed
  qed (use decode_block_at_post [OF 1(2,3)] in \<open>subst decode_blocks.simps, simp\<close>)+
qed

lemma check_checksum_post:
  "pos \<le> length src \<Longrightarrow> post (check_checksum c src pos h) (\<lambda>pos'. pos \<le> pos' \<and> pos' \<le> length src) (\<lambda>_. True)"
  by (auto simp: check_checksum_def wp Let_def)

lemma output_cap_post: "post (output_cap c mx) (\<lambda>cap. cap \<le> mx \<and> (\<forall>n. c = Some n \<longrightarrow> cap = n)) (\<lambda>_. True)"
  by (auto simp: output_cap_def split: option.splits)

lemma window_ceiling_post: "post (window_ceiling w h) (\<lambda>_. \<forall>m. w = Some m \<longrightarrow> fh_window_size h \<le> m) (\<lambda>_. True)"
  by (auto simp: window_ceiling_def split: option.splits)

lemma decode_body_post:
  assumes d: "dict_opt_ok d" and pos: "pos \<le> length src"
  shows "post (decode_body src pos mx d w) (\<lambda>fr. length (df_data fr) \<le> mx \<and> df_consumed fr \<le> length src) (\<lambda>_. True)"
proof -
  have blocks: "post (decode_blocks src st p)
      (\<lambda>(st', pos'). bs_dict_len st \<le> length (bs_out st') \<and> pos' \<le> length src
         \<and> length (drop (bs_dict_len st) (bs_out st')) \<le> bs_max_output st) (\<lambda>_. True)"
    if "block_inv st" "bs_dict_len st = length (bs_out st)" "p \<le> length src" for st p
    using that by (intro post_mono [OF decode_blocks_post]) (auto simp: room_def)
  show ?thesis
    unfolding decode_body_def
    using pos
    by (auto simp: wp Let_def check_content_size_def split: option.split
        intro!: post_mono [OF parse_frame_header_post] post_mono [OF window_ceiling_post]
        post_mono [OF output_cap_post] post_mono [OF prime_state_post [OF d]] post_mono [OF blocks]
        post_mono [OF check_checksum_post])
qed

lemma decode_prefix_post:
  "post (decode_prefix src) (\<lambda>r. case r of Inl fr \<Rightarrow> df_data fr = [] \<and> df_consumed fr \<le> length src | Inr p \<Rightarrow> p \<le> length src) (\<lambda>_. True)"
  by (auto simp: decode_prefix_def wp split: option.split)

lemma decode_frame_post:
  assumes "dict_opt_ok d"
  shows "post (decode_frame src m mx d w) (\<lambda>fr. length (df_data fr) \<le> mx \<and> 0 < df_consumed fr \<and> df_consumed fr \<le> length src) (\<lambda>_. True)"
proof -
  have "post (decode_frame src m mx d w) (\<lambda>fr. length (df_data fr) \<le> mx) (\<lambda>_. True)"
    unfolding decode_frame_def
    by (auto simp: wp split: sum.split intro!: post_mono [OF decode_prefix_post] post_mono [OF decode_body_post [OF assms]])
  then show ?thesis by (rule post_mono) (simp_all add: decode_frame_advances)
qed

lemma decompress_frames_post:
  assumes "dict_opt_ok d" and "pos \<le> length src" and "length out \<le> mx"
  shows "post (decompress_frames src mx d w pos out) (\<lambda>res. length res \<le> mx \<and> (\<exists>ys. res = out @ ys)) (\<lambda>_. True)"
  using assms
proof (induction src mx d w pos out rule: decompress_frames.induct)
  case (1 src mx d w pos out)
  show ?case
  proof (cases "pos < length src")
    case True
    note post = decode_frame_post [OF 1(2), of "drop pos src" True "mx - length out" w]
    show ?thesis
    proof (cases "decode_frame (drop pos src) True (mx - length out) d w")
      case (Ok fr)
      have "post (decompress_frames src mx d w (pos + df_consumed fr) (out @ df_data fr))
          (\<lambda>res. length res \<le> mx \<and> (\<exists>ys. res = (out @ df_data fr) @ ys)) (\<lambda>_. True)"
        using post Ok True 1(2-4) by (intro 1(1)) auto
      then show ?thesis
        using True 1(4) Ok by (subst decompress_frames.simps) (auto elim!: post_mono)
    qed (use post True 1(4) in \<open>subst decompress_frames.simps, simp\<close>)+
  qed (use 1(4) in \<open>subst decompress_frames.simps, simp\<close>)
qed

section \<open>More input, another ceiling\<close>

lemma window_descriptor_append [ok_le_intros]:
  "ok_le (window_descriptor src ss p) (window_descriptor (src @ xs) ss p)"
  by (rule ok_leI) (auto simp: window_descriptor_def outcome_simps nth_append split: if_splits)

lemma dictionary_id_field_append [ok_le_intros]:
  "ok_le (dictionary_id_field src f p) (dictionary_id_field (src @ xs) f p)"
  by (rule ok_leI) (auto simp: dictionary_id_field_def outcome_simps split: if_splits)

lemma content_size_field_append [ok_le_intros]:
  "ok_le (content_size_field src n p) (content_size_field (src @ xs) n p)"
  by (rule ok_leI) (auto simp: content_size_field_def outcome_simps Let_def split: if_splits)

lemma parse_frame_header_append: "ok_le (parse_frame_header src) (parse_frame_header (src @ xs))"
proof (cases "src = []")
  case False
  then have "src @ xs \<noteq> []" by simp
  show ?thesis
    unfolding parse_frame_header_def Let_def if_not_P [OF False] if_not_P [OF \<open>src @ xs \<noteq> []\<close>]
    by (intro ok_le_intros)
qed (simp add: parse_frame_header_def ok_le_intros)

lemma u32_at_append [ok_le_intros]: "ok_le (u32_at src i) (u32_at (src @ xs) i)"
  unfolding u32_at_def by (intro ok_le_intros)

lemma check_checksum_append: "ok_le (check_checksum c src pos h) (check_checksum c (src @ xs) pos h)"
  by (rule ok_leI) (auto simp: check_checksum_def outcome_simps Let_def split: if_splits dest!: ok_leD [OF u32_at_append [of src _ xs]])

lemma ok_le_check: "(b' \<Longrightarrow> b) \<Longrightarrow> ok_le n n' \<Longrightarrow> ok_le (if b then Err e else n) (if b' then Err e' else n')"
  by (auto simp: ok_le_def)

lemma decode_prefix_append: "ok_le (decode_prefix src) (decode_prefix (src @ xs))"
  unfolding decode_prefix_def
  by (auto intro!: ok_le_intros ok_le_check split: option.split)

text \<open>Successful blocks stay successful, with the same bytes, when there is more history or more
  input and the ceiling still admits them.\<close>

lemma appended_appended: "appended (appended st ys s1) zs s2 = appended st (ys @ zs) s2"
  by (simp add: appended_def)

lemma room_appended:
  "bs_dict_len st \<le> length (bs_out st) \<Longrightarrow> room (appended st ys s1) = room st - length ys"
  by (simp add: room_def appended_def)

lemma within_appended:
  "bs_dict_len st \<le> length (bs_out st) \<Longrightarrow> within st \<Longrightarrow> length ys \<le> room st \<Longrightarrow> within (appended st ys s1)"
  by (auto simp: within_def room_def appended_def)

lemma decode_blocks_history:
  assumes "decode_blocks src st pos = Ok (st1, pos1)" and "block_inv st" and "pos \<le> length src"
    and "bs_out st1 = bs_out st @ ys" and "extends pre st st'" and "within st'" and "length ys \<le> room st'"
  shows "decode_blocks (src @ xs) st' pos = Ok (appended st' ys st1, pos1)"
  using assms
proof (induction src st pos arbitrary: ys st' rule: decode_blocks.induct)
  case (1 src st pos)
  obtain s p lst where step: "decode_block_at st src pos = Ok (s, p, lst)"
    using 1(2) by (subst (asm) decode_blocks.simps) (auto simp: outcome_simps)
  have s: "block_inv s" "grows st (bs_block_max st) s" "p \<le> length src"
    using decode_block_at_post [OF 1(3,4)] step by simp_all
  obtain zs where zs: "bs_out s = bs_out st @ zs" "bs_block_max s = bs_block_max st"
    by (rule grows_room [OF s(2) 1(3)])
  show ?case
  proof (cases lst)
    case True
    then have "st1 = s" "pos1 = p" using 1(2) step by (auto simp: decode_blocks.simps [of src st pos])
    then have "decode_block_at st' (src @ xs) pos = Ok (appended st' ys st1, pos1, True)"
      using decode_block_at_history [OF 1(3) step _ 1(6-8)] 1(5) True by simp
    then show ?thesis by (subst decode_blocks.simps) simp
  next
    case False
    then have rest: "decode_blocks src s p = Ok (st1, pos1)" using 1(2) step by (simp add: decode_blocks.simps [of src st pos])
    obtain ws where ws: "bs_out st1 = bs_out s @ ws"
      using decode_blocks_post [OF s(1,3)] rest by auto
    have ys: "ys = zs @ ws" using ws zs(1) 1(5) by simp
    have dl: "bs_dict_len st' \<le> length (bs_out st')" using 1(6) unfolding extends_def by blast
    have fit: "length zs \<le> room st'" using 1(8) ys by simp
    have step': "decode_block_at st' (src @ xs) pos = Ok (appended st' zs s, p, False)"
      using decode_block_at_history [OF 1(3) step zs(1) 1(6,7) fit] False by simp
    have "decode_blocks (src @ xs) (appended st' zs s) p = Ok (appended (appended st' zs s) ws st1, pos1)"
    proof (rule 1(1) [OF step refl refl])
      show "extends pre s (appended st' zs s)" by (rule appended_extends [OF 1(6) zs])
      show "within (appended st' zs s)" by (rule within_appended [OF dl 1(7) fit])
      show "length ws \<le> room (appended st' zs s)" using room_appended [OF dl, of zs s] 1(8) ys by simp
    qed (use False rest s ws in simp_all)
    then show ?thesis using step' ys by (subst decode_blocks.simps) (simp add: appended_appended)
  qed
qed

text \<open>The same frame with another output ceiling that admits its content: more input behind it
  changes nothing.\<close>

lemma prime_state_ceiling:
  assumes "prime_state d did (initial_state cap bm) = Ok st"
  shows "prime_state d did (initial_state cap' bm) = Ok (st\<lparr>bs_max_output := cap'\<rparr>)"
  using assms
  by (auto simp: prime_state_def load_dictionary_def initial_state_def Let_def split: option.splits if_splits)

lemma decode_body_append:
  assumes dec: "decode_body src pos mx d w = Ok fr" and d: "dict_opt_ok d"
    and fit: "length (df_data fr) \<le> mx'" "mx' \<le> usize_max"
  shows "decode_body (src @ xs) pos mx' d w = Ok fr"
proof -
  have pos: "pos \<le> length src" using dec by (auto simp: decode_body_def outcome_simps)
  obtain h where h: "parse_frame_header (drop pos src) = Ok h"
    and win: "window_ceiling w h = Ok ()"
    using dec pos by (auto simp: decode_body_def outcome_simps Let_def)
  define p bm where "p = pos + fh_header_len h" and "bm = min (fh_window_size h) MAX_BLOCK_SIZE"
  have p: "p \<le> length src" using parse_frame_header_post [of "drop pos src"] h pos by (auto simp: p_def)
  obtain cap st st1 p1 p2 where
    cap: "output_cap (fh_content_size h) mx = Ok cap"
    and st: "prime_state d (fh_dictionary_id h) (initial_state cap bm) = Ok st"
    and blocks: "decode_blocks src st p = Ok (st1, p1)"
    and size: "bs_dict_len st \<le> length (bs_out st1)"
      "check_content_size (fh_content_size h) (length (bs_out st1) - bs_dict_len st) = Ok ()"
    and sum: "check_checksum (fh_has_checksum h) src p1 (xxh64 (drop (bs_dict_len st) (bs_out st1)) 0) = Ok p2"
    and fr: "fr = \<lparr>df_data = drop (bs_dict_len st) (bs_out st1), df_consumed = p2\<rparr>"
    using dec pos h by (auto simp: decode_body_def outcome_simps Let_def p_def bm_def)
  define cap' where "cap' = (case fh_content_size h of None \<Rightarrow> mx' | Some n \<Rightarrow> n)"
  define st' where "st' = st\<lparr>bs_max_output := cap'\<rparr>"
  have inv: "block_inv st" "bs_dict_len st = length (bs_out st)"
    using post_OkD [OF prime_state_post [OF d] st] by simp_all
  obtain ys where ys: "bs_out st1 = bs_out st @ ys"
    using decode_blocks_post [OF inv(1) p] blocks by auto
  have data: "df_data fr = ys" using ys inv(2) fr by simp
  have cap': "output_cap (fh_content_size h) mx' = Ok cap'" "length ys \<le> cap'" "cap' \<le> usize_max"
    using fit size(2) data ys inv(2)
    by (auto simp: output_cap_def cap'_def check_content_size_def split: option.splits if_splits)
  have blocks': "decode_blocks (src @ xs) st' p = Ok (appended st' ys st1, p1)"
    using cap' inv(2)
    by (intro decode_blocks_history [OF blocks inv(1) p ys, where pre = "[]"])
      (auto simp: st'_def extends_def within_def room_def)
  have h': "parse_frame_header (drop pos (src @ xs)) = Ok h"
    using ok_leD [OF parse_frame_header_append h, of xs] pos by simp
  note st'' = prime_state_ceiling [OF st, of cap', folded st'_def]
  note sum' = ok_leD [OF check_checksum_append sum, of xs]
  have slice: "slice_from (src @ xs) pos = (Ok (drop pos (src @ xs)) :: byte list result)" using pos by (intro slice_from_Ok) simp
  show ?thesis
    unfolding decode_body_def slice obind_simps h' Let_def p_def [symmetric] bm_def [symmetric] win cap'(1) st'' blocks' prod.case
    using ys inv(2) size(2) sum' fr by (simp add: st'_def appended_def)
qed

lemma decode_frame_append:
  assumes "decode_frame src m mx d w = Ok fr" and "dict_opt_ok d"
    and "length (df_data fr) \<le> mx'" and "mx' \<le> usize_max"
  shows "decode_frame (src @ xs) m mx' d w = Ok fr"
proof (cases m)
  case True
  then obtain r where r: "decode_prefix src = Ok r" using assms(1) by (auto simp: decode_frame_def outcome_simps)
  then have r': "decode_prefix (src @ xs) = Ok r" by (rule ok_leD [OF decode_prefix_append])
  show ?thesis
  proof (cases r)
    case (Inl fr')
    then show ?thesis using assms(1) r r' True by (simp add: decode_frame_def)
  next
    case (Inr p)
    then show ?thesis using assms r r' True decode_body_append by (simp add: decode_frame_def)
  qed
next
  case False
  then show ?thesis using assms decode_body_append by (simp add: decode_frame_def)
qed

text \<open>A stream in the middle of a longer one: its frames decode there to the same bytes.\<close>

lemma decompress_frames_append:
  assumes "decompress_frames src mx d w pos out = Ok res" and "dict_opt_ok d" and "pos \<le> length src" and "length out \<le> mx"
  shows "\<exists>ys. res = out @ ys \<and> (\<forall>pre out' mx' xs. length out' + length ys \<le> mx' \<longrightarrow> mx' \<le> usize_max \<longrightarrow>
    decompress_frames (pre @ src @ xs) mx' d w (length pre + pos) out'
    = decompress_frames (pre @ src @ xs) mx' d w (length pre + length src) (out' @ ys))"
  using assms
proof (induction src mx d w pos out rule: decompress_frames.induct)
  case (1 src mx d w pos out)
  show ?case
  proof (cases "pos < length src")
    case False
    then show ?thesis using 1(2,4) by (subst (asm) decompress_frames.simps) (intro exI [of _ "[]"], simp)
  next
    case True
    obtain fr where fr: "decode_frame (drop pos src) True (mx - length out) d w = Ok fr"
      and rest: "decompress_frames src mx d w (pos + df_consumed fr) (out @ df_data fr) = Ok res"
      using 1(2,5) True by (subst (asm) decompress_frames.simps) (auto simp: outcome_simps)
    have post: "length (df_data fr) \<le> mx - length out" "pos + df_consumed fr \<le> length src"
      using decode_frame_post [OF 1(3), of "drop pos src" True "mx - length out" w] fr True by auto
    obtain ys where ys: "res = (out @ df_data fr) @ ys" and tail: "\<And>pre out' mx' xs. length out' + length ys \<le> mx' \<Longrightarrow>
      mx' \<le> usize_max \<Longrightarrow> decompress_frames (pre @ src @ xs) mx' d w (length pre + (pos + df_consumed fr)) out'
        = decompress_frames (pre @ src @ xs) mx' d w (length pre + length src) (out' @ ys)"
    proof -
      have "\<not> mx < length out" "length (out @ df_data fr) \<le> mx" using post 1(5) by auto
      moreover have "slice_from src pos = (Ok (drop pos src) :: byte list result)" using True by simp
      ultimately show ?thesis using 1(1) [OF True _ _ fr rest 1(3) post(2)] that by blast
    qed
    have "decompress_frames (pre @ src @ xs) mx' d w (length pre + pos) out'
      = decompress_frames (pre @ src @ xs) mx' d w (length pre + length src) (out' @ df_data fr @ ys)"
      if fit: "length out' + length (df_data fr @ ys) \<le> mx'" "mx' \<le> usize_max" for pre out' mx' xs
    proof -
      have "decode_frame (drop pos src @ xs) True (mx' - length out') d w = Ok fr"
        using fit by (intro decode_frame_append [OF fr 1(3)]) auto
      moreover have "slice_from (pre @ src @ xs) (length pre + pos) = (Ok (drop pos src @ xs) :: byte list result)"
        using True by (simp add: slice_from_def)
      ultimately have "decompress_frames (pre @ src @ xs) mx' d w (length pre + pos) out'
          = decompress_frames (pre @ src @ xs) mx' d w (length pre + (pos + df_consumed fr)) (out' @ df_data fr)"
        using fit(1) True by (subst decompress_frames.simps) (simp add: add.assoc)
      also have "\<dots> = decompress_frames (pre @ src @ xs) mx' d w (length pre + length src) ((out' @ df_data fr) @ ys)"
        using fit by (intro tail) simp_all
      finally show ?thesis by simp
    qed
    then show ?thesis using ys by (intro exI [of _ "df_data fr @ ys"]) simp
  qed
qed

lemma decompress_frames_concat:
  assumes "decompress_frames a mx1 d w 0 [] = Ok x" and "decompress_frames b mx2 d w 0 [] = Ok y"
    and "dict_opt_ok d" and "length x + length y \<le> mx" and "mx \<le> usize_max"
  shows "decompress_frames (a @ b) mx d w 0 [] = Ok (x @ y)"
proof -
  obtain x' where x': "x = [] @ x'" and qx: "\<forall>pre out' mx' xs. length out' + length x' \<le> mx' \<longrightarrow> mx' \<le> usize_max \<longrightarrow>
    decompress_frames (pre @ a @ xs) mx' d w (length pre + 0) out'
    = decompress_frames (pre @ a @ xs) mx' d w (length pre + length a) (out' @ x')"
    using decompress_frames_append [OF assms(1,3)] by auto
  obtain y' where y': "y = [] @ y'" and qy: "\<forall>pre out' mx' xs. length out' + length y' \<le> mx' \<longrightarrow> mx' \<le> usize_max \<longrightarrow>
    decompress_frames (pre @ b @ xs) mx' d w (length pre + 0) out'
    = decompress_frames (pre @ b @ xs) mx' d w (length pre + length b) (out' @ y')"
    using decompress_frames_append [OF assms(2,3)] by auto
  have x: "decompress_frames (a @ b) mx d w 0 [] = decompress_frames (a @ b) mx d w (length a) x"
    using qx [rule_format, of "[]" mx "[]" b] x' assms(4,5) by simp
  have y: "decompress_frames (a @ b) mx d w (length a) x = decompress_frames (a @ b) mx d w (length a + length b) (x @ y)"
    using qy [rule_format, of x mx a "[]"] y' assms(4,5) by simp
  have "decompress_frames (a @ b) mx d w (length a + length b) (x @ y) = Ok (x @ y)"
    by (subst decompress_frames.simps) simp
  then show ?thesis using x y by simp
qed

section \<open>The window ceiling\<close>





section \<open>Properties\<close>

text \<open>C8: no input can expand past the ceiling. For every byte string, every ceiling and every
  usable dictionary, decoding a stream of frames returns (no panic, no endless loop), and the
  bytes of all its frames together number at most \<open>max_output\<close>; the guard that the remaining budget
  never goes below zero holds.\<close>

theorem decompress_bounded:
  assumes "dict_ok d"
  shows "post (decompress_capped src max_output) (\<lambda>out. length out \<le> max_output) (\<lambda>_. True)
    \<and> post (decompress_http src max_output) (\<lambda>out. length out \<le> max_output) (\<lambda>_. True)
    \<and> post (decompress_with_dict src d max_output) (\<lambda>out. length out \<le> max_output) (\<lambda>_. True)"
proof -
  have "post (decompress_frames src max_output dict w 0 []) (\<lambda>out. length out \<le> max_output) (\<lambda>_. True)"
    if "dict_opt_ok dict" for dict w
    by (rule post_mono [OF decompress_frames_post [OF that]]) simp_all
  then show ?thesis
    using assms by (simp add: decompress_capped_def decompress_http_def decompress_with_dict_def dict_opt_ok_def)
qed

theorem decompress_bounded_witness:
  "post (decompress_with_dict [0x28, 0xB5, 0x2F, 0xFD, 0] (dict_raw [1, 2, 3]) 10) (\<lambda>out. length out \<le> 10) (\<lambda>_. True)"
  using decompress_bounded [of "dict_raw [1, 2, 3]" "[0x28, 0xB5, 0x2F, 0xFD, 0]" 10] by (simp add: dict_ok_def dict_raw_def)

text \<open>A stored frame of three bytes.\<close>

definition example_frame :: "byte list" where
  "example_frame = [0x28, 0xB5, 0x2F, 0xFD, 0x20, 3, 0x19, 0, 0, 7, 8, 9]"

lemma example_frame_header:
  "parse_frame_header (drop 4 example_frame) = Ok \<lparr>fh_header_len = 2, fh_has_checksum = False,
     fh_content_size = Some 3, fh_window_size = 3, fh_dictionary_id = 0\<rparr>"
  by (simp add: example_frame_def parse_frame_header_def window_descriptor_def dictionary_id_field_def
      content_size_field_def fcs_field_size_def or_le_bytes_eq unat_from_le_bytes_64 from_le_bytes_def Let_def)

lemma example_frame_blocks:
  "decode_blocks example_frame (initial_state 3 3) 6 = Ok ((initial_state 3 3)\<lparr>bs_out := [7, 8, 9]\<rparr>, 12)"
  by (subst decode_blocks.simps)
    (simp add: example_frame_def decode_block_at_def read_block_header_def or_le_bytes_eq unat_from_le_bytes_32
      checked_add_def usize_max_def body_end_def decode_raw_def check_ceiling_def output_len_def initial_state_def)

lemma example_frame_prefix: "decode_prefix example_frame = Ok (Inr 4)"
  by (simp add: example_frame_def decode_prefix_def u32_at_def from_le_bytes_def SKIPPABLE_MAGIC_MASK_def
      SKIPPABLE_MAGIC_def ZSTD_MAGIC_def)

lemma example_frame_decodes: "decode_frame example_frame True 100 None None = Ok \<lparr>df_data = [7, 8, 9], df_consumed = 12\<rparr>"
proof -
  have slice: "slice_from example_frame 4 = (Ok (drop 4 example_frame) :: byte list result)"
    by (simp add: example_frame_def)
  show ?thesis
    unfolding decode_frame_def if_True example_frame_prefix obind_simps sum.case
    unfolding decode_body_def slice obind_simps example_frame_header Let_def
    by (simp add: window_ceiling_def output_cap_def prime_state_def MAX_BLOCK_SIZE_def example_frame_blocks
        check_content_size_def check_checksum_def) (simp add: initial_state_def)
qed

text \<open>C22: frames are self-delimiting. A frame that decodes from the front of an input decodes to the
  same bytes, consuming the same input, when anything follows it and under any other ceiling that
  admits its content.\<close>

theorem frame_self_delimiting:
  assumes "decode_frame src m mx d w = Ok fr" and "dict_opt_ok d"
    and "length (df_data fr) \<le> mx'" and "mx' \<le> usize_max"
  shows "decode_frame (src @ rest) m mx' d w = Ok fr"
  by (rule decode_frame_append [OF assms])

theorem frame_self_delimiting_witness:
  "decode_frame (example_frame @ [1, 2]) True 3 None None = Ok \<lparr>df_data = [7, 8, 9], df_consumed = 12\<rparr>"
  by (rule frame_self_delimiting [OF example_frame_decodes]) (simp_all add: dict_opt_ok_def usize_max_def)

lemma example_stream: "decompress_frames example_frame 100 None None 0 [] = Ok [7, 8, 9]"
  by (subst decompress_frames.simps)
    (simp add: example_frame_decodes, simp add: example_frame_def decompress_frames.simps)

text \<open>C23: concatenation. If two streams decode, with whatever ceilings, their concatenation decodes
  to the concatenation of their contents under every ceiling that admits it.\<close>

theorem decompress_concatenation:
  assumes "decompress_capped a mx1 = Ok x" and "decompress_capped b mx2 = Ok y"
    and "length x + length y \<le> mx" and "mx \<le> usize_max"
  shows "decompress_capped (a @ b) mx = Ok (x @ y)"
  using decompress_frames_concat [OF _ _ _ assms(3,4), of a mx1 None None b mx2] assms(1,2)
  by (simp add: decompress_capped_def dict_opt_ok_def)

theorem decompress_concatenation_witness:
  "decompress_capped (example_frame @ example_frame) 6 = Ok [7, 8, 9, 7, 8, 9]"
  using decompress_concatenation [of example_frame 100 "[7, 8, 9]" example_frame 100 "[7, 8, 9]" 6] example_stream
  by (simp add: decompress_capped_def usize_max_def)





end
