(* ===== verification/Streaming.thy ===== *)
theory Streaming
  imports Frame
begin

text \<open>
  \<^verbatim>\<open>src/streaming.rs\<close>: the streaming decoder. It decodes one frame block by block into a buffer from
  which it drops what was delivered and lies behind the window. A read returns bytes or the text of
  the error that poisoned the decoder. The fields at the moment of an error inside a block are not
  modelled: the decoder keeps the state it had after the last good block, which no later read shows.
\<close>

unbundle bit_operations_syntax

section \<open>The decoder\<close>

definition DEFAULT_WINDOW_LOG_MAX :: nat where
  "DEFAULT_WINDOW_LOG_MAX = 27"

record streaming_decoder =
  sd_src :: "byte list"
  sd_pos :: nat
  sd_window_size :: nat
  sd_state :: block_state
  sd_read_off :: nat
  sd_last_done :: bool
  sd_has_checksum :: bool
  sd_hasher :: xxh64_state
  sd_total_out :: nat
  sd_declared_size :: "nat option"
  sd_poisoned :: "string option"

definition sd_dictionary :: "dictionary option \<Rightarrow> u32 \<Rightarrow> block_state \<Rightarrow> (block_state \<times> nat) result" where
  "sd_dictionary dict dictionary_id st =
     (case dict of
        Some d \<Rightarrow>
          if dictionary_id \<noteq> 0 \<and> dictionary_id \<noteq> di_id d then Err (dictionary_mismatch dictionary_id d)
          else Ok (load_dictionary d st, length (di_content d))
      | None \<Rightarrow> Ok (st, 0))"

definition sd_with_options :: "byte list \<Rightarrow> bool \<Rightarrow> dictionary option \<Rightarrow> nat \<Rightarrow> streaming_decoder result" where
  "sd_with_options src expect_magic dict window_log_max =
     obind (if expect_magic then frame_header_magic src else frame_header_magicless src) (\<lambda>header.
     let max_ws = 2 ^ min window_log_max 63 in
     if max_ws < fh_window_size header then
       Err (Invalid ''window size'' (''frame window '' @ dec (fh_window_size header)
         @ '' exceeds window_log_max ('' @ dec window_log_max @ '' = '' @ dec max_ws @ '' bytes)''))
     else
     let window_size = fh_window_size header in
     obind (sd_dictionary dict (fh_dictionary_id header)
       (initial_state usize_max (min window_size MAX_BLOCK_SIZE))) (\<lambda>(state, read_off).
     Ok \<lparr>sd_src = src, sd_pos = fh_header_len header, sd_window_size = window_size, sd_state = state,
         sd_read_off = read_off, sd_last_done = False, sd_has_checksum = fh_has_checksum header,
         sd_hasher = xxh64_new 0, sd_total_out = 0, sd_declared_size = fh_content_size header,
         sd_poisoned = None\<rparr>))"


definition sd_new_magicless :: "byte list \<Rightarrow> streaming_decoder result" where
  "sd_new_magicless src = sd_with_options src False None DEFAULT_WINDOW_LOG_MAX"

definition sd_with_dict :: "byte list \<Rightarrow> dictionary \<Rightarrow> streaming_decoder result" where
  "sd_with_dict src d = sd_with_options src True (Some d) DEFAULT_WINDOW_LOG_MAX"

definition sd_buffered_len :: "streaming_decoder \<Rightarrow> nat" where
  "sd_buffered_len sd = length (bs_out (sd_state sd))"

section \<open>One block\<close>

text \<open>The last block is followed by the checks of the size and of the checksum.\<close>

definition sd_decode_next_block :: "streaming_decoder \<Rightarrow> streaming_decoder result" where
  "sd_decode_next_block sd =
     (let before = length (bs_out (sd_state sd)) in
      obind (decode_block_at (sd_state sd) (sd_src sd) (sd_pos sd)) (\<lambda>(state, pos, lst).
      obind (slice_from (bs_out state) before) (\<lambda>produced.
      let sd = sd\<lparr>sd_state := state, sd_pos := pos, sd_hasher := xxh64_update (sd_hasher sd) produced,
                  sd_total_out := sd_total_out sd + length produced\<rparr> in
      if lst then
        let sd = sd\<lparr>sd_last_done := True\<rparr> in
        obind (check_content_size (sd_declared_size sd) (sd_total_out sd)) (\<lambda>_.
        obind (check_checksum (sd_has_checksum sd) (sd_src sd) (sd_pos sd) (xxh64_digest (sd_hasher sd))) (\<lambda>pos.
        Ok (sd\<lparr>sd_pos := pos\<rparr>)))
      else Ok sd)))"

definition sd_compact :: "streaming_decoder \<Rightarrow> streaming_decoder" where
  "sd_compact sd =
     (let st = sd_state sd;
          keep_from = length (bs_out st) - sd_window_size sd;
          n = min (sd_read_off sd) keep_from in
      if 0 < n then
        sd\<lparr>sd_state := st\<lparr>bs_out := drop n (bs_out st), bs_dict_len := bs_dict_len st - n\<rparr>,
           sd_read_off := sd_read_off sd - n\<rparr>
      else sd)"

section \<open>Reading\<close>

lemma sd_decode_next_block_frame:
  assumes "sd_decode_next_block sd = Ok sd'"
  shows "sd_src sd' = sd_src sd \<and> sd_window_size sd' = sd_window_size sd \<and> sd_read_off sd' = sd_read_off sd
    \<and> sd_has_checksum sd' = sd_has_checksum sd \<and> sd_declared_size sd' = sd_declared_size sd
    \<and> sd_poisoned sd' = sd_poisoned sd \<and> sd_pos sd < sd_pos sd' \<and> sd_pos sd' \<le> length (sd_src sd)"
proof -
  obtain state pos lst where step: "decode_block_at (sd_state sd) (sd_src sd) (sd_pos sd) = Ok (state, pos, lst)"
    using assms by (auto simp: sd_decode_next_block_def Let_def obind_eq_Ok)
  have adv: "sd_pos sd < pos" "pos \<le> length (sd_src sd)" using decode_block_at_advances [OF step] by simp_all
  show ?thesis
  proof (cases "lst \<and> sd_has_checksum sd")
    case True
    then show ?thesis using assms adv
      by (auto simp: sd_decode_next_block_def step Let_def obind_eq_Ok check_checksum_def split: if_splits)
  next
    case False
    then show ?thesis using assms adv
      by (auto simp: sd_decode_next_block_def step Let_def obind_eq_Ok check_checksum_def split: if_splits)
  qed
qed

lemma sd_compact_frame:
  "sd_src (sd_compact sd) = sd_src sd" "sd_pos (sd_compact sd) = sd_pos sd"
  "sd_window_size (sd_compact sd) = sd_window_size sd" "sd_last_done (sd_compact sd) = sd_last_done sd"
  "sd_has_checksum (sd_compact sd) = sd_has_checksum sd" "sd_hasher (sd_compact sd) = sd_hasher sd"
  "sd_total_out (sd_compact sd) = sd_total_out sd" "sd_declared_size (sd_compact sd) = sd_declared_size sd"
  "sd_poisoned (sd_compact sd) = sd_poisoned sd"
  by (simp_all add: sd_compact_def Let_def)

text \<open>Decode forward until there is something to deliver or the frame ends: the decoder after the
  last good block, and the error that stopped it, if any.\<close>

function sd_fill :: "streaming_decoder \<Rightarrow> (streaming_decoder \<times> zstd_error option) result" where
  "sd_fill sd =
     (if length (bs_out (sd_state sd)) \<le> sd_read_off sd \<and> \<not> sd_last_done sd then
        (case sd_decode_next_block sd of
           Ok sd' \<Rightarrow> sd_fill (sd_compact sd')
         | Err e \<Rightarrow> Ok (sd, Some e)
         | Panic \<Rightarrow> Panic
         | Hang \<Rightarrow> Hang)
      else Ok (sd, None))"
  by pat_completeness auto
termination
  by (relation "measure (\<lambda>sd. length (sd_src sd) - sd_pos sd)")
    (auto simp: sd_compact_frame dest!: sd_decode_next_block_frame)

declare sd_fill.simps [simp del]

text \<open>A read into a buffer of \<open>n\<close> bytes: the text of an error, or the bytes written to the buffer.\<close>

definition sd_read :: "streaming_decoder \<Rightarrow> nat \<Rightarrow> ((string + byte list) \<times> streaming_decoder) result" where
  "sd_read sd n =
     (case sd_poisoned sd of
        Some msg \<Rightarrow> Ok (Inl msg, sd)
      | None \<Rightarrow>
          obind (sd_fill sd) (\<lambda>(sd, err).
          case err of
            Some e \<Rightarrow> Ok (Inl (display_error e), sd\<lparr>sd_poisoned := Some (display_error e)\<rparr>)
          | None \<Rightarrow>
              obind (usub (length (bs_out (sd_state sd))) (sd_read_off sd)) (\<lambda>avail.
              if avail = 0 then Ok (Inr [], sd)
              else
                let n = min avail n in
                obind (slice_range (bs_out (sd_state sd)) (sd_read_off sd) (sd_read_off sd + n)) (\<lambda>bytes.
                Ok (Inr bytes, sd_compact (sd\<lparr>sd_read_off := sd_read_off sd + n\<rparr>))))))"

section \<open>Runs of blocks\<close>

text \<open>The states the block loop of a frame goes through; the flag says that the last block is done.\<close>

inductive block_path :: "byte list \<Rightarrow> block_state \<Rightarrow> nat \<Rightarrow> block_state \<Rightarrow> nat \<Rightarrow> bool \<Rightarrow> bool"
  for src :: "byte list" and st0 :: block_state and pos0 :: nat where
  start: "block_path src st0 pos0 st0 pos0 False"
| block: "\<lbrakk>block_path src st0 pos0 st pos False; decode_block_at st src pos = Ok (st', pos', lst)\<rbrakk> \<Longrightarrow>
    block_path src st0 pos0 st' pos' lst"

inductive_cases block_pathE: "block_path src st0 pos0 st pos lst"


section \<open>The buffer is the end of the output\<close>

text \<open>The state of the one-shot decoder that the streaming state is a window of: \<open>pre\<close> is what was
  dropped from the front.\<close>

definition full_state :: "byte list \<Rightarrow> nat \<Rightarrow> nat \<Rightarrow> block_state \<Rightarrow> block_state" where
  "full_state pre dict_len cap st = st\<lparr>bs_out := pre @ bs_out st, bs_dict_len := dict_len, bs_max_output := cap\<rparr>"

text \<open>The one-shot decoder, started in \<open>st0 cap\<close> with any ceiling that admits the output, is at the
  same block; behind the last block its checks have passed.\<close>

definition one_shot ::
  "(nat \<Rightarrow> block_state) \<Rightarrow> nat \<Rightarrow> byte list \<Rightarrow> byte list \<Rightarrow> block_state \<Rightarrow> byte list \<Rightarrow> nat \<Rightarrow> bool \<Rightarrow> nat option \<Rightarrow> bool \<Rightarrow> bool" where
  "one_shot st0 pos0 content made st src sd_at lst declared has_sum \<longleftrightarrow>
     (\<exists>pre pos. pre @ bs_out st = content @ made
        \<and> (\<forall>cap. length made \<le> cap \<longrightarrow> cap \<le> usize_max \<longrightarrow>
             block_path src (st0 cap) pos0 (full_state pre (length content) cap st) pos lst)
        \<and> (if lst then
             check_content_size declared (length made) = Ok ()
             \<and> (length made \<le> usize_max \<longrightarrow> check_checksum has_sum src pos (xxh64 made 0) = Ok sd_at)
           else pos = sd_at))"

text \<open>The invariant. \<open>made\<close> is what the blocks produced so far, \<open>delivered\<close> what the reads
  returned of it.\<close>

definition sd_inv ::
  "(nat \<Rightarrow> block_state) \<Rightarrow> nat \<Rightarrow> byte list \<Rightarrow> byte list \<Rightarrow> byte list \<Rightarrow> streaming_decoder \<Rightarrow> bool" where
  "sd_inv st0 pos0 content made delivered sd \<longleftrightarrow>
     block_inv (sd_state sd) \<and> sd_pos sd \<le> length (sd_src sd)
     \<and> bs_block_max (sd_state sd) = min (sd_window_size sd) MAX_BLOCK_SIZE
     \<and> sd_read_off sd \<le> length (bs_out (sd_state sd))
     \<and> made = delivered @ drop (sd_read_off sd) (bs_out (sd_state sd))
     \<and> length (drop (sd_read_off sd) (bs_out (sd_state sd))) \<le> bs_block_max (sd_state sd)
     \<and> length made \<le> sd_pos sd * MAX_BLOCK_SIZE
     \<and> xx_rep 0 (sd_hasher sd) made \<and> sd_total_out sd = length made
     \<and> one_shot st0 pos0 content made (sd_state sd) (sd_src sd) (sd_pos sd) (sd_last_done sd)
         (sd_declared_size sd) (sd_has_checksum sd)"

lemma one_shot_drop:
  assumes "one_shot st0 pos0 content made st src p lst dc hc"
  shows "one_shot st0 pos0 content made (st\<lparr>bs_out := drop n (bs_out st), bs_dict_len := k\<rparr>) src p lst dc hc"
proof -
  define st' where "st' = st\<lparr>bs_out := drop n (bs_out st), bs_dict_len := k\<rparr>"
  obtain pre pos where pre: "pre @ bs_out st = content @ made"
    and path: "\<And>cap. length made \<le> cap \<Longrightarrow> cap \<le> usize_max \<Longrightarrow>
      block_path src (st0 cap) pos0 (full_state pre (length content) cap st) pos lst"
    and ends: "if lst then check_content_size dc (length made) = Ok ()
          \<and> (length made \<le> usize_max \<longrightarrow> check_checksum hc src pos (xxh64 made 0) = Ok p)
        else pos = p"
    using assms by (auto simp: one_shot_def)
  have "full_state (pre @ take n (bs_out st)) k cap st' = full_state pre k cap st" for k cap
    by (simp add: full_state_def st'_def)
  moreover have "(pre @ take n (bs_out st)) @ bs_out st' = content @ made" using pre by (simp add: st'_def)
  ultimately show ?thesis
    unfolding one_shot_def st'_def [symmetric] using path ends by metis
qed

lemma sd_inv_compact:
  assumes "sd_inv st0 pos0 content made delivered sd"
  shows "sd_inv st0 pos0 content made delivered (sd_compact sd)"
proof (cases "0 < min (sd_read_off sd) (length (bs_out (sd_state sd)) - sd_window_size sd)")
  case False
  then show ?thesis using assms by (auto simp: sd_compact_def Let_def)
next
  case True
  define n where "n = min (sd_read_off sd) (length (bs_out (sd_state sd)) - sd_window_size sd)"
  define st where "st = (sd_state sd)\<lparr>bs_out := drop n (bs_out (sd_state sd)), bs_dict_len := bs_dict_len (sd_state sd) - n\<rparr>"
  have c: "sd_compact sd = sd\<lparr>sd_state := st, sd_read_off := sd_read_off sd - n\<rparr>"
    using True unfolding sd_compact_def Let_def n_def [symmetric] st_def by simp
  have n: "n \<le> sd_read_off sd" "n \<le> length (bs_out (sd_state sd))" by (auto simp: n_def)
  have "drop (sd_read_off sd - n) (bs_out st) = drop (sd_read_off sd) (bs_out (sd_state sd))"
    using n by (simp add: st_def)
  moreover have "one_shot st0 pos0 content made st (sd_src sd) (sd_pos sd) (sd_last_done sd)
      (sd_declared_size sd) (sd_has_checksum sd)"
    using one_shot_drop assms unfolding sd_inv_def st_def by blast
  moreover have "block_inv st" using assms n by (auto simp: sd_inv_def block_inv_def st_def)
  moreover have "bs_block_max st = bs_block_max (sd_state sd)" by (simp add: st_def)
  moreover have "sd_read_off sd - n \<le> length (bs_out st)" using assms n by (auto simp: sd_inv_def st_def)
  ultimately show ?thesis
    using assms unfolding c sd_inv_def by (elim conjE) simp
qed

lemma sd_inv_read:
  assumes "sd_inv st0 pos0 content made delivered sd" and "sd_read_off sd + k \<le> length (bs_out (sd_state sd))"
  shows "sd_inv st0 pos0 content made (delivered @ take k (drop (sd_read_off sd) (bs_out (sd_state sd))))
    (sd\<lparr>sd_read_off := sd_read_off sd + k\<rparr>)"
proof -
  have "take k (drop (sd_read_off sd) (bs_out (sd_state sd))) @ drop (sd_read_off sd + k) (bs_out (sd_state sd))
      = drop (sd_read_off sd) (bs_out (sd_state sd))"
    by (metis add.commute append_take_drop_id drop_drop)
  then show ?thesis
    using assms unfolding sd_inv_def by (elim conjE) auto
qed

text \<open>A block of the streaming decoder is a block of the one-shot decoder (\<open>decode_block_at_history\<close>).\<close>

lemma one_shot_block:
  assumes path: "block_path src (st0 cap) pos0 (full_state pre (length content) cap st) pos False"
    and inv: "block_inv st" and dec: "decode_block_at st src pos = Ok (st1, pos1, lst)"
    and out: "bs_out st1 = bs_out st @ ys" and pre: "pre @ bs_out st = content @ made"
    and cap: "length (made @ ys) \<le> cap" "cap \<le> usize_max"
  shows "block_path src (st0 cap) pos0 (full_state pre (length content) cap st1) pos1 lst"
proof -
  define full where "full = full_state pre (length content) cap st"
  have len: "length pre + length (bs_out st) = length content + length made"
    using arg_cong [OF pre, of length] by simp
  have bm: "bs_block_max st1 = bs_block_max st"
    using decode_block_at_post [OF inv, of pos src] dec decode_block_at_advances [OF dec] by (auto simp: grows_def)
  have "extends pre st full" using cap(2) len by (simp add: extends_def full_def full_state_def)
  moreover have "within full" "length ys \<le> room full"
    using cap(1) len by (simp_all add: within_def room_def full_def full_state_def)
  ultimately have "decode_block_at full (src @ []) pos = Ok (appended full ys st1, pos1, lst)"
    by (intro decode_block_at_history [OF inv dec out])
  moreover have "appended full ys st1 = full_state pre (length content) cap st1"
    using out bm by (simp add: appended_def full_def full_state_def)
  ultimately show ?thesis using block_path.block [OF path] by (simp add: full_def)
qed

lemma sd_inv_block:
  assumes inv: "sd_inv st0 pos0 content made delivered sd" and dec: "sd_decode_next_block sd = Ok sd'"
    and cont: "\<not> sd_last_done sd" and start: "sd_read_off sd = length (bs_out (sd_state sd))"
  shows "\<exists>ys. sd_inv st0 pos0 content (made @ ys) delivered sd'"
proof -
  define st where "st = sd_state sd"
  obtain st1 pos1 lst where step: "decode_block_at st (sd_src sd) (sd_pos sd) = Ok (st1, pos1, lst)"
    using dec by (auto simp: sd_decode_next_block_def Let_def obind_eq_Ok st_def)
  have bi: "block_inv st" and pos: "sd_pos sd \<le> length (sd_src sd)" using inv by (simp_all add: sd_inv_def st_def)
  have st1: "block_inv st1" "grows st (bs_block_max st) st1" "sd_pos sd < pos1" "pos1 \<le> length (sd_src sd)"
    using decode_block_at_post [OF bi pos] step by simp_all
  obtain ys where ys: "bs_out st1 = bs_out st @ ys" "length ys \<le> bs_block_max st" "bs_block_max st1 = bs_block_max st"
    by (rule grows_room [OF st1(2) bi])
  define sd1 where "sd1 = sd\<lparr>sd_state := st1, sd_pos := pos1, sd_hasher := xxh64_update (sd_hasher sd) ys,
      sd_total_out := sd_total_out sd + length ys, sd_last_done := lst\<rparr>"
  obtain p where sd': "sd' = sd1\<lparr>sd_pos := p\<rparr>" and ends: "if lst then
      check_content_size (sd_declared_size sd) (length (made @ ys)) = Ok ()
      \<and> check_checksum (sd_has_checksum sd) (sd_src sd) pos1 (xxh64_digest (xxh64_update (sd_hasher sd) ys)) = Ok p
    else p = pos1"
    using dec step ys(1) cont inv
    by (cases lst) (auto simp: sd_decode_next_block_def Let_def obind_eq_Ok st_def sd1_def sd_inv_def)
  have hash: "xx_rep 0 (xxh64_update (sd_hasher sd) ys) (made @ ys)"
    using inv unfolding sd_inv_def by (intro xx_rep_update) blast
  have p: "pos1 \<le> p" "p \<le> length (sd_src sd)"
    using ends check_checksum_post [OF st1(4)] st1(4) by (auto split: if_splits dest: post_OkD [rotated])
  have size: "length (made @ ys) \<le> p * MAX_BLOCK_SIZE"
  proof -
    have "length ys \<le> MAX_BLOCK_SIZE" using ys(2) inv by (simp add: sd_inv_def st_def)
    moreover have "length made \<le> sd_pos sd * MAX_BLOCK_SIZE" using inv unfolding sd_inv_def by blast
    ultimately have "length (made @ ys) \<le> Suc (sd_pos sd) * MAX_BLOCK_SIZE" by simp
    also have "\<dots> \<le> p * MAX_BLOCK_SIZE" using st1(3) p(1) by (intro mult_le_mono1) simp
    finally show ?thesis .
  qed
  obtain pre where pre: "pre @ bs_out st = content @ made"
    and path: "\<And>cap. length made \<le> cap \<Longrightarrow> cap \<le> usize_max \<Longrightarrow>
      block_path (sd_src sd) (st0 cap) pos0 (full_state pre (length content) cap st) (sd_pos sd) False"
    using inv cont by (auto simp: sd_inv_def one_shot_def st_def)
  have "one_shot st0 pos0 content (made @ ys) st1 (sd_src sd) p lst (sd_declared_size sd) (sd_has_checksum sd)"
    unfolding one_shot_def
  proof (intro exI conjI allI impI)
    show "pre @ bs_out st1 = content @ made @ ys" using pre ys(1) by (metis append.assoc)
    show "block_path (sd_src sd) (st0 cap) pos0 (full_state pre (length content) cap st1) pos1 lst"
      if "length (made @ ys) \<le> cap" "cap \<le> usize_max" for cap
      using that by (intro one_shot_block [OF path bi step ys(1) pre]) simp_all
    show "if lst then check_content_size (sd_declared_size sd) (length (made @ ys)) = Ok ()
        \<and> (length (made @ ys) \<le> usize_max \<longrightarrow>
             check_checksum (sd_has_checksum sd) (sd_src sd) pos1 (xxh64 (made @ ys) 0) = Ok p)
      else pos1 = p"
      using ends xx_rep_digest [OF hash] by (auto simp: usize_max_def)
  qed
  moreover have "made = delivered" using inv start by (auto simp: sd_inv_def)
  ultimately have "sd_inv st0 pos0 content (made @ ys) delivered sd'"
    using inv st1 ys p size hash start unfolding sd_inv_def sd' sd1_def by (elim conjE) (simp add: st_def)
  then show ?thesis by blast
qed

section \<open>Reads\<close>

text \<open>The fields that never change.\<close>

definition sd_same :: "streaming_decoder \<Rightarrow> streaming_decoder \<Rightarrow> bool" where
  "sd_same sd sd' \<longleftrightarrow> sd_src sd' = sd_src sd \<and> sd_window_size sd' = sd_window_size sd
     \<and> sd_declared_size sd' = sd_declared_size sd \<and> sd_has_checksum sd' = sd_has_checksum sd"

definition sd_small :: "streaming_decoder \<Rightarrow> bool" where
  "sd_small sd \<longleftrightarrow> sd_buffered_len sd \<le> sd_window_size sd"

definition sd_fresh :: "streaming_decoder \<Rightarrow> bool" where
  "sd_fresh sd \<longleftrightarrow> \<not> sd_last_done sd \<and> sd_read_off sd = length (bs_out (sd_state sd))"

lemma sd_compact_small: "sd_inv st0 pos0 content made delivered sd \<Longrightarrow> sd_small (sd_compact sd)"
  by (auto simp: sd_inv_def sd_small_def sd_buffered_len_def sd_compact_def Let_def)

lemma sd_decode_next_block_post:
  assumes "sd_inv st0 pos0 content made delivered sd"
  shows "returns (sd_decode_next_block sd)"
proof -
  have inv: "block_inv (sd_state sd)" "sd_pos sd \<le> length (sd_src sd)" using assms by (auto simp: sd_inv_def)
  have sum: "post (check_checksum c src p h) (\<lambda>_. True) (\<lambda>_. True)" if "p \<le> length src" for c src p h
    by (rule post_mono [OF check_checksum_post [OF that]]) simp_all
  have "post (decode_block_at (sd_state sd) (sd_src sd) (sd_pos sd))
      (\<lambda>(st', pos', lst). length (bs_out (sd_state sd)) \<le> length (bs_out st') \<and> pos' \<le> length (sd_src sd)) (\<lambda>_. True)"
    by (rule post_mono [OF decode_block_at_post [OF inv]]) (auto simp: grows_def)
  then show ?thesis
    unfolding returns_post sd_decode_next_block_def
    by (auto simp: wp Let_def check_content_size_def intro!: sum split: option.split elim!: post_mono)
qed

lemma sd_fill_post:
  assumes "sd_inv st0 pos0 content made delivered sd" and "sd_small sd \<or> sd_fresh sd"
  shows "post (sd_fill sd) (\<lambda>(sd', err).
      (\<exists>made'. sd_inv st0 pos0 content made' delivered sd')
      \<and> sd_same sd sd' \<and> sd_poisoned sd' = sd_poisoned sd
      \<and> (err = None \<longrightarrow> sd_small sd' \<and> (sd_last_done sd' \<or> sd_read_off sd' < length (bs_out (sd_state sd'))))) (\<lambda>_. False)"
  using assms
proof (induction sd arbitrary: made rule: sd_fill.induct)
  case (1 sd)
  show ?case
  proof (cases "length (bs_out (sd_state sd)) \<le> sd_read_off sd \<and> \<not> sd_last_done sd")
    case False
    then show ?thesis using 1(2,3) by (subst sd_fill.simps) (auto simp: sd_fresh_def sd_same_def)
  next
    case True
    then have start: "sd_read_off sd = length (bs_out (sd_state sd))" using 1(2) by (auto simp: sd_inv_def)
    show ?thesis
    proof (cases "sd_decode_next_block sd")
      case (Ok sd1)
      obtain ys where inv1: "sd_inv st0 pos0 content (made @ ys) delivered sd1"
        using sd_inv_block [OF 1(2) Ok _ start] True by blast
      note frame = sd_decode_next_block_frame [OF Ok]
      from 1(1) [OF True Ok sd_inv_compact [OF inv1]] sd_compact_small [OF inv1]
      show ?thesis using True Ok frame
        by (subst sd_fill.simps) (auto simp: sd_compact_frame sd_same_def elim!: post_mono)
    next
      case (Err e)
      then show ?thesis using True 1(2) by (subst sd_fill.simps) (auto simp: sd_same_def)
    qed (use sd_decode_next_block_post [OF 1(2)] in simp_all)
  qed
qed

lemma sd_read_post:
  assumes inv: "sd_inv st0 pos0 content made delivered sd" and small: "sd_small sd \<or> sd_fresh sd"
    and "sd_poisoned sd = None"
  shows "post (sd_read sd n) (\<lambda>(r, sd').
      case r of
        Inl msg \<Rightarrow> sd_poisoned sd' = Some msg
      | Inr bytes \<Rightarrow> length bytes \<le> n \<and> sd_poisoned sd' = None \<and> sd_small sd'
          \<and> sd_same sd sd'
          \<and> (\<exists>made'. sd_inv st0 pos0 content made' (delivered @ bytes) sd'
                \<and> (bytes = [] \<and> 0 < n \<longrightarrow> sd_last_done sd' \<and> made' = delivered))) (\<lambda>_. False)"
proof (cases "sd_fill sd")
  case (Ok r)
  obtain sd1 err where r: "r = (sd1, err)" by (cases r)
  obtain made1 where inv1: "sd_inv st0 pos0 content made1 delivered sd1"
    and frame: "sd_same sd sd1" "sd_poisoned sd1 = None"
    and ok: "err = None \<Longrightarrow> sd_small sd1 \<and> (sd_last_done sd1 \<or> sd_read_off sd1 < length (bs_out (sd_state sd1)))"
    using post_OkD [OF sd_fill_post [OF inv small] Ok] r assms(3) by auto
  have le: "sd_read_off sd1 \<le> length (bs_out (sd_state sd1))" using inv1 by (simp add: sd_inv_def)
  show ?thesis
  proof (cases err)
    case (Some e)
    then show ?thesis using assms(3) Ok r by (simp add: sd_read_def)
  next
    case None
    define avail where "avail = length (bs_out (sd_state sd1)) - sd_read_off sd1"
    show ?thesis
    proof (cases "avail = 0")
      case True
      then have "sd_last_done sd1" "made1 = delivered" using ok [OF None] inv1 by (auto simp: avail_def sd_inv_def)
      then show ?thesis using assms(3) Ok r None True le ok inv1 frame by (auto simp: sd_read_def avail_def)
    next
      case False
      define k where "k = min avail n"
      define sd2 where "sd2 = sd1\<lparr>sd_read_off := sd_read_off sd1 + k\<rparr>"
      define bytes where "bytes = take k (drop (sd_read_off sd1) (bs_out (sd_state sd1)))"
      have k: "sd_read_off sd1 + k \<le> length (bs_out (sd_state sd1))" using le by (auto simp: k_def avail_def)
      have inv2: "sd_inv st0 pos0 content made1 (delivered @ bytes) sd2"
        unfolding sd2_def bytes_def by (rule sd_inv_read [OF inv1 k])
      have "sd_read sd n = Ok (Inr bytes, sd_compact sd2)"
        using assms(3) Ok r None False le k
        by (simp add: sd_read_def bytes_def sd2_def Let_def flip: avail_def k_def)
      moreover have "length bytes = k" using k by (simp add: bytes_def)
      moreover have "k \<le> n" "0 < n \<Longrightarrow> 0 < k" using False by (auto simp: k_def)
      ultimately show ?thesis
        using sd_inv_compact [OF inv2] sd_compact_small [OF inv2] frame
        by (auto simp: sd_compact_frame sd2_def sd_same_def)
    qed
  qed
qed (use sd_fill_post [OF inv small] in simp_all)

text \<open>A sequence of successful reads, with buffers of any sizes, and the bytes they returned.\<close>

inductive sd_run :: "streaming_decoder \<Rightarrow> byte list \<Rightarrow> streaming_decoder \<Rightarrow> bool" for sd0 :: streaming_decoder where
  none: "sd_run sd0 [] sd0"
| more: "\<lbrakk>sd_run sd0 delivered sd; sd_read sd n = Ok (Inr bytes, sd')\<rbrakk> \<Longrightarrow> sd_run sd0 (delivered @ bytes) sd'"

lemma sd_run_inv:
  assumes "sd_run sd0 delivered sd" and "sd_inv st0 pos0 content [] [] sd0" and "sd_fresh sd0" and "sd_poisoned sd0 = None"
  shows "(\<exists>made. sd_inv st0 pos0 content made delivered sd) \<and> (sd_small sd \<or> sd_fresh sd) \<and> sd_poisoned sd = None
    \<and> sd_same sd0 sd"
  using assms
proof (induction rule: sd_run.induct)
  case none
  then show ?case by (auto simp: sd_same_def)
next
  case (more delivered sd n bytes sd')
  then obtain made where inv: "sd_inv st0 pos0 content made delivered sd"
    and "sd_small sd \<or> sd_fresh sd" "sd_poisoned sd = None" by auto
  from post_OkD [OF sd_read_post [OF this] more.hyps(2)] more show ?case by (auto simp: sd_same_def)
qed

section \<open>The start and the end\<close>

definition sd_content :: "dictionary option \<Rightarrow> byte list" where
  "sd_content dict = (case dict of None \<Rightarrow> [] | Some d \<Rightarrow> di_content d)"

definition sd_header :: "byte list \<Rightarrow> bool \<Rightarrow> frame_header result" where
  "sd_header src expect_magic = (if expect_magic then frame_header_magic src else frame_header_magicless src)"

definition sd_start :: "streaming_decoder \<Rightarrow> nat \<Rightarrow> block_state" where
  "sd_start sd cap = (sd_state sd)\<lparr>bs_max_output := cap\<rparr>"

lemma sd_dictionary_post:
  assumes "dict_opt_ok dict"
  shows "post (sd_dictionary dict did (initial_state cap bm)) (\<lambda>(st, off).
    block_inv st \<and> bs_out st = sd_content dict \<and> bs_dict_len st = length (sd_content dict)
      \<and> off = length (sd_content dict) \<and> bs_block_max st = bm
      \<and> ((dict = None \<longrightarrow> did = 0) \<longrightarrow> (\<forall>cap'. prime_state dict did (initial_state cap' bm) = Ok (st\<lparr>bs_max_output := cap'\<rparr>)))) (\<lambda>_. True)"
  using assms
  by (auto simp: sd_dictionary_def sd_content_def prime_state_def load_dictionary_def initial_state_def block_inv_def Let_def
      dict_opt_ok_def dict_ok_def seq_tables_ok_def default_seq_tables_def split: option.splits)

lemma sd_with_options_inv:
  assumes "sd_with_options src m dict wl = Ok sd" and "dict_opt_ok dict"
  shows "sd_inv (sd_start sd) (sd_pos sd) (sd_content dict) [] [] sd" and "sd_fresh sd" and "sd_poisoned sd = None"
proof -
  obtain h where h: "sd_header src m = Ok h"
    and sd: "sd_pos sd = fh_header_len h" "sd_src sd = src" "sd_window_size sd = fh_window_size h" "sd_last_done sd = False"
      "sd_hasher sd = xxh64_new 0" "sd_total_out sd = 0" "sd_poisoned sd = None"
    and st: "sd_dictionary dict (fh_dictionary_id h) (initial_state usize_max (min (fh_window_size h) MAX_BLOCK_SIZE))
      = Ok (sd_state sd, sd_read_off sd)"
    using assms(1) by (auto simp: sd_with_options_def sd_header_def Let_def obind_eq_Ok split: if_splits)
  have state: "block_inv (sd_state sd)" "bs_out (sd_state sd) = sd_content dict" "bs_dict_len (sd_state sd) = length (sd_content dict)"
    "sd_read_off sd = length (sd_content dict)" "bs_block_max (sd_state sd) = min (fh_window_size h) MAX_BLOCK_SIZE"
    using post_OkD [OF sd_dictionary_post [OF assms(2)] st] by simp_all
  have pos: "fh_header_len h \<le> length src"
    using h parse_frame_header_post [of src] parse_frame_header_post [of "drop 4 src"]
    by (auto simp: sd_header_def frame_header_magic_def frame_header_magicless_def obind_eq_Ok slice_from_eq_Ok split: if_splits)
  have "full_state [] (length (sd_content dict)) cap (sd_state sd) = sd_start sd cap" for cap
    using state by (simp add: full_state_def sd_start_def)
  then have "one_shot (sd_start sd) (sd_pos sd) (sd_content dict) [] (sd_state sd) (sd_src sd) (sd_pos sd) (sd_last_done sd)
      (sd_declared_size sd) (sd_has_checksum sd)"
    unfolding one_shot_def using state sd block_path.start
    by (intro exI [of _ "[]"] exI [of _ "sd_pos sd"]) auto
  then show "sd_inv (sd_start sd) (sd_pos sd) (sd_content dict) [] [] sd"
    using state sd pos xx_rep_new [of 0] by (simp add: sd_inv_def)
  show "sd_fresh sd" "sd_poisoned sd = None" using state sd by (simp_all add: sd_fresh_def)
qed




section \<open>Properties\<close>


lemma example_frame_open:
  "sd_with_options example_frame True None 27 = Ok \<lparr>sd_src = example_frame, sd_pos = 6, sd_window_size = 3,
     sd_state = initial_state usize_max 3, sd_read_off = 0, sd_last_done = False, sd_has_checksum = False,
     sd_hasher = xxh64_new 0, sd_total_out = 0, sd_declared_size = Some 3, sd_poisoned = None\<rparr>"
proof -
  have "u32_at example_frame 0 = Ok ZSTD_MAGIC" "4 \<le> length example_frame"
    by (simp_all add: example_frame_def u32_at_def from_le_bytes_def ZSTD_MAGIC_def)
  then have "frame_header_magic example_frame = Ok \<lparr>fh_header_len = 6, fh_has_checksum = False,
     fh_content_size = Some 3, fh_window_size = 3, fh_dictionary_id = 0\<rparr>"
    by (simp add: frame_header_magic_def example_frame_header)
  then show ?thesis by (simp add: sd_with_options_def sd_dictionary_def MAX_BLOCK_SIZE_def)
qed

definition example_done :: streaming_decoder where
  "example_done = \<lparr>sd_src = example_frame, sd_pos = 12, sd_window_size = 3,
     sd_state = (initial_state usize_max 3)\<lparr>bs_out := [7, 8, 9]\<rparr>, sd_read_off = 3, sd_last_done = True,
     sd_has_checksum = False, sd_hasher = xxh64_update (xxh64_new 0) [7, 8, 9], sd_total_out = 3,
     sd_declared_size = Some 3, sd_poisoned = None\<rparr>"

lemma example_frame_read: "sd_read (the_ok (sd_with_options example_frame True None 27)) 9 = Ok (Inr [7, 8, 9], example_done)"
proof -
  have block: "decode_block_at (initial_state usize_max 3) example_frame 6
      = Ok ((initial_state usize_max 3)\<lparr>bs_out := [7, 8, 9]\<rparr>, 12, True)"
    by (simp add: example_frame_def decode_block_at_def read_block_header_def or_le_bytes_eq unat_from_le_bytes_32
        checked_add_def usize_max_def body_end_def decode_raw_def check_ceiling_def output_len_def initial_state_def)
  have out: "bs_out (initial_state usize_max 3) = []" by (simp add: initial_state_def)
  show ?thesis
    unfolding example_frame_open
    by (simp add: sd_read_def sd_fill.simps sd_decode_next_block_def block out Let_def check_content_size_def
        check_checksum_def sd_compact_def example_done_def)
qed


text \<open>C25: bounded memory and bounded output. After every successful read the decoder buffers at most
  the window of the frame; a read returns at most as many bytes as asked for and never panics or
  loops, on any input; and all the reads together return at most 128 KiB per input byte, so
  reading to the end terminates.\<close>

theorem streaming_bounded:
  assumes "sd_with_options src m dict wl = Ok sd0" and "dict_opt_ok dict" and "sd_run sd0 delivered sd"
  shows "post (sd_read sd n) (\<lambda>(r, sd'). case r of
      Inl msg \<Rightarrow> True
    | Inr bytes \<Rightarrow> length bytes \<le> n \<and> sd_buffered_len sd' \<le> sd_window_size sd0
        \<and> length (delivered @ bytes) \<le> length src * MAX_BLOCK_SIZE) (\<lambda>_. False)"
proof -
  note start = sd_with_options_inv [OF assms(1,2)]
  have src: "sd_src sd0 = src"
    using assms(1) by (auto simp: sd_with_options_def Let_def obind_eq_Ok split: if_splits)
  obtain made where inv: "sd_inv (sd_start sd0) (sd_pos sd0) (sd_content dict) made delivered sd"
    "sd_small sd \<or> sd_fresh sd" "sd_poisoned sd = None" and same: "sd_same sd0 sd"
    using sd_run_inv [OF assms(3) start] by blast
  have bytes: "length (delivered @ bytes) \<le> length src * MAX_BLOCK_SIZE"
    if "sd_inv (sd_start sd0) (sd_pos sd0) (sd_content dict) made' (delivered @ bytes) sd'" "sd_src sd' = src" for made' bytes sd'
  proof -
    have "length (delivered @ bytes) \<le> length made'" "length made' \<le> sd_pos sd' * MAX_BLOCK_SIZE" "sd_pos sd' \<le> length src"
      using that unfolding sd_inv_def by auto
    then show ?thesis by (meson mult_le_mono1 order_trans)
  qed
  show ?thesis
  proof (rule post_mono [OF sd_read_post [OF inv]])
    fix x
    assume "case x of (r, sd') \<Rightarrow> (case r of Inl msg \<Rightarrow> sd_poisoned sd' = Some msg
      | Inr bytes \<Rightarrow> length bytes \<le> n \<and> sd_poisoned sd' = None \<and> sd_small sd' \<and> sd_same sd sd'
          \<and> (\<exists>made'. sd_inv (sd_start sd0) (sd_pos sd0) (sd_content dict) made' (delivered @ bytes) sd'
                \<and> (bytes = [] \<and> 0 < n \<longrightarrow> sd_last_done sd' \<and> made' = delivered)))"
    then show "case x of (r, sd') \<Rightarrow> (case r of Inl msg \<Rightarrow> True
      | Inr bytes \<Rightarrow> length bytes \<le> n \<and> sd_buffered_len sd' \<le> sd_window_size sd0
          \<and> length (delivered @ bytes) \<le> length src * MAX_BLOCK_SIZE)"
      using same src bytes by (cases x; cases "fst x") (force simp: sd_small_def sd_same_def simp del: length_append)+
  qed auto
qed

theorem streaming_bounded_witness:
  "post (sd_read example_done 5) (\<lambda>(r, sd'). case r of
      Inl msg \<Rightarrow> True
    | Inr bytes \<Rightarrow> length bytes \<le> 5 \<and> sd_buffered_len sd' \<le> 3
        \<and> length (([] @ [7, 8, 9]) @ bytes) \<le> length example_frame * MAX_BLOCK_SIZE) (\<lambda>_. False)"
proof -
  have run: "sd_run (the_ok (sd_with_options example_frame True None 27)) ([] @ [7, 8, 9]) example_done"
    by (rule sd_run.more [OF sd_run.none example_frame_read])
  have opened: "sd_with_options example_frame True None 27 = Ok (the_ok (sd_with_options example_frame True None 27))"
    and window: "sd_window_size (the_ok (sd_with_options example_frame True None 27)) = 3"
    by (simp_all add: example_frame_open)
  show ?thesis
    using streaming_bounded [OF opened _ run, of 5] unfolding window by (simp add: dict_opt_ok_def)
qed

text \<open>C26: errors are sticky. Once a read has reported an error, every later read reports the same
  text, whatever the buffer size, and changes nothing.\<close>

theorem streaming_error_sticky:
  assumes "sd_read sd n = Ok (Inl msg, sd')"
  shows "sd_read sd' k = Ok (Inl msg, sd')"
proof (cases "sd_poisoned sd")
  case None
  then obtain sd1 err where fill: "sd_fill sd = Ok (sd1, err)" using assms by (auto simp: sd_read_def obind_eq_Ok)
  show ?thesis
  proof (cases err)
    case (Some e)
    then show ?thesis using assms None fill by (auto simp: sd_read_def)
  next
    case (None)
    then show ?thesis using assms \<open>sd_poisoned sd = None\<close> fill
      by (auto simp: sd_read_def obind_eq_Ok Let_def split: if_splits)
  qed
qed (use assms in \<open>auto simp: sd_read_def\<close>)

theorem streaming_error_sticky_witness:
  "sd_read (example_done\<lparr>sd_last_done := False, sd_poisoned := Some (display_error (Truncated ''block header'' 3))\<rparr>) 4
    = Ok (Inl (display_error (Truncated ''block header'' 3)),
        example_done\<lparr>sd_last_done := False, sd_poisoned := Some (display_error (Truncated ''block header'' 3))\<rparr>)"
proof (rule streaming_error_sticky)
  have "decode_block_at (sd_state example_done) (sd_src example_done) (sd_pos example_done) = Err (Truncated ''block header'' 3)"
    by (simp add: example_done_def example_frame_def decode_block_at_def read_block_header_def)
  then have "sd_decode_next_block (example_done\<lparr>sd_last_done := False\<rparr>) = Err (Truncated ''block header'' 3)"
    by (simp add: sd_decode_next_block_def)
  then show "sd_read (example_done\<lparr>sd_last_done := False\<rparr>) 9
    = Ok (Inl (display_error (Truncated ''block header'' 3)),
        example_done\<lparr>sd_last_done := False, sd_poisoned := Some (display_error (Truncated ''block header'' 3))\<rparr>)"
    by (simp add: sd_read_def sd_fill.simps example_done_def)
qed







end
