(* ===== verification/Store.thy ===== *)
theory Store
  imports Frame
begin

text \<open>
  \<^verbatim>\<open>src/encode/block.rs\<close> and \<^verbatim>\<open>src/encode/frame.rs\<close>: the frame header, the raw and run-length
  blocks, and the store mode of the encoder. A function of the crate that appends to its output
  vector returns here the bytes that it appends. What the encoder writes is related to the decoder
  of \<open>Block\<close> and \<open>Frame\<close>: every header field is read back, a stored block appends its chunk, and a
  stored frame decodes to its content.
\<close>

unbundle bit_operations_syntax

section \<open>Blocks\<close>

definition BLOCK_SIZE_MAX :: nat where
  "BLOCK_SIZE_MAX = 128 * 1024"

datatype block_type = Raw | Rle | Compressed

fun block_code :: "block_type \<Rightarrow> nat" where
  "block_code Raw = 0"
| "block_code Rle = 1"
| "block_code Compressed = 2"

definition write_block_header :: "bool \<Rightarrow> block_type \<Rightarrow> nat \<Rightarrow> byte list" where
  "write_block_header lst block_type block_size =
     (let v = of_bool lst OR push_bit 1 (word_of_nat (block_code block_type)) OR push_bit 3 (word_of_nat block_size) :: u32 in
      [ucast (v AND 0xFF), ucast (drop_bit 8 v AND 0xFF), ucast (drop_bit 16 v AND 0xFF)])"

definition write_raw_block :: "bool \<Rightarrow> byte list \<Rightarrow> byte list" where
  "write_raw_block lst chunk = write_block_header lst Raw (length chunk) @ chunk"

definition write_rle_block :: "bool \<Rightarrow> byte \<Rightarrow> nat \<Rightarrow> byte list" where
  "write_rle_block lst b n = write_block_header lst Rle n @ [b]"

definition write_store_block :: "bool \<Rightarrow> byte list \<Rightarrow> byte list" where
  "write_store_block lst chunk =
     (case chunk of
        [] \<Rightarrow> write_raw_block lst chunk
      | c # _ \<Rightarrow>
          if list_all (\<lambda>b. b = c) chunk then write_rle_block lst c (length chunk)
          else write_raw_block lst chunk)"

section \<open>Frame headers\<close>

definition STORE_WINDOW_LOG :: nat where
  "STORE_WINDOW_LOG = 17"

definition write_frame_header :: "nat \<Rightarrow> bool \<Rightarrow> nat \<Rightarrow> u32 \<Rightarrow> byte list result" where
  "write_frame_header content_size checksum window_log dict_id =
     (let fcs_flag = (if content_size \<le> 2 ^ 32 - 1 then 2 else 3);
          (dict_id_flag, dict_id_size) =
            (if dict_id = 0 then (0, 0) else if dict_id \<le> 0xFF then (1, 1)
             else if dict_id \<le> 0xFFFF then (2, 2) else (3, 4));
          fhd = push_bit 6 (word_of_nat fcs_flag) OR push_bit 2 (of_bool checksum) OR word_of_nat dict_id_flag in
      obind (usub window_log 10) (\<lambda>exponent.
      Ok ([fhd, push_bit 3 (word_of_nat exponent)]
          @ take dict_id_size (le_bytes 4 (unat dict_id))
          @ (if fcs_flag = 2 then le_bytes 4 content_size else le_bytes 8 content_size))))"

definition write_frame_header_streaming :: "bool \<Rightarrow> nat \<Rightarrow> byte list result" where
  "write_frame_header_streaming checksum window_log =
     obind (usub window_log 10) (\<lambda>exponent.
     Ok [push_bit 2 (of_bool checksum), push_bit 3 (word_of_nat exponent)])"

section \<open>Store mode\<close>

text \<open>The loop over \<open>data.chunks(BLOCK_SIZE_MAX)\<close>.\<close>

function store_blocks :: "byte list \<Rightarrow> byte list" where
  "store_blocks data =
     (if data = [] then []
      else write_store_block (drop BLOCK_SIZE_MAX data = []) (take BLOCK_SIZE_MAX data)
        @ store_blocks (drop BLOCK_SIZE_MAX data))"
  by pat_completeness auto
termination by (relation "measure length") (auto simp: BLOCK_SIZE_MAX_def)

declare store_blocks.simps [simp del]

definition content_checksum :: "byte list \<Rightarrow> bool \<Rightarrow> byte list" where
  "content_checksum data checksum =
     (if checksum then le_bytes 4 (unat (ucast (xxh64 data 0 AND 0xFFFFFFFF) :: u32)) else [])"

definition compress_store :: "byte list \<Rightarrow> bool \<Rightarrow> bool \<Rightarrow> byte list result" where
  "compress_store data checksum expect_magic =
     obind (write_frame_header (length data) checksum STORE_WINDOW_LOG 0) (\<lambda>header.
     Ok ((if expect_magic then le_bytes 4 (unat ZSTD_MAGIC) else []) @ header
       @ (if data = [] then write_raw_block True [] else store_blocks data)
       @ content_checksum data checksum))"

section \<open>Block headers are read back\<close>

lemma unat_u32_of_nat: "n < 2 ^ 32 \<Longrightarrow> unat (word_of_nat n :: u32) = n"
  by (simp add: unat_of_nat)

lemma unat_byte_of_nat: "n < 256 \<Longrightarrow> unat (word_of_nat n :: byte) = n"
  by (simp add: unat_of_nat)

lemma unat_u32_less: "unat (w :: u32) < 2 ^ 32"
  using unsigned_less [of w] by simp

lemma low_byte: "ucast (w AND 0xFF) = (word_of_nat (unat w) :: byte)" for w :: u32
proof -
  have mask: "(0xFF :: u32) = mask 8" by (simp add: mask_eq_exp_minus_1)
  show ?thesis unfolding mask by (rule bit_word_eqI) (auto simp: bit_simps)
qed

lemma unat_drop_bit_u32: "unat (drop_bit k w) = unat w div 2 ^ k" for w :: u32
  by (simp only: unat_drop_bit_eq drop_bit_eq_div [of k "unat w"])

lemma three_bytes:
  "[ucast (v AND 0xFF), ucast (drop_bit 8 v AND 0xFF), ucast (drop_bit 16 v AND 0xFF)] = le_bytes 3 (unat v)" for v :: u32
  by (simp add: low_byte unat_drop_bit_u32 numeral_3_eq_3 div_mult2_eq [symmetric] del: of_nat_unat)

lemma write_block_header_le_bytes:
  assumes "n < 2 ^ 21"
  shows "write_block_header lst ty n = le_bytes 3 (of_bool lst + 2 * block_code ty + 8 * n)"
proof -
  define v :: u32 where "v = of_bool lst OR push_bit 1 (word_of_nat (block_code ty)) OR push_bit 3 (word_of_nat n)"
  have code: "block_code ty < 4" by (cases ty) simp_all
  have "of_bool lst OR push_bit 1 (word_of_nat (block_code ty)) = (of_bool lst + push_bit 1 (word_of_nat (block_code ty)) :: u32)"
    by (rule or_disjoint_add) simp
  also have "\<dots> = word_of_nat (of_bool lst + 2 * block_code ty)" by (simp add: push_bit_of_nat_word)
  finally have low: "of_bool lst OR push_bit 1 (word_of_nat (block_code ty)) = (word_of_nat (of_bool lst + 2 * block_code ty) :: u32)" .
  have less: "of_bool lst + 2 * block_code ty < 8" using code by (cases lst) simp_all
  then have "unat (word_of_nat (of_bool lst + 2 * block_code ty) :: u32) < 2 ^ 3"
    by (subst unat_u32_of_nat) (simp_all del: of_nat_add)
  then have "v = word_of_nat (of_bool lst + 2 * block_code ty) + push_bit 3 (word_of_nat n)"
    unfolding v_def or.assoc [symmetric] low by (rule or_disjoint_add)
  then have v: "v = word_of_nat (of_bool lst + 2 * block_code ty + 8 * n)" by (simp add: push_bit_of_nat_word)
  have "unat v = of_bool lst + 2 * block_code ty + 8 * n"
    unfolding v by (rule unat_u32_of_nat) (use assms code in \<open>cases lst; simp\<close>)
  then show ?thesis
    using three_bytes [of v] by (simp only: write_block_header_def v_def [symmetric] Let_def)
qed

lemma length_write_block_header [simp]: "length (write_block_header lst ty n) = 3"
  by (simp add: write_block_header_def Let_def)

lemma read_write_block_header:
  assumes "n < 2 ^ 21"
  shows "read_block_header (write_block_header lst ty n @ rest)
    = Ok \<lparr>bh_last = lst, bh_type = block_code ty, bh_size = n\<rparr>"
proof -
  have code: "block_code ty < 4" by (cases ty) simp_all
  have "unat (from_le_bytes (le_bytes 3 (of_bool lst + 2 * block_code ty + 8 * n)) :: u32) = of_bool lst + 2 * block_code ty + 8 * n"
    using assms code by (cases lst) (simp_all add: le_simps)
  moreover have "(of_bool lst + 2 * block_code ty + 8 * n) mod 2 = of_bool lst"
    "(of_bool lst + 2 * block_code ty + 8 * n) div 2 mod 4 = block_code ty"
    "(of_bool lst + 2 * block_code ty + 8 * n) div 2 ^ 3 = n"
    using code by (cases lst; simp; presburger)+
  ultimately show ?thesis
    using assms by (simp add: read_block_header_def write_block_header_le_bytes or_le_bytes_eq Let_def)
qed

section \<open>A stored block appends its chunk\<close>

text \<open>At the position \<open>pos\<close> the decoder has room for \<open>n\<close> more bytes, within one block.\<close>

definition fits :: "block_state \<Rightarrow> nat \<Rightarrow> bool" where
  "fits st n \<longleftrightarrow> bs_dict_len st \<le> length (bs_out st) \<and> n \<le> bs_block_max st
     \<and> length (bs_out st) - bs_dict_len st + n \<le> bs_max_output st \<and> bs_max_output st \<le> usize_max"

lemma drop_behind: "drop pos src = xs @ rest \<Longrightarrow> drop (pos + length xs) src = rest"
  by (metis add.commute append_eq_conv_conj drop_drop)

lemma check_ceiling_fits: "fits st n \<Longrightarrow> check_ceiling st n = Ok ()"
  by (auto simp: fits_def check_ceiling_def output_len_def checked_add_def)

lemma list_all_replicate: "list_all (\<lambda>b. b = c) xs \<Longrightarrow> replicate (length xs) c = xs"
  by (induction xs) auto

lemma decode_raw_block:
  assumes "drop pos src = write_raw_block lst chunk @ rest" and "fits st (length chunk)"
    and "length chunk < 2 ^ 21" and "length src \<le> usize_max"
  shows "decode_block_at st src pos
    = Ok (st\<lparr>bs_out := bs_out st @ chunk\<rparr>, pos + length (write_raw_block lst chunk), lst)"
proof -
  have len: "length src = pos + 3 + length chunk + length rest" "pos \<le> length src"
    using arg_cong [OF assms(1), of length] by (auto simp: write_raw_block_def)
  have data: "take (length chunk) (drop (pos + 3) src) = chunk"
    using drop_behind [of pos src "write_block_header lst Raw (length chunk)" "chunk @ rest"] assms(1)
    by (simp add: write_raw_block_def)
  show ?thesis
    using assms(2-4) len data
    by (simp add: decode_block_at_def assms(1) write_raw_block_def read_write_block_header checked_add_def
        body_end_def decode_raw_def check_ceiling_fits) (simp add: fits_def)
qed

lemma decode_rle_block:
  assumes "drop pos src = write_rle_block lst c n @ rest" and "fits st n"
    and "n < 2 ^ 21" and "length src \<le> usize_max"
  shows "decode_block_at st src pos
    = Ok (st\<lparr>bs_out := bs_out st @ replicate n c\<rparr>, pos + length (write_rle_block lst c n), lst)"
proof -
  have len: "length src = pos + 4 + length rest" "pos \<le> length src"
    using arg_cong [OF assms(1), of length] by (auto simp: write_rle_block_def)
  have "drop 3 (drop pos src) = c # rest" using assms(1) by (simp add: write_rle_block_def)
  then have "src ! (pos + 3) = c" using len by (metis nth_via_drop drop_drop add.commute)
  then show ?thesis
    using assms(2-4) len
    by (simp add: decode_block_at_def assms(1) write_rle_block_def read_write_block_header checked_add_def
        decode_rle_def check_ceiling_fits) (simp add: fits_def)
qed

lemma decode_store_block:
  assumes "drop pos src = write_store_block lst chunk @ rest" and "fits st (length chunk)"
    and "length chunk < 2 ^ 21" and "length src \<le> usize_max"
  shows "decode_block_at st src pos
    = Ok (st\<lparr>bs_out := bs_out st @ chunk\<rparr>, pos + length (write_store_block lst chunk), lst)"
proof (cases chunk)
  case Nil
  then show ?thesis using decode_raw_block [of pos src lst chunk rest st] assms by (simp add: write_store_block_def)
next
  case (Cons c cs)
  show ?thesis
  proof (cases "list_all (\<lambda>b. b = c) chunk")
    case True
    then have "write_store_block lst chunk = write_rle_block lst c (length chunk)"
      using Cons by (simp add: write_store_block_def)
    then show ?thesis
      using decode_rle_block [of pos src lst c "length chunk" rest st] assms list_all_replicate [OF True] by simp
  next
    case False
    then have "write_store_block lst chunk = write_raw_block lst chunk"
      using Cons by (simp add: write_store_block_def)
    then show ?thesis using decode_raw_block [of pos src lst chunk rest st] assms by simp
  qed
qed

lemma decode_store_blocks:
  assumes "drop pos src = store_blocks data @ rest" and "data \<noteq> []" and "length src \<le> usize_max"
    and "BLOCK_SIZE_MAX \<le> bs_block_max st" and "fits (st\<lparr>bs_block_max := length data\<rparr>) (length data)"
  shows "decode_blocks src st pos = Ok (st\<lparr>bs_out := bs_out st @ data\<rparr>, pos + length (store_blocks data))"
  using assms
proof (induction data arbitrary: pos st rule: store_blocks.induct)
  case (1 data)
  let ?chunk = "take BLOCK_SIZE_MAX data" and ?data = "drop BLOCK_SIZE_MAX data"
  let ?blk = "write_store_block (?data = []) ?chunk"
  have blocks: "store_blocks data = ?blk @ store_blocks ?data" using 1(3) by (subst store_blocks.simps) simp
  have here: "drop pos src = ?blk @ store_blocks ?data @ rest" using 1(2) blocks by simp
  have fits: "fits st (length ?chunk)" "length ?chunk < 2 ^ 21"
    using 1(5,6) by (auto simp: fits_def BLOCK_SIZE_MAX_def)
  note block = decode_store_block [OF here fits 1(4)]
  show ?case
  proof (cases "?data = []")
    case True
    then show ?thesis
      by (subst decode_blocks.simps) (use block blocks in \<open>simp add: store_blocks.simps [of "[]"]\<close>)
  next
    case False
    let ?st = "st\<lparr>bs_out := bs_out st @ ?chunk\<rparr>" and ?pos = "pos + length ?blk"
    have "drop ?pos src = store_blocks ?data @ rest" using here by (rule drop_behind)
    moreover have "fits (?st\<lparr>bs_block_max := length ?data\<rparr>) (length ?data)"
      using 1(6) by (auto simp: fits_def)
    ultimately have "decode_blocks src ?st ?pos = Ok (?st\<lparr>bs_out := bs_out ?st @ ?data\<rparr>, ?pos + length (store_blocks ?data))"
      using False 1(4,5) by (intro 1(1) [OF 1(3)]) auto
    then show ?thesis
      by (subst decode_blocks.simps) (use block blocks False in simp)
  qed
qed

section \<open>Frame headers are read back\<close>

lemma window_descriptor_written:
  assumes "e \<le> 31"
  shows "window_descriptor (b # push_bit 3 (word_of_nat e) # xs) False 1 = Ok (Some (2 ^ (10 + e)), 2)"
proof -
  have "unat (push_bit 3 (word_of_nat e) :: byte) = 8 * e"
    unfolding push_bit_of_nat_word using unat_byte_of_nat [of "2 ^ 3 * e"] assms by simp
  then show ?thesis by (simp add: window_descriptor_def Let_def)
qed

lemma dictionary_id_field_written:
  assumes "flag < 4" and "[0, 1, 2, 4] ! flag = n" and "unat did < 256 ^ n"
  shows "dictionary_id_field (a # b # take n (le_bytes 4 (unat did)) @ xs) flag 2 = Ok (did, 2 + n)"
proof -
  have n: "n \<le> 4" using assms(1,2) by (auto simp: less_Suc_eq numeral_eq_Suc)
  then have "unat (or_le_bytes (take n (le_bytes 4 (unat did))) :: u32) = unat did"
    using assms(3) by (simp add: or_le_bytes_eq le_simps)
  then have "(or_le_bytes (take n (le_bytes 4 (unat did))) :: u32) = did" by (simp add: word_unat_eq_iff)
  then show ?thesis using assms(1,2) n by (simp add: dictionary_id_field_def numeral_2_eq_2)
qed

lemma content_size_field_written:
  assumes "n \<in> {4, 8}" and "cs < 256 ^ n" and "length pre = p"
  shows "content_size_field (pre @ le_bytes n cs @ xs) n p = Ok (Some cs, p + n)"
proof -
  have "n \<le> 8" "0 < n" "n \<noteq> 2" using assms(1) by auto
  moreover from this have "unat (or_le_bytes (le_bytes n cs) :: u64) = cs"
    using assms(2) by (simp add: or_le_bytes_eq le_simps)
  ultimately show ?thesis using assms(3) by (simp add: content_size_field_def Let_def)
qed

text \<open>The bits of the frame header descriptor.\<close>

lemma header_descriptor:
  assumes "f \<in> {0, 2, 3}" and "d \<in> {0, 1, 2, 3}"
    and "b = push_bit 6 (word_of_nat f) OR push_bit 2 (of_bool c) OR (word_of_nat d :: byte)"
  shows "unat b = 64 * f + 4 * of_bool c + d"
  using assms(1,2) unfolding assms(3)
  by (cases c; elim insertE emptyE; simp add: push_bit_of_nat_word)

lemma le_bytes_numeral: "le_bytes (numeral k) n = word_of_nat n # le_bytes (pred_numeral k) (n div 256)"
  by (simp only: numeral_eq_Suc [of k] le_bytes.simps)

lemma frame_header_roundtrip_lemma:
  assumes "write_frame_header cs ck wl did = Ok hdr" and "wl \<le> 41" and "cs < 2 ^ 64"
  shows "parse_frame_header (hdr @ rest) = Ok \<lparr>fh_header_len = length hdr, fh_has_checksum = ck,
    fh_content_size = Some cs, fh_window_size = 2 ^ wl, fh_dictionary_id = did\<rparr>"
proof -
  define f where "f = (if cs \<le> 2 ^ 32 - 1 then 2 else 3 :: nat)"
  define fs where "fs = (if f = 2 then 4 else 8 :: nat)"
  define d where "d = (if did = 0 then 0 else if did \<le> 0xFF then 1 else if did \<le> 0xFFFF then 2 else 3 :: nat)"
  define ds where "ds = [0, 1, 2, 4 :: nat] ! d"
  define b where "b = push_bit 6 (word_of_nat f) OR push_bit 2 (of_bool ck) OR (word_of_nat d :: byte)"
  define e where "e = wl - 10"
  have wl: "10 \<le> wl" using assms(1) by (auto simp: write_frame_header_def Let_def outcome_simps split: prod.splits)
  then have e: "e \<le> 31" "10 + e = wl" using assms(2) by (simp_all add: e_def)
  let ?ids = "take ds (le_bytes 4 (unat did))"
  have hdr: "hdr = b # push_bit 3 (word_of_nat e) # ?ids @ le_bytes fs cs"
    using assms(1)
    by (auto simp: write_frame_header_def Let_def outcome_simps e_def b_def f_def fs_def d_def ds_def split: if_splits)
  have f: "f \<in> {0, 2, 3}" "f \<in> {2, 3}" and d: "d \<in> {0, 1, 2, 3}" by (simp_all add: f_def d_def)
  then have d4: "d < 4" "ds \<le> 4" by (auto simp: ds_def)
  have bits: "unat b mod 4 = d" "unat b div 4 mod 2 = Suc 0 \<longleftrightarrow> ck" "unat b div 8 mod 2 = 0"
    "unat b div 32 mod 2 = 0" "unat b div 64 mod 4 = f"
    using header_descriptor [OF f(1) d b_def] f d by (cases ck; auto)+
  have did: "unat did < 256 ^ ds"
    using unsigned_less [of did] by (auto simp: ds_def d_def word_le_nat_alt)
  have cs: "cs < 256 ^ fs" "fs \<in> {4, 8}" using assms(3) by (auto simp: fs_def f_def)
  have "fcs_field_size f False = fs" using f(2) by (auto simp: fcs_field_size_def fs_def)
  moreover have "window_descriptor (hdr @ rest) False 1 = Ok (Some (2 ^ wl), 2)"
    using window_descriptor_written [OF e(1)] by (simp add: hdr e(2))
  moreover have "dictionary_id_field (hdr @ rest) d 2 = Ok (did, 2 + ds)"
    using dictionary_id_field_written [OF d4(1) ds_def [symmetric] did] by (simp add: hdr)
  moreover have "content_size_field (hdr @ rest) fs (2 + ds) = Ok (Some cs, 2 + ds + fs)"
    using content_size_field_written [OF cs(2,1), of "b # push_bit 3 (word_of_nat e) # ?ids" "2 + ds" rest] d4(2)
    by (simp add: hdr)
  moreover have "idx (hdr @ rest) 0 = Ok b" "hdr @ rest \<noteq> []" "length hdr = 2 + ds + fs"
    using d4(2) by (simp_all add: hdr)
  ultimately show ?thesis by (simp add: parse_frame_header_def bits Let_def)
qed

section \<open>Frames\<close>

text \<open>The frame around blocks that decode to \<open>data\<close>: shared by every mode of the encoder.\<close>

definition magic_bytes :: "bool \<Rightarrow> byte list" where
  "magic_bytes expect_magic = (if expect_magic then le_bytes 4 (unat ZSTD_MAGIC) else [])"

lemma decode_prefix_magic: "decode_prefix (magic_bytes True @ xs) = Ok (Inr 4)"
proof -
  have "u32_at (magic_bytes True @ xs) 0 = Ok ZSTD_MAGIC"
    by (simp add: u32_at_def magic_bytes_def from_le_bytes_def le_simps ZSTD_MAGIC_def)
  moreover have "4 \<le> length (magic_bytes True @ xs)" by (simp add: magic_bytes_def)
  ultimately show ?thesis by (simp add: decode_prefix_def SKIPPABLE_MAGIC_MASK_def SKIPPABLE_MAGIC_def ZSTD_MAGIC_def)
qed

lemma check_content_checksum:
  assumes "drop pos src = content_checksum data ck" and "pos \<le> length src"
  shows "check_checksum ck src pos (xxh64 data 0) = Ok (pos + length (content_checksum data ck))"
proof (cases ck)
  case True
  then have len: "length src = pos + 4" using arg_cong [OF assms(1), of length] assms(2) by (simp add: content_checksum_def)
  have "take 4 (drop pos src) = le_bytes 4 (unat (ucast (xxh64 data 0 AND 0xFFFFFFFF) :: u32))"
    using assms(1) True by (simp add: content_checksum_def)
  moreover have "(from_le_bytes (le_bytes 4 (unat w)) :: u32) = w" for w :: u32
    using unat_u32_less [of w] by (simp add: word_unat_eq_iff le_simps)
  ultimately have "u32_at src pos = Ok (ucast (xxh64 data 0 AND 0xFFFFFFFF))"
    using len by (simp add: u32_at_def)
  then show ?thesis using True len by (simp add: check_checksum_def content_checksum_def)
qed (simp add: check_checksum_def content_checksum_def)

lemma decode_assembled:
  assumes hdr: "write_frame_header (length data) ck wl 0 = Ok hdr" and "wl \<le> 41"
    and src: "src = magic_bytes m @ hdr @ blocks @ content_checksum data ck"
    and blocks: "decode_blocks src (initial_state (length data) (min (2 ^ wl) MAX_BLOCK_SIZE)) (length (magic_bytes m @ hdr))
        = Ok (st, length (magic_bytes m @ hdr @ blocks))"
    and st: "bs_out st = data" and mx: "length data \<le> mx" "mx \<le> usize_max"
  shows "decode_frame src m mx None None = Ok \<lparr>df_data = data, df_consumed = length src\<rparr>"
proof -
  let ?p = "length (magic_bytes m)"
  have "length data < 2 ^ 64" using mx by (simp add: usize_max_def)
  from frame_header_roundtrip_lemma [OF hdr \<open>wl \<le> 41\<close> this]
  have header: "parse_frame_header (drop ?p src) = Ok \<lparr>fh_header_len = length hdr, fh_has_checksum = ck,
      fh_content_size = Some (length data), fh_window_size = 2 ^ wl, fh_dictionary_id = 0\<rparr>"
    by (simp add: src)
  have "check_checksum ck src (length (magic_bytes m @ hdr @ blocks)) (xxh64 data 0) = Ok (length src)"
    by (subst check_content_checksum) (simp_all add: src)
  moreover have slice: "slice_from src ?p = (Ok (drop ?p src) :: byte list result)" by (simp add: src)
  ultimately have "decode_body src ?p mx None None = Ok \<lparr>df_data = data, df_consumed = length src\<rparr>"
    using mx(1) blocks st unfolding decode_body_def slice obind_simps header Let_def
    by (simp add: window_ceiling_def output_cap_def prime_state_def check_content_size_def) (simp add: initial_state_def)
  then show ?thesis
    using decode_prefix_magic by (cases m) (simp_all add: decode_frame_def src magic_bytes_def)
qed

section \<open>Store mode decodes\<close>

lemma compress_store_Ok:
  "\<exists>hdr. write_frame_header (length data) ck STORE_WINDOW_LOG 0 = Ok hdr \<and> length hdr \<le> 10 \<and>
     compress_store data ck m = Ok (magic_bytes m @ hdr @ (if data = [] then write_raw_block True [] else store_blocks data)
       @ content_checksum data ck)"
  by (auto simp: compress_store_def write_frame_header_def STORE_WINDOW_LOG_def Let_def magic_bytes_def)

lemma length_write_store_block: "length (write_store_block l c) \<le> 3 + length c"
  by (auto simp: write_store_block_def write_raw_block_def write_rle_block_def split: list.split)

lemma length_store_blocks: "length (store_blocks data) \<le> length data + 3 * (length data div BLOCK_SIZE_MAX + 1)"
proof (induction data rule: store_blocks.induct)
  case (1 data)
  show ?case
  proof (cases "data = []")
    case False
    let ?chunk = "take BLOCK_SIZE_MAX data" and ?data = "drop BLOCK_SIZE_MAX data"
    note chunk = length_write_store_block [of _ ?chunk]
    have eq: "store_blocks data = write_store_block (?data = []) ?chunk @ store_blocks ?data"
      using False by (subst store_blocks.simps) simp
    show ?thesis
    proof (cases "?data = []")
      case True
      then show ?thesis using chunk [of True] unfolding eq by (simp add: store_blocks.simps [of "[]"])
    next
      case more: False
      then have big: "BLOCK_SIZE_MAX < length data" by simp
      then have "length data div BLOCK_SIZE_MAX = (length data - BLOCK_SIZE_MAX) div BLOCK_SIZE_MAX + 1"
        by (subst le_div_geq) (simp_all add: BLOCK_SIZE_MAX_def)
      then show ?thesis
        using 1 [OF False] chunk [of False] big more unfolding eq by simp
    qed
  qed (simp add: store_blocks.simps)
qed

lemma length_compress_store:
  assumes "compress_store data ck m = Ok c"
  shows "length c \<le> length data + 3 * (length data div BLOCK_SIZE_MAX + 1) + 18"
proof -
  obtain hdr where "length hdr \<le> 10" and c: "c = magic_bytes m @ hdr
      @ (if data = [] then write_raw_block True [] else store_blocks data) @ content_checksum data ck"
    using compress_store_Ok [of data ck m] assms by auto
  moreover have "length (magic_bytes m) \<le> 4" "length (content_checksum data ck) \<le> 4"
    by (simp_all add: magic_bytes_def content_checksum_def)
  ultimately show ?thesis
    using length_store_blocks [of data] by (auto simp: write_raw_block_def)
qed

lemma compress_store_decodes:
  assumes c: "compress_store data ck m = Ok c" and len: "length data < 2 ^ 63" and mx: "length data \<le> mx" "mx \<le> usize_max"
  shows "decode_frame c m mx None None = Ok \<lparr>df_data = data, df_consumed = length c\<rparr>"
proof -
  obtain hdr where hdr: "write_frame_header (length data) ck STORE_WINDOW_LOG 0 = Ok hdr"
    and cc: "c = magic_bytes m @ hdr @ (if data = [] then write_raw_block True [] else store_blocks data)
      @ content_checksum data ck"
    using compress_store_Ok [of data ck m] c by auto
  have "length data div BLOCK_SIZE_MAX \<le> length data" by simp
  then have small: "length c \<le> usize_max"
    using length_compress_store [OF c] len by (auto simp: usize_max_def BLOCK_SIZE_MAX_def)
  let ?st = "initial_state (length data) (min (2 ^ STORE_WINDOW_LOG) MAX_BLOCK_SIZE)"
  let ?pos = "length (magic_bytes m @ hdr)"
  have st: "bs_block_max ?st = BLOCK_SIZE_MAX" "bs_out ?st = []" "fits (?st\<lparr>bs_block_max := length data\<rparr>) (length data)"
    using mx by (simp_all add: initial_state_def STORE_WINDOW_LOG_def MAX_BLOCK_SIZE_def BLOCK_SIZE_MAX_def fits_def)
  show ?thesis
  proof (cases "data = []")
    case True
    have "decode_block_at ?st c ?pos = Ok (?st\<lparr>bs_out := bs_out ?st @ []\<rparr>, ?pos + length (write_raw_block True []), True)"
      using decode_raw_block [of ?pos c True "[]" "content_checksum data ck" ?st] small st(3) True
      by (simp add: cc fits_def)
    then have "decode_blocks c ?st ?pos = Ok (?st, length (magic_bytes m @ hdr @ write_raw_block True []))"
      by (subst decode_blocks.simps) simp
    then show ?thesis
      using True st(2) by (intro decode_assembled [OF hdr _ _ _ _ mx, where st = ?st]) (simp_all add: STORE_WINDOW_LOG_def cc)
  next
    case False
    have "decode_blocks c ?st ?pos = Ok (?st\<lparr>bs_out := bs_out ?st @ data\<rparr>, ?pos + length (store_blocks data))"
      using decode_store_blocks [of ?pos c data "content_checksum data ck" ?st] small st False by (simp add: cc)
    then show ?thesis
      using False st(2)
      by (intro decode_assembled [OF hdr _ _ _ _ mx, where st = "?st\<lparr>bs_out := bs_out ?st @ data\<rparr>"])
        (simp_all add: STORE_WINDOW_LOG_def cc)
  qed
qed

section \<open>Properties\<close>

text \<open>Frame headers round-trip. For every content size, checksum flag, window log of the format and
  dictionary id, the parser reads the header that \<open>write_frame_header\<close> writes, field by field, and
  stops at its end whatever follows.\<close>

theorem frame_header_roundtrip:
  assumes "write_frame_header cs ck wl did = Ok hdr" and "wl \<le> 41" and "cs < 2 ^ 64"
  shows "parse_frame_header (hdr @ rest) = Ok \<lparr>fh_header_len = length hdr, fh_has_checksum = ck,
    fh_content_size = Some cs, fh_window_size = 2 ^ wl, fh_dictionary_id = did\<rparr>"
  by (rule frame_header_roundtrip_lemma [OF assms])

theorem frame_header_roundtrip_witness:
  "parse_frame_header ([0x81, 0x38, 5, 1, 1, 0, 0] @ [9]) = Ok \<lparr>fh_header_len = length [0x81, 0x38, 5, 1, 1, 0, 0 :: byte],
     fh_has_checksum = False, fh_content_size = Some 257, fh_window_size = 2 ^ 17, fh_dictionary_id = 5\<rparr>"
  by (rule frame_header_roundtrip) (simp_all add: write_frame_header_def le_bytes_numeral)

text \<open>Store mode is lossless. For every input a slice can hold, with or without magic and checksum,
  \<open>compress_store\<close> returns a frame, and the decoder returns exactly the input and consumes exactly
  the frame, under every ceiling that admits the input.\<close>

theorem compress_store_roundtrip:
  assumes "length data < 2 ^ 63" and "length data \<le> mx" and "mx \<le> usize_max"
  shows "post (compress_store data ck m)
    (\<lambda>c. decode_one c m mx = Ok \<lparr>df_data = data, df_consumed = length c\<rparr>) (\<lambda>_. False)"
proof -
  obtain c where "compress_store data ck m = Ok c" using compress_store_Ok by blast
  then show ?thesis
    using compress_store_decodes [OF _ assms] by (simp add: decode_one_def decode_one_with_dict_def)
qed

theorem compress_store_roundtrip_witness:
  "post (compress_store [7, 7, 7] True True)
    (\<lambda>c. decode_one c True 3 = Ok \<lparr>df_data = [7, 7, 7], df_consumed = length c\<rparr>) (\<lambda>_. False)"
  by (rule compress_store_roundtrip) (simp_all add: usize_max_def)

end
