(* ===== verification/Seek.thy ===== *)
theory Seek
  imports Store
begin

text \<open>
  \<^verbatim>\<open>src/seekable.rs\<close>: archives of independent frames with a seek table behind them. The writer and
  the parser of the table, the random access to one frame, and the parallel decoder. Offsets are sums
  of fewer than \<open>2 ^ 32\<close> sizes below \<open>2 ^ 32\<close>, so the \<open>u64\<close> (and \<open>u128\<close>) sums of the crate do not wrap
  and are numbers here. The worker threads of the parallel decoder own disjoint regions of the
  output and share nothing else that is written; they are modelled one after the other, in the order
  in which they are joined.
\<close>

unbundle bit_operations_syntax

section \<open>The seek table\<close>

definition SEEK_TABLE_SKIPPABLE_MAGIC :: u32 where
  "SEEK_TABLE_SKIPPABLE_MAGIC = 0x184D2A5E"

definition SEEKABLE_MAGIC :: u32 where
  "SEEKABLE_MAGIC = 0x8F92EAB1"

definition FOOTER_SIZE :: nat where
  "FOOTER_SIZE = 9"

definition SKIPPABLE_HEADER :: nat where
  "SKIPPABLE_HEADER = 8"

definition seek_size_err :: "string \<Rightarrow> nat \<Rightarrow> zstd_error" where
  "seek_size_err name n =
     Invalid ''seekable size'' (name @ '' size '' @ dec n @ '' bytes does not fit the u32 seek-table field'')"

definition u32_try_from :: "string \<Rightarrow> nat \<Rightarrow> nat result" where
  "u32_try_from name n = (if n < 2 ^ 32 then Ok n else Err (seek_size_err name n))"

definition write_seek_entry :: "bool \<Rightarrow> nat \<times> nat \<times> u32 \<Rightarrow> byte list" where
  "write_seek_entry checksum = (\<lambda>(cs, ds, ck).
     le_bytes 4 cs @ le_bytes 4 ds @ (if checksum then le_bytes 4 (unat ck) else []))"

definition write_seek_table :: "(nat \<times> nat \<times> u32) list \<Rightarrow> bool \<Rightarrow> byte list result" where
  "write_seek_table entries checksum =
     (let entry_size = (if checksum then 12 else 8);
          content = length entries * entry_size + FOOTER_SIZE in
      obind (u32_try_from ''seek table'' content) (\<lambda>content.
      obind (u32_try_from ''seek table frame count'' (length entries)) (\<lambda>num_frames.
      Ok (le_bytes 4 (unat SEEK_TABLE_SKIPPABLE_MAGIC) @ le_bytes 4 content
        @ concat (map (write_seek_entry checksum) entries)
        @ le_bytes 4 num_frames @ [if checksum then 0x80 else 0] @ le_bytes 4 (unat SEEKABLE_MAGIC)))))"

text \<open>\<open>data.chunks(frame_size)\<close>, and the frames of the chunks with the entries of the table. The frame
  compressor is an argument: any level of the encoder is meant.\<close>

function chunks :: "nat \<Rightarrow> byte list \<Rightarrow> byte list list" where
  "chunks n data = (if data = [] \<or> n = 0 then [] else take n data # chunks n (drop n data))"
  by pat_completeness auto
termination by (relation "measure (\<lambda>(n, data). length data)") auto

declare chunks.simps [simp del]



record seek_frame =
  sf_compressed_offset :: nat
  sf_compressed_size :: nat
  sf_decompressed_offset :: nat
  sf_decompressed_size :: nat
  sf_checksum :: "u32 option"

record seek_table =
  sk_frames :: "seek_frame list"

fun seek_entries :: "byte list \<Rightarrow> bool \<Rightarrow> nat \<Rightarrow> nat \<Rightarrow> nat \<Rightarrow> nat \<Rightarrow> (seek_frame list \<times> nat) result" where
  "seek_entries archive has_checksum 0 p comp_off decomp_off = Ok ([], comp_off)"
| "seek_entries archive has_checksum (Suc n) p comp_off decomp_off =
     obind (u32_at archive p) (\<lambda>cs.
     obind (u32_at archive (p + 4)) (\<lambda>ds.
     obind (if has_checksum then obind (u32_at archive (p + 8)) (\<lambda>c. Ok (Some c)) else Ok None) (\<lambda>ck.
     obind (seek_entries archive has_checksum n (p + (if has_checksum then 12 else 8))
              (comp_off + unat cs) (decomp_off + unat ds)) (\<lambda>(frames, end_off).
     Ok (\<lparr>sf_compressed_offset = comp_off, sf_compressed_size = unat cs, sf_decompressed_offset = decomp_off,
          sf_decompressed_size = unat ds, sf_checksum = ck\<rparr> # frames, end_off)))))"

definition seek_table_size :: "nat \<Rightarrow> nat \<Rightarrow> (nat \<times> nat) result" where
  "seek_table_size num_frames entry_size =
     (case Option.bind (checked_mul num_frames entry_size) (\<lambda>n. checked_add n FOOTER_SIZE) of
        None \<Rightarrow> Err (Invalid ''seek table'' ''frame count overflow'')
      | Some content \<Rightarrow>
          (case checked_add SKIPPABLE_HEADER content of
             None \<Rightarrow> Err (Invalid ''seek table'' ''table size overflow'')
           | Some frame_total \<Rightarrow> Ok (content, frame_total)))"

definition seek_parse :: "byte list \<Rightarrow> seek_table result" where
  "seek_parse archive =
     (let e = length archive in
      if e < SKIPPABLE_HEADER + FOOTER_SIZE then
        Err (Truncated ''seekable footer'' (SKIPPABLE_HEADER + FOOTER_SIZE - e))
      else
      obind (usub e 4) (\<lambda>p4. obind (u32_at archive p4) (\<lambda>magic.
      if magic \<noteq> SEEKABLE_MAGIC then Err (Invalid ''seekable magic'' ''footer magic mismatch'')
      else
      obind (usub e 5) (\<lambda>p5. obind (idx archive p5) (\<lambda>descriptor.
      let has_checksum = (descriptor AND 0x80 \<noteq> 0) in
      obind (usub e 9) (\<lambda>p9. obind (u32_at archive p9) (\<lambda>nf.
      let num_frames = unat nf in
      obind (seek_table_size num_frames (if has_checksum then 12 else 8)) (\<lambda>(content, frame_total).
      if e < frame_total then Err (Invalid ''seek table'' ''table larger than archive'')
      else
      let skip_start = e - frame_total in
      obind (u32_at archive skip_start) (\<lambda>magic.
      if magic \<noteq> SEEK_TABLE_SKIPPABLE_MAGIC then Err (Invalid ''seek table'' ''skippable magic mismatch'')
      else
      obind (u32_at archive (skip_start + 4)) (\<lambda>n.
      if unat n \<noteq> content then Err (Invalid ''seek table'' ''skippable size mismatch'')
      else
      obind (seek_entries archive has_checksum num_frames (skip_start + SKIPPABLE_HEADER) 0 0) (\<lambda>(frames, comp_off).
      if comp_off \<noteq> skip_start then Err (Invalid ''seek table'' ''frame sizes don't sum to the data region'')
      else Ok \<lparr>sk_frames = frames\<rparr>)))))))))))"

definition sk_num_frames :: "seek_table \<Rightarrow> nat" where
  "sk_num_frames t = length (sk_frames t)"

definition sk_decompressed_size :: "seek_table \<Rightarrow> nat" where
  "sk_decompressed_size t =
     (if sk_frames t = [] then 0
      else sf_decompressed_offset (last (sk_frames t)) + sf_decompressed_size (last (sk_frames t)))"

definition frame_for_offset :: "seek_table \<Rightarrow> nat \<Rightarrow> nat option" where
  "frame_for_offset t off =
     (if sk_decompressed_size t \<le> off then None
      else
        let i = partition_point (\<lambda>f. sf_decompressed_offset f + sf_decompressed_size f \<le> off) (sk_frames t) in
        if i < length (sk_frames t) then Some i else None)"

section \<open>One frame\<close>

definition check_seek_checksum :: "u32 option \<Rightarrow> byte list \<Rightarrow> unit result" where
  "check_seek_checksum checksum data =
     (case checksum of
        None \<Rightarrow> Ok ()
      | Some expected \<Rightarrow>
          let computed = ucast (xxh64 data 0 AND 0xFFFFFFFF) in
          if computed \<noteq> expected then Err (ChecksumMismatch expected computed) else Ok ())"

definition decompress_seekable_frame :: "byte list \<Rightarrow> seek_table \<Rightarrow> nat \<Rightarrow> byte list result" where
  "decompress_seekable_frame archive t index =
     (if length (sk_frames t) \<le> index then Err (Invalid ''seek frame index'' ''out of range'')
      else
        let f = sk_frames t ! index; start = sf_compressed_offset f in
        (case checked_add start (sf_compressed_size f) of
           None \<Rightarrow> Err (Invalid ''seekable frame range'' ''frame offset/size outside the archive'')
         | Some e \<Rightarrow>
             if length archive < e then Err (Truncated ''seekable frame'' (e - length archive))
             else
               let want = sf_decompressed_size f in
               obind (slice_range archive start e) (\<lambda>src.
               obind (decode_one src True want) (\<lambda>decoded.
               if length (df_data decoded) \<noteq> want then
                 Err (Invalid ''seekable frame size'' (''frame '' @ dec index @ '' decoded '' @ dec (length (df_data decoded))
                   @ '' bytes, seek table declares '' @ dec want))
               else
                 obind (check_seek_checksum (sf_checksum f) (df_data decoded)) (\<lambda>_.
                 Ok (df_data decoded))))))"

section \<open>Parallel decoding\<close>

definition MAX_DECODE_JOBS :: nat where
  "MAX_DECODE_JOBS = 256"

text \<open>\<open>region[off..end].copy_from_slice(data)\<close>\<close>

definition copy_into :: "byte list \<Rightarrow> nat \<Rightarrow> byte list \<Rightarrow> byte list result" where
  "copy_into region off data =
     (if off + length data \<le> length region then Ok (take off region @ data @ drop (off + length data) region)
      else Panic)"

fun decode_frame_group :: "byte list \<Rightarrow> seek_frame list \<Rightarrow> byte list \<Rightarrow> nat \<Rightarrow> byte list result" where
  "decode_frame_group archive [] region off = Ok region"
| "decode_frame_group archive (f # grp) region off =
     (let start = sf_compressed_offset f; bad_offset = Invalid ''seekable frame offset''
        ''compressed offset/size overflows or exceeds the archive'' in
      case checked_add start (sf_compressed_size f) of
        None \<Rightarrow> Err bad_offset
      | Some e \<Rightarrow>
          if length archive < e then Err (Truncated ''seekable frame'' (e - length archive))
          else
            let want = sf_decompressed_size f in
            obind (slice_range archive start e) (\<lambda>src.
            obind (decode_one src True want) (\<lambda>decoded.
            if length (df_data decoded) \<noteq> want then
              Err (Invalid ''seekable frame size'' ''decoded length does not match the seek table'')
            else
              obind (check_seek_checksum (sf_checksum f) (df_data decoded)) (\<lambda>_.
              (case checked_add off want of
                 None \<Rightarrow> Err bad_offset
               | Some dst_end \<Rightarrow>
                   obind (copy_into region off (df_data decoded)) (\<lambda>region.
                   decode_frame_group archive grp region dst_end))))))"

text \<open>The bounds of the groups: a group is closed once it holds its share of the bytes.\<close>

fun group_bounds :: "nat \<Rightarrow> nat \<Rightarrow> nat \<Rightarrow> nat \<Rightarrow> nat \<Rightarrow> nat list \<Rightarrow> seek_frame list \<Rightarrow> nat list result" where
  "group_bounds n_frames jobs tot i acc bounds [] = Ok bounds"
| "group_bounds n_frames jobs tot i acc bounds (f # fs) =
     (let acc = acc + sf_decompressed_size f in
      obind (usub jobs (length bounds)) (\<lambda>r.
      let remaining_groups = r + 1 in
      obind (usub n_frames (i + 1)) (\<lambda>frames_left.
      let close = length bounds < jobs \<and> remaining_groups - 1 \<le> frames_left \<and> tot * length bounds \<le> acc * jobs in
      group_bounds n_frames jobs tot (i + 1) acc (if close then bounds @ [i + 1] else bounds) fs)))"

definition split_at :: "byte list \<Rightarrow> nat \<Rightarrow> (byte list \<times> byte list) result" where
  "split_at xs n = (if n \<le> length xs then Ok (take n xs, drop n xs) else Panic)"

text \<open>The workers of the groups between consecutive bounds, with the regions they are handed.\<close>

fun spawn_workers ::
  "seek_frame list \<Rightarrow> nat list \<Rightarrow> byte list \<Rightarrow> ((seek_frame list \<times> byte list) list \<times> byte list) result" where
  "spawn_workers frames (a # b # bounds) rest =
     obind (slice_range frames a b) (\<lambda>grp.
     obind (split_at rest (sum_list (map sf_decompressed_size grp))) (\<lambda>(region, tail).
     obind (spawn_workers frames (b # bounds) tail) (\<lambda>(workers, rest).
     Ok ((grp, region) # workers, rest))))"
| "spawn_workers frames bounds rest = Ok ([], rest)"

text \<open>The workers are joined in order; the first error is returned, a panic of a worker is an error.\<close>

fun join_workers :: "byte list \<Rightarrow> (seek_frame list \<times> byte list) list \<Rightarrow> byte list result" where
  "join_workers archive [] = Ok []"
| "join_workers archive ((grp, region) # workers) =
     (case decode_frame_group archive grp region 0 of
        Ok region \<Rightarrow> obind (join_workers archive workers) (\<lambda>out. Ok (region @ out))
      | Err e \<Rightarrow> Err e
      | Panic \<Rightarrow> Err (Invalid ''seekable decode worker'' ''decode worker panicked'')
      | Hang \<Rightarrow> Hang)"

definition decompress_seekable_parallel_capped :: "byte list \<Rightarrow> seek_table \<Rightarrow> nat \<Rightarrow> nat \<Rightarrow> byte list result" where
  "decompress_seekable_parallel_capped archive t n_jobs max_output =
     (let frames = sk_frames t in
      if max_output < sk_decompressed_size t then Err (OutputTooLarge max_output)
      else
        let tot = sk_decompressed_size t; out = replicate tot 0 in
        if frames = [] then Ok out
        else
          let jobs = max 1 (min n_jobs (min (length frames) MAX_DECODE_JOBS)) in
          obind (group_bounds (length frames) jobs tot 0 0 [0] frames) (\<lambda>bounds.
          let bounds = bounds @ replicate (jobs + 1 - length bounds) (length frames) in
          obind (spawn_workers frames bounds out) (\<lambda>(workers, rest).
          obind (join_workers archive workers) (\<lambda>regions.
          Ok (regions @ rest)))))"

definition decompress_seekable_parallel :: "byte list \<Rightarrow> seek_table \<Rightarrow> nat \<Rightarrow> byte list result" where
  "decompress_seekable_parallel archive t n_jobs =
     (if usize_max < sk_decompressed_size t then Err (OutputTooLarge usize_max)
      else decompress_seekable_parallel_capped archive t n_jobs (sk_decompressed_size t))"

section \<open>The parsed table\<close>

text \<open>The frames follow each other without gaps, in the archive and in the output.\<close>

fun seek_chain :: "nat \<Rightarrow> nat \<Rightarrow> seek_frame list \<Rightarrow> bool" where
  "seek_chain c d [] = True"
| "seek_chain c d (f # fs) \<longleftrightarrow> sf_compressed_offset f = c \<and> sf_decompressed_offset f = d
     \<and> seek_chain (c + sf_compressed_size f) (d + sf_decompressed_size f) fs"

abbreviation sizes :: "seek_frame list \<Rightarrow> nat list" where
  "sizes fs \<equiv> map sf_decompressed_size fs"

lemma seek_entries_post:
  "p + n * (if ck then 12 else 8) \<le> length a \<Longrightarrow>
    post (seek_entries a ck n p c d) (\<lambda>(fs, e). seek_chain c d fs \<and> length fs = n
      \<and> e = c + sum_list (map sf_compressed_size fs)) (\<lambda>_. False)"
proof (induction n arbitrary: p c d)
  case (Suc n)
  show ?case
  proof (cases ck)
    case True
    then have ck: "ck = True" by simp
    show ?thesis using Suc.prems unfolding ck by (auto simp: wp intro!: post_mono [OF Suc.IH [unfolded ck]])
  next
    case False
    then have ck: "ck = False" by simp
    show ?thesis using Suc.prems unfolding ck by (auto simp: wp intro!: post_mono [OF Suc.IH [unfolded ck]])
  qed
qed simp

lemma seek_table_size_post:
  "post (seek_table_size n es) (\<lambda>(content, tot). content = n * es + 9 \<and> tot = 17 + n * es) (\<lambda>_. True)"
  by (auto simp: seek_table_size_def checked_add_def checked_mul_def FOOTER_SIZE_def SKIPPABLE_HEADER_def)

lemma seek_entries_then:
  assumes "s \<le> length a" and "s = length a - (17 + n * (if ck then 12 else 8))" and "17 + n * (if ck then 12 else 8) \<le> length a"
  shows "post (obind (seek_entries a ck n (s + SKIPPABLE_HEADER) 0 0) (\<lambda>(frames, comp_off).
      if comp_off \<noteq> s then Err e else Ok \<lparr>sk_frames = frames\<rparr>))
    (\<lambda>t. seek_chain 0 0 (sk_frames t) \<and> sum_list (map sf_compressed_size (sk_frames t)) \<le> length a) (\<lambda>_. True)"
proof -
  have "s + SKIPPABLE_HEADER + n * (if ck then 12 else 8) \<le> length a"
    using assms by (simp add: SKIPPABLE_HEADER_def)
  then show ?thesis using assms(1) by (auto simp: wp intro!: post_mono [OF seek_entries_post])
qed

lemma wp_u32: "i + 4 \<le> length bs \<Longrightarrow> (\<And>x. post (f x) P Q) \<Longrightarrow> post (obind (u32_at bs i) f) P Q"
  by (simp add: wp)

lemma wp_if: "(b \<Longrightarrow> post m P Q) \<Longrightarrow> (\<not> b \<Longrightarrow> post n P Q) \<Longrightarrow> post (if b then m else n) P Q"
  by simp

lemma wp_size:
  assumes "\<And>tot. tot = 17 + n * es \<Longrightarrow> post (g (n * es + 9) tot) P (\<lambda>_. True)"
  shows "post (obind (seek_table_size n es) (\<lambda>(content, tot). g content tot)) P (\<lambda>_. True)"
  unfolding post_obind by (rule post_mono [OF seek_table_size_post]) (use assms in auto)

lemma seek_parse_post:
  "post (seek_parse a) (\<lambda>t. seek_chain 0 0 (sk_frames t)
     \<and> sum_list (map sf_compressed_size (sk_frames t)) \<le> length a) (\<lambda>_. True)"
proof (cases "length a < SKIPPABLE_HEADER + FOOTER_SIZE")
  case False
  then have len: "4 \<le> length a" "5 \<le> length a" "9 \<le> length a" "length a - 5 < length a"
    by (simp_all add: SKIPPABLE_HEADER_def FOOTER_SIZE_def)
  show ?thesis
    using False unfolding seek_parse_def Let_def if_not_P [OF False] usub_Ok [OF len(1)] usub_Ok [OF len(2)]
      usub_Ok [OF len(3)] idx_Ok [OF len(4)] obind_simps
    by (intro wp_if wp_u32 wp_size seek_entries_then) (use len in simp_all)
qed (simp add: seek_parse_def)

lemma seek_chain_nth:
  "seek_chain c d fs \<Longrightarrow> i < length fs \<Longrightarrow>
    sf_decompressed_offset (fs ! i) = d + sum_list (take i (sizes fs))"
proof (induction fs arbitrary: c d i)
  case (Cons f fs)
  then show ?case by (cases i) auto
qed simp

lemma seek_chain_total:
  assumes "seek_chain c d fs" and "fs \<noteq> []"
  shows "sf_decompressed_offset (last fs) + sf_decompressed_size (last fs) = d + sum_list (sizes fs)"
  using assms
proof (induction fs arbitrary: c d)
  case (Cons f fs)
  then show ?case by (cases fs) (simp, force)
qed simp

lemma sk_decompressed_size_sum: "seek_chain 0 0 (sk_frames t) \<Longrightarrow> sk_decompressed_size t = sum_list (sizes (sk_frames t))"
  using seek_chain_total [of 0 0 "sk_frames t"] by (simp add: sk_decompressed_size_def)

section \<open>The frame of an offset\<close>

lemma length_takeWhile_eq:
  "i < length xs \<Longrightarrow> length (takeWhile P xs) = i \<longleftrightarrow> (\<forall>j<i. P (xs ! j)) \<and> \<not> P (xs ! i)"
proof (induction xs arbitrary: i)
  case (Cons x xs)
  then show ?case by (cases i) (auto simp: less_Suc_eq_0_disj)
qed simp

lemma sum_list_take_mono: "i \<le> j \<Longrightarrow> sum_list (take i xs) \<le> sum_list (take j (xs :: nat list))"
proof (induction j arbitrary: i xs)
  case (Suc j)
  then show ?case by (cases i; cases xs) auto
qed simp

lemma sum_list_take_Suc: "i < length xs \<Longrightarrow> sum_list (take (Suc i) xs) = sum_list (take i xs) + (xs ! i :: nat)"
  by (simp add: take_Suc_conv_app_nth)

lemma frame_for_offset_chain:
  assumes chain: "seek_chain 0 0 (sk_frames t)"
  shows "frame_for_offset t off = Some i \<longleftrightarrow> i < sk_num_frames t
    \<and> sf_decompressed_offset (sk_frames t ! i) \<le> off
    \<and> off < sf_decompressed_offset (sk_frames t ! i) + sf_decompressed_size (sk_frames t ! i)"
proof -
  define S where "S j = sum_list (take j (sizes (sk_frames t)))" for j
  let ?n = "length (sk_frames t)"
  have off: "sf_decompressed_offset (sk_frames t ! j) = S j"
    "sf_decompressed_offset (sk_frames t ! j) + sf_decompressed_size (sk_frames t ! j) = S (Suc j)" if "j < ?n" for j
    using seek_chain_nth [OF chain that] that by (simp_all add: S_def sum_list_take_Suc)
  have mono: "S j \<le> S k" if "j \<le> k" for j k using that by (simp add: S_def sum_list_take_mono)
  have tot: "sk_decompressed_size t = S ?n" using sk_decompressed_size_sum [OF chain] by (simp add: S_def)
  let ?P = "\<lambda>f. sf_decompressed_offset f + sf_decompressed_size f \<le> off"
  have found: "length (takeWhile ?P (sk_frames t)) = i \<longleftrightarrow> S i \<le> off \<and> off < S (Suc i)" if i: "i < ?n"
  proof -
    have "(\<forall>j<i. ?P (sk_frames t ! j)) \<longleftrightarrow> (\<forall>j<i. S (Suc j) \<le> off)" using off(2) i by simp
    also have "\<dots> \<longleftrightarrow> S i \<le> off"
    proof
      assume "\<forall>j<i. S (Suc j) \<le> off"
      then show "S i \<le> off" by (cases i) (auto simp: S_def)
    next
      assume "S i \<le> off"
      then show "\<forall>j<i. S (Suc j) \<le> off" using mono by (meson Suc_leI order_trans)
    qed
    finally show ?thesis using length_takeWhile_eq [OF i, of ?P] off(2) [OF i] by auto
  qed
  have "off < S ?n" if "i < ?n" "off < S (Suc i)" using that mono [of "Suc i" ?n] by simp
  then show ?thesis
    using found off by (auto simp: frame_for_offset_def partition_point_def tot sk_num_frames_def Let_def)
qed

section \<open>What a frame contributes\<close>

text \<open>The content of the frame \<open>f\<close>, as both the random access and the workers compute it.\<close>

definition seek_piece :: "byte list \<Rightarrow> seek_frame \<Rightarrow> byte list \<Rightarrow> bool" where
  "seek_piece archive f data \<longleftrightarrow>
     (let start = sf_compressed_offset f; e = start + sf_compressed_size f in
      e \<le> usize_max \<and> e \<le> length archive
      \<and> (\<exists>fr. decode_one (take (sf_compressed_size f) (drop start archive)) True (sf_decompressed_size f) = Ok fr
           \<and> df_data fr = data)
      \<and> length data = sf_decompressed_size f \<and> check_seek_checksum (sf_checksum f) data = Ok ())"

lemma decode_one_post: "post (decode_one src m mx) (\<lambda>fr. length (df_data fr) \<le> mx) (\<lambda>_. True)"
  using decode_frame_post [of None src m mx None]
  by (auto simp: decode_one_def decode_one_with_dict_def dict_opt_ok_def elim!: post_mono)

lemma check_seek_checksum_post: "post (check_seek_checksum c d) (\<lambda>_. check_seek_checksum c d = Ok ()) (\<lambda>_. True)"
  by (auto simp: check_seek_checksum_def Let_def split: option.split)

lemma decompress_seekable_frame_Ok:
  "decompress_seekable_frame a t i = Ok d \<longleftrightarrow> i < sk_num_frames t \<and> seek_piece a (sk_frames t ! i) d"
  by (auto simp: decompress_seekable_frame_def sk_num_frames_def seek_piece_def Let_def checked_add_def obind_eq_Ok
      split: if_splits)

lemma decompress_seekable_frame_returns: "returns (decompress_seekable_frame a t i)"
  by (auto simp: decompress_seekable_frame_def returns_post wp Let_def checked_add_def
      intro!: post_mono [OF decode_one_post] post_mono [OF check_seek_checksum_post])

section \<open>Workers\<close>

text \<open>Within its region a worker returns, and it succeeds exactly when every frame of its group yields
  its content, which it has then written one after the other.\<close>

lemma decode_frame_group_Cons:
  assumes "off + sf_decompressed_size f \<le> length region" and "length region \<le> usize_max"
  shows "decode_frame_group a (f # grp) region off = Ok r \<longleftrightarrow>
    (\<exists>d. seek_piece a f d \<and> decode_frame_group a grp (take off region @ d @ drop (off + length d) region) (off + length d) = Ok r)"
  using assms
  by (auto simp: Let_def checked_add_def obind_eq_Ok copy_into_def seek_piece_def split: if_splits)

lemma decode_frame_group_Ok:
  "off + sum_list (sizes grp) \<le> length region \<Longrightarrow> length region \<le> usize_max \<Longrightarrow>
    decode_frame_group a grp region off = Ok r \<longleftrightarrow>
      (\<exists>ds. list_all2 (seek_piece a) grp ds \<and> r = take off region @ concat ds @ drop (off + sum_list (sizes grp)) region)"
proof (induction grp arbitrary: region off)
  case (Cons f grp)
  have le: "off + sf_decompressed_size f \<le> length region" using Cons.prems by simp
  have len: "length d = sf_decompressed_size f" if "seek_piece a f d" for d
    using that by (simp add: seek_piece_def Let_def)
  have step: "decode_frame_group a grp (take off region @ d @ drop (off + length d) region) (off + length d) = Ok r \<longleftrightarrow>
      (\<exists>ds. list_all2 (seek_piece a) grp ds \<and> r = take off region @ d @ concat ds @ drop (off + sum_list (sizes (f # grp))) region)"
    if "seek_piece a f d" for d
    using Cons.prems len [OF that] by (subst Cons.IH) (auto simp: add_ac)
  have "decode_frame_group a (f # grp) region off = Ok r \<longleftrightarrow>
      (\<exists>d. seek_piece a f d \<and> (\<exists>ds. list_all2 (seek_piece a) grp ds
        \<and> r = take off region @ d @ concat ds @ drop (off + sum_list (sizes (f # grp))) region))"
    unfolding decode_frame_group_Cons [OF le Cons.prems(2)] using step by blast
  also have "\<dots> \<longleftrightarrow> (\<exists>ds. list_all2 (seek_piece a) (f # grp) ds
      \<and> r = take off region @ concat ds @ drop (off + sum_list (sizes (f # grp))) region)"
    by (simp only: list_all2_Cons1) fastforce
  finally show ?case .
qed auto

lemma decode_frame_group_returns:
  "off + sum_list (sizes grp) \<le> length region \<Longrightarrow> length region \<le> usize_max \<Longrightarrow>
    returns (decode_frame_group a grp region off)"
proof (induction grp arbitrary: region off)
  case (Cons f grp)
  then show ?case
    by (auto simp: Let_def checked_add_def returns_obind copy_into_def checked_returns check_seek_checksum_def
        post_returns [OF decode_one_post] split: option.split)
qed simp

text \<open>The workers of all groups together: each has a region of the size of its group.\<close>

definition worker_ok :: "nat \<Rightarrow> seek_frame list \<times> byte list \<Rightarrow> bool" where
  "worker_ok n w \<longleftrightarrow> length (snd w) = sum_list (sizes (fst w)) \<and> length (snd w) \<le> n"

lemma list_all2_concat_append:
  "(\<exists>ds ds'. list_all2 P xs ds \<and> list_all2 P ys ds' \<and> out = concat (ds @ ds'))
    \<longleftrightarrow> (\<exists>ds. list_all2 P (xs @ ys) ds \<and> out = concat ds)" (is "?l \<longleftrightarrow> ?r")
proof
  assume ?l
  then show ?r by (blast intro: list_all2_appendI)
next
  assume ?r
  then show ?l unfolding list_all2_append1 by blast
qed

lemma join_workers_Ok:
  assumes "\<forall>w \<in> set ws. worker_ok usize_max w"
  shows "join_workers a ws = Ok out \<longleftrightarrow>
    (\<exists>ds. list_all2 (seek_piece a) (concat (map fst ws)) ds \<and> out = concat ds)"
  using assms
proof (induction ws arbitrary: out)
  case (Cons w ws)
  obtain grp region where w: "w = (grp, region)" by (cases w)
  have region: "length region = sum_list (sizes grp)" "length region \<le> usize_max" using Cons.prems w by (auto simp: worker_ok_def)
  have group: "decode_frame_group a grp region 0 = Ok r \<longleftrightarrow> (\<exists>ds. list_all2 (seek_piece a) grp ds \<and> r = concat ds)" for r
    using decode_frame_group_Ok [of 0 grp region a r] region by simp
  have "join_workers a (w # ws) = Ok out \<longleftrightarrow>
      (\<exists>r out'. decode_frame_group a grp region 0 = Ok r \<and> join_workers a ws = Ok out' \<and> out = r @ out')"
    unfolding w by (cases "decode_frame_group a grp region 0") (auto simp: obind_eq_Ok)
  also have "\<dots> \<longleftrightarrow> (\<exists>ds ds'. list_all2 (seek_piece a) grp ds
      \<and> list_all2 (seek_piece a) (concat (map fst ws)) ds' \<and> out = concat (ds @ ds'))"
    using group Cons.IH Cons.prems by auto
  also have "\<dots> \<longleftrightarrow> (\<exists>ds. list_all2 (seek_piece a) (grp @ concat (map fst ws)) ds \<and> out = concat ds)"
    by (rule list_all2_concat_append)
  finally show ?case by (simp add: w)
qed auto

lemma join_workers_returns:
  "\<forall>w \<in> set ws. worker_ok usize_max w \<Longrightarrow>
    returns (join_workers a ws)"
proof (induction ws)
  case (Cons w ws)
  obtain grp region where w: "w = (grp, region)" by (cases w)
  then have "returns (decode_frame_group a grp region 0)" using Cons.prems by (intro decode_frame_group_returns) (auto simp: worker_ok_def)
  then show ?case using Cons w by (cases "decode_frame_group a grp region 0") (auto simp: returns_obind)
qed simp

section \<open>Groups\<close>

lemma sorted_le_last: "sorted xs \<Longrightarrow> x \<in> set xs \<Longrightarrow> x \<le> last xs"
  by (induction xs) (auto split: if_splits)

lemma group_bounds_post:
  assumes "sorted bounds" and "bounds \<noteq> []" and "hd bounds = 0" and "last bounds \<le> i" and "length bounds \<le> jobs"
    and "i + length fs = n"
  shows "post (group_bounds n jobs tot i acc bounds fs) (\<lambda>bs. sorted bs \<and> bs \<noteq> [] \<and> hd bs = 0 \<and> last bs \<le> n
    \<and> length bs \<le> jobs) (\<lambda>_. False)"
  using assms
proof (induction fs arbitrary: i acc bounds)
  case (Cons f fs)
  have snoc: "sorted (bounds @ [Suc i])"
    using Cons.prems(1,2,4) by (auto simp: sorted_append dest!: sorted_le_last)
  have bounds: "length bounds \<le> jobs" "Suc i \<le> n" using Cons.prems by simp_all
  have step: "post (group_bounds n jobs tot (Suc i) acc' bs fs) (\<lambda>bs. sorted bs \<and> bs \<noteq> [] \<and> hd bs = 0 \<and> last bs \<le> n
      \<and> length bs \<le> jobs) (\<lambda>_. False)" if "bs = bounds \<or> length bounds < jobs \<and> bs = bounds @ [Suc i]" for acc' bs
    using that Cons.prems snoc by (intro Cons.IH) auto
  show ?case using bounds by (auto simp: wp Let_def intro!: step)
qed simp

lemma sum_sizes_slice:
  "a \<le> b \<Longrightarrow> b \<le> c \<Longrightarrow> sum_list (sizes (take (c - a) (drop a fs)))
    = sum_list (sizes (take (b - a) (drop a fs))) + sum_list (sizes (take (c - b) (drop b fs)))"
proof -
  assume "a \<le> b" "b \<le> c"
  then have "take (c - a) (drop a fs) = take (b - a) (drop a fs) @ take (c - b) (drop b fs)"
    using take_add [of "b - a" "c - b" "drop a fs"] by simp
  then show ?thesis by simp
qed

lemma slice_split: "a \<le> b \<Longrightarrow> b \<le> c \<Longrightarrow> take (c - a) (drop a xs) = take (b - a) (drop a xs) @ take (c - b) (drop b xs)"
  using take_add [of "b - a" "c - b" "drop a xs"] by simp

text \<open>The workers cover a list of frames, each with a region of the size of its group, and use up the
  output they were given.\<close>

definition covers :: "seek_frame list \<Rightarrow> nat \<Rightarrow> (seek_frame list \<times> byte list) list \<times> byte list \<Rightarrow> bool" where
  "covers frames n r \<longleftrightarrow> snd r = [] \<and> concat (map fst (fst r)) = frames
     \<and> (\<forall>w \<in> set (fst r). worker_ok n w)"

lemma covers_Cons:
  "covers frames n (ws, rest) \<Longrightarrow> length region = sum_list (sizes grp) \<Longrightarrow> length region + n \<le> m \<Longrightarrow>
    covers (grp @ frames) m ((grp, region) # ws, rest)"
  by (fastforce simp: covers_def worker_ok_def)

lemma spawn_workers_post:
  assumes "sorted bounds" and "bounds \<noteq> []" and "last bounds \<le> length fs"
    and "length rest = sum_list (sizes (take (last bounds - hd bounds) (drop (hd bounds) fs)))"
  shows "post (spawn_workers fs bounds rest)
    (covers (take (last bounds - hd bounds) (drop (hd bounds) fs)) (length rest)) (\<lambda>_. False)"
  using assms
proof (induction fs bounds rest rule: spawn_workers.induct)
  case (1 fs a b bounds rest)
  define grp l where "grp = take (b - a) (drop a fs)" and "l = last (b # bounds)"
  have ab: "a \<le> b" "b \<le> l" "l \<le> length fs" using 1(2,4) sorted_le_last [of "b # bounds" b] by (auto simp: l_def)
  have split: "take (l - a) (drop a fs) = grp @ take (l - b) (drop b fs)" unfolding grp_def using ab by (intro slice_split)
  then have len: "length rest = sum_list (sizes grp) + sum_list (sizes (take (l - b) (drop b fs)))"
    using 1(5) by (simp add: l_def)
  have slice: "slice_range fs a b = (Ok grp :: seek_frame list result)"
    and tail: "split_at rest (sum_list (sizes grp)) = Ok (take (sum_list (sizes grp)) rest, drop (sum_list (sizes grp)) rest)"
    using ab len by (simp_all add: grp_def split_at_def)
  from 1(1) [OF slice tail refl] 1(2,4) len
  have "post (spawn_workers fs (b # bounds) (drop (sum_list (sizes grp)) rest))
      (covers (take (l - b) (drop b fs)) (length rest - sum_list (sizes grp))) (\<lambda>_. False)"
    by (simp add: l_def)
  then have "post (spawn_workers fs (a # b # bounds) rest) (covers (grp @ take (l - b) (drop b fs)) (length rest)) (\<lambda>_. False)"
    unfolding spawn_workers.simps slice tail obind_simps prod.case post_obind
    by (rule post_mono) (use len in \<open>auto intro!: covers_Cons\<close>)
  moreover have "last (a # b # bounds) = l" by (simp add: l_def)
  ultimately show ?case by (simp only: split list.sel)
qed (auto simp: covers_def)

lemma parallel_post:
  assumes chain: "seek_chain 0 0 (sk_frames t)" and "mx \<le> usize_max" and le: "sk_decompressed_size t \<le> mx"
    and jobs: "jobs = max 1 (min n_jobs (min (length (sk_frames t)) MAX_DECODE_JOBS))"
  shows "post (obind (group_bounds (length (sk_frames t)) jobs (sk_decompressed_size t) 0 0 [0] (sk_frames t)) (\<lambda>bounds.
      spawn_workers (sk_frames t) (bounds @ replicate (jobs + 1 - length bounds) (length (sk_frames t)))
        (replicate (sk_decompressed_size t) 0)))
    (covers (sk_frames t) (sk_decompressed_size t)) (\<lambda>_. False)"
proof -
  let ?n = "length (sk_frames t)"
  have spawn: "post (spawn_workers (sk_frames t) (bs @ replicate (jobs + 1 - length bs) ?n) (replicate (sk_decompressed_size t) 0))
      (covers (sk_frames t) (sk_decompressed_size t)) (\<lambda>_. False)"
    if bs: "sorted bs" "bs \<noteq> []" "hd bs = 0" "last bs \<le> ?n" "length bs \<le> jobs" for bs
  proof -
    let ?bs = "bs @ replicate (jobs + 1 - length bs) ?n"
    have "x \<le> ?n" if "x \<in> set bs" for x using sorted_le_last [OF bs(1) that] bs(4) by simp
    then have "sorted ?bs" using bs(1) by (auto simp: sorted_append)
    moreover have bs': "last ?bs = ?n" "hd ?bs = 0" "?bs \<noteq> []" using bs(2,3,5) by (auto simp: last_append)
    ultimately show ?thesis
      using spawn_workers_post [of ?bs "sk_frames t" "replicate (sk_decompressed_size t) 0"] sk_decompressed_size_sum [OF chain]
      unfolding bs' by simp
  qed
  show ?thesis
    unfolding post_obind
  proof (rule post_mono [OF group_bounds_post [where i = 0]])
    show "length [0 :: nat] \<le> jobs" using jobs by simp
  next
    fix bs
    assume "sorted bs \<and> bs \<noteq> [] \<and> hd bs = 0 \<and> last bs \<le> ?n \<and> length bs \<le> jobs"
    then show "post (spawn_workers (sk_frames t) (bs @ replicate (jobs + 1 - length bs) ?n) (replicate (sk_decompressed_size t) 0))
      (covers (sk_frames t) (sk_decompressed_size t)) (\<lambda>_. False)"
      by (elim conjE) (rule spawn)
  qed simp_all
qed

lemma list_all2_pieces:
  "list_all2 (seek_piece a) (sk_frames t) ds \<longleftrightarrow> map (decompress_seekable_frame a t) [0..<sk_num_frames t] = map Ok ds"
proof -
  have eq: "map f [0..<n] = map Ok xs \<longleftrightarrow> n = length xs \<and> (\<forall>i. i < n \<longrightarrow> f i = Ok (xs ! i))" for f n and xs :: "byte list list"
    by (auto simp: list_eq_iff_nth_eq)
  have "list_all2 (seek_piece a) (sk_frames t) ds \<longleftrightarrow>
      sk_num_frames t = length ds \<and> (\<forall>i. i < sk_num_frames t \<longrightarrow> seek_piece a (sk_frames t ! i) (ds ! i))"
    unfolding list_all2_conv_all_nth sk_num_frames_def ..
  then show ?thesis unfolding eq decompress_seekable_frame_Ok by metis
qed

lemma seek_parallel_Ok:
  assumes chain: "seek_chain 0 0 (sk_frames t)" and "mx \<le> usize_max"
  shows "decompress_seekable_parallel_capped a t n_jobs mx = Ok out \<longleftrightarrow> sk_decompressed_size t \<le> mx
    \<and> (\<exists>ds. list_all2 (seek_piece a) (sk_frames t) ds \<and> out = concat ds)"
    and "returns (decompress_seekable_parallel_capped a t n_jobs mx)"
proof -
  define jobs where "jobs = max 1 (min n_jobs (min (length (sk_frames t)) MAX_DECODE_JOBS))"
  define workers where "workers = obind (group_bounds (length (sk_frames t)) jobs (sk_decompressed_size t) 0 0 [0] (sk_frames t))
    (\<lambda>bounds. spawn_workers (sk_frames t) (bounds @ replicate (jobs + 1 - length bounds) (length (sk_frames t)))
      (replicate (sk_decompressed_size t) 0))"
  have def: "decompress_seekable_parallel_capped a t n_jobs mx =
      (if mx < sk_decompressed_size t then Err (OutputTooLarge mx)
       else if sk_frames t = [] then Ok (replicate (sk_decompressed_size t) 0)
       else obind workers (\<lambda>(workers, rest). obind (join_workers a workers) (\<lambda>regions. Ok (regions @ rest))))"
    by (simp add: decompress_seekable_parallel_capped_def workers_def jobs_def Let_def obind_assoc)
  have post: "post workers (covers (sk_frames t) (sk_decompressed_size t)) (\<lambda>_. False)" if "\<not> mx < sk_decompressed_size t"
    unfolding workers_def using that by (intro parallel_post [OF assms _ jobs_def]) simp
  have run: "(decompress_seekable_parallel_capped a t n_jobs mx = Ok out \<longleftrightarrow>
        (\<exists>ds. list_all2 (seek_piece a) (sk_frames t) ds \<and> out = concat ds))
      \<and> returns (decompress_seekable_parallel_capped a t n_jobs mx)"
    if le: "\<not> mx < sk_decompressed_size t" and ne: "sk_frames t \<noteq> []"
  proof -
    obtain ws rest where ws: "workers = Ok (ws, rest)" and cov: "covers (sk_frames t) (sk_decompressed_size t) (ws, rest)"
      using post [OF le] by (cases workers) auto
    have ok: "\<forall>w \<in> set ws. worker_ok usize_max w" "concat (map fst ws) = sk_frames t" "rest = []"
      using cov le assms(2) by (auto simp: covers_def worker_ok_def)
    show ?thesis
      using def ws le ne ok join_workers_Ok [OF ok(1), of a out] join_workers_returns [OF ok(1), of a]
      by (simp add: obind_eq_Ok returns_obind)
  qed
  show "decompress_seekable_parallel_capped a t n_jobs mx = Ok out \<longleftrightarrow> sk_decompressed_size t \<le> mx
      \<and> (\<exists>ds. list_all2 (seek_piece a) (sk_frames t) ds \<and> out = concat ds)"
  proof (cases "sk_frames t = []")
    case True
    then show ?thesis using sk_decompressed_size_sum [OF chain] by (auto simp: def)
  next
    case False
    then show ?thesis using run by (cases "mx < sk_decompressed_size t") (auto simp: def)
  qed
  show "returns (decompress_seekable_parallel_capped a t n_jobs mx)"
  proof (cases "sk_frames t = []")
    case True
    then show ?thesis by (auto simp: def)
  next
    case False
    then show ?thesis using run by (cases "mx < sk_decompressed_size t") (auto simp: def)
  qed
qed


section \<open>The written table is read back\<close>

text \<open>The index that a list of entries stands for.\<close>

fun seek_index :: "bool \<Rightarrow> nat \<Rightarrow> nat \<Rightarrow> (nat \<times> nat \<times> u32) list \<Rightarrow> seek_frame list" where
  "seek_index ck c d [] = []"
| "seek_index ck c d ((cs, ds, h) # es) =
     \<lparr>sf_compressed_offset = c, sf_compressed_size = cs, sf_decompressed_offset = d, sf_decompressed_size = ds,
      sf_checksum = (if ck then Some h else None)\<rparr> # seek_index ck (c + cs) (d + ds) es"

lemma u32_at_written:
  assumes "drop p src = le_bytes 4 n @ rest" and "n < 2 ^ 32"
  shows "u32_at src p = Ok (word_of_nat n)"
proof -
  have "p + 4 \<le> length src" using arg_cong [OF assms(1), of length] by simp
  moreover have "take 4 (drop p src) = le_bytes 4 n" using assms(1) by simp
  ultimately show ?thesis using assms(2) by (simp add: u32_at_def from_le_bytes_def le_simps)
qed

lemma u32_at_word:
  assumes "drop p src = le_bytes 4 (unat w) @ rest"
  shows "u32_at src p = Ok w"
  using u32_at_written [OF assms unat_u32_less] by simp

lemma length_seek_entry [simp]: "length (write_seek_entry ck e) = (if ck then 12 else 8)"
  by (cases e) (simp add: write_seek_entry_def)

lemma length_seek_entries [simp]:
  "length (concat (map (write_seek_entry ck) es)) = length es * (if ck then 12 else 8)"
  by (induction es) auto

lemma seek_entries_written:
  "drop p src = concat (map (write_seek_entry ck) es) @ rest \<Longrightarrow>
    (\<forall>(cs, ds, h) \<in> set es. cs < 2 ^ 32 \<and> ds < 2 ^ 32) \<Longrightarrow>
    seek_entries src ck (length es) p c d = Ok (seek_index ck c d es, c + sum_list (map fst es))"
proof (induction es arbitrary: p c d)
  case (Cons e es)
  obtain cs ds h where e: "e = (cs, ds, h)" by (cases e)
  have small: "cs < 2 ^ 32" "ds < 2 ^ 32" using Cons.prems(2) e by auto
  let ?more = "concat (map (write_seek_entry ck) es) @ rest"
  have at: "drop p src = le_bytes 4 cs @ le_bytes 4 ds @ (if ck then le_bytes 4 (unat h) else []) @ ?more"
    using Cons.prems(1) e by (simp add: write_seek_entry_def)
  have p4: "drop (p + 4) src = le_bytes 4 ds @ (if ck then le_bytes 4 (unat h) else []) @ ?more"
    using drop_behind [OF at] by simp
  have p8: "drop (p + 8) src = (if ck then le_bytes 4 (unat h) else []) @ ?more"
    using drop_behind [OF p4] by (simp add: add.assoc)
  have nxt: "drop (p + (if ck then 12 else 8)) src = ?more"
    using drop_behind [OF p8] p8 by (auto simp: add.assoc split: if_splits)
  have "u32_at src p = Ok (word_of_nat cs)" "u32_at src (p + 4) = Ok (word_of_nat ds)"
    "ck \<Longrightarrow> u32_at src (p + 8) = Ok h"
    using u32_at_written [OF at small(1)] u32_at_written [OF p4 small(2)] u32_at_word [of "p + 8" src h ?more] p8 by simp_all
  moreover have "seek_entries src ck (length es) (p + (if ck then 12 else 8)) (c + cs) (d + ds)
      = Ok (seek_index ck (c + cs) (d + ds) es, c + cs + sum_list (map fst es))"
    using Cons.IH [OF nxt] Cons.prems(2) by simp
  ultimately show ?case using small by (simp add: e unat_u32_of_nat)
qed simp

lemma write_seek_table_Ok:
  assumes "write_seek_table es ck = Ok tbl"
  shows "tbl = le_bytes 4 (unat SEEK_TABLE_SKIPPABLE_MAGIC) @ le_bytes 4 (length es * (if ck then 12 else 8) + 9)
      @ concat (map (write_seek_entry ck) es)
      @ le_bytes 4 (length es) @ [if ck then 0x80 else 0] @ le_bytes 4 (unat SEEKABLE_MAGIC)"
    and "length es * (if ck then 12 else 8) + 9 < 2 ^ 32" and "length es < 2 ^ 32"
    and "length tbl = 17 + length es * (if ck then 12 else 8)"
  using assms by (auto simp: write_seek_table_def u32_try_from_def obind_eq_Ok FOOTER_SIZE_def Let_def split: if_splits)

lemma seek_parse_written:
  assumes tbl: "write_seek_table es ck = Ok tbl"
    and small: "\<forall>(cs, ds, h) \<in> set es. cs < 2 ^ 32 \<and> ds < 2 ^ 32"
    and sum: "sum_list (map fst es) = length pre"
  shows "seek_parse (pre @ tbl) = Ok \<lparr>sk_frames = seek_index ck 0 0 es\<rparr>"
proof -
  define n where "n = length es * (if ck then 12 else 8 :: nat)"
  define a where "a = pre @ tbl"
  note w = write_seek_table_Ok [OF tbl, folded n_def]
  have len: "length a = length pre + 17 + n" by (simp add: a_def w(4))
  let ?foot = "le_bytes 4 (length es) @ [if ck then 0x80 else 0] @ le_bytes 4 (unat SEEKABLE_MAGIC)"
  have d0: "drop (length pre) a = le_bytes 4 (unat SEEK_TABLE_SKIPPABLE_MAGIC) @ le_bytes 4 (n + 9)
      @ concat (map (write_seek_entry ck) es) @ ?foot"
    by (simp add: a_def w(1))
  have d4: "drop (length pre + 4) a = le_bytes 4 (n + 9) @ concat (map (write_seek_entry ck) es) @ ?foot"
    using drop_behind [OF d0] by simp
  have d8: "drop (length pre + 8) a = concat (map (write_seek_entry ck) es) @ ?foot"
    using drop_behind [OF d4] by (simp add: add.assoc)
  have f: "drop (length pre + 8 + n) a = ?foot" using drop_behind [OF d8] by (simp add: n_def)
  have f4: "drop (length pre + 12 + n) a = [if ck then 0x80 else 0] @ le_bytes 4 (unat SEEKABLE_MAGIC)"
    using drop_behind [OF f] by (simp add: add_ac)
  have f5: "drop (length pre + 13 + n) a = le_bytes 4 (unat SEEKABLE_MAGIC) @ []"
    using drop_behind [OF f4] by (simp add: add_ac)
  have magic: "u32_at a (length pre + 13 + n) = Ok SEEKABLE_MAGIC" by (rule u32_at_word [OF f5])
  have desc: "a ! (length pre + 12 + n) = (if ck then 0x80 else 0)"
    using nth_via_drop [of "length pre + 12 + n" a] f4 by simp
  have frames: "u32_at a (length pre + 8 + n) = Ok (word_of_nat (length es))" by (rule u32_at_written [OF f w(3)])
  have skip: "u32_at a (length pre) = Ok SEEK_TABLE_SKIPPABLE_MAGIC" by (rule u32_at_word [OF d0])
  have content: "u32_at a (length pre + 4) = Ok (word_of_nat (n + 9))" by (rule u32_at_written [OF d4 w(2)])
  have size: "seek_table_size (length es) (if ck then 12 else 8) = Ok (n + 9, n + 17)"
    using w(2) by (auto simp: seek_table_size_def checked_mul_def checked_add_def usize_max_def FOOTER_SIZE_def
        SKIPPABLE_HEADER_def n_def split: if_splits)
  have entries: "seek_entries a ck (length es) (length pre + 8) 0 0 = Ok (seek_index ck 0 0 es, length pre)"
    using seek_entries_written [OF d8 small, of 0 0] sum by simp
  have bit: "((if ck then 0x80 else 0) AND 0x80 \<noteq> (0 :: byte)) = ck" by simp
  have at: "usub (length a) 4 = Ok (length pre + 13 + n)" "usub (length a) 5 = Ok (length pre + 12 + n)"
    "usub (length a) 9 = Ok (length pre + 8 + n)" "\<not> length a < SKIPPABLE_HEADER + FOOTER_SIZE"
    "idx a (length pre + 12 + n) = Ok (if ck then 0x80 else 0)" "\<not> length a < n + 17" "length a - (n + 17) = length pre"
    by (simp_all add: len SKIPPABLE_HEADER_def FOOTER_SIZE_def desc)
  have num: "unat (word_of_nat (length es) :: u32) = length es" "unat (word_of_nat (n + 9) :: u32) = n + 9"
    using w(2,3) by (simp_all add: unat_u32_of_nat del: of_nat_add)
  have "seek_parse a = Ok \<lparr>sk_frames = seek_index ck 0 0 es\<rparr>"
    unfolding seek_parse_def Let_def at if_False magic obind_simps frames num bit size prod.case skip content
    using at(4,6) by (simp add: entries SKIPPABLE_HEADER_def)
  then show ?thesis by (simp add: a_def)
qed

section \<open>Archives\<close>






lemma length_chunk: "c \<in> set (chunks n data) \<Longrightarrow> length c \<le> n"
proof (induction n data rule: chunks.induct)
  case (1 n data)
  then show ?case by (subst (asm) (2) chunks.simps) (auto split: if_splits)
qed


section \<open>Properties\<close>

text \<open>C28: the seek-table parser is total. On any input it returns, with a table whose frames follow
  each other without gap from the start of the archive and of the output and lie inside the
  archive, or with an error; it never panics.\<close>

theorem seek_parse_safe:
  "post (seek_parse archive) (\<lambda>t. seek_chain 0 0 (sk_frames t)
     \<and> sum_list (map sf_compressed_size (sk_frames t)) \<le> length archive) (\<lambda>_. True)"
  by (rule seek_parse_post)

text \<open>C29: the seek index. In a parsed table, \<open>frame_for_offset\<close> finds the frame \<open>i\<close> exactly when the
  offset lies in the range of the output that frame \<open>i\<close> produces (so empty frames are skipped),
  and nothing at or behind the end.\<close>

theorem frame_for_offset_correct:
  assumes "seek_parse archive = Ok t"
  shows "frame_for_offset t off = Some i \<longleftrightarrow> i < sk_num_frames t
    \<and> sf_decompressed_offset (sk_frames t ! i) \<le> off
    \<and> off < sf_decompressed_offset (sk_frames t ! i) + sf_decompressed_size (sk_frames t ! i)"
  using frame_for_offset_chain post_OkD [OF seek_parse_post assms] by blast

text \<open>C30: parallel decoding is serial decoding. For every number of jobs the parallel decoder returns,
  without a panic of a worker or of the partition, and it succeeds with \<open>out\<close> exactly when the
  table stays below the ceiling, every frame decodes on its own, and \<open>out\<close> is their contents in
  order.\<close>

theorem seekable_parallel_serial:
  assumes "seek_parse archive = Ok t" and "mx \<le> usize_max"
  shows "returns (decompress_seekable_parallel_capped archive t n_jobs mx)
    \<and> (decompress_seekable_parallel_capped archive t n_jobs mx = Ok out \<longleftrightarrow> sk_decompressed_size t \<le> mx
        \<and> (\<exists>ds. map (decompress_seekable_frame archive t) [0..<sk_num_frames t] = map Ok ds \<and> out = concat ds))"
  using seek_parallel_Ok [OF _ assms(2)] post_OkD [OF seek_parse_post assms(1)] by (simp add: list_all2_pieces)


text \<open>An archive of two stored frames, for the instances.\<close>

definition example_frames :: "byte list" where
  "example_frames =
     [0x28, 0xB5, 0x2F, 0xFD, 0x80, 0x38, 2, 0, 0, 0, 0x11, 0, 0, 1, 2,
      0x28, 0xB5, 0x2F, 0xFD, 0x80, 0x38, 1, 0, 0, 0, 0x0B, 0, 0, 3]"

definition example_entries :: "(nat \<times> nat \<times> u32) list" where
  "example_entries = [(15, 2, 0), (14, 1, 0)]"

lemma example_table: "write_seek_table example_entries False = Ok (the_ok (write_seek_table example_entries False))"
  "length (the_ok (write_seek_table example_entries False)) = 33"
  by (simp_all add: write_seek_table_def u32_try_from_def example_entries_def FOOTER_SIZE_def)

lemma example_parse:
  "seek_parse (example_frames @ the_ok (write_seek_table example_entries False))
     = Ok \<lparr>sk_frames = seek_index False 0 0 example_entries\<rparr>"
  by (rule seek_parse_written [OF example_table(1)]) (simp_all add: example_entries_def example_frames_def)


theorem frame_for_offset_correct_witness:
  "frame_for_offset \<lparr>sk_frames = seek_index False 0 0 example_entries\<rparr> 2 = Some 1 \<longleftrightarrow>
     1 < sk_num_frames \<lparr>sk_frames = seek_index False 0 0 example_entries\<rparr>
     \<and> sf_decompressed_offset (sk_frames \<lparr>sk_frames = seek_index False 0 0 example_entries\<rparr> ! 1) \<le> 2
     \<and> 2 < sf_decompressed_offset (sk_frames \<lparr>sk_frames = seek_index False 0 0 example_entries\<rparr> ! 1)
         + sf_decompressed_size (sk_frames \<lparr>sk_frames = seek_index False 0 0 example_entries\<rparr> ! 1)"
  by (rule frame_for_offset_correct [OF example_parse])

theorem seekable_parallel_serial_witness:
  "returns (decompress_seekable_parallel_capped (example_frames @ the_ok (write_seek_table example_entries False))
       \<lparr>sk_frames = seek_index False 0 0 example_entries\<rparr> 2 3)
    \<and> (decompress_seekable_parallel_capped (example_frames @ the_ok (write_seek_table example_entries False))
         \<lparr>sk_frames = seek_index False 0 0 example_entries\<rparr> 2 3 = Ok [1, 2, 3] \<longleftrightarrow>
       sk_decompressed_size \<lparr>sk_frames = seek_index False 0 0 example_entries\<rparr> \<le> 3
       \<and> (\<exists>ds. map (decompress_seekable_frame (example_frames @ the_ok (write_seek_table example_entries False))
              \<lparr>sk_frames = seek_index False 0 0 example_entries\<rparr>)
              [0..<sk_num_frames \<lparr>sk_frames = seek_index False 0 0 example_entries\<rparr>] = map Ok ds \<and> [1, 2, 3] = concat ds))"
  by (rule seekable_parallel_serial [OF example_parse]) (simp add: usize_max_def)


end
