(* ===== verification/Params.thy ===== *)
theory Params
  imports Store
begin

text \<open>
  \<^verbatim>\<open>src/encode/params.rs\<close> and \<^verbatim>\<open>src/encode/options.rs\<close>: the compression parameters of a level, their
  adjustment to the size of the input, and the options a caller can override. The invariant that
  matters to the decoder is \<open>window_covers\<close>: a block of the encoder fits the block size limit that
  the advertised window implies.
\<close>

unbundle bit_operations_syntax

section \<open>Strategies\<close>

datatype strategy = Fast | Dfast | Greedy | Lazy | Lazy2 | BtLazy2 | Btopt | Btultra | Btultra2

fun strategy_index :: "strategy \<Rightarrow> nat" where
  "strategy_index Fast = 0"
| "strategy_index Dfast = 1"
| "strategy_index Greedy = 2"
| "strategy_index Lazy = 3"
| "strategy_index Lazy2 = 4"
| "strategy_index BtLazy2 = 5"
| "strategy_index Btopt = 6"
| "strategy_index Btultra = 7"
| "strategy_index Btultra2 = 8"

lemma strategy_index_inject [simp]: "strategy_index s = strategy_index t \<longleftrightarrow> s = t"
  by (cases s; cases t; simp)

text \<open>The derived order of the enumeration.\<close>

instantiation strategy :: linorder
begin

definition less_eq_strategy :: "strategy \<Rightarrow> strategy \<Rightarrow> bool" where
  "less_eq_strategy s t \<longleftrightarrow> strategy_index s \<le> strategy_index t"

definition less_strategy :: "strategy \<Rightarrow> strategy \<Rightarrow> bool" where
  "less_strategy s t \<longleftrightarrow> strategy_index s < strategy_index t"

instance
  by standard (auto simp: less_eq_strategy_def less_strategy_def)

end

definition BLOCK_SPLIT_DEPTH :: nat where
  "BLOCK_SPLIT_DEPTH = 4"

definition split_depth_for :: "strategy \<Rightarrow> nat" where
  "split_depth_for strategy =
     (if Btopt \<le> strategy then BLOCK_SPLIT_DEPTH else if BtLazy2 \<le> strategy then 2 else 0)"

section \<open>Parameters of a level\<close>

record cparams =
  cp_window_log :: nat
  cp_hash_log :: nat
  cp_chain_log :: nat
  cp_search_log :: nat
  cp_min_match :: nat
  cp_target_length :: nat
  cp_strategy :: strategy

definition MIN_WINDOW_LOG :: nat where
  "MIN_WINDOW_LOG = 10"

definition MAX_WINDOW_LOG :: nat where
  "MAX_WINDOW_LOG = 23"

definition LDM_MAX_WINDOW_LOG :: nat where
  "LDM_MAX_WINDOW_LOG = 27"

definition LEVELS :: "cparams list" where
  "LEVELS =
    [\<lparr>cp_window_log = 19, cp_hash_log = 14, cp_chain_log = 13, cp_search_log = 1, cp_min_match = 7, cp_target_length = 0, cp_strategy = Fast\<rparr>,
     \<lparr>cp_window_log = 19, cp_hash_log = 14, cp_chain_log = 13, cp_search_log = 1, cp_min_match = 7, cp_target_length = 0, cp_strategy = Fast\<rparr>,
     \<lparr>cp_window_log = 20, cp_hash_log = 16, cp_chain_log = 15, cp_search_log = 1, cp_min_match = 6, cp_target_length = 0, cp_strategy = Fast\<rparr>,
     \<lparr>cp_window_log = 21, cp_hash_log = 17, cp_chain_log = 16, cp_search_log = 1, cp_min_match = 5, cp_target_length = 0, cp_strategy = Dfast\<rparr>,
     \<lparr>cp_window_log = 21, cp_hash_log = 18, cp_chain_log = 18, cp_search_log = 1, cp_min_match = 5, cp_target_length = 0, cp_strategy = Dfast\<rparr>,
     \<lparr>cp_window_log = 21, cp_hash_log = 19, cp_chain_log = 18, cp_search_log = 2, cp_min_match = 5, cp_target_length = 2, cp_strategy = Greedy\<rparr>,
     \<lparr>cp_window_log = 21, cp_hash_log = 19, cp_chain_log = 19, cp_search_log = 3, cp_min_match = 5, cp_target_length = 4, cp_strategy = Lazy\<rparr>,
     \<lparr>cp_window_log = 21, cp_hash_log = 20, cp_chain_log = 19, cp_search_log = 3, cp_min_match = 5, cp_target_length = 8, cp_strategy = Lazy2\<rparr>,
     \<lparr>cp_window_log = 21, cp_hash_log = 20, cp_chain_log = 20, cp_search_log = 3, cp_min_match = 5, cp_target_length = 16, cp_strategy = Lazy2\<rparr>,
     \<lparr>cp_window_log = 21, cp_hash_log = 21, cp_chain_log = 20, cp_search_log = 4, cp_min_match = 5, cp_target_length = 16, cp_strategy = Lazy2\<rparr>,
     \<lparr>cp_window_log = 22, cp_hash_log = 22, cp_chain_log = 21, cp_search_log = 4, cp_min_match = 5, cp_target_length = 16, cp_strategy = Lazy2\<rparr>,
     \<lparr>cp_window_log = 22, cp_hash_log = 22, cp_chain_log = 21, cp_search_log = 5, cp_min_match = 5, cp_target_length = 16, cp_strategy = Lazy2\<rparr>,
     \<lparr>cp_window_log = 22, cp_hash_log = 23, cp_chain_log = 22, cp_search_log = 5, cp_min_match = 5, cp_target_length = 16, cp_strategy = Lazy2\<rparr>,
     \<lparr>cp_window_log = 22, cp_hash_log = 22, cp_chain_log = 22, cp_search_log = 4, cp_min_match = 5, cp_target_length = 32, cp_strategy = BtLazy2\<rparr>,
     \<lparr>cp_window_log = 22, cp_hash_log = 23, cp_chain_log = 22, cp_search_log = 5, cp_min_match = 5, cp_target_length = 32, cp_strategy = BtLazy2\<rparr>,
     \<lparr>cp_window_log = 22, cp_hash_log = 23, cp_chain_log = 22, cp_search_log = 6, cp_min_match = 5, cp_target_length = 32, cp_strategy = BtLazy2\<rparr>,
     \<lparr>cp_window_log = 22, cp_hash_log = 23, cp_chain_log = 23, cp_search_log = 6, cp_min_match = 5, cp_target_length = 48, cp_strategy = Btopt\<rparr>,
     \<lparr>cp_window_log = 23, cp_hash_log = 23, cp_chain_log = 23, cp_search_log = 7, cp_min_match = 5, cp_target_length = 64, cp_strategy = Btopt\<rparr>,
     \<lparr>cp_window_log = 23, cp_hash_log = 23, cp_chain_log = 23, cp_search_log = 7, cp_min_match = 5, cp_target_length = 64, cp_strategy = Btultra\<rparr>,
     \<lparr>cp_window_log = 23, cp_hash_log = 24, cp_chain_log = 24, cp_search_log = 8, cp_min_match = 5, cp_target_length = 64, cp_strategy = Btultra2\<rparr>,
     \<lparr>cp_window_log = 25, cp_hash_log = 25, cp_chain_log = 25, cp_search_log = 9, cp_min_match = 5, cp_target_length = 64, cp_strategy = Btultra2\<rparr>,
     \<lparr>cp_window_log = 26, cp_hash_log = 26, cp_chain_log = 26, cp_search_log = 10, cp_min_match = 5, cp_target_length = 64, cp_strategy = Btultra2\<rparr>,
     \<lparr>cp_window_log = 27, cp_hash_log = 27, cp_chain_log = 27, cp_search_log = 10, cp_min_match = 5, cp_target_length = 64, cp_strategy = Btultra2\<rparr>]"

text \<open>The argument of \<open>leading_zeros\<close> is cast to \<open>u32\<close>.\<close>

definition ceil_log2 :: "nat \<Rightarrow> nat" where
  "ceil_log2 n = (if n \<le> 1 then 0 else 32 - leading_zeros32 (as_u32 (n - 1)))"

definition clamp :: "'a::linorder \<Rightarrow> 'a \<Rightarrow> 'a \<Rightarrow> 'a" where
  "clamp v lo hi = (if v < lo then lo else if hi < v then hi else v)"

text \<open>The hash and chain logs are kept within the window log plus one.\<close>

definition shrink_tables :: "cparams \<Rightarrow> cparams" where
  "shrink_tables p =
     (let p = (if cp_window_log p + 1 < cp_hash_log p then p\<lparr>cp_hash_log := cp_window_log p + 1\<rparr> else p) in
      if cp_window_log p + 1 < cp_chain_log p then p\<lparr>cp_chain_log := cp_window_log p + 1\<rparr> else p)"

definition params_for_level :: "int \<Rightarrow> nat \<Rightarrow> cparams" where
  "params_for_level level src_size =
     (let p = LEVELS ! nat (clamp level 1 22);
          need = max (ceil_log2 (max src_size 1)) MIN_WINDOW_LOG;
          p = p\<lparr>cp_window_log := min (min (cp_window_log p) need) MAX_WINDOW_LOG\<rparr> in
      shrink_tables p)"

definition params_for_level_with_dict :: "int \<Rightarrow> nat \<Rightarrow> nat \<Rightarrow> cparams" where
  "params_for_level_with_dict level src_size dict_size =
     (let p = params_for_level level (saturating_add src_size dict_size);
          dict_reach = clamp (ceil_log2 dict_size) MIN_WINDOW_LOG MAX_WINDOW_LOG in
      if cp_window_log p < dict_reach then p\<lparr>cp_window_log := dict_reach\<rparr> else p)"

definition params_for_level_ldm :: "int \<Rightarrow> nat \<Rightarrow> cparams" where
  "params_for_level_ldm level src_size =
     (let p = params_for_level level src_size;
          need = clamp (ceil_log2 (max src_size 1)) MIN_WINDOW_LOG LDM_MAX_WINDOW_LOG in
      if cp_window_log p < need then p\<lparr>cp_window_log := need\<rparr> else p)"

section \<open>Options\<close>

record compress_options =
  co_level :: int
  co_window_log :: "nat option"
  co_hash_log :: "nat option"
  co_chain_log :: "nat option"
  co_search_log :: "nat option"
  co_min_match :: "nat option"
  co_target_length :: "nat option"
  co_strategy :: "strategy option"
  co_checksum :: bool
  co_magic :: bool
  co_long_distance :: bool

definition options_new :: "int \<Rightarrow> compress_options" where
  "options_new level =
     \<lparr>co_level = level, co_window_log = None, co_hash_log = None, co_chain_log = None, co_search_log = None,
      co_min_match = None, co_target_length = None, co_strategy = None, co_checksum = False, co_magic = True,
      co_long_distance = False\<rparr>"

definition override :: "'v option \<Rightarrow> ('v \<Rightarrow> cparams \<Rightarrow> cparams) \<Rightarrow> cparams \<Rightarrow> cparams" where
  "override v f p = (case v of None \<Rightarrow> p | Some v \<Rightarrow> f v p)"

definition options_resolve :: "compress_options \<Rightarrow> nat \<Rightarrow> cparams" where
  "options_resolve opts src_size =
     (let p = (if co_long_distance opts then params_for_level_ldm (co_level opts) src_size
               else params_for_level (co_level opts) src_size);
          win_max = (if co_long_distance opts then LDM_MAX_WINDOW_LOG else MAX_WINDOW_LOG);
          p = override (co_window_log opts) (\<lambda>v. cp_window_log_update (\<lambda>_. clamp v MIN_WINDOW_LOG win_max)) p;
          p = override (co_hash_log opts) (\<lambda>v. cp_hash_log_update (\<lambda>_. v)) p;
          p = override (co_chain_log opts) (\<lambda>v. cp_chain_log_update (\<lambda>_. v)) p;
          p = override (co_search_log opts) (\<lambda>v. cp_search_log_update (\<lambda>_. v)) p;
          p = override (co_min_match opts) (\<lambda>v. cp_min_match_update (\<lambda>_. clamp v 3 6)) p;
          p = override (co_target_length opts) (\<lambda>v. cp_target_length_update (\<lambda>_. v)) p;
          p = override (co_strategy opts) (\<lambda>v. cp_strategy_update (\<lambda>_. v)) p in
      p)"

section \<open>The logarithm\<close>

lemma ceil_log2_bounds:
  assumes "1 < n" and "n \<le> 2 ^ 32"
  shows "n \<le> 2 ^ ceil_log2 n" and "2 ^ (ceil_log2 n - 1) < n" and "1 \<le> ceil_log2 n" and "ceil_log2 n \<le> 32"
proof -
  have x: "0 < n - 1" "n - 1 < 2 ^ 32" using assms by auto
  note hb = highbit32_bounds [OF x]
  have small: "as_u32 (n - 1) = n - 1" using x(2) by (rule as_u32_small)
  have log: "ceil_log2 n = Suc (highbit32 (n - 1))"
    using assms(1) small leading_zeros32_highbit [OF x] by (simp add: ceil_log2_def)
  show "n \<le> 2 ^ ceil_log2 n" "2 ^ (ceil_log2 n - 1) < n" using hb assms(1) by (auto simp: log)
  show "1 \<le> ceil_log2 n" "ceil_log2 n \<le> 32" by (simp_all add: log highbit32_def)
qed

lemma ceil_log2_ge: "0 < n \<Longrightarrow> n \<le> 2 ^ 32 \<Longrightarrow> n \<le> 2 ^ ceil_log2 n"
  using ceil_log2_bounds(1) [of n] by (cases "n = 1") (simp_all add: ceil_log2_def)

section \<open>Windows\<close>

lemma LEVELS_window: "p \<in> set LEVELS \<Longrightarrow> 19 \<le> cp_window_log p \<and> cp_window_log p \<le> 27"
  by (auto simp: LEVELS_def)

lemma level_in_LEVELS: "LEVELS ! nat (clamp level 1 22) \<in> set LEVELS"
proof (rule nth_mem)
  have "length LEVELS = 23" unfolding LEVELS_def by simp
  moreover have "clamp level 1 22 \<le> 22" unfolding clamp_def by simp
  ultimately show "nat (clamp level 1 22) < length LEVELS" by linarith
qed

text \<open>A block of at most \<open>BLOCK_SIZE_MAX\<close> bytes of an input of \<open>n\<close> bytes fits the block size limit of a
  decoder, the smaller of the window and 128 KiB.\<close>

definition window_covers :: "nat \<Rightarrow> nat \<Rightarrow> bool" where
  "window_covers wl n \<longleftrightarrow> min n BLOCK_SIZE_MAX \<le> 2 ^ wl"

lemma window_covers_17: "17 \<le> wl \<Longrightarrow> window_covers wl n"
proof -
  assume "17 \<le> wl"
  then have "(2::nat) ^ 17 \<le> 2 ^ wl" by (intro power_increasing) auto
  then show ?thesis by (simp add: window_covers_def BLOCK_SIZE_MAX_def min_le_iff_disj)
qed

lemma window_covers_mono: "window_covers wl n \<Longrightarrow> wl \<le> wl' \<Longrightarrow> window_covers wl' n"
  unfolding window_covers_def by (meson order_trans power_increasing one_le_numeral)

lemma shrink_tables_logs:
  "cp_window_log (shrink_tables p) = cp_window_log p"
  "cp_hash_log (shrink_tables p) \<le> cp_window_log p + 1"
  "cp_chain_log (shrink_tables p) \<le> cp_window_log p + 1"
  by (simp_all add: shrink_tables_def Let_def)

lemma params_for_level_logs:
  "cp_window_log (params_for_level level n)
     = min (min (cp_window_log (LEVELS ! nat (clamp level 1 22))) (max (ceil_log2 (max n 1)) MIN_WINDOW_LOG)) MAX_WINDOW_LOG"
  "cp_hash_log (params_for_level level n) \<le> cp_window_log (params_for_level level n) + 1"
  "cp_chain_log (params_for_level level n) \<le> cp_window_log (params_for_level level n) + 1"
proof -
  define q where "q = LEVELS ! nat (clamp level 1 22)"
  define w where "w = min (min (cp_window_log q) (max (ceil_log2 (max n 1)) MIN_WINDOW_LOG)) MAX_WINDOW_LOG"
  have p: "params_for_level level n = shrink_tables (q\<lparr>cp_window_log := w\<rparr>)"
    unfolding params_for_level_def Let_def q_def w_def ..
  show "cp_window_log (params_for_level level n)
     = min (min (cp_window_log (LEVELS ! nat (clamp level 1 22))) (max (ceil_log2 (max n 1)) MIN_WINDOW_LOG)) MAX_WINDOW_LOG"
    unfolding p shrink_tables_logs q_def [symmetric] w_def [symmetric] by simp
  show "cp_hash_log (params_for_level level n) \<le> cp_window_log (params_for_level level n) + 1"
    "cp_chain_log (params_for_level level n) \<le> cp_window_log (params_for_level level n) + 1"
    using shrink_tables_logs(2,3) [of "q\<lparr>cp_window_log := w\<rparr>"] unfolding p shrink_tables_logs by simp_all
qed

lemma params_for_level_range:
  "10 \<le> cp_window_log (params_for_level level n)" "cp_window_log (params_for_level level n) \<le> 23"
  using LEVELS_window [OF level_in_LEVELS [of level]]
  by (auto simp: params_for_level_logs(1) MIN_WINDOW_LOG_def MAX_WINDOW_LOG_def)

lemma params_for_level_covers:
  assumes "n \<le> 2 ^ 32"
  shows "window_covers (cp_window_log (params_for_level level n)) n"
proof (cases "17 \<le> cp_window_log (params_for_level level n)")
  case True
  then show ?thesis by (rule window_covers_17)
next
  case False
  then have "ceil_log2 (max n 1) \<le> cp_window_log (params_for_level level n)"
    using LEVELS_window [OF level_in_LEVELS [of level]]
    by (auto simp: params_for_level_logs(1) MAX_WINDOW_LOG_def)
  then have "(2::nat) ^ ceil_log2 (max n 1) \<le> 2 ^ cp_window_log (params_for_level level n)"
    by (intro power_increasing) auto
  moreover have "max n 1 \<le> 2 ^ ceil_log2 (max n 1)" using assms by (intro ceil_log2_ge) auto
  ultimately have "max n 1 \<le> 2 ^ cp_window_log (params_for_level level n)" by linarith
  then show ?thesis by (simp add: window_covers_def min_le_iff_disj)
qed


text \<open>The parameters of the dictionary and long-distance entry points only widen the window.\<close>

lemma params_for_level_with_dict_window:
  "cp_window_log (params_for_level level (saturating_add n d)) \<le> cp_window_log (params_for_level_with_dict level n d)"
  "cp_window_log (params_for_level_with_dict level n d) \<le> 23"
  using params_for_level_range(2) [of level "saturating_add n d"]
  by (simp_all add: params_for_level_with_dict_def Let_def clamp_def MIN_WINDOW_LOG_def MAX_WINDOW_LOG_def)

lemma params_for_level_ldm_window:
  "cp_window_log (params_for_level level n) \<le> cp_window_log (params_for_level_ldm level n)"
  "cp_window_log (params_for_level_ldm level n) \<le> 27"
  using params_for_level_range(2) [of level n]
  by (simp_all add: params_for_level_ldm_def Let_def clamp_def MIN_WINDOW_LOG_def LDM_MAX_WINDOW_LOG_def)

lemma options_resolve_window:
  "cp_window_log (options_resolve opts n) =
     (case co_window_log opts of
        None \<Rightarrow> cp_window_log (if co_long_distance opts then params_for_level_ldm (co_level opts) n else params_for_level (co_level opts) n)
      | Some v \<Rightarrow> clamp v MIN_WINDOW_LOG (if co_long_distance opts then LDM_MAX_WINDOW_LOG else MAX_WINDOW_LOG))"
  by (simp add: options_resolve_def override_def Let_def split: option.split)

section \<open>Properties\<close>

text \<open>The window of a level. For every level and every input of at most 4 GiB, the window log is in the
  portable range, the table logs exceed it by at most one, and the window covers the blocks: a
  block of the encoder never exceeds the block size limit that the advertised window implies.\<close>

theorem params_for_level_valid:
  assumes "n \<le> 2 ^ 32"
  shows "10 \<le> cp_window_log (params_for_level level n) \<and> cp_window_log (params_for_level level n) \<le> 23
    \<and> cp_hash_log (params_for_level level n) \<le> cp_window_log (params_for_level level n) + 1
    \<and> cp_chain_log (params_for_level level n) \<le> cp_window_log (params_for_level level n) + 1
    \<and> window_covers (cp_window_log (params_for_level level n)) n"
  using params_for_level_range params_for_level_logs(2,3) params_for_level_covers [OF assms] by blast

theorem params_for_level_valid_witness:
  "10 \<le> cp_window_log (params_for_level 3 5000) \<and> cp_window_log (params_for_level 3 5000) \<le> 23
    \<and> cp_hash_log (params_for_level 3 5000) \<le> cp_window_log (params_for_level 3 5000) + 1
    \<and> cp_chain_log (params_for_level 3 5000) \<le> cp_window_log (params_for_level 3 5000) + 1
    \<and> window_covers (cp_window_log (params_for_level 3 5000)) 5000"
  by (rule params_for_level_valid) simp


end
