(* ===== verification/Ncount_Write.thy ===== *)
theory Ncount_Write
  imports Fse_Ncount Bit_Writer
begin

text \<open>
  \<^verbatim>\<open>src/encode/fse.rs\<close>: the normalization of a histogram and the writer of the FSE table description,
  with its inverse property: \<open>read_ncount\<close> reads back every normalized distribution that
  \<open>write_ncount\<close> writes. The writer's accumulator is a number of \<open>nw_len\<close> bits; every field it
  puts is at the position where the reader, at the same number of consumed bits, looks for it.
\<close>

unbundle bit_operations_syntax

section \<open>The description writer\<close>

record ncount_writer =
  nw_stream :: u32
  nw_bits :: nat
  nw_out :: "byte list"

definition nw_put :: "ncount_writer \<Rightarrow> nat \<Rightarrow> nat \<Rightarrow> ncount_writer" where
  "nw_put w v n = w\<lparr>nw_stream := nw_stream w OR push_bit (nw_bits w) (word_of_nat v), nw_bits := nw_bits w + n\<rparr>"

definition nw_push16 :: "ncount_writer \<Rightarrow> ncount_writer" where
  "nw_push16 w = w\<lparr>nw_out := nw_out w @ [ucast (nw_stream w), ucast (drop_bit 8 (nw_stream w))],
                   nw_stream := drop_bit 16 (nw_stream w)\<rparr>"

definition nw_flush :: "ncount_writer \<Rightarrow> ncount_writer" where
  "nw_flush w = (if 16 < nw_bits w then (nw_push16 w)\<lparr>nw_bits := nw_bits w - 16\<rparr> else w)"

function nw_skip :: "int list \<Rightarrow> nat \<Rightarrow> nat \<Rightarrow> nat result" where
  "nw_skip norm alphabet symbol =
     (if symbol < alphabet then
        obind (idx norm symbol) (\<lambda>c. if c = 0 then nw_skip norm alphabet (symbol + 1) else Ok symbol)
      else Ok symbol)"
  by pat_completeness auto
termination by (relation "measure (\<lambda>(norm, alphabet, symbol). alphabet - symbol)") auto

declare nw_skip.simps [simp del]

lemma nw_skip_ge: "nw_skip norm alphabet symbol = Ok s \<Longrightarrow> symbol \<le> s"
proof (induction norm alphabet symbol rule: nw_skip.induct)
  case (1 norm alphabet symbol)
  show ?case
  proof (cases "symbol < alphabet \<and> symbol < length norm \<and> norm ! symbol = 0")
    case True
    then have "nw_skip norm alphabet (symbol + 1) = Ok s" using 1(2) by (subst (asm) nw_skip.simps) simp
    then show ?thesis using 1(1) [of 0] True by simp
  next
    case False
    then show ?thesis using 1(2) by (subst (asm) nw_skip.simps) (auto simp: obind_eq_Ok idx_eq_Ok split: if_splits)
  qed
qed

text \<open>The zero-run markers. After 24 the accumulator is emptied by the 16 bits it was given.\<close>

function nw_run24 :: "nat \<Rightarrow> nat \<Rightarrow> ncount_writer \<Rightarrow> nat \<times> ncount_writer" where
  "nw_run24 symbol run_start w =
     (if run_start + 24 \<le> symbol then
        nw_run24 symbol (run_start + 24)
          (nw_push16 (w\<lparr>nw_stream := nw_stream w OR push_bit (nw_bits w) 0xFFFF\<rparr>))
      else (run_start, w))"
  by pat_completeness auto
termination by (relation "measure (\<lambda>(symbol, run_start, w). symbol - run_start)") auto

function nw_run3 :: "nat \<Rightarrow> nat \<Rightarrow> ncount_writer \<Rightarrow> nat \<times> ncount_writer" where
  "nw_run3 symbol run_start w =
     (if run_start + 3 \<le> symbol then nw_run3 symbol (run_start + 3) (nw_put w 3 2) else (run_start, w))"
  by pat_completeness auto
termination by (relation "measure (\<lambda>(symbol, run_start, w). symbol - run_start)") auto

declare nw_run24.simps [simp del] nw_run3.simps [simp del]

definition nw_zero_run :: "nat \<Rightarrow> nat \<Rightarrow> ncount_writer \<Rightarrow> ncount_writer" where
  "nw_zero_run symbol run_start w =
     (let (run_start, w) = nw_run24 symbol run_start w;
          (run_start, w) = nw_run3 symbol run_start w in
      nw_flush (nw_put w (symbol - run_start) 2))"

text \<open>The field of one count: its value and its width.\<close>

definition nw_field :: "int \<Rightarrow> int \<Rightarrow> int \<Rightarrow> nat \<Rightarrow> int \<times> nat" where
  "nw_field count threshold remaining nb_bits =
     (let mx = (2 * threshold - 1) - remaining;
          c = count + 1;
          c = (if threshold \<le> c then c + mx else c) in
      (c, if c < mx then nb_bits - 1 else nb_bits))"

function nw_loop ::
  "int list \<Rightarrow> nat \<Rightarrow> nat \<Rightarrow> int \<Rightarrow> int \<Rightarrow> nat \<Rightarrow> bool \<Rightarrow> ncount_writer \<Rightarrow> ncount_writer result" where
  "nw_loop norm alphabet symbol remaining threshold nb_bits previous0 w =
     (if symbol < alphabet \<and> 1 < remaining then
        obind (if previous0 then nw_skip norm alphabet symbol else Ok symbol) (\<lambda>s.
        if previous0 \<and> s = alphabet then Ok w
        else
          let w = (if previous0 then nw_zero_run s symbol w else w) in
          obind (idx norm s) (\<lambda>count.
          let (c, n) = nw_field count threshold remaining nb_bits;
              remaining = remaining - \<bar>count\<bar>;
              w = nw_put w (int_as_u32 c) n in
          obind (shrink_threshold remaining nb_bits threshold) (\<lambda>(nb_bits, threshold).
          nw_loop norm alphabet (s + 1) remaining threshold nb_bits (c = 1) (nw_flush w))))
      else Ok w)"
  by pat_completeness auto
termination
  by (relation "measure (\<lambda>(norm, alphabet, symbol, r, t, b, p, w). alphabet - symbol)")
    (auto split: if_splits dest: nw_skip_ge)

declare nw_loop.simps [simp del]

definition write_ncount :: "int list \<Rightarrow> nat \<Rightarrow> nat \<Rightarrow> byte list result" where
  "write_ncount norm max_symbol table_log =
     (let table_size = 2 ^ table_log;
          w = \<lparr>nw_stream = 0, nw_bits = 0, nw_out = []\<rparr> in
      obind (usub table_log 5) (\<lambda>v.
      let w = nw_put w v 4 in
      obind (nw_loop norm (max_symbol + 1) 0 (table_size + 1) table_size (table_log + 1) False w) (\<lambda>w.
      let nbytes = (nw_bits w + 7) div 8 in
      Ok (nw_out w @ map (\<lambda>i. ucast (drop_bit (8 * i) (nw_stream w))) [0..<nbytes]))))"

section \<open>The number a writer holds\<close>

definition nw_val :: "ncount_writer \<Rightarrow> nat" where
  "nw_val w = le_val (nw_out w) + 2 ^ (8 * length (nw_out w)) * unat (nw_stream w)"

definition nw_len :: "ncount_writer \<Rightarrow> nat" where
  "nw_len w = 8 * length (nw_out w) + nw_bits w"

definition nw_ok :: "nat \<Rightarrow> ncount_writer \<Rightarrow> bool" where
  "nw_ok n w \<longleftrightarrow> nw_bits w \<le> n \<and> unat (nw_stream w) < 2 ^ nw_bits w"

lemma nw_or_put:
  assumes ok: "nw_ok b w" and n: "nw_bits w + n \<le> 32" and v: "v < 2 ^ n"
  shows "unat (nw_stream w OR push_bit (nw_bits w) (word_of_nat v)) = unat (nw_stream w) + 2 ^ nw_bits w * v"
    and "unat (nw_stream w) + 2 ^ nw_bits w * v < 2 ^ (nw_bits w + n)"
proof -
  have s: "unat (nw_stream w) < 2 ^ nw_bits w" using ok by (simp add: nw_ok_def)
  have "2 ^ nw_bits w * (v + 1) \<le> 2 ^ nw_bits w * (2 ^ n :: nat)" using v by (intro mult_le_mono2) simp
  then show less: "unat (nw_stream w) + 2 ^ nw_bits w * v < 2 ^ (nw_bits w + n)"
    using s by (simp add: power_add)
  also have "(2::nat) ^ (nw_bits w + n) \<le> 2 ^ 32" using n by (intro power_increasing) auto
  finally have small: "unat (nw_stream w) + 2 ^ nw_bits w * v < 2 ^ 32" .
  have "nw_stream w OR push_bit (nw_bits w) (word_of_nat v) = nw_stream w + push_bit (nw_bits w) (word_of_nat v)"
    by (rule or_disjoint_add [OF s])
  also have "\<dots> = word_of_nat (unat (nw_stream w) + 2 ^ nw_bits w * v)"
    by (simp add: push_bit_of_nat_word)
  finally show "unat (nw_stream w OR push_bit (nw_bits w) (word_of_nat v)) = unat (nw_stream w) + 2 ^ nw_bits w * v"
    using small by (simp only: unat_of_nat) simp
qed

lemma nw_put_val:
  assumes "nw_ok b w" and "nw_bits w + n \<le> 32" and "v < 2 ^ n"
  shows "nw_val (nw_put w v n) = nw_val w + 2 ^ nw_len w * v" and "nw_len (nw_put w v n) = nw_len w + n"
    and "nw_ok (nw_bits w + n) (nw_put w v n)"
proof -
  note u = nw_or_put [OF assms]
  show "nw_val (nw_put w v n) = nw_val w + 2 ^ nw_len w * v"
    unfolding nw_put_def nw_val_def nw_len_def using u(1) by (simp add: algebra_simps power_add)
  show "nw_len (nw_put w v n) = nw_len w + n" by (simp add: nw_put_def nw_len_def)
  show "nw_ok (nw_bits w + n) (nw_put w v n)"
    using u unfolding nw_ok_def nw_put_def by simp
qed

lemma nw_push16_val:
  "nw_val (nw_push16 w) = nw_val w" "nw_bits (nw_push16 w) = nw_bits w" "length (nw_out (nw_push16 w)) = length (nw_out w) + 2"
  "unat (nw_stream (nw_push16 w)) = unat (nw_stream w) div 2 ^ 16"
proof -
  define s where "s = unat (nw_stream w)"
  have drop: "unat (drop_bit k (nw_stream w)) = s div 2 ^ k" for k
    by (simp only: s_def unat_drop_bit_eq drop_bit_eq_div [of k "unat (nw_stream w)"])
  have byte: "unat (ucast x :: byte) = unat x mod 256" for x :: u32
    by (simp add: unsigned_ucast_eq take_bit_eq_mod)
  show d: "unat (nw_stream (nw_push16 w)) = unat (nw_stream w) div 2 ^ 16"
    using drop [of 16] by (simp add: nw_push16_def s_def)
  have "le_val [ucast (nw_stream w), ucast (drop_bit 8 (nw_stream w))] = s mod 256 + 256 * (s div 256 mod 256)"
    using byte [of "nw_stream w"] byte [of "drop_bit 8 (nw_stream w)"] drop [of 8] by (simp add: s_def)
  also have "\<dots> = s mod 2 ^ 16" using mod_mult2_eq [of s 256 256] by simp
  finally have bytes: "le_val [ucast (nw_stream w), ucast (drop_bit 8 (nw_stream w))] = s mod 2 ^ 16" .
  have "k * (s mod 2 ^ 16) + 2 ^ 16 * k * (s div 2 ^ 16) = k * s" for k :: nat
    using distrib_left [of k "s mod 2 ^ 16" "2 ^ 16 * (s div 2 ^ 16)"]
    by (simp only: mod_mult_div_eq mult.assoc mult.commute [of _ k] mult.left_commute [of _ k])
  then show "nw_val (nw_push16 w) = nw_val w"
    using d bytes unfolding nw_val_def s_def [symmetric]
    by (simp add: nw_push16_def le_val_append_bits power_add del: le_val.simps)
  show "nw_bits (nw_push16 w) = nw_bits w" "length (nw_out (nw_push16 w)) = length (nw_out w) + 2"
    by (simp_all add: nw_push16_def)
qed

lemma nw_flush_val:
  assumes "nw_ok 32 w"
  shows "nw_val (nw_flush w) = nw_val w" and "nw_len (nw_flush w) = nw_len w" and "nw_ok 16 (nw_flush w)"
proof -
  show "nw_val (nw_flush w) = nw_val w" using nw_push16_val(1) [of w] by (simp add: nw_flush_def nw_val_def)
  show "nw_len (nw_flush w) = nw_len w" using nw_push16_val(2,3) [of w] by (simp add: nw_flush_def nw_len_def)
  show "nw_ok 16 (nw_flush w)"
  proof (cases "16 < nw_bits w")
    case True
    then have "(2 :: nat) ^ nw_bits w = 2 ^ (nw_bits w - 16) * 2 ^ 16"
      by (metis le_add_diff_inverse2 less_imp_le power_add)
    then have "unat (nw_stream w) < 2 ^ (nw_bits w - 16) * 2 ^ 16" using assms by (simp add: nw_ok_def)
    then have "unat (nw_stream w) div 2 ^ 16 < 2 ^ (nw_bits w - 16)" by (rule less_mult_imp_div_less)
    then show ?thesis using True assms nw_push16_val(4) [of w] by (auto simp: nw_flush_def nw_ok_def)
  next
    case False
    then show ?thesis using assms by (simp add: nw_flush_def nw_ok_def)
  qed
qed

text \<open>Put and flush: the field lands at the end of the number.\<close>

lemma nw_put_flush:
  assumes "nw_ok 16 w" and "n \<le> 16" and "v < 2 ^ n"
  shows "nw_val (nw_flush (nw_put w v n)) = nw_val w + 2 ^ nw_len w * v"
    and "nw_len (nw_flush (nw_put w v n)) = nw_len w + n" and "nw_ok 16 (nw_flush (nw_put w v n))"
proof -
  have b: "nw_bits w + n \<le> 32" using assms by (simp add: nw_ok_def)
  note p = nw_put_val [OF assms(1) b assms(3)]
  have "nw_ok 32 (nw_put w v n)" using p(3) b by (simp add: nw_ok_def)
  from nw_flush_val [OF this] p
  show "nw_val (nw_flush (nw_put w v n)) = nw_val w + 2 ^ nw_len w * v"
    "nw_len (nw_flush (nw_put w v n)) = nw_len w + n" "nw_ok 16 (nw_flush (nw_put w v n))" by simp_all
qed

text \<open>\<open>extends V L w\<close>: in every number whose low bits are those of \<open>w\<close>, the low \<open>L\<close> bits are \<open>V\<close>.\<close>

definition nw_ext :: "ncount_writer \<Rightarrow> ncount_writer \<Rightarrow> bool" where
  "nw_ext w w' \<longleftrightarrow> nw_len w \<le> nw_len w' \<and> nw_val w' mod 2 ^ nw_len w = nw_val w"

definition nw_holds :: "nat \<Rightarrow> ncount_writer \<Rightarrow> bool" where
  "nw_holds V w \<longleftrightarrow> V mod 2 ^ nw_len w = nw_val w"

lemma nw_holds_ext: "nw_holds V w' \<Longrightarrow> nw_ext w w' \<Longrightarrow> nw_holds V w"
  unfolding nw_holds_def nw_ext_def by (metis le_imp_power_dvd mod_mod_cancel)

lemma nw_val_less: "nw_ok b w \<Longrightarrow> nw_val w < 2 ^ nw_len w"
proof -
  assume "nw_ok b w"
  then have "unat (nw_stream w) + 1 \<le> 2 ^ nw_bits w" by (simp add: nw_ok_def)
  then have "2 ^ (8 * length (nw_out w)) * (unat (nw_stream w) + 1) \<le> 2 ^ (8 * length (nw_out w)) * 2 ^ nw_bits w"
    by (rule mult_le_mono2)
  then show ?thesis using le_val_bound_bits [of "nw_out w"] by (simp add: nw_val_def nw_len_def power_add)
qed

lemma nw_ext_refl: "nw_ok b w \<Longrightarrow> nw_ext w w"
  by (simp add: nw_ext_def nw_val_less)

lemma nw_ext_trans: "nw_ext w1 w2 \<Longrightarrow> nw_ext w2 w3 \<Longrightarrow> nw_ext w1 w3"
  unfolding nw_ext_def by (metis le_imp_power_dvd mod_mod_cancel order_trans)

lemma nw_ext_put:
  assumes "nw_ok b w" and "nw_val w' = nw_val w + 2 ^ nw_len w * v" and "nw_len w' = nw_len w + n"
  shows "nw_ext w w'"
  using nw_val_less [OF assms(1)] by (simp add: nw_ext_def assms(2,3))

text \<open>The field that was put is what the reader finds behind the bits it has consumed.\<close>

lemma nw_holds_field:
  assumes "nw_ok b w" and "nw_val w' = nw_val w + 2 ^ nw_len w * v" and "nw_len w' = nw_len w + n"
    and "v < 2 ^ n" and "nw_holds V w'"
  shows "low_bits V (nw_len w) n = v"
proof -
  have "V mod 2 ^ (nw_len w + n) = nw_val w + 2 ^ nw_len w * v" using assms(2,3,5) by (simp add: nw_holds_def)
  then have "V mod 2 ^ (nw_len w + n) div 2 ^ nw_len w = v" using nw_val_less [OF assms(1)] by simp
  then show ?thesis by (simp only: low_bits_def div_mod_window)
qed

section \<open>Zero runs\<close>

lemma nw_run3_len: "nw_len (snd (nw_run3 symbol run_start w)) - nw_len w = nw_bits (snd (nw_run3 symbol run_start w)) - nw_bits w
    \<and> nw_out (snd (nw_run3 symbol run_start w)) = nw_out w"
proof (induction symbol run_start w rule: nw_run3.induct)
  case (1 symbol run_start w)
  then show ?case by (subst (1 2 3) nw_run3.simps) (auto simp: nw_len_def nw_put_def)
qed

lemma nw_run3_spec:
  assumes "run_start \<le> symbol" and "symbol < run_start + 24" and "nw_ok 32 w" and "nw_bits w + 2 * ((symbol - run_start) div 3) \<le> 30"
  shows "\<exists>w'. nw_run3 symbol run_start w = (symbol - (symbol - run_start) mod 3, w')
    \<and> nw_bits w' = nw_bits w + 2 * ((symbol - run_start) div 3) \<and> nw_ok 32 w' \<and> nw_ext w w'
    \<and> (\<forall>br V. fbr_at br (nw_len w) \<longrightarrow> le_val (fsrc br) = V \<longrightarrow> nw_holds V w' \<longrightarrow>
         (\<exists>br'. (\<forall>n. rd_run3 br n = rd_run3 br' (n + 3 * ((symbol - run_start) div 3)))
            \<and> fbr_at br' (nw_len w') \<and> fsrc br' = fsrc br))"
  using assms
proof (induction symbol run_start w rule: nw_run3.induct)
  case (1 symbol run_start w)
  show ?case
  proof (cases "run_start + 3 \<le> symbol")
    case False
    then have "symbol - run_start < 3" by simp
    then show ?thesis using 1(2,4) nw_ext_refl [OF 1(4)] False by (subst nw_run3.simps) auto
  next
    case True
    define d where "d = (symbol - (run_start + 3)) div 3"
    have d: "(symbol - run_start) div 3 = Suc d" "(symbol - run_start) mod 3 = (symbol - (run_start + 3)) mod 3"
      using True by (auto simp: d_def le_div_geq le_mod_geq)
    have b: "nw_bits w + 2 \<le> 32" using 1(5) d(1) by simp
    have "(3 :: nat) < 2 ^ 2" by simp
    note p = nw_put_val [OF 1(4) b this]
    have ok: "nw_ok 32 (nw_put w 3 2)" using p(3) b by (simp add: nw_ok_def)
    have bits: "nw_bits (nw_put w 3 2) = nw_bits w + 2" by (simp add: nw_put_def)
    from 1(1) [OF True _ _ ok] True 1(3,5) d bits obtain w' where
      w': "nw_run3 symbol (run_start + 3) (nw_put w 3 2) = (symbol - (symbol - run_start) mod 3, w')"
        "nw_bits w' = nw_bits w + 2 * Suc d" "nw_ok 32 w'" "nw_ext (nw_put w 3 2) w'"
      and rd: "\<forall>br V. fbr_at br (nw_len (nw_put w 3 2)) \<longrightarrow> le_val (fsrc br) = V \<longrightarrow> nw_holds V w' \<longrightarrow>
         (\<exists>br'. (\<forall>n. rd_run3 br n = rd_run3 br' (n + 3 * d)) \<and> fbr_at br' (nw_len w') \<and> fsrc br' = fsrc br)"
      unfolding d_def by auto
    have ext: "nw_ext w (nw_put w 3 2)" using nw_ext_put [OF 1(4) p(1,2)] .
    have "\<exists>br'. (\<forall>n. rd_run3 br n = rd_run3 br' (n + 3 * Suc d)) \<and> fbr_at br' (nw_len w') \<and> fsrc br' = fsrc br"
      if at: "fbr_at br (nw_len w)" and h: "nw_holds (le_val (fsrc br)) w'" for br
    proof -
      obtain v br1 where peek: "fbr_peek br 2 = (v, br1)" by (cases "fbr_peek br 2")
      have "low_bits (le_val (fsrc br)) (nw_len w) 2 = 3"
        using nw_holds_field [OF 1(4) p(1,2) _ nw_holds_ext [OF h w'(4)]] by simp
      then have v: "v = 3" using fbr_peek_spec [OF at, of 2] peek by simp
      have br1: "fbr_at br1 (nw_len w)" "fbr_has br1 2" "fsrc br1 = fsrc br"
        using fbr_peek_at [OF at, of 2] fbr_peek_has [OF at, of 2] fbr_peek_src [of br 2] peek by simp_all
      have "fbr_at (fbr_consume br1 2) (nw_len (nw_put w 3 2))" using fbr_consume_at [OF br1(1,2)] p(2) by simp
      then obtain br' where br': "\<forall>n. rd_run3 (fbr_consume br1 2) n = rd_run3 br' (n + 3 * d)"
        "fbr_at br' (nw_len w')" "fsrc br' = fsrc br"
        using rd h br1(3) by fastforce
      have "rd_run3 br n = rd_run3 (fbr_consume br1 2) (n + 3)" for n
        by (subst rd_run3.simps) (simp add: peek v)
      then show ?thesis using br' by (intro exI [of _ br']) (simp add: add_ac)
    qed
    then show ?thesis
      using w' nw_ext_trans [OF ext w'(4)] d True by (subst nw_run3.simps) auto
  qed
qed

lemma nw_marker24:
  assumes "nw_ok 16 w"
  defines "w' \<equiv> nw_push16 (w\<lparr>nw_stream := nw_stream w OR push_bit (nw_bits w) 0xFFFF\<rparr>)"
  shows "nw_val w' = nw_val w + 2 ^ nw_len w * 65535" and "nw_len w' = nw_len w + 16" and "nw_ok 16 w'"
    and "nw_bits w' = nw_bits w"
proof -
  have b: "nw_bits w + 16 \<le> 32" using assms(1) by (simp add: nw_ok_def)
  note p = nw_put_val [OF assms(1) b, of 65535, simplified]
  have w': "nw_val w' = nw_val (nw_put w 65535 16)" "nw_bits w' = nw_bits w"
    using nw_push16_val(1) [of "w\<lparr>nw_stream := nw_stream w OR push_bit (nw_bits w) 0xFFFF\<rparr>"]
    by (simp_all add: w'_def nw_put_def nw_val_def nw_push16_def)
  show "nw_val w' = nw_val w + 2 ^ nw_len w * 65535" using w' p(1) by simp
  show "nw_bits w' = nw_bits w" by (rule w'(2))
  show "nw_len w' = nw_len w + 16" by (simp add: w'_def nw_len_def nw_push16_def)
  have "unat (nw_stream (nw_put w 65535 16)) < 2 ^ (nw_bits w + 16)" using p(3) by (simp add: nw_ok_def nw_put_def)
  then have "unat (nw_stream (nw_put w 65535 16)) div 2 ^ 16 < 2 ^ nw_bits w"
    by (intro less_mult_imp_div_less) (simp add: power_add)
  then show "nw_ok 16 w'"
    using assms(1) nw_push16_val(4) [of "w\<lparr>nw_stream := nw_stream w OR push_bit (nw_bits w) 0xFFFF\<rparr>"]
    by (auto simp: nw_ok_def w'(2)) (simp add: w'_def nw_put_def)
qed

lemma nw_run24_spec:
  assumes "run_start \<le> symbol" and "nw_ok 16 w"
  shows "\<exists>w'. nw_run24 symbol run_start w = (symbol - (symbol - run_start) mod 24, w')
    \<and> nw_ok 16 w' \<and> nw_ext w w'
    \<and> (\<forall>br V. fbr_at br (nw_len w) \<longrightarrow> le_val (fsrc br) = V \<longrightarrow> nw_holds V w' \<longrightarrow>
         (\<exists>br'. (\<forall>n. rd_run24 br n = rd_run24 br' (n + 24 * ((symbol - run_start) div 24)))
            \<and> fbr_at br' (nw_len w') \<and> fsrc br' = fsrc br))"
  using assms
proof (induction symbol run_start w rule: nw_run24.induct)
  case (1 symbol run_start w)
  show ?case
  proof (cases "run_start + 24 \<le> symbol")
    case False
    then have "symbol - run_start < 24" by simp
    then show ?thesis using 1(2,3) nw_ext_refl [OF 1(3)] False by (subst nw_run24.simps) auto
  next
    case True
    define d where "d = (symbol - (run_start + 24)) div 24"
    define w1 where "w1 = nw_push16 (w\<lparr>nw_stream := nw_stream w OR push_bit (nw_bits w) 0xFFFF\<rparr>)"
    have d: "(symbol - run_start) div 24 = Suc d" "(symbol - run_start) mod 24 = (symbol - (run_start + 24)) mod 24"
      using True by (auto simp: d_def le_div_geq le_mod_geq)
    note p = nw_marker24 [OF 1(3), folded w1_def]
    from 1(1) [OF True, folded w1_def, OF True p(3)] d obtain w' where
      w': "nw_run24 symbol (run_start + 24) w1 = (symbol - (symbol - run_start) mod 24, w')"
        "nw_ok 16 w'" "nw_ext w1 w'"
      and rd: "\<forall>br V. fbr_at br (nw_len w1) \<longrightarrow> le_val (fsrc br) = V \<longrightarrow> nw_holds V w' \<longrightarrow>
         (\<exists>br'. (\<forall>n. rd_run24 br n = rd_run24 br' (n + 24 * d)) \<and> fbr_at br' (nw_len w') \<and> fsrc br' = fsrc br)"
      unfolding d_def by auto
    have ext: "nw_ext w w1" using nw_ext_put [OF 1(3) p(1,2)] .
    have "\<exists>br'. (\<forall>n. rd_run24 br n = rd_run24 br' (n + 24 * Suc d)) \<and> fbr_at br' (nw_len w') \<and> fsrc br' = fsrc br"
      if at: "fbr_at br (nw_len w)" and h: "nw_holds (le_val (fsrc br)) w'" for br
    proof -
      obtain v br1 where peek: "fbr_peek br 16 = (v, br1)" by (cases "fbr_peek br 16")
      have "low_bits (le_val (fsrc br)) (nw_len w) 16 = 65535"
        using nw_holds_field [OF 1(3) p(1,2) _ nw_holds_ext [OF h w'(3)]] by simp
      then have v: "v = 65535" using fbr_peek_spec [OF at, of 16] peek by simp
      have br1: "fbr_at br1 (nw_len w)" "fbr_has br1 16" "fsrc br1 = fsrc br"
        using fbr_peek_at [OF at, of 16] fbr_peek_has [OF at, of 16] fbr_peek_src [of br 16] peek by simp_all
      have "fbr_at (fbr_consume br1 16) (nw_len w1)" using fbr_consume_at [OF br1(1,2)] p(2) by simp
      then obtain br' where br': "\<forall>n. rd_run24 (fbr_consume br1 16) n = rd_run24 br' (n + 24 * d)"
        "fbr_at br' (nw_len w')" "fsrc br' = fsrc br"
        using rd h br1(3) by fastforce
      have "rd_run24 br n = rd_run24 (fbr_consume br1 16) (n + 24)" for n
        by (subst rd_run24.simps) (simp add: peek v)
      then show ?thesis using br' by (intro exI [of _ br']) (simp add: add_ac)
    qed
    then show ?thesis
      using w' nw_ext_trans [OF ext w'(3)] d True by (subst nw_run24.simps) (auto simp: w1_def)
  qed
qed

lemma low_bits_shift: "k + n \<le> m \<Longrightarrow> low_bits V (p + k) n = low_bits V p m div 2 ^ k mod 2 ^ n"
proof -
  assume "k + n \<le> m"
  then have "(2::nat) ^ n dvd 2 ^ (m - k)" by (intro le_imp_power_dvd) simp
  moreover have "V div 2 ^ p mod 2 ^ m div 2 ^ k = V div 2 ^ p div 2 ^ k mod 2 ^ (m - k)"
    using \<open>k + n \<le> m\<close> div_mod_window [of "V div 2 ^ p" k "m - k"] by simp
  ultimately show ?thesis by (simp add: low_bits_def power_add div_mult2_eq mod_mod_cancel)
qed

lemma ones_div: "q \<le> 7 \<Longrightarrow> 65535 div 2 ^ (2 * q) mod 2 ^ 2 = (3 :: nat)"
proof -
  assume "q \<le> 7"
  then have "q \<in> {0, 1, 2, 3, 4, 5, 6, 7}" by auto
  then show ?thesis by (elim insertE emptyE) simp_all
qed

lemma nw_zero_run_spec:
  assumes "run_start \<le> symbol" and "nw_ok 16 w"
  defines "w' \<equiv> nw_zero_run symbol run_start w"
  shows "nw_ok 16 w'" and "nw_ext w w'"
    and "fbr_at br (nw_len w) \<Longrightarrow> nw_holds (le_val (fsrc br)) w' \<Longrightarrow>
      \<exists>br1 rpt br2 rpt2 v br3. rd_run24 br run_start = (rpt, br1) \<and> rd_run3 br1 rpt = (rpt2, br2) \<and> fbr_read br2 2 = (v, br3)
        \<and> rpt2 + v = symbol \<and> fbr_at br3 (nw_len w') \<and> fsrc br3 = fsrc br"
proof -
  define g q where "g = (symbol - run_start) mod 24" and "q = g div 3"
  obtain w1 where w1: "nw_run24 symbol run_start w = (symbol - g, w1)" "nw_ok 16 w1" "nw_ext w w1"
    and rd24: "\<And>br V. fbr_at br (nw_len w) \<Longrightarrow> le_val (fsrc br) = V \<Longrightarrow> nw_holds V w1 \<Longrightarrow>
       \<exists>br'. (\<forall>n. rd_run24 br n = rd_run24 br' (n + 24 * ((symbol - run_start) div 24)))
            \<and> fbr_at br' (nw_len w1) \<and> fsrc br' = fsrc br"
    using nw_run24_spec [OF assms(1,2)] unfolding g_def by blast
  have g: "g < 24" "g \<le> symbol - run_start" "q \<le> 7" by (simp_all add: g_def q_def) 
  have sg: "symbol - g \<le> symbol" "symbol < symbol - g + 24" "symbol - (symbol - g) = g" "(symbol - g) + g = symbol"
    using g assms(1) by auto
  have bits: "nw_bits w1 \<le> 16" "nw_bits w1 + 2 * q \<le> 30" "nw_ok 32 w1" using w1(2) g(3) by (auto simp: nw_ok_def)
  obtain w2 where w2: "nw_run3 symbol (symbol - g) w1 = (symbol - g mod 3, w2)" "nw_bits w2 = nw_bits w1 + 2 * q"
      "nw_ok 32 w2" "nw_ext w1 w2"
    and rd3: "\<And>br V. fbr_at br (nw_len w1) \<Longrightarrow> le_val (fsrc br) = V \<Longrightarrow> nw_holds V w2 \<Longrightarrow>
       \<exists>br'. (\<forall>n. rd_run3 br n = rd_run3 br' (n + 3 * q)) \<and> fbr_at br' (nw_len w2) \<and> fsrc br' = fsrc br"
    using nw_run3_spec [OF sg(1,2) bits(3)] bits(2) unfolding sg(3) q_def [symmetric] by blast
  have b2: "nw_bits w2 + 2 \<le> 32" using w2(2) bits(2) by simp
  have small: "g mod 3 < 2 ^ 2" by (rule order_less_trans [of _ 3]) simp_all
  note p = nw_put_val [OF w2(3) b2 small]
  have r: "symbol - (symbol - g mod 3) = g mod 3"
    using g(2) mod_less_eq_dividend [of g 3] by linarith
  have w': "w' = nw_flush (nw_put w2 (g mod 3) 2)"
    unfolding w'_def nw_zero_run_def using w1(1) w2(1) r by simp
  have ok32: "nw_ok 32 (nw_put w2 (g mod 3) 2)" using p(3) b2 by (simp add: nw_ok_def)
  note f = nw_flush_val [OF ok32]
  show "nw_ok 16 w'" using f(3) by (simp add: w')
  have v': "nw_val w' = nw_val w2 + 2 ^ nw_len w2 * (g mod 3)" "nw_len w' = nw_len w2 + 2"
    using f p by (simp_all add: w')
  have ext: "nw_ext w2 w'" by (rule nw_ext_put [OF w2(3) v'])
  show "nw_ext w w'" using nw_ext_trans [OF w1(3) nw_ext_trans [OF w2(4) ext]] .
  assume at: "fbr_at br (nw_len w)" and h: "nw_holds (le_val (fsrc br)) w'"
  let ?V = "le_val (fsrc br)"
  have h2: "nw_holds ?V w2" and h1: "nw_holds ?V w1"
    using nw_holds_ext [OF h ext] nw_holds_ext [OF nw_holds_ext [OF h ext] w2(4)] by simp_all
  have last2: "low_bits ?V (nw_len w2) 2 = g mod 3" by (rule nw_holds_field [OF w2(3) v' small h])
  obtain br1 where br1: "\<And>n. rd_run24 br n = rd_run24 br1 (n + 24 * ((symbol - run_start) div 24))"
    "fbr_at br1 (nw_len w1)" "fsrc br1 = fsrc br"
    using rd24 [OF at refl h1] by blast
  obtain x br1' where peek: "fbr_peek br1 16 = (x, br1')" by (cases "fbr_peek br1 16")
  have x: "x = low_bits ?V (nw_len w1) 16" and br1': "fbr_at br1' (nw_len w1)" "fsrc br1' = fsrc br"
    using fbr_peek_spec [OF br1(2), of 16] fbr_peek_at [OF br1(2), of 16] fbr_peek_src [of br1 16] peek br1(3) by simp_all
  obtain br2 where br2: "\<And>n. rd_run3 br1' n = rd_run3 br2 (n + 3 * q)" "fbr_at br2 (nw_len w2)" "fsrc br2 = fsrc br"
    using rd3 [OF br1'(1), of ?V] h2 br1'(2) by auto
  have "x \<noteq> 65535"
  proof
    assume "x = 65535"
    moreover have "nw_len w2 = nw_len w1 + 2 * q"
    proof -
      have "nw_len w2 - nw_len w1 = 2 * q"
        using nw_run3_len [of symbol "symbol - g" w1] w2(1,2) by (simp add: nw_len_def)
      then show ?thesis using w2(4) by (auto simp: nw_ext_def)
    qed
    ultimately have "low_bits ?V (nw_len w2) 2 = 3"
      using low_bits_shift [of "2 * q" 2 16 ?V "nw_len w1"] g(3) x ones_div [OF g(3)] by simp
    moreover have "g mod 3 < 3" by simp
    ultimately show False using last2 by simp
  qed
  then have r24: "rd_run24 br run_start = (run_start + 24 * ((symbol - run_start) div 24), br1')"
    unfolding br1(1) by (subst rd_run24.simps) (simp add: peek)
  obtain y br2' where peek2: "fbr_peek br2 2 = (y, br2')" by (cases "fbr_peek br2 2")
  have y: "y = g mod 3" and br2': "fbr_at br2' (nw_len w2)" "fsrc br2' = fsrc br"
    using fbr_peek_spec [OF br2(2), of 2] fbr_peek_at [OF br2(2), of 2] fbr_peek_src [of br2 2] peek2 br2(3) last2 by simp_all
  have "y \<noteq> 3" unfolding y by (metis mod_less_divisor less_irrefl zero_less_numeral)
  then have r3: "rd_run3 br1' n = (n + 3 * q, br2')" for n
    unfolding br2(1) by (subst rd_run3.simps) (simp add: peek2)
  obtain v br3 where rd: "fbr_read br2' 2 = (v, br3)" by (cases "fbr_read br2' 2")
  have v: "v = g mod 3" "fbr_at br3 (nw_len w')" "fsrc br3 = fsrc br"
    using fbr_read_at [OF br2'(1), of 2] rd br2'(2) last2 v'(2) by simp_all
  have "run_start + 24 * ((symbol - run_start) div 24) + 3 * q + g mod 3 = symbol"
    unfolding q_def g_def using assms(1) by (simp add: mult.commute)
  then show "\<exists>br1 rpt br2 rpt2 v br3. rd_run24 br run_start = (rpt, br1) \<and> rd_run3 br1 rpt = (rpt2, br2) \<and> fbr_read br2 2 = (v, br3)
        \<and> rpt2 + v = symbol \<and> fbr_at br3 (nw_len w') \<and> fsrc br3 = fsrc br"
    using r24 r3 rd v by auto
qed

section \<open>One count\<close>

lemma nw_field_bounds:
  assumes "2 ^ k \<le> remaining" and "remaining \<le> 2 * 2 ^ k - 1" and "- 1 \<le> count" and "count + 1 \<le> remaining"
    and f: "nw_field count (2 ^ k) remaining (Suc k) = (c, n)"
  shows "0 \<le> c" and "nat c < 2 ^ n" and "n \<le> Suc k" and "2 \<le> remaining \<Longrightarrow> (c = 1) = (count = 0)"
proof -
  define T :: int where "T = 2 ^ k"
  define mx where "mx = 2 * T - 1 - remaining"
  have nT: "nat T = 2 ^ k" "(2::nat) ^ Suc k = nat (2 * T)" by (simp_all add: T_def nat_mult_distrib nat_power_eq)
  have T: "0 \<le> mx" "mx \<le> T - 1" "1 \<le> T" using assms(1,2) by (auto simp: mx_def T_def)
  have c: "c = (if T \<le> count + 1 then count + 1 + mx else count + 1)"
    and n: "n = (if c < mx then k else Suc k)"
    using f by (auto simp: nw_field_def Let_def T_def mx_def)
  show "0 \<le> c" using c T assms(3) by (auto split: if_splits)
  show "n \<le> Suc k" using n by simp
  show "nat c < 2 ^ n"
  proof (cases "c < mx")
    case True
    then show ?thesis using n T nT(1) by (simp add: nat_less_iff [symmetric])
  next
    case False
    have "c < 2 * T" using c T assms(4) by (auto simp: mx_def split: if_splits)
    then show ?thesis using False n nT(2) T by simp
  qed
  show "2 \<le> remaining \<Longrightarrow> (c = 1) = (count = 0)"
    using c T by (auto simp: mx_def split: if_splits)
qed

lemma nw_field_read:
  assumes k: "k \<le> 30" and r: "2 ^ k \<le> remaining" "remaining \<le> 2 * 2 ^ k - 1" and cnt: "- 1 \<le> count" "count + 1 \<le> remaining"
    and f: "nw_field count (2 ^ k) remaining (Suc k) = (c, n)"
    and at: "fbr_at br p" and field: "low_bits (le_val (fsrc br)) p n = nat c"
  shows "\<exists>br'. ncount_take br remaining (2 ^ k) (Suc k) = Ok (count + 1, br') \<and> fbr_at br' (p + n) \<and> fsrc br' = fsrc br"
proof -
  note bounds = nw_field_bounds [OF r cnt f]
  define T :: int where "T = 2 ^ k"
  define mx where "mx = 2 * T - 1 - remaining"
  have nT: "nat T = 2 ^ k" by (simp add: T_def nat_power_eq)
  have T: "0 \<le> mx" "mx \<le> T - 1" "1 \<le> T" using r by (auto simp: mx_def T_def)
  have c: "c = (if T \<le> count + 1 then count + 1 + mx else count + 1)"
    and n: "n = (if c < mx then k else Suc k)"
    using f by (auto simp: nw_field_def Let_def T_def mx_def)
  have "(2::int) ^ k \<le> 2 ^ 30" using k by (intro power_increasing) auto
  then have mxu: "int_as_u32 mx = nat mx" using T by (simp add: int_as_u32_small T_def)
  obtain low br1 where peek: "fbr_peek br (Suc k) = (low, br1)" by (cases "fbr_peek br (Suc k)")
  have k32: "Suc k \<le> 32" using k by simp
  have at1: "fbr_at br1 p" "fbr_has br1 (Suc k)" "fsrc br1 = fsrc br" and low: "low = low_bits (le_val (fsrc br)) p (Suc k)"
    using fbr_peek_at [OF at, of "Suc k"] fbr_peek_has [OF at k32] fbr_peek_src [of br "Suc k"]
      fbr_peek_spec [OF at k32] peek by simp_all
  have con: "fbr_at (fbr_consume br1 (Suc k)) (p + Suc k)" "fbr_at (fbr_consume br1 k) (p + k)"
    using fbr_consume_at [OF at1(1,2)] fbr_consume_at [OF at1(1) fbr_has_mono [OF at1(2), of k]] by simp_all
  have lowk: "low AND int_as_u32 (T - 1) = low mod 2 ^ k"
    using k by (simp add: T_def int_as_u32_mask and_pow2_minus_1 del: One_nat_def)
  have "low AND int_as_u32 (2 * T - 1) = low mod 2 ^ Suc k"
    using k int_as_u32_mask [of "Suc k"] and_pow2_minus_1 [of low "Suc k"] by (simp add: T_def del: One_nat_def)
  then have lows: "low AND int_as_u32 (2 * T - 1) = low" by (simp add: low low_bits_def)
  have take: "ncount_take br remaining (2 ^ k) (Suc k) =
     (if low mod 2 ^ k < nat mx then Ok (int (low mod 2 ^ k), fbr_consume br1 k)
      else Ok (if T \<le> int low then int low - mx else int low, fbr_consume br1 (Suc k)))"
    using lowk lows mxu unfolding ncount_take_def Let_def peek prod.case T_def [symmetric] mx_def [symmetric] by simp
  show ?thesis
  proof (cases "c < mx")
    case True
    then have c1: "c = count + 1" using c T by (auto split: if_splits)
    have "low mod 2 ^ k = low_bits (le_val (fsrc br)) p k"
      by (simp add: low low_bits_def mod_mod_cancel)
    then have "low mod 2 ^ k = nat c" using field n True by simp
    then show ?thesis using True c1 bounds(1) con(2) at1(3) n unfolding take by (simp add: nat_less_eq_zless)
  next
    case False
    then have lc: "low = nat c" "n = Suc k" using field n low by simp_all
    have "\<not> low mod 2 ^ k < nat mx"
    proof (cases "T \<le> count + 1")
      case True
      have "nat (T + (c - T)) = nat T + nat (c - T)" using c True T by (intro nat_add_distrib) auto
      then have "nat c = 2 ^ k + nat (c - T)" by (simp add: nT)
      moreover have "nat (c - T) < 2 ^ k" using c True cnt(2) T nT by (simp add: mx_def flip: nT)
      ultimately have "low mod 2 ^ k = nat (c - T)" by (simp add: lc)
      then show ?thesis using c True T by simp
    next
      case False
      then have "nat c < 2 ^ k" using c nT T by (simp flip: nT)
      then show ?thesis using \<open>\<not> c < mx\<close> lc T by simp
    qed
    moreover have "(if T \<le> int low then int low - mx else int low) = count + 1"
      using c lc bounds(1) T cnt by (auto split: if_splits)
    ultimately show ?thesis using con(1) at1(3) lc(2) unfolding take by simp
  qed
qed

section \<open>The loops in step\<close>

text \<open>A distribution that can be written: it fills the table, and its last count is not zero.\<close>

definition nw_norm :: "nat \<Rightarrow> int list \<Rightarrow> nat \<Rightarrow> bool" where
  "nw_norm lg norm alphabet \<longleftrightarrow> alphabet \<le> length norm \<and> 0 < alphabet \<and> alphabet \<le> 256 \<and> lg \<le> 14
     \<and> (\<forall>c \<in> set (take alphabet norm). - 1 \<le> c) \<and> sum_list (map abs (take alphabet norm)) = 2 ^ lg
     \<and> norm ! (alphabet - 1) \<noteq> 0"

definition nw_inv :: "nat \<Rightarrow> int list \<Rightarrow> nat \<Rightarrow> int \<Rightarrow> nat \<Rightarrow> bool" where
  "nw_inv lg norm symbol remaining k \<longleftrightarrow> k \<le> lg \<and> 2 ^ k \<le> remaining \<and> remaining \<le> 2 * 2 ^ k - 1
     \<and> remaining + sum_list (map abs (take symbol norm)) = 2 ^ lg + 1"

definition nw_counts :: "int list \<Rightarrow> nat \<Rightarrow> int list" where
  "nw_counts norm s = take s norm @ replicate (256 - s) 0"

lemma sum_abs_nonneg: "0 \<le> sum_list (map abs (xs :: int list))"
  by (rule sum_list_nonneg) auto

lemma nw_sum_split:
  assumes "nw_norm lg norm alphabet" and "s < alphabet"
  shows "sum_list (map abs (take s norm)) + \<bar>norm ! s\<bar> + sum_list (map abs (take (alphabet - Suc s) (drop (Suc s) norm))) = 2 ^ lg"
proof -
  have "take alphabet norm = take s norm @ norm ! s # take (alphabet - Suc s) (drop (Suc s) norm)"
    using assms id_take_nth_drop [of s "take alphabet norm"]
    by (simp add: nw_norm_def min_def drop_take)
  then show ?thesis using assms(1) by (simp add: nw_norm_def)
qed

lemma nw_remaining:
  assumes norm: "nw_norm lg norm alphabet" and inv: "nw_inv lg norm s remaining k" and s: "s < alphabet"
  shows "2 \<le> remaining" and "- 1 \<le> norm ! s" and "norm ! s + 1 \<le> remaining" and "1 \<le> remaining - \<bar>norm ! s\<bar>"
proof -
  have sum: "remaining = \<bar>norm ! s\<bar> + sum_list (map abs (take (alphabet - Suc s) (drop (Suc s) norm))) + 1"
    using nw_sum_split [OF norm s] inv by (simp add: nw_inv_def)
  have "norm ! s \<in> set (take alphabet norm)"
    using norm s nth_mem [of s "take alphabet norm"] by (simp add: nw_norm_def)
  then show ge: "- 1 \<le> norm ! s" using norm by (simp add: nw_norm_def)
  show "norm ! s + 1 \<le> remaining" "1 \<le> remaining - \<bar>norm ! s\<bar>"
    using sum sum_abs_nonneg [of "take (alphabet - Suc s) (drop (Suc s) norm)"] by auto
  show "2 \<le> remaining"
  proof (cases "s = alphabet - 1")
    case True
    then have "norm ! s \<noteq> 0" using norm by (simp add: nw_norm_def)
    then show ?thesis using sum sum_abs_nonneg [of "take (alphabet - Suc s) (drop (Suc s) norm)"] by auto
  next
    case False
    let ?rest = "take (alphabet - Suc s) (drop (Suc s) norm)"
    have i: "alphabet - Suc (Suc s) < length ?rest" using False s norm by (auto simp: nw_norm_def)
    have "Suc s + (alphabet - Suc (Suc s)) = alphabet - 1" using False s by simp
    then have "?rest ! (alphabet - Suc (Suc s)) = norm ! (alphabet - 1)" using i norm False s by (simp add: nw_norm_def)
    then have "norm ! (alphabet - 1) \<in> set ?rest" using nth_mem [OF i] by simp
    then have "\<bar>norm ! (alphabet - 1)\<bar> \<le> sum_list (map abs ?rest)"
      by (intro member_le_sum_list) auto
    moreover have "norm ! (alphabet - 1) \<noteq> 0" using norm by (simp add: nw_norm_def)
    ultimately show ?thesis using sum by auto
  qed
qed

lemma nw_inv_end: "nw_norm lg norm alphabet \<Longrightarrow> nw_inv lg norm alphabet remaining k \<Longrightarrow> remaining = 1"
  by (simp add: nw_norm_def nw_inv_def)

lemma nw_inv_step:
  assumes norm: "nw_norm lg norm alphabet" and inv: "nw_inv lg norm s remaining k" and s: "s < alphabet"
  shows "\<exists>k'. shrink_threshold (remaining - \<bar>norm ! s\<bar>) (Suc k) (2 ^ k) = Ok (Suc k', 2 ^ k')
    \<and> nw_inv lg norm (Suc s) (remaining - \<bar>norm ! s\<bar>) k'"
proof -
  have "remaining - \<bar>norm ! s\<bar> \<le> 2 * 2 ^ k - 1" using inv unfolding nw_inv_def by linarith
  from shrink_threshold_spec [OF nw_remaining(4) [OF assms] this] obtain k' where
    "k' \<le> k" "shrink_threshold (remaining - \<bar>norm ! s\<bar>) (Suc k) (2 ^ k) = Ok (Suc k', 2 ^ k')"
    "2 ^ k' \<le> remaining - \<bar>norm ! s\<bar>" "remaining - \<bar>norm ! s\<bar> \<le> 2 * 2 ^ k' - 1" by auto
  moreover have "take (Suc s) norm = take s norm @ [norm ! s]"
    using s norm by (simp add: take_Suc_conv_app_nth nw_norm_def)
  ultimately show ?thesis using inv by (intro exI [of _ k']) (auto simp: nw_inv_def)
qed

lemma nw_counts_step:
  assumes norm: "nw_norm lg norm alphabet" and s: "s < alphabet"
  shows "upd (nw_counts norm s) s (as_i16 (norm ! s)) = Ok (nw_counts norm (Suc s))"
proof -
  have len: "s < length norm" "s < 256" using s norm by (simp_all add: nw_norm_def)
  have "\<bar>norm ! s\<bar> \<le> 2 ^ lg"
    using nw_sum_split [OF norm s] sum_abs_nonneg [of "take s norm"]
      sum_abs_nonneg [of "take (alphabet - Suc s) (drop (Suc s) norm)"] by linarith
  also have "(2::int) ^ lg \<le> 2 ^ 14" using norm by (intro power_increasing) (auto simp: nw_norm_def)
  finally have "as_i16 (norm ! s) = norm ! s" by (intro as_i16_small) auto
  moreover have "replicate (256 - s) (0::int) = 0 # replicate (256 - Suc s) 0"
    using len(2) by (simp flip: replicate_Suc add: Suc_diff_Suc)
  ultimately show ?thesis
    using len by (simp add: nw_counts_def upd_def list_update_append take_Suc_conv_app_nth)
qed

lemma nw_skip_spec:
  assumes "nw_norm lg norm alphabet" and "symbol < alphabet"
  shows "\<exists>s. nw_skip norm alphabet symbol = Ok s \<and> symbol \<le> s \<and> s < alphabet \<and> (\<forall>i. symbol \<le> i \<longrightarrow> i < s \<longrightarrow> norm ! i = 0)"
  using assms
proof (induction norm alphabet symbol rule: nw_skip.induct)
  case (1 norm alphabet symbol)
  have len: "symbol < length norm" using 1(2,3) by (simp add: nw_norm_def)
  show ?case
  proof (cases "norm ! symbol = 0")
    case True
    then have "Suc symbol < alphabet" using 1(2,3) by (cases "symbol = alphabet - 1") (auto simp: nw_norm_def)
    then obtain s where s: "nw_skip norm alphabet (Suc symbol) = Ok s" "Suc symbol \<le> s" "s < alphabet"
      "\<forall>i. Suc symbol \<le> i \<longrightarrow> i < s \<longrightarrow> norm ! i = 0"
      using 1(1) [of 0] 1(2,3) len True by auto
    then have "\<forall>i. symbol \<le> i \<longrightarrow> i < s \<longrightarrow> norm ! i = 0" using True by (metis Suc_leI le_neq_implies_less)
    moreover have "nw_skip norm alphabet symbol = nw_skip norm alphabet (Suc symbol)"
      using 1(3) len True by (subst nw_skip.simps) simp
    ultimately show ?thesis using s by auto
  next
    case False
    then show ?thesis using 1(3) len by (subst nw_skip.simps) auto
  qed
qed

text \<open>Skipped zeros change neither what remains nor the counts that were read.\<close>

lemma nw_skip_zeros:
  assumes "symbol \<le> s" and "s \<le> length norm" and "s \<le> 256" and zeros: "\<forall>i. symbol \<le> i \<longrightarrow> i < s \<longrightarrow> norm ! i = 0"
  shows "sum_list (map abs (take s norm)) = sum_list (map abs (take symbol norm))" and "nw_counts norm s = nw_counts norm symbol"
proof -
  have "take (s - symbol) (drop symbol norm) = replicate (s - symbol) 0"
    using assms by (intro nth_equalityI) auto
  then have t: "take s norm = take symbol norm @ replicate (s - symbol) 0"
    using take_add [of symbol "s - symbol" norm] assms(1) by simp
  then show "sum_list (map abs (take s norm)) = sum_list (map abs (take symbol norm))"
    by (simp add: sum_list_replicate)
  show "nw_counts norm s = nw_counts norm symbol"
    using assms(1,3) by (simp add: nw_counts_def t flip: replicate_add)
qed

text \<open>The writer's loop and the reader's loop, the reader standing where the writer stood.\<close>

definition nw_reads ::
  "nat \<Rightarrow> int list \<Rightarrow> nat \<Rightarrow> ncount_writer \<Rightarrow> nat \<Rightarrow> int \<Rightarrow> nat \<Rightarrow> bool \<Rightarrow> ncount_writer \<Rightarrow> bool" where
  "nw_reads lg norm alphabet w symbol remaining k previous0 w' \<longleftrightarrow>
     (\<forall>br. fbr_at br (nw_len w) \<longrightarrow> nw_holds (le_val (fsrc br)) w' \<longrightarrow>
        (\<exists>br'. ncount_loop br remaining (2 ^ k) (Suc k) (nw_counts norm symbol) symbol previous0
             = Ok (br', 1, nw_counts norm alphabet, alphabet)
           \<and> fbr_at br' (nw_len w') \<and> fsrc br' = fsrc br))"

lemma nw_reads_count:
  assumes norm: "nw_norm lg norm alphabet" and inv: "nw_inv lg norm s remaining k" and s: "s < alphabet" and ok: "nw_ok 16 w"
    and f: "nw_field (norm ! s) (2 ^ k) remaining (Suc k) = (c, n)"
    and sh: "shrink_threshold (remaining - \<bar>norm ! s\<bar>) (Suc k) (2 ^ k) = Ok (Suc k', 2 ^ k')"
    and rest: "nw_reads lg norm alphabet (nw_flush (nw_put w (nat c) n)) (Suc s) (remaining - \<bar>norm ! s\<bar>) k' (c = 1) w'"
    and ext: "nw_ext (nw_flush (nw_put w (nat c) n)) w'"
  shows "nw_reads lg norm alphabet w s remaining k False w'"
  unfolding nw_reads_def
proof (intro allI impI)
  fix br
  assume at: "fbr_at br (nw_len w)" and h: "nw_holds (le_val (fsrc br)) w'"
  note rem = nw_remaining [OF norm inv s]
  have r: "2 ^ k \<le> remaining" "remaining \<le> 2 * 2 ^ k - 1" "k \<le> 14" "s < 256"
    using inv norm s by (auto simp: nw_inv_def nw_norm_def)
  note b = nw_field_bounds [OF r(1,2) rem(2,3) f]
  have n: "n \<le> 16" using b(3) r(3) by simp
  note p = nw_put_flush [OF ok n b(2)]
  have "low_bits (le_val (fsrc br)) (nw_len w) n = nat c"
    by (rule nw_holds_field [OF ok p(1,2) b(2) nw_holds_ext [OF h ext]])
  then obtain br1 where br1: "ncount_take br remaining (2 ^ k) (Suc k) = Ok (norm ! s + 1, br1)"
    "fbr_at br1 (nw_len w + n)" "fsrc br1 = fsrc br"
    using nw_field_read [OF _ r(1,2) rem(2,3) f at] r(3) by auto
  then obtain br' where br': "ncount_loop br1 (remaining - \<bar>norm ! s\<bar>) (2 ^ k') (Suc k') (nw_counts norm (Suc s)) (Suc s) (c = 1)
      = Ok (br', 1, nw_counts norm alphabet, alphabet)" "fbr_at br' (nw_len w')" "fsrc br' = fsrc br"
    using rest h p(2) unfolding nw_reads_def by auto
  then show "\<exists>br'. ncount_loop br remaining (2 ^ k) (Suc k) (nw_counts norm s) s False
             = Ok (br', 1, nw_counts norm alphabet, alphabet) \<and> fbr_at br' (nw_len w') \<and> fsrc br' = fsrc br"
    using br1(1) rem(1) r(4) sh b(4) [OF rem(1)]
    by (subst ncount_loop_unfold) (auto simp: Let_def nw_counts_step [OF norm s])
qed

lemma nw_loop_spec:
  assumes "nw_norm lg norm alphabet" and "nw_inv lg norm symbol remaining k" and "symbol \<le> alphabet" and "nw_ok 16 w"
  shows "\<exists>w'. nw_loop norm alphabet symbol remaining (2 ^ k) (Suc k) previous0 w = Ok w' \<and> nw_ok 16 w' \<and> nw_ext w w'
    \<and> nw_reads lg norm alphabet w symbol remaining k previous0 w'"
  using assms
proof (induction "alphabet - symbol" arbitrary: symbol remaining k previous0 w rule: less_induct)
  case less
  note norm = less.prems(1) and inv = less.prems(2) and ok = less.prems(4)
  show ?case
  proof (cases "symbol < alphabet")
    case False
    then have "symbol = alphabet" using less.prems(3) by simp
    then have "remaining = 1" using nw_inv_end norm inv by simp
    then show ?thesis
      using \<open>symbol = alphabet\<close> ok nw_ext_refl [OF ok]
      by (subst nw_loop.simps) (auto simp: nw_reads_def ncount_loop.simps)
  next
    case True
    note rem = nw_remaining(1) [OF norm inv True]
    have count: "\<exists>w'. obind (idx norm s) (\<lambda>count. let (c, n) = nw_field count (2 ^ k) remaining (Suc k);
              remaining = remaining - \<bar>count\<bar>; w = nw_put w (int_as_u32 c) n in
          obind (shrink_threshold remaining (Suc k) (2 ^ k)) (\<lambda>(nb_bits, threshold).
          nw_loop norm alphabet (s + 1) remaining threshold nb_bits (c = 1) (nw_flush w))) = Ok w'
        \<and> nw_ok 16 w' \<and> nw_ext w w' \<and> nw_reads lg norm alphabet w s remaining k False w'"
      if s: "symbol \<le> s" "s < alphabet" and inv: "nw_inv lg norm s remaining k" and ok: "nw_ok 16 w" for s w
    proof -
      obtain c n where f: "nw_field (norm ! s) (2 ^ k) remaining (Suc k) = (c, n)" by fastforce
      obtain k' where sh: "shrink_threshold (remaining - \<bar>norm ! s\<bar>) (Suc k) (2 ^ k) = Ok (Suc k', 2 ^ k')"
        and inv': "nw_inv lg norm (Suc s) (remaining - \<bar>norm ! s\<bar>) k'"
        using nw_inv_step [OF norm inv s(2)] by blast
      have r: "2 ^ k \<le> remaining" "remaining \<le> 2 * 2 ^ k - 1" "k \<le> 14" "s < length norm"
        using inv norm s by (auto simp: nw_inv_def nw_norm_def)
      note b = nw_field_bounds [OF r(1,2) nw_remaining(2,3) [OF norm inv s(2)] f]
      have n: "n \<le> 16" using b(3) r(3) by simp
      note p = nw_put_flush [OF ok n b(2)]
      have "nat c < 2 ^ 16" using b(2) n by (meson order_less_le_trans power_increasing one_le_numeral)
      then have c: "int_as_u32 c = nat c" using b(1) by (intro int_as_u32_small) auto
      have "alphabet - Suc s < alphabet - symbol" using s by simp
      from less.hyps [OF this norm inv' _ p(3), of "c = 1"] s(2) obtain w' where
        w': "nw_loop norm alphabet (Suc s) (remaining - \<bar>norm ! s\<bar>) (2 ^ k') (Suc k') (c = 1) (nw_flush (nw_put w (nat c) n)) = Ok w'"
          "nw_ok 16 w'" "nw_ext (nw_flush (nw_put w (nat c) n)) w'"
          "nw_reads lg norm alphabet (nw_flush (nw_put w (nat c) n)) (Suc s) (remaining - \<bar>norm ! s\<bar>) k' (c = 1) w'"
        by auto
      show ?thesis
        using w' r(4) f sh c nw_ext_trans [OF nw_ext_put [OF ok p(1,2)] w'(3)] nw_reads_count [OF norm inv s(2) ok f sh w'(4,3)]
        by (simp add: Let_def)
    qed
    show ?thesis
    proof (cases previous0)
      case False
      then show ?thesis using count [OF order_refl True inv ok] True rem by (subst nw_loop.simps) (simp add: Let_def)
    next
      case prev: True
      obtain s where s: "nw_skip norm alphabet symbol = Ok s" "symbol \<le> s" "s < alphabet"
        "\<forall>i. symbol \<le> i \<longrightarrow> i < s \<longrightarrow> norm ! i = 0"
        using nw_skip_spec [OF norm True] by blast
      have "s \<le> length norm" "s \<le> 256" using s(3) norm by (auto simp: nw_norm_def)
      note zeros = nw_skip_zeros [OF s(2) this s(4)]
      have inv': "nw_inv lg norm s remaining k" using inv zeros(1) by (simp add: nw_inv_def)
      let ?w = "nw_zero_run s symbol w"
      note run = nw_zero_run_spec [OF s(2) ok]
      have "\<exists>w'. nw_loop norm alphabet symbol remaining (2 ^ k) (Suc k) previous0 w = Ok w'
          \<and> nw_ok 16 w' \<and> nw_ext ?w w' \<and> nw_reads lg norm alphabet ?w s remaining k False w'"
        using count [OF s(2,3) inv' run(1)] True rem prev s(1,3) by (subst nw_loop.simps) (simp add: Let_def)
      then obtain w' where w': "nw_loop norm alphabet symbol remaining (2 ^ k) (Suc k) previous0 w = Ok w'"
          "nw_ok 16 w'" "nw_ext ?w w'" "nw_reads lg norm alphabet ?w s remaining k False w'" by blast
      have "nw_reads lg norm alphabet w symbol remaining k previous0 w'"
        unfolding nw_reads_def
      proof (intro allI impI)
        fix br
        assume at: "fbr_at br (nw_len w)" and h: "nw_holds (le_val (fsrc br)) w'"
        obtain br1 rpt br2 rpt2 v br3 where rd: "rd_run24 br symbol = (rpt, br1)" "rd_run3 br1 rpt = (rpt2, br2)"
          "fbr_read br2 2 = (v, br3)" "rpt2 + v = s" "fbr_at br3 (nw_len ?w)" "fsrc br3 = fsrc br"
          using run(3) [OF at nw_holds_ext [OF h w'(3)]] by blast
        have "ncount_loop br remaining (2 ^ k) (Suc k) (nw_counts norm symbol) symbol previous0
            = ncount_loop br3 remaining (2 ^ k) (Suc k) (nw_counts norm s) s False"
          using rem True norm prev rd(1-4) zeros(2) s(3)
          by (subst ncount_loop_unfold) (simp add: nw_norm_def min_def)
        then show "\<exists>br'. ncount_loop br remaining (2 ^ k) (Suc k) (nw_counts norm symbol) symbol previous0
             = Ok (br', 1, nw_counts norm alphabet, alphabet) \<and> fbr_at br' (nw_len w') \<and> fsrc br' = fsrc br"
          using w'(4) rd(5,6) h unfolding nw_reads_def by (metis (no_types, lifting))
      qed
      then show ?thesis using w' nw_ext_trans [OF run(2) w'(3)] by blast
    qed
  qed
qed

section \<open>The whole description\<close>

text \<open>The trailing bytes are the little-endian bytes of the accumulator.\<close>

lemma trailing_bytes:
  fixes x :: u32
  shows "n \<le> 4 \<Longrightarrow> map (\<lambda>i. ucast (drop_bit (8 * i) x)) [0..<n] = le_bytes n (unat x)"
proof (induction n)
  case (Suc n)
  have snoc: "le_bytes (Suc n) v = le_bytes n v @ [word_of_nat (v div 256 ^ n)]" for n v
    by (induction n arbitrary: v) (simp_all add: div_mult2_eq)
  have bytes: "(ucast y :: byte) = word_of_nat (unat y)" for y :: u32 by simp
  have "unat (drop_bit (8 * n) x) = unat x div 2 ^ (8 * n)"
    by (simp only: unat_drop_bit_eq drop_bit_eq_div [of _ "unat x"])
  then have "(ucast (drop_bit (8 * n) x) :: byte) = word_of_nat (unat x div 256 ^ n)"
    using bytes [of "drop_bit (8 * n) x"] by (simp add: power_mult del: of_nat_unat)
  then show ?case using Suc by (simp add: snoc del: le_bytes.simps)
qed simp

lemma write_ncount_bytes:
  assumes norm: "nw_norm lg norm (Suc ms)" and lg: "5 \<le> lg"
  shows "\<exists>w0 w out. write_ncount norm ms lg = Ok out \<and> nw_len w0 = 4 \<and> nw_val w0 = lg - 5 \<and> nw_ok 16 w0 \<and> nw_ext w0 w
    \<and> nw_reads lg norm (Suc ms) w0 0 (2 ^ lg + 1) lg False w
    \<and> le_val out = nw_val w \<and> length out = div_ceil (nw_len w) 8 \<and> nw_val w < 2 ^ nw_len w"
proof -
  define e where "e = \<lparr>nw_stream = 0, nw_bits = 0, nw_out = []\<rparr>"
  have e: "nw_ok 16 e" "nw_bits e + 4 \<le> 32" "nw_val e = 0" "nw_len e = 0" "nw_bits e = 0"
    by (simp_all add: e_def nw_ok_def nw_val_def nw_len_def)
  have lg14: "lg \<le> 14" using norm by (simp add: nw_norm_def)
  then have v: "lg - 5 < 2 ^ 4" by simp
  define w0 where "w0 = nw_put e (lg - 5) 4"
  note p = nw_put_val [OF e(1,2) v, folded w0_def]
  have w0: "nw_ok 16 w0" "nw_len w0 = 4" "nw_val w0 = lg - 5" using p e by (auto simp: nw_ok_def)
  have "(2::int) ^ 1 \<le> 2 ^ lg" using lg by (intro power_increasing) auto
  then have "nw_inv lg norm 0 (2 ^ lg + 1) lg" by (simp add: nw_inv_def)
  from nw_loop_spec [OF norm this _ w0(1), of False] obtain w where
    w: "nw_loop norm (Suc ms) 0 (2 ^ lg + 1) (2 ^ lg) (Suc lg) False w0 = Ok w" "nw_ok 16 w" "nw_ext w0 w"
      "nw_reads lg norm (Suc ms) w0 0 (2 ^ lg + 1) lg False w" by auto
  define n where "n = (nw_bits w + 7) div 8"
  have n: "n \<le> 4" "n \<le> 2" using w(2) by (auto simp: n_def nw_ok_def)
  have "unat (nw_stream w) < 2 ^ nw_bits w" using w(2) by (simp add: nw_ok_def)
  also have "(2::nat) ^ nw_bits w \<le> 2 ^ (8 * n)" by (intro power_increasing) (auto simp: n_def)
  finally have "le_val (le_bytes n (unat (nw_stream w))) = unat (nw_stream w)"
    by (intro le_val_le_bytes_small) (simp add: power_mult)
  then have val: "le_val (nw_out w @ le_bytes n (unat (nw_stream w))) = nw_val w"
    by (simp add: nw_val_def le_val_append_bits)
  have "div_ceil (8 * length (nw_out w) + nw_bits w) 8 = length (nw_out w) + n"
    by (auto simp: div_ceil_def n_def) presburger+
  then have len: "length (nw_out w @ le_bytes n (unat (nw_stream w))) = div_ceil (nw_len w) 8"
    by (simp add: nw_len_def)
  have "write_ncount norm ms lg = Ok (nw_out w @ le_bytes n (unat (nw_stream w)))"
    using w(1) lg trailing_bytes [OF n(1), of "nw_stream w"]
    by (simp add: write_ncount_def w0_def e_def n_def)
  then show ?thesis using w0 w(3,4) val len nw_val_less [OF w(2)] by blast
qed

lemma ncount_roundtrip:
  assumes norm: "nw_norm lg norm (Suc ms)" and lg: "5 \<le> lg" "lg \<le> max_log" "lg \<le> 15"
  shows "post (write_ncount norm ms lg) (\<lambda>out. read_ncount (out @ rest) max_log
    = Ok \<lparr>nc_counts = take (ms + 1) norm @ replicate (255 - ms) 0, nc_max_symbol = ms, nc_table_log = lg,
         nc_bytes_consumed = length out\<rparr>) (\<lambda>_. False)"
proof -
  obtain w0 w out where out: "write_ncount norm ms lg = Ok out" and w0: "nw_len w0 = 4" "nw_val w0 = lg - 5" "nw_ok 16 w0"
    and ext: "nw_ext w0 w" and reads: "nw_reads lg norm (Suc ms) w0 0 (2 ^ lg + 1) lg False w"
    and val: "le_val out = nw_val w" "length out = div_ceil (nw_len w) 8" "nw_val w < 2 ^ nw_len w"
    using write_ncount_bytes [OF norm lg(1)] by blast
  let ?src = "out @ rest"
  have len: "nw_len w \<le> 8 * length out" using div_ceil_bounds(1) [of 8 "nw_len w"] by (simp add: val(2))
  then have "(2::nat) ^ nw_len w dvd 2 ^ (8 * length out)" by (intro le_imp_power_dvd)
  then obtain q where q: "(2::nat) ^ (8 * length out) = 2 ^ nw_len w * q" by (elim dvdE)
  have "le_val ?src = nw_val w + 2 ^ nw_len w * (q * le_val rest)"
    by (simp add: le_val_append_bits val(1) q)
  then have h: "nw_holds (le_val ?src) w" using val(3) by (simp add: nw_holds_def)
  obtain v br where rd: "fbr_read (fbr_new ?src) 4 = (v, br)" by (cases "fbr_read (fbr_new ?src) 4")
  have at: "fbr_at br 4" "fsrc br = ?src" and v: "v = low_bits (le_val ?src) 0 4"
    using fbr_read_at [OF fbr_new_at, of 4 ?src] rd by simp_all
  have "nw_holds (le_val ?src) w0" by (rule nw_holds_ext [OF h ext])
  then have v: "v + 5 = lg" using w0 lg(1) v by (simp add: nw_holds_def low_bits_def)
  obtain br' where br': "ncount_loop br (2 ^ lg + 1) (2 ^ lg) (Suc lg) (nw_counts norm 0) 0 False
      = Ok (br', 1, nw_counts norm (Suc ms), Suc ms)" "fbr_at br' (nw_len w)" "fsrc br' = ?src"
    using reads at h w0(1) unfolding nw_reads_def by metis
  have "fbr_bytes_consumed br' = length out"
    using fbr_bytes_consumed_eq [OF br'(2)] br'(3) len val(2) by simp
  moreover have "nw_counts norm 0 = replicate 256 0" "nw_counts norm (Suc ms) = take (ms + 1) norm @ replicate (255 - ms) 0"
    by (simp_all add: nw_counts_def)
  ultimately show ?thesis
    using br'(1) lg v unfolding out
    by (simp add: read_ncount_def rd FSE_MAX_TABLELOG_def)
qed

section \<open>Normalization\<close>

text \<open>The proportional share of a symbol of frequency \<open>f\<close>, and the pass over the histogram: the
  shares, what is assigned, and the most frequent symbol with its frequency.\<close>

definition norm_share :: "nat \<Rightarrow> nat \<Rightarrow> nat \<Rightarrow> nat" where
  "norm_share f sz tot = (let p = as_u32 (f * sz div tot) in if p = 0 then 1 else p)"

fun norm_pass ::
  "nat \<Rightarrow> nat \<Rightarrow> nat \<Rightarrow> nat list \<Rightarrow> nat \<Rightarrow> nat \<Rightarrow> nat \<Rightarrow> (int list \<times> nat \<times> nat) result" where
  "norm_pass sz tot s [] assigned largest largest_freq = Ok ([], assigned, largest)"
| "norm_pass sz tot s (f # fs) assigned largest largest_freq =
     (if f = 0 then
        obind (norm_pass sz tot (s + 1) fs assigned largest largest_freq) (\<lambda>(norm, a, l). Ok (0 # norm, a, l))
      else if tot = 0 then Panic
      else
        let p = norm_share f sz tot;
            (largest, largest_freq) = (if largest_freq < f then (s, f) else (largest, largest_freq)) in
        if 2 ^ 32 \<le> assigned + p then Panic
        else
          obind (norm_pass sz tot (s + 1) fs (assigned + p) largest largest_freq) (\<lambda>(norm, a, l).
          Ok (as_i16 (int p) # norm, a, l)))"

text \<open>Too much was assigned: take units from the most frequent symbol, then from the first symbol that
  can spare one.\<close>

definition first_above :: "int list \<Rightarrow> nat option" where
  "first_above norm = (let i = length (takeWhile (\<lambda>c. \<not> 1 < c) norm) in if i < length norm then Some i else None)"

function norm_reduce :: "nat \<Rightarrow> nat \<Rightarrow> int list \<Rightarrow> nat \<Rightarrow> (int list \<times> nat) result" where
  "norm_reduce sz largest norm assigned =
     (if sz < assigned then
        obind (idx norm largest) (\<lambda>c.
        if 1 < c then norm_reduce sz largest (norm[largest := c - 1]) (assigned - 1)
        else
          (case first_above norm of
             Some d \<Rightarrow> norm_reduce sz largest (norm[d := norm ! d - 1]) (assigned - 1)
           | None \<Rightarrow> Ok (norm, assigned)))
      else Ok (norm, assigned))"
  by pat_completeness auto
termination by (relation "measure (\<lambda>(sz, l, norm, assigned). assigned)") auto

function norm_grow :: "nat \<Rightarrow> nat \<Rightarrow> int list \<Rightarrow> nat \<Rightarrow> int list result" where
  "norm_grow sz largest norm assigned =
     (if assigned < sz then
        obind (idx norm largest) (\<lambda>c.
        if c = 32767 then Panic
        else norm_grow sz largest (norm[largest := c + 1]) (assigned + 1))
      else Ok norm)"
  by pat_completeness auto
termination by (relation "measure (\<lambda>(sz, l, norm, assigned). sz - assigned)") auto

declare norm_reduce.simps [simp del] norm_grow.simps [simp del]

definition normalize_counts :: "nat list \<Rightarrow> nat \<Rightarrow> nat \<Rightarrow> nat \<Rightarrow> int list result" where
  "normalize_counts freq tot max_symbol table_log =
     (let sz = 2 ^ table_log in
      obind (slice_range freq 0 (max_symbol + 1)) (\<lambda>freqs.
      obind (norm_pass sz tot 0 freqs 0 0 0) (\<lambda>(norm, assigned, largest).
      obind (norm_reduce sz largest norm assigned) (\<lambda>(norm, assigned).
      norm_grow sz largest norm assigned))))"

text \<open>The relation that every stage keeps: present symbols, and only they, have a positive count.\<close>

definition norm_shape :: "nat list \<Rightarrow> int list \<Rightarrow> bool" where
  "norm_shape freqs norm \<longleftrightarrow> length norm = length freqs
     \<and> (\<forall>i < length freqs. 0 \<le> norm ! i \<and> (norm ! i = 0 \<longleftrightarrow> freqs ! i = 0))"

lemma norm_shape_Cons:
  "norm_shape freqs norm \<Longrightarrow> 0 \<le> c \<Longrightarrow> (c = 0 \<longleftrightarrow> f = 0) \<Longrightarrow> norm_shape (f # freqs) (c # norm)"
  by (auto simp: norm_shape_def less_Suc_eq_0_disj)

lemma norm_shape_update:
  "norm_shape freqs norm \<Longrightarrow> freqs ! i \<noteq> 0 \<Longrightarrow> 0 < c \<Longrightarrow> norm_shape freqs (norm[i := c])"
  unfolding norm_shape_def
proof (intro conjI allI impI)
  fix j
  assume shape: "length norm = length freqs \<and> (\<forall>i < length freqs. 0 \<le> norm ! i \<and> (norm ! i = 0 \<longleftrightarrow> freqs ! i = 0))"
    and i: "freqs ! i \<noteq> 0" and c: "0 < c" and j: "j < length freqs"
  show "0 \<le> norm[i := c] ! j" using shape c j by (cases "j = i") (simp_all add: less_imp_le)
  show "norm[i := c] ! j = 0 \<longleftrightarrow> freqs ! j = 0" using shape i c j by (cases "j = i") simp_all
qed simp

lemma norm_share_bounds:
  assumes "0 < tot" and "f \<le> tot" and "lg \<le> 14"
  shows "1 \<le> norm_share f (2 ^ lg) tot" and "norm_share f (2 ^ lg) tot \<le> 2 ^ 14"
proof -
  have "f * 2 ^ lg div tot \<le> tot * 2 ^ lg div tot" using assms(2) by (intro div_le_mono mult_le_mono1)
  then have le: "f * 2 ^ lg div tot \<le> 2 ^ lg" using assms(1) by simp
  also have "(2::nat) ^ lg \<le> 2 ^ 14" using assms(3) by (intro power_increasing) auto
  finally have "f * 2 ^ lg div tot \<le> 2 ^ 14" .
  then show "1 \<le> norm_share f (2 ^ lg) tot" "norm_share f (2 ^ lg) tot \<le> 2 ^ 14"
    by (auto simp: norm_share_def Let_def as_u32_small)
qed

lemma norm_pass_post:
  assumes "0 < tot" and "lg \<le> 14" and "\<forall>f \<in> set fs. f \<le> tot" and "assigned + length fs * 2 ^ 14 < 2 ^ 32"
  shows "post (norm_pass (2 ^ lg) tot s fs assigned largest largest_freq) (\<lambda>(norm, a, l).
      norm_shape fs norm \<and> int a = int assigned + sum_list norm
      \<and> (l = largest \<and> (0 < largest_freq \<or> (\<forall>f \<in> set fs. f = 0)) \<or> s \<le> l \<and> l < s + length fs \<and> fs ! (l - s) \<noteq> 0)) (\<lambda>_. False)"
  using assms(3,4)
proof (induction fs arbitrary: s assigned largest largest_freq)
  case Nil
  then show ?case by (simp add: norm_shape_def)
next
  case (Cons f fs)
  show ?case
  proof (cases "f = 0")
    case True
    have "assigned + length fs * 2 ^ 14 < 2 ^ 32" using Cons.prems(2) by simp
    from Cons.IH [OF _ this, of "s + 1" largest largest_freq] True Cons.prems(1) show ?thesis
      by (auto simp: wp norm_shape_Cons nth_Cons' elim!: post_mono)
  next
    case False
    define p where "p = norm_share f (2 ^ lg) tot"
    have p: "1 \<le> p" "p \<le> 2 ^ 14" using norm_share_bounds [OF assms(1) _ assms(2), of f] Cons.prems(1) by (simp_all add: p_def)
    have a: "assigned + p + length fs * 2 ^ 14 < 2 ^ 32" "\<not> 2 ^ 32 \<le> assigned + p" using Cons.prems(2) p by auto
    have i16: "as_i16 (int p) = int p" using p by (intro as_i16_small) auto
    define l lf where "l = (if largest_freq < f then s else largest)" and "lf = (if largest_freq < f then f else largest_freq)"
    have pair: "(if largest_freq < f then (s, f) else (largest, largest_freq)) = (l, lf)" by (simp add: l_def lf_def)
    have "0 < lf" using False by (auto simp: lf_def)
    have IH: "post (norm_pass (2 ^ lg) tot (s + 1) fs (assigned + p) l lf) (\<lambda>(norm, a, l').
      norm_shape fs norm \<and> int a = int (assigned + p) + sum_list norm
      \<and> (l' = l \<and> (0 < lf \<or> (\<forall>f \<in> set fs. f = 0)) \<or> s + 1 \<le> l' \<and> l' < s + 1 + length fs \<and> fs ! (l' - (s + 1)) \<noteq> 0)) (\<lambda>_. False)"
      using Cons.prems(1) a(1) by (intro Cons.IH) auto
    then have "post (norm_pass (2 ^ lg) tot (s + 1) fs (assigned + p) l lf) (\<lambda>(norm, a, l').
      norm_shape (f # fs) (int p # norm) \<and> int a = int assigned + sum_list (int p # norm)
      \<and> (l' = largest \<and> (0 < largest_freq \<or> (\<forall>f \<in> set (f # fs). f = 0)) \<or> s \<le> l' \<and> l' < s + length (f # fs) \<and> (f # fs) ! (l' - s) \<noteq> 0)) (\<lambda>_. False)"
      by (rule post_mono) (use False p in \<open>auto simp: l_def lf_def norm_shape_Cons nth_Cons' split: if_splits\<close>)
    then show ?thesis
      using False assms(1) a(2) i16 pair unfolding p_def
      by (auto simp: wp Let_def elim!: post_mono)
  qed
qed

lemma first_above_spec:
  assumes "x \<in> set norm" and "1 < x"
  shows "\<exists>d. first_above norm = Some d \<and> d < length norm \<and> 1 < norm ! d"
proof -
  have "takeWhile (\<lambda>c. \<not> 1 < c) norm \<noteq> norm" using assms by (auto simp: takeWhile_eq_all_conv)
  moreover have "takeWhile (\<lambda>c. \<not> 1 < c) norm = take (length (takeWhile (\<lambda>c. \<not> 1 < c) norm)) norm"
    by (rule takeWhile_eq_take)
  ultimately have "length (takeWhile (\<lambda>c. \<not> 1 < c) norm) < length norm" by (metis not_le_imp_less take_all)
  then show ?thesis
    using nth_length_takeWhile [of "\<lambda>c. \<not> 1 < c" norm] by (simp add: first_above_def Let_def)
qed

lemma sum_list_pigeon:
  assumes "norm_shape freqs norm" and "int (length (filter (\<lambda>f. f \<noteq> 0) freqs)) < sum_list norm"
  shows "\<exists>x \<in> set norm. 1 < x"
proof (rule ccontr)
  assume neg: "\<not> (\<exists>x \<in> set norm. 1 < x)"
  have "list_all2 (\<lambda>f c. c \<le> (if f \<noteq> 0 then 1 else 0)) freqs norm"
    using assms(1) neg by (auto simp: list_all2_conv_all_nth norm_shape_def all_set_conv_all_nth not_less)
  then have "sum_list norm \<le> int (length (filter (\<lambda>f. f \<noteq> 0) freqs))"
    by (induction freqs norm rule: list_all2_induct) (auto split: if_splits)
  then show False using assms(2) by simp
qed

lemma sum_list_update_int: "i < length xs \<Longrightarrow> sum_list (xs[i := v]) = sum_list xs + v - (xs ! i :: int)"
  using sum_list_map_update [of i xs "\<lambda>x. x" v] by simp

lemma norm_reduce_post:
  assumes "norm_shape freqs norm" and "int assigned = sum_list norm" and present: "length (filter (\<lambda>f. f \<noteq> 0) freqs) \<le> sz"
    and l: "largest < length freqs" "freqs ! largest \<noteq> 0"
  shows "post (norm_reduce sz largest norm assigned) (\<lambda>(norm', a). norm_shape freqs norm' \<and> int a = sum_list norm' \<and> a \<le> sz) (\<lambda>_. False)"
  using assms(1,2)
proof (induction assigned arbitrary: norm rule: less_induct)
  case (less assigned)
  note shape = less.prems(1) and sum = less.prems(2)
  have len: "length norm = length freqs" using shape by (simp add: norm_shape_def)
  show ?case
  proof (cases "sz < assigned")
    case False
    then show ?thesis using less.prems by (subst norm_reduce.simps) simp
  next
    case True
    have take: "post (norm_reduce sz largest (norm[i := norm ! i - 1]) (assigned - 1))
        (\<lambda>(norm', a). norm_shape freqs norm' \<and> int a = sum_list norm' \<and> a \<le> sz) (\<lambda>_. False)"
      if i: "i < length norm" "1 < norm ! i" for i
    proof (rule less.IH)
      have "freqs ! i \<noteq> 0" using shape i len by (auto simp: norm_shape_def)
      then show "norm_shape freqs (norm[i := norm ! i - 1])" using shape i by (intro norm_shape_update) auto
      show "int (assigned - 1) = sum_list (norm[i := norm ! i - 1])"
        using sum True i by (simp add: sum_list_update_int of_nat_diff)
    qed (use True in simp)
    show ?thesis
    proof (cases "1 < norm ! largest")
      case big: True
      then show ?thesis using True take [of largest] l len by (subst norm_reduce.simps) simp
    next
      case False
      have "int (length (filter (\<lambda>f. f \<noteq> 0) freqs)) < sum_list norm" using present True sum by linarith
      then obtain x where "x \<in> set norm" "1 < x" using sum_list_pigeon [OF shape] by blast
      then obtain d where "first_above norm = Some d" "d < length norm" "1 < norm ! d" using first_above_spec by blast
      then show ?thesis using True False take [of d] l len by (subst norm_reduce.simps) simp
    qed
  qed
qed

lemma norm_grow_post:
  assumes "norm_shape freqs norm" and "int assigned = sum_list norm" and "assigned \<le> sz" and "sz \<le> 2 ^ 14"
    and l: "largest < length freqs" "freqs ! largest \<noteq> 0"
  shows "post (norm_grow sz largest norm assigned) (\<lambda>norm'. norm_shape freqs norm' \<and> sum_list norm' = int sz) (\<lambda>_. False)"
  using assms(1-3)
proof (induction "sz - assigned" arbitrary: norm assigned rule: less_induct)
  case less
  note shape = less.prems(1) and sum = less.prems(2)
  have len: "length norm = length freqs" using shape by (simp add: norm_shape_def)
  show ?case
  proof (cases "assigned < sz")
    case False
    then show ?thesis using less.prems by (subst norm_grow.simps) simp
  next
    case True
    have pos: "0 \<le> norm ! largest" using shape l by (simp add: norm_shape_def)
    have "\<forall>c \<in> set norm. 0 \<le> c" using shape len by (auto simp: norm_shape_def in_set_conv_nth)
    then have "norm ! largest \<le> sum_list norm" using l len by (intro member_le_sum_list) auto
    then have "norm ! largest \<noteq> 32767" using sum True assms(4) by auto
    moreover have "post (norm_grow sz largest (norm[largest := norm ! largest + 1]) (assigned + 1))
        (\<lambda>norm'. norm_shape freqs norm' \<and> sum_list norm' = int sz) (\<lambda>_. False)"
    proof (rule less.hyps)
      show "norm_shape freqs (norm[largest := norm ! largest + 1])" using shape l pos by (intro norm_shape_update) auto
      show "int (assigned + 1) = sum_list (norm[largest := norm ! largest + 1])"
        using sum l len by (simp add: sum_list_update_int)
    qed (use True in auto)
    ultimately show ?thesis using True l len by (subst norm_grow.simps) simp
  qed
qed

lemma normalize_counts_post:
  assumes "max_symbol < length freq" and "max_symbol < 256" and lg: "lg \<le> 14"
    and tot: "tot = sum_list (take (max_symbol + 1) freq)" "0 < tot"
    and present: "length (filter (\<lambda>f. f \<noteq> 0) (take (max_symbol + 1) freq)) \<le> 2 ^ lg"
  shows "post (normalize_counts freq tot max_symbol lg)
    (\<lambda>norm. norm_shape (take (max_symbol + 1) freq) norm \<and> sum_list norm = 2 ^ lg) (\<lambda>_. False)"
proof -
  define fs where "fs = take (max_symbol + 1) freq"
  have len: "length fs = max_symbol + 1" using assms(1) by (simp add: fs_def)
  have le: "\<forall>f \<in> set fs. f \<le> tot" using tot(1) member_le_sum_list [of _ fs] by (simp add: fs_def)
  have ex: "\<not> (\<forall>f \<in> set fs. f = 0)"
  proof
    assume "\<forall>f \<in> set fs. f = 0"
    then have "sum_list fs = 0" by (simp only: sum_list_eq_0_iff)
    moreover have "0 < sum_list fs" using tot unfolding fs_def by simp
    ultimately show False by linarith
  qed
  have sz: "(2::nat) ^ lg \<le> 2 ^ 14" using lg by (intro power_increasing) auto
  have slice: "slice_range freq 0 (max_symbol + 1) = (Ok fs :: nat list result)" using assms(1) by (simp add: fs_def)
  have grow: "post (norm_grow (2 ^ lg) l norm a) (\<lambda>norm'. norm_shape fs norm' \<and> sum_list norm' = 2 ^ lg) (\<lambda>_. False)"
    if "norm_shape fs norm" "int a = sum_list norm" "a \<le> 2 ^ lg" "l < length fs" "0 < fs ! l" for l norm a
    using norm_grow_post [of fs norm a "2 ^ lg" l] that sz by simp
  have "post (norm_pass (2 ^ lg) tot 0 fs 0 0 0) (\<lambda>(norm, a, l).
      norm_shape fs norm \<and> int a = sum_list norm \<and> l < length fs \<and> fs ! l \<noteq> 0) (\<lambda>_. False)"
    using ex by (intro post_mono [OF norm_pass_post [OF tot(2) lg le]]) (use len assms(2) in auto)
  then show ?thesis
    unfolding normalize_counts_def Let_def slice obind_simps fs_def [symmetric]
    using present [folded fs_def] sz
    by (auto simp: wp elim!: post_mono intro!: post_mono [OF norm_reduce_post] grow)
qed

lemma norm_shape_valid:
  assumes "norm_shape (take (ms + 1) freq) norm" and "sum_list norm = 2 ^ lg" and "ms < length freq" and "ms < 256"
  shows "valid_norm norm ms lg" and "length norm = ms + 1"
proof -
  show len: "length norm = ms + 1" using assms(1,3) by (simp add: norm_shape_def)
  have nonneg: "\<forall>c \<in> set norm. 0 \<le> c" using assms(1) len by (auto simp: norm_shape_def in_set_conv_nth)
  then have "map abs norm = norm" by (intro map_idI) auto
  then show "valid_norm norm ms lg" using assms nonneg len by (auto simp: valid_norm_def)
qed

text \<open>A fresh table for a histogram: the counts, and the description that reads back.\<close>

lemma fresh_norm:
  assumes k: "k < length freq" "k < 256" "freq ! k \<noteq> 0" and lg: "5 \<le> lg" "lg \<le> max_log" "lg \<le> 14"
    and tot: "tot = sum_list (take (k + 1) freq)" "0 < tot"
    and present: "length (filter (\<lambda>f. f \<noteq> 0) (take (k + 1) freq)) \<le> 2 ^ lg"
  obtains norm header where "normalize_counts freq tot k lg = Ok norm" and "valid_norm norm k lg" and "length norm = k + 1"
    and "\<forall>s \<le> k. 0 \<le> norm ! s \<and> (norm ! s = 0 \<longleftrightarrow> freq ! s = 0)" and "write_ncount norm k lg = Ok header"
    and "\<forall>rest. read_ncount (header @ rest) max_log = Ok \<lparr>nc_counts = norm @ replicate (255 - k) 0,
      nc_max_symbol = k, nc_table_log = lg, nc_bytes_consumed = length header\<rparr>"
proof -
  obtain norm where norm: "normalize_counts freq tot k lg = Ok norm" "norm_shape (take (k + 1) freq) norm" "sum_list norm = 2 ^ lg"
    using normalize_counts_post [OF k(1,2) lg(3) tot present] by (cases "normalize_counts freq tot k lg") auto
  note v = norm_shape_valid [OF norm(2,3) k(1,2)]
  have nz: "0 \<le> norm ! s \<and> (norm ! s = 0 \<longleftrightarrow> freq ! s = 0)" if "s \<le> k" for s
    using norm(2) k(1) that by (auto simp: norm_shape_def)
  have "nw_norm lg norm (Suc k)" using v nz [of k] k(3) lg(3) by (auto simp: valid_norm_def nw_norm_def)
  note rt = ncount_roundtrip [OF this lg(1,2)]
  obtain header where hd: "write_ncount norm k lg = Ok header"
    using rt [of "[]"] lg(3) by (cases "write_ncount norm k lg") auto
  have "read_ncount (header @ rest) max_log = Ok \<lparr>nc_counts = norm @ replicate (255 - k) 0,
      nc_max_symbol = k, nc_table_log = lg, nc_bytes_consumed = length header\<rparr>" for rest
    using rt [of rest] lg(3) hd v(2) by simp
  then show ?thesis using that norm(1) v nz hd by blast
qed

section \<open>Properties\<close>

text \<open>C33: normalization of a histogram is safe and valid: no index, no subtraction and no \<open>i16\<close> or
  \<open>u32\<close> addition fails, exactly the symbols that occur get a positive count, and the counts sum to
  the size of the table, so that the description writer and the table builders accept them.\<close>

theorem normalize_counts_valid:
  assumes "max_symbol < length freq" and "max_symbol < 256" and "lg \<le> 14"
    and "tot = sum_list (take (max_symbol + 1) freq)" and "0 < tot"
    and "length (filter (\<lambda>f. f \<noteq> 0) (take (max_symbol + 1) freq)) \<le> 2 ^ lg"
  shows "post (normalize_counts freq tot max_symbol lg)
    (\<lambda>norm. valid_norm norm max_symbol lg \<and> length norm = max_symbol + 1
       \<and> (\<forall>s \<le> max_symbol. 0 \<le> norm ! s \<and> (norm ! s = 0 \<longleftrightarrow> freq ! s = 0))) (\<lambda>_. False)"
  using normalize_counts_post [OF assms]
  by (rule post_mono) (use assms norm_shape_valid in \<open>auto simp: norm_shape_def\<close>)

theorem normalize_counts_valid_witness:
  "post (normalize_counts [1, 1000, 0, 3, 9] 1013 4 5)
    (\<lambda>norm. valid_norm norm 4 5 \<and> length norm = 4 + 1
       \<and> (\<forall>s \<le> 4. 0 \<le> norm ! s \<and> (norm ! s = 0 \<longleftrightarrow> [1, 1000, 0, 3, 9 :: nat] ! s = 0))) (\<lambda>_. False)"
  by (rule normalize_counts_valid) simp_all

text \<open>C34: the table description round-trips: for every normalized distribution whose last symbol
  occurs (with low-probability counts \<open>-1\<close> and runs of absent symbols of any length), the writer
  does not fail, and the reader returns the same counts, accuracy log and last symbol and consumes
  exactly the bytes written, whatever follows them.\<close>

theorem write_ncount_roundtrip:
  assumes "valid_norm norm ms lg" and "norm ! ms \<noteq> 0" and "5 \<le> lg" and "lg \<le> max_log" and "lg \<le> 14"
  shows "post (write_ncount norm ms lg) (\<lambda>out. read_ncount (out @ rest) max_log
    = Ok \<lparr>nc_counts = take (ms + 1) norm @ replicate (255 - ms) 0, nc_max_symbol = ms, nc_table_log = lg,
         nc_bytes_consumed = length out\<rparr>) (\<lambda>_. False)"
  by (rule ncount_roundtrip) (use assms in \<open>auto simp: valid_norm_def nw_norm_def\<close>)

theorem write_ncount_roundtrip_witness:
  "post (write_ncount ([12, -1] @ replicate 40 0 @ [0, 17, 2, 0]) 44 5) (\<lambda>out. read_ncount (out @ [7]) 9
    = Ok \<lparr>nc_counts = take (44 + 1) ([12, -1] @ replicate 40 0 @ [0, 17, 2, 0]) @ replicate (255 - 44) 0,
         nc_max_symbol = 44, nc_table_log = 5, nc_bytes_consumed = length out\<rparr>) (\<lambda>_. False)"
  by (rule write_ncount_roundtrip) (simp_all add: valid_norm_def nth_append take_append sum_list_replicate)

end
