(* ===== verification/Seq_Encode.thy ===== *)
theory Seq_Encode
  imports Sequences Ncount_Write
begin

text \<open>
  \<^verbatim>\<open>src/encode/sequences.rs\<close>: the writer of the sequences section. For every channel (literals
  length, offset, match length) it plans the cheapest table among the predefined one, a run of one
  code, a new description and the previous table, and writes the count, the modes, the descriptions
  and the interleaved bit stream, from the last sequence to the first. An appended byte vector is
  returned; the tables a section used are threaded to the next one. The codec property: what is
  written is read back as exactly the sequences, by the decoder with the matching tables.
\<close>

unbundle bit_operations_syntax

section \<open>Codes\<close>

definition LL_PRED_MAX :: nat where "LL_PRED_MAX = 35"
definition LL_PRED_LOG :: nat where "LL_PRED_LOG = 6"
definition OF_PRED_MAX :: nat where "OF_PRED_MAX = 28"
definition OF_PRED_LOG :: nat where "OF_PRED_LOG = 5"
definition ML_PRED_MAX :: nat where "ML_PRED_MAX = 52"
definition ML_PRED_LOG :: nat where "ML_PRED_LOG = 6"
definition LL_MAX_LOG :: nat where "LL_MAX_LOG = 9"
definition OF_MAX_LOG :: nat where "OF_MAX_LOG = 8"
definition ML_MAX_LOG :: nat where "ML_MAX_LOG = 9"

record enc_seq =
  sq_lit_len :: nat
  sq_match_len :: nat
  sq_offset_value :: nat

definition ll_code :: "nat \<Rightarrow> nat result" where
  "ll_code lit_len = usub (partition_point (\<lambda>b. b \<le> lit_len) LL_BASE) 1"

definition ml_code :: "nat \<Rightarrow> nat result" where
  "ml_code match_len = usub (partition_point (\<lambda>b. b \<le> match_len) ML_BASE) 1"

definition of_code :: "nat \<Rightarrow> nat result" where
  "of_code offset_value = (if offset_value = 0 then Panic else Ok (highbit32 offset_value))"

definition write_seq_count :: "nat \<Rightarrow> byte list" where
  "write_seq_count n =
     (if n < 128 then [word_of_nat n]
      else if n < 0x7F00 then [word_of_nat (128 + n div 2 ^ 8), word_of_nat (n mod 2 ^ 8)]
      else
        let m = n - 0x7F00 in
        [255, word_of_nat (m mod 2 ^ 8), word_of_nat (m div 2 ^ 8 mod 2 ^ 8)])"

section \<open>The bit stream\<close>

definition add_ll_extra :: "bit_writer \<Rightarrow> enc_seq \<Rightarrow> nat \<Rightarrow> bit_writer result" where
  "add_ll_extra bw s c =
     obind (idx LL_BASE c) (\<lambda>b.
     obind (usub (sq_lit_len s) b) (\<lambda>v.
     obind (idx LL_BITS c) (\<lambda>n.
     Ok (bw_add bw v n))))"

definition add_ml_extra :: "bit_writer \<Rightarrow> enc_seq \<Rightarrow> nat \<Rightarrow> bit_writer result" where
  "add_ml_extra bw s c =
     obind (idx ML_BASE c) (\<lambda>b.
     obind (usub (sq_match_len s) b) (\<lambda>v.
     obind (idx ML_BITS c) (\<lambda>n.
     Ok (bw_add bw v n))))"

text \<open>The extra bits of one sequence.\<close>

definition add_extras :: "bit_writer \<Rightarrow> enc_seq \<Rightarrow> nat \<Rightarrow> nat \<Rightarrow> nat \<Rightarrow> bit_writer result" where
  "add_extras bw s ll_c of_c ml_c =
     obind (add_ll_extra bw s ll_c) (\<lambda>bw.
     obind (add_ml_extra bw s ml_c) (\<lambda>bw.
     Ok (bw_add bw (sq_offset_value s) of_c)))"

text \<open>The loop of the body runs from the last but one sequence down to the first; the states are those
  of the literals length, the offset and the match length.\<close>

fun seq_body ::
  "enc_seq list \<Rightarrow> nat list \<Rightarrow> nat list \<Rightarrow> nat list \<Rightarrow> fse_ctable \<Rightarrow> fse_ctable \<Rightarrow> fse_ctable
     \<Rightarrow> nat \<Rightarrow> bit_writer \<Rightarrow> nat \<Rightarrow> nat \<Rightarrow> nat \<Rightarrow> (bit_writer \<times> nat \<times> nat \<times> nat) result" where
  "seq_body seqs ll_codes of_codes ml_codes ll_ct of_ct ml_ct 0 bw s_ll s_of s_ml = Ok (bw, s_ll, s_of, s_ml)"
| "seq_body seqs ll_codes of_codes ml_codes ll_ct of_ct ml_ct (Suc i) bw s_ll s_of s_ml =
     obind (idx seqs i) (\<lambda>s.
     obind (idx ll_codes i) (\<lambda>ll_c.
     obind (idx ml_codes i) (\<lambda>ml_c.
     obind (idx of_codes i) (\<lambda>of_c.
     obind (encode_symbol of_ct bw s_of of_c) (\<lambda>(bw, s_of).
     obind (encode_symbol ml_ct bw s_ml ml_c) (\<lambda>(bw, s_ml).
     obind (encode_symbol ll_ct bw s_ll ll_c) (\<lambda>(bw, s_ll).
     obind (add_extras bw s ll_c of_c ml_c) (\<lambda>bw.
     seq_body seqs ll_codes of_codes ml_codes ll_ct of_ct ml_ct i bw s_ll s_of s_ml))))))))"

definition encode_seq_bitstream ::
  "enc_seq list \<Rightarrow> nat list \<Rightarrow> nat list \<Rightarrow> nat list \<Rightarrow> fse_ctable \<Rightarrow> fse_ctable \<Rightarrow> fse_ctable \<Rightarrow> byte list result" where
  "encode_seq_bitstream seqs ll_codes of_codes ml_codes ll_ct of_ct ml_ct =
     obind (usub (length seqs) 1) (\<lambda>i.
     obind (idx seqs i) (\<lambda>s.
     obind (idx ll_codes i) (\<lambda>ll_last.
     obind (idx ml_codes i) (\<lambda>ml_last.
     obind (idx of_codes i) (\<lambda>of_last.
     obind (init_state2 ml_ct ml_last) (\<lambda>s_ml.
     obind (init_state2 of_ct of_last) (\<lambda>s_of.
     obind (init_state2 ll_ct ll_last) (\<lambda>s_ll.
     obind (add_extras bw_new s ll_last of_last ml_last) (\<lambda>bw.
     obind (seq_body seqs ll_codes of_codes ml_codes ll_ct of_ct ml_ct i bw s_ll s_of s_ml)
       (\<lambda>(bw, s_ll, s_of, s_ml).
     Ok (bw_finish (flush_state ll_ct (flush_state of_ct (flush_state ml_ct bw s_ml) s_of) s_ll))))))))))))"

section \<open>Planning a channel\<close>

record channel_plan =
  cp_mode :: nat
  cp_ct :: fse_ctable
  cp_header :: "byte list"

definition max_code :: "nat list \<Rightarrow> nat" where
  "max_code codes = fold max codes 0"

text \<open>The accuracy log of a new table, and its distribution.\<close>

definition fresh_log :: "nat \<Rightarrow> nat \<Rightarrow> nat \<Rightarrow> nat \<Rightarrow> nat" where
  "fresh_log max_log n max_sym num_present =
     min (max (optimal_table_log max_log n max_sym) (min_table_log num_present)) max_log"

type_synonym candidate = "nat \<times> channel_plan"

definition cand_predefined :: "nat list \<Rightarrow> nat \<Rightarrow> int list \<Rightarrow> nat \<Rightarrow> nat \<Rightarrow> candidate list result" where
  "cand_predefined codes max_sym pred_dist pred_max pred_log =
     (if max_sym \<le> pred_max then
        obind (build_ctable pred_dist pred_max pred_log) (\<lambda>ct.
        obind (stream_cost_bits ct codes) (\<lambda>cost.
        Ok [(cost, \<lparr>cp_mode = 0, cp_ct = ct, cp_header = []\<rparr>)]))
      else Ok [])"

definition cand_rle :: "nat list \<Rightarrow> nat \<Rightarrow> candidate list result" where
  "cand_rle codes num_present =
     (if num_present = 1 then
        obind (idx codes 0) (\<lambda>c.
        let sy = word_of_nat c in
        obind (build_rle_ctable sy) (\<lambda>ct.
        Ok [(8, \<lparr>cp_mode = 1, cp_ct = ct, cp_header = [sy]\<rparr>)]))
      else Ok [])"

definition cand_fse :: "nat list \<Rightarrow> nat \<Rightarrow> nat list \<Rightarrow> nat \<Rightarrow> nat \<Rightarrow> candidate list result" where
  "cand_fse codes max_sym freq num_present max_log =
     (if 2 \<le> num_present then
        let n = length codes;
            table_log = fresh_log max_log n max_sym num_present in
        obind (normalize_counts freq (as_u32 n) max_sym table_log) (\<lambda>norm.
        obind (write_ncount norm max_sym table_log) (\<lambda>header.
        obind (build_ctable norm max_sym table_log) (\<lambda>ct.
        obind (stream_cost_bits ct codes) (\<lambda>cost.
        Ok [(cost + length header * 8, \<lparr>cp_mode = 2, cp_ct = ct, cp_header = header\<rparr>)]))))
      else Ok [])"

definition cand_repeat :: "nat list \<Rightarrow> fse_ctable option \<Rightarrow> candidate list result" where
  "cand_repeat codes prev =
     (case prev of
        Some t \<Rightarrow>
          if can_encode t codes then
            obind (stream_cost_bits t codes) (\<lambda>cost.
            Ok [(cost, \<lparr>cp_mode = 3, cp_ct = t, cp_header = []\<rparr>)])
          else Ok []
      | None \<Rightarrow> Ok [])"

text \<open>\<open>min_by_key\<close>: the first of the cheapest candidates.\<close>

fun min_by_cost :: "candidate list \<Rightarrow> candidate option" where
  "min_by_cost [] = None"
| "min_by_cost (p # ps) =
     (case min_by_cost ps of None \<Rightarrow> Some p | Some q \<Rightarrow> Some (if fst p \<le> fst q then p else q))"

definition plan_channel ::
  "nat list \<Rightarrow> int list \<Rightarrow> nat \<Rightarrow> nat \<Rightarrow> nat \<Rightarrow> fse_ctable option \<Rightarrow> channel_plan result" where
  "plan_channel codes pred_dist pred_max pred_log max_log prev =
     (let max_sym = max_code codes in
      obind (tally (replicate (max_sym + 1) 0) codes) (\<lambda>freq.
      let num_present = count_present freq in
      obind (cand_predefined codes max_sym pred_dist pred_max pred_log) (\<lambda>c0.
      obind (cand_rle codes num_present) (\<lambda>c1.
      obind (cand_fse codes max_sym freq num_present max_log) (\<lambda>c2.
      obind (cand_repeat codes prev) (\<lambda>c3.
      case min_by_cost (c0 @ c1 @ c2 @ c3) of
        None \<Rightarrow> Panic
      | Some (_, plan) \<Rightarrow> Ok plan))))))"

section \<open>The section\<close>

record seq_ctables =
  sc_ll :: "fse_ctable option"
  sc_of :: "fse_ctable option"
  sc_ml :: "fse_ctable option"

definition default_seq_ctables :: seq_ctables where
  "default_seq_ctables = \<lparr>sc_ll = None, sc_of = None, sc_ml = None\<rparr>"

definition modes_byte :: "nat \<Rightarrow> nat \<Rightarrow> nat \<Rightarrow> byte" where
  "modes_byte ll ofm ml = push_bit 6 (word_of_nat ll) OR push_bit 4 (word_of_nat ofm) OR push_bit 2 (word_of_nat ml)"

definition write_sequences :: "enc_seq list \<Rightarrow> seq_ctables \<Rightarrow> (byte list \<times> seq_ctables) result" where
  "write_sequences seqs prev =
     (if seqs = [] then Ok (write_seq_count (length seqs), prev)
      else
      obind (traverse (\<lambda>s. ll_code (sq_lit_len s)) seqs) (\<lambda>ll_codes.
      obind (traverse (\<lambda>s. of_code (sq_offset_value s)) seqs) (\<lambda>of_codes.
      obind (traverse (\<lambda>s. ml_code (sq_match_len s)) seqs) (\<lambda>ml_codes.
      obind (plan_channel ll_codes LL_DEFAULT LL_PRED_MAX LL_PRED_LOG LL_MAX_LOG (sc_ll prev)) (\<lambda>ll.
      obind (plan_channel of_codes OF_DEFAULT OF_PRED_MAX OF_PRED_LOG OF_MAX_LOG (sc_of prev)) (\<lambda>ofp.
      obind (plan_channel ml_codes ML_DEFAULT ML_PRED_MAX ML_PRED_LOG ML_MAX_LOG (sc_ml prev)) (\<lambda>ml.
      obind (encode_seq_bitstream seqs ll_codes of_codes ml_codes (cp_ct ll) (cp_ct ofp) (cp_ct ml)) (\<lambda>bits.
      Ok (write_seq_count (length seqs) @ [modes_byte (cp_mode ll) (cp_mode ofp) (cp_mode ml)]
            @ cp_header ll @ cp_header ofp @ cp_header ml @ bits,
          \<lparr>sc_ll = Some (cp_ct ll), sc_of = Some (cp_ct ofp), sc_ml = Some (cp_ct ml)\<rparr>)))))))))"

text \<open>The table descriptions of a structured dictionary.\<close>

definition write_dict_fse_table :: "nat list \<Rightarrow> int list \<Rightarrow> nat \<Rightarrow> nat \<Rightarrow> nat \<Rightarrow> byte list result" where
  "write_dict_fse_table codes pred_dist pred_max pred_log max_log =
     (let max_sym = max_code codes in
      obind (tally (replicate (max_sym + 1) 0) codes) (\<lambda>freq.
      let num_present = count_present freq in
      if 2 \<le> num_present then
        let n = length codes;
            table_log = fresh_log max_log n max_sym num_present in
        obind (normalize_counts freq (as_u32 n) max_sym table_log) (\<lambda>norm.
        write_ncount norm max_sym table_log)
      else write_ncount pred_dist pred_max pred_log))"

definition write_dict_seq_tables :: "enc_seq list \<Rightarrow> byte list result" where
  "write_dict_seq_tables seqs =
     obind (traverse (\<lambda>s. ll_code (sq_lit_len s)) seqs) (\<lambda>ll_codes.
     obind (traverse (\<lambda>s. of_code (sq_offset_value s)) seqs) (\<lambda>of_codes.
     obind (traverse (\<lambda>s. ml_code (sq_match_len s)) seqs) (\<lambda>ml_codes.
     obind (write_dict_fse_table of_codes OF_DEFAULT OF_PRED_MAX OF_PRED_LOG OF_MAX_LOG) (\<lambda>o_bytes.
     obind (write_dict_fse_table ml_codes ML_DEFAULT ML_PRED_MAX ML_PRED_LOG ML_MAX_LOG) (\<lambda>m_bytes.
     obind (write_dict_fse_table ll_codes LL_DEFAULT LL_PRED_MAX LL_PRED_LOG LL_MAX_LOG) (\<lambda>l_bytes.
     Ok (o_bytes @ m_bytes @ l_bytes)))))))"

section \<open>What the codes say\<close>

lemma partition_point_below:
  assumes "P (xs ! 0)" and "xs \<noteq> []"
  obtains c where "partition_point P xs = Suc c" "c < length xs" "P (xs ! c)"
    "Suc c < length xs \<longrightarrow> \<not> P (xs ! Suc c)"
proof -
  obtain x ys where xs: "xs = x # ys" using assms(2) by (cases xs) auto
  define c where "c = length (takeWhile P ys)"
  have p: "partition_point P xs = Suc c" using assms(1) by (simp add: xs partition_point_def c_def)
  have le: "length (takeWhile P xs) \<le> length xs" by (rule length_takeWhile_le)
  have len: "c < length (takeWhile P xs)" using p by (simp add: partition_point_def)
  have "P (takeWhile P xs ! c)" using set_takeWhileD [OF nth_mem [OF len]] by blast
  then have "P (xs ! c)" using len by (simp add: takeWhile_nth)
  moreover have "Suc c < length xs \<longrightarrow> \<not> P (xs ! Suc c)"
    using nth_length_takeWhile [of P xs] p by (simp add: partition_point_def)
  ultimately show thesis using that p len le by simp
qed

text \<open>Adjacent codes leave no gap: the base of a code plus its extra range is the next base.\<close>

definition code_tables :: "nat list \<Rightarrow> nat list \<Rightarrow> bool" where
  "code_tables base bits \<longleftrightarrow> base \<noteq> [] \<and> length bits = length base
     \<and> (\<forall>c < length base - 1. base ! Suc c \<le> base ! c + 2 ^ (bits ! c))"

lemma code_tables_Cons:
  "code_tables (b # b' # base) (n # bits) \<longleftrightarrow> b' \<le> b + 2 ^ n \<and> code_tables (b' # base) bits"
  by (auto simp: code_tables_def less_Suc_eq_0_disj)

lemma code_tables_single: "code_tables [b] [n]"
  by (simp add: code_tables_def)

lemma ll_tables: "code_tables LL_BASE LL_BITS"
  unfolding LL_BASE_def LL_BITS_def by (simp add: code_tables_Cons code_tables_single)

lemma ml_tables: "code_tables ML_BASE ML_BITS"
  unfolding ML_BASE_def ML_BITS_def by (simp add: code_tables_Cons code_tables_single)

lemma code_of_value:
  assumes tab: "code_tables base bits" and x: "base ! 0 \<le> x" "x < last base + 2 ^ last bits"
  obtains c where "usub (partition_point (\<lambda>b. b \<le> x) base) 1 = (Ok c :: nat result)" "c < length base" "base ! c \<le> x"
    "x - base ! c < 2 ^ (bits ! c)"
proof -
  have ne: "base \<noteq> []" "length bits = length base" using tab by (simp_all add: code_tables_def)
  obtain c where c: "partition_point (\<lambda>b. b \<le> x) base = Suc c" "c < length base" "base ! c \<le> x"
    "Suc c < length base \<longrightarrow> \<not> base ! Suc c \<le> x"
    by (rule partition_point_below [of "\<lambda>b. b \<le> x" base]) (use x(1) ne(1) in auto)
  have "x < base ! c + 2 ^ (bits ! c)"
  proof (cases "Suc c < length base")
    case True
    then have "base ! Suc c \<le> base ! c + 2 ^ (bits ! c)" using tab by (simp add: code_tables_def)
    then show ?thesis using True c(4) by simp
  next
    case False
    then have "c = length base - 1" using c(2) by simp
    moreover have "bits \<noteq> []" using ne by auto
    ultimately show ?thesis using x(2) ne by (simp add: last_conv_nth)
  qed
  then show thesis using c that by simp
qed

text \<open>The sequences a block can hold, and the numbers the decoder reads for one.\<close>

definition seq_valid :: "enc_seq \<Rightarrow> bool" where
  "seq_valid s \<longleftrightarrow> sq_lit_len s < 2 ^ 17 \<and> 3 \<le> sq_match_len s \<and> sq_match_len s < 3 + 2 ^ 17
     \<and> 1 \<le> sq_offset_value s \<and> sq_offset_value s < 2 ^ 32"

definition raw_of :: "enc_seq \<Rightarrow> raw_seq" where
  "raw_of s = (sq_offset_value s, sq_match_len s, sq_lit_len s, sq_lit_len s = 0)"

definition ll_of :: "enc_seq \<Rightarrow> nat" where
  "ll_of s = the_ok (ll_code (sq_lit_len s))"

definition ml_of :: "enc_seq \<Rightarrow> nat" where
  "ml_of s = the_ok (ml_code (sq_match_len s))"

definition of_of :: "enc_seq \<Rightarrow> nat" where
  "of_of s = highbit32 (sq_offset_value s)"

lemma ll_code_valid:
  assumes "seq_valid s"
  shows "ll_code (sq_lit_len s) = Ok (ll_of s)" and "ll_of s < 36" and "LL_BASE ! ll_of s \<le> sq_lit_len s"
    and "sq_lit_len s - LL_BASE ! ll_of s < 2 ^ (LL_BITS ! ll_of s)" and "ll_of s = 0 \<longleftrightarrow> sq_lit_len s = 0"
proof -
  have x: "LL_BASE ! 0 \<le> sq_lit_len s" "sq_lit_len s < last LL_BASE + 2 ^ last LL_BITS"
    using assms by (simp_all add: seq_valid_def LL_BASE_def LL_BITS_def)
  obtain c where c: "ll_code (sq_lit_len s) = Ok c" "c < length LL_BASE" "LL_BASE ! c \<le> sq_lit_len s"
    "sq_lit_len s - LL_BASE ! c < 2 ^ (LL_BITS ! c)"
    using code_of_value [OF ll_tables x] by (auto simp: ll_code_def)
  have eq: "ll_of s = c" using c(1) by (simp add: ll_of_def)
  show "ll_code (sq_lit_len s) = Ok (ll_of s)" "ll_of s < 36" "LL_BASE ! ll_of s \<le> sq_lit_len s"
    "sq_lit_len s - LL_BASE ! ll_of s < 2 ^ (LL_BITS ! ll_of s)"
    using c ML_tables by (simp_all add: eq)
  have "0 < LL_BASE ! Suc d" if "Suc d < 36" for d
  proof -
    have "tl LL_BASE ! d \<in> set (tl LL_BASE)" using that ML_tables by (intro nth_mem) simp
    moreover have "\<forall>x \<in> set (tl LL_BASE). 0 < x" by (simp add: LL_BASE_def)
    ultimately show ?thesis using that ML_tables by (simp add: nth_tl)
  qed
  moreover have "LL_BASE ! 0 = 0" "LL_BITS ! 0 = 0" by (simp_all add: LL_BASE_def LL_BITS_def)
  ultimately show "ll_of s = 0 \<longleftrightarrow> sq_lit_len s = 0"
    using c(2-4) ML_tables by (cases c) (fastforce simp: eq)+
qed

lemma ml_code_valid:
  assumes "seq_valid s"
  shows "ml_code (sq_match_len s) = Ok (ml_of s)" and "ml_of s < 53" and "ML_BASE ! ml_of s \<le> sq_match_len s"
    and "sq_match_len s - ML_BASE ! ml_of s < 2 ^ (ML_BITS ! ml_of s)"
proof -
  have x: "ML_BASE ! 0 \<le> sq_match_len s" "sq_match_len s < last ML_BASE + 2 ^ last ML_BITS"
    using assms by (simp_all add: seq_valid_def ML_BASE_def ML_BITS_def)
  obtain c where c: "ml_code (sq_match_len s) = Ok c" "c < length ML_BASE" "ML_BASE ! c \<le> sq_match_len s"
    "sq_match_len s - ML_BASE ! c < 2 ^ (ML_BITS ! c)"
    using code_of_value [OF ml_tables x] by (auto simp: ml_code_def)
  have eq: "ml_of s = c" using c(1) by (simp add: ml_of_def)
  show "ml_code (sq_match_len s) = Ok (ml_of s)" "ml_of s < 53" "ML_BASE ! ml_of s \<le> sq_match_len s"
    "sq_match_len s - ML_BASE ! ml_of s < 2 ^ (ML_BITS ! ml_of s)"
    using c ML_tables by (simp_all add: eq)
qed

lemma of_code_valid:
  assumes "seq_valid s"
  shows "of_code (sq_offset_value s) = Ok (of_of s)" and "of_of s < 32" and "2 ^ of_of s \<le> sq_offset_value s"
    and "sq_offset_value s - 2 ^ of_of s < 2 ^ of_of s"
    and "sq_offset_value s mod 2 ^ of_of s = sq_offset_value s - 2 ^ of_of s"
proof -
  have b: "2 ^ of_of s \<le> sq_offset_value s" "sq_offset_value s < 2 ^ Suc (of_of s)"
    using highbit32_bounds [of "sq_offset_value s"] assms by (simp_all add: seq_valid_def of_of_def)
  then show "2 ^ of_of s \<le> sq_offset_value s" "sq_offset_value s - 2 ^ of_of s < 2 ^ of_of s" by simp_all
  then show "sq_offset_value s mod 2 ^ of_of s = sq_offset_value s - 2 ^ of_of s" by (simp add: le_mod_geq)
  show "of_of s < 32" using highbit32_bounds(3) [of "sq_offset_value s"] assms by (simp add: seq_valid_def of_of_def)
  show "of_code (sq_offset_value s) = Ok (of_of s)" using assms by (simp add: of_code_def of_of_def seq_valid_def)
qed

lemma traverse_codes:
  assumes "\<And>s. s \<in> set seqs \<Longrightarrow> seq_valid s"
  shows "traverse (\<lambda>s. ll_code (sq_lit_len s)) seqs = Ok (map ll_of seqs)"
    and "traverse (\<lambda>s. of_code (sq_offset_value s)) seqs = Ok (map of_of seqs)"
    and "traverse (\<lambda>s. ml_code (sq_match_len s)) seqs = Ok (map ml_of seqs)"
  using assms ll_code_valid(1) of_code_valid(1) ml_code_valid(1)
  by (simp_all add: traverse_Ok [of seqs _ ll_of] traverse_Ok [of seqs _ of_of] traverse_Ok [of seqs _ ml_of])

end
