(* ===== verification/Seq_Stream.thy ===== *)
theory Seq_Stream
  imports Seq_Encode
begin

text \<open>
  The bit stream of the sequences, encoded by \<^verbatim>\<open>src/encode/sequences.rs\<close> and read by
  \<^verbatim>\<open>src/sequences.rs\<close>. The three channels are three instances of the contract \<open>fse_pair\<close>; the
  lemmas here put them and the extra bits together.
\<close>

section \<open>Matching tables\<close>

definition ct_codes :: "fse_ctable \<Rightarrow> nat \<Rightarrow> bool" where
  "ct_codes ct c \<longleftrightarrow> c < length (ct_present ct) \<and> ct_present ct ! c"

lemma can_encode_codes: "can_encode ct codes \<longleftrightarrow> (\<forall>c \<in> set codes. ct_codes ct c)"
  by (simp add: can_encode_def ct_codes_def)

definition table_pair :: "fse_ctable \<Rightarrow> fse_table \<Rightarrow> bool" where
  "table_pair ct dt \<longleftrightarrow> fse_table_ok dt \<and> ft_log dt = ct_log ct
     \<and> fse_pair (ct_log ct) (dt_symb dt) (dt_nbits dt) (dt_base dt) (init_state2 ct) (ct_step ct) (ct_codes ct)"

lemma table_pair_laws:
  assumes "table_pair ct dt" and "ct_codes ct c"
  shows "\<exists>u. u < 2 ^ ft_log dt \<and> init_state2 ct c = Ok (2 ^ ft_log dt + u) \<and> dt_symb dt u = c"
    and "x < 2 ^ ft_log dt \<Longrightarrow>
      \<exists>u nb. u < 2 ^ ft_log dt \<and> ct_step ct (2 ^ ft_log dt + x) c = Ok (nb, 2 ^ ft_log dt + u) \<and> nb \<le> ft_log dt
        \<and> dt_symb dt u = c \<and> dt_nbits dt u = nb \<and> dt_base dt u + (2 ^ ft_log dt + x) mod 2 ^ nb = x"
  using fse_pair.start_law [of "ct_log ct" "dt_symb dt" "dt_nbits dt" "dt_base dt" "init_state2 ct" "ct_step ct" "ct_codes ct" c]
    fse_pair.step_law [of "ct_log ct" "dt_symb dt" "dt_nbits dt" "dt_base dt" "init_state2 ct" "ct_step ct" "ct_codes ct" c x]
    assms by (simp_all add: table_pair_def)

lemma table_pair_log: "table_pair ct dt \<Longrightarrow> ft_log dt \<le> 9 \<and> ct_log ct = ft_log dt"
  by (simp add: table_pair_def fse_table_ok_def)

lemma table_pair_of_norm:
  assumes valid: "valid_norm norm ms lg" and lg: "4 \<le> lg" "lg \<le> 9"
  obtains ct dt where "build_ctable norm ms lg = Ok ct" and "build_dtable norm ms lg = Ok dt" and "table_pair ct dt"
    and "\<And>c. ct_codes ct c \<longleftrightarrow> c \<le> ms \<and> norm ! c \<noteq> 0"
proof -
  have sl: "spread_log lg" using lg by (simp add: spread_log_def)
  obtain syms ct where t: "spread_spec lg (take (ms + 1) norm) syms" "norm_counts lg (take (ms + 1) norm)"
    "build_dtable norm ms lg = Ok (dtable_of lg (take (ms + 1) norm) syms)"
    "build_ctable norm ms lg = Ok ct" "ctable_for lg (take (ms + 1) norm) syms ct"
    using tables_of_norm [OF valid sl lg(2)] by metis
  have len: "length (take (ms + 1) norm) = ms + 1" using valid by (simp add: valid_norm_def)
  have codes: "ct_codes ct c \<longleftrightarrow> c < length (take (ms + 1) norm) \<and> take (ms + 1) norm ! c \<noteq> 0" for c
    using t(5) by (auto simp: ctable_for_def ct_codes_def)
  have "table_pair ct (dtable_of lg (take (ms + 1) norm) syms)"
    using fse_pair_dtable_of [OF sl lg(2) t(2,1,5)] dtable_of_ok [OF sl lg(2) t(2,1)] t(5)
    unfolding table_pair_def codes [abs_def] by (simp add: dtable_of_def ctable_for_def)
  moreover have "ct_codes ct c \<longleftrightarrow> c \<le> ms \<and> norm ! c \<noteq> 0" for c
    unfolding codes len by auto
  ultimately show thesis using that t(3,4) by blast
qed

section \<open>A run of one code\<close>

lemma ct_low_zeros:
  "length cumul = s + k + 2 \<Longrightarrow> (\<forall>i < s + k + 2. cumul ! i = 0) \<Longrightarrow>
    ct_low cumul syms high s (replicate k 0 @ [1]) = Ok (cumul[s + k + 1 := 1], syms, high)"
proof (induction k arbitrary: s)
  case 0
  then show ?case by simp
next
  case (Suc k)
  then have "cumul[Suc s := 0] = cumul" using Suc.prems by (metis list_update_id Suc_less_eq less_add_Suc1 add_Suc_right add_2_eq_Suc' add_Suc)
  then show ?case using Suc by simp
qed

lemma ct_spread_zeros:
  "ct_spread sz step high s (replicate k 0 @ cs) syms pos = ct_spread sz step high (s + k) cs syms pos"
  by (induction k arbitrary: s) (simp_all)

lemma ct_transform_zeros:
  "ct_transform 0 0 (replicate k 0 @ [1]) = Ok (replicate k (2 ^ 16 - 1, 0) @ [(- 1, - 1)])"
  by (induction k) (simp_all add: Let_def)

definition rle_ctable :: "byte \<Rightarrow> fse_ctable" where
  "rle_ctable sy = (let k = unat sy in
     \<lparr>ct_log = 0, ct_state_table = [1], ct_delta_nb_bits = replicate k (2 ^ 16 - 1) @ [- 1],
      ct_delta_find_state = replicate k 0 @ [- 1], ct_present = replicate k False @ [True]\<rparr>)"

lemma build_rle_ctable_Ok: "build_rle_ctable sy = Ok (rle_ctable sy)"
proof -
  define k where "k = unat sy"
  have norm: "(replicate (k + 1) 0)[k := 1] = replicate k (0 :: int) @ [1]"
    using replicate_append_same [of k "0 :: int"] by (simp add: list_update_append flip: replicate_append_same)
  have low: "ct_low (replicate (k + 2) 0) [0] 0 0 (replicate k 0 @ [1]) = Ok ((replicate (k + 2) 0)[k + 1 := 1], [0], 0)"
    using ct_low_zeros [of "replicate (k + 2) 0" 0 k "[0]" 0] by (simp del: replicate.simps)
  have spread: "ct_spread 1 3 0 0 (replicate k 0 @ [1]) [0] 0 = Ok ([sy], 0)"
    by (simp add: ct_spread_zeros skip_high.simps k_def)
  have states: "ct_states 1 ((replicate (k + 2) 0)[k + 1 := 1]) [0] 0 [sy] = Ok [1]"
    by (simp add: Let_def k_def nth_append as_u16_def del: replicate.simps)
  show ?thesis
    unfolding build_rle_ctable_def Let_def k_def [symmetric] norm build_ctable_def
    using low spread states by (simp add: ct_transform_zeros rle_ctable_def k_def [symmetric] Let_def)
qed

lemma table_pair_rle: "table_pair (rle_ctable sy) (rle_table sy)"
  and ct_codes_rle: "ct_codes (rle_ctable sy) c \<longleftrightarrow> c = unat sy"
proof -
  define k where "k = unat sy"
  have codes: "ct_codes (rle_ctable sy) c \<longleftrightarrow> c = k" for c
    by (auto simp: ct_codes_def rle_ctable_def Let_def nth_append k_def)
  then show "ct_codes (rle_ctable sy) c \<longleftrightarrow> c = unat sy" by (simp add: k_def)
  have start: "init_state2 (rle_ctable sy) k = Ok 1"
    by (simp add: init_state2_def rle_ctable_def k_def [symmetric] Let_def nth_append int_as_u32_def shr32_def idx_int_def)
  have step: "ct_step (rle_ctable sy) 1 k = Ok (0, 1)"
    by (simp add: ct_step_def rle_ctable_def k_def [symmetric] Let_def nth_append int_as_u32_def shr32_def idx_int_def)
  have "fse_pair 0 (dt_symb (rle_table sy)) (dt_nbits (rle_table sy)) (dt_base (rle_table sy))
    (init_state2 (rle_ctable sy)) (ct_step (rle_ctable sy)) (ct_codes (rle_ctable sy))"
    using start step
    by unfold_locales (auto simp: codes dt_symb_def dt_nbits_def dt_base_def rle_table_def FSE_DTABLE_SIZE_def k_def)
  then show "table_pair (rle_ctable sy) (rle_table sy)"
    using rle_table_ok by (simp add: table_pair_def rle_ctable_def rle_table_def Let_def)
qed

section \<open>The fields of the sequences\<close>

text \<open>The extra bits of a sequence in the order of the writer, and as the reader meets them.\<close>

definition extra_fields :: "enc_seq \<Rightarrow> (nat \<times> nat) list" where
  "extra_fields s = [(sq_lit_len s - LL_BASE ! ll_of s, LL_BITS ! ll_of s),
     (sq_match_len s - ML_BASE ! ml_of s, ML_BITS ! ml_of s), (sq_offset_value s, of_of s)]"

definition read_fields :: "enc_seq \<Rightarrow> (nat \<times> nat) list" where
  "read_fields s = [(sq_offset_value s - 2 ^ of_of s, of_of s),
     (sq_match_len s - ML_BASE ! ml_of s, ML_BITS ! ml_of s), (sq_lit_len s - LL_BASE ! ll_of s, LL_BITS ! ll_of s)]"

lemma read_back_append [simp]:
  "read_back (F @ G) = read_back G @ read_back F"
  "read_back ((v, n) # F) = read_back F @ [(v mod 2 ^ n, n)]"
  by (simp_all add: read_back_def)

lemma read_back_extras: "seq_valid s \<Longrightarrow> read_back (extra_fields s) = read_fields s"
  using ll_code_valid(4) [of s] ml_code_valid(4) [of s] of_code_valid(5) [of s]
  by (simp add: read_back_def extra_fields_def read_fields_def)

lemma bits_tables_le: "c < 36 \<Longrightarrow> LL_BITS ! c \<le> 16" "d < 53 \<Longrightarrow> ML_BITS ! d \<le> 16"
proof -
  have "\<forall>b \<in> set LL_BITS. b \<le> 16" "\<forall>b \<in> set ML_BITS. b \<le> 16" by (simp_all add: LL_BITS_def ML_BITS_def)
  then show "c < 36 \<Longrightarrow> LL_BITS ! c \<le> 16" "d < 53 \<Longrightarrow> ML_BITS ! d \<le> 16" using ML_tables by simp_all
qed

lemma extra_fields_fit: "seq_valid s \<Longrightarrow> (v, n) \<in> set (extra_fields s) \<Longrightarrow> n \<le> 32 \<and> v < 2 ^ 32"
  using ll_code_valid(2) [of s] ml_code_valid(2) [of s] of_code_valid(2) [of s] bits_tables_le
  by (fastforce simp: extra_fields_def seq_valid_def)

lemma add_extras_Ok:
  assumes "seq_valid s"
  shows "add_extras (add_all bw_add w F) s (ll_of s) (of_of s) (ml_of s) = Ok (add_all bw_add w (F @ extra_fields s))"
  using ll_code_valid [OF assms] ml_code_valid [OF assms]
  by (simp add: add_extras_def add_ll_extra_def add_ml_extra_def ML_tables extra_fields_def add_all_append)

text \<open>The states that stand before a sequence.\<close>

definition seq_states :: "fse_table \<Rightarrow> fse_table \<Rightarrow> fse_table \<Rightarrow> enc_seq \<Rightarrow> nat \<Rightarrow> nat \<Rightarrow> nat \<Rightarrow> bool" where
  "seq_states llt oft mlt s ul uo um \<longleftrightarrow> ul < 2 ^ ft_log llt \<and> uo < 2 ^ ft_log oft \<and> um < 2 ^ ft_log mlt
     \<and> dt_symb llt ul = ll_of s \<and> dt_symb oft uo = of_of s \<and> dt_symb mlt um = ml_of s"

fun seq_reads ::
  "fse_table \<Rightarrow> fse_table \<Rightarrow> fse_table \<Rightarrow> enc_seq list \<Rightarrow> nat \<Rightarrow> nat \<Rightarrow> nat \<Rightarrow> (nat \<times> nat) list \<Rightarrow> bool" where
  "seq_reads llt oft mlt [] ul uo um fs \<longleftrightarrow> False"
| "seq_reads llt oft mlt [s] ul uo um fs \<longleftrightarrow> seq_states llt oft mlt s ul uo um \<and> fs = read_fields s"
| "seq_reads llt oft mlt (s # t # ss) ul uo um fs \<longleftrightarrow> seq_states llt oft mlt s ul uo um
     \<and> (\<exists>x y z gs. fs = read_fields s @ (x, dt_nbits llt ul) # (y, dt_nbits mlt um) # (z, dt_nbits oft uo) # gs
          \<and> seq_reads llt oft mlt (t # ss) (dt_base llt ul + x) (dt_base oft uo + z) (dt_base mlt um + y) gs)"

lemma seq_reads_states:
  "seq_reads llt oft mlt (s # ss) ul uo um fs \<Longrightarrow> seq_states llt oft mlt s ul uo um"
  by (cases ss) auto

section \<open>Encoding\<close>

definition fields_fit :: "(nat \<times> nat) list \<Rightarrow> bool" where
  "fields_fit F \<longleftrightarrow> (\<forall>(v, n) \<in> set F. n \<le> 32 \<and> v < 2 ^ 32)"

lemma fields_fit_simps [simp]:
  "fields_fit []" "fields_fit ((v, n) # F) \<longleftrightarrow> n \<le> 32 \<and> v < 2 ^ 32 \<and> fields_fit F"
  "fields_fit (F @ G) \<longleftrightarrow> fields_fit F \<and> fields_fit G"
  by (auto simp: fields_fit_def)

definition seq_codable :: "fse_ctable \<Rightarrow> fse_ctable \<Rightarrow> fse_ctable \<Rightarrow> enc_seq \<Rightarrow> bool" where
  "seq_codable llc ofc mlc s \<longleftrightarrow> seq_valid s \<and> ct_codes llc (ll_of s) \<and> ct_codes ofc (of_of s) \<and> ct_codes mlc (ml_of s)"

lemma extra_fields_fits: "seq_valid s \<Longrightarrow> fields_fit (extra_fields s)"
  using extra_fields_fit by (fastforce simp: fields_fit_def)

text \<open>One transition of a channel, as the writer makes it and the reader undoes it.\<close>

lemma channel_step:
  assumes "table_pair ct dt" and "ct_codes ct c" and "u < 2 ^ ft_log dt"
  shows "\<exists>u' nb. u' < 2 ^ ft_log dt \<and> dt_symb dt u' = c \<and> dt_nbits dt u' = nb \<and> nb \<le> 9
    \<and> (\<forall>bw. encode_symbol ct bw (2 ^ ft_log dt + u) c = Ok (bw_add bw (2 ^ ft_log dt + u) nb, 2 ^ ft_log dt + u'))
    \<and> dt_base dt u' + (2 ^ ft_log dt + u) mod 2 ^ nb = u \<and> 2 ^ ft_log dt + u < 2 ^ 32"
proof -
  obtain u' nb where u': "u' < 2 ^ ft_log dt" "ct_step ct (2 ^ ft_log dt + u) c = Ok (nb, 2 ^ ft_log dt + u')"
    "nb \<le> ft_log dt" "dt_symb dt u' = c" "dt_nbits dt u' = nb" "dt_base dt u' + (2 ^ ft_log dt + u) mod 2 ^ nb = u"
    using table_pair_laws(2) [OF assms] by blast
  have log: "ft_log dt \<le> 9" using table_pair_log [OF assms(1)] by simp
  have "(2::nat) ^ ft_log dt \<le> 512" using power_increasing [OF log, of "2::nat"] by simp
  then have "2 ^ ft_log dt + u < 2 ^ 32" using assms(3) by simp
  then show ?thesis using u' log by (intro exI [of _ u'] exI [of _ nb]) (simp add: encode_symbol_def)
qed

lemma seq_body_reads:
  assumes pairs: "table_pair llc llt" "table_pair ofc oft" "table_pair mlc mlt"
    and codable: "\<And>s. s \<in> set seqs \<Longrightarrow> seq_codable llc ofc mlc s"
    and i: "i < length seqs" "seq_reads llt oft mlt (drop i seqs) ul uo um (read_back F)" "fields_fit F"
  shows "\<exists>ul' uo' um' F'.
    seq_body seqs (map ll_of seqs) (map of_of seqs) (map ml_of seqs) llc ofc mlc i (add_all bw_add bw_new F)
      (2 ^ ft_log llt + ul) (2 ^ ft_log oft + uo) (2 ^ ft_log mlt + um)
      = Ok (add_all bw_add bw_new F', 2 ^ ft_log llt + ul', 2 ^ ft_log oft + uo', 2 ^ ft_log mlt + um')
    \<and> seq_reads llt oft mlt seqs ul' uo' um' (read_back F') \<and> fields_fit F'"
  using i
proof (induction i arbitrary: ul uo um F)
  case 0
  then show ?case by auto
next
  case (Suc i)
  define s where "s = seqs ! i"
  have d: "drop i seqs = s # drop (Suc i) seqs" using Suc.prems(1) by (simp add: s_def Cons_nth_drop_Suc)
  obtain t ss where t: "drop (Suc i) seqs = t # ss" using Suc.prems(1) by (cases "drop (Suc i) seqs") auto
  have s: "seq_valid s" "ct_codes llc (ll_of s)" "ct_codes ofc (of_of s)" "ct_codes mlc (ml_of s)"
    using codable [of s] Suc.prems(1) by (auto simp: s_def seq_codable_def)
  have u: "ul < 2 ^ ft_log llt" "uo < 2 ^ ft_log oft" "um < 2 ^ ft_log mlt"
    using seq_reads_states [OF Suc.prems(2) [unfolded t]] by (simp_all add: seq_states_def)
  obtain ul' nl where l: "ul' < 2 ^ ft_log llt" "dt_symb llt ul' = ll_of s" "dt_nbits llt ul' = nl" "nl \<le> 9"
    "\<forall>bw. encode_symbol llc bw (2 ^ ft_log llt + ul) (ll_of s) = Ok (bw_add bw (2 ^ ft_log llt + ul) nl, 2 ^ ft_log llt + ul')"
    "dt_base llt ul' + (2 ^ ft_log llt + ul) mod 2 ^ nl = ul" "2 ^ ft_log llt + ul < 2 ^ 32"
    using channel_step [OF pairs(1) s(2) u(1)] by auto
  obtain uo' no where o: "uo' < 2 ^ ft_log oft" "dt_symb oft uo' = of_of s" "dt_nbits oft uo' = no" "no \<le> 9"
    "\<forall>bw. encode_symbol ofc bw (2 ^ ft_log oft + uo) (of_of s) = Ok (bw_add bw (2 ^ ft_log oft + uo) no, 2 ^ ft_log oft + uo')"
    "dt_base oft uo' + (2 ^ ft_log oft + uo) mod 2 ^ no = uo" "2 ^ ft_log oft + uo < 2 ^ 32"
    using channel_step [OF pairs(2) s(3) u(2)] by auto
  obtain um' nm where m: "um' < 2 ^ ft_log mlt" "dt_symb mlt um' = ml_of s" "dt_nbits mlt um' = nm" "nm \<le> 9"
    "\<forall>bw. encode_symbol mlc bw (2 ^ ft_log mlt + um) (ml_of s) = Ok (bw_add bw (2 ^ ft_log mlt + um) nm, 2 ^ ft_log mlt + um')"
    "dt_base mlt um' + (2 ^ ft_log mlt + um) mod 2 ^ nm = um" "2 ^ ft_log mlt + um < 2 ^ 32"
    using channel_step [OF pairs(3) s(4) u(3)] by auto
  define G where "G = F @ [(2 ^ ft_log oft + uo, no), (2 ^ ft_log mlt + um, nm), (2 ^ ft_log llt + ul, nl)] @ extra_fields s"
  have "read_back G = read_fields s @ ((2 ^ ft_log llt + ul) mod 2 ^ nl, nl) # ((2 ^ ft_log mlt + um) mod 2 ^ nm, nm)
      # ((2 ^ ft_log oft + uo) mod 2 ^ no, no) # read_back F"
    by (simp add: G_def read_back_extras [OF s(1)])
  then have reads: "seq_reads llt oft mlt (drop i seqs) ul' uo' um' (read_back G)"
    using Suc.prems(2) l(1-3,6) o(1-3,6) m(1-3,6) unfolding d t
    by (auto simp: seq_states_def intro!: exI)
  have fit: "fields_fit G" using Suc.prems(3) l(4,7) o(4,7) m(4,7) extra_fields_fits [OF s(1)] by (simp add: G_def)
  have "add_extras (add_all bw_add bw_new (F @ [(2 ^ ft_log oft + uo, no), (2 ^ ft_log mlt + um, nm), (2 ^ ft_log llt + ul, nl)]))
      s (ll_of s) (of_of s) (ml_of s) = Ok (add_all bw_add bw_new G)"
    using add_extras_Ok [OF s(1)] by (simp add: G_def)
  then have "seq_body seqs (map ll_of seqs) (map of_of seqs) (map ml_of seqs) llc ofc mlc (Suc i) (add_all bw_add bw_new F)
      (2 ^ ft_log llt + ul) (2 ^ ft_log oft + uo) (2 ^ ft_log mlt + um)
    = seq_body seqs (map ll_of seqs) (map of_of seqs) (map ml_of seqs) llc ofc mlc i (add_all bw_add bw_new G)
      (2 ^ ft_log llt + ul') (2 ^ ft_log oft + uo') (2 ^ ft_log mlt + um')"
    using Suc.prems(1) l(5) o(5) m(5) by (simp add: s_def [symmetric] add_all_append)
  with Suc.IH [OF _ reads fit] Suc.prems(1) show ?case by simp
qed

lemma encode_seq_bitstream_reads:
  assumes pairs: "table_pair llc llt" "table_pair ofc oft" "table_pair mlc mlt"
    and codable: "\<And>s. s \<in> set seqs \<Longrightarrow> seq_codable llc ofc mlc s" and ne: "seqs \<noteq> []"
  shows "\<exists>F ul uo um. encode_seq_bitstream seqs (map ll_of seqs) (map of_of seqs) (map ml_of seqs) llc ofc mlc
      = Ok (bw_finish (add_all bw_add bw_new (F @ [(2 ^ ft_log mlt + um, ft_log mlt), (2 ^ ft_log oft + uo, ft_log oft),
          (2 ^ ft_log llt + ul, ft_log llt)])))
    \<and> seq_reads llt oft mlt seqs ul uo um (read_back F) \<and> fields_fit F"
proof -
  define i where "i = length seqs - 1"
  define s where "s = seqs ! i"
  have n: "length seqs = Suc i" using ne by (cases seqs) (simp_all add: i_def)
  have i: "i < length seqs" "drop i seqs = [s]"
    using n Cons_nth_drop_Suc [of i seqs] by (simp_all add: s_def)
  have s: "seq_valid s" "ct_codes llc (ll_of s)" "ct_codes ofc (of_of s)" "ct_codes mlc (ml_of s)"
    using codable [of s] i(1) by (auto simp: s_def seq_codable_def)
  obtain ul uo um where u: "ul < 2 ^ ft_log llt" "init_state2 llc (ll_of s) = Ok (2 ^ ft_log llt + ul)" "dt_symb llt ul = ll_of s"
    "uo < 2 ^ ft_log oft" "init_state2 ofc (of_of s) = Ok (2 ^ ft_log oft + uo)" "dt_symb oft uo = of_of s"
    "um < 2 ^ ft_log mlt" "init_state2 mlc (ml_of s) = Ok (2 ^ ft_log mlt + um)" "dt_symb mlt um = ml_of s"
    using table_pair_laws(1) [OF pairs(1) s(2)] table_pair_laws(1) [OF pairs(2) s(3)] table_pair_laws(1) [OF pairs(3) s(4)]
    by blast
  have "seq_reads llt oft mlt (drop i seqs) ul uo um (read_back (extra_fields s))"
    using u by (simp add: i(2) seq_states_def read_back_extras [OF s(1)])
  from seq_body_reads [OF pairs codable i(1) this extra_fields_fits [OF s(1)]]
  obtain ul' uo' um' F where body:
    "seq_body seqs (map ll_of seqs) (map of_of seqs) (map ml_of seqs) llc ofc mlc i (add_all bw_add bw_new (extra_fields s))
      (2 ^ ft_log llt + ul) (2 ^ ft_log oft + uo) (2 ^ ft_log mlt + um)
      = Ok (add_all bw_add bw_new F, 2 ^ ft_log llt + ul', 2 ^ ft_log oft + uo', 2 ^ ft_log mlt + um')"
    "seq_reads llt oft mlt seqs ul' uo' um' (read_back F)" "fields_fit F"
    by blast
  have "add_extras bw_new s (ll_of s) (of_of s) (ml_of s) = Ok (add_all bw_add bw_new (extra_fields s))"
    using add_extras_Ok [OF s(1), of bw_new "[]"] by simp
  then have "encode_seq_bitstream seqs (map ll_of seqs) (map of_of seqs) (map ml_of seqs) llc ofc mlc
      = Ok (bw_finish (add_all bw_add bw_new (F @ [(2 ^ ft_log mlt + um', ft_log mlt), (2 ^ ft_log oft + uo', ft_log oft),
          (2 ^ ft_log llt + ul', ft_log llt)])))"
    using i(1) u body(1) pairs [THEN table_pair_log]
    by (simp add: encode_seq_bitstream_def n s_def [symmetric] flush_state_def add_all_append)
  with body(2,3) show ?thesis by blast
qed

section \<open>Decoding\<close>

lemma symbol_of_state:
  "fse_table_ok dt \<Longrightarrow> u < 2 ^ ft_log dt \<Longrightarrow> unat (fse_symbol dt u) = dt_symb dt u"
  by (simp add: fse_symbol_def fse_entry_at_state dt_symb_def)

lemma state_width: "fse_table_ok dt \<Longrightarrow> u < 2 ^ ft_log dt \<Longrightarrow> dt_nbits dt u \<le> 9"
  unfolding fse_table_ok_def dt_nbits_def using le_trans by blast

lemma seq_read_holds:
  assumes ok: "fse_table_ok llt" "fse_table_ok oft" "fse_table_ok mlt"
    and s: "seq_valid s" "seq_states llt oft mlt s ul uo um" and r: "rbr_holds r (read_fields s @ fs)"
  shows "\<exists>r'. seq_read llt oft mlt (r, ul, uo, um) = Ok (raw_of s, r') \<and> rbr_holds r' fs"
proof -
  have sy: "unat (fse_symbol llt ul) = ll_of s" "unat (fse_symbol oft uo) = of_of s" "unat (fse_symbol mlt um) = ml_of s"
    using s(2) ok by (simp_all add: seq_states_def symbol_of_state)
  note l = ll_code_valid [OF s(1)] and m = ml_code_valid [OF s(1)] and o = of_code_valid [OF s(1)]
  have w: "LL_BITS ! ll_of s \<le> 32" "ML_BITS ! ml_of s \<le> 32" "of_of s \<le> 32"
    using bits_tables_le(1) [OF l(2)] bits_tables_le(2) [OF m(2)] o(2) by simp_all
  obtain r1 where r1: "rbr_read_lazy r (of_of s) = (sq_offset_value s - 2 ^ of_of s, r1)"
    "rbr_holds r1 ((sq_match_len s - ML_BASE ! ml_of s, ML_BITS ! ml_of s) # (sq_lit_len s - LL_BASE ! ll_of s, LL_BITS ! ll_of s) # fs)"
    using rbr_holds_read_lazy [OF r [unfolded read_fields_def, simplified] w(3)] by blast
  obtain r2 where r2: "rbr_read_lazy r1 (ML_BITS ! ml_of s) = (sq_match_len s - ML_BASE ! ml_of s, r2)"
    "rbr_holds r2 ((sq_lit_len s - LL_BASE ! ll_of s, LL_BITS ! ll_of s) # fs)"
    using rbr_holds_read_lazy [OF r1(2) w(2)] by blast
  obtain r3 where r3: "rbr_read_lazy r2 (LL_BITS ! ll_of s) = (sq_lit_len s - LL_BASE ! ll_of s, r3)" "rbr_holds r3 fs"
    using rbr_holds_read_lazy [OF r2(2) w(1)] by blast
  have "seq_read llt oft mlt (r, ul, uo, um) = Ok (raw_of s, r3)"
    using l(2,3,5) m(2,3) o(2,3)
    by (simp add: seq_read_def sy Let_def ML_tables r1(1) r2(1) r3(1) raw_of_def not_le)
  with r3(2) show ?thesis by blast
qed

lemma update_with_entry_read:
  assumes "fse_table_ok dt" and "u < 2 ^ ft_log dt" and "rbr_holds r ((x, dt_nbits dt u) # fs)"
    and "rbits r + dt_nbits dt u \<le> 64"
  shows "\<exists>r'. fse_update_with_entry (fse_entry_at dt u) r = (dt_base dt u + x, r') \<and> rbr_holds r' fs
    \<and> rbits r' = rbits r + dt_nbits dt u"
proof -
  obtain r' where "rbr_read r (dt_nbits dt u) = (x, r')" "rbr_holds r' fs" "rbits r' = rbits r + dt_nbits dt u"
    using rbr_holds_read [OF assms(3,4)] state_width [OF assms(1,2)] by auto
  then show ?thesis
    using assms(1,2) by (simp add: fse_update_with_entry_def fse_entry_at_state dt_nbits_def dt_base_def)
qed

lemma rbr_holds_ensure:
  assumes "rbr_holds r fs" and "n \<le> widths fs" and "n \<le> 57"
  shows "rbr_holds (rbr_ensure r n) fs" and "rbits (rbr_ensure r n) + n \<le> 64"
  using assms rbr_ensure_ok [of r n] rbr_ensure_pos [of r n] rbr_ensure_fits [of r n]
  by (auto simp: rbr_holds_def)

lemma seq_advance_holds:
  assumes ok: "fse_table_ok llt" "fse_table_ok oft" "fse_table_ok mlt"
    and u: "ul < 2 ^ ft_log llt" "uo < 2 ^ ft_log oft" "um < 2 ^ ft_log mlt"
    and r: "rbr_holds r ((x, dt_nbits llt ul) # (y, dt_nbits mlt um) # (z, dt_nbits oft uo) # gs)"
  shows "\<exists>r'. seq_advance llt oft mlt (r0, ul, uo, um) r = (r', dt_base llt ul + x, dt_base oft uo + z, dt_base mlt um + y)
    \<and> rbr_holds r' gs"
proof -
  define n where "n = dt_nbits llt ul + dt_nbits mlt um + dt_nbits oft uo"
  have w: "dt_nbits llt ul \<le> 9" "dt_nbits oft uo \<le> 9" "dt_nbits mlt um \<le> 9"
    using state_width ok u by simp_all
  have e: "rbr_holds (rbr_ensure r n) ((x, dt_nbits llt ul) # (y, dt_nbits mlt um) # (z, dt_nbits oft uo) # gs)"
    "rbits (rbr_ensure r n) + n \<le> 64"
    using rbr_holds_ensure [OF r, of n] w by (simp_all add: n_def)
  obtain r1 where r1: "fse_update_with_entry (fse_entry_at llt ul) (rbr_ensure r n) = (dt_base llt ul + x, r1)"
    "rbr_holds r1 ((y, dt_nbits mlt um) # (z, dt_nbits oft uo) # gs)" "rbits r1 = rbits (rbr_ensure r n) + dt_nbits llt ul"
    using update_with_entry_read [OF ok(1) u(1) e(1)] e(2) by (auto simp: n_def)
  obtain r2 where r2: "fse_update_with_entry (fse_entry_at mlt um) r1 = (dt_base mlt um + y, r2)"
    "rbr_holds r2 ((z, dt_nbits oft uo) # gs)" "rbits r2 = rbits r1 + dt_nbits mlt um"
    using update_with_entry_read [OF ok(3) u(3) r1(2)] r1(3) e(2) by (auto simp: n_def)
  obtain r3 where r3: "fse_update_with_entry (fse_entry_at oft uo) r2 = (dt_base oft uo + z, r3)" "rbr_holds r3 gs"
    using update_with_entry_read [OF ok(2) u(2) r2(2)] r2(3) r1(3) e(2) by (auto simp: n_def)
  have "fe_num_bits (fse_entry_at llt ul) + fe_num_bits (fse_entry_at mlt um) + fe_num_bits (fse_entry_at oft uo) = n"
    using ok u by (simp add: n_def fse_entry_at_state dt_nbits_def)
  then have "seq_advance llt oft mlt (r0, ul, uo, um) r = (r3, dt_base llt ul + x, dt_base oft uo + z, dt_base mlt um + y)"
    by (simp add: seq_advance_def Let_def r1(1) r2(1) r3(1))
  with r3(2) show ?thesis by blast
qed

lemma seq_parse_Cons:
  "seq_read llt oft mlt r = Ok (s, br) \<Longrightarrow> ss \<noteq> [] \<Longrightarrow>
    seq_parse llt oft mlt (length (t # ss)) r = map_option ((#) s) (seq_parse llt oft mlt (length ss) (seq_advance llt oft mlt r br))"
  by simp

lemma seq_parse_reads:
  assumes ok: "fse_table_ok llt" "fse_table_ok oft" "fse_table_ok mlt"
    and "seq_reads llt oft mlt seqs ul uo um fs" and "rbr_holds r fs" and "\<And>s. s \<in> set seqs \<Longrightarrow> seq_valid s"
  shows "seq_parse llt oft mlt (length seqs) (r, ul, uo, um) = Some (map raw_of seqs)"
  using assms(4-6)
proof (induction seqs arbitrary: r ul uo um fs rule: induct_list012)
  case 1
  then show ?case by simp
next
  case (2 s)
  then have "rbr_holds r (read_fields s @ [])" "seq_states llt oft mlt s ul uo um" "seq_valid s" by simp_all
  then show ?case using seq_read_holds [OF ok] by fastforce
next
  case (3 s t ss)
  obtain x y z gs where fs: "fs = read_fields s @ (x, dt_nbits llt ul) # (y, dt_nbits mlt um) # (z, dt_nbits oft uo) # gs"
    and st: "seq_states llt oft mlt s ul uo um"
    and rest: "seq_reads llt oft mlt (t # ss) (dt_base llt ul + x) (dt_base oft uo + z) (dt_base mlt um + y) gs"
    using "3.prems"(1) by auto
  have v: "seq_valid s" using "3.prems"(3) by simp
  obtain r1 where r1: "seq_read llt oft mlt (r, ul, uo, um) = Ok (raw_of s, r1)"
    "rbr_holds r1 ((x, dt_nbits llt ul) # (y, dt_nbits mlt um) # (z, dt_nbits oft uo) # gs)"
    using seq_read_holds [OF ok v st] "3.prems"(2) unfolding fs by blast
  have u: "ul < 2 ^ ft_log llt" "uo < 2 ^ ft_log oft" "um < 2 ^ ft_log mlt"
    using st by (simp_all add: seq_states_def)
  obtain r2 where r2: "seq_advance llt oft mlt (r, ul, uo, um) r1 = (r2, dt_base llt ul + x, dt_base oft uo + z, dt_base mlt um + y)"
    "rbr_holds r2 gs"
    using seq_advance_holds [OF ok u r1(2)] by blast
  have "seq_parse llt oft mlt (length (t # ss)) (r2, dt_base llt ul + x, dt_base oft uo + z, dt_base mlt um + y)
      = Some (map raw_of (t # ss))"
    by (rule "3.IH"(2) [OF rest r2(2)]) (use "3.prems"(3) in simp)
  moreover have "seq_parse llt oft mlt (length (s # t # ss)) (r, ul, uo, um)
      = map_option ((#) (raw_of s)) (seq_parse llt oft mlt (length (t # ss)) (seq_advance llt oft mlt (r, ul, uo, um) r1))"
    by (rule seq_parse_Cons [OF r1(1)]) simp
  ultimately show ?case unfolding r2(1) by simp
qed

lemma seq_open_holds:
  assumes new: "rbr_new bs = Ok r" and r: "rbr_holds r ((ul, ft_log llt) # (uo, ft_log oft) # (um, ft_log mlt) # fs)"
    and log: "ft_log llt \<le> 9" "ft_log oft \<le> 9" "ft_log mlt \<le> 9"
  shows "\<exists>r'. seq_open llt oft mlt bs = Ok (r', ul, uo, um) \<and> rbr_holds r' fs"
proof -
  have "rbits r \<le> 8 \<or> rptr r = 0"
    using new by (auto simp: rbr_new_def Let_def outcome_simps split: if_splits)
  moreover have "8 * rptr r + 64 - rbits r = ft_log llt + ft_log oft + ft_log mlt + widths fs" "rbits r \<le> 64"
    using r by (simp_all add: rbr_holds_def rpos_def rbr_ok_def)
  ultimately have fit: "rbits r + ft_log llt + ft_log oft + ft_log mlt \<le> 64" using log by linarith
  obtain r1 where r1: "rbr_read r (ft_log llt) = (ul, r1)" "rbr_holds r1 ((uo, ft_log oft) # (um, ft_log mlt) # fs)"
    "rbits r1 = rbits r + ft_log llt"
    using rbr_holds_read [OF r] fit log by auto
  obtain r2 where r2: "rbr_read r1 (ft_log oft) = (uo, r2)" "rbr_holds r2 ((um, ft_log mlt) # fs)"
    "rbits r2 = rbits r1 + ft_log oft"
    using rbr_holds_read [OF r1(2)] r1(3) fit log by auto
  obtain r3 where r3: "rbr_read r2 (ft_log mlt) = (um, r3)" "rbr_holds r3 fs"
    using rbr_holds_read [OF r2(2)] r1(3) r2(3) fit log by auto
  show ?thesis using new r1(1) r2(1) r3 by (simp add: seq_open_def fse_init_def)
qed

end
