(* ===== verification/Seq_Codec.thy ===== *)
theory Seq_Codec
  imports Seq_Stream
begin

text \<open>
  The sequences section, from the encoder's plan of the three tables to the decoder's output: the
  writer of \<^verbatim>\<open>src/encode/sequences.rs\<close> against \<^verbatim>\<open>src/sequences.rs\<close>.
\<close>

section \<open>Histograms\<close>

lemma fold_max: "fold max xs (a :: nat) = (if xs = [] then a else max a (Max (set xs)))"
  by (induction xs arbitrary: a) (auto simp: max.assoc max.left_commute)

lemma max_code_max: "c \<in> set codes \<Longrightarrow> c \<le> max_code codes"
  by (auto simp: max_code_def fold_max)

lemma max_code_mem: "codes \<noteq> [] \<Longrightarrow> max_code codes \<in> set codes"
  by (auto simp: max_code_def fold_max)

definition histogram :: "nat list \<Rightarrow> nat list \<Rightarrow> bool" where
  "histogram codes freq \<longleftrightarrow> length freq = max_code codes + 1 \<and> sum_list freq = length codes
     \<and> (\<forall>i \<le> max_code codes. freq ! i = count_list codes i)"

lemma tally_histogram: "\<exists>freq. tally (replicate (max_code codes + 1) 0) codes = (Ok freq :: nat list result) \<and> histogram codes freq"
  using tally_spec [of codes "replicate (max_code codes + 1) 0"] max_code_max [of _ codes]
  by (auto simp: histogram_def less_Suc_eq_le simp del: replicate.simps)

lemma histogram_pos: "histogram codes freq \<Longrightarrow> i \<le> max_code codes \<Longrightarrow> 0 < freq ! i \<longleftrightarrow> i \<in> set codes"
  by (simp add: histogram_def count_list_0_iff flip: neq0_conv)

lemma histogram_present: "histogram codes freq \<Longrightarrow> count_present freq = card (set codes)"
proof -
  assume h: "histogram codes freq"
  have "{i. i < length freq \<and> 0 < freq ! i} = set codes"
    using histogram_pos [OF h] max_code_max [of _ codes] h by (auto simp: histogram_def less_Suc_eq_le)
  then show ?thesis by (simp add: count_present_def length_filter_conv_card)
qed

lemma histogram_single:
  assumes "histogram codes freq" and "count_present freq = 1" and "c \<in> set codes"
  shows "codes ! 0 = c"
proof -
  have "codes ! 0 \<in> set codes" using assms(3) by (cases codes) auto
  moreover obtain x where "set codes = {x}" using histogram_present [OF assms(1)] assms(2) card_1_singletonE [of "set codes"] by metis
  ultimately show ?thesis using assms(3) by simp
qed

section \<open>The accuracy log of a new table\<close>

lemma min_table_log_hosts:
  assumes "n \<le> 64"
  shows "n \<le> 2 ^ min_table_log n" and "min_table_log n \<le> 6"
proof -
  have "n - 1 < 2 ^ (32 - leading_zeros32 (n - 1)) \<and> 32 - leading_zeros32 (n - 1) \<le> 6"
  proof (cases "n \<le> 1")
    case True
    then show ?thesis by (simp add: leading_zeros32_0)
  next
    case False
    have b: "2 ^ highbit32 (n - 1) \<le> n - 1" "n - 1 < 2 ^ Suc (highbit32 (n - 1))" "highbit32 (n - 1) < 32"
      using highbit32_bounds [of "n - 1"] False assms by simp_all
    have "(2::nat) ^ highbit32 (n - 1) < 2 ^ 6" using b(1) assms False by simp
    then have "highbit32 (n - 1) < 6" by (rule power_less_imp_less_exp [rotated]) simp
    moreover have "32 - leading_zeros32 (n - 1) = Suc (highbit32 (n - 1))"
      using leading_zeros32_highbit [of "n - 1"] False assms by simp
    ultimately show ?thesis using b(2) by simp
  qed
  then have k: "n - 1 < 2 ^ (32 - leading_zeros32 (n - 1))" "32 - leading_zeros32 (n - 1) \<le> 6" by blast+
  have log: "min_table_log n = max (32 - leading_zeros32 (n - 1)) 5"
    using assms by (simp add: min_table_log_def as_u32_small)
  then have "(2::nat) ^ (32 - leading_zeros32 (n - 1)) \<le> 2 ^ min_table_log n"
    by (intro power_increasing) auto
  with k(1) show "n \<le> 2 ^ min_table_log n" by linarith
  show "min_table_log n \<le> 6" using k(2) log by simp
qed

lemma fresh_log_bounds:
  assumes "num_present \<le> 64" and "6 \<le> max_log"
  shows "5 \<le> fresh_log max_log n ms num_present" and "fresh_log max_log n ms num_present \<le> max_log"
    and "num_present \<le> 2 ^ fresh_log max_log n ms num_present"
proof -
  have l: "5 \<le> optimal_table_log max_log n ms"
    unfolding optimal_table_log_def Let_def by (rule max.cobounded1)
  show "5 \<le> fresh_log max_log n ms num_present" "fresh_log max_log n ms num_present \<le> max_log"
    using l assms(2) by (auto simp: fresh_log_def)
  have "min_table_log num_present \<le> fresh_log max_log n ms num_present"
    using min_table_log_hosts(2) [OF assms(1)] assms(2) by (auto simp: fresh_log_def)
  then have "(2::nat) ^ min_table_log num_present \<le> 2 ^ fresh_log max_log n ms num_present"
    by (intro power_increasing) auto
  then show "num_present \<le> 2 ^ fresh_log max_log n ms num_present"
    using min_table_log_hosts(1) [OF assms(1)] by linarith
qed

section \<open>The plan of a channel\<close>

lemma cost_loop_Ok:
  assumes "table_pair ct dt" and "\<forall>c \<in> set codes. ct_codes ct c" and "x < 2 ^ ft_log dt"
  shows "\<exists>n. cost_loop ct (2 ^ ft_log dt + x) bits codes = Ok n"
  using assms(2,3)
proof (induction codes arbitrary: x bits)
  case Nil
  then show ?case by simp
next
  case (Cons c cs)
  obtain u nb where "u < 2 ^ ft_log dt" "ct_step ct (2 ^ ft_log dt + x) c = Ok (nb, 2 ^ ft_log dt + u)"
    using table_pair_laws(2) [OF assms(1), of c x] Cons.prems by auto
  with Cons.IH [of u "bits + nb"] Cons.prems(1) show ?case by simp
qed

lemma stream_cost_Ok:
  assumes "table_pair ct dt" and "can_encode ct codes" and "codes \<noteq> []"
  shows "\<exists>n. stream_cost_bits ct codes = Ok n"
proof -
  have codes: "\<forall>c \<in> set codes. ct_codes ct c" using assms(2) by (simp add: can_encode_codes)
  define i where "i = length codes - 1"
  have i: "i < length codes" using assms(3) by (simp add: i_def)
  then obtain u where u: "u < 2 ^ ft_log dt" "init_state2 ct (codes ! i) = Ok (2 ^ ft_log dt + u)"
    using table_pair_laws(1) [OF assms(1), of "codes ! i"] codes by auto
  have "\<forall>c \<in> set (rev (take i codes)). ct_codes ct c" using codes by (auto dest: in_set_takeD)
  from cost_loop_Ok [OF assms(1) this u(1), of "ct_log ct"] u(2) i assms(3) show ?thesis
    by (simp add: stream_cost_bits_def i_def Suc_le_eq)
qed

definition plan_good ::
  "nat list \<Rightarrow> int list \<Rightarrow> nat \<Rightarrow> nat \<Rightarrow> nat \<Rightarrow> fse_table option \<Rightarrow> string \<Rightarrow> channel_plan \<Rightarrow> fse_table \<Rightarrow> bool" where
  "plan_good codes dist ms lg max_log cache name plan dt \<longleftrightarrow>
     table_pair (cp_ct plan) dt \<and> can_encode (cp_ct plan) codes \<and> cp_mode plan < 4
     \<and> (\<forall>pre rest. \<exists>m. parse_mode (cp_mode plan) (pre @ cp_header plan @ rest) (length pre) max_log
            = Ok (m, length pre + length (cp_header plan))
          \<and> resolve_table m dist ms lg cache name = Ok dt)"

definition cands_good ::
  "nat list \<Rightarrow> int list \<Rightarrow> nat \<Rightarrow> nat \<Rightarrow> nat \<Rightarrow> fse_table option \<Rightarrow> string \<Rightarrow> candidate list \<Rightarrow> bool" where
  "cands_good codes dist ms lg max_log cache name cands \<longleftrightarrow>
     (\<forall>(cost, plan) \<in> set cands. \<exists>dt. plan_good codes dist ms lg max_log cache name plan dt)"

lemma cands_good_simps [simp]:
  "cands_good codes dist ms lg max_log cache name []"
  "cands_good codes dist ms lg max_log cache name (as @ bs) \<longleftrightarrow>
     cands_good codes dist ms lg max_log cache name as \<and> cands_good codes dist ms lg max_log cache name bs"
  "cands_good codes dist ms lg max_log cache name [(cost, plan)] \<longleftrightarrow>
     (\<exists>dt. plan_good codes dist ms lg max_log cache name plan dt)"
  by (simp_all add: cands_good_def ball_Un)

lemma cand_predefined_good:
  assumes norm: "valid_norm dist ms lg" "4 \<le> lg" "lg \<le> 9" "\<forall>c \<le> ms. dist ! c \<noteq> 0" and ne: "codes \<noteq> []"
  shows "post (cand_predefined codes (max_code codes) dist ms lg) (cands_good codes dist ms lg max_log cache name) (\<lambda>_. False)"
proof (cases "max_code codes \<le> ms")
  case False
  then show ?thesis by (simp add: cand_predefined_def)
next
  case True
  obtain ct dt where t: "build_ctable dist ms lg = Ok ct" "build_dtable dist ms lg = Ok dt" "table_pair ct dt"
    "\<And>c. ct_codes ct c \<longleftrightarrow> c \<le> ms \<and> dist ! c \<noteq> 0"
    using table_pair_of_norm [OF norm(1-3)] by metis
  have ok: "can_encode ct codes" using True norm(4) max_code_max [of _ codes] by (fastforce simp: can_encode_codes t(4))
  obtain n where n: "stream_cost_bits ct codes = Ok n" using stream_cost_Ok [OF t(3) ok ne] by blast
  have "plan_good codes dist ms lg max_log cache name \<lparr>cp_mode = 0, cp_ct = ct, cp_header = []\<rparr> dt"
    using t ok by (simp add: plan_good_def parse_mode_def resolve_table_def)
  then show ?thesis using True t(1) n by (auto simp: cand_predefined_def)
qed

lemma cand_rle_good:
  assumes h: "histogram codes freq" and "codes \<noteq> []" and small: "\<forall>c \<in> set codes. c < 256"
  shows "post (cand_rle codes (count_present freq))
    (\<lambda>cs. cands_good codes dist ms lg max_log cache name cs \<and> (count_present freq = 1 \<longrightarrow> cs \<noteq> [])) (\<lambda>_. False)"
proof (cases "count_present freq = 1")
  case False
  then show ?thesis by (simp add: cand_rle_def)
next
  case True
  define sy :: byte where "sy = word_of_nat (codes ! 0)"
  have mem: "codes ! 0 \<in> set codes" using assms(2) by (cases codes) auto
  then have "unat sy = codes ! 0" using small by (simp add: sy_def unat_word_of_nat_byte)
  then have enc: "can_encode (rle_ctable sy) codes"
    using histogram_single [OF h True] by (simp add: can_encode_codes ct_codes_rle)
  have "plan_good codes dist ms lg max_log cache name \<lparr>cp_mode = 1, cp_ct = rle_ctable sy, cp_header = [sy]\<rparr> (rle_table sy)"
    using table_pair_rle enc by (simp add: plan_good_def parse_mode_def resolve_table_def nth_append)
  then show ?thesis using True assms(2)
    by (auto simp: cand_rle_def build_rle_ctable_Ok Let_def simp flip: sy_def)
qed

definition channel_match :: "fse_ctable option \<Rightarrow> fse_table option \<Rightarrow> bool" where
  "channel_match prev cache \<longleftrightarrow> (case prev of None \<Rightarrow> True | Some ct \<Rightarrow> \<exists>dt. cache = Some dt \<and> table_pair ct dt)"

lemma cand_repeat_good:
  assumes prev: "channel_match prev cache" and ne: "codes \<noteq> []"
  shows "post (cand_repeat codes prev) (cands_good codes dist ms lg max_log cache name) (\<lambda>_. False)"
proof (cases prev)
  case None
  then show ?thesis by (simp add: cand_repeat_def)
next
  case (Some ct)
  then obtain dt where dt: "cache = Some dt" "table_pair ct dt" using prev by (auto simp: channel_match_def)
  show ?thesis
  proof (cases "can_encode ct codes")
    case True
    obtain n where n: "stream_cost_bits ct codes = Ok n" using stream_cost_Ok [OF dt(2) True ne] by blast
    have "plan_good codes dist ms lg max_log cache name \<lparr>cp_mode = 3, cp_ct = ct, cp_header = []\<rparr> dt"
      using dt True by (simp add: plan_good_def parse_mode_def resolve_table_def)
    then show ?thesis using Some True n by (auto simp: cand_repeat_def)
  qed (simp add: Some cand_repeat_def)
qed

lemma build_dtable_take:
  "take (ms + 1) norm = take (ms + 1) norm' \<Longrightarrow> ms < length norm \<Longrightarrow> ms < length norm' \<Longrightarrow>
    build_dtable norm ms lg = build_dtable norm' ms lg"
  by (simp add: build_dtable_def)

lemma cand_fse_good:
  assumes h: "histogram codes freq" and ne: "codes \<noteq> []" and small: "max_code codes < 64"
    and len: "length codes < 2 ^ 32" and log: "6 \<le> max_log" "max_log \<le> 9"
  shows "post (cand_fse codes (max_code codes) freq (count_present freq) max_log)
    (\<lambda>cs. cands_good codes dist ms lg max_log cache name cs \<and> (2 \<le> count_present freq \<longrightarrow> cs \<noteq> [])) (\<lambda>_. False)"
proof (cases "2 \<le> count_present freq")
  case False
  then show ?thesis by (simp add: cand_fse_def)
next
  case True
  define k where "k = max_code codes"
  define l where "l = fresh_log max_log (length codes) k (count_present freq)"
  have fr: "length freq = k + 1" "sum_list freq = length codes" using h by (simp_all add: histogram_def k_def)
  have "set codes \<subseteq> {0..<64}" using max_code_max [of _ codes] small by fastforce
  from card_mono [OF _ this] have np: "count_present freq \<le> 64" using histogram_present [OF h] by simp
  note lb = fresh_log_bounds [OF np log(1), of "length codes" k, folded l_def]
  have take: "take (k + 1) freq = freq" using fr(1) by simp
  have cnt: "length (filter (\<lambda>f. f \<noteq> 0) (take (k + 1) freq)) \<le> 2 ^ l"
    using lb(3) unfolding take by (simp add: count_present_def)
  have len0: "0 < length codes" using ne by simp
  have kl: "k < length freq" "k < 256" "l \<le> 14" using fr(1) small lb(2) log(2) by (simp_all add: k_def)
  have fk: "freq ! c \<noteq> 0 \<longleftrightarrow> c \<in> set codes" if "c \<le> k" for c
    using that fr(1) histogram_pos [OF h, of c] by (simp add: k_def)
  have last: "freq ! k \<noteq> 0" using fk [of k] max_code_mem [OF ne] by (simp add: k_def)
  have tot: "length codes = sum_list (take (k + 1) freq)" using fr(2) take by simp
  obtain norm header where norm: "normalize_counts freq (length codes) k l = Ok norm" and v: "valid_norm norm k l" "length norm = k + 1"
    and nz: "\<forall>s \<le> k. 0 \<le> norm ! s \<and> (norm ! s = 0 \<longleftrightarrow> freq ! s = 0)" and hd: "write_ncount norm k l = Ok header"
    and rt: "\<forall>rest. read_ncount (header @ rest) max_log = Ok \<lparr>nc_counts = norm @ replicate (255 - k) 0,
      nc_max_symbol = k, nc_table_log = l, nc_bytes_consumed = length header\<rparr>"
    by (rule fresh_norm [OF kl(1,2) last lb(1,2) kl(3) tot len0 cnt])
  have l4: "4 \<le> l" "l \<le> 9" using lb(1,2) log(2) by simp_all
  obtain ct dt where t: "build_ctable norm k l = Ok ct" "build_dtable norm k l = Ok dt" "table_pair ct dt"
    "\<And>c. ct_codes ct c \<longleftrightarrow> c \<le> k \<and> norm ! c \<noteq> 0"
    using table_pair_of_norm [OF v(1) l4] by metis
  have enc: "can_encode ct codes"
    unfolding can_encode_codes t(4) using nz fk max_code_max [of _ codes] by (auto simp: k_def)
  obtain n where n: "stream_cost_bits ct codes = Ok n" using stream_cost_Ok [OF t(3) enc ne] by blast
  define nc where "nc = \<lparr>nc_counts = norm @ replicate (255 - k) 0, nc_max_symbol = k, nc_table_log = l,
         nc_bytes_consumed = length header\<rparr>"
  have "build_dtable (nc_counts nc) k l = Ok dt"
    using t(2) v(2) build_dtable_take [of k "nc_counts nc" norm l] by (simp add: nc_def)
  then have "plan_good codes dist ms lg max_log cache name \<lparr>cp_mode = 2, cp_ct = ct, cp_header = header\<rparr> dt"
    using t(3) enc rt by (simp add: plan_good_def parse_mode_def resolve_table_def Let_def) (simp add: nc_def)
  moreover have "as_u32 (length codes) = length codes" using len by (rule as_u32_small)
  ultimately show ?thesis using True norm hd t(1) n
    by (auto simp: cand_fse_def Let_def simp flip: k_def l_def)
qed

lemma min_by_cost_mem: "cands \<noteq> [] \<Longrightarrow> \<exists>p. min_by_cost cands = Some p \<and> p \<in> set cands"
proof (induction cands)
  case (Cons p ps)
  show ?case
  proof (cases "min_by_cost ps")
    case (Some q)
    then have "q \<in> set ps" using Cons.IH by (cases ps) simp_all
    then show ?thesis using Some by simp
  qed simp
qed simp

lemma plan_channel_good:
  assumes norm: "valid_norm dist ms lg" "4 \<le> lg" "lg \<le> 9" "\<forall>c \<le> ms. dist ! c \<noteq> 0"
    and ne: "codes \<noteq> []" and small: "max_code codes < 64" and len: "length codes < 2 ^ 32"
    and log: "6 \<le> max_log" "max_log \<le> 9" and prev: "channel_match prev cache"
  shows "\<exists>plan dt. plan_channel codes dist ms lg max_log prev = Ok plan
    \<and> plan_good codes dist ms lg max_log cache name plan dt"
proof -
  let ?good = "cands_good codes dist ms lg max_log cache name"
  obtain freq where fr: "tally (replicate (max_code codes + 1) 0) codes = (Ok freq :: nat list result)" "histogram codes freq"
    using tally_histogram by blast
  obtain c0 where c0: "cand_predefined codes (max_code codes) dist ms lg = Ok c0" "?good c0"
    using cand_predefined_good [OF norm ne] by (cases "cand_predefined codes (max_code codes) dist ms lg") auto
  have "\<forall>c \<in> set codes. c < 256" using max_code_max [of _ codes] small by fastforce
  from cand_rle_good [OF fr(2) ne this]
  obtain c1 where c1: "cand_rle codes (count_present freq) = Ok c1" "?good c1" "count_present freq = 1 \<longrightarrow> c1 \<noteq> []"
    by (cases "cand_rle codes (count_present freq)") auto
  obtain c2 where c2: "cand_fse codes (max_code codes) freq (count_present freq) max_log = Ok c2" "?good c2"
    "2 \<le> count_present freq \<longrightarrow> c2 \<noteq> []"
    using cand_fse_good [OF fr(2) ne small len log]
    by (cases "cand_fse codes (max_code codes) freq (count_present freq) max_log") auto
  obtain c3 where c3: "cand_repeat codes prev = Ok c3" "?good c3"
    using cand_repeat_good [OF prev ne] by (cases "cand_repeat codes prev") auto
  have "0 < card (set codes)" using ne by (simp add: card_gt_0_iff)
  then have "count_present freq = 1 \<or> 2 \<le> count_present freq" using histogram_present [OF fr(2)] by linarith
  then have "c0 @ c1 @ c2 @ c3 \<noteq> []" using c1(3) c2(3) by auto
  then obtain cost plan where p: "min_by_cost (c0 @ c1 @ c2 @ c3) = Some (cost, plan)" "(cost, plan) \<in> set (c0 @ c1 @ c2 @ c3)"
    using min_by_cost_mem by (metis surj_pair)
  have "?good (c0 @ c1 @ c2 @ c3)" using c0(2) c1(2) c2(2) c3(2) by simp
  then obtain dt where "plan_good codes dist ms lg max_log cache name plan dt"
    using p(2) unfolding cands_good_def by blast
  moreover have "plan_channel codes dist ms lg max_log prev = Ok plan"
    unfolding plan_channel_def Let_def fr(1) obind_simps c0(1) c1(1) c2(1) c3(1) p(1) by simp
  ultimately show ?thesis by blast
qed

section \<open>The headers of the section\<close>

lemma sequence_count_write:
  assumes "n < 0x7F00 + 2 ^ 16"
  shows "sequence_count (write_seq_count n @ rest) = Ok (n, length (write_seq_count n))"
proof -
  consider "n < 128" | "128 \<le> n" "n < 0x7F00" | "0x7F00 \<le> n" by linarith
  then show ?thesis
  proof cases
    case 1
    then show ?thesis by (simp add: sequence_count_def write_seq_count_def unat_word_of_nat_byte Let_def)
  next
    case 2
    then have "n div 256 < 127" by simp
    then have b: "unat (word_of_nat (128 + n div 256) :: byte) = 128 + n div 256" "unat (word_of_nat (n mod 256) :: byte) = n mod 256"
      by (intro unat_word_of_nat_byte, simp)+
    have "n div 256 * 256 + n mod 256 = n" by simp
    then show ?thesis using 2 b \<open>n div 256 < 127\<close>
      by (simp add: sequence_count_def write_seq_count_def Let_def)
  next
    case 3
    define m where "m = n - 0x7F00"
    have m: "m < 2 ^ 16" "n = m + 0x7F00" using assms 3 by (simp_all add: m_def)
    then have "m div 256 < 256" by simp
    then have b: "unat (word_of_nat (m mod 256) :: byte) = m mod 256" "unat (word_of_nat (m div 256 mod 256) :: byte) = m div 256"
      by (simp_all add: unat_word_of_nat_byte)
    have "m mod 256 + m div 256 * 256 = m" by simp
    then show ?thesis using 3 b m(2)
      by (simp add: sequence_count_def write_seq_count_def Let_def flip: m_def)
  qed
qed

lemma write_seq_count_len: "write_seq_count n \<noteq> []"
  by (simp add: write_seq_count_def Let_def)

lemma modes_byte_fields:
  assumes "a < 4" and "b < 4" and "c < 4"
  shows "unat (modes_byte a b c) div 2 ^ 6 mod 4 = a" and "unat (modes_byte a b c) div 2 ^ 4 mod 4 = b"
    and "unat (modes_byte a b c) div 2 ^ 2 mod 4 = c"
proof -
  have abc: "a = 0 \<or> a = 1 \<or> a = 2 \<or> a = 3" "b = 0 \<or> b = 1 \<or> b = 2 \<or> b = 3" "c = 0 \<or> c = 1 \<or> c = 2 \<or> c = 3"
    using assms by linarith+
  have "unat (modes_byte a b c) = a * 64 + b * 16 + c * 4"
    using abc by (elim disjE) (simp_all add: modes_byte_def)
  then show "unat (modes_byte a b c) div 2 ^ 6 mod 4 = a" "unat (modes_byte a b c) div 2 ^ 4 mod 4 = b"
    "unat (modes_byte a b c) div 2 ^ 2 mod 4 = c" using abc by (elim disjE; simp)+
qed

definition seq_tables_match :: "seq_ctables \<Rightarrow> seq_tables \<Rightarrow> bool" where
  "seq_tables_match cts ts \<longleftrightarrow> channel_match (sc_ll cts) (st_ll ts) \<and> channel_match (sc_of cts) (st_of ts)
     \<and> channel_match (sc_ml cts) (st_ml ts)"

lemma seq_tables_match_default: "seq_tables_match default_seq_ctables ts"
  by (simp add: seq_tables_match_def default_seq_ctables_def channel_match_def)

lemma seq_block_tables_write:
  assumes ll: "plan_good llcs LL_DEFAULT LL_PRED_MAX LL_PRED_LOG LL_MAX_LOG (st_ll ts) ''LL'' pl llt"
    and ofs: "plan_good ofcs OF_DEFAULT OF_PRED_MAX OF_PRED_LOG OF_MAX_LOG (st_of ts) ''OF'' po oft"
    and ml: "plan_good mlcs ML_DEFAULT ML_PRED_MAX ML_PRED_LOG ML_MAX_LOG (st_ml ts) ''ML'' pm mlt"
  shows "seq_block_tables (pre @ modes_byte (cp_mode pl) (cp_mode po) (cp_mode pm) # cp_header pl @ cp_header po @ cp_header pm @ bits)
      (length pre) ts = Ok (llt, oft, mlt, bits)"
proof -
  define mb where "mb = modes_byte (cp_mode pl) (cp_mode po) (cp_mode pm)"
  define src where "src = pre @ mb # cp_header pl @ cp_header po @ cp_header pm @ bits"
  define p1 p2 p3 where "p1 = length pre + 1" and "p2 = p1 + length (cp_header pl)" and "p3 = p2 + length (cp_header po)"
  have src: "src = (pre @ [mb]) @ cp_header pl @ (cp_header po @ cp_header pm @ bits)"
    "src = (pre @ [mb] @ cp_header pl) @ cp_header po @ (cp_header pm @ bits)"
    "src = (pre @ [mb] @ cp_header pl @ cp_header po) @ cp_header pm @ bits"
    by (simp_all add: src_def)
  have mode: "unat mb div 2 ^ 6 mod 4 = cp_mode pl" "unat mb div 2 ^ 4 mod 4 = cp_mode po" "unat mb div 2 ^ 2 mod 4 = cp_mode pm"
    unfolding mb_def using ll ofs ml by (intro modes_byte_fields; simp add: plan_good_def)+
  obtain m1 where m1: "parse_mode (cp_mode pl) src p1 9 = Ok (m1, p2)"
    "resolve_table m1 LL_DEFAULT 35 6 (st_ll ts) ''LL'' = Ok llt"
    using ll [unfolded plan_good_def] unfolding src(1) p1_def p2_def LL_PRED_MAX_def LL_PRED_LOG_def LL_MAX_LOG_def
    by (metis length_append_singleton Suc_eq_plus1)
  obtain m2 where m2: "parse_mode (cp_mode po) src p2 8 = Ok (m2, p3)"
    "resolve_table m2 OF_DEFAULT 28 5 (st_of ts) ''OF'' = Ok oft"
  proof -
    have "length (pre @ [mb] @ cp_header pl) = p2" by (simp add: p1_def p2_def)
    then show thesis
      using that ofs [unfolded plan_good_def] unfolding src(2) p3_def OF_PRED_MAX_def OF_PRED_LOG_def OF_MAX_LOG_def by metis
  qed
  obtain m3 where m3: "parse_mode (cp_mode pm) src p3 9 = Ok (m3, p3 + length (cp_header pm))"
    "resolve_table m3 ML_DEFAULT 52 6 (st_ml ts) ''ML'' = Ok mlt"
  proof -
    have "length (pre @ [mb] @ cp_header pl @ cp_header po) = p3" by (simp add: p1_def p2_def p3_def)
    then show thesis
      using that ml [unfolded plan_good_def] unfolding src(3) ML_PRED_MAX_def ML_PRED_LOG_def ML_MAX_LOG_def by metis
  qed
  have "slice_from src (p3 + length (cp_header pm)) = (Ok bits :: byte list result)"
    by (simp add: src_def p1_def p2_def p3_def)
  moreover have "idx src (length pre) = (Ok mb :: byte result)" "\<not> length src \<le> length pre" by (simp_all add: src_def nth_append)
  ultimately have "seq_block_tables src (length pre) ts = Ok (llt, oft, mlt, bits)"
    by (simp only: seq_block_tables_def if_False Let_def obind_simps mode m1 m2 m3 prod.case flip: p1_def)
  then show ?thesis by (simp add: src_def mb_def)
qed

section \<open>The section\<close>

lemma default_nonzero:
  "\<forall>c \<le> LL_PRED_MAX. LL_DEFAULT ! c \<noteq> 0" "\<forall>c \<le> OF_PRED_MAX. OF_DEFAULT ! c \<noteq> 0" "\<forall>c \<le> ML_PRED_MAX. ML_DEFAULT ! c \<noteq> 0"
proof -
  have "0 \<notin> set LL_DEFAULT" "0 \<notin> set OF_DEFAULT" "0 \<notin> set ML_DEFAULT" "length LL_DEFAULT = 36" "length OF_DEFAULT = 29" "length ML_DEFAULT = 53"
    by (simp_all add: LL_DEFAULT_def OF_DEFAULT_def ML_DEFAULT_def)
  then show "\<forall>c \<le> LL_PRED_MAX. LL_DEFAULT ! c \<noteq> 0" "\<forall>c \<le> OF_PRED_MAX. OF_DEFAULT ! c \<noteq> 0" "\<forall>c \<le> ML_PRED_MAX. ML_DEFAULT ! c \<noteq> 0"
    unfolding LL_PRED_MAX_def OF_PRED_MAX_def ML_PRED_MAX_def by (metis le_imp_less_Suc nth_mem eval_nat_numeral(3) numeral_3_eq_3 Suc_numeral add_num_simps)+
qed

lemma plan_channels:
  assumes valid: "\<And>s. s \<in> set seqs \<Longrightarrow> seq_valid s" and ne: "seqs \<noteq> []" and len: "length seqs < 2 ^ 32"
    and mt: "seq_tables_match prev ts"
  shows "\<exists>plan dt. plan_channel (map ll_of seqs) LL_DEFAULT LL_PRED_MAX LL_PRED_LOG LL_MAX_LOG (sc_ll prev) = Ok plan
      \<and> plan_good (map ll_of seqs) LL_DEFAULT LL_PRED_MAX LL_PRED_LOG LL_MAX_LOG (st_ll ts) ''LL'' plan dt"
    and "\<exists>plan dt. plan_channel (map of_of seqs) OF_DEFAULT OF_PRED_MAX OF_PRED_LOG OF_MAX_LOG (sc_of prev) = Ok plan
      \<and> plan_good (map of_of seqs) OF_DEFAULT OF_PRED_MAX OF_PRED_LOG OF_MAX_LOG (st_of ts) ''OF'' plan dt"
    and "\<exists>plan dt. plan_channel (map ml_of seqs) ML_DEFAULT ML_PRED_MAX ML_PRED_LOG ML_MAX_LOG (sc_ml prev) = Ok plan
      \<and> plan_good (map ml_of seqs) ML_DEFAULT ML_PRED_MAX ML_PRED_LOG ML_MAX_LOG (st_ml ts) ''ML'' plan dt"
proof -
  have nes: "map f seqs \<noteq> []" "length (map f seqs) < 2 ^ 32" for f :: "enc_seq \<Rightarrow> nat" using ne len by simp_all
  have small: "max_code (map f seqs) < 64" if "\<And>s. seq_valid s \<Longrightarrow> f s < 64" for f :: "enc_seq \<Rightarrow> nat"
    using max_code_mem [OF nes(1), of f] valid that by auto
  have s: "max_code (map ll_of seqs) < 64" "max_code (map of_of seqs) < 64" "max_code (map ml_of seqs) < 64"
    using ll_code_valid(2) of_code_valid(2) ml_code_valid(2) by (fastforce intro!: small)+
  have m: "channel_match (sc_ll prev) (st_ll ts)" "channel_match (sc_of prev) (st_of ts)" "channel_match (sc_ml prev) (st_ml ts)"
    using mt by (simp_all add: seq_tables_match_def)
  show "\<exists>plan dt. plan_channel (map ll_of seqs) LL_DEFAULT LL_PRED_MAX LL_PRED_LOG LL_MAX_LOG (sc_ll prev) = Ok plan
      \<and> plan_good (map ll_of seqs) LL_DEFAULT LL_PRED_MAX LL_PRED_LOG LL_MAX_LOG (st_ll ts) ''LL'' plan dt"
    by (rule plan_channel_good [OF _ _ _ default_nonzero(1) nes(1) s(1) nes(2) _ _ m(1)])
      (use default_norms in \<open>simp_all add: LL_PRED_MAX_def LL_PRED_LOG_def LL_MAX_LOG_def\<close>)
  show "\<exists>plan dt. plan_channel (map of_of seqs) OF_DEFAULT OF_PRED_MAX OF_PRED_LOG OF_MAX_LOG (sc_of prev) = Ok plan
      \<and> plan_good (map of_of seqs) OF_DEFAULT OF_PRED_MAX OF_PRED_LOG OF_MAX_LOG (st_of ts) ''OF'' plan dt"
    by (rule plan_channel_good [OF _ _ _ default_nonzero(2) nes(1) s(2) nes(2) _ _ m(2)])
      (use default_norms in \<open>simp_all add: OF_PRED_MAX_def OF_PRED_LOG_def OF_MAX_LOG_def\<close>)
  show "\<exists>plan dt. plan_channel (map ml_of seqs) ML_DEFAULT ML_PRED_MAX ML_PRED_LOG ML_MAX_LOG (sc_ml prev) = Ok plan
      \<and> plan_good (map ml_of seqs) ML_DEFAULT ML_PRED_MAX ML_PRED_LOG ML_MAX_LOG (st_ml ts) ''ML'' plan dt"
    by (rule plan_channel_good [OF _ _ _ default_nonzero(3) nes(1) s(3) nes(2) _ _ m(3)])
      (use default_norms in \<open>simp_all add: ML_PRED_MAX_def ML_PRED_LOG_def ML_MAX_LOG_def\<close>)
qed

text \<open>What the decoder makes of the bits of a section.\<close>

lemma bitstream_parses:
  assumes pairs: "table_pair llc llt" "table_pair ofc oft" "table_pair mlc mlt"
    and codable: "\<And>s. s \<in> set seqs \<Longrightarrow> seq_codable llc ofc mlc s" and ne: "seqs \<noteq> []"
  shows "\<exists>bits r. encode_seq_bitstream seqs (map ll_of seqs) (map of_of seqs) (map ml_of seqs) llc ofc mlc = Ok bits
    \<and> seq_open llt oft mlt bits = Ok r \<and> seq_parse llt oft mlt (length seqs) r = Some (map raw_of seqs)"
proof -
  obtain F ul uo um where enc: "encode_seq_bitstream seqs (map ll_of seqs) (map of_of seqs) (map ml_of seqs) llc ofc mlc
      = Ok (bw_finish (add_all bw_add bw_new (F @ [(2 ^ ft_log mlt + um, ft_log mlt), (2 ^ ft_log oft + uo, ft_log oft),
          (2 ^ ft_log llt + ul, ft_log llt)])))"
    and reads: "seq_reads llt oft mlt seqs ul uo um (read_back F)" and fit: "fields_fit F"
    using encode_seq_bitstream_reads [OF pairs codable ne] by blast
  define G where "G = F @ [(2 ^ ft_log mlt + um, ft_log mlt), (2 ^ ft_log oft + uo, ft_log oft), (2 ^ ft_log llt + ul, ft_log llt)]"
  have ok: "fse_table_ok llt" "fse_table_ok oft" "fse_table_ok mlt" using pairs by (simp_all add: table_pair_def)
  have log: "ft_log llt \<le> 9" "ft_log oft \<le> 9" "ft_log mlt \<le> 9" using ok by (simp_all add: fse_table_ok_def)
  obtain s ss where seqs: "seqs = s # ss" using ne by (cases seqs) auto
  have u: "ul < 2 ^ ft_log llt" "uo < 2 ^ ft_log oft" "um < 2 ^ ft_log mlt"
    using seq_reads_states [OF reads [unfolded seqs]] by (simp_all add: seq_states_def)
  have pow: "(2::nat) ^ ft_log llt \<le> 512" "(2::nat) ^ ft_log oft \<le> 512" "(2::nat) ^ ft_log mlt \<le> 512"
    using log power_increasing [of _ 9 "2::nat"] by auto
  have "fields_fit G" using fit u pow log by (simp add: G_def)
  then have "\<And>v n. (v, n) \<in> set G \<Longrightarrow> n \<le> 32 \<and> v < 2 ^ 32" by (auto simp: fields_fit_def)
  from rbr_holds_open [OF this] obtain r where r: "rbr_new (bw_finish (add_all bw_add bw_new G)) = Ok r" "rbr_holds r (read_back G)"
    by (auto simp: read_back_def)
  have "read_back G = (ul, ft_log llt) # (uo, ft_log oft) # (um, ft_log mlt) # read_back F"
    using u by (simp add: G_def)
  then obtain r' where r': "seq_open llt oft mlt (bw_finish (add_all bw_add bw_new G)) = Ok (r', ul, uo, um)" "rbr_holds r' (read_back F)"
    using seq_open_holds [OF r(1) _ log] r(2) by metis
  have "\<And>s. s \<in> set seqs \<Longrightarrow> seq_valid s" using codable by (simp add: seq_codable_def)
  from seq_parse_reads [OF ok reads r'(2) this] enc r'(1) show ?thesis by (auto simp: G_def)
qed

definition section_reads :: "byte list \<Rightarrow> enc_seq list \<Rightarrow> seq_tables \<Rightarrow> bool" where
  "section_reads bytes seqs ts \<longleftrightarrow> (\<forall>lits out rep room.
     section_reference bytes lits out ts rep room = lz_run (map raw_of seqs) room lits out (rep_list rep))"

lemma section_readsD:
  "section_reads bytes seqs ts \<Longrightarrow>
    section_reference bytes lits out ts rep room = lz_run (map raw_of seqs) room lits out (rep_list rep)"
  unfolding section_reads_def by blast

lemma write_sequences_reads:
  assumes valid: "\<And>s. s \<in> set seqs \<Longrightarrow> seq_valid s" and len: "length seqs < 0x7F00 + 2 ^ 16"
    and mt: "seq_tables_match prev ts"
  shows "post (write_sequences seqs prev) (\<lambda>(bytes, cts). bytes \<noteq> [] \<and> section_reads bytes seqs ts
    \<and> seq_tables_match cts (section_tables bytes ts)) (\<lambda>_. False)"
proof (cases "seqs = []")
  case True
  have "sequence_count (write_seq_count 0) = Ok (0, length (write_seq_count 0))"
    using sequence_count_write [of 0 "[]"] by simp
  then show ?thesis using mt True
    by (simp add: write_sequences_def section_reads_def section_reference_def section_tables_def write_seq_count_len del: lz_run.simps)
next
  case ne: False
  define n pre where "n = length seqs" and "pre = write_seq_count n"
  have "length seqs < 2 ^ 32" using len by simp
  note plans = plan_channels [OF valid ne this mt]
  obtain pl llt where pl: "plan_channel (map ll_of seqs) LL_DEFAULT LL_PRED_MAX LL_PRED_LOG LL_MAX_LOG (sc_ll prev) = Ok pl"
    "plan_good (map ll_of seqs) LL_DEFAULT LL_PRED_MAX LL_PRED_LOG LL_MAX_LOG (st_ll ts) ''LL'' pl llt" using plans(1) by blast
  obtain po oft where po: "plan_channel (map of_of seqs) OF_DEFAULT OF_PRED_MAX OF_PRED_LOG OF_MAX_LOG (sc_of prev) = Ok po"
    "plan_good (map of_of seqs) OF_DEFAULT OF_PRED_MAX OF_PRED_LOG OF_MAX_LOG (st_of ts) ''OF'' po oft" using plans(2) by blast
  obtain pm mlt where pm: "plan_channel (map ml_of seqs) ML_DEFAULT ML_PRED_MAX ML_PRED_LOG ML_MAX_LOG (sc_ml prev) = Ok pm"
    "plan_good (map ml_of seqs) ML_DEFAULT ML_PRED_MAX ML_PRED_LOG ML_MAX_LOG (st_ml ts) ''ML'' pm mlt" using plans(3) by blast
  have pairs: "table_pair (cp_ct pl) llt" "table_pair (cp_ct po) oft" "table_pair (cp_ct pm) mlt"
    using pl(2) po(2) pm(2) by (simp_all add: plan_good_def)
  have "seq_codable (cp_ct pl) (cp_ct po) (cp_ct pm) s" if "s \<in> set seqs" for s
    using that valid pl(2) po(2) pm(2) by (auto simp: seq_codable_def plan_good_def can_encode_codes)
  from bitstream_parses [OF pairs this ne] obtain bits r where
    bits: "encode_seq_bitstream seqs (map ll_of seqs) (map of_of seqs) (map ml_of seqs) (cp_ct pl) (cp_ct po) (cp_ct pm) = Ok bits"
      "seq_open llt oft mlt bits = Ok r" "seq_parse llt oft mlt n r = Some (map raw_of seqs)"
    by (auto simp: n_def)
  define bytes where "bytes = pre @ modes_byte (cp_mode pl) (cp_mode po) (cp_mode pm) # cp_header pl @ cp_header po @ cp_header pm @ bits"
  have cnt: "sequence_count bytes = Ok (n, length pre)"
    using sequence_count_write len by (simp add: bytes_def pre_def n_def)
  have tabs: "seq_block_tables bytes (length pre) ts = Ok (llt, oft, mlt, bits)"
    unfolding bytes_def by (rule seq_block_tables_write [OF pl(2) po(2) pm(2)])
  have n0: "n \<noteq> 0" using ne by (simp add: n_def)
  have ws: "write_sequences seqs prev = Ok (bytes, \<lparr>sc_ll = Some (cp_ct pl), sc_of = Some (cp_ct po), sc_ml = Some (cp_ct pm)\<rparr>)"
    using ne traverse_codes [OF valid] pl(1) po(1) pm(1) bits(1)
    by (simp add: write_sequences_def bytes_def pre_def n_def)
  have "section_reads bytes seqs ts"
    using n0 bits(2,3) by (simp add: section_reads_def section_reference_def cnt tabs seq_reference_def)
  moreover have "section_tables bytes ts = \<lparr>st_ll = Some llt, st_of = Some oft, st_ml = Some mlt\<rparr>"
    using n0 by (simp add: section_tables_def cnt tabs)
  moreover have "bytes \<noteq> []" by (simp add: bytes_def)
  ultimately show ?thesis using pairs by (simp add: ws seq_tables_match_def channel_match_def)
qed

section \<open>Properties\<close>

text \<open>C10: the sequences section is lossless. Every list of sequences of the format (a literals length
  below 131072, a match length from 3 to 131074, an offset value of 32 bits, at most 98047 of them) is
  written without a panic, whatever table modes the cost comparison picks, and the decoder with the
  matching cached tables executes exactly these sequences: it returns the output of the reference
  semantics on them, or an error where that fails; afterwards the tables the encoder keeps for the
  next block match the decoder's again.\<close>

theorem sequences_section_roundtrip:
  assumes "\<forall>s \<in> set seqs. seq_valid s" and "length seqs < 0x7F00 + 2 ^ 16" and "seq_tables_match prev ts"
    and "seq_tables_ok ts" and "dict_len \<le> length out"
  shows "post (write_sequences seqs prev) (\<lambda>(bytes, cts).
    post (decode_capped bytes lits out ts rep dict_len mx)
      (\<lambda>(out', ts', rep'). seq_tables_match cts ts'
         \<and> lz_run (map raw_of seqs) (mx - (length out - dict_len)) lits out (rep_list rep) = Some (out', rep_list rep'))
      (\<lambda>_. lz_run (map raw_of seqs) (mx - (length out - dict_len)) lits out (rep_list rep) = None)) (\<lambda>_. False)"
proof -
  have w: "post (write_sequences seqs prev) (\<lambda>(bytes, cts). bytes \<noteq> [] \<and> section_reads bytes seqs ts
    \<and> seq_tables_match cts (section_tables bytes ts)) (\<lambda>_. False)"
    using write_sequences_reads [OF _ assms(2,3)] assms(1) by blast
  show ?thesis
    by (rule post_mono [OF w])
      (auto simp: section_readsD intro!: post_mono [OF decode_capped_agrees [OF assms(5,4)]])
qed

theorem sequences_section_roundtrip_witness:
  "post (write_sequences [\<lparr>sq_lit_len = 2, sq_match_len = 4, sq_offset_value = 5\<rparr>, \<lparr>sq_lit_len = 0, sq_match_len = 3, sq_offset_value = 1\<rparr>]
      default_seq_ctables) (\<lambda>(bytes, cts).
    post (decode_capped bytes [9, 8, 7] [1, 2] default_seq_tables (1, 4, 8) 0 100)
      (\<lambda>(out', ts', rep'). seq_tables_match cts ts'
         \<and> lz_run (map raw_of [\<lparr>sq_lit_len = 2, sq_match_len = 4, sq_offset_value = 5\<rparr>, \<lparr>sq_lit_len = 0, sq_match_len = 3, sq_offset_value = 1\<rparr>])
              (100 - (length [1, 2 :: byte] - 0)) [9, 8, 7] [1, 2] (rep_list (1, 4, 8)) = Some (out', rep_list rep'))
      (\<lambda>_. lz_run (map raw_of [\<lparr>sq_lit_len = 2, sq_match_len = 4, sq_offset_value = 5\<rparr>, \<lparr>sq_lit_len = 0, sq_match_len = 3, sq_offset_value = 1\<rparr>])
              (100 - (length [1, 2 :: byte] - 0)) [9, 8, 7] [1, 2] (rep_list (1, 4, 8)) = None)) (\<lambda>_. False)"
  by (rule sequences_section_roundtrip)
    (simp_all add: seq_valid_def seq_tables_match_default seq_tables_ok_def default_seq_tables_def)

end
