(* ===== verification/Huff_Encode.thy ===== *)
theory Huff_Encode
  imports Literals Ncount_Write Fse_Stream
begin

text \<open>
  \<^verbatim>\<open>src/encode/huff.rs\<close>: the Huffman encoder of the literals. Code lengths come from a plain Huffman
  tree, are limited to 11 bits by moving length counts, and are given to the symbols by frequency;
  the code table is read back out of the decoder's own table. A literals section is the smallest of
  a raw one, a fresh Huffman one and one that reuses the previous table. An appended byte vector is
  returned.
\<close>

unbundle bit_operations_syntax

section \<open>Code lengths\<close>

definition HUF_WEIGHT_MAX_LOG :: nat where "HUF_WEIGHT_MAX_LOG = 6"
definition MAX_CODE_LEN :: nat where "MAX_CODE_LEN = 11"

text \<open>The heap of \<open>Reverse((weight, node))\<close>: a list in ascending order.\<close>

fun heap_push :: "nat \<times> nat \<Rightarrow> (nat \<times> nat) list \<Rightarrow> (nat \<times> nat) list" where
  "heap_push x [] = [x]"
| "heap_push x (y # ys) =
     (if fst x < fst y \<or> fst x = fst y \<and> snd x \<le> snd y then x # y # ys else y # heap_push x ys)"

definition heap_of :: "nat list \<Rightarrow> (nat \<times> nat) list" where
  "heap_of ws = fold heap_push (zip ws [0..<length ws]) []"

lemma length_heap_push [simp]: "length (heap_push x ys) = Suc (length ys)"
  by (induction ys) simp_all

text \<open>\<open>while heap.len() > 1\<close>: the two lightest trees get a common parent.\<close>

function huff_merge ::
  "nat list \<Rightarrow> nat list \<Rightarrow> (nat \<times> nat) list \<Rightarrow> nat \<Rightarrow> (nat list \<times> nat list) result" where
  "huff_merge weight parent heap nxt =
     (case heap of
        (w1, a) # (w2, b) # rest \<Rightarrow>
          obind (upd weight nxt (w1 + w2)) (\<lambda>weight.
          obind (upd parent a nxt) (\<lambda>parent.
          obind (upd parent b nxt) (\<lambda>parent.
          huff_merge weight parent (heap_push (w1 + w2, nxt) rest) (nxt + 1))))
      | _ \<Rightarrow> Ok (weight, parent))"
  by pat_completeness auto

termination by (relation "measure (\<lambda>(weight, parent, heap, nxt). length heap)") auto

declare huff_merge.simps [simp del]

text \<open>The depth of a leaf: the walk to the root. A walk of more steps than there are nodes never
  ends.\<close>

fun depth_walk :: "nat \<Rightarrow> nat list \<Rightarrow> nat \<Rightarrow> nat \<Rightarrow> nat result" where
  "depth_walk fuel parent p d =
     (if p = usize_max then Ok d
      else
        case fuel of
          0 \<Rightarrow> Hang
        | Suc fuel \<Rightarrow> obind (idx parent p) (\<lambda>p. depth_walk fuel parent p (d + 1)))"

declare depth_walk.simps [simp del]

definition leaf_depth :: "nat list \<Rightarrow> nat \<Rightarrow> nat result" where
  "leaf_depth parent i = obind (idx parent i) (\<lambda>p. depth_walk (length parent) parent p 0)"

text \<open>\<open>while counts[j] == 0 { j -= 1; }\<close>\<close>

fun find_len :: "nat list \<Rightarrow> nat \<Rightarrow> nat result" where
  "find_len counts j =
     obind (idx counts j) (\<lambda>c.
     if c = 0 then (case j of 0 \<Rightarrow> Panic | Suc j \<Rightarrow> find_len counts j) else Ok j)"

declare find_len.simps [simp del]

text \<open>One step of the limit: two codes of length \<open>i\<close> become one of length \<open>i - 1\<close> and one that splits
  a code of a length \<open>j\<close> below.\<close>

definition limit_step :: "nat list \<Rightarrow> nat \<Rightarrow> nat list result" where
  "limit_step counts i =
     obind (usub i 2) (\<lambda>j.
     obind (find_len counts j) (\<lambda>j.
     obind (idx counts i) (\<lambda>c. obind (usub c 2) (\<lambda>c. obind (upd counts i c) (\<lambda>counts.
     obind (idx counts (i - 1)) (\<lambda>c. obind (upd counts (i - 1) (c + 1)) (\<lambda>counts.
     obind (idx counts (j + 1)) (\<lambda>c. obind (upd counts (j + 1) (c + 2)) (\<lambda>counts.
     obind (idx counts j) (\<lambda>c. obind (usub c 1) (\<lambda>c. upd counts j c)))))))))))"

text \<open>\<open>while counts[i] > 0\<close>. A step takes two from \<open>counts[i]\<close>.\<close>

fun limit_len :: "nat \<Rightarrow> nat list \<Rightarrow> nat \<Rightarrow> nat list result" where
  "limit_len fuel counts i =
     obind (idx counts i) (\<lambda>c.
     if 0 < c then
       (case fuel of
          0 \<Rightarrow> Hang
        | Suc fuel \<Rightarrow> obind (limit_step counts i) (\<lambda>counts. limit_len fuel counts i))
     else Ok counts)"

declare limit_len.simps [simp del]

fun limit_all :: "nat list \<Rightarrow> nat list \<Rightarrow> nat list result" where
  "limit_all counts [] = Ok counts"
| "limit_all counts (i # is) =
     obind (idx counts i) (\<lambda>fuel.
     obind (limit_len fuel counts i) (\<lambda>counts. limit_all counts is))"

fun assign_run :: "nat list \<Rightarrow> nat \<Rightarrow> nat \<Rightarrow> nat list \<Rightarrow> nat \<Rightarrow> (nat list \<times> nat) result" where
  "assign_run order len 0 lengths k = Ok (lengths, k)"
| "assign_run order len (Suc n) lengths k =
     obind (idx order k) (\<lambda>s.
     obind (upd lengths s (as_u8 len)) (\<lambda>lengths.
     assign_run order len n lengths (k + 1)))"

fun assign_all :: "nat list \<Rightarrow> nat list \<Rightarrow> nat list \<Rightarrow> nat list \<Rightarrow> nat \<Rightarrow> (nat list \<times> nat) result" where
  "assign_all order counts [] lengths k = Ok (lengths, k)"
| "assign_all order counts (len # lens) lengths k =
     obind (idx counts len) (\<lambda>c.
     obind (assign_run order len c lengths k) (\<lambda>(lengths, k).
     assign_all order counts lens lengths k))"

text \<open>The most frequent symbols first, equal ones by value: a stable sort of an ascending list.\<close>

definition by_frequency :: "nat list \<Rightarrow> nat list \<Rightarrow> nat list" where
  "by_frequency freq present = sort_key (\<lambda>s. - int (freq ! s)) present"

definition code_lengths :: "nat list \<Rightarrow> nat list result" where
  "code_lengths freq =
     (let present = filter (\<lambda>s. 0 < freq ! s) [0..<256];
          m = length present;
          ws = map (\<lambda>s. freq ! s) present in
      obind (huff_merge (ws @ replicate m 0) (replicate (2 * m) usize_max) (heap_of ws) m) (\<lambda>(weight, parent).
      obind (traverse (leaf_depth parent) [0..<m]) (\<lambda>depth.
      obind (tally (replicate 64 0) depth) (\<lambda>counts.
      let limit = MAX_CODE_LEN in
      if depth = [] then Panic
      else
      let maxlen = Max (set depth) in
      obind (if limit < maxlen then limit_all counts (rev [limit + 1..<maxlen + 1]) else Ok counts) (\<lambda>counts.
      obind (assign_all (by_frequency freq present) counts [1..<limit + 1] (replicate 256 0) 0) (\<lambda>(lengths, k).
      Ok lengths))))))"

section \<open>The code table\<close>

record code_table =
  cd_code :: "nat list"
  cd_nbits :: "nat list"
  cd_max_symbol :: nat
  cd_weights :: "byte list"

definition can_encode_hist :: "code_table \<Rightarrow> nat list \<Rightarrow> bool" where
  "can_encode_hist t freq \<longleftrightarrow> (\<forall>b < 256. freq ! b = 0 \<or> 0 < cd_nbits t ! b)"

definition last_pos :: "nat list \<Rightarrow> nat option" where
  "last_pos xs = find (\<lambda>s. 0 < xs ! s) (rev [0..<length xs])"

text \<open>The first cell of every symbol gives its code; the list of the symbols seen is the \<open>seen\<close> array.\<close>

fun invert_table :: "nat \<Rightarrow> nat \<Rightarrow> huff_entry list \<Rightarrow> bool list \<Rightarrow> nat list \<Rightarrow> nat list \<Rightarrow> (nat list \<times> nat list) result" where
  "invert_table mb i [] seen code nbits = Ok (code, nbits)"
| "invert_table mb i (e # es) seen code nbits =
     (let s = unat (he_symbol e); nb = he_num_bits e in
      obind (idx seen s) (\<lambda>sn.
      if nb \<noteq> 0 \<and> \<not> sn then
        obind (usub mb nb) (\<lambda>sh.
        invert_table mb (i + 1) es (seen[s := True]) (code[s := i div 2 ^ sh]) (nbits[s := nb]))
      else invert_table mb (i + 1) es seen code nbits))"

definition length_weight :: "nat \<Rightarrow> nat \<Rightarrow> byte result" where
  "length_weight max_bits l =
     (if 0 < l then obind (usub (max_bits + 1) l) (\<lambda>w. Ok (word_of_nat w)) else Ok 0)"

definition build_code_table :: "nat list \<Rightarrow> code_table result" where
  "build_code_table lengths =
     (if lengths = [] then Panic
      else
      let max_bits = Max (set lengths) in
      case last_pos lengths of
        None \<Rightarrow> Panic
      | Some max_symbol \<Rightarrow>
          obind (traverse (length_weight max_bits) (take max_symbol lengths)) (\<lambda>weights.
          obind (huff_build_table weights) (\<lambda>table.
          obind (invert_table (ht_max_bits table) 0 (huff_entries table)
              (replicate 256 False) (replicate 256 0) (replicate 256 0)) (\<lambda>(code, nbits).
          Ok \<lparr>cd_code = code, cd_nbits = nbits, cd_max_symbol = max_symbol, cd_weights = weights\<rparr>))))"

section \<open>Streams\<close>

fun stream_codes :: "code_table \<Rightarrow> bit_writer \<Rightarrow> byte list \<Rightarrow> bit_writer result" where
  "stream_codes t bw [] = Ok bw"
| "stream_codes t bw (b # bs) =
     obind (idx (cd_code t) (unat b)) (\<lambda>c.
     obind (idx (cd_nbits t) (unat b)) (\<lambda>n.
     stream_codes t (bw_add bw c n) bs))"

definition encode_stream :: "code_table \<Rightarrow> byte list \<Rightarrow> byte list result" where
  "encode_stream t lits = obind (stream_codes t bw_new (rev lits)) (\<lambda>bw. Ok (bw_finish bw))"

definition jump_entry :: "byte list \<Rightarrow> byte list result" where
  "jump_entry s =
     (if 65535 < length s then
        Err (Invalid ''huffman 4-stream'' ''sub-stream exceeds 64 KiB jump-table field'')
      else Ok (le_bytes 2 (length s)))"

definition encode_4stream :: "code_table \<Rightarrow> byte list \<Rightarrow> byte list result" where
  "encode_4stream t lits =
     (let n = length lits; seg = div_ceil n 4 in
      if n < seg * 3 then
        Err (Invalid ''huffman 4-stream'' (''regen '' @ dec n @ '' too small for 4 streams''))
      else
        obind (slice_range lits 0 seg) (\<lambda>l1. obind (encode_stream t l1) (\<lambda>s1.
        obind (slice_range lits seg (2 * seg)) (\<lambda>l2. obind (encode_stream t l2) (\<lambda>s2.
        obind (slice_range lits (2 * seg) (3 * seg)) (\<lambda>l3. obind (encode_stream t l3) (\<lambda>s3.
        obind (slice_from lits (3 * seg)) (\<lambda>l4. obind (encode_stream t l4) (\<lambda>s4.
        obind (jump_entry s1) (\<lambda>j1. obind (jump_entry s2) (\<lambda>j2. obind (jump_entry s3) (\<lambda>j3.
        Ok (j1 @ j2 @ j3 @ s1 @ s2 @ s3 @ s4)))))))))))))"

section \<open>The weight header\<close>

fun pack_nibbles :: "byte list \<Rightarrow> byte list" where
  "pack_nibbles [] = []"
| "pack_nibbles [hi] = [push_bit 4 hi]"
| "pack_nibbles (hi # lo # ws) = (push_bit 4 hi OR lo) # pack_nibbles ws"

definition write_weight_header_direct :: "code_table \<Rightarrow> byte list result" where
  "write_weight_header_direct t =
     obind (slice_range (cd_weights t) 0 (cd_max_symbol t)) (\<lambda>w.
     Ok (word_of_nat (127 + cd_max_symbol t) # pack_nibbles w))"

definition write_weight_header_fse :: "code_table \<Rightarrow> byte list result" where
  "write_weight_header_fse t =
     (let weights = cd_weights t in
      obind (tally (replicate 256 0) (map unat weights)) (\<lambda>freq.
      case last_pos freq of
        None \<Rightarrow> Panic
      | Some max_w \<Rightarrow>
          let num_present = count_present freq in
          if num_present < 2 then
            Err (Invalid ''huffman fse weights'' ''uniform weights have no FSE distribution'')
          else
            let table_log = choose_table_log HUF_WEIGHT_MAX_LOG num_present in
            obind (normalize_counts freq (as_u32 (length weights)) max_w table_log) (\<lambda>norm.
            obind (write_ncount norm max_w table_log) (\<lambda>ncount.
            obind (build_ctable norm max_w table_log) (\<lambda>ctable.
            obind (fse_encode ctable weights) (\<lambda>bitstream.
            let csize = length ncount + length bitstream in
            if 128 \<le> csize then
              Err (Invalid ''huffman fse weights'' (''compressed weights '' @ dec csize @ '' >= 128-byte header limit''))
            else Ok (word_of_nat csize # ncount @ bitstream)))))))"

definition write_weight_header :: "code_table \<Rightarrow> byte list result" where
  "write_weight_header t =
     (if cd_max_symbol t \<le> 128 then write_weight_header_direct t else write_weight_header_fse t)"

section \<open>The section header\<close>

definition size_format :: "bool \<Rightarrow> nat \<Rightarrow> nat \<Rightarrow> (nat \<times> nat) option" where
  "size_format four regen csize =
     (if \<not> four then (if regen \<le> 0x3FF \<and> csize \<le> 0x3FF then Some (0, 3) else None)
      else if regen \<le> 0x3FF \<and> csize \<le> 0x3FF then Some (1, 3)
      else if regen \<le> 0x3FFF \<and> csize \<le> 0x3FFF then Some (2, 4)
      else if regen \<le> 0x3FFFF \<and> csize \<le> 0x3FFFF then Some (3, 5)
      else None)"

definition header_bits :: "nat \<Rightarrow> nat \<Rightarrow> nat \<Rightarrow> nat \<Rightarrow> nat \<Rightarrow> nat" where
  "header_bits block_type fmt regen csize shift =
     unat ((word_of_nat block_type OR push_bit 2 (word_of_nat fmt) OR push_bit 4 (word_of_nat regen)
       OR push_bit shift (word_of_nat csize)) :: u64)"

definition write_compressed_lit_header :: "nat \<Rightarrow> bool \<Rightarrow> nat \<Rightarrow> nat \<Rightarrow> byte list result" where
  "write_compressed_lit_header block_type four regen csize =
     (case size_format four regen csize of
        None \<Rightarrow> Err (Invalid ''compressed literals header''
          (''regen '' @ dec regen @ '' / csize '' @ dec csize @ '' exceed 18-bit fields''))
      | Some (fmt, _) \<Rightarrow>
          Ok (if fmt = 0 \<or> fmt = 1 then take 3 (le_bytes 4 (as_u32 (header_bits block_type fmt regen csize 14)))
              else if fmt = 2 then le_bytes 4 (as_u32 (header_bits block_type 2 regen csize 18))
              else take 5 (le_bytes 8 (header_bits block_type 3 regen csize 22))))"

section \<open>Literals sections\<close>

definition four_streams :: "nat \<Rightarrow> bool" where
  "four_streams n \<longleftrightarrow> 256 \<le> n \<and> div_ceil n 4 * 3 \<le> n"

definition encode_lit_streams :: "code_table \<Rightarrow> byte list \<Rightarrow> (bool \<times> byte list) result" where
  "encode_lit_streams t literals =
     (let four = four_streams (length literals) in
      obind (if four then encode_4stream t literals else encode_stream t literals) (\<lambda>streams.
      Ok (four, streams)))"

definition build_fresh_table :: "nat list \<Rightarrow> (code_table \<times> byte list) option result" where
  "build_fresh_table freq =
     (if count_present freq < 2 then Ok None
      else
        obind (code_lengths freq) (\<lambda>lengths.
        case build_code_table lengths of
          Ok table \<Rightarrow>
            (case write_weight_header table of
               Ok weight_header \<Rightarrow> Ok (Some (table, weight_header))
             | Err _ \<Rightarrow> Ok None
             | Panic \<Rightarrow> Panic
             | Hang \<Rightarrow> Hang)
        | Err _ \<Rightarrow> Ok None
        | Panic \<Rightarrow> Panic
        | Hang \<Rightarrow> Hang))"

definition assemble_compressed_section :: "code_table \<Rightarrow> byte list \<Rightarrow> byte list \<Rightarrow> byte list result" where
  "assemble_compressed_section t weight_header lits =
     obind (encode_lit_streams t lits) (\<lambda>(four, streams).
     let payload = weight_header @ streams in
     obind (write_compressed_lit_header 2 four (length lits) (length payload)) (\<lambda>hdr.
     Ok (hdr @ payload)))"

definition build_treeless_section :: "byte list \<Rightarrow> code_table \<Rightarrow> byte list result" where
  "build_treeless_section literals t =
     obind (encode_lit_streams t literals) (\<lambda>(four, streams).
     obind (write_compressed_lit_header 3 four (length literals) (length streams)) (\<lambda>hdr.
     Ok (hdr @ streams)))"

definition byte_histogram :: "byte list \<Rightarrow> nat list result" where
  "byte_histogram lits = tally (replicate 256 0) (map unat lits)"

definition build_compressed_section :: "byte list \<Rightarrow> (byte list \<times> code_table) result" where
  "build_compressed_section literals =
     obind (byte_histogram literals) (\<lambda>freq.
     obind (build_fresh_table freq) (\<lambda>fresh.
     case fresh of
       None \<Rightarrow> Err (Invalid ''huffman literals'' ''need >= 2 distinct symbols / unbuildable table'')
     | Some (table, weight_header) \<Rightarrow>
         obind (assemble_compressed_section table weight_header literals) (\<lambda>section.
         Ok (section, table))))"

definition write_literals_section :: "byte list \<Rightarrow> byte list result" where
  "write_literals_section literals =
     obind (build_compressed_section literals) (\<lambda>(section, table). Ok section)"

text \<open>The size of a section without its encoding.\<close>

fun code_bits :: "code_table \<Rightarrow> byte list \<Rightarrow> nat result" where
  "code_bits t [] = Ok 0"
| "code_bits t (b # bs) =
     obind (idx (cd_nbits t) (unat b)) (\<lambda>n.
     obind (code_bits t bs) (\<lambda>m.
     Ok (n + m)))"

definition stream_len :: "code_table \<Rightarrow> byte list \<Rightarrow> nat result" where
  "stream_len t seg = obind (code_bits t seg) (\<lambda>bits. Ok (div_ceil (bits + 1) 8))"

definition streams_byte_len :: "code_table \<Rightarrow> byte list \<Rightarrow> (bool \<times> nat) option result" where
  "streams_byte_len t lits =
     (let n = length lits in
      if four_streams n then
        let seg = div_ceil n 4 in
        obind (slice_range lits 0 seg) (\<lambda>l1. obind (stream_len t l1) (\<lambda>s1.
        obind (slice_range lits seg (2 * seg)) (\<lambda>l2. obind (stream_len t l2) (\<lambda>s2.
        obind (slice_range lits (2 * seg) (3 * seg)) (\<lambda>l3. obind (stream_len t l3) (\<lambda>s3.
        obind (slice_from lits (3 * seg)) (\<lambda>l4. obind (stream_len t l4) (\<lambda>s4.
        if 65535 < s1 \<or> 65535 < s2 \<or> 65535 < s3 then Ok None
        else Ok (Some (True, 6 + s1 + s2 + s3 + s4))))))))))
      else obind (stream_len t lits) (\<lambda>s. Ok (Some (False, s))))"

definition compressed_header_len :: "bool \<Rightarrow> nat \<Rightarrow> nat \<Rightarrow> nat option" where
  "compressed_header_len four regen csize = map_option snd (size_format four regen csize)"

definition raw_header_len :: "nat \<Rightarrow> nat" where
  "raw_header_len regen = (if regen < 32 then 1 else if regen < 4096 then 2 else 3)"

text \<open>The size of a Huffman section with a header of \<open>extra\<close> bytes in front of its streams.\<close>

definition section_size :: "code_table \<Rightarrow> nat \<Rightarrow> byte list \<Rightarrow> nat option result" where
  "section_size t extra lits =
     obind (streams_byte_len t lits) (\<lambda>r.
     case r of
       None \<Rightarrow> Ok None
     | Some (four, slen) \<Rightarrow>
         let payload = extra + slen in
         Ok (map_option (\<lambda>h. h + payload) (compressed_header_len four (length lits) payload)))"

definition write_raw_literals :: "byte list \<Rightarrow> byte list" where
  "write_raw_literals lits =
     (let regen = length lits in
      (if regen < 32 then [word_of_nat (regen * 2 ^ 3)]
       else if regen < 4096 then
         [4 OR push_bit 4 (word_of_nat regen AND 0xF), word_of_nat (regen div 2 ^ 4)]
       else
         [12 OR push_bit 4 (word_of_nat (regen mod 2 ^ 4)), word_of_nat (regen div 2 ^ 4 mod 2 ^ 8),
          word_of_nat (regen div 2 ^ 12)])
      @ lits)"

datatype lit_choice = Raw_Literals | Compressed_Literals | Treeless_Literals

definition choose_literals :: "nat \<Rightarrow> nat option \<Rightarrow> nat option \<Rightarrow> lit_choice" where
  "choose_literals raw_size compressed_size treeless_size =
     (let (best, choice) =
            (case compressed_size of
               Some c \<Rightarrow> if c < raw_size then (c, Compressed_Literals) else (raw_size, Raw_Literals)
             | None \<Rightarrow> (raw_size, Raw_Literals)) in
      case treeless_size of
        Some t \<Rightarrow> if t < best then Treeless_Literals else choice
      | None \<Rightarrow> choice)"

text \<open>The section, or the raw one where the writer of the chosen one reports an error.\<close>

definition or_raw :: "byte list result \<Rightarrow> 'a \<Rightarrow> 'a \<Rightarrow> byte list \<Rightarrow> (byte list \<times> 'a) result" where
  "or_raw section table prev lits =
     (case section of
        Ok bytes \<Rightarrow> Ok (bytes, table)
      | Err _ \<Rightarrow> Ok (write_raw_literals lits, prev)
      | Panic \<Rightarrow> Panic
      | Hang \<Rightarrow> Hang)"

definition write_literals_auto ::
  "byte list \<Rightarrow> code_table option \<Rightarrow> (byte list \<times> code_table option) result" where
  "write_literals_auto lits prev =
     obind (byte_histogram lits) (\<lambda>freq.
     obind (build_fresh_table freq) (\<lambda>fresh.
     let n = length lits in
     obind (case fresh of
              None \<Rightarrow> Ok None
            | Some (t, wh) \<Rightarrow> section_size t (length wh) lits) (\<lambda>compressed_size.
     obind (case prev of
              None \<Rightarrow> Ok None
            | Some t \<Rightarrow> if can_encode_hist t freq then section_size t 0 lits else Ok None) (\<lambda>treeless_size.
     case choose_literals (n + raw_header_len n) compressed_size treeless_size of
       Compressed_Literals \<Rightarrow>
         (case fresh of
            None \<Rightarrow> Panic
          | Some (table, weight_header) \<Rightarrow>
              or_raw (assemble_compressed_section table weight_header lits) (Some table) prev lits)
     | Treeless_Literals \<Rightarrow>
         (case prev of
            None \<Rightarrow> Panic
          | Some t \<Rightarrow> or_raw (build_treeless_section lits t) prev prev lits)
     | Raw_Literals \<Rightarrow> Ok (write_raw_literals lits, prev)))))"

section \<open>Tables of a dictionary\<close>

fun entry_lengths :: "nat list \<Rightarrow> huff_entry list \<Rightarrow> nat list" where
  "entry_lengths lengths [] = lengths"
| "entry_lengths lengths (e # es) = entry_lengths (lengths[unat (he_symbol e) := he_num_bits e]) es"

definition code_table_from_huff :: "huff_table \<Rightarrow> code_table result" where
  "code_table_from_huff ht = build_code_table (entry_lengths (replicate 256 0) (huff_entries ht))"

definition write_dict_huffman_table :: "nat list \<Rightarrow> byte list result" where
  "write_dict_huffman_table freq =
     (if count_present freq < 2 then
        Err (Invalid ''dictionary huffman table'' ''fewer than two distinct literal symbols'')
      else
        obind (code_lengths freq) (\<lambda>lengths.
        obind (build_code_table lengths) (\<lambda>table.
        write_weight_header table)))"

end
