(* ===== verification/Huff_Lengths.thy ===== *)
theory Huff_Lengths
  imports Huff_Encode
begin

text \<open>
  \<^verbatim>\<open>code_lengths\<close> yields a complete prefix code of at most 11 bits. The heap holds a forest of
  Huffman trees; the lighter of two siblings is never heavier than a node of the other trees, so a
  tree of weight under \<open>2 ^ 32\<close> is lower than 64 and the tally of the depths stays inside its
  array. The limit keeps the number of codes and the Kraft sum.
\<close>

section \<open>Trees\<close>

datatype htree = HLeaf nat | HNode nat htree htree

primrec hid :: "htree \<Rightarrow> nat" where
  "hid (HLeaf i) = i"
| "hid (HNode k l r) = k"

primrec hids :: "htree \<Rightarrow> nat list" where
  "hids (HLeaf i) = [i]"
| "hids (HNode k l r) = k # hids l @ hids r"

primrec hw :: "nat list \<Rightarrow> htree \<Rightarrow> nat" where
  "hw ws (HLeaf i) = ws ! i"
| "hw ws (HNode k l r) = hw ws l + hw ws r"

text \<open>The leaves from left to right with their depths.\<close>

primrec hdepths :: "nat \<Rightarrow> htree \<Rightarrow> (nat \<times> nat) list" where
  "hdepths d (HLeaf i) = [(i, d)]"
| "hdepths d (HNode k l r) = hdepths (d + 1) l @ hdepths (d + 1) r"

primrec hheight :: "htree \<Rightarrow> nat" where
  "hheight (HLeaf i) = 0"
| "hheight (HNode k l r) = Suc (max (hheight l) (hheight r))"

fun hchildren :: "htree \<Rightarrow> htree list" where
  "hchildren (HLeaf i) = []"
| "hchildren (HNode k l r) = [l, r]"

text \<open>The parent pointers below a root.\<close>

primrec wired :: "nat list \<Rightarrow> htree \<Rightarrow> bool" where
  "wired parent (HLeaf i) \<longleftrightarrow> True"
| "wired parent (HNode k l r) \<longleftrightarrow> parent ! hid l = k \<and> parent ! hid r = k \<and> wired parent l \<and> wired parent r"

text \<open>No child of one tree is heavier than another tree.\<close>

definition lighter :: "nat list \<Rightarrow> htree \<Rightarrow> htree \<Rightarrow> bool" where
  "lighter ws a b \<longleftrightarrow> (\<forall>c \<in> set (hchildren a). hw ws c \<le> hw ws b)"

primrec balanced :: "nat list \<Rightarrow> htree \<Rightarrow> bool" where
  "balanced ws (HLeaf i) \<longleftrightarrow> 0 < ws ! i"
| "balanced ws (HNode k l r) \<longleftrightarrow> lighter ws l r \<and> lighter ws r l \<and> balanced ws l \<and> balanced ws r"

lemma hid_in [simp]: "hid t \<in> set (hids t)"
  by (cases t) simp_all

lemma hids_nonempty [simp]: "hids t \<noteq> []"
  by (cases t) simp_all

lemma wired_cong: "(\<And>i. i \<in> set (hids t) \<Longrightarrow> i \<noteq> hid t \<Longrightarrow> parent ! i = parent' ! i) \<Longrightarrow> distinct (hids t) \<Longrightarrow>
    wired parent t \<longleftrightarrow> wired parent' t"
proof (induction t)
  case (HLeaf i)
  then show ?case by simp
next
  case (HNode k l r)
  have k: "k \<notin> set (hids l)" "k \<notin> set (hids r)" using HNode.prems(2) by auto
  then have "hid l \<noteq> k" "hid r \<noteq> k" using hid_in [of l] hid_in [of r] by blast+
  then have l: "parent ! hid l = parent' ! hid l" "parent ! hid r = parent' ! hid r"
    using HNode.prems(1) [of "hid l"] HNode.prems(1) [of "hid r"] by auto
  have "wired parent l \<longleftrightarrow> wired parent' l"
    by (rule HNode.IH(1)) (use HNode.prems k in auto)
  moreover have "wired parent r \<longleftrightarrow> wired parent' r"
    by (rule HNode.IH(2)) (use HNode.prems k in auto)
  ultimately show ?case using l by simp
qed

lemma pow2_half_le: "hheight t \<le> Suc (Suc n) \<Longrightarrow> 2 ^ (hheight t div 2) \<le> (2::nat) * 2 ^ (n div 2)"
proof -
  assume "hheight t \<le> Suc (Suc n)"
  then have "hheight t div 2 \<le> Suc (n div 2)" using div_le_mono [of "hheight t" "Suc (Suc n)" 2] by simp
  then have "(2::nat) ^ (hheight t div 2) \<le> 2 ^ Suc (n div 2)" by (rule power_increasing) simp
  then show ?thesis by simp
qed

lemma hw_pos: "balanced ws t \<Longrightarrow> 0 < hw ws t"
  by (induction t) auto

text \<open>A tree that is higher has twice the weight of one that is lower by two.\<close>

lemma balanced_grow:
  assumes a: "balanced ws a" "\<And>c. c \<in> set (hchildren a) \<Longrightarrow> 2 ^ (hheight c div 2) \<le> hw ws c"
    and w: "2 ^ (hheight a div 2) \<le> hw ws a" and b: "balanced ws b" "lighter ws a b"
  shows "2 ^ (Suc (hheight a) div 2) \<le> hw ws a + hw ws b"
proof (cases a)
  case (HLeaf i)
  then show ?thesis using hw_pos [OF a(1)] by simp
next
  case (HNode k l r)
  obtain c where c: "c \<in> set (hchildren a)" "hheight a = Suc (hheight c)"
    using HNode by (cases "hheight l \<le> hheight r") (auto simp: max_def)
  have "hw ws c \<le> hw ws b" using b(2) c(1) by (simp add: lighter_def)
  moreover have "hw ws c \<le> hw ws a" using c(1) HNode by auto
  moreover have "2 ^ (hheight c div 2) \<le> hw ws c" by (rule a(2) [OF c(1)])
  moreover have "Suc (hheight a) div 2 = Suc (hheight c div 2)" using c(2) by simp
  ultimately show ?thesis by simp
qed

lemma balanced_weight:
  "balanced ws t \<Longrightarrow> 2 ^ (hheight t div 2) \<le> hw ws t \<and> (\<forall>c \<in> set (hchildren t). 2 ^ (hheight c div 2) \<le> hw ws c)"
proof (induction t)
  case (HLeaf i)
  then show ?case by simp
next
  case (HNode k l r)
  then have l: "balanced ws l" "balanced ws r" "lighter ws l r" "lighter ws r l" by simp_all
  note IH = HNode.IH(1) [OF l(1)] HNode.IH(2) [OF l(2)]
  have "2 ^ (Suc (hheight l) div 2) \<le> hw ws l + hw ws r" "2 ^ (Suc (hheight r) div 2) \<le> hw ws r + hw ws l"
    using IH l by (auto intro!: balanced_grow)
  moreover have "hheight (HNode k l r) = Suc (hheight l) \<or> hheight (HNode k l r) = Suc (hheight r)"
    by (simp add: max_def)
  ultimately show ?case using IH by auto
qed

lemma hheight_less_64:
  assumes "balanced ws t" and "hw ws t < 2 ^ 32"
  shows "hheight t < 64"
proof (rule ccontr)
  assume "\<not> hheight t < 64"
  then have "(2::nat) ^ 32 \<le> 2 ^ (hheight t div 2)" by (intro power_increasing) auto
  then show False using balanced_weight [OF assms(1)] assms(2) by linarith
qed

lemma hdepths_nonempty [simp]: "hdepths d t \<noteq> []"
  by (induction t arbitrary: d) simp_all

lemma hdepths_le: "(i, k) \<in> set (hdepths d t) \<Longrightarrow> d \<le> k \<and> k \<le> d + hheight t"
  by (induction t arbitrary: d) fastforce+

lemma hheight_less_hids: "hheight t < length (hids t)"
  by (induction t) auto

section \<open>The walk to the root\<close>

lemma depth_walk_root: "depth_walk f parent usize_max d = Ok d"
  by (simp add: depth_walk.simps)

lemma depth_walk_Suc:
  "p \<noteq> usize_max \<Longrightarrow> depth_walk (Suc f) parent p d = obind (idx parent p) (\<lambda>q. depth_walk f parent q (d + 1))"
  by (subst depth_walk.simps) simp

lemma depth_walk_add:
  "depth_walk f parent p d = Ok k \<Longrightarrow> f \<le> f' \<Longrightarrow> depth_walk f' parent p (d + e) = Ok (k + e)"
proof (induction f arbitrary: p d f')
  case 0
  then show ?case by (simp add: depth_walk.simps split: if_splits)
next
  case (Suc f)
  then obtain g where g: "f' = Suc g" "f \<le> g" by (cases f') auto
  show ?case
  proof (cases "p = usize_max")
    case True
    then show ?thesis using Suc.prems by (simp add: depth_walk.simps)
  next
    case False
    then have "\<exists>q. (idx parent p :: nat result) = Ok q \<and> depth_walk f parent q (d + 1) = Ok k"
      using Suc.prems(1) unfolding depth_walk_Suc [OF False] by (simp add: obind_eq_Ok)
    then obtain q where q: "(idx parent p :: nat result) = Ok q" "depth_walk f parent q (d + 1) = Ok k" by blast
    then have "depth_walk g parent q (d + 1 + e) = Ok (k + e)" using Suc.IH g(2) by blast
    then show ?thesis using q(1) by (simp add: g(1) depth_walk_Suc [OF False])
  qed
qed

lemma depth_walk_leaf:
  assumes "wired parent t" and "\<forall>i \<in> set (hids t). i < length parent" and "\<forall>i \<in> set (hids t). i \<noteq> usize_max"
    and "depth_walk f parent (parent ! hid t) 0 = Ok d" and "(i, k) \<in> set (hdepths d t)" and "f + hheight t \<le> f'"
  shows "depth_walk f' parent (parent ! i) 0 = Ok k"
  using assms
proof (induction t arbitrary: d f)
  case (HLeaf j)
  then show ?case using depth_walk_add [of f parent "parent ! j" 0 d f' 0] by simp
next
  case (HNode n l r)
  have up: "depth_walk (Suc f) parent (parent ! hid c) 0 = Ok (d + 1)" if "c = l \<or> c = r" for c
  proof -
    have "depth_walk f parent (parent ! n) (0 + 1) = Ok (d + 1)"
      using HNode.prems(4) by (intro depth_walk_add [where f = f]) auto
    moreover have "parent ! hid c = n" using that HNode.prems(1) by auto
    moreover have "n \<noteq> usize_max" "n < length parent" using HNode.prems(2,3) by simp_all
    ultimately show ?thesis by (simp add: depth_walk_Suc)
  qed
  from HNode.prems(5) consider "(i, k) \<in> set (hdepths (d + 1) l)" | "(i, k) \<in> set (hdepths (d + 1) r)" by auto
  then show ?case
  proof cases
    case 1
    show ?thesis by (rule HNode.IH(1) [OF _ _ _ up 1]) (use HNode.prems in auto)
  next
    case 2
    show ?thesis by (rule HNode.IH(2) [OF _ _ _ up 2]) (use HNode.prems in auto)
  qed
qed

section \<open>The forest of the heap\<close>

primrec hleaves :: "htree \<Rightarrow> nat list" where
  "hleaves (HLeaf i) = [i]"
| "hleaves (HNode k l r) = hleaves l @ hleaves r"

lemma map_fst_hdepths [simp]: "map fst (hdepths d t) = hleaves t"
  by (induction t arbitrary: d) simp_all

definition hkey :: "nat list \<Rightarrow> htree \<Rightarrow> nat \<times> nat" where
  "hkey ws t = (hw ws t, hid t)"

definition forest :: "nat \<Rightarrow> nat list \<Rightarrow> nat list \<Rightarrow> htree list \<Rightarrow> nat \<Rightarrow> bool" where
  "forest m ws parent ts nxt \<longleftrightarrow> length parent = 2 * m \<and> nxt + length ts = 2 * m
     \<and> distinct (concat (map hids ts)) \<and> (\<forall>t \<in> set ts. \<forall>i \<in> set (hids t). i < nxt)
     \<and> (\<forall>t \<in> set ts. wired parent t \<and> parent ! hid t = usize_max \<and> balanced ws t)
     \<and> (\<forall>i < 2 * m. nxt \<le> i \<longrightarrow> parent ! i = usize_max)
     \<and> (\<forall>t \<in> set ts. \<forall>u \<in> set ts. lighter ws t u)
     \<and> mset (concat (map hleaves ts)) = mset [0..<m]
     \<and> sum_list (map (hw ws) ts) = sum_list ws"

lemma mset_concat_map: "mset (concat (map f ts)) = sum_mset (image_mset (\<lambda>t. mset (f t)) (mset ts))"
  by (induction ts) simp_all

lemma sum_list_perm:
  fixes f :: "'a \<Rightarrow> nat"
  assumes "mset xs = mset ys"
  shows "sum_list (map f xs) = sum_list (map f ys)"
  using arg_cong [OF assms, of "\<lambda>M. sum_mset (image_mset f M)"] by (simp only: sum_mset_sum_list mset_map [symmetric])

lemma forest_perm:
  assumes "mset ts = mset ts'"
  shows "forest m ws parent ts nxt \<longleftrightarrow> forest m ws parent ts' nxt"
proof -
  have eq: "set ts = set ts'" "length ts = length ts'" using assms by (auto dest: mset_eq_setD mset_eq_length)
  have c: "mset (concat (map f ts)) = mset (concat (map f ts'))" for f :: "htree \<Rightarrow> nat list"
    by (simp only: mset_concat_map assms)
  have "sum_list (map (hw ws) ts) = sum_list (map (hw ws) ts')"
    by (rule sum_list_perm [OF assms])
  then show ?thesis
    unfolding forest_def eq c mset_eq_imp_distinct_iff [OF c] by simp
qed

lemma heap_push_map:
  "\<exists>ts'. heap_push (hkey ws t) (map (hkey ws) ts) = map (hkey ws) ts' \<and> mset ts' = mset (t # ts)"
proof (induction ts)
  case Nil
  have "heap_push (hkey ws t) (map (hkey ws) []) = map (hkey ws) [t]" by simp
  then show ?case by blast
next
  case (Cons u ts)
  then obtain ts' where ts': "heap_push (hkey ws t) (map (hkey ws) ts) = map (hkey ws) ts'" "mset ts' = mset (t # ts)"
    by blast
  show ?case
  proof (cases "fst (hkey ws t) < fst (hkey ws u) \<or> fst (hkey ws t) = fst (hkey ws u) \<and> snd (hkey ws t) \<le> snd (hkey ws u)")
    case True
    then have "heap_push (hkey ws t) (map (hkey ws) (u # ts)) = map (hkey ws) (t # u # ts)" by simp
    then show ?thesis by blast
  next
    case False
    then have "heap_push (hkey ws t) (map (hkey ws) (u # ts)) = map (hkey ws) (u # ts')"
      using ts'(1) by (auto simp: not_less)
    then show ?thesis using ts'(2) by (intro exI [of _ "u # ts'"]) simp
  qed
qed

lemma sorted_heap_push: "sorted (map fst h) \<Longrightarrow> sorted (map fst (heap_push x h))"
proof -
  have set: "set (heap_push x h) = insert x (set h)" for h by (induction h) auto
  show "sorted (map fst h) \<Longrightarrow> sorted (map fst (heap_push x h))"
    by (induction h) (auto simp: set)
qed

lemma forest_merge:
  assumes f: "forest m ws parent (a # b # ts) nxt" and m: "2 * m < usize_max"
    and le: "hw ws a \<le> hw ws b" "\<And>t. t \<in> set ts \<Longrightarrow> hw ws b \<le> hw ws t"
  shows "forest m ws (parent[hid a := nxt, hid b := nxt]) (HNode nxt a b # ts) (nxt + 1)"
proof -
  let ?p = "parent[hid a := nxt, hid b := nxt]"
  have d: "distinct (concat (map hids (a # b # ts)))" and lt: "\<forall>t \<in> set (a # b # ts). \<forall>i \<in> set (hids t). i < nxt"
    and n: "length parent = 2 * m" "nxt + length (a # b # ts) = 2 * m"
    and w: "\<forall>t \<in> set (a # b # ts). wired parent t \<and> parent ! hid t = usize_max \<and> balanced ws t"
    and free: "\<forall>i < 2 * m. nxt \<le> i \<longrightarrow> parent ! i = usize_max"
    and l: "\<forall>t \<in> set (a # b # ts). \<forall>u \<in> set (a # b # ts). lighter ws t u"
    using f unfolding forest_def by blast+
  have nx: "nxt < 2 * m" using n(2) by simp
  have ab: "hid a < nxt" "hid b < nxt" using lt by simp_all
  have dd: "distinct (hids a)" "distinct (hids b)" "set (hids a) \<inter> set (hids b) = {}" "distinct (concat (map hids ts))"
    "set (hids a) \<inter> set (concat (map hids ts)) = {}" "set (hids b) \<inter> set (concat (map hids ts)) = {}"
    using d unfolding list.map concat.simps distinct_append set_append by blast+
  have "set (hids t) \<subseteq> set (concat (map hids ts))" if "t \<in> set ts" for t using that by auto
  then have dt: "set (hids a) \<inter> set (hids t) = {}" "set (hids b) \<inter> set (hids t) = {}" if "t \<in> set ts" for t
    using dd(5,6) that by blast+
  have notin: "hid a \<notin> set (hids t)" "hid b \<notin> set (hids t)" if "t \<in> set ts" for t
    using dt [OF that] hid_in [of a] hid_in [of b] by blast+
  have apart: "hid a \<notin> set (hids b)" "hid b \<notin> set (hids a)"
    using dd(3) hid_in [of a] hid_in [of b] by blast+
  then have ne: "hid a \<noteq> hid b" using hid_in [of b] by metis
  have keep: "?p ! i = parent ! i" if "i \<noteq> hid a" "i \<noteq> hid b" for i using that by simp
  have wa: "wired ?p a \<longleftrightarrow> wired parent a"
    using dd(1) apart(2) keep by (intro wired_cong) metis+
  have wb: "wired ?p b \<longleftrightarrow> wired parent b"
    using dd(2) apart(1) keep by (intro wired_cong) metis+
  have up: "?p ! hid a = nxt" "?p ! hid b = nxt" using ab n nx ne by (simp_all add: nth_list_update)
  have wt: "wired ?p t \<and> ?p ! hid t = usize_max \<and> balanced ws t" if "t \<in> set ts" for t
  proof -
    have "hid t \<noteq> hid a" "hid t \<noteq> hid b" using notin [OF that] hid_in [of t] by metis+
    moreover have "wired ?p t \<longleftrightarrow> wired parent t"
    proof (rule wired_cong)
      show "distinct (hids t)" using dd(4) that by (simp add: distinct_concat_iff)
    qed (use notin [OF that] keep in metis)
    ultimately show ?thesis using w that by simp
  qed
  have new: "wired ?p (HNode nxt a b) \<and> ?p ! nxt = usize_max \<and> balanced ws (HNode nxt a b)"
    using w l up wa wb free nx ab by (simp add: nth_list_update)
  have free': "\<forall>i < 2 * m. nxt + 1 \<le> i \<longrightarrow> ?p ! i = usize_max" using free ab by (simp add: nth_list_update)
  have light: "lighter ws t u" if "t \<in> set (HNode nxt a b # ts)" "u \<in> set (HNode nxt a b # ts)" for t u
  proof -
    have own: "lighter ws (HNode nxt a b) (HNode nxt a b)" by (simp add: lighter_def)
    have "lighter ws (HNode nxt a b) u" if "u \<in> set ts" for u
      using le that by (auto simp: lighter_def intro: order_trans)
    moreover have "lighter ws t (HNode nxt a b)" if "t \<in> set ts" for t
      using l that by (auto simp: lighter_def intro: trans_le_add1)
    ultimately show ?thesis using that own l by auto
  qed
  have fresh: "nxt \<notin> set (concat (map hids (a # b # ts)))" using lt by auto
  have lt': "\<forall>t \<in> set (HNode nxt a b # ts). \<forall>i \<in> set (hids t). i < nxt + 1"
    using lt by (auto simp: less_Suc_eq)
  have d': "distinct (concat (map hids (HNode nxt a b # ts)))" using d fresh by auto
  show ?thesis
    unfolding forest_def using n d' lt' new wt free' light f
    by (auto simp: forest_def)
qed

lemma forest_hids_less:
  "forest m ws parent ts nxt \<Longrightarrow> t \<in> set ts \<Longrightarrow> i \<in> set (hids t) \<Longrightarrow> i < 2 * m"
  by (fastforce simp: forest_def)

lemma huff_merge_forest:
  assumes "forest m ws parent ts nxt" and "2 * m < usize_max" and "length weight = 2 * m" and "ts \<noteq> []"
    and "sorted (map (hw ws) ts)"
  shows "\<exists>weight' parent' t. huff_merge weight parent (map (hkey ws) ts) nxt = Ok (weight', parent')
    \<and> forest m ws parent' [t] (2 * m - 1)"
  using assms
proof (induction "length ts" arbitrary: ts parent weight nxt)
  case 0
  then show ?case by simp
next
  case (Suc n)
  then obtain a us where us: "ts = a # us" by (cases ts) auto
  show ?case
  proof (cases us)
    case Nil
    have "nxt + length ts = 2 * m" using Suc.prems(1) unfolding forest_def by blast
    then have "nxt = 2 * m - 1" using us Nil by simp
    then show ?thesis using Suc.prems(1) us Nil by (subst huff_merge.simps) (auto simp: hkey_def)
  next
    case (Cons b rest)
    let ?p = "parent[hid a := nxt, hid b := nxt]"
    let ?t = "HNode nxt a b"
    have ts: "ts = a # b # rest" using us Cons by simp
    have f: "forest m ws ?p (?t # rest) (nxt + 1)"
      by (rule forest_merge) (use Suc.prems(1,2,5) ts in auto)
    obtain ts' where ts': "heap_push (hkey ws ?t) (map (hkey ws) rest) = map (hkey ws) ts'" "mset ts' = mset (?t # rest)"
      using heap_push_map by blast
    have f': "forest m ws ?p ts' (nxt + 1)" using f forest_perm [OF ts'(2)] by simp
    have key: "map fst (map (hkey ws) us) = map (hw ws) us" for us by (simp add: hkey_def)
    have "sorted (map fst (map (hkey ws) rest))" using Suc.prems(5) unfolding key ts by simp
    then have srt: "sorted (map (hw ws) ts')" using sorted_heap_push [of _ "hkey ws ?t"] ts'(1) key by metis
    have len: "n = length ts'" "ts' \<noteq> []"
      using mset_eq_length [OF ts'(2)] Suc.hyps(2) ts by auto
    have ids: "hid a < 2 * m" "hid b < 2 * m"
      using forest_hids_less [OF Suc.prems(1), of a "hid a"] forest_hids_less [OF Suc.prems(1), of b "hid b"] ts by simp_all
    have "nxt + length ts = 2 * m" and pl: "length parent = 2 * m" using Suc.prems(1) unfolding forest_def by blast+
    then have nx: "nxt < 2 * m" using ts by simp
    have "huff_merge weight parent (map (hkey ws) ts) nxt
      = huff_merge (weight[nxt := hw ws a + hw ws b]) ?p (map (hkey ws) ts') (nxt + 1)"
      using ids nx pl Suc.prems(3) unfolding ts'(1) [symmetric]
      by (subst huff_merge.simps) (simp add: ts hkey_def)
    moreover have "\<exists>weight' parent' t. huff_merge (weight[nxt := hw ws a + hw ws b]) ?p (map (hkey ws) ts') (nxt + 1)
        = Ok (weight', parent') \<and> forest m ws parent' [t] (2 * m - 1)"
      by (rule Suc.hyps(1) [OF len(1) f' Suc.prems(2) _ len(2) srt]) (simp add: Suc.prems(3))
    ultimately show ?thesis by simp
  qed
qed

lemma heap_of_leaves:
  "\<exists>ts. heap_of ws = map (hkey ws) ts \<and> mset ts = mset (map HLeaf [0..<length ws]) \<and> sorted (map (hw ws) ts)"
proof -
  have key: "map fst (map (hkey ws) us) = map (hw ws) us" for us by (simp add: hkey_def)
  have gen: "\<exists>ts'. fold heap_push (map (hkey ws) us) (map (hkey ws) ts) = map (hkey ws) ts'
      \<and> mset ts' = mset us + mset ts \<and> sorted (map (hw ws) ts')" if "sorted (map (hw ws) ts)" for us ts
    using that
  proof (induction us arbitrary: ts)
    case Nil
    then show ?case by auto
  next
    case (Cons u us)
    obtain ts1 where ts1: "heap_push (hkey ws u) (map (hkey ws) ts) = map (hkey ws) ts1" "mset ts1 = mset (u # ts)"
      using heap_push_map by blast
    have "sorted (map (hw ws) ts1)" using sorted_heap_push [of _ "hkey ws u"] ts1(1) Cons.prems key by metis
    then show ?case using Cons.IH [of ts1] ts1 by simp
  qed
  have "zip ws [0..<length ws] = map (hkey ws) (map HLeaf [0..<length ws])"
    by (rule nth_equalityI) (simp_all add: hkey_def)
  then show ?thesis using gen [of "[]" "map HLeaf [0..<length ws]"] by (simp add: heap_of_def)
qed

lemma forest_leaves:
  assumes "m = length ws" and "\<forall>w \<in> set ws. 0 < w"
  shows "forest m ws (replicate (2 * m) usize_max) (map HLeaf [0..<m]) m"
proof -
  have c: "concat (map hids (map HLeaf xs)) = xs" "concat (map hleaves (map HLeaf xs)) = xs" for xs
    by (induction xs) simp_all
  have "map (hw ws) (map HLeaf [0..<m]) = ws" using assms(1) by (simp add: map_nth comp_def)
  then show ?thesis
    using assms unfolding forest_def c by (auto simp: lighter_def)
qed

text \<open>The depths of the leaves of one tree over all the symbols.\<close>

lemma huff_depths:
  assumes ws: "\<forall>w \<in> set ws. 0 < w" "sum_list ws < 2 ^ 32" and m: "m = length ws" "0 < m" "2 * m < usize_max"
  shows "\<exists>weight parent t depth. huff_merge (ws @ replicate m 0) (replicate (2 * m) usize_max) (heap_of ws) m = Ok (weight, parent)
    \<and> traverse (leaf_depth parent) [0..<m] = Ok depth \<and> mset depth = mset (map snd (hdepths 0 t)) \<and> length depth = m
    \<and> (2 \<le> m \<longrightarrow> 0 < hheight t) \<and> hheight t < 64"
proof -
  obtain ts where ts: "heap_of ws = map (hkey ws) ts" "mset ts = mset (map HLeaf [0..<m])" "sorted (map (hw ws) ts)"
    using heap_of_leaves [of ws] m(1) by auto
  have f: "forest m ws (replicate (2 * m) usize_max) ts m"
    using forest_leaves [OF m(1) ws(1)] forest_perm [OF ts(2)] by simp
  have "ts \<noteq> []" using mset_eq_length [OF ts(2)] m(2) by auto
  then obtain weight parent t where t: "huff_merge (ws @ replicate m 0) (replicate (2 * m) usize_max) (heap_of ws) m = Ok (weight, parent)"
      "forest m ws parent [t] (2 * m - 1)"
    using huff_merge_forest [OF f m(3) _ _ ts(3), of "ws @ replicate m 0"] ts(1) m(1) by auto
  have tw: "wired parent t" "parent ! hid t = usize_max" "balanced ws t" "mset (hleaves t) = mset [0..<m]"
    "hw ws t = sum_list ws" "\<forall>i \<in> set (hids t). i < length parent" "length parent = 2 * m" "distinct (hids t)"
    using t(2) by (auto simp: forest_def)
  have h64: "hheight t < 64" using hheight_less_64 [OF tw(3)] tw(5) ws(2) by simp
  have "length (hids t) \<le> 2 * m"
    using tw(6,8) card_mono [of "{..<length parent}" "set (hids t)"] by (auto simp: distinct_card tw(7))
  then have h2: "hheight t \<le> length parent" using hheight_less_hids [of t] tw(7) by simp
  have leaf: "leaf_depth parent i = Ok k" if "(i, k) \<in> set (hdepths 0 t)" for i k
  proof -
    have "i \<in> set (map fst (hdepths 0 t))" using that by (metis fst_conv image_eqI list.set_map)
    then have "i \<in> set (hleaves t)" by simp
    then have "i < m" using mset_eq_setD [OF tw(4)] by auto
    moreover have "\<forall>i \<in> set (hids t). i \<noteq> usize_max" using tw(6,7) m(3) by fastforce
    ultimately show ?thesis
      using depth_walk_leaf [OF tw(1,6) _ _ that, of 0 "length parent"] tw(2,7) h2
      by (simp add: leaf_depth_def depth_walk_root)
  qed
  define dep where "dep i = the (map_of (hdepths 0 t) i)" for i
  have dl: "distinct (map fst (hdepths 0 t))" using mset_eq_imp_distinct_iff [OF tw(4)] by simp
  have "leaf_depth parent i = Ok (dep i)" if "i \<in> set [0..<m]" for i
  proof -
    have "i \<in> set (map fst (hdepths 0 t))" using mset_eq_setD [OF tw(4)] that by simp
    then obtain k where "(i, k) \<in> set (hdepths 0 t)" unfolding set_map by fastforce
    then show ?thesis using leaf dl by (simp add: dep_def)
  qed
  then have tr: "traverse (leaf_depth parent) [0..<m] = Ok (map dep [0..<m])" by (rule traverse_Ok)
  have "mset (map dep [0..<m]) = image_mset dep (mset (map fst (hdepths 0 t)))" using tw(4) by simp
  also have "\<dots> = mset (map (\<lambda>x. dep (fst x)) (hdepths 0 t))" by (simp only: mset_map [symmetric] list.map_comp comp_def)
  also have "map (\<lambda>x. dep (fst x)) (hdepths 0 t) = map snd (hdepths 0 t)"
    using dl by (intro map_cong) (auto simp: dep_def)
  finally have "mset (map dep [0..<m]) = mset (map snd (hdepths 0 t))" .
  moreover have "2 \<le> m \<longrightarrow> 0 < hheight t"
    using mset_eq_length [OF tw(4)] by (cases t) auto
  ultimately show ?thesis using t(1) tr h64 by (intro exI [of _ weight] exI [of _ parent] exI [of _ t] exI [of _ "map dep [0..<m]"]) simp
qed

section \<open>The Kraft sum\<close>

text \<open>A weighted sum over an array, and an update of one element.\<close>

definition wsum :: "(nat \<Rightarrow> nat) \<Rightarrow> nat list \<Rightarrow> nat" where
  "wsum f xs = (\<Sum>i < length xs. f i * xs ! i)"

lemma wsum_update:
  assumes "i < length xs"
  shows "wsum f (xs[i := v]) + f i * xs ! i = wsum f xs + f i * v"
proof -
  have *: "wsum f ys = (\<Sum>j \<in> {..<length xs} - {i}. f j * ys ! j) + f i * ys ! i" if "length ys = length xs" for ys
    unfolding wsum_def that using assms by (subst sum.remove [of _ i]) auto
  have "(\<Sum>j \<in> {..<length xs} - {i}. f j * xs[i := v] ! j) = (\<Sum>j \<in> {..<length xs} - {i}. f j * xs ! j)"
    by (rule sum.cong) auto
  then show ?thesis using * [of "xs[i := v]"] * [of xs] assms by simp
qed

lemma wsum_count_list:
  assumes "\<forall>x \<in> set xs. x < n" and "length cs = n" and "\<And>i. i < n \<Longrightarrow> cs ! i = count_list xs i"
  shows "wsum f cs = sum_list (map f xs)"
proof -
  have "(\<Sum>i < n. f i * count_list xs i) = sum_list (map f xs)"
    using assms(1)
  proof (induction xs)
    case Nil
    then show ?case by simp
  next
    case (Cons x xs)
    have "(\<Sum>i < n. f i * count_list (x # xs) i) = (\<Sum>i < n. f i * count_list xs i + (if i = x then f x else 0))"
      by (rule sum.cong) auto
    then show ?case using Cons by (simp add: sum.distrib)
  qed
  then show ?thesis using assms(2,3) by (simp add: wsum_def)
qed

text \<open>\<open>2 ^ 63\<close> times the Kraft sum, for code lengths under 64.\<close>

abbreviation kraft :: "nat list \<Rightarrow> nat" where
  "kraft counts \<equiv> wsum (\<lambda>l. 2 ^ (63 - l)) counts"

lemma kraft_hdepths:
  "d + hheight t < 64 \<Longrightarrow> sum_list (map (\<lambda>l. 2 ^ (63 - l)) (map snd (hdepths d t))) = (2::nat) ^ (63 - d)"
proof (induction t arbitrary: d)
  case (HLeaf i)
  then show ?case by simp
next
  case (HNode k l r)
  then have "63 - d = Suc (63 - Suc d)" by simp
  then show ?case using HNode.IH [of "Suc d"] HNode.prems by simp
qed

text \<open>The state of the limit: the counts of a complete code of \<open>m\<close> symbols, none longer than \<open>i\<close>.\<close>

definition complete :: "nat \<Rightarrow> nat \<Rightarrow> nat list \<Rightarrow> bool" where
  "complete m i counts \<longleftrightarrow> length counts = 64 \<and> counts ! 0 = 0 \<and> sum_list counts = m \<and> kraft counts = 2 ^ 63
     \<and> (\<forall>l < 64. i < l \<longrightarrow> counts ! l = 0)"

lemma complete_even:
  assumes "complete m i counts" and "0 < i" and "i < 64"
  shows "even (counts ! i)"
proof -
  have len: "length counts = 64" using assms(1) by (simp add: complete_def)
  have *: "2 ^ (64 - i) dvd 2 ^ (63 - l) * counts ! l" if "l < 64" "l \<noteq> i" for l
  proof (cases "i < l")
    case True
    then show ?thesis using assms(1) that by (simp add: complete_def)
  next
    case False
    then have "(2::nat) ^ (64 - i) dvd 2 ^ (63 - l)" using that by (intro le_imp_power_dvd) simp
    then show ?thesis by (rule dvd_mult2)
  qed
  have "(\<Sum>l < 64. 2 ^ (63 - l) * counts ! l) = 2 ^ (63 - i) * counts ! i + (\<Sum>l \<in> {..<64} - {i}. 2 ^ (63 - l) * counts ! l)"
    using assms(3) by (subst sum.remove [of _ i]) auto
  moreover have "(\<Sum>l < 64. 2 ^ (63 - l) * counts ! l) = 2 ^ 63"
    using assms(1) len by (simp add: complete_def wsum_def)
  ultimately have eq: "2 ^ 63 = 2 ^ (63 - i) * counts ! i + (\<Sum>l \<in> {..<64} - {i}. 2 ^ (63 - l) * counts ! l)"
    by (simp only:)
  have "(2::nat) ^ (64 - i) dvd 2 ^ 63" using assms(2) by (intro le_imp_power_dvd) simp
  moreover have "2 ^ (64 - i) dvd (\<Sum>l \<in> {..<64} - {i}. 2 ^ (63 - l) * counts ! l)"
    by (rule dvd_sum) (use * in auto)
  ultimately have "2 ^ (64 - i) dvd 2 ^ (63 - i) * counts ! i"
    unfolding eq by (rule dvd_add_left_iff [THEN iffD1, rotated])
  moreover have "(2::nat) ^ (64 - i) = 2 ^ (63 - i) * 2"
  proof -
    have "64 - i = Suc (63 - i)" using assms(3) by simp
    then show ?thesis by (simp only: power_Suc2)
  qed
  ultimately show ?thesis by simp
qed

lemma complete_short:
  assumes "complete m i counts" and "m \<le> 256" and "12 \<le> i" and "i < 64"
  shows "\<exists>j \<le> i - 2. 0 < j \<and> 0 < counts ! j"
proof (rule ccontr)
  assume no: "\<not> ?thesis"
  have len: "length counts = 64" using assms(1) by (simp add: complete_def)
  have "2 ^ (63 - l) * counts ! l \<le> 2 ^ (64 - i) * counts ! l" if "l < 64" for l
  proof (cases "counts ! l = 0")
    case False
    then have "0 < l" using assms(1) by (cases "l = 0") (auto simp: complete_def)
    then have "i - 2 < l" using no False by (auto simp: not_le)
    then have "i - 1 \<le> l" by linarith
    then have "(2::nat) ^ (63 - l) \<le> 2 ^ (64 - i)" using assms(3) that by (intro power_increasing) auto
    then show ?thesis by simp
  qed simp
  then have "(\<Sum>l < 64. 2 ^ (63 - l) * counts ! l) \<le> (\<Sum>l < 64. 2 ^ (64 - i) * counts ! l)"
    by (intro sum_mono) auto
  also have "\<dots> = 2 ^ (64 - i) * sum_list counts"
    using len by (simp add: sum_distrib_left sum_list_sum_nth atLeast0LessThan)
  also have "\<dots> \<le> 2 ^ 52 * 256"
    using assms by (intro mult_mono power_increasing) (auto simp: complete_def)
  finally show False using assms(1) len by (simp add: complete_def wsum_def)
qed

lemma find_len_Ok: "\<exists>j \<le> n. 0 < j \<and> 0 < counts ! j \<Longrightarrow> n < length counts \<Longrightarrow>
    \<exists>j. find_len counts n = Ok j \<and> 0 < j \<and> j \<le> n \<and> 0 < counts ! j"
proof (induction n)
  case 0
  then show ?case by auto
next
  case (Suc n)
  show ?case
  proof (cases "counts ! Suc n = 0")
    case True
    then obtain j where "j \<le> n" "0 < j" "0 < counts ! j" using Suc.prems(1) by (metis le_Suc_eq less_not_refl)
    then have "\<exists>j. find_len counts n = Ok j \<and> 0 < j \<and> j \<le> n \<and> 0 < counts ! j" using Suc by auto
    then show ?thesis using True Suc.prems(2) by (subst find_len.simps) (auto intro: le_SucI)
  next
    case False
    then show ?thesis using Suc.prems(2) by (subst find_len.simps) auto
  qed
qed

lemma limit_step_sums:
  fixes f :: "nat \<Rightarrow> nat"
  assumes i: "2 \<le> i" "i < length c" "2 \<le> c ! i" and j: "j + 2 \<le> i" "0 < c ! j"
    and c1: "c1 = c[i := c ! i - 2]" and c2: "c2 = c1[i - 1 := c1 ! (i - 1) + 1]"
    and c3: "c3 = c2[j + 1 := c2 ! (j + 1) + 2]" and c4: "c4 = c3[j := c3 ! j - 1]"
  shows "wsum f c4 + 2 * f i + f j = wsum f c + f (i - 1) + 2 * f (j + 1)" and "0 < c3 ! j"
proof -
  have eq: "c1 ! j = c ! j" "c2 ! j = c ! j" "c3 ! j = c ! j" using i j unfolding c1 c2 c3 by auto
  then show "0 < c3 ! j" using j(2) by simp
  have "wsum f c1 + f i * c ! i = wsum f c + f i * (c ! i - 2)"
    unfolding c1 by (rule wsum_update) (use i in simp)
  moreover have "f i * (c ! i - 2) + 2 * f i = f i * c ! i"
    using i(3) by (simp add: diff_mult_distrib2)
  moreover have "wsum f c2 + f (i - 1) * c1 ! (i - 1) = wsum f c1 + f (i - 1) * (c1 ! (i - 1) + 1)"
    unfolding c2 by (rule wsum_update) (use i c1 in simp)
  moreover have "wsum f c3 + f (j + 1) * c2 ! (j + 1) = wsum f c2 + f (j + 1) * (c2 ! (j + 1) + 2)"
    unfolding c3 by (rule wsum_update) (use i j c1 c2 in simp)
  moreover have "wsum f c4 + f j * c3 ! j = wsum f c3 + f j * (c3 ! j - 1)"
    unfolding c4 by (rule wsum_update) (use i j c1 c2 c3 in simp)
  moreover have "f j * (c3 ! j - 1) + f j = f j * c3 ! j"
    using j(2) eq(3) by (cases "c ! j") simp_all
  ultimately show "wsum f c4 + 2 * f i + f j = wsum f c + f (i - 1) + 2 * f (j + 1)"
    by (simp add: distrib_left)
qed

lemma limit_step_Ok:
  assumes c: "complete m i counts" "0 < counts ! i" and m: "m \<le> 256" and i: "12 \<le> i" "i < 64"
  shows "\<exists>counts'. limit_step counts i = Ok counts' \<and> complete m i counts' \<and> counts' ! i + 2 = counts ! i"
proof -
  have len: "length counts = 64" using c(1) by (simp add: complete_def)
  have i2: "i - 2 < length counts" using i len by simp
  obtain j where j: "find_len counts (i - 2) = Ok j" "0 < j" "j \<le> i - 2" "0 < counts ! j"
    using find_len_Ok [OF complete_short [OF c(1) m i]] i2 by auto
  have two: "2 \<le> counts ! i" using complete_even [OF c(1)] i c(2) by (auto elim!: evenE)
  define c1 where "c1 = counts[i := counts ! i - 2]"
  define c2 where "c2 = c1[i - 1 := c1 ! (i - 1) + 1]"
  define c3 where "c3 = c2[j + 1 := c2 ! (j + 1) + 2]"
  define c4 where "c4 = c3[j := c3 ! j - 1]"
  have l: "length c1 = 64" "length c2 = 64" "length c3 = 64" "length c4 = 64"
    by (simp_all add: c1_def c2_def c3_def c4_def len)
  note sums = limit_step_sums [OF _ _ two _ j(4) c1_def c2_def c3_def c4_def]
  have pos: "0 < c3 ! j" by (rule sums(2)) (use i j len in auto)
  have sum: "wsum f c4 + 2 * f i + f j = wsum f counts + f (i - 1) + 2 * f (j + 1)" for f :: "nat \<Rightarrow> nat"
    by (rule sums(1)) (use i j len in auto)
  have run: "limit_step counts i = Ok c4"
    using two i j len pos unfolding c4_def c3_def c2_def c1_def by (simp add: limit_step_def)
  have "sum_list xs = wsum (\<lambda>_. 1) xs" for xs by (simp add: wsum_def sum_list_sum_nth atLeast0LessThan)
  then have tot: "sum_list c4 = sum_list counts" using sum [of "\<lambda>_. 1"] by simp
  have pw: "2 * 2 ^ (63 - i) = (2::nat) ^ (63 - (i - 1))" "2 * 2 ^ (63 - (j + 1)) = (2::nat) ^ (63 - j)"
    using i j by (simp_all flip: power_Suc add: Suc_diff_le Suc_diff_Suc)
  have k: "kraft c4 = kraft counts" using sum [of "\<lambda>l. 2 ^ (63 - l)"] pw by simp
  have ne: "i \<noteq> i - 1" "i \<noteq> j + 1" "i \<noteq> j" using i j by auto
  then have at: "c4 ! i = counts ! i - 2" using i len by (simp add: c1_def c2_def c3_def c4_def)
  have "c4 ! 0 = counts ! 0" using i j by (simp add: c1_def c2_def c3_def c4_def)
  moreover have "c4 ! l = counts ! l" if "i < l" for l
    using that i j by (simp add: c1_def c2_def c3_def c4_def)
  ultimately have "complete m i c4" using c(1) l tot k by (simp add: complete_def)
  then show ?thesis using run at two by auto
qed

lemma complete_drop:
  assumes "complete m i counts" and "counts ! i = 0"
  shows "complete m (i - 1) counts"
proof -
  have "counts ! l = 0" if "l < 64" "i - 1 < l" for l
    using assms that by (cases "l = i") (auto simp: complete_def)
  then show ?thesis using assms(1) by (simp add: complete_def)
qed

lemma limit_len_Ok:
  "complete m i counts \<Longrightarrow> m \<le> 256 \<Longrightarrow> 12 \<le> i \<Longrightarrow> i < 64 \<Longrightarrow> counts ! i \<le> fuel \<Longrightarrow>
    \<exists>counts'. limit_len fuel counts i = Ok counts' \<and> complete m (i - 1) counts'"
proof (induction fuel arbitrary: counts)
  case 0
  then have "complete m (i - 1) counts" by (intro complete_drop) simp_all
  then show ?case using 0 by (subst limit_len.simps) (auto simp: complete_def)
next
  case (Suc fuel)
  have len: "length counts = 64" using Suc.prems(1) by (simp add: complete_def)
  show ?case
  proof (cases "counts ! i = 0")
    case True
    then have "complete m (i - 1) counts" by (rule complete_drop [OF Suc.prems(1)])
    then show ?thesis using True len Suc.prems(4) by (subst limit_len.simps) auto
  next
    case False
    then obtain c' where c': "limit_step counts i = Ok c'" "complete m i c'" "c' ! i + 2 = counts ! i"
      using limit_step_Ok [OF Suc.prems(1) _ Suc.prems(2,3,4)] by auto
    then show ?thesis using Suc.IH [OF c'(2)] Suc.prems False len by (subst limit_len.simps) auto
  qed
qed

lemma limit_all_Ok:
  "complete m i counts \<Longrightarrow> m \<le> 256 \<Longrightarrow> 11 \<le> i \<Longrightarrow> i < 64 \<Longrightarrow>
    \<exists>counts'. limit_all counts (rev [12..<i + 1]) = Ok counts' \<and> complete m 11 counts'"
proof (induction i arbitrary: counts)
  case 0
  then show ?case by simp
next
  case (Suc i)
  show ?case
  proof (cases "Suc i = 11")
    case True
    then show ?thesis using Suc.prems(1) by auto
  next
    case False
    then have i: "12 \<le> Suc i" "11 \<le> i" using Suc.prems(3) by simp_all
    have len: "length counts = 64" using Suc.prems(1) by (simp add: complete_def)
    obtain c' where c': "limit_len (counts ! Suc i) counts (Suc i) = Ok c'" "complete m i c'"
      using limit_len_Ok [OF Suc.prems(1,2) i(1) Suc.prems(4) order_refl] by auto
    have "rev [12..<Suc i + 1] = Suc i # rev [12..<i + 1]" using i by simp
    then show ?thesis using Suc.IH [OF c'(2) Suc.prems(2) i(2)] c'(1) Suc.prems(4) len by simp
  qed
qed

section \<open>Giving the lengths to the symbols\<close>

text \<open>The array after the lengths \<open>ls\<close> went to the symbols of \<open>order\<close> from position \<open>k\<close> on.\<close>

definition assigned :: "nat list \<Rightarrow> nat \<Rightarrow> nat list \<Rightarrow> nat list \<Rightarrow> nat list \<Rightarrow> bool" where
  "assigned order k ls lengths lengths' \<longleftrightarrow> length lengths' = length lengths
     \<and> (\<forall>p < length order. lengths' ! (order ! p) = (if k \<le> p \<and> p < k + length ls then ls ! (p - k) else lengths ! (order ! p)))
     \<and> (\<forall>s. s \<notin> set order \<longrightarrow> lengths' ! s = lengths ! s)"

lemma assigned_Nil [simp]: "assigned order k [] lengths lengths"
  by (auto simp: assigned_def)

lemma assigned_append:
  "assigned order k ls a b \<Longrightarrow> assigned order (k + length ls) ls' b c \<Longrightarrow> assigned order k (ls @ ls') a c"
  by (auto simp: assigned_def nth_append)

lemma assigned_single:
  assumes "distinct order" and "k < length order" and "\<forall>s \<in> set order. s < length lengths"
  shows "assigned order k [l] lengths (lengths[order ! k := l])"
  using assms by (auto simp: assigned_def nth_list_update nth_eq_iff_index_eq)

lemma assign_run_Ok:
  assumes "distinct order" and "len < 256"
  shows "k + n \<le> length order \<Longrightarrow> \<forall>s \<in> set order. s < length lengths \<Longrightarrow>
    \<exists>lengths'. assign_run order len n lengths k = Ok (lengths', k + n) \<and> assigned order k (replicate n len) lengths lengths'"
proof (induction n arbitrary: lengths k)
  case 0
  then show ?case by simp
next
  case (Suc n)
  have a: "assigned order k [len] lengths (lengths[order ! k := len])"
    using assms(1) Suc.prems by (intro assigned_single) auto
  obtain lengths' where r: "assign_run order len n (lengths[order ! k := len]) (k + 1) = Ok (lengths', k + 1 + n)"
      "assigned order (k + 1) (replicate n len) (lengths[order ! k := len]) lengths'"
    using Suc.IH [of "k + 1" "lengths[order ! k := len]"] Suc.prems by auto
  have "assigned order k (replicate (Suc n) len) lengths lengths'"
    using assigned_append [OF a] r(2) by simp
  moreover have "order ! k < length lengths" using Suc.prems by auto
  ultimately show ?case using r(1) Suc.prems assms(2) by (simp add: as_u8_small)
qed

definition spread :: "nat list \<Rightarrow> nat list \<Rightarrow> nat list" where
  "spread counts lens = concat (map (\<lambda>len. replicate (counts ! len) len) lens)"

lemma assign_all_Ok:
  assumes "distinct order" and "\<forall>l \<in> set lens. l < 256 \<and> l < length counts"
  shows "k + length (spread counts lens) \<le> length order \<Longrightarrow> \<forall>s \<in> set order. s < length lengths \<Longrightarrow>
    \<exists>lengths'. assign_all order counts lens lengths k = Ok (lengths', k + length (spread counts lens))
      \<and> assigned order k (spread counts lens) lengths lengths'"
  using assms(2)
proof (induction lens arbitrary: lengths k)
  case Nil
  then show ?case by (simp add: spread_def)
next
  case (Cons l lens)
  have sp: "spread counts (l # lens) = replicate (counts ! l) l @ spread counts lens" by (simp add: spread_def)
  obtain b where b: "assign_run order l (counts ! l) lengths k = Ok (b, k + counts ! l)"
      "assigned order k (replicate (counts ! l) l) lengths b"
    using assign_run_Ok [OF assms(1), of l k "counts ! l" lengths] Cons.prems sp by auto
  have "length b = length lengths" using b(2) by (simp add: assigned_def)
  then obtain c where c: "assign_all order counts lens b (k + counts ! l) = Ok (c, k + counts ! l + length (spread counts lens))"
      "assigned order (k + counts ! l) (spread counts lens) b c"
    using Cons.IH [of "k + counts ! l" b] Cons.prems sp by auto
  have "assigned order k (spread counts (l # lens)) lengths c"
    using assigned_append [OF b(2)] c(2) sp by simp
  then show ?case using b(1) c(1) sp Cons.prems(3) by (auto simp: algebra_simps)
qed

lemma spread_facts:
  shows "sorted (spread counts [a..<b])" and "set (spread counts [a..<b]) \<subseteq> {a..<b}"
    and "sum_list (map f (spread counts [a..<b])) = (\<Sum>l = a..<b. f l * counts ! l)"
    and "length (spread counts [a..<b]) = (\<Sum>l = a..<b. counts ! l)"
proof -
  show set: "set (spread counts [a..<b]) \<subseteq> {a..<b}" for b by (auto simp: spread_def)
  show "sorted (spread counts [a..<b])"
  proof (induction b)
    case (Suc b)
    then show ?case using set [of b] by (auto simp: spread_def sorted_append)
  qed (simp add: spread_def)
  show "sum_list (map f (spread counts [a..<b])) = (\<Sum>l = a..<b. f l * counts ! l)"
    by (induction b) (auto simp: spread_def sum_list_replicate algebra_simps)
  show "length (spread counts [a..<b]) = (\<Sum>l = a..<b. counts ! l)"
    by (induction b) (auto simp: spread_def)
qed

section \<open>Code lengths\<close>

text \<open>A complete prefix code of at most 11 bits, for the symbols with a length.\<close>

definition complete_code :: "nat list \<Rightarrow> bool" where
  "complete_code lengths \<longleftrightarrow> length lengths = 256 \<and> (\<forall>l \<in> set lengths. l \<le> MAX_CODE_LEN)
     \<and> sum_list (map (\<lambda>l. if l = 0 then 0 else 2 ^ (MAX_CODE_LEN - l)) lengths) = (2::nat) ^ MAX_CODE_LEN"

lemma complete_spread:
  assumes "complete m 11 counts"
  shows "length (spread counts [1..<12]) = m"
    and "sum_list (map (\<lambda>l. 2 ^ (11 - l)) (spread counts [1..<12])) = (2::nat) ^ 11"
proof -
  have len: "length counts = 64" using assms by (simp add: complete_def)
  have "counts ! l = 0" if "l \<in> {..<64} - {1..<12}" for l
    using assms that by (cases "l = 0") (auto simp: complete_def)
  then have *: "(\<Sum>l < 64. f l * counts ! l) = (\<Sum>l = 1..<12. f l * counts ! l)" for f :: "nat \<Rightarrow> nat"
    by (intro sum.mono_neutral_right) auto
  have "sum_list counts = (\<Sum>l < 64. 1 * counts ! l)"
    using len by (simp add: sum_list_sum_nth atLeast0LessThan)
  then show "length (spread counts [1..<12]) = m"
    using assms * [of "\<lambda>_. 1"] by (simp add: complete_def spread_facts(4))
  have pw: "2 ^ (63 - l) = (2::nat) ^ 52 * 2 ^ (11 - l)" if "l < 12" for l
  proof -
    have "63 - l = 52 + (11 - l)" using that by simp
    then show ?thesis by (simp only: power_add)
  qed
  have "(2::nat) ^ 63 = (\<Sum>l < 64. 2 ^ (63 - l) * counts ! l)" using assms len by (simp add: complete_def wsum_def)
  also have "\<dots> = (\<Sum>l = 1..<12. 2 ^ (63 - l) * counts ! l)" by (rule *)
  also have "\<dots> = (\<Sum>l = 1..<12. 2 ^ 52 * (2 ^ (11 - l) * counts ! l))"
    by (rule sum.cong) (simp_all only: pw atLeastLessThan_iff mult.assoc)
  also have "\<dots> = 2 ^ 52 * (\<Sum>l = 1..<12. 2 ^ (11 - l) * counts ! l)" by (simp only: sum_distrib_left)
  finally show "sum_list (map (\<lambda>l. 2 ^ (11 - l)) (spread counts [1..<12])) = (2::nat) ^ 11"
    by (simp add: spread_facts(3))
qed

lemma tally_complete:
  assumes "mset depth = mset (map snd (hdepths 0 t))" and "0 < hheight t" and "hheight t < 64"
  shows "\<exists>counts. (tally (replicate 64 0) depth :: nat list result) = Ok counts \<and> complete (length depth) (Max (set depth)) counts
    \<and> depth \<noteq> [] \<and> Max (set depth) < 64"
proof -
  have set: "set depth = snd ` set (hdepths 0 t)" using mset_eq_setD [OF assms(1)] by simp
  have lt: "\<forall>d \<in> set depth. d < 64" using hdepths_le [of _ _ 0 t] assms(3) set by fastforce
  obtain k l r where t: "t = HNode k l r" using assms(2) by (cases t) auto
  have "\<forall>d \<in> set depth. 0 < d" using hdepths_le [of _ _ "Suc 0"] set t by fastforce
  then have "0 \<notin> set depth" by blast
  then have zero: "count_list depth 0 = 0" by (simp only: count_list_0_iff not_False_eq_True)
  have ne: "depth \<noteq> []"
  proof
    assume "depth = []"
    then have "mset (map snd (hdepths 0 t)) = {#}" using assms(1) by simp
    then show False by simp
  qed
  obtain counts where c: "(tally (replicate 64 0) depth :: nat list result) = Ok counts" "length counts = 64"
      "sum_list counts = length depth" "\<forall>i < 64. counts ! i = count_list depth i"
    using tally_spec [of depth "replicate 64 0"] lt by (auto simp: sum_list_replicate)
  have "kraft counts = sum_list (map (\<lambda>l. 2 ^ (63 - l)) depth)"
    by (rule wsum_count_list [OF lt c(2)]) (use c(4) in simp)
  also have "\<dots> = sum_list (map (\<lambda>l. 2 ^ (63 - l)) (map snd (hdepths 0 t)))"
    by (rule sum_list_perm [OF assms(1)])
  also have "\<dots> = 2 ^ 63" using kraft_hdepths [of 0 t] assms(3) by simp
  finally have kraft: "kraft counts = 2 ^ 63" .
  have "counts ! l = 0" if "l < 64" "Max (set depth) < l" for l
  proof -
    have "l \<notin> set depth" using that(2) Max_ge [of "set depth" l] List.finite_set by (metis not_le)
    then show ?thesis using c(4) that(1) by (simp add: count_list_0_iff)
  qed
  then have "complete (length depth) (Max (set depth)) counts"
    using c zero kraft by (simp add: complete_def)
  moreover have "Max (set depth) < 64" using lt ne by simp
  ultimately show ?thesis using c(1) ne by blast
qed

lemma by_frequency_facts:
  assumes "distinct present"
  shows "distinct (by_frequency freq present)" and "set (by_frequency freq present) = set present"
    and "length (by_frequency freq present) = length present"
    and "p \<le> q \<Longrightarrow> q < length present \<Longrightarrow> freq ! (by_frequency freq present ! q) \<le> freq ! (by_frequency freq present ! p)"
proof -
  show "distinct (by_frequency freq present)" "set (by_frequency freq present) = set present"
    and len: "length (by_frequency freq present) = length present"
    using assms by (simp_all add: by_frequency_def)
  show "p \<le> q \<Longrightarrow> q < length present \<Longrightarrow> freq ! (by_frequency freq present ! q) \<le> freq ! (by_frequency freq present ! p)"
    using sorted_nth_mono [OF sorted_sort_key [of "\<lambda>s. - int (freq ! s)" present], of p q] len
    by (simp add: by_frequency_def)
qed

text \<open>The result for the present symbols in the order of their frequency.\<close>

lemma code_lengths_order:
  assumes freq: "length freq = 256" "sum_list freq < 2 ^ 32"
    and present: "present = filter (\<lambda>s. 0 < freq ! s) [0..<256]" "2 \<le> length present"
  shows "\<exists>lengths ls. code_lengths freq = Ok lengths \<and> length lengths = 256
    \<and> map ((!) lengths) (by_frequency freq present) = ls \<and> (\<forall>s < 256. freq ! s = 0 \<longrightarrow> lengths ! s = 0)
    \<and> sorted ls \<and> set ls \<subseteq> {1..<12} \<and> sum_list (map (\<lambda>l. 2 ^ (11 - l)) ls) = (2::nat) ^ 11"
proof -
  define m where "m = length present"
  define ws where "ws = map (\<lambda>s. freq ! s) present"
  let ?order = "by_frequency freq present"
  have m: "m \<le> 256" "length ws = m" "2 \<le> m"
    using present length_filter_le [of "\<lambda>s. 0 < freq ! s" "[0..<256]"] by (simp_all add: m_def ws_def)
  have pos: "\<forall>w \<in> set ws. 0 < w" by (auto simp: ws_def present)
  have "sum_list ws \<le> sum_list (map (\<lambda>s. freq ! s) [0..<256])"
    unfolding ws_def present(1) by (rule sum_list_filter_le_nat)
  also have "\<dots> = sum_list freq" by (metis freq(1) map_nth)
  finally have sum: "sum_list ws < 2 ^ 32" using freq(2) by simp
  have um: "2 * m < usize_max" using m(1) by (simp add: usize_max_def)
  obtain weight parent t depth where d: "huff_merge (ws @ replicate m 0) (replicate (2 * m) usize_max) (heap_of ws) m = Ok (weight, parent)"
      "traverse (leaf_depth parent) [0..<m] = Ok depth" "mset depth = mset (map snd (hdepths 0 t))" "length depth = m"
      "0 < hheight t" "hheight t < 64"
    using huff_depths [OF pos sum m(2) [symmetric] _ um] m(3) by auto
  obtain counts where c: "(tally (replicate 64 0) depth :: nat list result) = Ok counts"
      "complete m (Max (set depth)) counts" "depth \<noteq> []" "Max (set depth) < 64"
    using tally_complete [OF d(3,5,6)] d(4) by auto
  have "\<exists>c'. (if 11 < Max (set depth) then limit_all counts (rev [12..<Max (set depth) + 1]) else Ok counts) = Ok c'
      \<and> complete m 11 c'"
  proof (cases "11 < Max (set depth)")
    case True
    then show ?thesis using limit_all_Ok [OF c(2) m(1) _ c(4)] by simp
  next
    case False
    then show ?thesis using c(2) by (auto simp: complete_def)
  qed
  then obtain c' where c': "(if 11 < Max (set depth) then limit_all counts (rev [12..<Max (set depth) + 1]) else Ok counts) = Ok c'"
      "complete m 11 c'" by blast
  note sp = complete_spread [OF c'(2)]
  have dp: "distinct present" by (simp add: present)
  note bf = by_frequency_facts(1-3) [OF dp, where freq = freq]
  have "\<forall>s \<in> set ?order. s < 256" using bf(2) by (simp add: present)
  moreover have "length c' = 64" using c'(2) by (simp add: complete_def)
  ultimately obtain lengths where l: "assign_all ?order c' [1..<12] (replicate 256 0) 0 = Ok (lengths, m)"
      "assigned ?order 0 (spread c' [1..<12]) (replicate 256 0) lengths"
    using assign_all_Ok [OF bf(1), of "[1..<12]" c' 0 "replicate 256 0"] bf(3) sp(1) by (auto simp flip: m_def)
  have twelve: "11 + 1 = (12::nat)" by simp
  have run: "code_lengths freq = Ok lengths"
    unfolding code_lengths_def Let_def present(1) [symmetric] m_def [symmetric] ws_def [symmetric]
    unfolding d(1) obind_simps prod.case d(2) c(1) if_not_P [OF c(3)] MAX_CODE_LEN_def twelve c'(1) l(1)
    by (rule refl)
  have "map ((!) lengths) ?order = spread c' [1..<12]"
    by (rule nth_equalityI) (use l(2) sp(1) bf(3) in \<open>auto simp: assigned_def m_def\<close>)
  moreover have "lengths ! s = 0" if "s < 256" "freq ! s = 0" for s
    using l(2) that bf(2) by (simp add: assigned_def present)
  moreover have "length lengths = 256" using l(2) by (simp add: assigned_def)
  ultimately show ?thesis using run sp(2) spread_facts(1,2) [of c' 1 12] by blast
qed

lemma sum_list_kraft:
  fixes g :: "nat \<Rightarrow> nat"
  assumes "length xs = n" and "distinct order" and "set order \<subseteq> {..<n}"
    and "\<And>s. s < n \<Longrightarrow> s \<notin> set order \<Longrightarrow> g (xs ! s) = 0"
  shows "sum_list (map g xs) = sum_list (map (\<lambda>s. g (xs ! s)) order)"
proof -
  have "sum_list (map g xs) = (\<Sum>s < n. g (xs ! s))" using assms(1) by (simp add: sum_list_sum_nth atLeast0LessThan)
  also have "\<dots> = (\<Sum>s \<in> set order. g (xs ! s))"
    by (rule sum.mono_neutral_right) (use assms(3,4) in auto)
  also have "\<dots> = sum_list (map (\<lambda>s. g (xs ! s)) order)"
    using assms(2) by (simp add: sum_list_distinct_conv_sum_set)
  finally show ?thesis .
qed

lemma count_present_filter: "length freq = 256 \<Longrightarrow> count_present freq = length (filter (\<lambda>s. 0 < freq ! s) [0..<256])"
proof -
  assume "length freq = 256"
  then have "freq = map (\<lambda>s. freq ! s) [0..<256]" by (metis map_nth)
  then have "filter (\<lambda>f. 0 < f) freq = map (\<lambda>s. freq ! s) (filter (\<lambda>s. 0 < freq ! s) [0..<256])"
    by (metis (mono_tags, lifting) comp_apply filter_cong filter_map)
  then show ?thesis by (simp add: count_present_def)
qed

text \<open>What the code table needs, with the order of the lengths.\<close>

lemma code_lengths_spec:
  assumes "length freq = 256" and "sum_list freq < 2 ^ 32" and "2 \<le> count_present freq"
  shows "\<exists>lengths ls. code_lengths freq = Ok lengths \<and> complete_code lengths
    \<and> (\<forall>s < 256. lengths ! s = 0 \<longleftrightarrow> freq ! s = 0) \<and> sorted ls
    \<and> map ((!) lengths) (by_frequency freq (filter (\<lambda>s. 0 < freq ! s) [0..<256])) = ls"
proof -
  define present where "present = filter (\<lambda>s. 0 < freq ! s) [0..<256]"
  let ?order = "by_frequency freq present"
  have p2: "2 \<le> length present" using assms(3) count_present_filter [OF assms(1)] by (simp add: present_def)
  obtain lengths ls where l: "code_lengths freq = Ok lengths" "length lengths = 256" "map ((!) lengths) ?order = ls"
      "\<forall>s < 256. freq ! s = 0 \<longrightarrow> lengths ! s = 0" "sorted ls" "set ls \<subseteq> {1..<12}"
      "sum_list (map (\<lambda>l. 2 ^ (11 - l)) ls) = (2::nat) ^ 11"
    using code_lengths_order [OF assms(1,2) present_def p2] by blast
  have dp: "distinct present" by (simp add: present_def)
  note bf = by_frequency_facts [OF dp]
  have mem: "s \<in> set ?order \<longleftrightarrow> s < 256 \<and> 0 < freq ! s" for s using bf(2) by (auto simp: present_def)
  have range: "1 \<le> lengths ! s" "lengths ! s < 12" if "s \<in> set ?order" for s
    using l(3,6) that by (auto simp: subset_iff)
  have zero: "lengths ! s = 0 \<longleftrightarrow> freq ! s = 0" if "s < 256" for s
    using l(4) range(1) [of s] mem [of s] that by (cases "freq ! s = 0") auto
  have "lengths ! s \<le> 11" if "s < 256" for s
    using l(4) range(2) [of s] mem [of s] that by (cases "freq ! s = 0") auto
  then have max: "\<forall>x \<in> set lengths. x \<le> 11" using l(2) by (auto simp: in_set_conv_nth)
  let ?g = "\<lambda>l::nat. if l = 0 then 0 else (2::nat) ^ (11 - l)"
  have "sum_list (map ?g lengths) = sum_list (map (\<lambda>s. ?g (lengths ! s)) ?order)"
    by (rule sum_list_kraft [OF l(2) bf(1)]) (use mem zero in auto)
  also have "map (\<lambda>s. ?g (lengths ! s)) ?order = map (\<lambda>l. 2 ^ (11 - l)) ls"
    unfolding l(3) [symmetric] using range(1) by (auto simp: Suc_le_eq)
  finally have "complete_code lengths"
    using l(2,7) max unfolding complete_code_def MAX_CODE_LEN_def by simp
  then show ?thesis using l(1,3,5) zero unfolding present_def by blast
qed

section \<open>Properties\<close>

text \<open>C36: for a histogram with at least two symbols the computation of the code lengths does not
  fail (the walks to the root end, the depth tally and the repair stay inside the array) and yields
  a complete prefix code of at most 11 bits for exactly the symbols that occur; a more frequent
  symbol never has a longer code.\<close>

theorem code_lengths_complete:
  assumes "length freq = 256" and "sum_list freq < 2 ^ 32" and "2 \<le> count_present freq"
  shows "\<exists>lengths. code_lengths freq = Ok lengths \<and> complete_code lengths
    \<and> (\<forall>s < 256. lengths ! s = 0 \<longleftrightarrow> freq ! s = 0)
    \<and> (\<forall>s < 256. \<forall>t < 256. 0 < freq ! t \<longrightarrow> freq ! t < freq ! s \<longrightarrow> lengths ! s \<le> lengths ! t)"
proof -
  define present where "present = filter (\<lambda>s. 0 < freq ! s) [0..<256]"
  let ?order = "by_frequency freq present"
  obtain lengths ls where l: "code_lengths freq = Ok lengths" "complete_code lengths"
      "\<forall>s < 256. lengths ! s = 0 \<longleftrightarrow> freq ! s = 0" "sorted ls" "map ((!) lengths) ?order = ls"
    using code_lengths_spec [OF assms] unfolding present_def by blast
  have dp: "distinct present" by (simp add: present_def)
  note bf = by_frequency_facts [OF dp]
  have mem: "s \<in> set ?order \<longleftrightarrow> s < 256 \<and> 0 < freq ! s" for s using bf(2) by (auto simp: present_def)
  have "lengths ! s \<le> lengths ! t" if "s < 256" "t < 256" "0 < freq ! t" "freq ! t < freq ! s" for s t
  proof -
    have "s \<in> set ?order" "t \<in> set ?order" using mem [of s] mem [of t] that by auto
    then obtain p q where p: "p < length ?order" "?order ! p = s" and q: "q < length ?order" "?order ! q = t"
      unfolding in_set_conv_nth by blast
    have "\<not> q \<le> p" using bf(4) [of q p freq] p q that(4) bf(3) [of freq] by auto
    then have "ls ! p \<le> ls ! q" using q(1) l(5) by (intro sorted_nth_mono [OF l(4)]) auto
    then show ?thesis using l(5) p q by auto
  qed
  then show ?thesis using l(1-3) by blast
qed

theorem code_lengths_complete_witness:
  "\<exists>lengths. code_lengths ([5, 1, 1] @ replicate 253 0) = Ok lengths \<and> complete_code lengths"
  using code_lengths_complete [of "[5, 1, 1] @ replicate 253 0"]
  by (auto simp: count_present_def sum_list_replicate)

end
