(* ===== verification/Huff_Stream.thy ===== *)
theory Huff_Stream
  imports Huff_Lengths
begin

text \<open>
  The Huffman code table of \<^verbatim>\<open>src/encode/huff.rs\<close> against the decode table of \<^verbatim>\<open>src/huff.rs\<close>: the
  code of a symbol is the common prefix of the peeks that decode to it (\<open>codes_of\<close>), so a stream of
  codes decodes to its symbols, also where the last peeks reach past the end of the stream.
\<close>

unbundle bit_operations_syntax

section \<open>Peeks\<close>

lemma unat_peek_word:
  fixes x :: u64
  assumes "k \<le> 32" "0 < k"
  shows "unat (ucast (drop_bit (64 - k) x) :: u32) = unat x div 2 ^ (64 - k)"
proof -
  have "unat x < 2 ^ 64" using unsigned_less [of x] by simp
  then have "unat x < 2 ^ k * 2 ^ (64 - k)" using assms by (simp flip: power_add)
  then have "unat x div 2 ^ (64 - k) < 2 ^ k" by (rule less_mult_imp_div_less)
  moreover have "(2::nat) ^ k \<le> 2 ^ 32" using assms by (intro power_increasing) auto
  ultimately have "unat x div 2 ^ (64 - k) < 2 ^ 32" by linarith
  moreover have "unat (drop_bit (64 - k) x) = unat x div 2 ^ (64 - k)"
    by (simp add: unat_drop_bit_eq flip: drop_bit_eq_div)
  ultimately show ?thesis by (simp add: unsigned_ucast_eq take_bit_eq_mod)
qed

text \<open>The first bits of a peek are a shorter peek.\<close>

lemma rbr_peek_div:
  assumes "k \<le> n" and "n \<le> 32"
  shows "rbr_peek r n div 2 ^ (n - k) = rbr_peek r k"
proof (cases "k = 0")
  case True
  have "rbr_peek r n < 2 ^ n" by (rule rbr_peek_less) (use assms(2) in simp)
  then show ?thesis using True by (simp add: rbr_peek_def)
next
  case False
  have "64 - k = (64 - n) + (n - k)" using assms by simp
  then have p: "(2::nat) ^ (64 - k) = 2 ^ (64 - n) * 2 ^ (n - k)" by (simp only: power_add)
  show ?thesis using False assms unfolding rbr_peek_def
    by (simp add: unat_peek_word p div_mult2_eq del: unsigned_ucast_eq)
qed

lemma peek_prefix:
  assumes ok: "rbr_ok r" and k: "k \<le> n" "k \<le> rpos r" and n: "n \<le> 32"
  shows "rbr_peek (rbr_ensure r n) n div 2 ^ (n - k) = top_bits (le_val (rsrc r)) (rpos r) k"
    and "rbits (rbr_ensure r n) + k \<le> 64"
proof -
  define q where "q = rbr_ensure r n"
  have q: "rbr_ok q" "rpos q = rpos r" "rsrc q = rsrc r"
    using ok by (simp_all add: q_def rbr_ensure_ok rbr_ensure_pos)
  have "window q n" using ensure_sim(2) [OF rbr_sim_refl [OF ok], of n] n by (simp add: q_def)
  then show fits: "rbits (rbr_ensure r n) + k \<le> 64"
    using k q by (auto simp: window_def rpos_def rbr_ok_def simp flip: q_def)
  then have "rbr_peek q k = top_bits (le_val (rsrc r)) (rpos r) k"
    using rbr_peek_spec [of q k] q k n by (simp add: rbr_ok_def q_def [symmetric])
  then show "rbr_peek (rbr_ensure r n) n div 2 ^ (n - k) = top_bits (le_val (rsrc r)) (rpos r) k"
    using rbr_peek_div [OF k(1) n, of q] by (simp add: q_def)
qed

section \<open>The code of a symbol\<close>

text \<open>\<open>ws\<close> are the weights of the decode table, the derived last one included.\<close>

definition sym_code :: "nat list \<Rightarrow> nat \<Rightarrow> nat" where
  "sym_code ws s = hstart ws s div 2 ^ (ws ! s - 1)"

definition has_code :: "nat list \<Rightarrow> nat \<Rightarrow> bool" where
  "has_code ws s \<longleftrightarrow> s < length ws \<and> 0 < ws ! s"

definition codes_of :: "nat \<Rightarrow> nat list \<Rightarrow> code_table \<Rightarrow> bool" where
  "codes_of mb ws cd \<longleftrightarrow> length (cd_code cd) = 256 \<and> length (cd_nbits cd) = 256
     \<and> (\<forall>s < 256. if has_code ws s then cd_nbits cd ! s = mb + 1 - ws ! s \<and> cd_code cd ! s = sym_code ws s
                  else cd_nbits cd ! s = 0)"

lemma huff_table_for_range:
  assumes "huff_table_for ws t" and "has_code ws s"
  shows "s < 256" and "ws ! s \<le> ht_max_bits t" and "ht_max_bits t \<le> 12" and "hstart ws s < 2 ^ ht_max_bits t"
proof -
  have t: "length ws \<le> 256" "\<forall>w \<in> set ws. w \<le> ht_max_bits t" "below ws (Suc (ht_max_bits t)) = 2 ^ ht_max_bits t"
    using assms(1) by (simp_all add: huff_table_for_def Let_def)
  show "s < 256" "ws ! s \<le> ht_max_bits t" "ht_max_bits t \<le> 12"
    using t assms by (auto simp: has_code_def huff_table_for_def Let_def)
  then have "hstart ws s + 2 ^ (ws ! s - 1) \<le> 2 ^ ht_max_bits t"
    using hstart_end [of s ws] below_mono [of "Suc (ws ! s)" "Suc (ht_max_bits t)" ws] t(3) assms(2)
    by (auto simp: has_code_def)
  moreover have "(0::nat) < 2 ^ (ws ! s - 1)" by simp
  ultimately show "hstart ws s < 2 ^ ht_max_bits t" by linarith
qed

text \<open>Reading a code: one step of the reference decoder.\<close>

lemma huf_one_reads:
  assumes t: "huff_table_for ws t" and s: "has_code ws s"
    and holds: "rbr_holds r ((sym_code ws s, ht_max_bits t + 1 - ws ! s) # fs)"
  shows "\<exists>r'. huf_one t r = (word_of_nat s, r') \<and> rbr_holds r' fs"
proof -
  define mb nb where "mb = ht_max_bits t" and "nb = ht_max_bits t + 1 - ws ! s"
  note rg = huff_table_for_range [OF t s]
  have nb: "nb \<le> mb" "mb - nb = ws ! s - 1" using s rg by (auto simp: nb_def mb_def has_code_def)
  have ok: "rbr_ok r" and pos: "rpos r = nb + widths fs"
    and top: "top_bits (le_val (rsrc r)) (rpos r) nb = sym_code ws s"
    and rest: "fields_at (le_val (rsrc r)) (rpos r - nb) (map snd fs) = map fst fs"
    using holds unfolding rbr_holds_def nb_def list.map fields_at.simps list.inject fst_conv snd_conv widths_simps
    by blast+
  define q c where "q = rbr_ensure r mb" and "c = rbr_peek (rbr_ensure r mb) mb"
  have q: "rbr_ok q" "rpos q = rpos r" "rsrc q = rsrc r"
    using ok by (simp_all add: q_def rbr_ensure_ok rbr_ensure_pos)
  have c: "c < 2 ^ mb" unfolding c_def by (rule rbr_peek_less) (use rg(3) in \<open>simp add: mb_def\<close>)
  have mb: "mb \<le> 32" using rg(3) by (simp add: mb_def)
  have nbp: "nb \<le> rpos r" using pos by simp
  note pp = peek_prefix [OF ok nb(1) nbp mb]
  have "c div 2 ^ (ws ! s - 1) = hstart ws s div 2 ^ (ws ! s - 1)"
    using pp(1) top by (simp add: c_def nb(2) sym_code_def)
  then have e: "he_symbol (ht_entries t ! c) = word_of_nat s"
    using huff_table_for_code(1) [OF t _ _ c [unfolded mb_def]] s by (simp add: has_code_def)
  have n: "he_num_bits (ht_entries t ! c) = nb"
    using huff_table_for_code(2) [OF t _ _ c [unfolded mb_def] e] s by (simp add: has_code_def nb_def)
  have at: "huff_entry_at t c = ht_entries t ! c"
    using huff_entry_at_code [of t c] rg(3) c by (simp add: mb_def)
  have one: "huf_one t r = (word_of_nat s, rbr_consume q nb)"
    using e n at by (simp add: huf_one_def huf_plain_def Let_def q_def c_def mb_def)
  have fits: "rbits q + nb \<le> 64" using pp(2) by (simp add: q_def)
  have "rbr_ok (rbr_consume q nb)" using q(1) fits by (simp add: rbr_ok_def rbr_consume_inv) (simp add: rbr_consume_def)
  then have "rbr_holds (rbr_consume q nb) fs"
    using q pos rest by (simp add: rbr_holds_def rbr_consume_pos)
  then show ?thesis using one by blast
qed

lemma huf_many_reads:
  assumes t: "huff_table_for ws t"
  shows "\<forall>b \<in> set lits. has_code ws (unat b) \<Longrightarrow>
    rbr_holds r (map (\<lambda>b. (sym_code ws (unat b), ht_max_bits t + 1 - ws ! unat b)) lits @ fs) \<Longrightarrow>
    fst (huf_many t r (length lits)) = lits \<and> rbr_holds (snd (huf_many t r (length lits))) fs"
proof (induction lits arbitrary: fs rule: rev_induct)
  case Nil
  then show ?case by simp
next
  case (snoc b lits)
  obtain ss q where h: "huf_many t r (length lits) = (ss, q)" by (cases "huf_many t r (length lits)")
  have "ss = lits" "rbr_holds q ((sym_code ws (unat b), ht_max_bits t + 1 - ws ! unat b) # fs)"
    using snoc.IH [of "(sym_code ws (unat b), ht_max_bits t + 1 - ws ! unat b) # fs"] snoc.prems h by simp_all
  moreover obtain r' where "huf_one t q = (word_of_nat (unat b), r')" "rbr_holds r' fs"
    using huf_one_reads [OF t _ calculation(2)] snoc.prems(1) by auto
  ultimately show ?case using h by simp
qed

section \<open>Streams\<close>

lemma stream_codes_add_all:
  assumes "codes_of mb ws cd"
  shows "\<forall>b \<in> set lits. has_code ws (unat b) \<Longrightarrow>
    stream_codes cd bw lits = Ok (add_all bw_add bw (map (\<lambda>b. (sym_code ws (unat b), mb + 1 - ws ! unat b)) lits))"
proof (induction lits arbitrary: bw)
  case Nil
  then show ?case by simp
next
  case (Cons b lits)
  then have "has_code ws (unat b)" "unat b < 256" using unsigned_less [of b] by simp_all
  then have "cd_nbits cd ! unat b = mb + 1 - ws ! unat b" "cd_code cd ! unat b = sym_code ws (unat b)"
    "unat b < length (cd_nbits cd)" "unat b < length (cd_code cd)"
    using assms unfolding codes_of_def by auto
  then show ?case using Cons by simp
qed

lemma sym_code_less:
  assumes "huff_table_for ws t" and "has_code ws s"
  shows "sym_code ws s < 2 ^ (ht_max_bits t + 1 - ws ! s)"
proof -
  note rg = huff_table_for_range [OF assms]
  have "ht_max_bits t = (ht_max_bits t + 1 - ws ! s) + (ws ! s - 1)"
    using rg(2) assms(2) by (auto simp: has_code_def)
  then have "(2::nat) ^ ht_max_bits t = 2 ^ (ht_max_bits t + 1 - ws ! s) * 2 ^ (ws ! s - 1)"
    by (metis power_add)
  then show ?thesis using rg(4) unfolding sym_code_def by (intro less_mult_imp_div_less) simp
qed

text \<open>The bit stream of a segment, and what each decoder makes of it.\<close>

lemma encode_stream_reads:
  assumes t: "huff_table_for ws t" and cd: "codes_of (ht_max_bits t) ws cd"
    and lits: "\<forall>b \<in> set lits. has_code ws (unat b)"
  shows "\<exists>bytes r. encode_stream cd lits = Ok bytes \<and> rbr_new bytes = Ok r \<and> fst (huf_many t r (length lits)) = lits"
proof -
  define F where "F = map (\<lambda>b. (sym_code ws (unat b), ht_max_bits t + 1 - ws ! unat b)) (rev lits)"
  have F: "n \<le> 32 \<and> v < 2 ^ 32 \<and> v < 2 ^ n" if vn: "(v, n) \<in> set F" for v n
  proof -
    obtain b where b: "b \<in> set lits" "v = sym_code ws (unat b)" "n = ht_max_bits t + 1 - ws ! unat b"
      using vn by (auto simp: F_def)
    note hc = lits [rule_format, OF b(1)]
    have "n \<le> 12" using huff_table_for_range [OF t hc] hc b(3) by (auto simp: has_code_def)
    moreover have "v < 2 ^ n" using sym_code_less [OF t hc] b by simp
    moreover have "(2::nat) ^ n \<le> 2 ^ 32" using \<open>n \<le> 12\<close> by (intro power_increasing) auto
    ultimately show ?thesis by simp
  qed
  obtain r where r: "rbr_new (bw_finish (add_all bw_add bw_new F)) = Ok r"
      "rbr_holds r (map (\<lambda>(v, n). (v mod 2 ^ n, n)) (rev F))"
    using rbr_holds_open [of F] F by blast
  have "map (\<lambda>(v, n). (v mod 2 ^ n, n)) (rev F) = rev F"
    by (rule map_idI) (use F in auto)
  also have "\<dots> = map (\<lambda>b. (sym_code ws (unat b), ht_max_bits t + 1 - ws ! unat b)) lits"
    by (simp add: F_def rev_map)
  finally have "fst (huf_many t r (length lits)) = lits"
    using huf_many_reads [OF t lits, of r "[]"] r(2) by simp
  moreover have "encode_stream cd lits = Ok (bw_finish (add_all bw_add bw_new F))"
    using stream_codes_add_all [OF cd, of "rev lits" bw_new] lits by (simp add: encode_stream_def F_def)
  ultimately show ?thesis using r(1) by blast
qed

lemma encode_1stream_roundtrip:
  assumes "huff_table_for ws t" and "codes_of (ht_max_bits t) ws cd" and "\<forall>b \<in> set lits. has_code ws (unat b)"
  shows "\<exists>bytes. encode_stream cd lits = Ok bytes \<and> huf_decode_1stream t bytes (length lits) = Ok lits"
proof -
  obtain bytes r where "encode_stream cd lits = Ok bytes" "rbr_new bytes = Ok r" "fst (huf_many t r (length lits)) = lits"
    using encode_stream_reads [OF assms] by blast
  then show ?thesis
    using huf_decode_into_Ok [OF huff_table_for_ok [OF assms(1)], of bytes r "length lits" "[]"]
    by (simp add: huf_decode_1stream_def)
qed

text \<open>The jump table.\<close>

lemma u16_at_le_bytes:
  assumes "n < 65536" and "length pre = i"
  shows "u16_at (pre @ le_bytes 2 n @ rest) i = Ok n"
proof -
  have "le_bytes 2 n = [word_of_nat n, word_of_nat (n div 256)]" by (simp add: numeral_2_eq_2)
  moreover have "unat (word_of_nat n :: byte) + 256 * unat (word_of_nat (n div 256) :: byte) = n"
    using assms(1) by (simp add: unat_of_nat)
  ultimately show ?thesis using assms(2) by (simp add: u16_at_def nth_append)
qed

lemma split_streams_join:
  assumes "length s1 \<le> 65535" "length s2 \<le> 65535" "length s3 \<le> 65535"
  shows "split_streams (le_bytes 2 (length s1) @ le_bytes 2 (length s2) @ le_bytes 2 (length s3) @ s1 @ s2 @ s3 @ s4)
    = Ok (s1, s2, s3, s4)"
proof -
  define bs where "bs = le_bytes 2 (length s1) @ le_bytes 2 (length s2) @ le_bytes 2 (length s3) @ s1 @ s2 @ s3 @ s4"
  have "u16_at bs 0 = Ok (length s1)"
    using u16_at_le_bytes [of "length s1" "[]"] assms(1) by (simp add: bs_def)
  moreover have "u16_at bs 2 = Ok (length s2)"
    using u16_at_le_bytes [of "length s2" "le_bytes 2 (length s1)"] assms(2) by (simp add: bs_def)
  moreover have "u16_at bs 4 = Ok (length s3)"
    using u16_at_le_bytes [of "length s3" "le_bytes 2 (length s1) @ le_bytes 2 (length s2)"] assms(3) by (simp add: bs_def)
  moreover have "length bs = 6 + length s1 + length s2 + length s3 + length s4" by (simp add: bs_def)
  moreover have "take (length s1) (drop 6 bs) = s1" "take (length s2) (drop (6 + length s1) bs) = s2"
    "take (length s3) (drop (6 + length s1 + length s2) bs) = s3" "drop (6 + length s1 + length s2 + length s3) bs = s4"
    by (simp_all add: bs_def)
  ultimately show ?thesis
    unfolding bs_def [symmetric] split_streams_def by (simp add: segment_bounds_def slice_range_def slice_from_def Let_def)
qed

lemma quarters:
  assumes "\<not> length lits < seg * 3"
  obtains l1 l2 l3 l4 where "slice_range lits 0 seg = (Ok l1 :: byte list result)"
    and "slice_range lits seg (2 * seg) = (Ok l2 :: byte list result)"
    and "slice_range lits (2 * seg) (3 * seg) = (Ok l3 :: byte list result)" and "slice_from lits (3 * seg) = (Ok l4 :: byte list result)"
    and "lits = l1 @ l2 @ l3 @ l4"
    and "length l1 = seg" and "length l2 = seg" and "length l3 = seg" and "length l4 = length lits - seg * 3"
proof -
  define l1 l2 l3 l4 where "l1 = take seg lits" and "l2 = take seg (drop seg lits)"
    and "l3 = take seg (drop (2 * seg) lits)" and "l4 = drop (3 * seg) lits"
  have "length l1 = seg" "length l2 = seg" "length l3 = seg" "length l4 = length lits - seg * 3"
    using assms by (simp_all add: l1_def l2_def l3_def l4_def)
  moreover have "lits = l1 @ l2 @ l3 @ l4"
  proof -
    have "l3 @ l4 = drop (2 * seg) lits"
      unfolding l3_def l4_def using append_take_drop_id [of seg "drop (2 * seg) lits"] by (simp add: add.commute mult.commute)
    then have "l2 @ l3 @ l4 = drop seg lits"
      unfolding l2_def using append_take_drop_id [of seg "drop seg lits"] by (simp add: mult_2)
    then show ?thesis unfolding l1_def by simp
  qed
  moreover have "slice_range lits 0 seg = (Ok l1 :: byte list result)" "slice_range lits seg (2 * seg) = (Ok l2 :: byte list result)"
    "slice_range lits (2 * seg) (3 * seg) = (Ok l3 :: byte list result)" "slice_from lits (3 * seg) = (Ok l4 :: byte list result)"
    using assms by (simp_all add: slice_range_def slice_from_def l1_def l2_def l3_def l4_def)
  ultimately show thesis using that by blast
qed

lemma encode_4stream_roundtrip:
  assumes t: "huff_table_for ws t" and cd: "codes_of (ht_max_bits t) ws cd"
    and lits: "\<forall>b \<in> set lits. has_code ws (unat b)"
  shows "post (encode_4stream cd lits) (\<lambda>bytes. huf_decode_4stream t bytes (length lits) = Ok lits) (\<lambda>_. True)"
proof (cases "length lits < div_ceil (length lits) 4 * 3")
  case True
  then show ?thesis by (simp add: encode_4stream_def Let_def)
next
  case False
  define n seg where "n = length lits" and "seg = div_ceil (length lits) 4"
  have ns: "\<not> n < seg * 3" using False by (simp add: n_def seg_def)
  obtain l1 l2 l3 l4 where slices: "slice_range lits 0 seg = (Ok l1 :: byte list result)"
      "slice_range lits seg (2 * seg) = (Ok l2 :: byte list result)"
      "slice_range lits (2 * seg) (3 * seg) = (Ok l3 :: byte list result)" "slice_from lits (3 * seg) = (Ok l4 :: byte list result)"
    and cat: "lits = l1 @ l2 @ l3 @ l4" and len: "length l1 = seg" "length l2 = seg" "length l3 = seg" "length l4 = n - seg * 3"
    by (rule quarters [OF ns [unfolded n_def], folded n_def])
  have sub: "\<forall>b \<in> set l. has_code ws (unat b)" if "l = l1 \<or> l = l2 \<or> l = l3 \<or> l = l4" for l
    using lits that unfolding cat by auto
  obtain s1 r1 where 1: "encode_stream cd l1 = Ok s1" "rbr_new s1 = Ok r1" "fst (huf_many t r1 seg) = l1"
    using encode_stream_reads [OF t cd sub, of l1] len by auto
  obtain s2 r2 where 2: "encode_stream cd l2 = Ok s2" "rbr_new s2 = Ok r2" "fst (huf_many t r2 seg) = l2"
    using encode_stream_reads [OF t cd sub, of l2] len by auto
  obtain s3 r3 where 3: "encode_stream cd l3 = Ok s3" "rbr_new s3 = Ok r3" "fst (huf_many t r3 seg) = l3"
    using encode_stream_reads [OF t cd sub, of l3] len by auto
  obtain s4 r4 where 4: "encode_stream cd l4 = Ok s4" "rbr_new s4 = Ok r4" "fst (huf_many t r4 (n - seg * 3)) = l4"
    using encode_stream_reads [OF t cd sub, of l4] len by auto
  have run: "encode_4stream cd lits = obind (jump_entry s1) (\<lambda>j1. obind (jump_entry s2) (\<lambda>j2. obind (jump_entry s3) (\<lambda>j3.
      Ok (j1 @ j2 @ j3 @ s1 @ s2 @ s3 @ s4))))"
    unfolding encode_4stream_def Let_def n_def [symmetric] seg_def [symmetric, folded n_def] if_not_P [OF ns]
      slices obind_simps 1(1) 2(1) 3(1) 4(1) ..
  show ?thesis
  proof (cases "length s1 \<le> 65535 \<and> length s2 \<le> 65535 \<and> length s3 \<le> 65535")
    case True
    then have split: "split_streams (le_bytes 2 (length s1) @ le_bytes 2 (length s2) @ le_bytes 2 (length s3) @ s1 @ s2 @ s3 @ s4)
      = Ok (s1, s2, s3, s4)" by (intro split_streams_join) simp_all
    have "huf_decode_4stream t (le_bytes 2 (length s1) @ le_bytes 2 (length s2) @ le_bytes 2 (length s3) @ s1 @ s2 @ s3 @ s4) n
      = Ok (l1 @ l2 @ l3 @ l4)"
      using huf_decode_4stream_eq [OF huff_table_for_ok [OF t] split 1(2) 2(2) 3(2) 4(2), of n] False 1(3) 2(3) 3(3) 4(3)
      by (simp add: n_def seg_def)
    then show ?thesis using True unfolding run by (simp add: jump_entry_def n_def cat [symmetric])
  next
    case False
    then show ?thesis unfolding run by (auto simp: jump_entry_def)
  qed
qed

section \<open>Reading the codes out of the decode table\<close>

definition inverted :: "nat \<Rightarrow> nat list \<Rightarrow> nat \<Rightarrow> bool list \<Rightarrow> nat list \<Rightarrow> nat list \<Rightarrow> bool" where
  "inverted mb ws i seen code nbits \<longleftrightarrow> length seen = 256 \<and> length code = 256 \<and> length nbits = 256
     \<and> (\<forall>s < 256. seen ! s \<longleftrightarrow> has_code ws s \<and> hstart ws s < i)
     \<and> (\<forall>s < 256. if seen ! s then code ! s = sym_code ws s \<and> nbits ! s = mb + 1 - ws ! s else nbits ! s = 0)"

lemma hstart_cell_unique:
  assumes "has_code ws s" and "has_code ws v" and "hstart ws s \<le> i" and "i < hstart ws s + 2 ^ (ws ! s - 1)"
    and "hstart ws v = i"
  shows "v = s"
proof (rule ccontr)
  assume ne: "v \<noteq> s"
  have "hstart ws v + 2 ^ (ws ! v - 1) \<le> hstart ws s \<or> hstart ws s + 2 ^ (ws ! s - 1) \<le> hstart ws v"
    using hstart_disjoint [of v ws s] assms(1,2) ne by (simp add: has_code_def)
  moreover have "(0::nat) < 2 ^ (ws ! v - 1)" by simp
  ultimately show False using assms(3-5) by linarith
qed

lemma inverted_step:
  assumes t: "huff_table_for ws t" and i: "i < 2 ^ ht_max_bits t"
    and inv: "inverted (ht_max_bits t) ws i seen code nbits"
  shows "\<exists>seen' code' nbits'. invert_table (ht_max_bits t) i (ht_entries t ! i # es) seen code nbits
      = invert_table (ht_max_bits t) (i + 1) es seen' code' nbits' \<and> inverted (ht_max_bits t) ws (i + 1) seen' code' nbits'"
proof -
  define mb where "mb = ht_max_bits t"
  obtain s where s: "has_code ws s" "hstart ws s \<le> i" "i < hstart ws s + 2 ^ (ws ! s - 1)"
      "ht_entries t ! i = cell_entry mb ws s"
    using huff_table_for_cell [OF t i] unfolding has_code_def mb_def by metis
  note rg = huff_table_for_range [OF t s(1), folded mb_def]
  have sym: "unat (he_symbol (ht_entries t ! i)) = s" "he_num_bits (ht_entries t ! i) = mb + 1 - ws ! s"
    using s(4) rg(1) by (simp_all add: cell_entry_def unat_word_of_nat_byte)
  have nb: "mb + 1 - ws ! s \<noteq> 0" "mb - (mb + 1 - ws ! s) = ws ! s - 1" "mb + 1 - ws ! s \<le> mb"
    using s(1) rg(2) by (auto simp: has_code_def)
  have len: "length seen = 256" "length code = 256" "length nbits = 256" using inv by (simp_all add: inverted_def)
  have other: "hstart ws v < i + 1 \<longleftrightarrow> hstart ws v < i" if "has_code ws v" "v \<noteq> s" for v
    using hstart_cell_unique [OF s(1) that(1) s(2,3)] that(2) by (cases "hstart ws v = i") auto
  show ?thesis
  proof (cases "seen ! s")
    case True
    then have "hstart ws s < i" using inv rg(1) by (simp add: inverted_def)
    then have "has_code ws v \<and> hstart ws v < i + 1 \<longleftrightarrow> has_code ws v \<and> hstart ws v < i" for v
      using other [of v] by (cases "v = s") auto
    then have "inverted mb ws (i + 1) seen code nbits" using inv unfolding inverted_def mb_def by simp
    moreover have "invert_table mb i (ht_entries t ! i # es) seen code nbits = invert_table mb (i + 1) es seen code nbits"
      using True rg(1) len sym by simp
    ultimately show ?thesis unfolding mb_def by blast
  next
    case False
    then have start: "hstart ws s = i" using inv rg(1) s(1,2) by (auto simp: inverted_def)
    have "seen[s := True] ! v \<longleftrightarrow> has_code ws v \<and> hstart ws v < i + 1" if "v < 256" for v
      using inv that other [of v] s(1) start len by (cases "v = s") (auto simp: inverted_def)
    moreover have "if seen[s := True] ! v then code[s := sym_code ws s] ! v = sym_code ws v
        \<and> nbits[s := mb + 1 - ws ! s] ! v = mb + 1 - ws ! v else nbits[s := mb + 1 - ws ! s] ! v = 0" if "v < 256" for v
      using inv that rg(1) len by (cases "v = s") (auto simp: inverted_def mb_def)
    ultimately have "inverted mb ws (i + 1) (seen[s := True]) (code[s := sym_code ws s]) (nbits[s := mb + 1 - ws ! s])"
      using len unfolding inverted_def length_list_update by blast
    moreover have "invert_table mb i (ht_entries t ! i # es) seen code nbits
        = invert_table mb (i + 1) es (seen[s := True]) (code[s := sym_code ws s]) (nbits[s := mb + 1 - ws ! s])"
      using False rg(1) len sym nb start by (simp add: sym_code_def)
    ultimately show ?thesis unfolding mb_def by blast
  qed
qed

lemma invert_table_Ok:
  assumes t: "huff_table_for ws t"
  shows "i \<le> 2 ^ ht_max_bits t \<Longrightarrow> inverted (ht_max_bits t) ws i seen code nbits \<Longrightarrow>
    \<exists>code' nbits' seen'. invert_table (ht_max_bits t) i (drop i (huff_entries t)) seen code nbits = Ok (code', nbits')
      \<and> inverted (ht_max_bits t) ws (2 ^ ht_max_bits t) seen' code' nbits'"
proof (induction "2 ^ ht_max_bits t - i" arbitrary: i seen code nbits)
  case 0
  then show ?case by (auto simp: huff_entries_def)
next
  case (Suc n)
  then have i: "i < 2 ^ ht_max_bits t" by simp
  have "ht_max_bits t \<le> 12" "length (ht_entries t) = 2 ^ 12"
    using huff_table_for_ok [OF t] by (simp_all add: huff_table_ok_def HUF_DTABLE_SIZE_def)
  moreover from this have "(2::nat) ^ ht_max_bits t \<le> 2 ^ 12" by (intro power_increasing) auto
  ultimately have len: "2 ^ ht_max_bits t \<le> length (ht_entries t)" by simp
  have "drop i (huff_entries t) = ht_entries t ! i # drop (Suc i) (huff_entries t)"
    using i len by (simp add: huff_entries_def Cons_nth_drop_Suc [symmetric])
  with inverted_step [OF t i Suc.prems(2), of "drop (Suc i) (huff_entries t)"] obtain seen' code' nbits' where
    st: "invert_table (ht_max_bits t) i (drop i (huff_entries t)) seen code nbits
      = invert_table (ht_max_bits t) (i + 1) (drop (Suc i) (huff_entries t)) seen' code' nbits'"
    "inverted (ht_max_bits t) ws (i + 1) seen' code' nbits'" by auto
  then show ?case using Suc.hyps(1) [of "Suc i" seen' code' nbits'] Suc.hyps(2) i by simp
qed

lemma invert_table_codes:
  assumes t: "huff_table_for ws t"
  shows "\<exists>code nbits. invert_table (ht_max_bits t) 0 (huff_entries t) (replicate 256 False) (replicate 256 0) (replicate 256 0)
      = Ok (code, nbits) \<and> (\<forall>m w. codes_of (ht_max_bits t) ws \<lparr>cd_code = code, cd_nbits = nbits, cd_max_symbol = m, cd_weights = w\<rparr>)"
proof -
  have "inverted (ht_max_bits t) ws 0 (replicate 256 False) (replicate 256 0) (replicate 256 0)"
    by (simp add: inverted_def)
  from invert_table_Ok [OF t _ this] obtain code nbits seen where
    inv: "invert_table (ht_max_bits t) 0 (huff_entries t) (replicate 256 False) (replicate 256 0) (replicate 256 0) = Ok (code, nbits)"
    "inverted (ht_max_bits t) ws (2 ^ ht_max_bits t) seen code nbits" by auto
  have "seen ! s \<longleftrightarrow> has_code ws s" if "s < 256" for s
    using inv(2) that huff_table_for_range(4) [OF t, of s] by (auto simp: inverted_def)
  then have "codes_of (ht_max_bits t) ws \<lparr>cd_code = code, cd_nbits = nbits, cd_max_symbol = m, cd_weights = w\<rparr>" for m w
    using inv(2) by (simp add: codes_of_def inverted_def)
  then show ?thesis using inv(1) by blast
qed

section \<open>The code table of complete lengths\<close>

definition complete_at :: "nat \<Rightarrow> nat list \<Rightarrow> bool" where
  "complete_at mb lengths \<longleftrightarrow> length lengths = 256 \<and> 1 \<le> mb \<and> mb \<le> 12 \<and> (\<forall>l \<in> set lengths. l \<le> mb)
     \<and> mb \<in> set lengths \<and> sum_list (map (\<lambda>l. if l = 0 then 0 else 2 ^ (mb - l)) lengths) = (2::nat) ^ mb"

lemma complete_code_at:
  assumes "complete_code lengths"
  shows "complete_at (Max (set lengths)) lengths"
proof -
  define mb where "mb = Max (set lengths)"
  have c: "length lengths = 256" "\<forall>l \<in> set lengths. l \<le> 11"
    "sum_list (map (\<lambda>l. if l = 0 then 0 else 2 ^ (11 - l)) lengths) = (2::nat) ^ 11"
    using assms unfolding complete_code_def MAX_CODE_LEN_def by blast+
  have ne: "lengths \<noteq> []" using c(1) by auto
  have mem: "mb \<in> set lengths" and le: "\<forall>l \<in> set lengths. l \<le> mb" using ne by (simp_all add: mb_def)
  have mb11: "mb \<le> 11" using mem c(2) by blast
  have "mb \<noteq> 0"
  proof
    assume "mb = 0"
    then have "map (\<lambda>l. if l = 0 then 0 else 2 ^ (11 - l)) lengths = map (\<lambda>l. 0::nat) lengths" using le by (intro map_cong) auto
    then have "sum_list (map (\<lambda>l. 0::nat) lengths) = 2 ^ 11" using c(3) by (simp only:)
    then show False by simp
  qed
  have "(if l = 0 then 0 else (2::nat) ^ (11 - l)) = 2 ^ (11 - mb) * (if l = 0 then 0 else 2 ^ (mb - l))" if "l \<in> set lengths" for l
  proof -
    have "11 - l = (11 - mb) + (mb - l)" using le mb11 that by auto
    then have "(2::nat) ^ (11 - l) = 2 ^ (11 - mb) * 2 ^ (mb - l)" by (simp only: power_add)
    then show ?thesis by simp
  qed
  then have "map (\<lambda>l. if l = 0 then 0 else (2::nat) ^ (11 - l)) lengths
      = map (\<lambda>l. 2 ^ (11 - mb) * (if l = 0 then 0 else 2 ^ (mb - l))) lengths" by (intro map_cong) auto
  then have "2 ^ (11 - mb) * sum_list (map (\<lambda>l. if l = 0 then 0 else 2 ^ (mb - l)) lengths) = (2::nat) ^ 11"
    using c(3) by (simp only: sum_list_const_mult)
  also have "(2::nat) ^ 11 = 2 ^ (11 - mb) * 2 ^ mb" using mb11 by (simp flip: power_add)
  finally have "sum_list (map (\<lambda>l. if l = 0 then 0 else 2 ^ (mb - l)) lengths) = (2::nat) ^ mb" by simp
  then show ?thesis unfolding complete_at_def mb_def [symmetric] using c(1) mem le mb11 \<open>mb \<noteq> 0\<close> by simp
qed

lemma last_pos_SomeI:
  assumes "s < length xs" and "0 < xs ! s"
  obtains m where "last_pos xs = Some m" and "m < length xs" and "0 < xs ! m" and "\<And>j. m < j \<Longrightarrow> j < length xs \<Longrightarrow> xs ! j = 0"
proof -
  have "\<exists>m. last_pos ys = Some m \<and> m < length ys \<and> 0 < ys ! m \<and> (\<forall>j. m < j \<longrightarrow> j < length ys \<longrightarrow> ys ! j = 0)"
    if "\<exists>s < length ys. 0 < ys ! s" for ys
    using that
  proof (induction ys rule: rev_induct)
    case Nil
    then show ?case by simp
  next
    case (snoc y ys)
    have f: "find (\<lambda>s. 0 < (ys @ [y]) ! s) (rev [0..<length ys]) = last_pos ys"
      unfolding last_pos_def by (rule find_cong) (auto simp: nth_append)
    show ?case
    proof (cases "0 < y")
      case True
      then show ?thesis by (simp add: last_pos_def)
    next
      case False
      then have "\<exists>s < length ys. 0 < ys ! s" using snoc.prems by (auto simp: nth_append less_Suc_eq split: if_splits)
      then show ?thesis using snoc.IH False f by (auto simp: last_pos_def nth_append less_Suc_eq)
    qed
  qed
  then show ?thesis using assms that by blast
qed

definition weight_of :: "nat \<Rightarrow> nat \<Rightarrow> nat" where
  "weight_of mb l = (if 0 < l then mb + 1 - l else 0)"

text \<open>A code table, the decode table of its weights, and the weights of all the symbols.\<close>

definition code_tables :: "code_table \<Rightarrow> huff_table \<Rightarrow> nat list \<Rightarrow> bool" where
  "code_tables cd t ws \<longleftrightarrow> huff_table_for ws t \<and> codes_of (ht_max_bits t) ws cd
     \<and> huff_build_table (cd_weights cd) = Ok t \<and> length (cd_weights cd) = cd_max_symbol cd \<and> cd_max_symbol cd < 256
     \<and> 0 < cd_max_symbol cd \<and> (\<forall>w \<in> set (cd_weights cd). unat w \<le> 12)"

text \<open>A code table for a decode table, which need not be the one that is built from its weights.\<close>

definition codes_for :: "code_table \<Rightarrow> huff_table \<Rightarrow> nat list \<Rightarrow> bool" where
  "codes_for cd t ws \<longleftrightarrow> huff_table_for ws t \<and> codes_of (ht_max_bits t) ws cd"

lemma code_tables_codes_for: "code_tables cd t ws \<Longrightarrow> codes_for cd t ws"
  by (simp add: code_tables_def codes_for_def)

lemma sum_map_take_zero:
  fixes f :: "nat \<Rightarrow> nat"
  assumes "\<And>j. k \<le> j \<Longrightarrow> j < length xs \<Longrightarrow> f (xs ! j) = 0"
  shows "sum_list (map f (take k xs)) = sum_list (map f xs)"
proof -
  have "sum_list (map f (drop k xs)) = 0"
    using assms by (auto simp: in_set_conv_nth sum_list_eq_0_iff)
  then show ?thesis by (metis add.right_neutral append_take_drop_id map_append sum_list_append)
qed

lemma below_weights:
  assumes "\<forall>l \<in> set ls. l \<le> mb"
  shows "below (map (weight_of mb) ls) (Suc mb) = sum_list (map (\<lambda>l. if l = 0 then 0 else 2 ^ (mb - l)) ls)"
  using assms by (induction ls) (auto simp: below_def weight_of_def)

lemma build_code_table_Ok:
  assumes c: "complete_at mb lengths"
  shows "\<exists>cd t ws. build_code_table lengths = Ok cd \<and> code_tables cd t ws \<and> ht_max_bits t = mb
    \<and> (\<forall>s < 256. has_code ws s \<longleftrightarrow> lengths ! s \<noteq> 0)
    \<and> (\<forall>s < 256. lengths ! s \<noteq> 0 \<longrightarrow> ws ! s = mb + 1 - lengths ! s)
    \<and> last_pos lengths = Some (cd_max_symbol cd) \<and> ws = map (weight_of mb) (take (cd_max_symbol cd + 1) lengths)"
proof -
  have c: "length lengths = 256" "1 \<le> mb" "mb \<le> 12" "\<forall>l \<in> set lengths. l \<le> mb" "mb \<in> set lengths"
    "sum_list (map (\<lambda>l. if l = 0 then 0 else 2 ^ (mb - l)) lengths) = (2::nat) ^ mb"
    using assms unfolding complete_at_def by blast+
  let ?g = "\<lambda>l. if l = 0 then 0 else (2::nat) ^ (mb - l)"
  obtain i where "i < length lengths" "lengths ! i = mb" using c(5) by (auto simp: in_set_conv_nth)
  then obtain ms where ms: "last_pos lengths = Some ms" "ms < 256" "0 < lengths ! ms" "\<And>j. ms < j \<Longrightarrow> j < 256 \<Longrightarrow> lengths ! j = 0"
    using last_pos_SomeI [of i lengths] c(1,2) by auto
  define ws where "ws = map (weight_of mb) (take (ms + 1) lengths)"
  define weights where "weights = map (\<lambda>l. word_of_nat (weight_of mb l) :: byte) (take ms lengths)"
  have lms: "lengths ! ms \<le> mb" using c(1,4) ms(2) by simp
  have sub: "\<forall>l \<in> set (take k lengths). l \<le> mb" for k using c(4) by (auto dest: in_set_takeD)
  have un: "unat (word_of_nat (weight_of mb l) :: byte) = weight_of mb l" for l
    using c(3) by (subst unat_word_of_nat_byte) (auto simp: weight_of_def)
  have tk: "take (ms + 1) lengths = take ms lengths @ [lengths ! ms]" using ms(2) c(1) by (simp add: take_Suc_conv_app_nth)
  have ws: "map unat weights @ [weight_of mb (lengths ! ms)] = ws"
    unfolding ws_def tk weights_def by (simp add: un comp_def)
  have tr: "(traverse (length_weight mb) (take ms lengths) :: byte list result) = Ok weights"
    unfolding weights_def
  proof (rule traverse_Ok)
    fix l assume "l \<in> set (take ms lengths)"
    then have "l \<le> mb" using sub by blast
    then show "length_weight mb l = Ok (word_of_nat (weight_of mb l))" by (simp add: length_weight_def weight_of_def)
  qed
  have "below ws (Suc mb) = sum_list (map ?g (take (ms + 1) lengths))"
    unfolding ws_def by (rule below_weights [OF sub])
  also have "\<dots> = sum_list (map ?g lengths)"
    by (rule sum_map_take_zero) (use ms(4) c(1) in auto)
  finally have kraft: "below ws (Suc mb) = 2 ^ mb" using c(6) by simp
  have some: "\<exists>l \<in> set (take ms lengths). l \<noteq> 0"
  proof (rule ccontr)
    assume "\<not> ?thesis"
    then have eq: "map (weight_of mb) (take ms lengths) = map (\<lambda>_. 0) (take ms lengths)"
      by (intro map_cong) (auto simp: weight_of_def)
    have "below ws (Suc mb) = below (map (\<lambda>_. 0) (take ms lengths) @ [weight_of mb (lengths ! ms)]) (Suc mb)"
      unfolding ws_def tk map_append eq by simp
    also have "\<dots> = 2 ^ (mb - lengths ! ms)" using ms(3) lms by (simp add: below_def weight_of_def filter_empty_conv)
    finally have "mb - lengths ! ms = mb" using kraft by simp
    then show False using ms(3) c(2) by simp
  qed
  then obtain l where l: "l \<in> set (take ms lengths)" "l \<noteq> 0" by blast
  have "weight_of mb l \<noteq> 0" using l sub by (fastforce simp: weight_of_def)
  then have "(word_of_nat (weight_of mb l) :: byte) \<noteq> 0" using un [of l] by (metis unsigned_0)
  then have some': "\<exists>w \<in> set weights. w \<noteq> 0" using l(1) by (auto simp: weights_def)
  have "weight_of mb l \<le> mb" for l by (cases l) (simp_all add: weight_of_def)
  then have wle: "\<forall>w \<in> set weights. unat w \<le> mb" by (auto simp: weights_def un)
  have lst: "0 < weight_of mb (lengths ! ms)" "weight_of mb (lengths ! ms) \<le> mb" using ms(3) lms by (simp_all add: weight_of_def)
  have lw: "length weights = ms" using ms(2) c(1) by (simp add: weights_def)
  obtain t where t: "huff_build_table weights = Ok t" "ht_max_bits t = mb" "huff_table_for ws t"
    using huff_build_table_Ok [OF _ wle lst c(3) _ some'] kraft lw ms(2) ws by auto
  obtain code nbits where inv: "invert_table mb 0 (huff_entries t) (replicate 256 False) (replicate 256 0) (replicate 256 0) = Ok (code, nbits)"
      "\<And>m w. codes_of mb ws \<lparr>cd_code = code, cd_nbits = nbits, cd_max_symbol = m, cd_weights = w\<rparr>"
    using invert_table_codes [OF t(3)] t(2) by auto
  define cd where "cd = \<lparr>cd_code = code, cd_nbits = nbits, cd_max_symbol = ms, cd_weights = weights\<rparr>"
  have ne: "lengths \<noteq> []" using c(1) by auto
  have mx: "Max (set lengths) = mb" using c(4,5) by (intro Max_eqI) auto
  have run: "build_code_table lengths = Ok cd"
    unfolding build_code_table_def if_not_P [OF ne] Let_def mx ms(1) option.case tr obind_simps t(1,2) inv(1) prod.case cd_def ..
  have "0 < ms" using l(1) by (cases ms) auto
  then have "code_tables cd t ws"
    using t inv(2) lw ms(2) wle c(3) by (auto simp: code_tables_def cd_def)
  moreover have "has_code ws s \<longleftrightarrow> lengths ! s \<noteq> 0" if "s < 256" for s
  proof (cases "s \<le> ms")
    case True
    then have "ws ! s = weight_of mb (lengths ! s)" "s < length ws" using ms(2) c(1) by (simp_all add: ws_def)
    moreover have "lengths ! s \<le> mb" using c(1,4) that by simp
    ultimately show ?thesis by (auto simp: has_code_def weight_of_def)
  next
    case False
    then show ?thesis using ms(2,4) that c(1) by (simp add: has_code_def ws_def)
  qed
  moreover have "ws ! s = mb + 1 - lengths ! s" if "s < 256" "lengths ! s \<noteq> 0" for s
  proof -
    have "s \<le> ms" using ms(4) that by (meson not_le)
    then show ?thesis using ms(2) c(1) that(2) by (simp add: ws_def weight_of_def)
  qed
  moreover have "last_pos lengths = Some (cd_max_symbol cd)" "ws = map (weight_of mb) (take (cd_max_symbol cd + 1) lengths)"
    using ms(1) by (simp_all add: cd_def ws_def)
  ultimately show ?thesis using run t(2) by blast
qed

end
