(* ===== verification/Huff_Codec.thy ===== *)
theory Huff_Codec
  imports Huff_Stream
begin

text \<open>
  The round trip of \<^verbatim>\<open>src/encode/huff.rs\<close>: the weight header in both forms is read back as the table
  the codes were taken from, and every literals section the encoder writes (raw, with a fresh table
  or with the table of the last section) decodes to its literals and leaves the decoder with the
  table the encoder goes on with.
\<close>

unbundle bit_operations_syntax

section \<open>The direct weight header\<close>

lemma length_pack_nibbles [simp]: "length (pack_nibbles ws) = div_ceil (length ws) 2"
  by (induction ws rule: pack_nibbles.induct) (simp_all add: div_ceil_def)

lemma nibble_halves:
  fixes hi lo :: byte
  assumes "unat hi \<le> 15" "unat lo \<le> 15"
  shows "drop_bit 4 (push_bit 4 hi OR lo) = hi" and "(push_bit 4 hi OR lo) AND 0x0F = lo"
proof -
  have small: "\<not> bit w n" if "unat w \<le> 15" "4 \<le> n" for w :: byte and n
  proof -
    have "w = take_bit 4 w" using that(1) by (simp add: word_unat_eq_iff unsigned_take_bit_eq take_bit_nat_eq_self)
    then show ?thesis using that(2) by (metis bit_take_bit_iff not_le)
  qed
  show "drop_bit 4 (push_bit 4 hi OR lo) = hi"
  proof (rule bit_word_eqI)
    fix n assume n: "n < LENGTH(8)"
    show "bit (drop_bit 4 (push_bit 4 hi OR lo)) n \<longleftrightarrow> bit hi n"
      using n small [OF assms(1), of n] small [OF assms(2), of "4 + n"]
      by (cases "4 \<le> n") (auto simp: bit_drop_bit_eq bit_or_iff bit_push_bit_iff)
  qed
  have m: "(0x0F :: byte) = mask 4" by (simp add: mask_eq_exp_minus_1)
  show "(push_bit 4 hi OR lo) AND 0x0F = lo"
    unfolding m
  proof (rule bit_word_eqI)
    fix n assume n: "n < LENGTH(8)"
    show "bit ((push_bit 4 hi OR lo) AND mask 4) n \<longleftrightarrow> bit lo n"
      using n small [OF assms(2), of n] by (cases "4 \<le> n") (auto simp: bit_and_iff bit_or_iff bit_push_bit_iff bit_mask_iff)
  qed
qed

lemma pack_nibbles_nth:
  assumes "\<forall>w \<in> set ws. unat w \<le> 15" and "i < length ws"
  shows "(if even i then drop_bit 4 (pack_nibbles ws ! (i div 2)) else pack_nibbles ws ! (i div 2) AND 0x0F) = ws ! i"
  using assms
proof (induction ws arbitrary: i rule: pack_nibbles.induct)
  case (2 hi)
  then show ?case using nibble_halves(1) [of hi 0] by simp
next
  case (3 hi lo ws)
  show ?case
  proof (cases "i < 2")
    case True
    then have "i = 0 \<or> i = 1" by auto
    then show ?thesis using 3 nibble_halves [of hi lo] by auto
  next
    case False
    then obtain j where j: "i = Suc (Suc j)" by (metis add_2_eq_Suc le_Suc_ex not_less)
    then show ?thesis using "3.IH" [of j] "3.prems" by (simp split: if_splits)
  qed
qed simp

lemma direct_weights_map:
  "(\<And>i. i \<in> set is \<Longrightarrow> 1 + i div 2 < length src) \<Longrightarrow>
    direct_weights src is = Ok (map (\<lambda>i. if even i then drop_bit 4 (src ! (1 + i div 2)) else src ! (1 + i div 2) AND 0x0F) is)"
  by (induction "is") (auto simp: even_iff_mod_2_eq_zero)

lemma direct_header_reads:
  assumes ct: "code_tables cd t ws" and ms: "cd_max_symbol cd \<le> 128"
  shows "\<exists>hdr. write_weight_header_direct cd = Ok hdr \<and> huff_read_table (hdr @ rest) = Ok (t, length hdr)"
proof -
  define w where "w = cd_weights cd"
  have len: "length w = cd_max_symbol cd" and pos: "0 < length w" and build: "huff_build_table w = Ok t"
    and w12: "\<forall>x \<in> set w. unat x \<le> 15"
    using ct by (auto simp: code_tables_def w_def)
  define h :: byte where "h = word_of_nat (127 + length w)"
  define hdr where "hdr = h # pack_nibbles w"
  have h: "unat h = 127 + length w"
    unfolding h_def by (rule unat_word_of_nat_byte) (use ms len in simp)
  have run: "write_weight_header_direct cd = Ok hdr"
    using len unfolding w_def by (simp add: write_weight_header_direct_def hdr_def h_def w_def slice_range_def)
  have d: "i div 2 < div_ceil (length w) 2" if "i < length w" for i
    using that div_ceil_bounds(1) [of 2 "length w"] by simp
  then have i: "1 + i div 2 < length (hdr @ rest)" if "i < length w" for i
    using that by (simp add: hdr_def trans_less_add1)
  have n: "(hdr @ rest) ! (1 + i div 2) = pack_nibbles w ! (i div 2)" if "i < length w" for i
    using d [OF that] by (simp add: hdr_def nth_append)
  have "direct_weights (hdr @ rest) [0..<length w] = Ok (map (\<lambda>i. if even i then drop_bit 4 ((hdr @ rest) ! (1 + i div 2))
      else (hdr @ rest) ! (1 + i div 2) AND 0x0F) [0..<length w])"
    by (rule direct_weights_map) (use i in simp)
  also have "map (\<lambda>i. if even i then drop_bit 4 ((hdr @ rest) ! (1 + i div 2)) else (hdr @ rest) ! (1 + i div 2) AND 0x0F) [0..<length w]
      = map (\<lambda>i. w ! i) [0..<length w]"
  proof (rule map_cong [OF refl])
    fix i assume "i \<in> set [0..<length w]"
    then have "i < length w" by simp
    with pack_nibbles_nth [OF w12 this]
    show "(if even i then drop_bit 4 ((hdr @ rest) ! (1 + i div 2)) else (hdr @ rest) ! (1 + i div 2) AND 0x0F) = w ! i"
      by (simp only: n)
  qed
  also have "\<dots> = w" by (rule map_nth)
  finally have dw: "direct_weights (hdr @ rest) [0..<length w] = Ok w" .
  have "packed_weights (hdr @ rest) (length w) = Ok (w, length hdr)"
    using dw by (simp add: packed_weights_def hdr_def)
  moreover have "huff_read_table (hdr @ rest) = obind (packed_weights (hdr @ rest) (length w)) (\<lambda>(weights, hdr_bytes).
      obind (huff_build_table weights) (\<lambda>table. Ok (table, hdr_bytes)))"
    using h pos by (simp add: huff_read_table_def hdr_def)
  ultimately show ?thesis using run build by simp
qed

section \<open>The compressed weight header\<close>

lemma build_dtable_nc:
  "length norm = k + 1 \<Longrightarrow> build_dtable (norm @ replicate n 0) k lg = build_dtable norm k lg"
  by (simp add: build_dtable_def)

lemma norm_less_pow:
  assumes valid: "valid_norm norm k lg" and len: "length norm = k + 1" and nonneg: "\<forall>s \<le> k. 0 \<le> norm ! s"
    and ab: "a \<le> k" "b \<le> k" "a \<noteq> b" "norm ! b \<noteq> 0"
  shows "norm ! a < 2 ^ lg"
proof -
  have "norm ! a + norm ! b = (\<Sum>s \<in> {a, b}. norm ! s)" using ab(3) by simp
  also have "\<dots> \<le> (\<Sum>s < k + 1. norm ! s)" using ab nonneg by (intro sum_mono2) auto
  also have "\<dots> = sum_list norm" using len by (simp add: sum_list_sum_nth atLeast0LessThan)
  also have "\<dots> = sum_list (map abs norm)"
    using nonneg len by (intro arg_cong [of _ _ sum_list]) (auto intro!: nth_equalityI)
  also have "\<dots> = 2 ^ lg" using valid len by (simp add: valid_norm_def)
  finally show ?thesis using nonneg ab(2,4) by force
qed

lemma weight_histogram:
  fixes weights :: "byte list"
  assumes "weights \<noteq> []" and "\<forall>w \<in> set weights. unat w \<le> 12"
  shows "\<exists>freq k. (tally (replicate 256 0) (map unat weights) :: nat list result) = Ok freq \<and> length freq = 256
    \<and> last_pos freq = Some k \<and> k \<le> 12 \<and> 0 < freq ! k \<and> sum_list (take (k + 1) freq) = length weights
    \<and> (\<forall>s < 256. 0 < freq ! s \<longleftrightarrow> (\<exists>w \<in> set weights. unat w = s)) \<and> count_present freq = card (unat ` set weights)
    \<and> length (filter (\<lambda>f. f \<noteq> 0) (take (k + 1) freq)) \<le> 13"
proof -
  have "\<forall>c \<in> set (map unat weights). c < length (replicate 256 (0::nat))" by simp
  from tally_spec [OF this] obtain freq where t: "(tally (replicate 256 0) (map unat weights) :: nat list result) = Ok freq"
    "length freq = 256" "sum_list freq = length weights" "\<forall>i < 256. freq ! i = count_list (map unat weights) i"
    by (auto simp: sum_list_replicate)
  have pos: "0 < freq ! s \<longleftrightarrow> (\<exists>w \<in> set weights. unat w = s)" if "s < 256" for s
    using t(4) that count_list_0_iff [of "map unat weights" s] by auto
  obtain w where w: "w \<in> set weights" using assms(1) by (cases weights) auto
  have w256: "unat w < length freq" using t(2) unat_byte_less [of w] by simp
  have "0 < freq ! unat w" using pos [of "unat w"] w unat_byte_less [of w] by auto
  then obtain k where k: "last_pos freq = Some k" "k < length freq" "0 < freq ! k" "\<And>j. k < j \<Longrightarrow> j < length freq \<Longrightarrow> freq ! j = 0"
    using last_pos_SomeI [OF w256] by metis
  have k12: "k \<le> 12" using pos [of k] k(2,3) t(2) assms(2) by auto
  have "sum_list (map (\<lambda>x. x) (take (k + 1) freq)) = sum_list (map (\<lambda>x. x) freq)"
    by (rule sum_map_take_zero) (use k(4) in simp)
  then have sum: "sum_list (take (k + 1) freq) = length weights" using t(3) by simp
  have "count_present freq = card {s. s < 256 \<and> 0 < freq ! s}"
    unfolding count_present_def using t(2) by (simp add: length_filter_conv_card)
  also have "{s. s < 256 \<and> 0 < freq ! s} = unat ` set weights" using pos by (auto simp: image_iff)
  finally have cp: "count_present freq = card (unat ` set weights)" .
  have "length (filter (\<lambda>f. f \<noteq> 0) (take (k + 1) freq)) \<le> 13"
    using length_filter_le [of "\<lambda>f. f \<noteq> 0" "take (k + 1) freq"] k12 by simp
  then show ?thesis using t(1,2) k(1,3) k12 sum pos cp by blast
qed

lemma fse_header_reads:
  assumes ct: "code_tables cd t ws" and ms: "128 < cd_max_symbol cd"
  shows "post (write_weight_header_fse cd) (\<lambda>hdr. \<forall>rest. huff_read_table (hdr @ rest) = Ok (t, length hdr)) (\<lambda>_. True)"
proof -
  define w where "w = cd_weights cd"
  have len: "128 < length w" "length w < 256" and build: "huff_build_table w = Ok t" and w12: "\<forall>x \<in> set w. unat x \<le> 12"
    using ct ms by (auto simp: code_tables_def w_def)
  have ne: "w \<noteq> []" using len by auto
  obtain freq k where f: "(tally (replicate 256 0) (map unat w) :: nat list result) = Ok freq" "length freq = 256"
      "last_pos freq = Some k" "k \<le> 12" "0 < freq ! k" "sum_list (take (k + 1) freq) = length w"
      "\<forall>s < 256. 0 < freq ! s \<longleftrightarrow> (\<exists>x \<in> set w. unat x = s)" "count_present freq = card (unat ` set w)"
      "length (filter (\<lambda>f. f \<noteq> 0) (take (k + 1) freq)) \<le> 13"
    using weight_histogram [OF ne w12] by blast
  show ?thesis
  proof (cases "count_present freq < 2")
    case True
    then show ?thesis unfolding write_weight_header_fse_def Let_def w_def [symmetric] f(1) obind_simps f(3) option.case by simp
  next
    case False
    have log: "choose_table_log HUF_WEIGHT_MAX_LOG n = 6" for n by (simp add: choose_table_log_def HUF_WEIGHT_MAX_LOG_def FSE_MAX_TABLELOG_def)
    have k: "k < length freq" "k < 256" "freq ! k \<noteq> 0" "(5::nat) \<le> 6" "6 \<le> (6::nat)" "(6::nat) \<le> 14" "0 < length w"
      "length (filter (\<lambda>f. f \<noteq> 0) (take (k + 1) freq)) \<le> 2 ^ 6"
      using f(2,4,5,9) len by auto
    obtain norm header where norm: "normalize_counts freq (length w) k 6 = Ok norm" "valid_norm norm k 6" "length norm = k + 1"
      and nz: "\<forall>s \<le> k. 0 \<le> norm ! s \<and> (norm ! s = 0 \<longleftrightarrow> freq ! s = 0)" and hd: "write_ncount norm k 6 = Ok header"
      and rd: "\<forall>rest. read_ncount (header @ rest) 6 = Ok \<lparr>nc_counts = norm @ replicate (255 - k) 0,
        nc_max_symbol = k, nc_table_log = 6, nc_bytes_consumed = length header\<rparr>"
      by (rule fresh_norm [OF k(1-6) f(6) [symmetric] k(7,8)])
    have lg: "4 \<le> (6::nat)" "(6::nat) \<le> 9" and "spread_log 6" by (simp_all add: spread_log_def)
    obtain dt ctb where tb: "build_dtable norm k 6 = Ok dt" "build_ctable norm k 6 = Ok ctb"
      using tables_of_norm [OF norm(2) \<open>spread_log 6\<close> lg(2)] by metis
    have codable: "unat b \<le> k \<and> norm ! unat b \<noteq> 0 \<and> norm ! unat b < 2 ^ 6" if "b \<in> set w" for b
    proof -
      have b: "0 < freq ! unat b" using f(7) that by auto
      have bk: "unat b \<le> k"
      proof (rule ccontr)
        assume "\<not> unat b \<le> k"
        obtain m where "last_pos freq = Some m" "\<And>j. m < j \<Longrightarrow> j < length freq \<Longrightarrow> freq ! j = 0"
          using last_pos_SomeI [OF k(1) f(5)] by metis
        then show False using b f(2,3) \<open>\<not> unat b \<le> k\<close> by simp
      qed
      have "unat ` set w \<noteq> {unat b}" using False f(8) by auto
      moreover have "unat b \<in> unat ` set w" using that by simp
      ultimately obtain c where c: "c \<in> set w" "unat c \<noteq> unat b" by blast
      have "0 < freq ! unat c" using f(7) c(1) by auto
      moreover have "unat c \<le> k"
      proof (rule ccontr)
        assume "\<not> unat c \<le> k"
        obtain m where "last_pos freq = Some m" "\<And>j. m < j \<Longrightarrow> j < length freq \<Longrightarrow> freq ! j = 0"
          using last_pos_SomeI [OF k(1) f(5)] by metis
        then show False using calculation f(2,3) \<open>\<not> unat c \<le> k\<close> by simp
      qed
      ultimately show ?thesis
        using norm_less_pow [OF norm(2,3) _ bk, of "unat c"] nz b bk c(2) by simp
    qed
    have "2 < length w" "length w \<le> 256" using len by simp_all
    then obtain bytes where bytes: "fse_encode ctb w = Ok bytes" "fse_decompress bytes dt 256 = Ok w"
      using fse_roundtrip [OF norm(2) lg tb _ _ codable] by blast
    define hdr where "hdr = (word_of_nat (length header + length bytes) :: byte) # header @ bytes"
    have run: "write_weight_header_fse cd = (if 128 \<le> length header + length bytes
        then Err (Invalid ''huffman fse weights'' (''compressed weights '' @ dec (length header + length bytes) @ '' >= 128-byte header limit''))
        else Ok hdr)"
      unfolding write_weight_header_fse_def Let_def w_def [symmetric] f(1) obind_simps f(3) option.case if_not_P [OF False] log
      using len norm(1) hd tb(2) bytes(1) by (simp add: as_u32_small hdr_def)
    have "huff_read_table (hdr @ rest) = Ok (t, length hdr)" if small: "length header + length bytes < 128" for rest
    proof -
      have h: "unat (word_of_nat (length header + length bytes) :: byte) = length header + length bytes"
        by (rule unat_word_of_nat_byte) (use small in simp)
      have "fse_weights (hdr @ rest) (length header + length bytes) = Ok (w, length hdr)"
        using rd [rule_format, of bytes] tb(1) bytes(2) norm(3)
        by (simp add: fse_weights_def hdr_def slice_range_def build_dtable_nc)
      then show ?thesis using h small build by (simp add: huff_read_table_def hdr_def)
    qed
    then show ?thesis unfolding run by simp
  qed
qed

lemma weight_header_reads:
  assumes "code_tables cd t ws"
  shows "post (write_weight_header cd) (\<lambda>hdr. \<forall>rest. huff_read_table (hdr @ rest) = Ok (t, length hdr)) (\<lambda>_. True)"
proof (cases "cd_max_symbol cd \<le> 128")
  case True
  obtain hdr where hdr: "write_weight_header_direct cd = Ok hdr"
    using direct_header_reads [OF assms True] by blast
  then have "huff_read_table (hdr @ rest) = Ok (t, length hdr)" for rest
    using direct_header_reads [OF assms True, of rest] by simp
  then show ?thesis using True hdr by (simp add: write_weight_header_def)
next
  case False
  then show ?thesis using fse_header_reads [OF assms] by (simp add: write_weight_header_def)
qed

section \<open>The section header\<close>

lemma or_field:
  assumes "a < 2 ^ k"
  shows "(word_of_nat a :: 'a::len word) OR push_bit k (word_of_nat b) = word_of_nat (a + 2 ^ k * b)"
proof -
  have "unat (word_of_nat a :: 'a word) \<le> a" by (simp add: unat_of_nat)
  then have "unat (word_of_nat a :: 'a word) < 2 ^ k" using assms by linarith
  then show ?thesis
    using or_disjoint_add [of "word_of_nat a :: 'a word" k "word_of_nat b"] push_bit_of_nat_word [of k b, where 'a = 'a]
    by (simp only: of_nat_add)
qed

text \<open>The fields of a header with sizes of \<open>w\<close> bits.\<close>

lemma header_fields:
  fixes bt fmt regen csize w :: nat
  assumes "bt < 4" "fmt < 4" "regen < 2 ^ w" "csize < 2 ^ w" "w \<le> 30"
  defines "v \<equiv> bt + 4 * fmt + 16 * regen + 2 ^ (w + 4) * csize"
  shows "header_bits bt fmt regen csize (w + 4) = v" and "v < 2 ^ (2 * w + 4)" and "v mod 4 = bt" and "v div 4 mod 4 = fmt"
    and "v div 2 ^ 4 mod 2 ^ w = regen" and "v div 2 ^ (w + 4) mod 2 ^ w = csize"
proof -
  define u where "u = bt + 4 * fmt + 16 * regen"
  have pw: "(2::nat) ^ (w + 4) = 16 * 2 ^ w" "(2::nat) ^ (2 * w + 4) = 2 ^ (w + 4) * 2 ^ w"
    by (simp_all add: power_add power_mult power2_eq_square mult.commute)
  have "16 * regen + 16 \<le> 16 * 2 ^ w" using assms(3) by simp
  then have u: "u < 2 ^ (w + 4)" using assms(1,2) pw(1) by (simp add: u_def)
  have v: "v = u + 2 ^ (w + 4) * csize" by (simp add: v_def u_def)
  have "2 ^ (w + 4) * csize + 2 ^ (w + 4) \<le> 2 ^ (w + 4) * 2 ^ w"
    using assms(4) by (metis Suc_leI add.commute mult_Suc_right mult_le_mono2)
  then show vl: "v < 2 ^ (2 * w + 4)" using u unfolding v pw(2) by linarith
  show "v div 2 ^ (w + 4) mod 2 ^ w = csize" using u assms(4) by (simp add: v)
  define x q where "x = regen + 2 ^ w * csize" and "q = fmt + 4 * x"
  have "v = bt + 4 * q" by (simp add: v_def q_def x_def pw algebra_simps)
  then have "v mod 4 = bt" "v div 4 = q" using assms(1) by simp_all
  moreover have "q mod 4 = fmt" using assms(2) by (simp add: q_def)
  ultimately show "v mod 4 = bt" "v div 4 mod 4 = fmt" by simp_all
  have "v = (bt + 4 * fmt) + 16 * (regen + 2 ^ w * csize)" by (simp add: v_def pw algebra_simps)
  then have "v div 16 = regen + 2 ^ w * csize" using assms(1,2) by simp
  then show "v div 2 ^ 4 mod 2 ^ w = regen" using assms(3) by simp
  have "(2::nat) ^ (2 * w + 4) \<le> 2 ^ 64" using assms(5) by (intro power_increasing) auto
  then have "v < 2 ^ 64" using vl by linarith
  moreover have "(word_of_nat bt OR push_bit 2 (word_of_nat fmt) OR push_bit 4 (word_of_nat regen)
      OR push_bit (w + 4) (word_of_nat csize) :: u64) = word_of_nat v"
  proof -
    have "(word_of_nat bt OR push_bit 2 (word_of_nat fmt) :: u64) = word_of_nat (bt + 4 * fmt)"
      using or_field [of bt 2 fmt] assms(1) by simp
    moreover have "(word_of_nat (bt + 4 * fmt) OR push_bit 4 (word_of_nat regen) :: u64) = word_of_nat u"
      using or_field [of "bt + 4 * fmt" 4 regen] assms(1,2) by (simp add: u_def)
    moreover have "(word_of_nat u OR push_bit (w + 4) (word_of_nat csize) :: u64) = word_of_nat v"
      using or_field [OF u, of csize] by (simp add: v)
    ultimately show ?thesis by (simp only: or.assoc [symmetric])
  qed
  ultimately show "header_bits bt fmt regen csize (w + 4) = v"
    by (simp only: header_bits_def) (simp add: unat_of_nat)
qed

definition lit_header :: "nat \<Rightarrow> bool \<Rightarrow> nat \<Rightarrow> nat \<Rightarrow> byte list \<Rightarrow> bool" where
  "lit_header bt four regen csize hdr \<longleftrightarrow> hdr \<noteq> [] \<and> unat (hdr ! 0) mod 4 = bt
     \<and> (\<forall>rest. parse_compressed_header (hdr @ rest) (unat (hdr ! 0) div 4 mod 4) = Ok (regen, csize, length hdr, four))"

lemma header_value_le_bytes:
  "n \<le> 8 \<Longrightarrow> v < 2 ^ (8 * n) \<Longrightarrow> header_value (le_bytes n v @ rest) n = Ok v"
proof -
  assume n: "n \<le> 8" "v < 2 ^ (8 * n)"
  have "unat (or_le_bytes (le_bytes n v) :: u64) = v"
    using n by (simp add: or_le_bytes_eq unat_from_le_bytes_64 le_val_le_bytes_bits)
  then show ?thesis by (simp add: header_value_def lit_need_def slice_range_def)
qed

lemma first_byte: "0 < n \<Longrightarrow> unat (le_bytes n v ! 0) mod 4 = v mod 4 \<and> unat (le_bytes n v ! 0) div 4 mod 4 = v div 4 mod 4"
proof -
  assume "0 < n"
  then have "unat (le_bytes n v ! 0) = v mod 256" by (cases n) (simp_all add: unat_of_nat)
  moreover have "v mod 256 mod 4 = v mod 4" by (rule mod_mod_cancel) simp
  moreover have "v mod 256 div 4 mod 4 = v div 4 mod 4"
    using div_mod_window [of v 2 6] by (simp add: mod_mod_cancel)
  ultimately show ?thesis by simp
qed

lemma write_header_reads:
  assumes bt: "bt = 2 \<or> bt = 3"
  shows "post (write_compressed_lit_header bt four regen csize)
    (\<lambda>hdr. lit_header bt four regen csize hdr \<and> (\<exists>fmt. size_format four regen csize = Some (fmt, length hdr)))
    (\<lambda>_. size_format four regen csize = None)"
proof (cases "size_format four regen csize")
  case None
  then show ?thesis by (simp add: write_compressed_lit_header_def)
next
  case (Some fh)
  obtain fmt hl where fh: "fh = (fmt, hl)" by (cases fh)
  define w where "w = (if fmt \<le> 1 then 10 else if fmt = 2 then 14 else 18 :: nat)"
  have sf: "fmt < 4" "regen < 2 ^ w" "csize < 2 ^ w" "w \<le> 30" "8 * hl = 2 * w + 4" "four \<longleftrightarrow> fmt \<noteq> 0" "hl \<le> 5" "3 \<le> hl"
    using Some fh by (auto simp: size_format_def w_def split: if_splits)
  have b4: "bt < 4" using bt by auto
  define v where "v = bt + 4 * fmt + 16 * regen + 2 ^ (w + 4) * csize"
  note hf = header_fields [OF b4 sf(1-4), folded v_def]
  have v: "v < 2 ^ (8 * hl)" using hf(2) sf(5) by simp
  have f: "fmt = 0 \<or> fmt = 1 \<or> fmt = 2 \<or> fmt = 3" using sf(1) by auto
  have run: "write_compressed_lit_header bt four regen csize = Ok (le_bytes hl v)"
  proof -
    consider "fmt \<le> 1" "w = 10" "hl = 3" | "fmt = 2" "w = 14" "hl = 4" | "fmt = 3" "w = 18" "hl = 5"
      using f sf(5) by (auto simp: w_def)
    then show ?thesis
    proof cases
      case 1
      then have "header_bits bt fmt regen csize 14 = v" using hf(1) by simp
      moreover have "as_u32 v = v" using v 1 by (intro as_u32_small) simp
      ultimately show ?thesis using 1 Some fh by (auto simp: write_compressed_lit_header_def take_le_bytes)
    next
      case 2
      then have "header_bits bt 2 regen csize 18 = v" using hf(1) by simp
      moreover have "as_u32 v = v" using v 2 by (intro as_u32_small) simp
      ultimately show ?thesis using 2 Some fh by (simp add: write_compressed_lit_header_def)
    next
      case 3
      then have "header_bits bt 3 regen csize 22 = v" using hf(1) by simp
      then show ?thesis using 3 Some fh by (simp add: write_compressed_lit_header_def take_le_bytes)
    qed
  qed
  note fb = first_byte [of hl v]
  have sym: "unat (le_bytes hl v ! 0) mod 4 = bt" "unat (le_bytes hl v ! 0) div 4 mod 4 = fmt"
    using fb hf(3,4) sf(8) by simp_all
  have hv: "header_value (le_bytes hl v @ rest) hl = Ok v" for rest
    using header_value_le_bytes [OF _ v] sf(7) by simp
  have "parse_compressed_header (le_bytes hl v @ rest) fmt = Ok (regen, csize, hl, four)" for rest
  proof -
    consider "fmt = 0 \<or> fmt = 1" "w = 10" "hl = 3" | "fmt = 2" "w = 14" "hl = 4" | "fmt = 3" "w = 18" "hl = 5"
      using f sf(5) by (auto simp: w_def)
    then show ?thesis
    proof cases
      case 1
      then show ?thesis using hv [of rest] hf(5,6) sf(6) by (auto simp: parse_compressed_header_def)
    next
      case 2
      then show ?thesis using hv [of rest] hf(5,6) sf(6) by (simp add: parse_compressed_header_def)
    next
      case 3
      then show ?thesis using hv [of rest] hf(5,6) sf(6) by (simp add: parse_compressed_header_def)
    qed
  qed
  moreover have "le_bytes hl v \<noteq> []" using sf(8) by (cases hl) auto
  ultimately show ?thesis using run sym Some fh by (simp add: lit_header_def)
qed

section \<open>Raw literals\<close>

lemma or_field_nat:
  assumes "a < 2 ^ k"
  shows "a OR push_bit k b = a + 2 ^ k * (b :: nat)"
proof -
  have "a AND push_bit k b = 0"
  proof (rule bit_eqI)
    fix i
    show "bit (a AND push_bit k b) i \<longleftrightarrow> bit (0::nat) i"
    proof (cases "i < k")
      case False
      then have "(2::nat) ^ k \<le> 2 ^ i" by (intro power_increasing) auto
      then have "a < 2 ^ i" using assms by linarith
      then have "\<not> bit a i" by (simp add: bit_iff_odd)
      then show ?thesis by (simp add: bit_and_iff)
    qed (simp add: bit_and_iff bit_push_bit_iff)
  qed
  then show ?thesis by (simp add: disjunctive_add_eq_or [symmetric] push_bit_eq_mult mult.commute)
qed

lemma low_nibble: "(word_of_nat n :: byte) AND 0xF = word_of_nat (n mod 16)"
proof -
  have "(0xF :: byte) = mask 4" by (simp add: mask_eq_exp_minus_1)
  then have "(word_of_nat n :: byte) AND 0xF = take_bit 4 (word_of_nat n)" by (simp add: take_bit_eq_mask)
  moreover have "unat (take_bit 4 (word_of_nat n :: byte)) = n mod 16"
  proof -
    have "unat (take_bit 4 (word_of_nat n :: byte)) = take_bit 4 (unat (word_of_nat n :: byte))" by (rule unsigned_take_bit_eq)
    also have "\<dots> = n mod 256 mod 16" by (simp add: unat_of_nat take_bit_eq_mod)
    also have "\<dots> = n mod 16" by (rule mod_mod_cancel) simp
    finally show ?thesis .
  qed
  moreover have "unat (word_of_nat (n mod 16) :: byte) = n mod 16" by (rule unat_word_of_nat_byte) (use mod_less_divisor [of 16 n] in linarith)
  ultimately show ?thesis by (metis word_unat_eq_iff)
qed

lemma raw_first_byte:
  assumes "c < 16" and "n < 16"
  shows "unat (word_of_nat c OR push_bit 4 (word_of_nat n) :: byte) = c + 16 * n"
proof -
  have "(word_of_nat c OR push_bit 4 (word_of_nat n) :: byte) = word_of_nat (c + 16 * n)"
    using or_field [of c 4 n] assms(1) by simp
  moreover have "unat (word_of_nat (c + 16 * n) :: byte) = c + 16 * n" by (rule unat_word_of_nat_byte) (use assms in simp)
  ultimately show ?thesis by simp
qed

lemma raw_literals_decode:
  assumes len: "length lits < 2 ^ 20"
  shows "literals_decode (write_raw_literals lits @ rest) cache = Ok (lits, length (write_raw_literals lits), cache)"
    and "length (write_raw_literals lits) = raw_header_len (length lits) + length lits"
proof -
  define n where "n = length lits"
  obtain hdr where hdr: "write_raw_literals lits = hdr @ lits" "hdr \<noteq> []" "length hdr = raw_header_len n"
    "unat (hdr ! 0) mod 4 = 0"
    "\<And>rest. length lits \<le> length rest \<Longrightarrow> parse_raw_header (hdr @ rest) (unat (hdr ! 0)) (unat (hdr ! 0) div 4 mod 4) = Ok (n, length hdr)"
  proof -
    consider "n < 32" | "32 \<le> n" "n < 4096" | "4096 \<le> n" by linarith
    then show thesis
    proof cases
      case 1
      then have b0: "unat (word_of_nat (n * 8) :: byte) = n * 8" by (intro unat_word_of_nat_byte) simp
      have "n * 8 div 4 mod 4 = 0 \<or> n * 8 div 4 mod 4 = 2" by presburger
      then show thesis
        using 1 b0 by (intro that [of "[word_of_nat (n * 8)]"])
          (auto simp: write_raw_literals_def Let_def n_def raw_header_len_def parse_raw_header_def)
    next
      case 2
      define b :: byte where "b = 4 OR push_bit 4 (word_of_nat n AND 0xF)"
      have b: "unat b = 4 + 16 * (n mod 16)"
        using raw_first_byte [of 4 "n mod 16"] unfolding b_def low_nibble by simp
      have b1: "unat (word_of_nat (n div 16) :: byte) = n div 16" by (intro unat_word_of_nat_byte) (use 2 in simp)
      have bits: "unat b mod 4 = 0" "unat b div 4 mod 4 = 1" "unat b div 2 ^ 4 = n mod 16" unfolding b by simp_all
      have "(n mod 16) OR push_bit 4 (n div 16) = n" using or_field_nat [of "n mod 16" 4 "n div 16"] by simp
      then have val: "(unat b div 2 ^ 4) OR push_bit 4 (n div 16) = n" using bits(3) by simp
      let ?h = "[b, word_of_nat (n div 16)]"
      have w: "write_raw_literals lits = ?h @ lits"
        using 2 by (simp add: write_raw_literals_def Let_def b_def n_def)
      have "parse_raw_header (?h @ rest) (unat b) 1 = Ok (n, 2)" for rest
        using b1 val by (simp add: parse_raw_header_def lit_need_def)
      then show thesis using w bits(1,2) 2 by (intro that [of ?h]) (simp_all add: raw_header_len_def)
    next
      case 3
      define b :: byte where "b = 12 OR push_bit 4 (word_of_nat (n mod 16))"
      have b: "unat b = 12 + 16 * (n mod 16)" using raw_first_byte [of 12 "n mod 16"] unfolding b_def by simp
      have b1: "unat (word_of_nat (n div 16 mod 256) :: byte) = n div 16 mod 256" by (intro unat_word_of_nat_byte) simp
      have b2: "unat (word_of_nat (n div 4096) :: byte) = n div 4096" by (intro unat_word_of_nat_byte) (use len n_def in simp)
      have bits: "unat b mod 4 = 0" "unat b div 4 mod 4 = 3" "unat b div 2 ^ 4 = n mod 16" unfolding b by simp_all
      define x where "x = n div 16 mod 256"
      have "(n mod 16) OR push_bit 4 x = n mod 16 + 16 * x" using or_field_nat [of "n mod 16" 4 x] by simp
      moreover have "n mod 16 + 16 * x = n mod 4096" using mod_mult2_eq [of n 16 256] by (simp add: x_def)
      moreover have "(n mod 4096) OR push_bit 12 (n div 4096) = n" using or_field_nat [of "n mod 4096" 12 "n div 4096"] by simp
      ultimately have val: "(n mod 16) OR push_bit 4 x OR push_bit 12 (n div 4096) = n" by (simp only: or.assoc [symmetric])
      let ?h = "[b, word_of_nat (n div 16 mod 256), word_of_nat (n div 4096)]"
      have w: "write_raw_literals lits = ?h @ lits"
        using 3 by (simp add: write_raw_literals_def Let_def b_def n_def)
      have "parse_raw_header (?h @ rest) (unat b) 3 = Ok (n, 3)" for rest
        using b1 b2 val bits(3) by (simp add: parse_raw_header_def lit_need_def x_def)
      then show thesis using w bits(1,2) 3 by (intro that [of ?h]) (simp_all add: raw_header_len_def)
    qed
  qed
  show "length (write_raw_literals lits) = raw_header_len (length lits) + length lits" by (simp add: hdr(1,3) n_def)
  have p: "parse_raw_header (hdr @ lits @ rest) (unat (hdr ! 0)) (unat (hdr ! 0) div 4 mod 4) = Ok (n, length hdr)"
    using hdr(5) [of "lits @ rest"] by simp
  show "literals_decode (write_raw_literals lits @ rest) cache = Ok (lits, length (write_raw_literals lits), cache)"
    using hdr(2,4) p
    by (simp add: hdr(1) literals_decode_def Let_def nth_append lit_need_def slice_range_def n_def)
qed

section \<open>Huffman sections\<close>

lemma four_streams_div: "four_streams n \<Longrightarrow> \<not> n < div_ceil n 4 * 3"
  by (simp add: four_streams_def)

lemma encode_lit_streams_reads:
  assumes "huff_table_for ws t" and "codes_of (ht_max_bits t) ws cd" and "\<forall>b \<in> set lits. has_code ws (unat b)"
  shows "post (encode_lit_streams cd lits) (\<lambda>(four, streams). four = four_streams (length lits)
    \<and> (if four then huf_decode_4stream t streams (length lits) else huf_decode_1stream t streams (length lits)) = Ok lits) (\<lambda>_. True)"
proof (cases "four_streams (length lits)")
  case True
  then show ?thesis using encode_4stream_roundtrip [OF assms]
    by (cases "encode_4stream cd lits") (simp_all add: encode_lit_streams_def)
next
  case False
  then show ?thesis using encode_1stream_roundtrip [OF assms] by (auto simp: encode_lit_streams_def)
qed

text \<open>A section with a Huffman payload: header, table description (if any), streams.\<close>

lemma huffman_section_decode:
  assumes hdr: "lit_header bt four (length lits) (length payload) hdr" and bt: "bt = 2 \<or> bt = 3"
    and table: "lit_table bt payload cache = Ok (t, streams)"
    and dec: "(if four then huf_decode_4stream t streams (length lits) else huf_decode_1stream t streams (length lits)) = Ok lits"
  shows "literals_decode ((hdr @ payload) @ rest) cache = Ok (lits, length (hdr @ payload), Some t)"
proof -
  let ?s = "(hdr @ payload) @ rest"
  have h: "hdr \<noteq> []" "unat (hdr ! 0) mod 4 = bt"
    "parse_compressed_header ?s (unat (hdr ! 0) div 4 mod 4) = Ok (length lits, length payload, length hdr, four)"
    using hdr by (simp_all add: lit_header_def)
  have ne: "?s \<noteq> []" and at: "idx ?s 0 = (Ok (hdr ! 0) :: byte result)" using h(1) by (simp_all add: idx_def nth_append)
  have nb: "\<not> (bt = 0 \<or> bt = 1)" using bt by auto
  have need: "lit_need ?s (length hdr + length payload) = Ok ()" by (simp add: lit_need_def)
  have sl: "slice_range ?s (length hdr) (length hdr + length payload) = (Ok payload :: byte list result)"
    by (simp add: slice_range_def)
  show ?thesis
    unfolding literals_decode_def if_not_P [OF ne] at obind_simps Let_def h(2) if_not_P [OF nb] h(3) prod.case need sl table dec
    by simp
qed

lemma assemble_section_decode:
  assumes ct: "code_tables cd t ws" and lits: "\<forall>b \<in> set lits. has_code ws (unat b)"
    and wh: "\<forall>rest. huff_read_table (wh @ rest) = Ok (t, length wh)"
  shows "post (assemble_compressed_section cd wh lits)
    (\<lambda>sec. \<forall>rest. literals_decode (sec @ rest) cache = Ok (lits, length sec, Some t)) (\<lambda>_. True)"
proof -
  have tc: "huff_table_for ws t" "codes_of (ht_max_bits t) ws cd" using ct by (simp_all add: code_tables_def)
  show ?thesis
  proof (cases "encode_lit_streams cd lits")
    case (Ok fs)
    obtain four streams where fs: "fs = (four, streams)" by (cases fs)
    have dec: "(if four then huf_decode_4stream t streams (length lits) else huf_decode_1stream t streams (length lits)) = Ok lits"
      using encode_lit_streams_reads [OF tc lits] unfolding Ok fs post_simps prod.case by blast
    show ?thesis
    proof (cases "write_compressed_lit_header 2 four (length lits) (length (wh @ streams))")
      case hdr: (Ok hdr)
      have lh: "lit_header 2 four (length lits) (length (wh @ streams)) hdr"
        using write_header_reads [of 2 four "length lits" "length (wh @ streams)"] hdr by simp
      have "lit_table 2 (wh @ streams) cache = Ok (t, streams)"
        using wh by (simp add: lit_table_def)
      from huffman_section_decode [OF lh _ this dec] show ?thesis
        unfolding assemble_compressed_section_def Ok fs obind_simps prod.case Let_def hdr by simp
    qed (use write_header_reads [of 2 four "length lits" "length (wh @ streams)"]
        in \<open>simp_all add: assemble_compressed_section_def Ok fs Let_def\<close>)
  qed (use encode_lit_streams_reads [OF tc lits] in \<open>simp_all add: assemble_compressed_section_def\<close>)
qed

lemma treeless_section_decode:
  assumes ct: "codes_for cd t ws" and lits: "\<forall>b \<in> set lits. has_code ws (unat b)"
  shows "post (build_treeless_section lits cd)
    (\<lambda>sec. \<forall>rest. literals_decode (sec @ rest) (Some t) = Ok (lits, length sec, Some t)) (\<lambda>_. True)"
proof -
  have tc: "huff_table_for ws t" "codes_of (ht_max_bits t) ws cd" using ct by (simp_all add: codes_for_def)
  show ?thesis
  proof (cases "encode_lit_streams cd lits")
    case (Ok fs)
    obtain four streams where fs: "fs = (four, streams)" by (cases fs)
    have dec: "(if four then huf_decode_4stream t streams (length lits) else huf_decode_1stream t streams (length lits)) = Ok lits"
      using encode_lit_streams_reads [OF tc lits] unfolding Ok fs post_simps prod.case by blast
    show ?thesis
    proof (cases "write_compressed_lit_header 3 four (length lits) (length streams)")
      case hdr: (Ok hdr)
      have lh: "lit_header 3 four (length lits) (length streams) hdr"
        using write_header_reads [of 3 four "length lits" "length streams"] hdr by simp
      have "lit_table 3 streams (Some t) = Ok (t, streams)" by (simp add: lit_table_def)
      from huffman_section_decode [OF lh _ this dec] show ?thesis
        unfolding build_treeless_section_def Ok fs obind_simps prod.case hdr by simp
    qed (use write_header_reads [of 3 four "length lits" "length streams"]
        in \<open>simp_all add: build_treeless_section_def Ok fs\<close>)
  qed (use encode_lit_streams_reads [OF tc lits] in \<open>simp_all add: build_treeless_section_def\<close>)
qed

section \<open>The sizes\<close>

lemma code_bits_widths:
  assumes "codes_of mb ws cd"
  shows "\<forall>b \<in> set lits. has_code ws (unat b) \<Longrightarrow>
    code_bits cd lits = Ok (widths (map (\<lambda>b. (sym_code ws (unat b), mb + 1 - ws ! unat b)) lits))"
proof (induction lits)
  case Nil
  then show ?case by simp
next
  case (Cons b lits)
  then have "cd_nbits cd ! unat b = mb + 1 - ws ! unat b" "unat b < length (cd_nbits cd)"
    using assms unat_byte_less [of b] unfolding codes_of_def by auto
  then show ?case using Cons by simp
qed

lemma code_field_small:
  assumes t: "huff_table_for ws t" and s: "has_code ws s"
  shows "ht_max_bits t + 1 - ws ! s \<le> 32" and "sym_code ws s < 2 ^ 32"
proof -
  have n: "ht_max_bits t + 1 - ws ! s \<le> 12" using huff_table_for_range [OF t s] s by (auto simp: has_code_def)
  then show "ht_max_bits t + 1 - ws ! s \<le> 32" by simp
  have "(2::nat) ^ (ht_max_bits t + 1 - ws ! s) \<le> 2 ^ 32" using n by (intro power_increasing) auto
  then show "sym_code ws s < 2 ^ 32" using sym_code_less [OF t s] by linarith
qed

lemma stream_len_exact:
  assumes t: "huff_table_for ws t" and cd: "codes_of (ht_max_bits t) ws cd"
    and lits: "\<forall>b \<in> set lits. has_code ws (unat b)"
  shows "\<exists>bytes. encode_stream cd lits = Ok bytes \<and> stream_len cd lits = Ok (length bytes)"
proof -
  let ?f = "\<lambda>b. (sym_code ws (unat b), ht_max_bits t + 1 - ws ! unat b)"
  define w where "w = add_all bw_add bw_new (map ?f (rev lits))"
  have "n \<le> 32 \<and> v < 2 ^ 32" if "(v, n) \<in> set (map ?f (rev lits))" for v n
    using that lits code_field_small [OF t] by auto
  then have "bw_ok w \<and> bw_val w = pack (bw_val bw_new) (bw_len bw_new) (map ?f (rev lits))
      \<and> bw_len w = bw_len bw_new + widths (map ?f (rev lits))"
    unfolding w_def by (intro backward.add_all_spec [OF bw_new_spec(1)])
  then have w: "bw_ok w" "bw_len w = widths (map ?f lits)"
    by (simp_all add: bw_new_spec(3) flip: rev_map)
  have "encode_stream cd lits = Ok (bw_finish w)"
    using stream_codes_add_all [OF cd, of "rev lits" bw_new] lits by (simp add: encode_stream_def w_def)
  moreover have "length (bw_finish w) = div_ceil (bw_len w + 1) 8"
    using bw_finish_spec(2,3) [OF w(1)] div_ceil_bounds [of 8 "bw_len w + 1"] by linarith
  ultimately show ?thesis using code_bits_widths [OF cd lits] w(2) by (simp add: stream_len_def)
qed

text \<open>The size that is computed is the size of the section that is built, and there is none exactly
  where the encoder reports an error.\<close>

definition sized :: "byte list result \<Rightarrow> nat option result" where
  "sized m = (case m of Ok bs \<Rightarrow> Ok (Some (length bs)) | Err e \<Rightarrow> Ok None | Panic \<Rightarrow> Panic | Hang \<Rightarrow> Hang)"

lemma sized_simps [simp]: "sized (Ok bs) = Ok (Some (length bs))" "sized (Err e) = Ok None"
  by (simp_all add: sized_def)

lemma jump_entry_cases:
  "jump_entry s = (if 65535 < length s then Err (Invalid ''huffman 4-stream'' ''sub-stream exceeds 64 KiB jump-table field'')
     else Ok (le_bytes 2 (length s)))"
  by (simp add: jump_entry_def)

lemma streams_len_exact:
  assumes t: "huff_table_for ws t" and cd: "codes_of (ht_max_bits t) ws cd"
    and lits: "\<forall>b \<in> set lits. has_code ws (unat b)"
  shows "(\<exists>streams. encode_lit_streams cd lits = Ok (four_streams (length lits), streams)
      \<and> streams_byte_len cd lits = Ok (Some (four_streams (length lits), length streams)))
    \<or> (\<exists>e. encode_lit_streams cd lits = Err e) \<and> streams_byte_len cd lits = Ok None"
proof (cases "four_streams (length lits)")
  case False
  then show ?thesis
    using stream_len_exact [OF assms] by (auto simp: encode_lit_streams_def streams_byte_len_def)
next
  case True
  define n seg where "n = length lits" and "seg = div_ceil (length lits) 4"
  have ns: "\<not> length lits < seg * 3" using four_streams_div [OF True] by (simp add: seg_def)
  obtain l1 l2 l3 l4 where slices: "slice_range lits 0 seg = (Ok l1 :: byte list result)"
      "slice_range lits seg (2 * seg) = (Ok l2 :: byte list result)"
      "slice_range lits (2 * seg) (3 * seg) = (Ok l3 :: byte list result)" "slice_from lits (3 * seg) = (Ok l4 :: byte list result)"
    and cat: "lits = l1 @ l2 @ l3 @ l4"
    by (rule quarters [OF ns])
  have sub: "\<forall>b \<in> set l. has_code ws (unat b)" if "l = l1 \<or> l = l2 \<or> l = l3 \<or> l = l4" for l
    using lits that unfolding cat by auto
  obtain s1 where 1: "encode_stream cd l1 = Ok s1" "stream_len cd l1 = Ok (length s1)"
    using stream_len_exact [OF t cd sub, of l1] by auto
  obtain s2 where 2: "encode_stream cd l2 = Ok s2" "stream_len cd l2 = Ok (length s2)"
    using stream_len_exact [OF t cd sub, of l2] by auto
  obtain s3 where 3: "encode_stream cd l3 = Ok s3" "stream_len cd l3 = Ok (length s3)"
    using stream_len_exact [OF t cd sub, of l3] by auto
  obtain s4 where 4: "encode_stream cd l4 = Ok s4" "stream_len cd l4 = Ok (length s4)"
    using stream_len_exact [OF t cd sub, of l4] by auto
  have enc: "encode_4stream cd lits = obind (jump_entry s1) (\<lambda>j1. obind (jump_entry s2) (\<lambda>j2. obind (jump_entry s3) (\<lambda>j3.
      Ok (j1 @ j2 @ j3 @ s1 @ s2 @ s3 @ s4))))"
    unfolding encode_4stream_def Let_def seg_def [symmetric] if_not_P [OF ns] slices obind_simps 1 2 3 4 ..
  have len: "streams_byte_len cd lits = (if 65535 < length s1 \<or> 65535 < length s2 \<or> 65535 < length s3 then Ok None
      else Ok (Some (True, 6 + length s1 + length s2 + length s3 + length s4)))"
    unfolding streams_byte_len_def Let_def seg_def [symmetric] if_P [OF True] slices obind_simps 1 2 3 4 ..
  show ?thesis
  proof (cases "65535 < length s1 \<or> 65535 < length s2 \<or> 65535 < length s3")
    case big: True
    then have "\<exists>e. encode_4stream cd lits = Err e" unfolding enc by (auto simp: jump_entry_cases)
    then show ?thesis using True big len by (auto simp: encode_lit_streams_def)
  next
    case False
    then have "encode_4stream cd lits = Ok (le_bytes 2 (length s1) @ le_bytes 2 (length s2) @ le_bytes 2 (length s3) @ s1 @ s2 @ s3 @ s4)"
      unfolding enc by (simp add: jump_entry_cases)
    then show ?thesis using True False len by (simp add: encode_lit_streams_def)
  qed
qed

lemma header_len_exact:
  assumes "bt = 2 \<or> bt = 3"
  shows "(\<exists>hdr. write_compressed_lit_header bt four regen csize = Ok hdr \<and> compressed_header_len four regen csize = Some (length hdr))
    \<or> (\<exists>e. write_compressed_lit_header bt four regen csize = Err e) \<and> compressed_header_len four regen csize = None"
  using write_header_reads [OF assms, of four regen csize]
  by (cases "write_compressed_lit_header bt four regen csize") (auto simp: compressed_header_len_def)

lemma section_size_exact:
  assumes ct: "codes_for cd t ws" and lits: "\<forall>b \<in> set lits. has_code ws (unat b)"
  shows "section_size cd (length wh) lits = sized (assemble_compressed_section cd wh lits)"
    and "section_size cd 0 lits = sized (build_treeless_section lits cd)"
proof -
  have tc: "huff_table_for ws t" "codes_of (ht_max_bits t) ws cd" using ct by (simp_all add: codes_for_def)
  note st = streams_len_exact [OF tc lits]
  show "section_size cd (length wh) lits = sized (assemble_compressed_section cd wh lits)"
  proof (cases "encode_lit_streams cd lits")
    case (Ok fs)
    obtain four streams where fs: "fs = (four, streams)" by (cases fs)
    then have "streams_byte_len cd lits = Ok (Some (four, length streams))" using st Ok by auto
    then show ?thesis using Ok fs header_len_exact [of 2 four "length lits" "length (wh @ streams)"]
      by (auto simp: section_size_def assemble_compressed_section_def Let_def)
  qed (use st in \<open>auto simp: section_size_def assemble_compressed_section_def\<close>)
  show "section_size cd 0 lits = sized (build_treeless_section lits cd)"
  proof (cases "encode_lit_streams cd lits")
    case (Ok fs)
    obtain four streams where fs: "fs = (four, streams)" by (cases fs)
    then have "streams_byte_len cd lits = Ok (Some (four, length streams))" using st Ok by auto
    then show ?thesis using Ok fs header_len_exact [of 3 four "length lits" "length streams"]
      by (auto simp: section_size_def build_treeless_section_def Let_def)
  qed (use st in \<open>auto simp: section_size_def build_treeless_section_def\<close>)
qed

section \<open>The choice of a section\<close>

definition lit_match :: "code_table option \<Rightarrow> huff_table option \<Rightarrow> bool" where
  "lit_match prev cache \<longleftrightarrow> (case prev of None \<Rightarrow> True | Some cd \<Rightarrow> \<exists>t ws. cache = Some t \<and> codes_for cd t ws)"

lemma byte_histogram_Ok:
  "\<exists>freq. byte_histogram lits = Ok freq \<and> length freq = 256 \<and> sum_list freq = length lits
    \<and> (\<forall>b \<in> set lits. freq ! unat b \<noteq> 0)"
proof -
  have "\<forall>c \<in> set (map unat lits). c < length (replicate 256 (0::nat))" by simp
  from tally_spec [OF this] obtain freq where t: "byte_histogram lits = Ok freq"
    "length freq = 256" "sum_list freq = length lits" "\<forall>i < 256. freq ! i = count_list (map unat lits) i"
    by (auto simp: sum_list_replicate byte_histogram_def)
  have "freq ! unat b \<noteq> 0" if "b \<in> set lits" for b
    using t(4) that unat_byte_less [of b] by (simp add: count_list_0_iff)
  then show ?thesis using t by blast
qed

lemma build_fresh_table_reads:
  assumes "length freq = 256" and "sum_list freq < 2 ^ 32"
  shows "post (build_fresh_table freq) (\<lambda>r. \<forall>cd wh. r = Some (cd, wh) \<longrightarrow> (\<exists>t ws. code_tables cd t ws
    \<and> (\<forall>rest. huff_read_table (wh @ rest) = Ok (t, length wh)) \<and> (\<forall>s < 256. freq ! s \<noteq> 0 \<longrightarrow> has_code ws s))) (\<lambda>_. False)"
proof (cases "count_present freq < 2")
  case True
  then show ?thesis by (simp add: build_fresh_table_def)
next
  case False
  then obtain lengths where l: "code_lengths freq = Ok lengths" "complete_code lengths" "\<forall>s < 256. lengths ! s = 0 \<longleftrightarrow> freq ! s = 0"
    using code_lengths_spec [OF assms] by auto
  obtain cd t ws where cd: "build_code_table lengths = Ok cd" "code_tables cd t ws" "\<forall>s < 256. has_code ws s \<longleftrightarrow> lengths ! s \<noteq> 0"
    using build_code_table_Ok [OF complete_code_at [OF l(2)]] by blast
  show ?thesis
    using weight_header_reads [OF cd(2)] cd(2,3) l(3)
    unfolding build_fresh_table_def if_not_P [OF False] l(1) obind_simps cd(1) outcome.case
    by (cases "write_weight_header cd") auto
qed

lemma can_encode_has_code:
  fixes lits :: "byte list"
  assumes "codes_of mb ws cd" and "can_encode_hist cd freq" and "\<forall>b \<in> set lits. freq ! unat b \<noteq> 0"
  shows "\<forall>b \<in> set lits. has_code ws (unat b)"
proof
  fix b assume "b \<in> set lits"
  then have "freq ! unat b \<noteq> 0" using assms(3) by blast
  then have "0 < cd_nbits cd ! unat b" 
    using assms(2) [unfolded can_encode_hist_def, rule_format, OF unat_byte_less [of b]] by simp
  moreover have "\<not> has_code ws (unat b) \<longrightarrow> cd_nbits cd ! unat b = 0"
    using assms(1) unat_byte_less [of b] unfolding codes_of_def by simp
  ultimately show "has_code ws (unat b)" by auto
qed

text \<open>What decodes to the literals and leaves the table of \<open>nx\<close>, and a section with the size that is
  computed for it.\<close>

definition lit_decodes :: "byte list \<Rightarrow> huff_table option \<Rightarrow> byte list \<Rightarrow> code_table option \<Rightarrow> bool" where
  "lit_decodes lits cache sec nx \<longleftrightarrow>
     (\<exists>cache'. (\<forall>rest. literals_decode (sec @ rest) cache = Ok (lits, length sec, cache')) \<and> lit_match nx cache')"

definition candidate :: "byte list result \<Rightarrow> nat option \<Rightarrow> (byte list \<Rightarrow> bool) \<Rightarrow> bool" where
  "candidate m c good \<longleftrightarrow> (case m of Ok sec \<Rightarrow> c = Some (length sec) \<and> good sec | Err e \<Rightarrow> c = None | _ \<Rightarrow> False)"

lemma candidate_SomeD: "candidate m (Some n) good \<Longrightarrow> \<exists>sec. m = Ok sec \<and> length sec = n \<and> good sec"
  by (cases m) (auto simp: candidate_def)

lemma candidate_OkD: "candidate m c good \<Longrightarrow> m = Ok sec \<Longrightarrow> c = Some (length sec)"
  by (simp add: candidate_def)

lemma compressed_candidate:
  assumes "code_tables cd t ws" and "\<forall>b \<in> set lits. has_code ws (unat b)" and "\<forall>rest. huff_read_table (wh @ rest) = Ok (t, length wh)"
  shows "\<exists>c. section_size cd (length wh) lits = Ok c
    \<and> candidate (assemble_compressed_section cd wh lits) c (\<lambda>sec. lit_decodes lits cache sec (Some cd))"
proof -
  note sz = section_size_exact(1) [OF code_tables_codes_for [OF assms(1)] assms(2), of wh]
  have lm: "lit_match (Some cd) (Some t)" using code_tables_codes_for [OF assms(1)] by (auto simp: lit_match_def)
  show ?thesis
    using assemble_section_decode [OF assms, of cache] lm unfolding sz
    by (cases "assemble_compressed_section cd wh lits") (auto simp: candidate_def lit_decodes_def)
qed

lemma treeless_candidate:
  assumes "codes_for cd t ws" and "\<forall>b \<in> set lits. has_code ws (unat b)"
  shows "\<exists>c. section_size cd 0 lits = Ok c
    \<and> candidate (build_treeless_section lits cd) c (\<lambda>sec. lit_decodes lits (Some t) sec (Some cd))"
proof -
  note sz = section_size_exact(2) [OF assms]
  have lm: "lit_match (Some cd) (Some t)" using assms(1) by (auto simp: lit_match_def)
  show ?thesis
    using treeless_section_decode [OF assms] lm unfolding sz
    by (cases "build_treeless_section lits cd") (auto simp: candidate_def lit_decodes_def)
qed

lemma fresh_candidate:
  assumes len: "length lits < 2 ^ 20" and freq: "byte_histogram lits = Ok freq"
  shows "\<exists>fresh c. build_fresh_table freq = Ok fresh
    \<and> (case fresh of None \<Rightarrow> Ok None | Some (t, wh) \<Rightarrow> section_size t (length wh) lits) = Ok c
    \<and> (case fresh of None \<Rightarrow> c = None | Some (cd, wh) \<Rightarrow>
         candidate (assemble_compressed_section cd wh lits) c (\<lambda>sec. lit_decodes lits cache sec (Some cd)))"
proof -
  have f: "length freq = 256" "sum_list freq < 2 ^ 32" "\<forall>b \<in> set lits. freq ! unat b \<noteq> 0"
    using byte_histogram_Ok [of lits] freq len by auto
  note bf = build_fresh_table_reads [OF f(1,2)]
  obtain fresh where fresh: "build_fresh_table freq = Ok fresh" using bf by (cases "build_fresh_table freq") auto
  show ?thesis
  proof (cases fresh)
    case None
    then show ?thesis using fresh by simp
  next
    case (Some p)
    obtain cd wh where p: "p = (cd, wh)" by (cases p)
    then obtain t ws where tw: "code_tables cd t ws" "\<forall>rest. huff_read_table (wh @ rest) = Ok (t, length wh)"
        "\<forall>s < 256. freq ! s \<noteq> 0 \<longrightarrow> has_code ws s"
      using bf Some unfolding fresh post_simps by blast
    have "\<forall>b \<in> set lits. has_code ws (unat b)" using tw(3) f(3) unat_byte_less by blast
    from compressed_candidate [OF tw(1) this tw(2), of cache] show ?thesis using fresh Some p by simp
  qed
qed

lemma previous_candidate:
  assumes freq: "byte_histogram lits = Ok freq" and prev: "lit_match prev cache"
  shows "\<exists>d. (case prev of None \<Rightarrow> Ok None | Some t \<Rightarrow> if can_encode_hist t freq then section_size t 0 lits else Ok None) = Ok d
    \<and> (case prev of None \<Rightarrow> d = None | Some cd \<Rightarrow>
         if can_encode_hist cd freq then candidate (build_treeless_section lits cd) d (\<lambda>sec. lit_decodes lits cache sec prev)
         else d = None)"
proof (cases "\<exists>cd. prev = Some cd \<and> can_encode_hist cd freq")
  case False
  then show ?thesis by (cases prev) auto
next
  case True
  then obtain cd where cd: "prev = Some cd" "can_encode_hist cd freq" by blast
  then obtain t ws where tw: "cache = Some t" "codes_for cd t ws" using prev by (auto simp: lit_match_def)
  then have "codes_of (ht_max_bits t) ws cd" by (simp add: codes_for_def)
  moreover have "\<forall>b \<in> set lits. freq ! unat b \<noteq> 0" using byte_histogram_Ok [of lits] freq by auto
  ultimately have "\<forall>b \<in> set lits. has_code ws (unat b)" by (rule can_encode_has_code [OF _ cd(2)])
  from treeless_candidate [OF tw(2) this] show ?thesis using cd tw(1) by simp
qed

text \<open>The section the choice falls on is one of the three, and none of the others is shorter.\<close>

lemma write_literals_auto_spec:
  assumes len: "length lits < 2 ^ 20" and prev: "lit_match prev cache"
  shows "\<exists>bytes nx freq fresh. write_literals_auto lits prev = Ok (bytes, nx) \<and> lit_decodes lits cache bytes nx
    \<and> byte_histogram lits = Ok freq \<and> build_fresh_table freq = Ok fresh \<and> length bytes \<le> length (write_raw_literals lits)
    \<and> (\<forall>cd wh sec. fresh = Some (cd, wh) \<longrightarrow> assemble_compressed_section cd wh lits = Ok sec \<longrightarrow> length bytes \<le> length sec)
    \<and> (\<forall>cd sec. prev = Some cd \<longrightarrow> can_encode_hist cd freq \<longrightarrow> build_treeless_section lits cd = Ok sec \<longrightarrow> length bytes \<le> length sec)"
proof -
  obtain freq where freq: "byte_histogram lits = Ok freq" using byte_histogram_Ok by blast
  obtain fresh c where c: "build_fresh_table freq = Ok fresh"
      "(case fresh of None \<Rightarrow> Ok None | Some (t, wh) \<Rightarrow> section_size t (length wh) lits) = Ok c"
      "case fresh of None \<Rightarrow> c = None | Some (cd, wh) \<Rightarrow>
         candidate (assemble_compressed_section cd wh lits) c (\<lambda>sec. lit_decodes lits cache sec (Some cd))"
    using fresh_candidate [OF len freq] by blast
  obtain d where d: "(case prev of None \<Rightarrow> Ok None | Some t \<Rightarrow> if can_encode_hist t freq then section_size t 0 lits else Ok None) = Ok d"
      "case prev of None \<Rightarrow> d = None | Some cd \<Rightarrow>
         if can_encode_hist cd freq then candidate (build_treeless_section lits cd) d (\<lambda>sec. lit_decodes lits cache sec prev)
         else d = None"
    using previous_candidate [OF freq prev] by blast
  define rs where "rs = length lits + raw_header_len (length lits)"
  have rs: "length (write_raw_literals lits) = rs" using raw_literals_decode(2) [OF len] by (simp add: rs_def)
  have raw: "lit_decodes lits cache (write_raw_literals lits) prev"
    using raw_literals_decode(1) [OF len] prev unfolding lit_decodes_def by blast
  have run: "write_literals_auto lits prev = (case choose_literals rs c d of
       Compressed_Literals \<Rightarrow> (case fresh of None \<Rightarrow> Panic
          | Some (table, weight_header) \<Rightarrow> or_raw (assemble_compressed_section table weight_header lits) (Some table) prev lits)
     | Treeless_Literals \<Rightarrow> (case prev of None \<Rightarrow> Panic | Some t \<Rightarrow> or_raw (build_treeless_section lits t) prev prev lits)
     | Raw_Literals \<Rightarrow> Ok (write_raw_literals lits, prev))"
    unfolding write_literals_auto_def freq obind_simps c(1) Let_def c(2) d(1) rs_def ..
  have "\<exists>bytes nx. write_literals_auto lits prev = Ok (bytes, nx) \<and> lit_decodes lits cache bytes nx
      \<and> length bytes \<le> rs \<and> (\<forall>n. c = Some n \<longrightarrow> length bytes \<le> n) \<and> (\<forall>n. d = Some n \<longrightarrow> length bytes \<le> n)"
  proof (cases "choose_literals rs c d")
    case Raw_Literals
    then have "(\<forall>n. c = Some n \<longrightarrow> rs \<le> n) \<and> (\<forall>n. d = Some n \<longrightarrow> rs \<le> n)"
      by (auto simp: choose_literals_def split: option.splits if_splits)
    then show ?thesis using run Raw_Literals rs raw by simp
  next
    case Compressed_Literals
    then obtain n where n: "c = Some n" "n < rs" "\<forall>k. d = Some k \<longrightarrow> n \<le> k"
      by (auto simp: choose_literals_def split: option.splits if_splits)
    then obtain cd wh where s: "fresh = Some (cd, wh)"
        "candidate (assemble_compressed_section cd wh lits) (Some n) (\<lambda>sec. lit_decodes lits cache sec (Some cd))"
      using c(3) by (cases fresh) auto
    from candidate_SomeD [OF s(2)] show ?thesis using run Compressed_Literals n s(1) by (auto simp: or_raw_def)
  next
    case Treeless_Literals
    then obtain n where n: "d = Some n" "n < rs" "\<forall>k. c = Some k \<longrightarrow> n \<le> k"
      by (auto simp: choose_literals_def split: option.splits if_splits)
    then obtain cd where s: "prev = Some cd"
        "candidate (build_treeless_section lits cd) (Some n) (\<lambda>sec. lit_decodes lits cache sec prev)"
      using d(2) by (cases prev) (auto split: if_splits)
    from candidate_SomeD [OF s(2)] show ?thesis using run Treeless_Literals n s(1) by (auto simp: or_raw_def)
  qed
  moreover have "c = Some (length sec)" if "fresh = Some (cd, wh)" "assemble_compressed_section cd wh lits = Ok sec" for cd wh sec
    using c(3) that candidate_OkD by fastforce
  moreover have "d = Some (length sec)" if "prev = Some cd" "can_encode_hist cd freq" "build_treeless_section lits cd = Ok sec" for cd sec
    using d(2) that candidate_OkD by fastforce
  ultimately show ?thesis using freq c(1) rs by blast
qed

section \<open>Properties\<close>

text \<open>C11: the literals section round trip: whatever section the encoder chooses for a block's
  literals, it does not fail, the decoder (whose cached table is the one the encoder last sent)
  returns exactly the literals and consumes exactly the section, whatever follows it, and its cached
  table is again the one the encoder goes on with.\<close>

theorem literals_section_roundtrip:
  assumes "length lits < 2 ^ 20" and "lit_match prev cache"
  shows "\<exists>bytes nx cache'. write_literals_auto lits prev = Ok (bytes, nx)
    \<and> (\<forall>rest. literals_decode (bytes @ rest) cache = Ok (lits, length bytes, cache')) \<and> lit_match nx cache'"
  using write_literals_auto_spec [OF assms] unfolding lit_decodes_def by blast

theorem literals_section_roundtrip_witness:
  "\<exists>bytes nx cache'. write_literals_auto (replicate 40 7 @ [1, 2, 3]) None = Ok (bytes, nx)
    \<and> (\<forall>rest. literals_decode (bytes @ rest) None = Ok (replicate 40 7 @ [1, 2, 3], length bytes, cache')) \<and> lit_match nx cache'"
  by (rule literals_section_roundtrip) (simp_all add: lit_match_def)

text \<open>C35: the sizes the encoder compares are exact: the section it writes is never longer than the
  raw one, the one with a fresh table, or the one that reuses the last table, wherever these can be
  built.\<close>

theorem literals_section_smallest:
  assumes "length lits < 2 ^ 20" and "lit_match prev cache"
    and "write_literals_auto lits prev = Ok (bytes, nx)"
  shows "length bytes \<le> length (write_raw_literals lits)
    \<and> (\<forall>sec t. build_compressed_section lits = Ok (sec, t) \<longrightarrow> length bytes \<le> length sec)
    \<and> (\<forall>cd freq sec. prev = Some cd \<longrightarrow> byte_histogram lits = Ok freq \<longrightarrow> can_encode_hist cd freq
          \<longrightarrow> build_treeless_section lits cd = Ok sec \<longrightarrow> length bytes \<le> length sec)"
proof -
  obtain freq fresh where w: "byte_histogram lits = Ok freq" "build_fresh_table freq = Ok fresh"
      "length bytes \<le> length (write_raw_literals lits)"
      "\<forall>cd wh sec. fresh = Some (cd, wh) \<longrightarrow> assemble_compressed_section cd wh lits = Ok sec \<longrightarrow> length bytes \<le> length sec"
      "\<forall>cd sec. prev = Some cd \<longrightarrow> can_encode_hist cd freq \<longrightarrow> build_treeless_section lits cd = Ok sec \<longrightarrow> length bytes \<le> length sec"
    using write_literals_auto_spec [OF assms(1,2)] assms(3) by auto
  have "length bytes \<le> length sec" if "build_compressed_section lits = Ok (sec, t)" for sec t
    using that w(1,2,4) by (cases fresh) (auto simp: build_compressed_section_def obind_eq_Ok)
  then show ?thesis using w(1,3,5) by auto
qed

theorem literals_section_smallest_witness:
  "\<exists>bytes nx. write_literals_auto [1, 2, 1] None = Ok (bytes, nx) \<and> length bytes \<le> length (write_raw_literals [1, 2, 1])"
proof -
  have "lit_match None None" by (simp add: lit_match_def)
  moreover from this obtain bytes nx where "write_literals_auto [1, 2, 1] None = Ok (bytes, nx)"
    using write_literals_auto_spec [of "[1, 2, 1]" None None] by auto
  ultimately show ?thesis using literals_section_smallest [of "[1, 2, 1]" None None] by auto
qed

end
