(* ===== verification/Block_Encode.thy ===== *)
theory Block_Encode
  imports Seq_Codec Huff_Codec Store
begin

text \<open>
  \<^verbatim>\<open>src/encode/block.rs\<close>, the compressed blocks: one block (\<open>emit_one\<close>), the splitter
  (\<open>emit_split\<close>), and the choice among several parses (\<open>emit_and_pick\<close>). What these emit is related
  to the decoder of \<open>Block\<close>: where the sequences and literals describe some bytes after the output
  so far (\<open>describes\<close>), the decoder, whose cached tables and repeat offsets are in step with the
  encoder's state (\<open>in_step\<close>), appends exactly these bytes and is in step with the new state
  (\<open>emits\<close>).
\<close>

section \<open>State\<close>

record enc_state =
  es_rep :: rep_offsets
  es_seq :: seq_ctables
  es_lit :: "code_table option"

text \<open>A parse of a block, with the alternatives of the optimal parser (which have none of their own).\<close>

datatype parsed = Parsed (pa_seqs: "enc_seq list") (pa_literals: "byte list") (pa_rep: rep_offsets) (pa_alts: "parsed list")

section \<open>Emitting\<close>

definition write_huffman_literals_block :: "bool \<Rightarrow> byte list \<Rightarrow> byte list result" where
  "write_huffman_literals_block lst literals =
     obind (write_literals_section literals) (\<lambda>section.
     let body = section @ [0] in
     Ok (write_block_header lst Compressed (length body) @ body))"

definition emit_one ::
  "bool \<Rightarrow> enc_seq list \<Rightarrow> byte list \<Rightarrow> seq_ctables \<Rightarrow> code_table option
     \<Rightarrow> (byte list \<times> seq_ctables \<times> code_table option) result" where
  "emit_one lst seqs literals prev_seq prev_lit =
     obind (write_literals_auto literals prev_lit) (\<lambda>(lits, lit).
     obind (write_sequences seqs prev_seq) (\<lambda>(sqs, seq).
     let body = lits @ sqs in
     Ok (write_block_header lst Compressed (length body) @ body, seq, lit)))"

definition split_at :: "'a list \<Rightarrow> nat \<Rightarrow> ('a list \<times> 'a list) result" where
  "split_at xs n = (if n \<le> length xs then Ok (take n xs, drop n xs) else Panic)"

text \<open>The bytes a sequence regenerates, and the first boundary at or behind half of \<open>n\<close>.\<close>

definition seq_span :: "enc_seq \<Rightarrow> nat" where
  "seq_span s = as_u32 (sq_lit_len s + sq_match_len s)"

fun split_index :: "nat \<Rightarrow> nat \<Rightarrow> nat \<Rightarrow> enc_seq list \<Rightarrow> nat" where
  "split_index n acc i [] = 0"
| "split_index n acc i (s # ss) = (if n \<le> acc * 2 then i else split_index n (acc + seq_span s) (i + 1) ss)"

fun emit_split ::
  "bool \<Rightarrow> enc_seq list \<Rightarrow> byte list \<Rightarrow> seq_ctables \<Rightarrow> code_table option \<Rightarrow> nat
     \<Rightarrow> (byte list \<times> seq_ctables \<times> code_table option) result" where
  "emit_split lst seqs literals prev_seq prev_lit 0 = emit_one lst seqs literals prev_seq prev_lit"
| "emit_split lst seqs literals prev_seq prev_lit (Suc depth) =
     obind (emit_one lst seqs literals prev_seq prev_lit) (\<lambda>(whole, whole_tables).
     let k = split_index (sum_list (map seq_span seqs)) 0 0 seqs in
     if length seqs < 2 \<or> k = 0 \<or> length seqs \<le> k then Ok (whole, whole_tables)
     else
       obind (split_at literals (sum_list (map sq_lit_len (take k seqs)))) (\<lambda>(lits_a, lits_b).
       obind (emit_split False (take k seqs) lits_a prev_seq prev_lit depth) (\<lambda>(buf_a, a_seq, a_lit).
       obind (emit_split lst (drop k seqs) lits_b a_seq a_lit depth) (\<lambda>(buf_b, b_tables).
       if length buf_a + length buf_b < length whole then Ok (buf_a @ buf_b, b_tables)
       else Ok (whole, whole_tables)))))"

text \<open>The smallest of the primary parse and its alternatives, the earlier one among equals.\<close>

fun pick_alts ::
  "bool \<Rightarrow> seq_ctables \<Rightarrow> code_table option \<Rightarrow> nat \<Rightarrow> parsed list \<Rightarrow> byte list \<times> enc_state
     \<Rightarrow> (byte list \<times> enc_state) result" where
  "pick_alts lst prev_seq prev_lit depth [] best = Ok best"
| "pick_alts lst prev_seq prev_lit depth (alt # alts) best =
     obind (emit_split lst (pa_seqs alt) (pa_literals alt) prev_seq prev_lit depth) (\<lambda>(buf_a, seq_a, lit_a).
     pick_alts lst prev_seq prev_lit depth alts
       (if length buf_a < length (fst best) then (buf_a, \<lparr>es_rep = pa_rep alt, es_seq = seq_a, es_lit = lit_a\<rparr>) else best))"

definition emit_and_pick ::
  "bool \<Rightarrow> parsed \<Rightarrow> seq_ctables \<Rightarrow> code_table option \<Rightarrow> nat \<Rightarrow> (byte list \<times> enc_state) result" where
  "emit_and_pick lst parsed prev_seq prev_lit depth =
     obind (emit_split lst (pa_seqs parsed) (pa_literals parsed) prev_seq prev_lit depth) (\<lambda>(buf, seq, lit).
     pick_alts lst prev_seq prev_lit depth (pa_alts parsed) (buf, \<lparr>es_rep = pa_rep parsed, es_seq = seq, es_lit = lit\<rparr>))"

section \<open>What sequences describe\<close>

text \<open>\<open>describes seqs lits rep out ys rep'\<close>: executed on the output \<open>out\<close> and the repeat offsets
  \<open>rep\<close>, they append \<open>ys\<close> and leave \<open>rep'\<close>.\<close>

definition describes :: "enc_seq list \<Rightarrow> byte list \<Rightarrow> rep_offsets \<Rightarrow> byte list \<Rightarrow> byte list \<Rightarrow> rep_offsets \<Rightarrow> bool" where
  "describes seqs lits rep out ys rep' \<longleftrightarrow> (\<forall>s \<in> set seqs. seq_valid s) \<and> length ys \<le> BLOCK_SIZE_MAX
     \<and> lz_run (map raw_of seqs) (length ys) lits out (rep_list rep) = Some (out @ ys, rep_list rep')"

lemma lz_run_room:
  assumes "lz_run ss rm lits out rs = Some (out @ ys, rs')" and "length ys \<le> room'"
  shows "lz_run ss room' lits out rs = Some (out @ ys, rs')"
  using lz_run_history [OF assms, of "[]"] by simp

lemma describes_small:
  assumes "describes seqs lits rep out ys rep'"
  shows "length lits < 2 ^ 20" and "length seqs < 0x7F00 + 2 ^ 16"
proof -
  have valid: "\<forall>s \<in> set seqs. seq_valid s" using assms by (simp add: describes_def)
  have len: "length ys = length lits + sum_list (map sq_match_len seqs)" "length ys \<le> 128 * 1024"
    using assms lz_run_appends [of "map raw_of seqs" "length ys" lits out "rep_list rep" "out @ ys" "rep_list rep'"]
    by (auto simp: describes_def BLOCK_SIZE_MAX_def raw_of_def comp_def)
  have "3 * length seqs \<le> sum_list (map sq_match_len seqs)"
    using valid by (induction seqs) (auto simp: seq_valid_def)
  then show "length lits < 2 ^ 20" "length seqs < 0x7F00 + 2 ^ 16" using len by simp_all
qed

text \<open>A run splits at a sequence boundary, the literals at the matching place.\<close>

lemma lz_run_split:
  assumes "lz_run (map raw_of (as @ bs)) rm lits out (rep_list rep) = Some (out', rs')"
    and "\<forall>s \<in> set as. seq_valid s" and "la = sum_list (map sq_lit_len as)"
  shows "la \<le> length lits \<and> (\<exists>ya rep1 room'. lz_run (map raw_of as) rm (take la lits) out (rep_list rep) = Some (out @ ya, rep_list rep1)
    \<and> lz_run (map raw_of bs) room' (drop la lits) (out @ ya) (rep_list rep1) = Some (out', rs'))"
  using assms
proof (induction as arbitrary: rm lits out rep la)
  case Nil
  then show ?case by (simp del: split_paired_Ex) blast
next
  case (Cons s as)
  have "1 \<le> sq_offset_value s" using Cons.prems(2) by (simp add: seq_valid_def)
  from resolve_offset_mtf [OF this, of rep "sq_lit_len s = 0"] obtain off rep1
    where mtf: "mtf_resolve (rep_list rep) (sq_offset_value s) (sq_lit_len s = 0) = (off, rep_list rep1)" by blast
  define mid where "mid = lz_copy (out @ take (sq_lit_len s) lits) off (sq_match_len s)"
  define room1 where "room1 = rm - (sq_lit_len s + sq_match_len s)"
  have run: "off \<noteq> 0" "sq_lit_len s + sq_match_len s \<le> rm" "sq_lit_len s \<le> length lits" "off \<le> length out + sq_lit_len s"
    "lz_run (map raw_of (as @ bs)) room1 (drop (sq_lit_len s) lits) mid (rep_list rep1) = Some (out', rs')"
    using Cons.prems(1) by (auto simp: raw_of_def [of s] mtf mid_def room1_def split: if_splits)
  let ?la = "sum_list (map sq_lit_len as)"
  have la: "la = sq_lit_len s + ?la" using Cons.prems(3) by simp
  obtain ya rep2 room' where ih: "?la \<le> length (drop (sq_lit_len s) lits)"
    "lz_run (map raw_of as) room1 (take ?la (drop (sq_lit_len s) lits)) mid (rep_list rep1) = Some (mid @ ya, rep_list rep2)"
    "lz_run (map raw_of bs) room' (drop ?la (drop (sq_lit_len s) lits)) (mid @ ya) (rep_list rep2) = Some (out', rs')"
    using Cons.IH [OF run(5) _ refl] Cons.prems(2) by auto
  obtain zs where zs: "mid = out @ take (sq_lit_len s) lits @ zs"
    using lz_copy_extends [of "out @ take (sq_lit_len s) lits" off "sq_match_len s"] by (auto simp: mid_def)
  have "lz_run (map raw_of (s # as)) rm (take la lits) out (rep_list rep) = Some (out @ (take (sq_lit_len s) lits @ zs @ ya), rep_list rep2)"
    using run(1-4) ih(1,2) zs by (simp add: raw_of_def [of s] mtf la min_absorb1 drop_take flip: mid_def room1_def)
  moreover have "la \<le> length lits" using ih(1) run(3) by (simp add: la)
  moreover have "lz_run (map raw_of bs) room' (drop la lits) (out @ (take (sq_lit_len s) lits @ zs @ ya)) (rep_list rep2) = Some (out', rs')"
    using ih(3) zs by (simp add: la add.commute)
  ultimately show ?case by blast
qed

lemma describes_split:
  assumes "describes (as @ bs) lits rep out ys rep'" and "la = sum_list (map sq_lit_len as)"
  shows "la \<le> length lits \<and> (\<exists>ya yb rep1. ys = ya @ yb \<and> describes as (take la lits) rep out ya rep1
    \<and> describes bs (drop la lits) rep1 (out @ ya) yb rep')"
proof -
  have d: "\<forall>s \<in> set as. seq_valid s" "\<forall>s \<in> set bs. seq_valid s" "length ys \<le> BLOCK_SIZE_MAX"
    "lz_run (map raw_of (as @ bs)) (length ys) lits out (rep_list rep) = Some (out @ ys, rep_list rep')"
    using assms(1) by (simp_all add: describes_def)
  from lz_run_split [OF d(4,1) assms(2)] obtain ya rep1 room'
    where la: "la \<le> length lits"
      and a: "lz_run (map raw_of as) (length ys) (take la lits) out (rep_list rep) = Some (out @ ya, rep_list rep1)"
      and b: "lz_run (map raw_of bs) room' (drop la lits) (out @ ya) (rep_list rep1) = Some (out @ ys, rep_list rep')"
    by blast
  obtain yb where yb: "ys = ya @ yb" using lz_run_appends [OF b] by auto
  have "lz_run (map raw_of as) (length ya) (take la lits) out (rep_list rep) = Some (out @ ya, rep_list rep1)"
    by (rule lz_run_room [OF a]) simp
  moreover have "lz_run (map raw_of bs) (length yb) (drop la lits) (out @ ya) (rep_list rep1) = Some ((out @ ya) @ yb, rep_list rep')"
    by (rule lz_run_room [of _ room']) (use b yb in simp_all)
  ultimately have "describes as (take la lits) rep out ya rep1 \<and> describes bs (drop la lits) rep1 (out @ ya) yb rep'"
    using yb d(1-3) by (simp add: describes_def)
  then show ?thesis using la yb by blast
qed

section \<open>What the decoder makes of the blocks\<close>

text \<open>A run of blocks from one state to another; the last header read has the flag \<open>lst\<close>.\<close>

inductive blocks_run :: "byte list \<Rightarrow> block_state \<Rightarrow> nat \<Rightarrow> block_state \<Rightarrow> nat \<Rightarrow> bool \<Rightarrow> bool" for src where
  one: "decode_block_at st src pos = Ok (st', pos', lst) \<Longrightarrow> blocks_run src st pos st' pos' lst"
| step: "decode_block_at st src pos = Ok (st1, pos1, False) \<Longrightarrow> blocks_run src st1 pos1 st' pos' lst \<Longrightarrow>
    blocks_run src st pos st' pos' lst"

lemma blocks_run_append:
  "blocks_run src st pos st1 pos1 lst1 \<Longrightarrow> \<not> lst1 \<Longrightarrow> blocks_run src st1 pos1 st' pos' lst \<Longrightarrow> blocks_run src st pos st' pos' lst"
  by (induction rule: blocks_run.induct) (auto intro: blocks_run.step)

lemma blocks_run_decodes: "blocks_run src st pos st' pos' lst \<Longrightarrow> lst \<Longrightarrow> decode_blocks src st pos = Ok (st', pos')"
  by (induction rule: blocks_run.induct) (subst decode_blocks.simps, simp)+

definition in_step :: "enc_state \<Rightarrow> block_state \<Rightarrow> bool" where
  "in_step e st \<longleftrightarrow> block_inv st \<and> bs_rep st = es_rep e \<and> seq_tables_match (es_seq e) (bs_seq st) \<and> lit_match (es_lit e) (bs_huff st)"

definition decoded :: "block_state \<Rightarrow> byte list \<Rightarrow> enc_state \<Rightarrow> block_state \<Rightarrow> bool" where
  "decoded st ys e st' \<longleftrightarrow> bs_out st' = bs_out st @ ys \<and> bs_dict_len st' = bs_dict_len st
     \<and> bs_max_output st' = bs_max_output st \<and> bs_block_max st' = bs_block_max st \<and> in_step e st'"

text \<open>Bytes that no longer than a stored block of the largest size decode to \<open>ys\<close>.\<close>

definition emits :: "byte list \<Rightarrow> bool \<Rightarrow> block_state \<Rightarrow> byte list \<Rightarrow> enc_state \<Rightarrow> bool" where
  "emits bytes lst st ys e \<longleftrightarrow> (\<forall>src pos rest. drop pos src = bytes @ rest \<longrightarrow> length src \<le> usize_max
     \<longrightarrow> length bytes \<le> 3 + bs_block_max st \<longrightarrow> (\<exists>st'. blocks_run src st pos st' (pos + length bytes) lst \<and> decoded st ys e st'))"

lemma emitsD:
  "emits bytes lst st ys e \<Longrightarrow> drop pos src = bytes @ rest \<Longrightarrow> length src \<le> usize_max \<Longrightarrow> length bytes \<le> 3 + bs_block_max st \<Longrightarrow>
    \<exists>st'. blocks_run src st pos st' (pos + length bytes) lst \<and> decoded st ys e st'"
  unfolding emits_def by blast

lemma emits_append:
  assumes a: "emits a False st ya e1" and b: "\<And>st1. decoded st ya e1 st1 \<Longrightarrow> emits b lst st1 yb e2"
  shows "emits (a @ b) lst st (ya @ yb) e2"
  unfolding emits_def
proof (intro allI impI)
  fix src pos rest
  assume here: "drop pos src = (a @ b) @ rest" and src: "length src \<le> usize_max" and len: "length (a @ b) \<le> 3 + bs_block_max st"
  obtain st1 where st1: "blocks_run src st pos st1 (pos + length a) False" "decoded st ya e1 st1"
    using emitsD [OF a, of pos src "b @ rest"] here src len by auto
  have "drop (pos + length a) src = b @ rest" by (rule drop_behind) (use here in simp)
  moreover have "length b \<le> 3 + bs_block_max st1" using len st1(2) by (simp add: decoded_def)
  ultimately obtain st2 where st2: "blocks_run src st1 (pos + length a) st2 (pos + length a + length b) lst" "decoded st1 yb e2 st2"
    using emitsD [OF b [OF st1(2)]] src by blast
  from blocks_run_append [OF st1(1) _ st2(1)] st1(2) st2(2)
  show "\<exists>st'. blocks_run src st pos st' (pos + length (a @ b)) lst \<and> decoded st (ya @ yb) e2 st'"
    by (auto simp: decoded_def add.assoc)
qed

text \<open>A body of a compressed block that decodes in the state \<open>st\<close>.\<close>

lemma decode_compressed_block:
  assumes "drop pos src = write_block_header lst Compressed (length body) @ body @ rest"
    and "length body \<le> bs_block_max st" and "length body < 2 ^ 21" and "length src \<le> usize_max"
    and "decode_compressed st body = Ok st'"
  shows "decode_block_at st src pos = Ok (st', pos + (3 + length body), lst)"
proof -
  have len: "length src = pos + 3 + length body + length rest" "pos \<le> length src"
    using arg_cong [OF assms(1), of length] by auto
  have data: "take (length body) (drop (pos + 3) src) = body"
    using drop_behind [of pos src "write_block_header lst Compressed (length body)" "body @ rest"] assms(1) by simp
  show ?thesis
    using assms(2-5) len data
    by (simp add: decode_block_at_def assms(1) read_write_block_header checked_add_def body_end_def)
qed

lemma decode_compressed_body:
  assumes lits: "\<forall>rest. literals_decode (sec @ rest) (bs_huff st) = Ok (lits, length sec, cache')" "lit_match lit cache'"
    and seqs: "section_reads sqs seqs (bs_seq st)" "seq_tables_match seq (section_tables sqs (bs_seq st))"
    and inv: "block_inv st" and fit: "fits st (length ys)"
    and run: "lz_run (map raw_of seqs) (length ys) lits (bs_out st) (rep_list (bs_rep st)) = Some (bs_out st @ ys, rep_list rep')"
  shows "\<exists>st'. decode_compressed st (sec @ sqs) = Ok st' \<and> decoded st ys \<lparr>es_rep = rep', es_seq = seq, es_lit = lit\<rparr> st'"
proof -
  define n where "n = length (bs_out st) - bs_dict_len st"
  define cap where "cap = min (bs_max_output st) (saturating_add n (bs_block_max st))"
  have st: "bs_dict_len st \<le> length (bs_out st)" "seq_tables_ok (bs_seq st)" using inv by (simp_all add: block_inv_def)
  have "length ys \<le> cap - n" using fit by (auto simp: fits_def cap_def n_def saturating_add_def)
  then have ref: "section_reference sqs lits (bs_out st) (bs_seq st) (bs_rep st) (cap - n) = Some (bs_out st @ ys, rep_list rep')"
    unfolding section_readsD [OF seqs(1)] by (rule lz_run_room [OF run])
  note agree = decode_capped_agrees [OF st, of sqs lits "bs_rep st" cap, folded n_def, unfolded ref]
  obtain ts' where cap: "decode_capped sqs lits (bs_out st) (bs_seq st) (bs_rep st) (bs_dict_len st) cap = Ok (bs_out st @ ys, ts', rep')"
      "ts' = section_tables sqs (bs_seq st)"
    using agree by (cases "decode_capped sqs lits (bs_out st) (bs_seq st) (bs_rep st) (bs_dict_len st) cap") (auto dest: rep_list_inj)
  define st' where "st' = st\<lparr>bs_out := bs_out st @ ys, bs_huff := cache', bs_seq := ts', bs_rep := rep'\<rparr>"
  have dec: "decode_compressed st (sec @ sqs) = Ok st'"
    using lits(1) st(1) cap(1) by (simp add: decode_compressed_def output_len_def Let_def st'_def n_def cap_def)
  moreover have "block_inv st'" using post_OkD [OF decode_compressed_post [OF inv] dec] by blast
  ultimately show ?thesis using lits(2) seqs(2) cap(2) by (auto simp: decoded_def in_step_def st'_def)
qed

text \<open>Some decoder state is in step with the tables: the encoder can go on with them.\<close>

definition matched :: "seq_ctables \<Rightarrow> code_table option \<Rightarrow> bool" where
  "matched seq lit \<longleftrightarrow> (\<exists>ts. seq_tables_match seq ts) \<and> (\<exists>cache. lit_match lit cache)"

definition emission ::
  "(byte list \<times> seq_ctables \<times> code_table option) result \<Rightarrow> bool \<Rightarrow> enc_state \<Rightarrow> byte list \<Rightarrow> byte list \<Rightarrow> rep_offsets \<Rightarrow> bool" where
  "emission m lst e out ys rep' \<longleftrightarrow> (\<exists>bytes seq lit. m = Ok (bytes, seq, lit) \<and> matched seq lit
     \<and> (\<forall>st. in_step e st \<longrightarrow> bs_out st = out \<longrightarrow> fits st (length ys) \<longrightarrow> bs_block_max st \<le> BLOCK_SIZE_MAX
          \<longrightarrow> emits bytes lst st ys \<lparr>es_rep = rep', es_seq = seq, es_lit = lit\<rparr>))"

lemma emit_one_emission:
  assumes desc: "describes seqs lits rep out ys rep'" and m: "matched seq lit"
  shows "emission (emit_one lst seqs lits seq lit) lst \<lparr>es_rep = rep, es_seq = seq, es_lit = lit\<rparr> out ys rep'"
proof -
  have valid: "\<And>s. s \<in> set seqs \<Longrightarrow> seq_valid s" using desc by (simp add: describes_def)
  note small = describes_small [OF desc]
  obtain ts cache where tc: "seq_tables_match seq ts" "lit_match lit cache" using m by (auto simp: matched_def)
  obtain sec lit' where sec: "write_literals_auto lits lit = Ok (sec, lit')" "lit_decodes lits cache sec lit'"
    using write_literals_auto_spec [OF small(1) tc(2)] by blast
  have ws: "post (write_sequences seqs seq) (\<lambda>(bytes, cts). section_reads bytes seqs ts \<and> seq_tables_match cts (section_tables bytes ts)) (\<lambda>_. False)"
    if "seq_tables_match seq ts" for ts
    by (rule post_mono [OF write_sequences_reads [OF valid small(2) that]]) auto
  obtain sqs seq' where sqs: "write_sequences seqs seq = Ok (sqs, seq')" "seq_tables_match seq' (section_tables sqs ts)"
    using ws [OF tc(1)] by (cases "write_sequences seqs seq") auto
  define body where "body = sec @ sqs"
  have run: "emit_one lst seqs lits seq lit = Ok (write_block_header lst Compressed (length body) @ body, seq', lit')"
    by (simp add: emit_one_def sec(1) sqs(1) body_def)
  have "emits (write_block_header lst Compressed (length body) @ body) lst st ys \<lparr>es_rep = rep', es_seq = seq', es_lit = lit'\<rparr>"
    if st: "in_step \<lparr>es_rep = rep, es_seq = seq, es_lit = lit\<rparr> st" "bs_out st = out" "fits st (length ys)" "bs_block_max st \<le> BLOCK_SIZE_MAX" for st
  proof -
    have s: "block_inv st" "bs_rep st = rep" "seq_tables_match seq (bs_seq st)" "lit_match lit (bs_huff st)"
      using st(1) by (simp_all add: in_step_def)
    obtain cache' where c: "\<forall>rest. literals_decode (sec @ rest) (bs_huff st) = Ok (lits, length sec, cache')" "lit_match lit' cache'"
      using write_literals_auto_spec [OF small(1) s(4)] sec(1) by (auto simp: lit_decodes_def)
    have q: "section_reads sqs seqs (bs_seq st)" "seq_tables_match seq' (section_tables sqs (bs_seq st))"
      using ws [OF s(3)] sqs(1) by simp_all
    have "lz_run (map raw_of seqs) (length ys) lits (bs_out st) (rep_list (bs_rep st)) = Some (bs_out st @ ys, rep_list rep')"
      using desc st(2) s(2) by (simp add: describes_def)
    from decode_compressed_body [OF c q s(1) st(3) this] obtain st'
      where dec: "decode_compressed st body = Ok st'" "decoded st ys \<lparr>es_rep = rep', es_seq = seq', es_lit = lit'\<rparr> st'"
      unfolding body_def by blast
    have "blocks_run src st pos st' (pos + (3 + length body)) lst"
      if "drop pos src = write_block_header lst Compressed (length body) @ body @ rest" "length src \<le> usize_max" "length body \<le> bs_block_max st"
      for src pos rest
      by (rule blocks_run.one, rule decode_compressed_block [OF that(1) that(3) _ that(2) dec(1)])
        (use that(3) st(4) in \<open>simp add: BLOCK_SIZE_MAX_def\<close>)
    then show ?thesis using dec(2) unfolding emits_def by fastforce
  qed
  then show ?thesis using run sqs(2) sec(2) unfolding emission_def matched_def lit_decodes_def by blast
qed

lemma fits_less: "fits st n \<Longrightarrow> m \<le> n \<Longrightarrow> fits st m"
  by (auto simp: fits_def)

lemma fits_after: "fits st (length (ya @ yb)) \<Longrightarrow> decoded st ya e st1 \<Longrightarrow> fits st1 (length yb)"
  by (auto simp: fits_def decoded_def)

lemma emission_append:
  assumes a: "emission ma False e out ya rep1" "ma = Ok (buf_a, a_seq, a_lit)"
    and b: "emission mb lst \<lparr>es_rep = rep1, es_seq = a_seq, es_lit = a_lit\<rparr> (out @ ya) yb rep'" "mb = Ok (buf_b, b_seq, b_lit)"
  shows "emission (Ok (buf_a @ buf_b, b_seq, b_lit)) lst e out (ya @ yb) rep'"
proof -
  let ?e1 = "\<lparr>es_rep = rep1, es_seq = a_seq, es_lit = a_lit\<rparr>" and ?e2 = "\<lparr>es_rep = rep', es_seq = b_seq, es_lit = b_lit\<rparr>"
  have A: "emits buf_a False st ya ?e1"
    if "in_step e st" "bs_out st = out" "fits st (length ya)" "bs_block_max st \<le> BLOCK_SIZE_MAX" for st
    using a that by (auto simp: emission_def)
  have B: "emits buf_b lst st yb ?e2" "matched b_seq b_lit"
    if "in_step ?e1 st" "bs_out st = out @ ya" "fits st (length yb)" "bs_block_max st \<le> BLOCK_SIZE_MAX" for st
    using b that by (auto simp: emission_def)
  have "emits (buf_a @ buf_b) lst st (ya @ yb) ?e2"
    if st: "in_step e st" "bs_out st = out" "fits st (length (ya @ yb))" "bs_block_max st \<le> BLOCK_SIZE_MAX" for st
  proof (rule emits_append [OF A])
    show "fits st (length ya)" using fits_less [OF st(3)] by simp
    fix st1 assume d: "decoded st ya ?e1 st1"
    show "emits buf_b lst st1 yb ?e2"
      by (rule B) (use d st fits_after [OF st(3) d] in \<open>simp_all add: decoded_def\<close>)
  qed (use st in simp_all)
  moreover have "matched b_seq b_lit" using b by (simp add: emission_def)
  ultimately show ?thesis by (simp add: emission_def)
qed

lemma emission_OkD: "emission m lst e out ys rep' \<Longrightarrow> \<exists>bytes seq lit. m = Ok (bytes, seq, lit) \<and> matched seq lit"
  by (auto simp: emission_def)

lemma emit_split_emission:
  assumes "describes seqs lits rep out ys rep'" and "matched seq lit"
  shows "emission (emit_split lst seqs lits seq lit depth) lst \<lparr>es_rep = rep, es_seq = seq, es_lit = lit\<rparr> out ys rep'"
  using assms
proof (induction depth arbitrary: lst seqs lits rep out ys rep' seq lit)
  case 0
  then show ?case by (simp add: emit_one_emission)
next
  case (Suc depth)
  define k where "k = split_index (sum_list (map seq_span seqs)) 0 0 seqs"
  define la where "la = sum_list (map sq_lit_len (take k seqs))"
  note whole = emit_one_emission [OF Suc.prems, of lst]
  obtain buf_w w_seq w_lit where w: "emit_one lst seqs lits seq lit = Ok (buf_w, w_seq, w_lit)"
    using emission_OkD [OF whole] by blast
  show ?case
  proof (cases "length seqs < 2 \<or> k = 0 \<or> length seqs \<le> k")
    case True
    then show ?thesis using whole by (simp add: w Let_def flip: k_def)
  next
    case False
    have "describes (take k seqs @ drop k seqs) lits rep out ys rep'" using Suc.prems(1) by simp
    from describes_split [OF this la_def] obtain ya yb rep1 where la: "la \<le> length lits" and ys: "ys = ya @ yb"
      and da: "describes (take k seqs) (take la lits) rep out ya rep1"
      and db: "describes (drop k seqs) (drop la lits) rep1 (out @ ya) yb rep'" by blast
    note ea = Suc.IH [OF da Suc.prems(2), of False]
    obtain buf_a a_seq a_lit where a: "emit_split False (take k seqs) (take la lits) seq lit depth = Ok (buf_a, a_seq, a_lit)"
      "matched a_seq a_lit" using emission_OkD [OF ea] by blast
    note eb = Suc.IH [OF db a(2), of lst]
    obtain buf_b b_seq b_lit where b: "emit_split lst (drop k seqs) (drop la lits) a_seq a_lit depth = Ok (buf_b, b_seq, b_lit)"
      using emission_OkD [OF eb] by blast
    have "emit_split lst seqs lits seq lit (Suc depth)
        = Ok (if length buf_a + length buf_b < length buf_w then (buf_a @ buf_b, b_seq, b_lit) else (buf_w, w_seq, w_lit))"
      using False la by (simp add: w Let_def split_at_def a(1) b flip: k_def la_def)
    then show ?thesis using whole emission_append [OF ea a(1) eb b] by (auto simp: w ys)
  qed
qed

text \<open>The choice among the parses.\<close>

fun parse_ok :: "rep_offsets \<Rightarrow> byte list \<Rightarrow> byte list \<Rightarrow> parsed \<Rightarrow> bool" where
  "parse_ok rep out ys (Parsed seqs lits rep' alts) \<longleftrightarrow>
     describes seqs lits rep out ys rep' \<and> (\<forall>alt \<in> set alts. describes (pa_seqs alt) (pa_literals alt) rep out ys (pa_rep alt))"

lemma pick_alts_emission:
  assumes "\<forall>alt \<in> set alts. describes (pa_seqs alt) (pa_literals alt) rep out ys (pa_rep alt)" and "matched seq lit"
    and "emission (Ok (fst best, es_seq (snd best), es_lit (snd best))) lst \<lparr>es_rep = rep, es_seq = seq, es_lit = lit\<rparr> out ys (es_rep (snd best))"
  shows "\<exists>bytes e'. pick_alts lst seq lit depth alts best = Ok (bytes, e') \<and> length bytes \<le> length (fst best)
    \<and> emission (Ok (bytes, es_seq e', es_lit e')) lst \<lparr>es_rep = rep, es_seq = seq, es_lit = lit\<rparr> out ys (es_rep e')"
  using assms(1,3)
proof (induction alts arbitrary: best)
  case Nil
  then show ?case by (cases best) simp
next
  case (Cons alt alts)
  have d: "describes (pa_seqs alt) (pa_literals alt) rep out ys (pa_rep alt)" using Cons.prems(1) by simp
  note e = emit_split_emission [OF d assms(2), of lst depth]
  obtain buf s l where a: "emit_split lst (pa_seqs alt) (pa_literals alt) seq lit depth = Ok (buf, s, l)"
    using emission_OkD [OF e] by blast
  let ?best = "if length buf < length (fst best) then (buf, \<lparr>es_rep = pa_rep alt, es_seq = s, es_lit = l\<rparr>) else best"
  have "emission (Ok (fst ?best, es_seq (snd ?best), es_lit (snd ?best))) lst \<lparr>es_rep = rep, es_seq = seq, es_lit = lit\<rparr> out ys (es_rep (snd ?best))"
    using Cons.prems(2) e by (simp add: a)
  from Cons.IH [OF _ this] Cons.prems(1) obtain bytes e' where r: "pick_alts lst seq lit depth alts ?best = Ok (bytes, e')"
    "length bytes \<le> length (fst ?best)"
    "emission (Ok (bytes, es_seq e', es_lit e')) lst \<lparr>es_rep = rep, es_seq = seq, es_lit = lit\<rparr> out ys (es_rep e')" by auto
  have "length (fst ?best) \<le> length (fst best)" by simp
  then have "length bytes \<le> length (fst best)" using r(2) by (rule order.trans [rotated])
  then show ?case using r(1,3) by (simp add: a)
qed

lemma emit_and_pick_emission:
  assumes "parse_ok (es_rep e) out ys p" and "matched (es_seq e) (es_lit e)"
  shows "\<exists>bytes e'. emit_and_pick lst p (es_seq e) (es_lit e) depth = Ok (bytes, e')
    \<and> emission (Ok (bytes, es_seq e', es_lit e')) lst e out ys (es_rep e')"
proof -
  obtain seqs lits rep' alts where p: "p = Parsed seqs lits rep' alts" by (cases p)
  have d: "describes seqs lits (es_rep e) out ys rep'"
    "\<forall>alt \<in> set alts. describes (pa_seqs alt) (pa_literals alt) (es_rep e) out ys (pa_rep alt)"
    using assms(1) by (simp_all add: p)
  note em = emit_split_emission [OF d(1) assms(2), of lst depth]
  obtain buf s l where w: "emit_split lst seqs lits (es_seq e) (es_lit e) depth = Ok (buf, s, l)"
    using emission_OkD [OF em] by blast
  have eq: "\<lparr>es_rep = es_rep e, es_seq = es_seq e, es_lit = es_lit e\<rparr> = e" by (cases e) simp
  have "\<exists>bytes e'. pick_alts lst (es_seq e) (es_lit e) depth alts (buf, \<lparr>es_rep = rep', es_seq = s, es_lit = l\<rparr>) = Ok (bytes, e')
      \<and> emission (Ok (bytes, es_seq e', es_lit e')) lst e out ys (es_rep e')"
    using pick_alts_emission [OF d(2) assms(2), of "(buf, \<lparr>es_rep = rep', es_seq = s, es_lit = l\<rparr>)" lst depth] em
    unfolding eq w by auto
  then show ?thesis by (simp add: emit_and_pick_def p w)
qed

lemma emissionD:
  assumes "emission (Ok (bytes, es_seq e', es_lit e')) lst e out ys (es_rep e')"
    and "in_step e st" and "bs_out st = out" and "fits st (length ys)" and "bs_block_max st \<le> BLOCK_SIZE_MAX"
  shows "emits bytes lst st ys e'"
  using assms by (cases e') (auto simp: emission_def)

section \<open>Properties\<close>

text \<open>C6: compressed blocks are lossless. Where each parse of a block (the primary and every
  alternative) describes the bytes \<open>ys\<close> after the output so far, the encoder does not fail; whichever
  parse it picks and however it splits it into blocks, the decoder in step with it appends exactly \<open>ys\<close>
  when what it reads starts with the emitted bytes, stops behind them, and is in step with the state
  the encoder returns. (The bound on the length is the block limit, which the frame encoder enforces
  by storing a block that does not shrink.)\<close>

theorem compressed_blocks_roundtrip:
  assumes "parse_ok (es_rep e) (bs_out st) ys p" and "in_step e st" and "fits st (length ys)" and "bs_block_max st \<le> BLOCK_SIZE_MAX"
  shows "\<exists>bytes e'. emit_and_pick True p (es_seq e) (es_lit e) depth = Ok (bytes, e')
    \<and> (\<forall>src pos rest. drop pos src = bytes @ rest \<longrightarrow> length src \<le> usize_max \<longrightarrow> length bytes \<le> 3 + bs_block_max st
        \<longrightarrow> (\<exists>st'. decode_blocks src st pos = Ok (st', pos + length bytes) \<and> bs_out st' = bs_out st @ ys \<and> in_step e' st'))"
proof -
  have "matched (es_seq e) (es_lit e)" using assms(2) by (auto simp: in_step_def matched_def)
  from emit_and_pick_emission [OF assms(1) this, of True depth] obtain bytes e'
    where b: "emit_and_pick True p (es_seq e) (es_lit e) depth = Ok (bytes, e')"
      "emission (Ok (bytes, es_seq e', es_lit e')) True e (bs_out st) ys (es_rep e')" by blast
  have "emits bytes True st ys e'" by (rule emissionD [OF b(2) assms(2) refl assms(3,4)])
  then show ?thesis using b(1) unfolding emits_def decoded_def by (metis blocks_run_decodes)
qed

text \<open>Three literals, then a match of six bytes at the distance two.\<close>

theorem compressed_blocks_roundtrip_witness:
  "\<exists>bytes e'. emit_and_pick True (Parsed [\<lparr>sq_lit_len = 3, sq_match_len = 6, sq_offset_value = 5\<rparr>] [7, 8, 9, 4] (2, 1, 4) [])
      default_seq_ctables None 4 = Ok (bytes, e')
    \<and> (\<forall>src pos rest. drop pos src = bytes @ rest \<longrightarrow> length src \<le> usize_max \<longrightarrow> length bytes \<le> 3 + 1024
        \<longrightarrow> (\<exists>st'. decode_blocks src (initial_state 100 1024) pos = Ok (st', pos + length bytes)
              \<and> bs_out st' = [] @ [7, 8, 9, 8, 9, 8, 9, 8, 9, 4] \<and> in_step e' st'))"
proof -
  let ?e = "\<lparr>es_rep = (1, 4, 8), es_seq = default_seq_ctables, es_lit = None\<rparr>" and ?st = "initial_state 100 1024"
  let ?p = "Parsed [\<lparr>sq_lit_len = 3, sq_match_len = 6, sq_offset_value = 5\<rparr>] [7, 8, 9, 4] (2, 1, 4) []"
  have "lz_run (map raw_of (pa_seqs ?p)) (length [7, 8, 9, 8, 9, 8, 9, 8, 9, 4 :: byte]) [7, 8, 9, 4] [] (rep_list (1, 4, 8)) = Some ([7, 8, 9, 8, 9, 8, 9, 8, 9, 4], rep_list (2, 1, 4))"
    by (simp add: raw_of_def mtf_resolve_def rep_list_def Let_def eval_nat_numeral)
  then have "parse_ok (es_rep ?e) (bs_out ?st) [7, 8, 9, 8, 9, 8, 9, 8, 9, 4] ?p"
    by (simp add: describes_def seq_valid_def BLOCK_SIZE_MAX_def initial_state_def)
  moreover have "in_step ?e ?st"
    by (simp add: in_step_def initial_state_def block_inv_def lit_match_def seq_tables_match_default seq_tables_ok_def default_seq_tables_def)
  moreover have "fits ?st (length [7, 8, 9, 8, 9, 8, 9, 8, 9, 4 :: byte])" "bs_block_max ?st \<le> BLOCK_SIZE_MAX"
    by (simp_all add: fits_def initial_state_def usize_max_def BLOCK_SIZE_MAX_def)
  ultimately show ?thesis
    using compressed_blocks_roundtrip [of ?e ?st "[7, 8, 9, 8, 9, 8, 9, 8, 9, 4]" ?p 4]
    by (simp add: initial_state_def)
qed

end
