(* ===== verification/Lz.thy ===== *)
theory Lz
  imports Block_Encode
begin

text \<open>
  \<^verbatim>\<open>src/encode/lz.rs\<close>, what the match finders share: reading and hashing positions, the length of a
  common prefix, the choice of an offset value, the repeat-offset match, and the step that emits a
  sequence. A match is a fact about the data (\<open>is_match\<close>), not about the table it came from; the
  invariant of a parse (\<open>parsed_to\<close>) says that the sequences and literals so far describe the block up
  to the anchor.
\<close>

unbundle bit_operations_syntax

section \<open>Loops over positions\<close>

fun ofold :: "('i \<Rightarrow> 's \<Rightarrow> 's result) \<Rightarrow> 'i list \<Rightarrow> 's \<Rightarrow> 's result" where
  "ofold f [] s = Ok s"
| "ofold f (i # is) s = obind (f i s) (ofold f is)"

lemma ofold_upt:
  assumes "P a s" and "a \<le> b" and "\<And>i s. a \<le> i \<Longrightarrow> i < b \<Longrightarrow> P i s \<Longrightarrow> \<exists>s'. f i s = Ok s' \<and> P (Suc i) s'"
  shows "\<exists>s'. ofold f [a..<b] s = Ok s' \<and> P b s'"
  using assms
proof (induction "b - a" arbitrary: a s)
  case 0
  then show ?case by simp
next
  case (Suc n)
  then have ab: "a < b" by simp
  obtain s1 where s1: "f a s = Ok s1" "P (Suc a) s1" using Suc.prems(3) [OF order.refl ab Suc.prems(1)] by blast
  have "\<exists>s'. ofold f [Suc a..<b] s1 = Ok s' \<and> P b s'"
    by (rule Suc.hyps(1)) (use Suc.hyps(2) Suc.prems(3) s1(2) ab in auto)
  then show ?case using s1(1) ab by (simp add: upt_conv_Cons)
qed

section \<open>Constants and words\<close>

definition MIN_MATCH :: nat where "MIN_MATCH = 4"
definition MIN_HASH_LOG :: nat where "MIN_HASH_LOG = 6"
definition MAX_HASH_LOG :: nat where "MAX_HASH_LOG = 22"
definition MAX_BT_LOG :: nat where "MAX_BT_LOG = 23"

definition clamp_to :: "nat \<Rightarrow> nat \<Rightarrow> nat \<Rightarrow> nat" where
  "clamp_to lo hi n = max lo (min hi n)"

text \<open>The cast \<open>as i32\<close> of a position.\<close>

definition as_i32 :: "nat \<Rightarrow> int" where
  "as_i32 n = (int n + 2 ^ 31) mod 2 ^ 32 - 2 ^ 31"

definition read_u32 :: "byte list \<Rightarrow> nat \<Rightarrow> u32 result" where
  "read_u32 data p = obind (slice_range data p (p + 4)) (\<lambda>bs. Ok (from_le_bytes bs))"

definition read_u64 :: "byte list \<Rightarrow> nat \<Rightarrow> u64 result" where
  "read_u64 data p = obind (slice_range data p (p + 8)) (\<lambda>bs. Ok (from_le_bytes bs))"

definition hash4 :: "u32 \<Rightarrow> nat \<Rightarrow> nat" where
  "hash4 v hash_log = unat (drop_bit (32 - hash_log) (v * 2654435761))"

definition hash8 :: "u64 \<Rightarrow> nat \<Rightarrow> nat" where
  "hash8 v hash_log = unat (drop_bit (64 - hash_log) (v * 0x9E3779B185EBCA87))"

definition hash_pos :: "byte list \<Rightarrow> nat \<Rightarrow> nat \<Rightarrow> nat \<Rightarrow> nat result" where
  "hash_pos data pos hash_log mls =
     (if 5 \<le> mls \<and> pos + 8 \<le> length data then
        obind (read_u64 data pos) (\<lambda>u.
        let (shift, prime) = (if mls = 5 then (24, 889523592379) else (16, 227718039650203)) in
        Ok (unat (drop_bit (64 - hash_log) (push_bit shift u * prime))))
      else obind (read_u32 data pos) (\<lambda>v. Ok (hash4 v hash_log)))"

text \<open>The two loops of \<open>common_len\<close>: eight bytes at a time, until the words differ, then single bytes.\<close>

definition trailing_zeros64 :: "u64 \<Rightarrow> nat" where
  "trailing_zeros64 x = length (takeWhile (\<lambda>i. \<not> bit x i) [0..<64])"

function common_words :: "byte list \<Rightarrow> nat \<Rightarrow> nat \<Rightarrow> nat \<Rightarrow> nat \<Rightarrow> (nat \<times> bool) result" where
  "common_words data a b mx i =
     (if i + 8 \<le> mx then
        obind (read_u64 data (a + i)) (\<lambda>x.
        obind (read_u64 data (b + i)) (\<lambda>y.
        if x XOR y \<noteq> 0 then Ok (i + trailing_zeros64 (x XOR y) div 8, True)
        else common_words data a b mx (i + 8)))
      else Ok (i, False))"
  by pat_completeness auto
termination by (relation "measure (\<lambda>(data, a, b, mx, i). mx - i)") auto

function common_bytes :: "byte list \<Rightarrow> nat \<Rightarrow> nat \<Rightarrow> nat \<Rightarrow> nat \<Rightarrow> nat result" where
  "common_bytes data a b mx i =
     (if i < mx then
        obind (idx data (a + i)) (\<lambda>x.
        obind (idx data (b + i)) (\<lambda>y.
        if x = y then common_bytes data a b mx (i + 1) else Ok i))
      else Ok i)"
  by pat_completeness auto
termination by (relation "measure (\<lambda>(data, a, b, mx, i). mx - i)") auto

declare common_words.simps [simp del] common_bytes.simps [simp del]

definition common_len :: "byte list \<Rightarrow> nat \<Rightarrow> nat \<Rightarrow> nat \<Rightarrow> nat result" where
  "common_len data a b e =
     obind (usub e b) (\<lambda>mx.
     obind (common_words data a b mx 0) (\<lambda>(i, found).
     if found then Ok i else common_bytes data a b mx i))"

section \<open>Offsets\<close>

text \<open>The loop over the repeat codes, then the literal form.\<close>

fun probe_codes :: "rep_offsets \<Rightarrow> nat \<Rightarrow> bool \<Rightarrow> nat list \<Rightarrow> nat result" where
  "probe_codes rep off ll0 [] = Ok (off + 3)"
| "probe_codes rep off ll0 (ov # ovs) =
     obind (resolve_offset rep ov ll0) (\<lambda>(o', _). if o' = off then Ok ov else probe_codes rep off ll0 ovs)"

definition encode_offset :: "rep_offsets \<Rightarrow> nat \<Rightarrow> bool \<Rightarrow> nat result" where
  "encode_offset rep off ll0 = probe_codes rep off ll0 [1, 2, 3]"

definition rep_resolved_offset :: "rep_offsets \<Rightarrow> nat \<Rightarrow> bool \<Rightarrow> nat result" where
  "rep_resolved_offset rep offset_value ll0 =
     (let (r0, r1, r2) = rep in
      obind (usub offset_value 1) (\<lambda>v.
      let rep_code = v + of_bool ll0 in
      if rep_code = 0 then Ok r0 else if rep_code = 3 then Ok (r0 - 1)
      else if rep_code = 1 then Ok r1 else if rep_code = 2 then Ok r2 else Panic))"

definition rep_match_at :: "byte list \<Rightarrow> nat \<Rightarrow> nat \<Rightarrow> rep_offsets \<Rightarrow> bool \<Rightarrow> (nat \<times> nat) result" where
  "rep_match_at data p e rep ll0 =
     obind (rep_resolved_offset rep 1 ll0) (\<lambda>off.
     if off = 0 \<or> p < off then Ok (0, 0)
     else
       obind (common_len data (p - off) p e) (\<lambda>n.
       Ok (if MIN_MATCH \<le> n then (n, off) else (0, 0))))"

definition offset_bits :: "rep_offsets \<Rightarrow> nat \<Rightarrow> bool \<Rightarrow> nat result" where
  "offset_bits rep moff ll0 = obind (encode_offset rep (as_u32 moff) ll0) of_code"

section \<open>Sliding\<close>

definition reduce_index_entry :: "nat \<Rightarrow> int \<Rightarrow> int" where
  "reduce_index_entry n entry =
     (if entry < 0 then entry
      else if n \<le> nat entry then as_i32 (nat entry - n) else - 1)"

definition reduce_index_table :: "nat \<Rightarrow> int list \<Rightarrow> int list" where
  "reduce_index_table n table = map (reduce_index_entry n) table"

section \<open>Emitting a sequence\<close>

text \<open>The sequences, the literals and the repeat offsets of a parse so far.\<close>

type_synonym lz_out = "enc_seq list \<times> byte list \<times> rep_offsets"

definition push_seq :: "byte list \<Rightarrow> nat \<Rightarrow> nat \<Rightarrow> nat \<Rightarrow> nat \<Rightarrow> lz_out \<Rightarrow> lz_out result" where
  "push_seq data anchor p ml off acc =
     (let (seqs, literals, rep) = acc in
      obind (usub p anchor) (\<lambda>lit_len.
      obind (slice_range data anchor p) (\<lambda>lits.
      let ll0 = (lit_len = 0) in
      obind (encode_offset rep (as_u32 off) ll0) (\<lambda>offset_value.
      obind (resolve_offset rep offset_value ll0) (\<lambda>(_, rep).
      Ok (seqs @ [\<lparr>sq_lit_len = as_u32 lit_len, sq_match_len = as_u32 ml, sq_offset_value = offset_value\<rparr>],
          literals @ lits, rep))))))"

definition push_tail :: "byte list \<Rightarrow> nat \<Rightarrow> nat \<Rightarrow> lz_out \<Rightarrow> lz_out result" where
  "push_tail data anchor e acc =
     (let (seqs, literals, rep) = acc in
      obind (slice_range data anchor e) (\<lambda>lits. Ok (seqs, literals @ lits, rep)))"

section \<open>Casts and hashes\<close>

lemma as_i32_le: "as_i32 n \<le> int n"
proof -
  have "(int n + 2 ^ 31) mod 2 ^ 32 \<le> int n + 2 ^ 31" by (rule zmod_le_nonneg_dividend) simp
  then show ?thesis by (simp add: as_i32_def)
qed

lemma reduce_index_entry_less: "e < int p \<Longrightarrow> n \<le> p \<Longrightarrow> reduce_index_entry n e < int (p - n)"
  using as_i32_le [of "nat e - n"] by (auto simp: reduce_index_entry_def)

lemma length_reduce_index [simp]: "length (reduce_index_table n table) = length table"
  by (simp add: reduce_index_table_def)

lemma reduce_index_table_less:
  "\<forall>c \<in> set table. c < int p \<Longrightarrow> n \<le> p \<Longrightarrow> \<forall>c \<in> set (reduce_index_table n table). c < int (p - n)"
  using reduce_index_entry_less by (auto simp: reduce_index_table_def simp del: of_nat_diff)

lemma unat_drop_bit_less:
  assumes "n \<le> LENGTH('a)"
  shows "unat (drop_bit (LENGTH('a) - n) (w :: 'a::len word)) < 2 ^ n"
proof -
  have "unat w < 2 ^ (n + (LENGTH('a) - n))" using unsigned_less [of w] assms by simp
  then have "unat w div 2 ^ (LENGTH('a) - n) < 2 ^ n" by (simp add: power_add less_mult_imp_div_less)
  then show ?thesis by (simp only: unat_drop_bit_eq drop_bit_eq_div [of _ "unat w"])
qed

lemma hash4_less: "hash_log \<le> 32 \<Longrightarrow> hash4 v hash_log < 2 ^ hash_log"
  using unat_drop_bit_less [of hash_log "v * 2654435761"] by (simp add: hash4_def)

lemma hash8_less: "hash_log \<le> 64 \<Longrightarrow> hash8 v hash_log < 2 ^ hash_log"
  using unat_drop_bit_less [of hash_log "v * 0x9E3779B185EBCA87"] by (simp add: hash8_def)

lemma read_u32_Ok: "p + 4 \<le> length data \<Longrightarrow> read_u32 data p = Ok (from_le_bytes (take 4 (drop p data)))"
  by (simp add: read_u32_def)

lemma read_u64_Ok: "p + 8 \<le> length data \<Longrightarrow> read_u64 data p = Ok (from_le_bytes (take 8 (drop p data)))"
  by (simp add: read_u64_def)

lemma hash_pos_Ok:
  assumes "p + 4 \<le> length data" and "hash_log \<le> 32"
  shows "\<exists>h. hash_pos data p hash_log mls = Ok h \<and> h < 2 ^ hash_log"
proof -
  have "unat (drop_bit (64 - hash_log) (w :: u64)) < 2 ^ hash_log" for w
    using unat_drop_bit_less [of hash_log w] assms(2) by simp
  then show ?thesis using assms hash4_less
    by (simp add: hash_pos_def read_u32_Ok read_u64_Ok)
qed

section \<open>The common prefix\<close>

lemma unat_bit: "bit (unat w) m \<longleftrightarrow> bit w m" for w :: "'a::len word"
  by (simp add: bit_unsigned_iff)

lemma bit_of_byte:
  assumes "length bs = 8" and "n < 64"
  shows "bit (from_le_bytes bs :: u64) n \<longleftrightarrow> bit (bs ! (n div 8)) (n mod 8)"
proof -
  define j r where "j = n div 8" and "r = n mod 8"
  have n: "n = 8 * j + r" "r < 8" "j < 8" using assms(2) by (auto simp: j_def r_def)
  have "drop j bs = bs ! j # drop (Suc j) bs" using assms(1) n(3) by (simp add: Cons_nth_drop_Suc)
  then have eq: "le_val bs div 256 ^ j = unat (bs ! j) + 256 * le_val (drop (Suc j) bs)"
    using le_val_drop [of j bs] by simp
  have "le_val bs div 256 ^ j mod 2 ^ 8 = unat (bs ! j)" unfolding eq by simp
  moreover have "(256 :: nat) ^ j = 2 ^ (8 * j)" by (simp add: power_mult)
  ultimately have "take_bit 8 (drop_bit (8 * j) (le_val bs)) = unat (bs ! j)"
    by (simp only: take_bit_eq_mod drop_bit_eq_div)
  then have "bit (take_bit 8 (drop_bit (8 * j) (le_val bs))) r = bit (unat (bs ! j)) r" by simp
  then have byte: "bit (take_bit 8 (drop_bit (8 * j) (le_val bs))) r \<longleftrightarrow> bit (bs ! j) r"
    by (simp only: unat_bit)
  have "unat (from_le_bytes bs :: u64) = le_val bs"
    using le_val_bound [of bs] assms(1) by (simp add: unat_from_le_bytes)
  then have "bit (from_le_bytes bs :: u64) n \<longleftrightarrow> bit (le_val bs) n"
    by (metis unat_bit)
  moreover have "bit (le_val bs) n \<longleftrightarrow> bit (bs ! j) r" using byte n by (simp add: bit_simps)
  ultimately show ?thesis by (simp add: j_def r_def)
qed

lemma trailing_zeros64_spec:
  assumes "x \<noteq> 0"
  shows "trailing_zeros64 x < 64" and "bit x (trailing_zeros64 x)" and "n < trailing_zeros64 x \<Longrightarrow> \<not> bit x n"
proof -
  let ?P = "\<lambda>i. \<not> bit x i" and ?t = "trailing_zeros64 x"
  have below: "\<not> bit x n" if "n < ?t" for n
  proof -
    have "takeWhile ?P [0..<64] ! n \<in> set (takeWhile ?P [0..<64])" using that by (intro nth_mem) (simp add: trailing_zeros64_def)
    then have "\<not> bit x (takeWhile ?P [0..<64] ! n)" by (auto dest: set_takeWhileD)
    moreover have "?t \<le> 64" using length_takeWhile_le [of ?P "[0..<64]"] by (simp add: trailing_zeros64_def)
    ultimately show ?thesis using that by (simp add: takeWhile_nth trailing_zeros64_def)
  qed
  show "n < ?t \<Longrightarrow> \<not> bit x n" by (rule below)
  show "?t < 64"
  proof (rule ccontr)
    assume "\<not> ?t < 64"
    then have "bit x n \<longleftrightarrow> bit (0 :: u64) n" if "n < 64" for n using that below by simp
    then have "x = 0" by (intro bit_word_eqI) simp
    then show False using assms by simp
  qed
  then show "bit x ?t" using nth_length_takeWhile [of ?P "[0..<64]"] by (simp add: trailing_zeros64_def)
qed

text \<open>The first differing bit of two words is in the first differing byte.\<close>

lemma xor_bytes:
  assumes "length xs = 8" and "length ys = 8" and ne: "(from_le_bytes xs :: u64) XOR from_le_bytes ys \<noteq> 0"
    and k: "k = trailing_zeros64 (from_le_bytes xs XOR from_le_bytes ys) div 8"
  shows "k < 8" and "xs ! k \<noteq> ys ! k" and "j < k \<Longrightarrow> xs ! j = ys ! j"
proof -
  let ?t = "trailing_zeros64 (from_le_bytes xs XOR from_le_bytes ys)"
  note t = trailing_zeros64_spec [OF ne]
  show "k < 8" using t(1) by (simp add: k)
  have differ: "bit (xs ! (n div 8)) (n mod 8) \<noteq> bit (ys ! (n div 8)) (n mod 8)
      \<longleftrightarrow> bit ((from_le_bytes xs :: u64) XOR from_le_bytes ys) n" if "n < 64" for n
    using that assms(1,2) by (simp add: bit_xor_iff bit_of_byte)
  show "xs ! k \<noteq> ys ! k" using differ [OF t(1)] t(2) by (auto simp: k)
  show "xs ! j = ys ! j" if j: "j < k"
  proof (rule bit_word_eqI)
    fix r assume "r < LENGTH(8)"
    then have r: "r < 8" by simp
    have "8 * j + r < ?t" using j r unfolding k by linarith
    then show "bit (xs ! j) r \<longleftrightarrow> bit (ys ! j) r"
      using differ [of "8 * j + r"] t(1) t(3) [of "8 * j + r"] r by simp
  qed
qed

lemma xor_zero_eq:
  fixes x y :: "'a::len word"
  assumes "x XOR y = 0"
  shows "x = y"
proof (rule bit_word_eqI)
  fix n
  have "\<not> bit (x XOR y) n" using assms by simp
  then show "bit x n \<longleftrightarrow> bit y n" by (simp add: bit_xor_iff)
qed

lemma xor_bytes_eq:
  assumes "length xs = 8" and "length ys = 8" and "(from_le_bytes xs :: u64) XOR from_le_bytes ys = 0"
  shows "xs = ys"
proof -
  have "(from_le_bytes xs :: u64) = from_le_bytes ys" using xor_zero_eq [OF assms(3)] .
  then have "le_val xs = le_val ys"
    using assms(1,2) le_val_bound [of xs] le_val_bound [of ys] by (simp add: word_unat_eq_iff unat_from_le_bytes)
  then show ?thesis using assms(1,2) by (intro le_val_inj) simp_all
qed

text \<open>The length \<open>k\<close> of the common prefix at \<open>a\<close> and \<open>b\<close>, at most \<open>mx\<close>.\<close>

definition agree_upto :: "byte list \<Rightarrow> nat \<Rightarrow> nat \<Rightarrow> nat \<Rightarrow> bool" where
  "agree_upto data a b k \<longleftrightarrow> (\<forall>j < k. data ! (a + j) = data ! (b + j))"

lemma common_words_spec:
  assumes "b + mx \<le> length data" and "a \<le> b" and "agree_upto data a b i" and "i \<le> mx"
  shows "\<exists>k found. common_words data a b mx i = Ok (k, found) \<and> k \<le> mx \<and> agree_upto data a b k
    \<and> (found \<longrightarrow> k < mx \<and> data ! (a + k) \<noteq> data ! (b + k))"
  using assms
proof (induction data a b mx i rule: common_words.induct)
  case (1 data a b mx i)
  show ?case
  proof (cases "i + 8 \<le> mx")
    case False
    then show ?thesis using 1(4,5) by (subst common_words.simps) (auto intro!: exI [of _ False])
  next
    case True
    let ?xs = "take 8 (drop (a + i) data)" and ?ys = "take 8 (drop (b + i) data)"
    have len: "a + i + 8 \<le> length data" "b + i + 8 \<le> length data" using 1(2,3) True by simp_all
    then have l8: "length ?xs = 8" "length ?ys = 8" by simp_all
    have nth: "?xs ! j = data ! (a + (i + j))" "?ys ! j = data ! (b + (i + j))" if "j < 8" for j
      using that len by (simp_all add: add.assoc)
    note reads = read_u64_Ok [OF len(1)] read_u64_Ok [OF len(2)]
    have grow: "agree_upto data a b (i + k)" if "\<And>j. j < k \<Longrightarrow> ?xs ! j = ?ys ! j" "k \<le> 8" for k
      unfolding agree_upto_def
    proof (intro allI impI)
      fix j assume j: "j < i + k"
      show "data ! (a + j) = data ! (b + j)"
      proof (cases "j < i")
        case True
        then show ?thesis using 1(4) by (simp add: agree_upto_def)
      next
        case False
        then have "j - i < k" "i + (j - i) = j" using j by simp_all
        then show ?thesis using that(1) [of "j - i"] nth [of "j - i"] that(2) by simp
      qed
    qed
    show ?thesis
    proof (cases "(from_le_bytes ?xs :: u64) XOR from_le_bytes ?ys = 0")
      case False
      note x = xor_bytes [OF l8 False refl]
      show ?thesis
        using x(1,2) grow [OF x(3)] nth [OF x(1)] True False
        by (subst common_words.simps) (auto simp: reads intro!: exI [of _ True])
    next
      case eq: True
      have "agree_upto data a b (i + 8)" by (rule grow) (use xor_bytes_eq [OF l8 eq] in simp_all)
      from 1(1) [OF True reads(1) reads(2) _ 1(2,3) this True] show ?thesis
        using eq True by (subst common_words.simps) (simp add: reads)
    qed
  qed
qed

lemma common_bytes_spec:
  assumes "b + mx \<le> length data" and "a \<le> b" and "agree_upto data a b i" and "i \<le> mx"
  shows "\<exists>k. common_bytes data a b mx i = Ok k \<and> k \<le> mx \<and> agree_upto data a b k
    \<and> (k < mx \<longrightarrow> data ! (a + k) \<noteq> data ! (b + k))"
  using assms
proof (induction data a b mx i rule: common_bytes.induct)
  case (1 data a b mx i)
  show ?case
  proof (cases "i < mx \<and> data ! (a + i) = data ! (b + i)")
    case False
    then show ?thesis using 1(2-5) by (subst common_bytes.simps) auto
  next
    case True
    then have "agree_upto data a b (i + 1)" using 1(4) by (auto simp: agree_upto_def less_Suc_eq)
    then show ?thesis using 1(1) [of "data ! (a + i)" "data ! (b + i)"] 1(2,3) True
      by (subst common_bytes.simps) auto
  qed
qed

lemma common_len_spec:
  assumes "a \<le> b" and "b \<le> e" and "e \<le> length data"
  shows "\<exists>k. common_len data a b e = Ok k \<and> b + k \<le> e \<and> agree_upto data a b k
    \<and> (b + k < e \<longrightarrow> data ! (a + k) \<noteq> data ! (b + k))"
proof -
  have mx: "b + (e - b) \<le> length data" using assms by simp
  obtain k found where k: "common_words data a b (e - b) 0 = Ok (k, found)" "k \<le> e - b" "agree_upto data a b k"
    "found \<longrightarrow> k < e - b \<and> data ! (a + k) \<noteq> data ! (b + k)"
    using common_words_spec [OF mx assms(1), of 0] by (auto simp: agree_upto_def)
  show ?thesis
  proof (cases found)
    case True
    then show ?thesis using k assms by (auto simp: common_len_def)
  next
    case False
    then show ?thesis using k common_bytes_spec [OF mx assms(1) k(3,2)] assms by (auto simp: common_len_def)
  qed
qed

section \<open>Matches\<close>

text \<open>The \<open>ml\<close> bytes at \<open>p\<close> repeat those \<open>off\<close> before, and end at \<open>e\<close> or earlier.\<close>

definition is_match :: "byte list \<Rightarrow> nat \<Rightarrow> nat \<Rightarrow> nat \<Rightarrow> nat \<Rightarrow> bool" where
  "is_match data e p ml off \<longleftrightarrow> 1 \<le> off \<and> off \<le> p \<and> p + ml \<le> e \<and> agree_upto data (p - off) p ml"

lemma is_match_shorter: "is_match data e p ml off \<Longrightarrow> n \<le> ml \<Longrightarrow> is_match data e p n off"
  by (auto simp: is_match_def agree_upto_def)

lemma common_len_match:
  assumes "c < p" and "p \<le> e" and "e \<le> length data"
  shows "\<exists>ml. common_len data c p e = Ok ml \<and> is_match data e p ml (p - c)"
  using common_len_spec [of c p e data] assms by (auto simp: is_match_def)

lemma lz_copy_match:
  assumes "is_match data e p ml off" and "e \<le> length data"
  shows "lz_copy (take p data) off ml = take (p + ml) data"
  using assms
proof (induction ml arbitrary: p)
  case 0
  then show ?case by simp
next
  case (Suc ml)
  have m: "1 \<le> off" "off \<le> p" "p + Suc ml \<le> e" "\<And>j. j < Suc ml \<Longrightarrow> data ! (p - off + j) = data ! (p + j)"
    using Suc.prems(1) by (auto simp: is_match_def agree_upto_def)
  have p: "p < length data" using m(3) Suc.prems(2) by simp
  have "take p data ! (p - off) = data ! p" using m(1,2) m(4) [of 0] p by simp
  then have "take p data @ [take p data ! (length (take p data) - off)] = take (Suc p) data"
    using p by (simp add: take_Suc_conv_app_nth)
  moreover have "is_match data e (Suc p) ml off"
  proof -
    have "data ! (Suc p - off + j) = data ! (Suc p + j)" if "j < ml" for j
      using m(4) [of "Suc j"] that m(2) by (simp add: Suc_diff_le)
    then show ?thesis using m(1-3) by (simp add: is_match_def agree_upto_def)
  qed
  ultimately show ?case using Suc.IH [of "Suc p"] Suc.prems(2) by simp
qed

section \<open>Offset values\<close>

definition rep_within :: "nat \<Rightarrow> rep_offsets \<Rightarrow> bool" where
  "rep_within W rep \<longleftrightarrow> (\<forall>r \<in> set (rep_list rep). r \<le> W)"

lemma resolve_offset_within:
  assumes "resolve_offset rep ov ll0 = Ok (off, rep')" and "off \<le> W" and "rep_within W rep"
  shows "rep_within W rep'"
  using assms by (cases rep) (auto simp: resolve_offset_def rep_within_def rep_list_def Let_def outcome_simps split: if_splits)

lemma encode_offset_spec:
  assumes "1 \<le> off"
  shows "\<exists>ov rep'. encode_offset rep off ll0 = Ok ov \<and> resolve_offset rep ov ll0 = Ok (off, rep') \<and> 1 \<le> ov \<and> ov \<le> off + 3"
proof -
  have ok: "\<exists>o' rep'. resolve_offset rep ov ll0 = Ok (o', rep')" if "1 \<le> ov" for ov
    using resolve_offset_mtf [OF that, of rep ll0] by auto
  obtain o1 r1 o2 r2 o3 r3 where r: "resolve_offset rep 1 ll0 = Ok (o1, r1)" "resolve_offset rep 2 ll0 = Ok (o2, r2)"
    "resolve_offset rep 3 ll0 = Ok (o3, r3)" using ok [of 1] ok [of 2] ok [of 3] by auto
  have "\<exists>rep'. resolve_offset rep (off + 3) ll0 = Ok (off, rep')"
    using assms by (cases rep) (simp add: resolve_offset_def)
  then show ?thesis
    using r assms by (cases "o1 = off"; cases "o2 = off"; cases "o3 = off") (auto simp: encode_offset_def simp del: split_paired_Ex)
qed

lemma rep_resolved_offset_Ok:
  assumes "rep_within W rep"
  shows "\<exists>off. rep_resolved_offset rep 1 ll0 = Ok off \<and> off \<le> W"
  using assms by (cases rep; cases ll0) (auto simp: rep_resolved_offset_def rep_within_def rep_list_def Let_def)

text \<open>A candidate \<open>(length, distance)\<close>: none, or a match of at least \<open>MIN_MATCH\<close> within the window.\<close>

definition good_pair :: "byte list \<Rightarrow> nat \<Rightarrow> nat \<Rightarrow> nat \<Rightarrow> nat \<times> nat \<Rightarrow> bool" where
  "good_pair data W e p c \<longleftrightarrow> (MIN_MATCH \<le> fst c \<longrightarrow> is_match data e p (fst c) (snd c) \<and> snd c \<le> W)"

lemma rep_match_at_Ok:
  assumes "rep_within W rep" and "p \<le> e" and "e \<le> length data"
  shows "\<exists>c. rep_match_at data p e rep ll0 = Ok c \<and> good_pair data W e p c"
proof -
  obtain off where off: "rep_resolved_offset rep 1 ll0 = Ok off" "off \<le> W" using rep_resolved_offset_Ok [OF assms(1)] by blast
  show ?thesis
  proof (cases "off = 0 \<or> p < off")
    case True
    then show ?thesis using off by (auto simp: rep_match_at_def good_pair_def MIN_MATCH_def)
  next
    case False
    then have "p - off < p" "p - (p - off) = off" by simp_all
    then obtain n where "common_len data (p - off) p e = Ok n" "is_match data e p n off"
      using common_len_match [OF _ assms(2,3), of "p - off"] by auto
    then show ?thesis using off False by (auto simp: rep_match_at_def good_pair_def MIN_MATCH_def)
  qed
qed

lemma of_code_Ok: "1 \<le> n \<Longrightarrow> \<exists>c. of_code n = Ok c"
  by (simp add: of_code_def)

lemma offset_bits_Ok: "\<exists>c. offset_bits rep moff ll0 = Ok c"
proof -
  have "\<exists>ov. encode_offset rep off ll0 = Ok ov \<and> 1 \<le> ov" for off
  proof (cases "1 \<le> off")
    case True
    then show ?thesis using encode_offset_spec by blast
  next
    case False
    have "\<exists>o' rep'. resolve_offset rep ov ll0 = Ok (o', rep')" if "1 \<le> ov" for ov
      using resolve_offset_mtf [OF that, of rep ll0] by auto
    from this [of 1] this [of 2] this [of 3] show ?thesis using False by (auto simp: encode_offset_def)
  qed
  then obtain ov where "encode_offset rep (as_u32 moff) ll0 = Ok ov" "1 \<le> ov" by blast
  then show ?thesis using of_code_Ok by (simp add: offset_bits_def)
qed

section \<open>The parse so far\<close>

definition parsed_to :: "byte list \<Rightarrow> nat \<Rightarrow> nat \<Rightarrow> rep_offsets \<Rightarrow> nat \<Rightarrow> lz_out \<Rightarrow> bool" where
  "parsed_to data W start rep0 anchor acc \<longleftrightarrow> (case acc of (seqs, literals, rep) \<Rightarrow>
     start \<le> anchor \<and> length literals = sum_list (map sq_lit_len seqs) \<and> (\<forall>s \<in> set seqs. seq_valid s)
     \<and> lz_run (map raw_of seqs) (anchor - start) literals (take start data) (rep_list rep0) = Some (take anchor data, rep_list rep)
     \<and> rep_within W rep)"

lemma parsed_to_start: "rep_within W rep \<Longrightarrow> parsed_to data W start rep start ([], [], rep)"
  by (simp add: parsed_to_def)

text \<open>More sequences behind those that have used up their literals.\<close>

lemma lz_run_append:
  assumes "lz_run (map raw_of as) room1 la out rs = Some (out1, rs1)" and "length la = sum_list (map sq_lit_len as)"
    and "length out1 - length out \<le> n"
  shows "lz_run (map raw_of as @ bs) n (la @ lb) out rs = lz_run bs (n - (length out1 - length out)) lb out1 rs1"
  using assms
proof (induction as arbitrary: room1 la out rs n)
  case Nil
  then show ?case by (simp split: if_splits)
next
  case (Cons s as)
  obtain off rs2 where mtf: "mtf_resolve rs (sq_offset_value s) (sq_lit_len s = 0) = (off, rs2)"
    by (cases "mtf_resolve rs (sq_offset_value s) (sq_lit_len s = 0)")
  define mid where "mid = lz_copy (out @ take (sq_lit_len s) la) off (sq_match_len s)"
  let ?sp = "sq_lit_len s + sq_match_len s"
  have run: "off \<noteq> 0" "?sp \<le> room1" "sq_lit_len s \<le> length la" "off \<le> length out + sq_lit_len s"
    "lz_run (map raw_of as) (room1 - ?sp) (drop (sq_lit_len s) la) mid rs2 = Some (out1, rs1)"
    using Cons.prems(1) by (auto simp: raw_of_def [of s] mtf mid_def split: if_splits)
  have mid: "length mid = length out + ?sp" using run(3) by (simp add: mid_def)
  obtain zs where zs: "out1 = mid @ zs" using lz_run_appends [OF run(5)] by blast
  have n: "?sp \<le> n" "length out1 - length mid \<le> n - ?sp" "n - ?sp - (length out1 - length mid) = n - (length out1 - length out)"
    using Cons.prems(3) mid zs by simp_all
  have "length (drop (sq_lit_len s) la) = sum_list (map sq_lit_len as)" using Cons.prems(2) by simp
  from Cons.IH [OF run(5) this n(2)] show ?case
    using run(1-4) n by (simp add: raw_of_def [of s] mtf flip: mid_def)
qed

lemma parsed_to_length: "parsed_to data W start rep0 anchor acc \<Longrightarrow> anchor \<le> length data \<Longrightarrow>
    \<exists>seqs literals rep. acc = (seqs, literals, rep) \<and> length (take anchor data) - length (take start data) = anchor - start"
  by (cases acc) (auto simp: parsed_to_def)

lemma push_seq_Ok:
  assumes acc: "parsed_to data W start rep0 anchor acc" and ap: "anchor \<le> p" and m: "is_match data e p ml off"
    and "3 \<le> ml" and "off \<le> W" and W: "W + 3 < 2 ^ 32" and e: "e \<le> length data" "e - start \<le> BLOCK_SIZE_MAX"
  shows "\<exists>acc'. push_seq data anchor p ml off acc = Ok acc' \<and> parsed_to data W start rep0 (p + ml) acc'"
proof -
  obtain seqs literals rep where eq: "acc = (seqs, literals, rep)" by (cases acc)
  have a: "start \<le> anchor" "length literals = sum_list (map sq_lit_len seqs)" "\<forall>s \<in> set seqs. seq_valid s"
    "lz_run (map raw_of seqs) (anchor - start) literals (take start data) (rep_list rep0) = Some (take anchor data, rep_list rep)"
    "rep_within W rep" using acc by (simp_all add: parsed_to_def eq)
  have off: "1 \<le> off" "off \<le> p" "p + ml \<le> e" using m by (simp_all add: is_match_def)
  have small: "as_u32 off = off" "as_u32 (p - anchor) = p - anchor" "as_u32 ml = ml" "p - anchor < 2 ^ 17" "ml \<le> 2 ^ 17"
    using off a(1) ap e \<open>off \<le> W\<close> W \<open>3 \<le> ml\<close> by (simp_all add: as_u32_small BLOCK_SIZE_MAX_def)
  obtain ov rep1 where ov: "encode_offset rep off (p = anchor) = Ok ov" "resolve_offset rep ov (p = anchor) = Ok (off, rep1)"
    "1 \<le> ov" "ov \<le> off + 3" using encode_offset_spec [OF off(1)] by blast
  define s where "s = \<lparr>sq_lit_len = p - anchor, sq_match_len = ml, sq_offset_value = ov\<rparr>"
  define lits where "lits = take (p - anchor) (drop anchor data)"
  have lits: "length lits = p - anchor" "take anchor data @ lits = take p data"
    using off e ap by (simp_all add: lits_def take_add [symmetric])
  have push: "push_seq data anchor p ml off acc = Ok (seqs @ [s], literals @ lits, rep1)"
    using off e ap by (simp add: push_seq_def eq small ov(1,2) lits_def s_def Let_def)
  have mtf: "mtf_resolve (rep_list rep) ov (p - anchor = 0) = (off, rep_list rep1)"
    using resolve_offset_mtf [OF ov(3), of rep "p = anchor"] ov(2) ap by auto
  have "lz_run (map raw_of seqs @ [raw_of s]) (p + ml - start) (literals @ lits) (take start data) (rep_list rep0)
      = lz_run [raw_of s] (p + ml - start - (length (take anchor data) - length (take start data))) lits (take anchor data) (rep_list rep)"
    by (rule lz_run_append [OF a(4,2)]) (use a(1) ap off e in simp)
  also have "p + ml - start - (length (take anchor data) - length (take start data)) = p + ml - anchor"
    using a(1) ap off e by simp
  also have "lz_run [raw_of s] (p + ml - anchor) lits (take anchor data) (rep_list rep) = Some (lz_copy (take p data) off ml, rep_list rep1)"
    using mtf lits off ap e by (simp add: raw_of_def s_def)
  also have "lz_copy (take p data) off ml = take (p + ml) data" by (rule lz_copy_match [OF m e(1)])
  finally have run: "lz_run (map raw_of (seqs @ [s])) (p + ml - start) (literals @ lits) (take start data) (rep_list rep0)
      = Some (take (p + ml) data, rep_list rep1)" by simp
  have "seq_valid s" using small(4,5) \<open>3 \<le> ml\<close> ov(3,4) \<open>off \<le> W\<close> W by (simp add: seq_valid_def s_def)
  then have "parsed_to data W start rep0 (p + ml) (seqs @ [s], literals @ lits, rep1)"
    using a run lits(1) ap resolve_offset_within [OF ov(2) \<open>off \<le> W\<close> a(5)] by (simp add: parsed_to_def s_def)
  then show ?thesis using push by blast
qed

text \<open>The end of a parse: it describes the block.\<close>

lemma push_tail_Ok:
  assumes acc: "parsed_to data W start rep0 anchor acc" and "anchor \<le> e" and e: "e \<le> length data" "e - start \<le> BLOCK_SIZE_MAX"
  shows "\<exists>seqs literals rep. push_tail data anchor e acc = Ok (seqs, literals, rep)
    \<and> describes seqs literals rep0 (take start data) (take (e - start) (drop start data)) rep \<and> rep_within W rep"
proof -
  obtain seqs literals rep where eq: "acc = (seqs, literals, rep)" by (cases acc)
  have a: "start \<le> anchor" "length literals = sum_list (map sq_lit_len seqs)" "\<forall>s \<in> set seqs. seq_valid s"
    "lz_run (map raw_of seqs) (anchor - start) literals (take start data) (rep_list rep0) = Some (take anchor data, rep_list rep)"
    "rep_within W rep" using acc by (simp_all add: parsed_to_def eq)
  define lits where "lits = take (e - anchor) (drop anchor data)"
  have lits: "length lits = e - anchor" "take anchor data @ lits = take e data"
    using assms by (simp_all add: lits_def take_add [symmetric])
  have "lz_run (map raw_of seqs @ []) (e - start) (literals @ lits) (take start data) (rep_list rep0)
      = lz_run [] (e - start - (length (take anchor data) - length (take start data))) lits (take anchor data) (rep_list rep)"
    by (rule lz_run_append [OF a(4,2)]) (use a(1) assms in simp)
  also have "\<dots> = Some (take e data, rep_list rep)" using lits a(1) assms by simp
  also have "take e data = take start data @ take (e - start) (drop start data)"
    using a(1) assms by (simp add: take_add [symmetric])
  finally have "describes seqs (literals @ lits) rep0 (take start data) (take (e - start) (drop start data)) rep"
    using a(3) e by (simp add: describes_def min_absorb2 diff_le_mono)
  then show ?thesis using assms a(5) by (simp add: push_tail_def eq lits_def)
qed

end
