(* ===== verification/Lz_Fast.thy ===== *)
theory Lz_Fast
  imports Lz
begin

text \<open>
  The two greedy finders of \<^verbatim>\<open>src/encode/lz.rs\<close>: \<open>fast\<close> with one table of the last position per hash of
  four bytes, and \<open>dfast\<close> with a second table for eight bytes. Their tables only hold earlier
  positions (\<open>earlier\<close>), and every match is checked against the data, so what they emit describes the
  block whatever the tables hold.
\<close>

section \<open>The fast finder\<close>

record match_state =
  ms_table :: "int list"
  ms_hash_log :: nat

definition match_state_new :: "nat \<Rightarrow> match_state" where
  "match_state_new hash_log =
     (let hash_log = clamp_to MIN_HASH_LOG MAX_HASH_LOG hash_log in
      \<lparr>ms_table = replicate (2 ^ hash_log) (- 1), ms_hash_log = hash_log\<rparr>)"

definition match_state_reduce :: "nat \<Rightarrow> match_state \<Rightarrow> match_state" where
  "match_state_reduce n st = st\<lparr>ms_table := reduce_index_table n (ms_table st)\<rparr>"

definition fast_put :: "byte list \<Rightarrow> nat \<Rightarrow> match_state \<Rightarrow> match_state result" where
  "fast_put data p st =
     obind (read_u32 data p) (\<lambda>v.
     obind (upd (ms_table st) (hash4 v (ms_hash_log st)) (as_i32 p)) (\<lambda>table.
     Ok (st\<lparr>ms_table := table\<rparr>)))"

text \<open>One position of the loop: the new state, the next position, the anchor and the output.\<close>

definition fast_step ::
  "byte list \<Rightarrow> nat \<Rightarrow> nat \<Rightarrow> nat \<Rightarrow> nat \<Rightarrow> match_state \<times> nat \<times> lz_out \<Rightarrow> (nat \<times> match_state \<times> nat \<times> lz_out) result" where
  "fast_step data e max_offset lim p s =
     (let (st, anchor, acc) = s in
      obind (read_u32 data p) (\<lambda>v.
      obind (idx (ms_table st) (hash4 v (ms_hash_log st))) (\<lambda>cand.
      obind (fast_put data p st) (\<lambda>st.
      if cand < 0 then Ok (p + 1, st, anchor, acc)
      else
        let c = nat cand in
        obind (usub p c) (\<lambda>offset.
        if max_offset < offset \<or> offset < 1 then Ok (p + 1, st, anchor, acc)
        else
          obind (read_u32 data c) (\<lambda>vc.
          if vc \<noteq> v then Ok (p + 1, st, anchor, acc)
          else
            obind (common_len data c p e) (\<lambda>ml.
            obind (push_seq data anchor p ml offset acc) (\<lambda>acc.
            obind (ofold (fast_put data) [p + 1..<min (p + ml) (lim + 1)] st) (\<lambda>st.
            Ok (p + ml, st, p + ml, acc))))))))))"

text \<open>A loop over positions that ends behind \<open>lim\<close>. A step that stays where it is would be a loop
  that makes no progress; the steps of the finders advance.\<close>

function scan :: "(nat \<Rightarrow> 's \<Rightarrow> (nat \<times> 's) result) \<Rightarrow> nat \<Rightarrow> nat \<Rightarrow> 's \<Rightarrow> 's result" where
  "scan f lim p s =
     (if p \<le> lim then obind (f p s) (\<lambda>(p', s). if p' \<le> p then Hang else scan f lim p' s)
      else Ok s)"
  by pat_completeness auto
termination by (relation "measure (\<lambda>(f, lim, p, s). Suc lim - p)") auto

declare scan.simps [simp del]

text \<open>What all the parsers do around their loop: a block too short for a match is all literals.\<close>

definition parse_around ::
  "byte list \<Rightarrow> nat \<Rightarrow> nat \<Rightarrow> rep_offsets \<Rightarrow> 's \<Rightarrow> (nat \<Rightarrow> 's \<Rightarrow> ('s \<times> nat \<times> lz_out) result) \<Rightarrow> (lz_out \<times> 's) result" where
  "parse_around data start e rep st run =
     (if e < start + MIN_MATCH + 1 then
        obind (push_tail data start e ([], [], rep)) (\<lambda>acc. Ok (acc, st))
      else
        obind (usub e MIN_MATCH) (\<lambda>lim.
        obind (run lim st) (\<lambda>(st, anchor, acc).
        obind (push_tail data anchor e acc) (\<lambda>acc.
        Ok (acc, st)))))"

definition parse_block :: "byte list \<Rightarrow> nat \<Rightarrow> nat \<Rightarrow> match_state \<Rightarrow> nat \<Rightarrow> rep_offsets \<Rightarrow> (lz_out \<times> match_state) result" where
  "parse_block data start e st max_offset rep =
     parse_around data start e rep st (\<lambda>lim st.
       scan (fast_step data e max_offset lim) lim start (st, start, ([], [], rep)))"

section \<open>The double-fast finder\<close>

record dfast_state =
  df_long :: "int list"
  df_short :: "int list"
  df_long_log :: nat
  df_short_log :: nat

definition dfast_state_new :: "nat \<Rightarrow> nat \<Rightarrow> dfast_state" where
  "dfast_state_new long_log short_log =
     (let long_log = clamp_to MIN_HASH_LOG MAX_HASH_LOG long_log;
          short_log = clamp_to MIN_HASH_LOG MAX_HASH_LOG short_log in
      \<lparr>df_long = replicate (2 ^ long_log) (- 1), df_short = replicate (2 ^ short_log) (- 1),
       df_long_log = long_log, df_short_log = short_log\<rparr>)"

definition dfast_put_short :: "u32 \<Rightarrow> nat \<Rightarrow> dfast_state \<Rightarrow> dfast_state result" where
  "dfast_put_short v p st =
     obind (upd (df_short st) (hash4 v (df_short_log st)) (as_i32 p)) (\<lambda>t. Ok (st\<lparr>df_short := t\<rparr>))"

definition dfast_put_long :: "u64 \<Rightarrow> nat \<Rightarrow> dfast_state \<Rightarrow> dfast_state result" where
  "dfast_put_long v p st =
     obind (upd (df_long st) (hash8 v (df_long_log st)) (as_i32 p)) (\<lambda>t. Ok (st\<lparr>df_long := t\<rparr>))"

definition dfast_insert :: "byte list \<Rightarrow> nat \<Rightarrow> nat \<Rightarrow> dfast_state \<Rightarrow> dfast_state result" where
  "dfast_insert data e pos st =
     (if pos + 8 \<le> e then
        obind (read_u64 data pos) (\<lambda>v64.
        obind (dfast_put_short (ucast v64) pos st) (dfast_put_long v64 pos))
      else obind (read_u32 data pos) (\<lambda>v. dfast_put_short v pos st))"

definition dfast_reduce :: "nat \<Rightarrow> dfast_state \<Rightarrow> dfast_state" where
  "dfast_reduce n st = st\<lparr>df_long := reduce_index_table n (df_long st), df_short := reduce_index_table n (df_short st)\<rparr>"

text \<open>Both candidates at \<open>p\<close>, which is entered in both tables.\<close>

definition dfast_probe :: "byte list \<Rightarrow> nat \<Rightarrow> nat \<Rightarrow> dfast_state \<Rightarrow> (int \<times> int \<times> u32 \<times> dfast_state) result" where
  "dfast_probe data e p st =
     obind (if p + 8 \<le> e then
              obind (read_u64 data p) (\<lambda>v64.
              obind (idx (df_long st) (hash8 v64 (df_long_log st))) (\<lambda>c.
              obind (dfast_put_long v64 p st) (\<lambda>st.
              Ok (c, ucast v64, st))))
            else obind (read_u32 data p) (\<lambda>v. Ok (- 1, v, st))) (\<lambda>(cand_long, v32, st).
     obind (idx (df_short st) (hash4 v32 (df_short_log st))) (\<lambda>cand_short.
     obind (dfast_put_short v32 p st) (\<lambda>st.
     Ok (cand_long, cand_short, v32, st))))"

text \<open>A candidate replaces the best match \<open>(length, offset)\<close> when it is longer.\<close>

definition dfast_candidate :: "byte list \<Rightarrow> nat \<Rightarrow> nat \<Rightarrow> nat \<Rightarrow> u32 \<Rightarrow> int \<Rightarrow> nat \<times> nat \<Rightarrow> (nat \<times> nat) result" where
  "dfast_candidate data e max_offset p v32 cand best =
     (if cand < 0 then Ok best
      else
        let c = nat cand in
        obind (usub p c) (\<lambda>offset.
        if max_offset < offset then Ok best
        else
          obind (read_u32 data c) (\<lambda>vc.
          if vc \<noteq> v32 then Ok best
          else
            obind (common_len data c p e) (\<lambda>ml.
            Ok (if fst best < ml then (ml, offset) else best)))))"

definition dfast_step ::
  "byte list \<Rightarrow> nat \<Rightarrow> nat \<Rightarrow> nat \<Rightarrow> nat \<Rightarrow> dfast_state \<times> nat \<times> lz_out \<Rightarrow> (nat \<times> dfast_state \<times> nat \<times> lz_out) result" where
  "dfast_step data e max_offset lim p s =
     (let (st, anchor, acc) = s in
      obind (dfast_probe data e p st) (\<lambda>(cand_long, cand_short, v32, st).
      obind (ofold (dfast_candidate data e max_offset p v32) [cand_long, cand_short] (MIN_MATCH - 1, 0)) (\<lambda>best.
      obind (rep_match_at data p e (snd (snd acc)) (p = anchor)) (\<lambda>(rml, roff).
      let (best_ml, best_off) = (if MIN_MATCH \<le> rml \<and> fst best \<le> rml then (rml, roff) else best) in
      if best_ml < MIN_MATCH then Ok (p + 1, st, anchor, acc)
      else
        obind (push_seq data anchor p best_ml best_off acc) (\<lambda>acc.
        obind (ofold (dfast_insert data e) [p + 1..<min (p + best_ml) (lim + 1)] st) (\<lambda>st.
        Ok (p + best_ml, st, p + best_ml, acc)))))))"

definition dfast_parse_block :: "byte list \<Rightarrow> nat \<Rightarrow> nat \<Rightarrow> dfast_state \<Rightarrow> nat \<Rightarrow> rep_offsets \<Rightarrow> (lz_out \<times> dfast_state) result" where
  "dfast_parse_block data start e st max_offset rep =
     parse_around data start e rep st (\<lambda>lim st.
       scan (dfast_step data e max_offset lim) lim start (st, start, ([], [], rep)))"

section \<open>Tables of earlier positions\<close>

definition earlier :: "nat \<Rightarrow> int list \<Rightarrow> bool" where
  "earlier p table \<longleftrightarrow> (\<forall>c \<in> set table. c < int p)"

lemma earlier_mono: "earlier p table \<Longrightarrow> p \<le> q \<Longrightarrow> earlier q table"
  by (fastforce simp: earlier_def)

lemma earlier_nth: "earlier p table \<Longrightarrow> i < length table \<Longrightarrow> 0 \<le> table ! i \<Longrightarrow> nat (table ! i) < p"
  by (simp add: earlier_def nat_less_iff)

lemma earlier_update: "earlier p table \<Longrightarrow> p \<le> q \<Longrightarrow> earlier (Suc q) (table[i := as_i32 q])"
  using as_i32_le [of q] set_update_subset_insert [of table i "as_i32 q"] by (fastforce simp: earlier_def)

lemma earlier_new: "earlier p (replicate n (- 1))"
  by (simp add: earlier_def)

lemma earlier_reduce: "earlier p table \<Longrightarrow> n \<le> p \<Longrightarrow> earlier (p - n) (reduce_index_table n table)"
  unfolding earlier_def by (rule reduce_index_table_less)

lemma clamp_to_le: "clamp_to lo hi n \<le> max lo hi"
  by (simp add: clamp_to_def)

section \<open>The parse loop\<close>

text \<open>The state of a parse at the position \<open>p\<close>: the finder's invariant, the output up to the anchor.\<close>

definition scanning ::
  "byte list \<Rightarrow> nat \<Rightarrow> nat \<Rightarrow> nat \<Rightarrow> rep_offsets \<Rightarrow> (nat \<Rightarrow> 's \<Rightarrow> bool) \<Rightarrow> nat \<Rightarrow> 's \<times> nat \<times> lz_out \<Rightarrow> bool" where
  "scanning data W start e rep0 I p s \<longleftrightarrow>
     (case s of (st, anchor, acc) \<Rightarrow> I p st \<and> anchor \<le> p \<and> p \<le> e \<and> parsed_to data W start rep0 anchor acc)"

lemma scan_Ok:
  assumes "P p s" and "\<And>p s. p \<le> lim \<Longrightarrow> P p s \<Longrightarrow> \<exists>p' s'. f p s = Ok (p', s') \<and> p < p' \<and> P p' s'"
  shows "\<exists>p' s'. scan f lim p s = Ok s' \<and> lim < p' \<and> P p' s'"
  using assms
proof (induction f lim p s rule: scan.induct)
  case (1 f lim p s)
  show ?case
  proof (cases "p \<le> lim")
    case True
    obtain p' s' where s': "f p s = Ok (p', s')" "p < p'" "P p' s'" using 1(3) [OF True 1(2)] by blast
    have "\<exists>p'' s''. scan f lim p' s' = Ok s'' \<and> lim < p'' \<and> P p'' s''"
      by (rule 1(1) [OF True s'(1) refl]) (use s' 1(3) in auto)
    then show ?thesis using True s'(1,2) by (subst scan.simps) simp
  next
    case False
    then show ?thesis using 1(2) by (subst scan.simps) (auto intro!: exI [of _ p])
  qed
qed

text \<open>What a parser promises: it returns, what it emits describes the block, and the invariant holds
  at the end of the block.\<close>

definition parses :: "byte list \<Rightarrow> nat \<Rightarrow> nat \<Rightarrow> nat \<Rightarrow> rep_offsets \<Rightarrow> (nat \<Rightarrow> 's \<Rightarrow> bool) \<Rightarrow> (lz_out \<times> 's) result \<Rightarrow> bool" where
  "parses data W start e rep0 I m \<longleftrightarrow> (\<exists>seqs literals rep st. m = Ok ((seqs, literals, rep), st) \<and> I e st
     \<and> describes seqs literals rep0 (take start data) (take (e - start) (drop start data)) rep \<and> rep_within W rep)"

text \<open>The requirements on a block and a window.\<close>

definition block_fits :: "byte list \<Rightarrow> nat \<Rightarrow> nat \<Rightarrow> nat \<Rightarrow> bool" where
  "block_fits data W start e \<longleftrightarrow> start \<le> e \<and> e \<le> length data \<and> e - start \<le> BLOCK_SIZE_MAX \<and> W + 3 < 2 ^ 32"

lemma parse_around_parses:
  assumes fit: "block_fits data W start e" and rep: "rep_within W rep" and I: "I start st"
    and mono: "\<And>p q st. I p st \<Longrightarrow> p \<le> q \<Longrightarrow> I q st"
    and run: "\<And>lim. e = lim + MIN_MATCH \<Longrightarrow> start < lim \<Longrightarrow>
      \<exists>p s. run lim st = Ok s \<and> scanning data W start e rep I p s"
  shows "parses data W start e rep I (parse_around data start e rep st run)"
proof (cases "e < start + MIN_MATCH + 1")
  case True
  have "start \<le> e" "e \<le> length data" "e - start \<le> BLOCK_SIZE_MAX" using fit by (simp_all add: block_fits_def)
  from push_tail_Ok [OF parsed_to_start [OF rep, of data start] this] show ?thesis
    using True mono [OF I \<open>start \<le> e\<close>] by (fastforce simp: parse_around_def parses_def)
next
  case False
  define lim where "lim = e - MIN_MATCH"
  then have lim: "e = lim + MIN_MATCH" "start < lim" using False by simp_all
  obtain p st' anchor acc where s: "run lim st = Ok (st', anchor, acc)" "I p st'" "anchor \<le> p" "p \<le> e"
      "parsed_to data W start rep anchor acc"
    using run [OF lim] by (auto simp: scanning_def)
  have "anchor \<le> e" "e \<le> length data" "e - start \<le> BLOCK_SIZE_MAX" using fit s(3,4) by (simp_all add: block_fits_def)
  from push_tail_Ok [OF s(5) this] show ?thesis
    using False mono [OF s(2,4)] lim s(1) by (fastforce simp: parse_around_def parses_def)
qed

section \<open>The finders keep their tables and find matches\<close>

definition fast_inv :: "nat \<Rightarrow> match_state \<Rightarrow> bool" where
  "fast_inv p st \<longleftrightarrow> ms_hash_log st \<le> 32 \<and> length (ms_table st) = 2 ^ ms_hash_log st \<and> earlier p (ms_table st)"

lemma fast_inv_mono: "fast_inv p st \<Longrightarrow> p \<le> q \<Longrightarrow> fast_inv q st"
  by (auto simp: fast_inv_def intro: earlier_mono)

lemma fast_inv_new: "fast_inv p (match_state_new hash_log)"
  using clamp_to_le [of MIN_HASH_LOG MAX_HASH_LOG hash_log]
  by (simp add: match_state_new_def fast_inv_def earlier_new Let_def MIN_HASH_LOG_def MAX_HASH_LOG_def)

lemma fast_inv_reduce: "fast_inv p st \<Longrightarrow> n \<le> p \<Longrightarrow> fast_inv (p - n) (match_state_reduce n st)"
  by (simp add: match_state_reduce_def fast_inv_def earlier_reduce)

lemma fast_put_Ok:
  assumes "fast_inv p st" and "q + 4 \<le> length data" and "p \<le> q"
  shows "\<exists>st'. fast_put data q st = Ok st' \<and> fast_inv (Suc q) st'"
  using assms hash4_less [of "ms_hash_log st"]
  by (auto simp: fast_put_def read_u32_Ok fast_inv_def intro: earlier_update)

lemma fast_fill_Ok:
  assumes "fast_inv p st" and "p \<le> q" and "lim + 4 \<le> length data"
  shows "\<exists>st'. ofold (fast_put data) [p..<min q (lim + 1)] st = Ok st' \<and> fast_inv q st'"
proof (cases "p \<le> min q (lim + 1)")
  case True
  have "\<exists>st'. ofold (fast_put data) [p..<min q (lim + 1)] st = Ok st' \<and> fast_inv (min q (lim + 1)) st'"
    by (rule ofold_upt [OF _ True]) (use assms fast_put_Ok in auto)
  then show ?thesis using fast_inv_mono by fastforce
next
  case False
  then have none: "[p..<min q (lim + 1)] = []" by (intro upt_conv_Nil) linarith
  show ?thesis unfolding none using fast_inv_mono [OF assms(1,2)] by simp
qed

lemma words_agree:
  assumes "(from_le_bytes (take 4 (drop c data)) :: u32) = from_le_bytes (take 4 (drop p data))"
    and "c + 4 \<le> length data" and "p + 4 \<le> length data"
  shows "agree_upto data c p 4"
proof -
  let ?xs = "take 4 (drop c data)" and ?ys = "take 4 (drop p data)"
  have len: "length ?xs = 4" "length ?ys = 4" using assms(2,3) by simp_all
  have "le_val ?xs = le_val ?ys"
    using assms(1) le_val_bound [of ?xs] le_val_bound [of ?ys] len by (simp add: word_unat_eq_iff unat_from_le_bytes)
  then have eq: "?xs = ?ys" using len by (intro le_val_inj) simp_all
  have "data ! (c + j) = data ! (p + j)" if "j < 4" for j
    using arg_cong [OF eq, of "\<lambda>xs. xs ! j"] that assms(2,3) by simp
  then show ?thesis by (simp add: agree_upto_def)
qed

text \<open>Equal words make a match of at least four bytes.\<close>

lemma words_match:
  assumes "read_u32 data c = Ok v" and "read_u32 data p = Ok v" and "c < p" and "p + 4 \<le> e" and "e \<le> length data"
  shows "\<exists>ml. common_len data c p e = Ok ml \<and> 4 \<le> ml \<and> is_match data e p ml (p - c)"
proof -
  have len: "c + 4 \<le> length data" "p + 4 \<le> length data" using assms(3-5) by simp_all
  have agree: "agree_upto data c p 4"
    by (rule words_agree) (use assms(1,2) len in \<open>simp_all add: read_u32_Ok\<close>)
  obtain ml where ml: "common_len data c p e = Ok ml" "p + ml \<le> e" "agree_upto data c p ml"
      "p + ml < e \<longrightarrow> data ! (c + ml) \<noteq> data ! (p + ml)"
    using common_len_spec [of c p e data] assms(3-5) by auto
  have "4 \<le> ml"
  proof (rule ccontr)
    assume "\<not> 4 \<le> ml"
    then show False using ml(4) agree assms(4) by (simp add: agree_upto_def)
  qed
  then show ?thesis using ml assms(3) by (auto simp: is_match_def)
qed

lemma fast_step_Ok:
  assumes fit: "block_fits data W start e" and lim: "e = lim + MIN_MATCH" "p \<le> lim"
    and s: "scanning data W start e rep fast_inv p s" and R: "R \<le> W"
  shows "\<exists>p' s'. fast_step data e R lim p s = Ok (p', s') \<and> p < p' \<and> scanning data W start e rep fast_inv p' s'"
proof -
  obtain st anchor acc where eq: "s = (st, anchor, acc)" by (cases s)
  have st: "fast_inv p st" "anchor \<le> p" "p \<le> e" "parsed_to data W start rep anchor acc"
    using s by (simp_all add: scanning_def eq)
  have e: "e \<le> length data" "e - start \<le> BLOCK_SIZE_MAX" "W + 3 < 2 ^ 32" "p + 4 \<le> e"
    using fit lim by (simp_all add: block_fits_def MIN_MATCH_def)
  then have p4: "p + 4 \<le> length data" by simp
  obtain v where v: "read_u32 data p = Ok v" using read_u32_Ok [OF p4] by blast
  define h where "h = hash4 v (ms_hash_log st)"
  have h: "h < length (ms_table st)" using st(1) hash4_less by (simp add: h_def fast_inv_def)
  obtain st1 where st1: "fast_put data p st = Ok st1" "fast_inv (Suc p) st1" using fast_put_Ok [OF st(1) p4] by blast
  have skip: "scanning data W start e rep fast_inv (p + 1) (st1, anchor, acc)"
    using st st1(2) e by (simp add: scanning_def)
  note run = fast_step_def eq Let_def prod.case v obind_simps idx_Ok [OF h] h_def [symmetric] st1(1)
  define c where "c = nat (ms_table st ! h)"
  show ?thesis
  proof (cases "ms_table st ! h < 0")
    case True
    then show ?thesis using skip by (simp add: run del: split_paired_Ex)
  next
    case False
    then have c: "c < p" using earlier_nth [OF _ h] st(1) by (simp add: c_def fast_inv_def)
    obtain vc where vc: "read_u32 data c = Ok vc" using read_u32_Ok [of c data] c p4 by simp
    show ?thesis
    proof (cases "R < p - c \<or> p - c < 1 \<or> vc \<noteq> v")
      case True
      then show ?thesis using skip False c vc by (auto simp: run c_def [symmetric] simp del: split_paired_Ex)
    next
      case ok: False
      then obtain ml where ml: "common_len data c p e = Ok ml" "4 \<le> ml" "is_match data e p ml (p - c)"
        using words_match [OF _ v c e(4,1)] vc by auto
      have "3 \<le> ml" "p - c \<le> W" using ml(2) ok R by simp_all
      from push_seq_Ok [OF st(4,2) ml(3) this e(3,1,2)] obtain acc' where
        acc: "push_seq data anchor p ml (p - c) acc = Ok acc'" "parsed_to data W start rep (p + ml) acc'" by blast
      obtain st2 where st2: "ofold (fast_put data) [p + 1..<min (p + ml) (lim + 1)] st1 = Ok st2" "fast_inv (p + ml) st2"
        using fast_fill_Ok [of "p + 1" st1 "p + ml" lim data] st1(2) ml(2) lim e(1) by (auto simp: MIN_MATCH_def)
      have "fast_step data e R lim p s = Ok (p + ml, st2, p + ml, acc')"
        using False ok c vc ml(1) acc(1) st2(1) by (simp add: run c_def [symmetric])
      then show ?thesis using st2(2) acc(2) ml(2,3) by (auto simp: scanning_def is_match_def simp del: split_paired_Ex)
    qed
  qed
qed

lemma parse_block_parses:
  assumes "block_fits data W start e" and "rep_within W rep" and "fast_inv start st" and R: "R \<le> W"
  shows "parses data W start e rep fast_inv (parse_block data start e st R rep)"
  unfolding parse_block_def
proof (rule parse_around_parses [where I = fast_inv, OF assms(1-3)])
  show "fast_inv q st" if "fast_inv p st" "p \<le> q" for p q st using that by (rule fast_inv_mono)
  fix lim assume lim: "e = lim + MIN_MATCH" "start < lim"
  have "scanning data W start e rep fast_inv start (st, start, [], [], rep)"
    using assms by (simp add: scanning_def parsed_to_start block_fits_def)
  from scan_Ok [of "scanning data W start e rep fast_inv" start _ lim, OF this] fast_step_Ok [OF assms(1) lim(1) _ _ R]
  show "\<exists>p s. scan (fast_step data e R lim) lim start (st, start, [], [], rep) = Ok s \<and> scanning data W start e rep fast_inv p s"
    by blast
qed

section \<open>The double-fast finder\<close>

definition dfast_inv :: "nat \<Rightarrow> dfast_state \<Rightarrow> bool" where
  "dfast_inv p st \<longleftrightarrow> df_long_log st \<le> 32 \<and> df_short_log st \<le> 32 \<and> length (df_long st) = 2 ^ df_long_log st
     \<and> length (df_short st) = 2 ^ df_short_log st \<and> earlier p (df_long st) \<and> earlier p (df_short st)"

lemma dfast_inv_mono: "dfast_inv p st \<Longrightarrow> p \<le> q \<Longrightarrow> dfast_inv q st"
  by (auto simp: dfast_inv_def intro: earlier_mono)

lemma dfast_inv_new: "dfast_inv p (dfast_state_new long_log short_log)"
  using clamp_to_le [of MIN_HASH_LOG MAX_HASH_LOG long_log] clamp_to_le [of MIN_HASH_LOG MAX_HASH_LOG short_log]
  by (simp add: dfast_state_new_def dfast_inv_def earlier_new Let_def MIN_HASH_LOG_def MAX_HASH_LOG_def)

lemma dfast_inv_reduce: "dfast_inv p st \<Longrightarrow> n \<le> p \<Longrightarrow> dfast_inv (p - n) (dfast_reduce n st)"
  by (simp add: dfast_reduce_def dfast_inv_def earlier_reduce)

lemma dfast_put_Ok:
  assumes "dfast_inv p st" and "p \<le> q" and "q \<le> p + 1"
  shows "\<exists>st'. dfast_put_short v (q - 0) st = Ok st' \<and> dfast_inv (Suc q) st'"
    and "\<exists>st'. dfast_put_long w q st = Ok st' \<and> dfast_inv (Suc q) st'"
  using assms hash4_less [of "df_short_log st" v] hash8_less [of "df_long_log st" w]
  by (auto simp: dfast_put_short_def dfast_put_long_def dfast_inv_def intro: earlier_update earlier_mono)

text \<open>Entering \<open>q\<close> again where it has been entered already.\<close>

lemma dfast_put_again:
  assumes "dfast_inv (Suc q) st"
  shows "\<exists>st'. dfast_put_short v q st = Ok st' \<and> dfast_inv (Suc q) st'"
    and "\<exists>st'. dfast_put_long w q st = Ok st' \<and> dfast_inv (Suc q) st'"
proof -
  have up: "earlier (Suc q) (table[i := as_i32 q])" if "earlier (Suc q) table" for table i
    using that as_i32_le [of q] set_update_subset_insert [of table i "as_i32 q"] by (fastforce simp: earlier_def)
  show "\<exists>st'. dfast_put_short v q st = Ok st' \<and> dfast_inv (Suc q) st'" "\<exists>st'. dfast_put_long w q st = Ok st' \<and> dfast_inv (Suc q) st'"
    using assms hash4_less [of "df_short_log st" v] hash8_less [of "df_long_log st" w] up
    by (simp_all add: dfast_put_short_def dfast_put_long_def dfast_inv_def)
qed

lemma dfast_insert_Ok:
  assumes "dfast_inv p st" and "p \<le> q" and "q + 4 \<le> length data" and "e \<le> length data"
  shows "\<exists>st'. dfast_insert data e q st = Ok st' \<and> dfast_inv (Suc q) st'"
proof -
  have "dfast_inv (Suc q) st" using dfast_inv_mono [OF assms(1)] assms(2) by simp
  note again = dfast_put_again [OF this]
  show ?thesis
  proof (cases "q + 8 \<le> e")
    case True
    then have r: "read_u64 data q = Ok (from_le_bytes (take 8 (drop q data)))" using assms(4) by (intro read_u64_Ok) simp
    obtain st1 where st1: "dfast_put_short (ucast (from_le_bytes (take 8 (drop q data)) :: u64)) q st = Ok st1" "dfast_inv (Suc q) st1"
      using again(1) by blast
    then show ?thesis using dfast_put_again(2) [OF st1(2)] True r by (simp add: dfast_insert_def)
  next
    case False
    then show ?thesis using again(1) assms(3) by (simp add: dfast_insert_def read_u32_Ok)
  qed
qed

lemma dfast_fill_Ok:
  assumes "dfast_inv p st" and "p \<le> q" and "lim + 4 \<le> length data" and "e \<le> length data"
  shows "\<exists>st'. ofold (dfast_insert data e) [p..<min q (lim + 1)] st = Ok st' \<and> dfast_inv q st'"
proof (cases "p \<le> min q (lim + 1)")
  case True
  have "\<exists>st'. ofold (dfast_insert data e) [p..<min q (lim + 1)] st = Ok st' \<and> dfast_inv (min q (lim + 1)) st'"
    by (rule ofold_upt [OF _ True]) (use assms dfast_insert_Ok in auto)
  then show ?thesis using dfast_inv_mono by fastforce
next
  case False
  then have none: "[p..<min q (lim + 1)] = []" by (intro upt_conv_Nil) linarith
  show ?thesis unfolding none using dfast_inv_mono [OF assms(1,2)] by simp
qed

text \<open>The four bytes that the probe returns are those at the position.\<close>

lemma low_word: "length bs = 8 \<Longrightarrow> (ucast (from_le_bytes bs :: u64) :: u32) = from_le_bytes (take 4 bs)"
proof -
  assume len: "length bs = 8"
  have "unat (ucast (from_le_bytes bs :: u64) :: u32) = le_val bs mod 2 ^ 32"
    using le_val_bound [of bs] len by (simp add: unsigned_ucast_eq take_bit_eq_mod unat_from_le_bytes)
  also have "\<dots> = le_val (take 4 bs)" by (simp add: le_val_take)
  also have "\<dots> = unat (from_le_bytes (take 4 bs) :: u32)"
    using le_val_bound [of "take 4 bs"] len by (simp add: unat_from_le_bytes)
  finally show ?thesis by (simp add: word_unat_eq_iff)
qed

lemma dfast_probe_Ok:
  assumes st: "dfast_inv p st" and p: "p + 4 \<le> length data" "e \<le> length data"
  shows "\<exists>cl cs v st'. dfast_probe data e p st = Ok (cl, cs, v, st') \<and> dfast_inv (Suc p) st' \<and> read_u32 data p = Ok v
    \<and> cl < int p \<and> cs < int p"
proof -
  have "\<exists>cl v st1. (if p + 8 \<le> e then
              obind (read_u64 data p) (\<lambda>v64.
              obind (idx (df_long st) (hash8 v64 (df_long_log st))) (\<lambda>c.
              obind (dfast_put_long v64 p st) (\<lambda>st.
              Ok (c, ucast v64, st))))
            else obind (read_u32 data p) (\<lambda>v. Ok (- 1, v, st))) = Ok (cl, v, st1) \<and> dfast_inv (Suc p) st1
      \<and> read_u32 data p = Ok v \<and> cl < int p \<and> df_short st1 = df_short st \<and> df_short_log st1 = df_short_log st"
  proof (cases "p + 8 \<le> e")
    case True
    let ?v = "from_le_bytes (take 8 (drop p data)) :: u64"
    have r: "read_u64 data p = Ok ?v" using True p by (intro read_u64_Ok) simp
    have l: "length (take 8 (drop p data)) = 8" using True p by simp
    have h: "hash8 ?v (df_long_log st) < length (df_long st)" using st hash8_less by (simp add: dfast_inv_def)
    obtain st1 where st1: "dfast_put_long ?v p st = Ok st1" "dfast_inv (Suc p) st1" using dfast_put_Ok(2) [OF st] by fastforce
    have "df_short st1 = df_short st" "df_short_log st1 = df_short_log st"
      using st1(1) by (auto simp: dfast_put_long_def outcome_simps)
    moreover have "df_long st ! hash8 ?v (df_long_log st) < int p" using st h by (simp add: dfast_inv_def earlier_def)
    ultimately show ?thesis using True r st1 h low_word [OF l] p by (simp add: read_u32_Ok)
  next
    case False
    then show ?thesis using st dfast_inv_mono [OF st, of "Suc p"] p by (simp add: read_u32_Ok)
  qed
  then obtain cl v st1 where 1: "(if p + 8 \<le> e then
              obind (read_u64 data p) (\<lambda>v64.
              obind (idx (df_long st) (hash8 v64 (df_long_log st))) (\<lambda>c.
              obind (dfast_put_long v64 p st) (\<lambda>st.
              Ok (c, ucast v64, st))))
            else obind (read_u32 data p) (\<lambda>v. Ok (- 1, v, st))) = Ok (cl, v, st1)" "dfast_inv (Suc p) st1"
      "read_u32 data p = Ok v" "cl < int p" "df_short st1 = df_short st" "df_short_log st1 = df_short_log st" by blast
  have h: "hash4 v (df_short_log st1) < length (df_short st1)" using 1(2) hash4_less by (simp add: dfast_inv_def)
  have "df_short st1 ! hash4 v (df_short_log st1) < int p" using st h 1(5,6) by (simp add: dfast_inv_def earlier_def)
  moreover obtain st2 where "dfast_put_short v p st1 = Ok st2" "dfast_inv (Suc p) st2" using dfast_put_again(1) [OF 1(2)] by blast
  ultimately show ?thesis using h 1(3,4) unfolding dfast_probe_def 1(1) by simp
qed

lemma dfast_candidate_Ok:
  assumes "good_pair data W e p best" and v: "read_u32 data p = Ok v" and "cand < int p" and "p + 4 \<le> e" and "e \<le> length data"
    and R: "R \<le> W"
  shows "\<exists>best'. dfast_candidate data e R p v cand best = Ok best' \<and> good_pair data W e p best'"
proof (cases "cand < 0 \<or> R < p - nat cand")
  case True
  then show ?thesis using assms by (auto simp: dfast_candidate_def simp del: split_paired_Ex)
next
  case False
  define c where "c = nat cand"
  have c: "c < p" using assms(3) False by (simp add: c_def nat_less_iff)
  obtain vc where vc: "read_u32 data c = Ok vc" using read_u32_Ok [of c data] c assms(4,5) by simp
  show ?thesis
  proof (cases "vc = v")
    case True
    then obtain ml where ml: "common_len data c p e = Ok ml" "is_match data e p ml (p - c)"
      using words_match [OF _ v c assms(4,5)] vc by auto
    then have "good_pair data W e p (if fst best < ml then (ml, p - c) else best)"
      using assms(1) False R by (simp add: good_pair_def c_def)
    then show ?thesis using False True vc c ml(1)
      by (simp add: dfast_candidate_def Let_def c_def [symmetric] del: split_paired_Ex)
  next
    case False': False
    then show ?thesis using False vc c assms(1)
      by (simp add: dfast_candidate_def Let_def c_def [symmetric] del: split_paired_Ex)
  qed
qed

lemma dfast_step_Ok:
  assumes fit: "block_fits data W start e" and lim: "e = lim + MIN_MATCH" "p \<le> lim"
    and s: "scanning data W start e rep dfast_inv p s" and R: "R \<le> W"
  shows "\<exists>p' s'. dfast_step data e R lim p s = Ok (p', s') \<and> p < p' \<and> scanning data W start e rep dfast_inv p' s'"
proof -
  obtain st anchor seqs literals rp where eq: "s = (st, anchor, seqs, literals, rp)" by (cases s)
  have st: "dfast_inv p st" "anchor \<le> p" "p \<le> e" "parsed_to data W start rep anchor (seqs, literals, rp)"
    using s by (simp_all add: scanning_def eq)
  have e: "e \<le> length data" "e - start \<le> BLOCK_SIZE_MAX" "W + 3 < 2 ^ 32" "p + 4 \<le> e"
    using fit lim by (simp_all add: block_fits_def MIN_MATCH_def)
  have rp: "rep_within W rp" using st(4) by (simp add: parsed_to_def)
  obtain cl cs v st1 where pr: "dfast_probe data e p st = Ok (cl, cs, v, st1)" "dfast_inv (Suc p) st1" "read_u32 data p = Ok v"
    "cl < int p" "cs < int p" using dfast_probe_Ok [OF st(1) _ e(1)] e by auto
  have "good_pair data W e p (MIN_MATCH - 1, 0)" by (simp add: good_pair_def MIN_MATCH_def)
  from dfast_candidate_Ok [OF this pr(3,4) e(4,1) R] obtain b1 where
    b1: "dfast_candidate data e R p v cl (MIN_MATCH - 1, 0) = Ok b1" "good_pair data W e p b1" by blast
  from dfast_candidate_Ok [OF b1(2) pr(3,5) e(4,1) R] obtain b2 where
    b2: "dfast_candidate data e R p v cs b1 = Ok b2" "good_pair data W e p b2" by blast
  obtain rc where rc: "rep_match_at data p e rp (p = anchor) = Ok rc" "good_pair data W e p rc"
    using rep_match_at_Ok [OF rp st(3) e(1)] by blast
  define best where "best = (if MIN_MATCH \<le> fst rc \<and> fst b2 \<le> fst rc then rc else b2)"
  have best: "good_pair data W e p best" using b2(2) rc(2) by (simp add: best_def)
  have run: "dfast_step data e R lim p s = (if fst best < MIN_MATCH then Ok (p + 1, st1, anchor, seqs, literals, rp)
      else obind (push_seq data anchor p (fst best) (snd best) (seqs, literals, rp)) (\<lambda>acc.
        obind (ofold (dfast_insert data e) [p + 1..<min (p + fst best) (lim + 1)] st1) (\<lambda>st.
        Ok (p + fst best, st, p + fst best, acc))))"
    by (cases rc; cases b2) (simp add: dfast_step_def eq pr(1) b1(1) [unfolded One_nat_def] b2(1) rc(1) best_def Let_def)
  show ?thesis
  proof (cases "fst best < MIN_MATCH")
    case True
    then show ?thesis using st pr(2) e by (simp add: run scanning_def)
  next
    case False
    then have m: "is_match data e p (fst best) (snd best)" "snd best \<le> W" "3 \<le> fst best"
      using best by (simp_all add: good_pair_def MIN_MATCH_def)
    from push_seq_Ok [OF st(4,2) m(1,3,2) e(3,1,2)] obtain acc' where
      acc: "push_seq data anchor p (fst best) (snd best) (seqs, literals, rp) = Ok acc'" "parsed_to data W start rep (p + fst best) acc'" by blast
    obtain st2 where st2: "ofold (dfast_insert data e) [p + 1..<min (p + fst best) (lim + 1)] st1 = Ok st2" "dfast_inv (p + fst best) st2"
      using dfast_fill_Ok [of "p + 1" st1 "p + fst best" lim data e] pr(2) m(3) lim e(1) by (auto simp: MIN_MATCH_def)
    have "dfast_step data e R lim p s = Ok (p + fst best, st2, p + fst best, acc')"
      using False acc(1) st2(1) by (simp add: run)
    then show ?thesis using st2(2) acc(2) m by (auto simp: scanning_def is_match_def simp del: split_paired_Ex)
  qed
qed

lemma dfast_parse_block_parses:
  assumes "block_fits data W start e" and "rep_within W rep" and "dfast_inv start st" and R: "R \<le> W"
  shows "parses data W start e rep dfast_inv (dfast_parse_block data start e st R rep)"
  unfolding dfast_parse_block_def
proof (rule parse_around_parses [where I = dfast_inv, OF assms(1-3)])
  show "dfast_inv q st" if "dfast_inv p st" "p \<le> q" for p q st using that by (rule dfast_inv_mono)
  fix lim assume lim: "e = lim + MIN_MATCH" "start < lim"
  have "scanning data W start e rep dfast_inv start (st, start, [], [], rep)"
    using assms by (simp add: scanning_def parsed_to_start block_fits_def)
  from scan_Ok [of "scanning data W start e rep dfast_inv" start _ lim, OF this] dfast_step_Ok [OF assms(1) lim(1) _ _ R]
  show "\<exists>p s. scan (dfast_step data e R lim) lim start (st, start, [], [], rep) = Ok s \<and> scanning data W start e rep dfast_inv p s"
    by blast
qed

end
