(* ===== verification/Lz_Lazy.thy ===== *)
theory Lz_Lazy
  imports Lz_Fast
begin

text \<open>
  The lazy parsers of \<^verbatim>\<open>src/encode/lz.rs\<close> and the hash chain they search. The parse loop (greedy, one or
  two steps of look-ahead, weighed by gain) is the same over the hash chain and over the hybrid of chain
  and binary tree; it relies on an index of positions by two laws only, the interface
  \<open>position_index\<close>: entering a position returns and keeps the index's invariant, and the match it
  answers with is one of the data within the window.
\<close>

section \<open>The parse loop\<close>

text \<open>\<open>put data e q\<close> enters a position, \<open>best data e rep ip ll0\<close> answers with a length and a distance.
  The positions before \<open>inserted\<close> are entered.\<close>

fun lazy_ahead ::
  "(byte list \<Rightarrow> nat \<Rightarrow> nat \<Rightarrow> 's \<Rightarrow> 's result) \<Rightarrow> (byte list \<Rightarrow> nat \<Rightarrow> rep_offsets \<Rightarrow> nat \<Rightarrow> bool \<Rightarrow> 's \<Rightarrow> (nat \<times> nat) result)
     \<Rightarrow> byte list \<Rightarrow> nat \<Rightarrow> nat \<Rightarrow> rep_offsets \<Rightarrow> nat \<Rightarrow> 's \<Rightarrow> nat \<Rightarrow> nat \<Rightarrow> nat \<times> nat \<Rightarrow> nat
     \<Rightarrow> ('s \<times> nat \<times> nat \<times> nat \<times> nat) result" where
  "lazy_ahead put best data e ilim rep 0 st inserted ip m cur_obits = Ok (st, inserted, ip, m)"
| "lazy_ahead put best data e ilim rep (Suc steps) st inserted ip m cur_obits =
     (if ilim \<le> ip then Ok (st, inserted, ip, m)
      else
        obind (ofold (put data e) [inserted..<ip + 1] st) (\<lambda>st.
        let inserted = max inserted (ip + 1) in
        obind (best data e rep (ip + 1) False st) (\<lambda>m1.
        obind (offset_bits rep (snd m1) False) (\<lambda>la_obits.
        let gain_cur = int (fst m) * 4 - int cur_obits + 4;
            gain_la = int (fst m1) * 4 - int la_obits in
        if MIN_MATCH \<le> fst m1 \<and> gain_cur < gain_la then
          lazy_ahead put best data e ilim rep steps st inserted (ip + 1) m1 la_obits
        else Ok (st, inserted, ip, m)))))"

definition lazy_step ::
  "(byte list \<Rightarrow> nat \<Rightarrow> nat \<Rightarrow> 's \<Rightarrow> 's result) \<Rightarrow> (byte list \<Rightarrow> nat \<Rightarrow> rep_offsets \<Rightarrow> nat \<Rightarrow> bool \<Rightarrow> 's \<Rightarrow> (nat \<times> nat) result)
     \<Rightarrow> byte list \<Rightarrow> nat \<Rightarrow> nat \<Rightarrow> nat \<Rightarrow> nat \<Rightarrow> ('s \<times> nat) \<times> nat \<times> lz_out \<Rightarrow> (nat \<times> ('s \<times> nat) \<times> nat \<times> lz_out) result" where
  "lazy_step put best data e ilim lazy_steps ip s =
     (let ((st, inserted), anchor, acc) = s; rep = snd (snd acc) in
      obind (ofold (put data e) [inserted..<ip] st) (\<lambda>st.
      let inserted = max inserted ip in
      obind (best data e rep ip (ip = anchor) st) (\<lambda>m.
      if fst m < MIN_MATCH then Ok (ip + 1, (st, inserted), anchor, acc)
      else
        obind (offset_bits rep (snd m) (ip = anchor)) (\<lambda>cur_obits.
        obind (lazy_ahead put best data e ilim rep lazy_steps st inserted ip m cur_obits) (\<lambda>(st, inserted, ip, ml, moff).
        obind (push_seq data anchor ip ml moff acc) (\<lambda>acc.
        obind (ofold (put data e) [inserted..<min (ip + ml) (ilim + 1)] st) (\<lambda>st.
        Ok (ip + ml, (st, max inserted (min (ip + ml) (ilim + 1))), ip + ml, acc))))))))"

definition lazy_parse ::
  "(byte list \<Rightarrow> nat \<Rightarrow> nat \<Rightarrow> 's \<Rightarrow> 's result) \<Rightarrow> (byte list \<Rightarrow> nat \<Rightarrow> rep_offsets \<Rightarrow> nat \<Rightarrow> bool \<Rightarrow> 's \<Rightarrow> (nat \<times> nat) result)
     \<Rightarrow> nat \<Rightarrow> byte list \<Rightarrow> nat \<Rightarrow> nat \<Rightarrow> 's \<Rightarrow> rep_offsets \<Rightarrow> (lz_out \<times> 's) result" where
  "lazy_parse put best lazy_steps data start e st rep =
     obind (parse_around data start e rep (st, start) (\<lambda>ilim s.
       scan (lazy_step put best data e ilim lazy_steps) ilim start (s, start, ([], [], rep)))) (\<lambda>(acc, st, _).
     Ok (acc, st))"

section \<open>The interface of an index\<close>

locale position_index =
  fixes put :: "byte list \<Rightarrow> nat \<Rightarrow> nat \<Rightarrow> 's \<Rightarrow> 's result"
    and best :: "byte list \<Rightarrow> nat \<Rightarrow> rep_offsets \<Rightarrow> nat \<Rightarrow> bool \<Rightarrow> 's \<Rightarrow> (nat \<times> nat) result"
    and W :: nat
    and I :: "byte list \<Rightarrow> nat \<Rightarrow> 's \<Rightarrow> bool"
  assumes put_Ok: "I data p st \<Longrightarrow> p \<le> q \<Longrightarrow> q + 4 \<le> e \<Longrightarrow> e \<le> length data \<Longrightarrow>
      \<exists>st'. put data e q st = Ok st' \<and> I data (Suc q) st'"
    and best_Ok: "I data p st \<Longrightarrow> p \<le> ip \<Longrightarrow> ip + 4 \<le> e \<Longrightarrow> e \<le> length data \<Longrightarrow> rep_within W rep \<Longrightarrow>
      \<exists>m. best data e rep ip ll0 st = Ok m \<and> good_pair data W e ip m"
    and I_mono: "I data p st \<Longrightarrow> p \<le> q \<Longrightarrow> I data q st"
begin

lemma put_range:
  assumes "I data p st" and "n + 3 \<le> e" and "e \<le> length data"
  shows "\<exists>st'. ofold (put data e) [p..<n] st = Ok st' \<and> I data (max p n) st'"
proof (cases "p \<le> n")
  case True
  have "\<exists>st'. ofold (put data e) [p..<n] st = Ok st' \<and> I data n st'"
    by (rule ofold_upt [where P = "I data", OF assms(1) True]) (use put_Ok assms in auto)
  then show ?thesis using True by (simp add: max_def)
next
  case False
  then show ?thesis using assms(1) by simp
qed

definition ahead :: "byte list \<Rightarrow> nat \<Rightarrow> nat \<Rightarrow> nat \<Rightarrow> 's \<times> nat \<times> nat \<times> nat \<times> nat \<Rightarrow> bool" where
  "ahead data e ilim ip r \<longleftrightarrow> (case r of (st, inserted, ip', m) \<Rightarrow> I data inserted st \<and> inserted \<le> Suc ip' \<and> ip \<le> ip' \<and> ip' \<le> ilim
     \<and> MIN_MATCH \<le> fst m \<and> good_pair data W e ip' m)"

lemma lazy_ahead_Ok:
  assumes "I data inserted st" and "inserted \<le> Suc ip" and "ip \<le> ilim" and "e = ilim + 4" and "e \<le> length data"
    and "rep_within W rep" and "MIN_MATCH \<le> fst m" and "good_pair data W e ip m"
  shows "\<exists>r. lazy_ahead put best data e ilim rep steps st inserted ip m cur = Ok r \<and> ahead data e ilim ip r"
  using assms
proof (induction steps arbitrary: st inserted ip m cur)
  case 0
  then show ?case by (cases m) (simp add: ahead_def)
next
  case (Suc steps)
  show ?case
  proof (cases "ilim \<le> ip")
    case True
    then show ?thesis using Suc.prems by (cases m) (simp add: ahead_def)
  next
    case False
    define ins where "ins = max inserted (ip + 1)"
    have "ip + 1 + 3 \<le> e" using Suc.prems(4) False by simp
    from put_range [OF Suc.prems(1) this Suc.prems(5)] obtain st1
      where st1: "ofold (put data e) [inserted..<ip + 1] st = Ok st1" "I data ins st1" by (auto simp: ins_def)
    have ins: "ins = ip + 1" using Suc.prems(2) by (simp add: ins_def)
    obtain m1 where m1: "best data e rep (ip + 1) False st1 = Ok m1" "good_pair data W e (ip + 1) m1"
      using best_Ok [OF st1(2), of "ip + 1" e rep False] Suc.prems(4-6) False ins by auto
    obtain la where la: "offset_bits rep (snd m1) False = Ok la" using offset_bits_Ok by blast
    note run = lazy_ahead.simps(2) if_not_P [OF False] st1(1) obind_simps Let_def m1(1) la
    show ?thesis
    proof (cases "MIN_MATCH \<le> fst m1 \<and> int (fst m) * 4 - int cur + 4 < int (fst m1) * 4 - int la")
      case True
      have "\<exists>r. lazy_ahead put best data e ilim rep steps st1 (ip + 1) (ip + 1) m1 la = Ok r \<and> ahead data e ilim (ip + 1) r"
        by (rule Suc.IH) (use st1(2) ins Suc.prems False True m1(2) in simp_all)
      then show ?thesis using True ins unfolding run ins_def [symmetric] by (auto simp: ahead_def)
    next
      case no: False
      have "ahead data e ilim ip (st1, ip + 1, ip, m)"
        using st1(2) ins Suc.prems by (cases m) (simp add: ahead_def)
      then show ?thesis using no ins unfolding run ins_def [symmetric] by (auto simp del: split_paired_Ex)
    qed
  qed
qed

definition lazy_inv :: "byte list \<Rightarrow> nat \<Rightarrow> 's \<times> nat \<Rightarrow> bool" where
  "lazy_inv data p s \<longleftrightarrow> I data (snd s) (fst s) \<and> snd s \<le> p"

lemma lazy_step_Ok:
  assumes fit: "block_fits data W start e" and ilim: "e = ilim + MIN_MATCH" "ip \<le> ilim"
    and s: "scanning data W start e rep (lazy_inv data) ip s"
  shows "\<exists>p' s'. lazy_step put best data e ilim lazy_steps ip s = Ok (p', s') \<and> ip < p' \<and> scanning data W start e rep (lazy_inv data) p' s'"
proof -
  obtain st ins anchor seqs literals rp where eq: "s = ((st, ins), anchor, seqs, literals, rp)" by (cases s) auto
  have st: "I data ins st" "ins \<le> ip" "anchor \<le> ip" "parsed_to data W start rep anchor (seqs, literals, rp)"
    using s by (simp_all add: scanning_def eq lazy_inv_def)
  have e: "e \<le> length data" "e - start \<le> BLOCK_SIZE_MAX" "W + 3 < 2 ^ 32" "e = ilim + 4" "ip + 3 \<le> e" "ip + 4 \<le> e"
    using fit ilim by (simp_all add: block_fits_def MIN_MATCH_def)
  have rp: "rep_within W rp" using st(4) by (simp add: parsed_to_def)
  obtain st1 where st1: "ofold (put data e) [ins..<ip] st = Ok st1" "I data ip st1"
    using put_range [OF st(1) e(5,1)] st(2) by (auto simp: max_absorb2)
  obtain m where m: "best data e rp ip (ip = anchor) st1 = Ok m" "good_pair data W e ip m"
    using best_Ok [OF st1(2) order.refl e(6,1) rp] by blast
  note run = lazy_step_def eq Let_def prod.case snd_conv st1(1) obind_simps max_absorb2 [OF st(2)] m(1)
  show ?thesis
  proof (cases "fst m < MIN_MATCH")
    case True
    then show ?thesis using st st1(2) e(5) by (simp add: run scanning_def lazy_inv_def)
  next
    case False
    obtain cur where cur: "offset_bits rp (snd m) (ip = anchor) = Ok cur" using offset_bits_Ok by blast
    have "\<exists>r. lazy_ahead put best data e ilim rp lazy_steps st1 ip ip m cur = Ok r \<and> ahead data e ilim ip r"
      by (rule lazy_ahead_Ok [OF st1(2) _ ilim(2) e(4,1) rp _ m(2)]) (use False in simp_all)
    then obtain st2 ins2 ip2 ml moff where a: "lazy_ahead put best data e ilim rp lazy_steps st1 ip ip m cur = Ok (st2, ins2, ip2, ml, moff)"
      "I data ins2 st2" "ins2 \<le> Suc ip2" "ip \<le> ip2" "ip2 \<le> ilim" "MIN_MATCH \<le> ml" "good_pair data W e ip2 (ml, moff)"
      by (auto simp: ahead_def)
    have k: "is_match data e ip2 ml moff" "moff \<le> W" "3 \<le> ml" "anchor \<le> ip2"
      using a(4,6,7) st(3) by (simp_all add: good_pair_def MIN_MATCH_def)
    from push_seq_Ok [OF st(4) k(4,1,3,2) e(3,1,2)] obtain acc where
      acc: "push_seq data anchor ip2 ml moff (seqs, literals, rp) = Ok acc" "parsed_to data W start rep (ip2 + ml) acc" by blast
    define n where "n = min (ip2 + ml) (ilim + 1)"
    have n: "n \<le> ip2 + ml" "n + 3 \<le> e" using e(4) by (auto simp: n_def)
    obtain st3 where st3: "ofold (put data e) [ins2..<n] st2 = Ok st3" "I data (max ins2 n) st3"
      using put_range [OF a(2) n(2) e(1)] by blast
    have "lazy_step put best data e ilim lazy_steps ip s = Ok (ip2 + ml, (st3, max ins2 n), ip2 + ml, acc)"
      using False cur a(1) acc(1) st3(1) by (simp add: run n_def)
    moreover have "max ins2 n \<le> ip2 + ml" using a(3) k(3) n(1) by simp
    ultimately show ?thesis using st3(2) acc(2) k(1,3) a(4)
      by (auto simp: scanning_def lazy_inv_def is_match_def simp del: split_paired_Ex)
  qed
qed

lemma lazy_parse_parses:
  assumes "block_fits data W start e" and "rep_within W rep" and "I data start st"
  shows "parses data W start e rep (I data) (lazy_parse put best lazy_steps data start e st rep)"
proof -
  have "parses data W start e rep (lazy_inv data) (parse_around data start e rep (st, start) (\<lambda>ilim s.
       scan (lazy_step put best data e ilim lazy_steps) ilim start (s, start, ([], [], rep))))"
  proof (rule parse_around_parses [where I = "lazy_inv data", OF assms(1,2)])
    show "lazy_inv data start (st, start)" using assms(3) by (simp add: lazy_inv_def)
    show "lazy_inv data q s" if "lazy_inv data p s" "p \<le> q" for p q s using that by (simp add: lazy_inv_def)
    fix ilim assume ilim: "e = ilim + MIN_MATCH" "start < ilim"
    have "scanning data W start e rep (lazy_inv data) start ((st, start), start, [], [], rep)"
      using assms by (simp add: scanning_def parsed_to_start block_fits_def lazy_inv_def)
    from scan_Ok [of "scanning data W start e rep (lazy_inv data)" start _ ilim, OF this] lazy_step_Ok [OF assms(1) ilim(1)]
    show "\<exists>p s. scan (lazy_step put best data e ilim lazy_steps) ilim start ((st, start), start, [], [], rep) = Ok s
        \<and> scanning data W start e rep (lazy_inv data) p s" by blast
  qed
  then show ?thesis using I_mono by (fastforce simp: parses_def lazy_parse_def lazy_inv_def)
qed

end

end
