(* ===== verification/Lz_Chain.thy ===== *)
theory Lz_Chain
  imports Lz_Lazy
begin

text \<open>
  The hash chain of \<^verbatim>\<open>src/encode/lz.rs\<close>: the last position per hash, and for each position the one
  before it with the same hash, in a ring. A walk follows the links while they recede. The chain is an
  index of positions in the sense of \<open>position_index\<close>; the ring may hold anything.
\<close>

unbundle bit_operations_syntax

section \<open>State and operations\<close>

record chain_state =
  ch_head :: "int list"
  ch_chain :: "int list"
  ch_hash_log :: nat
  ch_mask :: nat
  ch_mls :: nat

definition chain_state_new :: "nat \<Rightarrow> nat \<Rightarrow> nat \<Rightarrow> chain_state" where
  "chain_state_new hash_log chain_log mls =
     (let hash_log = clamp_to MIN_HASH_LOG MAX_HASH_LOG hash_log;
          chain_log = clamp_to MIN_HASH_LOG MAX_HASH_LOG chain_log in
      \<lparr>ch_head = replicate (2 ^ hash_log) (- 1), ch_chain = replicate (2 ^ chain_log) (- 1), ch_hash_log = hash_log,
       ch_mask = 2 ^ chain_log - 1, ch_mls = clamp_to 4 6 mls\<rparr>)"

definition chain_insert :: "byte list \<Rightarrow> nat \<Rightarrow> chain_state \<Rightarrow> chain_state result" where
  "chain_insert data pos st =
     obind (hash_pos data pos (ch_hash_log st) (ch_mls st)) (\<lambda>h.
     obind (idx (ch_head st) h) (\<lambda>prev.
     obind (upd (ch_chain st) (pos AND ch_mask st) prev) (\<lambda>chain.
     obind (upd (ch_head st) h (as_i32 pos)) (\<lambda>head.
     Ok (st\<lparr>ch_chain := chain, ch_head := head\<rparr>)))))"

definition chain_slide_period :: "chain_state \<Rightarrow> nat" where
  "chain_slide_period st = ch_mask st + 1"

definition chain_reduce :: "nat \<Rightarrow> chain_state \<Rightarrow> chain_state" where
  "chain_reduce n st = st\<lparr>ch_head := reduce_index_table n (ch_head st), ch_chain := reduce_index_table n (ch_chain st)\<rparr>"

text \<open>The length of the match at a candidate that could beat the best so far; 0 where it cannot.\<close>

definition chain_extend :: "byte list \<Rightarrow> nat \<Rightarrow> nat \<Rightarrow> nat \<Rightarrow> nat \<Rightarrow> nat \<Rightarrow> nat result" where
  "chain_extend data e ext_end ip c best_ml =
     (if ip + best_ml < e then
        obind (idx data (c + best_ml)) (\<lambda>x.
        obind (idx data (ip + best_ml)) (\<lambda>y.
        if x = y then common_len data c ip ext_end else Ok 0))
      else Ok 0)"

text \<open>The walks of \<open>find\<close> and \<open>find_matches\<close>; the first argument is what is left of the depth.\<close>

fun chain_find_loop ::
  "nat \<Rightarrow> byte list \<Rightarrow> nat \<Rightarrow> nat \<Rightarrow> nat \<Rightarrow> chain_state \<Rightarrow> int \<Rightarrow> nat \<times> nat \<Rightarrow> (nat \<times> nat) result" where
  "chain_find_loop 0 data ip e max_offset st cand best = Ok best"
| "chain_find_loop (Suc n) data ip e max_offset st cand best =
     (if cand < 0 then Ok best
      else
        let c = nat cand in
        obind (usub ip c) (\<lambda>offset.
        if max_offset < offset then Ok best
        else
          obind (chain_extend data e e ip c (fst best)) (\<lambda>ml.
          let best = (if fst best < ml then (ml, c) else best) in
          obind (idx (ch_chain st) (c AND ch_mask st)) (\<lambda>nxt.
          if nxt < 0 \<or> c \<le> nat nxt then Ok best
          else chain_find_loop n data ip e max_offset st nxt best))))"

definition chain_find :: "chain_state \<Rightarrow> byte list \<Rightarrow> nat \<Rightarrow> nat \<Rightarrow> nat \<Rightarrow> nat \<Rightarrow> (nat \<times> nat) result" where
  "chain_find st data ip e max_offset depth =
     obind (hash_pos data ip (ch_hash_log st) (ch_mls st)) (\<lambda>h.
     obind (idx (ch_head st) h) (\<lambda>cand.
     obind (chain_find_loop depth data ip e max_offset st cand (MIN_MATCH - 1, 0)) (\<lambda>best.
     Ok (if MIN_MATCH \<le> fst best then best else (0, 0)))))"

text \<open>The matches found, as \<open>(length, offset)\<close>, are appended to \<open>out\<close>.\<close>

fun chain_matches_loop ::
  "nat \<Rightarrow> byte list \<Rightarrow> nat \<Rightarrow> nat \<Rightarrow> nat \<Rightarrow> nat \<Rightarrow> chain_state \<Rightarrow> int \<Rightarrow> nat \<Rightarrow> (nat \<times> nat) list \<Rightarrow> (nat \<times> nat) list result" where
  "chain_matches_loop 0 data ip e max_offset cap st cand best_ml out = Ok out"
| "chain_matches_loop (Suc n) data ip e max_offset cap st cand best_ml out =
     (if cand < 0 then Ok out
      else
        let c = nat cand in
        obind (usub ip c) (\<lambda>offset.
        if max_offset < offset then Ok out
        else
          obind (chain_extend data e (min e (ip + cap)) ip c best_ml) (\<lambda>ml.
          let out = (if best_ml < ml then out @ [(as_u32 ml, as_u32 offset)] else out) in
          if best_ml < ml \<and> cap \<le> ml then Ok out
          else
            obind (idx (ch_chain st) (c AND ch_mask st)) (\<lambda>nxt.
            if nxt < 0 \<or> c \<le> nat nxt then Ok out
            else chain_matches_loop n data ip e max_offset cap st nxt (max best_ml ml) out))))"

definition find_matches :: "chain_state \<Rightarrow> byte list \<Rightarrow> nat \<Rightarrow> nat \<Rightarrow> nat \<Rightarrow> nat \<Rightarrow> nat \<Rightarrow> (nat \<times> nat) list result" where
  "find_matches st data ip e max_offset depth cap =
     obind (hash_pos data ip (ch_hash_log st) (ch_mls st)) (\<lambda>h.
     obind (idx (ch_head st) h) (\<lambda>cand.
     chain_matches_loop depth data ip e max_offset cap st cand (MIN_MATCH - 1) []))"

definition best_match_at ::
  "nat \<Rightarrow> nat \<Rightarrow> byte list \<Rightarrow> nat \<Rightarrow> rep_offsets \<Rightarrow> nat \<Rightarrow> bool \<Rightarrow> chain_state \<Rightarrow> (nat \<times> nat) result" where
  "best_match_at max_offset depth data e rep p ll0 st =
     obind (chain_find st data p e max_offset depth) (\<lambda>(cml, cmpos).
     obind (rep_match_at data p e rep ll0) (\<lambda>(rml, roff).
     if MIN_MATCH \<le> rml \<and> cml \<le> rml then Ok (rml, roff)
     else if MIN_MATCH \<le> cml then obind (usub p cmpos) (\<lambda>off. Ok (cml, off))
     else Ok (0, 0)))"

definition lazy_parse_block ::
  "byte list \<Rightarrow> nat \<Rightarrow> nat \<Rightarrow> chain_state \<Rightarrow> nat \<Rightarrow> rep_offsets \<Rightarrow> nat \<Rightarrow> nat \<Rightarrow> (lz_out \<times> chain_state) result" where
  "lazy_parse_block data start e st max_offset rep lazy_steps depth =
     lazy_parse (\<lambda>data e. chain_insert data) (best_match_at max_offset depth) lazy_steps data start e st rep"

section \<open>The walk\<close>

lemma and_ones: "n AND (2 ^ k - 1) < 2 ^ k" for n :: nat
proof -
  have "n AND (2 ^ k - 1) = take_bit k n" by (simp add: take_bit_eq_mask mask_eq_exp_minus_1)
  then show ?thesis by (simp add: take_bit_nat_less_exp)
qed

definition chain_inv :: "nat \<Rightarrow> byte list \<Rightarrow> nat \<Rightarrow> chain_state \<Rightarrow> bool" where
  "chain_inv rc data p st \<longleftrightarrow> ch_hash_log st \<le> 32 \<and> length (ch_head st) = 2 ^ ch_hash_log st \<and> earlier p (ch_head st)
     \<and> ch_mask st + 1 = rc \<and> (\<exists>k. ch_mask st = 2 ^ k - 1 \<and> length (ch_chain st) = 2 ^ k)"

lemma chain_inv_mono: "chain_inv rc data p st \<Longrightarrow> p \<le> q \<Longrightarrow> chain_inv rc data q st"
  by (auto simp: chain_inv_def intro: earlier_mono)

lemma chain_inv_new: "chain_inv (2 ^ clamp_to MIN_HASH_LOG MAX_HASH_LOG chain_log) data p (chain_state_new hash_log chain_log mls)"
  using clamp_to_le [of MIN_HASH_LOG MAX_HASH_LOG hash_log]
  by (auto simp: chain_state_new_def chain_inv_def earlier_new Let_def MIN_HASH_LOG_def MAX_HASH_LOG_def)

lemma chain_inv_reduce: "chain_inv rc data p st \<Longrightarrow> n \<le> p \<Longrightarrow> chain_inv rc data' (p - n) (chain_reduce n st)"
  by (auto simp: chain_reduce_def chain_inv_def earlier_reduce)

lemma chain_slot: "chain_inv rc data p st \<Longrightarrow> c AND ch_mask st < length (ch_chain st)"
  using and_ones by (auto simp: chain_inv_def)

lemma chain_insert_Ok:
  assumes st: "chain_inv rc data p st" and "p \<le> q" and "q + 4 \<le> length data"
  shows "\<exists>st'. chain_insert data q st = Ok st' \<and> chain_inv rc data (Suc q) st'"
proof -
  obtain h where h: "hash_pos data q (ch_hash_log st) (ch_mls st) = Ok h" "h < length (ch_head st)"
    using hash_pos_Ok [OF assms(3), of "ch_hash_log st" "ch_mls st"] st by (auto simp: chain_inv_def)
  have "earlier (Suc q) ((ch_head st)[h := as_i32 q])"
    using st assms(2) by (intro earlier_update) (simp_all add: chain_inv_def)
  then show ?thesis using h st chain_slot [OF st, of q] by (auto simp: chain_insert_def chain_inv_def)
qed

lemma chain_extend_Ok:
  assumes "c < ip" and "ext_end \<le> e" and "ip \<le> ext_end" and "e \<le> length data"
  shows "\<exists>ml. chain_extend data e ext_end ip c best_ml = Ok ml \<and> is_match data ext_end ip ml (ip - c)"
proof -
  obtain ml where "common_len data c ip ext_end = Ok ml" "is_match data ext_end ip ml (ip - c)"
    using common_len_match [OF assms(1,3), of data] assms(2,4) by auto
  moreover have "is_match data ext_end ip 0 (ip - c)" using assms by (simp add: is_match_def agree_upto_def)
  moreover have "c + best_ml < length data" if "ip + best_ml < e" using that assms by simp
  ultimately show ?thesis using assms(4) by (simp add: chain_extend_def)
qed

text \<open>A length with a position (instead of a distance).\<close>

definition good_pos :: "byte list \<Rightarrow> nat \<Rightarrow> nat \<Rightarrow> nat \<Rightarrow> nat \<times> nat \<Rightarrow> bool" where
  "good_pos data W e p c \<longleftrightarrow> (MIN_MATCH \<le> fst c \<longrightarrow> is_match data e p (fst c) (p - snd c) \<and> p - snd c \<le> W \<and> snd c < p)"

lemma chain_find_loop_Ok:
  assumes "chain_inv rc data p st" and "cand < int ip" and "ip \<le> e" and "e \<le> length data" and "good_pos data W e ip best"
  shows "\<exists>best'. chain_find_loop n data ip e W st cand best = Ok best' \<and> good_pos data W e ip best'"
  using assms(2,5)
proof (induction n arbitrary: cand best)
  case 0
  then show ?case by (simp del: split_paired_Ex)
next
  case (Suc n)
  show ?case
  proof (cases "cand < 0 \<or> W < ip - nat cand")
    case True
    moreover have "nat cand \<le> ip" using Suc.prems(1) by linarith
    ultimately have "chain_find_loop (Suc n) data ip e W st cand best = Ok best" by (cases "cand < 0") (simp_all add: Let_def)
    then show ?thesis using Suc.prems(2) by blast
  next
    case False
    define c where "c = nat cand"
    have c: "c < ip" "ip - c \<le> W" "\<not> cand < 0" using Suc.prems(1) False by (simp_all add: c_def nat_less_iff)
    obtain ml where ml: "chain_extend data e e ip c (fst best) = Ok ml" "is_match data e ip ml (ip - c)"
      using chain_extend_Ok [OF c(1) order.refl assms(3,4)] by blast
    define best1 where "best1 = (if fst best < ml then (ml, c) else best)"
    have best1: "good_pos data W e ip best1" using Suc.prems(2) ml(2) c by (simp add: best1_def good_pos_def)
    obtain nxt where nxt: "idx (ch_chain st) (c AND ch_mask st) = (Ok nxt :: int result)" using chain_slot [OF assms(1)] by simp
    have run: "chain_find_loop (Suc n) data ip e W st cand best
      = (if nxt < 0 \<or> c \<le> nat nxt then Ok best1 else chain_find_loop n data ip e W st nxt best1)"
      using c by (simp add: Let_def c_def [symmetric] ml(1) nxt best1_def [symmetric])
    show ?thesis
    proof (cases "nxt < 0 \<or> c \<le> nat nxt")
      case True
      then show ?thesis using best1 unfolding run by (auto simp del: split_paired_Ex)
    next
      case False
      have "nxt < int ip" using False c(1) by linarith
      from Suc.IH [OF this best1] show ?thesis using False unfolding run by (auto simp del: split_paired_Ex)
    qed
  qed
qed

lemma chain_head_Ok:
  assumes st: "chain_inv rc data p st" and "p \<le> ip" and "ip + 4 \<le> length data"
  shows "\<exists>h cand. hash_pos data ip (ch_hash_log st) (ch_mls st) = Ok h \<and> idx (ch_head st) h = (Ok cand :: int result) \<and> cand < int ip"
proof -
  obtain h where h: "hash_pos data ip (ch_hash_log st) (ch_mls st) = Ok h" "h < length (ch_head st)"
    using hash_pos_Ok [OF assms(3), of "ch_hash_log st" "ch_mls st"] st by (auto simp: chain_inv_def)
  then have "ch_head st ! h < int p" using st by (simp add: chain_inv_def earlier_def)
  then show ?thesis using h assms(2) by simp
qed

lemma chain_find_Ok:
  assumes "chain_inv rc data p st" and "p \<le> ip" and "ip + 4 \<le> e" and "e \<le> length data"
  shows "\<exists>c. chain_find st data ip e W depth = Ok c \<and> good_pos data W e ip c"
proof -
  obtain h cand where h: "hash_pos data ip (ch_hash_log st) (ch_mls st) = Ok h" "idx (ch_head st) h = (Ok cand :: int result)" "cand < int ip"
    using chain_head_Ok [OF assms(1,2)] assms(3,4) by auto
  have "good_pos data W e ip (MIN_MATCH - 1, 0)" "good_pos data W e ip (0, 0)" by (simp_all add: good_pos_def MIN_MATCH_def)
  moreover have "ip \<le> e" using assms(3) by simp
  moreover from chain_find_loop_Ok [OF assms(1) h(3) this assms(4) calculation(1), of depth]
  obtain best where "chain_find_loop depth data ip e W st cand (MIN_MATCH - 1, 0) = Ok best" "good_pos data W e ip best" by blast
  ultimately show ?thesis using h(1,2) by (auto simp: chain_find_def simp del: split_paired_Ex)
qed

lemma good_pos_mono: "good_pos data R e p c \<Longrightarrow> R \<le> W \<Longrightarrow> good_pos data W e p c"
  by (auto simp: good_pos_def)

lemma best_match_at_Ok:
  assumes "chain_inv rc data p st" and "p \<le> ip" and "ip + 4 \<le> e" and "e \<le> length data" and "rep_within W rep" and "R \<le> W"
  shows "\<exists>m. best_match_at R depth data e rep ip ll0 st = Ok m \<and> good_pair data W e ip m"
proof -
  obtain cml cpos where c: "chain_find st data ip e R depth = Ok (cml, cpos)" "good_pos data W e ip (cml, cpos)"
    using chain_find_Ok [OF assms(1-4), of R depth] good_pos_mono [OF _ assms(6)] by force
  obtain rml roff where r: "rep_match_at data ip e rep ll0 = Ok (rml, roff)" "good_pair data W e ip (rml, roff)"
    using rep_match_at_Ok [OF assms(5) _ assms(4), of ip ll0] assms(3) by force
  show ?thesis using c(2) r(2) by (auto simp: best_match_at_def c(1) r(1) good_pair_def good_pos_def MIN_MATCH_def)
qed

text \<open>The window of the repeat offsets may be larger than the reach \<open>R\<close> of the search.\<close>

interpretation chain: position_index "\<lambda>data e. chain_insert data" "best_match_at R depth" "max R V" "chain_inv rc" for R V depth rc
proof unfold_locales
  show "\<exists>st'. chain_insert data q st = Ok st' \<and> chain_inv rc data (Suc q) st'"
    if "chain_inv rc data p st" "p \<le> q" "q + 4 \<le> e" "e \<le> length data" for data p st q e
    using chain_insert_Ok that by simp
  show "\<exists>m. best_match_at R depth data e rep ip ll0 st = Ok m \<and> good_pair data (max R V) e ip m"
    if "chain_inv rc data p st" "p \<le> ip" "ip + 4 \<le> e" "e \<le> length data" "rep_within (max R V) rep" for data p st ip e rep ll0
    by (rule best_match_at_Ok [OF that]) simp
  show "chain_inv rc data q st" if "chain_inv rc data p st" "p \<le> q" for data p st q
    by (rule chain_inv_mono [OF that])
qed

lemma lazy_parse_block_parses:
  assumes "block_fits data W start e" and "rep_within W rep" and "chain_inv rc data start st" and "R \<le> W"
  shows "parses data W start e rep (chain_inv rc data) (lazy_parse_block data start e st R rep lazy_steps depth)"
  unfolding lazy_parse_block_def using chain.lazy_parse_parses [where R = R and V = W] assms by (simp add: max_absorb2)

end
