(* ===== verification/Lz_Tree.thy ===== *)
theory Lz_Tree
  imports Lz_Chain
begin

text \<open>
  The binary tree of \<^verbatim>\<open>src/encode/lz.rs\<close>. The tree lives in a ring: a position owns two slots,
  the links to its smaller and its larger subtree, in the order of the suffixes of the data. A descent skips the comparison of a prefix that the order implies, so its matches are real
  only while the tree is ordered. The invariant speaks of reachability among the positions of the ring
  (\<open>ordered\<close>): what is reached through a link of a position lies on the link's side of it.
\<close>

unbundle bit_operations_syntax

section \<open>State and operations\<close>

definition BT_INSERT_CAP :: nat where "BT_INSERT_CAP = 1024"

record bt_state =
  bt_hash :: "int list"
  bt_links :: "int list"
  bt_hash_log :: nat
  bt_mask :: nat

definition bt_state_new :: "nat \<Rightarrow> nat \<Rightarrow> bt_state" where
  "bt_state_new hash_log window_log =
     (let hash_log = clamp_to MIN_HASH_LOG MAX_HASH_LOG hash_log;
          bt_log = clamp_to MIN_HASH_LOG MAX_BT_LOG window_log in
      \<lparr>bt_hash = replicate (2 ^ hash_log) (- 1), bt_links = replicate (2 * 2 ^ bt_log) (- 1), bt_hash_log = hash_log,
       bt_mask = 2 ^ bt_log - 1\<rparr>)"

definition window_low :: "bt_state \<Rightarrow> nat \<Rightarrow> nat \<Rightarrow> nat" where
  "window_low st pos max_offset = pos - min max_offset (bt_mask st + 1)"

definition bt_slide_period :: "bt_state \<Rightarrow> nat" where
  "bt_slide_period st = bt_mask st + 1"

definition bt_reduce :: "nat \<Rightarrow> bt_state \<Rightarrow> bt_state" where
  "bt_reduce n st = st\<lparr>bt_hash := reduce_index_table n (bt_hash st), bt_links := reduce_index_table n (bt_links st)\<rparr>"

definition bt_close :: "int list \<Rightarrow> nat \<Rightarrow> nat \<Rightarrow> int list result" where
  "bt_close bt sp lp = obind (upd bt sp (- 1)) (\<lambda>bt. upd bt lp (- 1))"

text \<open>The descent that inserts \<open>cur\<close>; \<open>grow m n\<close> is the length of the match at \<open>m\<close>, of which \<open>n\<close> bytes are
  known. The slots \<open>sp\<close> and \<open>lp\<close> wait for the next smaller and the next larger position. Each new
  longest match is appended to \<open>out\<close>. The first argument is what is left of \<open>nb_compares\<close>.\<close>

primrec bt_insert_loop ::
  "nat \<Rightarrow> (nat \<Rightarrow> nat \<Rightarrow> nat result) \<Rightarrow> byte list \<Rightarrow> nat \<Rightarrow> nat \<Rightarrow> nat \<Rightarrow> nat \<Rightarrow> nat \<Rightarrow> int list \<Rightarrow> int
     \<Rightarrow> nat \<Rightarrow> nat \<Rightarrow> nat \<Rightarrow> nat \<Rightarrow> nat \<Rightarrow> (nat \<times> nat) list \<Rightarrow> (int list \<times> (nat \<times> nat) list) result" where
  "bt_insert_loop 0 grow data e ext_end cur low msk bt mi sp lp cs cl best_len out =
     obind (bt_close bt sp lp) (\<lambda>bt. Ok (bt, out))"
| "bt_insert_loop (Suc nb) grow data e ext_end cur low msk bt mi sp lp cs cl best_len out =
     (if mi < 0 \<or> nat mi \<le> low then obind (bt_close bt sp lp) (\<lambda>bt. Ok (bt, out))
      else
        let m = nat mi in
        obind (grow m (min cs cl)) (\<lambda>ml.
        obind (usub cur m) (\<lambda>off.
        let out = (if best_len < ml then out @ [(as_u32 ml, as_u32 off)] else out);
            best_len = max best_len ml in
        if cur + ml = e \<or> cur + ml = ext_end then obind (bt_close bt sp lp) (\<lambda>bt. Ok (bt, out))
        else
          let slot = 2 * (m AND msk) in
          obind (idx data (m + ml)) (\<lambda>x.
          obind (idx data (cur + ml)) (\<lambda>y.
          if x < y then
            obind (upd bt sp mi) (\<lambda>bt.
            obind (idx bt (slot + 1)) (\<lambda>nxt.
            bt_insert_loop nb grow data e ext_end cur low msk bt nxt (slot + 1) lp ml cl best_len out))
          else
            obind (upd bt lp mi) (\<lambda>bt.
            obind (idx bt slot) (\<lambda>nxt.
            bt_insert_loop nb grow data e ext_end cur low msk bt nxt sp slot cs ml best_len out)))))))"

definition bt_insert_with ::
  "(nat \<Rightarrow> nat \<Rightarrow> nat result) \<Rightarrow> byte list \<Rightarrow> nat \<Rightarrow> nat \<Rightarrow> nat \<Rightarrow> nat \<Rightarrow> nat \<Rightarrow> bt_state
     \<Rightarrow> (bt_state \<times> (nat \<times> nat) list) result" where
  "bt_insert_with grow data cur e ext_end max_offset nb_compares st =
     obind (read_u32 data cur) (\<lambda>v.
     let h = hash4 v (bt_hash_log st) in
     obind (idx (bt_hash st) h) (\<lambda>mi.
     obind (upd (bt_hash st) h (as_i32 cur)) (\<lambda>heads.
     let slot = 2 * (cur AND bt_mask st) in
     obind (bt_insert_loop nb_compares grow data e ext_end cur (window_low st cur max_offset) (bt_mask st)
              (bt_links st) mi slot (slot + 1) 0 0 0 []) (\<lambda>(bt, out).
     Ok (st\<lparr>bt_hash := heads, bt_links := bt\<rparr>, out)))))"

definition insert_and_get_all_matches ::
  "byte list \<Rightarrow> nat \<Rightarrow> nat \<Rightarrow> nat \<Rightarrow> nat \<Rightarrow> bt_state \<Rightarrow> (bt_state \<times> (nat \<times> nat) list) result" where
  "insert_and_get_all_matches data cur e max_offset nb_compares st =
     bt_insert_with (\<lambda>m n. obind (common_len data (m + n) (cur + n) e) (\<lambda>l. Ok (n + l)))
       data cur e e max_offset nb_compares st"

definition insert_bt1 :: "byte list \<Rightarrow> nat \<Rightarrow> nat \<Rightarrow> nat \<Rightarrow> nat \<Rightarrow> bt_state \<Rightarrow> bt_state result" where
  "insert_bt1 data cur e max_offset nb_compares st =
     (let ext_end = min (cur + BT_INSERT_CAP) e in
      obind (bt_insert_with (\<lambda>m n. common_bytes data m cur (ext_end - cur) n) data cur e ext_end max_offset nb_compares st)
        (\<lambda>(st, _). Ok st))"

text \<open>The read-only descent; \<open>best\<close> is a length and a position.\<close>

primrec bt_find_loop ::
  "nat \<Rightarrow> byte list \<Rightarrow> nat \<Rightarrow> nat \<Rightarrow> nat \<Rightarrow> bt_state \<Rightarrow> int \<Rightarrow> nat \<Rightarrow> nat \<Rightarrow> nat \<times> nat \<Rightarrow> (nat \<times> nat) result" where
  "bt_find_loop 0 data e ip low st mi cs cl best = Ok best"
| "bt_find_loop (Suc nb) data e ip low st mi cs cl best =
     (if mi < 0 \<or> nat mi \<le> low then Ok best
      else
        let m = nat mi; start = min cs cl in
        obind (common_len data (m + start) (ip + start) e) (\<lambda>l.
        let ml = start + l; best = (if fst best < ml then (ml, m) else best) in
        if ip + ml = e then Ok best
        else
          let slot = 2 * (m AND bt_mask st) in
          obind (idx data (m + ml)) (\<lambda>x.
          obind (idx data (ip + ml)) (\<lambda>y.
          if x < y then obind (idx (bt_links st) (slot + 1)) (\<lambda>nxt. bt_find_loop nb data e ip low st nxt ml cl best)
          else obind (idx (bt_links st) slot) (\<lambda>nxt. bt_find_loop nb data e ip low st nxt cs ml best)))))"

definition find_longest :: "bt_state \<Rightarrow> byte list \<Rightarrow> nat \<Rightarrow> nat \<Rightarrow> nat \<Rightarrow> nat \<Rightarrow> (nat \<times> nat) result" where
  "find_longest st data ip e max_offset nb_compares =
     obind (read_u32 data ip) (\<lambda>v.
     obind (idx (bt_hash st) (hash4 v (bt_hash_log st))) (\<lambda>mi.
     bt_find_loop nb_compares data e ip (window_low st ip max_offset) st mi 0 0 (0, 0)))"

definition bt_prime :: "byte list \<Rightarrow> nat \<Rightarrow> nat \<Rightarrow> nat \<Rightarrow> bt_state \<Rightarrow> bt_state result" where
  "bt_prime data dict_len max_offset nb_compares st =
     ofold (\<lambda>p st. insert_bt1 data p dict_len max_offset nb_compares st) [0..<dict_len + 1 - MIN_MATCH] st"

section \<open>The order of the suffixes\<close>

definition suf_less :: "byte list \<Rightarrow> nat \<Rightarrow> nat \<Rightarrow> bool" where
  "suf_less data a b \<longleftrightarrow> (\<exists>k. agree_upto data a b k \<and> a + k < length data \<and> b + k < length data \<and> data ! (a + k) < data ! (b + k))"

lemma suf_irrefl [simp]: "\<not> suf_less data a a"
  by (simp add: suf_less_def)

lemma agree_upto_sym: "agree_upto data a b k \<Longrightarrow> agree_upto data b a k"
  by (simp add: agree_upto_def)

lemma agree_upto_less: "agree_upto data a b k \<Longrightarrow> n \<le> k \<Longrightarrow> agree_upto data a b n"
  by (simp add: agree_upto_def)

lemma agree_upto_trans: "agree_upto data a b k \<Longrightarrow> agree_upto data b c k \<Longrightarrow> agree_upto data a c k"
  by (simp add: agree_upto_def)

lemma suf_trans:
  assumes "suf_less data a b" and "suf_less data b c"
  shows "suf_less data a c"
proof -
  obtain k where k: "agree_upto data a b k" "a + k < length data" "b + k < length data" "data ! (a + k) < data ! (b + k)"
    using assms(1) by (auto simp: suf_less_def)
  obtain n where n: "agree_upto data b c n" "b + n < length data" "c + n < length data" "data ! (b + n) < data ! (c + n)"
    using assms(2) by (auto simp: suf_less_def)
  define i where "i = min k n"
  have "agree_upto data a c i"
    using agree_upto_trans agree_upto_less [OF k(1), of i] agree_upto_less [OF n(1), of i] by (auto simp: i_def)
  moreover have "a + i < length data" "c + i < length data" using k(2) n(3) by (auto simp: i_def)
  moreover have "data ! (a + i) < data ! (c + i)"
  proof (cases "k < n")
    case True
    then have "data ! (b + k) = data ! (c + k)" using n(1) by (simp add: agree_upto_def)
    then show ?thesis using k(4) True by (simp add: i_def)
  next
    case False
    show ?thesis
    proof (cases "k = n")
      case True
      then show ?thesis using k(4) n(4) by (simp add: i_def)
    next
      case ne: False
      then have "data ! (a + n) = data ! (b + n)" using k(1) False by (simp add: agree_upto_def)
      then show ?thesis using n(4) False by (simp add: i_def)
    qed
  qed
  ultimately show ?thesis unfolding suf_less_def by blast
qed

lemma suf_asym: "suf_less data a b \<Longrightarrow> \<not> suf_less data b a"
  using suf_trans suf_irrefl by blast

text \<open>What lies between two suffixes shares the prefix that these have in common.\<close>

lemma suf_at:
  assumes "suf_less data a b" and "agree_upto data a b j" and "data ! (a + j) \<noteq> data ! (b + j)"
  shows "data ! (a + j) < data ! (b + j)"
proof -
  obtain k where k: "agree_upto data a b k" "data ! (a + k) < data ! (b + k)" using assms(1) by (auto simp: suf_less_def)
  have "\<not> j < k" using k(1) assms(3) by (auto simp: agree_upto_def)
  moreover have "\<not> k < j" using k(2) assms(2) by (auto simp: agree_upto_def)
  ultimately have "k = j" by simp
  then show ?thesis using k(2) by simp
qed

lemma between_agree:
  assumes "suf_less data s x" and "suf_less data x l" and "agree_upto data s c n" and "agree_upto data l c n"
  shows "agree_upto data x c n"
proof -
  have "agree_upto data x c j" if "j \<le> n" for j
    using that
  proof (induction j)
    case 0
    then show ?case by (simp add: agree_upto_def)
  next
    case (Suc j)
    then have x: "agree_upto data x c j" by simp
    have c: "data ! (s + j) = data ! (c + j)" "data ! (l + j) = data ! (c + j)"
      using assms(3,4) Suc.prems by (simp_all add: agree_upto_def)
    have "agree_upto data s x j"
      using agree_upto_trans [OF agree_upto_less [OF assms(3)] agree_upto_sym [OF x]] Suc.prems by simp
    then have "data ! (c + j) \<le> data ! (x + j)"
      using suf_at [OF assms(1), of j] c(1) by (cases "data ! (s + j) = data ! (x + j)") auto
    moreover have "agree_upto data x l j"
      using agree_upto_trans [OF x agree_upto_sym [OF agree_upto_less [OF assms(4)]]] Suc.prems by simp
    then have "data ! (x + j) \<le> data ! (c + j)"
      using suf_at [OF assms(2), of j] c(2) by (cases "data ! (x + j) = data ! (l + j)") auto
    ultimately have "data ! (x + j) = data ! (c + j)" by simp
    then show ?case using x by (auto simp: agree_upto_def less_Suc_eq)
  qed
  then show ?thesis by simp
qed

section \<open>The links of the ring\<close>

text \<open>The slot of a link, a link between positions that are alive at \<open>q\<close>, and the side of a position
  that it leads to.\<close>

definition slot_of :: "nat \<Rightarrow> nat \<Rightarrow> bool \<Rightarrow> nat" where
  "slot_of N x d = 2 * (x mod N) + of_bool d"

definition edge :: "int list \<Rightarrow> nat \<Rightarrow> nat \<Rightarrow> bool \<Rightarrow> nat \<Rightarrow> nat \<Rightarrow> bool" where
  "edge bt N q d x y \<longleftrightarrow> q < x + N \<and> q < y + N \<and> bt ! slot_of N x d = int y"

definition estep :: "int list \<Rightarrow> nat \<Rightarrow> nat \<Rightarrow> nat \<Rightarrow> nat \<Rightarrow> bool" where
  "estep bt N q x y \<longleftrightarrow> (\<exists>d. edge bt N q d x y)"

definition down :: "int list \<Rightarrow> nat \<Rightarrow> nat \<Rightarrow> bool \<Rightarrow> nat \<Rightarrow> nat \<Rightarrow> bool" where
  "down bt N q d x z \<longleftrightarrow> (\<exists>y. edge bt N q d x y \<and> (estep bt N q)\<^sup>*\<^sup>* y z)"

definition side :: "byte list \<Rightarrow> bool \<Rightarrow> nat \<Rightarrow> nat \<Rightarrow> bool" where
  "side data d x z = (if d then suf_less data x z else suf_less data z x)"

definition ordered :: "byte list \<Rightarrow> int list \<Rightarrow> nat \<Rightarrow> nat \<Rightarrow> nat set \<Rightarrow> bool" where
  "ordered data bt N q U \<longleftrightarrow> (\<forall>x \<in> U. \<forall>d. (\<forall>y. edge bt N q d x y \<longrightarrow> y \<in> U) \<and> (\<forall>z. down bt N q d x z \<longrightarrow> side data d x z))"

lemma side_irrefl [simp]: "\<not> side data d x x"
  by (simp add: side_def)

lemma side_trans: "side data d x y \<Longrightarrow> side data d y z \<Longrightarrow> side data d x z"
  using suf_trans by (auto simp: side_def split: if_splits)

lemma side_flip: "side data (\<not> d) x y \<longleftrightarrow> side data d y x"
  by (simp add: side_def)

lemma side_asym: "side data d x y \<Longrightarrow> \<not> side data (\<not> d) x y"
  using suf_asym by (auto simp: side_def)

lemma downI: "edge bt N q d x y \<Longrightarrow> down bt N q d x y"
  by (auto simp: down_def)

lemma down_steps: "down bt N q d x y \<Longrightarrow> (estep bt N q)\<^sup>*\<^sup>* y z \<Longrightarrow> down bt N q d x z"
  unfolding down_def by (meson rtranclp_trans)

lemma down_reach: "down bt N q d x y \<Longrightarrow> (estep bt N q)\<^sup>*\<^sup>* x y"
  by (metis down_def estep_def converse_rtranclp_into_rtranclp)

lemma ordered_reach: "ordered data bt N q U \<Longrightarrow> (estep bt N q)\<^sup>*\<^sup>* x z \<Longrightarrow> x \<in> U \<Longrightarrow> z \<in> U"
proof -
  assume o: "ordered data bt N q U" and "(estep bt N q)\<^sup>*\<^sup>* x z" and "x \<in> U"
  from this(2,3) show "z \<in> U" by (induction rule: rtranclp_induct) (use o in \<open>auto simp: ordered_def estep_def\<close>)
qed

lemma ordered_side: "ordered data bt N q U \<Longrightarrow> x \<in> U \<Longrightarrow> down bt N q d x z \<Longrightarrow> side data d x z"
  by (auto simp: ordered_def)

lemma ordered_mono:
  assumes "ordered data bt N q U" and "q \<le> q'"
  shows "ordered data bt N q' U"
proof -
  have e: "edge bt N q d x y" if "edge bt N q' d x y" for d x y using that assms(2) by (auto simp: edge_def)
  have "estep bt N q' \<le> estep bt N q" by (intro predicate2I) (metis e estep_def)
  then have "(estep bt N q')\<^sup>*\<^sup>* y z \<Longrightarrow> (estep bt N q)\<^sup>*\<^sup>* y z" for y z
    by (blast dest: rtranclp_mono)
  then have "down bt N q d x z" if "down bt N q' d x z" for d x z using that e unfolding down_def by blast
  then show ?thesis using assms(1) e unfolding ordered_def by blast
qed

lemma tree_slot_inj:
  assumes "slot_of N x d = slot_of N y d'" and "q < x + N" "q < y + N" "x \<le> q" "y \<le> q"
  shows "x = y \<and> d = d'"
proof -
  have "even (slot_of N x d) \<longleftrightarrow> \<not> d" for x d by (simp add: slot_of_def)
  then have d: "d = d'" using assms(1) by metis
  have "slot_of N x d div 2 = x mod N" for x d by (cases d) (simp_all add: slot_of_def)
  then have m: "x mod N = y mod N" using assms(1) by metis
  have eq: "x = y" if "x mod N = y mod N" "x \<le> y" "q < x + N" "y \<le> q" for x y :: nat
  proof -
    have "N dvd y - x" using that(1,2) mod_eq_dvd_iff_nat [of x y N] by simp
    moreover have "y - x < N" using that by simp
    ultimately have "y - x = 0" by (auto dest: dvd_imp_le)
    then show ?thesis using that(2) by simp
  qed
  show ?thesis using eq [OF m] eq [OF m [symmetric]] d assms(2-5) by (cases "x \<le> y") auto
qed

lemma slot_less: "0 < N \<Longrightarrow> slot_of N x d < 2 * N"
proof -
  assume "0 < N"
  then have "x mod N < N" by simp
  then show ?thesis by (cases d) (simp_all add: slot_of_def)
qed

section \<open>One step of the descent\<close>

text \<open>A link that leads to a position alive at \<open>cur\<close>. A slot that waits, on the side \<open>e\<close> of \<open>cur\<close>: it belongs to \<open>cur\<close> itself, or to
  a position \<open>w\<close> on that side, which shares \<open>c\<close> bytes with \<open>cur\<close> and below which the descent goes on.\<close>

definition live :: "nat \<Rightarrow> nat \<Rightarrow> int \<Rightarrow> bool" where
  "live N cur mi \<longleftrightarrow> 0 \<le> mi \<and> cur < nat mi + N"

definition ptr_ok :: "byte list \<Rightarrow> nat \<Rightarrow> nat set \<Rightarrow> int list \<Rightarrow> nat \<Rightarrow> int \<Rightarrow> bool \<Rightarrow> nat \<Rightarrow> nat \<Rightarrow> nat \<Rightarrow> bool" where
  "ptr_ok data N U bt0 cur mi e p c w \<longleftrightarrow>
     (w = cur \<and> c = 0 \<and> p = slot_of N cur e)
     \<or> (w \<in> U \<and> cur < w + N \<and> p = slot_of N w (\<not> e) \<and> side data e cur w \<and> agree_upto data w cur c
        \<and> (live N cur mi \<longrightarrow> down bt0 N cur (\<not> e) w (nat mi)))"

text \<open>The tree with the waiting slots closed: its links shortcut those of the tree before, and \<open>cur\<close> is
  in its place.\<close>

definition wip :: "byte list \<Rightarrow> nat \<Rightarrow> nat set \<Rightarrow> int list \<Rightarrow> nat \<Rightarrow> int list \<Rightarrow> bool" where
  "wip data N U bt0 cur G \<longleftrightarrow> (\<forall>x \<in> U. \<forall>d y. edge G N cur d x y \<longrightarrow> down bt0 N cur d x y)
     \<and> (\<forall>d y. edge G N cur d cur y \<longrightarrow> y \<in> U \<and> (\<forall>z. (estep G N cur)\<^sup>*\<^sup>* y z \<longrightarrow> side data d cur z))"

definition descent ::
  "byte list \<Rightarrow> nat \<Rightarrow> nat set \<Rightarrow> int list \<Rightarrow> nat \<Rightarrow> int list \<Rightarrow> int \<Rightarrow> bool \<Rightarrow> nat \<Rightarrow> nat \<Rightarrow> nat \<Rightarrow> nat \<Rightarrow> bool" where
  "descent data N U bt0 cur bt mi e pe pf ce cf \<longleftrightarrow>
     (\<exists>w v. ptr_ok data N U bt0 cur mi e pe ce w \<and> ptr_ok data N U bt0 cur mi (\<not> e) pf cf v)
     \<and> wip data N U bt0 cur (bt[pe := - 1, pf := - 1]) \<and> length bt = 2 * N \<and> (live N cur mi \<longrightarrow> nat mi \<in> U)"

text \<open>The tree before the insertion.\<close>

definition grown :: "byte list \<Rightarrow> nat \<Rightarrow> nat set \<Rightarrow> int list \<Rightarrow> nat \<Rightarrow> bool" where
  "grown data N U bt0 cur \<longleftrightarrow> ordered data bt0 N cur U \<and> (\<forall>x \<in> U. x < cur) \<and> 0 < N"

lemma descent_swap:
  "descent data N U bt0 cur bt mi e pe pf ce cf \<Longrightarrow> descent data N U bt0 cur bt mi (\<not> e) pf pe cf ce"
  by (cases "pe = pf") (auto simp: descent_def list_update_swap)

lemma wip_reach:
  assumes "grown data N U bt0 cur" and "wip data N U bt0 cur G" and "(estep G N cur)\<^sup>*\<^sup>* x z" and "x \<in> U"
  shows "(estep bt0 N cur)\<^sup>*\<^sup>* x z \<and> z \<in> U"
  using assms(3,4)
proof (induction rule: rtranclp_induct)
  case base
  then show ?case by simp
next
  case (step y z)
  then have "(estep bt0 N cur)\<^sup>*\<^sup>* x y" "y \<in> U" by simp_all
  moreover obtain d where "edge G N cur d y z" using step.hyps(2) by (auto simp: estep_def)
  ultimately have "down bt0 N cur d y z" using assms(2) by (auto simp: wip_def)
  then have "(estep bt0 N cur)\<^sup>*\<^sup>* y z" by (rule down_reach)
  then show ?case using \<open>(estep bt0 N cur)\<^sup>*\<^sup>* x y\<close> \<open>y \<in> U\<close> assms(1) ordered_reach
    by (auto simp: grown_def intro: rtranclp_trans)
qed

lemma wip_ordered:
  assumes "grown data N U bt0 cur" and "wip data N U bt0 cur G"
  shows "ordered data G N cur (insert cur U)"
proof -
  have o: "ordered data bt0 N cur U" using assms(1) by (simp add: grown_def)
  have "y \<in> U \<and> (\<forall>z. (estep G N cur)\<^sup>*\<^sup>* y z \<longrightarrow> side data d x z)" if e: "edge G N cur d x y" and x: "x \<in> U" for d x y
  proof -
    have dn: "down bt0 N cur d x y" using assms(2) e x by (simp add: wip_def)
    then have y: "y \<in> U" using ordered_reach [OF o down_reach] x by blast
    moreover have "side data d x z" if "(estep G N cur)\<^sup>*\<^sup>* y z" for z
      using ordered_side [OF o x] down_steps [OF dn] wip_reach [OF assms that y] by blast
    ultimately show ?thesis by blast
  qed
  moreover have "y \<in> U \<and> (\<forall>z. (estep G N cur)\<^sup>*\<^sup>* y z \<longrightarrow> side data d cur z)" if "edge G N cur d cur y" for d y
    using assms(2) that by (simp add: wip_def)
  ultimately show ?thesis unfolding ordered_def down_def by blast
qed

text \<open>The first descent position: both slots are those of \<open>cur\<close>.\<close>

lemma descent_start:
  assumes g: "grown data N U bt0 cur" and "length bt0 = 2 * N" and "live N cur mi \<longrightarrow> nat mi \<in> U"
  shows "descent data N U bt0 cur bt0 mi e (slot_of N cur e) (slot_of N cur (\<not> e)) 0 0"
proof -
  let ?G = "bt0[slot_of N cur e := - 1, slot_of N cur (\<not> e) := - 1]"
  have N: "0 < N" "\<And>x. x \<in> U \<Longrightarrow> x < cur" using g by (auto simp: grown_def)
  have len: "slot_of N x d < length bt0" for x d using slot_less [OF N(1)] assms(2) by simp
  have "edge bt0 N cur d x y" if "edge ?G N cur d x y" "x \<in> U" for x d y
    using that by (auto simp: edge_def nth_list_update len split: if_splits)
  moreover have "\<not> edge ?G N cur d cur y" for d y
    using len by (cases "d = e") (auto simp: edge_def nth_list_update)
  ultimately have "wip data N U bt0 cur ?G" by (auto simp: wip_def intro: downI)
  then show ?thesis using assms(2,3) by (auto simp: descent_def ptr_ok_def)
qed

lemma descent_known:
  assumes g: "grown data N U bt0 cur" and d: "descent data N U bt0 cur bt mi e pe pf ce cf" and l: "live N cur mi"
  shows "agree_upto data (nat mi) cur (min ce cf)"
proof -
  have o: "ordered data bt0 N cur U" using g by (simp add: grown_def)
  obtain w v where w: "ptr_ok data N U bt0 cur mi e pe ce w" "ptr_ok data N U bt0 cur mi (\<not> e) pf cf v"
    using d by (auto simp: descent_def)
  show ?thesis
  proof (cases "ce = 0 \<or> cf = 0")
    case True
    then show ?thesis by (auto simp: agree_upto_def)
  next
    case False
    then have a: "agree_upto data w cur ce" "agree_upto data v cur cf" "side data (\<not> e) w (nat mi)" "side data e v (nat mi)"
      using w l ordered_side [OF o] by (auto simp: ptr_ok_def)
    then have "agree_upto data w cur (min ce cf)" "agree_upto data v cur (min ce cf)" by (auto simp: agree_upto_def)
    then show ?thesis using a(3,4) between_agree [of data w "nat mi" v cur "min ce cf"] between_agree [of data v "nat mi" w cur "min ce cf"]
      by (cases e) (simp_all add: side_def)
  qed
qed

text \<open>A position compared with \<open>cur\<close> is attached to the waiting slot of its side; its own link towards
  \<open>cur\<close> becomes the waiting slot.\<close>

lemma descent_attach:
  assumes g: "grown data N U bt0 cur" and d: "descent data N U bt0 cur bt mi e pe pf ce cf"
    and l: "live N cur mi" and sd: "side data e cur (nat mi)" and ag: "agree_upto data (nat mi) cur ml"
  shows "descent data N U bt0 cur (bt[pe := mi]) (bt[pe := mi] ! slot_of N (nat mi) (\<not> e)) e (slot_of N (nat mi) (\<not> e)) pf ml cf"
proof -
  define m where "m = nat mi"
  have mi: "mi = int m" "cur < m + N" using l by (simp_all add: live_def m_def)
  have o: "ordered data bt0 N cur U" and U: "\<And>x. x \<in> U \<Longrightarrow> x < cur" and N: "0 < N" using g by (simp_all add: grown_def)
  obtain w v where w: "ptr_ok data N U bt0 cur mi e pe ce w" and v: "ptr_ok data N U bt0 cur mi (\<not> e) pf cf v"
    and wp: "wip data N U bt0 cur (bt[pe := - 1, pf := - 1])" and len: "length bt = 2 * N" and mU: "m \<in> U"
    using d l by (auto simp: descent_def m_def)
  have sm: "side data e cur m" using sd by (simp add: m_def)
  define de df where "de = (if w = cur then e else \<not> e)" and "df = (if v = cur then \<not> e else e)"
  have le: "\<And>x. x \<in> U \<Longrightarrow> x \<le> cur" using U less_imp_le by blast
  have pe: "pe = slot_of N w de" "cur < w + N" "w \<le> cur" using w U N le by (auto simp: ptr_ok_def de_def)
  have pf: "pf = slot_of N v df" "cur < v + N" "v \<le> cur" using v U N le by (auto simp: ptr_ok_def df_def)
  have dw: "w \<in> U \<Longrightarrow> down bt0 N cur (\<not> e) w m" and dv: "v \<in> U \<Longrightarrow> down bt0 N cur e v m"
    using w v l U by (auto simp: ptr_ok_def m_def)
  have wU: "w = cur \<or> w \<in> U" and vU: "v = cur \<or> v \<in> U" using w v by (auto simp: ptr_ok_def)
  have sw: "w \<in> U \<Longrightarrow> side data e cur w" and sv: "v \<in> U \<Longrightarrow> side data (\<not> e) cur v"
    using w v U by (auto simp: ptr_ok_def)
  have mw: "m \<noteq> w" using wU dw ordered_side [OF o, of w "\<not> e" m] U [OF mU] by auto
  have mv: "m \<noteq> v" using vU dv ordered_side [OF o, of v e m] U [OF mU] by auto
  have inj: "x = y \<and> d = d'" if "slot_of N x d = slot_of N y d'" "cur < x + N" "cur < y + N" "x \<le> cur" "y \<le> cur" for x y d d'
    using tree_slot_inj [OF that] .
  define pe' where "pe' = slot_of N m (\<not> e)"
  have ne1: "pe' \<noteq> pe" using inj [of m "\<not> e" w de] mi(2) pe U [OF mU] mw by (auto simp: pe'_def)
  have ne2: "pe' \<noteq> pf" using inj [of m "\<not> e" v df] mi(2) pf U [OF mU] mv by (auto simp: pe'_def)
  have ne3: "pe \<noteq> pf"
  proof
    assume "pe = pf"
    then have eq: "w = v" "de = df" using inj [of w de v df] pe pf by auto
    then have "w \<in> U" using wU by (auto simp: de_def df_def split: if_splits)
    then show False using sw sv eq(1) side_asym by blast
  qed
  let ?G = "bt[pe := - 1, pf := - 1]" and ?bt' = "bt[pe := mi]"
  let ?G' = "?bt'[pe' := - 1, pf := - 1]"
  have sl: "slot_of N x d < length bt" for x d using slot_less [OF N] len by simp
  have lp: "pe < length bt" "pf < length bt" "pe' < length bt" using sl pe(1) pf(1) by (simp_all add: pe'_def)
  have cases: "(x = w \<and> d = de \<and> y = m) \<or> edge ?G N cur d x y \<and> slot_of N x d \<noteq> pe'"
    if e': "edge ?G' N cur d x y" and x: "x \<le> cur" for d x y
  proof (cases "slot_of N x d = pe")
    case True
    then have "x = w \<and> d = de" using inj [of x d w de] pe e' x by (auto simp: edge_def)
    then show ?thesis using e' True ne1 ne3 lp mi(1) by (auto simp: edge_def nth_list_update)
  next
    case False
    then show ?thesis using e' lp by (auto simp: edge_def nth_list_update split: if_splits)
  qed
  have a: "down bt0 N cur d x y" if "x \<in> U" "edge ?G' N cur d x y" for d x y
  proof -
    have "x \<le> cur" using U [OF that(1)] by simp
    from cases [OF that(2) this] show ?thesis
    proof (elim disjE conjE)
      assume "x = w" "d = de" "y = m"
      then show ?thesis using dw that(1) U by (auto simp: de_def)
    next
      assume "edge ?G N cur d x y"
      then show ?thesis using wp that(1) by (simp add: wip_def)
    qed
  qed
  have closed: "y \<in> U" if "x \<in> U" "edge ?G' N cur d x y" for d x y
    using ordered_reach [OF o down_reach [OF a [OF that]] that(1)] .
  have reach: "(estep bt0 N cur)\<^sup>*\<^sup>* y z \<and> z \<in> U" if "(estep ?G' N cur)\<^sup>*\<^sup>* y z" "y \<in> U" for y z
    using that
  proof (induction rule: rtranclp_induct)
    case base
    then show ?case by simp
  next
    case (step y' z)
    then have ih: "(estep bt0 N cur)\<^sup>*\<^sup>* y y'" "y' \<in> U" by simp_all
    obtain d where d: "edge ?G' N cur d y' z" using step.hyps(2) by (auto simp: estep_def)
    show ?case using rtranclp_trans [OF ih(1) down_reach [OF a [OF ih(2) d]]] closed [OF ih(2) d] by blast
  qed
  have below: "side data e cur z" if "(estep ?G' N cur)\<^sup>*\<^sup>* m z" for z
    using that
  proof (cases rule: converse_rtranclpE)
    case base
    then show ?thesis using sm by simp
  next
    case (step y)
    then obtain d where d: "edge ?G' N cur d m y" by (auto simp: estep_def)
    have "d = e"
    proof (rule ccontr)
      assume "d \<noteq> e"
      then have "slot_of N m d = pe'" by (simp add: pe'_def)
      then show False using cases [OF d] U [OF mU] mw by auto
    qed
    moreover have "down bt0 N cur d m z"
      using down_steps [OF a [OF mU d]] reach [OF step(2) closed [OF mU d]] by blast
    ultimately have "side data e m z" using ordered_side [OF o mU] by blast
    then show ?thesis using sm side_trans by blast
  qed
  have split: "(estep ?G N cur)\<^sup>*\<^sup>* y z \<or> (w \<in> U \<and> (estep ?G N cur)\<^sup>*\<^sup>* y w \<and> (estep ?G' N cur)\<^sup>*\<^sup>* m z)"
    if "(estep ?G' N cur)\<^sup>*\<^sup>* y z" "y \<in> U" for y z
    using that
  proof (induction rule: rtranclp_induct)
    case base
    then show ?case by simp
  next
    case (step y' z)
    have y': "y' \<in> U" using reach [OF step.hyps(1) step.prems] by blast
    obtain d where d: "edge ?G' N cur d y' z" using step.hyps(2) by (auto simp: estep_def)
    have "y' \<le> cur" using U [OF y'] by simp
    from cases [OF d this] show ?case
    proof (elim disjE conjE)
      assume "y' = w" "z = m"
      then show ?case using step y' by auto
    next
      assume "edge ?G N cur d y' z"
      then have "estep ?G N cur y' z" by (auto simp: estep_def)
      then show ?case using step by (auto intro: rtranclp.rtrancl_into_rtrancl)
    qed
  qed
  have c: "y \<in> U \<and> (\<forall>z. (estep ?G' N cur)\<^sup>*\<^sup>* y z \<longrightarrow> side data d cur z)" if "edge ?G' N cur d cur y" for d y
    using cases [OF that order.refl]
  proof (elim disjE conjE)
    assume "cur = w" "d = de" "y = m"
    then show ?thesis using mU below by (simp add: de_def)
  next
    assume y: "edge ?G N cur d cur y"
    then have yU: "y \<in> U" and old: "\<And>z. (estep ?G N cur)\<^sup>*\<^sup>* y z \<Longrightarrow> side data d cur z" using wp by (auto simp: wip_def)
    have "side data d cur z" if "(estep ?G' N cur)\<^sup>*\<^sup>* y z" for z
      using split [OF that yU]
    proof (elim disjE conjE)
      assume "(estep ?G N cur)\<^sup>*\<^sup>* y z"
      then show ?thesis by (rule old)
    next
      assume h: "w \<in> U" "(estep ?G N cur)\<^sup>*\<^sup>* y w" "(estep ?G' N cur)\<^sup>*\<^sup>* m z"
      have "d = e" using old [OF h(2)] sw [OF h(1)] suf_asym [of data w cur] by (cases d; cases e) (auto simp: side_def)
      then show ?thesis using below [OF h(3)] by simp
    qed
    then show ?thesis using yU by blast
  qed
  have wip': "wip data N U bt0 cur ?G'" using a c by (auto simp: wip_def)
  define nxt where "nxt = ?bt' ! pe'"
  have nx: "down bt0 N cur (\<not> e) m (nat nxt)" if "live N cur nxt"
  proof -
    have "?G ! pe' = nxt" using ne1 ne2 by (simp add: nxt_def)
    then have "edge ?G N cur (\<not> e) m (nat nxt)" using that mi(2) by (simp add: edge_def live_def pe'_def)
    then show ?thesis using wp mU by (simp add: wip_def)
  qed
  have "ptr_ok data N U bt0 cur nxt e pe' ml m"
    using mU mi(2) sm ag nx by (simp add: ptr_ok_def pe'_def m_def)
  moreover have "down bt0 N cur e v (nat nxt)" if "v \<in> U" "live N cur nxt"
    using down_steps [OF dv [OF that(1)] down_reach [OF nx [OF that(2)]]] .
  then have "ptr_ok data N U bt0 cur nxt (\<not> e) pf cf v" using v by (auto simp: ptr_ok_def)
  moreover have "nat nxt \<in> U" if "live N cur nxt" using ordered_reach [OF o down_reach [OF nx [OF that]] mU] .
  ultimately show ?thesis using wip' len unfolding descent_def m_def [symmetric] pe'_def [symmetric] nxt_def [symmetric]
    by auto
qed

section \<open>The descents\<close>

text \<open>What the comparison of a descent returns: the exact length of the common prefix, up to its bound.\<close>

definition grows_at :: "byte list \<Rightarrow> nat \<Rightarrow> nat \<Rightarrow> (nat \<Rightarrow> nat \<Rightarrow> nat result) \<Rightarrow> bool" where
  "grows_at data ext_end cur grow \<longleftrightarrow> (\<forall>m n. m < cur \<longrightarrow> agree_upto data m cur n \<longrightarrow> cur + n \<le> ext_end \<longrightarrow>
     (\<exists>ml. grow m n = Ok ml \<and> cur + ml \<le> ext_end \<and> agree_upto data m cur ml
        \<and> (cur + ml < ext_end \<longrightarrow> data ! (m + ml) \<noteq> data ! (cur + ml))))"

lemma grows_at_common_len:
  assumes "e \<le> length data"
  shows "grows_at data e cur (\<lambda>m n. obind (common_len data (m + n) (cur + n) e) (\<lambda>l. Ok (n + l)))"
  unfolding grows_at_def
proof (intro allI impI)
  fix m n assume a: "m < cur" "agree_upto data m cur n" "cur + n \<le> e"
  then obtain k where k: "common_len data (m + n) (cur + n) e = Ok k" "cur + n + k \<le> e" "agree_upto data (m + n) (cur + n) k"
    "cur + n + k < e \<longrightarrow> data ! (m + n + k) \<noteq> data ! (cur + n + k)"
    using common_len_spec [of "m + n" "cur + n" e data] assms by auto
  have "agree_upto data m cur (n + k)"
    unfolding agree_upto_def
  proof (intro allI impI)
    fix j assume j: "j < n + k"
    show "data ! (m + j) = data ! (cur + j)"
    proof (cases "j < n")
      case True
      then show ?thesis using a(2) by (simp add: agree_upto_def)
    next
      case False
      then obtain i where "j = n + i" "i < k" using j by (auto simp: not_less le_iff_add)
      then show ?thesis using k(3) by (auto simp: agree_upto_def add.assoc)
    qed
  qed
  then show "\<exists>ml. obind (common_len data (m + n) (cur + n) e) (\<lambda>l. Ok (n + l)) = Ok ml \<and> cur + ml \<le> e \<and> agree_upto data m cur ml
      \<and> (cur + ml < e \<longrightarrow> data ! (m + ml) \<noteq> data ! (cur + ml))"
    using k by (simp add: add.assoc)
qed

lemma grows_at_common_bytes:
  assumes "cur \<le> ext_end" and "ext_end \<le> length data"
  shows "grows_at data ext_end cur (\<lambda>m n. common_bytes data m cur (ext_end - cur) n)"
  unfolding grows_at_def
proof (intro allI impI)
  fix m n assume a: "m < cur" "agree_upto data m cur n" "cur + n \<le> ext_end"
  have "cur + (ext_end - cur) \<le> length data" "m \<le> cur" "n \<le> ext_end - cur" using a assms by simp_all
  from common_bytes_spec [OF this(1,2) a(2) this(3)] obtain k where "common_bytes data m cur (ext_end - cur) n = Ok k"
    "k \<le> ext_end - cur" "agree_upto data m cur k" "k < ext_end - cur \<longrightarrow> data ! (m + k) \<noteq> data ! (cur + k)" by blast
  then show "\<exists>ml. common_bytes data m cur (ext_end - cur) n = Ok ml \<and> cur + ml \<le> ext_end \<and> agree_upto data m cur ml
      \<and> (cur + ml < ext_end \<longrightarrow> data ! (m + ml) \<noteq> data ! (cur + ml))"
    using a assms by (intro exI [of _ k]) simp
qed

text \<open>A match that a search reports.\<close>

definition reported :: "byte list \<Rightarrow> nat \<Rightarrow> nat \<Rightarrow> nat \<Rightarrow> nat \<times> nat \<Rightarrow> bool" where
  "reported data W e p c \<longleftrightarrow> (\<exists>l d. c = (as_u32 l, as_u32 d) \<and> is_match data e p l d \<and> d \<le> W)"

lemma earlier_set: "earlier p table \<Longrightarrow> c < int p \<Longrightarrow> earlier p (table[i := c])"
  using set_update_subset_insert [of table i c] by (fastforce simp: earlier_def)

lemma and_ones_mod: "n AND (2 ^ k - 1) = n mod 2 ^ k" for n :: nat
  by (simp add: take_bit_eq_mask mask_eq_exp_minus_1 flip: take_bit_eq_mod)

lemma ptr_less: "ptr_ok data N U bt0 cur mi e p c w \<Longrightarrow> 0 < N \<Longrightarrow> p < 2 * N"
  using slot_less by (auto simp: ptr_ok_def)

lemma descent_ptrs: "descent data N U bt0 cur bt mi e pe pf ce cf \<Longrightarrow> 0 < N \<Longrightarrow> pe < length bt \<and> pf < length bt"
  using ptr_less by (fastforce simp: descent_def)

lemma descent_close:
  assumes g: "grown data N U bt0 cur" and d: "descent data N U bt0 cur bt mi e pe pf ce cf" and "earlier cur bt"
  shows "bt_close bt pe pf = Ok (bt[pe := - 1, pf := - 1])" and "ordered data (bt[pe := - 1, pf := - 1]) N cur (insert cur U)"
    and "earlier cur (bt[pe := - 1, pf := - 1])"
proof -
  have "0 < N" using g by (simp add: grown_def)
  then show "bt_close bt pe pf = Ok (bt[pe := - 1, pf := - 1])" using descent_ptrs [OF d] by (simp add: bt_close_def)
  show "ordered data (bt[pe := - 1, pf := - 1]) N cur (insert cur U)"
    using wip_ordered [OF g] d by (simp add: descent_def)
  show "earlier cur (bt[pe := - 1, pf := - 1])" using assms(3) by (intro earlier_set) simp_all
qed

lemma bt_insert_loop_Ok:
  assumes g: "grown data (2 ^ k) U bt0 cur" and gr: "grows_at data ext_end cur grow"
    and e: "ext_end \<le> e" "e \<le> length data" "cur \<le> ext_end" and low: "low = cur - min W (2 ^ k)"
    and d: "descent data (2 ^ k) U bt0 cur bt mi False sp lp cs cl" and bt: "earlier cur bt" "mi < int cur"
    and c: "cur + cs \<le> ext_end" "cur + cl \<le> ext_end"
  shows "\<exists>bt' out'. bt_insert_loop nb grow data e ext_end cur low (2 ^ k - 1) bt mi sp lp cs cl best_len out = Ok (bt', out')
    \<and> length bt' = 2 * 2 ^ k \<and> earlier cur bt' \<and> ordered data bt' (2 ^ k) cur (insert cur U)
    \<and> (\<forall>c \<in> set out'. c \<in> set out \<or> reported data W e cur c)"
  using d bt c
proof (induction nb arbitrary: bt mi sp lp cs cl best_len out)
  case 0
  then show ?case using descent_close [OF g 0(1,2)] by (simp add: descent_def)
next
  case (Suc nb)
  note d = Suc.prems(1)
  have N: "(0::nat) < 2 ^ k" "length bt = 2 * 2 ^ k" using d by (simp_all add: descent_def)
  note close = descent_close [OF g d Suc.prems(2)]
  show ?case
  proof (cases "mi < 0 \<or> nat mi \<le> low")
    case True
    then show ?thesis using close N by (simp del: split_paired_Ex)
  next
    case False
    define m where "m = nat mi"
    have gap: "cur < n + z" if "\<not> n \<le> cur - z" for n z using that by linarith
    have m: "m < cur" "cur < m + min W (2 ^ k)" "mi = int m" using gap False Suc.prems(3) low by (simp_all add: m_def nat_less_iff) 
    have lv: "live (2 ^ k) cur mi" using m by (simp add: live_def)
    have "agree_upto data m cur (min cs cl)" using descent_known [OF g d lv] by (simp add: m_def)
    then obtain ml where ml: "grow m (min cs cl) = Ok ml" "cur + ml \<le> ext_end" "agree_upto data m cur ml"
      "cur + ml < ext_end \<longrightarrow> data ! (m + ml) \<noteq> data ! (cur + ml)"
      using gr m(1) Suc.prems(4,5) by (force simp: grows_at_def)
    define out1 where "out1 = (if best_len < ml then out @ [(as_u32 ml, as_u32 (cur - m))] else out)"
    have "is_match data e cur ml (cur - m)" using m(1) ml(2,3) e by (simp add: is_match_def)
    then have rep: "reported data W e cur (as_u32 ml, as_u32 (cur - m))" using m(2) unfolding reported_def by (intro exI [of _ ml] exI [of _ "cur - m"]) simp
    have out1: "c \<in> set out \<or> reported data W e cur c" if "c \<in> set out1" for c
      using that rep by (auto simp: out1_def split: if_splits)
    have sl: "2 * (m AND (2 ^ k - 1)) = slot_of (2 ^ k) m False" "slot_of (2 ^ k) m False + 1 = slot_of (2 ^ k) m True"
      unfolding and_ones_mod by (simp_all add: slot_of_def)
    have go: "\<not> (mi < 0 \<or> m \<le> low)" using False by (simp add: m_def)
    note run = bt_insert_loop.simps(2) Let_def m_def [symmetric] if_not_P [OF go] ml(1) obind_simps usub_Ok [OF less_imp_le [OF m(1)]]
      out1_def [symmetric] sl
    show ?thesis
    proof (cases "cur + ml = e \<or> cur + ml = ext_end")
      case True
      then show ?thesis using close N out1 unfolding run by (auto simp del: split_paired_Ex)
    next
      case no: False
      then have lt: "cur + ml < ext_end" "cur + ml < length data" "m + ml < length data" using ml(2) e m(1) by simp_all
      define x y where "x = data ! (m + ml)" and "y = data ! (cur + ml)"
      have xy: "x \<noteq> y" using ml(4) lt(1) by (simp add: x_def y_def)
      have reads: "idx data (m + ml) = (Ok x :: byte result)" "idx data (cur + ml) = (Ok y :: byte result)" using lt by (simp_all add: x_def y_def)
      have slots: "slot_of (2 ^ k) m f < length bt" for f using slot_less [OF N(1)] N(2) by simp
      have ptrs: "sp < length bt" "lp < length bt" using descent_ptrs [OF d N(1)] by simp_all
      note run2 = run if_not_P [OF no] reads
      show ?thesis
      proof (cases "x < y")
        case True
        let ?bt = "bt[sp := mi]"
        let ?nxt = "?bt ! slot_of (2 ^ k) m True"
        have "suf_less data m cur" using ml(3) lt True unfolding suf_less_def x_def y_def by blast
        then have "descent data (2 ^ k) U bt0 cur ?bt ?nxt False (slot_of (2 ^ k) m True) lp ml cl"
          using descent_attach [OF g d lv, of ml] ml(3) by (simp add: side_def m_def)
        moreover have eb: "earlier cur ?bt" using Suc.prems(2,3) by (rule earlier_set)
        moreover have "?nxt < int cur" using eb slots [of True] by (simp add: earlier_def)
        ultimately obtain bt' out' where "bt_insert_loop nb grow data e ext_end cur low (2 ^ k - 1) ?bt ?nxt (slot_of (2 ^ k) m True) lp ml cl
            (max best_len ml) out1 = Ok (bt', out')"
          "length bt' = 2 * 2 ^ k" "earlier cur bt'" "ordered data bt' (2 ^ k) cur (insert cur U)"
          "\<forall>c \<in> set out'. c \<in> set out1 \<or> reported data W e cur c"
          using Suc.IH [of ?bt ?nxt "slot_of (2 ^ k) m True" lp ml cl] ml(2) Suc.prems(5) by blast
        moreover have nxt: "idx ?bt (slot_of (2 ^ k) m True) = (Ok ?nxt :: int result)" using slots by simp
        ultimately show ?thesis using out1 unfolding run2 upd_Ok [OF ptrs(1)] obind_simps if_P [OF True] nxt by blast
      next
        case ge: False
        let ?bt = "bt[lp := mi]"
        let ?nxt = "?bt ! slot_of (2 ^ k) m False"
        have "y < x" using ge xy by simp
        then have "suf_less data cur m" using agree_upto_sym [OF ml(3)] lt unfolding suf_less_def x_def y_def by blast
        then have "descent data (2 ^ k) U bt0 cur ?bt ?nxt True (slot_of (2 ^ k) m False) sp ml cs"
          using descent_attach [OF g descent_swap [OF d] lv, of ml] ml(3) by (simp add: side_def m_def)
        from descent_swap [OF this] have "descent data (2 ^ k) U bt0 cur ?bt ?nxt False sp (slot_of (2 ^ k) m False) cs ml" by simp
        moreover have eb: "earlier cur ?bt" using Suc.prems(2,3) by (rule earlier_set)
        moreover have "?nxt < int cur" using eb slots [of False] by (simp add: earlier_def)
        ultimately obtain bt' out' where "bt_insert_loop nb grow data e ext_end cur low (2 ^ k - 1) ?bt ?nxt sp (slot_of (2 ^ k) m False) cs ml
            (max best_len ml) out1 = Ok (bt', out')"
          "length bt' = 2 * 2 ^ k" "earlier cur bt'" "ordered data bt' (2 ^ k) cur (insert cur U)"
          "\<forall>c \<in> set out'. c \<in> set out1 \<or> reported data W e cur c"
          using Suc.IH [of ?bt ?nxt sp "slot_of (2 ^ k) m False" cs ml] ml(2) Suc.prems(4) by blast
        moreover have nxt: "idx ?bt (slot_of (2 ^ k) m False) = (Ok ?nxt :: int result)" using slots by simp
        ultimately show ?thesis using out1 unfolding run2 upd_Ok [OF ptrs(2)] obind_simps if_not_P [OF ge] nxt by blast
      qed
    qed
  qed
qed

end
