(* ===== verification/Lz_Hybrid.thy ===== *)
theory Lz_Hybrid
  imports Lz_Tree
begin

text \<open>
  The searches of the binary tree of \<^verbatim>\<open>src/encode/lz.rs\<close> and the hybrid of hash chain and tree. The
  invariant \<open>bt_inv\<close> of the tree: some set of earlier positions is ordered, and every root that is
  still alive belongs to it. Insertion keeps it and reports real matches only; so does the
  search; the hybrid is an index of positions in the sense of \<open>position_index\<close>.
\<close>

section \<open>The hybrid finder\<close>

definition bt_gain :: "rep_offsets \<Rightarrow> nat \<Rightarrow> bool \<Rightarrow> nat \<times> nat \<Rightarrow> int result" where
  "bt_gain rep ip ll0 m =
     obind (usub ip (snd m)) (\<lambda>off.
     obind (offset_bits rep off ll0) (\<lambda>bits.
     Ok (int (fst m) * 4 - int bits)))"

definition bt_lazy_best ::
  "nat \<Rightarrow> nat \<Rightarrow> byte list \<Rightarrow> nat \<Rightarrow> rep_offsets \<Rightarrow> nat \<Rightarrow> bool \<Rightarrow> chain_state \<times> bt_state \<Rightarrow> (nat \<times> nat) result" where
  "bt_lazy_best max_offset depth data e rep ip ll0 st =
     obind (chain_find (fst st) data ip e max_offset depth) (\<lambda>c.
     obind (find_longest (snd st) data ip e max_offset depth) (\<lambda>t.
     if fst t < MIN_MATCH then Ok c
     else if fst c < MIN_MATCH then Ok t
     else
       obind (bt_gain rep ip ll0 t) (\<lambda>gain_t.
       obind (bt_gain rep ip ll0 c) (\<lambda>gain_c.
       Ok (if gain_c < gain_t then t else c)))))"

definition bt_best_match ::
  "nat \<Rightarrow> nat \<Rightarrow> byte list \<Rightarrow> nat \<Rightarrow> rep_offsets \<Rightarrow> nat \<Rightarrow> bool \<Rightarrow> chain_state \<times> bt_state \<Rightarrow> (nat \<times> nat) result" where
  "bt_best_match max_offset depth data e rep ip ll0 st =
     obind (bt_lazy_best max_offset depth data e rep ip ll0 st) (\<lambda>(fml, fpos).
     obind (rep_match_at data ip e rep ll0) (\<lambda>(rml, roff).
     if MIN_MATCH \<le> rml \<and> fml \<le> rml then Ok (rml, roff)
     else if MIN_MATCH \<le> fml then obind (usub ip fpos) (\<lambda>off. Ok (fml, off))
     else Ok (0, 0)))"

definition hybrid_put :: "nat \<Rightarrow> nat \<Rightarrow> byte list \<Rightarrow> nat \<Rightarrow> nat \<Rightarrow> chain_state \<times> bt_state \<Rightarrow> (chain_state \<times> bt_state) result" where
  "hybrid_put max_offset depth data e pos st =
     obind (chain_insert data pos (fst st)) (\<lambda>chain.
     obind (insert_bt1 data pos e max_offset depth (snd st)) (\<lambda>tree.
     Ok (chain, tree)))"

definition bt_lazy_parse_block ::
  "byte list \<Rightarrow> nat \<Rightarrow> nat \<Rightarrow> chain_state \<times> bt_state \<Rightarrow> nat \<Rightarrow> rep_offsets \<Rightarrow> nat \<Rightarrow> (lz_out \<times> chain_state \<times> bt_state) result" where
  "bt_lazy_parse_block data start e st max_offset rep depth =
     lazy_parse (hybrid_put max_offset depth) (bt_best_match max_offset depth) 2 data start e st rep"

section \<open>The invariant of the tree\<close>

definition tree_of :: "byte list \<Rightarrow> nat \<Rightarrow> bt_state \<Rightarrow> nat \<Rightarrow> nat set \<Rightarrow> bool" where
  "tree_of data p st N U \<longleftrightarrow> ordered data (bt_links st) N p U \<and> (\<forall>x \<in> U. x < p) \<and> (\<forall>c \<in> set (bt_hash st). live N p c \<longrightarrow> nat c \<in> U)"

definition bt_inv :: "nat \<Rightarrow> byte list \<Rightarrow> nat \<Rightarrow> bt_state \<Rightarrow> bool" where
  "bt_inv rt data p st \<longleftrightarrow> bt_hash_log st \<le> 32 \<and> length (bt_hash st) = 2 ^ bt_hash_log st \<and> earlier p (bt_hash st) \<and> earlier p (bt_links st)
     \<and> bt_mask st + 1 = rt \<and> (\<exists>k. bt_mask st = 2 ^ k - 1 \<and> k \<le> 32 \<and> length (bt_links st) = 2 * 2 ^ k \<and> (\<exists>U. tree_of data p st (2 ^ k) U))"

lemma live_mono: "live N q c \<Longrightarrow> p \<le> q \<Longrightarrow> live N p c"
  by (simp add: live_def)

lemma live_as_i32:
  assumes "live N (Suc q) (as_i32 q)" and "N \<le> 2 ^ 32"
  shows "nat (as_i32 q) = q"
proof -
  define r where "r = as_i32 q"
  have "int q - r = 2 ^ 32 * ((int q + 2 ^ 31) div 2 ^ 32)"
    using minus_mod_eq_mult_div [of "int q + 2 ^ 31" "2 ^ 32"] unfolding r_def as_i32_def by simp
  then obtain j where j: "int q - r = 2 ^ 32 * j" by blast
  have "r \<le> int q" using as_i32_le by (simp add: r_def)
  moreover have l: "0 \<le> r" "Suc q < nat r + N" using assms(1) by (simp_all add: live_def r_def)
  moreover have "N \<le> 4294967296" using assms(2) by simp
  then have "int q < r + 2 ^ 32" using l by simp
  ultimately have "j = 0" using j by simp
  then show ?thesis using j by (simp add: r_def)
qed

lemma tree_of_mono: "tree_of data p st N U \<Longrightarrow> p \<le> q \<Longrightarrow> tree_of data q st N U"
  unfolding tree_of_def using ordered_mono live_mono by (meson less_le_trans)

lemma bt_inv_mono: "bt_inv rt data p st \<Longrightarrow> p \<le> q \<Longrightarrow> bt_inv rt data q st"
  unfolding bt_inv_def using earlier_mono tree_of_mono by blast

lemma bt_inv_new: "bt_inv (2 ^ clamp_to MIN_HASH_LOG MAX_BT_LOG window_log) data p (bt_state_new hash_log window_log)"
proof -
  let ?st = "bt_state_new hash_log window_log"
  have "tree_of data p ?st N {}" for N
    by (auto simp: tree_of_def ordered_def live_def bt_state_new_def Let_def)
  moreover have "clamp_to MIN_HASH_LOG MAX_BT_LOG window_log \<le> 32" "clamp_to MIN_HASH_LOG MAX_HASH_LOG hash_log \<le> 32"
    using clamp_to_le [of MIN_HASH_LOG MAX_BT_LOG window_log] clamp_to_le [of MIN_HASH_LOG MAX_HASH_LOG hash_log]
    unfolding MIN_HASH_LOG_def MAX_HASH_LOG_def MAX_BT_LOG_def by linarith+
  ultimately show ?thesis by (auto simp: bt_inv_def bt_state_new_def Let_def earlier_new)
qed

lemma bt_insert_with_Ok:
  assumes st: "bt_inv rt data p st" and q: "p \<le> q" "q + 4 \<le> e" "e \<le> length data" and ext: "q \<le> ext_end" "ext_end \<le> e"
    and gr: "grows_at data ext_end q grow"
  shows "\<exists>st' out. bt_insert_with grow data q e ext_end W nb st = Ok (st', out) \<and> bt_inv rt data (Suc q) st'
    \<and> (\<forall>c \<in> set out. reported data W e q c)"
proof -
  obtain k U where k: "bt_mask st = 2 ^ k - 1" "k \<le> 32" "length (bt_links st) = 2 * 2 ^ k" "tree_of data q st (2 ^ k) U"
    using st tree_of_mono q(1) unfolding bt_inv_def by blast
  have inv: "bt_hash_log st \<le> 32" "length (bt_hash st) = 2 ^ bt_hash_log st" "earlier q (bt_hash st)" "earlier q (bt_links st)"
    "bt_mask st + 1 = rt" using st q(1) earlier_mono by (auto simp: bt_inv_def)
  obtain v where v: "read_u32 data q = Ok v" using read_u32_Ok [of q data] q by simp
  define h where "h = hash4 v (bt_hash_log st)"
  have h: "h < length (bt_hash st)" using inv hash4_less by (simp add: h_def)
  define mi where "mi = bt_hash st ! h"
  define heads where "heads = (bt_hash st)[h := as_i32 q]"
  have mi: "mi < int q" "live (2 ^ k) q mi \<longrightarrow> nat mi \<in> U"
    using h inv(3) k(4) by (simp_all add: mi_def earlier_def tree_of_def)
  have g: "grown data (2 ^ k) U (bt_links st) q" using k(4) by (simp add: grown_def tree_of_def)
  have sl: "2 * (q AND bt_mask st) = slot_of (2 ^ k) q False" "slot_of (2 ^ k) q False + 1 = slot_of (2 ^ k) q True"
    unfolding k(1) and_ones_mod by (simp_all add: slot_of_def)
  have low: "window_low st q W = q - min W (2 ^ k)" by (simp add: window_low_def k(1))
  have d: "descent data (2 ^ k) U (bt_links st) q (bt_links st) mi False (slot_of (2 ^ k) q False) (slot_of (2 ^ k) q True) 0 0"
    using descent_start [OF g k(3) mi(2), of False] by simp
  from bt_insert_loop_Ok [OF g gr ext(2) q(3) ext(1) low d inv(4) mi(1), of nb 0 "[]"] ext obtain bt out where
    run: "bt_insert_loop nb grow data e ext_end q (window_low st q W) (bt_mask st) (bt_links st) mi (slot_of (2 ^ k) q False)
      (slot_of (2 ^ k) q True) 0 0 0 [] = Ok (bt, out)" and
    bt: "length bt = 2 * 2 ^ k" "earlier q bt" "ordered data bt (2 ^ k) q (insert q U)" and out: "\<forall>c \<in> set out. reported data W e q c"
    by (auto simp: k(1))
  let ?st = "st\<lparr>bt_hash := heads, bt_links := bt\<rparr>"
  have "nat c \<in> insert q U" if c: "c \<in> set heads" "live (2 ^ k) (Suc q) c" for c
  proof -
    have "(2::nat) ^ k \<le> 2 ^ 32" using k(2) by (rule power_increasing) simp
    then have "c = as_i32 q \<Longrightarrow> nat c = q" using live_as_i32 c(2) by blast
    moreover have "c \<in> set (bt_hash st) \<Longrightarrow> nat c \<in> U" using k(4) live_mono [OF c(2)] by (simp add: tree_of_def)
    ultimately show ?thesis using c(1) set_update_subset_insert [of "bt_hash st" h "as_i32 q"] by (auto simp: heads_def)
  qed
  moreover have "ordered data bt (2 ^ k) (Suc q) (insert q U)" using bt(3) by (rule ordered_mono) simp
  moreover have "\<forall>x \<in> insert q U. x < Suc q" using g by (auto simp: grown_def less_Suc_eq)
  ultimately have "tree_of data (Suc q) ?st (2 ^ k) (insert q U)" by (simp add: tree_of_def)
  moreover have "earlier (Suc q) heads" "earlier (Suc q) bt" "length heads = length (bt_hash st)"
    using inv(3) bt(2) earlier_mono by (auto simp: heads_def intro: earlier_update)
  ultimately have "bt_inv rt data (Suc q) ?st" using inv(1,2,5) k(1,2) bt(1) unfolding bt_inv_def by auto
  moreover have "bt_insert_with grow data q e ext_end W nb st = Ok (?st, out)"
    using h by (simp add: bt_insert_with_def v Let_def h_def [symmetric] mi_def [symmetric] heads_def [symmetric] sl [unfolded One_nat_def add_Suc_right add_0_right] run)
  ultimately show ?thesis using out by blast
qed

lemma insert_bt1_Ok:
  assumes "bt_inv rt data p st" and "p \<le> q" and "q + 4 \<le> e" and "e \<le> length data"
  shows "\<exists>st'. insert_bt1 data q e W nb st = Ok st' \<and> bt_inv rt data (Suc q) st'"
proof -
  have ext: "q \<le> min (q + BT_INSERT_CAP) e" "min (q + BT_INSERT_CAP) e \<le> length data" using assms(3,4) by simp_all
  from bt_insert_with_Ok [OF assms ext(1) _ grows_at_common_bytes [OF ext], of W nb] show ?thesis
    by (auto simp: insert_bt1_def Let_def)
qed

lemma insert_and_get_all_matches_Ok:
  assumes "bt_inv rt data p st" and "p \<le> q" and "q + 4 \<le> e" and "e \<le> length data"
  shows "\<exists>st' out. insert_and_get_all_matches data q e W nb st = Ok (st', out) \<and> bt_inv rt data (Suc q) st'
    \<and> (\<forall>c \<in> set out. reported data W e q c)"
  unfolding insert_and_get_all_matches_def
  by (rule bt_insert_with_Ok [OF assms _ order.refl grows_at_common_len]) (use assms(3,4) in simp_all)

lemma bt_prime_Ok:
  assumes "bt_inv rt data 0 st" and "n \<le> length data"
  shows "\<exists>st'. bt_prime data n W nb st = Ok st' \<and> bt_inv rt data n st'"
proof -
  have "\<exists>st'. ofold (\<lambda>p st. insert_bt1 data p n W nb st) [0..<n + 1 - MIN_MATCH] st = Ok st' \<and> bt_inv rt data (n + 1 - MIN_MATCH) st'"
    by (rule ofold_upt [where P = "bt_inv rt data", OF assms(1)])
      (use insert_bt1_Ok [OF _ order.refl _ assms(2)] in \<open>auto simp: MIN_MATCH_def\<close>)
  moreover have "n + 1 - MIN_MATCH \<le> n" by (simp add: MIN_MATCH_def)
  ultimately show ?thesis using bt_inv_mono unfolding bt_prime_def by blast
qed

section \<open>The search\<close>

definition seek :: "byte list \<Rightarrow> nat \<Rightarrow> nat set \<Rightarrow> int list \<Rightarrow> nat \<Rightarrow> int \<Rightarrow> bool \<Rightarrow> nat \<Rightarrow> bool" where
  "seek data N U bt ip mi d c \<longleftrightarrow> c = 0
     \<or> (\<exists>w \<in> U. side data (\<not> d) ip w \<and> agree_upto data w ip c \<and> (live N ip mi \<longrightarrow> down bt N ip d w (nat mi)))"

lemma seek_known:
  assumes "ordered data bt N ip U" and "seek data N U bt ip mi True cs" and "seek data N U bt ip mi False cl" and "live N ip mi"
  shows "agree_upto data (nat mi) ip (min cs cl)"
proof (cases "cs = 0 \<or> cl = 0")
  case True
  then show ?thesis by (auto simp: agree_upto_def)
next
  case False
  then obtain w v where w: "w \<in> U" "agree_upto data w ip cs" "down bt N ip True w (nat mi)"
    and v: "v \<in> U" "agree_upto data v ip cl" "down bt N ip False v (nat mi)"
    using assms by (auto simp: seek_def)
  have "agree_upto data w ip (min cs cl)" "agree_upto data v ip (min cs cl)"
    using w(2) v(2) by (auto simp: agree_upto_def)
  then show ?thesis using between_agree [of data w "nat mi" v ip] ordered_side [OF assms(1)] w(1,3) v(1,3) by (auto simp: side_def)
qed

text \<open>The search goes on below \<open>m\<close>, on the side \<open>d\<close> of it, which is that of \<open>ip\<close>.\<close>

lemma seek_on:
  assumes o: "ordered data bt N ip U" and m: "m \<in> U" "ip < m + N" and s: "side data d m ip" and a: "agree_upto data m ip ml"
    and other: "seek data N U bt ip (int m) (\<not> d) c" and nxt: "nxt = bt ! slot_of N m d"
  shows "seek data N U bt ip nxt d ml" and "seek data N U bt ip nxt (\<not> d) c" and "live N ip nxt \<longrightarrow> nat nxt \<in> U"
proof -
  have e: "edge bt N ip d m (nat nxt)" if "live N ip nxt" using that m(2) nxt by (simp add: edge_def live_def)
  have "side data (\<not> d) ip m" using s by (simp add: side_flip)
  then show "seek data N U bt ip nxt d ml" using m(1) a downI [OF e] by (auto simp: seek_def)
  show "live N ip nxt \<longrightarrow> nat nxt \<in> U" using e m(1) o by (auto simp: ordered_def)
  have "live N ip (int m)" using m(2) by (simp add: live_def)
  moreover have "(estep bt N ip)\<^sup>*\<^sup>* m (nat nxt)" if "live N ip nxt" using e [OF that] by (auto simp: estep_def intro!: r_into_rtranclp)
  ultimately show "seek data N U bt ip nxt (\<not> d) c" using other down_steps by (fastforce simp: seek_def)
qed

lemma bt_find_loop_Ok:
  assumes o: "ordered data (bt_links st) (2 ^ k) ip U" and st: "bt_mask st = 2 ^ k - 1" "length (bt_links st) = 2 * 2 ^ k" "earlier ip (bt_links st)"
    and e: "ip \<le> e" "e \<le> length data" and low: "low = ip - min W (2 ^ k)"
    and mi: "mi < int ip" "live (2 ^ k) ip mi \<longrightarrow> nat mi \<in> U"
    and sk: "seek data (2 ^ k) U (bt_links st) ip mi True cs" "seek data (2 ^ k) U (bt_links st) ip mi False cl"
    and c: "ip + cs \<le> e" "ip + cl \<le> e" and best: "good_pos data W e ip best"
  shows "\<exists>best'. bt_find_loop nb data e ip low st mi cs cl best = Ok best' \<and> good_pos data W e ip best'"
  using mi sk c best
proof (induction nb arbitrary: mi cs cl best)
  case 0
  then show ?case by (simp del: split_paired_Ex)
next
  case (Suc nb)
  show ?case
  proof (cases "mi < 0 \<or> nat mi \<le> low")
    case True
    then show ?thesis using Suc.prems(7) by (simp del: split_paired_Ex)
  next
    case False
    define m where "m = nat mi"
    have gap: "ip < n + z" if "\<not> n \<le> ip - z" for n z using that by linarith
    have m: "m < ip" "ip < m + min W (2 ^ k)" "mi = int m"
      using gap False Suc.prems(1) low by (simp_all add: m_def nat_less_iff)
    have lv: "live (2 ^ k) ip mi" "ip < m + 2 ^ k" "m \<in> U" using m Suc.prems(2) by (simp_all add: live_def)
    define n where "n = min cs cl"
    have known: "agree_upto data m ip n" using seek_known [OF o Suc.prems(3,4) lv(1)] by (simp add: m_def n_def)
    have "ip + n \<le> e" using Suc.prems(5) by (simp add: n_def)
    with grows_at_common_len [OF e(2), of ip] known m(1) obtain ml where
      gml: "obind (common_len data (m + n) (ip + n) e) (\<lambda>l. Ok (n + l)) = Ok ml" and
      ml: "ip + ml \<le> e" "agree_upto data m ip ml" "ip + ml < e \<longrightarrow> data ! (m + ml) \<noteq> data ! (ip + ml)"
      unfolding grows_at_def by blast
    obtain l where l: "common_len data (m + n) (ip + n) e = Ok l" "ml = n + l"
      using gml by (cases "common_len data (m + n) (ip + n) e") auto
    define best1 where "best1 = (if fst best < ml then (ml, m) else best)"
    have "is_match data e ip ml (ip - m)" using m(1) ml(1,2) e by (simp add: is_match_def)
    moreover have "ip - m \<le> W" using m(2) by (simp add: min_def split: if_splits)
    ultimately have best1: "good_pos data W e ip best1" using Suc.prems(7) m(1) by (simp add: best1_def good_pos_def)
    have sl: "2 * (m AND (2 ^ k - 1)) = slot_of (2 ^ k) m False" "slot_of (2 ^ k) m False + 1 = slot_of (2 ^ k) m True"
      unfolding and_ones_mod by (simp_all add: slot_of_def)
    have go: "\<not> (mi < 0 \<or> m \<le> low)" using False by (simp add: m_def)
    note run = bt_find_loop.simps(2) Let_def m_def [symmetric] if_not_P [OF go] n_def [symmetric] l(1) obind_simps
      l(2) [symmetric] best1_def [symmetric] st(1) sl
    show ?thesis
    proof (cases "ip + ml = e")
      case True
      then show ?thesis using best1 unfolding run by auto
    next
      case no: False
      then have lt: "ip + ml < length data" "m + ml < length data" "ip + ml < e" using ml(1) e m(1) by simp_all
      define x y where "x = data ! (m + ml)" and "y = data ! (ip + ml)"
      have reads: "idx data (m + ml) = (Ok x :: byte result)" "idx data (ip + ml) = (Ok y :: byte result)" using lt by (simp_all add: x_def y_def)
      have xy: "x \<noteq> y" using ml(3) lt(3) by (simp add: x_def y_def)
      let ?nxt = "\<lambda>d. bt_links st ! slot_of (2 ^ k) m d"
      have slots: "slot_of (2 ^ k) m d < length (bt_links st)" for d using slot_less [of "2 ^ k"] st(2) by simp
      have nxt: "idx (bt_links st) (slot_of (2 ^ k) m d) = (Ok (?nxt d) :: int result)" "?nxt d < int ip" for d
        using slots [of d] st(3) by (simp_all add: earlier_def)
      note run2 = run if_not_P [OF no] reads
      show ?thesis
      proof (cases "x < y")
        case True
        have "suf_less data m ip" using ml(2) lt True unfolding suf_less_def x_def y_def by blast
        then have "side data True m ip" by (simp add: side_def)
        note s = seek_on [OF o lv(3,2) this ml(2) _ refl, of cl]
        have "\<exists>best'. bt_find_loop nb data e ip low st (?nxt True) ml cl best1 = Ok best' \<and> good_pos data W e ip best'"
          by (rule Suc.IH) (use nxt s Suc.prems(4,6) m(3) ml(1) best1 in auto)
        then show ?thesis unfolding run2 if_P [OF True] nxt obind_simps .
      next
        case ge: False
        have "y < x" using ge xy by simp
        then have "suf_less data ip m" using agree_upto_sym [OF ml(2)] lt unfolding suf_less_def x_def y_def by blast
        then have "side data False m ip" by (simp add: side_def)
        note s = seek_on [OF o lv(3,2) this ml(2) _ refl, of cs]
        have "\<exists>best'. bt_find_loop nb data e ip low st (?nxt False) cs ml best1 = Ok best' \<and> good_pos data W e ip best'"
          by (rule Suc.IH) (use nxt s Suc.prems(3,5) m(3) ml(1) best1 in auto)
        then show ?thesis unfolding run2 if_not_P [OF ge] nxt obind_simps .
      qed
    qed
  qed
qed

lemma find_longest_Ok:
  assumes st: "bt_inv rt data p st" and "p \<le> ip" and "ip + 4 \<le> e" and e: "e \<le> length data"
  shows "\<exists>c. find_longest st data ip e W nb = Ok c \<and> good_pos data W e ip c"
proof -
  obtain k U where k: "bt_mask st = 2 ^ k - 1" "k \<le> 32" "length (bt_links st) = 2 * 2 ^ k" "tree_of data ip st (2 ^ k) U"
    using st tree_of_mono assms(2) unfolding bt_inv_def by blast
  have inv: "bt_hash_log st \<le> 32" "length (bt_hash st) = 2 ^ bt_hash_log st" "earlier ip (bt_hash st)" "earlier ip (bt_links st)"
    using st assms(2) earlier_mono by (auto simp: bt_inv_def)
  obtain v where v: "read_u32 data ip = Ok v" using read_u32_Ok [of ip data] assms by simp
  define h where "h = hash4 v (bt_hash_log st)"
  have h: "h < length (bt_hash st)" using inv hash4_less by (simp add: h_def)
  define mi where "mi = bt_hash st ! h"
  have mi: "mi < int ip" "live (2 ^ k) ip mi \<longrightarrow> nat mi \<in> U"
    using h inv(3) k(4) by (simp_all add: mi_def earlier_def tree_of_def)
  have o: "ordered data (bt_links st) (2 ^ k) ip U" using k(4) by (simp add: tree_of_def)
  have low: "window_low st ip W = ip - min W (2 ^ k)" by (simp add: window_low_def k(1))
  have sk: "seek data (2 ^ k) U (bt_links st) ip mi d 0" for d by (simp add: seek_def)
  have ip: "ip \<le> e" "ip + 0 \<le> e" using assms(3) by simp_all
  have "good_pos data W e ip (0, 0)" by (simp add: good_pos_def MIN_MATCH_def)
  from bt_find_loop_Ok [OF o k(1,3) inv(4) ip(1) e low mi sk sk ip(2) ip(2) this] show ?thesis
    using h by (simp add: find_longest_def v Let_def h_def [symmetric] mi_def [symmetric] del: split_paired_Ex)
qed

section \<open>The hybrid is an index of positions\<close>

lemma bt_gain_Ok: "snd m \<le> ip \<Longrightarrow> \<exists>g. bt_gain rep ip ll0 m = Ok g"
  using offset_bits_Ok [of rep "ip - snd m" ll0] by (auto simp: bt_gain_def)

definition hybrid_inv :: "nat \<Rightarrow> nat \<Rightarrow> byte list \<Rightarrow> nat \<Rightarrow> chain_state \<times> bt_state \<Rightarrow> bool" where
  "hybrid_inv rc rt data p st \<longleftrightarrow> chain_inv rc data p (fst st) \<and> bt_inv rt data p (snd st)"

lemma bt_lazy_best_Ok:
  assumes st: "hybrid_inv rc rt data p st" and p: "p \<le> ip" "ip + 4 \<le> e" "e \<le> length data"
  shows "\<exists>c. bt_lazy_best W depth data e rep ip ll0 st = Ok c \<and> good_pos data W e ip c"
proof -
  have inv: "chain_inv rc data p (fst st)" "bt_inv rt data p (snd st)" using st by (simp_all add: hybrid_inv_def)
  obtain c where c: "chain_find (fst st) data ip e W depth = Ok c" "good_pos data W e ip c"
    using chain_find_Ok [OF inv(1) p] by blast
  obtain t where t: "find_longest (snd st) data ip e W depth = Ok t" "good_pos data W e ip t"
    using find_longest_Ok [OF inv(2) p] by blast
  show ?thesis
  proof (cases "fst t < MIN_MATCH \<or> fst c < MIN_MATCH")
    case True
    then show ?thesis using c t by (auto simp: bt_lazy_best_def simp del: split_paired_Ex)
  next
    case False
    then have "snd t \<le> ip" "snd c \<le> ip" using c(2) t(2) by (simp_all add: good_pos_def)
    then obtain gt gc where "bt_gain rep ip ll0 t = Ok gt" "bt_gain rep ip ll0 c = Ok gc" using bt_gain_Ok by meson
    then show ?thesis using False c t by (simp add: bt_lazy_best_def del: split_paired_Ex)
  qed
qed

lemma bt_best_match_Ok:
  assumes "hybrid_inv rc rt data p st" and "p \<le> ip" and "ip + 4 \<le> e" and "e \<le> length data" and "rep_within W rep"
    and "R \<le> W"
  shows "\<exists>m. bt_best_match R depth data e rep ip ll0 st = Ok m \<and> good_pair data W e ip m"
proof -
  obtain cml cpos where c: "bt_lazy_best R depth data e rep ip ll0 st = Ok (cml, cpos)" "good_pos data W e ip (cml, cpos)"
    using bt_lazy_best_Ok [OF assms(1-4), of R depth rep ll0] good_pos_mono [OF _ assms(6)] by force
  obtain rml roff where r: "rep_match_at data ip e rep ll0 = Ok (rml, roff)" "good_pair data W e ip (rml, roff)"
    using rep_match_at_Ok [OF assms(5) _ assms(4), of ip ll0] assms(3) by force
  show ?thesis using c(2) r(2) by (auto simp: bt_best_match_def c(1) r(1) good_pair_def good_pos_def MIN_MATCH_def)
qed

interpretation hybrid: position_index "hybrid_put R depth" "bt_best_match R depth" "max R V" "hybrid_inv rc rt" for R V depth rc rt
proof unfold_locales
  show "\<exists>st'. hybrid_put R depth data e q st = Ok st' \<and> hybrid_inv rc rt data (Suc q) st'"
    if put: "hybrid_inv rc rt data p st" "p \<le> q" "q + 4 \<le> e" "e \<le> length data" for data p st q e
  proof -
    have "q + 4 \<le> length data" using put by simp
    then obtain c where "chain_insert data q (fst st) = Ok c" "chain_inv rc data (Suc q) c"
      using put chain_insert_Ok unfolding hybrid_inv_def by blast
    moreover obtain t where "insert_bt1 data q e R depth (snd st) = Ok t" "bt_inv rt data (Suc q) t"
      using put insert_bt1_Ok unfolding hybrid_inv_def by blast
    ultimately show ?thesis by (simp add: hybrid_put_def hybrid_inv_def)
  qed
  show "\<exists>m. bt_best_match R depth data e rep ip ll0 st = Ok m \<and> good_pair data (max R V) e ip m"
    if "hybrid_inv rc rt data p st" "p \<le> ip" "ip + 4 \<le> e" "e \<le> length data" "rep_within (max R V) rep" for data p st ip e rep ll0
    by (rule bt_best_match_Ok [OF that]) simp
  show "hybrid_inv rc rt data q st" if "hybrid_inv rc rt data p st" "p \<le> q" for data p st q
    using that chain_inv_mono [of rc data p "fst st" q] bt_inv_mono [of rt data p "snd st" q] by (simp add: hybrid_inv_def)
qed

lemma bt_lazy_parse_block_parses:
  assumes "block_fits data W start e" and "rep_within W rep" and "hybrid_inv rc rt data start st" and "R \<le> W"
  shows "parses data W start e rep (hybrid_inv rc rt data) (bt_lazy_parse_block data start e st R rep depth)"
  unfolding bt_lazy_parse_block_def using hybrid.lazy_parse_parses [where R = R and V = W] assms by (simp add: max_absorb2)

end
