(* ===== verification/Lz_Prices.thy ===== *)
theory Lz_Prices
  imports Lz_Hybrid
begin

text \<open>
  The cost model of the optimal parser of \<^verbatim>\<open>src/encode/lz.rs\<close>: fixed-point logarithms, the tables of
  prices, and the statistics that persist across the blocks of a frame. Prices steer the parser's
  choice and no more; what the parser relies on is that the tables have their sizes and that no
  price exceeds \<open>2 ^ 14\<close> (\<open>prices_ok\<close>), so that sums of prices stay far below the mark of an unreached
  cell. The domain of \<open>log2_fp\<close> is \<open>1 \<le> x\<close> (a debug assertion of the code).
\<close>

unbundle bit_operations_syntax

section \<open>Prices\<close>

definition log2_fp :: "nat \<Rightarrow> nat" where
  "log2_fp x = (let hb = highbit32 x in push_bit 8 hb OR (drop_bit hb (push_bit 8 x) AND 0xFF))"

record prices =
  pr_lit :: "nat list"
  pr_ll :: "nat list"
  pr_ml :: "nat list"
  pr_off :: "nat list"

definition code_price :: "int \<Rightarrow> nat \<Rightarrow> nat" where
  "code_price n table_log = table_log * 256 - log2_fp (if n \<le> 0 then 1 else nat n)"

definition prices_predef :: "byte list \<Rightarrow> prices result" where
  "prices_predef block =
     obind (tally (replicate 256 0) (map unat block)) (\<lambda>freq.
     let l_total = log2_fp (as_u32 (length block)) in
     Ok \<lparr>pr_lit = map (\<lambda>f. max (l_total - log2_fp (max f 1)) 16) freq,
         pr_ll = map2 (\<lambda>n b. code_price n 6 + b * 256) LL_DEFAULT LL_BITS,
         pr_ml = map2 (\<lambda>n b. code_price n 6 + b * 256) ML_DEFAULT ML_BITS,
         pr_off = map (\<lambda>c. code_price (if c < length OF_DEFAULT then OF_DEFAULT ! c else - 1) 5 + c * 256) [0..<32]\<rparr>)"

definition entropy_prices :: "nat list \<Rightarrow> nat list \<Rightarrow> nat list" where
  "entropy_prices freq extra =
     (let log_sum = log2_fp (sum_list (map (\<lambda>f. f + 1) freq)) in
      map2 (\<lambda>f x. log_sum - log2_fp (f + 1) + x * 256) freq extra)"

definition prices_from_freqs :: "nat list \<Rightarrow> nat list \<Rightarrow> nat list \<Rightarrow> nat list \<Rightarrow> prices" where
  "prices_from_freqs lit_freq ll_freq ml_freq of_freq =
     (let log_lit = log2_fp (sum_list (map (\<lambda>f. f + 1) lit_freq)) in
      \<lparr>pr_lit = map (\<lambda>f. max (log_lit - log2_fp (f + 1)) 16) lit_freq,
       pr_ll = entropy_prices ll_freq LL_BITS, pr_ml = entropy_prices ml_freq ML_BITS,
       pr_off = entropy_prices of_freq [0..<32]\<rparr>)"

text \<open>The literal runs of sequences from \<open>p\<close> on, and the position behind them.\<close>

definition take_run :: "byte list \<Rightarrow> enc_seq \<Rightarrow> byte list \<times> nat \<Rightarrow> (byte list \<times> nat) result" where
  "take_run data s acc =
     (let (literals, p) = acc in
      obind (slice_range data p (p + sq_lit_len s)) (\<lambda>run.
      Ok (literals @ run, p + (sq_lit_len s + sq_match_len s))))"

definition block_literals :: "byte list \<Rightarrow> nat \<Rightarrow> nat \<Rightarrow> enc_seq list \<Rightarrow> byte list result" where
  "block_literals data start e seqs =
     obind (ofold (take_run data) seqs ([], start)) (\<lambda>(literals, p).
     obind (slice_range data p e) (\<lambda>run. Ok (literals @ run)))"

definition materialize_literals :: "byte list \<Rightarrow> nat \<Rightarrow> nat \<Rightarrow> enc_seq list \<Rightarrow> byte list result" where
  "materialize_literals data start e seqs = block_literals data start e seqs"

text \<open>The histograms of the three codes, one after the other.\<close>

definition count_codes :: "enc_seq list \<Rightarrow> nat list \<Rightarrow> nat list \<Rightarrow> nat list \<Rightarrow> (nat list \<times> nat list \<times> nat list) result" where
  "count_codes seqs ll_freq ml_freq of_freq =
     obind (obind (traverse (\<lambda>s. ll_code (sq_lit_len s)) seqs) (tally ll_freq)) (\<lambda>ll_freq.
     obind (obind (traverse (\<lambda>s. ml_code (sq_match_len s)) seqs) (tally ml_freq)) (\<lambda>ml_freq.
     obind (obind (traverse (\<lambda>s. of_code (sq_offset_value s)) seqs) (\<lambda>cs. tally of_freq (map (\<lambda>c. min c 31) cs))) (\<lambda>of_freq.
     Ok (ll_freq, ml_freq, of_freq))))"

definition prices_from_stats :: "byte list \<Rightarrow> enc_seq list \<Rightarrow> prices result" where
  "prices_from_stats block seqs =
     obind (block_literals block 0 (length block) seqs) (\<lambda>literals.
     obind (tally (replicate 256 0) (map unat literals)) (\<lambda>lit_freq.
     obind (count_codes seqs (replicate 36 0) (replicate 53 0) (replicate 32 0)) (\<lambda>(ll_freq, ml_freq, of_freq).
     Ok (prices_from_freqs lit_freq ll_freq ml_freq of_freq))))"

section \<open>Statistics across blocks\<close>

record opt_stats =
  os_lit :: "nat list"
  os_ll :: "nat list"
  os_ml :: "nat list"
  os_of :: "nat list"
  os_seeded :: bool

definition opt_stats_new :: opt_stats where
  "opt_stats_new = \<lparr>os_lit = replicate 256 0, os_ll = replicate 36 0, os_ml = replicate 53 0, os_of = replicate 32 0, os_seeded = False\<rparr>"

definition STATS_CAP :: nat where "STATS_CAP = 2 ^ 16"

definition downscale :: "nat list \<Rightarrow> nat list" where
  "downscale a = (if STATS_CAP < sum_list a then map (drop_bit 1) a else a)"

definition opt_stats_record :: "byte list \<Rightarrow> nat \<Rightarrow> nat \<Rightarrow> enc_seq list \<Rightarrow> opt_stats \<Rightarrow> opt_stats result" where
  "opt_stats_record data start e seqs st =
     obind (block_literals data start e seqs) (\<lambda>literals.
     obind (tally (os_lit st) (map unat literals)) (\<lambda>lit.
     obind (count_codes seqs (os_ll st) (os_ml st) (os_of st)) (\<lambda>(ll, ml, off).
     Ok \<lparr>os_lit = downscale lit, os_ll = downscale ll, os_ml = downscale ml, os_of = downscale off, os_seeded = True\<rparr>)))"

definition prices_from_opt_stats :: "opt_stats \<Rightarrow> prices" where
  "prices_from_opt_stats st = prices_from_freqs (os_lit st) (os_ll st) (os_ml st) (os_of st)"

section \<open>The tables have their sizes, and prices are small\<close>

definition prices_ok :: "prices \<Rightarrow> bool" where
  "prices_ok p \<longleftrightarrow> length (pr_lit p) = 256 \<and> length (pr_ll p) = 36 \<and> length (pr_ml p) = 53 \<and> length (pr_off p) = 32
     \<and> (\<forall>x \<in> set (pr_lit p) \<union> set (pr_ll p) \<union> set (pr_ml p) \<union> set (pr_off p). x \<le> 2 ^ 14)"

lemma or_less_pow: "x < 2 ^ n \<Longrightarrow> y < 2 ^ n \<Longrightarrow> x OR y < 2 ^ n" for x y :: nat
  by (simp flip: take_bit_nat_eq_self_iff)

lemma log2_fp_le: "log2_fp x \<le> 8191"
proof -
  have "push_bit 8 (highbit32 x) < 2 ^ 13" by (simp add: push_bit_eq_mult highbit32_def)
  moreover have "n AND 255 < 2 ^ 13" for n :: nat
    using and_ones_mod [of n 8] mod_less_divisor [of 256 n] by simp
  ultimately have "log2_fp x < 2 ^ 13" unfolding log2_fp_def Let_def by (intro or_less_pow) simp_all
  then show ?thesis by simp
qed

lemma code_price_le: "table_log \<le> 6 \<Longrightarrow> code_price n table_log \<le> 1536"
  by (simp add: code_price_def)

lemma entropy_prices_ok:
  assumes "length extra = length freq" and "\<forall>x \<in> set extra. x \<le> 32"
  shows "length (entropy_prices freq extra) = length freq" and "\<forall>x \<in> set (entropy_prices freq extra). x \<le> 2 ^ 14"
proof -
  show "length (entropy_prices freq extra) = length freq" using assms(1) by (simp add: entropy_prices_def Let_def)
  have "a - b + x * 256 \<le> 16384" if "a \<le> 8191" "x \<le> 32" for a b x :: nat using that by linarith
  then show "\<forall>x \<in> set (entropy_prices freq extra). x \<le> 2 ^ 14"
    using assms(2) log2_fp_le by (auto simp: entropy_prices_def Let_def dest!: set_zip_rightD)
qed

lemma extra_bits_le: "\<forall>x \<in> set LL_BITS. x \<le> 32" "\<forall>x \<in> set ML_BITS. x \<le> 32" "\<forall>x \<in> set [0..<32 :: nat]. x \<le> 32"
  by (simp_all add: LL_BITS_def ML_BITS_def)

lemma literal_price_le: "max (log2_fp x - y) 16 \<le> 2 ^ 14"
  using log2_fp_le [of x] by simp

lemma prices_from_freqs_ok:
  assumes "length lit = 256" and "length ll = 36" and "length ml = 53" and "length off = 32"
  shows "prices_ok (prices_from_freqs lit ll ml off)"
proof -
  have "length LL_BITS = length ll" "length ML_BITS = length ml" "length [0..<32] = length off"
    using assms by (simp_all add: LL_BITS_def ML_BITS_def)
  then show ?thesis using entropy_prices_ok [of LL_BITS ll] entropy_prices_ok [of ML_BITS ml] entropy_prices_ok [of "[0..<32]" off]
      extra_bits_le literal_price_le assms
    by (auto simp: prices_from_freqs_def prices_ok_def Let_def)
qed

lemma tally_Ok: "\<forall>c \<in> set cs. c < length freq \<Longrightarrow> \<exists>freq'. (tally freq cs :: nat list result) = Ok freq' \<and> length freq' = length freq"
  using tally_spec [of cs freq] by blast

lemma tally_bytes_Ok: "length freq = 256 \<Longrightarrow> \<exists>freq'. (tally freq (map unat (bs :: byte list)) :: nat list result) = Ok freq' \<and> length freq' = 256"
proof -
  have "unat b < 256" for b :: byte using unsigned_less [of b] by simp
  then show "length freq = 256 \<Longrightarrow> ?thesis" using tally_Ok [of "map unat bs" freq] by auto
qed

lemma prices_okI:
  "length l = 256 \<Longrightarrow> length ll = 36 \<Longrightarrow> length ml = 53 \<Longrightarrow> length off = 32 \<Longrightarrow> \<forall>x \<in> set l. x \<le> 2 ^ 14 \<Longrightarrow> \<forall>x \<in> set ll. x \<le> 2 ^ 14
    \<Longrightarrow> \<forall>x \<in> set ml. x \<le> 2 ^ 14 \<Longrightarrow> \<forall>x \<in> set off. x \<le> 2 ^ 14 \<Longrightarrow> prices_ok \<lparr>pr_lit = l, pr_ll = ll, pr_ml = ml, pr_off = off\<rparr>"
  by (simp add: prices_ok_def ball_Un)

lemma Ok_exI: "Q x \<Longrightarrow> \<exists>y. Ok x = Ok y \<and> Q y"
  by simp

lemma prices_predef_Ok: "\<exists>p. prices_predef block = Ok p \<and> prices_ok p"
proof -
  obtain freq where f: "(tally (replicate 256 0) (map unat block) :: nat list result) = Ok freq" "length freq = 256"
    using tally_bytes_Ok [of "replicate 256 0" block] by auto
  have le: "code_price n l + b * 256 \<le> 16384" if "l \<le> 6" "b \<le> 32" for n l b
    using code_price_le [OF that(1), of n] that(2) by linarith
  have "\<forall>x \<in> set (map2 (\<lambda>n b. code_price n 6 + b * 256) ns bs). x \<le> 2 ^ 14" if "\<forall>b \<in> set bs. b \<le> 32" for ns bs
    using le that by (auto dest!: set_zip_rightD)
  from this [OF extra_bits_le(1)] this [OF extra_bits_le(2)]
  have "\<forall>x \<in> set (map2 (\<lambda>n b. code_price n 6 + b * 256) LL_DEFAULT LL_BITS). x \<le> 2 ^ 14"
    "\<forall>x \<in> set (map2 (\<lambda>n b. code_price n 6 + b * 256) ML_DEFAULT ML_BITS). x \<le> 2 ^ 14" by blast+
  moreover have "\<forall>x \<in> set (map (\<lambda>c. code_price (if c < length OF_DEFAULT then OF_DEFAULT ! c else - 1) 5 + c * 256) [0..<32]). x \<le> 2 ^ 14"
    using le [of 5] by auto
  moreover have "\<forall>x \<in> set (map (\<lambda>f. max (log2_fp (as_u32 (length block)) - log2_fp (max f 1)) 16) freq). x \<le> 2 ^ 14"
    using literal_price_le by auto
  moreover have "length LL_DEFAULT = 36" "length LL_BITS = 36" "length ML_DEFAULT = 53" "length ML_BITS = 53"
    by (simp_all add: LL_DEFAULT_def LL_BITS_def ML_DEFAULT_def ML_BITS_def)
  ultimately show ?thesis using f unfolding prices_predef_def Let_def f(1) obind_simps
    by (intro Ok_exI prices_okI) simp_all
qed

lemma count_codes_Ok:
  assumes "\<forall>s \<in> set seqs. seq_valid s" and "length ll = 36" and "length ml = 53" and "length off = 32"
  shows "\<exists>ll' ml' off'. count_codes seqs ll ml off = Ok (ll', ml', off') \<and> length ll' = 36 \<and> length ml' = 53 \<and> length off' = 32"
proof -
  have v: "s \<in> set seqs \<Longrightarrow> seq_valid s" for s using assms(1) by blast
  obtain ll' where "(tally ll (map ll_of seqs) :: nat list result) = Ok ll'" "length ll' = 36"
    using tally_Ok [of "map ll_of seqs" ll] ll_code_valid(2) assms by fastforce
  moreover obtain ml' where "(tally ml (map ml_of seqs) :: nat list result) = Ok ml'" "length ml' = 53"
    using tally_Ok [of "map ml_of seqs" ml] ml_code_valid(2) assms by fastforce
  moreover obtain off' where "(tally off (map (\<lambda>c. min c 31) (map of_of seqs)) :: nat list result) = Ok off'" "length off' = 32"
    using tally_Ok [of "map (\<lambda>c. min c 31) (map of_of seqs)" off] assms by fastforce
  ultimately show ?thesis using traverse_codes [of seqs, OF v] by (simp add: count_codes_def)
qed

section \<open>Literal runs\<close>

definition runs_to :: "byte list \<Rightarrow> nat \<Rightarrow> enc_seq list \<Rightarrow> byte list \<Rightarrow> nat \<Rightarrow> bool" where
  "runs_to data start seqs lits p \<longleftrightarrow> ofold (take_run data) seqs ([], start) = Ok (lits, p)"

lemma ofold_append: "ofold f (xs @ ys) s = obind (ofold f xs s) (ofold f ys)"
proof (induction xs arbitrary: s)
  case Nil
  then show ?case by simp
next
  case (Cons x xs)
  then show ?case by (cases "f x s") simp_all
qed

lemma runs_to_snoc:
  assumes "runs_to data start seqs lits p" and "p + sq_lit_len s \<le> length data"
  shows "runs_to data start (seqs @ [s]) (lits @ take (sq_lit_len s) (drop p data)) (p + (sq_lit_len s + sq_match_len s))"
  using assms by (simp add: runs_to_def ofold_append take_run_def)

lemma take_run_Ok: "take_run data s (lits, p) = Ok (lits', p') \<longleftrightarrow>
    p + sq_lit_len s \<le> length data \<and> lits' = lits @ take (sq_lit_len s) (drop p data) \<and> p' = p + (sq_lit_len s + sq_match_len s)"
  by (auto simp: take_run_def obind_eq_Ok outcome_simps)

lemma runs_mono: "ofold (take_run data) seqs (lits, p) = Ok (lits', p') \<Longrightarrow> p \<le> p'"
proof (induction seqs arbitrary: lits p)
  case Nil
  then show ?case by simp
next
  case (Cons s seqs)
  then obtain l1 p1 where 1: "take_run data s (lits, p) = Ok (l1, p1)" "ofold (take_run data) seqs (l1, p1) = Ok (lits', p')"
    by (auto simp: obind_eq_Ok)
  have "p \<le> p1" using 1(1) by (simp add: take_run_Ok)
  then show ?case using Cons.IH [OF 1(2)] by simp
qed

text \<open>The runs within a block, counted from its start.\<close>

lemma runs_in_block:
  assumes "ofold (take_run data) seqs (lits, start + q) = Ok (lits', p')" and "p' \<le> e" and "e \<le> length data"
  shows "ofold (take_run (take (e - start) (drop start data))) seqs (lits, q) = Ok (lits', p' - start)"
  using assms
proof (induction seqs arbitrary: lits q)
  case Nil
  then have "p' = start + q" "lits' = lits" by simp_all
  then show ?case by simp
next
  case (Cons s seqs)
  let ?block = "take (e - start) (drop start data)" and ?q = "q + (sq_lit_len s + sq_match_len s)"
  define l1 where "l1 = lits @ take (sq_lit_len s) (drop (start + q) data)"
  have 1: "ofold (take_run data) seqs (l1, start + ?q) = Ok (lits', p')" and le: "start + q + sq_lit_len s \<le> length data"
    using Cons.prems(1) by (auto simp: obind_eq_Ok take_run_Ok l1_def add.assoc)
  have "start + ?q \<le> e" using runs_mono [OF 1] assms(2) by simp
  then have "take_run ?block s (lits, q) = Ok (l1, ?q)"
    using assms(3) by (auto simp: take_run_Ok l1_def take_drop min_def add.commute)
  then show ?case using Cons.IH [OF 1 assms(2,3)] by simp
qed

lemma block_literals_Ok:
  "runs_to data start seqs lits p \<Longrightarrow> p \<le> e \<Longrightarrow> e \<le> length data \<Longrightarrow>
    block_literals data start e seqs = Ok (lits @ take (e - p) (drop p data))"
  by (simp add: runs_to_def block_literals_def)

lemma prices_from_stats_Ok:
  assumes r: "runs_to data start seqs lits p" and p: "p \<le> e" "e \<le> length data" and v: "\<forall>s \<in> set seqs. seq_valid s"
  shows "\<exists>pr. prices_from_stats (take (e - start) (drop start data)) seqs = Ok pr \<and> prices_ok pr"
proof -
  let ?block = "take (e - start) (drop start data)"
  have "start \<le> p" using runs_mono r unfolding runs_to_def by blast
  have "runs_to ?block 0 seqs lits (p - start)"
    using runs_in_block [of data seqs "[]" start 0 lits p e] r p by (simp add: runs_to_def)
  moreover have "p - start \<le> length ?block" using p by simp
  ultimately obtain ls where ls: "block_literals ?block 0 (length ?block) seqs = Ok ls"
    using block_literals_Ok by blast
  obtain freq where f: "(tally (replicate 256 0) (map unat ls) :: nat list result) = Ok freq" "length freq = 256"
    using tally_bytes_Ok [of "replicate 256 0" ls] by auto
  obtain ll ml off where "count_codes seqs (replicate 36 0) (replicate 53 0) (replicate 32 0) = Ok (ll, ml, off)"
    "length ll = 36" "length ml = 53" "length off = 32"
    using count_codes_Ok [OF v, of "replicate 36 0" "replicate 53 0" "replicate 32 0"] by auto
  then show ?thesis using prices_from_freqs_ok f ls by (simp add: prices_from_stats_def)
qed

definition stats_ok :: "opt_stats \<Rightarrow> bool" where
  "stats_ok st \<longleftrightarrow> length (os_lit st) = 256 \<and> length (os_ll st) = 36 \<and> length (os_ml st) = 53 \<and> length (os_of st) = 32"

lemma stats_ok_new: "stats_ok opt_stats_new"
  by (simp add: stats_ok_def opt_stats_new_def)

lemma prices_from_opt_stats_ok: "stats_ok st \<Longrightarrow> prices_ok (prices_from_opt_stats st)"
  by (simp add: stats_ok_def prices_from_opt_stats_def prices_from_freqs_ok)

lemma opt_stats_record_Ok:
  assumes "runs_to data start seqs lits p" and "p \<le> e" and "e \<le> length data" and "\<forall>s \<in> set seqs. seq_valid s" and st: "stats_ok st"
  shows "\<exists>st'. opt_stats_record data start e seqs st = Ok st' \<and> stats_ok st'"
proof -
  obtain ls where ls: "block_literals data start e seqs = Ok ls" using block_literals_Ok [OF assms(1-3)] by blast
  obtain lit where "(tally (os_lit st) (map unat ls) :: nat list result) = Ok lit" "length lit = 256"
    using tally_bytes_Ok st unfolding stats_ok_def by blast
  moreover obtain ll ml off where "count_codes seqs (os_ll st) (os_ml st) (os_of st) = Ok (ll, ml, off)"
    "length ll = 36" "length ml = 53" "length off = 32"
    using count_codes_Ok [OF assms(4), of "os_ll st" "os_ml st" "os_of st"] st by (auto simp: stats_ok_def)
  moreover have "length (downscale a) = length a" for a by (simp add: downscale_def)
  ultimately show ?thesis using ls by (simp add: opt_stats_record_def stats_ok_def)
qed

end
