(* ===== verification/Lz_Dp.thy ===== *)
theory Lz_Dp
  imports Lz_Prices
begin

text \<open>
  The dynamic program of the optimal parser (\<open>run_dp\<close> of \<^verbatim>\<open>src/encode/lz.rs\<close>): one cell per position of
  the block with the cheapest known way to reach it, filled from left to right, and the walk back over
  the cheapest path. A cell is offered literals, a long match that the collection committed to, the
  three repeat offsets, and the collected matches with all their shorter lengths. Whatever the prices,
  the walk back finds sequences that describe the block: every cell that was reached names a match of
  the data and a cell to its left (\<open>cell_fits\<close>), and at the end all cells are reached.
\<close>

section \<open>Cells\<close>

definition MAX_SUBLEN :: nat where "MAX_SUBLEN = 64"

record opt_cell =
  oc_price :: nat
  oc_mlen :: nat
  oc_litlen :: nat
  oc_offval :: nat
  oc_rep :: rep_offsets

definition UNREACHED :: nat where "UNREACHED = (2 ^ 64 - 1) div 4"

definition dp_cells :: "nat \<Rightarrow> rep_offsets \<Rightarrow> opt_cell list" where
  "dp_cells n init_rep =
     (replicate (n + 1) \<lparr>oc_price = UNREACHED, oc_mlen = 0, oc_litlen = 0, oc_offval = 0, oc_rep = (0, 0, 0)\<rparr>)
       [0 := \<lparr>oc_price = 0, oc_mlen = 0, oc_litlen = 0, oc_offval = 0, oc_rep = init_rep\<rparr>]"

definition pending :: "opt_cell \<Rightarrow> nat" where
  "pending c = (if 0 < oc_mlen c then 0 else oc_litlen c)"

definition dp_place :: "nat \<Rightarrow> opt_cell \<Rightarrow> opt_cell list \<Rightarrow> opt_cell list result" where
  "dp_place j cell cells =
     obind (idx cells j) (\<lambda>old. if oc_price cell < oc_price old then upd cells j cell else Ok cells)"

text \<open>The literal at \<open>i\<close>, whose cell is \<open>c\<close>.\<close>

definition dp_literal :: "byte list \<Rightarrow> nat \<Rightarrow> prices \<Rightarrow> nat \<Rightarrow> opt_cell \<Rightarrow> opt_cell list \<Rightarrow> opt_cell list result" where
  "dp_literal data start prices i c cells =
     (let pend = pending c in
      obind (if pend = 0 then obind (ll_code 1) (idx (pr_ll prices))
             else
               obind (obind (ll_code (pend + 1)) (idx (pr_ll prices))) (\<lambda>x.
               obind (obind (ll_code pend) (idx (pr_ll prices))) (\<lambda>y. Ok (x - y)))) (\<lambda>ll_add.
      obind (idx data (start + i)) (\<lambda>b.
      obind (idx (pr_lit prices) (unat b)) (\<lambda>lit.
      dp_place (i + 1) \<lparr>oc_price = oc_price c + lit + ll_add, oc_mlen = 0, oc_litlen = pend + 1, oc_offval = 0, oc_rep = oc_rep c\<rparr> cells))))"

text \<open>A match from \<open>i\<close> at the distance \<open>off\<close>: the offset value, the price without that of the length,
  and the repeat offsets behind it. \<open>dp_whole\<close> places it with its length.\<close>

definition dp_offset :: "prices \<Rightarrow> opt_cell \<Rightarrow> nat \<Rightarrow> nat \<Rightarrow> (nat \<times> nat \<times> rep_offsets) result" where
  "dp_offset prices c ll_owed off =
     (let ll0 = (pending c = 0) in
      obind (encode_offset (oc_rep c) off ll0) (\<lambda>offval.
      obind (of_code offval) (\<lambda>code.
      obind (idx (pr_off prices) (min code 31)) (\<lambda>ocost.
      obind (resolve_offset (oc_rep c) offval ll0) (\<lambda>(_, new_rep).
      Ok (offval, oc_price c + ll_owed + ocost, new_rep))))))"

definition match_cell :: "opt_cell \<Rightarrow> nat \<Rightarrow> nat \<Rightarrow> nat \<times> nat \<times> rep_offsets \<Rightarrow> opt_cell" where
  "match_cell c l price o' =
     (let (offval, base, new_rep) = o' in
      \<lparr>oc_price = base + price, oc_mlen = as_u32 l, oc_litlen = pending c, oc_offval = offval, oc_rep = new_rep\<rparr>)"

definition dp_whole :: "prices \<Rightarrow> nat \<Rightarrow> opt_cell \<Rightarrow> nat \<times> nat \<times> rep_offsets \<Rightarrow> nat \<Rightarrow> opt_cell list \<Rightarrow> opt_cell list result" where
  "dp_whole prices i c o' l cells =
     obind (obind (ml_code (as_u32 l)) (idx (pr_ml prices))) (\<lambda>price. dp_place (i + l) (match_cell c l price o') cells)"

text \<open>All the lengths from \<open>a\<close> to \<open>MAX_SUBLEN\<close>, and the whole length beyond.\<close>

definition dp_match ::
  "prices \<Rightarrow> nat list \<Rightarrow> nat \<Rightarrow> opt_cell \<Rightarrow> nat \<Rightarrow> nat \<Rightarrow> nat \<Rightarrow> nat \<Rightarrow> opt_cell list \<Rightarrow> opt_cell list result" where
  "dp_match prices ml_price i c ll_owed a len off cells =
     obind (dp_offset prices c ll_owed off) (\<lambda>o'.
     obind (ofold (\<lambda>l cells. obind (idx ml_price l) (\<lambda>price. dp_place (i + l) (match_cell c l price o') cells))
              [a..<Suc (min len MAX_SUBLEN)] cells) (\<lambda>cells.
     if MAX_SUBLEN < len then dp_whole prices i c o' len cells else Ok cells))"

definition dp_rep ::
  "byte list \<Rightarrow> nat \<Rightarrow> nat \<Rightarrow> prices \<Rightarrow> nat list \<Rightarrow> nat \<Rightarrow> opt_cell \<Rightarrow> nat \<Rightarrow> nat \<Rightarrow> opt_cell list \<Rightarrow> opt_cell list result" where
  "dp_rep data start n prices ml_price i c ll_owed ov cells =
     obind (rep_resolved_offset (oc_rep c) ov (pending c = 0)) (\<lambda>off.
     if off = 0 \<or> start + i < off then Ok cells
     else
       obind (common_bytes data (start + i - off) (start + i) (n - i) 0) (\<lambda>ml.
       if ml < MIN_MATCH then Ok cells else dp_match prices ml_price i c ll_owed MIN_MATCH ml off cells))"

text \<open>The collected matches; the lengths up to \<open>prev_len\<close> were offered with a shorter match.\<close>

fun dp_matches ::
  "prices \<Rightarrow> nat list \<Rightarrow> nat \<Rightarrow> opt_cell \<Rightarrow> nat \<Rightarrow> (nat \<times> nat) list \<Rightarrow> nat \<Rightarrow> opt_cell list \<Rightarrow> opt_cell list result" where
  "dp_matches prices ml_price i c ll_owed [] prev_len cells = Ok cells"
| "dp_matches prices ml_price i c ll_owed ((len, off) # ms) prev_len cells =
     obind (dp_match prices ml_price i c ll_owed (max (prev_len + 1) MIN_MATCH) len off cells)
       (dp_matches prices ml_price i c ll_owed ms len)"

definition dp_step ::
  "byte list \<Rightarrow> nat \<Rightarrow> nat \<Rightarrow> prices \<Rightarrow> nat list \<Rightarrow> nat list \<Rightarrow> (nat \<times> nat) list \<Rightarrow> (nat \<times> nat) option list \<Rightarrow> bool
     \<Rightarrow> nat \<Rightarrow> opt_cell list \<Rightarrow> opt_cell list result" where
  "dp_step data start n prices ml_price match_starts matches_flat pos_long offer_reps i cells =
     obind (idx cells i) (\<lambda>c.
     obind (dp_literal data start prices i c cells) (\<lambda>cells.
     obind (if pending c = 0 then obind (ll_code 0) (idx (pr_ll prices)) else Ok 0) (\<lambda>ll_owed.
     obind (idx pos_long i) (\<lambda>long.
     case long of
       Some (len, off) \<Rightarrow> obind (dp_offset prices c ll_owed off) (\<lambda>o'. dp_whole prices i c o' len cells)
     | None \<Rightarrow>
         obind (if offer_reps then ofold (dp_rep data start n prices ml_price i c ll_owed) [1, 2, 3] cells else Ok cells) (\<lambda>cells.
         obind (idx match_starts i) (\<lambda>a.
         obind (idx match_starts (i + 1)) (\<lambda>b.
         obind (slice_range matches_flat a b) (\<lambda>ms.
         dp_matches prices ml_price i c ll_owed ms (MIN_MATCH - 1) cells))))))))"

text \<open>The walk back; a cell of length 0 would keep it in place.\<close>

function dp_backtrack :: "opt_cell list \<Rightarrow> nat \<Rightarrow> enc_seq list \<Rightarrow> enc_seq list result" where
  "dp_backtrack cells pos seqs =
     (if 0 < pos then
        obind (idx cells pos) (\<lambda>c.
        obind (usub pos (oc_mlen c + oc_litlen c)) (\<lambda>pos'.
        if pos \<le> pos' then Hang
        else dp_backtrack cells pos' (seqs @ [\<lparr>sq_lit_len = oc_litlen c, sq_match_len = oc_mlen c, sq_offset_value = oc_offval c\<rparr>])))
      else Ok seqs)"
  by pat_completeness auto
termination by (relation "measure (\<lambda>(cells, pos, seqs). pos)") auto

declare dp_backtrack.simps [simp del]

definition run_dp ::
  "byte list \<Rightarrow> nat \<Rightarrow> nat \<Rightarrow> prices \<Rightarrow> nat list \<Rightarrow> (nat \<times> nat) list \<Rightarrow> (nat \<times> nat) option list \<Rightarrow> rep_offsets \<Rightarrow> bool
     \<Rightarrow> (enc_seq list \<times> rep_offsets) result" where
  "run_dp data start n prices match_starts matches_flat pos_long init_rep offer_reps =
     obind (traverse (\<lambda>l. if l < MIN_MATCH then Ok 0 else obind (ml_code l) (idx (pr_ml prices))) [0..<MAX_SUBLEN + 1]) (\<lambda>ml_price.
     obind (ofold (dp_step data start n prices ml_price match_starts matches_flat pos_long offer_reps) [0..<n] (dp_cells n init_rep)) (\<lambda>cells.
     obind (idx cells n) (\<lambda>c.
     obind (if oc_mlen c = 0 then usub n (oc_litlen c) else Ok n) (\<lambda>pos.
     obind (dp_backtrack cells pos []) (\<lambda>seqs.
     Ok (rev seqs, oc_rep c))))))"

section \<open>What a cell says\<close>

text \<open>A cell from which sequences can end: the first one, or one that a match led to.\<close>

definition anchored :: "opt_cell list \<Rightarrow> nat \<Rightarrow> nat \<Rightarrow> rep_offsets \<Rightarrow> bool" where
  "anchored cells i a rep \<longleftrightarrow> a \<le> i \<and> (a = 0 \<or> 0 < oc_mlen (cells ! a)) \<and> oc_rep (cells ! a) = rep"

definition match_fits :: "byte list \<Rightarrow> nat \<Rightarrow> nat \<Rightarrow> nat \<Rightarrow> nat \<Rightarrow> nat \<Rightarrow> nat \<Rightarrow> bool" where
  "match_fits data W start n i len off \<longleftrightarrow> is_match data (start + n) (start + i) len off \<and> off \<le> W"

definition cell_fits :: "byte list \<Rightarrow> nat \<Rightarrow> nat \<Rightarrow> nat \<Rightarrow> opt_cell list \<Rightarrow> nat \<Rightarrow> nat \<Rightarrow> opt_cell \<Rightarrow> bool" where
  "cell_fits data W start n cells i j c \<longleftrightarrow> oc_price c \<le> j * 2 ^ 16 \<and> rep_within W (oc_rep c)
     \<and> (if oc_mlen c = 0 then oc_litlen c \<le> j \<and> anchored cells i (j - oc_litlen c) (oc_rep c)
        else MIN_MATCH \<le> oc_mlen c \<and> oc_mlen c + oc_litlen c \<le> j
          \<and> (\<exists>off rep1. anchored cells i (j - (oc_mlen c + oc_litlen c)) rep1
              \<and> match_fits data W start n (j - oc_mlen c) (oc_mlen c) off
              \<and> encode_offset rep1 off (oc_litlen c = 0) = Ok (oc_offval c)
              \<and> resolve_offset rep1 (oc_offval c) (oc_litlen c = 0) = Ok (off, oc_rep c)))"

definition reached :: "opt_cell \<Rightarrow> bool" where
  "reached c \<longleftrightarrow> oc_price c < UNREACHED"

definition dp_inv :: "byte list \<Rightarrow> nat \<Rightarrow> nat \<Rightarrow> nat \<Rightarrow> rep_offsets \<Rightarrow> nat \<Rightarrow> nat \<Rightarrow> opt_cell list \<Rightarrow> bool" where
  "dp_inv data W start n rep0 i m cells \<longleftrightarrow> length cells = Suc n \<and> oc_mlen (cells ! 0) = 0 \<and> oc_litlen (cells ! 0) = 0
     \<and> oc_rep (cells ! 0) = rep0 \<and> (\<forall>j \<le> m. reached (cells ! j))
     \<and> (\<forall>j \<le> n. reached (cells ! j) \<longrightarrow> cell_fits data W start n cells i j (cells ! j))"

lemma ofold_inv:
  assumes "\<And>x s. x \<in> set xs \<Longrightarrow> P s \<Longrightarrow> \<exists>s'. f x s = Ok s' \<and> P s'" and "P s"
  shows "\<exists>s'. ofold f xs s = Ok s' \<and> P s'"
  using assms
proof (induction xs arbitrary: s)
  case Nil
  then show ?case by simp
next
  case (Cons x xs)
  obtain s1 where s1: "f x s = Ok s1" "P s1" using Cons.prems(1) [of x s] Cons.prems(2) by auto
  have "\<exists>s'. ofold f xs s1 = Ok s' \<and> P s'" by (rule Cons.IH [OF _ s1(2)]) (use Cons.prems(1) in auto)
  then show ?case using s1(1) by simp
qed

lemma anchored_update: "anchored cells i a rep \<Longrightarrow> i < j \<Longrightarrow> anchored (cells[j := c]) i a rep"
  by (auto simp: anchored_def)

lemma cell_fits_update: "cell_fits data W start n cells i k c \<Longrightarrow> i < j \<Longrightarrow> cell_fits data W start n (cells[j := c']) i k c"
  unfolding cell_fits_def using anchored_update [of cells i] by (cases "oc_mlen c = 0") (simp, simp del: split_paired_Ex, blast)

lemma cell_fits_mono: "cell_fits data W start n cells i j c \<Longrightarrow> i \<le> i' \<Longrightarrow> cell_fits data W start n cells i' j c"
  by (auto simp: cell_fits_def anchored_def split: if_splits)

lemma cell_fits_reached: "cell_fits data W start n cells i j c \<Longrightarrow> j \<le> BLOCK_SIZE_MAX \<Longrightarrow> reached c"
  by (simp add: cell_fits_def reached_def UNREACHED_def BLOCK_SIZE_MAX_def)

text \<open>While \<open>i\<close> is visited: its cell stays.\<close>

definition visiting :: "byte list \<Rightarrow> nat \<Rightarrow> nat \<Rightarrow> nat \<Rightarrow> rep_offsets \<Rightarrow> nat \<Rightarrow> nat \<Rightarrow> opt_cell \<Rightarrow> opt_cell list \<Rightarrow> bool" where
  "visiting data W start n rep0 i m c cells \<longleftrightarrow> dp_inv data W start n rep0 i m cells \<and> cells ! i = c \<and> i \<le> m"

lemma dp_place_Ok:
  assumes v: "visiting data W start n rep0 i m c cells" and j: "i < j" "j \<le> n" "n \<le> BLOCK_SIZE_MAX"
    and fits: "cell_fits data W start n cells i j new"
  shows "\<exists>cells'. dp_place j new cells = Ok cells' \<and> visiting data W start n rep0 i m c cells' \<and> reached (cells' ! j)"
proof -
  have inv: "length cells = Suc n" "oc_mlen (cells ! 0) = 0" "oc_litlen (cells ! 0) = 0" "oc_rep (cells ! 0) = rep0"
    "\<forall>j \<le> m. reached (cells ! j)" "\<forall>j \<le> n. reached (cells ! j) \<longrightarrow> cell_fits data W start n cells i j (cells ! j)" "cells ! i = c"
    using v by (simp_all add: visiting_def dp_inv_def)
  have new: "reached new" using cell_fits_reached [OF fits] j by simp
  show ?thesis
  proof (cases "oc_price new < oc_price (cells ! j)")
    case True
    let ?cells = "cells[j := new]"
    have "cell_fits data W start n ?cells i k (?cells ! k)" if "k \<le> n" "reached (?cells ! k)" for k
      using that inv(1,6) fits j(1) by (cases "k = j") (auto intro: cell_fits_update)
    moreover have "reached (?cells ! k)" if "k \<le> m" for k using inv(1,5) new that j(2) by (cases "k = j") simp_all
    ultimately have "dp_inv data W start n rep0 i m ?cells" using inv j unfolding dp_inv_def by auto
    then show ?thesis using True inv j new v by (simp add: dp_place_def visiting_def)
  next
    case False
    then have "reached (cells ! j)" using new by (simp add: reached_def)
    then show ?thesis using False inv(1) j(2) v by (simp add: dp_place_def)
  qed
qed

text \<open>The cell that is visited.\<close>

lemma source_cell:
  assumes "visiting data W start n rep0 i m c cells" and "i \<le> n"
  shows "pending c \<le> i" and "anchored cells i (i - pending c) (oc_rep c)" and "rep_within W (oc_rep c)" and "oc_price c \<le> i * 2 ^ 16"
proof -
  have "reached (cells ! i)" "cells ! i = c" using assms by (auto simp: visiting_def dp_inv_def)
  then have f: "cell_fits data W start n cells i i c" using assms by (auto simp: visiting_def dp_inv_def)
  then show "rep_within W (oc_rep c)" "oc_price c \<le> i * 2 ^ 16" by (simp_all add: cell_fits_def)
  show "pending c \<le> i" using f by (auto simp: pending_def cell_fits_def)
  show "anchored cells i (i - pending c) (oc_rep c)"
    using f \<open>cells ! i = c\<close> by (auto simp: pending_def cell_fits_def anchored_def)
qed

text \<open>A match of the data at \<open>i\<close> makes a fitting cell, whatever length is taken of it.\<close>

definition offset_of :: "opt_cell \<Rightarrow> nat \<Rightarrow> nat \<times> nat \<times> rep_offsets \<Rightarrow> bool" where
  "offset_of c off o' \<longleftrightarrow> (case o' of (offval, base, rep1) \<Rightarrow> base \<le> oc_price c + 2 ^ 15
     \<and> encode_offset (oc_rep c) off (pending c = 0) = Ok offval \<and> resolve_offset (oc_rep c) offval (pending c = 0) = Ok (off, rep1))"

lemma idx_price: "\<forall>x \<in> set xs. x \<le> b \<Longrightarrow> i < length xs \<Longrightarrow> \<exists>x. idx xs i = (Ok x :: nat result) \<and> x \<le> b"
  by simp

lemma dp_offset_Ok:
  assumes "prices_ok prices" and "1 \<le> off" and "ll_owed \<le> 2 ^ 14"
  shows "\<exists>o'. dp_offset prices c ll_owed off = Ok o' \<and> offset_of c off o'"
proof -
  obtain ov rep1 where ov: "encode_offset (oc_rep c) off (pending c = 0) = Ok ov" "1 \<le> ov"
    "resolve_offset (oc_rep c) ov (pending c = 0) = Ok (off, rep1)" using encode_offset_spec [OF assms(2)] by blast
  obtain code where code: "of_code ov = Ok code" using of_code_Ok [OF ov(2)] by blast
  obtain ocost where "idx (pr_off prices) (min code 31) = (Ok ocost :: nat result)" "ocost \<le> 2 ^ 14"
    using idx_price [of "pr_off prices" "2 ^ 14" "min code 31"] assms(1) by (auto simp: prices_ok_def)
  then show ?thesis using ov code assms(3) by (simp add: dp_offset_def offset_of_def)
qed

lemma match_cell_fits:
  assumes v: "visiting data W start n rep0 i m c cells" and i: "i \<le> n" "n \<le> BLOCK_SIZE_MAX" and mt: "match_fits data W start n i len off"
    and o': "offset_of c off o'" and l: "MIN_MATCH \<le> l" "l \<le> len" and price: "price \<le> 2 ^ 14"
  shows "cell_fits data W start n cells i (i + l) (match_cell c l price o') \<and> i + l \<le> n"
proof -
  obtain offval base rep1 where eq: "o' = (offval, base, rep1)" by (cases o')
  have o1: "base \<le> oc_price c + 2 ^ 15" "encode_offset (oc_rep c) off (pending c = 0) = Ok offval"
    "resolve_offset (oc_rep c) offval (pending c = 0) = Ok (off, rep1)" using o' by (simp_all add: offset_of_def eq)
  have m2: "match_fits data W start n i l off" using mt is_match_shorter l(2) by (auto simp: match_fits_def)
  then have il: "i + l \<le> n" by (simp add: match_fits_def is_match_def)
  then have u: "as_u32 l = l" using i by (simp add: as_u32_small BLOCK_SIZE_MAX_def)
  note s = source_cell [OF v i(1)]
  have w: "rep_within W rep1" using resolve_offset_within [OF o1(3) _ s(3)] mt by (simp add: match_fits_def)
  have "base + price \<le> (i + l) * 2 ^ 16" using o1(1) s(4) price l(1) by (simp add: MIN_MATCH_def)
  moreover have "i + l - (l + pending c) = i - pending c" by simp
  moreover have "l \<noteq> 0" using l(1) by (simp add: MIN_MATCH_def)
  moreover have "\<exists>off rep. anchored cells i (i - pending c) rep \<and> match_fits data W start n i l off
      \<and> encode_offset rep off (pending c = 0) = Ok offval \<and> resolve_offset rep offval (pending c = 0) = Ok (off, rep1)"
    using s(2) m2 o1(2,3) by blast
  ultimately show ?thesis using il s(1) w l(1) unfolding cell_fits_def match_cell_def eq prod.case
    by (simp add: u del: split_paired_Ex)
qed

section \<open>Offering matches and literals\<close>

lemma ml_code_Ok: "3 \<le> l \<Longrightarrow> l \<le> BLOCK_SIZE_MAX \<Longrightarrow> \<exists>c. ml_code l = Ok c \<and> c < 53"
  using ml_code_valid [of "\<lparr>sq_lit_len = 0, sq_match_len = l, sq_offset_value = 1\<rparr>"]
  by (simp add: seq_valid_def BLOCK_SIZE_MAX_def)

lemma ll_code_Ok: "\<exists>c. ll_code l = Ok c \<and> c < 36"
proof -
  have "LL_BASE = 0 # tl LL_BASE" "length LL_BASE = 36" by (simp_all add: LL_BASE_def)
  then have "0 < partition_point (\<lambda>b. b \<le> l) LL_BASE" "partition_point (\<lambda>b. b \<le> l) LL_BASE \<le> 36"
    using length_takeWhile_le [of "\<lambda>b. b \<le> l" LL_BASE] by (simp_all add: partition_point_def) (metis le0 takeWhile.simps(2) length_greater_0_conv list.discI)
  then show ?thesis by (auto simp: ll_code_def)
qed

lemma ml_price_Ok: "prices_ok prices \<Longrightarrow> 3 \<le> l \<Longrightarrow> l \<le> BLOCK_SIZE_MAX \<Longrightarrow> \<exists>x. obind (ml_code l) (idx (pr_ml prices)) = (Ok x :: nat result) \<and> x \<le> 2 ^ 14"
  using ml_code_Ok [of l] by (auto simp: prices_ok_def)

lemma ll_price_Ok: "prices_ok prices \<Longrightarrow> \<exists>x. obind (ll_code l) (idx (pr_ll prices)) = (Ok x :: nat result) \<and> x \<le> 2 ^ 14"
  using ll_code_Ok [of l] by (auto simp: prices_ok_def)

lemma dp_whole_Ok:
  assumes pr: "prices_ok prices" and v: "visiting data W start n rep0 i m c cells" and i: "i \<le> n" "n \<le> BLOCK_SIZE_MAX"
    and mt: "match_fits data W start n i len off" and o': "offset_of c off o'" and l: "MIN_MATCH \<le> len"
  shows "\<exists>cells'. dp_whole prices i c o' len cells = Ok cells' \<and> visiting data W start n rep0 i m c cells'"
proof -
  have len: "i + len \<le> n" using mt by (simp add: match_fits_def is_match_def)
  then have small: "as_u32 len = len" "3 \<le> len" "len \<le> BLOCK_SIZE_MAX"
    using i l by (simp_all add: as_u32_small BLOCK_SIZE_MAX_def MIN_MATCH_def)
  obtain price where price: "obind (ml_code len) (idx (pr_ml prices)) = (Ok price :: nat result)" "price \<le> 2 ^ 14"
    using ml_price_Ok [OF pr small(2,3)] by blast
  have "i < i + len" using small(2) by simp
  from dp_place_Ok [OF v this len i(2)] match_cell_fits [OF v i mt o' l order.refl price(2)] show ?thesis
    by (auto simp: dp_whole_def small(1) price(1))
qed

definition ml_prices :: "nat list \<Rightarrow> bool" where
  "ml_prices xs \<longleftrightarrow> length xs = MAX_SUBLEN + 1 \<and> (\<forall>x \<in> set xs. x \<le> 2 ^ 14)"

lemma dp_match_Ok:
  assumes pr: "prices_ok prices" "ml_prices ml_price" and v: "visiting data W start n rep0 i m c cells" and i: "i \<le> n" "n \<le> BLOCK_SIZE_MAX"
    and mt: "match_fits data W start n i len off" and ll: "ll_owed \<le> 2 ^ 14" and a: "MIN_MATCH \<le> a"
  shows "\<exists>cells'. dp_match prices ml_price i c ll_owed a len off cells = Ok cells' \<and> visiting data W start n rep0 i m c cells'"
proof -
  have "1 \<le> off" using mt by (simp add: match_fits_def is_match_def)
  from dp_offset_Ok [OF pr(1) this ll, of c] obtain o' where o': "dp_offset prices c ll_owed off = Ok o'" "offset_of c off o'" by blast
  let ?f = "\<lambda>l cells. obind (idx ml_price l) (\<lambda>price. dp_place (i + l) (match_cell c l price o') cells)"
  have "\<exists>s'. ofold ?f [a..<Suc (min len MAX_SUBLEN)] cells = Ok s' \<and> visiting data W start n rep0 i m c s'"
  proof (rule ofold_inv [where P = "visiting data W start n rep0 i m c", OF _ v])
    fix l cs assume l: "l \<in> set [a..<Suc (min len MAX_SUBLEN)]" and vc: "visiting data W start n rep0 i m c cs"
    then have len: "MIN_MATCH \<le> l" "l \<le> len" "l < length ml_price" "i < i + l" using a pr(2) by (auto simp: ml_prices_def MIN_MATCH_def)
    then have "idx ml_price l = (Ok (ml_price ! l) :: nat result)" "ml_price ! l \<le> 2 ^ 14" using pr(2) by (simp_all add: ml_prices_def)
    then show "\<exists>s'. ?f l cs = Ok s' \<and> visiting data W start n rep0 i m c s'"
      using match_cell_fits [OF vc i mt o'(2) len(1,2), of "ml_price ! l"] dp_place_Ok [OF vc len(4) _ i(2), of "match_cell c l (ml_price ! l) o'"] by auto
  qed
  then obtain cells1 where c1: "ofold ?f [a..<Suc (min len MAX_SUBLEN)] cells = Ok cells1" "visiting data W start n rep0 i m c cells1" by blast
  have "MAX_SUBLEN < len \<Longrightarrow> MIN_MATCH \<le> len" by (simp add: MAX_SUBLEN_def MIN_MATCH_def)
  then show ?thesis using c1 dp_whole_Ok [OF pr(1) c1(2) i mt o'(2)] by (simp add: dp_match_def o'(1))
qed

lemma rep_resolved_offset_Ok3:
  assumes "rep_within W rep" and "ov \<in> {1, 2, 3}"
  shows "\<exists>off. rep_resolved_offset rep ov ll0 = Ok off \<and> off \<le> W"
  using assms by (cases rep; cases ll0) (auto simp: rep_resolved_offset_def rep_within_def rep_list_def Let_def)

lemma dp_rep_Ok:
  assumes pr: "prices_ok prices" "ml_prices ml_price" and v: "visiting data W start n rep0 i m c cells" and i: "i \<le> n" "n \<le> BLOCK_SIZE_MAX"
    and e: "start + n \<le> length data" and ll: "ll_owed \<le> 2 ^ 14" and ov: "ov \<in> {1, 2, 3}"
  shows "\<exists>cells'. dp_rep data start n prices ml_price i c ll_owed ov cells = Ok cells' \<and> visiting data W start n rep0 i m c cells'"
proof -
  obtain off where off: "rep_resolved_offset (oc_rep c) ov (pending c = 0) = Ok off" "off \<le> W"
    using rep_resolved_offset_Ok3 [OF source_cell(3) [OF v i(1)] ov] by blast
  show ?thesis
  proof (cases "off = 0 \<or> start + i < off")
    case True
    then show ?thesis using off v by (simp add: dp_rep_def)
  next
    case False
    have "start + i + (n - i) \<le> length data" "start + i - off \<le> start + i" using e i by simp_all
    from common_bytes_spec [OF this, of 0] obtain ml where
      ml: "common_bytes data (start + i - off) (start + i) (n - i) 0 = Ok ml" "ml \<le> n - i" "agree_upto data (start + i - off) (start + i) ml"
      by (auto simp: agree_upto_def)
    then have "match_fits data W start n i ml off" using False off(2) i by (simp add: match_fits_def is_match_def)
    from dp_match_Ok [OF pr v i this ll order.refl] show ?thesis using off(1) False ml(1) v by (simp add: dp_rep_def)
  qed
qed

lemma dp_matches_Ok:
  assumes pr: "prices_ok prices" "ml_prices ml_price" and i: "i \<le> n" "n \<le> BLOCK_SIZE_MAX" and ll: "ll_owed \<le> 2 ^ 14"
    and ms: "\<forall>(len, off) \<in> set ms. match_fits data W start n i len off" and v: "visiting data W start n rep0 i m c cells"
  shows "\<exists>cells'. dp_matches prices ml_price i c ll_owed ms prev cells = Ok cells' \<and> visiting data W start n rep0 i m c cells'"
  using ms v
proof (induction ms arbitrary: prev cells)
  case Nil
  then show ?case by simp
next
  case (Cons x ms)
  obtain len off where x: "x = (len, off)" by (cases x)
  have mt: "match_fits data W start n i len off" using Cons.prems(1) by (simp add: x)
  have "MIN_MATCH \<le> max (prev + 1) MIN_MATCH" by simp
  from dp_match_Ok [OF pr Cons.prems(2) i mt ll this] Cons.IH [of _ len] Cons.prems(1) show ?case
    by (fastforce simp: x)
qed

lemma dp_literal_Ok:
  assumes pr: "prices_ok prices" and v: "visiting data W start n rep0 i i c cells" and i: "i < n" "n \<le> BLOCK_SIZE_MAX" "start + n \<le> length data"
  shows "\<exists>cells'. dp_literal data start prices i c cells = Ok cells' \<and> visiting data W start n rep0 i (Suc i) c cells'"
proof -
  note s = source_cell [OF v less_imp_le [OF i(1)]]
  have "\<exists>x. (if pending c = 0 then obind (ll_code 1) (idx (pr_ll prices))
             else
               obind (obind (ll_code (pending c + 1)) (idx (pr_ll prices))) (\<lambda>x.
               obind (obind (ll_code (pending c)) (idx (pr_ll prices))) (\<lambda>y. Ok (x - y)))) = (Ok x :: nat result) \<and> x \<le> 2 ^ 14"
  proof (cases "pending c = 0")
    case True
    then show ?thesis using ll_price_Ok [OF pr, of 1] by simp
  next
    case False
    then show ?thesis using ll_price_Ok [OF pr, of "pending c + 1"] ll_price_Ok [OF pr, of "pending c"] by auto
  qed
  then obtain ll_add where ll: "(if pending c = 0 then obind (ll_code 1) (idx (pr_ll prices))
             else
               obind (obind (ll_code (pending c + 1)) (idx (pr_ll prices))) (\<lambda>x.
               obind (obind (ll_code (pending c)) (idx (pr_ll prices))) (\<lambda>y. Ok (x - y)))) = (Ok ll_add :: nat result)" "ll_add \<le> 2 ^ 14"
    by blast
  define b where "b = data ! (start + i)"
  have b: "idx data (start + i) = (Ok b :: byte result)" using i by (simp add: b_def)
  have "unat b < length (pr_lit prices)" using pr unsigned_less [of b] by (simp add: prices_ok_def)
  then obtain lit where lit: "idx (pr_lit prices) (unat b) = (Ok lit :: nat result)" "lit \<le> 2 ^ 14"
    using pr idx_price [of "pr_lit prices" "2 ^ 14" "unat b"] by (auto simp: prices_ok_def)
  let ?new = "\<lparr>oc_price = oc_price c + lit + ll_add, oc_mlen = 0, oc_litlen = pending c + 1, oc_offval = 0, oc_rep = oc_rep c\<rparr>"
  have "cell_fits data W start n cells i (i + 1) ?new" using s lit(2) ll(2) by (simp add: cell_fits_def)
  from dp_place_Ok [OF v _ _ i(2) this] i(1) obtain cells' where
    c': "dp_place (i + 1) ?new cells = Ok cells'" "visiting data W start n rep0 i i c cells'" "reached (cells' ! (i + 1))" by auto
  then have "visiting data W start n rep0 i (Suc i) c cells'"
    by (auto simp: visiting_def dp_inv_def le_Suc_eq)
  moreover have "dp_literal data start prices i c cells = Ok cells'"
    unfolding dp_literal_def Let_def ll(1) b lit(1) obind_simps c'(1) ..
  ultimately show ?thesis by blast
qed

text \<open>What the collection of matches hands to the dynamic program.\<close>

definition collected :: "byte list \<Rightarrow> nat \<Rightarrow> nat \<Rightarrow> nat \<Rightarrow> nat list \<Rightarrow> (nat \<times> nat) list \<Rightarrow> bool" where
  "collected data W start n starts flat \<longleftrightarrow> length starts = Suc n
     \<and> (\<forall>i < n. starts ! i \<le> starts ! Suc i \<and> starts ! Suc i \<le> length flat
        \<and> (\<forall>(len, off) \<in> set (take (starts ! Suc i - starts ! i) (drop (starts ! i) flat)). match_fits data W start n i len off))"

definition committed :: "byte list \<Rightarrow> nat \<Rightarrow> nat \<Rightarrow> nat \<Rightarrow> (nat \<times> nat) option list \<Rightarrow> bool" where
  "committed data W start n longs \<longleftrightarrow> length longs = n
     \<and> (\<forall>i < n. \<forall>len off. longs ! i = Some (len, off) \<longrightarrow> MIN_MATCH \<le> len \<and> match_fits data W start n i len off)"

lemma dp_step_Ok:
  assumes pr: "prices_ok prices" "ml_prices ml_price" and co: "collected data W start n starts flat" "committed data W start n longs"
    and i: "i < n" "n \<le> BLOCK_SIZE_MAX" "start + n \<le> length data" and inv: "dp_inv data W start n rep0 i i cells"
  shows "\<exists>cells'. dp_step data start n prices ml_price starts flat longs offer_reps i cells = Ok cells'
    \<and> dp_inv data W start n rep0 (Suc i) (Suc i) cells'"
proof -
  define c where "c = cells ! i"
  have c: "idx cells i = (Ok c :: opt_cell result)" using inv i(1) by (simp add: c_def dp_inv_def)
  have "visiting data W start n rep0 i i c cells" using inv by (simp add: visiting_def c_def)
  from dp_literal_Ok [OF pr(1) this i] obtain cells1 where
    c1: "dp_literal data start prices i c cells = Ok cells1" "visiting data W start n rep0 i (Suc i) c cells1" by blast
  note le = less_imp_le [OF i(1)]
  obtain owed where owed: "(if pending c = 0 then obind (ll_code 0) (idx (pr_ll prices)) else Ok 0) = (Ok owed :: nat result)" "owed \<le> 2 ^ 14"
    using ll_price_Ok [OF pr(1), of 0] by (cases "pending c = 0") auto
  define long where "long = longs ! i"
  have long: "idx longs i = (Ok long :: (nat \<times> nat) option result)" using co(2) i(1) by (simp add: committed_def long_def)
  note run = dp_step_def c obind_simps c1(1) owed(1) long
  have "\<exists>cells'. dp_step data start n prices ml_price starts flat longs offer_reps i cells = Ok cells' \<and> visiting data W start n rep0 i (Suc i) c cells'"
  proof (cases long)
    case (Some x)
    obtain len off where x: "x = (len, off)" by (cases x)
    have m: "MIN_MATCH \<le> len" "match_fits data W start n i len off" using co(2) i(1) Some by (simp_all add: committed_def long_def x)
    then have "1 \<le> off" by (simp add: match_fits_def is_match_def)
    from dp_offset_Ok [OF pr(1) this owed(2), of c] obtain o' where o': "dp_offset prices c owed off = Ok o'" "offset_of c off o'" by blast
    from dp_whole_Ok [OF pr(1) c1(2) le i(2) m(2) o'(2) m(1)] show ?thesis unfolding run Some x by (simp add: o'(1))
  next
    case None
    have "\<exists>cells'. (if offer_reps then ofold (dp_rep data start n prices ml_price i c owed) [1, 2, 3] cells1 else Ok cells1) = Ok cells'
        \<and> visiting data W start n rep0 i (Suc i) c cells'"
    proof (cases offer_reps)
      case True
      have "\<exists>cells'. ofold (dp_rep data start n prices ml_price i c owed) [1, 2, 3] cells1 = Ok cells' \<and> visiting data W start n rep0 i (Suc i) c cells'"
        by (rule ofold_inv [where P = "visiting data W start n rep0 i (Suc i) c", OF _ c1(2)]) (rule dp_rep_Ok [OF pr _ le i(2,3) owed(2)], auto)
      then show ?thesis using True by simp
    next
      case False
      then show ?thesis using c1(2) by simp
    qed
    then obtain cells2 where c2: "(if offer_reps then ofold (dp_rep data start n prices ml_price i c owed) [1, 2, 3] cells1 else Ok cells1) = Ok cells2"
      "visiting data W start n rep0 i (Suc i) c cells2" by blast
    let ?ms = "take (starts ! Suc i - starts ! i) (drop (starts ! i) flat)"
    have st: "idx starts i = (Ok (starts ! i) :: nat result)" "idx starts (i + 1) = (Ok (starts ! Suc i) :: nat result)"
      "slice_range flat (starts ! i) (starts ! Suc i) = (Ok ?ms :: (nat \<times> nat) list result)" "\<forall>(len, off) \<in> set ?ms. match_fits data W start n i len off"
      using co(1) i(1) by (simp_all add: collected_def)
    from dp_matches_Ok [OF pr le i(2) owed(2) st(4) c2(2)] show ?thesis
      unfolding run None by (simp add: c2(1) st [unfolded One_nat_def add_Suc_right add_0_right])
  qed
  then obtain cells' where c': "dp_step data start n prices ml_price starts flat longs offer_reps i cells = Ok cells'"
    "dp_inv data W start n rep0 i (Suc i) cells'" by (auto simp: visiting_def)
  have "dp_inv data W start n rep0 (Suc i) (Suc i) cells'"
    using c'(2) cell_fits_mono [of data W start n cells' i _ _ "Suc i"] unfolding dp_inv_def by auto
  then show ?thesis using c'(1) by blast
qed

section \<open>The walk back\<close>

text \<open>Sequences that lead to the cell at \<open>pos\<close>: their literal runs, and what they describe.\<close>

definition leads_to :: "byte list \<Rightarrow> nat \<Rightarrow> nat \<Rightarrow> rep_offsets \<Rightarrow> enc_seq list \<Rightarrow> rep_offsets \<Rightarrow> nat \<Rightarrow> bool" where
  "leads_to data W start rep0 seqs rep pos \<longleftrightarrow>
     (\<exists>lits. runs_to data start seqs lits (start + pos) \<and> parsed_to data W start rep0 (start + pos) (seqs, lits, rep))"

lemma leads_to_start: "rep_within W rep0 \<Longrightarrow> leads_to data W start rep0 [] rep0 0"
  using parsed_to_start [of W rep0 data start] by (simp add: leads_to_def runs_to_def)

lemma leads_to_match:
  assumes l: "leads_to data W start rep0 seqs rep1 a" and mt: "match_fits data W start n (a + lit) len off" and len: "MIN_MATCH \<le> len"
    and ov: "encode_offset rep1 off (lit = 0) = Ok ov" "resolve_offset rep1 ov (lit = 0) = Ok (off, rep')"
    and fit: "n \<le> BLOCK_SIZE_MAX" "start + n \<le> length data" "W + 3 < 2 ^ 32"
  shows "leads_to data W start rep0 (seqs @ [\<lparr>sq_lit_len = lit, sq_match_len = len, sq_offset_value = ov\<rparr>]) rep' (a + (lit + len))"
proof -
  obtain lits where lits: "runs_to data start seqs lits (start + a)" "parsed_to data W start rep0 (start + a) (seqs, lits, rep1)"
    using l by (auto simp: leads_to_def)
  have m: "is_match data (start + n) (start + (a + lit)) len off" "off \<le> W" "a + lit + len \<le> n" "off \<le> start + (a + lit)"
    using mt by (simp_all add: match_fits_def is_match_def)
  have small: "as_u32 lit = lit" "as_u32 len = len" "as_u32 off = off" "3 \<le> len" "start + a + lit \<le> length data"
    using m fit len by (simp_all add: as_u32_small BLOCK_SIZE_MAX_def MIN_MATCH_def)
  let ?s = "\<lparr>sq_lit_len = lit, sq_match_len = len, sq_offset_value = ov\<rparr>"
  have push: "push_seq data (start + a) (start + (a + lit)) len off (seqs, lits, rep1)
      = Ok (seqs @ [?s], lits @ take lit (drop (start + a) data), rep')"
    using ov small fit(2) m(3) by (simp add: push_seq_def Let_def)
  have "parsed_to data W start rep0 (start + (a + lit) + len) (seqs @ [?s], lits @ take lit (drop (start + a) data), rep')"
    using push_seq_Ok [OF lits(2) _ m(1) small(4) m(2) fit(3,2)] fit(1) push by auto
  moreover have "runs_to data start (seqs @ [?s]) (lits @ take lit (drop (start + a) data)) (start + (a + (lit + len)))"
    using runs_to_snoc [OF lits(1), of ?s] small(5) by (simp add: add.assoc)
  ultimately show ?thesis unfolding leads_to_def by (auto simp: add.assoc)
qed

lemma dp_backtrack_Ok:
  assumes inv: "dp_inv data W start n rep0 n n cells" and fit: "n \<le> BLOCK_SIZE_MAX" "start + n \<le> length data" "W + 3 < 2 ^ 32"
    and rep: "rep_within W rep0" and a: "pos \<le> n" "pos = 0 \<or> 0 < oc_mlen (cells ! pos)"
  shows "\<exists>ss. dp_backtrack cells pos seqs = Ok (seqs @ ss) \<and> leads_to data W start rep0 (rev ss) (oc_rep (cells ! pos)) pos"
  using a
proof (induction pos arbitrary: seqs rule: less_induct)
  case (less pos)
  show ?case
  proof (cases "pos = 0")
    case True
    then show ?thesis using inv leads_to_start [OF rep] by (subst dp_backtrack.simps) (simp add: dp_inv_def)
  next
    case False
    define c where "c = cells ! pos"
    have "cell_fits data W start n cells n pos c" "length cells = Suc n" using inv less.prems(1) by (simp_all add: dp_inv_def c_def)
    then obtain off rep1 where c: "MIN_MATCH \<le> oc_mlen c" "oc_mlen c + oc_litlen c \<le> pos"
      "anchored cells n (pos - (oc_mlen c + oc_litlen c)) rep1" "match_fits data W start n (pos - oc_mlen c) (oc_mlen c) off"
      "encode_offset rep1 off (oc_litlen c = 0) = Ok (oc_offval c)"
      "resolve_offset rep1 (oc_offval c) (oc_litlen c = 0) = Ok (off, oc_rep c)" and ix: "idx cells pos = (Ok c :: opt_cell result)"
      using less.prems False by (auto simp: cell_fits_def c_def)
    define a where "a = pos - (oc_mlen c + oc_litlen c)"
    define s where "s = \<lparr>sq_lit_len = oc_litlen c, sq_match_len = oc_mlen c, sq_offset_value = oc_offval c\<rparr>"
    have a: "a < pos" "a \<le> n" "a = 0 \<or> 0 < oc_mlen (cells ! a)" "oc_rep (cells ! a) = rep1" "pos - oc_mlen c = a + oc_litlen c" "pos = a + (oc_litlen c + oc_mlen c)"
      using c(1-3) False by (simp_all add: a_def anchored_def MIN_MATCH_def)
    obtain ss where ss: "dp_backtrack cells a (seqs @ [s]) = Ok ((seqs @ [s]) @ ss)" "leads_to data W start rep0 (rev ss) rep1 a"
      using less.IH [OF a(1-3)] a(4) by blast
    have "dp_backtrack cells pos seqs = Ok (seqs @ (s # ss))"
      using False ix c(2) a(1) ss(1) by (subst dp_backtrack.simps) (simp add: a_def [symmetric] s_def [symmetric])
    moreover have "leads_to data W start rep0 (rev ss @ [s]) (oc_rep c) pos"
      using leads_to_match [OF ss(2) _ c(1,5,6) fit] c(4) a(5,6) by (simp add: s_def)
    ultimately show ?thesis unfolding c_def by (intro exI [of _ "s # ss"]) simp
  qed
qed

lemma dp_cells_inv: "rep_within W rep0 \<Longrightarrow> dp_inv data W start n rep0 0 0 (dp_cells n rep0)"
proof -
  assume "rep_within W rep0"
  then have "cell_fits data W start n (dp_cells n rep0) 0 0 (dp_cells n rep0 ! 0)"
    by (simp add: cell_fits_def dp_cells_def anchored_def)
  moreover have "\<not> reached (dp_cells n rep0 ! j)" if "0 < j" "j \<le> n" for j
    using that by (simp add: dp_cells_def reached_def nth_list_update nth_Cons')
  moreover have "reached (dp_cells n rep0 ! 0)" by (simp add: dp_cells_def reached_def UNREACHED_def)
  ultimately have "reached (dp_cells n rep0 ! j) \<longrightarrow> cell_fits data W start n (dp_cells n rep0) 0 j (dp_cells n rep0 ! j)" if "j \<le> n" for j
    using that by (cases "j = 0") auto
  then show ?thesis using \<open>reached (dp_cells n rep0 ! 0)\<close> unfolding dp_inv_def by (simp add: dp_cells_def)
qed

lemma run_dp_Ok:
  assumes pr: "prices_ok prices" and co: "collected data W start n starts flat" "committed data W start n longs"
    and fit: "n \<le> BLOCK_SIZE_MAX" "start + n \<le> length data" "W + 3 < 2 ^ 32" and rep: "rep_within W rep0"
  shows "\<exists>seqs rep pos. run_dp data start n prices starts flat longs rep0 offer_reps = Ok (seqs, rep)
    \<and> pos \<le> n \<and> leads_to data W start rep0 seqs rep pos"
proof -
  let ?f = "\<lambda>l. if l < MIN_MATCH then Ok 0 else obind (ml_code l) (idx (pr_ml prices))"
  have price: "\<exists>x. ?f l = (Ok x :: nat result) \<and> x \<le> 2 ^ 14" if "l \<in> set [0..<MAX_SUBLEN + 1]" for l
    using ml_price_Ok [OF pr, of l] that by (cases "l < MIN_MATCH") (auto simp: MIN_MATCH_def MAX_SUBLEN_def BLOCK_SIZE_MAX_def)
  then obtain g where g: "\<And>l. l \<in> set [0..<MAX_SUBLEN + 1] \<Longrightarrow> ?f l = (Ok (g l) :: nat result) \<and> g l \<le> 2 ^ 14" by metis
  define ml_price where "ml_price = map g [0..<MAX_SUBLEN + 1]"
  have mlp: "traverse ?f [0..<MAX_SUBLEN + 1] = (Ok ml_price :: nat list result)" "ml_prices ml_price"
    using traverse_Ok [of "[0..<MAX_SUBLEN + 1]" ?f g] g by (auto simp: ml_price_def ml_prices_def)
  have "\<exists>s'. ofold (dp_step data start n prices ml_price starts flat longs offer_reps) [0..<n] (dp_cells n rep0) = Ok s'
      \<and> dp_inv data W start n rep0 n n s'"
    by (rule ofold_upt [where P = "\<lambda>i. dp_inv data W start n rep0 i i"])
      (use dp_cells_inv [OF rep] dp_step_Ok [OF pr mlp(2) co _ fit(1,2)] in auto)
  then obtain cells where cells: "ofold (dp_step data start n prices ml_price starts flat longs offer_reps) [0..<n] (dp_cells n rep0) = Ok cells"
    "dp_inv data W start n rep0 n n cells" by blast
  define c where "c = cells ! n"
  have c: "idx cells n = (Ok c :: opt_cell result)" "cell_fits data W start n cells n n c" using cells(2) by (auto simp: dp_inv_def c_def)
  define pos where "pos = (if oc_mlen c = 0 then n - oc_litlen c else n)"
  have pos: "(if oc_mlen c = 0 then usub n (oc_litlen c) else Ok n) = (Ok pos :: nat result)" "pos \<le> n"
    "pos = 0 \<or> 0 < oc_mlen (cells ! pos)" "oc_rep (cells ! pos) = oc_rep c"
    using c(2) by (auto simp: pos_def cell_fits_def anchored_def c_def)
  obtain ss where "dp_backtrack cells pos [] = Ok ss" "leads_to data W start rep0 (rev ss) (oc_rep c) pos"
    using dp_backtrack_Ok [OF cells(2) fit rep pos(2,3), of "[]"] pos(4) by auto
  moreover from this have "run_dp data start n prices starts flat longs rep0 offer_reps = Ok (rev ss, oc_rep c)"
    unfolding run_dp_def mlp(1) obind_simps cells(1) c(1) pos(1) by simp
  ultimately show ?thesis using pos(2) by blast
qed

end
