(* ===== verification/Lz_Opt.thy ===== *)
theory Lz_Opt
  imports Lz_Dp "HOL-Library.Product_Lexorder"
begin

text \<open>
  The optimal parser of \<^verbatim>\<open>src/encode/lz.rs\<close>: the pass that collects the matches of a block from the hash
  chain and the binary tree, in two streams (those of the chain, and the frontier of both), and the
  dynamic programs over them, whose results are the primary parse and its alternatives. Every one of them
  describes the block.
\<close>

section \<open>The frontier of the candidates\<close>

text \<open>Longest first, the smaller offset first among equals; a candidate stays when its offset is
  smaller than those of all longer ones.\<close>

fun frontier_scan :: "nat \<Rightarrow> (nat \<times> nat) list \<Rightarrow> (nat \<times> nat) list" where
  "frontier_scan min_off [] = []"
| "frontier_scan min_off ((len, off) # cs) =
     (if off < min_off then (len, off) # frontier_scan off cs else frontier_scan min_off cs)"

definition reduce_to_frontier :: "(nat \<times> nat) list \<Rightarrow> (nat \<times> nat) list" where
  "reduce_to_frontier cands =
     (if length cands < 2 then cands
      else rev (frontier_scan (2 ^ 32 - 1) (sort_key (\<lambda>c. (- int (fst c), snd c)) cands)))"

section \<open>Collecting the matches\<close>

text \<open>The matches of position \<open>i\<close> are those of the flat list from \<open>starts ! i\<close> up to \<open>starts ! (i + 1)\<close>.\<close>

record collection =
  co_hybrid :: "(nat \<times> nat) list"
  co_hybrid_starts :: "nat list"
  co_full :: "(nat \<times> nat) list"
  co_full_starts :: "nat list"
  co_long :: "(nat \<times> nat) option list"
  co_inserted :: nat
  co_skip :: nat
  co_finder :: "chain_state \<times> bt_state"

definition last_match :: "(nat \<times> nat) list \<Rightarrow> nat \<times> nat" where
  "last_match ms = (if ms = [] then (0, 0) else last ms)"

definition extend_full :: "byte list \<Rightarrow> nat \<Rightarrow> nat \<Rightarrow> nat \<Rightarrow> nat result" where
  "extend_full data ip c e = common_len data c ip e"

text \<open>The search at \<open>ap\<close>, which is entered in both structures.\<close>

definition collect_search ::
  "byte list \<Rightarrow> nat \<Rightarrow> nat \<Rightarrow> nat \<Rightarrow> nat \<Rightarrow> nat \<Rightarrow> chain_state \<times> bt_state
     \<Rightarrow> ((nat \<times> nat) list \<times> (nat \<times> nat) list \<times> chain_state \<times> bt_state) result" where
  "collect_search data ap e max_offset depth find_cap finder =
     obind (find_matches (fst finder) data ap e max_offset depth find_cap) (\<lambda>chain_ms.
     obind (chain_insert data ap (fst finder)) (\<lambda>chain.
     obind (insert_and_get_all_matches data ap e max_offset depth (snd finder)) (\<lambda>(tree, tree_ms).
     Ok (chain_ms, tree_ms, chain, tree))))"

definition collect_at ::
  "byte list \<Rightarrow> nat \<Rightarrow> nat \<Rightarrow> nat \<Rightarrow> nat \<Rightarrow> nat \<Rightarrow> nat \<Rightarrow> nat \<Rightarrow> collection \<Rightarrow> collection result" where
  "collect_at data ap e max_offset depth suff find_cap i st =
     obind (collect_search data ap e max_offset depth find_cap (co_finder st)) (\<lambda>(chain_ms, tree_ms, finder).
     let st = st\<lparr>co_finder := finder, co_inserted := ap + 1\<rparr>;
         (best_len, best_off) =
           (if fst (last_match chain_ms) < fst (last_match tree_ms) then last_match tree_ms else last_match chain_ms) in
     if best_len = 0 then Ok st
     else
       obind (if suff \<le> best_len then obind (usub ap best_off) (\<lambda>c. extend_full data ap c e) else Ok best_len) (\<lambda>long_len.
       if suff \<le> long_len then
         obind (upd (co_long st) i (Some (as_u32 long_len, best_off))) (\<lambda>longs.
         Ok (st\<lparr>co_long := longs, co_skip := ap + long_len\<rparr>))
       else
         Ok (st\<lparr>co_hybrid := co_hybrid st @ chain_ms,
                co_full := co_full st @ reduce_to_frontier (chain_ms @ tree_ms)\<rparr>)))"

definition collect_step ::
  "byte list \<Rightarrow> nat \<Rightarrow> nat \<Rightarrow> nat \<Rightarrow> nat \<Rightarrow> nat \<Rightarrow> nat \<Rightarrow> nat \<Rightarrow> collection \<Rightarrow> collection result" where
  "collect_step data start e max_offset depth suff find_cap i st =
     obind (upd (co_hybrid_starts st) i (as_u32 (length (co_hybrid st)))) (\<lambda>hybrid_starts.
     obind (upd (co_full_starts st) i (as_u32 (length (co_full st)))) (\<lambda>full_starts.
     let st = st\<lparr>co_hybrid_starts := hybrid_starts, co_full_starts := full_starts\<rparr>; ap = start + i in
     if e < ap + MIN_MATCH then Ok st
     else
       obind (ofold (hybrid_put max_offset depth data e) [co_inserted st..<ap] (co_finder st)) (\<lambda>finder.
       let st = st\<lparr>co_finder := finder, co_inserted := max (co_inserted st) ap\<rparr> in
       if ap < co_skip st then
         if co_inserted st = ap then
           obind (hybrid_put max_offset depth data e ap (co_finder st)) (\<lambda>finder.
           Ok (st\<lparr>co_finder := finder, co_inserted := ap + 1\<rparr>))
         else Ok st
       else collect_at data ap e max_offset depth suff find_cap i st)))"

definition collect_matches ::
  "byte list \<Rightarrow> nat \<Rightarrow> nat \<Rightarrow> nat \<Rightarrow> nat \<Rightarrow> nat \<Rightarrow> chain_state \<times> bt_state \<Rightarrow> collection result" where
  "collect_matches data start e max_offset depth suff finder =
     (let n = e - start in
      obind (ofold (collect_step data start e max_offset depth suff (max suff 512)) [0..<n]
        \<lparr>co_hybrid = [], co_hybrid_starts = replicate (n + 1) 0, co_full = [], co_full_starts = replicate (n + 1) 0,
         co_long = replicate n None, co_inserted = start, co_skip = start, co_finder = finder\<rparr>) (\<lambda>st.
      obind (upd (co_hybrid_starts st) n (as_u32 (length (co_hybrid st)))) (\<lambda>hybrid_starts.
      obind (upd (co_full_starts st) n (as_u32 (length (co_full st)))) (\<lambda>full_starts.
      Ok (st\<lparr>co_hybrid_starts := hybrid_starts, co_full_starts := full_starts\<rparr>)))))"

section \<open>The parse\<close>

text \<open>A run of the dynamic program on a stream with the prices of the code, and a second one with
  those of the first run's sequences; and the parse with repeat offsets, priced by the statistics of
  the blocks before.\<close>

type_synonym dp_stream = "bool \<Rightarrow> prices \<Rightarrow> (enc_seq list \<times> rep_offsets) result"

definition two_pass_dp :: "byte list \<Rightarrow> bool \<Rightarrow> prices \<Rightarrow> dp_stream \<Rightarrow> bool \<Rightarrow> (enc_seq list \<times> rep_offsets) result" where
  "two_pass_dp block two_pass prices1 dp offer_reps =
     obind (dp offer_reps prices1) (\<lambda>(seqs1, rep1).
     if two_pass then obind (prices_from_stats block seqs1) (dp offer_reps)
     else Ok (seqs1, rep1))"

definition rep_dp :: "byte list \<Rightarrow> bool \<Rightarrow> prices \<Rightarrow> opt_stats \<Rightarrow> dp_stream \<Rightarrow> (enc_seq list \<times> rep_offsets) result" where
  "rep_dp block two_pass prices1 stats dp =
     (if os_seeded stats then dp True (prices_from_opt_stats stats)
      else two_pass_dp block two_pass prices1 dp True)"

definition mk_parsed :: "byte list \<Rightarrow> nat \<Rightarrow> nat \<Rightarrow> enc_seq list \<times> rep_offsets \<Rightarrow> parsed result" where
  "mk_parsed data start e r =
     obind (materialize_literals data start e (fst r)) (\<lambda>literals. Ok (Parsed (fst r) literals (snd r) []))"

text \<open>An alternative that differs from the primary parse and from the alternatives before it.\<close>

definition add_alt ::
  "byte list \<Rightarrow> nat \<Rightarrow> nat \<Rightarrow> enc_seq list \<Rightarrow> enc_seq list \<times> rep_offsets \<Rightarrow> parsed list \<Rightarrow> parsed list result" where
  "add_alt data start e base_seqs r alts =
     (if fst r \<noteq> base_seqs \<and> list_all (\<lambda>a. pa_seqs a \<noteq> fst r) alts then
        obind (mk_parsed data start e r) (\<lambda>alt. Ok (alts @ [alt]))
      else Ok alts)"

definition opt_parse_block ::
  "byte list \<Rightarrow> nat \<Rightarrow> nat \<Rightarrow> chain_state \<times> bt_state \<Rightarrow> nat \<Rightarrow> rep_offsets \<Rightarrow> nat \<Rightarrow> nat \<Rightarrow> bool \<Rightarrow> opt_stats
     \<Rightarrow> (parsed \<times> (chain_state \<times> bt_state) \<times> opt_stats) result" where
  "opt_parse_block data start e finder max_offset rep_in depth sufficient_len two_pass stats =
     obind (usub e start) (\<lambda>n.
     obind (slice_range data start e) (\<lambda>block.
     if n < MIN_MATCH + 1 then Ok (Parsed [] block rep_in [], finder, stats)
     else
       obind (collect_matches data start e max_offset depth (max sufficient_len MIN_MATCH) finder) (\<lambda>co.
       obind (prices_predef block) (\<lambda>prices1.
       let hybrid = (\<lambda>offer_reps prices. run_dp data start n prices (co_hybrid_starts co) (co_hybrid co) (co_long co) rep_in offer_reps);
           full = (\<lambda>offer_reps prices. run_dp data start n prices (co_full_starts co) (co_full co) (co_long co) rep_in offer_reps) in
       obind (two_pass_dp block two_pass prices1 hybrid False) (\<lambda>base.
       obind (rep_dp block two_pass prices1 stats hybrid) (\<lambda>rep.
       obind (two_pass_dp block two_pass prices1 full False) (\<lambda>fb.
       obind (rep_dp block two_pass prices1 stats full) (\<lambda>fr.
       obind (opt_stats_record data start e (fst fr) stats) (\<lambda>stats.
       obind (add_alt data start e (fst base) rep []) (\<lambda>alts.
       obind (add_alt data start e (fst base) fb alts) (\<lambda>alts.
       obind (add_alt data start e (fst base) fr alts) (\<lambda>alts.
       obind (mk_parsed data start e base) (\<lambda>primary.
       Ok (Parsed (pa_seqs primary) (pa_literals primary) (pa_rep primary) alts, co_finder co, stats))))))))))))))"

section \<open>The frontier dominates the candidates\<close>

lemma frontier_scan_set: "set (frontier_scan m cs) \<subseteq> set cs"
  by (induction m cs rule: frontier_scan.induct) auto

lemma frontier_scan_length: "length (frontier_scan m cs) \<le> length cs"
  by (induction m cs rule: frontier_scan.induct) auto

lemma frontier_scan_dominates:
  assumes "sorted (map (\<lambda>c. (- int (fst c), snd c)) cs)" and "c \<in> set cs" and "snd c < m"
  shows "\<exists>c' \<in> set (frontier_scan m cs). fst c \<le> fst c' \<and> snd c' \<le> snd c"
  using assms
proof (induction m cs rule: frontier_scan.induct)
  case (1 m)
  then show ?case by simp
next
  case (2 m len off cs)
  have srt: "sorted (map (\<lambda>c. (- int (fst c), snd c)) cs)" using 2(3) by simp
  have le: "fst x \<le> len" if "x \<in> set cs" for x
  proof -
    have "(- int len, off) \<le> (- int (fst x), snd x)" using 2(3) that by simp
    then show ?thesis by (auto simp: less_eq_prod_def)
  qed
  show ?case
  proof (cases "off < m")
    case True
    show ?thesis
    proof (cases "snd c < off \<and> c \<in> set cs")
      case t: True
      then show ?thesis using 2(1) [OF True srt] True by auto
    next
      case False
      then have "fst c \<le> len" "off \<le> snd c" using 2(4) le [of c] by auto
      then show ?thesis using True by auto
    qed
  next
    case False
    then show ?thesis using 2(2) [OF False srt] 2(4,5) by auto
  qed
qed

lemma frontier_scan_below: "c \<in> set (frontier_scan m cs) \<Longrightarrow> snd c < m"
  by (induction m cs rule: frontier_scan.induct) (auto split: if_splits)

lemma frontier_scan_strict:
  assumes "sorted (map (\<lambda>c. (- int (fst c), snd c)) cs)"
  shows "sorted_wrt (\<lambda>a b. fst b < fst a \<and> snd b < snd a) (frontier_scan m cs)"
  using assms
proof (induction m cs rule: frontier_scan.induct)
  case (1 m)
  then show ?case by simp
next
  case (2 m len off cs)
  have srt: "sorted (map (\<lambda>c. (- int (fst c), snd c)) cs)" using 2(3) by simp
  have "fst x < len \<and> snd x < off" if x: "x \<in> set (frontier_scan off cs)" for x
  proof -
    have "snd x < off" using frontier_scan_below [OF x] .
    moreover have "x \<in> set cs" using x frontier_scan_set by blast
    then have "(- int len, off) \<le> (- int (fst x), snd x)" using 2(3) by simp
    ultimately show ?thesis by (auto simp: less_eq_prod_def)
  qed
  then show ?case using 2(1) [OF _ srt] 2(2) [OF _ srt] by simp
qed

lemma reduce_to_frontier_set: "set (reduce_to_frontier cands) \<subseteq> set cands"
  using frontier_scan_set [of "2 ^ 32 - 1" "sort_key (\<lambda>c. (- int (fst c), snd c)) cands"] by (auto simp: reduce_to_frontier_def)

lemma reduce_to_frontier_length: "length (reduce_to_frontier cands) \<le> length cands"
  using frontier_scan_length [of "2 ^ 32 - 1" "sort_key (\<lambda>c. (- int (fst c), snd c)) cands"] by (simp add: reduce_to_frontier_def)

lemma reduce_to_frontier_spec:
  assumes "\<forall>c \<in> set cands. snd c < 2 ^ 32 - 1"
  shows "sorted_wrt (\<lambda>a b. fst a < fst b \<and> snd a < snd b) (reduce_to_frontier cands)"
    and "c \<in> set cands \<Longrightarrow> \<exists>c' \<in> set (reduce_to_frontier cands). fst c \<le> fst c' \<and> snd c' \<le> snd c"
proof -
  let ?s = "sort_key (\<lambda>c. (- int (fst c), snd c)) cands"
  have srt: "sorted (map (\<lambda>c. (- int (fst c), snd c)) ?s)" by simp
  show "sorted_wrt (\<lambda>a b. fst a < fst b \<and> snd a < snd b) (reduce_to_frontier cands)"
  proof (cases "length cands < 2")
    case True
    then show ?thesis by (cases cands) (simp_all add: reduce_to_frontier_def)
  next
    case False
    then show ?thesis using frontier_scan_strict [OF srt, of "2 ^ 32 - 1"] by (simp add: reduce_to_frontier_def sorted_wrt_rev)
  qed
  show "\<exists>c' \<in> set (reduce_to_frontier cands). fst c \<le> fst c' \<and> snd c' \<le> snd c" if "c \<in> set cands"
    using frontier_scan_dominates [OF srt, of c "2 ^ 32 - 1"] that assms by (auto simp: reduce_to_frontier_def)
qed

section \<open>The searches report matches of the data\<close>

lemma chain_matches_loop_Ok:
  assumes "chain_inv rc data p st" and "cand < int ip" and "ip \<le> e" and "e \<le> length data"
  shows "\<exists>out'. chain_matches_loop n data ip e W cap st cand best_ml out = Ok out'
    \<and> (\<forall>c \<in> set out'. c \<in> set out \<or> reported data W e ip c) \<and> length out' \<le> length out + n"
  using assms(2)
proof (induction n arbitrary: cand best_ml out)
  case 0
  then show ?case by simp
next
  case (Suc n)
  show ?case
  proof (cases "cand < 0 \<or> W < ip - nat cand")
    case True
    moreover have "nat cand \<le> ip" using Suc.prems(1) by linarith
    ultimately have "chain_matches_loop (Suc n) data ip e W cap st cand best_ml out = Ok out" by (cases "cand < 0") (simp_all add: Let_def)
    then show ?thesis by auto
  next
    case False
    define c where "c = nat cand"
    have c: "c < ip" "ip - c \<le> W" "\<not> cand < 0" using Suc.prems(1) False by (simp_all add: c_def nat_less_iff)
    have "min e (ip + cap) \<le> e" "ip \<le> min e (ip + cap)" using assms(3) by simp_all
    from chain_extend_Ok [OF c(1) this assms(4), of best_ml] obtain ml where
      ml: "chain_extend data e (min e (ip + cap)) ip c best_ml = Ok ml" "is_match data (min e (ip + cap)) ip ml (ip - c)" by blast
    define out1 where "out1 = (if best_ml < ml then out @ [(as_u32 ml, as_u32 (ip - c))] else out)"
    have "reported data W e ip (as_u32 ml, as_u32 (ip - c))"
      using ml(2) c(2) unfolding reported_def is_match_def by (intro exI [of _ ml] exI [of _ "ip - c"]) simp
    then have out1: "\<forall>x \<in> set out1. x \<in> set out \<or> reported data W e ip x" "length out1 \<le> Suc (length out)" by (auto simp: out1_def)
    obtain nxt where nxt: "idx (ch_chain st) (c AND ch_mask st) = (Ok nxt :: int result)" using chain_slot [OF assms(1)] by simp
    have run: "chain_matches_loop (Suc n) data ip e W cap st cand best_ml out
      = (if best_ml < ml \<and> cap \<le> ml then Ok out1 else if nxt < 0 \<or> c \<le> nat nxt then Ok out1
         else chain_matches_loop n data ip e W cap st nxt (max best_ml ml) out1)"
      using c by (simp add: Let_def c_def [symmetric] ml(1) nxt out1_def)
    show ?thesis
    proof (cases "best_ml < ml \<and> cap \<le> ml \<or> nxt < 0 \<or> c \<le> nat nxt")
      case True
      then have "chain_matches_loop (Suc n) data ip e W cap st cand best_ml out = Ok out1" unfolding run by auto
      then show ?thesis using out1 by auto
    next
      case False
      then have "nxt < int ip" using c(1) by linarith
      from Suc.IH [OF this, of "max best_ml ml" out1] show ?thesis using False out1 unfolding run by fastforce
    qed
  qed
qed

lemma find_matches_Ok:
  assumes "chain_inv rc data p st" and "p \<le> ip" and "ip + 4 \<le> e" and "e \<le> length data"
  shows "\<exists>ms. find_matches st data ip e W depth cap = Ok ms \<and> (\<forall>c \<in> set ms. reported data W e ip c) \<and> length ms \<le> depth"
proof -
  obtain h cand where h: "hash_pos data ip (ch_hash_log st) (ch_mls st) = Ok h" "idx (ch_head st) h = (Ok cand :: int result)" "cand < int ip"
    using chain_head_Ok [OF assms(1,2)] assms(3,4) by auto
  have "ip \<le> e" using assms(3) by simp
  from chain_matches_loop_Ok [OF assms(1) h(3) this assms(4), of depth W cap "MIN_MATCH - 1" "[]"] show ?thesis
    using h(1,2) by (simp add: find_matches_def)
qed

lemma bt_insert_loop_length:
  "bt_insert_loop nb grow data e ext_end cur low msk bt mi sp lp cs cl best_len out = Ok (bt', out') \<Longrightarrow> length out' \<le> length out + nb"
proof (induction nb arbitrary: bt mi sp lp cs cl best_len out)
  case 0
  then show ?case by (auto simp: obind_eq_Ok)
next
  case (Suc nb)
  from Suc.prems show ?case
    by (auto simp: obind_eq_Ok Let_def split: if_splits dest!: Suc.IH)
qed

lemma all_matches_length: "insert_and_get_all_matches data q e W nb st = Ok (st', out) \<Longrightarrow> length out \<le> nb"
  unfolding insert_and_get_all_matches_def bt_insert_with_def Let_def
  by (auto simp: obind_eq_Ok dest!: bt_insert_loop_length)

section \<open>The collection\<close>

text \<open>A flat list of matches, filled for the positions before \<open>i\<close>.\<close>

definition csr :: "byte list \<Rightarrow> nat \<Rightarrow> nat \<Rightarrow> nat \<Rightarrow> nat \<Rightarrow> nat \<Rightarrow> nat list \<Rightarrow> (nat \<times> nat) list \<Rightarrow> bool" where
  "csr data W start n depth i starts flat \<longleftrightarrow> length starts = Suc n \<and> length flat \<le> i * (2 * depth)
     \<and> (\<forall>k < i. let s = starts[i := length flat] in s ! k \<le> s ! Suc k \<and> s ! Suc k \<le> length flat
        \<and> (\<forall>(len, off) \<in> set (take (s ! Suc k - s ! k) (drop (s ! k) flat)). match_fits data W start n k len off))"

lemma csr_step:
  assumes c: "csr data W start n depth i starts flat" and i: "i < n" and ms: "\<forall>(len, off) \<in> set ms. match_fits data W start n i len off"
    and len: "length ms \<le> 2 * depth"
  shows "csr data W start n depth (Suc i) (starts[i := length flat]) (flat @ ms)"
proof -
  let ?s = "starts[i := length flat]" and ?t = "starts[i := length flat, Suc i := length (flat @ ms)]"
  have l: "length starts = Suc n" using c by (simp add: csr_def)
  have "?t ! k \<le> ?t ! Suc k \<and> ?t ! Suc k \<le> length (flat @ ms)
      \<and> (\<forall>(len, off) \<in> set (take (?t ! Suc k - ?t ! k) (drop (?t ! k) (flat @ ms))). match_fits data W start n k len off)" if k: "k < Suc i" for k
  proof (cases "k = i")
    case True
    then show ?thesis using l i ms by simp
  next
    case False
    then have k: "k < i" using k by simp
    then have t: "?t ! k = ?s ! k" "?t ! Suc k = ?s ! Suc k" by simp_all
    have s: "?s ! k \<le> ?s ! Suc k" "?s ! Suc k \<le> length flat"
      "\<forall>(len, off) \<in> set (take (?s ! Suc k - ?s ! k) (drop (?s ! k) flat)). match_fits data W start n k len off"
      using c k by (simp_all add: csr_def Let_def)
    have "take (?s ! Suc k - ?s ! k) (drop (?s ! k) (flat @ ms)) = take (?s ! Suc k - ?s ! k) (drop (?s ! k) flat)"
      using s(1,2) by simp
    then show ?thesis unfolding t using s by simp
  qed
  then show ?thesis using c len by (simp add: csr_def Let_def)
qed

lemma csr_end:
  assumes "csr data W start n depth n starts flat"
  shows "collected data W start n (starts[n := length flat]) flat"
  using assms by (auto simp: csr_def collected_def Let_def)

definition collecting :: "nat \<Rightarrow> nat \<Rightarrow> byte list \<Rightarrow> nat \<Rightarrow> nat \<Rightarrow> nat \<Rightarrow> nat \<Rightarrow> nat \<Rightarrow> collection \<Rightarrow> bool" where
  "collecting rc rt data W start n depth i st \<longleftrightarrow> csr data W start n depth i (co_hybrid_starts st) (co_hybrid st)
     \<and> csr data W start n depth i (co_full_starts st) (co_full st) \<and> committed data W start n (co_long st)
     \<and> hybrid_inv rc rt data (co_inserted st) (co_finder st) \<and> co_inserted st \<le> start + i"

lemma reported_fits:
  assumes "reported data W (start + n) (start + i) c" and "n \<le> BLOCK_SIZE_MAX" and "W + 3 < 2 ^ 32"
  shows "match_fits data W start n i (fst c) (snd c)"
proof -
  obtain l d where l: "c = (as_u32 l, as_u32 d)" "is_match data (start + n) (start + i) l d" "d \<le> W" using assms(1) by (auto simp: reported_def)
  then have "l \<le> n" by (simp add: is_match_def)
  then have "as_u32 l = l" "as_u32 d = d" using assms(2,3) l(3) by (simp_all add: as_u32_small BLOCK_SIZE_MAX_def)
  then show ?thesis using l by (simp add: match_fits_def)
qed

lemma reported_mono: "reported data R e p c \<Longrightarrow> R \<le> W \<Longrightarrow> reported data W e p c"
  unfolding reported_def using order.trans by blast

lemma collect_search_Ok:
  assumes inv: "hybrid_inv rc rt data p finder" "p \<le> ap" and e: "ap + 4 \<le> e" "e \<le> length data"
  shows "\<exists>chain_ms tree_ms finder'. collect_search data ap e W depth cap finder = Ok (chain_ms, tree_ms, finder')
    \<and> (\<forall>c \<in> set chain_ms \<union> set tree_ms. reported data W e ap c) \<and> length chain_ms + length tree_ms \<le> 2 * depth
    \<and> hybrid_inv rc rt data (Suc ap) finder'"
proof -
  have h: "chain_inv rc data p (fst finder)" "bt_inv rt data p (snd finder)" using inv(1) by (simp_all add: hybrid_inv_def)
  obtain ms where ms: "find_matches (fst finder) data ap e W depth cap = Ok ms" "\<forall>c \<in> set ms. reported data W e ap c" "length ms \<le> depth"
    using find_matches_Ok [OF h(1) inv(2) e] by blast
  obtain chain where ch: "chain_insert data ap (fst finder) = Ok chain" "chain_inv rc data (Suc ap) chain"
    using chain_insert_Ok [OF h(1) inv(2)] e by auto
  obtain tree ts where ts: "insert_and_get_all_matches data ap e W depth (snd finder) = Ok (tree, ts)" "bt_inv rt data (Suc ap) tree"
    "\<forall>c \<in> set ts. reported data W e ap c" using insert_and_get_all_matches_Ok [OF h(2) inv(2) e] by blast
  have "length ts \<le> depth" by (rule all_matches_length [OF ts(1)])
  then show ?thesis using ms ch ts by (auto simp: collect_search_def hybrid_inv_def)
qed

lemma last_match_fits:
  "\<forall>c \<in> set ms. match_fits data W start n i (fst c) (snd c) \<Longrightarrow> fst (last_match ms) \<noteq> 0 \<Longrightarrow>
    match_fits data W start n i (fst (last_match ms)) (snd (last_match ms))"
  by (cases "ms = []") (auto simp: last_match_def)

lemma collect_at_Ok:
  assumes c: "csr data W start n depth (Suc i) (co_hybrid_starts st) (co_hybrid st)" "csr data W start n depth (Suc i) (co_full_starts st) (co_full st)"
    and grow: "\<And>ms. \<forall>(len, off) \<in> set ms. match_fits data W start n i len off \<Longrightarrow> length ms \<le> 2 * depth
      \<Longrightarrow> csr data W start n depth (Suc i) (co_hybrid_starts st) (co_hybrid st @ ms) \<and> csr data W start n depth (Suc i) (co_full_starts st) (co_full st @ ms)"
    and co: "committed data W start n (co_long st)" and inv: "hybrid_inv rc rt data p (co_finder st)" "p \<le> start + i"
    and i: "i < n" "start + i + 4 \<le> start + n" "start + n \<le> length data" "n \<le> BLOCK_SIZE_MAX" "W + 3 < 2 ^ 32" and suff: "MIN_MATCH \<le> suff" and R: "R \<le> W"
  shows "\<exists>st'. collect_at data (start + i) (start + n) R depth suff cap i st = Ok st' \<and> collecting rc rt data W start n depth (Suc i) st'"
proof -
  let ?e = "start + n" and ?ap = "start + i"
  obtain cms tms finder where s: "collect_search data ?ap ?e R depth cap (co_finder st) = Ok (cms, tms, finder)"
    "\<forall>c \<in> set cms \<union> set tms. reported data R ?e ?ap c" "length cms + length tms \<le> 2 * depth" "hybrid_inv rc rt data (Suc ?ap) finder"
    using collect_search_Ok [OF inv i(2,3)] by blast
  have fits: "\<forall>c \<in> set cms. match_fits data W start n i (fst c) (snd c)" "\<forall>c \<in> set tms. match_fits data W start n i (fst c) (snd c)"
    using s(2) reported_fits [OF reported_mono [OF _ R] i(4,5)] by blast+
  define best where "best = (if fst (last_match cms) < fst (last_match tms) then last_match tms else last_match cms)"
  obtain bl bo where b: "best = (bl, bo)" by (cases best)
  have bfit: "match_fits data W start n i bl bo" if "bl \<noteq> 0"
    using that b last_match_fits [OF fits(1)] last_match_fits [OF fits(2)] by (auto simp: best_def split: if_splits)
  let ?st = "st\<lparr>co_finder := finder, co_inserted := ?ap + 1\<rparr>"
  note run = collect_at_def s(1) obind_simps prod.case Let_def best_def [symmetric] b
  have st: "collecting rc rt data W start n depth (Suc i) ?st" using c co s(4) by (simp add: collecting_def)
  show ?thesis
  proof (cases "bl = 0")
    case True
    then show ?thesis using st unfolding run by simp
  next
    case False
    note bf = bfit [OF False]
    then have bo: "1 \<le> bo" "bo \<le> ?ap" by (simp_all add: match_fits_def is_match_def)
    have "\<exists>ll. (if suff \<le> bl then obind (usub ?ap bo) (\<lambda>c. extend_full data ?ap c ?e) else Ok bl) = Ok ll \<and> match_fits data W start n i ll bo"
    proof (cases "suff \<le> bl")
      case True
      have "?ap - bo < ?ap" "?ap \<le> ?e" using bo i(1) by simp_all
      from common_len_match [OF this i(3)] show ?thesis using True bo bf by (auto simp: extend_full_def match_fits_def)
    next
      case False
      then show ?thesis using bf by simp
    qed
    then obtain ll where ll: "(if suff \<le> bl then obind (usub ?ap bo) (\<lambda>c. extend_full data ?ap c ?e) else Ok bl) = Ok ll"
      "match_fits data W start n i ll bo" by blast
    note run2 = run if_not_P [OF False] ll(1)
    show ?thesis
    proof (cases "suff \<le> ll")
      case True
      have "as_u32 ll = ll" using ll(2) i(4) by (simp add: match_fits_def is_match_def as_u32_small BLOCK_SIZE_MAX_def)
      moreover have "committed data W start n ((co_long st)[i := Some (ll, bo)])"
        using co ll(2) True suff i(1) by (auto simp: committed_def nth_list_update)
      moreover have "i < length (co_long st)" using co i(1) by (simp add: committed_def)
      ultimately show ?thesis using True c s(4) unfolding run2 by (simp add: collecting_def)
    next
      case no: False
      have "\<forall>(len, off) \<in> set cms. match_fits data W start n i len off"
        "\<forall>(len, off) \<in> set (reduce_to_frontier (cms @ tms)). match_fits data W start n i len off"
        using fits reduce_to_frontier_set [of "cms @ tms"] by fastforce+
      moreover have "length (reduce_to_frontier (cms @ tms)) \<le> 2 * depth" "length cms \<le> 2 * depth"
        using reduce_to_frontier_length [of "cms @ tms"] s(3) by simp_all
      ultimately show ?thesis using no grow [of cms] grow [of "reduce_to_frontier (cms @ tms)"] co s(4) unfolding run2 by (simp add: collecting_def)
    qed
  qed
qed

text \<open>The requirements on the block, the window and the depth of the searches.\<close>

definition opt_fits :: "byte list \<Rightarrow> nat \<Rightarrow> nat \<Rightarrow> nat \<Rightarrow> nat \<Rightarrow> bool" where
  "opt_fits data W start n depth \<longleftrightarrow> start + n \<le> length data \<and> n \<le> BLOCK_SIZE_MAX \<and> W + 3 < 2 ^ 32 \<and> depth \<le> 1024"

lemma csr_small:
  assumes "csr data W start n depth i starts flat" and "i \<le> n" and "opt_fits data W start n depth"
  shows "as_u32 (length flat) = length flat"
proof -
  have "i * (2 * depth) \<le> 2 ^ 17 * (2 * 1024)" using assms(2,3) by (intro mult_le_mono) (simp_all add: opt_fits_def BLOCK_SIZE_MAX_def)
  moreover have "length flat \<le> i * (2 * depth)" using assms(1) by (simp add: csr_def)
  ultimately have "length flat \<le> 2 ^ 17 * (2 * 1024)" by (rule order.trans [rotated])
  then have "length flat < 2 ^ 32" by simp
  then show ?thesis by (rule as_u32_small)
qed

lemma collect_step_Ok:
  assumes inv: "collecting rc rt data W start n depth i st" and i: "i < n" and fit: "opt_fits data W start n depth" and suff: "MIN_MATCH \<le> suff" and R: "R \<le> W"
  shows "\<exists>st'. collect_step data start (start + n) R depth suff cap i st = Ok st' \<and> collecting rc rt data W start n depth (Suc i) st'"
proof -
  let ?e = "start + n" and ?ap = "start + i"
  have f: "start + n \<le> length data" "n \<le> BLOCK_SIZE_MAX" "W + 3 < 2 ^ 32" using fit by (simp_all add: opt_fits_def)
  have v: "csr data W start n depth i (co_hybrid_starts st) (co_hybrid st)" "csr data W start n depth i (co_full_starts st) (co_full st)"
    "committed data W start n (co_long st)" "hybrid_inv rc rt data (co_inserted st) (co_finder st)" "co_inserted st \<le> ?ap"
    using inv by (simp_all add: collecting_def)
  define hs fs where "hs = (co_hybrid_starts st)[i := length (co_hybrid st)]" and "fs = (co_full_starts st)[i := length (co_full st)]"
  have ups: "upd (co_hybrid_starts st) i (as_u32 (length (co_hybrid st))) = (Ok hs :: nat list result)"
    "upd (co_full_starts st) i (as_u32 (length (co_full st))) = (Ok fs :: nat list result)"
    using v(1,2) i csr_small [OF v(1) _ fit] csr_small [OF v(2) _ fit] by (simp_all add: csr_def hs_def fs_def)
  have grow: "csr data W start n depth (Suc i) hs (co_hybrid st @ ms) \<and> csr data W start n depth (Suc i) fs (co_full st @ ms)"
    if "\<forall>(len, off) \<in> set ms. match_fits data W start n i len off" "length ms \<le> 2 * depth" for ms
    using csr_step [OF v(1) i that] csr_step [OF v(2) i that] by (simp add: hs_def fs_def)
  have c: "csr data W start n depth (Suc i) hs (co_hybrid st)" "csr data W start n depth (Suc i) fs (co_full st)"
    using grow [of "[]"] by simp_all
  define st1 where "st1 = st\<lparr>co_hybrid_starts := hs, co_full_starts := fs\<rparr>"
  note run = collect_step_def ups obind_simps Let_def st1_def [symmetric]
  show ?thesis
  proof (cases "?e < ?ap + MIN_MATCH")
    case True
    then show ?thesis using c v unfolding run by (simp add: collecting_def st1_def)
  next
    case no: False
    then have e: "?ap + 4 \<le> ?e" by (simp add: MIN_MATCH_def)
    then have "?ap + 3 \<le> ?e" by simp
    from hybrid.put_range [where R = R and depth = depth, OF v(4) this f(1)] obtain finder where
      fi: "ofold (hybrid_put R depth data ?e) [co_inserted st..<?ap] (co_finder st) = Ok finder" "hybrid_inv rc rt data ?ap finder"
      using v(5) by (auto simp: max_absorb2)
    define st2 where "st2 = st1\<lparr>co_finder := finder, co_inserted := ?ap\<rparr>"
    have st2: "st1\<lparr>co_finder := finder, co_inserted := max (co_inserted st) ?ap\<rparr> = st2" "co_skip st2 = co_skip st"
      "co_inserted st2 = ?ap" "co_finder st2 = finder"
      using v(5) by (simp_all add: st2_def st1_def max_absorb2)
    have st1: "co_inserted st1 = co_inserted st" "co_finder st1 = co_finder st" by (simp_all add: st1_def)
    note run2 = run if_not_P [OF no] st1 fi(1) st2
    show ?thesis
    proof (cases "?ap < co_skip st")
      case True
      obtain finder' where "hybrid_put R depth data ?e ?ap finder = Ok finder'" "hybrid_inv rc rt data (Suc ?ap) finder'"
        using hybrid.put_Ok [where R = R and depth = depth, OF fi(2) order.refl e f(1)] by blast
      then show ?thesis using True c v(3) unfolding run2 by (simp add: collecting_def st1_def st2_def)
    next
      case False
      have "\<exists>st'. collect_at data ?ap ?e R depth suff cap i st2 = Ok st' \<and> collecting rc rt data W start n depth (Suc i) st'"
        by (rule collect_at_Ok [where p = ?ap]) (use c grow v(3) fi(2) i e f suff R in \<open>simp_all add: st2_def st1_def\<close>)
      then show ?thesis using False unfolding run2 by simp
    qed
  qed
qed

lemma collect_matches_Ok:
  assumes inv: "hybrid_inv rc rt data start finder" and fit: "opt_fits data W start n depth" and suff: "MIN_MATCH \<le> suff" and R: "R \<le> W"
  shows "\<exists>co. collect_matches data start (start + n) R depth suff finder = Ok co
    \<and> collected data W start n (co_hybrid_starts co) (co_hybrid co) \<and> collected data W start n (co_full_starts co) (co_full co)
    \<and> committed data W start n (co_long co) \<and> hybrid_inv rc rt data (start + n) (co_finder co)"
proof -
  let ?st0 = "\<lparr>co_hybrid = [], co_hybrid_starts = replicate (n + 1) 0, co_full = [], co_full_starts = replicate (n + 1) 0,
         co_long = replicate n None, co_inserted = start, co_skip = start, co_finder = finder\<rparr>"
  have "collecting rc rt data W start n depth 0 ?st0" using inv by (simp add: collecting_def csr_def committed_def)
  then have "\<exists>st. ofold (collect_step data start (start + n) R depth suff (max suff 512)) [0..<n] ?st0 = Ok st \<and> collecting rc rt data W start n depth n st"
    by (rule ofold_upt [where P = "collecting rc rt data W start n depth"]) (use collect_step_Ok fit suff R in auto)
  then obtain st where st: "ofold (collect_step data start (start + n) R depth suff (max suff 512)) [0..<n] ?st0 = Ok st"
    "collecting rc rt data W start n depth n st" by blast
  have v: "csr data W start n depth n (co_hybrid_starts st) (co_hybrid st)" "csr data W start n depth n (co_full_starts st) (co_full st)"
    "committed data W start n (co_long st)" "hybrid_inv rc rt data (start + n) (co_finder st)"
    using st(2) hybrid.I_mono [of rc rt data "co_inserted st" "co_finder st" "start + n"] by (simp_all add: collecting_def)
  let ?co = "st\<lparr>co_hybrid_starts := (co_hybrid_starts st)[n := length (co_hybrid st)], co_full_starts := (co_full_starts st)[n := length (co_full st)]\<rparr>"
  have "collect_matches data start (start + n) R depth suff finder = Ok ?co"
    using st(1) v(1,2) csr_small [OF v(1) order.refl fit] csr_small [OF v(2) order.refl fit]
    by (simp add: collect_matches_def csr_def)
  then show ?thesis using csr_end [OF v(1)] csr_end [OF v(2)] v(3,4) by (intro exI [of _ ?co]) simp
qed

section \<open>The parse describes the block\<close>

text \<open>A result of the dynamic program that is good for a parse.\<close>

definition dp_good :: "byte list \<Rightarrow> nat \<Rightarrow> nat \<Rightarrow> nat \<Rightarrow> rep_offsets \<Rightarrow> enc_seq list \<times> rep_offsets \<Rightarrow> bool" where
  "dp_good data W start n rep0 r \<longleftrightarrow> (\<exists>pos \<le> n. leads_to data W start rep0 (fst r) (snd r) pos)"

lemma dp_goodD:
  assumes "dp_good data W start n rep0 r"
  obtains lits pos where "pos \<le> n" "runs_to data start (fst r) lits (start + pos)" "parsed_to data W start rep0 (start + pos) (fst r, lits, snd r)"
    "\<forall>s \<in> set (fst r). seq_valid s"
  using assms by (fastforce simp: dp_good_def leads_to_def parsed_to_def)

definition good_stream :: "byte list \<Rightarrow> nat \<Rightarrow> nat \<Rightarrow> nat \<Rightarrow> rep_offsets \<Rightarrow> dp_stream \<Rightarrow> bool" where
  "good_stream data W start n rep0 dp \<longleftrightarrow> (\<forall>offer prices. prices_ok prices \<longrightarrow> (\<exists>r. dp offer prices = Ok r \<and> dp_good data W start n rep0 r))"

lemma two_pass_dp_Ok:
  assumes dp: "good_stream data W start n rep0 dp" and pr: "prices_ok prices1" and e: "start + n \<le> length data"
  shows "\<exists>r. two_pass_dp (take n (drop start data)) two_pass prices1 dp offer = Ok r \<and> dp_good data W start n rep0 r"
proof -
  obtain r1 where r1: "dp offer prices1 = Ok r1" "dp_good data W start n rep0 r1" using dp pr unfolding good_stream_def by blast
  obtain lits pos where g: "pos \<le> n" "runs_to data start (fst r1) lits (start + pos)" "\<forall>s \<in> set (fst r1). seq_valid s"
    using dp_goodD [OF r1(2)] by metis
  have "start + pos \<le> start + n" using g(1) by simp
  from prices_from_stats_Ok [OF g(2) this e g(3)] obtain prices2 where
    "prices_from_stats (take n (drop start data)) (fst r1) = Ok prices2" "prices_ok prices2" by auto
  moreover from this obtain r2 where "dp offer prices2 = Ok r2" "dp_good data W start n rep0 r2" using dp unfolding good_stream_def by blast
  ultimately show ?thesis using r1 by (cases r1) (simp add: two_pass_dp_def del: split_paired_Ex)
qed

lemma rep_dp_Ok:
  assumes dp: "good_stream data W start n rep0 dp" and pr: "prices_ok prices1" and e: "start + n \<le> length data" and st: "stats_ok stats"
  shows "\<exists>r. rep_dp (take n (drop start data)) two_pass prices1 stats dp = Ok r \<and> dp_good data W start n rep0 r"
  using two_pass_dp_Ok [OF dp pr e, of two_pass True] dp prices_from_opt_stats_ok [OF st] by (simp add: rep_dp_def good_stream_def del: split_paired_Ex)

text \<open>The parse that is made of such a result.\<close>

definition good_parse :: "byte list \<Rightarrow> nat \<Rightarrow> nat \<Rightarrow> nat \<Rightarrow> rep_offsets \<Rightarrow> parsed \<Rightarrow> bool" where
  "good_parse data W start n rep0 p \<longleftrightarrow> pa_alts p = [] \<and> rep_within W (pa_rep p)
     \<and> describes (pa_seqs p) (pa_literals p) rep0 (take start data) (take n (drop start data)) (pa_rep p)"

lemma mk_parsed_Ok:
  assumes g: "dp_good data W start n rep0 r" and e: "start + n \<le> length data" "n \<le> BLOCK_SIZE_MAX"
  shows "\<exists>p. mk_parsed data start (start + n) r = Ok p \<and> good_parse data W start n rep0 p"
proof -
  obtain lits pos where l: "pos \<le> n" "runs_to data start (fst r) lits (start + pos)" "parsed_to data W start rep0 (start + pos) (fst r, lits, snd r)"
    using dp_goodD [OF g] by metis
  have p: "start + pos \<le> start + n" "start + n - start \<le> BLOCK_SIZE_MAX" using l(1) e(2) by simp_all
  let ?lits = "lits @ take (n - pos) (drop (start + pos) data)"
  have "mk_parsed data start (start + n) r = Ok (Parsed (fst r) ?lits (snd r) [])"
    using block_literals_Ok [OF l(2) p(1) e(1)] by (simp add: mk_parsed_def materialize_literals_def)
  moreover have "push_tail data (start + pos) (start + n) (fst r, lits, snd r) = Ok (fst r, ?lits, snd r)"
    using e p by (simp add: push_tail_def)
  then have "describes (fst r) ?lits rep0 (take start data) (take n (drop start data)) (snd r)" "rep_within W (snd r)"
    using push_tail_Ok [OF l(3) p(1) e(1) p(2)] by auto
  ultimately show ?thesis by (simp add: good_parse_def)
qed

lemma add_alt_Ok:
  assumes "dp_good data W start n rep0 r" and "start + n \<le> length data" "n \<le> BLOCK_SIZE_MAX" and "\<forall>p \<in> set alts. good_parse data W start n rep0 p"
  shows "\<exists>alts'. add_alt data start (start + n) base r alts = Ok alts' \<and> (\<forall>p \<in> set alts'. good_parse data W start n rep0 p)"
  using mk_parsed_Ok [OF assms(1-3)] assms(4) by (auto simp: add_alt_def)

text \<open>What a parse of a block promises: it and its alternatives describe the block, and their repeat
  offsets stay within the window.\<close>

definition block_parsed :: "byte list \<Rightarrow> nat \<Rightarrow> nat \<Rightarrow> nat \<Rightarrow> rep_offsets \<Rightarrow> parsed \<Rightarrow> bool" where
  "block_parsed data W start e rep0 p \<longleftrightarrow> parse_ok rep0 (take start data) (take (e - start) (drop start data)) p
     \<and> rep_within W (pa_rep p) \<and> (\<forall>alt \<in> set (pa_alts p). rep_within W (pa_rep alt))"

lemma block_parsedI:
  "good_parse data W start n rep0 p \<Longrightarrow> \<forall>a \<in> set alts. good_parse data W start n rep0 a \<Longrightarrow>
    block_parsed data W start (start + n) rep0 (Parsed (pa_seqs p) (pa_literals p) (pa_rep p) alts)"
  by (simp add: block_parsed_def good_parse_def)

lemma opt_parse_block_Ok:
  assumes inv: "hybrid_inv rc rt data start finder" and st: "stats_ok stats" and rep: "rep_within W rep0" and fit: "opt_fits data W start n depth"
    and R: "R \<le> W"
  shows "\<exists>p finder' stats'. opt_parse_block data start (start + n) finder R rep0 depth suff two_pass stats = Ok (p, finder', stats')
    \<and> block_parsed data W start (start + n) rep0 p \<and> hybrid_inv rc rt data (start + n) finder' \<and> stats_ok stats'"
proof -
  let ?block = "take n (drop start data)"
  have f: "start + n \<le> length data" "n \<le> BLOCK_SIZE_MAX" "W + 3 < 2 ^ 32" using fit by (simp_all add: opt_fits_def)
  have sl: "usub (start + n) start = (Ok n :: nat result)" "slice_range data start (start + n) = (Ok ?block :: byte list result)"
    using f(1) by simp_all
  show ?thesis
  proof (cases "n < MIN_MATCH + 1")
    case True
    have "push_tail data start (start + n) ([], [], rep0) = Ok ([], ?block, rep0)" using f(1) by (simp add: push_tail_def)
    then have "describes [] ?block rep0 (take start data) ?block rep0"
      using push_tail_Ok [OF parsed_to_start [OF rep, of data start], of "start + n"] f by auto
    then have "block_parsed data W start (start + n) rep0 (Parsed [] ?block rep0 [])" using rep by (simp add: block_parsed_def)
    then show ?thesis using True st hybrid.I_mono [OF inv, of "start + n"] unfolding opt_parse_block_def sl obind_simps by simp
  next
    case False
    have "MIN_MATCH \<le> max suff MIN_MATCH" by simp
    from collect_matches_Ok [OF inv fit this R] obtain co where co: "collect_matches data start (start + n) R depth (max suff MIN_MATCH) finder = Ok co"
      "collected data W start n (co_hybrid_starts co) (co_hybrid co)" "collected data W start n (co_full_starts co) (co_full co)"
      "committed data W start n (co_long co)" "hybrid_inv rc rt data (start + n) (co_finder co)" by blast
    obtain prices1 where pr: "prices_predef ?block = Ok prices1" "prices_ok prices1" using prices_predef_Ok by blast
    define hyb where "hyb = (\<lambda>offer_reps prices. run_dp data start n prices (co_hybrid_starts co) (co_hybrid co) (co_long co) rep0 offer_reps)"
    define ful where "ful = (\<lambda>offer_reps prices. run_dp data start n prices (co_full_starts co) (co_full co) (co_long co) rep0 offer_reps)"
    have gs: "good_stream data W start n rep0 hyb" "good_stream data W start n rep0 ful"
      using run_dp_Ok [OF _ co(2,4) f(2,1,3) rep] run_dp_Ok [OF _ co(3,4) f(2,1,3) rep]
      by (fastforce simp: good_stream_def dp_good_def hyb_def ful_def)+
    obtain base where base: "two_pass_dp ?block two_pass prices1 hyb False = Ok base" "dp_good data W start n rep0 base"
      using two_pass_dp_Ok [OF gs(1) pr(2) f(1)] by blast
    obtain rp where rp: "rep_dp ?block two_pass prices1 stats hyb = Ok rp" "dp_good data W start n rep0 rp"
      using rep_dp_Ok [OF gs(1) pr(2) f(1) st] by blast
    obtain fb where fb: "two_pass_dp ?block two_pass prices1 ful False = Ok fb" "dp_good data W start n rep0 fb"
      using two_pass_dp_Ok [OF gs(2) pr(2) f(1)] by blast
    obtain fr where fr: "rep_dp ?block two_pass prices1 stats ful = Ok fr" "dp_good data W start n rep0 fr"
      using rep_dp_Ok [OF gs(2) pr(2) f(1) st] by blast
    obtain stats' where stats': "opt_stats_record data start (start + n) (fst fr) stats = Ok stats'" "stats_ok stats'"
    proof -
      obtain lits pos where "pos \<le> n" "runs_to data start (fst fr) lits (start + pos)" "\<forall>s \<in> set (fst fr). seq_valid s"
        using dp_goodD [OF fr(2)] by metis
      then show ?thesis using opt_stats_record_Ok [of data start "fst fr" lits "start + pos" "start + n" stats] f(1) st that by auto
    qed
    obtain a1 where a1: "add_alt data start (start + n) (fst base) rp [] = Ok a1" "\<forall>p \<in> set a1. good_parse data W start n rep0 p"
      using add_alt_Ok [OF rp(2) f(1,2), of "[]"] by auto
    obtain a2 where a2: "add_alt data start (start + n) (fst base) fb a1 = Ok a2" "\<forall>p \<in> set a2. good_parse data W start n rep0 p"
      using add_alt_Ok [OF fb(2) f(1,2) a1(2)] by blast
    obtain a3 where a3: "add_alt data start (start + n) (fst base) fr a2 = Ok a3" "\<forall>p \<in> set a3. good_parse data W start n rep0 p"
      using add_alt_Ok [OF fr(2) f(1,2) a2(2)] by blast
    obtain p where p: "mk_parsed data start (start + n) base = Ok p" "good_parse data W start n rep0 p"
      using mk_parsed_Ok [OF base(2) f(1,2)] by blast
    have "opt_parse_block data start (start + n) finder R rep0 depth suff two_pass stats
        = Ok (Parsed (pa_seqs p) (pa_literals p) (pa_rep p) a3, co_finder co, stats')"
      unfolding opt_parse_block_def sl obind_simps if_not_P [OF False] co(1) pr(1) Let_def hyb_def [symmetric] ful_def [symmetric]
        base(1) rp(1) fb(1) fr(1) stats'(1) a1(1) a2(1) a3(1) p(1) ..
    then show ?thesis using block_parsedI [OF p(2) a3(2)] co(5) stats'(2) by blast
  qed
qed

end
