(* ===== verification/Lz_Finder.thy ===== *)
theory Lz_Finder
  imports Lz_Opt Params
begin

text \<open>
  The \<open>Finder\<close> of \<^verbatim>\<open>src/encode/lz.rs\<close>, one of five match finders as the strategy of the parameters
  says. Whichever it is, it keeps its invariant (\<open>finder_inv\<close>) and its parse of a block describes the
  block.
\<close>

section \<open>State and operations\<close>

text \<open>The numbers are the lazy steps, the depth of the searches and the sufficient length; the flag of the
  optimal parser is that of the second pass.\<close>

datatype finder =
    Fast_Finder match_state
  | DFast_Finder dfast_state
  | Chain_Finder chain_state nat nat
  | BtLazy_Finder "chain_state \<times> bt_state" nat
  | Opt_Finder "chain_state \<times> bt_state" nat nat bool opt_stats

definition finder_new :: "cparams \<Rightarrow> finder" where
  "finder_new p =
     (let chain = chain_state_new (cp_hash_log p) (cp_chain_log p) (cp_min_match p);
          tree = bt_state_new (cp_hash_log p) (cp_window_log p) in
      case cp_strategy p of
        Fast \<Rightarrow> Fast_Finder (match_state_new (cp_hash_log p))
      | Dfast \<Rightarrow> DFast_Finder (dfast_state_new (cp_hash_log p) (cp_chain_log p))
      | BtLazy2 \<Rightarrow> BtLazy_Finder (chain, tree) (2 ^ min (cp_search_log p) 10)
      | Greedy \<Rightarrow> Chain_Finder chain 0 (2 ^ min (cp_search_log p) 10)
      | Lazy \<Rightarrow> Chain_Finder chain 1 (2 ^ min (cp_search_log p) 10)
      | Lazy2 \<Rightarrow> Chain_Finder chain 2 (2 ^ min (cp_search_log p) 10)
      | _ \<Rightarrow> Opt_Finder (chain, tree) (min (2 ^ min (cp_search_log p) 7) 128) (clamp_to 32 256 (cp_target_length p))
               (cp_strategy p = Btultra2) opt_stats_new)"

fun finder_slide_period :: "finder \<Rightarrow> nat" where
  "finder_slide_period (Fast_Finder st) = 1"
| "finder_slide_period (DFast_Finder st) = 1"
| "finder_slide_period (Chain_Finder st steps depth) = chain_slide_period st"
| "finder_slide_period (BtLazy_Finder st depth) = max (chain_slide_period (fst st)) (bt_slide_period (snd st))"
| "finder_slide_period (Opt_Finder st depth suff two stats) = max (chain_slide_period (fst st)) (bt_slide_period (snd st))"

definition hybrid_reduce :: "nat \<Rightarrow> chain_state \<times> bt_state \<Rightarrow> chain_state \<times> bt_state" where
  "hybrid_reduce n st = (chain_reduce n (fst st), bt_reduce n (snd st))"

fun finder_reduce :: "nat \<Rightarrow> finder \<Rightarrow> finder" where
  "finder_reduce n (Fast_Finder st) = Fast_Finder (match_state_reduce n st)"
| "finder_reduce n (DFast_Finder st) = DFast_Finder (dfast_reduce n st)"
| "finder_reduce n (Chain_Finder st steps depth) = Chain_Finder (chain_reduce n st) steps depth"
| "finder_reduce n (BtLazy_Finder st depth) = BtLazy_Finder (hybrid_reduce n st) depth"
| "finder_reduce n (Opt_Finder st depth suff two stats) = Opt_Finder (hybrid_reduce n st) depth suff two stats"

text \<open>The simpler finders have no alternatives.\<close>

definition plain_parse :: "('s \<Rightarrow> finder) \<Rightarrow> (lz_out \<times> 's) result \<Rightarrow> (parsed \<times> finder) result" where
  "plain_parse wrap m = obind m (\<lambda>((seqs, literals, rep), st). Ok (Parsed seqs literals rep [], wrap st))"

fun finder_parse :: "finder \<Rightarrow> byte list \<Rightarrow> nat \<Rightarrow> nat \<Rightarrow> nat \<Rightarrow> rep_offsets \<Rightarrow> (parsed \<times> finder) result" where
  "finder_parse (Fast_Finder st) data start e max_offset rep_in =
     plain_parse Fast_Finder (parse_block data start e st max_offset rep_in)"
| "finder_parse (DFast_Finder st) data start e max_offset rep_in =
     plain_parse DFast_Finder (dfast_parse_block data start e st max_offset rep_in)"
| "finder_parse (Chain_Finder st steps depth) data start e max_offset rep_in =
     plain_parse (\<lambda>st. Chain_Finder st steps depth) (lazy_parse_block data start e st max_offset rep_in steps depth)"
| "finder_parse (BtLazy_Finder st depth) data start e max_offset rep_in =
     plain_parse (\<lambda>st. BtLazy_Finder st depth) (bt_lazy_parse_block data start e st max_offset rep_in depth)"
| "finder_parse (Opt_Finder st depth suff two stats) data start e max_offset rep_in =
     obind (opt_parse_block data start e st max_offset rep_in depth suff two stats) (\<lambda>(p, st, stats).
     Ok (p, Opt_Finder st depth suff two stats))"

text \<open>Entering the positions of a dictionary.\<close>

definition hybrid_prime :: "byte list \<Rightarrow> nat \<Rightarrow> nat \<Rightarrow> nat \<Rightarrow> chain_state \<times> bt_state \<Rightarrow> (chain_state \<times> bt_state) result" where
  "hybrid_prime data dict_len max_offset depth st =
     obind (ofold (chain_insert data) [0..<dict_len + 1 - MIN_MATCH] (fst st)) (\<lambda>chain.
     obind (bt_prime data dict_len max_offset depth (snd st)) (\<lambda>tree.
     Ok (chain, tree)))"

fun finder_prime :: "finder \<Rightarrow> byte list \<Rightarrow> nat \<Rightarrow> nat \<Rightarrow> finder result" where
  "finder_prime (Fast_Finder st) data dict_len max_offset =
     obind (ofold (fast_put data) [0..<dict_len + 1 - MIN_MATCH] st) (\<lambda>st. Ok (Fast_Finder st))"
| "finder_prime (DFast_Finder st) data dict_len max_offset =
     obind (ofold (dfast_insert data dict_len) [0..<dict_len + 1 - MIN_MATCH] st) (\<lambda>st. Ok (DFast_Finder st))"
| "finder_prime (Chain_Finder st steps depth) data dict_len max_offset =
     obind (ofold (chain_insert data) [0..<dict_len + 1 - MIN_MATCH] st) (\<lambda>st. Ok (Chain_Finder st steps depth))"
| "finder_prime (BtLazy_Finder st depth) data dict_len max_offset =
     obind (hybrid_prime data dict_len max_offset depth st) (\<lambda>st. Ok (BtLazy_Finder st depth))"
| "finder_prime (Opt_Finder st depth suff two stats) data dict_len max_offset =
     obind (hybrid_prime data dict_len max_offset depth st) (\<lambda>st. Ok (Opt_Finder st depth suff two stats))"

section \<open>The invariant\<close>

fun finder_inv :: "nat \<Rightarrow> nat \<Rightarrow> byte list \<Rightarrow> nat \<Rightarrow> finder \<Rightarrow> bool" where
  "finder_inv rc rt data p (Fast_Finder st) = (rc = 1 \<and> rt = 1 \<and> fast_inv p st)"
| "finder_inv rc rt data p (DFast_Finder st) = (rc = 1 \<and> rt = 1 \<and> dfast_inv p st)"
| "finder_inv rc rt data p (Chain_Finder st steps depth) = (rt = 1 \<and> chain_inv rc data p st)"
| "finder_inv rc rt data p (BtLazy_Finder st depth) = hybrid_inv rc rt data p st"
| "finder_inv rc rt data p (Opt_Finder st depth suff two stats) = (hybrid_inv rc rt data p st \<and> depth \<le> 1024 \<and> stats_ok stats)"

lemma finder_inv_mono: "finder_inv rc rt data p f \<Longrightarrow> p \<le> q \<Longrightarrow> finder_inv rc rt data q f"
  using fast_inv_mono dfast_inv_mono chain_inv_mono hybrid.I_mono by (cases f) auto

text \<open>The sizes of the rings of a new finder, which no operation changes; their larger one is the period
  of a slide.\<close>

definition chain_ring :: "cparams \<Rightarrow> nat" where
  "chain_ring p = (if cp_strategy p \<in> {Fast, Dfast} then 1 else 2 ^ clamp_to MIN_HASH_LOG MAX_HASH_LOG (cp_chain_log p))"

definition tree_ring :: "cparams \<Rightarrow> nat" where
  "tree_ring p = (if cp_strategy p \<in> {Fast, Dfast, Greedy, Lazy, Lazy2} then 1 else 2 ^ clamp_to MIN_HASH_LOG MAX_BT_LOG (cp_window_log p))"

lemma finder_new_inv: "finder_inv (chain_ring params) (tree_ring params) data p (finder_new params)"
  by (cases "cp_strategy params")
    (simp_all add: finder_new_def Let_def chain_ring_def tree_ring_def fast_inv_new dfast_inv_new chain_inv_new bt_inv_new hybrid_inv_def stats_ok_new)

lemma finder_period: "finder_inv rc rt data p f \<Longrightarrow> finder_slide_period f = max rc rt"
  by (cases f) (auto simp: chain_slide_period_def bt_slide_period_def chain_inv_def bt_inv_def hybrid_inv_def)

text \<open>What a parse promises, as for the optimal parser.\<close>

definition finder_parses :: "nat \<Rightarrow> nat \<Rightarrow> byte list \<Rightarrow> nat \<Rightarrow> nat \<Rightarrow> nat \<Rightarrow> rep_offsets \<Rightarrow> (parsed \<times> finder) result \<Rightarrow> bool" where
  "finder_parses rc rt data W start e rep m \<longleftrightarrow> (\<exists>p f. m = Ok (p, f) \<and> block_parsed data W start e rep p \<and> finder_inv rc rt data e f)"

lemma plain_parse_parses:
  assumes "parses data W start e rep I m" and "\<And>st. I e st \<Longrightarrow> finder_inv rc rt data e (wrap st)"
  shows "finder_parses rc rt data W start e rep (plain_parse wrap m)"
  using assms by (force simp: parses_def finder_parses_def plain_parse_def block_parsed_def)

lemma finder_parse_Ok:
  assumes f: "finder_inv rc rt data start f" and fit: "block_fits data W start e" and rep: "rep_within W rep" and R: "R \<le> W"
  shows "finder_parses rc rt data W start e rep (finder_parse f data start e R rep)"
proof (cases f)
  case (Fast_Finder st)
  then show ?thesis using plain_parse_parses [OF parse_block_parses [OF fit rep _ R]] f by simp
next
  case (DFast_Finder st)
  then show ?thesis using plain_parse_parses [OF dfast_parse_block_parses [OF fit rep _ R]] f by simp
next
  case (Chain_Finder st steps depth)
  then show ?thesis using plain_parse_parses [OF lazy_parse_block_parses [OF fit rep _ R], of rc st rc rt "\<lambda>st. Chain_Finder st steps depth"] f by simp
next
  case (BtLazy_Finder st depth)
  then show ?thesis using plain_parse_parses [OF bt_lazy_parse_block_parses [OF fit rep _ R]] f by simp
next
  case (Opt_Finder st depth suff two stats)
  have inv: "hybrid_inv rc rt data start st" "depth \<le> 1024" "stats_ok stats" using f by (simp_all add: Opt_Finder)
  have "opt_fits data W start (e - start) depth" "start + (e - start) = e" using fit inv(2) by (auto simp: block_fits_def opt_fits_def)
  then show ?thesis using opt_parse_block_Ok [OF inv(1,3) rep _ R, of "e - start" depth suff two] inv(2)
    by (auto simp: Opt_Finder finder_parses_def)
qed

lemma prime_fold:
  assumes "I 0 st" and "n \<le> length data" and "\<And>p q st. I p st \<Longrightarrow> p \<le> q \<Longrightarrow> I q st"
    and "\<And>q st. I q st \<Longrightarrow> q + 4 \<le> n \<Longrightarrow> \<exists>st'. put q st = Ok st' \<and> I (Suc q) st'"
  shows "\<exists>st'. ofold put [0..<n + 1 - MIN_MATCH] st = Ok st' \<and> I n st'"
proof -
  have "\<exists>st'. ofold put [0..<n + 1 - MIN_MATCH] st = Ok st' \<and> I (n + 1 - MIN_MATCH) st'"
    by (rule ofold_upt [where P = I, OF assms(1)]) (use assms(4) in \<open>auto simp: MIN_MATCH_def\<close>)
  moreover have "n + 1 - MIN_MATCH \<le> n" by (simp add: MIN_MATCH_def)
  ultimately show ?thesis using assms(3) by blast
qed

lemma hybrid_prime_Ok:
  assumes "hybrid_inv rc rt data 0 st" and "n \<le> length data"
  shows "\<exists>st'. hybrid_prime data n W depth st = Ok st' \<and> hybrid_inv rc rt data n st'"
proof -
  have inv: "chain_inv rc data 0 (fst st)" "bt_inv rt data 0 (snd st)" using assms(1) by (simp_all add: hybrid_inv_def)
  obtain chain where "ofold (chain_insert data) [0..<n + 1 - MIN_MATCH] (fst st) = Ok chain" "chain_inv rc data n chain"
    using prime_fold [where I = "chain_inv rc data" and put = "chain_insert data", OF inv(1) assms(2)] chain_inv_mono chain_insert_Ok assms(2) by fastforce
  moreover obtain tree where "bt_prime data n W depth (snd st) = Ok tree" "bt_inv rt data n tree"
    using bt_prime_Ok [OF inv(2) assms(2)] by blast
  ultimately show ?thesis by (simp add: hybrid_prime_def hybrid_inv_def)
qed

lemma finder_prime_Ok:
  assumes f: "finder_inv rc rt data 0 f" and n: "n \<le> length data"
  shows "\<exists>f'. finder_prime f data n W = Ok f' \<and> finder_inv rc rt data n f'"
proof (cases f)
  case (Fast_Finder st)
  have "\<exists>st'. ofold (fast_put data) [0..<n + 1 - MIN_MATCH] st = Ok st' \<and> fast_inv n st'"
    by (rule prime_fold [where I = fast_inv, OF _ n]) (use f Fast_Finder fast_inv_mono fast_put_Ok n in auto)
  then show ?thesis using f by (auto simp: Fast_Finder)
next
  case (DFast_Finder st)
  have "\<exists>st'. ofold (dfast_insert data n) [0..<n + 1 - MIN_MATCH] st = Ok st' \<and> dfast_inv n st'"
    by (rule prime_fold [where I = dfast_inv, OF _ n]) (use f DFast_Finder dfast_inv_mono dfast_insert_Ok n in auto)
  then show ?thesis using f by (auto simp: DFast_Finder)
next
  case (Chain_Finder st steps depth)
  have "\<exists>st'. ofold (chain_insert data) [0..<n + 1 - MIN_MATCH] st = Ok st' \<and> chain_inv rc data n st'"
    by (rule prime_fold [where I = "chain_inv rc data", OF _ n]) (use f Chain_Finder chain_inv_mono chain_insert_Ok n in auto)
  then show ?thesis using f by (auto simp: Chain_Finder)
next
  case (BtLazy_Finder st depth)
  then show ?thesis using hybrid_prime_Ok [OF _ n, of rc rt st W depth] f by auto
next
  case (Opt_Finder st depth suff two stats)
  then show ?thesis using hybrid_prime_Ok [OF _ n, of rc rt st W depth] f by auto
qed

end
