(* ===== verification/Ldm.thy ===== *)
theory Ldm
  imports Lz_Finder
begin

text \<open>
  Long-distance matching: \<^verbatim>\<open>src/encode/ldm.rs\<close>, the coarse index of positions that the content selects,
  and \<open>parse_with_ldm\<close> of \<^verbatim>\<open>src/encode/lz.rs\<close>, which emits the long matches and fills the gaps with the
  regular finder. The index finds real matches, in order and without overlap (\<open>ldm_run\<close>); the combined
  parse describes the block, although its distances may exceed the reach of the finder.
\<close>

unbundle bit_operations_syntax

section \<open>The index\<close>

definition LDM_MIN_MATCH :: nat where "LDM_MIN_MATCH = 64"

definition LDM_HASH_RATE_LOG :: nat where "LDM_HASH_RATE_LOG = 5"

definition ldm_hash :: "byte list \<Rightarrow> nat \<Rightarrow> u64 result" where
  "ldm_hash data p = obind (read_u64 data p) (\<lambda>v. Ok (v * 0x9E3779B185EBCA87))"

record ldm_seq =
  ld_pos :: nat
  ld_len :: nat
  ld_offset :: nat

record ldm_state =
  ld_table :: "int list"
  ld_hash_log :: nat

definition ldm_state_new :: "nat \<Rightarrow> ldm_state" where
  "ldm_state_new window_log =
     (let hash_log = clamp_to 10 24 (window_log - 4) in
      \<lparr>ld_table = replicate (2 ^ hash_log) (- 1), ld_hash_log = hash_log\<rparr>)"

definition ldm_reduce :: "nat \<Rightarrow> ldm_state \<Rightarrow> ldm_state" where
  "ldm_reduce n st = st\<lparr>ld_table := map (\<lambda>entry. if entry < 0 then entry else if n \<le> nat entry then as_i32 (nat entry - n) else - 1) (ld_table st)\<rparr>"

definition ldm_step ::
  "byte list \<Rightarrow> nat \<Rightarrow> nat \<Rightarrow> nat \<Rightarrow> nat \<Rightarrow> ldm_state \<times> ldm_seq list \<Rightarrow> (nat \<times> ldm_state \<times> ldm_seq list) result" where
  "ldm_step data e min_offset win p s =
     (let (st, out) = s in
      obind (ldm_hash data p) (\<lambda>h.
      if drop_bit (64 - ld_hash_log st - LDM_HASH_RATE_LOG) h AND (push_bit LDM_HASH_RATE_LOG 1 - 1) \<noteq> 0 then Ok (p + 1, st, out)
      else
        let slot = unat (drop_bit (64 - ld_hash_log st) h) in
        obind (idx (ld_table st) slot) (\<lambda>cand.
        obind (upd (ld_table st) slot (as_i32 p)) (\<lambda>table.
        let st = st\<lparr>ld_table := table\<rparr>; c = nat cand in
        if cand < 0 then Ok (p + 1, st, out)
        else
          obind (usub p c) (\<lambda>offset.
          if \<not> (min_offset < offset \<and> offset \<le> win) then Ok (p + 1, st, out)
          else
            obind (common_bytes data c p (e - p) 0) (\<lambda>ml.
            if LDM_MIN_MATCH \<le> ml then Ok (p + ml, st, out @ [\<lparr>ld_pos = p, ld_len = ml, ld_offset = as_u32 offset\<rparr>])
            else Ok (p + 1, st, out)))))))"

definition ldm_generate ::
  "byte list \<Rightarrow> nat \<Rightarrow> nat \<Rightarrow> nat \<Rightarrow> nat \<Rightarrow> ldm_state \<Rightarrow> (ldm_state \<times> ldm_seq list) result" where
  "ldm_generate data start e min_offset win st =
     (if e < 8 then Ok (st, [])
      else
        obind (usub e start) (\<lambda>n.
        if n < LDM_MIN_MATCH then Ok (st, [])
        else scan (ldm_step data e min_offset win) (e - 8) start (st, [])))"

section \<open>The parse with long matches\<close>

text \<open>The gap before a long match; its trailing literals are those of the match.\<close>

definition ldm_gap ::
  "byte list \<Rightarrow> nat \<Rightarrow> nat \<Rightarrow> nat \<Rightarrow> finder \<times> lz_out \<Rightarrow> (nat \<times> finder \<times> lz_out) result" where
  "ldm_gap data cursor pos max_offset s =
     (let (finder, seqs, literals, rep) = s in
      if cursor < pos then
        obind (finder_parse finder data cursor pos max_offset rep) (\<lambda>(gap, finder).
        obind (usub (length (pa_literals gap)) (sum_list (map sq_lit_len (pa_seqs gap)))) (\<lambda>trailing.
        Ok (trailing, finder, seqs @ pa_seqs gap, literals @ pa_literals gap, pa_rep gap)))
      else Ok (0, s))"

fun ldm_fill ::
  "byte list \<Rightarrow> nat \<Rightarrow> ldm_seq list \<Rightarrow> nat \<Rightarrow> finder \<times> lz_out \<Rightarrow> (nat \<times> finder \<times> lz_out) result" where
  "ldm_fill data max_offset [] cursor s = Ok (cursor, s)"
| "ldm_fill data max_offset (m # ms) cursor s =
     obind (ldm_gap data cursor (ld_pos m) max_offset s) (\<lambda>(ll, finder, seqs, literals, rep).
     let ll0 = (ll = 0) in
     obind (encode_offset rep (ld_offset m) ll0) (\<lambda>offset_value.
     obind (resolve_offset rep offset_value ll0) (\<lambda>(_, rep).
     ldm_fill data max_offset ms (ld_pos m + ld_len m)
       (finder, seqs @ [\<lparr>sq_lit_len = as_u32 ll, sq_match_len = as_u32 (ld_len m), sq_offset_value = offset_value\<rparr>], literals, rep))))"

definition parse_with_ldm ::
  "finder \<Rightarrow> byte list \<Rightarrow> nat \<Rightarrow> nat \<Rightarrow> nat \<Rightarrow> rep_offsets \<Rightarrow> ldm_seq list \<Rightarrow> (lz_out \<times> finder) result" where
  "parse_with_ldm finder data start e max_offset rep ldm =
     obind (ldm_fill data max_offset ldm start (finder, [], [], rep)) (\<lambda>(cursor, finder, seqs, literals, rep).
     if cursor < e then
       obind (finder_parse finder data cursor e max_offset rep) (\<lambda>(t, finder).
       Ok ((seqs @ pa_seqs t, literals @ pa_literals t, pa_rep t), finder))
     else Ok ((seqs, literals, rep), finder))"

section \<open>The index finds matches of the data\<close>

definition ldm_inv :: "nat \<Rightarrow> ldm_state \<Rightarrow> bool" where
  "ldm_inv p st \<longleftrightarrow> ld_hash_log st \<le> 59 \<and> length (ld_table st) = 2 ^ ld_hash_log st \<and> earlier p (ld_table st)"

lemma ldm_inv_mono: "ldm_inv p st \<Longrightarrow> p \<le> q \<Longrightarrow> ldm_inv q st"
  by (auto simp: ldm_inv_def intro: earlier_mono)

lemma ldm_inv_new: "ldm_inv p (ldm_state_new window_log)"
  using clamp_to_le [of 10 24 "window_log - 4"] by (simp add: ldm_inv_def ldm_state_new_def Let_def earlier_new)

lemma ldm_inv_reduce: "ldm_inv p st \<Longrightarrow> n \<le> p \<Longrightarrow> ldm_inv (p - n) (ldm_reduce n st)"
  using earlier_reduce [of p "ld_table st" n]
  by (simp add: ldm_inv_def ldm_reduce_def reduce_index_table_def reduce_index_entry_def [abs_def])

text \<open>Matches from \<open>cursor\<close> on, in order, without overlap, that end at \<open>p\<close> or before.\<close>

fun ldm_run :: "byte list \<Rightarrow> nat \<Rightarrow> nat \<Rightarrow> nat \<Rightarrow> ldm_seq list \<Rightarrow> nat \<Rightarrow> bool" where
  "ldm_run data W e cursor [] p \<longleftrightarrow> cursor \<le> p"
| "ldm_run data W e cursor (m # ms) p \<longleftrightarrow> cursor \<le> ld_pos m \<and> LDM_MIN_MATCH \<le> ld_len m
     \<and> is_match data e (ld_pos m) (ld_len m) (ld_offset m) \<and> ld_offset m \<le> W \<and> ldm_run data W e (ld_pos m + ld_len m) ms p"

lemma ldm_run_mono: "ldm_run data W e cursor ms p \<Longrightarrow> p \<le> q \<Longrightarrow> ldm_run data W e cursor ms q"
  by (induction ms arbitrary: cursor) auto

lemma ldm_run_snoc:
  "ldm_run data W e cursor ms (ld_pos m) \<Longrightarrow> LDM_MIN_MATCH \<le> ld_len m \<Longrightarrow> is_match data e (ld_pos m) (ld_len m) (ld_offset m)
     \<Longrightarrow> ld_offset m \<le> W \<Longrightarrow> ldm_run data W e cursor (ms @ [m]) (ld_pos m + ld_len m)"
  by (induction ms arbitrary: cursor) auto

definition ldm_scanning :: "byte list \<Rightarrow> nat \<Rightarrow> nat \<Rightarrow> nat \<Rightarrow> nat \<Rightarrow> ldm_state \<times> ldm_seq list \<Rightarrow> bool" where
  "ldm_scanning data W start e p s \<longleftrightarrow> ldm_inv p (fst s) \<and> p \<le> e \<and> ldm_run data W e start (snd s) p"

lemma ldm_step_Ok:
  assumes s: "ldm_scanning data W start e p s" and p: "p + 8 \<le> e" "e \<le> length data" and W: "W < 2 ^ 32"
  shows "\<exists>p' s'. ldm_step data e min_offset W p s = Ok (p', s') \<and> p < p' \<and> ldm_scanning data W start e p' s'"
proof -
  obtain st out where eq: "s = (st, out)" by (cases s)
  have st: "ldm_inv p st" "ldm_run data W e start out p" using s by (simp_all add: ldm_scanning_def eq)
  have skip: "ldm_scanning data W start e (p + 1) (st', out)" if "ldm_inv (Suc p) st'" for st'
    using that st(2) p(1) ldm_run_mono [OF st(2), of "p + 1"] by (simp add: ldm_scanning_def)
  have "p + 8 \<le> length data" using p by simp
  then obtain h where h: "ldm_hash data p = Ok h" by (auto simp: ldm_hash_def read_u64_Ok)
  note run = ldm_step_def eq Let_def prod.case h obind_simps
  show ?thesis
  proof (cases "drop_bit (64 - ld_hash_log st - LDM_HASH_RATE_LOG) h AND (push_bit LDM_HASH_RATE_LOG 1 - 1) \<noteq> 0")
    case True
    then show ?thesis using skip [OF ldm_inv_mono [OF st(1), of "Suc p"]] unfolding run by (simp del: split_paired_Ex)
  next
    case gate: False
    define slot where "slot = unat (drop_bit (64 - ld_hash_log st) h)"
    have slot: "slot < length (ld_table st)" using st(1) unat_drop_bit_less [of "ld_hash_log st" h] by (simp add: slot_def ldm_inv_def)
    define cand where "cand = ld_table st ! slot"
    have cand: "cand < int p" using st(1) slot by (simp add: cand_def ldm_inv_def earlier_def)
    define st1 where "st1 = st\<lparr>ld_table := (ld_table st)[slot := as_i32 p]\<rparr>"
    have st1: "ldm_inv (Suc p) st1" using st(1) by (auto simp: st1_def ldm_inv_def intro: earlier_update)
    note run2 = run if_not_P [OF gate] slot_def [symmetric] idx_Ok [OF slot] upd_Ok [OF slot] cand_def [symmetric] st1_def [symmetric]
    show ?thesis
    proof (cases "cand < 0 \<or> \<not> (min_offset < p - nat cand \<and> p - nat cand \<le> W)")
      case True
      have "usub p (nat cand) = (Ok (p - nat cand) :: nat result)" using cand by (intro usub_Ok) linarith
      then show ?thesis using True skip [OF st1] unfolding run2 by (cases "cand < 0") (auto simp del: split_paired_Ex)
    next
      case False
      define c where "c = nat cand"
      have c: "c < p" "c \<le> p" "p - c \<le> W" "min_offset < p - c" "\<not> cand < 0" using cand False by (simp_all add: c_def nat_less_iff)
      have "p + (e - p) \<le> length data" using p by simp
      from common_bytes_spec [OF this c(2), of 0] obtain ml where
        ml: "common_bytes data c p (e - p) 0 = Ok ml" "ml \<le> e - p" "agree_upto data c p ml" by (auto simp: agree_upto_def)
      have off: "as_u32 (p - c) = p - c" using c(3) W by (simp add: as_u32_small)
      show ?thesis
      proof (cases "LDM_MIN_MATCH \<le> ml")
        case True
        let ?m = "\<lparr>ld_pos = p, ld_len = ml, ld_offset = p - c\<rparr>"
        have "p + ml \<le> e" "1 \<le> p - c" using ml(2) p(1) c(1) by linarith+
        then have m: "is_match data e p ml (p - c)" "0 < ml" using c(1) ml True by (simp_all add: is_match_def LDM_MIN_MATCH_def)
        have "ldm_run data W e start (out @ [?m]) (p + ml)"
          using ldm_run_snoc [of data W e start out ?m] st(2) True m(1) c(3) by simp
        moreover have "ldm_inv (p + ml) st1" using st1 ldm_inv_mono m(2) by auto
        ultimately show ?thesis using True c ml m(2) p off unfolding run2 c_def [symmetric] by (simp add: ldm_scanning_def)
      next
        case no: False
        then show ?thesis using skip [OF st1] c ml(1) unfolding run2 c_def [symmetric] by (simp del: split_paired_Ex)
      qed
    qed
  qed
qed

lemma ldm_generate_Ok:
  assumes st: "ldm_inv start st" and e: "start \<le> e" "e \<le> length data" and W: "W < 2 ^ 32"
  shows "\<exists>st' ms. ldm_generate data start e min_offset W st = Ok (st', ms) \<and> ldm_inv e st' \<and> ldm_run data W e start ms e"
proof (cases "e < 8 \<or> e - start < LDM_MIN_MATCH")
  case True
  then show ?thesis using e(1) ldm_inv_mono [OF st e(1)] by (auto simp: ldm_generate_def)
next
  case False
  have "ldm_scanning data W start e start (st, [])" using st e(1) by (simp add: ldm_scanning_def)
  from scan_Ok [where P = "ldm_scanning data W start e" and f = "ldm_step data e min_offset W" and lim = "e - 8", OF this]
  obtain p st' ms where "scan (ldm_step data e min_offset W) (e - 8) start (st, []) = Ok (st', ms)" "ldm_scanning data W start e p (st', ms)"
    using ldm_step_Ok [OF _ _ e(2) W] False by fastforce
  then show ?thesis using False e(1) ldm_inv_mono [of p st' e] ldm_run_mono [of data W e start ms p e]
    by (auto simp: ldm_generate_def ldm_scanning_def)
qed

section \<open>The combined parse describes the block\<close>

lemma parsed_to_append:
  assumes a: "parsed_to data W start rep0 c (s1, l1, r1)" and b: "parsed_to data W c r1 p (s2, l2, r2)" and p: "p \<le> length data"
  shows "parsed_to data W start rep0 p (s1 @ s2, l1 @ l2, r2)"
proof -
  have A: "start \<le> c" "length l1 = sum_list (map sq_lit_len s1)" "\<forall>s \<in> set s1. seq_valid s"
    "lz_run (map raw_of s1) (c - start) l1 (take start data) (rep_list rep0) = Some (take c data, rep_list r1)"
    using a by (simp_all add: parsed_to_def)
  have B: "c \<le> p" "length l2 = sum_list (map sq_lit_len s2)" "\<forall>s \<in> set s2. seq_valid s"
    "lz_run (map raw_of s2) (p - c) l2 (take c data) (rep_list r1) = Some (take p data, rep_list r2)" "rep_within W r2"
    using b by (simp_all add: parsed_to_def)
  have len: "length (take c data) - length (take start data) = c - start" using A(1) B(1) p by simp
  have "lz_run (map raw_of s1 @ map raw_of s2) (p - start) (l1 @ l2) (take start data) (rep_list rep0)
      = lz_run (map raw_of s2) (p - start - (c - start)) l2 (take c data) (rep_list r1)"
    using lz_run_append [OF A(4,2), of "p - start" "map raw_of s2" l2] len B(1) by simp
  also have "p - start - (c - start) = p - c" using A(1) B(1) by simp
  finally show ?thesis using A B by (auto simp: parsed_to_def)
qed

text \<open>A parse, cut behind its last match.\<close>

lemma describes_parsed_to:
  assumes d: "describes seqs lits rep (take c data) (take (p - c) (drop c data)) rep'" and w: "rep_within W rep'"
    and p: "c \<le> p" "p \<le> length data"
  shows "\<exists>a. c \<le> a \<and> a \<le> p \<and> length lits - sum_list (map sq_lit_len seqs) = p - a \<and> sum_list (map sq_lit_len seqs) \<le> length lits
    \<and> parsed_to data W c rep a (seqs, take (sum_list (map sq_lit_len seqs)) lits, rep')
    \<and> drop (sum_list (map sq_lit_len seqs)) lits = take (p - a) (drop a data)"
proof -
  let ?n = "sum_list (map sq_lit_len seqs)" and ?ys = "take (p - c) (drop c data)"
  have run: "lz_run (map raw_of (seqs @ [])) (length ?ys) lits (take c data) (rep_list rep) = Some (take c data @ ?ys, rep_list rep')"
    and valid: "\<forall>s \<in> set seqs. seq_valid s" using d by (simp_all add: describes_def)
  from lz_run_split [OF run valid refl] obtain ya rep1 room' where
    n: "?n \<le> length lits" and r1: "lz_run (map raw_of seqs) (length ?ys) (take ?n lits) (take c data) (rep_list rep) = Some (take c data @ ya, rep_list rep1)"
    and r2: "lz_run [] room' (drop ?n lits) (take c data @ ya) (rep_list rep1) = Some (take c data @ ?ys, rep_list rep')" by auto
  have eq: "?ys = ya @ drop ?n lits" "rep1 = rep'" using r2 by (auto dest: rep_list_inj split: if_splits)
  define a where "a = c + length ya"
  have ys: "length ?ys = p - c" using p by simp
  have len: "length ya + (length lits - ?n) = p - c" using arg_cong [OF eq(1), of length] ys by simp
  have a: "c \<le> a" "a \<le> p" "length lits - ?n = p - a" using len p by (simp_all add: a_def)
  have ya: "ya = take (a - c) (drop c data)" "drop ?n lits = take (p - a) (drop a data)"
  proof -
    have "ya = take (length ya) ?ys" "drop ?n lits = drop (length ya) ?ys" by (simp_all add: eq(1))
    then show "ya = take (a - c) (drop c data)" "drop ?n lits = take (p - a) (drop a data)"
      using a(2) by (simp_all add: a_def drop_take add.commute min_absorb1)
  qed
  have "take c data @ ya = take a data" using ya(1) a(1) by (simp add: take_add [symmetric])
  moreover have "lz_run (map raw_of seqs) (a - c) (take ?n lits) (take c data) (rep_list rep) = Some (take c data @ ya, rep_list rep1)"
    by (rule lz_run_room [OF r1]) (simp add: a_def)
  ultimately have "parsed_to data W c rep a (seqs, take ?n lits, rep')"
    using a(1) n valid w eq(2) by (simp add: parsed_to_def)
  then show ?thesis using a n ya(2) by blast
qed

lemma ldm_gap_Ok:
  assumes f: "finder_inv rc rt data c f" and acc: "parsed_to data W start rep0 c (seqs, lits, rep)" and p: "c \<le> p" "p \<le> length data" "p - start \<le> BLOCK_SIZE_MAX"
    and R: "R \<le> W" "W + 3 < 2 ^ 32"
  shows "\<exists>f' seqs' pre rep' a. ldm_gap data c p R (f, seqs, lits, rep) = Ok (p - a, f', seqs', pre @ take (p - a) (drop a data), rep')
    \<and> a \<le> p \<and> parsed_to data W start rep0 a (seqs', pre, rep') \<and> finder_inv rc rt data p f'"
proof (cases "c < p")
  case True
  have r: "start \<le> c" "rep_within W rep" using acc by (simp_all add: parsed_to_def)
  have fit: "block_fits data W c p" using p R r(1) by (simp add: block_fits_def)
  obtain g f' where g: "finder_parse f data c p R rep = Ok (g, f')" "block_parsed data W c p rep g" "finder_inv rc rt data p f'"
    using finder_parse_Ok [OF f fit r(2) R(1)] by (auto simp: finder_parses_def)
  obtain gs gl gr ga where eq: "g = Parsed gs gl gr ga" by (cases g)
  have "describes gs gl rep (take c data) (take (p - c) (drop c data)) gr" "rep_within W gr"
    using g(2) by (simp_all add: block_parsed_def eq)
  from describes_parsed_to [OF this p(1,2)] obtain a where a: "c \<le> a" "a \<le> p"
    "length gl - sum_list (map sq_lit_len gs) = p - a" "sum_list (map sq_lit_len gs) \<le> length gl"
    "parsed_to data W c rep a (gs, take (sum_list (map sq_lit_len gs)) gl, gr)"
    "drop (sum_list (map sq_lit_len gs)) gl = take (p - a) (drop a data)" by blast
  let ?pre = "lits @ take (sum_list (map sq_lit_len gs)) gl"
  have "gl = take (sum_list (map sq_lit_len gs)) gl @ take (p - a) (drop a data)" using a(6) by (metis append_take_drop_id)
  then have "ldm_gap data c p R (f, seqs, lits, rep) = Ok (p - a, f', seqs @ gs, ?pre @ take (p - a) (drop a data), gr)"
    using True g(1) a(3,4) by (simp add: ldm_gap_def eq)
  moreover have "a \<le> length data" using a(2) p(2) by simp
  from parsed_to_append [OF acc a(5) this] have "parsed_to data W start rep0 a (seqs @ gs, ?pre, gr)" .
  ultimately show ?thesis using a(2) g(3) by blast
next
  case False
  then have "c = p" using p(1) by simp
  then show ?thesis using acc f False by (intro exI [of _ f] exI [of _ seqs] exI [of _ lits] exI [of _ rep] exI [of _ p]) (simp add: ldm_gap_def)
qed

lemma ldm_fill_Ok:
  assumes f: "finder_inv rc rt data c f" and acc: "parsed_to data W start rep0 c (seqs, lits, rep)" and ms: "ldm_run data W e c ms e"
    and e: "e \<le> length data" "e - start \<le> BLOCK_SIZE_MAX" and R: "R \<le> W" "W + 3 < 2 ^ 32"
  shows "\<exists>c' f' acc'. ldm_fill data R ms c (f, seqs, lits, rep) = Ok (c', f', acc') \<and> c' \<le> e \<and> finder_inv rc rt data c' f' \<and> parsed_to data W start rep0 c' acc'"
  using f acc ms
proof (induction ms arbitrary: c f seqs lits rep)
  case Nil
  then show ?case by simp
next
  case (Cons m ms)
  have m: "c \<le> ld_pos m" "64 \<le> ld_len m" "is_match data e (ld_pos m) (ld_len m) (ld_offset m)" "ld_offset m \<le> W"
    "ldm_run data W e (ld_pos m + ld_len m) ms e" using Cons.prems(3) by (simp_all add: LDM_MIN_MATCH_def)
  then have pe: "ld_pos m + ld_len m \<le> e" "1 \<le> ld_offset m" by (simp_all add: is_match_def)
  then have p: "ld_pos m \<le> length data" "ld_pos m - start \<le> BLOCK_SIZE_MAX" using e by simp_all
  obtain f' seqs' pre rep' a where gap: "ldm_gap data c (ld_pos m) R (f, seqs, lits, rep)
      = Ok (ld_pos m - a, f', seqs', pre @ take (ld_pos m - a) (drop a data), rep')"
    "a \<le> ld_pos m" "parsed_to data W start rep0 a (seqs', pre, rep')" "finder_inv rc rt data (ld_pos m) f'"
    using ldm_gap_Ok [OF Cons.prems(1,2) m(1) p R] by blast
  have "3 \<le> ld_len m" using m(2) by simp
  from push_seq_Ok [OF gap(3,2) m(3) this m(4) R(2) e] obtain acc' where
    push: "push_seq data a (ld_pos m) (ld_len m) (ld_offset m) (seqs', pre, rep') = Ok acc'" "parsed_to data W start rep0 (ld_pos m + ld_len m) acc'" by blast
  obtain ov rep1 where ov: "encode_offset rep' (ld_offset m) (ld_pos m - a = 0) = Ok ov"
    "resolve_offset rep' ov (ld_pos m - a = 0) = Ok (ld_offset m, rep1)" using encode_offset_spec [OF pe(2)] by blast
  have off: "as_u32 (ld_offset m) = ld_offset m" using m(4) R(2) by (simp add: as_u32_small)
  let ?s = "\<lparr>sq_lit_len = as_u32 (ld_pos m - a), sq_match_len = as_u32 (ld_len m), sq_offset_value = ov\<rparr>"
  have acc': "acc' = (seqs' @ [?s], pre @ take (ld_pos m - a) (drop a data), rep1)"
    using push(1) ov gap(2) p(1) off by (simp add: push_seq_def Let_def)
  have "finder_inv rc rt data (ld_pos m + ld_len m) f'" using finder_inv_mono [OF gap(4)] by simp
  from Cons.IH [OF this push(2) [unfolded acc'] m(5)] show ?case
    unfolding ldm_fill.simps gap(1) obind_simps prod.case Let_def ov .
qed

lemma parse_with_ldm_Ok:
  assumes f: "finder_inv rc rt data start f" and fit: "block_fits data W start e" and rep: "rep_within W rep" and R: "R \<le> W"
    and ms: "ldm_run data W e start ms e"
  shows "\<exists>seqs lits rep' f'. parse_with_ldm f data start e R rep ms = Ok ((seqs, lits, rep'), f') \<and> finder_inv rc rt data e f' \<and> rep_within W rep'
    \<and> describes seqs lits rep (take start data) (take (e - start) (drop start data)) rep'"
proof -
  have e: "start \<le> e" "e \<le> length data" "e - start \<le> BLOCK_SIZE_MAX" "W + 3 < 2 ^ 32" using fit by (simp_all add: block_fits_def)
  obtain c f1 seqs lits rep1 where fill: "ldm_fill data R ms start (f, [], [], rep) = Ok (c, f1, seqs, lits, rep1)"
    "c \<le> e" "finder_inv rc rt data c f1" "parsed_to data W start rep c (seqs, lits, rep1)"
    using ldm_fill_Ok [OF f parsed_to_start [OF rep, of data start] ms e(2,3) R e(4)] by force
  show ?thesis
  proof (cases "c < e")
    case True
    have p: "start \<le> c" "rep_within W rep1" using fill(4) by (simp_all add: parsed_to_def)
    have "block_fits data W c e" using fill(2) e p(1) by (simp add: block_fits_def)
    from finder_parse_Ok [OF fill(3) this p(2) R] obtain t f2 where
      t: "finder_parse f1 data c e R rep1 = Ok (t, f2)" "block_parsed data W c e rep1 t" "finder_inv rc rt data e f2" by (auto simp: finder_parses_def)
    obtain ts tl tr ta where eq: "t = Parsed ts tl tr ta" by (cases t)
    have td: "describes ts tl rep1 (take c data) (take (e - c) (drop c data)) tr" "rep_within W tr"
      using t(2) by (simp_all add: block_parsed_def eq)
    from describes_parsed_to [OF td fill(2) e(2)] obtain a where a: "c \<le> a" "a \<le> e"
      "parsed_to data W c rep1 a (ts, take (sum_list (map sq_lit_len ts)) tl, tr)"
      "drop (sum_list (map sq_lit_len ts)) tl = take (e - a) (drop a data)" by blast
    have "a \<le> length data" using a(2) e(2) by simp
    from parsed_to_append [OF fill(4) a(3) this]
    have pt: "parsed_to data W start rep a (seqs @ ts, lits @ take (sum_list (map sq_lit_len ts)) tl, tr)" .
    have "tl = take (sum_list (map sq_lit_len ts)) tl @ take (e - a) (drop a data)" using a(4) by (metis append_take_drop_id)
    then have "push_tail data a e (seqs @ ts, lits @ take (sum_list (map sq_lit_len ts)) tl, tr) = Ok (seqs @ ts, lits @ tl, tr)"
      using a(2) e(2) by (simp add: push_tail_def)
    then have "describes (seqs @ ts) (lits @ tl) rep (take start data) (take (e - start) (drop start data)) tr"
      using push_tail_Ok [OF pt a(2) e(2,3)] by auto
    then show ?thesis using True fill(1) t(1,3) td(2) by (simp add: parse_with_ldm_def eq)
  next
    case False
    then have ce: "c = e" using fill(2) by simp
    have "push_tail data e e (seqs, lits, rep1) = Ok (seqs, lits, rep1)" using e(2) by (simp add: push_tail_def)
    then have "describes seqs lits rep (take start data) (take (e - start) (drop start data)) rep1" "rep_within W rep1"
      using push_tail_Ok [OF fill(4) fill(2) e(2,3)] ce by auto
    then show ?thesis using False fill(1,3) ce by (simp add: parse_with_ldm_def)
  qed
qed

end
