(* ===== verification/Frame_Encode.thy ===== *)
theory Frame_Encode
  imports Ldm
begin

text \<open>
  \<^verbatim>\<open>src/encode/frame.rs\<close>: whole frames. Each block of 128 KiB is written compressed when that is
  smaller than storing it, and the encoder's state moves on only then; the repeat offsets, the tables and
  the match finder persist across the blocks. The contract of a block writer is the locale
  \<open>block_writer\<close>; from it follows that the blocks of a frame decode to the data, for the regular blocks,
  those with long matches, and those primed with a dictionary.
\<close>

section \<open>One block\<close>

text \<open>The finder moves on even when the emission fails, so the outcome of the emission is a value of its own.\<close>

definition write_compressed_block ::
  "bool \<Rightarrow> byte list \<Rightarrow> nat \<Rightarrow> nat \<Rightarrow> finder \<Rightarrow> nat \<Rightarrow> enc_state \<Rightarrow> nat \<Rightarrow> ((byte list \<times> enc_state) result \<times> finder) result" where
  "write_compressed_block lst data start e finder max_offset state depth =
     obind (finder_parse finder data start e max_offset (es_rep state)) (\<lambda>(parsed, finder).
     Ok (emit_and_pick lst parsed (es_seq state) (es_lit state) depth, finder))"

definition write_compressed_block_ldm ::
  "bool \<Rightarrow> byte list \<Rightarrow> nat \<Rightarrow> nat \<Rightarrow> finder \<Rightarrow> nat \<Rightarrow> enc_state \<Rightarrow> nat \<Rightarrow> ldm_seq list
     \<Rightarrow> ((byte list \<times> enc_state) result \<times> finder) result" where
  "write_compressed_block_ldm lst data start e finder max_offset state depth ldm =
     obind (parse_with_ldm finder data start e max_offset (es_rep state) ldm) (\<lambda>((seqs, literals, rep), finder).
     Ok (obind (emit_split lst seqs literals (es_seq state) (es_lit state) depth) (\<lambda>(bytes, seq, lit).
         Ok (bytes, \<lparr>es_rep = rep, es_seq = seq, es_lit = lit\<rparr>)), finder))"

text \<open>The stored block, unless the compressed one was written and is smaller.\<close>

fun keep_smaller :: "byte list \<Rightarrow> enc_state \<Rightarrow> (byte list \<times> enc_state) result \<Rightarrow> (byte list \<times> enc_state) result" where
  "keep_smaller store state (Ok (cmp, nxt)) = Ok (if length cmp < length store then (cmp, nxt) else (store, state))"
| "keep_smaller store state (Err _) = Ok (store, state)"
| "keep_smaller store state Panic = Panic"
| "keep_smaller store state Hang = Hang"

text \<open>The block \<open>start..e\<close> of the input \<open>data\<close>, which lies in \<open>buffer\<close> from \<open>base\<close> on.\<close>

definition regular_block ::
  "byte list \<Rightarrow> byte list \<Rightarrow> nat \<Rightarrow> nat \<Rightarrow> nat \<Rightarrow> nat \<Rightarrow> nat \<Rightarrow> bool \<Rightarrow> enc_state \<times> finder
     \<Rightarrow> (byte list \<times> enc_state \<times> finder) result" where
  "regular_block data buffer base max_offset depth start e lst s =
     (let (state, finder) = s in
      obind (slice_range data start e) (\<lambda>chunk.
      obind (write_compressed_block lst buffer (base + start) (base + e) finder max_offset state depth) (\<lambda>(m, finder).
      obind (keep_smaller (write_store_block lst chunk) state m) (\<lambda>(bytes, state).
      Ok (bytes, state, finder)))))"

definition long_block ::
  "byte list \<Rightarrow> nat \<Rightarrow> nat \<Rightarrow> nat \<Rightarrow> nat \<Rightarrow> nat \<Rightarrow> bool \<Rightarrow> enc_state \<times> finder \<times> ldm_state
     \<Rightarrow> (byte list \<times> enc_state \<times> finder \<times> ldm_state) result" where
  "long_block data regular_reach max_offset depth start e lst s =
     (let (state, finder, ldm) = s in
      obind (slice_range data start e) (\<lambda>chunk.
      obind (ldm_generate data start e regular_reach max_offset ldm) (\<lambda>(ldm, matches).
      obind (write_compressed_block_ldm lst data start e finder regular_reach state depth matches) (\<lambda>(m, finder).
      obind (keep_smaller (write_store_block lst chunk) state m) (\<lambda>(bytes, state).
      Ok (bytes, state, finder, ldm))))))"

text \<open>The loop over the blocks of an input of \<open>n\<close> bytes.\<close>

function block_loop :: "(nat \<Rightarrow> nat \<Rightarrow> bool \<Rightarrow> 's \<Rightarrow> (byte list \<times> 's) result) \<Rightarrow> nat \<Rightarrow> nat \<Rightarrow> 's \<Rightarrow> byte list result" where
  "block_loop block n start s =
     (if start < n then
        let e = min (start + BLOCK_SIZE_MAX) n in
        obind (block start e (e = n) s) (\<lambda>(bytes, s).
        obind (block_loop block n e s) (\<lambda>rest.
        Ok (bytes @ rest)))
      else Ok [])"
  by pat_completeness auto
termination by (relation "measure (\<lambda>(block, n, start, s). n - start)") (auto simp: BLOCK_SIZE_MAX_def)

declare block_loop.simps [simp del]

section \<open>Frames\<close>

text \<open>What surrounds the blocks.\<close>

definition frame_around :: "byte list \<Rightarrow> bool \<Rightarrow> bool \<Rightarrow> nat \<Rightarrow> u32 \<Rightarrow> byte list result \<Rightarrow> byte list result" where
  "frame_around data checksum expect_magic window_log dict_id blocks =
     obind (write_frame_header (length data) checksum window_log dict_id) (\<lambda>header.
     obind (if data = [] then Ok (write_raw_block True []) else blocks) (\<lambda>body.
     Ok ((if expect_magic then le_bytes 4 (unat ZSTD_MAGIC) else []) @ header @ body @ content_checksum data checksum)))"

definition fresh_state :: enc_state where
  "fresh_state = \<lparr>es_rep = (1, 4, 8), es_seq = default_seq_ctables, es_lit = None\<rparr>"

definition compress_with_params :: "byte list \<Rightarrow> cparams \<Rightarrow> bool \<Rightarrow> bool \<Rightarrow> byte list result" where
  "compress_with_params data params checksum expect_magic =
     (let max_offset = 2 ^ cp_window_log params; split_depth = split_depth_for (cp_strategy params) in
      frame_around data checksum expect_magic (cp_window_log params) 0
        (block_loop (regular_block data data 0 max_offset split_depth) (length data) 0 (fresh_state, finder_new params)))"

definition compress :: "byte list \<Rightarrow> int \<Rightarrow> bool \<Rightarrow> bool \<Rightarrow> byte list result" where
  "compress data level checksum expect_magic =
     compress_with_params data (params_for_level level (length data)) checksum expect_magic"

definition compress_long_with_params :: "byte list \<Rightarrow> cparams \<Rightarrow> nat \<Rightarrow> bool \<Rightarrow> bool \<Rightarrow> byte list result" where
  "compress_long_with_params data params regular_reach checksum expect_magic =
     (let max_offset = 2 ^ cp_window_log params; split_depth = split_depth_for (cp_strategy params) in
      frame_around data checksum expect_magic (cp_window_log params) 0
        (block_loop (long_block data regular_reach max_offset split_depth) (length data) 0
           (fresh_state, finder_new params, ldm_state_new (cp_window_log params))))"

definition compress_long :: "byte list \<Rightarrow> int \<Rightarrow> bool \<Rightarrow> bool \<Rightarrow> byte list result" where
  "compress_long data level checksum expect_magic =
     (let params = params_for_level_ldm level (length data);
          regular_reach = 2 ^ cp_window_log (params_for_level level (length data)) in
      compress_long_with_params data params regular_reach checksum expect_magic)"

definition compress_with_options :: "byte list \<Rightarrow> compress_options \<Rightarrow> byte list result" where
  "compress_with_options data opts =
     (let params = options_resolve opts (length data) in
      if co_long_distance opts then
        let level_reach = 2 ^ cp_window_log (params_for_level (co_level opts) (length data));
            regular_reach = min level_reach (2 ^ cp_window_log params) in
        compress_long_with_params data params regular_reach (co_checksum opts) (co_magic opts)
      else compress_with_params data params (co_checksum opts) (co_magic opts))"

text \<open>The tables of a structured dictionary, rebuilt for encoding; a Huffman table that has no
  code table is dropped.\<close>

definition dict_ctable :: "int list \<times> nat \<times> nat \<Rightarrow> fse_ctable result" where
  "dict_ctable nc = (let (counts, max_symbol, table_log) = nc in build_ctable counts max_symbol table_log)"

definition ok_or_none :: "'a result \<Rightarrow> 'a option result" where
  "ok_or_none m = (case m of Ok x \<Rightarrow> Ok (Some x) | Err _ \<Rightarrow> Ok None | Panic \<Rightarrow> Panic | Hang \<Rightarrow> Hang)"

definition dict_state :: "dictionary \<Rightarrow> enc_state result" where
  "dict_state dict =
     (case di_entropy dict of
        Some e \<Rightarrow>
          obind (dict_ctable (de_ll_nc e)) (\<lambda>ll.
          obind (dict_ctable (de_of_nc e)) (\<lambda>oft.
          obind (dict_ctable (de_ml_nc e)) (\<lambda>ml.
          obind (ok_or_none (code_table_from_huff (de_huff e))) (\<lambda>lit.
          Ok \<lparr>es_rep = de_rep e, es_seq = \<lparr>sc_ll = Some ll, sc_of = Some oft, sc_ml = Some ml\<rparr>, es_lit = lit\<rparr>))))
      | None \<Rightarrow> Ok fresh_state)"

definition compress_with_dict :: "byte list \<Rightarrow> dictionary \<Rightarrow> int \<Rightarrow> bool \<Rightarrow> bool \<Rightarrow> byte list result" where
  "compress_with_dict data dict level checksum expect_magic =
     (let content = di_content dict; dict_len = length content;
          params = params_for_level_with_dict level (length data) dict_len;
          max_offset = 2 ^ cp_window_log params; split_depth = split_depth_for (cp_strategy params);
          combined = content @ data in
      frame_around data checksum expect_magic (cp_window_log params) (di_id dict)
        (obind (dict_state dict) (\<lambda>state.
         obind (finder_prime (finder_new params) combined dict_len max_offset) (\<lambda>finder.
         block_loop (regular_block data combined dict_len max_offset split_depth) (length data) 0 (state, finder)))))"

section \<open>Huffman-coded literals only\<close>

text \<open>The first byte and the bytes seen so far.\<close>

fun distinct_scan :: "byte option \<Rightarrow> bool list \<Rightarrow> byte list \<Rightarrow> bool result" where
  "distinct_scan first seen [] = Ok False"
| "distinct_scan None seen (b # bs) = obind (upd seen (unat b) True) (\<lambda>seen. distinct_scan (Some b) seen bs)"
| "distinct_scan (Some f) seen (b # bs) =
     (if b \<noteq> f then
        obind (idx seen (unat b)) (\<lambda>old.
        if \<not> old then Ok True else distinct_scan (Some f) seen bs)
      else distinct_scan (Some f) seen bs)"

definition at_least_two_distinct :: "byte list \<Rightarrow> bool result" where
  "at_least_two_distinct chunk = distinct_scan None (replicate 256 False) chunk"

definition huffman_block :: "byte list \<Rightarrow> nat \<Rightarrow> nat \<Rightarrow> bool \<Rightarrow> unit \<Rightarrow> (byte list \<times> unit) result" where
  "huffman_block data start e lst s =
     obind (slice_range data start e) (\<lambda>chunk.
     let store = write_store_block lst chunk in
     obind (at_least_two_distinct chunk) (\<lambda>distinct.
     if distinct then
       obind (ok_or_none (write_huffman_literals_block lst chunk)) (\<lambda>huff.
       case huff of
         Some huff \<Rightarrow> Ok (if length huff < length store then huff else store, s)
       | None \<Rightarrow> Ok (store, s))
     else Ok (store, s)))"

definition compress_huffman_literals :: "byte list \<Rightarrow> bool \<Rightarrow> bool \<Rightarrow> byte list result" where
  "compress_huffman_literals data checksum expect_magic =
     frame_around data checksum expect_magic STORE_WINDOW_LOG 0
       (block_loop (huffman_block data) (length data) 0 ())"

section \<open>The contract of a block writer\<close>

text \<open>Bytes that a decoder in step with \<open>e\<close> reads as \<open>ys\<close>, behind the output \<open>out\<close>, and then is in step with \<open>e'\<close>.\<close>

definition writes :: "byte list \<Rightarrow> bool \<Rightarrow> enc_state \<Rightarrow> byte list \<Rightarrow> byte list \<Rightarrow> enc_state \<Rightarrow> bool" where
  "writes bytes lst e out ys e' \<longleftrightarrow> (\<forall>st. in_step e st \<longrightarrow> bs_out st = out \<longrightarrow> fits st (length ys)
     \<longrightarrow> bs_block_max st \<le> BLOCK_SIZE_MAX \<longrightarrow> emits bytes lst st ys e')"

lemma writesD:
  "writes bytes lst e out ys e' \<Longrightarrow> in_step e st \<Longrightarrow> bs_out st = out \<Longrightarrow> fits st (length ys) \<Longrightarrow> bs_block_max st \<le> BLOCK_SIZE_MAX
     \<Longrightarrow> emits bytes lst st ys e'"
  by (simp add: writes_def)

text \<open>The decoder has room for \<open>n\<close> more bytes, in blocks of at most 128 KiB.\<close>

definition block_room :: "block_state \<Rightarrow> nat \<Rightarrow> bool" where
  "block_room st n \<longleftrightarrow> min n BLOCK_SIZE_MAX \<le> bs_block_max st \<and> bs_block_max st \<le> BLOCK_SIZE_MAX
     \<and> bs_dict_len st \<le> length (bs_out st) \<and> length (bs_out st) - bs_dict_len st + n \<le> bs_max_output st \<and> bs_max_output st \<le> usize_max"

lemma block_room_fits: "block_room st n \<Longrightarrow> m \<le> n \<Longrightarrow> m \<le> BLOCK_SIZE_MAX \<Longrightarrow> fits st m"
  by (auto simp: block_room_def fits_def)

lemma block_room_after: "block_room st n \<Longrightarrow> decoded st ys e st' \<Longrightarrow> length ys \<le> n \<Longrightarrow> block_room st' (n - length ys)"
  by (auto simp: block_room_def decoded_def)

definition frame_blocks :: "byte list \<Rightarrow> enc_state \<Rightarrow> byte list \<Rightarrow> byte list \<Rightarrow> bool" where
  "frame_blocks bytes e out ys \<longleftrightarrow> (\<forall>src pos rest st. drop pos src = bytes @ rest \<longrightarrow> length src \<le> usize_max \<longrightarrow> in_step e st
     \<longrightarrow> bs_out st = out \<longrightarrow> block_room st (length ys) \<longrightarrow> (\<exists>st'. decode_blocks src st pos = Ok (st', pos + length bytes)
          \<and> bs_out st' = out @ ys \<and> bs_dict_len st' = bs_dict_len st))"

lemma frame_blocksD:
  "frame_blocks bytes e out ys \<Longrightarrow> drop pos src = bytes @ rest \<Longrightarrow> length src \<le> usize_max \<Longrightarrow> in_step e st \<Longrightarrow> bs_out st = out
     \<Longrightarrow> block_room st (length ys) \<Longrightarrow> \<exists>st'. decode_blocks src st pos = Ok (st', pos + length bytes) \<and> bs_out st' = out @ ys \<and> bs_dict_len st' = bs_dict_len st"
  unfolding frame_blocks_def by blast

text \<open>The last block ends the blocks of a frame; a block before it goes in front of them.\<close>

lemma last_block_ends:
  assumes w: "writes bytes True e out ys e'" and len: "length bytes \<le> 3 + length ys" "length ys \<le> BLOCK_SIZE_MAX"
  shows "frame_blocks bytes e out ys"
  unfolding frame_blocks_def
proof (intro allI impI)
  fix src pos rest st
  assume h: "drop pos src = bytes @ rest" "length src \<le> usize_max" "in_step e st" "bs_out st = out" "block_room st (length ys)"
  have b: "length bytes \<le> 3 + bs_block_max st" "bs_block_max st \<le> BLOCK_SIZE_MAX" using h(5) len by (auto simp: block_room_def)
  have "emits bytes True st ys e'" using writesD [OF w h(3,4) block_room_fits [OF h(5) order.refl len(2)] b(2)] .
  from emitsD [OF this h(1,2) b(1)] obtain st' where
    "blocks_run src st pos st' (pos + length bytes) True" "decoded st ys e' st'" by blast
  then show "\<exists>st'. decode_blocks src st pos = Ok (st', pos + length bytes) \<and> bs_out st' = out @ ys \<and> bs_dict_len st' = bs_dict_len st"
    using blocks_run_decodes h(4) by (auto simp: decoded_def)
qed

lemma decode_blocks_run:
  "blocks_run src st pos st1 pos1 lst \<Longrightarrow> \<not> lst \<Longrightarrow> decode_blocks src st pos = decode_blocks src st1 pos1"
  by (induction rule: blocks_run.induct) (subst decode_blocks.simps, simp)+

lemma block_before:
  assumes w: "writes bytes False e out ys e1" and len: "length bytes \<le> 3 + length ys" "length ys \<le> BLOCK_SIZE_MAX"
    and more: "frame_blocks rest e1 (out @ ys) zs"
  shows "frame_blocks (bytes @ rest) e out (ys @ zs)"
  unfolding frame_blocks_def
proof (intro allI impI)
  fix src pos behind st
  assume h: "drop pos src = (bytes @ rest) @ behind" "length src \<le> usize_max" "in_step e st" "bs_out st = out" "block_room st (length (ys @ zs))"
  have b: "length bytes \<le> 3 + bs_block_max st" "bs_block_max st \<le> BLOCK_SIZE_MAX" using h(5) len by (auto simp: block_room_def)
  have "fits st (length ys)" using block_room_fits [OF h(5), of "length ys"] len(2) by simp
  from writesD [OF w h(3,4) this b(2)] have em: "emits bytes False st ys e1" .
  obtain st1 where st1: "blocks_run src st pos st1 (pos + length bytes) False" "decoded st ys e1 st1"
    using emitsD [OF em, of pos src "rest @ behind"] h(1,2) b(1) by auto
  have d: "drop (pos + length bytes) src = rest @ behind" by (rule drop_behind) (use h(1) in simp)
  have s1: "in_step e1 st1" "bs_out st1 = out @ ys" "bs_dict_len st1 = bs_dict_len st" using st1(2) h(4) by (simp_all add: decoded_def)
  have "block_room st1 (length zs)" using block_room_after [OF h(5) st1(2)] by simp
  from frame_blocksD [OF more d h(2) s1(1,2) this] show
    "\<exists>st'. decode_blocks src st pos = Ok (st', pos + length (bytes @ rest)) \<and> bs_out st' = out @ (ys @ zs) \<and> bs_dict_len st' = bs_dict_len st"
    using decode_blocks_run [OF st1(1)] s1(3) by (simp add: add.assoc)
qed

locale block_writer =
  fixes data :: "byte list" and hist :: "byte list"
    and block :: "nat \<Rightarrow> nat \<Rightarrow> bool \<Rightarrow> 's \<Rightarrow> (byte list \<times> 's) result" and I :: "nat \<Rightarrow> 's \<Rightarrow> bool" and view :: "'s \<Rightarrow> enc_state"
  assumes block_law: "I start s \<Longrightarrow> start \<le> e \<Longrightarrow> e \<le> length data \<Longrightarrow> e - start \<le> BLOCK_SIZE_MAX \<Longrightarrow>
    \<exists>bytes s'. block start e lst s = Ok (bytes, s') \<and> I e s' \<and> length bytes \<le> 3 + (e - start)
      \<and> writes bytes lst (view s) (hist @ take start data) (take (e - start) (drop start data)) (view s')"
begin

lemma loop_decodes:
  assumes "I start s" and "start < length data"
  shows "\<exists>bytes. block_loop block (length data) start s = Ok bytes \<and> length bytes \<le> 4 * (length data - start)
    \<and> frame_blocks bytes (view s) (hist @ take start data) (drop start data)"
  using assms
proof (induction "length data - start" arbitrary: start s rule: less_induct)
  case less
  define e where "e = min (start + BLOCK_SIZE_MAX) (length data)"
  have e: "start \<le> e" "e \<le> length data" "e - start \<le> BLOCK_SIZE_MAX" "start < e" using less.prems(2) by (auto simp: e_def BLOCK_SIZE_MAX_def)
  let ?ys = "take (e - start) (drop start data)"
  have ys: "length ?ys = e - start" using e by simp
  obtain bytes s1 where b: "block start e (e = length data) s = Ok (bytes, s1)" "I e s1" "length bytes \<le> 3 + (e - start)"
    "writes bytes (e = length data) (view s) (hist @ take start data) ?ys (view s1)"
    using block_law [OF less.prems(1) e(1-3)] by blast
  have run: "block_loop block (length data) start s
      = obind (block_loop block (length data) e s1) (\<lambda>rest. Ok (bytes @ rest))"
    using less.prems(2) b(1) by (subst block_loop.simps) (simp add: e_def Let_def)
  show ?case
  proof (cases "e = length data")
    case True
    have "block_loop block (length data) e s1 = Ok []" by (subst block_loop.simps) (simp add: True)
    moreover have "frame_blocks bytes (view s) (hist @ take start data) ?ys"
      by (rule last_block_ends) (use b(3,4) True ys e(3) in auto)
    moreover have "?ys = drop start data" using True by simp
    ultimately show ?thesis using run b(3) e(4) True by auto
  next
    case False
    then have "e < length data" "length data - e < length data - start" using e by simp_all
    from less.hyps [OF this(2) b(2) this(1)] obtain rest where r: "block_loop block (length data) e s1 = Ok rest"
      "length rest \<le> 4 * (length data - e)" "frame_blocks rest (view s1) (hist @ take e data) (drop e data)" by blast
    have te: "hist @ take e data = (hist @ take start data) @ ?ys" "drop start data = ?ys @ drop e data"
      using e(1) by (simp_all add: take_add [symmetric]) (metis append_take_drop_id drop_drop le_add_diff_inverse2)
    have "frame_blocks (bytes @ rest) (view s) (hist @ take start data) (?ys @ drop e data)"
      by (rule block_before) (use b(3,4) False ys e(3) r(3) te(1) in auto)
    then show ?thesis using run r(1,2) te(2) b(3) e(2,4) by simp
  qed
qed

end

section \<open>The block writers of the encoder\<close>

lemma in_step_matched: "in_step e st \<Longrightarrow> matched (es_seq e) (es_lit e)"
  by (auto simp: in_step_def matched_def)

lemma matched_fresh: "matched (es_seq fresh_state) (es_lit fresh_state)"
  by (simp add: matched_def fresh_state_def seq_tables_match_default lit_match_def)

lemma rep_within_fresh: "8 \<le> W \<Longrightarrow> rep_within W (es_rep fresh_state)"
  by (simp add: rep_within_def fresh_state_def rep_list_def)

text \<open>A stored block leaves the state.\<close>

lemma store_writes:
  assumes "length ys \<le> BLOCK_SIZE_MAX"
  shows "writes (write_store_block lst ys) lst e out ys e"
  unfolding writes_def emits_def
proof (intro allI impI)
  fix st src pos rest
  assume st: "in_step e st" "fits st (length ys)" and src: "drop pos src = write_store_block lst ys @ rest" "length src \<le> usize_max"
  have "length ys < 2 ^ 21" using assms by (simp add: BLOCK_SIZE_MAX_def)
  from decode_store_block [OF src(1) st(2) this src(2)]
  have "blocks_run src st pos (st\<lparr>bs_out := bs_out st @ ys\<rparr>) (pos + length (write_store_block lst ys)) lst" by (rule blocks_run.one)
  moreover have "decoded st ys e (st\<lparr>bs_out := bs_out st @ ys\<rparr>)"
    using st(1) by (auto simp: decoded_def in_step_def block_inv_def)
  ultimately show "\<exists>st'. blocks_run src st pos st' (pos + length (write_store_block lst ys)) lst \<and> decoded st ys e st'" by blast
qed

lemma pick_alts_rep:
  "pick_alts lst seq lit depth alts best = Ok (bytes, e') \<Longrightarrow> es_rep e' \<in> insert (es_rep (snd best)) (pa_rep ` set alts)"
  by (induction alts arbitrary: best) (force simp: outcome_simps split: if_splits)+

lemma emit_and_pick_rep:
  "emit_and_pick lst p seq lit depth = Ok (bytes, e') \<Longrightarrow> es_rep e' \<in> insert (pa_rep p) (pa_rep ` set (pa_alts p))"
  by (auto simp: emit_and_pick_def outcome_simps dest: pick_alts_rep)

text \<open>Where the emission writes the block, so does the smaller of it and the stored block.\<close>

definition block_emitted ::
  "byte list \<Rightarrow> bool \<Rightarrow> nat \<Rightarrow> enc_state \<Rightarrow> byte list \<Rightarrow> (byte list \<times> enc_state) result \<Rightarrow> bool" where
  "block_emitted ys lst W e out m \<longleftrightarrow> (\<exists>bytes e'. m = Ok (bytes, e') \<and> writes bytes lst e out ys e' \<and> rep_within W (es_rep e') \<and> matched (es_seq e') (es_lit e'))"

lemma keep_smaller_emitted:
  assumes "block_emitted ys lst W e out m" and "rep_within W (es_rep e)" and "matched (es_seq e) (es_lit e)" and "length ys \<le> BLOCK_SIZE_MAX"
  shows "\<exists>bytes e'. keep_smaller (write_store_block lst ys) e m = Ok (bytes, e') \<and> length bytes \<le> 3 + length ys
    \<and> writes bytes lst e out ys e' \<and> rep_within W (es_rep e') \<and> matched (es_seq e') (es_lit e')"
  using assms store_writes [OF assms(4), of lst e out] length_write_store_block [of lst ys] by (auto simp: block_emitted_def)

lemma emission_writes: "emission (Ok (bytes, es_seq e', es_lit e')) lst e out ys (es_rep e') \<Longrightarrow> writes bytes lst e out ys e' \<and> matched (es_seq e') (es_lit e')"
  by (cases e') (auto simp: emission_def writes_def)

text \<open>A longer history does not matter to what sequences describe: an encoder that keeps only the end of what it has
  written writes the same blocks.\<close>

lemma describes_history: "describes seqs lits rep out ys rep' \<Longrightarrow> describes seqs lits rep (pre @ out) ys rep'"
  using lz_run_history [of "map raw_of seqs" "length ys" lits out "rep_list rep" ys "rep_list rep'" "length ys" pre] by (simp add: describes_def)

lemma parse_ok_history: "parse_ok rep out ys p \<Longrightarrow> parse_ok rep (pre @ out) ys p"
  using describes_history by (cases p) simp

lemma write_compressed_block_Ok:
  assumes f: "finder_inv rc rt data start f" and fit: "block_fits data W start e" and rep: "rep_within W (es_rep es)" and R: "R \<le> W"
    and m: "matched (es_seq es) (es_lit es)"
  shows "\<exists>m f'. write_compressed_block lst data start e f R es depth = Ok (m, f') \<and> finder_inv rc rt data e f'
    \<and> block_emitted (take (e - start) (drop start data)) lst W es (pre @ take start data) m"
proof -
  obtain p f' where p: "finder_parse f data start e R (es_rep es) = Ok (p, f')" "block_parsed data W start e (es_rep es) p" "finder_inv rc rt data e f'"
    using finder_parse_Ok [OF f fit rep R] by (auto simp: finder_parses_def)
  have pk: "parse_ok (es_rep es) (pre @ take start data) (take (e - start) (drop start data)) p"
    "rep_within W (pa_rep p)" "\<forall>alt \<in> set (pa_alts p). rep_within W (pa_rep alt)"
    using p(2) parse_ok_history by (simp_all add: block_parsed_def)
  obtain bytes e' where em: "emit_and_pick lst p (es_seq es) (es_lit es) depth = Ok (bytes, e')"
    "emission (Ok (bytes, es_seq e', es_lit e')) lst es (pre @ take start data) (take (e - start) (drop start data)) (es_rep e')"
    using emit_and_pick_emission [OF pk(1) m] by blast
  have "rep_within W (es_rep e')" using emit_and_pick_rep [OF em(1)] pk(2,3) by auto
  then show ?thesis using p(1,3) em(1) emission_writes [OF em(2)] by (auto simp: write_compressed_block_def block_emitted_def)
qed

definition regular_inv :: "nat \<Rightarrow> nat \<Rightarrow> byte list \<Rightarrow> byte list \<Rightarrow> nat \<Rightarrow> byte list \<Rightarrow> nat \<Rightarrow> nat \<Rightarrow> nat \<Rightarrow> enc_state \<times> finder \<Rightarrow> bool" where
  "regular_inv rc rt data buffer base hist W R p s \<longleftrightarrow> buffer = hist @ data \<and> base = length hist \<and> R \<le> W \<and> W + 3 < 2 ^ 32
     \<and> finder_inv rc rt buffer (base + p) (snd s) \<and> rep_within W (es_rep (fst s)) \<and> matched (es_seq (fst s)) (es_lit (fst s))"

lemma regular_block_law:
  assumes I: "regular_inv rc rt data buffer base hist W R start s" and e: "start \<le> e" "e \<le> length data" "e - start \<le> BLOCK_SIZE_MAX"
  shows "\<exists>bytes s'. regular_block data buffer base R depth start e lst s = Ok (bytes, s') \<and> regular_inv rc rt data buffer base hist W R e s'
    \<and> length bytes \<le> 3 + (e - start) \<and> writes bytes lst (fst s) (pre @ hist @ take start data) (take (e - start) (drop start data)) (fst s')"
proof -
  obtain st f where s: "s = (st, f)" by (cases s)
  have i: "buffer = hist @ data" "base = length hist" "R \<le> W" "W + 3 < 2 ^ 32" "finder_inv rc rt buffer (base + start) f"
    "rep_within W (es_rep st)" "matched (es_seq st) (es_lit st)" using I unfolding regular_inv_def s fst_conv snd_conv by blast+
  let ?ys = "take (e - start) (drop start data)"
  have ys: "length ?ys = e - start" "length ?ys \<le> BLOCK_SIZE_MAX" "slice_range data start e = (Ok ?ys :: byte list result)" using e by simp_all
  have fit: "block_fits buffer W (base + start) (base + e)" using i e by (simp add: block_fits_def)
  from write_compressed_block_Ok [OF i(5) fit i(6,3,7), of lst depth pre]
  obtain m f' where w: "write_compressed_block lst buffer (base + start) (base + e) f R st depth = Ok (m, f')"
    "finder_inv rc rt buffer (base + e) f'" "block_emitted ?ys lst W st (pre @ hist @ take start data) m"
    using i(1,2) by auto
  from keep_smaller_emitted [OF w(3) i(6,7) ys(2)] obtain bytes st' where
    k: "keep_smaller (write_store_block lst ?ys) st m = Ok (bytes, st')" "length bytes \<le> 3 + length ?ys"
    "writes bytes lst st (pre @ hist @ take start data) ?ys st'" "rep_within W (es_rep st')" "matched (es_seq st') (es_lit st')" by blast
  have "regular_block data buffer base R depth start e lst s = Ok (bytes, st', f')"
    using ys(3) w(1) k(1) by (simp add: regular_block_def s)
  then show ?thesis using k(2-5) ys(1) i w(2) by (auto simp: regular_inv_def s)
qed

interpretation regular: block_writer data hist "regular_block data buffer base R depth" "regular_inv rc rt data buffer base hist W R" fst
  for data hist buffer base R depth W rc rt
  by unfold_locales (use regular_block_law [where pre = "[]"] in \<open>simp only: append_Nil\<close>)

definition long_inv :: "nat \<Rightarrow> nat \<Rightarrow> byte list \<Rightarrow> nat \<Rightarrow> nat \<Rightarrow> nat \<Rightarrow> enc_state \<times> finder \<times> ldm_state \<Rightarrow> bool" where
  "long_inv rc rt data W R p s \<longleftrightarrow> (let (st, f, ldm) = s in R \<le> W \<and> W + 3 < 2 ^ 32 \<and> finder_inv rc rt data p f \<and> ldm_inv p ldm
     \<and> rep_within W (es_rep st) \<and> matched (es_seq st) (es_lit st))"

lemma long_block_law:
  assumes I: "long_inv rc rt data W R start s" and e: "start \<le> e" "e \<le> length data" "e - start \<le> BLOCK_SIZE_MAX"
  shows "\<exists>bytes s'. long_block data R W depth start e lst s = Ok (bytes, s') \<and> long_inv rc rt data W R e s'
    \<and> length bytes \<le> 3 + (e - start) \<and> writes bytes lst (fst s) (pre @ take start data) (take (e - start) (drop start data)) (fst s')"
proof -
  obtain st f ldm where s: "s = (st, f, ldm)" by (cases s)
  have i: "R \<le> W" "W + 3 < 2 ^ 32" "finder_inv rc rt data start f" "ldm_inv start ldm"
    "rep_within W (es_rep st)" "matched (es_seq st) (es_lit st)" using I by (simp_all add: long_inv_def s)
  let ?ys = "take (e - start) (drop start data)"
  have ys: "length ?ys = e - start" "length ?ys \<le> BLOCK_SIZE_MAX" "slice_range data start e = (Ok ?ys :: byte list result)" using e by simp_all
  have fit: "block_fits data W start e" using i e by (simp add: block_fits_def)
  have "W < 2 ^ 32" using i(2) by simp
  from ldm_generate_Ok [OF i(4) e(1,2) this] obtain ldm' ms where
    g: "ldm_generate data start e R W ldm = Ok (ldm', ms)" "ldm_inv e ldm'" "ldm_run data W e start ms e" by blast
  from parse_with_ldm_Ok [OF i(3) fit i(5,1) g(3)] obtain seqs lits rep' f' where
    p: "parse_with_ldm f data start e R (es_rep st) ms = Ok ((seqs, lits, rep'), f')" "finder_inv rc rt data e f'" "rep_within W rep'"
    "describes seqs lits (es_rep st) (take start data) ?ys rep'" by blast
  note d = describes_history [OF p(4), of pre]
  have eq: "\<lparr>es_rep = es_rep st, es_seq = es_seq st, es_lit = es_lit st\<rparr> = st" by (cases st) simp
  note em = emit_split_emission [OF d i(6), of lst depth, unfolded eq]
  obtain bytes seq lit where b: "emit_split lst seqs lits (es_seq st) (es_lit st) depth = Ok (bytes, seq, lit)" "matched seq lit"
    using emission_OkD [OF em] by blast
  let ?m = "Ok (bytes, \<lparr>es_rep = rep', es_seq = seq, es_lit = lit\<rparr>) :: (byte list \<times> enc_state) result"
  have "block_emitted ?ys lst W st (pre @ take start data) ?m"
    using emission_writes [of bytes "\<lparr>es_rep = rep', es_seq = seq, es_lit = lit\<rparr>" lst st "pre @ take start data" ?ys] em p(3)
    by (simp add: block_emitted_def b)
  from keep_smaller_emitted [OF this i(5,6) ys(2)] obtain bytes' st' where
    k: "keep_smaller (write_store_block lst ?ys) st ?m = Ok (bytes', st')" "length bytes' \<le> 3 + length ?ys"
    "writes bytes' lst st (pre @ take start data) ?ys st'" "rep_within W (es_rep st')" "matched (es_seq st') (es_lit st')" by blast
  have "long_block data R W depth start e lst s = Ok (bytes', st', f', ldm')"
    using ys(3) g(1) p(1) k(1) b(1) by (simp add: long_block_def s write_compressed_block_ldm_def del: keep_smaller.simps)
  then show ?thesis using k(2-5) ys(1) i g(2) p(2) by (auto simp: long_inv_def s)
qed

interpretation long: block_writer data "[]" "long_block data R W depth" "long_inv rc rt data W R" fst
  for data R W depth rc rt
  by unfold_locales (rule long_block_law)

text \<open>Blocks of Huffman-coded literals.\<close>

lemma distinct_scan_after:
  assumes "length seen = 256" and "\<forall>b. b \<noteq> f \<longrightarrow> \<not> seen ! unat b"
  shows "distinct_scan (Some f) seen bs = Ok (\<exists>b \<in> set bs. b \<noteq> f)"
proof (induction bs)
  case (Cons b bs)
  have "unat b < length seen" using unat_byte_less [of b] assms(1) by simp
  then show ?case using Cons assms(2) by (simp add: idx_Ok)
qed simp

lemma at_least_two_distinct_spec: "at_least_two_distinct chunk = Ok (\<exists>b \<in> set chunk. b \<noteq> hd chunk)"
proof (cases chunk)
  case (Cons b bs)
  have len: "unat b < length (replicate 256 False)" using unat_byte_less [of b] by simp
  have "\<forall>c. c \<noteq> b \<longrightarrow> \<not> (replicate 256 False)[unat b := True] ! unat c"
    using unat_byte_less by (simp add: nth_list_update word_unat_eq_iff)
  from distinct_scan_after [OF _ this, of bs] show ?thesis
    using upd_Ok [OF len, of True] by (simp add: at_least_two_distinct_def Cons)
qed (simp add: at_least_two_distinct_def)

lemma write_literals_section_decodes:
  assumes "length lits < 2 ^ 32"
  shows "post (write_literals_section lits)
    (\<lambda>sec. \<exists>cache'. \<forall>rest. literals_decode (sec @ rest) cache = Ok (lits, length sec, cache')) (\<lambda>_. True)"
proof -
  obtain freq where freq: "byte_histogram lits = Ok freq" "length freq = 256" "sum_list freq = length lits"
    "\<forall>b \<in> set lits. freq ! unat b \<noteq> 0" using byte_histogram_Ok by blast
  obtain fresh where b: "build_fresh_table freq = Ok fresh"
    "\<forall>cd wh. fresh = Some (cd, wh) \<longrightarrow> (\<exists>t ws. code_tables cd t ws \<and> (\<forall>rest. huff_read_table (wh @ rest) = Ok (t, length wh))
       \<and> (\<forall>s < 256. freq ! s \<noteq> 0 \<longrightarrow> has_code ws s))"
    using build_fresh_table_reads [OF freq(2)] freq(3) assms by (cases "build_fresh_table freq") auto
  show ?thesis
  proof (cases fresh)
    case None
    then show ?thesis by (simp add: write_literals_section_def build_compressed_section_def freq(1) b(1))
  next
    case (Some pair)
    obtain cd wh where p: "pair = (cd, wh)" by (cases pair)
    obtain t ws where t: "code_tables cd t ws" "\<forall>rest. huff_read_table (wh @ rest) = Ok (t, length wh)" "\<forall>s < 256. freq ! s \<noteq> 0 \<longrightarrow> has_code ws s"
      using b(2) Some p by blast
    have "\<forall>b \<in> set lits. has_code ws (unat b)" using t(3) freq(4) unat_byte_less by blast
    from assemble_section_decode [OF t(1) this t(2), of cache] show ?thesis
      by (cases "assemble_compressed_section cd wh lits")
        (auto simp: write_literals_section_def build_compressed_section_def freq(1) b(1) Some p)
  qed
qed

lemma no_sequences: "section_reads [0] [] ts" "section_tables [0] ts = ts"
proof -
  have "write_seq_count 0 = [0]" by (simp add: write_seq_count_def)
  then have "sequence_count [0] = Ok (0, 1)" using sequence_count_write [of 0 "[]"] by simp
  then show "section_reads [0] [] ts" "section_tables [0] ts = ts"
    by (simp_all add: section_reads_def section_reference_def section_tables_def del: lz_run.simps)
qed

lemma write_huffman_literals_block_writes:
  assumes "length ys \<le> BLOCK_SIZE_MAX"
  shows "post (write_huffman_literals_block lst ys) (\<lambda>bytes. writes bytes lst fresh_state out ys fresh_state) (\<lambda>_. True)"
proof (cases "write_literals_section ys")
  case (Ok sec)
  have len: "length ys < 2 ^ 32" using assms by (simp add: BLOCK_SIZE_MAX_def)
  let ?body = "sec @ [0]"
  have "emits (write_block_header lst Compressed (length ?body) @ ?body) lst st ys fresh_state"
    if st: "in_step fresh_state st" "fits st (length ys)" "bs_block_max st \<le> BLOCK_SIZE_MAX" for st
  proof -
    have s: "block_inv st" "bs_rep st = (1, 4, 8)" using st(1) by (simp_all add: in_step_def fresh_state_def)
    obtain cache' where c: "\<forall>rest. literals_decode (sec @ rest) (bs_huff st) = Ok (ys, length sec, cache')"
      using write_literals_section_decodes [OF len, of "bs_huff st"] Ok by auto
    have run: "lz_run (map raw_of []) (length ys) ys (bs_out st) (rep_list (bs_rep st)) = Some (bs_out st @ ys, rep_list (1, 4, 8))"
      by (simp add: s(2))
    have tables: "lit_match None cache'" "seq_tables_match default_seq_ctables (section_tables [0] (bs_seq st))"
      by (simp_all add: lit_match_def seq_tables_match_default)
    from decode_compressed_body [OF c tables(1) no_sequences(1) tables(2) s(1) st(2) run] obtain st'
      where dec: "decode_compressed st ?body = Ok st'" "decoded st ys fresh_state st'" unfolding fresh_state_def by blast
    have "blocks_run src st pos st' (pos + (3 + length ?body)) lst"
      if "drop pos src = write_block_header lst Compressed (length ?body) @ ?body @ rest" "length src \<le> usize_max" "length ?body \<le> bs_block_max st"
      for src pos rest
      by (rule blocks_run.one, rule decode_compressed_block [OF that(1) that(3) _ that(2) dec(1)])
        (use that(3) st(3) in \<open>simp add: BLOCK_SIZE_MAX_def\<close>)
    then show ?thesis using dec(2) unfolding emits_def by fastforce
  qed
  then show ?thesis by (auto simp: write_huffman_literals_block_def Ok Let_def writes_def)
next
  case Panic
  then show ?thesis using write_literals_section_decodes [of ys None] assms by (simp add: BLOCK_SIZE_MAX_def)
next
  case Hang
  then show ?thesis using write_literals_section_decodes [of ys None] assms by (simp add: BLOCK_SIZE_MAX_def)
qed (simp add: write_huffman_literals_block_def)

lemma huffman_block_law:
  assumes e: "start \<le> e" "e \<le> length data" "e - start \<le> BLOCK_SIZE_MAX"
  shows "\<exists>bytes s'. huffman_block data start e lst s = Ok (bytes, s') \<and> length bytes \<le> 3 + (e - start)
    \<and> writes bytes lst fresh_state ([] @ take start data) (take (e - start) (drop start data)) fresh_state"
proof -
  let ?ys = "take (e - start) (drop start data)"
  have ys: "length ?ys = e - start" "length ?ys \<le> BLOCK_SIZE_MAX" "slice_range data start e = (Ok ?ys :: byte list result)" using e by simp_all
  note store = store_writes [OF ys(2), of lst fresh_state "[] @ take start data"] length_write_store_block [of lst ?ys]
  note run = huffman_block_def ys(3) obind_simps Let_def at_least_two_distinct_spec
  show ?thesis
  proof (cases "\<exists>b \<in> set ?ys. b \<noteq> hd ?ys")
    case False
    then show ?thesis using store unfolding run ys(1) by simp
  next
    case True
    show ?thesis
      using write_huffman_literals_block_writes [OF ys(2), of lst "[] @ take start data"] store True unfolding run ys(1)
      by (cases "write_huffman_literals_block lst ?ys") (auto simp: ok_or_none_def)
  qed
qed

interpretation huffman: block_writer data "[]" "huffman_block data" "\<lambda>_ _. True" "\<lambda>_. fresh_state" for data
  by unfold_locales (use huffman_block_law in blast)

section \<open>Frames decode to their data\<close>

lemma decode_primed_frame:
  assumes hdr: "write_frame_header (length data) ck wl did = Ok hdr" and wl: "wl \<le> 41"
    and src: "src = magic_bytes m @ hdr @ blocks @ content_checksum data ck"
    and prime: "prime_state dict did (initial_state (length data) (min (2 ^ wl) MAX_BLOCK_SIZE)) = Ok st0" "bs_dict_len st0 = length hist"
    and blocks: "decode_blocks src st0 (length (magic_bytes m @ hdr)) = Ok (st, length (magic_bytes m @ hdr @ blocks))" "bs_out st = hist @ data"
    and mx: "length data \<le> mx" "mx \<le> usize_max"
  shows "decode_frame src m mx dict None = Ok \<lparr>df_data = data, df_consumed = length src\<rparr>"
proof -
  let ?p = "length (magic_bytes m)"
  have "length data < 2 ^ 64" using mx by (simp add: usize_max_def)
  from frame_header_roundtrip_lemma [OF hdr wl this]
  have header: "parse_frame_header (drop ?p src) = Ok \<lparr>fh_header_len = length hdr, fh_has_checksum = ck,
      fh_content_size = Some (length data), fh_window_size = 2 ^ wl, fh_dictionary_id = did\<rparr>"
    by (simp add: src)
  have "check_checksum ck src (length (magic_bytes m @ hdr @ blocks)) (xxh64 data 0) = Ok (length src)"
    by (subst check_content_checksum) (simp_all add: src)
  moreover have slice: "slice_from src ?p = (Ok (drop ?p src) :: byte list result)" by (simp add: src)
  ultimately have "decode_body src ?p mx dict None = Ok \<lparr>df_data = data, df_consumed = length src\<rparr>"
    using mx(1) blocks prime unfolding decode_body_def slice obind_simps header Let_def
    by (simp add: window_ceiling_def output_cap_def check_content_size_def)
  then show ?thesis
    using decode_prefix_magic by (cases m) (simp_all add: decode_frame_def src magic_bytes_def)
qed

lemma write_frame_header_Ok: "10 \<le> wl \<Longrightarrow> \<exists>hdr. write_frame_header n ck wl did = Ok hdr \<and> length hdr \<le> 14"
  by (auto simp: write_frame_header_def Let_def)

text \<open>What the decoder starts with, for a history of \<open>hist\<close>.\<close>

definition primed :: "dictionary option \<Rightarrow> u32 \<Rightarrow> byte list \<Rightarrow> enc_state \<Rightarrow> bool" where
  "primed dict did hist e \<longleftrightarrow> (\<forall>cap bm. \<exists>st. prime_state dict did (initial_state cap bm) = Ok st \<and> in_step e st
     \<and> bs_out st = hist \<and> bs_dict_len st = length hist \<and> bs_max_output st = cap \<and> bs_block_max st = bm)"

lemma initial_state_in_step: "in_step fresh_state (initial_state cap bm)"
  by (simp add: in_step_def fresh_state_def initial_state_def block_inv_def lit_match_def seq_tables_match_default
      seq_tables_ok_def default_seq_tables_def)

lemma primed_none: "primed None 0 [] fresh_state"
  using initial_state_in_step by (simp add: primed_def prime_state_def) (simp add: initial_state_def)

lemma primed_raw:
  assumes "di_entropy d = None"
  shows "primed (Some d) (di_id d) (di_content d) fresh_state"
  using assms by (simp add: primed_def prime_state_def load_dictionary_def Let_def in_step_def fresh_state_def initial_state_def
      block_inv_def lit_match_def seq_tables_match_default seq_tables_ok_def default_seq_tables_def)

definition window_ok :: "nat \<Rightarrow> byte list \<Rightarrow> bool" where
  "window_ok wl data \<longleftrightarrow> 10 \<le> wl \<and> wl \<le> 31 \<and> window_covers wl (length data) \<and> length data < 2 ^ 60"

lemma frame_around_decodes:
  assumes w: "window_ok wl data" and prime: "primed dict did hist e"
    and blocks: "data \<noteq> [] \<Longrightarrow> \<exists>bytes. blocks = Ok bytes \<and> length bytes \<le> 4 * length data \<and> frame_blocks bytes e hist data"
    and mx: "length data \<le> mx" "mx \<le> usize_max"
  shows "\<exists>c. frame_around data ck m wl did blocks = Ok c \<and> decode_frame c m mx dict None = Ok \<lparr>df_data = data, df_consumed = length c\<rparr>"
proof -
  have wl: "10 \<le> wl" "wl \<le> 41" "window_covers wl (length data)" "length data < 2 ^ 60" using w by (simp_all add: window_ok_def)
  obtain hdr where hdr: "write_frame_header (length data) ck wl did = Ok hdr" "length hdr \<le> 14" using write_frame_header_Ok [OF wl(1)] by blast
  have "\<exists>body. (if data = [] then Ok (write_raw_block True []) else blocks) = Ok body \<and> length body \<le> 4 * length data + 3 \<and> frame_blocks body e hist data"
  proof (cases "data = []")
    case True
    have "frame_blocks (write_store_block True []) e hist []"
      by (rule last_block_ends [OF store_writes]) (simp_all add: write_store_block_def write_raw_block_def)
    then show ?thesis using True by (simp add: write_store_block_def write_raw_block_def)
  next
    case False
    from blocks [OF this] show ?thesis using False by auto
  qed
  then obtain body where body: "(if data = [] then Ok (write_raw_block True []) else blocks) = Ok body"
    "length body \<le> 4 * length data + 3" "frame_blocks body e hist data" by blast
  define c where "c = magic_bytes m @ hdr @ body @ content_checksum data ck"
  let ?bm = "min (2 ^ wl) MAX_BLOCK_SIZE"
  obtain st0 where st0: "prime_state dict did (initial_state (length data) ?bm) = Ok st0" "in_step e st0" "bs_out st0 = hist"
    "bs_dict_len st0 = length hist" "bs_max_output st0 = length data" "bs_block_max st0 = ?bm"
    using prime unfolding primed_def by blast
  have room: "block_room st0 (length data)"
    using st0(3-6) wl(3) mx by (auto simp: block_room_def window_covers_def MAX_BLOCK_SIZE_def BLOCK_SIZE_MAX_def)
  have "length (magic_bytes m) \<le> 4" "length (content_checksum data ck) \<le> 4" by (simp_all add: magic_bytes_def content_checksum_def)
  then have small: "length c \<le> usize_max" using hdr(2) body(2) wl(4) by (simp add: c_def usize_max_def)
  have "drop (length (magic_bytes m @ hdr)) c = body @ content_checksum data ck" by (simp add: c_def)
  from frame_blocksD [OF body(3) this small st0(2,3) room] obtain st' where
    "decode_blocks c st0 (length (magic_bytes m @ hdr)) = Ok (st', length (magic_bytes m @ hdr) + length body)" "bs_out st' = hist @ data" by blast
  then have "decode_frame c m mx dict None = Ok \<lparr>df_data = data, df_consumed = length c\<rparr>"
    by (intro decode_primed_frame [OF hdr(1) wl(2) c_def st0(1,4) _ _ mx]) (simp_all add: add.assoc)
  moreover have "frame_around data ck m wl did blocks = Ok c"
    unfolding frame_around_def hdr(1) obind_simps body(1) c_def magic_bytes_def ..
  ultimately show ?thesis by blast
qed

lemma window_bounds: "wl \<le> 31 \<Longrightarrow> (2::nat) ^ wl + 3 < 2 ^ 32"
  using power_increasing [of wl 31 "2::nat"] by simp

lemma window_8: "10 \<le> wl \<Longrightarrow> (8::nat) \<le> 2 ^ wl"
  using power_increasing [of 10 wl "2::nat"] by simp

text \<open>A decode that returns the data and consumes the frame.\<close>

definition decodes_to :: "byte list result \<Rightarrow> bool \<Rightarrow> dictionary option \<Rightarrow> byte list \<Rightarrow> nat \<Rightarrow> bool" where
  "decodes_to m expect_magic dict data mx \<longleftrightarrow>
     (\<exists>c. m = Ok c \<and> decode_one_with_dict c expect_magic mx dict = Ok \<lparr>df_data = data, df_consumed = length c\<rparr>)"

lemma compress_with_params_decodes:
  assumes w: "window_ok (cp_window_log params) data" and mx: "length data \<le> mx" "mx \<le> usize_max"
  shows "decodes_to (compress_with_params data params ck m) m None data mx"
proof -
  let ?wl = "cp_window_log params"
  have "window_ok ?wl data" by (rule w)
  then have wl: "10 \<le> ?wl" "?wl \<le> 31" by (simp_all add: window_ok_def)
  have I: "regular_inv (chain_ring params) (tree_ring params) data data 0 [] (2 ^ ?wl) (2 ^ ?wl) 0 (fresh_state, finder_new params)"
    using window_bounds [OF wl(2)] finder_new_inv rep_within_fresh [OF window_8 [OF wl(1)]] matched_fresh by (simp add: regular_inv_def)
  have "\<exists>c. compress_with_params data params ck m = Ok c \<and> decode_frame c m mx None None = Ok \<lparr>df_data = data, df_consumed = length c\<rparr>"
    unfolding compress_with_params_def Let_def
    by (rule frame_around_decodes [OF w primed_none _ mx]) (use regular.loop_decodes [OF I] in simp)
  then show ?thesis by (simp add: decodes_to_def decode_one_with_dict_def)
qed

lemma compress_long_with_params_decodes:
  assumes w: "window_ok (cp_window_log params) data" and R: "R \<le> 2 ^ cp_window_log params" and mx: "length data \<le> mx" "mx \<le> usize_max"
  shows "decodes_to (compress_long_with_params data params R ck m) m None data mx"
proof -
  let ?wl = "cp_window_log params"
  have "window_ok ?wl data" by (rule w)
  then have wl: "10 \<le> ?wl" "?wl \<le> 31" by (simp_all add: window_ok_def)
  have I: "long_inv (chain_ring params) (tree_ring params) data (2 ^ ?wl) R 0 (fresh_state, finder_new params, ldm_state_new ?wl)"
    using R window_bounds [OF wl(2)] finder_new_inv rep_within_fresh [OF window_8 [OF wl(1)]] matched_fresh ldm_inv_new by (simp add: long_inv_def)
  have "\<exists>c. compress_long_with_params data params R ck m = Ok c \<and> decode_frame c m mx None None = Ok \<lparr>df_data = data, df_consumed = length c\<rparr>"
    unfolding compress_long_with_params_def Let_def
    by (rule frame_around_decodes [OF w primed_none _ mx]) (use long.loop_decodes [OF I] in simp)
  then show ?thesis by (simp add: decodes_to_def decode_one_with_dict_def)
qed

lemma compress_huffman_literals_decodes:
  assumes "length data < 2 ^ 60" and mx: "length data \<le> mx" "mx \<le> usize_max"
  shows "decodes_to (compress_huffman_literals data ck m) m None data mx"
proof -
  have w: "window_ok STORE_WINDOW_LOG data" using assms(1) window_covers_17 by (simp add: window_ok_def STORE_WINDOW_LOG_def)
  have "\<exists>c. compress_huffman_literals data ck m = Ok c \<and> decode_frame c m mx None None = Ok \<lparr>df_data = data, df_consumed = length c\<rparr>"
    unfolding compress_huffman_literals_def
    by (rule frame_around_decodes [OF w primed_none _ mx]) (use huffman.loop_decodes [of 0 data "()"] in simp)
  then show ?thesis by (simp add: decodes_to_def decode_one_with_dict_def)
qed

lemma window_ok_level:
  "length data \<le> 2 ^ 32 \<Longrightarrow> window_ok (cp_window_log (params_for_level level (length data))) data"
  using params_for_level_range [of level "length data"] params_for_level_covers [of "length data" level] by (simp add: window_ok_def)

lemma window_ok_ldm:
  "length data \<le> 2 ^ 32 \<Longrightarrow> window_ok (cp_window_log (params_for_level_ldm level (length data))) data"
  using params_for_level_ldm_window [of level "length data"] params_for_level_range(1) [of level "length data"]
    window_covers_mono [OF params_for_level_covers [of "length data" level]] by (simp add: window_ok_def)

lemma options_window_range: "10 \<le> cp_window_log (options_resolve opts n) \<and> cp_window_log (options_resolve opts n) \<le> 27"
  using params_for_level_range [of "co_level opts" n] params_for_level_ldm_window [of "co_level opts" n]
  by (auto simp: options_resolve_window clamp_def MIN_WINDOW_LOG_def MAX_WINDOW_LOG_def LDM_MAX_WINDOW_LOG_def split: option.split)

lemma options_window_ok:
  assumes "co_window_log opts = None \<or> 17 \<le> cp_window_log (options_resolve opts (length data))" and "length data \<le> 2 ^ 32"
  shows "window_ok (cp_window_log (options_resolve opts (length data))) data"
proof (cases "co_window_log opts")
  case None
  then show ?thesis using window_ok_level [OF assms(2), of "co_level opts"] window_ok_ldm [OF assms(2), of "co_level opts"]
    by (simp add: options_resolve_window)
next
  case (Some v)
  then have "window_covers (cp_window_log (options_resolve opts (length data))) (length data)" using assms(1) window_covers_17 by simp
  then show ?thesis using options_window_range [of opts "length data"] assms(2) by (simp add: window_ok_def)
qed

lemma compress_with_options_decodes:
  assumes w: "window_ok (cp_window_log (options_resolve opts (length data))) data" and mx: "length data \<le> mx" "mx \<le> usize_max"
  shows "decodes_to (compress_with_options data opts) (co_magic opts) None data mx"
  unfolding compress_with_options_def Let_def
  using compress_with_params_decodes [OF w mx] compress_long_with_params_decodes [OF w _ mx] by simp

section \<open>A window that does not cover the blocks\<close>

lemma write_sequences_nonempty: "write_sequences seqs prev = Ok (bytes, cts) \<Longrightarrow> bytes \<noteq> []"
  by (auto simp: write_sequences_def write_seq_count_len outcome_simps Let_def split: if_splits prod.splits)

lemma emit_one_length: "emit_one lst seqs lits seq lit = Ok (bytes, s, l) \<Longrightarrow> 4 \<le> length bytes"
  by (auto simp: emit_one_def outcome_simps Let_def dest!: write_sequences_nonempty) (metis Suc_leI length_greater_0_conv trans_le_add2)

lemma emit_split_length: "emit_split lst seqs lits seq lit depth = Ok (bytes, s, l) \<Longrightarrow> 4 \<le> length bytes"
proof (induction depth arbitrary: lst seqs lits seq lit bytes s l)
  case 0
  then show ?case by (auto dest: emit_one_length)
next
  case (Suc depth)
  obtain w ts where w: "emit_one lst seqs lits seq lit = Ok (w, ts)" using Suc.prems by (auto simp: outcome_simps)
  then have "4 \<le> length w" by (cases ts) (auto dest: emit_one_length)
  then show ?case using Suc.prems w
    by (force simp: outcome_simps Let_def split_at_def split: if_splits dest: Suc.IH)
qed

lemma pick_alts_length:
  "pick_alts lst seq lit depth alts best = Ok (bytes, e') \<Longrightarrow> 4 \<le> length (fst best) \<Longrightarrow> 4 \<le> length bytes"
proof (induction alts arbitrary: best)
  case (Cons alt alts)
  obtain buf s l where b: "emit_split lst (pa_seqs alt) (pa_literals alt) seq lit depth = Ok (buf, s, l)"
    using Cons.prems(1) by (auto simp: outcome_simps)
  have "4 \<le> length (fst (if length buf < length (fst best) then (buf, \<lparr>es_rep = pa_rep alt, es_seq = s, es_lit = l\<rparr>) else best))"
    using emit_split_length [OF b] Cons.prems(2) by simp
  from Cons.IH [OF _ this] show ?case using Cons.prems(1) by (simp add: b)
qed auto

lemma emit_and_pick_length: "emit_and_pick lst p seq lit depth = Ok (bytes, e') \<Longrightarrow> 4 \<le> length bytes"
  by (auto simp: emit_and_pick_def outcome_simps dest!: emit_split_length pick_alts_length)

text \<open>A run of one byte is stored, as no compressed block is shorter than four bytes.\<close>

lemma run_is_stored:
  assumes n: "0 < n" "n \<le> BLOCK_SIZE_MAX" and wl: "10 \<le> wl" "wl \<le> 31" and p: "cp_window_log params = wl"
  shows "block_loop (regular_block (replicate n b) (replicate n b) 0 (2 ^ wl) depth) (length (replicate n b)) 0 (fresh_state, finder_new params)
    = Ok (write_rle_block True b n)"
proof -
  let ?data = "replicate n b"
  have fit: "block_fits ?data (2 ^ wl) 0 n" using n window_bounds [OF wl(2)] by (simp add: block_fits_def)
  obtain m f' where w: "write_compressed_block True ?data 0 n (finder_new params) (2 ^ wl) fresh_state depth = Ok (m, f')"
    "block_emitted (take (n - 0) (drop 0 ?data)) True (2 ^ wl) fresh_state ([] @ take 0 ?data) m"
    using write_compressed_block_Ok [OF finder_new_inv fit rep_within_fresh [OF window_8 [OF wl(1)]] order.refl matched_fresh] by blast
  then obtain bytes e' where m: "m = Ok (bytes, e')" by (auto simp: block_emitted_def)
  have "4 \<le> length bytes" using w(1) unfolding m by (auto simp: write_compressed_block_def outcome_simps dest: emit_and_pick_length)
  moreover have store: "write_store_block True ?data = write_rle_block True b n"
    using n(1) by (cases n) (simp_all add: write_store_block_def list_all_iff)
  moreover have "length (write_rle_block True b n) = 4" by (simp add: write_rle_block_def)
  ultimately have "regular_block ?data ?data 0 (2 ^ wl) depth 0 n True (fresh_state, finder_new params) = Ok (write_rle_block True b n, fresh_state, f')"
    using w(1) by (simp add: regular_block_def m)
  moreover have "min (0 + BLOCK_SIZE_MAX) (length ?data) = n" using n(2) by simp
  ultimately show ?thesis
    using n(1) by (subst block_loop.simps) (simp add: Let_def block_loop.simps [of _ n n])
qed

lemma oversized_block_refused:
  assumes n: "2 ^ wl < n" "n < 2 ^ 21" and wl: "10 \<le> wl" "wl \<le> 31" and p: "cp_window_log params = wl" and len: "n \<le> BLOCK_SIZE_MAX"
    and mx: "n \<le> mx" "mx \<le> usize_max"
  shows "\<exists>c. compress_with_params (replicate n b) params ck m = Ok c
    \<and> decode_frame c m mx None None = Err (Invalid ''block size'' (''block '' @ dec n @ '' exceeds max '' @ dec (2 ^ wl)))"
proof -
  let ?data = "replicate n b"
  obtain hdr where hdr: "write_frame_header (length ?data) ck wl 0 = Ok hdr" using write_frame_header_Ok [OF wl(1)] by blast
  let ?body = "write_rle_block True b n" and ?tail = "content_checksum ?data ck"
  define c where "c = magic_bytes m @ hdr @ ?body @ ?tail"
  have n0: "0 < n" using n(1) by simp
  have "compress_with_params ?data params ck m = Ok c"
    unfolding compress_with_params_def Let_def p run_is_stored [OF n0 len wl p] frame_around_def hdr obind_simps c_def magic_bytes_def
    using n0 by simp
  moreover have "decode_frame c m mx None None = Err (Invalid ''block size'' (''block '' @ dec n @ '' exceeds max '' @ dec (2 ^ wl)))"
  proof -
    let ?p = "length (magic_bytes m)" and ?st = "initial_state n (2 ^ wl)"
    have "(2::nat) ^ wl \<le> MAX_BLOCK_SIZE" using n(1) len by (simp add: MAX_BLOCK_SIZE_def BLOCK_SIZE_MAX_def)
    then have bm: "min (2 ^ wl) MAX_BLOCK_SIZE = 2 ^ wl" by simp
    have "wl \<le> 41" "length ?data < 2 ^ 64" using wl(2) n(2) by simp_all
    from frame_header_roundtrip_lemma [OF hdr this]
    have header: "parse_frame_header (drop ?p c) = Ok \<lparr>fh_header_len = length hdr, fh_has_checksum = ck,
        fh_content_size = Some n, fh_window_size = 2 ^ wl, fh_dictionary_id = 0\<rparr>" by (simp add: c_def)
    have at: "drop (?p + length hdr) c = ?body @ ?tail" by (simp add: c_def)
    have "decode_block_at ?st c (?p + length hdr) = Err (Invalid ''block size'' (''block '' @ dec n @ '' exceeds max '' @ dec (2 ^ wl)))"
    proof -
      have "slice_from c (?p + length hdr) = (Ok (?body @ ?tail) :: byte list result)" using at by (simp add: c_def)
      then show ?thesis using n read_write_block_header [OF n(2), of True Rle "b # ?tail"]
        by (simp add: decode_block_at_def write_rle_block_def initial_state_def)
    qed
    then have blocks: "decode_blocks c ?st (?p + length hdr) = Err (Invalid ''block size'' (''block '' @ dec n @ '' exceeds max '' @ dec (2 ^ wl)))"
      by (subst decode_blocks.simps) simp
    have slice: "slice_from c ?p = (Ok (drop ?p c) :: byte list result)" by (simp add: c_def)
    have "decode_body c ?p mx None None = Err (Invalid ''block size'' (''block '' @ dec n @ '' exceeds max '' @ dec (2 ^ wl)))"
      using mx(1) blocks unfolding decode_body_def slice obind_simps header Let_def
      by (simp add: window_ceiling_def output_cap_def prime_state_def bm)
    then show ?thesis using decode_prefix_magic by (cases m) (simp_all add: decode_frame_def c_def magic_bytes_def)
  qed
  ultimately show ?thesis by blast
qed

section \<open>Properties\<close>

text \<open>C1: compression is lossless. For every input of at most 4 GiB, every level, with or without the magic
  number and the checksum, the encoder returns a frame (it neither panics nor loops), with long-distance
  matching or without, or with its literals-only mode; and the decoder returns exactly the input
  and consumes exactly the frame, under every ceiling that admits the input.\<close>

theorem compress_roundtrip:
  assumes "length data \<le> 2 ^ 32" and "length data \<le> mx" and "mx \<le> usize_max"
    and "m \<in> {compress data level checksum expect_magic, compress_long data level checksum expect_magic,
      compress_huffman_literals data checksum expect_magic}"
  shows "post m (\<lambda>c. decode_one c expect_magic mx = Ok \<lparr>df_data = data, df_consumed = length c\<rparr>) (\<lambda>_. False)"
proof -
  have "decodes_to (compress data level checksum expect_magic) expect_magic None data mx"
    unfolding compress_def by (rule compress_with_params_decodes [OF window_ok_level [OF assms(1)] assms(2,3)])
  moreover have "decodes_to (compress_long data level checksum expect_magic) expect_magic None data mx"
    unfolding compress_long_def Let_def
    by (rule compress_long_with_params_decodes [OF window_ok_ldm [OF assms(1)] _ assms(2,3)])
      (simp add: params_for_level_ldm_window(1))
  moreover have "decodes_to (compress_huffman_literals data checksum expect_magic) expect_magic None data mx"
    by (rule compress_huffman_literals_decodes) (use assms in auto)
  ultimately show ?thesis using assms(4) by (auto simp: decodes_to_def decode_one_def)
qed

theorem compress_roundtrip_witness:
  "post (compress [1, 2, 3, 1, 2, 3, 1, 2, 3, 1, 2, 3] 19 True True)
    (\<lambda>c. decode_one c True 100 = Ok \<lparr>df_data = [1, 2, 3, 1, 2, 3, 1, 2, 3, 1, 2, 3], df_consumed = length c\<rparr>) (\<lambda>_. False)"
  by (rule compress_roundtrip [where level = 19 and checksum = True]) (simp_all add: usize_max_def)

text \<open>C37: compression with options is lossless where the window covers the blocks: no window log is set, or one
  of at least 17, whatever the other options are (the strategy, the table logs, the search depth, long-distance
  matching).\<close>

theorem compress_with_options_roundtrip:
  assumes "co_window_log opts = None \<or> 17 \<le> cp_window_log (options_resolve opts (length data))"
    and "length data \<le> 2 ^ 32" and "length data \<le> mx" and "mx \<le> usize_max"
  shows "post (compress_with_options data opts)
    (\<lambda>c. decode_one c (co_magic opts) mx = Ok \<lparr>df_data = data, df_consumed = length c\<rparr>) (\<lambda>_. False)"
  using compress_with_options_decodes [OF options_window_ok [OF assms(1,2)] assms(3,4)]
  by (auto simp: decodes_to_def decode_one_def)

theorem compress_with_options_roundtrip_witness:
  "post (compress_with_options [5, 5, 7] ((options_new 1)\<lparr>co_window_log := Some 20, co_long_distance := True\<rparr>))
    (\<lambda>c. decode_one c True 3 = Ok \<lparr>df_data = [5, 5, 7], df_consumed = length c\<rparr>) (\<lambda>_. False)"
  using compress_with_options_roundtrip [of "(options_new 1)\<lparr>co_window_log := Some 20, co_long_distance := True\<rparr>" "[5, 5, 7]" 3]
  by (simp add: options_resolve_window options_new_def clamp_def MIN_WINDOW_LOG_def LDM_MAX_WINDOW_LOG_def usize_max_def)

text \<open>C38: an overridden window can make a frame that does not decode. The window log is kept at 10 or above, but the
  blocks are of up to 128 KiB whatever the window is: with the window log 10, a run of more than 1024
  bytes is compressed without an error into a frame whose only block exceeds the block size limit of
  that window, and the decoder refuses it.\<close>

theorem small_window_undecodable:
  assumes "1024 < n" and "n \<le> BLOCK_SIZE_MAX" and "n \<le> mx" and "mx \<le> usize_max"
  shows "post (compress_with_options (replicate n b) ((options_new level)\<lparr>co_window_log := Some 10\<rparr>))
    (\<lambda>c. decode_one c True mx = Err (Invalid ''block size'' (''block '' @ dec n @ '' exceeds max '' @ dec 1024))) (\<lambda>_. False)"
proof -
  let ?opts = "(options_new level)\<lparr>co_window_log := Some 10\<rparr>"
  have "cp_window_log (options_resolve ?opts n) = 10"
    by (simp add: options_resolve_window options_new_def clamp_def MIN_WINDOW_LOG_def MAX_WINDOW_LOG_def)
  from oversized_block_refused [of 10, OF _ _ _ _ this assms(2-4), of b False True] assms(1,2)
  obtain c where "compress_with_params (replicate n b) (options_resolve ?opts n) False True = Ok c"
    "decode_frame c True mx None None = Err (Invalid ''block size'' (''block '' @ dec n @ '' exceeds max '' @ dec (2 ^ 10)))"
    by (auto simp: BLOCK_SIZE_MAX_def)
  then show ?thesis
    by (simp add: compress_with_options_def options_new_def decode_one_def decode_one_with_dict_def)
qed

theorem small_window_undecodable_witness:
  "post (compress_with_options (replicate 2000 0) ((options_new 3)\<lparr>co_window_log := Some 10\<rparr>))
    (\<lambda>c. decode_one c True 2000 = Err (Invalid ''block size'' (''block '' @ dec 2000 @ '' exceeds max '' @ dec 1024))) (\<lambda>_. False)"
  by (rule small_window_undecodable) (simp_all add: BLOCK_SIZE_MAX_def usize_max_def)

end
