(* ===== verification/Dict_Encode.thy ===== *)
theory Dict_Encode
  imports Frame_Encode
begin

text \<open>
  Compression with a dictionary (\<open>compress_with_dict\<close> of \<^verbatim>\<open>src/encode/frame.rs\<close>). The encoder rebuilds its
  tables from what the dictionary holds for the decoder: the counts of the three FSE tables, and the cells of
  the Huffman decode table. For every dictionary that the parser accepts the two sides start
  in step, so that the first block may already refer to the tables of the dictionary.
\<close>

section \<open>Scaled weights\<close>

text \<open>A decode table of which no weight is 1 has unused depth; the code table is built without it.\<close>

definition scaled :: "nat \<Rightarrow> nat list \<Rightarrow> nat list" where
  "scaled k ws = map (\<lambda>w. w - k) ws"

definition above :: "nat \<Rightarrow> nat list \<Rightarrow> bool" where
  "above k ws \<longleftrightarrow> (\<forall>w \<in> set ws. w = 0 \<or> k < w)"

lemma above_nth: "above k ws \<Longrightarrow> has_code ws s \<Longrightarrow> s < length ws \<and> k < ws ! s"
  unfolding above_def has_code_def by (metis neq0_conv nth_mem)

lemma below_scaled:
  assumes "above k ws"
  shows "below (scaled k ws) v * 2 ^ k = below ws (v + k)"
  using assms
proof (induction ws)
  case Nil
  then show ?case by (simp add: below_def scaled_def)
next
  case (Cons w ws)
  then have ih: "below (scaled k ws) v * 2 ^ k = below ws (v + k)" and w: "w = 0 \<or> k < w" by (simp_all add: above_def)
  have "(2::nat) ^ (w - k - 1) * 2 ^ k = 2 ^ (w - 1)" if "k < w"
    using that by (simp flip: power_add)
  then show ?case using ih w by (auto simp: below_def scaled_def add_mult_distrib)
qed

lemma count_scaled:
  assumes "above k ws" and "k < w"
  shows "count_list (scaled k ws) (w - k) = count_list ws w"
  using assms by (induction ws) (auto simp: scaled_def above_def)

lemma hstart_scaled:
  assumes "above k ws" and "has_code ws s"
  shows "hstart (scaled k ws) s * 2 ^ k = hstart ws s"
proof -
  have s: "s < length ws" "k < ws ! s" using above_nth [OF assms] by simp_all
  have at: "scaled k ws ! s = ws ! s - k" using s by (simp add: scaled_def)
  have "take s (scaled k ws) = scaled k (take s ws)" "above k (take s ws)"
    using assms(1) by (auto simp: scaled_def take_map above_def dest: in_set_takeD)
  then have c: "count_list (take s (scaled k ws)) (ws ! s - k) = count_list (take s ws) (ws ! s)" using count_scaled s(2) by simp
  have "(2::nat) ^ (ws ! s - k - 1) * 2 ^ k = 2 ^ (ws ! s - 1)" using s(2) by (simp flip: power_add)
  then have "count_list (take s ws) (ws ! s) * 2 ^ (ws ! s - k - 1) * 2 ^ k = count_list (take s ws) (ws ! s) * 2 ^ (ws ! s - 1)"
    by (simp only: mult.assoc)
  moreover have "below (scaled k ws) (ws ! s - k) * 2 ^ k = below ws (ws ! s)" using below_scaled [OF assms(1), of "ws ! s - k"] s(2) by simp
  ultimately show ?thesis unfolding hstart_def at c by (simp only: add_mult_distrib)
qed

lemma sym_code_scaled:
  assumes "above k ws" and "has_code ws s"
  shows "sym_code (scaled k ws) s = sym_code ws s"
proof -
  have s: "s < length ws" "k < ws ! s" using above_nth [OF assms] by simp_all
  have p: "(2::nat) ^ (ws ! s - 1) = 2 ^ k * 2 ^ (ws ! s - k - 1)" using s(2) by (simp flip: power_add)
  have "hstart ws s div 2 ^ (ws ! s - 1) = hstart (scaled k ws) s * 2 ^ k div 2 ^ k div 2 ^ (ws ! s - k - 1)"
    unfolding p div_mult2_eq hstart_scaled [OF assms] ..
  then show ?thesis using s(1) by (simp add: sym_code_def scaled_def)
qed

lemma has_code_scaled: "above k ws \<Longrightarrow> has_code (scaled k ws) s \<longleftrightarrow> has_code ws s"
  using above_nth [of k ws s] by (auto simp: has_code_def scaled_def)

section \<open>The lengths in a decode table\<close>

lemma length_entry_lengths [simp]: "length (entry_lengths ls es) = length ls"
  by (induction es arbitrary: ls) auto

lemma entry_lengths_nth:
  assumes "s < length ls" and "\<forall>e \<in> set es. unat (he_symbol e) = s \<longrightarrow> he_num_bits e = v"
  shows "entry_lengths ls es ! s = (if \<exists>e \<in> set es. unat (he_symbol e) = s then v else ls ! s)"
  using assms
proof (induction es arbitrary: ls)
  case (Cons e es)
  then show ?case by (cases "unat (he_symbol e) = s") auto
qed simp

definition table_lengths :: "huff_table \<Rightarrow> nat list" where
  "table_lengths t = entry_lengths (replicate 256 0) (huff_entries t)"

lemma huff_entries_cells:
  assumes t: "huff_table_for ws t"
  shows "e \<in> set (huff_entries t) \<Longrightarrow> \<exists>s. has_code ws s \<and> e = cell_entry (ht_max_bits t) ws s"
    and "has_code ws s \<Longrightarrow> cell_entry (ht_max_bits t) ws s \<in> set (huff_entries t)"
proof -
  have "ht_max_bits t \<le> 12" "length (ht_entries t) = 2 ^ 12"
    using huff_table_for_ok [OF t] by (simp_all add: huff_table_ok_def HUF_DTABLE_SIZE_def)
  moreover from this have "(2::nat) ^ ht_max_bits t \<le> 2 ^ 12" by (intro power_increasing) auto
  ultimately have len: "2 ^ ht_max_bits t \<le> length (ht_entries t)" by simp
  show "\<exists>s. has_code ws s \<and> e = cell_entry (ht_max_bits t) ws s" if h: "e \<in> set (huff_entries t)"
  proof -
    obtain i where "i < 2 ^ ht_max_bits t" "e = ht_entries t ! i" using h len by (auto simp: huff_entries_def in_set_conv_nth)
    then show ?thesis using huff_table_for_cell [OF t] unfolding has_code_def by metis
  qed
  show "cell_entry (ht_max_bits t) ws s \<in> set (huff_entries t)" if s: "has_code ws s"
  proof -
    have at: "hstart ws s < 2 ^ ht_max_bits t" using huff_table_for_range(4) [OF t s] .
    have "s < length ws" "0 < ws ! s" using s by (simp_all add: has_code_def)
    then have "ht_entries t ! hstart ws s = cell_entry (ht_max_bits t) ws s"
      using t by (simp add: huff_table_for_def Let_def filled_def)
    then show ?thesis using at len by (auto simp: huff_entries_def in_set_conv_nth)
  qed
qed

lemma table_lengths_nth:
  assumes t: "huff_table_for ws t" and s: "s < 256"
  shows "table_lengths t ! s = (if has_code ws s then ht_max_bits t + 1 - ws ! s else 0)"
proof -
  have sym: "unat (he_symbol (cell_entry mb ws v)) = v" if "has_code ws v" for mb v
    using huff_table_for_range(1) [OF t that] by (simp add: cell_entry_def unat_word_of_nat_byte)
  have "\<forall>e \<in> set (huff_entries t). unat (he_symbol e) = s \<longrightarrow> he_num_bits e = ht_max_bits t + 1 - ws ! s"
    using huff_entries_cells(1) [OF t] sym by (fastforce simp: cell_entry_def)
  from entry_lengths_nth [OF _ this, of "replicate 256 0"] s
  have "table_lengths t ! s = (if \<exists>e \<in> set (huff_entries t). unat (he_symbol e) = s then ht_max_bits t + 1 - ws ! s else 0)"
    by (simp add: table_lengths_def)
  moreover have "(\<exists>e \<in> set (huff_entries t). unat (he_symbol e) = s) \<longleftrightarrow> has_code ws s"
    using huff_entries_cells [OF t] sym by metis
  ultimately show ?thesis by simp
qed

section \<open>The code table of a decode table\<close>

lemma smallest_weight:
  assumes "s < length ws" and "0 < (ws ! s :: nat)"
  obtains k i where "above k ws" and "i < length ws" and "ws ! i = Suc k"
proof -
  define m where "m = Min {w \<in> set ws. 0 < w}"
  have "ws ! s \<in> {w \<in> set ws. 0 < w}" using assms by simp
  then have ne: "{w \<in> set ws. 0 < w} \<noteq> {}" "finite {w \<in> set ws. 0 < w}" by auto
  have m: "m \<in> set ws" "0 < m" "\<forall>w \<in> set ws. 0 < w \<longrightarrow> m \<le> w"
    using Min_in [OF ne(2,1), folded m_def] Min_le [OF ne(2), folded m_def] by blast+
  obtain i where "i < length ws" "ws ! i = m" using m(1) by (auto simp: in_set_conv_nth)
  moreover have "above (m - 1) ws" using m(2,3) by (fastforce simp: above_def)
  ultimately show thesis using that [of "m - 1" i] m(2) by simp
qed

lemma complete_table_lengths:
  assumes t: "huff_table_for ws t" and k: "above k ws" "i < length ws" "ws ! i = Suc k"
  shows "complete_at (ht_max_bits t - k) (table_lengths t)"
    and "scaled k ws = map (weight_of (ht_max_bits t - k)) (take (length ws) (table_lengths t))"
proof -
  define mb where "mb = ht_max_bits t"
  have h: "1 \<le> mb" "mb \<le> 12" "length ws \<le> 256" "\<forall>w \<in> set ws. w \<le> mb" "below ws (Suc mb) = 2 ^ mb"
    using t by (simp_all add: huff_table_for_def Let_def mb_def)
  have km: "Suc k \<le> mb" using h(4) k(2,3) nth_mem by metis
  have len: "length (table_lengths t) = 256" by (simp add: table_lengths_def)
  have nth: "table_lengths t ! s = (if has_code ws s then mb + 1 - ws ! s else 0)" if "s < 256" for s
    using table_lengths_nth [OF t that] by (simp add: mb_def)
  have wt: "weight_of (mb - k) (table_lengths t ! s) = ws ! s - k" if "s < length ws" for s
  proof (cases "ws ! s = 0")
    case True
    then show ?thesis using nth [of s] that h(3) by (simp add: has_code_def weight_of_def)
  next
    case False
    then have c: "has_code ws s" using that by (simp add: has_code_def)
    have "k < ws ! s" "ws ! s \<le> mb" using above_nth [OF k(1) c] h(4) that by simp_all
    then show ?thesis using nth [of s] that h(3) c by (simp add: weight_of_def)
  qed
  show eq: "scaled k ws = map (weight_of (ht_max_bits t - k)) (take (length ws) (table_lengths t))"
    by (rule nth_equalityI) (use wt h(3) len in \<open>simp_all add: scaled_def mb_def\<close>)
  have le: "\<forall>l \<in> set (table_lengths t). l \<le> mb - k"
  proof
    fix l assume "l \<in> set (table_lengths t)"
    then obtain s where s: "s < 256" "l = table_lengths t ! s" using len by (auto simp: in_set_conv_nth)
    then show "l \<le> mb - k" using nth [OF s(1)] above_nth [OF k(1), of s] by (cases "has_code ws s") auto
  qed
  have "table_lengths t ! i = mb - k" using nth [of i] k(2,3) h(3) km by (simp add: has_code_def)
  then have mem: "mb - k \<in> set (table_lengths t)" using nth_mem [of i "table_lengths t"] k(2) h(3) len by simp
  let ?g = "\<lambda>l. if l = 0 then 0 else (2::nat) ^ (mb - k - l)"
  have "sum_list (map ?g (table_lengths t)) = sum_list (map ?g (take (length ws) (table_lengths t)))"
    by (rule sum_map_take_zero [symmetric]) (use nth len in \<open>simp add: has_code_def\<close>)
  also have "\<dots> = below (scaled k ws) (Suc (mb - k))"
    unfolding eq mb_def [symmetric] by (rule below_weights [symmetric]) (use le in \<open>auto dest: in_set_takeD\<close>)
  finally have "sum_list (map ?g (table_lengths t)) * 2 ^ k = below ws (Suc (mb - k) + k)"
    using below_scaled [OF k(1)] by simp
  also have "\<dots> = 2 ^ (mb - k) * 2 ^ k" using h(5) km by (simp flip: power_add)
  finally have "sum_list (map ?g (table_lengths t)) = 2 ^ (mb - k)" by simp
  moreover have "1 \<le> mb - k" "mb - k \<le> 12" using km h(2) by linarith+
  ultimately show "complete_at (ht_max_bits t - k) (table_lengths t)"
    unfolding complete_at_def mb_def [symmetric] using len le mem by simp
qed

lemma code_table_from_huff_Ok:
  assumes t: "huff_table_for (ws @ [lst]) t" and lst: "0 < lst"
  shows "\<exists>cd. code_table_from_huff t = Ok cd \<and> codes_for cd t (ws @ [lst])"
proof -
  let ?ws = "ws @ [lst]"
  define mb where "mb = ht_max_bits t"
  have h: "length ?ws \<le> 256" "\<forall>w \<in> set ?ws. w \<le> mb" using t by (simp_all add: huff_table_for_def Let_def mb_def)
  have at: "length ws < length ?ws" "0 < ?ws ! length ws" using lst by simp_all
  from smallest_weight [OF this] obtain k i where k: "above k ?ws" "i < length ?ws" "?ws ! i = Suc k" by blast
  have km: "k < mb" using h(2) k(2,3) nth_mem [OF k(2)] by (metis Suc_le_eq)
  note c = complete_table_lengths [OF t k, folded mb_def]
  obtain cd t' where cd: "build_code_table (table_lengths t) = Ok cd" "last_pos (table_lengths t) = Some (cd_max_symbol cd)"
    "code_tables cd t' (map (weight_of (mb - k)) (take (cd_max_symbol cd + 1) (table_lengths t)))" "ht_max_bits t' = mb - k"
    using build_code_table_Ok [OF c(1)] by blast
  have len: "length (table_lengths t) = 256" by (simp add: table_lengths_def)
  have nth: "table_lengths t ! s = (if has_code ?ws s then mb + 1 - ?ws ! s else 0)" if "s < 256" for s
    using table_lengths_nth [OF t that] by (simp add: mb_def)
  have code: "0 < table_lengths t ! s \<longleftrightarrow> has_code ?ws s" if "s < 256" for s
  proof (cases "has_code ?ws s")
    case True
    then have "?ws ! s \<le> mb" using h(2) nth_mem [of s ?ws] unfolding has_code_def by blast
    then show ?thesis using nth [OF that] True by simp
  qed (use nth [OF that] in simp)
  have "0 < table_lengths t ! length ws" using code [of "length ws"] at h(1) by (simp add: has_code_def)
  from last_pos_SomeI [OF _ this] len h(1) obtain m where m: "last_pos (table_lengths t) = Some m" "m < 256" "0 < table_lengths t ! m"
    "\<And>j. m < j \<Longrightarrow> j < 256 \<Longrightarrow> table_lengths t ! j = 0" by auto
  have "m < length ?ws" using code [OF m(2)] m(3) by (simp add: has_code_def)
  moreover have "\<not> m < length ws" using m(4) [of "length ws"] \<open>0 < table_lengths t ! length ws\<close> h(1) by auto
  ultimately have "cd_max_symbol cd + 1 = length ?ws" using cd(2) m(1) by simp
  then have ct: "code_tables cd t' (scaled k ?ws)" using cd(3) c(2) by simp
  then have co: "codes_of (mb - k) (scaled k ?ws) cd" using cd(4) by (simp add: code_tables_def)
  have "codes_of mb ?ws cd"
    unfolding codes_of_def
  proof (intro conjI allI impI)
    show "length (cd_code cd) = 256" "length (cd_nbits cd) = 256" using co by (simp_all add: codes_of_def)
    fix s :: nat assume s: "s < 256"
    have one: "if has_code ?ws s then cd_nbits cd ! s = mb - k + 1 - scaled k ?ws ! s \<and> cd_code cd ! s = sym_code (scaled k ?ws) s
        else cd_nbits cd ! s = 0"
      using co s has_code_scaled [OF k(1), of s] by (simp add: codes_of_def)
    show "if has_code ?ws s then cd_nbits cd ! s = mb + 1 - ?ws ! s \<and> cd_code cd ! s = sym_code ?ws s else cd_nbits cd ! s = 0"
    proof (cases "has_code ?ws s")
      case True
      have b: "s < length ?ws" "k < ?ws ! s" using above_nth [OF k(1) True] by simp_all
      then have "scaled k ?ws ! s = ?ws ! s - k" by (simp only: scaled_def nth_map)
      then have "mb - k + 1 - scaled k ?ws ! s = mb + 1 - ?ws ! s" using b(2) km by simp
      then show ?thesis using one True sym_code_scaled [OF k(1) True] by simp
    qed (use one in simp)
  qed
  then have "codes_for cd t ?ws" using t by (simp add: codes_for_def mb_def)
  moreover have "code_table_from_huff t = Ok cd" using cd(1) by (simp add: code_table_from_huff_def table_lengths_def)
  ultimately show ?thesis by blast
qed

section \<open>What a parsed dictionary holds for the encoder\<close>

definition huff_built :: "huff_table \<Rightarrow> bool" where
  "huff_built t \<longleftrightarrow> (\<exists>ws lst. 0 < lst \<and> huff_table_for (ws @ [lst]) t)"

definition fse_built :: "int list \<times> nat \<times> nat \<Rightarrow> fse_table option \<Rightarrow> bool" where
  "fse_built nc dt \<longleftrightarrow> (\<exists>t. dt = Some t \<and> (case nc of (counts, ms, lg) \<Rightarrow> build_dtable counts ms lg = Ok t))"

definition dict_built :: "dictionary \<Rightarrow> bool" where
  "dict_built d \<longleftrightarrow> (case di_entropy d of None \<Rightarrow> True | Some e \<Rightarrow> huff_built (de_huff e)
     \<and> fse_built (de_ll_nc e) (st_ll (de_tables e)) \<and> fse_built (de_of_nc e) (st_of (de_tables e)) \<and> fse_built (de_ml_nc e) (st_ml (de_tables e)))"

lemma huff_build_table_built: "length weights \<le> 256 \<Longrightarrow> post (huff_build_table weights) huff_built (\<lambda>_. True)"
  using huff_build_table_cases [of weights] unfolding huff_built_def by (cases "huff_build_table weights") auto

lemma huff_read_table_built: "post (huff_read_table src) (\<lambda>(t, n). huff_built t \<and> n \<le> length src) (\<lambda>_. True)"
proof (cases "src = []")
  case True
  then show ?thesis by (simp add: huff_read_table_def)
next
  case False
  define h where "h = unat (src ! 0)"
  have "h < 256" by (simp add: h_def)
  then have "post (if h < 128 then fse_weights src h else packed_weights src (h - 127))
      (\<lambda>(ws, n). length ws \<le> 256 \<and> n \<le> length src) (\<lambda>e. True)"
    using fse_weights_post packed_weights_post by simp
  then show ?thesis
    using False unfolding huff_read_table_def
    by (auto simp: wp Let_def simp flip: h_def elim!: post_mono intro!: post_mono [OF huff_build_table_built])
qed

lemma dict_fse_table_built:
  assumes "p \<le> length bytes" and "max_log \<le> 9"
  shows "post (dict_fse_table bytes p max_log) (\<lambda>(nc, t, p'). fse_built (nc_triple nc) (Some t) \<and> p' \<le> length bytes) (\<lambda>_. True)"
proof (cases "read_ncount (drop p bytes) max_log")
  case (Ok nc)
  then have nc: "valid_norm (nc_counts nc) (nc_max_symbol nc) (nc_table_log nc)"
    "5 \<le> nc_table_log nc" "nc_table_log nc \<le> max_log" "nc_bytes_consumed nc \<le> length bytes - p"
    using read_ncount_cases [of max_log "drop p bytes"] assms by auto
  then obtain t where "build_dtable (nc_counts nc) (nc_max_symbol nc) (nc_table_log nc) = Ok t"
    using build_dtable_post [of "nc_counts nc" "nc_max_symbol nc" "nc_table_log nc"] assms(2)
    by (cases "build_dtable (nc_counts nc) (nc_max_symbol nc) (nc_table_log nc)") auto
  then show ?thesis using assms nc Ok by (simp add: dict_fse_table_def nc_triple_def fse_built_def)
qed (use read_ncount_cases [of max_log "drop p bytes"] assms in \<open>auto simp: dict_fse_table_def\<close>)

lemma dict_parse_built: "post (dict_parse bytes) dict_built (\<lambda>_. True)"
proof -
  have "post (dict_parse_tagged bytes) dict_built (\<lambda>_. True)" if len: "8 \<le> length bytes"
  proof -
    have huff: "post (huff_read_table (drop 8 bytes)) (\<lambda>(t, n). huff_built t \<and> 8 + n \<le> length bytes) (\<lambda>_. True)"
      using len by (intro post_mono [OF huff_read_table_built]) auto
    show ?thesis
      using len unfolding dict_parse_tagged_def
      by (auto simp: wp Let_def dict_built_def
          intro!: post_mono [OF huff] post_mono [OF dict_fse_table_built] post_mono [OF check_reps_post])
  qed
  then show ?thesis by (auto simp: dict_parse_def wp dict_raw_def dict_built_def)
qed

section \<open>The two sides start in step\<close>

lemma dict_ctable_pair:
  assumes "nc_ok max_log nc" and "max_log \<le> 9" and "fse_built nc dt"
  shows "\<exists>ct. dict_ctable nc = Ok ct \<and> channel_match (Some ct) dt"
proof -
  obtain counts ms lg where nc: "nc = (counts, ms, lg)" by (cases nc)
  have v: "valid_norm counts ms lg" "4 \<le> lg" "lg \<le> 9" using assms(1,2) by (simp_all add: nc_ok_def nc)
  obtain ct t where t: "build_ctable counts ms lg = Ok ct" "build_dtable counts ms lg = Ok t" "table_pair ct t"
    using table_pair_of_norm [OF v] by metis
  then have "dt = Some t" using assms(3) by (auto simp: fse_built_def nc)
  then show ?thesis using t by (simp add: dict_ctable_def nc channel_match_def)
qed

lemma dict_state_Ok:
  assumes "dict_ok d" and "dict_built d"
  shows "\<exists>e. dict_state d = Ok e \<and> primed (Some d) (di_id d) (di_content d) e \<and> rep_within (max 8 (length (di_content d))) (es_rep e)"
proof (cases "di_entropy d")
  case None
  then show ?thesis
    using primed_raw by (auto simp: dict_state_def fresh_state_def rep_within_def rep_list_def)
next
  case (Some en)
  have ok: "huff_table_ok (de_huff en)" "seq_tables_ok (de_tables en)" "\<forall>r \<in> set (rep_list (de_rep en)). 0 < r \<and> r \<le> length (di_content d)"
    "nc_ok 9 (de_ll_nc en)" "nc_ok 8 (de_of_nc en)" "nc_ok 9 (de_ml_nc en)" using assms(1) by (simp_all add: dict_ok_def Some)
  have built: "huff_built (de_huff en)" "fse_built (de_ll_nc en) (st_ll (de_tables en))" "fse_built (de_of_nc en) (st_of (de_tables en))"
    "fse_built (de_ml_nc en) (st_ml (de_tables en))" using assms(2) by (simp_all add: dict_built_def Some)
  obtain ll oft ml where t: "dict_ctable (de_ll_nc en) = Ok ll" "channel_match (Some ll) (st_ll (de_tables en))"
    "dict_ctable (de_of_nc en) = Ok oft" "channel_match (Some oft) (st_of (de_tables en))"
    "dict_ctable (de_ml_nc en) = Ok ml" "channel_match (Some ml) (st_ml (de_tables en))"
    using dict_ctable_pair [OF ok(4) _ built(2)] dict_ctable_pair [OF ok(5) _ built(3)] dict_ctable_pair [OF ok(6) _ built(4)] by auto
  obtain cd ws where cd: "code_table_from_huff (de_huff en) = Ok cd" "codes_for cd (de_huff en) ws"
    using code_table_from_huff_Ok built(1) unfolding huff_built_def by blast
  define e where "e = \<lparr>es_rep = de_rep en, es_seq = \<lparr>sc_ll = Some ll, sc_of = Some oft, sc_ml = Some ml\<rparr>, es_lit = Some cd\<rparr>"
  have "dict_state d = Ok e" by (simp add: dict_state_def Some t cd(1) ok_or_none_def e_def)
  moreover have "primed (Some d) (di_id d) (di_content d) e"
    using cd(2) t(2,4,6) ok(1,2)
    by (auto simp: primed_def prime_state_def load_dictionary_def Let_def Some in_step_def e_def initial_state_def block_inv_def
        lit_match_def seq_tables_match_def)
  moreover have "rep_within (max 8 (length (di_content d))) (es_rep e)" using ok(3) by (auto simp: rep_within_def e_def)
  ultimately show ?thesis by blast
qed

section \<open>Compression with a dictionary\<close>

lemma rep_within_mono: "rep_within V rep \<Longrightarrow> V \<le> W \<Longrightarrow> rep_within W rep"
  by (auto simp: rep_within_def)

lemma window_ok_dict:
  assumes "length data + n \<le> 2 ^ 32"
  shows "window_ok (cp_window_log (params_for_level_with_dict level (length data) n)) data"
proof -
  have sat: "saturating_add (length data) n = length data + n" using assms by (simp add: saturating_add_def usize_max_def)
  let ?wl = "cp_window_log (params_for_level_with_dict level (length data) n)"
  have "window_covers ?wl (length data + n)"
    using window_covers_mono [OF params_for_level_covers [OF assms, of level]] params_for_level_with_dict_window(1) [of level "length data" n]
    by (simp add: sat)
  then have "window_covers ?wl (length data)" by (auto simp: window_covers_def)
  moreover have "10 \<le> ?wl" "?wl \<le> 23"
    using params_for_level_range(1) [of level "length data + n"] params_for_level_with_dict_window [of level "length data" n] by (simp_all add: sat)
  ultimately show ?thesis using assms by (simp add: window_ok_def)
qed

lemma compress_with_dict_decodes:
  assumes d: "dict_ok d" "dict_built d" and len: "length data + length (di_content d) \<le> 2 ^ 31" and mx: "length data \<le> mx" "mx \<le> usize_max"
  shows "decodes_to (compress_with_dict data d level ck m) m (Some d) data mx"
proof -
  let ?n = "length (di_content d)" and ?all = "di_content d @ data"
  define p where "p = params_for_level_with_dict level (length data) ?n"
  define W where "W = max (2 ^ cp_window_log p) ?n"
  have w: "window_ok (cp_window_log p) data" unfolding p_def by (rule window_ok_dict) (use len in simp)
  then have wl: "10 \<le> cp_window_log p" "cp_window_log p \<le> 31" by (simp_all add: window_ok_def)
  have W: "2 ^ cp_window_log p \<le> W" "W + 3 < 2 ^ 32" "max 8 ?n \<le> W"
    using window_bounds [OF wl(2)] window_8 [OF wl(1)] len by (auto simp: W_def)
  obtain e where e: "dict_state d = Ok e" "primed (Some d) (di_id d) (di_content d) e" "rep_within (max 8 ?n) (es_rep e)"
    using dict_state_Ok [OF d] by blast
  obtain f where f: "finder_prime (finder_new p) ?all ?n (2 ^ cp_window_log p) = Ok f" "finder_inv (chain_ring p) (tree_ring p) ?all ?n f"
    using finder_prime_Ok [OF finder_new_inv, of ?n ?all p "2 ^ cp_window_log p"] by auto
  have m: "matched (es_seq e) (es_lit e)" using e(2) in_step_matched unfolding primed_def by blast
  have I: "regular_inv (chain_ring p) (tree_ring p) data ?all ?n (di_content d) W (2 ^ cp_window_log p) 0 (e, f)"
    using W f(2) m rep_within_mono [OF e(3) W(3)] by (simp add: regular_inv_def)
  have "\<exists>c. compress_with_dict data d level ck m = Ok c \<and> decode_frame c m mx (Some d) None = Ok \<lparr>df_data = data, df_consumed = length c\<rparr>"
    unfolding compress_with_dict_def Let_def p_def [symmetric] e(1) f(1) obind_simps
    by (rule frame_around_decodes [OF w e(2) _ mx]) (use regular.loop_decodes [OF I] in simp)
  then show ?thesis by (simp add: decodes_to_def decode_one_with_dict_def)
qed

section \<open>Properties\<close>

text \<open>C2: compression with a dictionary is lossless. For every dictionary that the parser accepts, raw or
  structured with preset tables, every level and every input such that input and dictionary content have at most 2 GiB,
  the encoder returns a frame, and the decoder with the same dictionary returns exactly the input and
  consumes exactly the frame. (The tables of the dictionary are rebuilt for encoding and may be used
  by the first block, so this includes that both sides start in step.)\<close>

theorem compress_with_dict_roundtrip:
  assumes "dict_parse bytes = Ok d" and "length data + length (di_content d) \<le> 2 ^ 31" and "length data \<le> mx" and "mx \<le> usize_max"
  shows "post (compress_with_dict data d level checksum expect_magic)
    (\<lambda>c. decode_one_with_dict c expect_magic mx (Some d) = Ok \<lparr>df_data = data, df_consumed = length c\<rparr>) (\<lambda>_. False)"
proof -
  have "dict_ok d" "dict_built d" using dict_parse_post [of bytes] dict_parse_built [of bytes] assms(1) by simp_all
  from compress_with_dict_decodes [OF this assms(2-4), of level checksum expect_magic] show ?thesis by (auto simp: decodes_to_def)
qed

theorem compress_with_dict_roundtrip_witness:
  "post (compress_with_dict [1, 2, 3, 4, 5, 6, 1, 2] (dict_raw [1, 2, 3, 4, 5, 6, 7]) 9 True True)
    (\<lambda>c. decode_one_with_dict c True 8 (Some (dict_raw [1, 2, 3, 4, 5, 6, 7])) = Ok \<lparr>df_data = [1, 2, 3, 4, 5, 6, 1, 2], df_consumed = length c\<rparr>) (\<lambda>_. False)"
  by (rule compress_with_dict_roundtrip [of "[1, 2, 3, 4, 5, 6, 7]"]) (simp_all add: dict_parse_def dict_raw_def usize_max_def)

end
