(* ===== verification/Lz_Slide.thy ===== *)
theory Lz_Slide
  imports Ldm
begin

text \<open>
  Sliding the buffer of a finder (\<open>reduce_index\<close> of \<^verbatim>\<open>src/encode/lz.rs\<close>): bytes are appended at the end, and a prefix is
  dropped, by which every position of the index is reduced. The invariant of a finder survives both, where
  the dropped length is a multiple of the ring period: the slot of a position in a ring stays the same.
\<close>

section \<open>More data\<close>

lemma suf_less_append: "suf_less data a b \<Longrightarrow> suf_less (data @ more') a b"
proof -
  assume "suf_less data a b"
  then obtain k where k: "agree_upto data a b k" "a + k < length data" "b + k < length data" "data ! (a + k) < data ! (b + k)"
    by (auto simp: suf_less_def)
  have "(data @ more') ! (a + j) = data ! (a + j)" "(data @ more') ! (b + j) = data ! (b + j)" if "j \<le> k" for j
    using k(2,3) that by (simp_all add: nth_append)
  then have "agree_upto (data @ more') a b k" "(data @ more') ! (a + k) < (data @ more') ! (b + k)" using k(1,4) by (simp_all add: agree_upto_def)
  then show ?thesis using k(2,3) unfolding suf_less_def by (intro exI [of _ k]) auto
qed

lemma side_append: "side data d x z \<Longrightarrow> side (data @ more') d x z"
  using suf_less_append by (auto simp: side_def)

lemma ordered_append: "ordered data bt N p U \<Longrightarrow> ordered (data @ more') bt N p U"
  unfolding ordered_def using side_append [of data _ _ _ more'] by simp

lemma bt_inv_append: "bt_inv rt data p st \<Longrightarrow> bt_inv rt (data @ more') p st"
  unfolding bt_inv_def tree_of_def using ordered_append by fast

lemma chain_inv_append: "chain_inv rc data p st \<Longrightarrow> chain_inv rc data' p st"
  by (simp add: chain_inv_def)

lemma finder_inv_append: "finder_inv rc rt data p f \<Longrightarrow> finder_inv rc rt (data @ more') p f"
  using bt_inv_append chain_inv_append by (cases f) (auto simp: hybrid_inv_def)

section \<open>Dropping a prefix\<close>

lemma suf_less_drop:
  assumes "suf_less data (a + n) (b + n)"
  shows "suf_less (drop n data) a b"
proof -
  obtain k where k: "agree_upto data (a + n) (b + n) k" "a + n + k < length data" "b + n + k < length data" "data ! (a + n + k) < data ! (b + n + k)"
    using assms by (auto simp: suf_less_def)
  have "drop n data ! (a + j) = data ! (a + n + j)" "drop n data ! (b + j) = data ! (b + n + j)" if "j \<le> k" for j
    using k(2,3) that by (simp_all add: add.commute add.left_commute)
  then have "agree_upto (drop n data) a b k" "drop n data ! (a + k) < drop n data ! (b + k)" using k(1,4) by (simp_all add: agree_upto_def)
  then show ?thesis using k(2,3) unfolding suf_less_def by (intro exI [of _ k]) auto
qed

lemma side_drop: "side data d (x + n) (z + n) \<Longrightarrow> side (drop n data) d x z"
  using suf_less_drop by (auto simp: side_def split: if_splits)

lemma reduce_index_entry_inverse:
  assumes "reduce_index_entry n e = int y" and "e < 2 ^ 31"
  shows "e = int (y + n)"
proof -
  have e: "\<not> e < 0" "n \<le> nat e" using assms(1) by (auto simp: reduce_index_entry_def split: if_splits)
  then have "as_i32 (nat e - n) = int (nat e - n)" using assms(2) by (simp add: as_i32_def)
  then have "int (nat e - n) = int y" using assms(1) e by (simp add: reduce_index_entry_def)
  then show ?thesis using e by linarith
qed

lemma reduce_index_table_nth:
  assumes "reduce_index_table n table ! i = int y" and "i < length table" and "earlier p table" and "p \<le> 2 ^ 31"
  shows "table ! i = int (y + n)"
proof (rule reduce_index_entry_inverse)
  show "reduce_index_entry n (table ! i) = int y" using assms(1,2) by (simp add: reduce_index_table_def)
  have "table ! i < int p" using assms(2,3) by (simp add: earlier_def)
  also have "int p \<le> 2 ^ 31" using assms(4) by (metis of_nat_le_iff of_nat_numeral of_nat_power)
  finally show "table ! i < 2 ^ 31" .
qed

lemma slot_of_shift: "N dvd n \<Longrightarrow> slot_of N (x + n) d = slot_of N x d"
  by (auto simp: slot_of_def elim!: dvdE)

lemma edge_shift:
  assumes "edge (reduce_index_table n bt) N (p - n) d x y" and "N dvd n" and "0 < N" and "length bt = 2 * N"
    and "earlier p bt" and "p \<le> 2 ^ 31" and "n \<le> p"
  shows "edge bt N p d (x + n) (y + n)"
proof -
  have e: "p - n < x + N" "p - n < y + N" "reduce_index_table n bt ! slot_of N x d = int y" using assms(1) by (simp_all add: edge_def)
  have "bt ! slot_of N x d = int (y + n)"
    using reduce_index_table_nth [OF e(3) _ assms(5,6)] slot_less [OF assms(3), of x d] assms(4) by simp
  moreover have "p < x + n + N" "p < y + n + N" using e(1,2) assms(7) by linarith+
  ultimately show ?thesis using slot_of_shift [OF assms(2)] by (simp add: edge_def)
qed

lemma down_shift:
  assumes "down (reduce_index_table n bt) N (p - n) d x z" and "N dvd n" and "0 < N" and "length bt = 2 * N"
    and "earlier p bt" and "p \<le> 2 ^ 31" and "n \<le> p"
  shows "down bt N p d (x + n) (z + n)"
proof -
  note shift = edge_shift [OF _ assms(2-7)]
  obtain y where y: "edge (reduce_index_table n bt) N (p - n) d x y" "(estep (reduce_index_table n bt) N (p - n))\<^sup>*\<^sup>* y z"
    using assms(1) by (auto simp: down_def)
  from y(2) have "(estep bt N p)\<^sup>*\<^sup>* (y + n) (z + n)"
  proof (induction rule: rtranclp_induct)
    case (step a b)
    obtain d' where "edge (reduce_index_table n bt) N (p - n) d' a b" using step(2) by (auto simp: estep_def)
    from shift [OF this] have "estep bt N p (a + n) (b + n)" by (auto simp: estep_def)
    with step(3) show ?case by (rule rtranclp.rtrancl_into_rtrancl)
  qed simp
  then show ?thesis using shift [OF y(1)] by (auto simp: down_def)
qed

lemma bt_inv_reduce:
  assumes inv: "bt_inv rt data p st" and n: "n \<le> p" "bt_slide_period st dvd n" and p: "p \<le> 2 ^ 31"
  shows "bt_inv rt (drop n data) (p - n) (bt_reduce n st)"
proof -
  obtain k U where i: "bt_hash_log st \<le> 32" "length (bt_hash st) = 2 ^ bt_hash_log st" "earlier p (bt_hash st)" "earlier p (bt_links st)"
    "bt_mask st = 2 ^ k - 1" "k \<le> 32" "length (bt_links st) = 2 * 2 ^ k" "tree_of data p st (2 ^ k) U" "bt_mask st + 1 = rt"
    using inv by (auto simp: bt_inv_def)
  let ?N = "2 ^ k :: nat" and ?bt = "reduce_index_table n (bt_links st)" and ?U = "{x. x + n \<in> U}"
  have N: "?N dvd n" "0 < ?N" using n(2) i(5) by (simp_all add: bt_slide_period_def)
  have t: "ordered data (bt_links st) ?N p U" "\<forall>x \<in> U. x < p" "\<forall>c \<in> set (bt_hash st). live ?N p c \<longrightarrow> nat c \<in> U"
    using i(8) by (simp_all add: tree_of_def)
  note shift = edge_shift [OF _ N i(7,4) p n(1)] and dshift = down_shift [OF _ N i(7,4) p n(1)]
  have "ordered (drop n data) ?bt ?N (p - n) ?U"
    unfolding ordered_def
  proof (intro ballI allI conjI impI)
    fix x d y assume "x \<in> ?U" "edge ?bt ?N (p - n) d x y"
    then show "y \<in> ?U" using t(1) shift [of d x y] by (auto simp: ordered_def)
  next
    fix x d z assume "x \<in> ?U" "down ?bt ?N (p - n) d x z"
    then show "side (drop n data) d x z" using ordered_side [OF t(1), of "x + n" d "z + n"] dshift [of d x z] side_drop by auto
  qed
  moreover have "\<forall>x \<in> ?U. x < p - n" using t(2) by fastforce
  moreover have "nat c \<in> ?U" if c: "c \<in> set (reduce_index_table n (bt_hash st))" "live ?N (p - n) c" for c
  proof -
    obtain h where h: "h < length (bt_hash st)" "reduce_index_table n (bt_hash st) ! h = c" using c(1) by (auto simp: in_set_conv_nth)
    have l: "c = int (nat c)" "p - n < nat c + ?N" using c(2) by (simp_all add: live_def)
    then have e: "bt_hash st ! h = int (nat c + n)" using reduce_index_table_nth [of n "bt_hash st" h "nat c"] h i(3) p by simp
    moreover have "p < nat c + n + ?N" using l(2) n(1) by linarith
    ultimately have "live ?N p (bt_hash st ! h)" unfolding e live_def nat_int by simp
    then have "nat (bt_hash st ! h) \<in> U" using t(3) h(1) by simp
    then show ?thesis unfolding e by (simp only: nat_int mem_Collect_eq)
  qed
  ultimately have "tree_of (drop n data) (p - n) (bt_reduce n st) ?N ?U" by (simp add: tree_of_def bt_reduce_def)
  then have "\<exists>U. tree_of (drop n data) (p - n) (bt_reduce n st) ?N U" by blast
  then show ?thesis using i(1-7,9) n(1) earlier_reduce unfolding bt_inv_def by (auto simp: bt_reduce_def)
qed

lemma hybrid_period:
  assumes "hybrid_inv rc rt data p st" and "max (chain_slide_period (fst st)) (bt_slide_period (snd st)) dvd n"
  shows "bt_slide_period (snd st) dvd n"
proof -
  obtain a b where "chain_slide_period (fst st) = 2 ^ a" "bt_slide_period (snd st) = 2 ^ b"
    using assms(1) by (auto simp: hybrid_inv_def chain_inv_def bt_inv_def chain_slide_period_def bt_slide_period_def)
  moreover have "(2::nat) ^ b dvd max (2 ^ a) (2 ^ b)" by (cases "a \<le> b") (auto simp: max_def le_imp_power_dvd)
  ultimately show ?thesis using assms(2) by (metis dvd_trans)
qed

lemma finder_inv_reduce:
  assumes f: "finder_inv rc rt data p f" and n: "n \<le> p" "finder_slide_period f dvd n" and p: "p \<le> 2 ^ 31"
  shows "finder_inv rc rt (drop n data) (p - n) (finder_reduce n f)"
proof -
  have h: "hybrid_inv rc rt (drop n data) (p - n) (hybrid_reduce n st)"
    if "hybrid_inv rc rt data p st" "max (chain_slide_period (fst st)) (bt_slide_period (snd st)) dvd n" for st
    using that chain_inv_reduce [OF _ n(1)] bt_inv_reduce [OF _ n(1) hybrid_period [OF that] p]
    by (auto simp: hybrid_inv_def hybrid_reduce_def)
  show ?thesis using f n fast_inv_reduce dfast_inv_reduce chain_inv_reduce h by (cases f) auto
qed

end
