(* ===== verification/Stream_Encode.thy ===== *)
theory Stream_Encode
  imports Dict_Encode Lz_Slide
begin

text \<open>
  \<^verbatim>\<open>src/encode/stream.rs\<close>: the streaming encoder. Input arrives in pieces; a block is written as soon as more
  than 128 KiB wait, always of 128 KiB, and the rest becomes the last block. The input that no match can
  reach any more is dropped, and the positions in the finder are reduced. Whatever the pieces are, and
  whenever the output is taken, the frame is the same, it decodes to the input, and the encoder keeps a bounded
  part of the input.
\<close>

section \<open>State and operations\<close>

record stream_enc =
  se_checksum :: bool
  se_max_offset :: nat
  se_regular_reach :: nat
  se_ldm :: "ldm_state option"
  se_split_depth :: nat
  se_input :: "byte list"
  se_dropped :: nat
  se_emitted :: nat
  se_out :: "byte list"
  se_finder :: finder
  se_state :: enc_state
  se_hasher :: xxh64_state

definition stream_with_options :: "int \<Rightarrow> bool \<Rightarrow> bool \<Rightarrow> stream_enc result" where
  "stream_with_options level checksum expect_magic =
     (let params = params_for_level level usize_max;
          window_log = cp_window_log params;
          max_offset = 2 ^ window_log in
      obind (write_frame_header_streaming checksum window_log) (\<lambda>header.
      Ok \<lparr>se_checksum = checksum, se_max_offset = max_offset, se_regular_reach = max_offset, se_ldm = None,
          se_split_depth = split_depth_for (cp_strategy params), se_input = [], se_dropped = 0, se_emitted = 0,
          se_out = (if expect_magic then le_bytes 4 (unat ZSTD_MAGIC) else []) @ header,
          se_finder = finder_new params, se_state = fresh_state, se_hasher = xxh64_new 0\<rparr>))"

definition stream_with_options_long :: "int \<Rightarrow> bool \<Rightarrow> bool \<Rightarrow> nat \<Rightarrow> stream_enc result" where
  "stream_with_options_long level checksum expect_magic window_log =
     (let params = params_for_level level usize_max;
          regular_reach = 2 ^ cp_window_log params;
          window_log = clamp window_log (cp_window_log params) LDM_MAX_WINDOW_LOG;
          max_offset = 2 ^ window_log in
      obind (write_frame_header_streaming checksum window_log) (\<lambda>header.
      Ok \<lparr>se_checksum = checksum, se_max_offset = max_offset, se_regular_reach = regular_reach,
          se_ldm = Some (ldm_state_new window_log),
          se_split_depth = split_depth_for (cp_strategy params), se_input = [], se_dropped = 0, se_emitted = 0,
          se_out = (if expect_magic then le_bytes 4 (unat ZSTD_MAGIC) else []) @ header,
          se_finder = finder_new params, se_state = fresh_state, se_hasher = xxh64_new 0\<rparr>))"

definition stream_new :: "int \<Rightarrow> stream_enc result" where
  "stream_new level = stream_with_options level False True"

definition stream_total :: "stream_enc \<Rightarrow> nat" where
  "stream_total s = se_dropped s + length (se_input s)"

text \<open>The emission of the block \<open>start..e\<close> of the buffer, with the long matches of the block if there is an index.\<close>

definition stream_block ::
  "stream_enc \<Rightarrow> byte list \<Rightarrow> nat \<Rightarrow> nat \<Rightarrow> bool \<Rightarrow> ((byte list \<times> enc_state) result \<times> finder \<times> ldm_state option) result" where
  "stream_block s buffer start e lst =
     (case se_ldm s of
        Some ldm \<Rightarrow>
          obind (ldm_generate buffer start e (se_regular_reach s) (se_max_offset s) ldm) (\<lambda>(ldm, matches).
          obind (write_compressed_block_ldm lst buffer start e (se_finder s) (se_regular_reach s) (se_state s) (se_split_depth s) matches)
            (\<lambda>(m, finder). Ok (m, finder, Some ldm)))
      | None \<Rightarrow>
          obind (write_compressed_block lst buffer start e (se_finder s) (se_max_offset s) (se_state s) (se_split_depth s))
            (\<lambda>(m, finder). Ok (m, finder, None)))"

text \<open>The block up to the absolute position \<open>e\<close>, parsed against the input up to there.\<close>

definition emit_block :: "nat \<Rightarrow> bool \<Rightarrow> stream_enc \<Rightarrow> stream_enc result" where
  "emit_block e lst s =
     obind (usub (se_emitted s) (se_dropped s)) (\<lambda>start_rel.
     obind (usub e (se_dropped s)) (\<lambda>end_rel.
     obind (slice_range (se_input s) start_rel end_rel) (\<lambda>chunk.
     obind (slice_range (se_input s) 0 end_rel) (\<lambda>buffer.
     obind (stream_block s buffer start_rel end_rel lst) (\<lambda>(m, finder, ldm).
     obind (keep_smaller (write_store_block lst chunk) (se_state s) m) (\<lambda>(bytes, state).
     Ok (s\<lparr>se_finder := finder, se_ldm := ldm, se_state := state, se_out := se_out s @ bytes, se_emitted := e\<rparr>)))))))"

definition maybe_slide :: "stream_enc \<Rightarrow> stream_enc result" where
  "maybe_slide s =
     obind (usub (se_emitted s) (se_dropped s)) (\<lambda>history.
     if history \<le> 2 * se_max_offset s then Ok s
     else
       obind (usub history (se_max_offset s)) (\<lambda>desired.
       let n = desired - desired mod finder_slide_period (se_finder s) in
       if n = 0 then Ok s
       else
         obind (slice_from (se_input s) n) (\<lambda>rest.
         Ok (s\<lparr>se_finder := finder_reduce n (se_finder s), se_ldm := map_option (ldm_reduce n) (se_ldm s),
               se_input := rest, se_dropped := se_dropped s + n\<rparr>))))"

lemma emit_block_frame:
  "emit_block e lst s = Ok s' \<Longrightarrow> se_input s' = se_input s \<and> se_dropped s' = se_dropped s \<and> se_emitted s' = e"
  by (auto simp: emit_block_def outcome_simps)

lemma maybe_slide_frame:
  "maybe_slide s = Ok s' \<Longrightarrow> stream_total s' = stream_total s \<and> se_emitted s' = se_emitted s"
  by (auto simp: maybe_slide_def outcome_simps stream_total_def Let_def split: if_splits)

function drain_full_blocks :: "stream_enc \<Rightarrow> stream_enc result" where
  "drain_full_blocks s =
     obind (usub (stream_total s) (se_emitted s)) (\<lambda>waiting.
     if BLOCK_SIZE_MAX < waiting then
       obind (emit_block (se_emitted s + BLOCK_SIZE_MAX) False s) (\<lambda>s.
       obind (maybe_slide s) (\<lambda>s.
       drain_full_blocks s))
     else Ok s)"
  by pat_completeness auto
termination
proof (relation "measure (\<lambda>s. stream_total s - se_emitted s)")
  fix s w s1 s2
  assume w: "usub (stream_total s) (se_emitted s) = (Ok w :: nat result)" "BLOCK_SIZE_MAX < w"
    and e: "emit_block (se_emitted s + BLOCK_SIZE_MAX) False s = Ok s1" and m: "maybe_slide s1 = Ok s2"
  have "stream_total s2 = stream_total s" "se_emitted s2 = se_emitted s + BLOCK_SIZE_MAX"
    using emit_block_frame [OF e] maybe_slide_frame [OF m] by (simp_all add: stream_total_def)
  then show "(s2, s) \<in> measure (\<lambda>s. stream_total s - se_emitted s)"
    using w by (simp add: outcome_simps BLOCK_SIZE_MAX_def)
qed simp

declare drain_full_blocks.simps [simp del]

text \<open>The pieces \<open>data.chunks(BLOCK_SIZE_MAX)\<close>.\<close>

function block_chunks :: "byte list \<Rightarrow> byte list list" where
  "block_chunks data = (if data = [] then [] else take BLOCK_SIZE_MAX data # block_chunks (drop BLOCK_SIZE_MAX data))"
  by pat_completeness auto
termination by (relation "measure length") (auto simp: BLOCK_SIZE_MAX_def)

declare block_chunks.simps [simp del]

definition push_part :: "byte list \<Rightarrow> stream_enc \<Rightarrow> stream_enc result" where
  "push_part part s = drain_full_blocks (s\<lparr>se_input := se_input s @ part\<rparr>)"

definition stream_push :: "byte list \<Rightarrow> stream_enc \<Rightarrow> stream_enc result" where
  "stream_push data s = ofold push_part (block_chunks data) (s\<lparr>se_hasher := xxh64_update (se_hasher s) data\<rparr>)"

definition take_output :: "stream_enc \<Rightarrow> byte list \<times> stream_enc" where
  "take_output s = (se_out s, s\<lparr>se_out := []\<rparr>)"

definition stream_finish :: "stream_enc \<Rightarrow> byte list result" where
  "stream_finish s =
     obind
       (if stream_total s = 0 then Ok (s\<lparr>se_out := se_out s @ write_raw_block True []\<rparr>)
        else obind (drain_full_blocks s) (\<lambda>s. emit_block (stream_total s) True s))
     (\<lambda>s. Ok (se_out s @
        (if se_checksum s then le_bytes 4 (unat (ucast (xxh64_digest (se_hasher s) AND 0xFFFFFFFF) :: u32)) else [])))"

definition pending_output_len :: "stream_enc \<Rightarrow> nat" where
  "pending_output_len s = length (se_out s)"

definition buffered_input_len :: "stream_enc \<Rightarrow> nat" where
  "buffered_input_len s = length (se_input s)"

definition stream_window_size :: "stream_enc \<Rightarrow> nat" where
  "stream_window_size s = se_max_offset s"

section \<open>Emitting a block\<close>

text \<open>The block is that of the one-shot encoder over the retained input.\<close>

lemma take_buffer: "start \<le> e \<Longrightarrow> e \<le> length xs \<Longrightarrow> take (e - start) (drop start (take e xs)) = take (e - start) (drop start xs)"
  by (simp add: drop_take)

lemma emit_block_as:
  assumes D: "se_dropped s \<le> se_emitted s" "se_emitted s \<le> e" "e - se_dropped s \<le> length (se_input s)"
  shows "emit_block e lst s =
    (case se_ldm s of
       None \<Rightarrow>
         obind (regular_block (take (e - se_dropped s) (se_input s)) (take (e - se_dropped s) (se_input s)) 0 (se_max_offset s) (se_split_depth s)
           (se_emitted s - se_dropped s) (e - se_dropped s) lst (se_state s, se_finder s)) (\<lambda>(bytes, state, finder).
         Ok (s\<lparr>se_finder := finder, se_ldm := None, se_state := state, se_out := se_out s @ bytes, se_emitted := e\<rparr>))
     | Some ldm \<Rightarrow>
         obind (long_block (take (e - se_dropped s) (se_input s)) (se_regular_reach s) (se_max_offset s) (se_split_depth s)
           (se_emitted s - se_dropped s) (e - se_dropped s) lst (se_state s, se_finder s, ldm)) (\<lambda>(bytes, state, finder, ldm).
         Ok (s\<lparr>se_finder := finder, se_ldm := Some ldm, se_state := state, se_out := se_out s @ bytes, se_emitted := e\<rparr>)))"
proof -
  have le: "se_dropped s \<le> e" "se_emitted s - se_dropped s \<le> e - se_dropped s" using D by simp_all
  have buffer: "slice_range (take (e - se_dropped s) (se_input s)) (se_emitted s - se_dropped s) (e - se_dropped s)
      = (Ok (take (e - se_dropped s - (se_emitted s - se_dropped s)) (drop (se_emitted s - se_dropped s) (se_input s))) :: byte list result)"
    using D(3) le(2) take_buffer [OF le(2) D(3)] by simp
  note run = emit_block_def usub_Ok [OF D(1)] usub_Ok [OF le(1)] slice_range_Ok [OF le(2) D(3)] slice_range_Ok [OF le0 D(3)]
    obind_simps drop_0 diff_zero regular_block_def long_block_def stream_block_def buffer add_0 Let_def obind_assoc split_def fst_conv snd_conv
  show ?thesis unfolding run by (cases "se_ldm s") (simp_all add: obind_assoc split_def)
qed

section \<open>The invariant\<close>

text \<open>\<open>data\<close> is everything pushed so far; \<open>B\<close> bounds the emitted input that is still kept.\<close>

definition kept :: "stream_enc \<Rightarrow> nat" where
  "kept s = se_emitted s - se_dropped s"

definition stream_inv :: "nat \<Rightarrow> nat \<Rightarrow> nat \<Rightarrow> byte list \<Rightarrow> stream_enc \<Rightarrow> bool" where
  "stream_inv rc rt B data s \<longleftrightarrow>
     se_dropped s \<le> se_emitted s \<and> se_emitted s \<le> length data \<and> se_input s = drop (se_dropped s) data \<and> kept s \<le> B
     \<and> se_regular_reach s \<le> se_max_offset s \<and> se_max_offset s \<le> 2 ^ 27
     \<and> finder_inv rc rt (take (kept s) (se_input s)) (kept s) (se_finder s)
     \<and> (\<forall>ldm. se_ldm s = Some ldm \<longrightarrow> ldm_inv (kept s) ldm)
     \<and> rep_within (se_max_offset s) (es_rep (se_state s)) \<and> matched (es_seq (se_state s)) (es_lit (se_state s))"

lemma stream_invD:
  assumes "stream_inv rc rt B data s"
  shows "se_dropped s \<le> se_emitted s" "se_emitted s \<le> length data" "se_input s = drop (se_dropped s) data" "kept s \<le> B"
    "se_regular_reach s \<le> se_max_offset s" "se_max_offset s \<le> 2 ^ 27"
    "finder_inv rc rt (take (kept s) (se_input s)) (kept s) (se_finder s)"
    "\<And>ldm. se_ldm s = Some ldm \<Longrightarrow> ldm_inv (kept s) ldm"
    "rep_within (se_max_offset s) (es_rep (se_state s))" "matched (es_seq (se_state s)) (es_lit (se_state s))"
  using assms unfolding stream_inv_def by blast+

lemma stream_inv_total: "stream_inv rc rt B data s \<Longrightarrow> stream_total s = length data"
  by (simp add: stream_inv_def stream_total_def)

lemma stream_inv_bound: "stream_inv rc rt B data s \<Longrightarrow> kept s \<le> C \<Longrightarrow> stream_inv rc rt C data s"
  unfolding stream_inv_def by blast

text \<open>What an operation leaves as it is.\<close>

definition same_setup :: "stream_enc \<Rightarrow> stream_enc \<Rightarrow> bool" where
  "same_setup s s' \<longleftrightarrow> se_max_offset s' = se_max_offset s \<and> se_checksum s' = se_checksum s \<and> se_hasher s' = se_hasher s"

lemma same_setup_trans: "same_setup a b \<Longrightarrow> same_setup b c \<Longrightarrow> same_setup a c"
  by (simp add: same_setup_def)

text \<open>A block is written, behind the data that was emitted before.\<close>

definition block_written :: "nat \<Rightarrow> bool \<Rightarrow> byte list \<Rightarrow> stream_enc \<Rightarrow> stream_enc \<Rightarrow> bool" where
  "block_written e lst data s s' \<longleftrightarrow> (\<exists>bytes. se_out s' = se_out s @ bytes \<and> length bytes \<le> 3 + (e - se_emitted s)
     \<and> writes bytes lst (se_state s) (take (se_emitted s) data) (take (e - se_emitted s) (drop (se_emitted s) data)) (se_state s'))"

lemma emit_block_Ok:
  assumes inv: "stream_inv rc rt B data s" and e: "se_emitted s \<le> e" "e \<le> length data" "e - se_emitted s \<le> BLOCK_SIZE_MAX"
  shows "\<exists>s'. emit_block e lst s = Ok s' \<and> stream_inv rc rt (B + BLOCK_SIZE_MAX) data s' \<and> same_setup s s' \<and> se_emitted s' = e
    \<and> block_written e lst data s s'"
proof -
  note i = stream_invD [OF inv]
  let ?D = "se_dropped s" and ?E = "se_emitted s" and ?W = "se_max_offset s"
  define buf where "buf = take (e - ?D) (se_input s)"
  have len: "e - ?D \<le> length (se_input s)" "length buf = e - ?D" "?E - ?D \<le> e - ?D" using e i(1-3) by (simp_all add: buf_def)
  have W: "?W + 3 < 2 ^ 32" using i(6) by simp
  have "take (e - ?D) (se_input s) = take (kept s) (se_input s) @ take (e - ?E) (drop (kept s) (se_input s))"
    using e(1) i(1) by (simp add: kept_def take_add [symmetric])
  then have f: "finder_inv rc rt buf (?E - ?D) (se_finder s)" using finder_inv_append [OF i(7)] by (simp add: buf_def kept_def)
  have span: "e - ?D - (?E - ?D) = e - ?E" using e(1) i(1) by simp
  have tk: "take ?D data @ take (?E - ?D) buf = take ?E data"
    using i(1,2) e by (simp add: buf_def i(3) min_absorb1 take_add [symmetric])
  have ys: "take (e - ?E) (drop (?E - ?D) buf) = take (e - ?E) (drop ?E data)"
    using i(1,2) e by (simp add: buf_def i(3) drop_take)
  have room: "e - ?D - (?E - ?D) \<le> BLOCK_SIZE_MAX" using span e(3) by simp
  have core: "stream_inv rc rt (B + BLOCK_SIZE_MAX) data (s\<lparr>se_finder := f', se_ldm := l', se_state := st', se_out := out', se_emitted := e\<rparr>)"
    if "finder_inv rc rt buf (e - ?D) f'" "\<And>ldm. l' = Some ldm \<Longrightarrow> ldm_inv (e - ?D) ldm" "rep_within ?W (es_rep st')" "matched (es_seq st') (es_lit st')"
    for f' l' st' out'
    using that i(1-6) e by (simp add: stream_inv_def kept_def buf_def)
  show ?thesis
  proof (cases "se_ldm s")
    case None
    have "regular_inv rc rt buf buf 0 [] ?W ?W (?E - ?D) (se_state s, se_finder s)"
      using f i(9,10) W by (simp add: regular_inv_def)
    from regular_block_law [OF this len(3) eq_refl [OF len(2) [symmetric]] room, of "se_split_depth s" lst "take ?D data", unfolded append_Nil span tk ys fst_conv]
    obtain bytes sf where r: "regular_block buf buf 0 ?W (se_split_depth s) (?E - ?D) (e - ?D) lst (se_state s, se_finder s) = Ok (bytes, sf)"
      "regular_inv rc rt buf buf 0 [] ?W ?W (e - ?D) sf" "length bytes \<le> 3 + (e - ?E)"
      "writes bytes lst (se_state s) (take ?E data) (take (e - ?E) (drop ?E data)) (fst sf)" by blast
    obtain st' f' where sf: "sf = (st', f')" by (cases sf)
    note b = r [unfolded sf fst_conv]
    let ?s = "s\<lparr>se_finder := f', se_ldm := None, se_state := st', se_out := se_out s @ bytes, se_emitted := e\<rparr>"
    have "emit_block e lst s = Ok ?s"
      using emit_block_as [OF i(1) e(1) len(1), of lst] b(1) by (simp add: None buf_def [symmetric])
    moreover have "stream_inv rc rt (B + BLOCK_SIZE_MAX) data ?s" by (rule core) (use b(2) in \<open>simp_all add: regular_inv_def\<close>)
    ultimately show ?thesis using b(3,4) by (intro exI [of _ ?s]) (simp add: same_setup_def block_written_def)
  next
    case (Some ldm)
    have "long_inv rc rt buf ?W (se_regular_reach s) (?E - ?D) (se_state s, se_finder s, ldm)"
      using f i(5,8-10) W Some by (simp add: long_inv_def kept_def)
    from long_block_law [OF this len(3) eq_refl [OF len(2) [symmetric]] room, of "se_split_depth s" lst "take ?D data", unfolded span tk ys fst_conv]
    obtain bytes sf where r: "long_block buf (se_regular_reach s) ?W (se_split_depth s) (?E - ?D) (e - ?D) lst (se_state s, se_finder s, ldm) = Ok (bytes, sf)"
      "long_inv rc rt buf ?W (se_regular_reach s) (e - ?D) sf" "length bytes \<le> 3 + (e - ?E)"
      "writes bytes lst (se_state s) (take ?E data) (take (e - ?E) (drop ?E data)) (fst sf)" by blast
    obtain st' f' ldm' where sf: "sf = (st', f', ldm')" by (cases sf)
    note b = r [unfolded sf fst_conv]
    let ?s = "s\<lparr>se_finder := f', se_ldm := Some ldm', se_state := st', se_out := se_out s @ bytes, se_emitted := e\<rparr>"
    have "emit_block e lst s = Ok ?s"
      using emit_block_as [OF i(1) e(1) len(1), of lst] b(1) by (simp add: Some buf_def [symmetric])
    moreover have "stream_inv rc rt (B + BLOCK_SIZE_MAX) data ?s" by (rule core) (use b(2) in \<open>simp_all add: long_inv_def\<close>)
    ultimately show ?thesis using b(3,4) by (intro exI [of _ ?s]) (simp add: same_setup_def block_written_def)
  qed
qed

text \<open>Behind a slide, at most two windows are kept, or one window and a period of the finder.\<close>

definition kept_bound :: "nat \<Rightarrow> nat \<Rightarrow> stream_enc \<Rightarrow> nat" where
  "kept_bound rc rt s = max (2 * se_max_offset s) (se_max_offset s + max rc rt)"

lemma maybe_slide_Ok:
  assumes inv: "stream_inv rc rt B data s" and small: "B \<le> 2 ^ 31" and rings: "0 < rc" "0 < rt"
  shows "\<exists>s'. maybe_slide s = Ok s' \<and> stream_inv rc rt (kept_bound rc rt s) data s' \<and> same_setup s s' \<and> se_emitted s' = se_emitted s
    \<and> se_out s' = se_out s \<and> se_state s' = se_state s"
proof -
  note i = stream_invD [OF inv]
  define N where "N = max rc rt"
  have period: "finder_slide_period (se_finder s) = N" using finder_period [OF i(7)] by (simp add: N_def)
  have N: "0 < N" using rings(1) by (simp add: N_def)
  let ?W = "se_max_offset s"
  define n where "n = (kept s - ?W) - (kept s - ?W) mod N"
  have h: "usub (se_emitted s) (se_dropped s) = (Ok (kept s) :: nat result)" using i(1) by (simp add: kept_def)
  show ?thesis
  proof (cases "kept s \<le> 2 * ?W \<or> n = 0")
    case True
    have "maybe_slide s = Ok s"
      using True unfolding maybe_slide_def h obind_simps period n_def by (auto simp: Let_def)
    moreover have "kept s \<le> kept_bound rc rt s"
    proof (cases "kept s \<le> 2 * ?W")
      case False
      then have "kept s - ?W \<le> (kept s - ?W) mod N" using True by (simp add: n_def)
      then have "kept s - ?W = (kept s - ?W) mod N" using mod_less_eq_dividend le_antisym by blast
      then have "kept s - ?W < N" using N by (metis mod_less_divisor)
      then show ?thesis by (simp add: kept_bound_def N_def)
    qed (simp add: kept_bound_def)
    ultimately show ?thesis using stream_inv_bound [OF inv] by (intro exI [of _ s]) (simp add: same_setup_def)
  next
    case False
    then have big: "2 * ?W < kept s" "0 < n" by simp_all
    have dvd: "N dvd n" unfolding n_def by (rule dvd_minus_mod)
    have n: "n \<le> kept s" "kept s - n \<le> ?W + (kept s - ?W) mod N" "n \<le> length (se_input s)"
      using big i(1-3) by (simp_all add: n_def kept_def)
    let ?s = "s\<lparr>se_finder := finder_reduce n (se_finder s), se_ldm := map_option (ldm_reduce n) (se_ldm s),
      se_input := drop n (se_input s), se_dropped := se_dropped s + n\<rparr>"
    have no: "\<not> kept s \<le> 2 * ?W" "n \<noteq> 0" "?W \<le> kept s" using big by simp_all
    have "maybe_slide s = Ok ?s"
      unfolding maybe_slide_def h obind_simps period if_not_P [OF no(1)] usub_Ok [OF no(3)] Let_def n_def [symmetric] if_not_P [OF no(2)]
        slice_from_Ok [OF n(3)] ..
    moreover have "stream_inv rc rt (kept_bound rc rt s) data ?s"
    proof -
      have "kept s \<le> 2 ^ 31" using i(4) small by simp
      from finder_inv_reduce [OF i(7) n(1) _ this] dvd period
      have f: "finder_inv rc rt (drop n (take (kept s) (se_input s))) (kept s - n) (finder_reduce n (se_finder s))" by simp
      have k: "kept ?s = kept s - n" "se_dropped s + n \<le> se_emitted s" using n(1) i(1) by (simp_all add: kept_def)
      have "(kept s - ?W) mod N \<le> N" using N by (simp add: less_imp_le)
      then have "kept s - n \<le> kept_bound rc rt s" using n(2) by (simp add: kept_bound_def N_def)
      moreover have "finder_inv rc rt (take (kept s - n) (drop n (se_input s))) (kept s - n) (finder_reduce n (se_finder s))"
        using f by (simp add: drop_take)
      moreover have "\<And>ldm. map_option (ldm_reduce n) (se_ldm s) = Some ldm \<Longrightarrow> ldm_inv (kept s - n) ldm"
        using i(8) ldm_inv_reduce [OF _ n(1)] by auto
      ultimately show ?thesis using i k by (simp add: stream_inv_def add.commute)
    qed
    ultimately show ?thesis by (intro exI [of _ ?s]) (simp add: same_setup_def)
  qed
qed
text \<open>The rings of the finder are at most of \<open>2 ^ 23\<close> slots.\<close>

definition rings_ok :: "nat \<Rightarrow> nat \<Rightarrow> bool" where
  "rings_ok rc rt \<longleftrightarrow> 0 < rc \<and> rc \<le> 2 ^ 23 \<and> 0 < rt \<and> rt \<le> 2 ^ 23"

text \<open>At most one block waits.\<close>

definition drained :: "stream_enc \<Rightarrow> bool" where
  "drained s \<longleftrightarrow> stream_total s \<le> se_emitted s + BLOCK_SIZE_MAX"

abbreviation stream_ok :: "nat \<Rightarrow> nat \<Rightarrow> byte list \<Rightarrow> stream_enc \<Rightarrow> bool" where
  "stream_ok rc rt data s \<equiv> stream_inv rc rt (kept_bound rc rt s) data s"

lemma drain_drained: "stream_inv rc rt B data s \<Longrightarrow> drained s \<Longrightarrow> drain_full_blocks s = Ok s"
  using stream_inv_total [of rc rt B data s] by (subst drain_full_blocks.simps) (auto simp: drained_def stream_inv_def outcome_simps)

lemma emit_and_slide:
  assumes inv: "stream_ok rc rt data s" and rings: "rings_ok rc rt" and more: "\<not> drained s"
  shows "\<exists>s1 s2. emit_block (se_emitted s + BLOCK_SIZE_MAX) False s = Ok s1 \<and> maybe_slide s1 = Ok s2
    \<and> drain_full_blocks s = drain_full_blocks s2 \<and> block_written (se_emitted s + BLOCK_SIZE_MAX) False data s s1
    \<and> stream_inv rc rt (kept_bound rc rt s + BLOCK_SIZE_MAX) data s1 \<and> stream_ok rc rt data s2
    \<and> same_setup s s2 \<and> se_emitted s2 = se_emitted s + BLOCK_SIZE_MAX \<and> se_out s2 = se_out s1 \<and> se_state s2 = se_state s1"
proof -
  let ?e = "se_emitted s + BLOCK_SIZE_MAX"
  have e: "?e < length data" using more stream_inv_total [OF inv] by (simp add: drained_def)
  then have e': "se_emitted s \<le> length data" "BLOCK_SIZE_MAX < length data - se_emitted s" by linarith+
  obtain s1 where s1: "emit_block ?e False s = Ok s1" "stream_inv rc rt (kept_bound rc rt s + BLOCK_SIZE_MAX) data s1" "same_setup s s1"
    "se_emitted s1 = ?e" "block_written ?e False data s s1" using emit_block_Ok [OF inv, of ?e False] e by auto
  have "se_max_offset s \<le> 2 ^ 27" using inv by (simp add: stream_inv_def)
  moreover have "max rc rt \<le> 2 ^ 23" using rings by (simp add: rings_ok_def)
  ultimately have "kept_bound rc rt s + BLOCK_SIZE_MAX \<le> 2 ^ 31" unfolding kept_bound_def BLOCK_SIZE_MAX_def by (simp add: max_def)
  from maybe_slide_Ok [OF s1(2) this] rings obtain s2 where s2: "maybe_slide s1 = Ok s2" "stream_inv rc rt (kept_bound rc rt s1) data s2"
    "same_setup s1 s2" "se_emitted s2 = se_emitted s1" "se_out s2 = se_out s1" "se_state s2 = se_state s1" by (auto simp: rings_ok_def)
  have "kept_bound rc rt s2 = kept_bound rc rt s1" using s2(3) by (simp add: same_setup_def kept_bound_def)
  moreover have "drain_full_blocks s = drain_full_blocks s2"
    using e' stream_inv_total [OF inv] s1(1) s2(1) by (subst drain_full_blocks.simps) (simp add: usub_def)
  ultimately show ?thesis using s1 s2 same_setup_trans by (intro exI [of _ s1] exI [of _ s2]) auto
qed

text \<open>The blocks written so far, in front of those that follow.\<close>

definition stream_wrote :: "byte list \<Rightarrow> byte list \<Rightarrow> stream_enc \<Rightarrow> bool" where
  "stream_wrote hdr data s \<longleftrightarrow> (\<exists>blocks. se_out s = hdr @ blocks \<and> length blocks \<le> 4 * se_emitted s
     \<and> (\<forall>rest zs. frame_blocks rest (se_state s) (take (se_emitted s) data) zs
          \<longrightarrow> frame_blocks (blocks @ rest) fresh_state [] (take (se_emitted s) data @ zs)))"

lemma stream_wrote_block:
  assumes w: "stream_wrote hdr data s" and b: "block_written e False data s s1" and e: "se_emitted s < e" "e \<le> length data" "e - se_emitted s \<le> BLOCK_SIZE_MAX"
    and s2: "se_emitted s2 = e" "se_out s2 = se_out s1" "se_state s2 = se_state s1"
  shows "stream_wrote hdr data s2"
proof -
  let ?E = "se_emitted s"
  let ?ys = "take (e - ?E) (drop ?E data)"
  obtain blocks where blocks: "se_out s = hdr @ blocks" "length blocks \<le> 4 * ?E"
    "\<And>rest zs. frame_blocks rest (se_state s) (take ?E data) zs \<Longrightarrow> frame_blocks (blocks @ rest) fresh_state [] (take ?E data @ zs)"
    using w by (auto simp: stream_wrote_def)
  obtain bytes where bytes: "se_out s1 = se_out s @ bytes" "length bytes \<le> 3 + (e - ?E)"
    "writes bytes False (se_state s) (take ?E data) ?ys (se_state s1)" using b by (auto simp: block_written_def)
  have ys: "length ?ys = e - ?E" "take e data = take ?E data @ ?ys" using e by (simp_all add: take_add [symmetric])
  have "frame_blocks ((blocks @ bytes) @ rest) fresh_state [] (take e data @ zs)"
    if "frame_blocks rest (se_state s1) (take e data) zs" for rest zs
  proof -
    have "frame_blocks (bytes @ rest) (se_state s) (take ?E data) (?ys @ zs)"
      by (rule block_before [OF bytes(3)]) (use bytes(2) e(3) that in \<open>simp_all only: ys append_assoc\<close>)
    from blocks(3) [OF this] show ?thesis by (simp add: ys(2))
  qed
  moreover have "length (blocks @ bytes) \<le> 4 * e" using blocks(2) bytes(2) e(1) by simp
  ultimately show ?thesis using blocks(1) bytes(1) s2 unfolding stream_wrote_def by (intro exI [of _ "blocks @ bytes"]) simp
qed

lemma drain_Ok:
  assumes "stream_ok rc rt data s" and rings: "rings_ok rc rt"
  shows "\<exists>s'. drain_full_blocks s = Ok s' \<and> stream_ok rc rt data s' \<and> drained s' \<and> same_setup s s'
    \<and> (\<forall>hdr. stream_wrote hdr data s \<longrightarrow> stream_wrote hdr data s')"
  using assms(1)
proof (induction "length data - se_emitted s" arbitrary: s rule: less_induct)
  case less
  show ?case
  proof (cases "drained s")
    case True
    then show ?thesis using drain_drained less.prems by (intro exI [of _ s]) (auto simp: same_setup_def)
  next
    case False
    obtain s1 s2 where s: "drain_full_blocks s = drain_full_blocks s2" "block_written (se_emitted s + BLOCK_SIZE_MAX) False data s s1"
      "stream_ok rc rt data s2" "same_setup s s2" "se_emitted s2 = se_emitted s + BLOCK_SIZE_MAX" "se_out s2 = se_out s1" "se_state s2 = se_state s1"
      using emit_and_slide [OF less.prems rings False] by blast
    have e: "se_emitted s + BLOCK_SIZE_MAX < length data" using False stream_inv_total [OF less.prems] by (simp add: drained_def)
    then have "length data - se_emitted s2 < length data - se_emitted s" by (simp add: s(5) BLOCK_SIZE_MAX_def)
    from less.hyps [OF this s(3)] obtain s' where s': "drain_full_blocks s2 = Ok s'" "stream_ok rc rt data s'" "drained s'" "same_setup s2 s'"
      "\<forall>hdr. stream_wrote hdr data s2 \<longrightarrow> stream_wrote hdr data s'" by blast
    have "stream_wrote hdr data s2" if "stream_wrote hdr data s" for hdr
      by (rule stream_wrote_block [OF that s(2) _ _ _ s(5-7)]) (use e in \<open>simp_all add: BLOCK_SIZE_MAX_def\<close>)
    then show ?thesis using s(1) s' same_setup_trans [OF s(4)] by auto
  qed
qed

section \<open>The pieces do not matter\<close>

text \<open>More input behind, other output in front, another hash: no operation looks at these.\<close>

definition with_more :: "byte list \<Rightarrow> byte list \<Rightarrow> xxh64_state \<Rightarrow> stream_enc \<Rightarrow> stream_enc" where
  "with_more b front h s = s\<lparr>se_input := se_input s @ b, se_out := front @ se_out s, se_hasher := h\<rparr>"

lemma with_more_simps [simp]:
  "se_input (with_more b front h s) = se_input s @ b" "se_out (with_more b front h s) = front @ se_out s"
  "se_dropped (with_more b front h s) = se_dropped s" "se_emitted (with_more b front h s) = se_emitted s"
  "se_finder (with_more b front h s) = se_finder s" "se_ldm (with_more b front h s) = se_ldm s" "se_state (with_more b front h s) = se_state s"
  "se_max_offset (with_more b front h s) = se_max_offset s" "se_regular_reach (with_more b front h s) = se_regular_reach s"
  "se_split_depth (with_more b front h s) = se_split_depth s" "se_checksum (with_more b front h s) = se_checksum s"
  "se_hasher (with_more b front h s) = h"
  by (simp_all add: with_more_def)

lemma with_more_kept [simp]: "kept (with_more b front h s) = kept s" "kept_bound rc rt (with_more b front h s) = kept_bound rc rt s"
  by (simp_all add: kept_def kept_bound_def)

lemma with_more_inv: "stream_inv rc rt B data s \<Longrightarrow> stream_inv rc rt B (data @ b) (with_more b front h s)"
  by (auto simp: stream_inv_def kept_def)

lemma emit_block_more:
  assumes inv: "stream_inv rc rt B data s" and e: "se_emitted s \<le> e" "e \<le> length data"
  shows "emit_block e lst (with_more b front h s) = obind (emit_block e lst s) (\<lambda>s'. Ok (with_more b front h s'))"
proof -
  note i = stream_invD(1-3) [OF inv]
  have D: "se_dropped s \<le> e" "se_emitted s - se_dropped s \<le> e - se_dropped s" "e - se_dropped s \<le> length (se_input s)" using i e by simp_all
  have block: "stream_block (with_more b front h s) = stream_block s" by (intro ext) (simp only: stream_block_def with_more_simps)
  have slice: "slice_range (se_input s @ b) a (e - se_dropped s) = (slice_range (se_input s) a (e - se_dropped s) :: byte list result)" for a
    using D(3) by (simp add: slice_range_def)
  show ?thesis
    unfolding emit_block_def with_more_simps block obind_assoc split_def
    by (intro obind_cong refl) (auto simp: slice outcome_simps with_more_def)
qed

lemma maybe_slide_more:
  assumes inv: "stream_inv rc rt B data s"
  shows "maybe_slide (with_more b front h s) = obind (maybe_slide s) (\<lambda>s'. Ok (with_more b front h s'))"
proof -
  define history where "history = se_emitted s - se_dropped s"
  define n where "n = (history - se_max_offset s) - (history - se_max_offset s) mod finder_slide_period (se_finder s)"
  have h: "usub (se_emitted s) (se_dropped s) = (Ok history :: nat result)" using stream_invD(1) [OF inv] by (simp add: history_def)
  have n: "n \<le> length (se_input s)" using stream_invD(2,3) [OF inv] by (simp add: n_def history_def)
  show ?thesis
  proof (cases "history \<le> 2 * se_max_offset s")
    case True
    then show ?thesis by (simp add: maybe_slide_def h)
  next
    case False
    then have d: "usub history (se_max_offset s) = (Ok (history - se_max_offset s) :: nat result)" by simp
    show ?thesis
      unfolding maybe_slide_def with_more_simps h obind_simps if_not_P [OF False] d Let_def n_def [symmetric]
      using n by (simp add: with_more_def)
  qed
qed

lemma drain_more:
  assumes "stream_ok rc rt data s" and rings: "rings_ok rc rt"
  shows "drain_full_blocks (with_more b front h s) = obind (drain_full_blocks s) (\<lambda>s'. drain_full_blocks (with_more b front h s'))"
  using assms(1)
proof (induction "length data - se_emitted s" arbitrary: s rule: less_induct)
  case less
  show ?case
  proof (cases "drained s")
    case True
    then show ?thesis using drain_drained [OF less.prems] by simp
  next
    case False
    obtain s1 s2 where s: "emit_block (se_emitted s + BLOCK_SIZE_MAX) False s = Ok s1" "maybe_slide s1 = Ok s2" "drain_full_blocks s = drain_full_blocks s2"
      "stream_inv rc rt (kept_bound rc rt s + BLOCK_SIZE_MAX) data s1" "stream_ok rc rt data s2" "se_emitted s2 = se_emitted s + BLOCK_SIZE_MAX"
      using emit_and_slide [OF less.prems rings False] by blast
    have e: "se_emitted s + BLOCK_SIZE_MAX < length data" using False stream_inv_total [OF less.prems] by (simp add: drained_def)
    have "emit_block (se_emitted s + BLOCK_SIZE_MAX) False (with_more b front h s) = Ok (with_more b front h s1)"
      using emit_block_more [OF less.prems, of "se_emitted s + BLOCK_SIZE_MAX"] e s(1) by simp
    moreover have "maybe_slide (with_more b front h s1) = Ok (with_more b front h s2)" using maybe_slide_more [OF s(4)] s(2) by simp
    moreover have "stream_total (with_more b front h s) = length data + length b" using stream_inv_total [OF less.prems] by (simp add: stream_total_def)
    moreover have "se_emitted s \<le> length data + length b" "BLOCK_SIZE_MAX < length data + length b - se_emitted s" using e by linarith+
    ultimately have "drain_full_blocks (with_more b front h s) = drain_full_blocks (with_more b front h s2)"
      by (subst drain_full_blocks.simps) (simp add: usub_def)
    also have "\<dots> = obind (drain_full_blocks s2) (\<lambda>s'. drain_full_blocks (with_more b front h s'))"
      by (rule less.hyps [OF _ s(5)]) (use e s(6) in \<open>simp add: BLOCK_SIZE_MAX_def\<close>)
    finally show ?thesis by (simp add: s(3))
  qed
qed

end
