(* ===== verification/Stream_Session.thy ===== *)
theory Stream_Session
  imports Stream_Encode
begin

text \<open>
  Sessions with the streaming encoder of \<open>Stream_Encode\<close>: pieces are pushed, output is taken in between, and the frame is
  finished. A session writes what one push of all the data would write, the frame decodes to the
  data, and the encoder keeps a bounded part of its input.
\<close>

section \<open>Sessions\<close>

datatype stream_op = Push "byte list" | Take_Output

primrec pushed :: "stream_op list \<Rightarrow> byte list" where
  "pushed [] = []"
| "pushed (a # ops) = (case a of Push d \<Rightarrow> d | Take_Output \<Rightarrow> []) @ pushed ops"

text \<open>The output that was taken, and the state after the operations.\<close>

primrec run_ops :: "stream_op list \<Rightarrow> stream_enc \<Rightarrow> (byte list \<times> stream_enc) result" where
  "run_ops [] s = Ok ([], s)"
| "run_ops (a # ops) s =
     (case a of
        Push d \<Rightarrow> obind (stream_push d s) (run_ops ops)
      | Take_Output \<Rightarrow>
          (let (taken, s) = take_output s in
           obind (run_ops ops s) (\<lambda>(rest, s). Ok (taken @ rest, s))))"

definition session_from :: "stream_op list \<Rightarrow> stream_enc \<Rightarrow> byte list result" where
  "session_from ops s = obind (run_ops ops s) (\<lambda>(taken, s). obind (stream_finish s) (\<lambda>rest. Ok (taken @ rest)))"

definition stream_session :: "stream_op list \<Rightarrow> stream_enc result \<Rightarrow> byte list result" where
  "stream_session ops m = obind m (session_from ops)"

section \<open>A session is one push\<close>

definition session_inv :: "nat \<Rightarrow> nat \<Rightarrow> byte list \<Rightarrow> stream_enc \<Rightarrow> bool" where
  "session_inv rc rt data s \<longleftrightarrow> stream_ok rc rt data s \<and> drained s \<and> xx_rep 0 (se_hasher s) data"

lemma with_more_twice: "with_more b f h (with_more b' f' h' s) = with_more (b' @ b) (f @ f') h s"
  by (simp add: with_more_def)

lemma with_more_drained [simp]: "drained (with_more [] f h s) = drained s"
  by (simp add: drained_def stream_total_def)

lemma with_more_ok: "stream_ok rc rt data s \<Longrightarrow> stream_ok rc rt (data @ b) (with_more b f h s)"
  using with_more_inv by simp

lemma with_more_nothing: "stream_ok rc rt data s \<Longrightarrow> drained s \<Longrightarrow> drain_full_blocks (with_more [] f h s) = Ok (with_more [] f h s)"
  using drain_drained [OF with_more_inv, of rc rt _ data s "[]" f h] by simp

lemma concat_block_chunks: "concat (block_chunks data) = data"
  by (induction data rule: block_chunks.induct) (subst block_chunks.simps, simp)

lemma stream_inv_output [simp]: "stream_inv rc rt B data (s\<lparr>se_out := x\<rparr>) = stream_inv rc rt B data s"
  by (simp add: stream_inv_def kept_def)

lemma push_parts:
  assumes "stream_ok rc rt data s" and "drained s" and rings: "rings_ok rc rt"
  shows "ofold push_part parts s = drain_full_blocks (with_more (concat parts) [] (se_hasher s) s)"
  using assms(1,2)
proof (induction parts arbitrary: data s)
  case Nil
  then show ?case using drain_drained [of rc rt _ data s] by (simp add: with_more_def)
next
  case (Cons part parts)
  let ?h = "se_hasher s"
  let ?s = "with_more part [] ?h s"
  note ok = with_more_ok [OF Cons.prems(1), of part "[]" ?h]
  obtain s1 where s1: "drain_full_blocks ?s = Ok s1" "stream_ok rc rt (data @ part) s1" "drained s1" "same_setup ?s s1"
    using drain_Ok [OF ok rings] by blast
  have "push_part part s = Ok s1" using s1(1) by (simp add: push_part_def with_more_def)
  then have "ofold push_part (part # parts) s = drain_full_blocks (with_more (concat parts) [] ?h s1)"
    using Cons.IH [OF s1(2,3)] s1(4) by (simp add: same_setup_def)
  also have "\<dots> = drain_full_blocks (with_more (concat parts) [] ?h ?s)"
    using drain_more [OF ok rings, of "concat parts" "[]" ?h] s1(1) by simp
  finally show ?case by (simp add: with_more_twice)
qed

lemma stream_push_as:
  assumes "stream_ok rc rt data s" and "drained s" and rings: "rings_ok rc rt"
  shows "stream_push d s = drain_full_blocks (with_more d [] (xxh64_update (se_hasher s) d) s)"
proof -
  let ?s = "with_more [] [] (xxh64_update (se_hasher s) d) s"
  have "stream_push d s = ofold push_part (block_chunks d) ?s" by (simp add: stream_push_def with_more_def)
  also have "\<dots> = drain_full_blocks (with_more d [] (xxh64_update (se_hasher s) d) ?s)"
    using push_parts [OF with_more_ok [OF assms(1)] _ rings, of "[]" "[]" "xxh64_update (se_hasher s) d" "block_chunks d"] assms(2)
    by (simp add: concat_block_chunks)
  finally show ?thesis by (simp add: with_more_twice)
qed

lemma run_ops_Ok:
  assumes "session_inv rc rt data s" and rings: "rings_ok rc rt"
  shows "\<exists>taken s'. run_ops ops s = Ok (taken, s') \<and> session_inv rc rt (data @ pushed ops) s'
    \<and> se_max_offset s' = se_max_offset s \<and> se_checksum s' = se_checksum s
    \<and> (\<forall>h. drain_full_blocks (with_more (pushed ops) [] h s) = Ok (with_more [] taken h s'))"
  using assms(1)
proof (induction ops arbitrary: data s)
  case Nil
  then show ?case using with_more_nothing by (auto simp: session_inv_def)
next
  case (Cons a ops)
  have i: "stream_ok rc rt data s" "drained s" "xx_rep 0 (se_hasher s) data" using Cons.prems by (simp_all add: session_inv_def)
  show ?case
  proof (cases a)
    case (Push d)
    let ?u = "xxh64_update (se_hasher s) d"
    let ?s = "with_more d [] ?u s"
    note ok = with_more_ok [OF i(1), of d "[]" ?u]
    obtain s1 where s1: "drain_full_blocks ?s = Ok s1" "stream_ok rc rt (data @ d) s1" "drained s1" "same_setup ?s s1"
      using drain_Ok [OF ok rings] by blast
    have "session_inv rc rt (data @ d) s1" using s1(2-4) xx_rep_update [OF i(3)] by (simp add: session_inv_def same_setup_def)
    from Cons.IH [OF this] obtain taken s' where r: "run_ops ops s1 = Ok (taken, s')" "session_inv rc rt ((data @ d) @ pushed ops) s'"
      "se_max_offset s' = se_max_offset s1" "se_checksum s' = se_checksum s1"
      "\<And>h. drain_full_blocks (with_more (pushed ops) [] h s1) = Ok (with_more [] taken h s')" by blast
    have "drain_full_blocks (with_more (d @ pushed ops) [] h s) = Ok (with_more [] taken h s')" for h
      using drain_more [OF ok rings, of "pushed ops" "[]" h] s1(1) r(5) by (simp add: with_more_twice)
    then show ?thesis using r(1-4) s1(1,4) stream_push_as [OF i(1,2) rings, of d] by (auto simp: Push same_setup_def)
  next
    case Take_Output
    let ?s = "s\<lparr>se_out := []\<rparr>"
    have s: "session_inv rc rt data ?s" using Cons.prems by (simp add: session_inv_def kept_bound_def drained_def stream_total_def)
    from Cons.IH [OF this] obtain taken s' where r: "run_ops ops ?s = Ok (taken, s')" "session_inv rc rt (data @ pushed ops) s'"
      "se_max_offset s' = se_max_offset s" "se_checksum s' = se_checksum s"
      "\<And>h. drain_full_blocks (with_more (pushed ops) [] h ?s) = Ok (with_more [] taken h s')" by auto
    have ok: "stream_ok rc rt data ?s" "stream_ok rc rt (data @ pushed ops) s'" "drained s'"
      using s r(2) by (simp_all add: session_inv_def)
    have "drain_full_blocks (with_more (pushed ops) [] h s) = Ok (with_more [] (se_out s @ taken) h s')" for h
    proof -
      have eq: "with_more (pushed ops) [] h s = with_more [] (se_out s) h (with_more (pushed ops) [] h ?s)" by (simp add: with_more_def)
      have "drain_full_blocks (with_more (pushed ops) [] h s)
          = drain_full_blocks (with_more [] (se_out s) h (with_more [] taken h s'))"
        using drain_more [OF with_more_ok [OF ok(1)] rings, of "[]" "se_out s" h "pushed ops" "[]" h] r(5) unfolding eq by simp
      then show ?thesis using with_more_nothing [OF ok(2,3)] by (simp add: with_more_twice)
    qed
    then show ?thesis using r(1-4) by (simp add: Take_Output take_output_def)
  qed
qed

text \<open>What the end of a session adds.\<close>

definition closing :: "byte list \<Rightarrow> stream_enc \<Rightarrow> byte list result" where
  "closing data s =
     obind (if data = [] then Ok (s\<lparr>se_out := se_out s @ write_raw_block True []\<rparr>) else emit_block (length data) True s)
       (\<lambda>s'. Ok (se_out s' @ content_checksum data (se_checksum s)))"

lemma emit_block_setup: "emit_block e lst s = Ok s' \<Longrightarrow> same_setup s s'"
  by (auto simp: emit_block_def outcome_simps same_setup_def)

lemma stream_finish_closing:
  assumes inv: "session_inv rc rt data s" and small: "length data < 2 ^ 64"
  shows "stream_finish s = closing data s"
proof -
  have i: "stream_ok rc rt data s" "drained s" "xx_rep 0 (se_hasher s) data" using inv by (simp_all add: session_inv_def)
  have d: "xxh64_digest (se_hasher s) = xxh64 data 0" using xx_rep_digest [OF i(3) small] .
  have t: "stream_total s = length data" "drain_full_blocks s = Ok s" using stream_inv_total [OF i(1)] drain_drained [OF i(1,2)] by simp_all
  have "obind (emit_block (length data) True s) (\<lambda>s'. Ok (se_out s' @ (if se_checksum s' then le_bytes 4 (unat (ucast (xxh64_digest (se_hasher s') AND 0xFFFFFFFF) :: u32)) else [])))
      = obind (emit_block (length data) True s) (\<lambda>s'. Ok (se_out s' @ content_checksum data (se_checksum s)) :: byte list result)"
    using emit_block_setup [of "length data" True s] d by (intro obind_cong refl) (auto simp: same_setup_def content_checksum_def)
  then show ?thesis using t d by (simp add: stream_finish_def closing_def content_checksum_def)
qed

lemma closing_more:
  assumes "stream_ok rc rt data s"
  shows "closing data (with_more [] front h s) = obind (closing data s) (\<lambda>t. Ok (front @ t))"
  using emit_block_more [OF assms stream_invD(2) [OF assms] order.refl, of True "[]" front h]
  by (simp add: closing_def obind_assoc)

lemma session_canonical:
  assumes inv: "session_inv rc rt data s" and rings: "rings_ok rc rt" and small: "length data + length (pushed ops) < 2 ^ 64"
  shows "session_from ops s = obind (drain_full_blocks (with_more (pushed ops) [] (se_hasher s) s)) (closing (data @ pushed ops))"
proof -
  obtain taken s' where r: "run_ops ops s = Ok (taken, s')" "session_inv rc rt (data @ pushed ops) s'"
    "\<And>h. drain_full_blocks (with_more (pushed ops) [] h s) = Ok (with_more [] taken h s')"
    using run_ops_Ok [OF inv rings, of ops] by blast
  have "stream_ok rc rt (data @ pushed ops) s'" using r(2) by (simp add: session_inv_def)
  from closing_more [OF this, of taken] show ?thesis
    using stream_finish_closing [OF r(2)] small by (simp add: session_from_def r(1,3))
qed

lemma run_ops_append:
  "run_ops (ops @ ops') s = obind (run_ops ops s) (\<lambda>(taken, s). obind (run_ops ops' s) (\<lambda>(rest, s). Ok (taken @ rest, s)))"
proof (induction ops arbitrary: s)
  case Nil
  show ?case by (cases "run_ops ops' s") auto
next
  case (Cons a ops)
  then have IH: "run_ops (ops @ ops') = (\<lambda>s. obind (run_ops ops s) (\<lambda>(taken, s). obind (run_ops ops' s) (\<lambda>(rest, s). Ok (taken @ rest, s))))" by blast
  show ?case by (cases a) (simp_all add: IH obind_assoc split_def Let_def)
qed

lemma pushed_append [simp]: "pushed (ops @ ops') = pushed ops @ pushed ops'"
  by (induction ops) simp_all

lemma closing_Ok:
  assumes ok: "stream_ok rc rt data s" and d: "drained s"
  shows "\<exists>t. closing data s = Ok t"
proof (cases "data = []")
  case False
  have "se_emitted s \<le> length data" "length data - se_emitted s \<le> BLOCK_SIZE_MAX"
    using stream_invD(2) [OF ok] d stream_inv_total [OF ok] by (simp_all add: drained_def)
  from emit_block_Ok [OF ok this(1) order.refl this(2), of True] show ?thesis using False by (auto simp: closing_def)
qed (simp add: closing_def)

text \<open>The output that waits comes first in what a session returns.\<close>

lemma session_from_prefix:
  assumes inv: "session_inv rc rt data s" and rings: "rings_ok rc rt" and small: "length data + length (pushed ops) < 2 ^ 64"
  shows "\<exists>rest. session_from ops s = Ok (se_out s @ rest)"
proof -
  let ?h = "se_hasher s"
  let ?s = "s\<lparr>se_out := []\<rparr>"
  have "stream_ok rc rt data ?s" using inv by (simp add: session_inv_def kept_bound_def)
  note ok = with_more_ok [OF this, of "pushed ops" "[]" ?h]
  obtain s' where s': "drain_full_blocks (with_more (pushed ops) [] ?h ?s) = Ok s'" "stream_ok rc rt (data @ pushed ops) s'" "drained s'"
    using drain_Ok [OF ok rings] by blast
  have eq: "with_more (pushed ops) [] ?h s = with_more [] (se_out s) ?h (with_more (pushed ops) [] ?h ?s)" by (simp add: with_more_def)
  have "drain_full_blocks (with_more (pushed ops) [] ?h s) = Ok (with_more [] (se_out s) ?h s')"
    unfolding eq using drain_more [OF ok rings, of "[]" "se_out s" ?h] s'(1) with_more_nothing [OF s'(2,3)] by simp
  moreover obtain t where "closing (data @ pushed ops) s' = Ok t" using closing_Ok [OF s'(2,3)] by blast
  ultimately show ?thesis using session_canonical [OF inv rings small] closing_more [OF s'(2), of "se_out s" ?h] by simp
qed

section \<open>A new encoder\<close>

lemma stream_params_window:
  "19 \<le> cp_window_log (params_for_level level usize_max)" "cp_window_log (params_for_level level usize_max) \<le> 23"
proof -
  have "as_u32 (usize_max - 1) = 4294967294" by (simp add: as_u32_def usize_max_def)
  moreover have "32 - leading_zeros32 4294967294 = 32" using leading_zeros32_highbit [of 4294967294] highbit32_unique [of 31 4294967294] by simp
  ultimately have "ceil_log2 (max usize_max 1) = 32" by (simp add: ceil_log2_def usize_max_def)
  then show "19 \<le> cp_window_log (params_for_level level usize_max)" "cp_window_log (params_for_level level usize_max) \<le> 23"
    using LEVELS_window [OF level_in_LEVELS [of level]] by (auto simp: params_for_level_logs(1) MAX_WINDOW_LOG_def)
qed

lemma rings_bounds:
  assumes "6 \<le> cp_window_log p" and "cp_chain_log p \<le> cp_window_log p + 1"
  shows "rings_ok (chain_ring p) (tree_ring p)" and "max (chain_ring p) (tree_ring p) \<le> 2 * 2 ^ cp_window_log p"
proof -
  let ?c = "clamp_to MIN_HASH_LOG MAX_HASH_LOG (cp_chain_log p)" and ?t = "clamp_to MIN_HASH_LOG MAX_BT_LOG (cp_window_log p)"
  have le: "?c \<le> 23" "?t \<le> 23" "?c \<le> cp_window_log p + 1" "?t \<le> cp_window_log p + 1"
    using assms by (simp_all add: clamp_to_def MIN_HASH_LOG_def MAX_HASH_LOG_def MAX_BT_LOG_def)
  have "(2::nat) ^ ?c \<le> 2 ^ 23" "(2::nat) ^ ?t \<le> 2 ^ 23" "(2::nat) ^ ?c \<le> 2 ^ (cp_window_log p + 1)" "(2::nat) ^ ?t \<le> 2 ^ (cp_window_log p + 1)"
    using le by (intro power_increasing; simp)+
  moreover have "(1::nat) \<le> 2 * 2 ^ cp_window_log p" by simp
  ultimately show "rings_ok (chain_ring p) (tree_ring p)" "max (chain_ring p) (tree_ring p) \<le> 2 * 2 ^ cp_window_log p"
    by (simp_all add: rings_ok_def chain_ring_def tree_ring_def)
qed

definition stream_start :: "nat \<Rightarrow> nat \<Rightarrow> nat \<Rightarrow> byte list \<Rightarrow> bool \<Rightarrow> stream_enc \<Rightarrow> bool" where
  "stream_start rc rt wl front checksum s \<longleftrightarrow> session_inv rc rt [] s \<and> rings_ok rc rt \<and> max rc rt \<le> 2 * 2 ^ wl \<and> 17 \<le> wl \<and> wl \<le> 27
     \<and> se_max_offset s = 2 ^ wl \<and> se_checksum s = checksum \<and> se_emitted s = 0 \<and> se_state s = fresh_state
     \<and> (\<exists>header. write_frame_header_streaming checksum wl = Ok header \<and> se_out s = front @ header)"

lemma stream_startI:
  assumes p: "p = params_for_level level usize_max" and wl: "cp_window_log p \<le> wl" "wl \<le> 27" and ldm: "\<And>st. ldm = Some st \<Longrightarrow> ldm_inv 0 st"
    and header: "write_frame_header_streaming checksum wl = Ok header"
  shows "stream_start (chain_ring p) (tree_ring p) wl front checksum
    \<lparr>se_checksum = checksum, se_max_offset = 2 ^ wl, se_regular_reach = 2 ^ cp_window_log p, se_ldm = ldm, se_split_depth = depth, se_input = [],
     se_dropped = 0, se_emitted = 0, se_out = front @ header, se_finder = finder_new p, se_state = fresh_state, se_hasher = xxh64_new 0\<rparr>"
    (is "stream_start _ _ _ _ _ ?s")
proof -
  have w: "19 \<le> cp_window_log p" using stream_params_window [of level] by (simp add: p)
  have "cp_chain_log p \<le> cp_window_log p + 1" unfolding p by (rule params_for_level_logs(3))
  note r = rings_bounds [OF _ this]
  have pow: "(2::nat) ^ cp_window_log p \<le> 2 ^ wl" "(2::nat) ^ wl \<le> 2 ^ 27" using wl by (intro power_increasing; simp)+
  have "stream_ok (chain_ring p) (tree_ring p) [] ?s"
    using pow ldm finder_new_inv matched_fresh rep_within_fresh [OF window_8, of wl] w wl by (simp add: stream_inv_def kept_def)
  then have "session_inv (chain_ring p) (tree_ring p) [] ?s" using xx_rep_new by (simp add: session_inv_def drained_def stream_total_def)
  moreover have "max (chain_ring p) (tree_ring p) \<le> 2 * 2 ^ cp_window_log p" by (rule r(2)) (use w in simp)
  then have "max (chain_ring p) (tree_ring p) \<le> 2 * 2 ^ wl" using pow(1) by linarith
  ultimately show ?thesis using r(1) w wl header by (simp add: stream_start_def)
qed

lemma write_frame_header_streaming_Ok: "10 \<le> wl \<Longrightarrow> \<exists>header. write_frame_header_streaming checksum wl = Ok header"
  by (simp add: write_frame_header_streaming_def)

lemma stream_with_options_start:
  "\<exists>s rc rt wl. stream_with_options level checksum expect_magic = Ok s \<and> stream_start rc rt wl (magic_bytes expect_magic) checksum s"
proof -
  let ?p = "params_for_level level usize_max"
  have w: "10 \<le> cp_window_log ?p" "cp_window_log ?p \<le> 27" using stream_params_window [of level] by simp_all
  obtain header where h: "write_frame_header_streaming checksum (cp_window_log ?p) = Ok header" using write_frame_header_streaming_Ok [OF w(1)] by blast
  from stream_startI [OF refl order.refl w(2) _ h, of None "magic_bytes expect_magic" "split_depth_for (cp_strategy ?p)"]
  show ?thesis unfolding stream_with_options_def Let_def h obind_simps magic_bytes_def [symmetric] by blast
qed

lemma stream_with_options_long_start:
  "\<exists>s rc rt wl. stream_with_options_long level checksum expect_magic window_log = Ok s \<and> stream_start rc rt wl (magic_bytes expect_magic) checksum s"
proof -
  let ?p = "params_for_level level usize_max"
  define wl where "wl = clamp window_log (cp_window_log ?p) LDM_MAX_WINDOW_LOG"
  have w: "cp_window_log ?p \<le> wl" "wl \<le> 27" "10 \<le> wl"
    using stream_params_window [of level] by (simp_all add: wl_def clamp_def LDM_MAX_WINDOW_LOG_def)
  obtain header where h: "write_frame_header_streaming checksum wl = Ok header" using write_frame_header_streaming_Ok [OF w(3)] by blast
  have ldm: "\<And>st. Some (ldm_state_new wl) = Some st \<Longrightarrow> ldm_inv 0 st" using ldm_inv_new [of 0 wl] by auto
  note start = stream_startI [where ldm = "Some (ldm_state_new wl)", OF refl w(1,2) ldm h]
  from start [of "magic_bytes expect_magic" "split_depth_for (cp_strategy ?p)"]
  show ?thesis unfolding stream_with_options_long_def Let_def wl_def [symmetric] h obind_simps magic_bytes_def [symmetric] by blast
qed

text \<open>The ways to make an encoder.\<close>

lemma stream_starts:
  assumes "m \<in> {stream_with_options level checksum expect_magic, stream_with_options_long level checksum expect_magic window_log}"
  obtains s rc rt wl where "m = Ok s" and "stream_start rc rt wl (magic_bytes expect_magic) checksum s"
  using assms stream_with_options_start stream_with_options_long_start by blast

section \<open>The frame decodes\<close>

lemma streaming_header_read:
  assumes "write_frame_header_streaming ck wl = Ok hdr" and "wl \<le> 41"
  shows "parse_frame_header (hdr @ rest) = Ok \<lparr>fh_header_len = 2, fh_has_checksum = ck, fh_content_size = None,
    fh_window_size = 2 ^ wl, fh_dictionary_id = 0\<rparr>" and "length hdr = 2"
proof -
  define b :: byte where "b = push_bit 2 (of_bool ck)"
  have wl: "10 \<le> wl" and hdr: "hdr = [b, push_bit 3 (word_of_nat (wl - 10))]"
    using assms(1) by (auto simp: write_frame_header_streaming_def outcome_simps b_def)
  have e: "wl - 10 \<le> 31" "10 + (wl - 10) = wl" using assms(2) wl by simp_all
  have "unat b = 4 * of_bool ck" by (cases ck) (simp_all add: b_def)
  then have bits: "unat b mod 4 = 0" "unat b div 4 mod 2 = Suc 0 \<longleftrightarrow> ck" "unat b div 8 mod 2 = 0"
    "unat b div 32 mod 2 = 0" "unat b div 64 mod 4 = 0" by (cases ck; simp)+
  have "window_descriptor (hdr @ rest) False 1 = Ok (Some (2 ^ wl), 2)"
    using window_descriptor_written [OF e(1), of b rest] by (simp add: hdr e(2))
  moreover have "dictionary_id_field (hdr @ rest) 0 2 = Ok (0, 2)"
    by (simp add: dictionary_id_field_def hdr or_le_bytes_def)
  moreover have "content_size_field (hdr @ rest) 0 2 = Ok (None, 2)" by (simp add: content_size_field_def hdr)
  moreover have "idx (hdr @ rest) 0 = Ok b" "hdr @ rest \<noteq> []" by (simp_all add: hdr)
  ultimately show "parse_frame_header (hdr @ rest) = Ok \<lparr>fh_header_len = 2, fh_has_checksum = ck, fh_content_size = None,
      fh_window_size = 2 ^ wl, fh_dictionary_id = 0\<rparr>"
    by (simp add: parse_frame_header_def bits Let_def fcs_field_size_def)
  show "length hdr = 2" by (simp add: hdr)
qed

lemma streamed_frame_decodes:
  assumes hdr: "write_frame_header_streaming ck wl = Ok hdr" and wl: "17 \<le> wl" "wl \<le> 41"
    and body: "frame_blocks body fresh_state [] data" "length body \<le> 4 * length data + 3"
    and src: "src = magic_bytes m @ hdr @ body @ content_checksum data ck"
    and mx: "length data \<le> mx" "mx \<le> usize_max" and small: "length data < 2 ^ 60"
  shows "decode_one src m mx = Ok \<lparr>df_data = data, df_consumed = length src\<rparr>"
proof -
  let ?p = "length (magic_bytes m)" and ?bm = "min (2 ^ wl) MAX_BLOCK_SIZE"
  let ?st = "initial_state mx ?bm"
  note h = streaming_header_read [OF hdr wl(2)]
  have header: "parse_frame_header (drop ?p src) = Ok \<lparr>fh_header_len = 2, fh_has_checksum = ck, fh_content_size = None,
      fh_window_size = 2 ^ wl, fh_dictionary_id = 0\<rparr>" using h(1) by (simp add: src)
  have "(2::nat) ^ 17 \<le> 2 ^ wl" using wl(1) by (rule power_increasing) simp
  then have room: "block_room ?st (length data)"
    using mx by (simp add: block_room_def initial_state_def MAX_BLOCK_SIZE_def BLOCK_SIZE_MAX_def)
  have "?p \<le> 4" "length (content_checksum data ck) \<le> 4" by (simp_all add: magic_bytes_def content_checksum_def)
  then have len: "length src \<le> usize_max" using h(2) body(2) small by (simp add: src usize_max_def)
  have at: "drop (?p + 2) src = body @ content_checksum data ck" using h(2) by (simp add: src)
  have out: "bs_out ?st = []" "bs_dict_len ?st = 0" by (simp_all add: initial_state_def)
  from frame_blocksD [OF body(1) at len initial_state_in_step out(1) room] obtain st where
    st: "decode_blocks src ?st (?p + 2) = Ok (st, ?p + 2 + length body)" "bs_out st = data" by auto
  have "drop (?p + 2 + length body) src = content_checksum data ck" using h(2) by (simp add: src)
  moreover have "?p + 2 + length body \<le> length src" "?p + 2 + length body + length (content_checksum data ck) = length src"
    using h(2) by (simp_all add: src)
  ultimately have check: "check_checksum ck src (?p + 2 + length body) (xxh64 data 0) = Ok (length src)"
    using check_content_checksum [of "?p + 2 + length body" src data ck] by simp
  have slice: "slice_from src ?p = (Ok (drop ?p src) :: byte list result)" by (simp add: src)
  have prime: "prime_state None 0 ?st = Ok ?st" by (simp add: prime_state_def)
  have "decode_body src ?p mx None None = Ok \<lparr>df_data = data, df_consumed = length src\<rparr>"
    unfolding decode_body_def slice obind_simps header Let_def
    using check by (simp add: window_ceiling_def output_cap_def check_content_size_def prime st [unfolded add_2_eq_Suc'] out)
  then have "decode_frame src m mx None None = Ok \<lparr>df_data = data, df_consumed = length src\<rparr>"
    using decode_prefix_magic by (cases m) (simp_all add: decode_frame_def src magic_bytes_def)
  then show ?thesis by (simp add: decode_one_def decode_one_with_dict_def)
qed

lemma closing_decodes:
  assumes ok: "stream_ok rc rt data s" and d: "drained s" and w: "stream_wrote hdr data s"
  shows "\<exists>body. closing data s = Ok (hdr @ body @ content_checksum data (se_checksum s)) \<and> frame_blocks body fresh_state [] data
    \<and> length body \<le> 4 * length data + 3"
proof -
  let ?E = "se_emitted s"
  obtain blocks where blocks: "se_out s = hdr @ blocks" "length blocks \<le> 4 * ?E"
    "\<And>rest zs. frame_blocks rest (se_state s) (take ?E data) zs \<Longrightarrow> frame_blocks (blocks @ rest) fresh_state [] (take ?E data @ zs)"
    using w by (auto simp: stream_wrote_def)
  have e: "?E \<le> length data" "length data - ?E \<le> BLOCK_SIZE_MAX"
    using stream_invD(2) [OF ok] d stream_inv_total [OF ok] by (simp_all add: drained_def)
  let ?ys = "take (length data - ?E) (drop ?E data)"
  have ys: "length ?ys = length data - ?E" "take ?E data @ ?ys = data" by simp_all
  show ?thesis
  proof (cases "data = []")
    case True
    have "frame_blocks (write_store_block True []) (se_state s) (take ?E data) []"
      by (rule last_block_ends [OF store_writes]) (simp_all add: write_store_block_def write_raw_block_def)
    from blocks(3) [OF this] show ?thesis
      using blocks(1,2) e(1) True
      by (intro exI [of _ "blocks @ write_raw_block True []"]) (simp add: closing_def write_store_block_def write_raw_block_def)
  next
    case False
    obtain s' where s': "emit_block (length data) True s = Ok s'" "block_written (length data) True data s s'"
      using emit_block_Ok [OF ok e(1) order.refl e(2), of True] by blast
    then obtain bytes where bytes: "se_out s' = se_out s @ bytes" "length bytes \<le> 3 + (length data - ?E)"
      "writes bytes True (se_state s) (take ?E data) ?ys (se_state s')" by (auto simp: block_written_def)
    have "frame_blocks bytes (se_state s) (take ?E data) ?ys"
      by (rule last_block_ends [OF bytes(3)]) (use bytes(2) e(2) in \<open>simp_all only: ys\<close>)
    from blocks(3) [OF this] have "frame_blocks (blocks @ bytes) fresh_state [] data" by (simp only: ys)
    moreover have "length (blocks @ bytes) \<le> 4 * length data + 3" using blocks(2) bytes(2) e(1) by simp
    ultimately show ?thesis using False s'(1) bytes(1) blocks(1) by (intro exI [of _ "blocks @ bytes"]) (simp add: closing_def)
  qed
qed

lemma stream_session_decodes:
  assumes s: "stream_start rc rt wl (magic_bytes m) ck s" and small: "length (pushed ops) < 2 ^ 60"
    and mx: "length (pushed ops) \<le> mx" "mx \<le> usize_max"
  shows "\<exists>c. stream_session ops (Ok s) = Ok c \<and> decode_one c m mx = Ok \<lparr>df_data = pushed ops, df_consumed = length c\<rparr>"
proof -
  let ?data = "pushed ops"
  have i: "session_inv rc rt [] s" "rings_ok rc rt" "17 \<le> wl" "wl \<le> 41" "se_checksum s = ck" "se_emitted s = 0" "se_state s = fresh_state"
    using s by (simp_all add: stream_start_def)
  obtain header where header: "write_frame_header_streaming ck wl = Ok header" "se_out s = magic_bytes m @ header"
    using s by (auto simp: stream_start_def)
  let ?hdr = "magic_bytes m @ header" and ?s = "with_more ?data [] (se_hasher s) s"
  have ok: "stream_ok rc rt ?data ?s" using with_more_ok [of rc rt s "[]" ?data "[]" "se_hasher s"] i(1) by (simp add: session_inv_def)
  have w: "stream_wrote ?hdr ?data ?s" by (simp add: stream_wrote_def header(2) i(6,7))
  obtain s' where s': "drain_full_blocks ?s = Ok s'" "stream_ok rc rt ?data s'" "drained s'" "same_setup ?s s'" "stream_wrote ?hdr ?data s'"
    using drain_Ok [OF ok i(2)] w by blast
  obtain body where body: "closing ?data s' = Ok (?hdr @ body @ content_checksum ?data (se_checksum s'))" "frame_blocks body fresh_state [] ?data"
    "length body \<le> 4 * length ?data + 3" using closing_decodes [OF s'(2,3,5)] by blast
  have ck: "se_checksum s' = ck" using s'(4) i(5) by (simp add: same_setup_def)
  have "stream_session ops (Ok s) = Ok (magic_bytes m @ header @ body @ content_checksum ?data ck)"
    using session_canonical [OF i(1,2), of ops] small s'(1) body(1) by (simp add: stream_session_def ck)
  then show ?thesis using streamed_frame_decodes [OF header(1) i(3,4) body(2,3) refl mx small, of m] by simp
qed

section \<open>Properties\<close>

text \<open>C3: a streaming session is lossless. Whatever is pushed, in whatever pieces, and whenever the output is taken, at every
  level, with long-distance matching or without, no operation fails; the outputs taken and the
  rest that \<open>finish\<close> returns are together one frame, from which the decoder regains what was
  pushed, consuming exactly the frame.\<close>

theorem streaming_encoder_roundtrip:
  assumes "m \<in> {stream_with_options level checksum expect_magic, stream_with_options_long level checksum expect_magic window_log}"
    and "length (pushed ops) < 2 ^ 60" and "length (pushed ops) \<le> mx" and "mx \<le> usize_max"
  shows "post (stream_session ops m) (\<lambda>c. decode_one c expect_magic mx = Ok \<lparr>df_data = pushed ops, df_consumed = length c\<rparr>) (\<lambda>_. False)"
proof -
  obtain s rc rt wl where "m = Ok s" "stream_start rc rt wl (magic_bytes expect_magic) checksum s" using stream_starts [OF assms(1)] .
  with stream_session_decodes [OF _ assms(2-4)] show ?thesis by fastforce
qed

theorem streaming_encoder_roundtrip_witness:
  "post (stream_session [Push [1, 2, 3], Take_Output, Push [], Push [1, 2, 3]] (stream_with_options_long 5 True True 27))
    (\<lambda>c. decode_one c True 6 = Ok \<lparr>df_data = [1, 2, 3, 1, 2, 3], df_consumed = length c\<rparr>) (\<lambda>_. False)"
  using streaming_encoder_roundtrip [of "stream_with_options_long 5 True True 27" 5 True True 27 "[Push [1, 2, 3], Take_Output, Push [], Push [1, 2, 3]]" 6]
  by (simp add: usize_max_def)

text \<open>C4: the frame does not depend on the pieces. A session returns, byte for byte, what one push of all the data returns: the blocks
  are cut at multiples of 128 KiB, each is parsed against the input up to its end only, and the
  slides of the buffer happen at the same blocks.\<close>

theorem streaming_encoder_pieces:
  assumes "m \<in> {stream_with_options level checksum expect_magic, stream_with_options_long level checksum expect_magic window_log}"
    and "length (pushed ops) < 2 ^ 60"
  shows "stream_session ops m = stream_session [Push (pushed ops)] m"
proof -
  obtain s rc rt wl where s: "m = Ok s" "stream_start rc rt wl (magic_bytes expect_magic) checksum s" using stream_starts [OF assms(1)] .
  then have "session_inv rc rt [] s" "rings_ok rc rt" by (simp_all add: stream_start_def)
  from session_canonical [OF this, of ops] session_canonical [OF this, of "[Push (pushed ops)]"] show ?thesis
    using assms(2) by (simp add: stream_session_def s(1))
qed

theorem streaming_encoder_pieces_witness:
  "stream_session [Push [7], Take_Output, Push [8, 9]] (stream_with_options 1 False True) = stream_session [Push [7, 8, 9]] (stream_with_options 1 False True)"
  using streaming_encoder_pieces [of "stream_with_options 1 False True" 1 False True 20 "[Push [7], Take_Output, Push [8, 9]]"] by simp

text \<open>C39: the encoder is bounded. However much was pushed, it keeps at most two windows of its input, or one window and
  one period of the rings of its finder, and one block that waits; the period is at most two
  windows, so that three windows and a block are never exceeded.\<close>

theorem streaming_encoder_bounded:
  assumes "m \<in> {stream_with_options level checksum expect_magic, stream_with_options_long level checksum expect_magic window_log}"
  shows "post (obind m (run_ops ops)) (\<lambda>(taken, s).
      buffered_input_len s \<le> max (2 * stream_window_size s) (stream_window_size s + finder_slide_period (se_finder s)) + BLOCK_SIZE_MAX
      \<and> finder_slide_period (se_finder s) \<le> 2 * stream_window_size s) (\<lambda>_. False)"
proof -
  obtain s0 rc rt wl where s0: "m = Ok s0" "stream_start rc rt wl (magic_bytes expect_magic) checksum s0" using stream_starts [OF assms] .
  then have i: "session_inv rc rt [] s0" "rings_ok rc rt" "max rc rt \<le> 2 * se_max_offset s0" by (simp_all add: stream_start_def)
  obtain taken s where r: "run_ops ops s0 = Ok (taken, s)" "session_inv rc rt ([] @ pushed ops) s" "se_max_offset s = se_max_offset s0"
    using run_ops_Ok [OF i(1,2)] by blast
  have ok: "stream_ok rc rt (pushed ops) s" "drained s" using r(2) by (simp_all add: session_inv_def)
  note inv = stream_invD [OF ok(1)]
  have "length (se_input s) \<le> kept s + BLOCK_SIZE_MAX" using ok(2) inv(1) by (simp add: drained_def stream_total_def kept_def)
  moreover have "kept s \<le> kept_bound rc rt s" by (rule inv(4))
  ultimately show ?thesis
    using i(3) r(3) finder_period [OF inv(7)] by (simp add: s0(1) r(1) buffered_input_len_def stream_window_size_def kept_bound_def)
qed

theorem streaming_encoder_bounded_witness:
  "post (obind (stream_with_options 22 False True) (run_ops [Push [1, 2, 3, 4, 5]])) (\<lambda>(taken, s).
      buffered_input_len s \<le> max (2 * stream_window_size s) (stream_window_size s + finder_slide_period (se_finder s)) + BLOCK_SIZE_MAX
      \<and> finder_slide_period (se_finder s) \<le> 2 * stream_window_size s) (\<lambda>_. False)"
  by (rule streaming_encoder_bounded [of _ 22 False True 20]) simp

text \<open>C40: output keeps coming and is final. After every push all the data but the last 128 KiB have been emitted, and what has been
  taken and what waits in the output are the beginning of the finished frame, whatever is pushed
  later.\<close>

theorem streaming_encoder_progress:
  assumes "m \<in> {stream_with_options level checksum expect_magic, stream_with_options_long level checksum expect_magic window_log}"
  shows "post (obind m (run_ops ops)) (\<lambda>(taken, s).
      length (pushed ops) \<le> se_emitted s + BLOCK_SIZE_MAX
      \<and> (\<forall>ops'. length (pushed (ops @ ops')) < 2 ^ 60 \<longrightarrow> (\<exists>rest. stream_session (ops @ ops') m = Ok (taken @ se_out s @ rest)))) (\<lambda>_. False)"
proof -
  obtain s0 rc rt wl where s0: "m = Ok s0" "stream_start rc rt wl (magic_bytes expect_magic) checksum s0" using stream_starts [OF assms] .
  then have i: "session_inv rc rt [] s0" "rings_ok rc rt" by (simp_all add: stream_start_def)
  obtain taken s where r: "run_ops ops s0 = Ok (taken, s)" "session_inv rc rt (pushed ops) s" using run_ops_Ok [OF i] by fastforce
  have "\<exists>rest. stream_session (ops @ ops') m = Ok (taken @ se_out s @ rest)" if "length (pushed (ops @ ops')) < 2 ^ 60" for ops'
  proof -
    have "length (pushed ops) + length (pushed ops') < 2 ^ 64" using that by simp
    from session_from_prefix [OF r(2) i(2) this] obtain rest where "session_from ops' s = Ok (se_out s @ rest)" by blast
    then show ?thesis by (auto simp: stream_session_def s0(1) session_from_def run_ops_append r(1) outcome_simps)
  qed
  moreover have "length (pushed ops) \<le> se_emitted s + BLOCK_SIZE_MAX"
    using r(2) stream_inv_total [of rc rt "kept_bound rc rt s" "pushed ops" s] by (simp add: session_inv_def drained_def)
  ultimately show ?thesis by (simp add: s0(1) r(1))
qed

theorem streaming_encoder_progress_witness:
  "post (obind (stream_with_options 3 True True) (run_ops [Push [1, 2]])) (\<lambda>(taken, s).
      length (pushed [Push [1, 2]]) \<le> se_emitted s + BLOCK_SIZE_MAX
      \<and> (\<forall>ops'. length (pushed ([Push [1, 2]] @ ops')) < 2 ^ 60
            \<longrightarrow> (\<exists>rest. stream_session ([Push [1, 2]] @ ops') (stream_with_options 3 True True) = Ok (taken @ se_out s @ rest)))) (\<lambda>_. False)"
  by (rule streaming_encoder_progress [of _ 3 True True 20]) simp

end
