(* ===== verification/Parallel_Encode.thy ===== *)
theory Parallel_Encode
  imports Dict_Encode
begin

text \<open>
  \<^verbatim>\<open>src/encode/parallel.rs\<close>: one frame from several workers. Each compresses a segment of the input behind a
  primed overlap, and starts without the repeat offsets and the tables that the worker before it ends with: the
  repeat offsets are zero, which stands for unknown. The parse never uses an unknown offset, so that the
  decoder, which has the true ones, executes the same sequences (\<open>heals\<close>); a worker without tables
  writes its own.
\<close>

section \<open>Jobs\<close>

definition MIN_JOB_SIZE :: nat where "MIN_JOB_SIZE = 128 * 1024"

definition MAX_JOBS :: nat where "MAX_JOBS = 256"

definition overlap_bytes :: "strategy \<Rightarrow> nat \<Rightarrow> nat" where
  "overlap_bytes strategy max_offset =
     (let overlap_rlog =
        (case strategy of
           Btultra2 \<Rightarrow> 0 | Btopt \<Rightarrow> 1 | Btultra \<Rightarrow> 1 | Lazy2 \<Rightarrow> 2 | BtLazy2 \<Rightarrow> 2 | _ \<Rightarrow> (3 :: nat)) in
      drop_bit overlap_rlog max_offset)"

record job =
  jb_lo :: nat
  jb_overlap :: nat
  jb_hi :: nat
  jb_init_rep :: rep_offsets
  jb_is_last :: bool

definition effective_jobs :: "nat \<Rightarrow> nat \<Rightarrow> nat" where
  "effective_jobs data_len n_jobs =
     (let by_size = max (data_len div MIN_JOB_SIZE) 1 in clamp n_jobs 1 (min by_size MAX_JOBS))"

definition job_plan :: "nat \<Rightarrow> nat \<Rightarrow> nat \<Rightarrow> job list" where
  "job_plan jobs n seam_overlap =
     map (\<lambda>i. let a = i * n div jobs; b = (i + 1) * n div jobs; overlap = (if i = 0 then 0 else min a seam_overlap) in
         \<lparr>jb_lo = a - overlap, jb_overlap = overlap, jb_hi = b, jb_init_rep = (if i = 0 then (1, 4, 8) else (0, 0, 0)),
          jb_is_last = (i = jobs - 1)\<rparr>) [0..<jobs]"

text \<open>A block of a segment is the last of the frame only in the last job.\<close>

definition segment_block ::
  "byte list \<Rightarrow> nat \<Rightarrow> nat \<Rightarrow> bool \<Rightarrow> nat \<Rightarrow> nat \<Rightarrow> bool \<Rightarrow> enc_state \<times> finder \<Rightarrow> (byte list \<times> enc_state \<times> finder) result" where
  "segment_block view max_offset depth is_last start e at_end s = regular_block view view 0 max_offset depth start e (is_last \<and> at_end) s"

definition compress_segment :: "byte list \<Rightarrow> nat \<Rightarrow> cparams \<Rightarrow> nat \<Rightarrow> nat \<Rightarrow> rep_offsets \<Rightarrow> bool \<Rightarrow> byte list result" where
  "compress_segment view overlap params max_offset split_depth init_rep is_last =
     obind (if 0 < overlap then finder_prime (finder_new params) view overlap max_offset else Ok (finder_new params)) (\<lambda>finder.
     let state = \<lparr>es_rep = init_rep, es_seq = default_seq_ctables, es_lit = None\<rparr> in
     block_loop (segment_block view max_offset split_depth is_last) (length view) overlap (state, finder))"

text \<open>The workers share nothing but the input, and their results are joined in the order of the segments.\<close>

definition run_job :: "byte list \<Rightarrow> cparams \<Rightarrow> nat \<Rightarrow> nat \<Rightarrow> job \<Rightarrow> byte list result" where
  "run_job data params max_offset split_depth j =
     obind (slice_range data (jb_lo j) (jb_hi j)) (\<lambda>view.
     compress_segment view (jb_overlap j) params max_offset split_depth (jb_init_rep j) (jb_is_last j))"

definition compress_parallel :: "byte list \<Rightarrow> int \<Rightarrow> nat \<Rightarrow> bool \<Rightarrow> bool \<Rightarrow> byte list result" where
  "compress_parallel data level n_jobs checksum expect_magic =
     (let jobs = effective_jobs (length data) n_jobs in
      if jobs \<le> 1 then compress data level checksum expect_magic
      else
        let params = params_for_level level (length data); window_log = cp_window_log params; max_offset = 2 ^ window_log;
            split_depth = split_depth_for (cp_strategy params);
            plan = job_plan jobs (length data) (overlap_bytes (cp_strategy params) max_offset) in
        obind (traverse (run_job data params max_offset split_depth) plan) (\<lambda>blocks.
        obind (write_frame_header (length data) checksum window_log 0) (\<lambda>header.
        Ok ((if expect_magic then le_bytes 4 (unat ZSTD_MAGIC) else []) @ header @ concat blocks @ content_checksum data checksum))))"

section \<open>Unknown repeat offsets\<close>

definition known :: "nat \<Rightarrow> nat \<Rightarrow> bool" where
  "known a b \<longleftrightarrow> a = 0 \<or> a = b"

lemma known_simps [simp]: "known 0 b" "known a a"
  by (simp_all add: known_def)

text \<open>A choice that is not zero is the same with the true offsets.\<close>

lemma mtf_resolve_known:
  assumes rs: "list_all2 known rs rs'" "length rs = 3" and r: "mtf_resolve rs v ll0 = (off, rs1)" and off: "off \<noteq> 0"
  shows "\<exists>rs1'. mtf_resolve rs' v ll0 = (off, rs1') \<and> list_all2 known rs1 rs1' \<and> length rs1 = 3"
proof -
  obtain a b c where abc: "rs = [a, b, c]" using rs(2) by (auto simp: length_Suc_conv numeral_3_eq_3)
  then obtain a' b' c' where abc': "rs' = [a', b', c']" "known a a'" "known b b'" "known c c'"
    using rs(1) by (auto simp: list_all2_Cons1)
  define k where "k = v - 1 + (if ll0 then 1 else 0 :: nat)"
  have "3 < v \<or> k \<le> 3" by (cases ll0) (auto simp: k_def)
  then consider "3 < v" | "\<not> 3 < v" "k = 3" | "\<not> 3 < v" "k = 0" | "\<not> 3 < v" "k = 1" | "\<not> 3 < v" "k = 2"
    by linarith
  moreover have res: "mtf_resolve xs v ll0 = (case (if 3 < v then (v - 3, xs) else if k = 3 then (xs ! 0 - 1, xs)
      else (xs ! k, take k xs @ drop (k + 1) xs)) of (off, rest) \<Rightarrow> (off, take 3 (off # rest)))" for xs
    unfolding mtf_resolve_def Let_def k_def ..
  ultimately show ?thesis
    using r off abc'(2-4) unfolding abc abc'(1) res by cases (auto simp: known_def)
qed

lemma lz_run_known:
  assumes "lz_run ss rm lits out rs = Some (out', rs1)" and "list_all2 known rs rs'" and "length rs = 3"
  shows "\<exists>rs1'. lz_run ss rm lits out rs' = Some (out', rs1') \<and> list_all2 known rs1 rs1' \<and> length rs1 = 3"
  using assms
proof (induction ss arbitrary: rm lits out rs rs')
  case Nil
  then show ?case by (auto split: if_splits)
next
  case (Cons s ss)
  obtain v match_len lit_len ll0 where s: "s = (v, match_len, lit_len, ll0)" by (cases s)
  obtain off rs2 where r: "mtf_resolve rs v ll0 = (off, rs2)" by (cases "mtf_resolve rs v ll0")
  have ok: "\<not> (off = 0 \<or> rm < lit_len + match_len \<or> length lits < lit_len \<or> length out + lit_len < off)"
    "lz_run ss (rm - (lit_len + match_len)) (drop lit_len lits) (lz_copy (out @ take lit_len lits) off match_len) rs2 = Some (out', rs1)"
    using Cons.prems(1) by (auto simp: s r split: if_splits)
  have "off \<noteq> 0" using ok(1) by simp
  from mtf_resolve_known [OF Cons.prems(2,3) r this] obtain rs2' where
    r': "mtf_resolve rs' v ll0 = (off, rs2')" "list_all2 known rs2 rs2'" "length rs2 = 3" by blast
  from Cons.IH [OF ok(2) r'(2,3)] show ?case unfolding s lz_run.simps r'(1) Let_def prod.case if_not_P [OF ok(1)] .
qed

definition knows :: "rep_offsets \<Rightarrow> rep_offsets \<Rightarrow> bool" where
  "knows rep rep' \<longleftrightarrow> list_all2 known (rep_list rep) (rep_list rep')"

lemma knows_simps: "knows (0, 0, 0) rep" "knows rep rep"
  by (simp_all add: knows_def rep_list_def Let_def split: prod.split)

lemma describes_knows:
  assumes d: "describes seqs lits rep out ys rep1" and k: "knows rep rep'"
  shows "\<exists>rep1'. describes seqs lits rep' out ys rep1' \<and> knows rep1 rep1'"
proof -
  have len: "length (rep_list rep) = 3" by (simp add: rep_list_def split: prod.split)
  have "lz_run (map raw_of seqs) (length ys) lits out (rep_list rep) = Some (out @ ys, rep_list rep1)" using d by (simp add: describes_def)
  from lz_run_known [OF this k [unfolded knows_def] len] obtain rs1' where
    r: "lz_run (map raw_of seqs) (length ys) lits out (rep_list rep') = Some (out @ ys, rs1')" "list_all2 known (rep_list rep1) rs1'" "length (rep_list rep1) = 3"
    by blast
  have "length rs1' = 3" using list_all2_lengthD [OF r(2)] r(3) by simp
  then obtain a b c where "rs1' = rep_list (a, b, c)" by (auto simp: rep_list_def length_Suc_conv numeral_3_eq_3)
  then show ?thesis using d r(1,2) by (auto simp: describes_def knows_def)
qed

section \<open>Blocks without the true offsets\<close>

text \<open>The encoder's state with the offsets that the decoder has.\<close>

definition heals :: "enc_state \<Rightarrow> enc_state \<Rightarrow> bool" where
  "heals e e' \<longleftrightarrow> es_seq e' = es_seq e \<and> es_lit e' = es_lit e \<and> knows (es_rep e) (es_rep e')"

definition healed_writes :: "byte list \<Rightarrow> bool \<Rightarrow> enc_state \<Rightarrow> byte list \<Rightarrow> byte list \<Rightarrow> enc_state \<Rightarrow> bool" where
  "healed_writes bytes lst e out ys e1 \<longleftrightarrow> (\<forall>e'. heals e e' \<longrightarrow> (\<exists>e1'. heals e1 e1' \<and> writes bytes lst e' out ys e1'))"

lemma pick_alts_pick:
  "pick_alts lst seq lit depth alts best = Ok (bytes, e') \<Longrightarrow> (bytes, e') = best
    \<or> (\<exists>a \<in> set alts. emit_split lst (pa_seqs a) (pa_literals a) seq lit depth = Ok (bytes, es_seq e', es_lit e') \<and> es_rep e' = pa_rep a)"
proof (induction alts arbitrary: best)
  case (Cons alt alts)
  obtain buf s l where b: "emit_split lst (pa_seqs alt) (pa_literals alt) seq lit depth = Ok (buf, s, l)"
    using Cons.prems(1) by (auto simp: outcome_simps)
  let ?best = "if length buf < length (fst best) then (buf, \<lparr>es_rep = pa_rep alt, es_seq = s, es_lit = l\<rparr>) else best"
  have "pick_alts lst seq lit depth alts ?best = Ok (bytes, e')" using Cons.prems b by simp
  from Cons.IH [OF this] consider "(bytes, e') = ?best"
    | a where "a \<in> set alts" "emit_split lst (pa_seqs a) (pa_literals a) seq lit depth = Ok (bytes, es_seq e', es_lit e')" "es_rep e' = pa_rep a" by blast
  then show ?case
  proof cases
    case 1
    then show ?thesis using b by (cases "length buf < length (fst best)") auto
  next
    case 2
    then show ?thesis by auto
  qed
qed simp

lemma emit_and_pick_pick:
  assumes "emit_and_pick lst p seq lit depth = Ok (bytes, e')"
  shows "\<exists>a \<in> insert p (set (pa_alts p)). emit_split lst (pa_seqs a) (pa_literals a) seq lit depth = Ok (bytes, es_seq e', es_lit e') \<and> es_rep e' = pa_rep a"
  using assms by (auto simp: emit_and_pick_def outcome_simps dest!: pick_alts_pick)

lemma split_healed_writes:
  assumes d: "describes seqs lits (es_rep e) out ys (es_rep e1)" and m: "matched (es_seq e) (es_lit e)"
    and s: "emit_split lst seqs lits (es_seq e) (es_lit e) depth = Ok (bytes, es_seq e1, es_lit e1)"
  shows "healed_writes bytes lst e out ys e1"
  unfolding healed_writes_def
proof (intro allI impI)
  fix e' assume h: "heals e e'"
  then have "knows (es_rep e) (es_rep e')" by (simp add: heals_def)
  from describes_knows [OF d this] obtain rep1' where d': "describes seqs lits (es_rep e') out ys rep1'" "knows (es_rep e1) rep1'" by blast
  let ?e1 = "\<lparr>es_rep = rep1', es_seq = es_seq e1, es_lit = es_lit e1\<rparr>"
  have eq: "\<lparr>es_rep = es_rep e', es_seq = es_seq e, es_lit = es_lit e\<rparr> = e'" using h by (cases e') (simp add: heals_def)
  have "emission (Ok (bytes, es_seq ?e1, es_lit ?e1)) lst e' out ys (es_rep ?e1)"
    using emit_split_emission [OF d'(1) m, of lst depth, unfolded eq] s by simp
  then have "writes bytes lst e' out ys ?e1" using emission_writes by blast
  moreover have "heals e1 ?e1" using d'(2) by (simp add: heals_def)
  ultimately show "\<exists>e1'. heals e1 e1' \<and> writes bytes lst e' out ys e1'" by blast
qed

lemma write_compressed_block_healed:
  assumes f: "finder_inv rc rt data start f" and fit: "block_fits data W start e" and rep: "rep_within W (es_rep es)" and R: "R \<le> W"
    and m: "matched (es_seq es) (es_lit es)"
  shows "\<exists>bytes e1 f'. write_compressed_block lst data start e f R es depth = Ok (Ok (bytes, e1), f') \<and> finder_inv rc rt data e f'
    \<and> rep_within W (es_rep e1) \<and> matched (es_seq e1) (es_lit e1)
    \<and> healed_writes bytes lst es (pre @ take start data) (take (e - start) (drop start data)) e1"
proof -
  obtain p f' where p: "finder_parse f data start e R (es_rep es) = Ok (p, f')" "block_parsed data W start e (es_rep es) p" "finder_inv rc rt data e f'"
    using finder_parse_Ok [OF f fit rep R] by (auto simp: finder_parses_def)
  obtain mm f2 where w: "write_compressed_block lst data start e f R es depth = Ok (mm, f2)"
    "block_emitted (take (e - start) (drop start data)) lst W es (pre @ take start data) mm"
    using write_compressed_block_Ok [OF f fit rep R m] by blast
  obtain bytes e1 where b: "mm = Ok (bytes, e1)" "rep_within W (es_rep e1)" "matched (es_seq e1) (es_lit e1)" using w(2) by (auto simp: block_emitted_def)
  have em: "emit_and_pick lst p (es_seq es) (es_lit es) depth = Ok (bytes, e1)" "f2 = f'"
    using w(1) p(1) b(1) by (simp_all add: write_compressed_block_def)
  have d: "\<forall>a \<in> insert p (set (pa_alts p)). describes (pa_seqs a) (pa_literals a) (es_rep es) (pre @ take start data) (take (e - start) (drop start data)) (pa_rep a)"
    using p(2) describes_history by (cases p) (auto simp: block_parsed_def)
  from emit_and_pick_pick [OF em(1)] obtain a where a: "a \<in> insert p (set (pa_alts p))"
    "emit_split lst (pa_seqs a) (pa_literals a) (es_seq es) (es_lit es) depth = Ok (bytes, es_seq e1, es_lit e1)" "es_rep e1 = pa_rep a" by blast
  have "describes (pa_seqs a) (pa_literals a) (es_rep es) (pre @ take start data) (take (e - start) (drop start data)) (es_rep e1)"
    using bspec [OF d a(1)] a(3) by simp
  from split_healed_writes [OF this m a(2)] show ?thesis using w(1) b p(3) em(2) by blast
qed

lemma keep_smaller_healed:
  assumes "healed_writes bytes lst e out ys e1" and "length ys \<le> BLOCK_SIZE_MAX"
    and "rep_within W (es_rep e1)" "matched (es_seq e1) (es_lit e1)" "rep_within W (es_rep e)" "matched (es_seq e) (es_lit e)"
  shows "\<exists>b e2. keep_smaller (write_store_block lst ys) e (Ok (bytes, e1)) = Ok (b, e2) \<and> length b \<le> 3 + length ys \<and> healed_writes b lst e out ys e2
    \<and> rep_within W (es_rep e2) \<and> matched (es_seq e2) (es_lit e2)"
proof -
  have "healed_writes (write_store_block lst ys) lst e out ys e"
    using store_writes [OF assms(2)] by (auto simp: healed_writes_def)
  then show ?thesis using assms length_write_store_block [of lst ys] by auto
qed

definition segment_inv :: "nat \<Rightarrow> nat \<Rightarrow> byte list \<Rightarrow> nat \<Rightarrow> nat \<Rightarrow> enc_state \<times> finder \<Rightarrow> bool" where
  "segment_inv rc rt view W p s \<longleftrightarrow> W + 3 < 2 ^ 32 \<and> finder_inv rc rt view p (snd s) \<and> rep_within W (es_rep (fst s)) \<and> matched (es_seq (fst s)) (es_lit (fst s))"

lemma segment_block_law:
  assumes I: "segment_inv rc rt view W start s" and e: "start \<le> e" "e \<le> length view" "e - start \<le> BLOCK_SIZE_MAX"
  shows "\<exists>bytes s'. segment_block view W depth is_last start e at_end s = Ok (bytes, s') \<and> segment_inv rc rt view W e s'
    \<and> length bytes \<le> 3 + (e - start)
    \<and> healed_writes bytes (is_last \<and> at_end) (fst s) (pre @ take start view) (take (e - start) (drop start view)) (fst s')"
proof -
  obtain st f where s: "s = (st, f)" by (cases s)
  have i: "W + 3 < 2 ^ 32" "finder_inv rc rt view start f" "rep_within W (es_rep st)" "matched (es_seq st) (es_lit st)"
    using I by (simp_all add: segment_inv_def s)
  let ?ys = "take (e - start) (drop start view)" and ?lst = "is_last \<and> at_end"
  have ys: "length ?ys = e - start" "length ?ys \<le> BLOCK_SIZE_MAX" "slice_range view start e = (Ok ?ys :: byte list result)" using e by simp_all
  have fit: "block_fits view W start e" using i e by (simp add: block_fits_def)
  obtain bytes e1 f' where w: "write_compressed_block ?lst view start e f W st depth = Ok (Ok (bytes, e1), f')" "finder_inv rc rt view e f'"
    "rep_within W (es_rep e1)" "matched (es_seq e1) (es_lit e1)" "healed_writes bytes ?lst st (pre @ take start view) ?ys e1"
    using write_compressed_block_healed [OF i(2) fit i(3) order.refl i(4)] by blast
  obtain b e2 where k: "keep_smaller (write_store_block ?lst ?ys) st (Ok (bytes, e1)) = Ok (b, e2)" "length b \<le> 3 + length ?ys"
    "healed_writes b ?lst st (pre @ take start view) ?ys e2" "rep_within W (es_rep e2)" "matched (es_seq e2) (es_lit e2)"
    using keep_smaller_healed [OF w(5) ys(2) w(3,4) i(3,4)] by blast
  have "segment_block view W depth is_last start e at_end s = Ok (b, e2, f')"
    using ys(3) w(1) k(1) by (simp add: segment_block_def regular_block_def s del: keep_smaller.simps)
  then show ?thesis using k(2-5) ys(1) i(1) w(2) by (auto simp: segment_inv_def s)
qed

section \<open>Segments\<close>

text \<open>What the blocks of a segment are to a decoder that has the true offsets: the end of the blocks of a frame, or
  blocks in front of others.\<close>

definition segment_decodes :: "byte list \<Rightarrow> bool \<Rightarrow> enc_state \<Rightarrow> byte list \<Rightarrow> byte list \<Rightarrow> bool" where
  "segment_decodes bytes is_last e out ys \<longleftrightarrow> (\<forall>e'. heals e e' \<longrightarrow>
     (if is_last then frame_blocks bytes e' out ys
      else \<exists>e1'. \<forall>rest zs. frame_blocks rest e1' (out @ ys) zs \<longrightarrow> frame_blocks (bytes @ rest) e' out (ys @ zs)))"

lemma segment_decodes_one:
  assumes w: "healed_writes bytes is_last e out ys e1" and len: "length bytes \<le> 3 + length ys" "length ys \<le> BLOCK_SIZE_MAX"
  shows "segment_decodes bytes is_last e out ys"
  unfolding segment_decodes_def
proof (intro allI impI)
  fix e' assume "heals e e'"
  then obtain e1' where w': "writes bytes is_last e' out ys e1'" using w by (auto simp: healed_writes_def)
  show "if is_last then frame_blocks bytes e' out ys
      else \<exists>e1'. \<forall>rest zs. frame_blocks rest e1' (out @ ys) zs \<longrightarrow> frame_blocks (bytes @ rest) e' out (ys @ zs)"
  proof (cases is_last)
    case True
    then show ?thesis using last_block_ends [OF _ len] w' by simp
  next
    case False
    then show ?thesis using block_before [OF _ len, of e' out e1'] w' by auto
  qed
qed

lemma segment_decodes_before:
  assumes w: "healed_writes bytes False e out ys e1" and len: "length bytes \<le> 3 + length ys" "length ys \<le> BLOCK_SIZE_MAX"
    and rest: "segment_decodes rest is_last e1 (out @ ys) zs"
  shows "segment_decodes (bytes @ rest) is_last e out (ys @ zs)"
  unfolding segment_decodes_def
proof (intro allI impI)
  fix e' assume "heals e e'"
  then obtain e1' where w': "heals e1 e1'" "writes bytes False e' out ys e1'" using w by (auto simp: healed_writes_def)
  note before = block_before [OF w'(2) len]
  have r: "if is_last then frame_blocks rest e1' (out @ ys) zs
      else \<exists>e2'. \<forall>more us. frame_blocks more e2' ((out @ ys) @ zs) us \<longrightarrow> frame_blocks (rest @ more) e1' (out @ ys) (zs @ us)"
    using rest w'(1) unfolding segment_decodes_def by blast
  show "if is_last then frame_blocks (bytes @ rest) e' out (ys @ zs)
      else \<exists>e1'. \<forall>more us. frame_blocks more e1' (out @ ys @ zs) us \<longrightarrow> frame_blocks ((bytes @ rest) @ more) e' out ((ys @ zs) @ us)"
  proof (cases is_last)
    case True
    then show ?thesis using before r by simp
  next
    case False
    then obtain e2' where "\<And>more us. frame_blocks more e2' ((out @ ys) @ zs) us \<Longrightarrow> frame_blocks (rest @ more) e1' (out @ ys) (zs @ us)" using r by auto
    then show ?thesis using before False by (intro if_not_P [THEN iffD2] exI [of _ e2'] allI impI) auto
  qed
qed

lemma segment_loop:
  assumes "segment_inv rc rt view W start s" and "start < length view"
  shows "\<exists>bytes. block_loop (segment_block view W depth is_last) (length view) start s = Ok bytes \<and> length bytes \<le> 4 * (length view - start)
    \<and> segment_decodes bytes is_last (fst s) (pre @ take start view) (drop start view)"
  using assms
proof (induction "length view - start" arbitrary: start s rule: less_induct)
  case less
  define e where "e = min (start + BLOCK_SIZE_MAX) (length view)"
  have e: "start \<le> e" "e \<le> length view" "e - start \<le> BLOCK_SIZE_MAX" "start < e" using less.prems(2) by (auto simp: e_def BLOCK_SIZE_MAX_def)
  let ?ys = "take (e - start) (drop start view)"
  have ys: "length ?ys = e - start" using e by simp
  obtain bytes s1 where b: "segment_block view W depth is_last start e (e = length view) s = Ok (bytes, s1)" "segment_inv rc rt view W e s1"
    "length bytes \<le> 3 + (e - start)"
    "healed_writes bytes (is_last \<and> e = length view) (fst s) (pre @ take start view) ?ys (fst s1)"
    using segment_block_law [OF less.prems(1) e(1-3)] by blast
  have run: "block_loop (segment_block view W depth is_last) (length view) start s
      = obind (block_loop (segment_block view W depth is_last) (length view) e s1) (\<lambda>rest. Ok (bytes @ rest))"
    using less.prems(2) b(1) by (subst block_loop.simps) (simp add: e_def Let_def)
  show ?case
  proof (cases "e = length view")
    case True
    have "block_loop (segment_block view W depth is_last) (length view) e s1 = Ok []" by (subst block_loop.simps) (simp add: True)
    moreover have "segment_decodes bytes is_last (fst s) (pre @ take start view) ?ys"
      by (rule segment_decodes_one [where ?e1.0 = "fst s1"]) (use b(3,4) True ys e(3) in auto)
    moreover have "?ys = drop start view" using True by simp
    ultimately show ?thesis using run b(3) e(4) True by auto
  next
    case False
    then have "e < length view" "length view - e < length view - start" using e by simp_all
    from less.hyps [OF this(2) b(2) this(1)] obtain rest where r: "block_loop (segment_block view W depth is_last) (length view) e s1 = Ok rest"
      "length rest \<le> 4 * (length view - e)" "segment_decodes rest is_last (fst s1) (pre @ take e view) (drop e view)" by blast
    have te: "pre @ take e view = (pre @ take start view) @ ?ys" "drop start view = ?ys @ drop e view"
      using e(1) by (simp_all add: take_add [symmetric]) (metis append_take_drop_id drop_drop le_add_diff_inverse2)
    have "segment_decodes (bytes @ rest) is_last (fst s) (pre @ take start view) (?ys @ drop e view)"
      by (rule segment_decodes_before [where ?e1.0 = "fst s1"]) (use b(3,4) False ys e(3) r(3) te(1) in auto)
    then show ?thesis using run r(1,2) te(2) b(3) e(2,4) by simp
  qed
qed

definition worker_state :: "rep_offsets \<Rightarrow> enc_state" where
  "worker_state rep = \<lparr>es_rep = rep, es_seq = default_seq_ctables, es_lit = None\<rparr>"

lemma compress_segment_decodes:
  assumes view: "overlap < length view" and W: "W + 3 < 2 ^ 32" and rep: "rep_within W rep"
  shows "\<exists>bytes. compress_segment view overlap params W depth rep is_last = Ok bytes \<and> length bytes \<le> 4 * (length view - overlap)
    \<and> segment_decodes bytes is_last (worker_state rep) (pre @ take overlap view) (drop overlap view)"
proof -
  let ?rc = "chain_ring params" and ?rt = "tree_ring params"
  have "overlap \<le> length view" using view by simp
  from finder_prime_Ok [OF finder_new_inv this, of params W] obtain f where
    f: "(if 0 < overlap then finder_prime (finder_new params) view overlap W else Ok (finder_new params)) = Ok f" "finder_inv ?rc ?rt view overlap f"
    using finder_new_inv by (cases "0 < overlap") auto
  have "segment_inv ?rc ?rt view W overlap (worker_state rep, f)"
    using f(2) W rep matched_fresh by (simp add: segment_inv_def worker_state_def fresh_state_def)
  from segment_loop [OF this view, of depth is_last pre] show ?thesis
    unfolding compress_segment_def f(1) obind_simps Let_def worker_state_def by simp
qed

section \<open>All the jobs\<close>

text \<open>A decoder in step with any state is in step with one that has forgotten the tables.\<close>

lemma frame_blocks_forget:
  "frame_blocks bytes (worker_state (es_rep e)) out ys \<Longrightarrow> frame_blocks bytes e out ys"
  unfolding frame_blocks_def by (force simp: in_step_def worker_state_def seq_tables_match_default lit_match_def)

lemma run_job_decodes:
  assumes j: "jb_lo j + jb_overlap j = a" "jb_hi j = b" "a < b" "b \<le> length data"
    and W: "W + 3 < 2 ^ 32" and rep: "rep_within W (jb_init_rep j)"
  shows "\<exists>bytes. run_job data params W depth j = Ok bytes \<and> length bytes \<le> 4 * (b - a)
    \<and> segment_decodes bytes (jb_is_last j) (worker_state (jb_init_rep j)) (take a data) (take (b - a) (drop a data))"
proof -
  let ?view = "take (b - jb_lo j) (drop (jb_lo j) data)"
  have lo: "jb_lo j \<le> b" "jb_overlap j < length ?view" using j by simp_all
  have pieces: "take (jb_lo j) data @ take (jb_overlap j) ?view = take a data" "drop (jb_overlap j) ?view = take (b - a) (drop a data)"
    "length ?view - jb_overlap j = b - a"
    using j by (auto simp: take_add [symmetric] min_def drop_take add.commute)
  from compress_segment_decodes [OF lo(2) W rep, of params depth "jb_is_last j" "take (jb_lo j) data", unfolded pieces] show ?thesis
    using lo(1) j(2,4) by (simp add: run_job_def)
qed

lemma effective_jobs_small: "1 < effective_jobs n k \<Longrightarrow> effective_jobs n k \<le> n"
proof -
  have "effective_jobs n k \<le> max (n div MIN_JOB_SIZE) 1" by (auto simp: effective_jobs_def clamp_def Let_def)
  moreover have "n div MIN_JOB_SIZE \<le> n" by simp
  ultimately show "1 < effective_jobs n k \<Longrightarrow> effective_jobs n k \<le> n" by linarith
qed

lemma seam_bounds:
  assumes "0 < jobs" and "jobs \<le> n"
  shows "i * n div jobs < Suc i * n div jobs" and "i < jobs \<Longrightarrow> Suc i * n div jobs \<le> n"
proof -
  have "(i * n + jobs) div jobs \<le> Suc i * n div jobs" using assms by (intro div_le_mono) simp
  moreover have "(i * n + jobs) div jobs = i * n div jobs + 1" using assms(1) by (simp only: div_add_self2 neq0_conv)
  ultimately show "i * n div jobs < Suc i * n div jobs" by linarith
  show "Suc i * n div jobs \<le> n" if "i < jobs"
  proof -
    have "Suc i * n \<le> jobs * n" using that by (intro mult_le_mono) simp_all
    then have "Suc i * n div jobs \<le> jobs * n div jobs" by (rule div_le_mono)
    then show ?thesis using assms(1) by simp
  qed
qed

text \<open>From a seam on, the blocks of the jobs are those of the rest of the data.\<close>

lemma jobs_decode:
  fixes data jobs
  defines "at \<equiv> \<lambda>i. i * length data div jobs"
  assumes jobs: "0 < jobs" "jobs \<le> length data" and W: "8 \<le> W" "W + 3 < 2 ^ 32" and i: "i < jobs"
  shows "\<exists>blocks. traverse (run_job data params W depth) (drop i (job_plan jobs (length data) seam)) = Ok blocks
    \<and> length (concat blocks) \<le> 4 * (length data - at i)
    \<and> (\<forall>e'. heals (worker_state (if i = 0 then (1, 4, 8) else (0, 0, 0))) e' \<longrightarrow> frame_blocks (concat blocks) e' (take (at i) data) (drop (at i) data))"
  using i
proof (induction "jobs - i" arbitrary: i)
  case (Suc k)
  define j where "j = job_plan jobs (length data) seam ! i"
  let ?init = "if i = 0 then (1, 4, 8) else (0, 0, 0) :: rep_offsets"
  have plan: "drop i (job_plan jobs (length data) seam) = j # drop (Suc i) (job_plan jobs (length data) seam)"
    using Cons_nth_drop_Suc [of i "job_plan jobs (length data) seam"] Suc.prems by (simp add: j_def job_plan_def)
  have j: "jb_lo j + jb_overlap j = at i" "jb_hi j = at (Suc i)" "jb_init_rep j = ?init" "jb_is_last j \<longleftrightarrow> i = jobs - 1"
    using Suc.prems by (auto simp: j_def job_plan_def at_def Let_def)
  have seam: "at i < at (Suc i)" "at (Suc i) \<le> length data" using seam_bounds [OF jobs] Suc.prems by (simp_all only: at_def)
  have "rep_within W (jb_init_rep j)" using W(1) by (simp add: j(3) rep_within_def rep_list_def)
  from run_job_decodes [OF j(1,2) seam W(2) this, of params depth] obtain bytes where b: "run_job data params W depth j = Ok bytes"
    "length bytes \<le> 4 * (at (Suc i) - at i)"
    "segment_decodes bytes (i = jobs - 1) (worker_state ?init) (take (at i) data) (take (at (Suc i) - at i) (drop (at i) data))"
    unfolding j(3,4) by blast
  show ?case
  proof (cases "i = jobs - 1")
    case True
    then have "Suc i = jobs" using Suc.prems by simp
    then have e: "at (Suc i) = length data" "drop (Suc i) (job_plan jobs (length data) seam) = []" using jobs by (simp_all add: at_def job_plan_def)
    have "traverse (run_job data params W depth) (drop i (job_plan jobs (length data) seam)) = Ok [bytes]" unfolding plan e(2) by (simp add: b(1))
    moreover have "\<forall>e'. heals (worker_state ?init) e' \<longrightarrow> frame_blocks bytes e' (take (at i) data) (drop (at i) data)"
      using b(3) eqTrueI [OF True] unfolding segment_decodes_def e(1) by simp
    ultimately show ?thesis using b(2) unfolding e(1) by (intro exI [of _ "[bytes]"]) simp
  next
    case False
    then have less: "Suc i < jobs" using Suc.prems by simp
    obtain blocks where r: "traverse (run_job data params W depth) (drop (Suc i) (job_plan jobs (length data) seam)) = Ok blocks"
      "length (concat blocks) \<le> 4 * (length data - at (Suc i))"
      "\<And>e'. heals (worker_state (0, 0, 0)) e' \<Longrightarrow> frame_blocks (concat blocks) e' (take (at (Suc i)) data) (drop (at (Suc i)) data)"
    proof -
      have "k = jobs - Suc i" using Suc.hyps(2) by simp
      from Suc.hyps(1) [OF this less] show ?thesis using that by auto
    qed
    have d: "take (at i) data @ take (at (Suc i) - at i) (drop (at i) data) = take (at (Suc i)) data"
      "drop (at i) data = take (at (Suc i) - at i) (drop (at i) data) @ drop (at (Suc i)) data"
      using seam(1) by (simp_all add: take_add [symmetric]) (metis append_take_drop_id drop_drop le_add_diff_inverse2 less_imp_le)
    have "frame_blocks (bytes @ concat blocks) e' (take (at i) data) (drop (at i) data)" if healed: "heals (worker_state ?init) e'" for e'
    proof -
      obtain e1 where e1: "\<And>rest zs. frame_blocks rest e1 (take (at (Suc i)) data) zs
          \<Longrightarrow> frame_blocks (bytes @ rest) e' (take (at i) data) (take (at (Suc i) - at i) (drop (at i) data) @ zs)"
      proof -
        have "\<exists>e1'. \<forall>rest zs. frame_blocks rest e1' (take (at (Suc i)) data) zs
            \<longrightarrow> frame_blocks (bytes @ rest) e' (take (at i) data) (take (at (Suc i) - at i) (drop (at i) data) @ zs)"
          using b(3) healed False unfolding segment_decodes_def d(1) by simp
        then show ?thesis using that by blast
      qed
      have "heals (worker_state (0, 0, 0)) (worker_state (es_rep e1))" by (simp add: heals_def worker_state_def knows_simps)
      from e1 [OF frame_blocks_forget [OF r(3) [OF this]]] show ?thesis using d(2) by simp
    qed
    moreover have "length (bytes @ concat blocks) \<le> 4 * (length data - at i)" using b(2) r(2) seam by simp
    ultimately show ?thesis using b(1) r(1) by (simp add: plan)
  qed
qed simp

lemma compress_parallel_decodes:
  assumes small: "length data \<le> 2 ^ 32" and mx: "length data \<le> mx" "mx \<le> usize_max"
  shows "decodes_to (compress_parallel data level n_jobs ck m) m None data mx"
proof (cases "effective_jobs (length data) n_jobs \<le> 1")
  case True
  then show ?thesis using compress_with_params_decodes [OF window_ok_level [OF small] mx, of level ck m] by (simp add: compress_parallel_def compress_def)
next
  case False
  define jobs where "jobs = effective_jobs (length data) n_jobs"
  define params where "params = params_for_level level (length data)"
  let ?wl = "cp_window_log params"
  let ?W = "2 ^ ?wl :: nat"
  let ?plan = "job_plan jobs (length data) (overlap_bytes (cp_strategy params) ?W)"
  have j: "0 < jobs" "jobs \<le> length data" "\<not> jobs \<le> 1" using False effective_jobs_small [of "length data" n_jobs] by (simp_all add: jobs_def)
  have w: "window_ok ?wl data" using window_ok_level [OF small] by (simp add: params_def)
  then have wl: "10 \<le> ?wl" "?wl \<le> 31" by (simp_all add: window_ok_def)
  obtain blocks where b: "traverse (run_job data params ?W (split_depth_for (cp_strategy params))) ?plan = Ok blocks"
    "length (concat blocks) \<le> 4 * length data" "frame_blocks (concat blocks) fresh_state [] data"
  proof -
    have h: "heals (worker_state (if (0::nat) = 0 then (1, 4, 8) else (0, 0, 0))) fresh_state"
      by (simp add: heals_def worker_state_def fresh_state_def knows_simps)
    obtain blocks where b: "traverse (run_job data params ?W (split_depth_for (cp_strategy params))) (drop 0 ?plan) = Ok blocks"
      "length (concat blocks) \<le> 4 * (length data - 0 * length data div jobs)"
      "\<forall>e'. heals (worker_state (if (0::nat) = 0 then (1, 4, 8) else (0, 0, 0))) e'
        \<longrightarrow> frame_blocks (concat blocks) e' (take (0 * length data div jobs) data) (drop (0 * length data div jobs) data)"
      using jobs_decode [OF j(1,2) window_8 [OF wl(1)] window_bounds [OF wl(2)] j(1)] by blast
    have "frame_blocks (concat blocks) fresh_state [] data" using b(3) h by (metis div_0 drop0 mult_0 take0)
    then show ?thesis using b(1,2) that by simp
  qed
  have "data \<noteq> []" using j(1,2) by auto
  then have frame: "compress_parallel data level n_jobs ck m = frame_around data ck m ?wl 0 (Ok (concat blocks))"
    using j(3) b(1) by (simp add: compress_parallel_def jobs_def [symmetric] params_def [symmetric] Let_def frame_around_def)
  have "\<exists>c. frame_around data ck m ?wl 0 (Ok (concat blocks)) = Ok c \<and> decode_frame c m mx None None = Ok \<lparr>df_data = data, df_consumed = length c\<rparr>"
    by (rule frame_around_decodes [OF w primed_none _ mx]) (use b(2,3) in simp)
  then show ?thesis by (simp add: frame decodes_to_def decode_one_with_dict_def)
qed

section \<open>Properties\<close>

text \<open>C5: parallel compression is lossless. For every number of workers and every level, an input of at most 4 GiB is compressed
  into one frame that decodes to it: although a worker knows neither the repeat offsets nor the tables that the worker
  before it ends with, its blocks mean the same to the decoder, which has the true ones.\<close>

theorem compress_parallel_roundtrip:
  assumes "length data \<le> 2 ^ 32" and "length data \<le> mx" and "mx \<le> usize_max"
  shows "post (compress_parallel data level n_jobs checksum expect_magic)
    (\<lambda>c. decode_one c expect_magic mx = Ok \<lparr>df_data = data, df_consumed = length c\<rparr>) (\<lambda>_. False)"
  using compress_parallel_decodes [OF assms, of level n_jobs checksum expect_magic] by (auto simp: decodes_to_def decode_one_def)

theorem compress_parallel_roundtrip_witness:
  "post (compress_parallel (replicate 600000 7) 3 4 True True)
    (\<lambda>c. decode_one c True 1000000 = Ok \<lparr>df_data = replicate 600000 7, df_consumed = length c\<rparr>) (\<lambda>_. False)"
  by (rule compress_parallel_roundtrip [where level = 3 and n_jobs = 4]) (simp_all add: usize_max_def)

end
