(* ===== verification/Spec2Isabelle.thy ===== *)
theory Spec2Isabelle
  imports Fse_Stream Xxhash Streaming Seek Params Seq_Codec Huff_Codec Stream_Session Parallel_Encode
begin

text \<open>
  A model of the Rust crate \<^verbatim>\<open>zstd-pure\<close>, a codec of the Zstandard format (RFC 8878).

  \<^bold>\<open>The program.\<close> A frame is a header, a list of blocks and an optional checksum. A block is stored,
  a run of one byte, or compressed: a literals section (raw, run, or Huffman coded in one or four
  streams) and a sequences section (three interleaved FSE channels), whose sequences copy literals
  and matches into the output. The decoder (\<^verbatim>\<open>src/frame.rs\<close>) drives \<^verbatim>\<open>src/block.rs\<close>, which drives
  \<^verbatim>\<open>src/literals.rs\<close> and \<^verbatim>\<open>src/sequences.rs\<close>, which drive the entropy coders \<^verbatim>\<open>src/huff.rs\<close> and
  \<^verbatim>\<open>src/fse.rs\<close> over the bit readers of \<^verbatim>\<open>src/bits.rs\<close>. The streaming decoder and the seekable
  archives sit on top of the frame decoder; the encoder under \<^verbatim>\<open>src/encode\<close> mirrors it.

  \<^bold>\<open>Conventions\<close> (\<open>Prelude\<close>). A call has an \<open>outcome\<close>: \<open>Ok\<close>, \<open>Err\<close> with the crate's error, \<open>Panic\<close>
  (an index or slice out of range, an underflow, a failed assertion) or \<open>Hang\<close> (a loop without
  progress); \<open>post m P Q\<close> says that \<open>m\<close> returns, with a value in \<open>P\<close> or an error in \<open>Q\<close>, so that
  panic freedom is part of every statement of this form. \<open>usize\<close> values are \<open>nat\<close> with the overflow
  checks of the code written out; registers are words. Mutable arguments are passed and returned.

  \<^bold>\<open>Theories.\<close>
  \<^item> \<open>Prelude\<close>, \<open>Bytes\<close>, \<open>Zstd_Error\<close>: outcomes, checked indexing, little-endian numbers, \<^verbatim>\<open>error.rs\<close>.
  \<^item> \<open>Bits\<close>, \<open>Bit_Writer\<close>: \<^verbatim>\<open>bits.rs\<close>, \<^verbatim>\<open>encode/bitstream.rs\<close>. The locales \<open>bit_supply\<close> and
    \<open>bit_channel\<close> are what a reader and a writer owe each other.
  \<^item> \<open>Fse_Ncount\<close>, \<open>Fse\<close>, \<open>Fse_Split\<close>: \<^verbatim>\<open>fse.rs\<close>, the table description, the spread, the decode table
    and the decoder. \<open>Fse_Encode\<close>, \<open>Fse_Stream\<close>, \<open>Ncount_Write\<close>: \<^verbatim>\<open>encode/fse.rs\<close>, the encode table,
    the two-state stream and the description writer with the normalization; the locale \<open>fse_pair\<close> is
    the contract of an encode table and a decode table.
  \<^item> \<open>Huff\<close>, \<open>Huff_Decode\<close>, \<open>Literals\<close>: \<^verbatim>\<open>huff.rs\<close>, \<^verbatim>\<open>literals.rs\<close>.
  \<^item> \<open>Sequences\<close>, \<open>Block\<close>, \<open>Dict\<close>, \<open>Frame\<close>: the rest of the one-shot decoder.
  \<^item> \<open>Streaming\<close>: \<^verbatim>\<open>streaming.rs\<close>, refined to the one-shot decoder.
  \<^item> \<open>Xxhash\<close>: \<^verbatim>\<open>xxhash.rs\<close>, one-shot and incremental.
  \<^item> \<open>Store\<close>, \<open>Params\<close>: store mode and the headers of \<^verbatim>\<open>encode/block.rs\<close> and \<^verbatim>\<open>encode/frame.rs\<close>,
    the parameter tables of \<^verbatim>\<open>encode/params.rs\<close> and \<^verbatim>\<open>encode/options.rs\<close>.
  \<^item> \<open>Seek\<close>: \<^verbatim>\<open>seekable.rs\<close>; the frame compressor is the locale \<open>frame_codec\<close>.
  \<^item> \<open>Seq_Encode\<close>, \<open>Seq_Stream\<close>, \<open>Seq_Codec\<close>: \<^verbatim>\<open>encode/sequences.rs\<close>, the codes, the choice of the
    tables and the bit stream, read back by the decoder of \<open>Sequences\<close>.
  \<^item> \<open>Huff_Encode\<close>, \<open>Huff_Lengths\<close>, \<open>Huff_Stream\<close>, \<open>Huff_Codec\<close>: \<^verbatim>\<open>encode/huff.rs\<close>, the code lengths (a
    heap, the length limit, the canonical assignment), the streams, the weight headers and the literals
    sections with the choice among them.
  \<^item> \<open>Block_Encode\<close>: the compressed blocks of \<^verbatim>\<open>encode/block.rs\<close> (one block, the splitter, the choice among
    parses), related to the decoder by what the sequences describe (\<open>describes\<close>) and by tables that are
    in step (\<open>in_step\<close>).
  \<^item> \<open>Lz\<close>, \<open>Lz_Fast\<close>, \<open>Lz_Lazy\<close>, \<open>Lz_Chain\<close>, \<open>Lz_Tree\<close>, \<open>Lz_Hybrid\<close>: \<^verbatim>\<open>encode/lz.rs\<close>, what the finders share
    (hashes, match lengths, repeat offsets, the index slide), the fast and double-fast parses, the lazy
    parse, the hash chains, the binary tree and the hybrid of the two. The locale \<open>position_index\<close> is what
    the lazy parse asks of an index of positions: the chain and the hybrid provide it.
  \<^item> \<open>Lz_Prices\<close>, \<open>Lz_Dp\<close>, \<open>Lz_Opt\<close>: the price model, the dynamic program over the positions of a block
    and the optimal parse with its match collection, its alternatives and its statistics across blocks.
  \<^item> \<open>Lz_Finder\<close>, \<open>Ldm\<close>: the finder of a strategy, and long-distance matching (\<^verbatim>\<open>encode/ldm.rs\<close>) with the
    combined parse.
  \<^item> \<open>Lz_Slide\<close>: the invariant of a finder when its buffer moves: bytes are appended, a prefix is dropped and
    the positions are reduced by a multiple of the ring sizes (\<open>finder_inv_reduce\<close>).
  \<^item> \<open>Frame_Encode\<close>: \<^verbatim>\<open>encode/frame.rs\<close> and the entry point of \<^verbatim>\<open>encode/options.rs\<close>. The locale \<open>block_writer\<close>
    is the contract of what writes one block; the three modes of the encoder provide it.
  \<^item> \<open>Dict_Encode\<close>: compression with a dictionary: the encoder's tables that are seeded from the parsed
    dictionary are in step with the decoder's.
  \<^item> \<open>Stream_Encode\<close>, \<open>Stream_Session\<close>: \<^verbatim>\<open>encode/stream.rs\<close>, the state of the streaming encoder, its blocks and the slide
    of its buffer; sessions of pushes and of taking output, which are equal to one push (\<open>session_canonical\<close>).
  \<^item> \<open>Parallel_Encode\<close>: \<^verbatim>\<open>encode/parallel.rs\<close>, one frame from the segments of several workers; a worker's unknown
    repeat offsets are related to the true ones of the decoder (\<open>heals\<close>).

  \<^bold>\<open>What is shown.\<close> For the decoder: it never panics, its output is bounded, its parts agree with simple
  references, the streaming decoder refines it. For the encoder, from the bottom up: the bit writer and
  the entropy coders are read back; every section is; every finder keeps an invariant of its index
  (a table entry is an earlier position, a ring slot holds the position that it stands for) under which
  its parse describes the block; whichever parse is emitted, and however it is split, the decoder in step
  with the encoder regenerates the block. Together: compression returns a frame that decodes to the input. The
  streaming encoder does too, whatever the pieces are in which its input arrives, with a bounded buffer.

  \<^bold>\<open>Bounds.\<close> Loops are structural, over index ranges, or with a measure; where the code's loop could stay in
  place the model has the value \<open>Hang\<close>, which the properties exclude. The walk of a hash chain and of the
  binary tree takes the search depth of the code as its bound. Prices are natural numbers: a
  cell of the dynamic program is replaced only by a smaller one, below a quarter of the range of
  \<^verbatim>\<open>u64\<close>, so that the sums of the code do not wrap.

  \<^bold>\<open>Not modelled.\<close> The scheduling of threads (a worker of \<^verbatim>\<open>encode/parallel.rs\<close> or
  \<^verbatim>\<open>seekable.rs\<close> reads shared data and returns a value, so that it is a call); the dictionary trainer
  (\<^verbatim>\<open>encode/train.rs\<close>); re-exports, I/O adapters and tests (\<^verbatim>\<open>encode/mod.rs\<close>, \<^verbatim>\<open>lib.rs\<close>, \<^verbatim>\<open>testutil.rs\<close>).
\<close>

end
